(* ===== verification/Prelude.thy ===== *)
theory Prelude
  imports Main "HOL-Library.Word"
begin

text \<open>
  Shared ground of the development: the collections the component theories put their automation
  in, the C idioms they all use (unsigned wrap-around, alignment, bit fields, list macros), and
  the generic lemmas on lists, options and words that carry the component proofs.

  C values are modelled as follows. A register offset, a page number, an index or a count is a
  \<^typ>\<open>nat\<close>, with \<open>u32\<close> / \<open>u64\<close> written where the C expression may wrap; a command dword is a
  \<^typ>\<open>32 word\<close>. The \<open>list_head\<close> lists of util/list.h are Isabelle lists, head first.
\<close>

unbundle bit_operations_syntax

named_theorems inv_intros "introduction rules that establish a component invariant"
named_theorems inv_simps "what a component invariant gives"
named_theorems op_defs "definitions of the operations a proof unfolds together"

type_synonym dword = "32 word"

section \<open>Unsigned arithmetic of C\<close>

definition u32 :: "nat \<Rightarrow> nat" where
  "u32 x = x mod 2 ^ 32"

definition u64 :: "nat \<Rightarrow> nat" where
  "u64 x = x mod 2 ^ 64"

lemma u32_id [simp]: "x < 2 ^ 32 \<Longrightarrow> u32 x = x"
  by (simp add: u32_def)

lemma u64_id [simp]: "x < 2 ^ 64 \<Longrightarrow> u64 x = x"
  by (simp add: u64_def)

lemma u32_less [simp]: "u32 x < 2 ^ 32"
  by (simp add: u32_def)

lemma u64_less [simp]: "u64 x < 2 ^ 64"
  by (simp add: u64_def)

text \<open>\<open>DIV_ROUND_UP\<close> of util/macros.h, \<open>align64\<close> and \<open>util_next_power_of_two\<close> style helpers.\<close>

definition div_round_up :: "nat \<Rightarrow> nat \<Rightarrow> nat" where
  "div_round_up a b = (a + b - 1) div b"

lemma div_round_up_mult_ge: "0 < b \<Longrightarrow> a \<le> div_round_up a b * b"
proof -
  assume b: "0 < b"
  have "(a + b - 1) mod b < b" using b by simp
  moreover have "(a + b - 1) div b * b + (a + b - 1) mod b = a + b - 1" by simp
  ultimately show ?thesis using b unfolding div_round_up_def by linarith
qed

lemma div_round_up_mult_less: "0 < b \<Longrightarrow> 0 < a \<Longrightarrow> div_round_up a b * b < a + b"
proof -
  assume "0 < b" "0 < a"
  moreover have "(a + b - 1) div b * b \<le> a + b - 1" by simp
  ultimately show ?thesis unfolding div_round_up_def by linarith
qed

section \<open>Lists\<close>

lemma distinct_remove1_set: "distinct xs \<Longrightarrow> set (remove1 x xs) = set xs - {x}"
  by (rule set_remove1_eq)

lemma length_remove1_in: "x \<in> set xs \<Longrightarrow> length (remove1 x xs) = length xs - 1"
  by (simp add: length_remove1)

lemma ex_less_list_ex:
  assumes "\<not> P 0"
  shows "(\<exists>k<num. P k) \<longleftrightarrow> list_ex P [1..<num]"
proof
  assume "\<exists>k<num. P k"
  then obtain k where "k < num" "P k" by blast
  moreover from this assms have "1 \<le> k" by (cases k) auto
  ultimately show "list_ex P [1..<num]" by (auto simp: list_ex_iff)
next
  assume "list_ex P [1..<num]"
  then show "\<exists>k<num. P k" by (auto simp: list_ex_iff)
qed

lemma sum_list_update_nat:
  fixes xs :: "nat list"
  assumes "i < length xs"
  shows "sum_list (xs[i := y]) + xs ! i = sum_list xs + y"
  using assms by (induction xs arbitrary: i) (auto simp: nth_Cons split: nat.split)

end
