(* ===== verification/TitanRegmap.thy ===== *)
theory TitanRegmap
  imports Prelude
begin

text \<open>
  The register remap of the Xclipse 530 (TITAN): amd/common/ac_titan_regmap.h (the hand-recovered
  table, the level switches, the run checker), amd/common/ac_titan_kmap.h (the table taken from
  the vendor kernel) and the validator, the override parser and \<open>ac_titan_regmap_set_level\<close> of
  amd/common/ac_gpu_info.c.

  Register offsets are dword offsets inside one register space, so \<^typ>\<open>nat\<close>. The globals the
  header declares (\<open>ac_titan_regmap_active\<close>, \<open>\<dots>_level\<close>, \<open>\<dots>_suppress\<close>, \<open>\<dots>_hits\<close> and the override
  arrays) are one record; the process environment is an argument. The static caches of the knob
  readers only memoise \<open>getenv\<close>, which the environment argument makes constant.
\<close>

section \<open>The C library the knobs use\<close>

type_synonym c_env = "string \<Rightarrow> string option"

definition c_isspace :: "char \<Rightarrow> bool" where
  "c_isspace c = (c = CHR '' '' \<or> (9 \<le> (of_char c :: nat) \<and> (of_char c :: nat) \<le> 13))"

definition c_digit :: "char \<Rightarrow> nat option" where
  "c_digit c =
     (let n = of_char c :: nat in
      if 48 \<le> n \<and> n \<le> 57 then Some (n - 48)
      else if 97 \<le> n \<and> n \<le> 122 then Some (n - 87)
      else if 65 \<le> n \<and> n \<le> 90 then Some (n - 55)
      else None)"

definition c_isdigit_base :: "nat \<Rightarrow> char \<Rightarrow> bool" where
  "c_isdigit_base b c = (case c_digit c of None \<Rightarrow> False | Some d \<Rightarrow> d < b)"

definition c_digits_value :: "nat \<Rightarrow> string \<Rightarrow> nat" where
  "c_digits_value b ds = foldl (\<lambda>a c. b * a + the (c_digit c)) 0 ds"

definition c_sign :: "string \<Rightarrow> bool \<times> string" where
  "c_sign s = (case s of [] \<Rightarrow> (False, s)
     | c # r \<Rightarrow> if c = CHR ''-'' then (True, r) else if c = CHR ''+'' then (False, r)
               else (False, s))"

definition c_atoi :: "string \<Rightarrow> int" where
  "c_atoi s =
     (let (neg, r) = c_sign (dropWhile c_isspace s);
          v = int (c_digits_value 10 (takeWhile (c_isdigit_base 10) r))
      in if neg then - v else v)"

text \<open>
  \<open>strtoul (s, &end, base)\<close> with a 64-bit \<open>unsigned long\<close>: the value and the unparsed rest, which
  is the whole of \<open>s\<close> when there is no digit. Base 0 takes the base from the prefix.
\<close>

definition has_0x :: "string \<Rightarrow> bool" where
  "has_0x s = (case s of z # x # d # _ \<Rightarrow>
     z = CHR ''0'' \<and> (x = CHR ''x'' \<or> x = CHR ''X'') \<and> c_isdigit_base 16 d | _ \<Rightarrow> False)"

definition c_strtoul :: "string \<Rightarrow> nat \<Rightarrow> nat \<times> string" where
  "c_strtoul s base0 =
     (let (neg, r) = c_sign (dropWhile c_isspace s);
          base = (if base0 = 0
                  then (if has_0x r then 16 else if take 1 r = ''0'' then 8 else 10)
                  else base0);
          r' = (if base = 16 \<and> has_0x r then drop 2 r else r);
          ds = takeWhile (c_isdigit_base base) r';
          v = c_digits_value base ds
      in if ds = [] then (0, s)
         else (if 2 ^ 64 \<le> v then 2 ^ 64 - 1 else if neg then (2 ^ 64 - v) mod 2 ^ 64 else v,
               dropWhile (c_isdigit_base base) r'))"

section \<open>Configuration\<close>

record titan_cfg =
  regmap_active :: bool
  regmap_level :: nat
  regmap_suppress :: bool
  regmap_hits :: nat
  mapovr :: "(nat \<times> nat) list"

definition SI_SH_REG_OFFSET :: nat where "SI_SH_REG_OFFSET = 0x0000B000"
definition SI_SH_REG_END :: nat where "SI_SH_REG_END = 0x0000C000"
definition SI_CONTEXT_REG_OFFSET :: nat where "SI_CONTEXT_REG_OFFSET = 0x00028000"
definition SI_CONTEXT_REG_END :: nat where "SI_CONTEXT_REG_END = 0x00030000"
definition CIK_UCONFIG_REG_OFFSET :: nat where "CIK_UCONFIG_REG_OFFSET = 0x00030000"
definition CIK_UCONFIG_REG_END :: nat where "CIK_UCONFIG_REG_END = 0x00040000"

lemmas reg_space_defs =
  SI_SH_REG_OFFSET_def SI_SH_REG_END_def SI_CONTEXT_REG_OFFSET_def SI_CONTEXT_REG_END_def
  CIK_UCONFIG_REG_OFFSET_def CIK_UCONFIG_REG_END_def

text \<open>An integer knob: unset and empty take the default.\<close>

definition env_int :: "c_env \<Rightarrow> string \<Rightarrow> int \<Rightarrow> int" where
  "env_int env name dflt =
     (case env name of None \<Rightarrow> dflt | Some e \<Rightarrow> if e = [] then dflt else c_atoi e)"

definition ac_titan_kmap_level :: "c_env \<Rightarrow> nat" where
  "ac_titan_kmap_level env = nat (env_int env ''RADV_XCLIPSE_KMAP'' 3 mod 2 ^ 32)"

definition ac_titan_legacy_pgm_hi :: "c_env \<Rightarrow> bool" where
  "ac_titan_legacy_pgm_hi env =
     (case env ''RADV_XCLIPSE_TITAN_PGMHI'' of
        None \<Rightarrow> ac_titan_kmap_level env < 2
      | Some e \<Rightarrow> if e = [] then ac_titan_kmap_level env < 2 else c_atoi e \<noteq> 0)"

definition ac_titan_db_active :: "titan_cfg \<Rightarrow> bool" where
  "ac_titan_db_active cfg = (regmap_active cfg \<and> 10 \<le> regmap_level cfg)"

definition ac_titan_tex_iterate256 :: "c_env \<Rightarrow> titan_cfg \<Rightarrow> bool" where
  "ac_titan_tex_iterate256 env cfg =
     (regmap_active cfg \<and> env_int env ''RADV_XCLIPSE_TEXIT256'' 0 \<noteq> 0)"

definition ac_titan_preamble_remap :: "c_env \<Rightarrow> bool" where
  "ac_titan_preamble_remap env = (env_int env ''RADV_XCLIPSE_PREMAP'' 1 \<noteq> 0)"

definition ac_titan_spi_slot :: "c_env \<Rightarrow> string \<Rightarrow> nat \<Rightarrow> nat" where
  "ac_titan_spi_slot env name dflt =
     (case env name of None \<Rightarrow> dflt | Some e \<Rightarrow> if e = [] then dflt else u32 (fst (c_strtoul e 0)))"

section \<open>The vendor kernel's table\<close>

text \<open>The switches of ac_titan_kmap.h, as association lists; an offset not listed stays.\<close>

definition switch_dw :: "(nat \<times> nat) list \<Rightarrow> nat \<Rightarrow> nat" where
  "switch_dw tab dw = (case map_of tab dw of None \<Rightarrow> dw | Some to \<Rightarrow> to)"

definition kmap_ctx_table :: "(nat \<times> nat) list" where
  "kmap_ctx_table = [
    (0x000, 0x019), (0x002, 0x016), (0x004, 0x017), (0x005, 0x00e), (0x007, 0x00f),
    (0x00f, 0x007), (0x016, 0x002), (0x017, 0x004), (0x018, 0x2af), (0x019, 0x000),
    (0x01a, 0x01f), (0x01b, 0x023), (0x01c, 0x022), (0x01f, 0x01a), (0x08e, 0x37a),
    (0x08f, 0x37b), (0x0b4, 0x117), (0x0b5, 0x118), (0x0b6, 0x11f), (0x0b7, 0x120),
    (0x0b8, 0x127), (0x0b9, 0x128), (0x0ba, 0x12f), (0x0bb, 0x130), (0x0bc, 0x137),
    (0x0bd, 0x138), (0x0be, 0x13f), (0x0bf, 0x140), (0x0c0, 0x147), (0x0c1, 0x148),
    (0x0c2, 0x14f), (0x0c3, 0x150), (0x0c4, 0x157), (0x0c5, 0x158), (0x0c6, 0x15f),
    (0x0c7, 0x160), (0x0c8, 0x167), (0x0c9, 0x168), (0x0ca, 0x16f), (0x0cb, 0x170),
    (0x0cc, 0x177), (0x0cd, 0x178), (0x0ce, 0x17f), (0x0cf, 0x180), (0x0d0, 0x187),
    (0x0d1, 0x188), (0x0d2, 0x18f), (0x0d3, 0x190), (0x10a, 0x379), (0x10b, 0x201),
    (0x10c, 0x0fa), (0x10d, 0x0fb), (0x10f, 0x111), (0x110, 0x112), (0x111, 0x113),
    (0x112, 0x114), (0x113, 0x115), (0x114, 0x116), (0x115, 0x119), (0x116, 0x11a),
    (0x117, 0x11b), (0x118, 0x11c), (0x119, 0x11d), (0x11a, 0x11e), (0x11b, 0x121),
    (0x11c, 0x122), (0x11d, 0x123), (0x11e, 0x124), (0x11f, 0x125), (0x120, 0x126),
    (0x121, 0x129), (0x122, 0x12a), (0x123, 0x12b), (0x124, 0x12c), (0x125, 0x12d),
    (0x126, 0x12e), (0x127, 0x131), (0x128, 0x132), (0x129, 0x133), (0x12a, 0x134),
    (0x12b, 0x135), (0x12c, 0x136), (0x12d, 0x139), (0x12e, 0x13a), (0x12f, 0x13b),
    (0x130, 0x13c), (0x131, 0x13d), (0x132, 0x13e), (0x133, 0x141), (0x134, 0x142),
    (0x135, 0x143), (0x136, 0x144), (0x137, 0x145), (0x138, 0x146), (0x139, 0x149),
    (0x13a, 0x14a), (0x13b, 0x14b), (0x13c, 0x14c), (0x13d, 0x14d), (0x13e, 0x14e),
    (0x13f, 0x151), (0x140, 0x152), (0x141, 0x153), (0x142, 0x154), (0x143, 0x155),
    (0x144, 0x156), (0x145, 0x159), (0x146, 0x15a), (0x147, 0x15b), (0x148, 0x15c),
    (0x149, 0x15d), (0x14a, 0x15e), (0x14b, 0x161), (0x14c, 0x162), (0x14d, 0x163),
    (0x14e, 0x164), (0x14f, 0x165), (0x150, 0x166), (0x151, 0x169), (0x152, 0x16a),
    (0x153, 0x16b), (0x154, 0x16c), (0x155, 0x16d), (0x156, 0x16e), (0x157, 0x171),
    (0x158, 0x172), (0x159, 0x173), (0x15a, 0x174), (0x15b, 0x175), (0x15c, 0x176),
    (0x15d, 0x179), (0x15e, 0x17a), (0x15f, 0x17b), (0x160, 0x17c), (0x161, 0x17d),
    (0x162, 0x17e), (0x163, 0x181), (0x164, 0x182), (0x165, 0x183), (0x166, 0x184),
    (0x167, 0x185), (0x168, 0x186), (0x169, 0x189), (0x16a, 0x18a), (0x16b, 0x18b),
    (0x16c, 0x18c), (0x16d, 0x18d), (0x16e, 0x18e), (0x16f, 0x0b4), (0x170, 0x0b5),
    (0x171, 0x0b6), (0x172, 0x0b7), (0x173, 0x0b8), (0x174, 0x0b9), (0x175, 0x0ba),
    (0x176, 0x0bb), (0x177, 0x0bc), (0x178, 0x0bd), (0x179, 0x0be), (0x17a, 0x0bf),
    (0x17b, 0x0c0), (0x17c, 0x0c1), (0x17d, 0x0c2), (0x17e, 0x0c3), (0x17f, 0x0c4),
    (0x180, 0x0c5), (0x181, 0x0c6), (0x182, 0x0c7), (0x183, 0x0c8), (0x184, 0x0c9),
    (0x185, 0x0ca), (0x186, 0x0cb), (0x187, 0x0cc), (0x188, 0x0cd), (0x191, 0x199),
    (0x192, 0x19a), (0x193, 0x19b), (0x194, 0x19c), (0x195, 0x19d), (0x196, 0x19e),
    (0x197, 0x19f), (0x198, 0x1a0), (0x199, 0x1a1), (0x19a, 0x1a2), (0x19b, 0x1a3),
    (0x19c, 0x1a4), (0x19d, 0x1a5), (0x19e, 0x1a6), (0x19f, 0x1a7), (0x1a0, 0x1a8),
    (0x1a1, 0x1a9), (0x1a2, 0x1aa), (0x1a3, 0x1ab), (0x1a4, 0x1ac), (0x1a5, 0x1ad),
    (0x1a6, 0x1ae), (0x1a7, 0x1af), (0x1a8, 0x1b0), (0x1a9, 0x1b1), (0x1aa, 0x1b2),
    (0x1ab, 0x1b3), (0x1ac, 0x1b4), (0x1ad, 0x1b5), (0x1ae, 0x1b6), (0x1af, 0x1b7),
    (0x1b0, 0x1b8), (0x1b1, 0x1c3), (0x1b3, 0x197), (0x1b4, 0x198), (0x1b5, 0x191),
    (0x1b6, 0x1c4), (0x1b7, 0x1c2), (0x1b8, 0x196), (0x1c2, 0x192), (0x1c3, 0x193),
    (0x1c4, 0x194), (0x1c5, 0x195), (0x201, 0x01b), (0x202, 0x378), (0x204, 0x205),
    (0x205, 0x204), (0x291, 0x2a9), (0x292, 0x310), (0x2a1, 0x2a5), (0x2a6, 0x2a8),
    (0x2aa, 0x2db), (0x2ab, 0x2d0), (0x2ad, 0x2a7), (0x2af, 0x018), (0x2d5, 0x2a6),
    (0x2db, 0x2aa), (0x2dc, 0x01c), (0x2e4, 0x2cf), (0x2f5, 0x2fc), (0x2f6, 0x2fd),
    (0x2fa, 0x10d), (0x2fb, 0x10e), (0x2fc, 0x10f), (0x2fd, 0x110), (0x310, 0x316),
    (0x313, 0x315), (0x315, 0x313), (0x31b, 0x319), (0x31c, 0x360), (0x31d, 0x31a),
    (0x31e, 0x31b), (0x31f, 0x31c), (0x321, 0x31d), (0x323, 0x368), (0x324, 0x369),
    (0x325, 0x31e), (0x327, 0x321), (0x32a, 0x322), (0x32b, 0x361), (0x32c, 0x323),
    (0x32d, 0x324), (0x32e, 0x325), (0x330, 0x326), (0x332, 0x36a), (0x333, 0x36b),
    (0x334, 0x327), (0x336, 0x32a), (0x339, 0x32b), (0x33a, 0x362), (0x33b, 0x32c),
    (0x33c, 0x32d), (0x33d, 0x32e), (0x33f, 0x32f), (0x341, 0x36c), (0x342, 0x36d),
    (0x343, 0x330), (0x345, 0x333), (0x348, 0x334), (0x349, 0x363), (0x34a, 0x335),
    (0x34b, 0x336), (0x34c, 0x337), (0x34e, 0x338), (0x350, 0x36e), (0x351, 0x36f),
    (0x352, 0x339), (0x354, 0x33c), (0x357, 0x33d), (0x358, 0x364), (0x359, 0x33e),
    (0x35a, 0x33f), (0x35b, 0x340), (0x35d, 0x341), (0x35f, 0x370), (0x360, 0x371),
    (0x361, 0x342), (0x363, 0x345), (0x366, 0x346), (0x367, 0x365), (0x368, 0x347),
    (0x369, 0x348), (0x36a, 0x349), (0x36c, 0x34a), (0x36e, 0x372), (0x36f, 0x373),
    (0x370, 0x34b), (0x372, 0x34e), (0x375, 0x34f), (0x376, 0x366), (0x377, 0x350),
    (0x378, 0x351), (0x379, 0x352), (0x37b, 0x353), (0x37d, 0x374), (0x37e, 0x375),
    (0x37f, 0x354), (0x381, 0x357), (0x384, 0x358), (0x385, 0x367), (0x386, 0x359),
    (0x387, 0x35a), (0x388, 0x35b), (0x38a, 0x35c), (0x38c, 0x376), (0x38d, 0x377),
    (0x38e, 0x35d), (0x3b0, 0x31f), (0x3b1, 0x328), (0x3b2, 0x331), (0x3b3, 0x33a),
    (0x3b4, 0x343), (0x3b5, 0x34c), (0x3b6, 0x355), (0x3b7, 0x35e), (0x3b8, 0x320),
    (0x3b9, 0x329), (0x3ba, 0x332), (0x3bb, 0x33b), (0x3bc, 0x344), (0x3bd, 0x34d),
    (0x3be, 0x356), (0x3bf, 0x35f)]"

definition kmap_sh_table :: "(nat \<times> nat) list" where
  "kmap_sh_table = [
    (0x007, 0x000), (0x081, 0x08b), (0x087, 0x08a), (0x08a, 0x084), (0x08b, 0x085),
    (0x0c8, 0x086), (0x0c9, 0x087), (0x101, 0x10b), (0x107, 0x10a), (0x10a, 0x104),
    (0x10b, 0x105), (0x148, 0x106), (0x149, 0x107)]"

definition kmap_ucfg_table :: "(nat \<times> nat) list" where
  "kmap_ucfg_table = [
    (0x261, 0x262), (0x262, 0x261)]"

definition ac_titan_kmap_ctx :: "nat \<Rightarrow> nat" where
  "ac_titan_kmap_ctx dw = switch_dw kmap_ctx_table dw"

definition ac_titan_kmap_sh :: "nat \<Rightarrow> nat" where
  "ac_titan_kmap_sh dw = switch_dw kmap_sh_table dw"

definition ac_titan_kmap_ucfg :: "nat \<Rightarrow> nat" where
  "ac_titan_kmap_ucfg dw = switch_dw kmap_ucfg_table dw"

section \<open>The hand-recovered table\<close>

text \<open>
  One switch per level, and the block formulas between them, in the order of \<open>ac_titan_ctx_dw\<close>.
  The two SPI slots of level 4 can be overridden from the environment.
\<close>

definition hand_l1_table :: "(nat \<times> nat) list" where
  "hand_l1_table = [(0x2d5, 0x2a6), (0x2a6, 0x2a8), (0x10c, 0x0fa), (0x10d, 0x0fb)]"

definition hand_l4_table :: "c_env \<Rightarrow> (nat \<times> nat) list" where
  "hand_l4_table env = [
     (0x1b5, 0x191), (0x1c2, 0x192), (0x1c3, 0x193), (0x1c4, 0x194), (0x1c5, 0x195),
     (0x1b8, 0x196), (0x1b3, 0x197), (0x1b4, 0x198),
     (0x1b1, ac_titan_spi_slot env ''RADV_XCLIPSE_SPIVOC'' 0x1c3),
     (0x1b6, ac_titan_spi_slot env ''RADV_XCLIPSE_SPIPIC'' 0x1c4),
     (0x2fa, 0x10d), (0x2fb, 0x10e), (0x2fc, 0x10f), (0x2fd, 0x110)]"

definition hand_l6_table :: "(nat \<times> nat) list" where
  "hand_l6_table = [(0x291, 0x2a9), (0x2e4, 0x2d0)]"

definition hand_l8_table :: "(nat \<times> nat) list" where
  "hand_l8_table = [(0x202, 0x378), (0x08e, 0x37a), (0x08f, 0x37b)]"

definition hand_l10_table :: "(nat \<times> nat) list" where
  "hand_l10_table = [(0x000, 0x019), (0x004, 0x017), (0x005, 0x00e), (0x007, 0x00f),
     (0x01f, 0x01a), (0x10b, 0x201), (0x201, 0x01b), (0x2af, 0x018), (0x2dc, 0x01c)]"

definition hand_ctx_dw :: "c_env \<Rightarrow> nat \<Rightarrow> nat \<Rightarrow> nat" where
  "hand_ctx_dw env level dw =
     (case map_of hand_l1_table dw of Some to \<Rightarrow> to | None \<Rightarrow>
      if 0x10f \<le> dw \<and> dw < 0x10f + 8 * 16 then dw + 2
      else if level < 4 then dw
      else if 0x191 \<le> dw \<and> dw \<le> 0x1b0 then dw + 8
      else case map_of (hand_l4_table env) dw of Some to \<Rightarrow> to | None \<Rightarrow>
      if level < 6 then dw
      else case map_of hand_l6_table dw of Some to \<Rightarrow> to | None \<Rightarrow>
      if level < 8 then dw
      else case map_of hand_l8_table dw of Some to \<Rightarrow> to | None \<Rightarrow>
      if level < 9 then dw
      else if 0x318 \<le> dw \<and> dw < 0x318 + 0x0f * 8 \<and> (dw - 0x318) mod 0x0f = 0
           then 0x318 + 9 * ((dw - 0x318) div 0x0f)
      else if 0x318 \<le> dw \<and> dw < 0x318 + 0x0f * 8 \<and> (dw - 0x318) mod 0x0f = 4
           then 0x360 + (dw - 0x318) div 0x0f
      else if 0x3b0 \<le> dw \<and> dw < 0x3b8 then 0x31f + 9 * (dw - 0x3b0)
      else if 0x3b8 \<le> dw \<and> dw < 0x3c0 then 0x320 + 9 * (dw - 0x3b8)
      else if level < 10 then dw
      else switch_dw hand_l10_table dw)"

definition ac_titan_ctx_dw :: "c_env \<Rightarrow> titan_cfg \<Rightarrow> nat \<Rightarrow> nat" where
  "ac_titan_ctx_dw env cfg dw =
     (case map_of (mapovr cfg) dw of Some to \<Rightarrow> to
      | None \<Rightarrow>
        if 1 \<le> ac_titan_kmap_level env then ac_titan_kmap_ctx dw
        else hand_ctx_dw env (regmap_level cfg) dw)"

definition hand_sh_dw :: "nat \<Rightarrow> nat \<Rightarrow> nat" where
  "hand_sh_dw level dw =
     (if dw = 0x0c8 then 0x086
      else if level < 3 then dw
      else if dw = 0x08a then 0x084
      else if dw = 0x08b then 0x085
      else dw)"

definition ac_titan_sh_dw :: "c_env \<Rightarrow> titan_cfg \<Rightarrow> nat \<Rightarrow> nat" where
  "ac_titan_sh_dw env cfg dw =
     (if 2 \<le> ac_titan_kmap_level env then ac_titan_kmap_sh dw
      else hand_sh_dw (regmap_level cfg) dw)"

definition ac_titan_sh_suppressed :: "titan_cfg \<Rightarrow> nat \<Rightarrow> bool" where
  "ac_titan_sh_suppressed cfg reg =
     (let dw = (reg - SI_SH_REG_OFFSET) div 4 in
      if \<not> regmap_active cfg \<or> regmap_level cfg < 2 \<or> \<not> regmap_suppress cfg then False
      else dw = 0x087 \<or> dw = 0x081)"

section \<open>Remapping a write\<close>

definition ac_titan_remap_dw_quiet :: "c_env \<Rightarrow> titan_cfg \<Rightarrow> nat \<Rightarrow> nat \<Rightarrow> nat" where
  "ac_titan_remap_dw_quiet env cfg base dw =
     (if \<not> regmap_active cfg then dw
      else if base = SI_CONTEXT_REG_OFFSET then ac_titan_ctx_dw env cfg dw
      else if base = SI_SH_REG_OFFSET then ac_titan_sh_dw env cfg dw
      else if base = CIK_UCONFIG_REG_OFFSET \<and> 3 \<le> ac_titan_kmap_level env
           then ac_titan_kmap_ucfg dw
      else dw)"

definition ac_titan_run_split :: "c_env \<Rightarrow> titan_cfg \<Rightarrow> nat \<Rightarrow> nat \<Rightarrow> nat \<Rightarrow> bool" where
  "ac_titan_run_split env cfg base dw num =
     (if \<not> regmap_active cfg then False
      else let d0 = ac_titan_remap_dw_quiet env cfg base dw in
        list_ex (\<lambda>k. ac_titan_remap_dw_quiet env cfg base (dw + k) \<noteq> d0 + k) [1..<num])"

definition ac_titan_remap_dw :: "c_env \<Rightarrow> titan_cfg \<Rightarrow> nat \<Rightarrow> nat \<Rightarrow> nat \<times> titan_cfg" where
  "ac_titan_remap_dw env cfg base dw =
     (if \<not> regmap_active cfg then (dw, cfg)
      else let out = (if base = SI_CONTEXT_REG_OFFSET then ac_titan_ctx_dw env cfg dw
                      else if base = SI_SH_REG_OFFSET then ac_titan_sh_dw env cfg dw
                      else if base = CIK_UCONFIG_REG_OFFSET \<and> 3 \<le> ac_titan_kmap_level env
                           then ac_titan_kmap_ucfg dw
                      else dw)
           in (out, if out \<noteq> dw then cfg\<lparr>regmap_hits := u32 (regmap_hits cfg + 1)\<rparr> else cfg))"

text \<open>
  \<open>ac_titan_check_run\<close>: the first register of the run that leaves it, as the arguments
  \<open>(d0, dk, k)\<close> of \<open>ac_titan_report_split_run\<close>. \<open>enabled\<close> is the \<open>RADV_XCLIPSE_RUNCHECK\<close> knob.
\<close>

definition ac_titan_check_run ::
    "bool \<Rightarrow> c_env \<Rightarrow> titan_cfg \<Rightarrow> nat \<Rightarrow> nat \<Rightarrow> nat \<Rightarrow> (nat \<times> nat \<times> nat) option" where
  "ac_titan_check_run enabled env cfg base dw num =
     (if \<not> enabled \<or> \<not> regmap_active cfg \<or> num < 2 then None
      else if base = SI_CONTEXT_REG_OFFSET \<and> dw = 0x10f then None
      else let d0 = ac_titan_remap_dw_quiet env cfg base dw in
        map_option (\<lambda>k. (d0, ac_titan_remap_dw_quiet env cfg base (dw + k), k))
          (List.find (\<lambda>k. ac_titan_remap_dw_quiet env cfg base (dw + k) \<noteq> d0 + k) [1..<num]))"

section \<open>The validator\<close>

definition AC_TITAN_CTX_DWORDS :: nat where
  "AC_TITAN_CTX_DWORDS = (SI_CONTEXT_REG_END - SI_CONTEXT_REG_OFFSET) div 4"

definition AC_TITAN_SH_DWORDS :: nat where
  "AC_TITAN_SH_DWORDS = (SI_SH_REG_END - SI_SH_REG_OFFSET) div 4"

record check_state =
  src_of :: "nat \<Rightarrow> nat"
  n_moved :: nat
  n_warn :: nat
  fatal :: bool

definition check_init :: check_state where
  "check_init = \<lparr>src_of = (\<lambda>_. 0), n_moved = 0, n_warn = 0, fatal = False\<rparr>"

definition check_step :: "(nat \<Rightarrow> nat) \<Rightarrow> nat \<Rightarrow> nat \<Rightarrow> check_state \<Rightarrow> check_state" where
  "check_step remap n dw s =
     (let to = remap dw in
      if n \<le> to then s\<lparr>fatal := True\<rparr>
      else let s1 = (if to \<noteq> dw then s\<lparr>n_moved := n_moved s + 1\<rparr> else s) in
        if src_of s1 to \<noteq> 0 then
          (let other = src_of s1 to - 1;
               both_moved = (remap other \<noteq> other \<and> to \<noteq> dw)
           in if both_moved then s1\<lparr>fatal := True\<rparr> else s1\<lparr>n_warn := n_warn s1 + 1\<rparr>)
        else s1\<lparr>src_of := (src_of s1)(to := dw + 1)\<rparr>)"

definition ac_titan_check_space :: "nat \<Rightarrow> (nat \<Rightarrow> nat) \<Rightarrow> check_state" where
  "ac_titan_check_space n remap = fold (check_step remap n) [0..<n] check_init"

definition ac_titan_regmap_validate :: "c_env \<Rightarrow> titan_cfg \<Rightarrow> bool" where
  "ac_titan_regmap_validate env cfg =
     (\<not> fatal (ac_titan_check_space AC_TITAN_CTX_DWORDS (ac_titan_ctx_dw env cfg)) \<and>
      \<not> fatal (ac_titan_check_space AC_TITAN_SH_DWORDS (ac_titan_sh_dw env cfg)))"

section \<open>Overrides and activation\<close>

definition AC_TITAN_MAPOVR_MAX :: nat where
  "AC_TITAN_MAPOVR_MAX = 16"

text \<open>The loop of \<open>ac_titan_mapovr_parse\<close>; the first argument counts the free array slots.\<close>

fun mapovr_loop :: "nat \<Rightarrow> string \<Rightarrow> (nat \<times> nat) list" where
  "mapovr_loop 0 s = []"
| "mapovr_loop (Suc slots) s =
     (if s = [] then []
      else case c_strtoul s 16 of (src, end1) \<Rightarrow>
        if end1 = s \<or> take 1 end1 \<noteq> '':'' then []
        else case c_strtoul (drop 1 end1) 16 of (dst, end2) \<Rightarrow>
          if 0x3ff < src \<or> 0x3ff < dst then []
          else (src, dst) #
            (if take 1 end2 \<noteq> '','' then [] else mapovr_loop slots (drop 1 end2)))"

definition ac_titan_mapovr_parse :: "c_env \<Rightarrow> (nat \<times> nat) list" where
  "ac_titan_mapovr_parse env =
     (case env ''RADV_XCLIPSE_MAPOVR'' of None \<Rightarrow> [] | Some s \<Rightarrow> mapovr_loop AC_TITAN_MAPOVR_MAX s)"

definition ac_titan_regmap_set_level :: "c_env \<Rightarrow> nat \<Rightarrow> titan_cfg \<Rightarrow> titan_cfg" where
  "ac_titan_regmap_set_level env level cfg =
     (let cfg1 = cfg\<lparr>regmap_level := level, regmap_active := 0 < level,
                     mapovr := ac_titan_mapovr_parse env\<rparr>
      in if 0 < level \<and> \<not> ac_titan_regmap_validate env cfg1
         then cfg1\<lparr>regmap_active := False, regmap_level := 0\<rparr>
         else cfg1)"

section \<open>What the map promises\<close>

text \<open>
  \<open>moved_regs\<close> are the registers of a space the map moves. \<open>clobbers\<close> is the collision the
  validator reports as fatal: a moved register lands where the first register with that
  destination is itself moved. \<open>hand_inv\<close> reads a destination of the hand-recovered table back.
\<close>

definition clobbers :: "(nat \<Rightarrow> nat) \<Rightarrow> nat \<Rightarrow> bool" where
  "clobbers remap d =
     (remap d \<noteq> d \<and>
      (\<exists>f<d. remap f = remap d \<and> remap f \<noteq> f \<and> (\<forall>g<f. remap g \<noteq> remap d)))"

definition moved_regs :: "nat \<Rightarrow> (nat \<Rightarrow> nat) \<Rightarrow> nat set" where
  "moved_regs n remap = {d. d < n \<and> remap d \<noteq> d}"

definition first_src :: "(nat \<Rightarrow> nat) \<Rightarrow> nat \<Rightarrow> nat \<Rightarrow> nat \<Rightarrow> bool" where
  "first_src remap m to f = (f < m \<and> remap f = to \<and> (\<forall>g<f. remap g \<noteq> to))"

definition check_inv :: "(nat \<Rightarrow> nat) \<Rightarrow> nat \<Rightarrow> nat \<Rightarrow> check_state \<Rightarrow> bool" where
  "check_inv remap n m s =
     ((\<forall>to<n. (if src_of s to = 0 then \<forall>d<m. remap d \<noteq> to
               else first_src remap m to (src_of s to - 1))) \<and>
      fatal s = (\<exists>d<m. n \<le> remap d \<or> clobbers remap d) \<and>
      n_moved s = card {d. d < m \<and> remap d < n \<and> remap d \<noteq> d})"

definition hand_inv :: "nat \<Rightarrow> nat" where
  "hand_inv to =
     (case map_of (map prod.swap (hand_l1_table @ hand_l4_table Map.empty @ hand_l6_table @
                                  hand_l8_table @ hand_l10_table)) to of
        Some d \<Rightarrow> d
      | None \<Rightarrow>
        if 0x111 \<le> to \<and> to < 0x191 then to - 2
        else if 0x199 \<le> to \<and> to \<le> 0x1b8 then to - 8
        else if 0x360 \<le> to then 0x31c + 15 * (to - 0x360)
        else let q = (to - 0x318) div 9; r = (to - 0x318) mod 9 in
          if r = 0 then 0x318 + 15 * q else if r = 7 then 0x3b0 + q else 0x3b8 + q)"

definition hand_ok :: "nat \<Rightarrow> nat \<Rightarrow> bool" where
  "hand_ok dw to \<longleftrightarrow> to = dw \<or> (hand_inv to = dw \<and> to < 0x400)"

text \<open>The syntax the override knob documents: \<open>src:dst,src:dst,\<dots>\<close> in hex.\<close>

definition hex_digit :: "nat \<Rightarrow> char" where
  "hex_digit d = ''0123456789abcdef'' ! d"

fun hex_string :: "nat \<Rightarrow> string" where
  "hex_string n = (if n < 16 then [hex_digit n] else hex_string (n div 16) @ [hex_digit (n mod 16)])"

declare hex_string.simps [simp del]

fun mapovr_print :: "(nat \<times> nat) list \<Rightarrow> string" where
  "mapovr_print [] = []"
| "mapovr_print [(s, d)] = hex_string s @ '':'' @ hex_string d"
| "mapovr_print ((s, d) # p # ps) = hex_string s @ '':'' @ hex_string d @ '','' @ mapovr_print (p # ps)"

section \<open>The validator, the tables and the parser\<close>

lemma first_src_ex: "d < m \<Longrightarrow> remap d = to \<Longrightarrow> \<exists>f\<le>d. first_src remap m to f"
proof -
  assume d: "d < m" "remap d = to"
  let ?f = "LEAST x. remap x = to"
  have "remap ?f = to" using d(2) by (rule LeastI)
  moreover have "?f \<le> d" using d(2) by (rule Least_le)
  moreover have "\<forall>g<?f. remap g \<noteq> to" using not_less_Least by blast
  ultimately show ?thesis using d(1) unfolding first_src_def by (metis le_less_trans)
qed

lemma first_src_unique: "first_src remap m to f \<Longrightarrow> first_src remap m to g \<Longrightarrow> f = g"
  unfolding first_src_def by (metis linorder_neqE_nat)

lemma card_moved_Suc:
  "card {d. d < Suc m \<and> P d} = card {d. d < m \<and> P d} + (if P m then 1 else 0)"
proof -
  have "{d. d < Suc m \<and> P d} = {d. d < m \<and> P d} \<union> (if P m then {m} else {})"
    by (auto simp: less_Suc_eq)
  then show ?thesis by simp
qed

lemma first_src_Suc: "first_src remap m to f \<Longrightarrow> first_src remap (Suc m) to f"
  unfolding first_src_def by auto

lemma clobbers_first:
  assumes "first_src remap m (remap m) f"
  shows "clobbers remap m \<longleftrightarrow> remap m \<noteq> m \<and> remap f \<noteq> f"
  using assms unfolding clobbers_def first_src_def by (metis linorder_neqE_nat)

lemma check_step_inv:
  assumes "check_inv remap n m s"
  shows "check_inv remap n (Suc m) (check_step remap n m s)"
proof (cases "n \<le> remap m")
  case True
  then show ?thesis using assms
    by (auto simp: check_inv_def check_step_def Let_def less_Suc_eq card_moved_Suc [unfolded less_Suc_eq] first_src_Suc)
next
  case in_space: False
  show ?thesis
  proof (cases "src_of s (remap m) = 0")
    case True
    then have fresh: "\<forall>d<m. remap d \<noteq> remap m" using assms in_space by (auto simp: check_inv_def)
    then have "\<not> clobbers remap m" by (auto simp: clobbers_def)
    moreover have "first_src remap (Suc m) (remap m) m" using fresh by (simp add: first_src_def)
    ultimately show ?thesis using assms in_space True fresh
      by (auto simp: check_inv_def check_step_def Let_def less_Suc_eq card_moved_Suc [unfolded less_Suc_eq] first_src_Suc)
  next
    case False
    let ?f = "src_of s (remap m) - 1"
    have f: "first_src remap m (remap m) ?f"
      using assms in_space False unfolding check_inv_def by (metis not_le)
    show ?thesis using assms in_space False clobbers_first [OF f] first_src_Suc [OF f]
      by (auto simp: check_inv_def check_step_def Let_def less_Suc_eq card_moved_Suc [unfolded less_Suc_eq] first_src_Suc)
  qed
qed

lemma check_fold_inv: "check_inv remap n m (fold (check_step remap n) [0..<m] check_init)"
proof (induction m)
  case 0
  then show ?case by (simp add: check_inv_def check_init_def)
next
  case (Suc m)
  then show ?case by (simp add: check_step_inv)
qed

lemma check_space_fatal_iff:
  "fatal (ac_titan_check_space n remap) \<longleftrightarrow> (\<exists>d<n. n \<le> remap d \<or> clobbers remap d)"
  using check_fold_inv [of remap n n] by (simp add: check_inv_def ac_titan_check_space_def)

lemma check_space_okI:
  assumes "\<And>d. d < n \<Longrightarrow> remap d < n" and "inj_on remap (moved_regs n remap)"
  shows "\<not> fatal (ac_titan_check_space n remap)"
proof -
  have "\<not> clobbers remap d" if "d < n" for d
    using assms(2) that unfolding clobbers_def moved_regs_def inj_on_def
    by (metis (mono_tags, lifting) dual_order.strict_trans mem_Collect_eq nat_neq_iff)
  then show ?thesis using assms(1) by (auto simp: check_space_fatal_iff not_le)
qed

lemma check_space_accepted:
  "(\<And>d. d < n \<Longrightarrow> remap d < n) \<Longrightarrow> inj_on remap (moved_regs n remap) \<Longrightarrow>
   \<not> fatal (ac_titan_check_space n remap) \<and> inj_on remap (moved_regs n remap)"
  by (rule conjI [OF check_space_okI])

lemma switch_dw_moved: "switch_dw tab d \<noteq> d \<Longrightarrow> (d, switch_dw tab d) \<in> set tab"
  by (auto simp: switch_dw_def split: option.splits dest: map_of_SomeD)

lemma switch_dw_inj:
  assumes "distinct (map snd tab)"
  shows "inj_on (switch_dw tab) (moved_regs n (switch_dw tab))"
proof (rule inj_onI)
  fix x y
  assume "x \<in> moved_regs n (switch_dw tab)" "y \<in> moved_regs n (switch_dw tab)"
    and eq: "switch_dw tab x = switch_dw tab y"
  then have "(x, switch_dw tab x) \<in> set tab" "(y, switch_dw tab x) \<in> set tab"
    by (auto simp: moved_regs_def dest: switch_dw_moved) (metis switch_dw_moved)
  then show "x = y" using assms by (metis eq_key_imp_eq_value in_set_zip snd_conv fst_conv distinct_map inj_onD prod.inject)
qed


lemma spi_slot_default [simp]: "env name = None \<Longrightarrow> ac_titan_spi_slot env name d = d"
  by (simp add: ac_titan_spi_slot_def)

lemma hand_l4_default:
  "env ''RADV_XCLIPSE_SPIVOC'' = None \<Longrightarrow> env ''RADV_XCLIPSE_SPIPIC'' = None \<Longrightarrow>
   hand_l4_table env = hand_l4_table Map.empty"
  by (simp add: hand_l4_table_def)

lemmas hand_tables = hand_l1_table_def hand_l4_table_def hand_l6_table_def hand_l8_table_def
  hand_l10_table_def

lemma hand_inv_viewport: "0x10f \<le> dw \<Longrightarrow> dw < 0x18f \<Longrightarrow> hand_inv (dw + 2) = dw"
  by (simp add: hand_inv_def hand_tables)

lemma hand_inv_spi: "0x191 \<le> dw \<Longrightarrow> dw \<le> 0x1b0 \<Longrightarrow> hand_inv (dw + 8) = dw"
  by (simp add: hand_inv_def hand_tables)

lemma hand_inv_info: "i < 8 \<Longrightarrow> hand_inv (0x360 + i) = 0x31c + 15 * i"
  by (simp add: hand_inv_def hand_tables)
lemma hand_inv_base: "i < 8 \<Longrightarrow> hand_inv (0x318 + 9 * i) = 0x318 + 15 * i"
  by (simp add: hand_inv_def hand_tables)
lemma hand_inv_attrib2: "i < 8 \<Longrightarrow> hand_inv (0x31f + 9 * i) = 0x3b0 + i"
  by (simp add: hand_inv_def hand_tables)
lemma hand_inv_attrib3: "i < 8 \<Longrightarrow> hand_inv (0x320 + 9 * i) = 0x3b8 + i"
  by (simp add: hand_inv_def hand_tables)
lemma hand_inv_tables:
  "list_all (\<lambda>(d, to). hand_inv to = d \<and> to < 0x400)
     (hand_l1_table @ hand_l4_table Map.empty @ hand_l6_table @ hand_l8_table @ hand_l10_table)"
  by (simp add: hand_inv_def hand_tables)

lemma hand_inv_map_of:
  assumes "map_of t dw = Some to"
    and "set t \<subseteq> set (hand_l1_table @ hand_l4_table Map.empty @ hand_l6_table @ hand_l8_table @
      hand_l10_table)"
  shows "hand_inv to = dw \<and> to < 0x400"
proof -
  have "(dw, to) \<in> set t" using assms(1) by (rule map_of_SomeD)
  with assms(2) have "(dw, to) \<in> set (hand_l1_table @ hand_l4_table Map.empty @ hand_l6_table @
      hand_l8_table @ hand_l10_table)" by (rule subsetD)
  then have "case (dw, to) of (d, to) \<Rightarrow> hand_inv to = d \<and> to < 0x400"
    by (rule bspec [OF hand_inv_tables [unfolded list_all_iff]])
  then show ?thesis by simp
qed


lemma hand_ok_if: "(c \<Longrightarrow> hand_ok dw a) \<Longrightarrow> (\<not> c \<Longrightarrow> hand_ok dw b) \<Longrightarrow> hand_ok dw (if c then a else b)"
  by simp

lemma hand_ok_option:
  "(\<And>to. x = Some to \<Longrightarrow> hand_ok dw to) \<Longrightarrow> hand_ok dw b \<Longrightarrow>
   hand_ok dw (case x of None \<Rightarrow> b | Some to \<Rightarrow> to)"
  by (cases x) auto

lemma hand_ok_table:
  assumes "map_of t dw = Some to"
    and "set t \<subseteq> set (hand_l1_table @ hand_l4_table Map.empty @ hand_l6_table @ hand_l8_table @
      hand_l10_table)"
  shows "hand_ok dw to"
  using hand_inv_map_of [OF assms] by (simp add: hand_ok_def)

lemma hand_ok_viewport: "0x10f \<le> dw \<and> dw < 0x10f + 8 * 16 \<Longrightarrow> hand_ok dw (dw + 2)"
  using hand_inv_viewport [of dw] by (simp add: hand_ok_def)

lemma hand_ok_spi: "0x191 \<le> dw \<and> dw \<le> 0x1b0 \<Longrightarrow> hand_ok dw (dw + 8)"
  using hand_inv_spi [of dw] by (simp add: hand_ok_def)

lemma mrt_bound: "0x318 \<le> dw \<Longrightarrow> dw < 0x318 + 0x0f * 8 \<Longrightarrow> (dw - 0x318) div 0x0f < (8::nat)"
  by (simp add: less_mult_imp_div_less)

lemma mrt_split: "0x318 \<le> dw \<Longrightarrow> 15 * ((dw - 0x318) div 0x0f) + (dw - 0x318) mod 0x0f + 0x318 = (dw::nat)"
  using mult_div_mod_eq [of 15 "dw - 0x318"] by linarith

lemma hand_ok_base:
  assumes "0x318 \<le> dw \<and> dw < 0x318 + 0x0f * 8 \<and> (dw - 0x318) mod 0x0f = 0"
  shows "hand_ok dw (0x318 + 9 * ((dw - 0x318) div 0x0f))"
proof -
  have q: "(dw - 0x318) div 0x0f < 8" using assms mrt_bound by blast
  have "0x318 + 15 * ((dw - 0x318) div 0x0f) = dw" using assms mrt_split [of dw] by linarith
  then show ?thesis using hand_inv_base [OF q] q by (simp add: hand_ok_def)
qed

lemma hand_ok_info:
  assumes "0x318 \<le> dw \<and> dw < 0x318 + 0x0f * 8 \<and> (dw - 0x318) mod 0x0f = 4"
  shows "hand_ok dw (0x360 + (dw - 0x318) div 0x0f)"
proof -
  have q: "(dw - 0x318) div 0x0f < 8" using assms mrt_bound by blast
  have "0x31c + 15 * ((dw - 0x318) div 0x0f) = dw" using assms mrt_split [of dw] by linarith
  then show ?thesis using hand_inv_info [OF q] q by (simp add: hand_ok_def)
qed

lemma hand_ok_attrib2:
  assumes "0x3b0 \<le> dw \<and> dw < 0x3b8"
  shows "hand_ok dw (0x31f + 9 * (dw - 0x3b0))"
proof -
  have "dw - 0x3b0 < 8" using assms by arith
  with hand_inv_attrib2 [OF this] assms show ?thesis by (simp add: hand_ok_def)
qed

lemma hand_ok_attrib3:
  assumes "0x3b8 \<le> dw \<and> dw < 0x3c0"
  shows "hand_ok dw (0x320 + 9 * (dw - 0x3b8))"
proof -
  have "dw - 0x3b8 < 8" using assms by arith
  with hand_inv_attrib3 [OF this] assms show ?thesis by (simp add: hand_ok_def)
qed

lemma hand_ok_same: "hand_ok dw dw"
  by (simp add: hand_ok_def)

lemma hand_ctx_ok:
  assumes "env ''RADV_XCLIPSE_SPIVOC'' = None" "env ''RADV_XCLIPSE_SPIPIC'' = None"
  shows "hand_ok dw (hand_ctx_dw env level dw)"
  unfolding hand_ctx_dw_def hand_l4_default [OF assms] switch_dw_def
  by (intro hand_ok_if hand_ok_option)
    (assumption | rule hand_ok_same | erule hand_ok_viewport hand_ok_spi hand_ok_base hand_ok_info
       hand_ok_attrib2 hand_ok_attrib3 | (erule hand_ok_table, simp only: set_append, blast))+

lemma hand_ctx_inj:
  assumes "env ''RADV_XCLIPSE_SPIVOC'' = None" "env ''RADV_XCLIPSE_SPIPIC'' = None"
  shows "inj_on (hand_ctx_dw env level) (moved_regs n (hand_ctx_dw env level))"
  by (rule inj_on_inverseI [where g = hand_inv])
    (use hand_ctx_ok [OF assms] in \<open>auto simp: moved_regs_def hand_ok_def\<close>)

lemma hand_ctx_range:
  assumes "env ''RADV_XCLIPSE_SPIVOC'' = None" "env ''RADV_XCLIPSE_SPIPIC'' = None" "d < n" "0x400 \<le> n"
  shows "hand_ctx_dw env level d < n"
  using hand_ctx_ok [OF assms(1,2), of d level] assms(3,4) by (auto simp: hand_ok_def)

lemma hand_sh_inj: "inj_on (hand_sh_dw level) (moved_regs n (hand_sh_dw level))"
  by (auto simp: inj_on_def moved_regs_def hand_sh_dw_def split: if_splits)

lemma hand_sh_range: "d < n \<Longrightarrow> 0x400 \<le> n \<Longrightarrow> hand_sh_dw level d < n"
  by (simp add: hand_sh_dw_def)

lemma kmap_ctx_distinct: "distinct (map snd kmap_ctx_table)"
  by (simp add: kmap_ctx_table_def)

lemma kmap_sh_distinct: "distinct (map snd kmap_sh_table)"
  by (simp add: kmap_sh_table_def)

lemma kmap_ctx_range: "list_all (\<lambda>p. snd p < 0x400) kmap_ctx_table"
  by (simp add: kmap_ctx_table_def)

lemma kmap_sh_range: "list_all (\<lambda>p. snd p < 0x400) kmap_sh_table"
  by (simp add: kmap_sh_table_def)

lemma switch_dw_range:
  "list_all (\<lambda>p. snd p < b) tab \<Longrightarrow> d < n \<Longrightarrow> b \<le> n \<Longrightarrow> switch_dw tab d < n"
  using switch_dw_moved [of tab d] by (cases "switch_dw tab d = d") (auto simp: list_all_iff)

lemma switch_dw_accepted:
  assumes "distinct (map snd tab)" "list_all (\<lambda>p. snd p < b) tab" "b \<le> n"
  shows "\<not> fatal (ac_titan_check_space n (switch_dw tab)) \<and>
    inj_on (switch_dw tab) (moved_regs n (switch_dw tab))"
  by (rule check_space_accepted [OF switch_dw_range [OF assms(2) _ assms(3)] switch_dw_inj [OF assms(1)]])

lemma hand_ctx_accepted:
  assumes "env ''RADV_XCLIPSE_SPIVOC'' = None" "env ''RADV_XCLIPSE_SPIPIC'' = None" "0x400 \<le> n"
  shows "\<not> fatal (ac_titan_check_space n (hand_ctx_dw env level)) \<and>
    inj_on (hand_ctx_dw env level) (moved_regs n (hand_ctx_dw env level))"
  by (rule check_space_accepted [OF hand_ctx_range [OF assms(1,2) _ assms(3)] hand_ctx_inj [OF assms(1,2)]])

lemma hand_sh_accepted:
  assumes "0x400 \<le> n"
  shows "\<not> fatal (ac_titan_check_space n (hand_sh_dw level)) \<and>
    inj_on (hand_sh_dw level) (moved_regs n (hand_sh_dw level))"
  by (rule check_space_accepted [OF hand_sh_range [OF _ assms] hand_sh_inj])

lemma titan_spaces: "0x400 \<le> AC_TITAN_CTX_DWORDS" "0x400 \<le> AC_TITAN_SH_DWORDS"
  by (simp_all add: AC_TITAN_CTX_DWORDS_def AC_TITAN_SH_DWORDS_def reg_space_defs)

lemma ctx_dw_accepted:
  assumes "mapovr cfg = []" "env ''RADV_XCLIPSE_SPIVOC'' = None" "env ''RADV_XCLIPSE_SPIPIC'' = None"
  shows "\<not> fatal (ac_titan_check_space AC_TITAN_CTX_DWORDS (ac_titan_ctx_dw env cfg)) \<and>
    inj_on (ac_titan_ctx_dw env cfg) (moved_regs AC_TITAN_CTX_DWORDS (ac_titan_ctx_dw env cfg))"
proof (cases "1 \<le> ac_titan_kmap_level env")
  case True
  then have "ac_titan_ctx_dw env cfg = switch_dw kmap_ctx_table"
    by (simp add: fun_eq_iff ac_titan_ctx_dw_def assms ac_titan_kmap_ctx_def)
  then show ?thesis
    using switch_dw_accepted [OF kmap_ctx_distinct kmap_ctx_range titan_spaces(1)] by simp
next
  case False
  then have "ac_titan_ctx_dw env cfg = hand_ctx_dw env (regmap_level cfg)"
    by (simp add: fun_eq_iff ac_titan_ctx_dw_def assms)
  then show ?thesis using hand_ctx_accepted [OF assms(2,3) titan_spaces(1)] by simp
qed

lemma sh_dw_accepted:
  "\<not> fatal (ac_titan_check_space AC_TITAN_SH_DWORDS (ac_titan_sh_dw env cfg)) \<and>
   inj_on (ac_titan_sh_dw env cfg) (moved_regs AC_TITAN_SH_DWORDS (ac_titan_sh_dw env cfg))"
proof (cases "2 \<le> ac_titan_kmap_level env")
  case True
  then have "ac_titan_sh_dw env cfg = switch_dw kmap_sh_table"
    by (simp add: fun_eq_iff ac_titan_sh_dw_def ac_titan_kmap_sh_def)
  then show ?thesis
    using switch_dw_accepted [OF kmap_sh_distinct kmap_sh_range titan_spaces(2)] by simp
next
  case False
  then have "ac_titan_sh_dw env cfg = hand_sh_dw (regmap_level cfg)"
    by (simp add: fun_eq_iff ac_titan_sh_dw_def)
  then show ?thesis using hand_sh_accepted [OF titan_spaces(2)] by simp
qed

lemma nat16_cases:
  "d < 16 \<Longrightarrow> d = 0 \<or> d = 1 \<or> d = 2 \<or> d = 3 \<or> d = 4 \<or> d = 5 \<or> d = 6 \<or> d = 7 \<or> d = 8 \<or>
    d = 9 \<or> d = 10 \<or> d = 11 \<or> d = 12 \<or> d = 13 \<or> d = 14 \<or> d = (15 :: nat)"
  by presburger

lemma c_digit_hex_digit: "d < 16 \<Longrightarrow> c_digit (hex_digit d) = Some d"
  by (drule nat16_cases, elim disjE) (simp_all add: hex_digit_def c_digit_def)

lemma hex_digit_plain:
  "d < 16 \<Longrightarrow> \<not> c_isspace (hex_digit d) \<and> hex_digit d \<noteq> CHR ''-'' \<and> hex_digit d \<noteq> CHR ''+'' \<and>
    hex_digit d \<noteq> CHR ''x'' \<and> hex_digit d \<noteq> CHR ''X''"
  by (drule nat16_cases, elim disjE) (simp_all add: hex_digit_def c_isspace_def)

lemma hex_string_digits: "c \<in> set (hex_string n) \<Longrightarrow> \<exists>d<16. c = hex_digit d"
proof (induction n rule: hex_string.induct)
  case (1 n)
  then show ?case
    by (subst (asm) hex_string.simps) (auto split: if_splits intro: exI [of _ "n mod 16"])
qed

lemma hex_string_value: "c_digits_value 16 (hex_string n) = n"
proof (induction n rule: hex_string.induct)
  case (1 n)
  show ?case
  proof (cases "n < 16")
    case True
    then show ?thesis by (subst hex_string.simps) (simp add: c_digits_value_def c_digit_hex_digit)
  next
    case False
    have "c_digits_value 16 (hex_string n) = 16 * c_digits_value 16 (hex_string (n div 16)) + n mod 16"
      using False by (subst hex_string.simps) (simp add: c_digits_value_def c_digit_hex_digit)
    then show ?thesis using "1.IH" [OF False] by simp
  qed
qed

lemma hex_string_nonempty: "hex_string n \<noteq> []"
  by (subst hex_string.simps) simp

lemma c_isdigit_hex_digit: "d < 16 \<Longrightarrow> c_isdigit_base 16 (hex_digit d)"
  by (simp add: c_isdigit_base_def c_digit_hex_digit)

lemma c_strtoul_hex:
  assumes "n < 2 ^ 64" and rest: "rest = [] \<or> \<not> c_isdigit_base 16 (hd rest)"
    and noX: "take 1 rest \<noteq> ''x'' \<and> take 1 rest \<noteq> ''X''"
  shows "c_strtoul (hex_string n @ rest) 16 = (n, rest)"
proof -
  obtain c cs where h: "hex_string n = c # cs" using hex_string_nonempty [of n] by (cases "hex_string n") auto
  have dig: "c_isdigit_base 16 x \<and> \<not> c_isspace x \<and> x \<noteq> CHR ''-'' \<and> x \<noteq> CHR ''+'' \<and>
      x \<noteq> CHR ''x'' \<and> x \<noteq> CHR ''X''"
    if "x \<in> set (hex_string n)" for x
    using hex_string_digits [OF that] c_isdigit_hex_digit hex_digit_plain by auto
  have sign: "c_sign (dropWhile c_isspace (hex_string n @ rest)) = (False, hex_string n @ rest)"
    using dig [of c] by (simp add: h c_sign_def)
  have no0x: "\<not> has_0x (hex_string n @ rest)"
  proof (cases cs)
    case Nil
    then show ?thesis using noX by (auto simp: h has_0x_def split: list.splits)
  next
    case (Cons x xs)
    then show ?thesis using dig [of x] by (auto simp: h has_0x_def split: list.splits)
  qed
  have tw: "takeWhile (c_isdigit_base 16) (hex_string n @ rest) = hex_string n"
    "dropWhile (c_isdigit_base 16) (hex_string n @ rest) = rest"
    using dig rest by (auto simp: takeWhile_append2 dropWhile_append2) (cases rest; simp)+
  show ?thesis using assms(1) hex_string_nonempty
    by (simp add: c_strtoul_def sign no0x tw hex_string_value)
qed

lemma sep_not_hex: "\<not> c_isdigit_base 16 CHR '':''" "\<not> c_isdigit_base 16 CHR '',''"
  by (simp_all add: c_isdigit_base_def c_digit_def)

lemma mapovr_loop_print:
  "ps \<noteq> [] \<Longrightarrow> list_all (\<lambda>(s, d). s < 0x400 \<and> d < 0x400) ps \<Longrightarrow>
   mapovr_loop slots (mapovr_print ps) = take slots ps"
proof (induction ps arbitrary: slots rule: mapovr_print.induct)
  case (2 s d)
  then show ?case
    using c_strtoul_hex [of s "'':'' @ hex_string d"] c_strtoul_hex [of d "[]"]
    by (cases slots) (auto simp: sep_not_hex hex_string_nonempty)
next
  case (3 s d p ps)
  then show ?case
    using c_strtoul_hex [of s "'':'' @ hex_string d @ '','' @ mapovr_print (p # ps)"]
      c_strtoul_hex [of d "'','' @ mapovr_print (p # ps)"]
    by (cases slots) (auto simp: sep_not_hex hex_string_nonempty)
qed simp

text \<open>Two registers sent onto a third one below them that stays put and that no lower register goes to: nothing clobbers.\<close>

lemma two_onto_fixed:
  assumes inj: "inj_on g (moved_regs n g)" and n: "d < n"
    and t: "g t = t" "\<forall>x<t. g x \<noteq> t" "t < a" "t < b" and f: "f = g(a := t, b := t)"
  shows "\<not> clobbers f d"
proof
  assume "clobbers f d"
  then obtain e where e: "e < d" "f e = f d" "f e \<noteq> e" "\<forall>x<e. f x \<noteq> f d" "f d \<noteq> d"
    by (auto simp: clobbers_def)
  have stay: "f t = t" using t f by simp
  have low: "f x \<noteq> t" if "x < t" for x using that t f by auto
  show False
  proof (cases "f d = t")
    case True
    have "e \<noteq> t" using e(3) stay by auto
    moreover have "\<not> t < e" using e(4) stay True by auto
    ultimately show False using low[of e] e(2) True by simp
  next
    case False
    then have "f d = g d" "f e = g e" using e(2) f by (auto split: if_splits)
    then have "e = d" using inj_onD[OF inj, of e d] e n by (simp add: moved_regs_def)
    then show False using e(1) by simp
  qed
qed

lemma ctx_dw_two_overrides:
  assumes "mapovr cfg = [(a, t), (b, t)]"
  shows "ac_titan_ctx_dw env cfg = (ac_titan_ctx_dw env (cfg\<lparr>mapovr := []\<rparr>))(a := t, b := t)"
  using assms by (auto simp: fun_eq_iff ac_titan_ctx_dw_def)

lemma remap_dw_quiet: "fst (ac_titan_remap_dw env cfg base dw) = ac_titan_remap_dw_quiet env cfg base dw"
  by (simp add: ac_titan_remap_dw_def ac_titan_remap_dw_quiet_def Let_def)

lemma run_split_iff:
  "ac_titan_run_split env cfg base dw num \<longleftrightarrow>
     (\<exists>k<num. ac_titan_remap_dw_quiet env cfg base (dw + k) \<noteq>
              ac_titan_remap_dw_quiet env cfg base dw + k)"
proof (cases "regmap_active cfg")
  case False
  then show ?thesis by (simp add: ac_titan_run_split_def ac_titan_remap_dw_quiet_def)
next
  case True
  then show ?thesis
    unfolding ac_titan_run_split_def Let_def by (subst ex_less_list_ex) simp_all
qed

section \<open>Properties\<close>

text \<open>C21: for every remap level and every kernel-map level, as long as the environment overrides no
  entry, \<open>ac_titan_regmap_set_level\<close> accepts the table (it stays active at the requested level), and
  in the context and in the SH space no two moved registers share a destination.\<close>

theorem titan_default_map_accepted:
  assumes "0 < level" "env ''RADV_XCLIPSE_MAPOVR'' = None"
    "env ''RADV_XCLIPSE_SPIVOC'' = None" "env ''RADV_XCLIPSE_SPIPIC'' = None"
    and cfg': "cfg' = ac_titan_regmap_set_level env level cfg"
  shows "regmap_active cfg' \<and> regmap_level cfg' = level \<and>
    inj_on (ac_titan_ctx_dw env cfg') (moved_regs AC_TITAN_CTX_DWORDS (ac_titan_ctx_dw env cfg')) \<and>
    inj_on (ac_titan_sh_dw env cfg') (moved_regs AC_TITAN_SH_DWORDS (ac_titan_sh_dw env cfg'))"
proof -
  let ?c = "cfg\<lparr>regmap_level := level, regmap_active := 0 < level, mapovr := []\<rparr>"
  note ctx = ctx_dw_accepted [of ?c, OF _ assms(3,4)] and sh = sh_dw_accepted [of env ?c]
  have "cfg' = ?c" using assms(1,2) ctx sh
    by (simp add: cfg' ac_titan_regmap_set_level_def ac_titan_mapovr_parse_def Let_def
        ac_titan_regmap_validate_def)
  then show ?thesis using assms(1) ctx sh by simp
qed

text \<open>C21's hypotheses hold with an empty environment at the default level 10.\<close>

theorem titan_default_map_accepted_witness:
  "regmap_active (ac_titan_regmap_set_level Map.empty 10
     \<lparr>regmap_active = False, regmap_level = 0, regmap_suppress = True, regmap_hits = 0, mapovr = []\<rparr>)"
  using titan_default_map_accepted [of 10 Map.empty, OF _ _ _ _ refl] by simp

text \<open>C22: the validator accepts exactly the maps whose destinations stay inside each space and where
  no moved register lands on the destination of an earlier one that is the first with that
  destination and is itself moved.\<close>

theorem titan_validator_exact:
  "ac_titan_regmap_validate env cfg \<longleftrightarrow>
     (\<forall>d<AC_TITAN_CTX_DWORDS. ac_titan_ctx_dw env cfg d < AC_TITAN_CTX_DWORDS \<and>
        \<not> clobbers (ac_titan_ctx_dw env cfg) d) \<and>
     (\<forall>d<AC_TITAN_SH_DWORDS. ac_titan_sh_dw env cfg d < AC_TITAN_SH_DWORDS \<and>
        \<not> clobbers (ac_titan_sh_dw env cfg) d)"
  by (auto simp: ac_titan_regmap_validate_def check_space_fatal_iff not_le)

definition no_titan_map :: titan_cfg where
  "no_titan_map = \<lparr>regmap_active = False, regmap_level = 0, regmap_suppress = True, regmap_hits = 0, mapovr = []\<rparr>"

text \<open>C22 at an inactive configuration with an empty environment.\<close>

theorem titan_validator_exact_witness:
  "\<not> clobbers (ac_titan_ctx_dw Map.empty
     \<lparr>regmap_active = True, regmap_level = 10, regmap_suppress = True, regmap_hits = 0, mapovr = []\<rparr>) 5"
proof -
  let ?c = "\<lparr>regmap_active = True, regmap_level = 10, regmap_suppress = True, regmap_hits = 0, mapovr = []\<rparr>"
  have "ac_titan_regmap_validate Map.empty ?c"
    using ctx_dw_accepted [of ?c Map.empty] sh_dw_accepted [of Map.empty ?c]
    by (simp add: ac_titan_regmap_validate_def)
  then have "\<forall>d<AC_TITAN_CTX_DWORDS. \<not> clobbers (ac_titan_ctx_dw Map.empty ?c) d"
    unfolding titan_validator_exact by blast
  then show ?thesis using titan_spaces(1) by simp
qed

text \<open>Parsing the printed form of a list of overrides gives the list back, cut to the sixteen
  slots of the array.\<close>

theorem mapovr_roundtrip:
  assumes "ps \<noteq> []" "list_all (\<lambda>(s, d). s < 0x400 \<and> d < 0x400) ps"
    and "env ''RADV_XCLIPSE_MAPOVR'' = Some (mapovr_print ps)"
  shows "ac_titan_mapovr_parse env = take AC_TITAN_MAPOVR_MAX ps"
  using assms by (simp add: ac_titan_mapovr_parse_def mapovr_loop_print)

text \<open>at two overrides.\<close>

theorem mapovr_roundtrip_witness:
  "ac_titan_mapovr_parse (\<lambda>_. Some (mapovr_print [(0x1b1, 0x1c3), (0x1b6, 0x190)])) =
     [(0x1b1, 0x1c3), (0x1b6, 0x190)]"
  using mapovr_roundtrip [of "[(0x1b1, 0x1c3), (0x1b6, 0x190)]"
      "\<lambda>_. Some (mapovr_print [(0x1b1, 0x1c3), (0x1b6, 0x190)])"]
  by (simp add: AC_TITAN_MAPOVR_MAX_def)

text \<open>C36: the validator is incomplete. Whenever an override list sends two registers onto a third, lower one that the table
  leaves where it is and onto which the table moves no lower register, the map is accepted, although
  the two moved registers land on one register: both are compared only with the one that stays.\<close>

theorem titan_validator_misses_collision:
  assumes "env ''RADV_XCLIPSE_SPIVOC'' = None" "env ''RADV_XCLIPSE_SPIPIC'' = None" "0 < level"
    and ovr: "env ''RADV_XCLIPSE_MAPOVR'' = Some (mapovr_print [(a, t), (b, t)])" and ab: "t < a" "a < 0x400" "t < b" "b < 0x400" "a \<noteq> b"
    and stays: "ac_titan_ctx_dw env (cfg\<lparr>regmap_level := level, mapovr := []\<rparr>) t = t"
      "\<forall>d<t. ac_titan_ctx_dw env (cfg\<lparr>regmap_level := level, mapovr := []\<rparr>) d \<noteq> t"
  shows "regmap_active (ac_titan_regmap_set_level env level cfg) \<and> ac_titan_ctx_dw env (ac_titan_regmap_set_level env level cfg) a = t \<and>
    ac_titan_ctx_dw env (ac_titan_regmap_set_level env level cfg) b = t"
proof -
  let ?c = "cfg\<lparr>regmap_level := level, regmap_active := True, mapovr := [(a, t), (b, t)]\<rparr>"
  let ?g = "ac_titan_ctx_dw env (?c\<lparr>mapovr := []\<rparr>)" and ?n = AC_TITAN_CTX_DWORDS
  have parse: "ac_titan_mapovr_parse env = [(a, t), (b, t)]"
    using mapovr_loop_print [of "[(a, t), (b, t)]" AC_TITAN_MAPOVR_MAX] ab ovr
    by (simp add: ac_titan_mapovr_parse_def AC_TITAN_MAPOVR_MAX_def)
  have base: "\<not> fatal (ac_titan_check_space ?n ?g)" "inj_on ?g (moved_regs ?n ?g)"
    using ctx_dw_accepted[of "?c\<lparr>mapovr := []\<rparr>" env] assms(1,2) by simp_all
  have g: "?g = ac_titan_ctx_dw env (cfg\<lparr>regmap_level := level, mapovr := []\<rparr>)" by (simp add: fun_eq_iff ac_titan_ctx_dw_def)
  have f: "ac_titan_ctx_dw env ?c = ?g(a := t, b := t)" by (rule ctx_dw_two_overrides) simp
  have "?g d < ?n" if "d < ?n" for d using base(1) that by (auto simp: check_space_fatal_iff not_le)
  then have range: "ac_titan_ctx_dw env ?c d < ?n" if "d < ?n" for d using that titan_spaces(1) ab unfolding f by auto
  have "\<not> clobbers (ac_titan_ctx_dw env ?c) d" if "d < ?n" for d
    using two_onto_fixed[OF base(2) that _ _ ab(1,3) f] stays unfolding g by blast
  then have "ac_titan_regmap_validate env ?c"
    using range sh_dw_accepted [of env ?c] by (auto simp: ac_titan_regmap_validate_def check_space_fatal_iff not_le)
  then have "ac_titan_regmap_set_level env level cfg = ?c"
    using assms(3) by (simp add: ac_titan_regmap_set_level_def parse Let_def)
  then show ?thesis using f ab(5) by simp
qed

text \<open>C36 at the override \<open>3:1,6:1\<close>.\<close>

theorem titan_validator_misses_collision_witness:
  "let env = [''RADV_XCLIPSE_MAPOVR'' \<mapsto> ''3:1,6:1'']; cfg' = ac_titan_regmap_set_level env 10 no_titan_map
   in regmap_active cfg' \<and> ac_titan_ctx_dw env cfg' 3 = 1 \<and> ac_titan_ctx_dw env cfg' 6 = 1"
proof -
  let ?env = "[''RADV_XCLIPSE_MAPOVR'' \<mapsto> ''3:1,6:1'']"
  have p: "mapovr_print [(3, 1), (6, 1)] = ''3:1,6:1''" by (simp add: hex_string.simps hex_digit_def)
  have kl: "ac_titan_kmap_level ?env = 3" by (simp add: ac_titan_kmap_level_def env_int_def)
  have g: "ac_titan_ctx_dw ?env (no_titan_map\<lparr>regmap_level := 10, mapovr := []\<rparr>) 0 = 0x19"
      "ac_titan_ctx_dw ?env (no_titan_map\<lparr>regmap_level := 10, mapovr := []\<rparr>) 1 = 1"
    by (simp_all add: ac_titan_ctx_dw_def kl ac_titan_kmap_ctx_def switch_dw_def kmap_ctx_table_def)
  then have "\<forall>d<1. ac_titan_ctx_dw ?env (no_titan_map\<lparr>regmap_level := 10, mapovr := []\<rparr>) d \<noteq> 1" by simp
  then show ?thesis using titan_validator_misses_collision[of ?env 10 3 1 6 no_titan_map] g(2) p by (simp add: Let_def)
qed

end
