(* ===== verification/PacketFormat.thy ===== *)
theory PacketFormat
  imports Prelude TitanRegmap
begin

text \<open>
  The PM4 packet format of amd/common/sid.h and the chip generations of
  amd/common/amd_family.h: header construction (\<open>PKT3\<close>), its field accessors, the opcodes the
  register-setting packets use, and the laws that say the accessors read back what the
  constructor stored.
\<close>

section \<open>Chip generations\<close>

datatype amd_gfx_level =
    CLASS_UNKNOWN | R300 | R400 | R500 | R600 | R700 | EVERGREEN | CAYMAN
  | GFX6 | GFX7 | GFX8 | GFX9 | GFX10 | GFX10_3 | GFX11 | GFX11_5 | GFX11_7 | GFX12 | GFX12_1

fun gfx_rank :: "amd_gfx_level \<Rightarrow> nat" where
  "gfx_rank CLASS_UNKNOWN = 0" | "gfx_rank R300 = 1" | "gfx_rank R400 = 2" | "gfx_rank R500 = 3"
| "gfx_rank R600 = 4" | "gfx_rank R700 = 5" | "gfx_rank EVERGREEN = 6" | "gfx_rank CAYMAN = 7"
| "gfx_rank GFX6 = 8" | "gfx_rank GFX7 = 9" | "gfx_rank GFX8 = 10" | "gfx_rank GFX9 = 11"
| "gfx_rank GFX10 = 12" | "gfx_rank GFX10_3 = 13" | "gfx_rank GFX11 = 14" | "gfx_rank GFX11_5 = 15"
| "gfx_rank GFX11_7 = 16" | "gfx_rank GFX12 = 17" | "gfx_rank GFX12_1 = 18"

lemma gfx_rank_inj: "gfx_rank a = gfx_rank b \<Longrightarrow> a = b"
  by (cases a; cases b; simp)

instantiation amd_gfx_level :: linorder
begin

definition less_eq_amd_gfx_level :: "amd_gfx_level \<Rightarrow> amd_gfx_level \<Rightarrow> bool" where
  "less_eq_amd_gfx_level a b = (gfx_rank a \<le> gfx_rank b)"

definition less_amd_gfx_level :: "amd_gfx_level \<Rightarrow> amd_gfx_level \<Rightarrow> bool" where
  "less_amd_gfx_level a b = (gfx_rank a < gfx_rank b)"

instance
  by standard (auto simp: less_eq_amd_gfx_level_def less_amd_gfx_level_def gfx_rank_inj)

end

lemmas gfx_level_simps [simp] = less_eq_amd_gfx_level_def less_amd_gfx_level_def

section \<open>Opcodes\<close>

definition PKT3_NOP :: nat where "PKT3_NOP = 0x10"
definition PKT3_INDIRECT_BUFFER_SI :: nat where "PKT3_INDIRECT_BUFFER_SI = 0x32"
definition PKT3_INDIRECT_BUFFER :: nat where "PKT3_INDIRECT_BUFFER = 0x3F"
definition PKT3_INDEX_TYPE :: nat where "PKT3_INDEX_TYPE = 0x2A"
definition PKT3_COPY_DATA :: nat where "PKT3_COPY_DATA = 0x40"
definition PKT3_CP_DMA :: nat where "PKT3_CP_DMA = 0x41"
definition PKT3_SURFACE_SYNC :: nat where "PKT3_SURFACE_SYNC = 0x43"
definition PKT3_EVENT_WRITE_EOP :: nat where "PKT3_EVENT_WRITE_EOP = 0x47"
definition PKT3_RELEASE_MEM :: nat where "PKT3_RELEASE_MEM = 0x49"
definition PKT3_DMA_DATA :: nat where "PKT3_DMA_DATA = 0x50"
definition PKT3_SET_CONFIG_REG :: nat where "PKT3_SET_CONFIG_REG = 0x68"
definition PKT3_SET_CONTEXT_REG :: nat where "PKT3_SET_CONTEXT_REG = 0x69"
definition PKT3_SET_SH_REG :: nat where "PKT3_SET_SH_REG = 0x76"
definition PKT3_SET_UCONFIG_REG :: nat where "PKT3_SET_UCONFIG_REG = 0x79"
definition PKT3_SET_UCONFIG_REG_INDEX :: nat where "PKT3_SET_UCONFIG_REG_INDEX = 0x7A"
definition PKT3_SET_SH_REG_INDEX :: nat where "PKT3_SET_SH_REG_INDEX = 0x9B"
definition PKT3_SET_CONTEXT_REG_PAIRS :: nat where "PKT3_SET_CONTEXT_REG_PAIRS = 0xB8"
definition PKT3_SET_CONTEXT_REG_PAIRS_PACKED :: nat where "PKT3_SET_CONTEXT_REG_PAIRS_PACKED = 0xB9"
definition PKT3_SET_SH_REG_PAIRS :: nat where "PKT3_SET_SH_REG_PAIRS = 0xBA"
definition PKT3_SET_SH_REG_PAIRS_PACKED :: nat where "PKT3_SET_SH_REG_PAIRS_PACKED = 0xBB"
definition PKT3_SET_SH_REG_PAIRS_PACKED_N :: nat where "PKT3_SET_SH_REG_PAIRS_PACKED_N = 0xBD"
definition PKT3_SET_UCONFIG_REG_PAIRS :: nat where "PKT3_SET_UCONFIG_REG_PAIRS = 0xBE"

lemmas pkt3_set_defs =
  PKT3_SET_CONFIG_REG_def PKT3_SET_CONTEXT_REG_def PKT3_SET_SH_REG_def PKT3_SET_UCONFIG_REG_def
  PKT3_SET_UCONFIG_REG_INDEX_def PKT3_SET_SH_REG_INDEX_def PKT3_SET_CONTEXT_REG_PAIRS_def
  PKT3_SET_CONTEXT_REG_PAIRS_PACKED_def PKT3_SET_SH_REG_PAIRS_def PKT3_SET_SH_REG_PAIRS_PACKED_def
  PKT3_SET_SH_REG_PAIRS_PACKED_N_def PKT3_SET_UCONFIG_REG_PAIRS_def

lemmas pkt3_other_defs =
  PKT3_NOP_def PKT3_INDIRECT_BUFFER_SI_def PKT3_INDIRECT_BUFFER_def PKT3_INDEX_TYPE_def
  PKT3_COPY_DATA_def PKT3_CP_DMA_def PKT3_SURFACE_SYNC_def PKT3_EVENT_WRITE_EOP_def
  PKT3_RELEASE_MEM_def PKT3_DMA_DATA_def

definition SI_CONFIG_REG_OFFSET :: nat where "SI_CONFIG_REG_OFFSET = 0x00008000"
definition SI_CONFIG_REG_END :: nat where "SI_CONFIG_REG_END = 0x0000B000"

text \<open>Selectors of a COPY_DATA packet.\<close>

definition COPY_DATA_SRC_SEL :: "dword \<Rightarrow> dword" where
  "COPY_DATA_SRC_SEL x = x AND 0xf"

definition COPY_DATA_DST_SEL :: "dword \<Rightarrow> dword" where
  "COPY_DATA_DST_SEL x = push_bit 8 (x AND 0xf)"

definition COPY_DATA_IMM :: dword where "COPY_DATA_IMM = 5"
definition COPY_DATA_PERF :: dword where "COPY_DATA_PERF = 4"

section \<open>Packet headers\<close>

definition PKT_TYPE_G :: "dword \<Rightarrow> dword" where
  "PKT_TYPE_G x = drop_bit 30 x AND 0x3"

definition PKT_COUNT_S :: "dword \<Rightarrow> dword" where
  "PKT_COUNT_S x = push_bit 16 (x AND 0x3FFF)"

definition PKT_COUNT_G :: "dword \<Rightarrow> dword" where
  "PKT_COUNT_G x = drop_bit 16 x AND 0x3FFF"

definition PKT3_IT_OPCODE_S :: "nat \<Rightarrow> dword" where
  "PKT3_IT_OPCODE_S op = push_bit 8 (word_of_nat op AND 0xFF)"

definition PKT3_IT_OPCODE_G :: "dword \<Rightarrow> dword" where
  "PKT3_IT_OPCODE_G x = drop_bit 8 x AND 0xFF"

definition PKT3_IT_OPCODE_C :: dword where
  "PKT3_IT_OPCODE_C = 0xFFFF00FF"

definition PKT3_RESET_FILTER_CAM_S :: "bool \<Rightarrow> dword" where
  "PKT3_RESET_FILTER_CAM_S b = push_bit 2 (of_bool b)"

definition PKT3_RESET_FILTER_CAM_G :: "dword \<Rightarrow> bool" where
  "PKT3_RESET_FILTER_CAM_G x = (drop_bit 2 x AND 1 = 1)"

definition PKT3 :: "nat \<Rightarrow> dword \<Rightarrow> bool \<Rightarrow> dword" where
  "PKT3 op count predicate =
     push_bit 30 3 OR PKT_COUNT_S count OR PKT3_IT_OPCODE_S op OR of_bool predicate"

definition PKT3_NOP_PAD :: dword where
  "PKT3_NOP_PAD = PKT3 PKT3_NOP 0x3fff False"

subsection \<open>The accessors read back what was stored\<close>

lemma mask_numerals:
  "(0x3::dword) = mask 2" "(0xFF::dword) = mask 8" "(0x3FFF::dword) = mask 14"
  "(0xFFFF::dword) = mask 16" "(65535::nat) = mask 16"
  by (simp_all add: mask_eq_exp_minus_1)


lemmas pkt_field_defs = PKT_TYPE_G_def PKT_COUNT_S_def PKT_COUNT_G_def PKT3_IT_OPCODE_S_def
  PKT3_IT_OPCODE_G_def PKT3_IT_OPCODE_C_def PKT3_RESET_FILTER_CAM_S_def PKT3_RESET_FILTER_CAM_G_def
  PKT3_def

lemma bit_three: "bit (3 :: dword) n \<longleftrightarrow> n < 2"
  unfolding mask_numerals by (auto simp: bit_simps)

lemma bit_op_c: "bit PKT3_IT_OPCODE_C n \<longleftrightarrow> n < 32 \<and> \<not> (8 \<le> n \<and> n < 16)"
proof -
  have "PKT3_IT_OPCODE_C = NOT (push_bit 8 (mask 8))"
    by (simp add: PKT3_IT_OPCODE_C_def mask_eq_exp_minus_1)
  moreover have "bit (NOT (push_bit 8 (mask 8)) :: dword) n \<longleftrightarrow> n < 32 \<and> \<not> (8 \<le> n \<and> n < 16)"
    by (auto simp: bit_simps)
  ultimately show ?thesis by simp
qed

lemma PKT_TYPE_G_PKT3 [simp]: "PKT_TYPE_G (PKT3 op count p OR PKT3_RESET_FILTER_CAM_S cam) = 3"
  unfolding pkt_field_defs
  by (rule bit_word_eqI) (auto simp: bit_simps bit_three mask_numerals)

lemma PKT_COUNT_G_PKT3 [simp]:
  "PKT_COUNT_G (PKT3 op count p OR PKT3_RESET_FILTER_CAM_S cam) = count AND 0x3FFF"
  unfolding pkt_field_defs
  by (rule bit_word_eqI) (auto simp: bit_simps bit_three mask_numerals)

lemma PKT3_IT_OPCODE_G_PKT3 [simp]:
  "PKT3_IT_OPCODE_G (PKT3 op count p OR PKT3_RESET_FILTER_CAM_S cam) = word_of_nat op AND 0xFF"
  unfolding pkt_field_defs
  by (rule bit_word_eqI) (auto simp: bit_simps bit_three mask_numerals)

lemma PKT3_RESET_FILTER_CAM_G_PKT3 [simp]:
  "PKT3_RESET_FILTER_CAM_G (PKT3 op count p OR PKT3_RESET_FILTER_CAM_S cam) = cam"
proof -
  have "bit (PKT3 op count p OR PKT3_RESET_FILTER_CAM_S cam) 2 = cam"
    unfolding pkt_field_defs by (auto simp: bit_simps bit_three mask_numerals)
  then show ?thesis
    by (simp add: PKT3_RESET_FILTER_CAM_G_def and_one_eq bit_iff_odd_drop_bit mod_2_eq_odd)
qed

lemma PKT3_no_cam: "PKT3 op count p = PKT3 op count p OR PKT3_RESET_FILTER_CAM_S False"
  by (simp add: PKT3_RESET_FILTER_CAM_S_def)

lemma PKT3_replace_opcode:
  "(PKT3 op count p OR PKT3_RESET_FILTER_CAM_S cam) AND PKT3_IT_OPCODE_C OR PKT3_IT_OPCODE_S op' =
   PKT3 op' count p OR PKT3_RESET_FILTER_CAM_S cam"
  unfolding PKT3_def PKT_COUNT_S_def PKT3_IT_OPCODE_S_def PKT3_RESET_FILTER_CAM_S_def
  by (rule bit_word_eqI) (auto simp: bit_simps bit_three bit_op_c mask_numerals)

lemma unat_and_mask: "n < 2 ^ k \<Longrightarrow> k < 32 \<Longrightarrow> unat (word_of_nat n AND mask k :: dword) = n"
proof -
  assume "n < 2 ^ k" "k < 32"
  then have "n < 2 ^ 32" using power_strict_increasing[of k 32 "2::nat"] by linarith
  then show ?thesis
    using \<open>n < 2 ^ k\<close> by (simp add: take_bit_eq_mask[symmetric] unsigned_take_bit_eq unsigned_of_nat
        take_bit_nat_eq_self)
qed

lemma unat_count [simp]: "n < 0x4000 \<Longrightarrow> unat (word_of_nat n AND 0x3FFF :: dword) = n"
  using unat_and_mask[of n 14] by (simp add: mask_numerals)

lemma unat_opcode [simp]: "n < 0x100 \<Longrightarrow> unat (word_of_nat n AND 0xFF :: dword) = n"
  using unat_and_mask[of n 8] by (simp add: mask_numerals)

lemma unat_low16 [simp]: "n < 0x10000 \<Longrightarrow> unat (word_of_nat n AND 0xFFFF :: dword) = n"
  using unat_and_mask[of n 16] by (simp add: mask_numerals)

end
