(* ===== verification/IbParser.thy ===== *)
theory IbParser
  imports PacketFormat
begin

text \<open>
  The indirect-buffer parser of amd/common/ac_parse_ib.c, the repository's own reading of a PM4
  stream: \<open>parse_gfx_compute_ib\<close> walks the buffer packet by packet and \<open>ac_parse_packet3\<close> decodes
  one type-3 packet. What the C code prints is collected as a list of events: a register write
  for every \<open>ac_dump_reg\<close> of a SET packet, the raw body of every other packet. The parser runs
  without an address callback, so nested buffers are not followed. The printer generated from
  the packet database (\<open>ac_cp_print_packet_generated\<close>) is the parameter \<open>gen\<close>, the number of
  dwords it reads for an opcode and a count.

  The encoders at the end build each form of SET packet; their laws say that the parser reads
  the encoded writes back and stops exactly at the end of the packet.
\<close>

section \<open>The parser\<close>

datatype ib_event = RegWrite nat dword | Packet nat "dword list" | UnknownType dword

text \<open>\<open>ac_ib_get\<close>: the rest of the buffer is the state; reading past the end gives 0.\<close>

fun ac_ib_get :: "dword list \<Rightarrow> dword \<times> dword list" where
  "ac_ib_get [] = (0, [])"
| "ac_ib_get (x # xs) = (x, xs)"

fun set_reg_loop :: "nat \<Rightarrow> nat \<Rightarrow> dword list \<Rightarrow> ib_event list \<times> dword list" where
  "set_reg_loop 0 reg ib = ([], ib)"
| "set_reg_loop (Suc n) reg ib =
     (case ac_ib_get ib of (v, ib1) \<Rightarrow>
      case set_reg_loop n (reg + 4) ib1 of (es, ib2) \<Rightarrow> (RegWrite reg v # es, ib2))"

definition ac_parse_set_reg_packet ::
    "nat \<Rightarrow> nat \<Rightarrow> dword list \<Rightarrow> ib_event list \<times> dword list" where
  "ac_parse_set_reg_packet count reg_offset ib =
     (case ac_ib_get ib of (reg_dw, ib1) \<Rightarrow>
      set_reg_loop count (unat (reg_dw AND 0xFFFF) * 4 + reg_offset) ib1)"

fun pairs_loop :: "nat \<Rightarrow> nat \<Rightarrow> dword list \<Rightarrow> ib_event list \<times> dword list" where
  "pairs_loop 0 reg_base ib = ([], ib)"
| "pairs_loop (Suc n) reg_base ib =
     (case ac_ib_get ib of (off, ib1) \<Rightarrow>
      case ac_ib_get ib1 of (v, ib2) \<Rightarrow>
      case pairs_loop n reg_base ib2 of (es, ib3) \<Rightarrow>
        (RegWrite (u32 (unat (push_bit 2 off) + reg_base)) v # es, ib3))"

definition ac_parse_set_reg_pairs_packet ::
    "nat \<Rightarrow> nat \<Rightarrow> dword list \<Rightarrow> ib_event list \<times> dword list" where
  "ac_parse_set_reg_pairs_packet count reg_base ib = pairs_loop ((count + 1) div 2) reg_base ib"

text \<open>\<open>i\<close> counts up as in the C loop, \<open>n\<close> is what is left of \<open>count\<close>.\<close>

fun packed_loop ::
    "nat \<Rightarrow> nat \<Rightarrow> nat \<Rightarrow> nat \<Rightarrow> nat \<Rightarrow> dword list \<Rightarrow> ib_event list \<times> dword list" where
  "packed_loop 0 i reg_base off0 off1 ib = ([], ib)"
| "packed_loop (Suc n) i reg_base off0 off1 ib =
     (case ac_ib_get ib of (tmp, ib1) \<Rightarrow>
        if i mod 3 = 0 then
          packed_loop n (i + 1) reg_base (unat (tmp AND 0xFFFF) * 4 + reg_base)
            (unat (drop_bit 16 tmp) * 4 + reg_base) ib1
        else
          (case packed_loop n (i + 1) reg_base off0 off1 ib1 of (es, ib2) \<Rightarrow>
             (RegWrite (if i mod 3 = 1 then off0 else off1) tmp # es, ib2)))"

definition ac_parse_set_reg_pairs_packed_packet ::
    "nat \<Rightarrow> nat \<Rightarrow> dword list \<Rightarrow> ib_event list \<times> dword list" where
  "ac_parse_set_reg_pairs_packed_packet count reg_base ib =
     (case ac_ib_get ib of (_, ib1) \<Rightarrow> packed_loop count 0 reg_base 0 0 ib1)"

text \<open>The dwords the remaining cases of the switch read.\<close>

definition packet_reads :: "amd_gfx_level \<Rightarrow> (nat \<Rightarrow> nat \<Rightarrow> nat) \<Rightarrow> nat \<Rightarrow> nat \<Rightarrow> nat" where
  "packet_reads gfx gen op count =
     (if op = PKT3_SURFACE_SYNC then 4
      else if op = PKT3_EVENT_WRITE_EOP then 5
      else if op = PKT3_RELEASE_MEM then (if GFX10 \<le> gfx then gen op count else 7)
      else if op = PKT3_INDEX_TYPE then 1
      else if op = PKT3_CP_DMA then 5
      else if op = PKT3_DMA_DATA then (if GFX9 \<le> gfx then gen op count else 6)
      else if op = PKT3_INDIRECT_BUFFER_SI \<or> op = PKT3_INDIRECT_BUFFER then 3
      else if op = PKT3_NOP then 0
      else gen op count)"

text \<open>The register space a SET opcode addresses and the form of its body.\<close>

datatype set_form = Sequential | Pairs | Packed

definition set_packet_kind :: "nat \<Rightarrow> (set_form \<times> nat) option" where
  "set_packet_kind op =
     (if op = PKT3_SET_CONTEXT_REG then Some (Sequential, SI_CONTEXT_REG_OFFSET)
      else if op = PKT3_SET_CONFIG_REG then Some (Sequential, SI_CONFIG_REG_OFFSET)
      else if op = PKT3_SET_UCONFIG_REG \<or> op = PKT3_SET_UCONFIG_REG_INDEX
        then Some (Sequential, CIK_UCONFIG_REG_OFFSET)
      else if op = PKT3_SET_SH_REG \<or> op = PKT3_SET_SH_REG_INDEX then Some (Sequential, SI_SH_REG_OFFSET)
      else if op = PKT3_SET_UCONFIG_REG_PAIRS then Some (Pairs, CIK_UCONFIG_REG_OFFSET)
      else if op = PKT3_SET_CONTEXT_REG_PAIRS then Some (Pairs, SI_CONTEXT_REG_OFFSET)
      else if op = PKT3_SET_SH_REG_PAIRS then Some (Pairs, SI_SH_REG_OFFSET)
      else if op = PKT3_SET_CONTEXT_REG_PAIRS_PACKED then Some (Packed, SI_CONTEXT_REG_OFFSET)
      else if op = PKT3_SET_SH_REG_PAIRS_PACKED \<or> op = PKT3_SET_SH_REG_PAIRS_PACKED_N
        then Some (Packed, SI_SH_REG_OFFSET)
      else None)"

definition parse_set :: "set_form \<Rightarrow> nat \<Rightarrow> nat \<Rightarrow> dword list \<Rightarrow> ib_event list \<times> dword list" where
  "parse_set form count base ib =
     (case form of
        Sequential \<Rightarrow> ac_parse_set_reg_packet count base ib
      | Pairs \<Rightarrow> ac_parse_set_reg_pairs_packet count base ib
      | Packed \<Rightarrow> ac_parse_set_reg_pairs_packed_packet count base ib)"

definition ac_parse_packet3 ::
    "amd_gfx_level \<Rightarrow> (nat \<Rightarrow> nat \<Rightarrow> nat) \<Rightarrow> dword \<Rightarrow> dword list \<Rightarrow> ib_event list \<times> dword list" where
  "ac_parse_packet3 gfx gen header ib =
     (let count = unat (PKT_COUNT_G header);
          op = unat (PKT3_IT_OPCODE_G header);
          (es, ib1) =
            (case set_packet_kind op of
               Some (form, base) \<Rightarrow> parse_set form count base ib
             | None \<Rightarrow>
                 if header = PKT3_NOP_PAD then ([Packet op []], ib)
                 else ([Packet op (take (count + 1) ib)], drop (packet_reads gfx gen op count) ib))
      in if header = PKT3_NOP_PAD then (es, ib1)
         else if length ib - length ib1 < count + 1 then (es, drop (count + 1) ib)
         else (es, ib1))"

lemma ac_ib_get_length: "length (snd (ac_ib_get ib)) \<le> length ib"
  by (cases ib) auto

lemma set_reg_loop_length: "length (snd (set_reg_loop n reg ib)) \<le> length ib"
proof (induction n arbitrary: reg ib)
  case (Suc n)
  show ?case
    using Suc.IH[of "reg + 4" "snd (ac_ib_get ib)"] ac_ib_get_length[of ib]
    by (auto split: prod.splits)
qed simp

lemma pairs_loop_length: "length (snd (pairs_loop n base ib)) \<le> length ib"
proof (induction n arbitrary: ib)
  case (Suc n)
  show ?case
    using Suc.IH[of "snd (ac_ib_get (snd (ac_ib_get ib)))"] ac_ib_get_length[of ib]
      ac_ib_get_length[of "snd (ac_ib_get ib)"]
    by (auto split: prod.splits)
qed simp

lemma packed_loop_length: "length (snd (packed_loop n i base off0 off1 ib)) \<le> length ib"
proof (induction n i base off0 off1 ib rule: packed_loop.induct)
  case (2 n i reg_base off0 off1 ib)
  then show ?case
    using ac_ib_get_length[of ib] by (auto split: prod.splits)
qed simp

lemma parse_set_length: "length (snd (parse_set form count base ib)) \<le> length ib"
proof (cases form)
  case Sequential
  then show ?thesis
    using order_trans[OF set_reg_loop_length ac_ib_get_length]
    by (auto simp: parse_set_def ac_parse_set_reg_packet_def split_beta)
next
  case Pairs
  then show ?thesis
    by (simp add: parse_set_def ac_parse_set_reg_pairs_packet_def pairs_loop_length)
next
  case Packed
  then show ?thesis
    using order_trans[OF packed_loop_length ac_ib_get_length]
    by (auto simp: parse_set_def ac_parse_set_reg_pairs_packed_packet_def split_beta)
qed

lemma ac_parse_packet3_length: "length (snd (ac_parse_packet3 gfx gen header ib)) \<le> length ib"
  using parse_set_length
  by (auto simp: ac_parse_packet3_def Let_def split_beta split: option.splits)

text \<open>\<open>parse_gfx_compute_ib\<close>.\<close>

function parse_gfx_compute_ib ::
    "amd_gfx_level \<Rightarrow> (nat \<Rightarrow> nat \<Rightarrow> nat) \<Rightarrow> dword list \<Rightarrow> ib_event list" where
  "parse_gfx_compute_ib gfx gen [] = []"
| "parse_gfx_compute_ib gfx gen (header # ib) =
     (if PKT_TYPE_G header = 3 then
        fst (ac_parse_packet3 gfx gen header ib) @
        parse_gfx_compute_ib gfx gen (snd (ac_parse_packet3 gfx gen header ib))
      else if header = 0x80000000 then parse_gfx_compute_ib gfx gen ib
      else UnknownType header # parse_gfx_compute_ib gfx gen ib)"
  by pat_completeness auto
termination
  by (relation "measure (\<lambda>(gfx, gen, ib). length ib)") (auto simp: ac_parse_packet3_length less_Suc_eq_le)

section \<open>Encoders and their laws\<close>

definition set_header :: "nat \<Rightarrow> nat \<Rightarrow> bool \<Rightarrow> dword" where
  "set_header op count cam = PKT3 op (word_of_nat count) False OR PKT3_RESET_FILTER_CAM_S cam"

fun seq_events :: "nat \<Rightarrow> dword list \<Rightarrow> ib_event list" where
  "seq_events reg [] = []"
| "seq_events reg (v # vs) = RegWrite reg v # seq_events (reg + 4) vs"

definition reg_events :: "nat \<Rightarrow> (nat \<times> dword) list \<Rightarrow> ib_event list" where
  "reg_events base = map (\<lambda>(r, v). RegWrite (base + 4 * r) v)"

definition enc_seq :: "nat \<Rightarrow> bool \<Rightarrow> dword \<Rightarrow> dword list \<Rightarrow> dword list" where
  "enc_seq op cam reg_dw vs = set_header op (length vs) cam # reg_dw # vs"

fun pair_body :: "(nat \<times> dword) list \<Rightarrow> dword list" where
  "pair_body [] = []"
| "pair_body ((r, v) # es) = word_of_nat r # v # pair_body es"

definition enc_pairs :: "nat \<Rightarrow> bool \<Rightarrow> (nat \<times> dword) list \<Rightarrow> dword list" where
  "enc_pairs op cam es = set_header op (2 * length es - 1) cam # pair_body es"

fun pack_body :: "(nat \<times> dword) list \<Rightarrow> dword list" where
  "pack_body [] = []"
| "pack_body [(r, v)] = [word_of_nat r, v]"
| "pack_body ((r0, v0) # (r1, v1) # es) =
     (word_of_nat r0 OR push_bit 16 (word_of_nat r1)) # v0 # v1 # pack_body es"

definition enc_packed :: "nat \<Rightarrow> bool \<Rightarrow> (nat \<times> dword) list \<Rightarrow> dword list" where
  "enc_packed op cam es =
     set_header op (length (pack_body es)) cam # word_of_nat (length es) # pack_body es"

lemma reg_events_simps [simp]:
  "reg_events base [] = []"
  "reg_events base ((r, v) # es) = RegWrite (base + 4 * r) v # reg_events base es"
  "reg_events base (xs @ ys) = reg_events base xs @ reg_events base ys"
  by (simp_all add: reg_events_def)

lemma length_pair_body [simp]: "length (pair_body es) = 2 * length es"
  by (induction es rule: pair_body.induct) auto

lemma pair_body_append [simp]: "pair_body (xs @ ys) = pair_body xs @ pair_body ys"
  by (induction xs rule: pair_body.induct) auto

lemma length_pack_body: "length (pack_body es) = 3 * (length es div 2) + 2 * (length es mod 2)"
  by (induction es rule: pack_body.induct) auto

lemma set_header_fields [simp]:
  "PKT_TYPE_G (set_header op count cam) = 3"
  "count < 0x4000 \<Longrightarrow> unat (PKT_COUNT_G (set_header op count cam)) = count"
  "op < 0x100 \<Longrightarrow> unat (PKT3_IT_OPCODE_G (set_header op count cam)) = op"
  "PKT3_RESET_FILTER_CAM_G (set_header op count cam) = cam"
  by (simp_all add: set_header_def)

lemma set_packet_kind_less: "set_packet_kind op = Some k \<Longrightarrow> op < 0x100"
  by (auto simp: set_packet_kind_def pkt3_set_defs split: if_splits)

lemma set_reg_loop_read: "set_reg_loop (length vs) reg (vs @ rest) = (seq_events reg vs, rest)"
  by (induction vs arbitrary: reg) auto

lemma unat_push_bit2: "r < 0x10000 \<Longrightarrow> unat (push_bit 2 (word_of_nat r :: dword)) = 4 * r"
  by (simp add: push_bit_eq_mult unat_word_ariths unat_of_nat)

lemma pairs_loop_read:
  assumes "\<forall>(r, v)\<in>set es. r < 0x10000" "base < 0x40000"
  shows "pairs_loop (length es) base (pair_body es @ rest) = (reg_events base es, rest)"
  using assms
  by (induction es rule: pair_body.induct) (auto simp: unat_push_bit2 add.commute)

lemma packed_offsets:
  fixes a b :: nat
  assumes "a < 0x10000" "b < 0x10000"
  shows "unat ((word_of_nat a OR push_bit 16 (word_of_nat b) :: dword) AND 0xFFFF) = a"
    and "unat (drop_bit 16 (word_of_nat a OR push_bit 16 (word_of_nat b) :: dword)) = b"
proof -
  have "take_bit 16 a = a" using assms(1) by (simp add: take_bit_nat_eq_self)
  then have hi: "\<not> bit a n" if "16 \<le> n" for n
    using that bit_take_bit_iff[of 16 a n] by simp
  have "(word_of_nat a OR push_bit 16 (word_of_nat b) :: dword) AND 0xFFFF = word_of_nat a AND 0xFFFF"
    by (rule bit_word_eqI) (auto simp: bit_simps mask_numerals)
  then show "unat ((word_of_nat a OR push_bit 16 (word_of_nat b) :: dword) AND 0xFFFF) = a"
    using assms(1) by simp
  have "drop_bit 16 (word_of_nat a OR push_bit 16 (word_of_nat b) :: dword) = word_of_nat b AND 0xFFFF"
    by (rule bit_word_eqI) (auto simp: bit_simps mask_numerals hi)
  then show "unat (drop_bit 16 (word_of_nat a OR push_bit 16 (word_of_nat b) :: dword)) = b"
    using assms(2) by simp
qed

lemma packed_loop_step:
  assumes "i mod 3 = 0"
  shows "packed_loop (Suc (Suc (Suc n))) i base off0 off1 (tmp # v0 # v1 # ib) =
    (let off0 = unat (tmp AND 0xFFFF) * 4 + base; off1 = unat (drop_bit 16 tmp) * 4 + base;
         (es, ib') = packed_loop n (i + 3) base off0 off1 ib
     in (RegWrite off0 v0 # RegWrite off1 v1 # es, ib'))"
proof -
  have *: "(i + 1) mod 3 = 1" "(i + 1 + 1) mod 3 = 2" "i + 1 + 1 + 1 = i + 3" using assms by presburger+
  show ?thesis
    unfolding packed_loop.simps ac_ib_get.simps prod.case * assms Let_def
    by (simp add: split_beta)
qed

lemma packed_loop_read:
  assumes "even (length es)" "\<forall>(r, v)\<in>set es. r < 0x10000" "i mod 3 = 0"
  shows "packed_loop (length (pack_body es)) i base off0 off1 (pack_body es @ rest) =
         (reg_events base es, rest)"
  using assms
proof (induction es arbitrary: i off0 off1 rule: pack_body.induct)
  case (3 r0 v0 r1 v1 es)
  then have *: "(i + 3) mod 3 = 0" by presburger
  have r: "r0 < 0x10000" "r1 < 0x10000" using 3(3) by auto
  have IH: "packed_loop (length (pack_body es)) (i + 3) base o0 o1 (pack_body es @ rest) =
      (reg_events base es, rest)" for o0 o1
    using 3(2,3) * by (intro 3(1)) auto
  show ?case
    unfolding pack_body.simps list.size append_Cons add_Suc_right add_0_right
    unfolding packed_loop_step[OF 3(4)] packed_offsets[OF r] Let_def IH
    by (simp add: mult.commute add.commute)
qed auto

text \<open>
  A stream is \<open>closed\<close> when the parser stops exactly at its end: what follows is parsed on its own.
\<close>

definition closed :: "amd_gfx_level \<Rightarrow> (nat \<Rightarrow> nat \<Rightarrow> nat) \<Rightarrow> dword list \<Rightarrow> ib_event list \<Rightarrow> bool" where
  "closed gfx gen xs es \<longleftrightarrow>
     (\<forall>rest. parse_gfx_compute_ib gfx gen (xs @ rest) = es @ parse_gfx_compute_ib gfx gen rest)"

lemma closed_parse: "closed gfx gen xs es \<Longrightarrow> parse_gfx_compute_ib gfx gen xs = es"
  unfolding closed_def by (drule spec[of _ "[]"]) simp

lemma closed_Nil [simp]: "closed gfx gen [] []"
  by (simp add: closed_def)

lemma closed_append: "closed gfx gen xs es \<Longrightarrow> closed gfx gen ys fs \<Longrightarrow> closed gfx gen (xs @ ys) (es @ fs)"
  by (simp add: closed_def)

lemma closed_set_packet:
  assumes "set_packet_kind op = Some (form, base)" "count < 0x4000" "length body = count + 1"
    and "\<And>rest. parse_set form count base (body @ rest) = (es, rest)"
  shows "closed gfx gen (set_header op count cam # body) es"
  using assms set_packet_kind_less[OF assms(1)]
  by (simp add: closed_def ac_parse_packet3_def Let_def)

lemma closed_enc_seq:
  assumes "set_packet_kind op = Some (Sequential, base)" "length vs < 0x4000"
  shows "closed gfx gen (enc_seq op cam reg_dw vs) (seq_events (unat (reg_dw AND 0xFFFF) * 4 + base) vs)"
  unfolding enc_seq_def using assms
  by (intro closed_set_packet) (auto simp: parse_set_def ac_parse_set_reg_packet_def set_reg_loop_read)

lemma set_packet_kind_base: "set_packet_kind op = Some (form, base) \<Longrightarrow> base < 0x40000"
  by (auto simp: set_packet_kind_def reg_space_defs SI_CONFIG_REG_OFFSET_def split: if_splits)

lemma closed_enc_pairs:
  assumes "set_packet_kind op = Some (Pairs, base)" "es \<noteq> []" "2 * length es \<le> 0x4000"
    and "\<forall>(r, v)\<in>set es. r < 0x10000"
  shows "closed gfx gen (enc_pairs op cam es) (reg_events base es)"
  unfolding enc_pairs_def
proof (rule closed_set_packet[OF assms(1)])
  have n: "(2 * length es - 1 + 1) div 2 = length es" using assms(2) by (cases es) auto
  show "2 * length es - 1 < 0x4000" "length (pair_body es) = 2 * length es - 1 + 1"
    using assms(2,3) by (cases es; simp)+
  show "parse_set Pairs (2 * length es - 1) base (pair_body es @ rest) = (reg_events base es, rest)" for rest
    unfolding parse_set_def set_form.case ac_parse_set_reg_pairs_packet_def n
    by (rule pairs_loop_read[OF assms(4) set_packet_kind_base[OF assms(1)]])
qed

lemma closed_enc_packed:
  assumes "set_packet_kind op = Some (Packed, base)" "even (length es)" "length (pack_body es) < 0x4000"
    and "\<forall>(r, v)\<in>set es. r < 0x10000"
  shows "closed gfx gen (enc_packed op cam es) (reg_events base es)"
  unfolding enc_packed_def using assms(3)
  by (intro closed_set_packet[OF assms(1)])
    (auto simp: parse_set_def ac_parse_set_reg_pairs_packed_packet_def packed_loop_read[OF assms(2,4)])

end
