(* ===== verification/Pm4.thy ===== *)
theory Pm4
  imports IbParser "HOL-Library.Monad_Syntax" "HOL-Library.Sublist"
begin

text \<open>
  The PM4 state builder of amd/common/ac_pm4.c and its radeonsi wrapper si_pm4.c: a state is a
  command array that \<open>ac_pm4_set_reg\<close> extends by one register write, choosing between the
  sequential, the pairs and the packed-pairs SET packets, merging consecutive writes into one
  packet, padding a packed packet to an even number of registers and rewriting it to the
  sequential form when \<open>ac_pm4_finalize\<close> finds its registers consecutive.

  A failed \<open>assert\<close> and \<open>UNREACHABLE\<close> are \<^term>\<open>None\<close>. The array is a function from indices to
  dwords, so that the slots the code reserves keep what was there. \<open>rn\<close> stands for
  \<open>ac_get_register_name\<close>, which reads the register tables the build generates.

  The lemmas describe the array as a stream of finished packets followed by the packet under
  construction (\<open>pm4_inv\<close>), and show that every operation keeps that form. The theorems then
  read the stream back with the parser of \<open>IbParser\<close>.
\<close>

section \<open>The state\<close>

record radeon_info =
  gfx_level :: amd_gfx_level
  has_set_context_pairs :: bool
  has_set_context_pairs_packed :: bool
  has_set_sh_pairs :: bool
  has_set_sh_pairs_packed :: bool
  has_set_uconfig_pairs :: bool

record ac_pm4_state =
  info :: radeon_info
  last_reg :: nat
  last_pm4 :: nat
  ndw :: nat
  last_opcode :: nat
  last_idx :: nat
  is_compute_queue :: bool
  packed_is_padded :: bool
  max_dw :: nat
  debug_sqtt :: bool
  spi_shader_pgm_lo_reg :: nat
  pm4 :: "nat \<Rightarrow> dword"

text \<open>\<open>state->pm4[i] = v\<close> and \<open>state->pm4[state->ndw++] = v\<close>.\<close>

definition poke :: "nat \<Rightarrow> dword \<Rightarrow> ac_pm4_state \<Rightarrow> ac_pm4_state" where
  "poke i v s = s\<lparr>pm4 := (pm4 s)(i := v)\<rparr>"

definition push :: "dword \<Rightarrow> ac_pm4_state \<Rightarrow> ac_pm4_state" where
  "push v s = s\<lparr>pm4 := (pm4 s)(ndw s := v), ndw := ndw s + 1\<rparr>"

definition c_assert :: "bool \<Rightarrow> unit option" where
  "c_assert b = (if b then Some () else None)"

section \<open>Opcodes\<close>

definition opcode_is_pairs :: "nat \<Rightarrow> bool" where
  "opcode_is_pairs opcode \<longleftrightarrow>
     opcode = PKT3_SET_CONTEXT_REG_PAIRS \<or> opcode = PKT3_SET_SH_REG_PAIRS \<or>
     opcode = PKT3_SET_UCONFIG_REG_PAIRS"

definition opcode_is_pairs_packed :: "nat \<Rightarrow> bool" where
  "opcode_is_pairs_packed opcode \<longleftrightarrow>
     opcode = PKT3_SET_CONTEXT_REG_PAIRS_PACKED \<or> opcode = PKT3_SET_SH_REG_PAIRS_PACKED \<or>
     opcode = PKT3_SET_SH_REG_PAIRS_PACKED_N"

definition is_privileged_reg :: "ac_pm4_state \<Rightarrow> nat \<Rightarrow> bool" where
  "is_privileged_reg s reg =
     (if GFX10 \<le> gfx_level (info s) \<and> gfx_level (info s) \<le> GFX10_3 then
        reg = 0x8D04 \<or> reg = 0x8D00 \<or> reg = 0x8D14 \<or> reg = 0x8D18 \<or> reg = 0x8D1C
      else if GFX6 \<le> gfx_level (info s) \<and> gfx_level (info s) \<le> GFX8 then reg = 0x9100
      else False)"

definition pairs_packed_opcode_to_regular :: "nat \<Rightarrow> nat option" where
  "pairs_packed_opcode_to_regular opcode =
     (if opcode = PKT3_SET_CONTEXT_REG_PAIRS_PACKED then Some PKT3_SET_CONTEXT_REG
      else if opcode = PKT3_SET_SH_REG_PAIRS_PACKED then Some PKT3_SET_SH_REG
      else None)"

definition regular_opcode_to_pairs :: "ac_pm4_state \<Rightarrow> nat \<Rightarrow> nat" where
  "regular_opcode_to_pairs s opcode =
     (if opcode = PKT3_SET_CONTEXT_REG then
        (if has_set_context_pairs_packed (info s) then PKT3_SET_CONTEXT_REG_PAIRS_PACKED
         else if has_set_context_pairs (info s) then PKT3_SET_CONTEXT_REG_PAIRS else opcode)
      else if opcode = PKT3_SET_SH_REG then
        (if has_set_sh_pairs_packed (info s) then PKT3_SET_SH_REG_PAIRS_PACKED
         else if has_set_sh_pairs (info s) then PKT3_SET_SH_REG_PAIRS else opcode)
      else if opcode = PKT3_SET_UCONFIG_REG then
        (if has_set_uconfig_pairs (info s) then PKT3_SET_UCONFIG_REG_PAIRS else opcode)
      else opcode)"

section \<open>Reading a packed packet\<close>

definition packed_next_is_reg_offset_pair :: "ac_pm4_state \<Rightarrow> bool" where
  "packed_next_is_reg_offset_pair s \<longleftrightarrow> last_pm4 s \<le> ndw s \<and> (ndw s - last_pm4 s) mod 3 = 2"

definition packed_next_is_reg_value1 :: "ac_pm4_state \<Rightarrow> bool" where
  "packed_next_is_reg_value1 s \<longleftrightarrow> last_pm4 s \<le> ndw s \<and> (ndw s - last_pm4 s) mod 3 = 1"

definition packed_prev_is_reg_value0 :: "ac_pm4_state \<Rightarrow> bool" where
  "packed_prev_is_reg_value0 s = packed_next_is_reg_value1 s"

definition get_packed_reg_dw_offsetN :: "ac_pm4_state \<Rightarrow> nat \<Rightarrow> nat option" where
  "get_packed_reg_dw_offsetN s index =
     (let i = last_pm4 s + 2 + (index div 2) * 3
      in do { c_assert (i < ndw s);
              Some (unat (drop_bit ((index mod 2) * 16) (pm4 s i) AND 0xffff)) })"

definition get_packed_reg_valueN_idx :: "ac_pm4_state \<Rightarrow> nat \<Rightarrow> nat option" where
  "get_packed_reg_valueN_idx s index =
     (let i = last_pm4 s + 2 + (index div 2) * 3 + 1 + index mod 2
      in do { c_assert (i < ndw s); Some i })"

definition get_packed_reg_valueN :: "ac_pm4_state \<Rightarrow> nat \<Rightarrow> dword option" where
  "get_packed_reg_valueN s index = map_option (pm4 s) (get_packed_reg_valueN_idx s index)"

definition get_packed_reg_count :: "ac_pm4_state \<Rightarrow> nat option" where
  "get_packed_reg_count s =
     (let body_size = ndw s - last_pm4 s - 2
      in do { c_assert (last_pm4 s + 2 < ndw s \<and> body_size mod 3 = 0); Some (body_size div 3 * 2) })"

section \<open>Finalizing a packet\<close>

text \<open>The loops of \<open>ac_pm4_finalize\<close>, over the indices they still visit.\<close>

primrec all_consecutive :: "ac_pm4_state \<Rightarrow> nat \<Rightarrow> nat list \<Rightarrow> bool option" where
  "all_consecutive s off0 [] = Some True"
| "all_consecutive s off0 (i # is) =
     do { off \<leftarrow> get_packed_reg_dw_offsetN s i;
          if off0 \<noteq> u32 (off + 2 ^ 32 - i) then Some False else all_consecutive s off0 is }"

primrec unpack_values :: "nat list \<Rightarrow> ac_pm4_state \<Rightarrow> ac_pm4_state option" where
  "unpack_values [] s = Some s"
| "unpack_values (i # is) s =
     do { v \<leftarrow> get_packed_reg_valueN s i; unpack_values is (poke (last_pm4 s + 2 + i) v s) }"

definition is_pgm_lo :: "(nat \<Rightarrow> string) \<Rightarrow> nat \<Rightarrow> bool" where
  "is_pgm_lo rn reg = sublist ''SPI_SHADER_PGM_LO_'' (rn reg)"

primrec find_pgm_lo :: "(nat \<Rightarrow> string) \<Rightarrow> nat list \<Rightarrow> ac_pm4_state \<Rightarrow> ac_pm4_state option" where
  "find_pgm_lo rn [] s = Some s"
| "find_pgm_lo rn (i # is) s =
     do { off \<leftarrow> get_packed_reg_dw_offsetN s i;
          let reg = SI_SH_REG_OFFSET + off * 4;
          if is_pgm_lo rn reg then Some (s\<lparr>spi_shader_pgm_lo_reg := reg\<rparr>)
          else find_pgm_lo rn is s }"

definition finalize_packed :: "(nat \<Rightarrow> string) \<Rightarrow> ac_pm4_state \<Rightarrow> ac_pm4_state option" where
  "finalize_packed rn s =
     do { count \<leftarrow> get_packed_reg_count s;
          off0 \<leftarrow> get_packed_reg_dw_offsetN s 0;
          let reg_count = (if packed_is_padded s then count - 1 else count);
          consecutive \<leftarrow> all_consecutive s off0 [1..<reg_count];
          if consecutive then
            do { c_assert (ndw s - last_pm4 s = 2 + 3 * (reg_count + of_bool (packed_is_padded s)) div 2);
                 opcode \<leftarrow> pairs_packed_opcode_to_regular (last_opcode s);
                 let s1 = poke (last_pm4 s) (PKT3 opcode (word_of_nat reg_count) False) s;
                 let s2 = poke (last_pm4 s + 1) (word_of_nat off0) s1;
                 s3 \<leftarrow> unpack_values [0..<reg_count] s2;
                 Some (s3\<lparr>ndw := last_pm4 s3 + 2 + reg_count, last_opcode := PKT3_SET_SH_REG\<rparr>) }
          else
            do { let sqtt = (debug_sqtt s \<and> (last_opcode s = PKT3_SET_SH_REG_PAIRS_PACKED \<or>
                                             last_opcode s = PKT3_SET_SH_REG_PAIRS_PACKED_N));
                 let reg_count = (if sqtt \<and> packed_is_padded s then reg_count + 1 else reg_count);
                 s1 \<leftarrow> (if sqtt then find_pgm_lo rn (rev [0..<reg_count]) s else Some s);
                 Some (if last_opcode s = PKT3_SET_SH_REG_PAIRS_PACKED \<and> reg_count \<le> 14 then
                         poke (last_pm4 s) (pm4 s1 (last_pm4 s) AND PKT3_IT_OPCODE_C
                           OR PKT3_IT_OPCODE_S PKT3_SET_SH_REG_PAIRS_PACKED_N) s1
                       else s1) } }"

text \<open>The two SQTT loops over a finished SET_SH_REG and SET_SH_REG_PAIRS packet.\<close>

definition record_pgm_lo :: "(nat \<Rightarrow> string) \<Rightarrow> ac_pm4_state \<Rightarrow> ac_pm4_state" where
  "record_pgm_lo rn s =
     (let found = (if debug_sqtt s \<and> last_opcode s = PKT3_SET_SH_REG then
                     find (is_pgm_lo rn)
                       (map (\<lambda>i. u32 (SI_SH_REG_OFFSET + unat (pm4 s (last_pm4 s + 1)) * 4 + i * 4))
                         [0..<unat (PKT_COUNT_G (pm4 s (last_pm4 s)))])
                   else if debug_sqtt s \<and> last_opcode s = PKT3_SET_SH_REG_PAIRS then
                     find (is_pgm_lo rn)
                       (map (\<lambda>i. u32 (SI_SH_REG_OFFSET + unat (pm4 s (last_pm4 s + 1 + 2 * i)) * 4))
                         [0..<(unat (PKT_COUNT_G (pm4 s (last_pm4 s))) + 1) div 2])
                   else None)
      in case found of None \<Rightarrow> s | Some reg \<Rightarrow> s\<lparr>spi_shader_pgm_lo_reg := reg\<rparr>)"

definition ac_pm4_finalize :: "(nat \<Rightarrow> string) \<Rightarrow> ac_pm4_state \<Rightarrow> ac_pm4_state option" where
  "ac_pm4_finalize rn s =
     do { s1 \<leftarrow> (if opcode_is_pairs_packed (last_opcode s) then finalize_packed rn s else Some s);
          Some (record_pgm_lo rn s1) }"

section \<open>Building packets\<close>

definition ac_pm4_cmd_begin :: "(nat \<Rightarrow> string) \<Rightarrow> nat \<Rightarrow> ac_pm4_state \<Rightarrow> ac_pm4_state option" where
  "ac_pm4_cmd_begin rn opcode s =
     do { s1 \<leftarrow> ac_pm4_finalize rn s;
          c_assert (max_dw s1 \<noteq> 0);
          c_assert (ndw s1 < max_dw s1);
          c_assert (opcode \<le> 254);
          Some (s1\<lparr>last_opcode := opcode, last_pm4 := ndw s1, ndw := ndw s1 + 1,
                   packed_is_padded := False\<rparr>) }"

definition ac_pm4_cmd_add :: "dword \<Rightarrow> ac_pm4_state \<Rightarrow> ac_pm4_state option" where
  "ac_pm4_cmd_add dw s =
     do { c_assert (max_dw s \<noteq> 0);
          c_assert (ndw s < max_dw s);
          Some ((push dw s)\<lparr>last_opcode := 255\<rparr>) }"

definition need_reset_filter_cam :: "ac_pm4_state \<Rightarrow> bool" where
  "need_reset_filter_cam s =
     (if \<not> is_compute_queue s \<and>
         (opcode_is_pairs (last_opcode s) \<or> opcode_is_pairs_packed (last_opcode s)) then True
      else let reg = last_reg s * 4 + CIK_UCONFIG_REG_OFFSET
           in GFX11 \<le> gfx_level (info s) \<and> \<not> is_compute_queue s \<and>
              (reg = 0x367A4 \<or> reg = 0x367A0 \<or> reg = 0x367B4 \<or> reg = 0x367B8 \<or> reg = 0x367B0))"

text \<open>
  \<open>ac_pm4_set_reg_custom\<close> ends with \<open>ac_pm4_cmd_end\<close>, which calls it back once to pad a packed
  packet. \<open>set_reg_body\<close> is \<open>ac_pm4_set_reg_custom\<close> up to that last call, which \<open>ac_pm4_cmd_end\<close> makes to
  itself.
\<close>

definition set_reg_open ::
    "(nat \<Rightarrow> string) \<Rightarrow> nat \<Rightarrow> nat \<Rightarrow> nat \<Rightarrow> ac_pm4_state \<Rightarrow> ac_pm4_state option" where
  "set_reg_open rn reg opcode idx s =
     (if opcode_is_pairs_packed opcode then
        do { c_assert (idx = 0);
             if opcode \<noteq> last_opcode s then
               do { s1 \<leftarrow> ac_pm4_cmd_begin rn opcode s; Some (s1\<lparr>ndw := ndw s1 + 1\<rparr>) }
             else Some s }
      else if opcode_is_pairs opcode then
        do { c_assert (idx = 0);
             s1 \<leftarrow> (if opcode \<noteq> last_opcode s then ac_pm4_cmd_begin rn opcode s else Some s);
             Some (push (word_of_nat reg) s1) }
      else if opcode \<noteq> last_opcode s \<or> reg \<noteq> last_reg s + 1 \<or> idx \<noteq> last_idx s then
        do { s1 \<leftarrow> ac_pm4_cmd_begin rn opcode s;
             Some (push (word_of_nat reg OR push_bit 28 (word_of_nat idx)) s1) }
      else Some s)"

definition set_reg_pack :: "nat \<Rightarrow> ac_pm4_state \<Rightarrow> ac_pm4_state" where
  "set_reg_pack reg s =
     (let s1 = (if packed_is_padded s then s\<lparr>packed_is_padded := False, ndw := ndw s - 1\<rparr> else s)
      in if packed_next_is_reg_offset_pair s1 then push (word_of_nat reg) s1
         else if packed_next_is_reg_value1 s1 then
           poke (ndw s1 - 2)
             (pm4 s1 (ndw s1 - 2) AND 0xFFFF OR push_bit 16 (word_of_nat reg)) s1
         else s1)"

definition set_reg_body ::
    "(nat \<Rightarrow> string) \<Rightarrow> nat \<Rightarrow> dword \<Rightarrow> nat \<Rightarrow> nat \<Rightarrow> ac_pm4_state \<Rightarrow> ac_pm4_state option" where
  "set_reg_body rn reg val opcode idx s =
     do { let reg = reg div 4;
          c_assert (max_dw s \<noteq> 0);
          c_assert (ndw s + 2 \<le> max_dw s);
          s1 \<leftarrow> set_reg_open rn reg opcode idx s;
          c_assert (reg \<le> 65535);
          let s2 = s1\<lparr>last_reg := reg, last_idx := idx\<rparr>;
          let s3 = (if opcode_is_pairs_packed opcode then set_reg_pack reg s2 else s2);
          Some (push val s3) }"

definition write_header :: "bool \<Rightarrow> ac_pm4_state \<Rightarrow> ac_pm4_state" where
  "write_header predicate s =
     poke (last_pm4 s)
       (PKT3 (last_opcode s) (word_of_nat (ndw s) - word_of_nat (last_pm4 s) - 2) predicate OR
        PKT3_RESET_FILTER_CAM_S (need_reset_filter_cam s)) s"

text \<open>Adding a register to a packed packet with one value too few either completes the pair or, when the
  packet is marked as padded, leaves it as it is without the mark.\<close>

definition open_pairs :: "ac_pm4_state \<Rightarrow> nat" where
  "open_pairs s = (if packed_prev_is_reg_value0 s then if packed_is_padded s then 2 else 1 else 0)"

lemma mod3_steps:
  "Suc (3 * k) mod 3 = 1" "Suc (Suc (3 * k)) mod 3 = 2" "Suc (Suc (Suc (Suc (3 * k)))) mod 3 = (1 :: nat)"
  by presburger+

lemma open_pairs_header: "open_pairs (write_header p s) = open_pairs s"
  by (simp add: open_pairs_def write_header_def poke_def packed_prev_is_reg_value0_def packed_next_is_reg_value1_def)

lemma set_reg_body_open_pairs:
  assumes "opcode_is_pairs_packed (last_opcode s)" "packed_prev_is_reg_value0 s" "set_reg_body rn reg v (last_opcode s) 0 s = Some t"
  shows "open_pairs t < open_pairs s"
proof -
  have t: "t = push v (set_reg_pack (reg div 4) (s\<lparr>last_reg := reg div 4, last_idx := 0\<rparr>))"
    using assms(1,3) by (auto simp: set_reg_body_def set_reg_open_def Let_def c_assert_def split: if_splits option.splits bind_splits)
  have "(ndw s - last_pm4 s) mod 3 = 1" "last_pm4 s \<le> ndw s"
    using assms(2) by (auto simp: packed_prev_is_reg_value0_def packed_next_is_reg_value1_def)
  then have "ndw s = Suc (last_pm4 s + 3 * ((ndw s - last_pm4 s) div 3))"
    using mult_div_mod_eq[of 3 "ndw s - last_pm4 s"] by linarith
  then obtain k where k: "ndw s = Suc (last_pm4 s + 3 * k)" ..
  show ?thesis
    by (cases "packed_is_padded s")
      (simp_all add: t k open_pairs_def set_reg_pack_def Let_def packed_prev_is_reg_value0_def packed_next_is_reg_value1_def
        packed_next_is_reg_offset_pair_def push_def poke_def Suc_diff_le mod3_steps)
qed

text \<open>The two functions call each other until the number of registers is even.\<close>

function ac_pm4_cmd_end :: "(nat \<Rightarrow> string) \<Rightarrow> bool \<Rightarrow> ac_pm4_state \<Rightarrow> ac_pm4_state option" where
  "ac_pm4_cmd_end rn predicate s =
     (let s1 = write_header predicate s
      in if opcode_is_pairs_packed (last_opcode s1) then
           do { s2 \<leftarrow> (if packed_prev_is_reg_value0 s1 then
                         do { off \<leftarrow> get_packed_reg_dw_offsetN s1 0;
                              v \<leftarrow> get_packed_reg_valueN s1 0;
                              t \<leftarrow> set_reg_body rn (off * 4) v (last_opcode s1) 0 s1;
                              t' \<leftarrow> ac_pm4_cmd_end rn False t;
                              Some (t'\<lparr>packed_is_padded := True\<rparr>) }
                       else Some s1);
                count \<leftarrow> get_packed_reg_count s2;
                Some (poke (last_pm4 s2 + 1) (word_of_nat count) s2) }
         else Some s1)"
  by pat_completeness auto

termination
proof (relation "measure (\<lambda>(rn, predicate, s). open_pairs s)", goal_cases)
  case (2 rn predicate s s1 off v t)
  then have "open_pairs t < open_pairs (write_header predicate s)" by (intro set_reg_body_open_pairs) auto
  then show ?case by (simp add: open_pairs_header)
qed simp

declare ac_pm4_cmd_end.simps [simp del]

definition ac_pm4_set_reg_custom ::
    "(nat \<Rightarrow> string) \<Rightarrow> nat \<Rightarrow> dword \<Rightarrow> nat \<Rightarrow> nat \<Rightarrow> ac_pm4_state \<Rightarrow> ac_pm4_state option" where
  "ac_pm4_set_reg_custom rn reg val opcode idx s =
     do { s1 \<leftarrow> set_reg_body rn reg val opcode idx s; ac_pm4_cmd_end rn False s1 }"

definition ac_pm4_set_privileged_reg :: "nat \<Rightarrow> dword \<Rightarrow> ac_pm4_state \<Rightarrow> ac_pm4_state option" where
  "ac_pm4_set_privileged_reg reg val s =
     do { c_assert (SI_CONFIG_REG_OFFSET \<le> reg \<and> reg < SI_CONFIG_REG_END);
          s \<leftarrow> ac_pm4_cmd_add (PKT3 PKT3_COPY_DATA 4 False) s;
          s \<leftarrow> ac_pm4_cmd_add (COPY_DATA_SRC_SEL COPY_DATA_IMM OR COPY_DATA_DST_SEL COPY_DATA_PERF) s;
          s \<leftarrow> ac_pm4_cmd_add val s;
          s \<leftarrow> ac_pm4_cmd_add 0 s;
          s \<leftarrow> ac_pm4_cmd_add (word_of_nat (reg div 4)) s;
          ac_pm4_cmd_add 0 s }"

text \<open>The register space of an address: its SET opcode and its base.\<close>

definition reg_space :: "nat \<Rightarrow> (nat \<times> nat) option" where
  "reg_space reg =
     (if SI_CONFIG_REG_OFFSET \<le> reg \<and> reg < SI_CONFIG_REG_END
        then Some (PKT3_SET_CONFIG_REG, SI_CONFIG_REG_OFFSET)
      else if SI_SH_REG_OFFSET \<le> reg \<and> reg < SI_SH_REG_END
        then Some (PKT3_SET_SH_REG, SI_SH_REG_OFFSET)
      else if SI_CONTEXT_REG_OFFSET \<le> reg \<and> reg < SI_CONTEXT_REG_END
        then Some (PKT3_SET_CONTEXT_REG, SI_CONTEXT_REG_OFFSET)
      else if CIK_UCONFIG_REG_OFFSET \<le> reg \<and> reg < CIK_UCONFIG_REG_END
        then Some (PKT3_SET_UCONFIG_REG, CIK_UCONFIG_REG_OFFSET)
      else None)"

definition ac_pm4_set_reg ::
    "(nat \<Rightarrow> string) \<Rightarrow> c_env \<Rightarrow> nat \<Rightarrow> dword \<Rightarrow> titan_cfg \<times> ac_pm4_state \<Rightarrow>
     (titan_cfg \<times> ac_pm4_state) option" where
  "ac_pm4_set_reg rn env reg val =
     (\<lambda>(cfg, s).
        case reg_space reg of
          None \<Rightarrow> Some (cfg, s)
        | Some (opcode, base) \<Rightarrow>
            (let off = reg - base;
                 (off, cfg) =
                   (if regmap_active cfg \<and> ac_titan_preamble_remap env \<and>
                       (opcode = PKT3_SET_CONTEXT_REG \<or> opcode = PKT3_SET_SH_REG)
                    then (case ac_titan_remap_dw env cfg base (off div 4) of (dw, cfg) \<Rightarrow> (dw * 4, cfg))
                    else (off, cfg))
             in map_option (Pair cfg)
                  (if is_privileged_reg s reg then ac_pm4_set_privileged_reg reg val s
                   else ac_pm4_set_reg_custom rn off val (regular_opcode_to_pairs s opcode) 0 s)))"

section \<open>Creating states\<close>

definition PM4_ARRAY_SIZE :: nat where "PM4_ARRAY_SIZE = 64"

definition ac_pm4_clear_state ::
    "radeon_info \<Rightarrow> bool \<Rightarrow> bool \<Rightarrow> ac_pm4_state \<Rightarrow> ac_pm4_state" where
  "ac_pm4_clear_state gpu sqtt compute s =
     (let s1 = s\<lparr>info := gpu, debug_sqtt := sqtt, ndw := 0, is_compute_queue := compute\<rparr>
      in if max_dw s1 = 0 then s1\<lparr>max_dw := PM4_ARRAY_SIZE\<rparr> else s1)"

text \<open>\<open>calloc\<close>: every field is zero; a failed allocation is \<open>alloc_ok = False\<close>.\<close>

definition pm4_calloc :: ac_pm4_state where
  "pm4_calloc =
     \<lparr>info = \<lparr>gfx_level = CLASS_UNKNOWN, has_set_context_pairs = False,
              has_set_context_pairs_packed = False, has_set_sh_pairs = False,
              has_set_sh_pairs_packed = False, has_set_uconfig_pairs = False\<rparr>,
      last_reg = 0, last_pm4 = 0, ndw = 0, last_opcode = 0, last_idx = 0, is_compute_queue = False,
      packed_is_padded = False, max_dw = 0, debug_sqtt = False, spi_shader_pgm_lo_reg = 0,
      pm4 = (\<lambda>_. 0)\<rparr>"

definition ac_pm4_create_sized ::
    "bool \<Rightarrow> radeon_info \<Rightarrow> bool \<Rightarrow> nat \<Rightarrow> bool \<Rightarrow> ac_pm4_state option" where
  "ac_pm4_create_sized alloc_ok gpu sqtt n compute =
     (if alloc_ok
      then Some (ac_pm4_clear_state gpu sqtt compute (pm4_calloc\<lparr>max_dw := max n PM4_ARRAY_SIZE\<rparr>))
      else None)"

definition ac_pm4_emit_commands :: "dword list \<Rightarrow> ac_pm4_state \<Rightarrow> dword list" where
  "ac_pm4_emit_commands cs s = cs @ map (pm4 s) [0..<ndw s]"

text \<open>\<open>ac_sqtt_emit_stop\<close> of ac_sqtt.c, a client that mixes register writes and raw dwords.\<close>

definition ac_sqtt_emit_stop ::
    "(nat \<Rightarrow> string) \<Rightarrow> c_env \<Rightarrow> bool \<Rightarrow> titan_cfg \<times> ac_pm4_state \<Rightarrow> (titan_cfg \<times> ac_pm4_state) option" where
  "ac_sqtt_emit_stop rn env compute st =
     do { (cfg, s) \<leftarrow>
            (if compute then ac_pm4_set_reg rn env 0xB878 0 st
             else do { s \<leftarrow> ac_pm4_cmd_add (PKT3 0x46 0 False) (snd st);
                       s \<leftarrow> ac_pm4_cmd_add 52 s;
                       Some (fst st, s) });
          s \<leftarrow> ac_pm4_cmd_add (PKT3 0x46 0 False) s;
          s \<leftarrow> ac_pm4_cmd_add 55 s;
          Some (cfg, s) }"

section \<open>The array as a stream\<close>

definition stream :: "ac_pm4_state \<Rightarrow> dword list" where
  "stream s = map (pm4 s) [0..<ndw s]"

lemma c_assert_True [simp]: "c_assert True = Some ()"
  by (simp add: c_assert_def)

lemma length_stream [simp]: "length (stream s) = ndw s"
  by (simp add: stream_def)

lemma stream_nth: "i < ndw s \<Longrightarrow> pm4 s i = stream s ! i"
  by (simp add: stream_def)

lemma stream_push [simp]: "stream (push v s) = stream s @ [v]"
  by (simp add: stream_def push_def)

lemma stream_poke: "stream (poke i v s) = (stream s)[i := v]"
  by (rule nth_equalityI) (auto simp: stream_def poke_def nth_list_update)

lemma stream_trunc: "n \<le> ndw s \<Longrightarrow> stream (s\<lparr>ndw := n\<rparr>) = take n (stream s)"
  by (simp add: stream_def take_map)

lemma stream_reserve: "stream (s\<lparr>ndw := ndw s + 1\<rparr>) = stream s @ [pm4 s (ndw s)]"
  by (simp add: stream_def)

lemma poke_fields [simp]:
  "info (poke i v s) = info s" "last_reg (poke i v s) = last_reg s"
  "last_pm4 (poke i v s) = last_pm4 s" "ndw (poke i v s) = ndw s"
  "last_opcode (poke i v s) = last_opcode s" "last_idx (poke i v s) = last_idx s"
  "is_compute_queue (poke i v s) = is_compute_queue s"
  "packed_is_padded (poke i v s) = packed_is_padded s" "max_dw (poke i v s) = max_dw s"
  "debug_sqtt (poke i v s) = debug_sqtt s" "pm4 (poke i v s) = (pm4 s)(i := v)"
  by (simp_all add: poke_def)

lemma push_fields [simp]:
  "info (push v s) = info s" "last_reg (push v s) = last_reg s"
  "last_pm4 (push v s) = last_pm4 s" "ndw (push v s) = Suc (ndw s)"
  "last_opcode (push v s) = last_opcode s" "last_idx (push v s) = last_idx s"
  "is_compute_queue (push v s) = is_compute_queue s"
  "packed_is_padded (push v s) = packed_is_padded s" "max_dw (push v s) = max_dw s"
  "debug_sqtt (push v s) = debug_sqtt s"
  by (simp_all add: push_def)

lemma need_cam_cong:
  "last_opcode s' = last_opcode s \<Longrightarrow> last_reg s' = last_reg s \<Longrightarrow> info s' = info s \<Longrightarrow>
   is_compute_queue s' = is_compute_queue s \<Longrightarrow> need_reset_filter_cam s' = need_reset_filter_cam s"
  by (simp add: need_reset_filter_cam_def)

lemma need_cam_simps [simp]:
  "need_reset_filter_cam (poke i v s) = need_reset_filter_cam s"
  "need_reset_filter_cam (push v s) = need_reset_filter_cam s"
  "need_reset_filter_cam (s\<lparr>packed_is_padded := b\<rparr>) = need_reset_filter_cam s"
  by (simp_all add: need_reset_filter_cam_def)

text \<open>The fields no packet operation changes.\<close>

definition frame :: "ac_pm4_state \<Rightarrow> ac_pm4_state \<Rightarrow> bool" where
  "frame s s' \<longleftrightarrow> info s' = info s \<and> max_dw s' = max_dw s \<and>
     is_compute_queue s' = is_compute_queue s \<and> debug_sqtt s' = debug_sqtt s"

lemma frame_refl [simp]: "frame s s"
  by (simp add: frame_def)

lemma frame_trans: "frame s t \<Longrightarrow> frame t u \<Longrightarrow> frame s u"
  by (simp add: frame_def)

lemma frame_simps [simp]:
  "frame s (poke i v t) = frame s t" "frame s (push v t) = frame s t"
  "frame s (t\<lparr>ndw := n\<rparr>) = frame s t" "frame s (t\<lparr>last_opcode := n\<rparr>) = frame s t"
  "frame s (t\<lparr>last_pm4 := n\<rparr>) = frame s t" "frame s (t\<lparr>packed_is_padded := b\<rparr>) = frame s t"
  "frame s (t\<lparr>last_reg := n\<rparr>) = frame s t" "frame s (t\<lparr>last_idx := n\<rparr>) = frame s t"
  "frame s (t\<lparr>spi_shader_pgm_lo_reg := n\<rparr>) = frame s t"
  by (simp_all add: frame_def)

section \<open>Packed bodies\<close>

lemma pack_body_append: "even (length es) \<Longrightarrow> pack_body (es @ fs) = pack_body es @ pack_body fs"
  by (induction es rule: pack_body.induct) auto

lemma low16_id: "r < 0x10000 \<Longrightarrow> (word_of_nat r :: dword) AND 0xFFFF = word_of_nat r"
proof -
  assume "r < 0x10000"
  then have "take_bit 16 r = r" by (simp add: take_bit_nat_eq_self)
  then show ?thesis
    by (metis mask_numerals(4) of_nat_take_bit take_bit_eq_mask)
qed

lemma drop_bit_and_low16: "drop_bit 16 (x :: dword) AND 0xFFFF = drop_bit 16 x"
  by (rule bit_word_eqI) (auto simp: bit_simps mask_numerals dest: bit_imp_le_length)

lemma packed_index_cases:
  fixes k :: nat
  obtains "k = 0" | "k = 1" | j where "k = Suc (Suc j)"
  by (cases k rule: nat.exhaust) (metis One_nat_def nat.exhaust)+

lemma packed_index_step:
  "Suc (Suc j) div 2 * 3 = Suc (Suc (Suc (j div 2 * 3)))" "Suc (Suc j) mod 2 = j mod 2"
  by presburger+

lemma pack_body_nth_offset:
  assumes "k < length es" "even (length es)" "\<forall>(r, v)\<in>set es. r < 0x10000"
  shows "unat (drop_bit (k mod 2 * 16) (pack_body es ! (k div 2 * 3)) AND 0xFFFF) = fst (es ! k)"
    and "k div 2 * 3 < length (pack_body es)"
  using assms
proof (induction es arbitrary: k rule: pack_body.induct)
  case (3 r0 v0 r1 v1 es)
  have r: "r0 < 0x10000" "r1 < 0x10000" if "\<forall>(r, v)\<in>set ((r0, v0) # (r1, v1) # es). r < 0x10000"
    using that by auto
  { case 1
    show ?case
      using 1 3(1)[of "k - 2"] packed_offsets[OF r[OF 1(3)]]
      by (cases k rule: packed_index_cases) (auto simp: packed_index_step drop_bit_and_low16 simp del: drop_bit_or)
  next
    case 2
    show ?case
      using 2 3(2)[of "k - 2"] by (cases k rule: packed_index_cases) (auto simp: packed_index_step) }
qed auto

lemma pack_body_nth_value:
  assumes "k < length es"
  shows "pack_body es ! (k div 2 * 3 + 1 + k mod 2) = snd (es ! k)"
    and "k div 2 * 3 + 1 + k mod 2 < length (pack_body es)"
  using assms
proof (induction es arbitrary: k rule: pack_body.induct)
  case (3 r0 v0 r1 v1 es)
  { case 1
    then show ?case
      using 3(1)[of "k - 2"] by (cases k rule: packed_index_cases) (auto simp: packed_index_step)
  next
    case 2
    then show ?case
      using 3(2)[of "k - 2"] by (cases k rule: packed_index_cases) (auto simp: packed_index_step) }
qed auto

text \<open>
  \<open>packed_at s k body\<close>: a packed packet with \<open>body\<close> ends the stream, its header and count
  taking the first two dwords after \<open>k\<close> finished ones.
\<close>

definition packed_at :: "ac_pm4_state \<Rightarrow> dword list \<Rightarrow> dword list \<Rightarrow> bool" where
  "packed_at s done body \<longleftrightarrow>
     (\<exists>h c. stream s = done @ h # c # body) \<and> last_pm4 s = length done"

lemma packed_at_ndw: "packed_at s done body \<Longrightarrow> ndw s = length done + 2 + length body"
  unfolding packed_at_def by (auto dest!: arg_cong[of _ _ length])

lemma packed_at_nth:
  assumes "packed_at s done body" "i < length body"
  shows "pm4 s (last_pm4 s + 2 + i) = body ! i"
proof -
  have "last_pm4 s + 2 + i < ndw s" using assms packed_at_ndw[OF assms(1)] by (simp add: packed_at_def)
  then show ?thesis using assms by (auto simp: packed_at_def stream_nth nth_append)
qed

lemma packed_at_count:
  assumes "packed_at s done (pack_body es)" "even (length es)" "es \<noteq> []"
  shows "get_packed_reg_count s = Some (length es)"
proof -
  have "length (pack_body es) = 3 * (length es div 2)" "0 < length es div 2"
    using assms(2,3) length_0_conv[of es] by (simp add: length_pack_body, presburger)
  then show ?thesis
    using assms packed_at_ndw[OF assms(1)]
    by (auto simp: get_packed_reg_count_def packed_at_def Let_def elim: evenE)
qed

lemma packed_at_offset:
  assumes "packed_at s done (pack_body es)" "even (length es)" "k < length es"
    and "\<forall>(r, v)\<in>set es. r < 0x10000"
  shows "get_packed_reg_dw_offsetN s k = Some (fst (es ! k))"
proof -
  note p = pack_body_nth_offset[OF assms(3,2,4)]
  have "last_pm4 s + 2 + k div 2 * 3 < ndw s"
    using p(2) packed_at_ndw[OF assms(1)] assms(1) by (simp add: packed_at_def)
  then show ?thesis
    using p packed_at_nth[OF assms(1) p(2)] by (simp add: get_packed_reg_dw_offsetN_def)
qed

lemma packed_at_value:
  assumes "packed_at s done (pack_body es)" "k < length es"
  shows "get_packed_reg_valueN_idx s k = Some (last_pm4 s + 2 + (k div 2 * 3 + 1 + k mod 2))"
    and "get_packed_reg_valueN s k = Some (snd (es ! k))"
proof -
  note p = pack_body_nth_value[OF assms(2)]
  have "last_pm4 s + 2 + (k div 2 * 3 + 1 + k mod 2) < ndw s"
    using p(2) packed_at_ndw[OF assms(1)] assms(1) by (simp add: packed_at_def)
  then show i: "get_packed_reg_valueN_idx s k = Some (last_pm4 s + 2 + (k div 2 * 3 + 1 + k mod 2))"
    by (simp add: get_packed_reg_valueN_idx_def Let_def add.assoc)
  show "get_packed_reg_valueN s k = Some (snd (es ! k))"
    unfolding get_packed_reg_valueN_def i using packed_at_nth[OF assms(1) p(2)] p(1) by simp
qed

section \<open>Finalizing\<close>

lemma u32_sub: "i \<le> a \<Longrightarrow> a < 2 ^ 32 \<Longrightarrow> u32 (a + 2 ^ 32 - i) = a - i"
  unfolding u32_def by (subst add.commute) (simp only: Nat.diff_add_assoc mod_add_self1 mod_less diff_less_mono2 le_less_trans[OF diff_le_self])

lemma all_consecutive_spec:
  assumes "\<And>i. i \<in> set is \<Longrightarrow> get_packed_reg_dw_offsetN s i = Some (f i) \<and> f i < 0x10000 \<and> i < 0x10000"
    and "off0 < 0x10000"
  shows "all_consecutive s off0 is = Some (\<forall>i\<in>set is. f i = off0 + i)"
  using assms(1)
proof (induction "is")
  case (Cons i "is")
  then have i: "get_packed_reg_dw_offsetN s i = Some (f i)" "f i < 0x10000" "i < 0x10000" by auto
  have "off0 = u32 (f i + 2 ^ 32 - i) \<longleftrightarrow> f i = off0 + i"
  proof (cases "i \<le> f i")
    case True
    then have "u32 (f i + 2 ^ 32 - i) = f i - i" using i(2) by (intro u32_sub) auto
    then show ?thesis using True by auto
  next
    case False
    then have "u32 (f i + 2 ^ 32 - i) = f i + 2 ^ 32 - i" by (intro u32_id) simp
    then show ?thesis using False i assms(2) by simp
  qed
  with Cons i(1) show ?case by simp
qed simp

lemma unpack_values_spec:
  assumes "\<And>j. k \<le> j \<Longrightarrow> j < k + n \<Longrightarrow>
      get_packed_reg_valueN_idx s j = Some (last_pm4 s + 2 + (j div 2 * 3 + 1 + j mod 2)) \<and>
      pm4 s (last_pm4 s + 2 + (j div 2 * 3 + 1 + j mod 2)) = f j"
  shows "unpack_values [k..<k + n] s =
    Some (s\<lparr>pm4 := \<lambda>i. if last_pm4 s + 2 + k \<le> i \<and> i < last_pm4 s + 2 + k + n
                       then f (i - last_pm4 s - 2) else pm4 s i\<rparr>)"
  using assms
proof (induction n arbitrary: k s)
  case (Suc n)
  let ?s = "poke (last_pm4 s + 2 + k) (f k) s"
  have k: "get_packed_reg_valueN s k = Some (f k)"
    using Suc.prems[of k] by (simp add: get_packed_reg_valueN_def)
  have "unpack_values [Suc k..<Suc k + n] ?s =
    Some (?s\<lparr>pm4 := \<lambda>i. if last_pm4 ?s + 2 + Suc k \<le> i \<and> i < last_pm4 ?s + 2 + Suc k + n
                       then f (i - last_pm4 ?s - 2) else pm4 ?s i\<rparr>)"
  proof (rule Suc.IH)
    fix j assume j: "Suc k \<le> j" "j < Suc k + n"
    have "last_pm4 s + 2 + k \<noteq> last_pm4 s + 2 + (j div 2 * 3 + 1 + j mod 2)"
      using j(1) div_mult_mod_eq[of j 2] by linarith
    then show "get_packed_reg_valueN_idx ?s j = Some (last_pm4 ?s + 2 + (j div 2 * 3 + 1 + j mod 2)) \<and>
        pm4 ?s (last_pm4 ?s + 2 + (j div 2 * 3 + 1 + j mod 2)) = f j"
      using Suc.prems[of j] j by (simp add: get_packed_reg_valueN_idx_def Let_def)
  qed
  moreover have "[k..<k + Suc n] = k # [Suc k..<Suc k + n]" by (simp add: upt_conv_Cons del: upt_Suc)
  moreover have "(\<lambda>i. if last_pm4 ?s + 2 + Suc k \<le> i \<and> i < last_pm4 ?s + 2 + Suc k + n
                       then f (i - last_pm4 ?s - 2) else pm4 ?s i) =
      (\<lambda>i. if last_pm4 s + 2 + k \<le> i \<and> i < last_pm4 s + 2 + k + Suc n
           then f (i - last_pm4 s - 2) else pm4 s i)"
    by (rule ext) auto
  moreover have "?s\<lparr>pm4 := g\<rparr> = s\<lparr>pm4 := g\<rparr>" for g by (simp add: poke_def)
  ultimately show ?case by (simp only: unpack_values.simps k bind.bind_lunit)
next
  case 0
  have "(\<lambda>i. if last_pm4 s + 2 + k \<le> i \<and> i < last_pm4 s + 2 + k + 0
             then f (i - last_pm4 s - 2) else pm4 s i) = pm4 s"
    by (rule ext) auto
  then show ?case by (simp only: add_0_right upt_rec[of k k] less_irrefl if_False unpack_values.simps) simp
qed

definition pad :: "(nat \<times> dword) list \<Rightarrow> (nat \<times> dword) list" where
  "pad es = (if odd (length es) then es @ [hd es] else es)"

definition consecutive :: "(nat \<times> dword) list \<Rightarrow> bool" where
  "consecutive es \<longleftrightarrow> (\<forall>i<length es. fst (es ! i) = fst (hd es) + i)"

lemma pad_even [simp]: "even (length (pad es))"
  by (simp add: pad_def)

lemma pad_nth: "i < length es \<Longrightarrow> pad es ! i = es ! i"
  by (simp add: pad_def nth_append)

lemma pad_length: "length (pad es) = length es + of_bool (odd (length es))"
  by (simp add: pad_def)

lemma pad_bound: "es \<noteq> [] \<Longrightarrow> \<forall>(r, v)\<in>set es. r < 0x10000 \<Longrightarrow> \<forall>(r, v)\<in>set (pad es). r < 0x10000"
  using hd_in_set[of es] by (auto simp: pad_def)

lemma pad_Nil_iff [simp]: "pad es = [] \<longleftrightarrow> es = []"
  by (auto simp: pad_def)

lemma find_pgm_lo_spec:
  assumes "\<And>i. i \<in> set is \<Longrightarrow> get_packed_reg_dw_offsetN s i \<noteq> None"
  shows "\<exists>n. find_pgm_lo rn is s = Some (s\<lparr>spi_shader_pgm_lo_reg := n\<rparr>)"
  using assms
proof (induction "is")
  case Nil
  show ?case by (rule exI[of _ "spi_shader_pgm_lo_reg s"]) simp
next
  case (Cons i "is")
  then obtain off where "get_packed_reg_dw_offsetN s i = Some off" by fastforce
  with Cons show ?case by (auto simp: Let_def)
qed

lemma stream_spi [simp]:
  "stream (s\<lparr>spi_shader_pgm_lo_reg := n\<rparr>) = stream s" "stream (s\<lparr>packed_is_padded := b\<rparr>) = stream s"
  by (simp_all add: stream_def)

text \<open>A packed packet at the end of the stream, as \<open>ac_pm4_cmd_end\<close> leaves it.\<close>

definition packed_done :: "ac_pm4_state \<Rightarrow> dword list \<Rightarrow> bool \<Rightarrow> (nat \<times> dword) list \<Rightarrow> bool" where
  "packed_done s done cam es \<longleftrightarrow>
     stream s = done @ enc_packed (last_opcode s) cam (pad es) \<and> last_pm4 s = length done \<and>
     packed_is_padded s = odd (length es) \<and> es \<noteq> [] \<and> (\<forall>(r, v)\<in>set es. r < 0x10000) \<and>
     ndw s \<le> 0x4000"

lemma packed_done_at: "packed_done s done cam es \<Longrightarrow> packed_at s done (pack_body (pad es))"
  by (auto simp: packed_done_def packed_at_def enc_packed_def)

lemma packed_done_get:
  assumes "packed_done s done cam es"
  shows "get_packed_reg_count s = Some (length (pad es))"
    and "k < length (pad es) \<Longrightarrow> get_packed_reg_dw_offsetN s k = Some (fst (pad es ! k))"
    and "k < length (pad es) \<Longrightarrow> get_packed_reg_valueN s k = Some (snd (pad es ! k))"
    and "k < length (pad es) \<Longrightarrow>
      get_packed_reg_valueN_idx s k = Some (last_pm4 s + 2 + (k div 2 * 3 + 1 + k mod 2))"
proof -
  note at = packed_done_at[OF assms]
  have b: "\<forall>(r, v)\<in>set (pad es). r < 0x10000"
    using assms by (intro pad_bound) (auto simp: packed_done_def)
  show "get_packed_reg_count s = Some (length (pad es))"
    using packed_at_count[OF at] assms by (simp add: packed_done_def)
  show "k < length (pad es) \<Longrightarrow> get_packed_reg_dw_offsetN s k = Some (fst (pad es ! k))"
    using packed_at_offset[OF at _ _ b] by simp
  show "k < length (pad es) \<Longrightarrow> get_packed_reg_valueN s k = Some (snd (pad es ! k))"
    "k < length (pad es) \<Longrightarrow>
      get_packed_reg_valueN_idx s k = Some (last_pm4 s + 2 + (k div 2 * 3 + 1 + k mod 2))"
    using packed_at_value[OF at] by simp_all
qed

lemma packed_done_consecutive:
  assumes "packed_done s done cam es"
  shows "all_consecutive s (fst (hd es)) [1..<length es] = Some (consecutive es)"
proof -
  have ne: "es \<noteq> []" and b: "\<forall>(r, v)\<in>set es. r < 0x10000" and n: "ndw s \<le> 0x4000"
    using assms by (auto simp: packed_done_def)
  have len: "length es \<le> ndw s"
    using packed_at_ndw[OF packed_done_at[OF assms]] by (simp add: length_pack_body pad_length)
  have lt: "fst (es ! i) < 0x10000" if "i < length es" for i
    using b nth_mem[OF that] by auto
  have "all_consecutive s (fst (hd es)) [1..<length es] =
      Some (\<forall>i\<in>set [1..<length es]. fst (es ! i) = fst (hd es) + i)"
    using packed_done_get(2)[OF assms] lt len n ne lt[of 0]
    by (intro all_consecutive_spec) (auto simp: pad_nth pad_length hd_conv_nth)
  also have "(\<forall>i\<in>set [1..<length es]. fst (es ! i) = fst (hd es) + i) = consecutive es"
  proof -
    have "fst (es ! i) = fst (hd es) + i" if "\<not> i \<in> set [1..<length es]" "i < length es" for i
      using ne that by (cases i) (auto simp: hd_conv_nth)
    then show ?thesis unfolding consecutive_def by fastforce
  qed
  finally show ?thesis .
qed

lemma finalize_rewrite:
  assumes "packed_done s done cam es" "consecutive es"
    and "pairs_packed_opcode_to_regular (last_opcode s) = Some opcode"
  shows "\<exists>s'. finalize_packed rn s = Some s' \<and> frame s s' \<and> ndw s' \<le> ndw s \<and>
    stream s' = done @ enc_seq opcode False (word_of_nat (fst (hd es))) (map snd es)"
proof -
  let ?n = "length es" let ?l = "last_pm4 s"
  have ne: "es \<noteq> []" and pd: "packed_is_padded s = odd ?n" and l: "?l = length done"
    and st: "stream s = done @ enc_packed (last_opcode s) cam (pad es)"
    using assms(1) by (auto simp: packed_done_def)
  have ndw: "ndw s = ?l + 2 + 3 * (length (pad es)) div 2"
  proof -
    obtain k where "length (pad es) = 2 * k" using evenE[OF pad_even] by blast
    then show ?thesis using packed_at_ndw[OF packed_done_at[OF assms(1)]] l by (simp add: length_pack_body)
  qed
  have cnt: "(if packed_is_padded s then length (pad es) - 1 else length (pad es)) = ?n"
    by (simp add: pd pad_length)
  have off: "get_packed_reg_dw_offsetN s 0 = Some (fst (hd es))"
    using packed_done_get(2)[OF assms(1), of 0] ne by (simp add: pad_nth hd_conv_nth)
  let ?s1 = "poke ?l (PKT3 opcode (word_of_nat ?n) False) s"
  let ?s2 = "poke (?l + 1) (word_of_nat (fst (hd es))) ?s1"
  let ?f = "\<lambda>j. snd (pad es ! j)"
  let ?s3 = "?s2\<lparr>pm4 := \<lambda>i. if last_pm4 ?s2 + 2 + 0 \<le> i \<and> i < last_pm4 ?s2 + 2 + 0 + ?n
                       then ?f (i - last_pm4 ?s2 - 2) else pm4 ?s2 i\<rparr>"
  have "unpack_values [0..<0 + ?n] ?s2 = Some ?s3"
  proof (rule unpack_values_spec)
    fix j assume "0 \<le> j" "j < 0 + ?n"
    then have "j < length (pad es)" by (simp add: pad_length)
    then show "get_packed_reg_valueN_idx ?s2 j = Some (last_pm4 ?s2 + 2 + (j div 2 * 3 + 1 + j mod 2)) \<and>
        pm4 ?s2 (last_pm4 ?s2 + 2 + (j div 2 * 3 + 1 + j mod 2)) = snd (pad es ! j)"
      using packed_done_get(3,4)[OF assms(1), of j]
      by (simp add: get_packed_reg_valueN_def get_packed_reg_valueN_idx_def Let_def)
  qed
  then have up: "unpack_values [0..<?n] ?s2 = Some ?s3" by simp
  let ?s' = "?s3\<lparr>ndw := ?l + 2 + ?n, last_opcode := PKT3_SET_SH_REG\<rparr>"
  have "finalize_packed rn s = Some ?s'"
  proof -
    have "ndw s - last_pm4 s = 2 + 3 * (?n + of_bool (packed_is_padded s)) div 2"
      using ndw by (simp add: pad_length pd)
    then have ok: "c_assert (ndw s - last_pm4 s = 2 + 3 * (?n + of_bool (packed_is_padded s)) div 2) = Some ()"
      by (simp add: c_assert_def)
    show ?thesis
      unfolding finalize_packed_def packed_done_get(1)[OF assms(1)] off bind.bind_lunit Let_def cnt
        packed_done_consecutive[OF assms(1)] ok assms(3) up
      using assms(2) by simp
  qed
  moreover have "stream ?s' = done @ enc_seq opcode False (word_of_nat (fst (hd es))) (map snd es)"
  proof (rule nth_equalityI)
    show "length (stream ?s') = length (done @ enc_seq opcode False (word_of_nat (fst (hd es))) (map snd es))"
      by (simp add: l enc_seq_def)
    fix i assume "i < length (stream ?s')"
    then have i: "i < length done + 2 + ?n" by (simp add: l)
    have d: "pm4 s i = done ! i" if "i < length done"
      using st that ndw l by (simp add: stream_nth nth_append)
    have h: "PKT3 opcode (word_of_nat ?n) False = set_header opcode ?n False"
      by (simp add: set_header_def PKT3_RESET_FILTER_CAM_S_def)
    have "pm4 ?s' i = (done @ enc_seq opcode False (word_of_nat (fst (hd es))) (map snd es)) ! i"
    proof -
      consider "i < length done" | "i = length done" | "i = length done + 1"
        | j where "i = length done + 2 + j" "j < ?n"
        using i that(4)[of "i - length done - 2"] by linarith
      then show ?thesis
        by cases (simp_all add: l d h nth_append enc_seq_def pad_nth)
    qed
    moreover have "stream ?s' ! i = pm4 ?s' i"
      using i stream_nth[of i ?s'] by (simp add: l)
    ultimately show "stream ?s' ! i = (done @ enc_seq opcode False (word_of_nat (fst (hd es))) (map snd es)) ! i"
      by (rule trans[rotated])
  qed
  moreover have "frame s ?s'" by (simp add: frame_def)
  moreover have "ndw ?s' \<le> ndw s" using ndw by (simp add: pad_length)
  ultimately show ?thesis by blast
qed

lemma finalize_keep:
  assumes "packed_done s done cam es" "\<not> consecutive es"
  shows "\<exists>s' opcode. finalize_packed rn s = Some s' \<and> frame s s' \<and> ndw s' \<le> ndw s \<and>
    stream s' = done @ enc_packed opcode cam (pad es) \<and>
    (opcode = last_opcode s \<or>
     opcode = PKT3_SET_SH_REG_PAIRS_PACKED_N \<and> last_opcode s = PKT3_SET_SH_REG_PAIRS_PACKED)"
proof -
  let ?n = "length es" let ?l = "last_pm4 s"
  have ne: "es \<noteq> []" and pd: "packed_is_padded s = odd ?n" and l: "?l = length done"
    and st: "stream s = done @ enc_packed (last_opcode s) cam (pad es)"
    using assms(1) by (auto simp: packed_done_def)
  have cnt: "(if packed_is_padded s then length (pad es) - 1 else length (pad es)) = ?n"
    by (simp add: pd pad_length)
  have off: "get_packed_reg_dw_offsetN s 0 = Some (fst (hd es))"
    using packed_done_get(2)[OF assms(1), of 0] ne by (simp add: pad_nth hd_conv_nth)
  define sqtt where "sqtt = (debug_sqtt s \<and> (last_opcode s = PKT3_SET_SH_REG_PAIRS_PACKED \<or>
                                             last_opcode s = PKT3_SET_SH_REG_PAIRS_PACKED_N))"
  define c where "c = (if sqtt \<and> packed_is_padded s then ?n + 1 else ?n)"
  have c: "c \<le> length (pad es)" by (simp add: c_def pd pad_length)
  have "\<exists>n. (if sqtt then find_pgm_lo rn (rev [0..<c]) s else Some s) =
      Some (s\<lparr>spi_shader_pgm_lo_reg := n\<rparr>)"
  proof (cases sqtt)
    case True
    have "\<exists>n. find_pgm_lo rn (rev [0..<c]) s = Some (s\<lparr>spi_shader_pgm_lo_reg := n\<rparr>)"
      using packed_done_get(2)[OF assms(1)] c by (intro find_pgm_lo_spec) auto
    then show ?thesis using True by simp
  next
    case False
    then show ?thesis by (intro exI[of _ "spi_shader_pgm_lo_reg s"]) simp
  qed
  then obtain n where s1: "(if sqtt then find_pgm_lo rn (rev [0..<c]) s else Some s) =
      Some (s\<lparr>spi_shader_pgm_lo_reg := n\<rparr>)" ..
  let ?s1 = "s\<lparr>spi_shader_pgm_lo_reg := n\<rparr>"
  let ?s' = "if last_opcode s = PKT3_SET_SH_REG_PAIRS_PACKED \<and> c \<le> 14 then
               poke ?l (pm4 ?s1 ?l AND PKT3_IT_OPCODE_C
                 OR PKT3_IT_OPCODE_S PKT3_SET_SH_REG_PAIRS_PACKED_N) ?s1 else ?s1"
  have fin: "finalize_packed rn s = Some ?s'"
    unfolding finalize_packed_def packed_done_get(1)[OF assms(1)] off bind.bind_lunit Let_def cnt
      packed_done_consecutive[OF assms(1)] sqtt_def[symmetric] c_def[symmetric] s1
    using assms(2) by simp
  show ?thesis
  proof (cases "last_opcode s = PKT3_SET_SH_REG_PAIRS_PACKED \<and> c \<le> 14")
    case False
    then show ?thesis using fin st by (intro exI[of _ ?s'] exI[of _ "last_opcode s"]) auto
  next
    case True
    have "pm4 s ?l = set_header (last_opcode s) (length (pack_body (pad es))) cam"
      using st l packed_at_ndw[OF packed_done_at[OF assms(1)]] by (simp add: stream_nth enc_packed_def)
    then have "stream ?s' = done @ enc_packed PKT3_SET_SH_REG_PAIRS_PACKED_N cam (pad es)"
      using True st l
      by (simp add: stream_poke enc_packed_def set_header_def PKT3_replace_opcode)
    then show ?thesis
      using fin True by (intro exI[of _ ?s'] exI[of _ PKT3_SET_SH_REG_PAIRS_PACKED_N]) auto
  qed
qed

section \<open>The packet under construction\<close>

text \<open>Register files: what a stream of events, or a list of requested writes, leaves in them.\<close>

definition write_all :: "(nat \<times> dword) list \<Rightarrow> (nat \<rightharpoonup> dword) \<Rightarrow> (nat \<rightharpoonup> dword)" where
  "write_all ws = fold (\<lambda>(r, v) m. m(r \<mapsto> v)) ws"

definition regs_after :: "ib_event list \<Rightarrow> (nat \<rightharpoonup> dword) \<Rightarrow> (nat \<rightharpoonup> dword)" where
  "regs_after es = fold (\<lambda>e m. case e of RegWrite r v \<Rightarrow> m(r \<mapsto> v) | _ \<Rightarrow> m) es"

definition write_events :: "(nat \<times> dword) list \<Rightarrow> ib_event list" where
  "write_events = map (\<lambda>(r, v). RegWrite r v)"

fun seq_writes :: "nat \<Rightarrow> dword list \<Rightarrow> (nat \<times> dword) list" where
  "seq_writes reg [] = []"
| "seq_writes reg (v # vs) = (reg, v) # seq_writes (reg + 4) vs"

definition pair_writes :: "nat \<Rightarrow> (nat \<times> dword) list \<Rightarrow> (nat \<times> dword) list" where
  "pair_writes base = map (\<lambda>(r, v). (base + 4 * r, v))"

lemma write_all_append: "write_all (xs @ ys) m = write_all ys (write_all xs m)"
  by (simp add: write_all_def)

lemma regs_after_append: "regs_after (xs @ ys) m = regs_after ys (regs_after xs m)"
  by (simp add: regs_after_def)

lemma regs_after_write_events: "regs_after (write_events ws) = write_all ws"
  by (induction ws) (auto simp: regs_after_def write_events_def write_all_def)

lemma write_all_other: "r \<notin> fst ` set ws \<Longrightarrow> write_all ws m r = m r"
  by (induction ws arbitrary: m) (auto simp: write_all_def)

lemma write_all_pad:
  assumes "distinct (map fst ws)" "ws \<noteq> []"
  shows "write_all (ws @ [hd ws]) m = write_all ws m"
proof -
  obtain r v vs where ws: "ws = (r, v) # vs" using assms(2) by (cases ws) auto
  have "write_all ws m r = Some v"
    using assms(1) write_all_other[of r vs "m(r \<mapsto> v)"] by (simp add: ws write_all_def)
  then show ?thesis by (simp add: ws write_all_append) (simp add: write_all_def fun_upd_idem)
qed

lemma seq_events_writes: "seq_events reg vs = write_events (seq_writes reg vs)"
  by (induction vs arbitrary: reg) (auto simp: write_events_def)

lemma reg_events_writes: "reg_events base es = write_events (pair_writes base es)"
  by (auto simp: reg_events_def write_events_def pair_writes_def)

lemma seq_writes_snoc: "seq_writes reg (vs @ [v]) = seq_writes reg vs @ [(reg + 4 * length vs, v)]"
  by (induction vs arbitrary: reg) auto

lemma length_seq_writes [simp]: "length (seq_writes reg vs) = length vs"
  by (induction vs arbitrary: reg) auto

lemma seq_writes_nth: "i < length vs \<Longrightarrow> seq_writes reg vs ! i = (reg + 4 * i, vs ! i)"
  by (induction vs arbitrary: reg i) (auto simp: nth_Cons' split: nat.split)

lemma consecutive_writes:
  assumes "consecutive es"
  shows "seq_writes (fst (hd es) * 4 + base) (map snd es) = pair_writes base es"
  using assms
  by (intro nth_equalityI)
    (auto simp: seq_writes_nth pair_writes_def consecutive_def algebra_simps split: prod.split)

lemma pair_writes_pad: "es \<noteq> [] \<Longrightarrow> pair_writes base (pad es) =
    (if odd (length es) then pair_writes base es @ [hd (pair_writes base es)] else pair_writes base es)"
  by (auto simp: pad_def pair_writes_def hd_map)

lemma low16_idx: "r < 0x10000 \<Longrightarrow> unat ((word_of_nat r OR push_bit 28 x :: dword) AND 0xFFFF) = r"
proof -
  assume r: "r < 0x10000"
  have "(word_of_nat r OR push_bit 28 x :: dword) AND 0xFFFF = word_of_nat r AND 0xFFFF"
    by (rule bit_word_eqI) (auto simp: bit_simps mask_numerals)
  then show ?thesis using r by simp
qed

datatype pkt =
    NoPkt
  | SeqPkt nat nat nat "dword list"
  | PairsPkt nat "(nat \<times> dword) list"
  | PackedPkt nat "(nat \<times> dword) list"

definition op_base :: "nat \<Rightarrow> nat" where
  "op_base op = (case set_packet_kind op of Some (_, base) \<Rightarrow> base | None \<Rightarrow> 0)"

fun pkt_writes :: "pkt \<Rightarrow> (nat \<times> dword) list" where
  "pkt_writes NoPkt = []"
| "pkt_writes (SeqPkt op r idx vs) = seq_writes (r * 4 + op_base op) vs"
| "pkt_writes (PairsPkt op es) = pair_writes (op_base op) es"
| "pkt_writes (PackedPkt op es) = pair_writes (op_base op) es"

text \<open>The SET opcodes the builder is asked for: every one but the \<open>_N\<close> variant it chooses itself.\<close>

definition buildable :: "nat \<Rightarrow> set_form \<Rightarrow> bool" where
  "buildable op form \<longleftrightarrow>
     (\<exists>base. set_packet_kind op = Some (form, base)) \<and> op \<noteq> PKT3_SET_SH_REG_PAIRS_PACKED_N"

lemma buildable_kind: "buildable op form \<Longrightarrow> set_packet_kind op = Some (form, op_base op)"
  by (auto simp: buildable_def op_base_def)

lemma buildable_forms:
  "buildable op form \<Longrightarrow> opcode_is_pairs_packed op \<longleftrightarrow> form = Packed"
  "buildable op form \<Longrightarrow> opcode_is_pairs op \<longleftrightarrow> form = Pairs"
  "buildable op form \<Longrightarrow> op \<le> 254"
  by (auto simp: buildable_def set_packet_kind_def opcode_is_pairs_packed_def opcode_is_pairs_def
      pkt3_set_defs split: if_splits)

lemma kind_none_forms:
  assumes "set_packet_kind op = None"
  shows "\<not> opcode_is_pairs_packed op" "\<not> opcode_is_pairs op" "op \<noteq> PKT3_SET_SH_REG" "op \<noteq> PKT3_SET_SH_REG_PAIRS"
  using assms
  by (auto simp: set_packet_kind_def opcode_is_pairs_packed_def opcode_is_pairs_def split: if_splits)

fun pkt_ok :: "ac_pm4_state \<Rightarrow> dword list \<Rightarrow> pkt \<Rightarrow> bool" where
  "pkt_ok s done NoPkt \<longleftrightarrow> stream s = done \<and> set_packet_kind (last_opcode s) = None"
| "pkt_ok s done (SeqPkt op r idx vs) \<longleftrightarrow>
     stream s = done @ enc_seq op (need_reset_filter_cam s) (word_of_nat r OR push_bit 28 (word_of_nat idx)) vs \<and>
     last_pm4 s = length done \<and> last_opcode s = op \<and> buildable op Sequential \<and> vs \<noteq> [] \<and>
     last_reg s + 1 = r + length vs \<and> r + length vs \<le> 0x10000 \<and> last_idx s = idx"
| "pkt_ok s done (PairsPkt op es) \<longleftrightarrow>
     stream s = done @ enc_pairs op (need_reset_filter_cam s) es \<and>
     last_pm4 s = length done \<and> last_opcode s = op \<and> buildable op Pairs \<and> es \<noteq> [] \<and>
     (\<forall>(r, v)\<in>set es. r < 0x10000)"
| "pkt_ok s done (PackedPkt op es) \<longleftrightarrow>
     packed_done s done (need_reset_filter_cam s) es \<and> last_opcode s = op \<and> buildable op Packed"

text \<open>
  \<open>pm4_inv gfx gen s ws\<close>: the stream is a closed sequence of packets followed by a well-formed
  packet under construction, and \<open>ws\<close> are the writes requested so far: those of the closed
  packets, whose effect on a register file they have, and those of the open packet.
\<close>

definition pm4_inv ::
    "amd_gfx_level \<Rightarrow> (nat \<Rightarrow> nat \<Rightarrow> nat) \<Rightarrow> ac_pm4_state \<Rightarrow> (nat \<times> dword) list \<Rightarrow> bool" where
  "pm4_inv gfx gen s ws \<longleftrightarrow>
     (\<exists>done evs ws0 p. closed gfx gen done evs \<and> pkt_ok s done p \<and> ws = ws0 @ pkt_writes p \<and>
        (distinct (map fst ws0) \<longrightarrow> regs_after evs = write_all ws0))"

lemma record_pgm_lo_spec: "\<exists>n. record_pgm_lo rn s = s\<lparr>spi_shader_pgm_lo_reg := n\<rparr>"
proof -
  have "\<exists>n. s = s\<lparr>spi_shader_pgm_lo_reg := n\<rparr>" by (rule exI[of _ "spi_shader_pgm_lo_reg s"]) simp
  then have "\<exists>n. (case x of None \<Rightarrow> s | Some reg \<Rightarrow> s\<lparr>spi_shader_pgm_lo_reg := reg\<rparr>) =
      s\<lparr>spi_shader_pgm_lo_reg := n\<rparr>" for x
    by (cases x) auto
  then show ?thesis unfolding record_pgm_lo_def Let_def .
qed

lemma finalize_unpacked:
  "\<not> opcode_is_pairs_packed (last_opcode s) \<Longrightarrow>
   \<exists>n. ac_pm4_finalize rn s = Some (s\<lparr>spi_shader_pgm_lo_reg := n\<rparr>)"
  using record_pgm_lo_spec[of rn s] by (auto simp: ac_pm4_finalize_def)

lemma packed_count_less:
  assumes "packed_done s done cam es"
  shows "length (pack_body (pad es)) < 0x4000" "length es < 0x4000"
  using assms packed_at_ndw[OF packed_done_at[OF assms]]
  by (auto simp: packed_done_def length_pack_body pad_length)

lemma kind_packed_N: "set_packet_kind PKT3_SET_SH_REG_PAIRS_PACKED_N = set_packet_kind PKT3_SET_SH_REG_PAIRS_PACKED"
  by (simp add: set_packet_kind_def pkt3_set_defs)

lemma finalize_packed_padded:
  assumes "packed_done s done cam es" "buildable (last_opcode s) Packed" "closed gfx gen done evs" "\<not> consecutive es"
  shows "\<exists>s'. finalize_packed rn s = Some s' \<and> frame s s' \<and> ndw s' \<le> ndw s \<and>
    closed gfx gen (stream s') (evs @ write_events (pair_writes (op_base (last_opcode s)) (pad es)))"
proof -
  let ?op = "last_opcode s"
  obtain s' op' where s': "finalize_packed rn s = Some s'" "frame s s'" "ndw s' \<le> ndw s"
      "stream s' = done @ enc_packed op' cam (pad es)"
      "op' = ?op \<or> op' = PKT3_SET_SH_REG_PAIRS_PACKED_N \<and> ?op = PKT3_SET_SH_REG_PAIRS_PACKED"
    using finalize_keep[OF assms(1,4)] by blast
  have "set_packet_kind op' = Some (Packed, op_base ?op)"
    using s'(5) buildable_kind[OF assms(2)] kind_packed_N by auto
  moreover have b: "es \<noteq> []" "\<forall>(r, v)\<in>set es. r < 0x10000" using assms(1) by (auto simp: packed_done_def)
  ultimately have "closed gfx gen (enc_packed op' cam (pad es)) (write_events (pair_writes (op_base ?op) (pad es)))"
    using closed_enc_packed pad_bound[OF b] packed_count_less[OF assms(1)]
    by (simp add: reg_events_writes[symmetric])
  then show ?thesis using s' closed_append[OF assms(3)] by simp
qed

lemma finalize_packed_closed:
  assumes "packed_done s done cam es" "buildable (last_opcode s) Packed" "closed gfx gen done evs"
  shows "\<exists>s' fevs. finalize_packed rn s = Some s' \<and> frame s s' \<and> ndw s' \<le> ndw s \<and>
    closed gfx gen (stream s') (evs @ fevs) \<and>
    (distinct (map fst (pair_writes (op_base (last_opcode s)) es)) \<longrightarrow>
      regs_after fevs = write_all (pair_writes (op_base (last_opcode s)) es))"
proof (cases "consecutive es")
  case True
  let ?op = "last_opcode s"
  obtain op' where op': "pairs_packed_opcode_to_regular ?op = Some op'"
      "set_packet_kind op' = Some (Sequential, op_base ?op)"
    using assms(2)
    by (auto simp: buildable_def op_base_def set_packet_kind_def pairs_packed_opcode_to_regular_def
        pkt3_set_defs split: if_splits)
  obtain s' where s': "finalize_packed rn s = Some s'" "frame s s'" "ndw s' \<le> ndw s"
      "stream s' = done @ enc_seq op' False (word_of_nat (fst (hd es))) (map snd es)"
    using finalize_rewrite[OF assms(1) True op'(1)] by blast
  have "fst (hd es) < 0x10000"
    using assms(1) hd_in_set[of es] unfolding packed_done_def by (metis case_prod_unfold)
  then have "closed gfx gen (enc_seq op' False (word_of_nat (fst (hd es))) (map snd es))
      (write_events (pair_writes (op_base ?op) es))"
    using closed_enc_seq[OF op'(2), of "map snd es" gfx gen False "word_of_nat (fst (hd es))"]
      packed_count_less[OF assms(1)]
    by (simp add: seq_events_writes consecutive_writes[OF True])
  then show ?thesis
    using s' closed_append[OF assms(3)]
    by (intro exI[of _ s'] exI[of _ "write_events (pair_writes (op_base ?op) es)"])
      (simp add: regs_after_write_events)
next
  case False
  let ?op = "last_opcode s"
  have "write_all (pair_writes (op_base ?op) (pad es)) m = write_all (pair_writes (op_base ?op) es) m"
    if "distinct (map fst (pair_writes (op_base ?op) es))" for m
    using write_all_pad[OF that] assms(1) by (simp add: pair_writes_pad packed_done_def) (simp add: pair_writes_def)
  then show ?thesis
    using finalize_packed_padded[OF assms False, of rn]
    by (elim exE) (rule exI, rule exI[of _ "write_events (pair_writes (op_base ?op) (pad es))"], auto simp: regs_after_write_events)
qed

lemma finalize_pkt:
  assumes "pkt_ok s done p" "closed gfx gen done evs" "ndw s \<le> 0x4000"
  shows "\<exists>s' fevs. ac_pm4_finalize rn s = Some s' \<and> frame s s' \<and> ndw s' \<le> ndw s \<and>
    closed gfx gen (stream s') (evs @ fevs) \<and>
    (distinct (map fst (pkt_writes p)) \<longrightarrow> regs_after fevs = write_all (pkt_writes p))"
proof -
  have keep: ?thesis if u: "\<not> opcode_is_pairs_packed (last_opcode s)"
    and c: "closed gfx gen (stream s) (evs @ write_events (pkt_writes p))"
  proof -
    obtain n where "ac_pm4_finalize rn s = Some (s\<lparr>spi_shader_pgm_lo_reg := n\<rparr>)"
      using finalize_unpacked[OF u] by blast
    then show ?thesis
      using c by (intro exI[of _ "s\<lparr>spi_shader_pgm_lo_reg := n\<rparr>"] exI[of _ "write_events (pkt_writes p)"])
        (simp add: regs_after_write_events)
  qed
  have len: "length (stream s) \<le> 0x4000" using assms(3) by simp
  show ?thesis
  proof (cases p)
    case NoPkt
    then show ?thesis
      using assms(1,2) by (intro keep) (auto simp: kind_none_forms write_events_def)
  next
    case (SeqPkt op r idx vs)
    then have st: "stream s = done @ enc_seq op (need_reset_filter_cam s)
          (word_of_nat r OR push_bit 28 (word_of_nat idx)) vs"
      and b: "buildable op Sequential" "last_opcode s = op" and r: "r + length vs \<le> 0x10000" "vs \<noteq> []"
      using assms(1) by auto
    then have b': "r < 0x10000" by (cases vs) auto
    have "length vs < 0x4000" using len by (simp add: st enc_seq_def)
    then have "closed gfx gen (stream s) (evs @ write_events (pkt_writes p))"
      unfolding st SeqPkt pkt_writes.simps seq_events_writes[symmetric]
      using closed_enc_seq[OF buildable_kind[OF b(1)], of vs gfx gen _
          "word_of_nat r OR push_bit 28 (word_of_nat idx)"] low16_idx[OF b']
      by (intro closed_append[OF assms(2)]) simp
    then show ?thesis using b buildable_forms[OF b(1)] by (intro keep) auto
  next
    case (PairsPkt op es)
    then have st: "stream s = done @ enc_pairs op (need_reset_filter_cam s) es"
      and b: "buildable op Pairs" "last_opcode s = op" "es \<noteq> []" "\<forall>(r, v)\<in>set es. r < 0x10000"
      using assms(1) by auto
    have "2 * length es \<le> 0x4000" using len by (simp add: st enc_pairs_def)
    then have "closed gfx gen (stream s) (evs @ write_events (pkt_writes p))"
      unfolding st PairsPkt pkt_writes.simps reg_events_writes[symmetric]
      by (intro closed_append[OF assms(2)] closed_enc_pairs[OF buildable_kind[OF b(1)] b(3) _ b(4)])
    then show ?thesis using b buildable_forms[OF b(1)] by (intro keep) auto
  next
    case (PackedPkt op es)
    then have b: "packed_done s done (need_reset_filter_cam s) es" "last_opcode s = op" "buildable op Packed"
      using assms(1) by auto
    obtain s1 fevs where s1: "finalize_packed rn s = Some s1" "frame s s1" "ndw s1 \<le> ndw s"
        "closed gfx gen (stream s1) (evs @ fevs)"
        "distinct (map fst (pkt_writes p)) \<longrightarrow> regs_after fevs = write_all (pkt_writes p)"
      using finalize_packed_closed[OF b(1) _ assms(2), of rn] b(3)
      unfolding PackedPkt pkt_writes.simps b(2) by blast
    obtain n where "record_pgm_lo rn s1 = s1\<lparr>spi_shader_pgm_lo_reg := n\<rparr>"
      using record_pgm_lo_spec by blast
    then have "ac_pm4_finalize rn s = Some (s1\<lparr>spi_shader_pgm_lo_reg := n\<rparr>)"
      using s1(1) b buildable_forms[OF b(3)] by (simp add: ac_pm4_finalize_def)
    then show ?thesis
      using s1 by (intro exI[of _ "s1\<lparr>spi_shader_pgm_lo_reg := n\<rparr>"] exI[of _ fevs]) simp
  qed
qed

lemma finalize_inv:
  assumes "pm4_inv gfx gen s ws" "ndw s \<le> 0x4000" "distinct (map fst ws)"
  shows "\<exists>s' evs. ac_pm4_finalize rn s = Some s' \<and> frame s s' \<and> ndw s' \<le> ndw s \<and>
    closed gfx gen (stream s') evs \<and> regs_after evs = write_all ws"
proof -
  obtain "done" evs ws0 p where i: "closed gfx gen done evs" "pkt_ok s done p" "ws = ws0 @ pkt_writes p"
      "distinct (map fst ws0) \<longrightarrow> regs_after evs = write_all ws0"
    using assms(1) by (auto simp: pm4_inv_def)
  obtain s' fevs where "ac_pm4_finalize rn s = Some s'" "frame s s'" "ndw s' \<le> ndw s"
      "closed gfx gen (stream s') (evs @ fevs)"
      "distinct (map fst (pkt_writes p)) \<longrightarrow> regs_after fevs = write_all (pkt_writes p)"
    using finalize_pkt[OF i(2,1) assms(2)] by blast
  then show ?thesis
    using i(3,4) assms(3) by (intro exI[of _ s'] exI[of _ "evs @ fevs"])
      (auto intro!: ext simp: regs_after_append write_all_append)
qed

text \<open>The state after \<open>ac_pm4_cmd_begin\<close>: a reserved header at the end of a closed stream.\<close>

definition begun :: "ac_pm4_state \<Rightarrow> dword list \<Rightarrow> nat \<Rightarrow> bool" where
  "begun s done opcode \<longleftrightarrow> (\<exists>h. stream s = done @ [h]) \<and> last_pm4 s = length done \<and>
     last_opcode s = opcode \<and> \<not> packed_is_padded s"

lemma cmd_begin_inv:
  assumes "pm4_inv gfx gen s ws" "ndw s < max_dw s" "max_dw s \<le> 0x4000" "opcode \<le> 254"
    and "distinct (map fst ws)"
  shows "\<exists>s' done evs. ac_pm4_cmd_begin rn opcode s = Some s' \<and> frame s s' \<and> ndw s' \<le> ndw s + 1 \<and>
    begun s' done opcode \<and> closed gfx gen done evs \<and> regs_after evs = write_all ws"
proof -
  obtain s1 evs where s1: "ac_pm4_finalize rn s = Some s1" "frame s s1" "ndw s1 \<le> ndw s"
      "closed gfx gen (stream s1) evs" "regs_after evs = write_all ws"
    using finalize_inv[OF assms(1) _ assms(5)] assms(2,3) by fastforce
  let ?s' = "s1\<lparr>last_opcode := opcode, last_pm4 := ndw s1, ndw := ndw s1 + 1, packed_is_padded := False\<rparr>"
  have "ac_pm4_cmd_begin rn opcode s = Some ?s'"
    using s1 assms(2-4) by (simp add: ac_pm4_cmd_begin_def frame_def)
  moreover have "begun ?s' (stream s1) opcode"
    by (simp add: begun_def stream_def)
  ultimately show ?thesis
    using s1 by (intro exI[of _ ?s'] exI[of _ "stream s1"] exI[of _ evs]) simp
qed

lemma write_header_stream:
  assumes "stream s = done @ h # body" "last_pm4 s = length done" "body \<noteq> []"
  shows "stream (write_header False s) =
    done @ set_header (last_opcode s) (length body - 1) (need_reset_filter_cam s) # body"
proof -
  have n: "ndw s = length done + 1 + length body" using arg_cong[OF assms(1), of length] by simp
  have "(word_of_nat (ndw s) - word_of_nat (last_pm4 s) - 2 :: dword) = word_of_nat (length body - 1)"
    using assms(2,3) n by (cases body) auto
  then show ?thesis
    using assms(1,2) by (simp add: write_header_def stream_poke set_header_def)
qed

lemma write_header_fields [simp]:
  "last_reg (write_header p s) = last_reg s" "last_pm4 (write_header p s) = last_pm4 s"
  "ndw (write_header p s) = ndw s" "last_opcode (write_header p s) = last_opcode s"
  "last_idx (write_header p s) = last_idx s" "packed_is_padded (write_header p s) = packed_is_padded s"
  "max_dw (write_header p s) = max_dw s"
  "need_reset_filter_cam (write_header p s) = need_reset_filter_cam s"
  "frame t (write_header p s) = frame t s"
  by (simp_all add: write_header_def)

section \<open>Adding a register\<close>

lemma odd_snoc:
  assumes "odd (length es)"
  obtains fs r v where "es = fs @ [(r, v)]" "even (length fs)"
  using assms by (cases es rule: rev_cases) auto

lemma set_reg_pack_fields:
  assumes "\<not> packed_is_padded s"
  shows "last_pm4 (set_reg_pack r s) = last_pm4 s" "last_opcode (set_reg_pack r s) = last_opcode s"
    "last_reg (set_reg_pack r s) = last_reg s" "last_idx (set_reg_pack r s) = last_idx s"
    "max_dw (set_reg_pack r s) = max_dw s" "\<not> packed_is_padded (set_reg_pack r s)"
    "need_reset_filter_cam (set_reg_pack r s) = need_reset_filter_cam s"
    "frame t (set_reg_pack r s) = frame t s"
  using assms by (simp_all add: set_reg_pack_def Let_def)

lemma set_reg_pack_even:
  assumes at: "packed_at s done (pack_body es)" and np: "\<not> packed_is_padded s" and e: "even (length es)"
  shows "packed_at (push v (set_reg_pack r s)) done (pack_body (es @ [(r, v)]))"
proof -
  obtain k where "length es = 2 * k" using e by (elim evenE)
  then have "packed_next_is_reg_offset_pair s"
    using packed_at_ndw[OF at] at
    by (simp add: packed_next_is_reg_offset_pair_def packed_at_def length_pack_body mod3_steps)
  then have "set_reg_pack r s = push (word_of_nat r) s" using np by (simp add: set_reg_pack_def)
  then show ?thesis using at e by (auto simp: packed_at_def pack_body_append)
qed

lemma set_reg_pack_odd:
  assumes at: "packed_at s done (pack_body fs @ [x, v0])" and np: "\<not> packed_is_padded s"
    and e: "even (length fs)" and x: "x AND 0xFFFF = word_of_nat r0"
  shows "packed_at (push v (set_reg_pack r s)) done (pack_body (fs @ [(r0, v0), (r, v)]))"
proof -
  obtain h c where st: "stream s = done @ h # c # pack_body fs @ [x, v0]" and l: "last_pm4 s = length done"
    using at by (auto simp: packed_at_def)
  obtain k where "length fs = 2 * k" using e by (elim evenE)
  then have n: "ndw s = length done + 4 + 3 * k" using packed_at_ndw[OF at] by (simp add: length_pack_body)
  then have "\<not> packed_next_is_reg_offset_pair s" "packed_next_is_reg_value1 s"
    by (simp_all add: packed_next_is_reg_offset_pair_def packed_next_is_reg_value1_def l)
  then have sp: "set_reg_pack r s = poke (ndw s - 2) (pm4 s (ndw s - 2) AND 0xFFFF OR push_bit 16 (word_of_nat r)) s"
    using np by (simp add: set_reg_pack_def)
  have i: "ndw s - 2 = length (done @ h # c # pack_body fs)"
    using packed_at_ndw[OF at] by simp
  have "pm4 s (ndw s - 2) = x"
    using stream_nth[of "ndw s - 2" s] n i unfolding st by (simp add: nth_append)
  then have "set_reg_pack r s = poke (ndw s - 2) (word_of_nat r0 OR push_bit 16 (word_of_nat r)) s"
    by (simp add: sp x)
  moreover have "(stream s)[ndw s - 2 := y] = done @ h # c # pack_body fs @ [y, v0]" for y
    unfolding st i by (simp add: list_update_append)
  ultimately show ?thesis
    using l e by (auto simp: packed_at_def stream_poke pack_body_append)
qed

lemma set_reg_pack_push:
  assumes at: "packed_at s done (pack_body es)" and np: "\<not> packed_is_padded s"
    and b: "\<forall>(r, v)\<in>set es. r < 0x10000"
  shows "packed_at (push v (set_reg_pack r s)) done (pack_body (es @ [(r, v)]))"
proof (cases "even (length es)")
  case True
  then show ?thesis by (rule set_reg_pack_even[OF at np])
next
  case False
  then obtain fs r0 v0 where es: "es = fs @ [(r0, v0)]" "even (length fs)" by (rule odd_snoc)
  then have "packed_at s done (pack_body fs @ [word_of_nat r0, v0])" "r0 < 0x10000"
    using at b by (auto simp: pack_body_append)
  then show ?thesis using set_reg_pack_odd[OF _ np es(2)] low16_id es by simp
qed

lemma packed_value0_iff:
  assumes "packed_at s done (pack_body es)"
  shows "packed_prev_is_reg_value0 s \<longleftrightarrow> odd (length es)"
proof -
  have n: "ndw s = last_pm4 s + 2 + length (pack_body es)"
    using packed_at_ndw[OF assms] assms by (simp add: packed_at_def)
  show ?thesis
  proof (cases "even (length es)")
    case True
    then show ?thesis
      by (simp add: packed_prev_is_reg_value0_def packed_next_is_reg_value1_def n length_pack_body mod3_steps)
  next
    case False
    then show ?thesis
      by (simp add: packed_prev_is_reg_value0_def packed_next_is_reg_value1_def n length_pack_body
          odd_iff_mod_2_eq_one mod3_steps)
  qed
qed

lemma write_header_packed:
  assumes "packed_at s done body"
  shows "packed_at (write_header p s) done body"
  using assms by (auto simp: packed_at_def write_header_def stream_poke)

lemma cmd_end_even:
  assumes at: "packed_at s done (pack_body es)" and e: "even (length es)" "es \<noteq> []"
    and op: "opcode_is_pairs_packed (last_opcode s)"
  shows "\<exists>s'. ac_pm4_cmd_end rn False s = Some s' \<and> frame s s' \<and> ndw s' = ndw s \<and>
    stream s' = done @ enc_packed (last_opcode s) (need_reset_filter_cam s) es \<and>
    last_pm4 s' = last_pm4 s \<and> last_opcode s' = last_opcode s \<and> packed_is_padded s' = packed_is_padded s \<and>
    need_reset_filter_cam s' = need_reset_filter_cam s \<and>
    last_reg s' = last_reg s \<and> last_idx s' = last_idx s"
proof -
  let ?s1 = "write_header False s"
  let ?s' = "poke (last_pm4 ?s1 + 1) (word_of_nat (length es)) ?s1"
  note at1 = write_header_packed[OF at, of False]
  have "\<not> packed_prev_is_reg_value0 ?s1" using packed_value0_iff[OF at1] e(1) by simp
  then have "ac_pm4_cmd_end rn False s = Some ?s'"
    using op packed_at_count[OF at1 e] by (simp add: ac_pm4_cmd_end.simps[of rn False s] Let_def)
  moreover have "stream ?s' = done @ enc_packed (last_opcode s) (need_reset_filter_cam s) es"
  proof -
    obtain h c where st: "stream s = done @ h # c # pack_body es" and l: "last_pm4 s = length done"
      using at by (auto simp: packed_at_def)
    then show ?thesis
      using write_header_stream[OF st l] by (simp add: stream_poke enc_packed_def list_update_append)
  qed
  ultimately show ?thesis by (intro exI[of _ ?s']) simp
qed

lemma need_cam_packed:
  "opcode_is_pairs_packed (last_opcode s) \<or> opcode_is_pairs (last_opcode s) \<Longrightarrow>
   need_reset_filter_cam s \<longleftrightarrow> \<not> is_compute_queue s"
  by (auto simp: need_reset_filter_cam_def Let_def)

lemma set_reg_body_continue:
  assumes "opcode_is_pairs_packed (last_opcode s)" "ndw s + 2 \<le> max_dw s" "r < 0x10000"
  shows "set_reg_body rn (r * 4) v (last_opcode s) 0 s =
    Some (push v (set_reg_pack r (s\<lparr>last_reg := r, last_idx := 0\<rparr>)))"
  using assms by (simp add: set_reg_body_def set_reg_open_def Let_def)

lemma packed_at_fields [simp]:
  "packed_at (s\<lparr>last_reg := r, last_idx := i\<rparr>) done body = packed_at s done body"
  "packed_at (s\<lparr>packed_is_padded := b\<rparr>) done body = packed_at s done body"
  by (simp_all add: packed_at_def stream_def)

lemma cmd_end_odd:
  assumes at: "packed_at s done (pack_body es)" and o: "odd (length es)" and np: "\<not> packed_is_padded s"
    and op: "opcode_is_pairs_packed (last_opcode s)" and b: "\<forall>(r, v)\<in>set es. r < 0x10000"
    and room: "ndw s + 2 \<le> max_dw s"
  shows "\<exists>s'. ac_pm4_cmd_end rn False s = Some s' \<and> frame s s' \<and> ndw s' = ndw s + 1 \<and>
    stream s' = done @ enc_packed (last_opcode s) (need_reset_filter_cam s) (pad es) \<and>
    last_pm4 s' = last_pm4 s \<and> last_opcode s' = last_opcode s \<and> packed_is_padded s' \<and>
    need_reset_filter_cam s' = need_reset_filter_cam s"
proof -
  have ne: "es \<noteq> []" using o by auto
  obtain r v where hd: "hd es = (r, v)" by fastforce
  have r: "r < 0x10000" using b hd_in_set[OF ne] hd by auto
  let ?s1 = "write_header False s"
  note at1 = write_header_packed[OF at, of False]
  have get: "get_packed_reg_dw_offsetN ?s1 0 = Some r" "get_packed_reg_valueN ?s1 0 = Some v"
  proof -
    obtain h c where st: "stream ?s1 = done @ h # c # pack_body es" and l: "last_pm4 ?s1 = length done"
      using at1 by (auto simp: packed_at_def)
    obtain x body where pb: "pack_body es = x # v # body" "unat (x AND 0xFFFF) = r"
      using hd ne r packed_offsets(1)[OF r] b by (cases es rule: pack_body.cases) auto
    have n: "ndw ?s1 = length done + 4 + length body" using arg_cong[OF st, of length] by (simp add: pb)
    then have "pm4 ?s1 (length done + 2) = x" "pm4 ?s1 (length done + 3) = v"
      using st by (simp_all add: stream_nth pb nth_append)
    then show "get_packed_reg_dw_offsetN ?s1 0 = Some r" "get_packed_reg_valueN ?s1 0 = Some v"
      using n l pb(2)
      by (simp_all add: get_packed_reg_dw_offsetN_def get_packed_reg_valueN_def
          get_packed_reg_valueN_idx_def Let_def numeral_3_eq_3)
  qed
  let ?u = "?s1\<lparr>last_reg := r, last_idx := 0\<rparr>"
  let ?t = "push v (set_reg_pack r ?u)"
  have t: "set_reg_body rn (r * 4) v (last_opcode ?s1) 0 ?s1 = Some ?t"
    using op room r by (intro set_reg_body_continue) simp_all
  have "packed_at ?t done (pack_body (es @ [(r, v)]))"
    using at1 np b by (intro set_reg_pack_push) simp_all
  moreover have pd: "es @ [(r, v)] = pad es" using o hd by (simp add: pad_def)
  ultimately have att: "packed_at ?t done (pack_body (pad es))" by simp
  have f: "last_opcode ?t = last_opcode s" "last_pm4 ?t = last_pm4 s" "\<not> packed_is_padded ?t" "frame s ?t"
    using np set_reg_pack_fields[of ?u] by simp_all
  have need: "need_reset_filter_cam ?t = need_reset_filter_cam s"
    using f op need_cam_packed[of s] need_cam_packed[of ?t] by (simp add: frame_def)
  obtain t' where t': "ac_pm4_cmd_end rn False ?t = Some t'" "frame ?t t'" "ndw t' = ndw ?t"
      "stream t' = done @ enc_packed (last_opcode s) (need_reset_filter_cam s) (pad es)"
      "last_pm4 t' = last_pm4 s" "last_opcode t' = last_opcode s"
      "need_reset_filter_cam t' = need_reset_filter_cam s"
    using cmd_end_even[OF att, of rn] ne op f need by auto
  have ndw: "ndw t' = ndw s + 1"
    using t'(3) packed_at_ndw[OF att] packed_at_ndw[OF at] o
    by (simp add: length_pack_body pad_length odd_iff_mod_2_eq_one)
  let ?t' = "t'\<lparr>packed_is_padded := True\<rparr>"
  let ?s' = "poke (last_pm4 ?t' + 1) (word_of_nat (length (pad es))) ?t'"
  have "packed_at t' done (pack_body (pad es))"
    unfolding packed_at_def t'(4,5) enc_packed_def using at by (auto simp: packed_at_def)
  then have "packed_at ?t' done (pack_body (pad es))" by simp
  then have cnt: "get_packed_reg_count ?t' = Some (length (pad es))"
    using ne by (intro packed_at_count) simp_all
  have "packed_prev_is_reg_value0 ?s1" using packed_value0_iff[OF at1] o by simp
  then have "ac_pm4_cmd_end rn False s = Some ?s'"
    unfolding ac_pm4_cmd_end.simps[of rn False s] Let_def using op get t t'(1) cnt by simp
  moreover have "stream ?s' = stream t'"
    using t'(4,5) at by (simp add: stream_poke packed_at_def enc_packed_def list_update_append)
  moreover have "frame s ?s'" using f(4) t'(2) by (simp add: frame_def)
  ultimately show ?thesis using t' ndw by (intro exI[of _ ?s']) simp
qed

lemma packed_finish:
  assumes at: "packed_at s done (pack_body es)" and ne: "es \<noteq> []" and np: "\<not> packed_is_padded s"
    and op: "opcode_is_pairs_packed (last_opcode s)" and b: "\<forall>(r, v)\<in>set es. r < 0x10000"
    and room: "ndw s + 2 \<le> max_dw s" "max_dw s \<le> 0x4000"
  shows "\<exists>s'. ac_pm4_cmd_end rn False s = Some s' \<and> frame s s' \<and> ndw s' \<le> ndw s + 1 \<and>
    packed_done s' done (need_reset_filter_cam s') es \<and> last_opcode s' = last_opcode s"
proof (cases "even (length es)")
  case True
  then show ?thesis
    using cmd_end_even[OF at True ne op, of rn] at np b ne room
    unfolding packed_done_def packed_at_def by (auto simp: pad_def)
next
  case False
  then show ?thesis
    using cmd_end_odd[OF at False np op b room(1), of rn] at b ne room
    unfolding packed_done_def packed_at_def by auto
qed

lemma cmd_end_unpacked:
  "\<not> opcode_is_pairs_packed (last_opcode s) \<Longrightarrow> ac_pm4_cmd_end rn False s = Some (write_header False s)"
  unfolding ac_pm4_cmd_end.simps[of rn False s] Let_def by simp

lemma pkt_of_opcode:
  assumes "pkt_ok s done p" "buildable (last_opcode s) form"
  shows "form = Sequential \<Longrightarrow> \<exists>r idx vs. p = SeqPkt (last_opcode s) r idx vs"
    and "form = Pairs \<Longrightarrow> \<exists>es. p = PairsPkt (last_opcode s) es"
    and "form = Packed \<Longrightarrow> \<exists>es. p = PackedPkt (last_opcode s) es"
  using assms by (cases p; auto simp: buildable_def)+

text \<open>The new state of each form, from the state the header is written into.\<close>

lemma seq_finish:
  assumes "stream s = done @ h # (word_of_nat r OR push_bit 28 (word_of_nat (last_idx s))) # vs"
    and "last_pm4 s = length done" "buildable (last_opcode s) Sequential" "vs \<noteq> []"
    and "last_reg s + 1 = r + length vs" "r + length vs \<le> 0x10000"
  shows "ac_pm4_cmd_end rn False s = Some (write_header False s)"
    and "pkt_ok (write_header False s) done (SeqPkt (last_opcode s) r (last_idx s) vs)"
  using assms buildable_forms[OF assms(3)] write_header_stream[OF assms(1,2)]
  by (simp_all add: cmd_end_unpacked enc_seq_def)

lemma pairs_finish:
  assumes "stream s = done @ h # pair_body es" "last_pm4 s = length done"
    and "buildable (last_opcode s) Pairs" "es \<noteq> []" "\<forall>(r, v)\<in>set es. r < 0x10000"
  shows "ac_pm4_cmd_end rn False s = Some (write_header False s)"
    and "pkt_ok (write_header False s) done (PairsPkt (last_opcode s) es)"
proof -
  have "pair_body es \<noteq> []" using assms(4) by (cases es) auto
  then show "ac_pm4_cmd_end rn False s = Some (write_header False s)"
    "pkt_ok (write_header False s) done (PairsPkt (last_opcode s) es)"
    using assms(2-) buildable_forms[OF assms(3)] write_header_stream[OF assms(1,2)]
    by (simp_all add: cmd_end_unpacked enc_pairs_def)
qed

lemma pm4_invI:
  assumes "closed gfx gen done evs" "regs_after evs = write_all ws0" "pkt_ok s done p"
  shows "pm4_inv gfx gen s (ws0 @ pkt_writes p)"
  using assms unfolding pm4_inv_def by blast

lemma stream_last [simp]: "stream (s\<lparr>last_reg := r, last_idx := i\<rparr>) = stream s"
  by (simp add: stream_def)

lemma set_seq_inv:
  assumes inv: "pm4_inv gfx gen s ws" and room: "ndw s + 5 \<le> max_dw s" "max_dw s \<le> 0x4000"
    and b: "buildable op Sequential" and r: "reg div 4 < 0x10000" and dist: "distinct (map fst ws)"
  shows "\<exists>s'. ac_pm4_set_reg_custom rn reg v op idx s = Some s' \<and> frame s s' \<and> ndw s' \<le> ndw s + 5 \<and>
    pm4_inv gfx gen s' (ws @ [(op_base op + 4 * (reg div 4), v)])"
proof -
  let ?r = "reg div 4"
  note f = buildable_forms[OF b]
  show ?thesis
  proof (cases "op \<noteq> last_opcode s \<or> ?r \<noteq> last_reg s + 1 \<or> idx \<noteq> last_idx s")
    case True
    obtain s1 "done" evs where s1: "ac_pm4_cmd_begin rn op s = Some s1" "frame s s1" "ndw s1 \<le> ndw s + 1"
        "begun s1 done op" "closed gfx gen done evs" "regs_after evs = write_all ws"
      using cmd_begin_inv[OF inv _ room(2) f(3) dist] room(1) by fastforce
    let ?s2 = "push v ((push (word_of_nat ?r OR push_bit 28 (word_of_nat idx)) s1)\<lparr>last_reg := ?r, last_idx := idx\<rparr>)"
    have "set_reg_body rn reg v op idx s = Some ?s2"
      using True s1(1) f r room by (simp add: set_reg_body_def set_reg_open_def Let_def)
    moreover obtain h where h: "stream ?s2 = done @ h # (word_of_nat ?r OR push_bit 28 (word_of_nat (last_idx ?s2))) # [v]"
      using s1(4) by (auto simp: begun_def)
    moreover have "last_pm4 ?s2 = length done" "last_opcode ?s2 = op" "last_reg ?s2 = ?r"
      using s1(4) by (simp_all add: begun_def)
    moreover note seq_finish[OF h]
    ultimately have "ac_pm4_set_reg_custom rn reg v op idx s = Some (write_header False ?s2)"
        "pkt_ok (write_header False ?s2) done (SeqPkt op ?r idx [v])"
      using b r by (simp_all add: ac_pm4_set_reg_custom_def)
    then show ?thesis
      using pm4_invI[OF s1(5,6)] s1(2,3) by (fastforce simp: algebra_simps)
  next
    case False
    obtain "done" evs ws0 p where i: "closed gfx gen done evs" "pkt_ok s done p" "ws = ws0 @ pkt_writes p"
        "distinct (map fst ws0) \<longrightarrow> regs_after evs = write_all ws0"
      using inv by (auto simp: pm4_inv_def)
    obtain r0 vs where p: "p = SeqPkt op r0 idx vs"
      using pkt_of_opcode(1)[OF i(2)] b False i(2) by auto
    let ?s2 = "push v (s\<lparr>last_reg := ?r, last_idx := idx\<rparr>)"
    have "set_reg_body rn reg v op idx s = Some ?s2"
      using False f r room by (simp add: set_reg_body_def set_reg_open_def Let_def)
    moreover have h: "stream ?s2 = done @ set_header op (length vs) (need_reset_filter_cam s) #
        (word_of_nat r0 OR push_bit 28 (word_of_nat (last_idx ?s2))) # (vs @ [v])"
      using i(2) p by (simp add: enc_seq_def)
    moreover have "last_pm4 ?s2 = length done" "last_opcode ?s2 = op" "last_reg ?s2 = ?r" "?r = r0 + length vs"
      using i(2) p False by auto
    moreover note seq_finish[OF h]
    ultimately have "ac_pm4_set_reg_custom rn reg v op idx s = Some (write_header False ?s2)"
        "pkt_ok (write_header False ?s2) done (SeqPkt op r0 idx (vs @ [v]))" and r0: "?r = r0 + length vs"
      using b r by (simp_all add: ac_pm4_set_reg_custom_def)
    moreover have "regs_after evs = write_all ws0" using i(3,4) dist by simp
    ultimately show ?thesis
      using pm4_invI[OF i(1), of ws0 "write_header False ?s2" "SeqPkt op r0 idx (vs @ [v])"] i(3) p
      by (simp add: seq_writes_snoc algebra_simps)
  qed
qed

lemma set_pairs_inv:
  assumes inv: "pm4_inv gfx gen s ws" and room: "ndw s + 5 \<le> max_dw s" "max_dw s \<le> 0x4000"
    and b: "buildable op Pairs" and r: "reg div 4 < 0x10000" and dist: "distinct (map fst ws)"
  shows "\<exists>s'. ac_pm4_set_reg_custom rn reg v op 0 s = Some s' \<and> frame s s' \<and> ndw s' \<le> ndw s + 5 \<and>
    pm4_inv gfx gen s' (ws @ [(op_base op + 4 * (reg div 4), v)])"
proof -
  let ?r = "reg div 4"
  note f = buildable_forms[OF b]
  let ?s2 = "\<lambda>s1. push v ((push (word_of_nat ?r) s1)\<lparr>last_reg := ?r, last_idx := 0\<rparr>)"
  show ?thesis
  proof (cases "op \<noteq> last_opcode s")
    case True
    obtain s1 "done" evs where s1: "ac_pm4_cmd_begin rn op s = Some s1" "frame s s1" "ndw s1 \<le> ndw s + 1"
        "begun s1 done op" "closed gfx gen done evs" "regs_after evs = write_all ws"
      using cmd_begin_inv[OF inv _ room(2) f(3) dist] room(1) by fastforce
    have "set_reg_body rn reg v op 0 s = Some (?s2 s1)"
      using True s1(1) f r room by (simp add: set_reg_body_def set_reg_open_def Let_def)
    moreover obtain h where h: "stream (?s2 s1) = done @ h # pair_body [(?r, v)]"
      using s1(4) by (auto simp: begun_def)
    moreover have "last_pm4 (?s2 s1) = length done" "last_opcode (?s2 s1) = op"
      using s1(4) by (simp_all add: begun_def)
    moreover note pairs_finish[OF h]
    ultimately have "ac_pm4_set_reg_custom rn reg v op 0 s = Some (write_header False (?s2 s1))"
        "pkt_ok (write_header False (?s2 s1)) done (PairsPkt op [(?r, v)])"
      using b r by (simp_all add: ac_pm4_set_reg_custom_def)
    then show ?thesis
      using pm4_invI[OF s1(5,6)] s1(2,3) by (fastforce simp: pair_writes_def)
  next
    case False
    obtain "done" evs ws0 p where i: "closed gfx gen done evs" "pkt_ok s done p" "ws = ws0 @ pkt_writes p"
        "distinct (map fst ws0) \<longrightarrow> regs_after evs = write_all ws0"
      using inv by (auto simp: pm4_inv_def)
    obtain es where p: "p = PairsPkt op es"
      using pkt_of_opcode(2)[OF i(2)] b False by auto
    have "set_reg_body rn reg v op 0 s = Some (?s2 s)"
      using False f r room by (simp add: set_reg_body_def set_reg_open_def Let_def)
    moreover have h: "stream (?s2 s) =
        done @ set_header op (2 * length es - 1) (need_reset_filter_cam s) # pair_body (es @ [(?r, v)])"
      using i(2) p by (simp add: enc_pairs_def)
    moreover have "last_pm4 (?s2 s) = length done" "last_opcode (?s2 s) = op"
        "\<forall>(r, v)\<in>set (es @ [(?r, v)]). r < 0x10000"
      using i(2) p False r by auto
    moreover note pairs_finish[OF h]
    ultimately have "ac_pm4_set_reg_custom rn reg v op 0 s = Some (write_header False (?s2 s))"
        "pkt_ok (write_header False (?s2 s)) done (PairsPkt op (es @ [(?r, v)]))"
      using b r by (simp_all add: ac_pm4_set_reg_custom_def)
    moreover have "regs_after evs = write_all ws0" using i(3,4) dist by simp
    ultimately show ?thesis
      using pm4_invI[OF i(1), of ws0 "write_header False (?s2 s)" "PairsPkt op (es @ [(?r, v)])"] i(3) p
      by (simp add: pair_writes_def)
  qed
qed

lemma low16_of_pair: "r < 0x10000 \<Longrightarrow> (word_of_nat r OR push_bit 16 x :: dword) AND 0xFFFF = word_of_nat r"
proof -
  assume r: "r < 0x10000"
  have "(word_of_nat r OR push_bit 16 x :: dword) AND 0xFFFF = word_of_nat r AND 0xFFFF"
    by (rule bit_word_eqI) (auto simp: bit_simps mask_numerals)
  then show ?thesis using low16_id[OF r] by simp
qed

text \<open>Adding to a padded packet drops the padding first.\<close>

lemma set_reg_pack_done:
  assumes d: "packed_done s done cam es"
  shows "packed_at (push v (set_reg_pack r s)) done (pack_body (es @ [(r, v)]))"
    and "last_opcode (set_reg_pack r s) = last_opcode s" "\<not> packed_is_padded (set_reg_pack r s)"
    and "frame t (set_reg_pack r s) = frame t s"
proof -
  let ?s1 = "s\<lparr>packed_is_padded := False, ndw := ndw s - 1\<rparr>"
  have f: "frame t ?s1 = frame t s" "\<not> packed_is_padded ?s1" "last_opcode ?s1 = last_opcode s" by simp_all
  have b: "\<forall>(r, v)\<in>set es. r < 0x10000" using d by (simp add: packed_done_def)
  have *: "packed_at (push v (set_reg_pack r s)) done (pack_body (es @ [(r, v)])) \<and>
      last_opcode (set_reg_pack r s) = last_opcode s \<and> \<not> packed_is_padded (set_reg_pack r s) \<and>
      frame t (set_reg_pack r s) = frame t s"
  proof (cases "odd (length es)")
    case True
    then obtain fs r1 v1 where es: "es = fs @ [(r1, v1)]" "even (length fs)" by (rule odd_snoc)
    obtain r0 v0 where hd: "hd es = (r0, v0)" by fastforce
    let ?x = "word_of_nat r1 OR push_bit 16 (word_of_nat r0) :: dword"
    have pb: "pack_body (pad es) = pack_body fs @ [?x, v1, v0]"
      using es hd by (simp add: pad_def pack_body_append)
    obtain h c where st: "stream s = done @ h # c # pack_body fs @ [?x, v1, v0]" and l: "last_pm4 s = length done"
      using packed_done_at[OF d] by (auto simp: packed_at_def pb)
    have "stream ?s1 = butlast (stream s)"
      using stream_trunc[of "ndw s - 1" "s\<lparr>packed_is_padded := False\<rparr>"] by (simp add: butlast_conv_take)
    then have "stream ?s1 = done @ h # c # pack_body fs @ [?x, v1]"
      by (simp add: st butlast_append)
    then have "packed_at ?s1 done (pack_body fs @ [?x, v1])" using l by (simp add: packed_at_def)
    moreover have "?x AND 0xFFFF = word_of_nat r1" using b es by (intro low16_of_pair) auto
    ultimately have "packed_at (push v (set_reg_pack r ?s1)) done (pack_body (fs @ [(r1, v1), (r, v)]))"
      by (intro set_reg_pack_odd[OF _ f(2) es(2)])
    moreover have "set_reg_pack r s = set_reg_pack r ?s1"
      using d True by (simp add: packed_done_def set_reg_pack_def Let_def)
    ultimately show ?thesis using es set_reg_pack_fields[OF f(2)] f by simp
  next
    case False
    then have "packed_at s done (pack_body es)" "\<not> packed_is_padded s"
      using packed_done_at[OF d] d by (simp_all add: packed_done_def pad_def)
    then show ?thesis using False set_reg_pack_even set_reg_pack_fields by simp
  qed
  then show "packed_at (push v (set_reg_pack r s)) done (pack_body (es @ [(r, v)]))"
    "last_opcode (set_reg_pack r s) = last_opcode s" "\<not> packed_is_padded (set_reg_pack r s)"
    "frame t (set_reg_pack r s) = frame t s" by simp_all
qed

lemma set_packed_step:
  assumes body: "set_reg_body rn reg v op 0 s = Some t" and fr: "frame s t"
    and at: "packed_at t done (pack_body es)" and ne: "es \<noteq> []" and np: "\<not> packed_is_padded t"
    and op: "last_opcode t = op" "buildable op Packed" and b: "\<forall>(r, v)\<in>set es. r < 0x10000"
    and room: "ndw t \<le> ndw s + 4" "ndw s + 6 \<le> max_dw s" "max_dw s \<le> 0x4000"
  shows "\<exists>s'. ac_pm4_set_reg_custom rn reg v op 0 s = Some s' \<and> frame s s' \<and> ndw s' \<le> ndw s + 5 \<and>
    pkt_ok s' done (PackedPkt op es)"
proof -
  have "max_dw t = max_dw s" using fr by (simp add: frame_def)
  then obtain s' where s': "ac_pm4_cmd_end rn False t = Some s'" "frame t s'" "ndw s' \<le> ndw t + 1"
      "packed_done s' done (need_reset_filter_cam s') es" "last_opcode s' = op"
    using packed_finish[OF at ne np _ b, of rn] room op buildable_forms(1)[OF op(2)] by auto
  then show ?thesis
    using op body room frame_trans[OF fr s'(2)] by (simp add: ac_pm4_set_reg_custom_def)
qed

text \<open>The first register of a packed packet, and one more.\<close>

lemma set_packed_first:
  assumes inv: "pm4_inv gfx gen s ws" and room: "ndw s + 6 \<le> max_dw s" "max_dw s \<le> 0x4000"
    and b: "buildable op Packed" and r: "reg div 4 < 0x10000" and dist: "distinct (map fst ws)" and new: "op \<noteq> last_opcode s"
  shows "\<exists>s' done evs. ac_pm4_set_reg_custom rn reg v op 0 s = Some s' \<and> frame s s' \<and> ndw s' \<le> ndw s + 5 \<and>
    closed gfx gen done evs \<and> regs_after evs = write_all ws \<and> pkt_ok s' done (PackedPkt op [(reg div 4, v)])"
proof -
  let ?r = "reg div 4"
  note f = buildable_forms[OF b]
  obtain s1 "done" evs where s1: "ac_pm4_cmd_begin rn op s = Some s1" "frame s s1" "ndw s1 \<le> ndw s + 1"
      "begun s1 done op" "closed gfx gen done evs" "regs_after evs = write_all ws"
    using cmd_begin_inv[OF inv _ room(2) f(3) dist] room(1) by fastforce
  let ?u = "s1\<lparr>ndw := ndw s1 + 1, last_reg := ?r, last_idx := 0\<rparr>"
  let ?t = "push v (set_reg_pack ?r ?u)"
  have body: "set_reg_body rn reg v op 0 s = Some ?t"
    using new s1(1) f r room by (simp add: set_reg_body_def set_reg_open_def Let_def)
  have at: "packed_at ?u done (pack_body [])" and np: "\<not> packed_is_padded ?u"
    using s1(4) stream_reserve[of s1] by (auto simp: begun_def packed_at_def stream_def)
  have at2: "packed_at ?t done (pack_body [(?r, v)])"
    using set_reg_pack_push[OF at np, of v ?r] by simp
  have n: "ndw ?t \<le> ndw s + 4"
    using packed_at_ndw[OF at2] packed_at_ndw[OF at] s1(3) by simp
  have f2: "\<not> packed_is_padded ?t" "last_opcode ?t = op" "frame s ?t"
    using s1(2,4) set_reg_pack_fields[OF np] by (simp_all add: begun_def)
  show ?thesis
    using set_packed_step[OF body f2(3) at2 _ f2(1,2) b _ n room] r s1(5,6) by auto
qed

lemma set_packed_next:
  assumes ok: "pkt_ok s done (PackedPkt op es)" and room: "ndw s + 6 \<le> max_dw s" "max_dw s \<le> 0x4000"
    and r: "reg div 4 < 0x10000"
  shows "\<exists>s'. ac_pm4_set_reg_custom rn reg v op 0 s = Some s' \<and> frame s s' \<and> ndw s' \<le> ndw s + 5 \<and>
    pkt_ok s' done (PackedPkt op (es @ [(reg div 4, v)]))"
proof -
  let ?r = "reg div 4"
  have b: "buildable op Packed" and o: "last_opcode s = op" using ok by auto
  note f = buildable_forms[OF b]
  let ?u = "s\<lparr>last_reg := ?r, last_idx := 0\<rparr>"
  let ?t = "push v (set_reg_pack ?r ?u)"
  have d: "packed_done ?u done (need_reset_filter_cam s) es" using ok by (simp add: packed_done_def)
  have body: "set_reg_body rn reg v op 0 s = Some ?t"
    using o f r room by (simp add: set_reg_body_def set_reg_open_def Let_def)
  note at2 = set_reg_pack_done(1)[OF d, of v ?r]
  have f2: "\<not> packed_is_padded ?t" "last_opcode ?t = op" "frame s ?t"
    using set_reg_pack_done(2-)[OF d] o by simp_all
  have n: "ndw ?t \<le> ndw s + 4"
    using packed_at_ndw[OF at2] packed_at_ndw[OF packed_done_at[OF d]]
    by (cases "even (length es)") (auto simp: length_pack_body pad_length odd_iff_mod_2_eq_one elim: evenE oddE)
  have "\<forall>(r, v)\<in>set (es @ [(?r, v)]). r < 0x10000" using d r by (auto simp: packed_done_def)
  then show ?thesis using set_packed_step[OF body f2(3) at2 _ f2(1,2) b _ n room] by simp
qed

lemma set_packed_inv:
  assumes inv: "pm4_inv gfx gen s ws" and room: "ndw s + 6 \<le> max_dw s" "max_dw s \<le> 0x4000"
    and b: "buildable op Packed" and r: "reg div 4 < 0x10000" and dist: "distinct (map fst ws)"
  shows "\<exists>s'. ac_pm4_set_reg_custom rn reg v op 0 s = Some s' \<and> frame s s' \<and> ndw s' \<le> ndw s + 5 \<and>
    pm4_inv gfx gen s' (ws @ [(op_base op + 4 * (reg div 4), v)])"
proof (cases "op \<noteq> last_opcode s")
  case True
  obtain s' "done" evs where s': "ac_pm4_set_reg_custom rn reg v op 0 s = Some s'" "frame s s'" "ndw s' \<le> ndw s + 5"
      "closed gfx gen done evs" "regs_after evs = write_all ws" "pkt_ok s' done (PackedPkt op [(reg div 4, v)])"
    using set_packed_first[OF inv room b r dist True] by blast
  then show ?thesis using pm4_invI[OF s'(4-6)] by (simp add: pair_writes_def)
next
  case False
  obtain "done" evs ws0 p where i: "closed gfx gen done evs" "pkt_ok s done p" "ws = ws0 @ pkt_writes p"
      "distinct (map fst ws0) \<longrightarrow> regs_after evs = write_all ws0"
    using inv by (auto simp: pm4_inv_def)
  obtain es where p: "p = PackedPkt op es"
    using pkt_of_opcode(3)[OF i(2)] b False by auto
  obtain s' where s': "ac_pm4_set_reg_custom rn reg v op 0 s = Some s'" "frame s s'" "ndw s' \<le> ndw s + 5"
      "pkt_ok s' done (PackedPkt op (es @ [(reg div 4, v)]))"
    using set_packed_next[OF i(2)[unfolded p] room r] by blast
  have "regs_after evs = write_all ws0" using i(3,4) dist by simp
  then show ?thesis using pm4_invI[OF i(1) _ s'(4)] s'(1-3) i(3) p by (simp add: pair_writes_def)
qed

theorem set_reg_custom_inv:
  assumes "pm4_inv gfx gen s ws" "ndw s + 6 \<le> max_dw s" "max_dw s \<le> 0x4000"
    and "buildable op form" "reg div 4 < 0x10000" "distinct (map fst ws)" "form = Sequential \<or> idx = 0"
  shows "\<exists>s'. ac_pm4_set_reg_custom rn reg v op idx s = Some s' \<and> frame s s' \<and> ndw s' \<le> ndw s + 5 \<and>
    pm4_inv gfx gen s' (ws @ [(op_base op + 4 * (reg div 4), v)])"
  using assms(2,7) set_seq_inv[OF assms(1) _ assms(3) _ assms(5,6)]
    set_pairs_inv[OF assms(1) _ assms(3) _ assms(5,6)]
    set_packed_inv[OF assms(1-3) _ assms(5,6)] assms(4)
  by (cases form) auto

section \<open>Running a list of register writes\<close>

text \<open>
  What a client of a builder relies on: a step succeeds while there is room, extends the writes
  the invariant records by one, and takes a bounded amount of space.
\<close>

locale reg_builder =
  fixes step :: "'w \<Rightarrow> 's \<Rightarrow> 's option"
    and inv :: "'s \<Rightarrow> 'w list \<Rightarrow> bool"
    and ok :: "'w list \<Rightarrow> bool"
    and size :: "'s \<Rightarrow> nat"
    and cap grow slack :: nat
  assumes ok_prefix: "ok (ws @ [w]) \<Longrightarrow> ok ws"
    and step_inv: "inv s ws \<Longrightarrow> ok (ws @ [w]) \<Longrightarrow> size s + slack \<le> cap \<Longrightarrow>
      \<exists>s'. step w s = Some s' \<and> inv s' (ws @ [w]) \<and> size s' \<le> size s + grow"
    and slack: "grow \<le> slack"
begin

primrec run :: "'w list \<Rightarrow> 's \<Rightarrow> 's option" where
  "run [] s = Some s"
| "run (w # ws) s = do { s' \<leftarrow> step w s; run ws s' }"

lemma ok_append: "ok (ws @ vs) \<Longrightarrow> ok ws"
proof (induction vs rule: rev_induct)
  case (snoc v vs)
  then show ?case using ok_prefix[of "ws @ vs" v] by simp
qed simp

lemma run_inv:
  assumes "inv s ws" "ok (ws @ vs)" "size s + length vs * grow + slack \<le> cap + grow"
  shows "\<exists>s'. run vs s = Some s' \<and> inv s' (ws @ vs) \<and> size s' \<le> size s + length vs * grow"
  using assms
proof (induction vs arbitrary: s ws)
  case (Cons v vs)
  have "ok (ws @ [v])" using Cons.prems(2) ok_append[of "ws @ [v]" vs] by simp
  moreover have "size s + slack \<le> cap" using Cons.prems(3) by simp
  ultimately obtain s1 where s1: "step v s = Some s1" "inv s1 (ws @ [v])" "size s1 \<le> size s + grow"
    using step_inv[OF Cons.prems(1)] by blast
  then show ?case using Cons.IH[OF s1(2)] Cons.prems(2,3) by fastforce
qed simp

end

definition pm4_dw :: "c_env \<Rightarrow> titan_cfg \<Rightarrow> nat \<Rightarrow> nat" where
  "pm4_dw env cfg reg =
     (case reg_space reg of
        None \<Rightarrow> 0
      | Some (opcode, base) \<Rightarrow>
          if ac_titan_preamble_remap env \<and> (opcode = PKT3_SET_CONTEXT_REG \<or> opcode = PKT3_SET_SH_REG)
          then ac_titan_remap_dw_quiet env cfg base ((reg - base) div 4) else (reg - base) div 4)"

text \<open>The address a requested write reaches, through the TITAN map when it is active.\<close>

definition pm4_addr :: "c_env \<Rightarrow> titan_cfg \<Rightarrow> nat \<Rightarrow> nat" where
  "pm4_addr env cfg reg = (case reg_space reg of None \<Rightarrow> reg | Some (_, base) \<Rightarrow> base + 4 * pm4_dw env cfg reg)"

lemma quiet_hits [simp]:
  "ac_titan_remap_dw_quiet env (cfg\<lparr>regmap_hits := h\<rparr>) = ac_titan_remap_dw_quiet env cfg"
  by (simp add: fun_eq_iff ac_titan_remap_dw_quiet_def ac_titan_ctx_dw_def ac_titan_sh_dw_def
      split: option.split)

lemma remap_hits: "\<exists>h. snd (ac_titan_remap_dw env cfg base dw) = cfg\<lparr>regmap_hits := h\<rparr>"
proof -
  have "\<exists>h. cfg = cfg\<lparr>regmap_hits := h\<rparr>" by (rule exI[of _ "regmap_hits cfg"]) simp
  then show ?thesis unfolding ac_titan_remap_dw_def Let_def by auto
qed

lemma pm4_dw_hits [simp]: "pm4_dw env (cfg\<lparr>regmap_hits := h\<rparr>) = pm4_dw env cfg"
  by (auto simp: fun_eq_iff pm4_dw_def split: option.split)

lemma regular_opcode_buildable:
  assumes "reg_space reg = Some (opcode, base)"
  shows "\<exists>form. buildable (regular_opcode_to_pairs s opcode) form"
    and "op_base (regular_opcode_to_pairs s opcode) = base"
  using assms
  by (auto simp: reg_space_def buildable_def op_base_def set_packet_kind_def regular_opcode_to_pairs_def
      pkt3_set_defs split: if_splits)

lemma set_reg_as_custom:
  assumes "reg_space reg = Some (opcode, base)" "\<not> is_privileged_reg s reg"
  shows "\<exists>h off. off div 4 = pm4_dw env cfg reg \<and>
    ac_pm4_set_reg rn env reg v (cfg, s) =
      map_option (Pair (cfg\<lparr>regmap_hits := h\<rparr>))
        (ac_pm4_set_reg_custom rn off v (regular_opcode_to_pairs s opcode) 0 s)"
proof (cases "regmap_active cfg \<and> ac_titan_preamble_remap env \<and>
    (opcode = PKT3_SET_CONTEXT_REG \<or> opcode = PKT3_SET_SH_REG)")
  case True
  obtain dw cfg' where m: "ac_titan_remap_dw env cfg base ((reg - base) div 4) = (dw, cfg')" by fastforce
  then obtain h where "cfg' = cfg\<lparr>regmap_hits := h\<rparr>"
    using remap_hits[of env cfg base "(reg - base) div 4"] by auto
  moreover have "dw = pm4_dw env cfg reg"
    using m remap_dw_quiet[of env cfg base "(reg - base) div 4"] True assms(1) by (simp add: pm4_dw_def)
  ultimately show ?thesis
    using True assms m by (intro exI[of _ h] exI[of _ "dw * 4"]) (simp add: ac_pm4_set_reg_def)
next
  case False
  then have "pm4_dw env cfg reg = (reg - base) div 4"
    using assms(1) by (auto simp: pm4_dw_def ac_titan_remap_dw_quiet_def)
  then show ?thesis
    using False assms by (intro exI[of _ "regmap_hits cfg"] exI[of _ "reg - base"]) (auto simp: ac_pm4_set_reg_def)
qed

text \<open>The conditions on a list of writes: registers of the four spaces, reached at distinct addresses.\<close>

definition addressed :: "c_env \<Rightarrow> titan_cfg \<Rightarrow> (nat \<times> dword) list \<Rightarrow> (nat \<times> dword) list" where
  "addressed env cfg = map (\<lambda>(r, v). (pm4_addr env cfg r, v))"

definition writes_ok :: "c_env \<Rightarrow> titan_cfg \<Rightarrow> ac_pm4_state \<Rightarrow> (nat \<times> dword) list \<Rightarrow> bool" where
  "writes_ok env cfg s rvs \<longleftrightarrow>
     list_all (\<lambda>(r, _). reg_space r \<noteq> None \<and> \<not> is_privileged_reg s r \<and> pm4_dw env cfg r < 0x10000) rvs \<and>
     distinct (map fst (addressed env cfg rvs))"

definition builder_inv ::
    "amd_gfx_level \<Rightarrow> (nat \<Rightarrow> nat \<Rightarrow> nat) \<Rightarrow> c_env \<Rightarrow> titan_cfg \<Rightarrow> ac_pm4_state \<Rightarrow>
     titan_cfg \<times> ac_pm4_state \<Rightarrow> (nat \<times> dword) list \<Rightarrow> bool" where
  "builder_inv gfx gen env cfg0 s0 = (\<lambda>(cfg, s) ws.
     pm4_inv gfx gen s (addressed env cfg0 ws) \<and> frame s0 s \<and> (\<exists>h. cfg = cfg0\<lparr>regmap_hits := h\<rparr>))"

lemma is_privileged_frame: "frame s0 s \<Longrightarrow> is_privileged_reg s = is_privileged_reg s0"
  unfolding frame_def by (rule ext) (simp only: is_privileged_reg_def)

lemma builder_step:
  assumes "builder_inv gfx gen env cfg0 s0 st ws" "writes_ok env cfg0 s0 (ws @ [w])"
    and "ndw (snd st) + 6 \<le> max_dw s0" "max_dw s0 \<le> 0x4000"
  shows "\<exists>st'. ac_pm4_set_reg rn env (fst w) (snd w) st = Some st' \<and>
    builder_inv gfx gen env cfg0 s0 st' (ws @ [w]) \<and> ndw (snd st') \<le> ndw (snd st) + 5"
proof -
  obtain cfg s r v where st: "st = (cfg, s)" "w = (r, v)" by fastforce
  obtain h where i: "pm4_inv gfx gen s (addressed env cfg0 ws)" "frame s0 s" "cfg = cfg0\<lparr>regmap_hits := h\<rparr>"
    using assms(1) by (auto simp: builder_inv_def st)
  obtain opcode base where sp: "reg_space r = Some (opcode, base)"
    using assms(2) by (auto simp: writes_ok_def st)
  have np: "\<not> is_privileged_reg s r" and dw: "pm4_dw env cfg0 r < 0x10000"
    and d: "distinct (map fst (addressed env cfg0 ws))"
    using assms(2) is_privileged_frame[OF i(2)] by (auto simp: writes_ok_def st addressed_def)
  obtain h' off where off: "off div 4 = pm4_dw env cfg r" "ac_pm4_set_reg rn env r v (cfg, s) =
      map_option (Pair (cfg\<lparr>regmap_hits := h'\<rparr>))
        (ac_pm4_set_reg_custom rn off v (regular_opcode_to_pairs s opcode) 0 s)"
    using set_reg_as_custom[OF sp np] by blast
  obtain form where f: "buildable (regular_opcode_to_pairs s opcode) form"
    using regular_opcode_buildable(1)[OF sp] by blast
  have "max_dw s = max_dw s0" using i(2) by (simp add: frame_def)
  then obtain s' where "ac_pm4_set_reg_custom rn off v (regular_opcode_to_pairs s opcode) 0 s = Some s'"
      "frame s s'" "ndw s' \<le> ndw s + 5"
      "pm4_inv gfx gen s' (addressed env cfg0 ws @ [(op_base (regular_opcode_to_pairs s opcode) + 4 * (off div 4), v)])"
    using set_reg_custom_inv[OF i(1) _ _ f _ d, of off 0 rn v] assms(3,4) dw off(1) i(3) st by auto
  then show ?thesis
    using off i frame_trans[OF i(2)] regular_opcode_buildable(2)[OF sp, of s]
    by (auto simp: st builder_inv_def addressed_def pm4_addr_def sp)
qed

interpretation pm4_builder: reg_builder
  "\<lambda>w. ac_pm4_set_reg rn env (fst w) (snd w)" "builder_inv gfx gen env cfg0 s0"
  "\<lambda>ws. writes_ok env cfg0 s0 ws \<and> max_dw s0 \<le> 0x4000" "\<lambda>st. ndw (snd st)" "max_dw s0" 5 6
  for rn env gfx gen cfg0 s0
proof
  fix ws and w :: "nat \<times> dword"
  assume "writes_ok env cfg0 s0 (ws @ [w]) \<and> max_dw s0 \<le> 0x4000"
  then show "writes_ok env cfg0 s0 ws \<and> max_dw s0 \<le> 0x4000" by (simp add: writes_ok_def addressed_def)
next
  fix s ws and w :: "nat \<times> dword"
  assume "builder_inv gfx gen env cfg0 s0 s ws" "writes_ok env cfg0 s0 (ws @ [w]) \<and> max_dw s0 \<le> 0x4000"
    "ndw (snd s) + 6 \<le> max_dw s0"
  then show "\<exists>s'. ac_pm4_set_reg rn env (fst w) (snd w) s = Some s' \<and>
      builder_inv gfx gen env cfg0 s0 s' (ws @ [w]) \<and> ndw (snd s') \<le> ndw (snd s) + 5"
    using builder_step by blast
qed simp

text \<open>The calls a state function makes: one \<open>ac_pm4_set_reg\<close> per register, then \<open>ac_pm4_finalize\<close>.\<close>

primrec pm4_set_regs ::
    "(nat \<Rightarrow> string) \<Rightarrow> c_env \<Rightarrow> (nat \<times> dword) list \<Rightarrow> titan_cfg \<times> ac_pm4_state \<Rightarrow>
     (titan_cfg \<times> ac_pm4_state) option" where
  "pm4_set_regs rn env [] st = Some st"
| "pm4_set_regs rn env (w # ws) st =
     do { st' \<leftarrow> ac_pm4_set_reg rn env (fst w) (snd w) st; pm4_set_regs rn env ws st' }"

definition pm4_build ::
    "(nat \<Rightarrow> string) \<Rightarrow> c_env \<Rightarrow> titan_cfg \<Rightarrow> ac_pm4_state \<Rightarrow> (nat \<times> dword) list \<Rightarrow> ac_pm4_state option" where
  "pm4_build rn env cfg s ws =
     do { (_, s1) \<leftarrow> pm4_set_regs rn env ws (cfg, s); ac_pm4_finalize rn s1 }"

lemma pm4_set_regs_run: "pm4_set_regs rn env ws st = pm4_builder.run rn env ws st"
  by (induction ws arbitrary: st) (auto simp: pm4_builder.run.simps)

lemma pm4_set_regs_inv:
  assumes "pkt_ok s0 [] NoPkt" "writes_ok env cfg s0 ws" "5 * length ws + 1 \<le> max_dw s0" "max_dw s0 \<le> 0x4000"
  shows "\<exists>cfg1 s1. pm4_set_regs rn env ws (cfg, s0) = Some (cfg1, s1) \<and>
    pm4_inv gfx gen s1 (addressed env cfg ws) \<and> frame s0 s1 \<and> ndw s1 \<le> length ws * 5"
proof -
  have n0: "ndw s0 = 0" using assms(1) length_stream[of s0] by simp
  have "pm4_inv gfx gen s0 []"
    using pm4_invI[of gfx gen "[]" "[]" "[]" s0 NoPkt] assms(1) by (simp add: regs_after_def write_all_def)
  then have i0: "builder_inv gfx gen env cfg s0 (cfg, s0) []"
    unfolding builder_inv_def addressed_def by (auto intro: exI[of _ "regmap_hits cfg"])
  have "\<exists>st. pm4_builder.run rn env ws (cfg, s0) = Some st \<and> builder_inv gfx gen env cfg s0 st ([] @ ws) \<and>
      ndw (snd st) \<le> ndw (snd (cfg, s0)) + length ws * 5"
    using assms(2-4) n0 by (intro pm4_builder.run_inv[OF i0]) simp_all
  then obtain cfg1 s1 where "pm4_set_regs rn env ws (cfg, s0) = Some (cfg1, s1)"
      "builder_inv gfx gen env cfg s0 (cfg1, s1) ws" "ndw s1 \<le> length ws * 5"
    using n0 by (auto simp: pm4_set_regs_run)
  then show ?thesis by (auto simp: builder_inv_def)
qed

lemma pm4_build_closed:
  assumes "pkt_ok s0 [] NoPkt" "writes_ok env cfg s0 ws" "5 * length ws + 1 \<le> max_dw s0" "max_dw s0 \<le> 0x4000"
  shows "\<exists>s' evs. pm4_build rn env cfg s0 ws = Some s' \<and> frame s0 s' \<and> ndw s' \<le> max_dw s' \<and>
    closed gfx gen (stream s') evs \<and> regs_after evs = write_all (addressed env cfg ws)"
proof -
  obtain cfg1 s1 where s1: "pm4_set_regs rn env ws (cfg, s0) = Some (cfg1, s1)"
      "pm4_inv gfx gen s1 (addressed env cfg ws)" "frame s0 s1" "ndw s1 \<le> length ws * 5"
    using pm4_set_regs_inv[OF assms] by blast
  obtain s' evs where "ac_pm4_finalize rn s1 = Some s'" "frame s1 s'" "ndw s' \<le> ndw s1"
      "closed gfx gen (stream s') evs" "regs_after evs = write_all (addressed env cfg ws)"
    using finalize_inv[OF s1(2), of rn] assms(2-4) s1(4) by (auto simp: writes_ok_def)
  then show ?thesis
    using s1 frame_trans[OF s1(3)] assms(3) by (auto simp: pm4_build_def frame_def)
qed

lemma create_sized_fresh:
  assumes "ac_pm4_create_sized True gpu sqtt n compute = Some s0" "n \<le> 0x4000"
  shows "pkt_ok s0 [] NoPkt" "max_dw s0 \<le> 0x4000" "is_compute_queue s0 = compute"
proof -
  have s0: "s0 = pm4_calloc\<lparr>info := gpu, debug_sqtt := sqtt, is_compute_queue := compute, max_dw := max n 64\<rparr>"
    using assms(1) by (simp add: ac_pm4_create_sized_def ac_pm4_clear_state_def pm4_calloc_def
        PM4_ARRAY_SIZE_def Let_def)
  have "set_packet_kind 0 = None" by (simp add: set_packet_kind_def pkt3_set_defs)
  then show "pkt_ok s0 [] NoPkt" "max_dw s0 \<le> 0x4000" "is_compute_queue s0 = compute"
    using assms(2) by (simp_all add: s0 stream_def pm4_calloc_def)
qed

lemma pairs_kinds:
  "opcode_is_pairs op \<Longrightarrow> \<exists>base. set_packet_kind op = Some (Pairs, base)"
  "opcode_is_pairs_packed op \<Longrightarrow> \<exists>base. set_packet_kind op = Some (Packed, base)"
  by (auto simp: opcode_is_pairs_def opcode_is_pairs_packed_def set_packet_kind_def pkt3_set_defs)

lemma inv_header_cam:
  assumes "pm4_inv gfx gen s ws" "opcode_is_pairs (last_opcode s) \<or> opcode_is_pairs_packed (last_opcode s)"
  shows "PKT3_RESET_FILTER_CAM_G (pm4 s (last_pm4 s)) \<longleftrightarrow> \<not> is_compute_queue s"
proof -
  obtain "done" p where p: "pkt_ok s done p" using assms(1) by (auto simp: pm4_inv_def)
  have "\<exists>count body. stream s = done @ set_header (last_opcode s) count (need_reset_filter_cam s) # body \<and>
      last_pm4 s = length done"
    using p assms(2) pairs_kinds[of "last_opcode s"]
    by (cases p) (auto simp: buildable_def enc_pairs_def packed_done_def enc_packed_def)
  then obtain count body where st: "stream s = done @ set_header (last_opcode s) count (need_reset_filter_cam s) # body"
      and l: "last_pm4 s = length done" by blast
  have "pm4 s (last_pm4 s) = set_header (last_opcode s) count (need_reset_filter_cam s)"
  proof -
    have "length done < ndw s" using arg_cong[OF st, of length] unfolding length_stream by simp
    then show ?thesis using stream_nth[of "last_pm4 s" s] by (simp add: l st)
  qed
  then show ?thesis using need_cam_packed[of s] assms(2) by auto
qed

text \<open>Writes to one register space of a chip that packs it go into one packed packet, whether or not they
  repeat a register.\<close>

definition packable :: "c_env \<Rightarrow> titan_cfg \<Rightarrow> ac_pm4_state \<Rightarrow> nat \<Rightarrow> nat \<Rightarrow> (nat \<times> dword) list \<Rightarrow> bool" where
  "packable env cfg s opcode base ws \<longleftrightarrow>
     list_all (\<lambda>(r, _). reg_space r = Some (opcode, base) \<and> \<not> is_privileged_reg s r \<and> pm4_dw env cfg r < 0x10000) ws"

lemma packed_writes_next:
  assumes "pkt_ok s done (PackedPkt (regular_opcode_to_pairs s opcode) es)" "packable env cfg s opcode base ws"
    and "ndw s + 5 * length ws + 1 \<le> max_dw s" "max_dw s \<le> 0x4000"
  shows "\<exists>cfg' s'. pm4_set_regs rn env ws (cfg, s) = Some (cfg', s') \<and>
    pkt_ok s' done (PackedPkt (regular_opcode_to_pairs s opcode) (es @ map (\<lambda>(r, v). (pm4_dw env cfg r, v)) ws))"
  using assms
proof (induction ws arbitrary: s cfg es)
  case (Cons w ws)
  obtain r v where w: "w = (r, v)" by fastforce
  have r: "reg_space r = Some (opcode, base)" "\<not> is_privileged_reg s r" "pm4_dw env cfg r < 0x10000"
    using Cons.prems(2) by (simp_all add: packable_def w)
  obtain h off where off: "off div 4 = pm4_dw env cfg r" "ac_pm4_set_reg rn env r v (cfg, s) =
      map_option (Pair (cfg\<lparr>regmap_hits := h\<rparr>)) (ac_pm4_set_reg_custom rn off v (regular_opcode_to_pairs s opcode) 0 s)"
    using set_reg_as_custom[OF r(1,2)] by blast
  obtain t where t: "ac_pm4_set_reg_custom rn off v (regular_opcode_to_pairs s opcode) 0 s = Some t" "frame s t" "ndw t \<le> ndw s + 5"
      "pkt_ok t done (PackedPkt (regular_opcode_to_pairs s opcode) (es @ [(off div 4, v)]))"
    using set_packed_next[OF Cons.prems(1) _ Cons.prems(4), of off] Cons.prems(3) r(3) off(1) by auto
  have fr: "regular_opcode_to_pairs t = regular_opcode_to_pairs s" "max_dw t = max_dw s"
    using t(2) by (auto simp: frame_def fun_eq_iff regular_opcode_to_pairs_def)
  have "packable env (cfg\<lparr>regmap_hits := h\<rparr>) t opcode base ws"
    using Cons.prems(2) is_privileged_frame[OF t(2)] by (simp add: packable_def)
  then show ?case
    using Cons.IH[of t "es @ [(off div 4, v)]" "cfg\<lparr>regmap_hits := h\<rparr>"] t off Cons.prems(3,4) fr by (auto simp: w)
qed auto

lemma packed_writes:
  assumes "pkt_ok s [] NoPkt" "packable env cfg s opcode base ws" "ws \<noteq> []" "5 * length ws + 1 \<le> max_dw s" "max_dw s \<le> 0x4000"
    and "opcode_is_pairs_packed (regular_opcode_to_pairs s opcode)"
  shows "\<exists>cfg' s' done evs. pm4_set_regs rn env ws (cfg, s) = Some (cfg', s') \<and> closed gfx gen done evs \<and>
    pkt_ok s' done (PackedPkt (regular_opcode_to_pairs s opcode) (map (\<lambda>(r, v). (pm4_dw env cfg r, v)) ws))"
proof -
  obtain r v ws' where w: "ws = (r, v) # ws'" using assms(3) by (cases ws) auto
  let ?op = "regular_opcode_to_pairs s opcode"
  have r: "reg_space r = Some (opcode, base)" "\<not> is_privileged_reg s r" "pm4_dw env cfg r < 0x10000"
    using assms(2) by (simp_all add: packable_def w)
  obtain h off where off: "off div 4 = pm4_dw env cfg r" "ac_pm4_set_reg rn env r v (cfg, s) =
      map_option (Pair (cfg\<lparr>regmap_hits := h\<rparr>)) (ac_pm4_set_reg_custom rn off v ?op 0 s)"
    using set_reg_as_custom[OF r(1,2)] by blast
  obtain form where form: "buildable ?op form" using regular_opcode_buildable(1)[OF r(1)] by blast
  then have b: "buildable ?op Packed" using assms(6) pairs_kinds(2)[OF assms(6)] by (auto simp: buildable_def)
  have inv: "pm4_inv gfx gen s []"
    using pm4_invI[of gfx gen "[]" "[]" "[]" s NoPkt] assms(1) by (simp add: regs_after_def write_all_def)
  have n0: "ndw s = 0" using assms(1) length_stream[of s] by simp
  have new: "?op \<noteq> last_opcode s" using assms(1) buildable_kind[OF b] by auto
  obtain t "done" evs where t: "ac_pm4_set_reg_custom rn off v ?op 0 s = Some t" "frame s t" "ndw t \<le> ndw s + 5"
      "closed gfx gen done evs" "pkt_ok t done (PackedPkt ?op [(off div 4, v)])"
    using set_packed_first[OF inv _ assms(5) b _ _ new, of off rn v] assms(4) r(3) off(1) n0 w by auto
  have fr: "regular_opcode_to_pairs t = regular_opcode_to_pairs s" "max_dw t = max_dw s"
    using t(2) by (auto simp: frame_def fun_eq_iff regular_opcode_to_pairs_def)
  have "packable env (cfg\<lparr>regmap_hits := h\<rparr>) t opcode base ws'"
    using assms(2) is_privileged_frame[OF t(2)] by (simp add: packable_def w)
  then show ?thesis
    using packed_writes_next[of t "done" opcode "[(off div 4, v)]" env "cfg\<lparr>regmap_hits := h\<rparr>" base ws' rn] t off assms(4,5) fr n0
    by (auto simp: w)
qed

text \<open>A packet with complete pairs is closed without a call-back.\<close>

lemma count_complete:
  assumes "last_pm4 s + 4 \<le> ndw s" "(ndw s - last_pm4 s) mod 3 = 2"
  shows "get_packed_reg_count s \<noteq> None"
proof -
  have "ndw s - last_pm4 s - 2 = 3 * ((ndw s - last_pm4 s) div 3)"
    using mult_div_mod_eq[of 3 "ndw s - last_pm4 s"] assms by linarith
  then show ?thesis using assms(1) by (simp add: get_packed_reg_count_def Let_def)
qed

lemma cmd_end_complete:
  assumes "opcode_is_pairs_packed (last_opcode s)" "last_pm4 s + 4 \<le> ndw s" "(ndw s - last_pm4 s) mod 3 = 2"
  shows "\<exists>s'. ac_pm4_cmd_end rn predicate s = Some s' \<and> ndw s' = ndw s \<and> last_pm4 s' = last_pm4 s \<and> last_opcode s' = last_opcode s \<and>
    packed_is_padded s' = packed_is_padded s"
  using assms count_complete[of "write_header predicate s"]
  by (auto simp: ac_pm4_cmd_end.simps[of rn predicate s] Let_def packed_prev_is_reg_value0_def packed_next_is_reg_value1_def)

lemma unat_low16_less: "unat (x AND 0xFFFF :: dword) < 0x10000"
proof -
  have "x AND 0xFFFF \<le> (0xFFFF :: dword)" by (rule word_and_le1)
  then show ?thesis by (simp add: word_le_nat_alt)
qed

section \<open>Concrete states\<close>

text \<open>A GFX11 chip with the packed packets, a fresh state of its graphics queue, no TITAN map.\<close>

definition gfx11_gpu :: radeon_info where
  "gfx11_gpu = \<lparr>gfx_level = GFX11, has_set_context_pairs = False, has_set_context_pairs_packed = True,
     has_set_sh_pairs = False, has_set_sh_pairs_packed = True, has_set_uconfig_pairs = False\<rparr>"

definition no_titan :: titan_cfg where
  "no_titan = \<lparr>regmap_active = False, regmap_level = 0, regmap_suppress = False, regmap_hits = 0, mapovr = []\<rparr>"

definition fresh_pm4 :: "bool \<Rightarrow> ac_pm4_state" where
  "fresh_pm4 compute = ac_pm4_clear_state gfx11_gpu False compute (pm4_calloc\<lparr>max_dw := 64\<rparr>)"

lemmas pm4_eval =
  pm4_build_def ac_pm4_set_reg_def reg_space_def SI_CONFIG_REG_OFFSET_def SI_CONFIG_REG_END_def
  reg_space_defs is_privileged_reg_def regular_opcode_to_pairs_def pkt3_set_defs
  ac_pm4_set_reg_custom_def set_reg_body_def Let_def set_reg_open_def ac_pm4_cmd_begin_def
  ac_pm4_finalize_def opcode_is_pairs_packed_def opcode_is_pairs_def c_assert_def record_pgm_lo_def
  push_def poke_def set_reg_pack_def packed_next_is_reg_offset_pair_def
  packed_next_is_reg_value1_def ac_pm4_cmd_end.simps write_header_def
  packed_prev_is_reg_value0_def get_packed_reg_dw_offsetN_def get_packed_reg_valueN_def
  get_packed_reg_valueN_idx_def get_packed_reg_count_def fresh_pm4_def ac_pm4_clear_state_def
  pm4_calloc_def gfx11_gpu_def no_titan_def need_reset_filter_cam_def finalize_packed_def
  pairs_packed_opcode_to_regular_def u32_def PKT3_def pkt_field_defs ac_pm4_cmd_add_def

section \<open>Properties\<close>

text \<open>C1: A state built from a fresh one by setting registers at distinct addresses, each in one of the
  four register spaces, not privileged and with an offset below \<open>2 ^ 16\<close>, and finalizing never fails an
  assertion while five dwords per register (and one more), at most 0x4000 in all, are available,
  never outgrows the array, and its command stream, read by the repository's own
  parser, leaves in every register file exactly what setting the registers one after the other
  leaves, whichever of the three packet forms the chip uses.\<close>

theorem pm4_build_roundtrip:
  assumes "ac_pm4_create_sized True gpu sqtt n compute = Some s0"
    and "writes_ok env cfg s0 ws" "5 * length ws + 1 \<le> max_dw s0" "n \<le> 0x4000"
  shows "\<exists>s'. pm4_build rn env cfg s0 ws = Some s' \<and> ndw s' \<le> max_dw s' \<and>
    (\<forall>m. regs_after (parse_gfx_compute_ib gfx gen (ac_pm4_emit_commands [] s')) m =
         write_all (addressed env cfg ws) m)"
proof -
  note create_sized_fresh[OF assms(1,4)]
  then obtain s' evs where "pm4_build rn env cfg s0 ws = Some s'" "ndw s' \<le> max_dw s'"
      "closed gfx gen (stream s') evs" "regs_after evs = write_all (addressed env cfg ws)"
    using pm4_build_closed[OF _ assms(2,3), of rn gfx gen] by blast
  then show ?thesis
    using closed_parse[of gfx gen "stream s'" evs] by (auto simp: ac_pm4_emit_commands_def stream_def)
qed

text \<open>C1 at a GFX11 chip and three shader registers that are not consecutive.\<close>

theorem pm4_build_roundtrip_witness:
  "\<exists>s'. pm4_build (\<lambda>_. []) (\<lambda>_. None) no_titan (fresh_pm4 False) [(0xB010, 1), (0xB020, 2), (0x28004, 3)] =
      Some s' \<and> ndw s' \<le> max_dw s' \<and>
    (\<forall>m. regs_after (parse_gfx_compute_ib GFX11 (\<lambda>_ _. 0) (ac_pm4_emit_commands [] s')) m =
         write_all (addressed (\<lambda>_. None) no_titan [(0xB010, 1), (0xB020, 2), (0x28004, 3)]) m)"
proof (rule pm4_build_roundtrip[of gfx11_gpu False 64 False])
  show "ac_pm4_create_sized True gfx11_gpu False 64 False = Some (fresh_pm4 False)"
    by (simp add: ac_pm4_create_sized_def fresh_pm4_def PM4_ARRAY_SIZE_def)
  show "writes_ok (\<lambda>_. None) no_titan (fresh_pm4 False) [(0xB010, 1), (0xB020, 2), (0x28004, 3)]"
    by (simp add: writes_ok_def addressed_def pm4_addr_def pm4_dw_def pm4_eval ac_titan_remap_dw_quiet_def)
qed (simp_all add: pm4_eval)

text \<open>C30: While registers are being set, the open packet carries RESET_FILTER_CAM exactly when it is
  one of the SET_*_PAIRS* forms of a state created for the graphics queue: such a packet of a
  state created with \<open>is_compute_queue\<close> never does. The comment in \<open>ac_pm4_cmd_end\<close> asks for the bit on the
  graphics queue; sid.h asks for it on every such packet, which the code does not do.\<close>

theorem pm4_pairs_filter_cam:
  assumes "ac_pm4_create_sized True gpu sqtt n compute = Some s0"
    and "writes_ok env cfg s0 ws" "5 * length ws + 1 \<le> max_dw s0" "n \<le> 0x4000"
    and "pm4_set_regs rn env ws (cfg, s0) = Some (cfg1, s1)"
    and "opcode_is_pairs (last_opcode s1) \<or> opcode_is_pairs_packed (last_opcode s1)"
  shows "PKT3_RESET_FILTER_CAM_G (pm4 s1 (last_pm4 s1)) \<longleftrightarrow> \<not> compute"
proof -
  note f = create_sized_fresh[OF assms(1,4)]
  have "pm4_inv GFX11 (\<lambda>_ _. 0) s1 (addressed env cfg ws)" "frame s0 s1"
    using pm4_set_regs_inv[OF f(1) assms(2,3) f(2), of rn GFX11 "\<lambda>_ _. 0"] assms(5) by auto
  then show ?thesis using inv_header_cam[OF _ assms(6)] f(3) by (simp add: frame_def)
qed

text \<open>C30 at one context register of a GFX11 chip.\<close>

theorem pm4_pairs_filter_cam_witness:
  "\<exists>cfg1 s1. pm4_set_regs (\<lambda>_. []) (\<lambda>_. None) [(0x28004, 3)] (no_titan, fresh_pm4 True) = Some (cfg1, s1) \<and>
     opcode_is_pairs_packed (last_opcode s1) \<and> \<not> PKT3_RESET_FILTER_CAM_G (pm4 s1 (last_pm4 s1))"
proof -
  have w: "writes_ok (\<lambda>_. None) no_titan (fresh_pm4 True) [(0x28004, 3)]"
    by (simp add: writes_ok_def addressed_def pm4_addr_def pm4_dw_def pm4_eval ac_titan_remap_dw_quiet_def)
  have c: "ac_pm4_create_sized True gfx11_gpu False 64 True = Some (fresh_pm4 True)"
    by (simp add: ac_pm4_create_sized_def fresh_pm4_def PM4_ARRAY_SIZE_def)
  obtain cfg1 s1 where s: "pm4_set_regs (\<lambda>_. []) (\<lambda>_. None) [(0x28004, 3)] (no_titan, fresh_pm4 True) = Some (cfg1, s1)"
      "last_opcode s1 = 0xB9"
    by (simp add: pm4_eval)
  then have "opcode_is_pairs_packed (last_opcode s1)" by (simp add: opcode_is_pairs_packed_def pkt3_set_defs)
  then show ?thesis
    using pm4_pairs_filter_cam[OF c w _ _ s(1)] s(1) by (auto simp: fresh_pm4_def ac_pm4_clear_state_def)
qed

text \<open>C32: \<open>ac_pm4_cmd_end\<close> and \<open>ac_pm4_set_reg_custom\<close> call each other to pad a packed packet. On an open
  packet that is not marked as padded, with at least one register, complete pairs or one value too few, and room for two
  dwords, the recursion ends and no assertion fails; at most one dword is added, the pairs are complete, and the
  packet is marked as padded if a register was added.\<close>

theorem pm4_padding_terminates:
  assumes "\<not> packed_is_padded s" "last_pm4 s + 4 \<le> ndw s" "(ndw s - last_pm4 s) mod 3 \<noteq> 0" "ndw s + 2 \<le> max_dw s"
  shows "\<exists>s'. ac_pm4_cmd_end rn predicate s = Some s' \<and> last_opcode s' = last_opcode s \<and> last_pm4 s' = last_pm4 s \<and>
    (if opcode_is_pairs_packed (last_opcode s)
     then ndw s' = ndw s + of_bool (packed_is_padded s') \<and> (ndw s' - last_pm4 s') mod 3 = 2 else ndw s' = ndw s)"
proof (cases "opcode_is_pairs_packed (last_opcode s) \<and> packed_prev_is_reg_value0 s")
  case True
  let ?s1 = "write_header predicate s"
  have v0: "packed_prev_is_reg_value0 ?s1" and m: "(ndw s - last_pm4 s) mod 3 = 1"
    using True by (simp_all add: packed_prev_is_reg_value0_def packed_next_is_reg_value1_def)
  obtain off v where get: "get_packed_reg_dw_offsetN ?s1 0 = Some off" "get_packed_reg_valueN ?s1 0 = Some v" "off < 0x10000"
    using assms(2) unat_low16_less by (auto simp: get_packed_reg_dw_offsetN_def get_packed_reg_valueN_def get_packed_reg_valueN_idx_def)
  let ?t = "push v (set_reg_pack off (?s1\<lparr>last_reg := off, last_idx := 0\<rparr>))"
  have t: "set_reg_body rn (off * 4) v (last_opcode ?s1) 0 ?s1 = Some ?t"
    by (rule set_reg_body_continue) (use True assms(4) get(3) in simp_all)
  have "packed_next_is_reg_value1 ?s1" using v0 by (simp add: packed_prev_is_reg_value0_def)
  then have n: "ndw ?t = ndw s + 1" "last_pm4 ?t = last_pm4 s" "last_opcode ?t = last_opcode s"
    using assms(1) m by (simp_all add: set_reg_pack_def Let_def packed_next_is_reg_offset_pair_def packed_next_is_reg_value1_def)
  obtain t' where t': "ac_pm4_cmd_end rn False ?t = Some t'" "ndw t' = ndw s + 1" "last_pm4 t' = last_pm4 s" "last_opcode t' = last_opcode s"
    using cmd_end_complete[of ?t rn False] n True m assms(2) by (auto simp: mod_Suc Suc_diff_le)
  have "get_packed_reg_count (t'\<lparr>packed_is_padded := True\<rparr>) \<noteq> None"
    using t' m assms(2) by (simp add: count_complete mod_Suc Suc_diff_le)
  then show ?thesis
    unfolding ac_pm4_cmd_end.simps[of rn predicate s] Let_def using True v0 get t t' m assms(2) by (auto simp: mod_Suc Suc_diff_le)
next
  case False
  show ?thesis
  proof (cases "opcode_is_pairs_packed (last_opcode s)")
    case True
    then have "(ndw s - last_pm4 s) mod 3 \<noteq> 1" using False assms(2) by (auto simp: packed_prev_is_reg_value0_def packed_next_is_reg_value1_def)
    moreover have "(ndw s - last_pm4 s) mod 3 < 3" by simp
    ultimately have "(ndw s - last_pm4 s) mod 3 = 2" using assms(3) by linarith
    then obtain s' where "ac_pm4_cmd_end rn predicate s = Some s'" "ndw s' = ndw s" "last_pm4 s' = last_pm4 s"
        "last_opcode s' = last_opcode s" "packed_is_padded s' = packed_is_padded s"
      using cmd_end_complete[OF True assms(2), of rn predicate] by blast
    then show ?thesis using \<open>(ndw s - last_pm4 s) mod 3 = 2\<close> assms(1) True by (intro exI[of _ s']) simp
  qed (simp add: ac_pm4_cmd_end.simps[of rn predicate s])
qed

text \<open>C32 at a packed packet that holds one register.\<close>

theorem pm4_padding_terminates_witness:
  "\<exists>s'. ac_pm4_cmd_end (\<lambda>_. []) False ((fresh_pm4 False)\<lparr>last_opcode := 0xBB, ndw := 4\<rparr>) = Some s' \<and> (ndw s' - last_pm4 s') mod 3 = 2"
  using pm4_padding_terminates[of "(fresh_pm4 False)\<lparr>last_opcode := 0xBB, ndw := 4\<rparr>" "\<lambda>_. []" False]
  by (auto simp: fresh_pm4_def ac_pm4_clear_state_def pm4_calloc_def opcode_is_pairs_packed_def pkt3_set_defs)

text \<open>C38: The padding of a packed packet writes the packet's first register again with its first
  value. Whenever an odd number of registers of one space, three or more, are set in a row on a chip that packs that space and
  the last of them is the first one again, the finished stream leaves in it the value of the first
  write, not of the last.\<close>

theorem pm4_duplicate_write_lost:
  assumes "ac_pm4_create_sized True gpu sqtt n compute = Some s0" "n \<le> 0x4000" "5 * length ws + 1 \<le> max_dw s0"
    and "opcode_is_pairs_packed (regular_opcode_to_pairs s0 opcode)" "packable env cfg s0 opcode base ws"
    and "odd (length ws)" "3 \<le> length ws" "pm4_addr env cfg (fst (last ws)) = pm4_addr env cfg (fst (hd ws))"
  shows "\<exists>s'. pm4_build rn env cfg s0 ws = Some s' \<and>
    (\<forall>m. regs_after (parse_gfx_compute_ib gfx gen (ac_pm4_emit_commands [] s')) m (pm4_addr env cfg (fst (hd ws))) = Some (snd (hd ws)))"
proof -
  let ?op = "regular_opcode_to_pairs s0 opcode" and ?es = "map (\<lambda>(r, v). (pm4_dw env cfg r, v)) ws"
  note f = create_sized_fresh[OF assms(1,2)]
  have ne: "ws \<noteq> []" using assms(7) by auto
  obtain cfg1 s1 "done" evs where s1: "pm4_set_regs rn env ws (cfg, s0) = Some (cfg1, s1)" "closed gfx gen done evs"
      "pkt_ok s1 done (PackedPkt ?op ?es)"
    using packed_writes[OF f(1) assms(5) ne assms(3) f(2) assms(4)] by blast
  have sp: "reg_space (fst w) = Some (opcode, base)" if "w \<in> set ws" for w
    using that assms(5) by (auto simp: packable_def list_all_iff)
  have base: "op_base ?op = base" using regular_opcode_buildable(2)[OF sp[OF hd_in_set[OF ne]]] .
  have hd: "hd ?es = (pm4_dw env cfg (fst (hd ws)), snd (hd ws))" "fst (last ?es) = fst (hd ?es)"
    using ne assms(8) sp[OF hd_in_set[OF ne]] sp[OF last_in_set[OF ne]]
    by (simp_all add: hd_map last_map case_prod_unfold pm4_addr_def)
  have nc: "\<not> consecutive ?es"
  proof
    assume "consecutive ?es"
    then have "fst (?es ! (length ws - 1)) = fst (hd ?es) + (length ws - 1)" using assms(7) by (simp add: consecutive_def)
    then show False using hd(2) ne assms(7) by (simp add: last_conv_nth)
  qed
  have d: "packed_done s1 done (need_reset_filter_cam s1) ?es" "last_opcode s1 = ?op" "buildable ?op Packed" using s1(3) by auto
  obtain s2 where s2: "finalize_packed rn s1 = Some s2" "closed gfx gen (stream s2) (evs @ write_events (pair_writes base (pad ?es)))"
    using finalize_packed_padded[OF d(1) _ s1(2) nc, of rn] d(2,3) base by auto
  obtain k where k: "record_pgm_lo rn s2 = s2\<lparr>spi_shader_pgm_lo_reg := k\<rparr>" using record_pgm_lo_spec by blast
  let ?s' = "s2\<lparr>spi_shader_pgm_lo_reg := k\<rparr>"
  have b: "pm4_build rn env cfg s0 ws = Some ?s'"
    using s1(1) s2(1) k d assms(4) by (simp add: pm4_build_def ac_pm4_finalize_def)
  have "pad ?es = ?es @ [hd ?es]" using assms(6) by (simp add: pad_def)
  then have "regs_after (evs @ write_events (pair_writes base (pad ?es))) m (base + 4 * fst (hd ?es)) = Some (snd (hd ?es))" for m
    by (simp add: regs_after_append regs_after_write_events pair_writes_def write_all_append case_prod_unfold) (simp add: write_all_def)
  moreover have "pm4_addr env cfg (fst (hd ws)) = base + 4 * fst (hd ?es)" using hd sp[OF hd_in_set[OF ne]] by (simp add: pm4_addr_def)
  moreover have "parse_gfx_compute_ib gfx gen (ac_pm4_emit_commands [] ?s') = evs @ write_events (pair_writes base (pad ?es))"
    using closed_parse[OF s2(2)] by (simp add: ac_pm4_emit_commands_def stream_def)
  ultimately show ?thesis using b hd(1) by (intro exI[of _ ?s']) simp
qed

text \<open>C38 at three writes of shader registers of a GFX11 chip, the third to the register of the first.\<close>

theorem pm4_duplicate_write_lost_witness:
  "\<exists>s'. pm4_build (\<lambda>_. []) (\<lambda>_. None) no_titan (fresh_pm4 False) [(0xB010, 1), (0xB020, 2), (0xB010, 3)] = Some s' \<and>
     regs_after (parse_gfx_compute_ib GFX11 (\<lambda>_ _. 0) (ac_pm4_emit_commands [] s')) Map.empty 0xB010 = Some 1"
proof -
  have c: "ac_pm4_create_sized True gfx11_gpu False 64 False = Some (fresh_pm4 False)"
    by (simp add: ac_pm4_create_sized_def fresh_pm4_def PM4_ARRAY_SIZE_def)
  have p: "packable (\<lambda>_. None) no_titan (fresh_pm4 False) PKT3_SET_SH_REG SI_SH_REG_OFFSET [(0xB010, 1), (0xB020, 2), (0xB010, 3)]"
    by (simp add: packable_def pm4_dw_def pm4_eval ac_titan_remap_dw_quiet_def)
  have o: "opcode_is_pairs_packed (regular_opcode_to_pairs (fresh_pm4 False) PKT3_SET_SH_REG)" by (simp add: pm4_eval)
  have a: "pm4_addr (\<lambda>_. None) no_titan 0xB010 = 0xB010" by (simp add: pm4_addr_def pm4_dw_def pm4_eval ac_titan_remap_dw_quiet_def)
  show ?thesis
    using pm4_duplicate_write_lost[OF c _ _ o p, of "\<lambda>_. []" GFX11 "\<lambda>_ _. 0"] a
    by (auto simp: fresh_pm4_def ac_pm4_clear_state_def pm4_calloc_def)
qed

text \<open>On the compute queue of a GFX11 chip with packed SH packets, \<open>ac_sqtt_emit_stop\<close> leaves a
  packed packet that sets one register twice: both offsets of its pair are equal, the form that
  sid.h rules out and that \<open>ac_pm4_finalize\<close> is meant to rewrite.\<close>

theorem sqtt_stop_equal_offsets:
  "map_option (\<lambda>(cfg, s). (map_option stream (ac_pm4_finalize (\<lambda>_. []) s)))
     (ac_sqtt_emit_stop (\<lambda>_. []) (\<lambda>_. None) True (no_titan, fresh_pm4 True)) =
   Some (Some [PKT3 PKT3_SET_SH_REG_PAIRS_PACKED 3 False, 2, 0x21E OR push_bit 16 0x21E, 0, 0,
               PKT3 0x46 0 False, 55])"
  by (simp add: ac_sqtt_emit_stop_def pm4_eval stream_def upt_rec[of _ "numeral _"])

end
