(* ===== verification/IdAlloc.thy ===== *)
theory IdAlloc
  imports Prelude
begin

text \<open>
  The ID allocator of util/u_idalloc.c: a growing bitset with a lower bound on the first free
  element, its thread-safe variant \<open>util_idalloc_mt\<close> (one critical section per operation, so an
  operation is one step) and the segmented variant \<open>util_idalloc_sparse\<close>.

  \<open>ids\<close> is the abstraction: the set of IDs in use. The contract of an allocator (an allocated ID
  is fresh, freeing removes exactly one) is the locale \<open>id_allocator\<close>; both \<open>util_idalloc\<close> and
  \<open>util_idalloc_mt\<close> are interpretations of it. IDs and counts are 32-bit unsigned, so the products
  \<open>i * 32 + bit\<close> wrap; the allocator keeps its contract while fewer than \<open>2 ^ 32\<close> IDs are in use, which
  is the bound \<open>cap\<close> of the locale.
\<close>

section \<open>util_idalloc\<close>

text \<open>\<open>num_elements\<close> is the length of \<open>data\<close>.\<close>

record util_idalloc =
  data :: "dword list"
  num_set_elements :: nat
  lowest_free_idx :: nat

definition full :: dword where "full = 0xffffffff"

abbreviation num_elements :: "util_idalloc \<Rightarrow> nat" where "num_elements b \<equiv> length (data b)"

text \<open>\<open>ffs\<close> of the C library.\<close>

definition ffs :: "dword \<Rightarrow> nat" where
  "ffs x = (case find (bit x) [0..<32] of None \<Rightarrow> 0 | Some n \<Rightarrow> n + 1)"

definition util_idalloc_exists :: "util_idalloc \<Rightarrow> nat \<Rightarrow> bool" where
  "util_idalloc_exists b ident \<longleftrightarrow>
     ident div 32 < num_set_elements b \<and> data b ! (ident div 32) AND push_bit (ident mod 32) 1 \<noteq> 0"

definition util_idalloc_resize :: "nat \<Rightarrow> util_idalloc \<Rightarrow> util_idalloc" where
  "util_idalloc_resize n b =
     (if num_elements b < n then b\<lparr>data := data b @ replicate (n - num_elements b) 0\<rparr> else b)"

text \<open>\<open>DIV_ROUND_UP (num, 32)\<close> on 32-bit values.\<close>

definition elements_of :: "nat \<Rightarrow> nat" where "elements_of num = u32 (num + 32 - 1) div 32"

definition util_idalloc_init :: "nat \<Rightarrow> util_idalloc" where
  "util_idalloc_init initial_num_ids =
     util_idalloc_resize (elements_of initial_num_ids)
       \<lparr>data = [], num_set_elements = 0, lowest_free_idx = 0\<rparr>"

definition util_idalloc_alloc :: "util_idalloc \<Rightarrow> nat \<times> util_idalloc" where
  "util_idalloc_alloc b =
     (let n = num_elements b
      in case find (\<lambda>i. data b ! i \<noteq> full) [lowest_free_idx b..<n] of
           Some i \<Rightarrow>
             (let k = ffs (NOT (data b ! i)) - 1
              in (u32 (i * 32 + k),
                  b\<lparr>data := (data b)[i := data b ! i OR push_bit k 1], lowest_free_idx := i,
                    num_set_elements := max (num_set_elements b) (u32 (i + 1))\<rparr>))
         | None \<Rightarrow>
             (let b1 = util_idalloc_resize (u32 (max n 1 * 2)) b
              in (u32 (n * 32),
                  b1\<lparr>lowest_free_idx := n, data := (data b1)[n := data b1 ! n OR 1],
                     num_set_elements := max (num_set_elements b1) (u32 (n + 1))\<rparr>)))"

definition find_free_block :: "util_idalloc \<Rightarrow> nat \<Rightarrow> nat" where
  "find_free_block b start =
     (case find (\<lambda>i. data b ! i = 0) [start..<num_elements b] of
        Some i \<Rightarrow> i | None \<Rightarrow> num_elements b)"

text \<open>The inner \<open>for\<close> of \<open>util_idalloc_alloc_range\<close>: the first index that ends a run of free elements.\<close>

function free_run :: "dword list \<Rightarrow> nat \<Rightarrow> nat \<Rightarrow> nat \<Rightarrow> nat" where
  "free_run d num_alloc base i =
     (if i < length d \<and> i - base < num_alloc \<and> d ! i = 0 then free_run d num_alloc base (i + 1) else i)"
  by pat_completeness auto
termination by (relation "measure (\<lambda>(d, num_alloc, base, i). length d - i)") auto

declare free_run.simps [simp del]

lemma free_run_ge: "i \<le> free_run d num_alloc base i"
proof (induction d num_alloc base i rule: free_run.induct)
  case (1 d num_alloc base i)
  then show ?case by (subst free_run.simps) (auto intro: Suc_leD)
qed

text \<open>The \<open>while (1)\<close> loop: the base it stops with and whether a run was found.\<close>

function find_range :: "dword list \<Rightarrow> nat \<Rightarrow> nat \<Rightarrow> nat \<times> bool" where
  "find_range d num_alloc base =
     (let i = free_run d num_alloc base base
      in if i - base = num_alloc then (base, True)
         else if length d \<le> i then (base, False)
         else find_range d num_alloc (if d ! i = 0 then i else i + 1))"
  by pat_completeness auto
termination
proof (relation "measure (\<lambda>(d, num_alloc, base). length d - base)", goal_cases)
  case (2 d num_alloc base i)
  have "base \<le> i" using free_run_ge 2(1) by simp
  moreover have "d ! i \<noteq> 0 \<or> base < i"
  proof (rule ccontr)
    assume "\<not> (d ! i \<noteq> 0 \<or> base < i)"
    then have "i = base" "d ! base = 0" using \<open>base \<le> i\<close> by auto
    then have "base < free_run d num_alloc base base"
      using 2 free_run_ge[of "base + 1" d num_alloc base] by (subst free_run.simps) auto
    then show False using 2(1) \<open>i = base\<close> by simp
  qed
  ultimately show ?case using 2(3) by auto
qed simp

declare find_range.simps [simp del]

definition mark_range :: "nat \<Rightarrow> nat \<Rightarrow> nat \<Rightarrow> dword list \<Rightarrow> dword list" where
  "mark_range base num_alloc num d =
     (let d1 = fold (\<lambda>i d. d[i := full]) [base..<base + num_alloc - of_bool (num mod 32 \<noteq> 0)] d
      in if num mod 32 \<noteq> 0
         then d1[base + num_alloc - 1 := d1 ! (base + num_alloc - 1) OR mask (num mod 32)] else d1)"

definition util_idalloc_alloc_range :: "nat \<Rightarrow> util_idalloc \<Rightarrow> nat \<times> util_idalloc" where
  "util_idalloc_alloc_range num b =
     (if num = 1 then util_idalloc_alloc b
      else
        let num_alloc = elements_of num;
            n = num_elements b;
            (base, found) = find_range (data b) num_alloc (find_free_block b (lowest_free_idx b));
            b1 = (if found then b else util_idalloc_resize (u32 (n * 2 + num_alloc)) b)
        in (u32 (base * 32),
            b1\<lparr>data := mark_range base num_alloc num (data b1),
               lowest_free_idx := (if lowest_free_idx b1 = base then u32 (base + num div 32)
                                   else lowest_free_idx b1),
               num_set_elements := max (num_set_elements b1) (u32 (base + num_alloc))\<rparr>))"

text \<open>The loop of \<open>util_idalloc_free\<close> that lowers \<open>num_set_elements\<close>.\<close>

fun shrink_set :: "dword list \<Rightarrow> nat \<Rightarrow> nat" where
  "shrink_set d 0 = 0"
| "shrink_set d (Suc n) = (if d ! n = 0 then shrink_set d n else Suc n)"

definition util_idalloc_free :: "nat \<Rightarrow> util_idalloc \<Rightarrow> util_idalloc" where
  "util_idalloc_free ident b =
     (let idx = ident div 32
      in if num_elements b \<le> idx then b
         else
           let d = (data b)[idx := data b ! idx AND NOT (push_bit (ident mod 32) 1)]
           in b\<lparr>lowest_free_idx := min idx (lowest_free_idx b), data := d,
                num_set_elements := (if num_set_elements b = idx + 1
                                     then shrink_set d (num_set_elements b) else num_set_elements b)\<rparr>)"

definition util_idalloc_reserve :: "nat \<Rightarrow> util_idalloc \<Rightarrow> util_idalloc" where
  "util_idalloc_reserve ident b =
     (let idx = ident div 32;
          b1 = (if num_elements b \<le> idx then util_idalloc_resize (u32 ((idx + 1) * 2)) b else b)
      in b1\<lparr>data := (data b1)[idx := data b1 ! idx OR push_bit (ident mod 32) 1],
            num_set_elements := max (num_set_elements b1) (idx + 1)\<rparr>)"

section \<open>util_idalloc_mt\<close>

record util_idalloc_mt =
  buf :: util_idalloc
  skip_zero :: bool

definition util_idalloc_mt_init :: "nat \<Rightarrow> bool \<Rightarrow> util_idalloc_mt" where
  "util_idalloc_mt_init initial_num_ids skip =
     (let b = util_idalloc_init initial_num_ids
      in \<lparr>buf = (if skip then snd (util_idalloc_alloc b) else b), skip_zero = skip\<rparr>)"

definition util_idalloc_mt_init_tc :: util_idalloc_mt where
  "util_idalloc_mt_init_tc = util_idalloc_mt_init (2 ^ 16) True"

definition util_idalloc_mt_alloc :: "util_idalloc_mt \<Rightarrow> nat \<times> util_idalloc_mt" where
  "util_idalloc_mt_alloc m = (let (ident, b) = util_idalloc_alloc (buf m) in (ident, m\<lparr>buf := b\<rparr>))"

definition util_idalloc_mt_free :: "nat \<Rightarrow> util_idalloc_mt \<Rightarrow> util_idalloc_mt" where
  "util_idalloc_mt_free ident m =
     (if ident = 0 \<and> skip_zero m then m else m\<lparr>buf := util_idalloc_free ident (buf m)\<rparr>)"

section \<open>util_idalloc_sparse\<close>

text \<open>The segment array is a list; the code's has \<open>NUM_SEGMENTS\<close> elements.\<close>

definition NUM_SEGMENTS :: nat where "NUM_SEGMENTS = 1024"

definition MAX_IDS_PER_SEGMENT :: nat where "MAX_IDS_PER_SEGMENT = 2 ^ 32 div NUM_SEGMENTS"

definition MAX_ELEMS_PER_SEGMENT :: nat where "MAX_ELEMS_PER_SEGMENT = MAX_IDS_PER_SEGMENT div 32"

definition util_idalloc_sparse_init :: "util_idalloc list" where
  "util_idalloc_sparse_init = replicate NUM_SEGMENTS (util_idalloc_init 1)"

text \<open>The final \<open>assert(0)\<close> is \<^term>\<open>None\<close>.\<close>

definition util_idalloc_sparse_alloc :: "util_idalloc list \<Rightarrow> (nat \<times> util_idalloc list) option" where
  "util_idalloc_sparse_alloc segs =
     (case find (\<lambda>i. lowest_free_idx (segs ! i) < MAX_ELEMS_PER_SEGMENT) [0..<length segs] of
        Some i \<Rightarrow>
          (let (ident, s) = util_idalloc_alloc (segs ! i)
           in Some (u32 (MAX_IDS_PER_SEGMENT * i + ident), segs[i := s]))
      | None \<Rightarrow> None)"

primrec sparse_range_loop :: "nat \<Rightarrow> nat list \<Rightarrow> util_idalloc list \<Rightarrow> (nat \<times> util_idalloc list) option" where
  "sparse_range_loop num [] segs = None"
| "sparse_range_loop num (i # is) segs =
     (if u32 (lowest_free_idx (segs ! i) + elements_of num) \<le> MAX_ELEMS_PER_SEGMENT then
        let (base, s) = util_idalloc_alloc_range num (segs ! i)
        in if u32 (base + num) \<le> MAX_IDS_PER_SEGMENT
           then Some (u32 (MAX_IDS_PER_SEGMENT * i + base), segs[i := s])
           else sparse_range_loop num is
                  (segs[i := fold (\<lambda>j s. util_idalloc_free (u32 (base + j)) s) [0..<num] s])
      else sparse_range_loop num is segs)"

definition util_idalloc_sparse_alloc_range ::
    "nat \<Rightarrow> util_idalloc list \<Rightarrow> (nat \<times> util_idalloc list) option" where
  "util_idalloc_sparse_alloc_range num segs = sparse_range_loop num [0..<length segs] segs"

definition util_idalloc_sparse_free :: "nat \<Rightarrow> util_idalloc list \<Rightarrow> util_idalloc list" where
  "util_idalloc_sparse_free ident segs =
     (let i = ident div MAX_IDS_PER_SEGMENT
      in segs[i := util_idalloc_free (ident mod MAX_IDS_PER_SEGMENT) (segs ! i)])"

definition util_idalloc_sparse_reserve :: "nat \<Rightarrow> util_idalloc list \<Rightarrow> util_idalloc list" where
  "util_idalloc_sparse_reserve ident segs =
     (let i = ident div MAX_IDS_PER_SEGMENT
      in segs[i := util_idalloc_reserve (ident mod MAX_IDS_PER_SEGMENT) (segs ! i)])"

section \<open>The IDs in use\<close>

definition ids :: "util_idalloc \<Rightarrow> nat set" where
  "ids b = {ident. ident div 32 < num_elements b \<and> bit (data b ! (ident div 32)) (ident mod 32)}"

text \<open>
  The invariant: every element below \<open>lowest_free_idx\<close> is full, and \<open>num_set_elements\<close> is the
  last non-zero element plus one.
\<close>

definition idalloc_inv :: "util_idalloc \<Rightarrow> bool" where
  "idalloc_inv b \<longleftrightarrow>
     lowest_free_idx b \<le> num_elements b \<and>
     (\<forall>i<lowest_free_idx b. data b ! i = full) \<and>
     num_set_elements b \<le> num_elements b \<and>
     (\<forall>i. num_set_elements b \<le> i \<longrightarrow> i < num_elements b \<longrightarrow> data b ! i = 0) \<and>
     (0 < num_set_elements b \<longrightarrow> data b ! (num_set_elements b - 1) \<noteq> 0)"

lemma bit_full [simp]: "bit full n \<longleftrightarrow> n < 32"
proof -
  have "full = mask 32" by (simp add: full_def mask_eq_exp_minus_1)
  moreover have "bit (mask 32 :: dword) n \<longleftrightarrow> n < 32" by (simp add: bit_mask_iff)
  ultimately show ?thesis by simp
qed

lemma not_full_bit: "x \<noteq> full \<Longrightarrow> \<exists>n<32. \<not> bit x n"
  by (rule ccontr) (auto intro!: bit_word_eqI)

lemma nonzero_bit: "(x :: dword) \<noteq> 0 \<Longrightarrow> \<exists>n<32. bit x n"
  by (rule ccontr) (auto intro!: bit_word_eqI)

lemma id_split: "(k :: nat) < 32 \<Longrightarrow> (i * 32 + k) div 32 = i \<and> (i * 32 + k) mod 32 = k"
  by auto

lemma id_eq_iff: "(k :: nat) < 32 \<Longrightarrow> ident = i * 32 + k \<longleftrightarrow> ident div 32 = i \<and> ident mod 32 = k"
  by auto

lemma in_ids: "k < 32 \<Longrightarrow> i * 32 + k \<in> ids b \<longleftrightarrow> i < num_elements b \<and> bit (data b ! i) k"
  by (simp add: ids_def)

lemma exists_iff:
  assumes "idalloc_inv b"
  shows "util_idalloc_exists b ident \<longleftrightarrow> ident \<in> ids b"
proof -
  have "data b ! (ident div 32) AND push_bit (ident mod 32) 1 \<noteq> 0 \<longleftrightarrow> bit (data b ! (ident div 32)) (ident mod 32)"
    by (simp add: bit_iff_and_push_bit_not_eq_0 and.commute)
  then show ?thesis
    using assms unfolding util_idalloc_exists_def ids_def idalloc_inv_def
    by (auto simp: not_less[symmetric])
qed

section \<open>The operations keep the invariant\<close>

lemma find_upt_Some:
  "find P [a..<b] = Some i \<longleftrightarrow> a \<le> i \<and> i < b \<and> P i \<and> (\<forall>j. a \<le> j \<longrightarrow> j < i \<longrightarrow> \<not> P j)"
proof
  assume "find P [a..<b] = Some i"
  then obtain k where k: "k < length [a..<b]" "P ([a..<b] ! k)" "i = [a..<b] ! k"
      "\<forall>j<k. \<not> P ([a..<b] ! j)"
    by (auto simp: find_Some_iff)
  then have "i = a + k" "k < b - a" by auto
  moreover have "\<not> P j" if "a \<le> j" "j < i" for j
    using k(1,4) that \<open>i = a + k\<close> spec[OF k(4), of "j - a"] by simp
  ultimately show "a \<le> i \<and> i < b \<and> P i \<and> (\<forall>j. a \<le> j \<longrightarrow> j < i \<longrightarrow> \<not> P j)"
    using k by simp
next
  assume "a \<le> i \<and> i < b \<and> P i \<and> (\<forall>j. a \<le> j \<longrightarrow> j < i \<longrightarrow> \<not> P j)"
  then show "find P [a..<b] = Some i"
    by (auto simp: find_Some_iff intro!: exI[of _ "i - a"])
qed

lemma ffs_not:
  assumes "x \<noteq> full"
  shows "ffs (NOT x) - 1 < 32" "\<not> bit x (ffs (NOT x) - 1)" "\<forall>j<ffs (NOT x) - 1. bit x j"
proof -
  obtain n where n: "n < 32" "\<not> bit x n" using not_full_bit[OF assms] by blast
  then obtain k where k: "find (bit (NOT x)) [0..<32] = Some k"
    by (cases "find (bit (NOT x)) [0..<32]") (auto simp: find_None_iff bit_simps)
  then have "k < 32" "\<not> bit x k" "\<forall>j<k. bit x j"
    by (auto simp: find_upt_Some bit_simps)
  then show "ffs (NOT x) - 1 < 32" "\<not> bit x (ffs (NOT x) - 1)" "\<forall>j<ffs (NOT x) - 1. bit x j"
    using k by (simp_all add: ffs_def)
qed

lemma resize_simps [simp]:
  "lowest_free_idx (util_idalloc_resize n b) = lowest_free_idx b"
  "num_set_elements (util_idalloc_resize n b) = num_set_elements b"
  "num_elements (util_idalloc_resize n b) = max n (num_elements b)"
  by (auto simp: util_idalloc_resize_def)

lemma resize_nth: "i < max n (num_elements b) \<Longrightarrow>
    data (util_idalloc_resize n b) ! i = (if i < num_elements b then data b ! i else 0)"
  by (auto simp: util_idalloc_resize_def nth_append)

lemma resize_ids [simp]: "ids (util_idalloc_resize n b) = ids b"
  by (auto simp: ids_def resize_nth split: if_splits)

lemma resize_inv: "idalloc_inv b \<Longrightarrow> idalloc_inv (util_idalloc_resize n b)"
proof -
  assume i: "idalloc_inv b"
  have "data (util_idalloc_resize n b) ! (num_set_elements b - 1) = data b ! (num_set_elements b - 1)"
    if "0 < num_set_elements b"
    using i that by (subst resize_nth) (auto simp: idalloc_inv_def)
  then show ?thesis using i by (auto simp: idalloc_inv_def resize_nth max_def)
qed

text \<open>Setting the lowest clear bit of an element below which every element is full.\<close>

lemma or_bit_ids:
  assumes "i < num_elements b" "k < 32"
  shows "ids (b\<lparr>data := (data b)[i := data b ! i OR push_bit k 1]\<rparr>) = insert (i * 32 + k) (ids b)"
  using assms by (auto simp: ids_def nth_list_update bit_simps id_eq_iff possible_bit_word)

lemma ids_cong: "data b = data c \<Longrightarrow> ids b = ids c"
  by (simp add: ids_def)

lemma alloc_first:
  assumes "i \<le> num_elements b" "\<forall>j<i. data b ! j = full" "k < 32"
    and "i < num_elements b \<Longrightarrow> \<not> bit (data b ! i) k \<and> (\<forall>j<k. bit (data b ! i) j)" "i = num_elements b \<Longrightarrow> k = 0"
  shows "i * 32 + k \<notin> ids b" "m < i * 32 + k \<Longrightarrow> m \<in> ids b"
proof -
  show "i * 32 + k \<notin> ids b" using assms(1,3,4) by (auto simp: in_ids)
  assume m: "m < i * 32 + k"
  show "m \<in> ids b"
  proof (cases "m div 32 < i")
    case True
    then show ?thesis using assms(1,2) by (simp add: ids_def)
  next
    case False
    moreover have "m = m div 32 * 32 + m mod 32" "m mod 32 < 32" by simp_all
    ultimately have "m div 32 = i" "m mod 32 < k" using m assms(3) by linarith+
    then show ?thesis using assms(1,4,5) by (cases "i = num_elements b") (auto simp: ids_def)
  qed
qed

lemma finite_ids [simp]: "finite (ids b)"
proof (rule finite_subset)
  show "ids b \<subseteq> {..<num_elements b * 32}" by (auto simp: ids_def)
qed simp

lemma alloc_bound:
  assumes "\<And>m. m < n \<Longrightarrow> m \<in> ids b" "card (ids b) < 2 ^ 32"
  shows "n < 2 ^ 32"
proof -
  have "{..<n} \<subseteq> ids b" using assms(1) by auto
  then have "n \<le> card (ids b)" using card_mono[OF finite_ids, of "{..<n}" b] by simp
  then show ?thesis using assms(2) by simp
qed

lemma alloc_state:
  assumes "idalloc_inv b" and room: "card (ids b) < 2 ^ 32"
  obtains i k where "util_idalloc_alloc b = (i * 32 + k,
      b\<lparr>data := (data (util_idalloc_resize (if i < num_elements b then 0 else max i 1 * 2) b))
          [i := (if i < num_elements b then data b ! i else 0) OR push_bit k 1],
        lowest_free_idx := i, num_set_elements := max (num_set_elements b) (i + 1)\<rparr>)"
    "i \<le> num_elements b" "\<forall>j<i. data b ! j = full" "k < 32"
    "i < num_elements b \<Longrightarrow> \<not> bit (data b ! i) k \<and> (\<forall>j<k. bit (data b ! i) j)" "i = num_elements b \<Longrightarrow> k = 0"
proof -
  have low: "\<forall>j<lowest_free_idx b. data b ! j = full" "lowest_free_idx b \<le> num_elements b"
    using assms by (auto simp: idalloc_inv_def)
  show ?thesis
  proof (cases "find (\<lambda>i. data b ! i \<noteq> full) [lowest_free_idx b..<num_elements b]")
    case (Some i)
    then have i: "lowest_free_idx b \<le> i" "i < num_elements b" "data b ! i \<noteq> full"
        "\<forall>j. lowest_free_idx b \<le> j \<longrightarrow> j < i \<longrightarrow> data b ! j = full"
      by (auto simp: find_upt_Some)
    have "\<forall>j<i. data b ! j = full" using low(1) i(4) by (meson linorder_not_less)
    moreover note f = ffs_not[OF i(3)]
    moreover have "util_idalloc_resize 0 b = b" by (simp add: util_idalloc_resize_def)
    moreover have "i * 32 + (ffs (NOT (data b ! i)) - 1) < 2 ^ 32"
      using i(2) f \<open>\<forall>j<i. data b ! j = full\<close> by (intro alloc_bound[OF alloc_first(2) room]) auto
    ultimately show ?thesis
      using Some i by (intro that[of i "ffs (NOT (data b ! i)) - 1"])
        (simp_all add: util_idalloc_alloc_def Let_def)
  next
    case None
    let ?n = "num_elements b"
    have all: "\<forall>j<?n. data b ! j = full" using low None by (auto simp: find_None_iff)
    have "data (util_idalloc_resize (max ?n 1 * 2) b) ! ?n = 0"
      by (subst resize_nth) auto
    moreover have "?n * 32 + 0 < 2 ^ 32"
      by (rule alloc_bound[OF alloc_first(2)[where i = "?n"] room]) (use all in auto)
    ultimately show ?thesis
      using all None by (intro that[of ?n 0])
        (simp_all add: util_idalloc_alloc_def Let_def util_idalloc_resize_def)
  qed
qed

theorem alloc_spec:
  assumes "idalloc_inv b" "util_idalloc_alloc b = (n, b')" "card (ids b) < 2 ^ 32"
  shows "idalloc_inv b'" "ids b' = insert n (ids b)" "n \<notin> ids b" "m < n \<Longrightarrow> m \<in> ids b"
    "lowest_free_idx b' = n div 32"
proof -
  obtain i k where a: "util_idalloc_alloc b = (i * 32 + k,
      b\<lparr>data := (data (util_idalloc_resize (if i < num_elements b then 0 else max i 1 * 2) b))
          [i := (if i < num_elements b then data b ! i else 0) OR push_bit k 1],
        lowest_free_idx := i, num_set_elements := max (num_set_elements b) (i + 1)\<rparr>)"
    "i \<le> num_elements b" "\<forall>j<i. data b ! j = full" "k < 32"
    "i < num_elements b \<Longrightarrow> \<not> bit (data b ! i) k \<and> (\<forall>j<k. bit (data b ! i) j)" "i = num_elements b \<Longrightarrow> k = 0"
    using alloc_state[OF assms(1,3)] by blast
  let ?r = "util_idalloc_resize (if i < num_elements b then 0 else max i 1 * 2) b"
  have n: "n = i * 32 + k" using a(1) assms(2) by simp
  have i: "i < num_elements ?r" and ri: "data ?r ! i = (if i < num_elements b then data b ! i else 0)"
    using a(2) by (auto simp: resize_nth)
  have b': "b' = ?r\<lparr>data := (data ?r)[i := data ?r ! i OR push_bit k 1],
      lowest_free_idx := i, num_set_elements := max (num_set_elements b) (i + 1)\<rparr>"
    using a(1) assms(2) ri by (auto simp: util_idalloc_resize_def)
  show "lowest_free_idx b' = n div 32" unfolding n b' using a(4) by simp
  show "n \<notin> ids b" "m < n \<Longrightarrow> m \<in> ids b" unfolding n using alloc_first[OF a(2-6)] by blast+
  have "ids b' = ids (?r\<lparr>data := (data ?r)[i := data ?r ! i OR push_bit k 1]\<rparr>)"
    unfolding b' by (rule ids_cong) simp
  then show "ids b' = insert n (ids b)" using or_bit_ids[OF i a(4)] n by simp
  have "data ?r ! i OR push_bit k 1 \<noteq> 0"
  proof
    assume "data ?r ! i OR push_bit k 1 = 0"
    then have "bit (data ?r ! i OR push_bit k 1) k \<longleftrightarrow> False" by simp
    then show False using a(4) by (simp add: bit_simps)
  qed
  then show "idalloc_inv b'"
    using resize_inv[OF assms(1), of "if i < num_elements b then 0 else max i 1 * 2"] i a(2,3)
    unfolding b' idalloc_inv_def
    by (auto simp: nth_list_update resize_nth max_def split: if_splits)
qed

lemma shrink_set_spec:
  "shrink_set d n \<le> n" "shrink_set d n \<le> i \<Longrightarrow> i < n \<Longrightarrow> d ! i = 0"
  "0 < shrink_set d n \<Longrightarrow> d ! (shrink_set d n - 1) \<noteq> 0"
  by (induction d n rule: shrink_set.induct) (auto simp: less_Suc_eq split: if_splits)

theorem free_spec:
  assumes "idalloc_inv b"
  shows "idalloc_inv (util_idalloc_free n b)" "ids (util_idalloc_free n b) = ids b - {n}"
proof -
  let ?i = "n div 32"
  have out: "n \<notin> ids b" if "num_elements b \<le> ?i" using that by (simp add: ids_def)
  define d where "d = (data b)[?i := data b ! ?i AND NOT (push_bit (n mod 32) 1)]"
  have len: "length d = num_elements b" by (simp add: d_def)
  have ids_d: "ids (b\<lparr>data := d\<rparr>) = ids b - {n}"
  proof -
    have "bit (d ! (m div 32)) (m mod 32) \<longleftrightarrow> bit (data b ! (m div 32)) (m mod 32) \<and> m \<noteq> n"
      if "m div 32 < num_elements b" for m
    proof (cases "m div 32 = ?i")
      case True
      then have "m mod 32 = n mod 32 \<longleftrightarrow> m = n" by (metis div_mult_mod_eq)
      then show ?thesis using True that by (auto simp: d_def bit_simps possible_bit_word)
    next
      case False
      then show ?thesis using that by (auto simp: d_def nth_list_update)
    qed
    then show ?thesis by (auto simp: ids_def len)
  qed
  have fr: "util_idalloc_free n b = (if num_elements b \<le> ?i then b
      else b\<lparr>lowest_free_idx := min ?i (lowest_free_idx b), data := d,
             num_set_elements := (if num_set_elements b = ?i + 1
                                  then shrink_set d (num_set_elements b) else num_set_elements b)\<rparr>)"
    by (simp add: util_idalloc_free_def Let_def d_def)
  show "ids (util_idalloc_free n b) = ids b - {n}"
    using out ids_d by (auto simp: fr ids_def)
  show "idalloc_inv (util_idalloc_free n b)"
  proof (cases "num_elements b \<le> ?i")
    case False
    have same: "d ! j = data b ! j" if "j \<noteq> ?i" for j using that by (simp add: d_def)
    define m where "m = (if num_set_elements b = ?i + 1 then shrink_set d (num_set_elements b) else num_set_elements b)"
    have inv: "num_set_elements b \<le> num_elements b"
      "\<And>i. num_set_elements b \<le> i \<Longrightarrow> i < num_elements b \<Longrightarrow> data b ! i = 0"
      "0 < num_set_elements b \<Longrightarrow> data b ! (num_set_elements b - 1) \<noteq> 0"
      "lowest_free_idx b \<le> num_elements b" "\<And>i. i < lowest_free_idx b \<Longrightarrow> data b ! i = full"
      using assms by (auto simp: idalloc_inv_def)
    have z: "d ! i = 0" if "data b ! i = 0" "i < num_elements b" for i
      using that by (cases "i = ?i") (auto simp: d_def)
    note sh = shrink_set_spec[of d "num_set_elements b"]
    have "m \<le> num_elements b" using inv(1) sh(1) by (auto simp: m_def)
    moreover have "d ! j = 0" if "m \<le> j" "j < num_elements b" for j
    proof (cases "j < num_set_elements b")
      case True
      then have "m = shrink_set d (num_set_elements b)" using that(1) unfolding m_def by (simp split: if_splits)
      then show ?thesis using True that(1) shrink_set_spec(2) by blast
    next
      case False
      then show ?thesis using that(2) by (intro z inv(2)) simp_all
    qed
    moreover have "d ! (m - 1) \<noteq> 0" if "0 < m"
    proof (cases "num_set_elements b = ?i + 1")
      case True
      then show ?thesis using sh(3) that by (simp add: m_def)
    next
      case False
      then have "num_set_elements b - 1 \<noteq> ?i" "0 < num_set_elements b" using that by (auto simp: m_def)
      then show ?thesis using False inv(3) same by (simp add: m_def)
    qed
    moreover have "\<forall>j<min ?i (lowest_free_idx b). d ! j = full" using inv(5) same by auto
    ultimately show ?thesis
      using False inv(4) unfolding fr m_def[symmetric] by (simp add: idalloc_inv_def len)
  qed (use assms fr in simp)
qed

theorem reserve_spec:
  assumes "idalloc_inv b" "n < 2 ^ 32"
  shows "idalloc_inv (util_idalloc_reserve n b)" "ids (util_idalloc_reserve n b) = insert n (ids b)"
proof -
  let ?i = "n div 32" let ?k = "n mod 32"
  define r where "r = (if num_elements b \<le> ?i then util_idalloc_resize ((?i + 1) * 2) b else b)"
  have r: "idalloc_inv r" "ids r = ids b" "?i < num_elements r"
    using assms(1) resize_inv by (auto simp: r_def)
  have "(?i + 1) * 2 < 2 ^ 32" using assms(2) by simp
  then have res: "util_idalloc_reserve n b = r\<lparr>data := (data r)[?i := data r ! ?i OR push_bit ?k 1],
      num_set_elements := max (num_set_elements r) (?i + 1)\<rparr>"
    by (simp add: util_idalloc_reserve_def Let_def r_def del: power_numeral)
  have "ids (util_idalloc_reserve n b) = ids (r\<lparr>data := (data r)[?i := data r ! ?i OR push_bit ?k 1]\<rparr>)"
    unfolding res by (rule ids_cong) simp
  then show "ids (util_idalloc_reserve n b) = insert n (ids b)"
    using or_bit_ids[OF r(3), of ?k] r(2) by simp
  have nz: "data r ! ?i OR push_bit ?k 1 \<noteq> 0"
  proof
    assume "data r ! ?i OR push_bit ?k 1 = 0"
    then have "bit (data r ! ?i OR push_bit ?k 1) ?k \<longleftrightarrow> False" by simp
    then show False by (simp add: bit_simps)
  qed
  have "full OR push_bit ?k 1 = full" by (rule bit_word_eqI) (auto simp: bit_simps)
  then show "idalloc_inv (util_idalloc_reserve n b)"
    using r(1,3) nz unfolding res idalloc_inv_def
    by (auto simp: nth_list_update max_def split: if_splits)
qed

section \<open>Allocating a range\<close>

lemma free_run_spec:
  assumes "base \<le> i" "i - base \<le> num_alloc"
  shows "(\<forall>j. i \<le> j \<longrightarrow> j < free_run d num_alloc base i \<longrightarrow> j < length d \<and> d ! j = 0) \<and>
    free_run d num_alloc base i - base \<le> num_alloc \<and>
    \<not> (free_run d num_alloc base i < length d \<and> free_run d num_alloc base i - base < num_alloc \<and>
       d ! free_run d num_alloc base i = 0)"
  using assms
proof (induction d num_alloc base i rule: free_run.induct)
  case (1 d num_alloc base i)
  show ?case
  proof (cases "i < length d \<and> i - base < num_alloc \<and> d ! i = 0")
    case True
    have e: "free_run d num_alloc base i = free_run d num_alloc base (i + 1)"
      using True by (subst free_run.simps) simp
    have "i = j \<or> i + 1 \<le> j" if "i \<le> j" for j using that by auto
    then show ?thesis using 1(1)[OF True] 1(2) True unfolding e by fastforce
  next
    case False
    have "free_run d num_alloc base i = i" by (subst free_run.simps) (simp only: False if_False)
    then show ?thesis using False 1(3) by auto
  qed
qed

lemma find_range_spec:
  assumes "base \<le> length d" "find_range d num_alloc base = (r, found)"
  shows "base \<le> r \<and> r \<le> length d \<and> (\<forall>j. r \<le> j \<longrightarrow> j < r + num_alloc \<longrightarrow> j < length d \<longrightarrow> d ! j = 0) \<and>
    (found \<longrightarrow> r + num_alloc \<le> length d)"
  using assms
proof (induction d num_alloc base rule: find_range.induct)
  case (1 d num_alloc base)
  let ?i = "free_run d num_alloc base base"
  note run = free_run_spec[of base base num_alloc d] free_run_ge[of base d num_alloc base]
  consider (hit) "?i - base = num_alloc" | (stop) "?i - base \<noteq> num_alloc" "length d \<le> ?i"
    | (go) "?i - base \<noteq> num_alloc" "?i < length d" by linarith
  then show ?case
  proof cases
    case hit
    then have "r = base" "found" using 1(3) by (subst (asm) find_range.simps; simp)+
    moreover have "base + num_alloc \<le> length d"
      using run hit 1(2) by (cases num_alloc) (auto dest!: spec[of _ "?i - 1"])
    ultimately show ?thesis using run hit by auto
  next
    case stop
    then have "r = base" "\<not> found" using 1(3) by (subst (asm) find_range.simps; simp)+
    then show ?thesis using run stop 1(2) by auto
  next
    case go
    let ?b = "if d ! ?i = 0 then ?i else ?i + 1"
    have f: "find_range d num_alloc ?b = (r, found)"
      using 1(3) go by (subst (asm) find_range.simps) (simp add: Let_def)
    have "?b \<le> length d" "base \<le> ?b" using go run by auto
    then show ?thesis using 1(1)[OF refl go(1) _ _ f] go(2) by fastforce
  qed
qed

lemma length_fold_full [simp]: "length (fold (\<lambda>i d. d[i := full]) is d) = length d"
  by (induction "is" arbitrary: d) auto

lemma fold_full_nth:
  "k < length d \<Longrightarrow> fold (\<lambda>i d. d[i := full]) [a..<b] d ! k = (if a \<le> k \<and> k < b then full else d ! k)"
proof (induction b)
  case (Suc b)
  then show ?case by (cases "k = b") auto
qed simp

lemma round_up_32:
  "div_round_up n 32 = n div 32 + of_bool (n mod 32 \<noteq> 0)"
proof -
  have "n = n div 32 * 32 + n mod 32" "n mod 32 < 32" by simp_all
  then obtain q r where n: "n = q * 32 + r" "r < 32" by blast
  then have "(n + 32 - 1) div 32 = q + of_bool (r \<noteq> 0)" by (cases "r = 0") auto
  then show ?thesis using n by (simp add: div_round_up_def)
qed

lemma length_mark_range [simp]: "length (mark_range base na num d) = length d"
  by (simp add: mark_range_def Let_def fold_full_nth)

lemma mark_range_nth:
  assumes "k < length d"
  shows "mark_range base (div_round_up num 32) num d ! k =
    (if base \<le> k \<and> k < base + num div 32 then full
     else if k = base + num div 32 then d ! k OR mask (num mod 32) else d ! k)"
proof -
  have e: "base + div_round_up num 32 - of_bool (num mod 32 \<noteq> 0) = base + num div 32"
    by (simp add: round_up_32)
  show ?thesis
  proof (cases "num mod 32 = 0")
    case True
    then show ?thesis using assms e by (simp add: mark_range_def Let_def fold_full_nth)
  next
    case False
    then have "base + div_round_up num 32 - 1 = base + num div 32" using round_up_32[of num] by simp
    then show ?thesis
      using False assms e by (auto simp: mark_range_def Let_def fold_full_nth nth_list_update)
  qed
qed

lemma mark_range_bit:
  assumes "k < length d" "j < 32"
  shows "bit (mark_range base (div_round_up num 32) num d ! k) j \<longleftrightarrow>
    bit (d ! k) j \<or> (base * 32 \<le> k * 32 + j \<and> k * 32 + j < base * 32 + num)"
proof -
  have num: "num = num div 32 * 32 + num mod 32" "num mod 32 < 32" by simp_all
  consider "k < base" | "base \<le> k" "k < base + num div 32" | "k = base + num div 32" | "base + num div 32 < k"
    by linarith
  then show ?thesis
  proof cases
    case 1
    then show ?thesis using assms mark_range_nth[OF assms(1)] by auto
  next
    case 2
    then show ?thesis using assms num mark_range_nth[OF assms(1), of base num] by (auto; linarith)
  next
    case 3
    then have "k * 32 + j < base * 32 + num \<longleftrightarrow> j < num mod 32" "base * 32 \<le> k * 32 + j" using num by linarith+
    then show ?thesis using 3 assms mark_range_nth[OF assms(1), of base num] by (auto simp: bit_simps)
  next
    case 4
    then show ?thesis using assms num mark_range_nth[OF assms(1), of base num] by (auto; linarith)
  qed
qed

lemma elements_of_small: "num < 2 ^ 31 \<Longrightarrow> elements_of num = div_round_up num 32"
  by (simp add: elements_of_def div_round_up_def)

theorem alloc_range_spec:
  assumes "idalloc_inv b" "0 < num" "util_idalloc_alloc_range num b = (n, b')" and small: "num_elements b \<le> 2 ^ 26" "num < 2 ^ 31"
  shows "idalloc_inv b'" "ids b' = ids b \<union> {n..<n + num}" "ids b \<inter> {n..<n + num} = {}"
proof -
  have goal: "idalloc_inv b' \<and> ids b' = ids b \<union> {n..<n + num} \<and> ids b \<inter> {n..<n + num} = {}"
  proof (cases "num = 1")
    case True
    then have "util_idalloc_alloc b = (n, b')" using assms(3) by (simp add: util_idalloc_alloc_range_def)
    moreover have "card (ids b) < 2 ^ 32"
    proof -
      have "card (ids b) \<le> card {..<num_elements b * 32}" by (intro card_mono) (auto simp: ids_def)
      then show ?thesis using small(1) by simp
    qed
    ultimately show ?thesis using alloc_spec[OF assms(1)] True by auto
  next
    case False
    let ?na = "div_round_up num 32"
    let ?start = "find_free_block b (lowest_free_idx b)"
    obtain base found where fr: "find_range (data b) ?na ?start = (base, found)" by fastforce
    have start: "?start \<le> num_elements b" "lowest_free_idx b \<le> ?start"
      using assms(1) by (auto simp: find_free_block_def find_upt_Some idalloc_inv_def split: option.splits)
    note r = find_range_spec[OF start(1) fr]
    define c where "c = (if found then b else util_idalloc_resize (num_elements b * 2 + ?na) b)"
    have c: "idalloc_inv c" "ids c = ids b" "base + ?na \<le> num_elements c"
      "lowest_free_idx c = lowest_free_idx b"
      using assms(1) resize_inv r by (auto simp: c_def)
    have z: "data c ! j = 0" if "base \<le> j" "j < base + ?na" for j
      using that r by (auto simp: c_def resize_nth split: if_splits)
    have "?na < 2 ^ 27" using small(2) by (simp add: div_round_up_def)
    then have no_wrap: "base * 32 < 2 ^ 32" "num_elements b * 2 + ?na < 2 ^ 32" "base + num div 32 < 2 ^ 32" "base + ?na < 2 ^ 32"
      using r small by auto
    have n: "n = base * 32" and b': "b' = c\<lparr>data := mark_range base ?na num (data c),
        lowest_free_idx := (if lowest_free_idx c = base then base + num div 32 else lowest_free_idx c),
        num_set_elements := max (num_set_elements c) (base + ?na)\<rparr>"
      using assms(3) False fr no_wrap by (auto simp: util_idalloc_alloc_range_def Let_def c_def elements_of_small[OF small(2)])
    have na: "?na = num div 32 + of_bool (num mod 32 \<noteq> 0)" "0 < ?na"
      using assms(2) by (auto simp: round_up_32)
    have rng: "m \<in> {n..<n + num} \<Longrightarrow> base \<le> m div 32 \<and> m div 32 < base + ?na" for m
      unfolding n na(1) using div_mult_mod_eq[of m 32] div_mult_mod_eq[of num 32] mod_less_divisor[of 32 m]
      by (auto; linarith)
    have bits: "m \<in> ids b' \<longleftrightarrow> m \<in> ids c \<or> m \<in> {n..<n + num}" for m
      using rng[of m] c(3) mark_range_bit[of "m div 32" "data c" "m mod 32" base num]
      by (auto simp: b' ids_def n)
    then have 1: "ids b' = ids b \<union> {n..<n + num}" using c(2) by auto
    have 2: "ids b \<inter> {n..<n + num} = {}" using rng z unfolding c(2)[symmetric] by (auto simp: ids_def)
    have 3: "idalloc_inv b'"
    proof -
      note nth = mark_range_nth[of _ "data c" base num]
      let ?d = "mark_range base ?na num (data c)"
      let ?m = "max (num_set_elements c) (base + ?na)"
      have fo: "full OR x = full" for x by (rule bit_word_eqI) (auto simp: bit_simps)
      have inv: "\<And>i. i < lowest_free_idx c \<Longrightarrow> data c ! i = full" "lowest_free_idx c \<le> num_elements c"
        "num_set_elements c \<le> num_elements c"
        "\<And>i. num_set_elements c \<le> i \<Longrightarrow> i < num_elements c \<Longrightarrow> data c ! i = 0"
        "0 < num_set_elements c \<Longrightarrow> data c ! (num_set_elements c - 1) \<noteq> 0"
        using c(1) by (auto simp: idalloc_inv_def)
      have keep: "?d ! i = full" if "i < lowest_free_idx c" for i
        using inv(1)[OF that] inv(2) that nth[of i] fo by auto
      have low: "?d ! i = full" if "lowest_free_idx c = base" "i < base + num div 32" for i
        using that keep[of i] nth[of i] c(3) na by (cases "i < base") auto
      have "?d ! (base + ?na - 1) \<noteq> 0"
      proof
        assume "?d ! (base + ?na - 1) = 0"
        moreover have "(?na - 1) * 32 < num"
        proof -
          have "num div 32 * 32 + num mod 32 = num" by simp
          moreover have "?na - 1 + 1 = num div 32 \<or> ?na - 1 = num div 32 \<and> 0 < num mod 32"
            using na by (cases "num mod 32 = 0") auto
          ultimately show ?thesis by linarith
        qed
        then have "(base + ?na - 1) * 32 < base * 32 + num" "base \<le> base + ?na - 1"
          using na(2) by (simp_all add: diff_mult_distrib add_mult_distrib)
        then have "bit (?d ! (base + ?na - 1)) 0"
          using c(3) na(2) by (subst mark_range_bit) auto
        ultimately show False by simp
      qed
      moreover have "?d ! (num_set_elements c - 1) \<noteq> 0" if "base + ?na < num_set_elements c"
      proof -
        have "?d ! (num_set_elements c - 1) = data c ! (num_set_elements c - 1)"
          using that inv(3) na nth[of "num_set_elements c - 1"]
          by (cases "num mod 32 = 0") (auto split: if_splits)
        then show ?thesis using inv(5) that by simp
      qed
      ultimately have "?d ! (?m - 1) \<noteq> 0" by (auto simp: max_def)
      moreover have "?d ! i = 0" if "?m \<le> i" "i < num_elements c" for i
        using that inv(4)[of i] nth[of i] na by (auto split: if_splits)
      ultimately show ?thesis
        using keep low c(3) na inv(2,3) unfolding b' idalloc_inv_def by auto
    qed
    show ?thesis using 1 2 3 by blast
  qed
  then show "idalloc_inv b'" "ids b' = ids b \<union> {n..<n + num}" "ids b \<inter> {n..<n + num} = {}" by blast+
qed

section \<open>The contract of an allocator\<close>

lemma remove_nth:
  assumes "k < length xs" "distinct xs"
  shows "distinct (take k xs @ drop (Suc k) xs)" "set (take k xs @ drop (Suc k) xs) = set xs - {xs ! k}"
proof -
  obtain ys x zs where "xs = ys @ x # zs" "length ys = k" using id_take_nth_drop[OF assms(1)] assms(1)
    by (metis length_take min.absorb4)
  then show "distinct (take k xs @ drop (Suc k) xs)" "set (take k xs @ drop (Suc k) xs) = set xs - {xs ! k}"
    using assms(2) by auto
qed

text \<open>
  \<open>live\<close> are the IDs in use, \<open>kept\<close> those the allocator holds back for itself, \<open>cap\<close> how many it can
  tell apart. The client's lemma is about any sequence of allocations and frees in which fewer than
  \<open>c\<close> IDs are held whenever another one is asked for, \<open>held_below c\<close>.
\<close>

fun held_below :: "nat \<Rightarrow> nat option list \<Rightarrow> nat \<Rightarrow> bool" where
  "held_below c [] n \<longleftrightarrow> True"
| "held_below c (None # ops) n \<longleftrightarrow> n < c \<and> held_below c ops (Suc n)"
| "held_below c (Some k # ops) n \<longleftrightarrow> held_below c ops (if k < n then n - 1 else n)"

locale id_allocator =
  fixes cap :: nat and live :: "'b \<Rightarrow> nat set" and kept :: "'b \<Rightarrow> nat set" and inv :: "'b \<Rightarrow> bool"
    and alloc :: "'b \<Rightarrow> nat \<times> 'b" and release :: "nat \<Rightarrow> 'b \<Rightarrow> 'b"
  assumes finite_live: "inv b \<Longrightarrow> finite (live b)"
    and alloc_ok: "inv b \<Longrightarrow> card (live b) < cap \<Longrightarrow> alloc b = (n, b') \<Longrightarrow>
      inv b' \<and> n \<notin> live b \<and> live b' = insert n (live b) \<and> kept b' = kept b"
    and release_ok: "inv b \<Longrightarrow>
      inv (release n b) \<and> live (release n b) = (if n \<in> kept b then live b else live b - {n}) \<and>
      kept (release n b) = kept b"
    and kept_live: "inv b \<Longrightarrow> kept b \<subseteq> live b"
begin

text \<open>
  A client: \<open>None\<close> asks for an ID, \<open>Some k\<close> gives back the \<open>k\<close>-th of the IDs it holds, oldest first.
\<close>

fun client :: "nat option list \<Rightarrow> nat list \<Rightarrow> 'b \<Rightarrow> nat list \<times> 'b" where
  "client [] held b = (held, b)"
| "client (None # ops) held b = (case alloc b of (n, b') \<Rightarrow> client ops (held @ [n]) b')"
| "client (Some k # ops) held b =
     (if k < length held
      then client ops (take k held @ drop (Suc k) held) (release (held ! k) b)
      else client ops held b)"

lemma client_distinct:
  assumes "inv b" "distinct held" "set held \<subseteq> live b - kept b" "held_below c ops (length held)"
    "c + card (live b - set held) \<le> cap" "client ops held b = (held', b')"
  shows "inv b' \<and> distinct held' \<and> set held' \<subseteq> live b' - kept b' \<and>
    live b - set held = live b' - set held' \<and> kept b' = kept b"
  using assms
proof (induction ops held b rule: client.induct)
  case (2 ops held b)
  obtain n b1 where a: "alloc b = (n, b1)" by fastforce
  have "set held \<subseteq> live b" using 2(4) by auto
  then have "card (live b) = card (live b - set held) + length held"
    using card_Diff_subset[of "set held" "live b"] card_mono[OF finite_live[OF 2(2)], of "set held"] 2(3) by (simp add: distinct_card)
  then have "card (live b) < cap" using 2(5,6) by simp
  note ok = alloc_ok[OF 2(2) this a] kept_live[OF 2(2)]
  have same: "live b1 - set (held @ [n]) = live b - set held" using ok 2(4) by auto
  have "inv b' \<and> distinct held' \<and> set held' \<subseteq> live b' - kept b' \<and>
      live b1 - set (held @ [n]) = live b' - set held' \<and> kept b' = kept b1"
    by (rule 2(1)[OF a[symmetric]]) (use 2(3-7) ok a same in auto)
  then show ?case using ok same by auto
next
  case (3 k ops held b)
  show ?case
  proof (cases "k < length held")
    case True
    let ?r = "take k held @ drop (Suc k) held" and ?b = "release (held ! k) b"
    have d: "distinct ?r" "set ?r = set held - {held ! k}" "held ! k \<in> set held" "length ?r = length held - 1"
      using remove_nth[OF True 3(4)] True by simp_all
    have ok: "inv ?b" "live ?b = live b - {held ! k}" "kept ?b = kept b"
      using release_ok[OF 3(3), of "held ! k"] d(3) 3(5) by (auto split: if_splits)
    have same: "live ?b - set ?r = live b - set held" using ok d by auto
    have "inv b' \<and> distinct held' \<and> set held' \<subseteq> live b' - kept b' \<and> live ?b - set ?r = live b' - set held' \<and>
        kept b' = kept ?b"
      by (rule 3(1)[OF True ok(1) d(1)]) (use d(2,4) ok 3(5-8) True same in auto)
    then show ?thesis using ok same by auto
  next
    case False
    then show ?thesis using 3(2)[OF False] 3(3-8) by auto
  qed
qed auto

end

interpretation idalloc: id_allocator "2 ^ 32" ids "\<lambda>_. {}" idalloc_inv util_idalloc_alloc util_idalloc_free
proof
  fix b n b'
  assume a: "idalloc_inv b" "card (ids b) < 2 ^ 32" "util_idalloc_alloc b = (n, b')"
  show "idalloc_inv b' \<and> n \<notin> ids b \<and> ids b' = insert n (ids b) \<and> {} = {}"
    using alloc_spec(1-3)[OF a(1,3,2)] by simp
qed (simp_all add: free_spec)

definition mt_inv :: "util_idalloc_mt \<Rightarrow> bool" where
  "mt_inv m \<longleftrightarrow> idalloc_inv (buf m) \<and> (skip_zero m \<longrightarrow> 0 \<in> ids (buf m))"

definition mt_kept :: "util_idalloc_mt \<Rightarrow> nat set" where
  "mt_kept m = (if skip_zero m then {0} else {})"

interpretation idalloc_mt: id_allocator "2 ^ 32" "\<lambda>m. ids (buf m)" mt_kept mt_inv util_idalloc_mt_alloc util_idalloc_mt_free
proof
  fix b :: util_idalloc_mt and n b'
  assume "mt_inv b" "card (ids (buf b)) < 2 ^ 32" "util_idalloc_mt_alloc b = (n, b')"
  then show "mt_inv b' \<and> n \<notin> ids (buf b) \<and> ids (buf b') = insert n (ids (buf b)) \<and> mt_kept b' = mt_kept b"
    using alloc_spec[of "buf b"]
    by (auto simp: util_idalloc_mt_alloc_def mt_inv_def mt_kept_def split: prod.splits)
qed (auto simp: util_idalloc_mt_free_def mt_inv_def mt_kept_def free_spec)

lemma init_inv: "idalloc_inv (util_idalloc_init n)" "ids (util_idalloc_init n) = {}"
    "lowest_free_idx (util_idalloc_init n) = 0"
  using resize_inv[of "\<lparr>data = [], num_set_elements = 0, lowest_free_idx = 0\<rparr>"]
  by (simp_all add: util_idalloc_init_def) (simp_all add: idalloc_inv_def ids_def)

lemma mt_init_inv: "mt_inv (util_idalloc_mt_init n skip)"
  using alloc_spec[OF init_inv(1)[of n], of "fst (util_idalloc_alloc (util_idalloc_init n))"
      "snd (util_idalloc_alloc (util_idalloc_init n))"] init_inv[of n]
  by (auto simp: util_idalloc_mt_init_def mt_inv_def Let_def)

lemma mt_init_card: "card (ids (buf (util_idalloc_mt_init n skip))) \<le> 1"
  using alloc_spec(2)[OF init_inv(1)[of n], of "fst (util_idalloc_alloc (util_idalloc_init n))"
      "snd (util_idalloc_alloc (util_idalloc_init n))"] init_inv[of n]
  by (auto simp: util_idalloc_mt_init_def Let_def)

lemma alloc_least: "idalloc_inv b \<Longrightarrow> card (ids b) < 2 ^ 32 \<Longrightarrow> util_idalloc_alloc b = (n, b') \<Longrightarrow> n = (LEAST k. k \<notin> ids b)"
  using alloc_spec(3,4) by (intro Least_equality[symmetric]) (auto simp: not_less[symmetric])

text \<open>A segment from which the first \<open>m\<close> IDs were allocated and nothing was freed.\<close>

definition filled :: "nat \<Rightarrow> util_idalloc \<Rightarrow> bool" where
  "filled m b \<longleftrightarrow> idalloc_inv b \<and> ids b = {..<m} \<and> lowest_free_idx b = (m - 1) div 32"

lemma filled_alloc:
  assumes f: "filled m b" and m: "m < 2 ^ 32"
  shows "\<exists>b'. util_idalloc_alloc b = (m, b') \<and> filled (Suc m) b'"
proof -
  have room: "idalloc_inv b" "card (ids b) < 2 ^ 32" using f m by (auto simp: filled_def)
  obtain n b' where a: "util_idalloc_alloc b = (n, b')" by fastforce
  have "n = (LEAST k. k \<notin> {..<m})" using alloc_least[OF room a] f by (auto simp: filled_def)
  also have "\<dots> = m" by (intro Least_equality) auto
  finally have "n = m" .
  then show ?thesis
    using a f alloc_spec[OF room(1) a room(2)] by (auto simp: filled_def lessThan_Suc)
qed

primrec sparse_allocs :: "nat \<Rightarrow> util_idalloc list \<Rightarrow> util_idalloc list option" where
  "sparse_allocs 0 segs = Some segs"
| "sparse_allocs (Suc n) segs =
     (case sparse_allocs n segs of None \<Rightarrow> None
      | Some s \<Rightarrow> map_option snd (util_idalloc_sparse_alloc s))"

lemma segment_sizes: "MAX_IDS_PER_SEGMENT = 32 * MAX_ELEMS_PER_SEGMENT" "MAX_ELEMS_PER_SEGMENT = 131072"
  by (simp_all add: MAX_IDS_PER_SEGMENT_def MAX_ELEMS_PER_SEGMENT_def NUM_SEGMENTS_def)

definition one_segment :: "nat \<Rightarrow> util_idalloc list \<Rightarrow> bool" where
  "one_segment m segs \<longleftrightarrow> (\<exists>b rest. segs = b # util_idalloc_init 1 # rest \<and> filled m b)"

lemma sparse_first:
  assumes "one_segment m segs" "m \<le> MAX_IDS_PER_SEGMENT"
  shows "\<exists>segs'. util_idalloc_sparse_alloc segs = Some (m, segs') \<and> one_segment (Suc m) segs'"
proof -
  obtain b rest where segs: "segs = b # util_idalloc_init 1 # rest" "filled m b"
    using assms(1) by (auto simp: one_segment_def)
  obtain b' where b': "util_idalloc_alloc b = (m, b')" "filled (Suc m) b'" using filled_alloc[OF segs(2)] assms(2) by (auto simp: segment_sizes)
  have "lowest_free_idx b < MAX_ELEMS_PER_SEGMENT"
    using segs(2) assms(2) segment_sizes by (auto simp: filled_def)
  then have "find (\<lambda>i. lowest_free_idx (segs ! i) < MAX_ELEMS_PER_SEGMENT) [0..<length segs] = Some 0"
    unfolding find_upt_Some by (simp add: segs)
  moreover have "u32 m = m" using assms(2) by (simp add: segment_sizes)
  ultimately show ?thesis using b' segs by (auto simp: util_idalloc_sparse_alloc_def one_segment_def)
qed

lemma sparse_allocs_first:
  "m \<le> MAX_IDS_PER_SEGMENT \<Longrightarrow> \<exists>segs. sparse_allocs m util_idalloc_sparse_init = Some segs \<and> one_segment m segs"
proof (induction m)
  case 0
  have "util_idalloc_sparse_init = util_idalloc_init 1 # util_idalloc_init 1 # replicate 1022 (util_idalloc_init 1)"
    by (simp add: util_idalloc_sparse_init_def NUM_SEGMENTS_def replicate_Suc[symmetric] del: replicate_Suc)
  then show ?case using init_inv by (auto simp: one_segment_def filled_def)
next
  case (Suc m)
  then show ?case using sparse_first[of m] by fastforce
qed

section \<open>Properties\<close>

text \<open>An allocation returns the lowest ID that is not in use, adds exactly that ID to the set of
  used IDs and keeps the invariant, while fewer than \<open>2 ^ 32\<close> IDs are used; the allocator grows when every
  ID it has room for is used.\<close>

theorem idalloc_lowest_free:
  assumes "idalloc_inv b" "card (ids b) < 2 ^ 32"
  shows "fst (util_idalloc_alloc b) = (LEAST n. n \<notin> ids b) \<and>
    ids (snd (util_idalloc_alloc b)) = insert (LEAST n. n \<notin> ids b) (ids b) \<and>
    idalloc_inv (snd (util_idalloc_alloc b))"
  using alloc_least[OF assms] alloc_spec[OF assms(1) _ assms(2)] by (metis prod.collapse)

text \<open>A fresh allocator, as an example.\<close>

theorem idalloc_lowest_free_witness:
  "fst (util_idalloc_alloc (util_idalloc_init 1)) = (LEAST n. n \<notin> ids (util_idalloc_init 1)) \<and>
   ids (snd (util_idalloc_alloc (util_idalloc_init 1))) = {0}"
proof -
  have "(LEAST n. n \<notin> ids (util_idalloc_init 1)) = 0" by (rule Least_equality) (auto simp: init_inv)
  then show ?thesis using idalloc_lowest_free[OF init_inv(1)[of 1]] init_inv(2)[of 1] by simp
qed

text \<open>Allocating a range returns the first of \<open>num\<close> consecutive IDs none of which was in use, adds
  exactly those, and keeps the invariant, whether the range fits or the allocator has to grow, for
  sizes at which the 32-bit arithmetic does not wrap.\<close>

theorem idalloc_range_fresh:
  assumes "idalloc_inv b" "0 < num" "util_idalloc_alloc_range num b = (n, b')" "num_elements b \<le> 2 ^ 26" "num < 2 ^ 31"
  shows "ids b \<inter> {n..<n + num} = {} \<and> ids b' = ids b \<union> {n..<n + num} \<and> idalloc_inv b'"
  using alloc_range_spec[OF assms] by blast

text \<open>At a range of 40 IDs of a fresh allocator with one element, which has to grow.\<close>

theorem idalloc_range_fresh_witness:
  "\<exists>n b'. util_idalloc_alloc_range 40 (util_idalloc_init 1) = (n, b') \<and> ids b' = {n..<n + 40}"
proof -
  obtain n b' where r: "util_idalloc_alloc_range 40 (util_idalloc_init 1) = (n, b')" by fastforce
  then show ?thesis using idalloc_range_fresh[OF init_inv(1) _ r] init_inv(2)[of 1]
    by (auto simp: util_idalloc_init_def elements_of_def)
qed

text \<open>C16: Whatever sequence of allocations and frees the clients of the thread-safe allocator
  perform, one critical section after the other, as long as fewer than \<open>2 ^ 32 - 1\<close> IDs are held whenever
  another one is asked for, the IDs they hold are pairwise distinct, and ID 0 is never among them when
  the allocator was told to skip it.\<close>

theorem idalloc_mt_distinct:
  assumes "held_below (2 ^ 32 - 1) ops 0" "idalloc_mt.client ops [] (util_idalloc_mt_init n skip) = (held, m)"
  shows "distinct held \<and> (skip \<longrightarrow> 0 \<notin> set held)"
proof -
  have "distinct held" "set held \<subseteq> ids (buf m) - mt_kept m" "mt_kept m = mt_kept (util_idalloc_mt_init n skip)"
    using idalloc_mt.client_distinct[OF mt_init_inv _ _ _ _ assms(2), of "2 ^ 32 - 1"] assms(1) mt_init_card[of n skip] by auto
  then show ?thesis by (auto simp: mt_kept_def util_idalloc_mt_init_def Let_def)
qed

text \<open>C16 at a client that allocates three IDs and gives the second one back.\<close>

theorem idalloc_mt_distinct_witness:
  "\<exists>held m. idalloc_mt.client [None, None, None, Some 1, None] [] util_idalloc_mt_init_tc = (held, m) \<and>
    distinct held \<and> 0 \<notin> set held"
proof -
  obtain held m where c: "idalloc_mt.client [None, None, None, Some 1, None] [] (util_idalloc_mt_init (2 ^ 16) True) = (held, m)"
    by fastforce
  then show ?thesis using idalloc_mt_distinct[OF _ c] by (auto simp: util_idalloc_mt_init_tc_def)
qed

text \<open>C40: The segmented allocator hands out the same ID twice at a segment boundary: after the
  \<open>2 ^ 22\<close> IDs of the first segment, the next two allocations both return \<open>2 ^ 22\<close>. The stale lower
  bound of the full segment lets one allocation spill into the IDs of the next segment.\<close>

theorem sparse_alloc_duplicate:
  "\<exists>segs segs1 segs2. sparse_allocs MAX_IDS_PER_SEGMENT util_idalloc_sparse_init = Some segs \<and>
     util_idalloc_sparse_alloc segs = Some (MAX_IDS_PER_SEGMENT, segs1) \<and>
     util_idalloc_sparse_alloc segs1 = Some (MAX_IDS_PER_SEGMENT, segs2)"
proof -
  obtain segs where s: "sparse_allocs MAX_IDS_PER_SEGMENT util_idalloc_sparse_init = Some segs"
      "one_segment MAX_IDS_PER_SEGMENT segs" using sparse_allocs_first[of MAX_IDS_PER_SEGMENT] by blast
  obtain segs1 where s1: "util_idalloc_sparse_alloc segs = Some (MAX_IDS_PER_SEGMENT, segs1)"
      "one_segment (Suc MAX_IDS_PER_SEGMENT) segs1" using sparse_first[OF s(2)] by blast
  then obtain b rest where b: "segs1 = b # util_idalloc_init 1 # rest" "filled (Suc MAX_IDS_PER_SEGMENT) b"
    by (auto simp: one_segment_def)
  have "filled 0 (util_idalloc_init 1)" using init_inv by (simp add: filled_def)
  then obtain b1 where b1: "util_idalloc_alloc (util_idalloc_init 1) = (0, b1)" using filled_alloc[of 0] by auto
  have "lowest_free_idx b = MAX_ELEMS_PER_SEGMENT" using b(2) by (simp add: filled_def segment_sizes(1))
  then have "find (\<lambda>i. lowest_free_idx (segs1 ! i) < MAX_ELEMS_PER_SEGMENT) [0..<length segs1] = Some 1"
    using init_inv(3)[of 1] segment_sizes(2) unfolding find_upt_Some by (simp add: b)
  then have "util_idalloc_sparse_alloc segs1 = Some (MAX_IDS_PER_SEGMENT, segs1[1 := b1])"
    using b1 by (simp add: util_idalloc_sparse_alloc_def b MAX_IDS_PER_SEGMENT_def NUM_SEGMENTS_def)
  then show ?thesis using s(1) s1(1) by blast
qed

end
