(* ===== verification/PbSlab.thy ===== *)
theory PbSlab
  imports Prelude
begin

text \<open>
  The slab manager of util/pb_slab.c. A slab is carved into entries of one size; all slabs with
  the same heap and entry size form a group. A freed entry waits in the reclaim list until the
  \<open>can_reclaim\<close> callback says that the GPU no longer uses it; a slab all of whose entries are free
  is given back through the \<open>slab_free\<close> callback.

  A slab is named by a number (its address), an entry by its slab and its index in it. A
  \<open>list_head\<close> list is an Isabelle list; \<open>list_is_linked (&slab->head)\<close> is membership in the list of
  the slab's group, the only list its head is ever put in. The callbacks are arguments:
  \<open>slab_free\<close> works on the state of the winsys, \<open>slab_alloc\<close> on that and, because it may call back
  into the manager, on the manager; \<open>can_reclaim\<close> is what the callback answers while the lock is
  held. An operation between lock and unlock is one step;
  \<open>pb_slab_alloc_reclaimed\<close> drops the lock around \<open>slab_alloc\<close> and is therefore two steps,
  \<open>slab_alloc_lookup\<close> and \<open>slab_alloc_take\<close>. The relation \<open>slab_step\<close> interleaves the steps of any
  number of threads.
\<close>

section \<open>Data\<close>

type_synonym entry = "nat \<times> nat"

record pb_slab =
  free :: "nat list"
  num_free :: nat
  num_entries :: nat
  group_index :: nat
  entry_size :: nat

record pb_slabs =
  min_order :: nat
  num_orders :: nat
  num_heaps :: nat
  allow_three_fourths_allocations :: bool
  groups :: "nat list list"
  reclaim :: "entry list"
  store :: "nat \<rightharpoonup> pb_slab"

section \<open>Sizes and groups\<close>

text \<open>\<open>util_logbase2_ceil\<close> of util/u_math.h.\<close>

definition util_logbase2 :: "nat \<Rightarrow> nat" where
  "util_logbase2 n = (case find (\<lambda>k. n < 2 ^ (k + 1)) [0..<32] of Some k \<Rightarrow> k | None \<Rightarrow> 31)"

definition util_logbase2_ceil :: "nat \<Rightarrow> nat" where
  "util_logbase2_ceil n = (if n \<le> 1 then 0 else 1 + util_logbase2 (n - 1))"

definition alloc_order :: "pb_slabs \<Rightarrow> nat \<Rightarrow> nat" where
  "alloc_order slabs sz = max (min_order slabs) (util_logbase2_ceil sz)"

definition alloc_three_fourths :: "pb_slabs \<Rightarrow> nat \<Rightarrow> bool" where
  "alloc_three_fourths slabs sz \<longleftrightarrow>
     allow_three_fourths_allocations slabs \<and> sz \<le> 2 ^ alloc_order slabs sz * 3 div 4"

definition alloc_entry_size :: "pb_slabs \<Rightarrow> nat \<Rightarrow> nat" where
  "alloc_entry_size slabs sz =
     (if alloc_three_fourths slabs sz then 2 ^ alloc_order slabs sz * 3 div 4
      else 2 ^ alloc_order slabs sz)"

definition alloc_group_index :: "pb_slabs \<Rightarrow> nat \<Rightarrow> nat \<Rightarrow> nat" where
  "alloc_group_index slabs sz heap =
     (heap * num_orders slabs + (alloc_order slabs sz - min_order slabs)) *
       (1 + of_bool (allow_three_fourths_allocations slabs)) +
     of_bool (alloc_three_fourths slabs sz)"

text \<open>The two assertions of \<open>pb_slab_alloc_reclaimed\<close>.\<close>

definition alloc_asserts :: "pb_slabs \<Rightarrow> nat \<Rightarrow> nat \<Rightarrow> bool" where
  "alloc_asserts slabs sz heap \<longleftrightarrow>
     alloc_order slabs sz < min_order slabs + num_orders slabs \<and> heap < num_heaps slabs"

text \<open>The entry size that an index of the group array stands for.\<close>

definition group_entry_size :: "pb_slabs \<Rightarrow> nat \<Rightarrow> nat" where
  "group_entry_size slabs g =
     (let n = 1 + of_bool (allow_three_fourths_allocations slabs);
          sz = 2 ^ (min_order slabs + g div n mod num_orders slabs)
      in if g mod n = 1 then sz * 3 div 4 else sz)"

section \<open>Reclaiming\<close>

definition pb_slab_reclaim ::
    "('p \<Rightarrow> nat \<Rightarrow> pb_slab \<Rightarrow> 'p) \<Rightarrow> entry \<Rightarrow> pb_slabs \<times> 'p \<Rightarrow> pb_slabs \<times> 'p" where
  "pb_slab_reclaim slab_free e = (\<lambda>(slabs, p).
     case store slabs (fst e) of
       None \<Rightarrow> (slabs, p)
     | Some slab0 \<Rightarrow>
         let slab = slab0\<lparr>free := snd e # free slab0, num_free := num_free slab0 + 1\<rparr>;
             g = group_index slab;
             grp = groups slabs ! g;
             grp1 = (if fst e \<in> set grp then grp else grp @ [fst e]);
             slabs1 = slabs\<lparr>reclaim := remove1 e (reclaim slabs),
                            groups := (groups slabs)[g := grp1],
                            store := (store slabs)(fst e \<mapsto> slab)\<rparr>
         in if num_entries slab \<le> num_free slab
            then (slabs1\<lparr>groups := (groups slabs1)[g := remove1 (fst e) grp1],
                         store := (store slabs1)(fst e := None)\<rparr>,
                  slab_free p (fst e) slab)
            else (slabs1, p))"

definition MAX_FAILED_RECLAIMS :: nat where "MAX_FAILED_RECLAIMS = 2"

text \<open>
  The loops over the reclaim list. \<open>LIST_FOR_EACH_ENTRY_SAFE\<close> visits the entries that are in the
  list when the loop starts: the body only removes the entry it is at.
\<close>

fun reclaim_loop ::
    "(entry \<Rightarrow> bool) \<Rightarrow> ('p \<Rightarrow> nat \<Rightarrow> pb_slab \<Rightarrow> 'p) \<Rightarrow> nat \<Rightarrow> nat \<Rightarrow> entry list \<Rightarrow> pb_slabs \<times> 'p \<Rightarrow>
     nat \<times> pb_slabs \<times> 'p" where
  "reclaim_loop can_reclaim slab_free failed n [] st = (n, st)"
| "reclaim_loop can_reclaim slab_free failed n (e # es) st =
     (if can_reclaim e
      then reclaim_loop can_reclaim slab_free failed (n + 1) es (pb_slab_reclaim slab_free e st)
      else if MAX_FAILED_RECLAIMS \<le> failed + 1 then (n, st)
      else reclaim_loop can_reclaim slab_free (failed + 1) n es st)"

fun reclaim_all_loop ::
    "(entry \<Rightarrow> bool) \<Rightarrow> ('p \<Rightarrow> nat \<Rightarrow> pb_slab \<Rightarrow> 'p) \<Rightarrow> nat \<Rightarrow> entry list \<Rightarrow> pb_slabs \<times> 'p \<Rightarrow>
     nat \<times> pb_slabs \<times> 'p" where
  "reclaim_all_loop can_reclaim slab_free n [] st = (n, st)"
| "reclaim_all_loop can_reclaim slab_free n (e # es) st =
     (if can_reclaim e
      then reclaim_all_loop can_reclaim slab_free (n + 1) es (pb_slab_reclaim slab_free e st)
      else reclaim_all_loop can_reclaim slab_free n es st)"

definition pb_slabs_reclaim_locked ::
    "(entry \<Rightarrow> bool) \<Rightarrow> ('p \<Rightarrow> nat \<Rightarrow> pb_slab \<Rightarrow> 'p) \<Rightarrow> pb_slabs \<times> 'p \<Rightarrow> nat \<times> pb_slabs \<times> 'p" where
  "pb_slabs_reclaim_locked can_reclaim slab_free st =
     reclaim_loop can_reclaim slab_free 0 0 (reclaim (fst st)) st"

definition pb_slabs_reclaim_all_locked ::
    "(entry \<Rightarrow> bool) \<Rightarrow> ('p \<Rightarrow> nat \<Rightarrow> pb_slab \<Rightarrow> 'p) \<Rightarrow> pb_slabs \<times> 'p \<Rightarrow> nat \<times> pb_slabs \<times> 'p" where
  "pb_slabs_reclaim_all_locked can_reclaim slab_free st =
     reclaim_all_loop can_reclaim slab_free 0 (reclaim (fst st)) st"

definition pb_slabs_reclaim ::
    "(entry \<Rightarrow> bool) \<Rightarrow> ('p \<Rightarrow> nat \<Rightarrow> pb_slab \<Rightarrow> 'p) \<Rightarrow> pb_slabs \<times> 'p \<Rightarrow> nat \<times> pb_slabs \<times> 'p" where
  "pb_slabs_reclaim = pb_slabs_reclaim_locked"

section \<open>Allocating and freeing\<close>

definition slab_has_free :: "pb_slabs \<Rightarrow> nat \<Rightarrow> bool" where
  "slab_has_free slabs sid \<longleftrightarrow> (case store slabs sid of None \<Rightarrow> False | Some slab \<Rightarrow> free slab \<noteq> [])"

text \<open>Taking the first free entry of a slab.\<close>

definition take_entry :: "nat \<Rightarrow> pb_slabs \<Rightarrow> (entry \<times> pb_slabs) option" where
  "take_entry sid slabs =
     (case store slabs sid of
        None \<Rightarrow> None
      | Some slab \<Rightarrow>
          (case free slab of
             [] \<Rightarrow> None
           | i # rest \<Rightarrow>
               Some ((sid, i), slabs\<lparr>store := (store slabs)
                 (sid \<mapsto> slab\<lparr>free := rest, num_free := num_free slab - 1\<rparr>)\<rparr>)))"

text \<open>
  The first critical section of \<open>pb_slab_alloc_reclaimed\<close>: reclaim when the first slab of the group
  has nothing free, unlink the slabs without free entries, and either take an entry of the first
  slab left (\<open>Some\<close>) or find the group empty (\<open>None\<close>).
\<close>

definition slab_alloc_lookup ::
    "(entry \<Rightarrow> bool) \<Rightarrow> ('p \<Rightarrow> nat \<Rightarrow> pb_slab \<Rightarrow> 'p) \<Rightarrow> nat \<Rightarrow> bool \<Rightarrow> pb_slabs \<times> 'p \<Rightarrow>
     entry option \<times> pb_slabs \<times> 'p" where
  "slab_alloc_lookup can_reclaim slab_free g reclaim_all st =
     (let grp = groups (fst st) ! g;
          (slabs, p) = (if grp = [] \<or> \<not> slab_has_free (fst st) (hd grp)
                        then snd ((if reclaim_all then pb_slabs_reclaim_all_locked
                                   else pb_slabs_reclaim_locked) can_reclaim slab_free st)
                        else st);
          rest = dropWhile (\<lambda>sid. \<not> slab_has_free slabs sid) (groups slabs ! g);
          slabs1 = slabs\<lparr>groups := (groups slabs)[g := rest]\<rparr>
      in case rest of
           [] \<Rightarrow> (None, slabs1, p)
         | sid # _ \<Rightarrow>
             (case take_entry sid slabs1 of
                None \<Rightarrow> (None, slabs1, p)
              | Some (e, slabs2) \<Rightarrow> (Some e, slabs2, p)))"

text \<open>The second critical section: link the slab the callback returned and take its first entry.\<close>

definition slab_alloc_take :: "nat \<Rightarrow> nat \<Rightarrow> pb_slab \<Rightarrow> pb_slabs \<Rightarrow> (entry \<times> pb_slabs) option" where
  "slab_alloc_take g sid slab slabs =
     take_entry sid
       (slabs\<lparr>groups := (groups slabs)[g := sid # groups slabs ! g],
              store := (store slabs)(sid \<mapsto> slab)\<rparr>)"

text \<open>
  \<open>pb_slab_alloc_reclaimed\<close> of a single thread. A failed assertion is the outer \<^term>\<open>None\<close>, the
  \<open>NULL\<close> of a failed slab allocation the inner one.
\<close>

definition pb_slab_alloc_reclaimed ::
    "(entry \<Rightarrow> bool) \<Rightarrow>
     (pb_slabs \<times> 'p \<Rightarrow> nat \<Rightarrow> nat \<Rightarrow> nat \<Rightarrow> (nat \<times> pb_slab) option \<times> pb_slabs \<times> 'p) \<Rightarrow>
     ('p \<Rightarrow> nat \<Rightarrow> pb_slab \<Rightarrow> 'p) \<Rightarrow> nat \<Rightarrow> nat \<Rightarrow> bool \<Rightarrow> pb_slabs \<times> 'p \<Rightarrow>
     (entry option \<times> pb_slabs \<times> 'p) option" where
  "pb_slab_alloc_reclaimed can_reclaim slab_alloc slab_free sz heap reclaim_all st =
     (let slabs = fst st; g = alloc_group_index slabs sz heap
      in if \<not> alloc_asserts slabs sz heap then None
         else case slab_alloc_lookup can_reclaim slab_free g reclaim_all st of
                (Some e, st1) \<Rightarrow> Some (Some e, st1)
              | (None, st1) \<Rightarrow>
                  (case slab_alloc st1 heap (alloc_entry_size slabs sz) g of
                     (None, st2) \<Rightarrow> Some (None, st2)
                   | (Some (sid, slab), slabs2, p2) \<Rightarrow>
                       map_option (\<lambda>(e, slabs3). (Some e, slabs3, p2)) (slab_alloc_take g sid slab slabs2)))"

definition pb_slab_alloc ::
    "(entry \<Rightarrow> bool) \<Rightarrow>
     (pb_slabs \<times> 'p \<Rightarrow> nat \<Rightarrow> nat \<Rightarrow> nat \<Rightarrow> (nat \<times> pb_slab) option \<times> pb_slabs \<times> 'p) \<Rightarrow>
     ('p \<Rightarrow> nat \<Rightarrow> pb_slab \<Rightarrow> 'p) \<Rightarrow> nat \<Rightarrow> nat \<Rightarrow> pb_slabs \<times> 'p \<Rightarrow>
     (entry option \<times> pb_slabs \<times> 'p) option" where
  "pb_slab_alloc can_reclaim slab_alloc slab_free sz heap st =
     pb_slab_alloc_reclaimed can_reclaim slab_alloc slab_free sz heap False st"

definition pb_slab_free :: "entry \<Rightarrow> pb_slabs \<Rightarrow> pb_slabs" where
  "pb_slab_free e slabs = slabs\<lparr>reclaim := reclaim slabs @ [e]\<rparr>"

text \<open>\<^term>\<open>None\<close> when an assertion fails or the group array cannot be allocated.\<close>

definition pb_slabs_init :: "nat \<Rightarrow> nat \<Rightarrow> nat \<Rightarrow> bool \<Rightarrow> bool \<Rightarrow> pb_slabs option" where
  "pb_slabs_init min_o max_o heaps three_fourths alloc_ok =
     (if min_o \<le> max_o \<and> max_o < 31 \<and> alloc_ok then
        Some \<lparr>min_order = min_o, num_orders = max_o - min_o + 1, num_heaps = heaps,
              allow_three_fourths_allocations = three_fourths,
              groups = replicate ((max_o - min_o + 1) * heaps * (1 + of_bool three_fourths)) [],
              reclaim = [], store = Map.empty\<rparr>
      else None)"

text \<open>\<open>pb_slabs_deinit\<close>: reclaim every entry of the list, in flight or not.\<close>

definition pb_slabs_deinit :: "('p \<Rightarrow> nat \<Rightarrow> pb_slab \<Rightarrow> 'p) \<Rightarrow> pb_slabs \<times> 'p \<Rightarrow> pb_slabs \<times> 'p" where
  "pb_slabs_deinit slab_free st = fold (pb_slab_reclaim slab_free) (reclaim (fst st)) st"

section \<open>The invariant\<close>

text \<open>
  Every entry of a slab is in exactly one place: the slab's free list, the reclaim list, or held by
  a client. No slab in the store has all its entries free; the groups list slabs of the store, each
  at most once and in its own group, and every slab with a free entry is listed.
\<close>

lemma group_entry_size_update [simp]:
  "group_entry_size (slabs\<lparr>groups := gs\<rparr>) g = group_entry_size slabs g"
  "group_entry_size (slabs\<lparr>reclaim := r\<rparr>) g = group_entry_size slabs g"
  "group_entry_size (slabs\<lparr>store := m\<rparr>) g = group_entry_size slabs g"
  by (simp_all add: group_entry_size_def)

definition slab_places :: "pb_slabs \<Rightarrow> entry list \<Rightarrow> nat \<Rightarrow> pb_slab \<Rightarrow> bool" where
  "slab_places slabs held sid slab \<longleftrightarrow>
     (\<forall>i. count_list (free slab) i + count_list (reclaim slabs) (sid, i) + count_list held (sid, i) =
          of_bool (i < num_entries slab))"

definition slab_wf :: "pb_slabs \<Rightarrow> nat \<Rightarrow> pb_slab \<Rightarrow> bool" where
  "slab_wf slabs sid slab \<longleftrightarrow>
     num_free slab = length (free slab) \<and> num_free slab < num_entries slab \<and>
     group_index slab < length (groups slabs) \<and>
     entry_size slab = group_entry_size slabs (group_index slab) \<and>
     (free slab \<noteq> [] \<longrightarrow> sid \<in> set (groups slabs ! group_index slab))"

definition groups_wf :: "pb_slabs \<Rightarrow> bool" where
  "groups_wf slabs \<longleftrightarrow>
     (\<forall>g<length (groups slabs). distinct (groups slabs ! g) \<and>
        (\<forall>sid\<in>set (groups slabs ! g). \<exists>slab. store slabs sid = Some slab \<and> group_index slab = g))"

definition slabs_inv :: "pb_slabs \<Rightarrow> entry list \<Rightarrow> bool" where
  "slabs_inv slabs held \<longleftrightarrow>
     (\<forall>sid slab. store slabs sid = Some slab \<longrightarrow> slab_places slabs held sid slab \<and> slab_wf slabs sid slab) \<and>
     (\<forall>e\<in>set (reclaim slabs) \<union> set held. store slabs (fst e) \<noteq> None) \<and> groups_wf slabs"

lemma slabs_invD:
  assumes "slabs_inv slabs held"
  shows "store slabs sid = Some slab \<Longrightarrow> slab_places slabs held sid slab"
    "store slabs sid = Some slab \<Longrightarrow> slab_wf slabs sid slab"
    "e \<in> set (reclaim slabs) \<Longrightarrow> \<exists>slab. store slabs (fst e) = Some slab"
    "e \<in> set held \<Longrightarrow> \<exists>slab. store slabs (fst e) = Some slab" "groups_wf slabs"
  using assms by (auto simp: slabs_inv_def)

lemma count_one:
  assumes "slabs_inv slabs held" "e \<in> set (reclaim slabs)"
  shows "count_list (reclaim slabs) e = 1" "e \<notin> set held"
    "\<exists>slab. store slabs (fst e) = Some slab \<and> snd e \<notin> set (free slab) \<and> snd e < num_entries slab"
proof -
  obtain slab where sl: "store slabs (fst e) = Some slab" using slabs_invD(3)[OF assms] by blast
  have c: "count_list (free slab) (snd e) + count_list (reclaim slabs) e + count_list held e =
      of_bool (snd e < num_entries slab)"
    using slabs_invD(1)[OF assms(1) sl] unfolding slab_places_def by (auto dest!: spec[of _ "snd e"])
  have "count_list (reclaim slabs) e \<noteq> 0" using assms(2) by (simp add: count_list_0_iff)
  then have "count_list (reclaim slabs) e = 1" "count_list held e = 0" "count_list (free slab) (snd e) = 0"
      "snd e < num_entries slab"
    using c by (auto simp: of_bool_def split: if_splits)
  then show "count_list (reclaim slabs) e = 1" "e \<notin> set held"
    "\<exists>slab. store slabs (fst e) = Some slab \<and> snd e \<notin> set (free slab) \<and> snd e < num_entries slab"
    using sl by (auto simp: count_list_0_iff)
qed

lemma count_list_remove1: "count_list (remove1 x xs) y = count_list xs y - of_bool (x = y)"
  by (induction xs) auto

lemma distinct_count: "(\<And>x. count_list xs x \<le> 1) \<Longrightarrow> distinct xs"
proof (induction xs)
  case (Cons x xs)
  have "count_list xs x = 0" using Cons.prems[of x] by simp
  moreover have "count_list xs y \<le> 1" for y using Cons.prems[of y] by (auto split: if_splits)
  ultimately show ?case using Cons.IH by (simp add: count_list_0_iff)
qed simp

lemma distinct_count_list: "distinct xs \<Longrightarrow> count_list xs x = of_bool (x \<in> set xs)"
  by (induction xs) auto

lemma reclaim_distinct: "slabs_inv slabs held \<Longrightarrow> distinct (reclaim slabs)"
  by (rule distinct_count) (metis count_list_0_iff count_one(1) le_numeral_extra(4) zero_le_one)

text \<open>When all entries of a slab are free, none of them is anywhere else.\<close>

lemma all_free_elsewhere:
  assumes "\<forall>i. count_list fr i + a i + b i = of_bool (i < n)" "n \<le> length fr"
  shows "a i = (0 :: nat)" "b i = (0 :: nat)"
proof -
  have c: "count_list fr j \<le> 1" for j using spec[OF assms(1), of j] by (auto simp: of_bool_def split: if_splits)
  have "set fr \<subseteq> {..<n}"
  proof
    fix j assume "j \<in> set fr"
    then have "count_list fr j \<noteq> 0" by (simp add: count_list_0_iff)
    then show "j \<in> {..<n}" using spec[OF assms(1), of j] by (auto simp: of_bool_def split: if_splits)
  qed
  moreover have "distinct fr" using c by (rule distinct_count)
  ultimately have "set fr = {..<n}"
    using assms(2) by (intro card_seteq) (auto simp: distinct_card)
  then have "count_list fr i = 1" if "i < n" using that c[of i] count_list_0_iff[of fr i] by fastforce
  then show "a i = 0" "b i = 0" using spec[OF assms(1), of i] by (auto simp: of_bool_def split: if_splits)
qed

definition same_config :: "pb_slabs \<Rightarrow> pb_slabs \<Rightarrow> bool" where
  "same_config slabs slabs' \<longleftrightarrow> min_order slabs' = min_order slabs \<and> num_orders slabs' = num_orders slabs \<and>
     num_heaps slabs' = num_heaps slabs \<and>
     allow_three_fourths_allocations slabs' = allow_three_fourths_allocations slabs \<and>
     length (groups slabs') = length (groups slabs)"

lemma reclaim_inv:
  assumes inv: "slabs_inv slabs held" and e: "e \<in> set (reclaim slabs)"
    and r: "pb_slab_reclaim slab_free e (slabs, p) = (slabs', p')"
  shows "slabs_inv slabs' held" "reclaim slabs' = remove1 e (reclaim slabs)" "same_config slabs slabs'"
    "dom (store slabs') = dom (store slabs) \<and> p' = p \<or>
     dom (store slabs') = dom (store slabs) - {fst e} \<and> (\<exists>slab. p' = slab_free p (fst e) slab)"
proof -
  obtain sid i where ei: "e = (sid, i)" by fastforce
  obtain slab where sl: "store slabs sid = Some slab" "i \<notin> set (free slab)" "i < num_entries slab"
    using count_one(3)[OF inv e] ei by auto
  note wf = slabs_invD(2)[OF inv sl(1), unfolded slab_wf_def]
  define slab1 where "slab1 = slab\<lparr>free := i # free slab, num_free := num_free slab + 1\<rparr>"
  define g where "g = group_index slab"
  define grp where "grp = (if sid \<in> set (groups slabs ! g) then groups slabs ! g else groups slabs ! g @ [sid])"
  have fields: "group_index slab1 = g" "num_entries slab1 = num_entries slab" "num_free slab1 = length (free slab1)"
    "free slab1 = i # free slab" "entry_size slab1 = group_entry_size slabs g"
    using wf by (simp_all add: slab1_def g_def)
  have glen: "g < length (groups slabs)" using wf by (simp add: g_def)
  have gw: "distinct (groups slabs ! k)" "sid' \<in> set (groups slabs ! k) \<Longrightarrow> \<exists>slab. store slabs sid' = Some slab \<and> group_index slab = k"
    if "k < length (groups slabs)" for k sid'
    using slabs_invD(5)[OF inv] that by (auto simp: groups_wf_def)
  have grp: "distinct grp" "sid \<in> set grp" "set grp = insert sid (set (groups slabs ! g))"
    using gw(1)[OF glen] by (auto simp: grp_def)
  have places: "slab_places slabs1 held sid' slab'"
    if "if sid' = sid then slab' = slab1 else store slabs sid' = Some slab'"
      "reclaim slabs1 = remove1 e (reclaim slabs)" for slabs1 sid' slab'
    unfolding slab_places_def
  proof
    fix j
    have ne: "count_list (reclaim slabs) (sid, i) \<noteq> 0" using e by (simp add: count_list_0_iff ei)
    show "count_list (free slab') j + count_list (reclaim slabs1) (sid', j) + count_list held (sid', j) =
        of_bool (j < num_entries slab')"
    proof (cases "sid' = sid")
      case True
      note eq = spec[OF slabs_invD(1)[OF inv sl(1), unfolded slab_places_def], of j]
      show ?thesis
        using that True eq ne by (cases "j = i") (simp_all add: fields count_list_remove1 ei)
    next
      case False
      then have "store slabs sid' = Some slab'" using that by simp
      note eq = spec[OF slabs_invD(1)[OF inv this, unfolded slab_places_def], of j]
      show ?thesis using that(2) False eq by (simp add: count_list_remove1 ei)
    qed
  qed
  let ?s1 = "slabs\<lparr>reclaim := remove1 e (reclaim slabs), groups := (groups slabs)[g := grp],
                  store := (store slabs)(sid \<mapsto> slab1)\<rparr>"
  let ?s2 = "?s1\<lparr>groups := (groups ?s1)[g := remove1 sid grp], store := (store ?s1)(sid := None)\<rparr>"
  have "pb_slab_reclaim slab_free e (slabs, p) =
      (if num_entries slab \<le> num_free slab1 then (?s2, slab_free p sid slab1) else (?s1, p))"
    by (simp add: pb_slab_reclaim_def ei sl(1) Let_def slab1_def g_def grp_def)
  then have res: "(slabs', p') = (if num_entries slab \<le> num_free slab1 then (?s2, slab_free p sid slab1) else (?s1, p))"
    using r by simp
  then show "reclaim slabs' = remove1 e (reclaim slabs)" "same_config slabs slabs'"
    "dom (store slabs') = dom (store slabs) \<and> p' = p \<or>
     dom (store slabs') = dom (store slabs) - {fst e} \<and> (\<exists>slab. p' = slab_free p (fst e) slab)"
    using sl(1) by (auto simp: ei same_config_def split: if_splits)
  have sub: "e' \<in> set (reclaim slabs)" if "e' \<in> set (remove1 e (reclaim slabs))" for e'
    using that set_remove1_subset by fast
  show "slabs_inv slabs' held"
  proof (cases "num_entries slab \<le> num_free slab1")
    case False
    then have s': "slabs' = ?s1" using res by simp
    have "slab_wf ?s1 sid' slab'" if "store ?s1 sid' = Some slab'" for sid' slab'
    proof (cases "sid' = sid")
      case True
      then show ?thesis using that False fields glen grp by (simp add: slab_wf_def)
    next
      case F: False
      then have "slab_wf slabs sid' slab'" using that slabs_invD(2)[OF inv] by simp
      then show ?thesis using grp(3) by (cases "group_index slab' = g") (auto simp: slab_wf_def)
    qed
    moreover have "groups_wf ?s1"
      unfolding groups_wf_def
    proof (intro allI impI conjI ballI)
      fix k assume "k < length (groups ?s1)"
      then have k: "k < length (groups slabs)" by simp
      show "distinct (groups ?s1 ! k)" using grp(1) gw(1)[OF k] glen by (cases "k = g") auto
      fix sid' assume "sid' \<in> set (groups ?s1 ! k)"
      then show "\<exists>slab. store ?s1 sid' = Some slab \<and> group_index slab = k"
        using gw(2)[OF k, of sid'] grp(3) glen sl(1) fields(1) g_def
        by (cases "k = g"; cases "sid' = sid") auto
    qed
    moreover have "slab_places ?s1 held sid' slab'" if "store ?s1 sid' = Some slab'" for sid' slab'
      using that by (intro places) (auto split: if_splits)
    moreover have "store ?s1 (fst e') \<noteq> None" if "e' \<in> set (reclaim ?s1) \<union> set held" for e'
      using that sub[of e'] slabs_invD(3,4)[OF inv, of e'] by auto
    ultimately show ?thesis unfolding s' slabs_inv_def by blast
  next
    case True
    then have s': "slabs' = ?s2" using res by simp
    have none: "(sid, j) \<notin> set (remove1 e (reclaim slabs))" "(sid, j) \<notin> set held" for j
      unfolding count_list_0_iff[symmetric]
      using all_free_elsewhere[OF places[of sid slab1 ?s1, unfolded slab_places_def], of j] True fields
      by simp_all
    have "slab_wf ?s2 sid' slab'" if "store ?s2 sid' = Some slab'" for sid' slab'
    proof -
      have F: "sid' \<noteq> sid" using that by auto
      then have "slab_wf slabs sid' slab'" using that slabs_invD(2)[OF inv] by simp
      then show ?thesis using grp(1,3) F by (cases "group_index slab' = g") (auto simp: slab_wf_def)
    qed
    moreover have "groups_wf ?s2"
      unfolding groups_wf_def
    proof (intro allI impI conjI ballI)
      fix k assume "k < length (groups ?s2)"
      then have k: "k < length (groups slabs)" by simp
      show "distinct (groups ?s2 ! k)" using grp(1) gw(1)[OF k] glen by (cases "k = g") auto
      fix sid' assume sid': "sid' \<in> set (groups ?s2 ! k)"
      have "sid' \<noteq> sid"
        using sid' grp(1) gw(2)[OF k, of sid'] glen sl(1) g_def by (cases "k = g") auto
      then show "\<exists>slab. store ?s2 sid' = Some slab \<and> group_index slab = k"
        using sid' gw(2)[OF k, of sid'] grp(1,3) glen by (cases "k = g") auto
    qed
    moreover have "slab_places ?s2 held sid' slab'" if "store ?s2 sid' = Some slab'" for sid' slab'
      using that by (intro places) (auto split: if_splits)
    moreover have "store ?s2 (fst e') \<noteq> None" if "e' \<in> set (reclaim ?s2) \<union> set held" for e'
      using that sub[of e'] slabs_invD(3,4)[OF inv, of e'] none[of "snd e'"] by (cases e') auto
    ultimately show ?thesis unfolding s' slabs_inv_def by blast
  qed
qed

text \<open>The entries the bounded loop reclaims: those before the failure that ends it.\<close>

fun reclaimed :: "(entry \<Rightarrow> bool) \<Rightarrow> nat \<Rightarrow> entry list \<Rightarrow> entry list" where
  "reclaimed can failed [] = []"
| "reclaimed can failed (e # es) =
     (if can e then e # reclaimed can failed es
      else if MAX_FAILED_RECLAIMS \<le> failed + 1 then [] else reclaimed can (failed + 1) es)"

lemma reclaim_loop_fold:
  "reclaim_loop can slab_free failed n es st =
   (n + length (reclaimed can failed es), fold (pb_slab_reclaim slab_free) (reclaimed can failed es) st)"
  by (induction can slab_free failed n es st rule: reclaim_loop.induct) auto

lemma reclaim_all_loop_fold:
  "reclaim_all_loop can slab_free n es st =
   (n + length (filter can es), fold (pb_slab_reclaim slab_free) (filter can es) st)"
  by (induction can slab_free n es st rule: reclaim_all_loop.induct) auto

lemma reclaimed_sub: "set (reclaimed can failed es) \<subseteq> set es" "distinct es \<Longrightarrow> distinct (reclaimed can failed es)"
  by (induction can failed es rule: reclaimed.induct) auto

definition released :: "('p \<Rightarrow> nat set) \<Rightarrow> pb_slabs \<times> 'p \<Rightarrow> pb_slabs \<times> 'p \<Rightarrow> bool" where
  "released live st st' \<longleftrightarrow> same_config (fst st) (fst st') \<and>
     live (snd st') = live (snd st) - (dom (store (fst st)) - dom (store (fst st'))) \<and>
     dom (store (fst st')) \<subseteq> dom (store (fst st))"

lemma released_refl: "released live st st"
  by (simp add: released_def same_config_def)

lemma released_trans: "released live a b \<Longrightarrow> released live b c \<Longrightarrow> released live a c"
  unfolding released_def same_config_def by (elim conjE, intro conjI) (simp_all, blast+)

lemma fold_reclaim_inv:
  assumes "slabs_inv (fst st) held" "set es \<subseteq> set (reclaim (fst st))" "distinct es"
    and free: "\<And>p sid slab. pok p \<Longrightarrow> sid \<in> live p \<Longrightarrow>
      pok (slab_free p sid slab) \<and> live (slab_free p sid slab) = live p - {sid}"
    and "dom (store (fst st)) \<subseteq> live (snd st)" "pok (snd st)"
  shows "slabs_inv (fst (fold (pb_slab_reclaim slab_free) es st)) held \<and>
    released live st (fold (pb_slab_reclaim slab_free) es st) \<and> pok (snd (fold (pb_slab_reclaim slab_free) es st))"
  using assms(1-3,5,6)
proof (induction es arbitrary: st)
  case Nil
  then show ?case by (simp add: released_refl)
next
  case (Cons e es)
  obtain slabs p where st: "st = (slabs, p)" by fastforce
  obtain slabs1 p1 where r: "pb_slab_reclaim slab_free e st = (slabs1, p1)" by fastforce
  have e: "e \<in> set (reclaim slabs)" "slabs_inv slabs held" using Cons.prems st by auto
  note i = reclaim_inv[OF e(2,1) r[unfolded st]]
  have dom: "dom (store slabs1) \<subseteq> dom (store slabs)"
    "live p1 = live p - (dom (store slabs) - dom (store slabs1))"
    "dom (store slabs1) \<subseteq> live p1" "pok p1"
  proof -
    have gen: "D1 \<subseteq> D \<and> l1 = l - (D - D1) \<and> D1 \<subseteq> l1"
      if "D1 = D \<and> l1 = l \<or> D1 = D - {x} \<and> l1 = l - {x}" "x \<in> D" "D \<subseteq> l" for D1 D l l1 :: "nat set" and x
      using that by auto
    have "fst e \<in> dom (store slabs)" using slabs_invD(3)[OF e(2,1)] by auto
    moreover have d: "dom (store slabs) \<subseteq> live p" using Cons.prems(4) st by simp
    ultimately have "fst e \<in> live p" by blast
    moreover have "pok p" using Cons.prems(5) st by simp
    ultimately have ds: "dom (store slabs1) = dom (store slabs) \<and> live p1 = live p \<or>
        dom (store slabs1) = dom (store slabs) - {fst e} \<and> live p1 = live p - {fst e}" and pk: "pok p1"
      using i(4) free[of p "fst e"] by blast+
    from pk show "pok p1" .
    from gen[OF ds \<open>fst e \<in> dom (store slabs)\<close> d] show "dom (store slabs1) \<subseteq> dom (store slabs)"
      "live p1 = live p - (dom (store slabs) - dom (store slabs1))" "dom (store slabs1) \<subseteq> live p1"
      by blast+
  qed
  have "set es \<subseteq> set (reclaim slabs1)"
    using Cons.prems(2,3) st i(2) reclaim_distinct[OF e(2)] by auto
  then have IH: "slabs_inv (fst (fold (pb_slab_reclaim slab_free) es (slabs1, p1))) held \<and>
      released live (slabs1, p1) (fold (pb_slab_reclaim slab_free) es (slabs1, p1)) \<and>
      pok (snd (fold (pb_slab_reclaim slab_free) es (slabs1, p1)))"
    using Cons.prems(3) i(1) dom(3,4) by (intro Cons.IH) auto
  moreover have "released live st (slabs1, p1)" using i(3) dom(1,2) st by (simp add: released_def)
  ultimately show ?case using r released_trans[of live st "(slabs1, p1)"] by simp
qed

lemma take_entry_inv:
  assumes "slabs_inv slabs held" "take_entry sid slabs = Some (e, slabs')"
  shows "slabs_inv slabs' (e # held)" "same_config slabs slabs'" "dom (store slabs') = dom (store slabs)"
    "e \<notin> set held" "e \<notin> set (reclaim slabs)" "fst e = sid"
proof -
  obtain slab i rest where sl: "store slabs sid = Some slab" "free slab = i # rest" "e = (sid, i)"
      "slabs' = slabs\<lparr>store := (store slabs)(sid \<mapsto> slab\<lparr>free := rest, num_free := num_free slab - 1\<rparr>)\<rparr>"
    using assms(2) by (auto simp: take_entry_def split: option.splits list.splits)
  note pl = slabs_invD(1)[OF assms(1) sl(1), unfolded slab_places_def]
  note wf = slabs_invD(2)[OF assms(1) sl(1), unfolded slab_wf_def]
  show "e \<notin> set held" "e \<notin> set (reclaim slabs)"
    using spec[OF pl, of i] sl(2,3) by (auto simp: count_list_0_iff[symmetric] of_bool_def split: if_splits)
  show "same_config slabs slabs'" "dom (store slabs') = dom (store slabs)" "fst e = sid"
    using sl by (auto simp: same_config_def)
  have "slab_places slabs' (e # held) sid' slab'" if "store slabs' sid' = Some slab'" for sid' slab'
    unfolding slab_places_def
  proof
    fix j
    show "count_list (free slab') j + count_list (reclaim slabs') (sid', j) + count_list (e # held) (sid', j) =
        of_bool (j < num_entries slab')"
    proof (cases "sid' = sid")
      case True
      then show ?thesis using that spec[OF pl, of j] sl
        by (cases "j = i") (auto simp: of_bool_def split: if_splits)
    next
      case False
      then have s: "store slabs sid' = Some slab'" using that sl(4) by simp
      show ?thesis
        using spec[OF slabs_invD(1)[OF assms(1) s, unfolded slab_places_def], of j] False sl(3,4) by simp
    qed
  qed
  moreover have "slab_wf slabs' sid' slab'" if "store slabs' sid' = Some slab'" for sid' slab'
    using that wf sl slabs_invD(2)[OF assms(1), of sid' slab'] by (auto simp: slab_wf_def split: if_splits)
  moreover have "groups_wf slabs'"
    using slabs_invD(5)[OF assms(1)] sl by (auto simp: groups_wf_def) fastforce+
  ultimately show "slabs_inv slabs' (e # held)"
    using slabs_invD(3,4)[OF assms(1)] sl unfolding slabs_inv_def by auto
qed

lemma drop_full_inv:
  assumes "slabs_inv slabs held" "g < length (groups slabs)"
  shows "slabs_inv (slabs\<lparr>groups := (groups slabs)
      [g := dropWhile (\<lambda>sid. \<not> slab_has_free slabs sid) (groups slabs ! g)]\<rparr>) held" (is "slabs_inv ?s held")
proof -
  let ?d = "dropWhile (\<lambda>sid. \<not> slab_has_free slabs sid) (groups slabs ! g)"
  have sub: "set ?d \<subseteq> set (groups slabs ! g)" by (auto dest: set_dropWhileD)
  have in_d: "sid \<in> set ?d" if "sid \<in> set (groups slabs ! g)" "slab_has_free slabs sid" for sid
    using that takeWhile_dropWhile_id[of "\<lambda>sid. \<not> slab_has_free slabs sid" "groups slabs ! g"]
    by (metis (mono_tags, lifting) UnE set_append set_takeWhileD)
  have "slab_wf ?s sid slab" if "store slabs sid = Some slab" for sid slab
    using slabs_invD(2)[OF assms(1) that] in_d[of sid] that assms(2)
    by (cases "group_index slab = g") (auto simp: slab_wf_def slab_has_free_def)
  moreover have "groups_wf ?s"
    unfolding groups_wf_def
  proof (intro allI impI conjI ballI)
    fix k assume "k < length (groups ?s)"
    then have k: "k < length (groups slabs)" by simp
    have gw: "distinct (groups slabs ! k)" "\<And>sid. sid \<in> set (groups slabs ! k) \<Longrightarrow>
        \<exists>slab. store slabs sid = Some slab \<and> group_index slab = k"
      using slabs_invD(5)[OF assms(1)] k by (auto simp: groups_wf_def)
    show "distinct (groups ?s ! k)" using gw(1) k by (cases "k = g") (auto simp: distinct_dropWhile)
    fix sid assume "sid \<in> set (groups ?s ! k)"
    then show "\<exists>slab. store ?s sid = Some slab \<and> group_index slab = k"
      using gw(2) sub k by (cases "k = g") auto
  qed
  ultimately show ?thesis
    using slabs_invD(1,3,4)[OF assms(1)] unfolding slabs_inv_def by (auto simp: slab_places_def)
qed

lemma lookup_inv:
  assumes inv: "slabs_inv slabs held" and g: "g < length (groups slabs)"
    and free: "\<And>p sid slab. pok p \<Longrightarrow> sid \<in> live p \<Longrightarrow>
      pok (slab_free p sid slab) \<and> live (slab_free p sid slab) = live p - {sid}"
    and dom: "dom (store slabs) \<subseteq> live p" "pok p"
    and l: "slab_alloc_lookup can slab_free g all (slabs, p) = (r, slabs', p')"
  shows "released live (slabs, p) (slabs', p') \<and> pok p' \<and>
    (case r of None \<Rightarrow> slabs_inv slabs' held | Some e \<Rightarrow> slabs_inv slabs' (e # held))"
proof -
  define st where "st = (if groups slabs ! g = [] \<or> \<not> slab_has_free slabs (hd (groups slabs ! g))
      then snd ((if all then pb_slabs_reclaim_all_locked else pb_slabs_reclaim_locked) can slab_free (slabs, p))
      else (slabs, p))"
  have "\<exists>es. st = fold (pb_slab_reclaim slab_free) es (slabs, p) \<and> set es \<subseteq> set (reclaim slabs) \<and> distinct es"
  proof -
    note d = reclaim_distinct[OF inv]
    have "st = fold (pb_slab_reclaim slab_free) [] (slabs, p) \<or>
        st = fold (pb_slab_reclaim slab_free) (reclaimed can 0 (reclaim slabs)) (slabs, p) \<or>
        st = fold (pb_slab_reclaim slab_free) (filter can (reclaim slabs)) (slabs, p)"
      by (auto simp: st_def pb_slabs_reclaim_all_locked_def pb_slabs_reclaim_locked_def
          reclaim_loop_fold reclaim_all_loop_fold)
    moreover note reclaimed_sub(1)[of can 0 "reclaim slabs"] reclaimed_sub(2)[OF d, of can 0]
    ultimately show ?thesis using d by (elim disjE) (rule exI, erule conjI, simp)+
  qed
  then obtain es where es: "st = fold (pb_slab_reclaim slab_free) es (slabs, p)"
      "set es \<subseteq> set (reclaim slabs)" "distinct es" by blast
  obtain slabs1 p1 where st1: "st = (slabs1, p1)" by fastforce
  have i1: "slabs_inv slabs1 held" "released live (slabs, p) (slabs1, p1)" "pok p1"
    using fold_reclaim_inv[of "(slabs, p)" held es pok live slab_free] inv es free dom
    unfolding st1 es(1)[symmetric] by auto
  define rest where "rest = dropWhile (\<lambda>sid. \<not> slab_has_free slabs1 sid) (groups slabs1 ! g)"
  define s2 where "s2 = slabs1\<lparr>groups := (groups slabs1)[g := rest]\<rparr>"
  have i2: "slabs_inv s2 held" "released live (slabs, p) (s2, p1)"
    using drop_full_inv[OF i1(1), of g] i1(2) g by (auto simp: released_def same_config_def s2_def rest_def)
  have res: "(r, slabs', p') = (case rest of [] \<Rightarrow> (None, s2, p1)
      | sid # _ \<Rightarrow> (case take_entry sid s2 of None \<Rightarrow> (None, s2, p1) | Some (e, s3) \<Rightarrow> (Some e, s3, p1)))"
    using l unfolding slab_alloc_lookup_def fst_conv Let_def st_def[symmetric] st1 prod.case
      rest_def[symmetric] s2_def[symmetric] by (rule sym)
  show ?thesis
  proof (cases r)
    case None
    then show ?thesis using res i2 i1(3) by (auto split: list.splits option.splits)
  next
    case (Some e)
    then obtain sid where t: "take_entry sid s2 = Some (e, slabs')" "p' = p1"
      using res by (auto split: list.splits option.splits)
    note ti = take_entry_inv[OF i2(1) t(1)]
    then show ?thesis using i2(2) i1(3) t(2) Some by (auto simp: released_def same_config_def)
  qed
qed

lemma free_inv:
  assumes inv: "slabs_inv slabs held" and e: "e \<in> set held"
  shows "slabs_inv (pb_slab_free e slabs) (remove1 e held)"
proof -
  have ne: "count_list held e \<noteq> 0" using e by (simp add: count_list_0_iff)
  have "slab_places (pb_slab_free e slabs) (remove1 e held) sid slab" if "store slabs sid = Some slab" for sid slab
    unfolding slab_places_def
  proof
    fix j
    show "count_list (free slab) j + count_list (reclaim (pb_slab_free e slabs)) (sid, j) +
        count_list (remove1 e held) (sid, j) = of_bool (j < num_entries slab)"
      using spec[OF slabs_invD(1)[OF inv that, unfolded slab_places_def], of j] ne
      by (cases "e = (sid, j)")
        (auto simp: pb_slab_free_def count_list_remove1 of_bool_def split: if_splits)
  qed
  moreover have "slab_wf (pb_slab_free e slabs) sid slab" if "store slabs sid = Some slab" for sid slab
    using slabs_invD(2)[OF inv that] by (simp add: slab_wf_def pb_slab_free_def)
  moreover have "groups_wf (pb_slab_free e slabs)"
    using slabs_invD(5)[OF inv] by (simp add: groups_wf_def pb_slab_free_def)
  moreover have "\<forall>x\<in>set (reclaim slabs @ [e]) \<union> set (remove1 e held). store slabs (fst x) \<noteq> None"
    using slabs_invD(3,4)[OF inv] e set_remove1_subset[of e held] by fastforce
  ultimately show ?thesis unfolding slabs_inv_def by (simp add: pb_slab_free_def)
qed

text \<open>What \<open>slab_alloc\<close> has to return: a slab with all its entries in its free list.\<close>

definition new_slab :: "nat \<Rightarrow> pb_slab \<Rightarrow> bool" where
  "new_slab g slab \<longleftrightarrow> free slab \<noteq> [] \<and> distinct (free slab) \<and> set (free slab) = {..<num_entries slab} \<and>
     num_free slab = num_entries slab \<and> group_index slab = g"

lemma take_new_inv:
  assumes inv: "slabs_inv slabs held" and g: "g < length (groups slabs)" and new: "new_slab g slab"
    and es: "entry_size slab = group_entry_size slabs g"
    and sid: "store slabs sid = None"
    and t: "slab_alloc_take g sid slab slabs = Some (e, slabs')"
  shows "slabs_inv slabs' (e # held)" "same_config slabs slabs'"
    "dom (store slabs') = insert sid (dom (store slabs))" "fst e = sid"
proof -
  let ?s1 = "slabs\<lparr>groups := (groups slabs)[g := sid # groups slabs ! g], store := (store slabs)(sid \<mapsto> slab)\<rparr>"
  obtain i rest where fr: "free slab = i # rest" using new by (cases "free slab") (auto simp: new_slab_def)
  let ?slab = "slab\<lparr>free := rest, num_free := num_free slab - 1\<rparr>"
  have s': "e = (sid, i)" "slabs' = ?s1\<lparr>store := (store slabs)(sid \<mapsto> ?slab)\<rparr>"
    using t fr by (auto simp: slab_alloc_take_def take_entry_def)
  show "same_config slabs slabs'" "dom (store slabs') = insert sid (dom (store slabs))" "fst e = sid"
    using s' by (auto simp: same_config_def)
  have n: "num_entries slab = Suc (length rest)"
    using new fr distinct_card[of "free slab"] by (simp add: new_slab_def)
  have none: "count_list (reclaim slabs) (sid, j) = 0" "count_list held (sid, j) = 0" for j
    using slabs_invD(3,4)[OF inv, of "(sid, j)"] sid by (auto simp: count_list_0_iff)
  have cnt: "count_list (free slab) j = of_bool (j < num_entries slab)" for j
  proof -
    have "j \<in> set (free slab) \<longleftrightarrow> j < num_entries slab" using new by (simp add: new_slab_def)
    moreover have "count_list (free slab) j = of_bool (j \<in> set (free slab))"
      using new by (simp add: new_slab_def distinct_count_list)
    ultimately show ?thesis by simp
  qed
  have "slab_places slabs' (e # held) sid' slab'" if "store slabs' sid' = Some slab'" for sid' slab'
    unfolding slab_places_def
  proof
    fix j
    show "count_list (free slab') j + count_list (reclaim slabs') (sid', j) + count_list (e # held) (sid', j) =
        of_bool (j < num_entries slab')"
    proof (cases "sid' = sid")
      case True
      then show ?thesis using that cnt[of j] none fr s'
        by (cases "j = i") (auto simp: of_bool_def split: if_splits)
    next
      case False
      then have s: "store slabs sid' = Some slab'" using that s' by simp
      show ?thesis
        using spec[OF slabs_invD(1)[OF inv s, unfolded slab_places_def], of j] False s' by simp
    qed
  qed
  moreover have "slab_wf slabs' sid' slab'" if "store slabs' sid' = Some slab'" for sid' slab'
  proof (cases "sid' = sid")
    case True
    then have "slab' = ?slab" using that s' by simp
    then show ?thesis using True new n g es unfolding s'(2) by (simp add: slab_wf_def new_slab_def)
  next
    case False
    then have "slab_wf slabs sid' slab'" using that slabs_invD(2)[OF inv] s' by simp
    then show ?thesis using g unfolding s'(2) by (cases "group_index slab' = g") (auto simp: slab_wf_def)
  qed
  moreover have "groups_wf slabs'"
    unfolding groups_wf_def
  proof (intro allI impI conjI ballI)
    fix k assume "k < length (groups slabs')"
    then have k: "k < length (groups slabs)" using s' by simp
    have gw: "distinct (groups slabs ! k)" "\<And>x. x \<in> set (groups slabs ! k) \<Longrightarrow>
        \<exists>slab. store slabs x = Some slab \<and> group_index slab = k"
      using slabs_invD(5)[OF inv] k by (auto simp: groups_wf_def)
    then have ng: "sid \<notin> set (groups slabs ! k)" using sid by fastforce
    show "distinct (groups slabs' ! k)" using gw(1) ng k s' by (cases "k = g") auto
    fix x assume x: "x \<in> set (groups slabs' ! k)"
    show "\<exists>slab. store slabs' x = Some slab \<and> group_index slab = k"
      using gw(2)[of x] x ng k s' new by (cases "k = g"; cases "x = sid") (auto simp: new_slab_def)
  qed
  moreover have "store slabs' (fst e') \<noteq> None" if "e' \<in> set (reclaim slabs') \<union> set (e # held)" for e'
    using that slabs_invD(3,4)[OF inv, of e'] s' by auto
  ultimately show "slabs_inv slabs' (e # held)" unfolding slabs_inv_def by blast
qed

text \<open>An entry a client holds is held once and is neither free nor waiting to be reclaimed.\<close>

lemma held_entry:
  assumes inv: "slabs_inv slabs held" and e: "e \<in> set held"
  shows "count_list held e = 1" "e \<notin> set (reclaim slabs)"
    "\<exists>slab. store slabs (fst e) = Some slab \<and> snd e \<notin> set (free slab) \<and> snd e < num_entries slab \<and>
       entry_size slab = group_entry_size slabs (group_index slab)"
proof -
  obtain slab where sl: "store slabs (fst e) = Some slab" using slabs_invD(4)[OF assms] by blast
  have c: "count_list (free slab) (snd e) + count_list (reclaim slabs) e + count_list held e =
      of_bool (snd e < num_entries slab)"
    using slabs_invD(1)[OF inv sl] unfolding slab_places_def by (auto dest!: spec[of _ "snd e"])
  have "count_list held e \<noteq> 0" using e by (simp add: count_list_0_iff)
  then have n: "count_list held e = 1" "count_list (reclaim slabs) e = 0" "count_list (free slab) (snd e) = 0"
      "snd e < num_entries slab"
    using c by (auto simp: of_bool_def split: if_splits)
  then show "count_list held e = 1" "e \<notin> set (reclaim slabs)" by (auto simp: count_list_0_iff)
  show "\<exists>slab. store slabs (fst e) = Some slab \<and> snd e \<notin> set (free slab) \<and> snd e < num_entries slab \<and>
       entry_size slab = group_entry_size slabs (group_index slab)"
    using n sl slabs_invD(2)[OF inv sl] by (auto simp: count_list_0_iff slab_wf_def)
qed

lemma held_distinct: "slabs_inv slabs held \<Longrightarrow> distinct held"
  by (rule distinct_count) (metis count_list_0_iff held_entry(1) le_numeral_extra(4) zero_le_one)

section \<open>Entry sizes and group indices\<close>

lemma util_logbase2_bounds:
  assumes "0 < n" "n < 2 ^ 32"
  shows "2 ^ util_logbase2 n \<le> n" "n < 2 ^ (util_logbase2 n + 1)"
proof -
  have "\<exists>k<32. n < 2 ^ (k + 1)" using assms(2) by (intro exI[of _ 31]) simp
  then obtain k where k: "find (\<lambda>k. n < 2 ^ (k + 1)) [0..<32] = Some k"
    by (cases "find (\<lambda>k. n < 2 ^ (k + 1)) [0..<32]") (auto simp: find_None_iff)
  have l: "util_logbase2 n = k" unfolding util_logbase2_def k by simp
  have f: "n < 2 ^ (k + 1)" "\<forall>j<k. \<not> n < 2 ^ (j + 1)" "k < 32"
    using k by (auto simp: find_Some_iff)
  show "n < 2 ^ (util_logbase2 n + 1)" using l f by simp
  show "2 ^ util_logbase2 n \<le> n" using l f(2)[THEN spec, of "k - 1"] assms(1) by (cases k) auto
qed

lemma util_logbase2_ceil_le: "n < 2 ^ 32 \<Longrightarrow> n \<le> 2 ^ util_logbase2_ceil n"
  using util_logbase2_bounds(2)[of "n - 1"]
  by (cases "n \<le> 1"; cases n) (auto simp: util_logbase2_ceil_def)

lemma alloc_entry_size_ge: "sz < 2 ^ 32 \<Longrightarrow> sz \<le> alloc_entry_size slabs sz"
proof -
  assume "sz < 2 ^ 32"
  then have "sz \<le> 2 ^ util_logbase2_ceil sz" by (rule util_logbase2_ceil_le)
  also have "\<dots> \<le> 2 ^ alloc_order slabs sz" by (rule power_increasing) (simp_all add: alloc_order_def)
  finally show ?thesis by (simp add: alloc_entry_size_def alloc_three_fourths_def)
qed

lemma alloc_entry_size_bounds:
  assumes "alloc_asserts slabs sz heap" "0 < min_order slabs"
  shows "0 < alloc_entry_size slabs sz" "alloc_entry_size slabs sz \<le> 2 ^ (min_order slabs + num_orders slabs - 1)"
proof -
  have o: "1 \<le> alloc_order slabs sz" "alloc_order slabs sz \<le> min_order slabs + num_orders slabs - 1"
    using assms by (auto simp: alloc_asserts_def alloc_order_def)
  have p: "2 \<le> (2 :: nat) ^ alloc_order slabs sz" using power_increasing[OF o(1), of "2 :: nat"] by simp
  show "0 < alloc_entry_size slabs sz" using p by (auto simp: alloc_entry_size_def)
  have "alloc_entry_size slabs sz \<le> 2 ^ alloc_order slabs sz" by (auto simp: alloc_entry_size_def)
  then show "alloc_entry_size slabs sz \<le> 2 ^ (min_order slabs + num_orders slabs - 1)"
    using power_increasing[OF o(2), of "2 :: nat"] by linarith
qed

text \<open>The group index can be taken apart again: heap, order and the three-fourths bit.\<close>

lemma alloc_group_index_parts:
  assumes "alloc_asserts slabs sz heap"
  defines "n \<equiv> 1 + of_bool (allow_three_fourths_allocations slabs)"
  shows "alloc_group_index slabs sz heap mod n = of_bool (alloc_three_fourths slabs sz)"
    "alloc_group_index slabs sz heap div n mod num_orders slabs = alloc_order slabs sz - min_order slabs"
    "alloc_group_index slabs sz heap div n div num_orders slabs = heap"
    "alloc_group_index slabs sz heap < num_orders slabs * num_heaps slabs * n"
proof -
  let ?o = "alloc_order slabs sz - min_order slabs" and ?t = "of_bool (alloc_three_fourths slabs sz) :: nat"
  have o: "?o < num_orders slabs" "heap < num_heaps slabs" "min_order slabs \<le> alloc_order slabs sz"
    using assms(1) by (auto simp: alloc_asserts_def alloc_order_def)
  have t: "?t < n" by (auto simp: n_def alloc_three_fourths_def)
  have e: "alloc_group_index slabs sz heap = (heap * num_orders slabs + ?o) * n + ?t"
    by (simp add: alloc_group_index_def n_def)
  show "alloc_group_index slabs sz heap mod n = ?t" unfolding e using t by simp
  have d: "alloc_group_index slabs sz heap div n = heap * num_orders slabs + ?o" unfolding e using t by simp
  show "alloc_group_index slabs sz heap div n mod num_orders slabs = ?o"
    "alloc_group_index slabs sz heap div n div num_orders slabs = heap"
    unfolding d using o(1) by simp_all
  have "heap * num_orders slabs + ?o < Suc heap * num_orders slabs" using o(1) by simp
  also have "\<dots> \<le> num_heaps slabs * num_orders slabs" using o(2) by (intro mult_le_mono1) simp
  finally have "Suc (heap * num_orders slabs + ?o) * n \<le> num_heaps slabs * num_orders slabs * n"
    by (intro mult_le_mono1) simp
  moreover have "alloc_group_index slabs sz heap < Suc (heap * num_orders slabs + ?o) * n" unfolding e using t by simp
  ultimately show "alloc_group_index slabs sz heap < num_orders slabs * num_heaps slabs * n"
    by (simp add: mult.commute)
qed

lemma group_entry_size_alloc:
  assumes "alloc_asserts slabs sz heap"
  shows "group_entry_size slabs (alloc_group_index slabs sz heap) = alloc_entry_size slabs sz"
  using alloc_group_index_parts(1,2)[OF assms] assms
  by (auto simp: group_entry_size_def alloc_entry_size_def Let_def alloc_asserts_def alloc_order_def)

lemma group_entry_size_config:
  "same_config slabs slabs' \<Longrightarrow> group_entry_size slabs' g = group_entry_size slabs g"
  by (simp add: same_config_def group_entry_size_def)

definition config_ok :: "nat \<Rightarrow> nat \<Rightarrow> pb_slabs \<Rightarrow> bool" where
  "config_ok lo n slabs \<longleftrightarrow> min_order slabs = lo \<and> num_orders slabs = n \<and> 0 < lo \<and>
     length (groups slabs) =
       num_orders slabs * num_heaps slabs * (1 + of_bool (allow_three_fourths_allocations slabs))"

lemma config_ok_same: "config_ok lo n slabs \<Longrightarrow> same_config slabs slabs' \<Longrightarrow> config_ok lo n slabs'"
  by (simp add: config_ok_def same_config_def)

lemma config_ok_index: "config_ok lo n slabs \<Longrightarrow> alloc_asserts slabs sz heap \<Longrightarrow>
    alloc_group_index slabs sz heap < length (groups slabs)"
  using alloc_group_index_parts(4)[of slabs sz heap] by (simp add: config_ok_def)

section \<open>Interleaved threads\<close>

text \<open>
  The manager, the winsys state behind the callbacks, the entries clients hold, and the slabs that
  threads have got from \<open>slab_alloc\<close> but not linked yet.
\<close>

record 'p slab_sys =
  slabs :: pb_slabs
  priv :: 'p
  held :: "entry list"
  pending :: "(nat \<times> nat \<times> pb_slab) list"

inductive slab_step ::
    "('x \<Rightarrow> 'p \<Rightarrow> nat \<Rightarrow> nat \<Rightarrow> nat \<Rightarrow> (nat \<times> pb_slab) option \<times> 'p) \<Rightarrow> ('p \<Rightarrow> nat \<Rightarrow> pb_slab \<Rightarrow> 'p) \<Rightarrow>
     ('p \<Rightarrow> 'p \<Rightarrow> bool) \<Rightarrow> 'p slab_sys \<Rightarrow> 'p slab_sys \<Rightarrow> bool"
    for slab_alloc slab_free other where
  lookup: "alloc_asserts (slabs s) sz heap \<Longrightarrow>
     slab_alloc_lookup can_reclaim slab_free (alloc_group_index (slabs s) sz heap) all (slabs s, priv s) = (r, sl, p) \<Longrightarrow>
     slab_step slab_alloc slab_free other s
       (s\<lparr>slabs := sl, priv := p, held := (case r of None \<Rightarrow> held s | Some e \<Rightarrow> e # held s)\<rparr>)"
| new: "alloc_asserts (slabs s) sz heap \<Longrightarrow>
     g = alloc_group_index (slabs s) sz heap \<Longrightarrow>
     slab_alloc x (priv s) heap (alloc_entry_size (slabs s) sz) g = (r, p) \<Longrightarrow>
     slab_step slab_alloc slab_free other s
       (s\<lparr>priv := p, pending := (case r of None \<Rightarrow> pending s | Some (sid, slab) \<Rightarrow> (g, sid, slab) # pending s)\<rparr>)"
| take_new: "(g, sid, slab) \<in> set (pending s) \<Longrightarrow> slab_alloc_take g sid slab (slabs s) = Some (e, sl) \<Longrightarrow>
     slab_step slab_alloc slab_free other s
       (s\<lparr>slabs := sl, held := e # held s, pending := remove1 (g, sid, slab) (pending s)\<rparr>)"
| free: "e \<in> set (held s) \<Longrightarrow>
     slab_step slab_alloc slab_free other s (s\<lparr>slabs := pb_slab_free e (slabs s), held := remove1 e (held s)\<rparr>)"
| reclaim: "pb_slabs_reclaim can_reclaim slab_free (slabs s, priv s) = (n, sl, p) \<Longrightarrow>
     slab_step slab_alloc slab_free other s (s\<lparr>slabs := sl, priv := p\<rparr>)"
| other: "other (priv s) p \<Longrightarrow> slab_step slab_alloc slab_free other s (s\<lparr>priv := p\<rparr>)"

text \<open>
  The contract of the callbacks, from pb_slab.h. \<open>slab_alloc x\<close> is an attempt to make a slab, with
  \<open>x\<close> what the environment answers; \<open>other\<close> is what the rest of the winsys does to its state;
  \<open>live\<close> is the set of slabs handed out and not given back. The entry sizes are those of a manager
  with orders from \<open>lo\<close> to \<open>lo + n - 1\<close>.
\<close>

locale slab_backend =
  fixes slab_alloc :: "'x \<Rightarrow> 'p \<Rightarrow> nat \<Rightarrow> nat \<Rightarrow> nat \<Rightarrow> (nat \<times> pb_slab) option \<times> 'p"
    and slab_free :: "'p \<Rightarrow> nat \<Rightarrow> pb_slab \<Rightarrow> 'p"
    and other :: "'p \<Rightarrow> 'p \<Rightarrow> bool"
    and live :: "'p \<Rightarrow> nat set"
    and pok :: "'p \<Rightarrow> bool"
    and lo n :: nat
  assumes alloc_new: "slab_alloc x p heap es g = (Some (sid, slab), p') \<Longrightarrow> pok p \<Longrightarrow> 0 < es \<Longrightarrow>
      es \<le> 2 ^ (lo + n - 1) \<Longrightarrow>
      pok p' \<and> sid \<notin> live p \<and> live p' = insert sid (live p) \<and> new_slab g slab \<and> entry_size slab = es"
    and alloc_fail: "slab_alloc x p heap es g = (None, p') \<Longrightarrow> pok p \<Longrightarrow> 0 < es \<Longrightarrow>
      es \<le> 2 ^ (lo + n - 1) \<Longrightarrow> pok p' \<and> live p' = live p"
    and free_live: "pok p \<Longrightarrow> sid \<in> live p \<Longrightarrow>
      pok (slab_free p sid slab) \<and> live (slab_free p sid slab) = live p - {sid}"
    and other_live: "other p p' \<Longrightarrow> pok p \<Longrightarrow> pok p' \<and> live p' = live p"
begin

definition sys_inv :: "'p slab_sys \<Rightarrow> bool" where
  "sys_inv s \<longleftrightarrow>
     config_ok lo n (slabs s) \<and> pok (priv s) \<and> slabs_inv (slabs s) (held s) \<and>
     live (priv s) = dom (store (slabs s)) \<union> (fst \<circ> snd) ` set (pending s) \<and>
     distinct (map (fst \<circ> snd) (pending s)) \<and>
     (\<forall>g sid slab. (g, sid, slab) \<in> set (pending s) \<longrightarrow> g < length (groups (slabs s)) \<and>
        new_slab g slab \<and> entry_size slab = group_entry_size (slabs s) g \<and> store (slabs s) sid = None)"

lemma released_sys:
  assumes "sys_inv s" "released live (slabs s, priv s) (sl, p)" "slabs_inv sl h" "pok p"
  shows "sys_inv (s\<lparr>slabs := sl, priv := p, held := h\<rparr>)"
proof -
  have d: "dom (store sl) \<subseteq> dom (store (slabs s))" "live p = live (priv s) - (dom (store (slabs s)) - dom (store sl))"
    "length (groups sl) = length (groups (slabs s))" "same_config (slabs s) sl"
    using assms(2) by (auto simp: released_def same_config_def)
  note cfg = group_entry_size_config[OF d(4)] config_ok_same[OF _ d(4)]
  have none: "store (slabs s) sid = None" if "(g, sid, slab) \<in> set (pending s)" for g sid slab
    using assms(1) that by (auto simp: sys_inv_def)
  then have "dom (store (slabs s)) \<inter> (fst \<circ> snd) ` set (pending s) = {}" by (auto simp: domIff)
  moreover have "live (priv s) = dom (store (slabs s)) \<union> (fst \<circ> snd) ` set (pending s)"
    using assms(1) by (simp add: sys_inv_def)
  moreover have gen: "l1 = D1 \<union> P" if "D \<inter> P = {}" "l = D \<union> P" "D1 \<subseteq> D" "l1 = l - (D - D1)"
    for D P D1 l l1 :: "nat set" using that by auto
  ultimately have "live p = dom (store sl) \<union> (fst \<circ> snd) ` set (pending s)"
    by (intro gen[OF _ _ d(1,2)])
  moreover have "store sl sid = None" if "(g, sid, slab) \<in> set (pending s)" for g sid slab
    using none[OF that] d(1) by (metis domIff subsetD)
  ultimately show ?thesis using assms(1,3,4) d(3) cfg by (auto simp: sys_inv_def)
qed

lemma step_inv: "slab_step slab_alloc slab_free other s s' \<Longrightarrow> sys_inv s \<Longrightarrow> sys_inv s'"
proof (induction rule: slab_step.induct)
  case (lookup s sz heap can_reclaim all r sl p)
  have "dom (store (slabs s)) \<subseteq> live (priv s)" "slabs_inv (slabs s) (held s)" "config_ok lo n (slabs s)"
    "pok (priv s)"
    using lookup(3) by (auto simp: sys_inv_def)
  then have "released live (slabs s, priv s) (sl, p) \<and> pok p \<and>
      slabs_inv sl (case r of None \<Rightarrow> held s | Some e \<Rightarrow> e # held s)"
    using lookup_inv[OF _ config_ok_index[OF _ lookup(1)] free_live _ _ lookup(2)] by (cases r) auto
  then show ?case using released_sys[OF lookup(3)] by blast
next
  case (new s sz heap g x r p)
  have c: "config_ok lo n (slabs s)" "pok (priv s)" using new(4) by (simp_all add: sys_inv_def)
  have es: "0 < alloc_entry_size (slabs s) sz" "alloc_entry_size (slabs s) sz \<le> 2 ^ (lo + n - 1)"
    using alloc_entry_size_bounds[OF new(1)] c(1) by (auto simp: config_ok_def)
  show ?case
  proof (cases r)
    case None
    then show ?thesis using new(4) alloc_fail[OF new(3)[unfolded None] c(2) es] by (auto simp: sys_inv_def)
  next
    case (Some sl)
    obtain sid slab where sl: "r = Some (sid, slab)" using Some by (cases sl) auto
    from alloc_new[OF new(3)[unfolded sl] c(2) es] have a: "pok p" "sid \<notin> live (priv s)" "live p = insert sid (live (priv s))"
      "new_slab g slab" "entry_size slab = group_entry_size (slabs s) g" "g < length (groups (slabs s))"
      using group_entry_size_alloc[OF new(1)] config_ok_index[OF c(1) new(1)] new(2) by auto
    then show ?thesis using new(4) sl by (auto simp: sys_inv_def)
  qed
next
  case (take_new g sid slab s e sl)
  have i: "slabs_inv (slabs s) (held s)" "g < length (groups (slabs s))" "new_slab g slab"
    "entry_size slab = group_entry_size (slabs s) g" "store (slabs s) sid = None"
    using take_new(1,3) by (auto simp: sys_inv_def)
  note t = take_new_inv[OF i take_new(2)]
  have p: "distinct (map (fst \<circ> snd) (pending s))" using take_new(3) by (simp add: sys_inv_def)
  obtain xs ys where xs: "pending s = xs @ (g, sid, slab) # ys" using split_list[OF take_new(1)] by blast
  have "(g, sid, slab) \<notin> set xs" using p unfolding xs by force
  then have r: "remove1 (g, sid, slab) (pending s) = xs @ ys" unfolding xs by (simp add: remove1_append)
  have "store sl x = None" if "(g', x, slab') \<in> set (xs @ ys)" for g' x slab'
  proof -
    have "x \<noteq> sid" using that p unfolding xs by force
    moreover have "store (slabs s) x = None" using that take_new(3) xs by (auto simp: sys_inv_def)
    ultimately have "x \<notin> dom (store sl)" unfolding t(3) by (simp add: domIff)
    then show ?thesis by (simp add: domIff)
  qed
  moreover have "live (priv s) = dom (store sl) \<union> (fst \<circ> snd) ` set (xs @ ys)"
    using take_new(3) unfolding sys_inv_def xs t(3) by auto
  moreover note group_entry_size_config[OF t(2)] config_ok_same[OF _ t(2)]
  ultimately show ?case
    using take_new(3) t(1,2) r p unfolding sys_inv_def xs by (auto simp: same_config_def)
next
  case (free e s)
  have i: "slabs_inv (slabs s) (held s)" using free(2) by (simp add: sys_inv_def)
  have "slabs_inv (pb_slab_free e (slabs s)) (remove1 e (held s))"
    by (rule free_inv[OF i free(1)])
  then show ?case using free(2) by (auto simp: sys_inv_def pb_slab_free_def config_ok_def)
next
  case (reclaim can_reclaim s k sl p)
  have i: "slabs_inv (slabs s) (held s)" "dom (store (slabs s)) \<subseteq> live (priv s)" "pok (priv s)"
    using reclaim(2) by (auto simp: sys_inv_def)
  have e: "(sl, p) = fold (pb_slab_reclaim slab_free) (reclaimed can_reclaim 0 (PbSlab.reclaim (slabs s))) (slabs s, priv s)"
    using reclaim(1) by (simp add: pb_slabs_reclaim_def pb_slabs_reclaim_locked_def reclaim_loop_fold)
  have "slabs_inv sl (held s) \<and> released live (slabs s, priv s) (sl, p) \<and> pok p"
    using fold_reclaim_inv[of "(slabs s, priv s)" "held s" "reclaimed can_reclaim 0 (PbSlab.reclaim (slabs s))" pok live slab_free]
      i reclaimed_sub(1)[of can_reclaim 0 "PbSlab.reclaim (slabs s)"]
      reclaimed_sub(2)[OF reclaim_distinct[OF i(1)], of can_reclaim 0] free_live
    unfolding e[symmetric] by simp
  then show ?case using released_sys[OF reclaim(2), of sl p "held s"] by simp
next
  case (other s p)
  then show ?case using other_live[OF other(1)] by (simp add: sys_inv_def)
qed

lemma reachable_inv: "(slab_step slab_alloc slab_free other)\<^sup>*\<^sup>* s s' \<Longrightarrow> sys_inv s \<Longrightarrow> sys_inv s'"
  by (induction rule: rtranclp_induct) (auto intro: step_inv)

end

end
