(* ===== verification/PbCache.thy ===== *)
theory PbCache
  imports Prelude "HOL-Library.Multiset"
begin

text \<open>
  The buffer cache of gallium/auxiliary/pipebuffer/pb_cache.c: unused buffers wait in one list per
  bucket, oldest first, until they are asked for again, expire, or have to make room.

  A cached buffer is a record that a driver extends with its own fields, the way the C structure
  embeds \<open>pb_cache_entry\<close>. A \<open>list_head\<close> list is an Isabelle list. The winsys behind the callbacks is
  a state of any type: \<open>destroy\<close> is the callback \<open>destroy_buffer\<close>, \<open>can\<close> what \<open>can_reclaim\<close> answers for
  each buffer, and the microseconds that \<open>os_time_get\<close> returns are arguments. Every operation holds
  the lock from start to end and is one step. The assertions of the code are invariants here
  (\<open>cache_inv\<close>).
\<close>

section \<open>Data\<close>

record pb_buffer =
  buf :: nat
  refs :: nat
  placement :: "32 word"
  usage :: "32 word"
  buf_size :: nat
  alignment_log2 :: nat
  bucket_index :: nat
  start_ms :: "32 word"

record 'b pb_cache =
  buckets :: "'b list list"
  cache_size :: "64 word"
  max_cache_size :: "64 word"
  cache_num_heaps :: nat
  msecs :: "32 word"
  msecs_base_time :: int
  num_buffers :: "32 word"
  bypass_usage :: "32 word"
  size_factor :: nat

section \<open>Time\<close>

definition time_timeout_ms :: "32 word \<Rightarrow> 32 word \<Rightarrow> 32 word \<Rightarrow> bool" where
  "time_timeout_ms start interval cur =
     (let tend = start + interval
      in if start \<le> tend then \<not> (start \<le> cur \<and> cur < tend)
         else \<not> (start \<le> cur \<or> cur < tend))"

definition time_get_ms :: "'b pb_cache \<Rightarrow> int \<Rightarrow> 32 word" where
  "time_get_ms mgr os_time = word_of_int (os_time div 1000 - msecs_base_time mgr)"

section \<open>The size limit\<close>

text \<open>
  \<open>size_factor\<close> is a \<open>float\<close>; the model keeps twice its value, 2 for 1.0 and 3 for 1.5. The product
  \<open>size_factor * size\<close> converts the size to \<open>float\<close> and rounds again, both times to 24 significant
  bits, ties to even. The conversion back to \<open>unsigned\<close> is undefined from \<open>2^32\<close> on; \<open>oob\<close> is
  whatever the machine makes of it.
\<close>

definition float_round :: "nat \<Rightarrow> nat" where
  "float_round x =
     (case find (\<lambda>k. x < 2 ^ (24 + k)) [0..<64] of
        None \<Rightarrow> x
      | Some 0 \<Rightarrow> x
      | Some k \<Rightarrow>
          let q = x div 2 ^ k; r = x mod 2 ^ k; half = 2 ^ (k - 1)
          in (if half < r \<or> r = half \<and> odd q then q + 1 else q) * 2 ^ k)"

definition float_to_unsigned :: "(nat \<Rightarrow> 32 word) \<Rightarrow> nat \<Rightarrow> nat" where
  "float_to_unsigned oob x = (if x < 2 ^ 32 then x else unat (oob x))"

definition size_limit :: "(nat \<Rightarrow> 32 word) \<Rightarrow> 'b pb_cache \<Rightarrow> nat \<Rightarrow> nat" where
  "size_limit oob mgr sz =
     float_to_unsigned oob (float_round (size_factor mgr * float_round sz) div 2)"

lemma float_round_small: "x < 2 ^ 24 \<Longrightarrow> float_round x = x"
  unfolding float_round_def upt_conv_Cons[OF zero_less_numeral] by simp

section \<open>Releasing\<close>

definition destroy_buffer_locked ::
    "('w \<Rightarrow> 'a pb_buffer_scheme \<Rightarrow> 'w) \<Rightarrow> 'a pb_buffer_scheme \<Rightarrow> 'a pb_buffer_scheme pb_cache \<times> 'w \<Rightarrow>
     'a pb_buffer_scheme pb_cache \<times> 'w" where
  "destroy_buffer_locked destroy b = (\<lambda>(mgr, w).
     let cache = buckets mgr ! bucket_index b
     in (if b \<in> set cache
         then mgr\<lparr>buckets := (buckets mgr)[bucket_index b := remove1 b cache],
                  num_buffers := num_buffers mgr - 1,
                  cache_size := cache_size mgr - of_nat (buf_size b)\<rparr>
         else mgr,
         destroy w b))"

fun release_expired_loop ::
    "('w \<Rightarrow> 'a pb_buffer_scheme \<Rightarrow> 'w) \<Rightarrow> 32 word \<Rightarrow> 'a pb_buffer_scheme list \<Rightarrow>
     'a pb_buffer_scheme pb_cache \<times> 'w \<Rightarrow> 'a pb_buffer_scheme pb_cache \<times> 'w" where
  "release_expired_loop destroy now [] st = st"
| "release_expired_loop destroy now (e # es) st =
     (if \<not> time_timeout_ms (start_ms e) (msecs (fst st)) now then st
      else release_expired_loop destroy now es (destroy_buffer_locked destroy e st))"

definition release_expired_buffers_locked ::
    "('w \<Rightarrow> 'a pb_buffer_scheme \<Rightarrow> 'w) \<Rightarrow> 32 word \<Rightarrow> nat \<Rightarrow>
     'a pb_buffer_scheme pb_cache \<times> 'w \<Rightarrow> 'a pb_buffer_scheme pb_cache \<times> 'w" where
  "release_expired_buffers_locked destroy now i st =
     release_expired_loop destroy now (buckets (fst st) ! i) st"

definition pb_cache_release_all_buffers ::
    "('w \<Rightarrow> 'a pb_buffer_scheme \<Rightarrow> 'w) \<Rightarrow> 'a pb_buffer_scheme pb_cache \<times> 'w \<Rightarrow>
     nat \<times> 'a pb_buffer_scheme pb_cache \<times> 'w" where
  "pb_cache_release_all_buffers destroy st =
     fold (\<lambda>i (n, st).
         (n + length (buckets (fst st) ! i),
          fold (destroy_buffer_locked destroy) (buckets (fst st) ! i) st))
       [0..<cache_num_heaps (fst st)] (0, st)"

section \<open>Adding\<close>

definition pb_cache_add_buffer ::
    "('w \<Rightarrow> 'a pb_buffer_scheme \<Rightarrow> 'w) \<Rightarrow> int \<Rightarrow> int \<Rightarrow> 'a pb_buffer_scheme \<Rightarrow>
     'a pb_buffer_scheme pb_cache \<times> 'w \<Rightarrow> 'a pb_buffer_scheme pb_cache \<times> 'w" where
  "pb_cache_add_buffer destroy t1 t2 b st =
     (let current_time_ms = time_get_ms (fst st) t1;
          (mgr, w) = fold (release_expired_buffers_locked destroy current_time_ms)
                       [0..<cache_num_heaps (fst st)] st;
          entry = b\<lparr>start_ms := time_get_ms mgr t2\<rparr>;
          i = bucket_index b
      in if max_cache_size mgr < cache_size mgr + of_nat (buf_size b) then (mgr, destroy w b)
         else (mgr\<lparr>buckets := (buckets mgr)[i := buckets mgr ! i @ [entry]],
                   num_buffers := num_buffers mgr + 1,
                   cache_size := cache_size mgr + of_nat (buf_size b)\<rparr>, w))"

section \<open>Reclaiming\<close>

definition pb_check_alignment :: "nat \<Rightarrow> nat \<Rightarrow> bool" where
  "pb_check_alignment requested provided =
     (if requested = 0 then True
      else if provided < requested then False
      else if provided mod requested \<noteq> 0 then False
      else True)"

definition pb_check_usage :: "32 word \<Rightarrow> 32 word \<Rightarrow> bool" where
  "pb_check_usage requested provided \<longleftrightarrow> requested AND provided = requested"

definition pb_cache_is_buffer_compat ::
    "(nat \<Rightarrow> 32 word) \<Rightarrow> ('a pb_buffer_scheme \<Rightarrow> bool) \<Rightarrow> nat \<Rightarrow> nat \<Rightarrow> 32 word \<Rightarrow>
     'a pb_buffer_scheme pb_cache \<Rightarrow> 'a pb_buffer_scheme \<Rightarrow> int" where
  "pb_cache_is_buffer_compat oob can sz alignment use mgr b =
     (if \<not> pb_check_usage use (usage b) then 0
      else if buf_size b < sz \<or> size_limit oob mgr sz < buf_size b then 0
      else if use AND bypass_usage mgr \<noteq> 0 then 0
      else if \<not> pb_check_alignment alignment (2 ^ alignment_log2 b) then 0
      else if can b then 1 else -1)"

text \<open>
  The search among the expired buffers. The arguments \<open>entry\<close> and \<open>ret\<close> are the local variables of
  the C code; the result adds the part of the list from \<open>cur\<close> on.
\<close>

fun search_expired ::
    "('a pb_buffer_scheme pb_cache \<Rightarrow> 'a pb_buffer_scheme \<Rightarrow> int) \<Rightarrow>
     ('w \<Rightarrow> 'a pb_buffer_scheme \<Rightarrow> 'w) \<Rightarrow> 32 word \<Rightarrow> 'a pb_buffer_scheme list \<Rightarrow>
     'a pb_buffer_scheme option \<Rightarrow> int \<Rightarrow> 'a pb_buffer_scheme pb_cache \<times> 'w \<Rightarrow>
     'a pb_buffer_scheme option \<times> int \<times> 'a pb_buffer_scheme list \<times> 'a pb_buffer_scheme pb_cache \<times> 'w" where
  "search_expired cmp destroy now [] entry ret st = (entry, ret, [], st)"
| "search_expired cmp destroy now (cur # rest) entry ret st =
     (let ret1 = (if entry = None then cmp (fst st) cur else ret)
      in if entry = None \<and> 0 < ret1
         then search_expired cmp destroy now rest (Some cur) ret1 st
         else if time_timeout_ms (start_ms cur) (msecs (fst st)) now
         then (if ret1 = -1 then (entry, ret1, cur # rest, destroy_buffer_locked destroy cur st)
               else search_expired cmp destroy now rest entry ret1 (destroy_buffer_locked destroy cur st))
         else (entry, ret1, cur # rest, st))"

fun search_hot :: "('b \<Rightarrow> int) \<Rightarrow> 'b list \<Rightarrow> 'b option" where
  "search_hot cmp [] = None"
| "search_hot cmp (cur # rest) =
     (let ret = cmp cur
      in if 0 < ret then Some cur else if ret = -1 then None else search_hot cmp rest)"

definition pb_cache_reclaim_buffer ::
    "(nat \<Rightarrow> 32 word) \<Rightarrow> ('a pb_buffer_scheme \<Rightarrow> bool) \<Rightarrow> ('w \<Rightarrow> 'a pb_buffer_scheme \<Rightarrow> 'w) \<Rightarrow> int \<Rightarrow>
     nat \<Rightarrow> nat \<Rightarrow> 32 word \<Rightarrow> nat \<Rightarrow> 'a pb_buffer_scheme pb_cache \<times> 'w \<Rightarrow>
     'a pb_buffer_scheme option \<times> 'a pb_buffer_scheme pb_cache \<times> 'w" where
  "pb_cache_reclaim_buffer oob can destroy t sz alignment use i st =
     (let cmp = pb_cache_is_buffer_compat oob can sz alignment use;
          (entry0, ret, cur, mgr, w) =
            search_expired cmp destroy (time_get_ms (fst st) t) (buckets (fst st) ! i) None 0 st;
          entry = (if entry0 = None \<and> ret \<noteq> -1 then search_hot (cmp mgr) cur else entry0)
      in case entry of
           None \<Rightarrow> (None, mgr, w)
         | Some b \<Rightarrow>
             (Some (b\<lparr>refs := 1\<rparr>),
              mgr\<lparr>cache_size := cache_size mgr - of_nat (buf_size b),
                  buckets := (buckets mgr)[i := remove1 b (buckets mgr ! i)],
                  num_buffers := num_buffers mgr - 1\<rparr>, w))"

section \<open>Set-up\<close>

definition pb_cache_init_entry :: "nat \<Rightarrow> 'a pb_buffer_scheme \<Rightarrow> 'a pb_buffer_scheme" where
  "pb_cache_init_entry i b = b\<lparr>start_ms := 0, bucket_index := i\<rparr>"

definition pb_cache_init ::
    "nat \<Rightarrow> 32 word \<Rightarrow> nat \<Rightarrow> 32 word \<Rightarrow> 64 word \<Rightarrow> int \<Rightarrow> 'b pb_cache" where
  "pb_cache_init heaps usecs factor bypass maximum t =
     \<lparr>buckets = replicate heaps [], cache_size = 0, max_cache_size = maximum, cache_num_heaps = heaps,
      msecs = usecs div 1000, msecs_base_time = t div 1000, num_buffers = 0, bypass_usage = bypass,
      size_factor = factor\<rparr>"

definition pb_cache_deinit ::
    "('w \<Rightarrow> 'a pb_buffer_scheme \<Rightarrow> 'w) \<Rightarrow> 'a pb_buffer_scheme pb_cache \<times> 'w \<Rightarrow>
     'a pb_buffer_scheme pb_cache \<times> 'w" where
  "pb_cache_deinit destroy st =
     (let (_, mgr, w) = pb_cache_release_all_buffers destroy st in (mgr\<lparr>buckets := []\<rparr>, w))"

section \<open>Elapsed time\<close>

text \<open>The two-case comparison is the comparison of the elapsed time, counted modulo \<open>2^32\<close>.\<close>

lemma timeout_elapsed: "time_timeout_ms start interval cur \<longleftrightarrow> interval \<le> cur - start"
proof -
  let ?s = "unat start" and ?i = "unat interval" and ?c = "unat cur"
  have b: "?s < 2 ^ 32" "?i < 2 ^ 32" "?c < 2 ^ 32"
    using unsigned_less[of start] unsigned_less[of interval] unsigned_less[of cur] by simp_all
  have sum: "unat (start + interval) = (if ?s + ?i < 2 ^ 32 then ?s + ?i else ?s + ?i - 2 ^ 32)"
    using b unat_plus_if'[of start interval] by simp
  have diff: "unat (cur - start) = (if ?s \<le> ?c then ?c - ?s else 2 ^ 32 + ?c - ?s)"
    using b by (auto simp: unat_sub_if')
  show ?thesis
    unfolding time_timeout_ms_def Let_def word_le_nat_alt word_less_nat_alt sum diff
    using b by (auto split: if_splits)
qed

section \<open>The invariant\<close>

definition cached :: "'b pb_cache \<Rightarrow> 'b list" where
  "cached mgr = concat (buckets mgr)"

definition cache_inv :: "'a pb_buffer_scheme pb_cache \<Rightarrow> bool" where
  "cache_inv mgr \<longleftrightarrow>
     length (buckets mgr) = cache_num_heaps mgr \<and>
     cache_size mgr = of_nat (sum_list (map buf_size (cached mgr))) \<and>
     num_buffers mgr = of_nat (length (cached mgr)) \<and>
     (\<forall>i<length (buckets mgr). \<forall>b\<in>set (buckets mgr ! i). bucket_index b = i \<and> refs b = 0) \<and>
     distinct (map buf (cached mgr))"

definition same_cache_config :: "'b pb_cache \<Rightarrow> 'b pb_cache \<Rightarrow> bool" where
  "same_cache_config mgr mgr' \<longleftrightarrow>
     max_cache_size mgr' = max_cache_size mgr \<and> cache_num_heaps mgr' = cache_num_heaps mgr \<and>
     msecs mgr' = msecs mgr \<and> msecs_base_time mgr' = msecs_base_time mgr \<and>
     bypass_usage mgr' = bypass_usage mgr \<and> size_factor mgr' = size_factor mgr"

text \<open>
  \<open>evicts\<close>: the buffers \<open>ds\<close> left the cache, were given to the destroy callback in that order, and
  nothing else changed.
\<close>

definition evicts ::
    "('w \<Rightarrow> 'a pb_buffer_scheme \<Rightarrow> 'w) \<Rightarrow> 'a pb_buffer_scheme list \<Rightarrow>
     'a pb_buffer_scheme pb_cache \<times> 'w \<Rightarrow> 'a pb_buffer_scheme pb_cache \<times> 'w \<Rightarrow> bool" where
  "evicts destroy ds st st' \<longleftrightarrow>
     cache_inv (fst st') \<and> same_cache_config (fst st) (fst st') \<and>
     mset (cached (fst st)) = mset (cached (fst st')) + mset ds \<and> snd st' = foldl destroy (snd st) ds"

lemma evicts_refl: "cache_inv (fst st) \<Longrightarrow> evicts destroy [] st st"
  by (simp add: evicts_def same_cache_config_def)

lemma evicts_trans:
  "evicts destroy ds a b \<Longrightarrow> evicts destroy es b c \<Longrightarrow> evicts destroy (ds @ es) a c"
  unfolding evicts_def same_cache_config_def by (elim conjE, intro conjI) (simp_all add: ac_simps)

lemma concat_update_mset:
  "i < length xss \<Longrightarrow> mset (concat (xss[i := ys])) + mset (xss ! i) = mset (concat xss) + mset ys"
  by (induction xss arbitrary: i) (auto simp: nth_Cons ac_simps split: nat.split)

lemma mset_sum_length:
  "mset xs = mset ys + mset zs \<Longrightarrow>
   sum_list (map f xs) = sum_list (map f ys) + (sum_list (map f zs) :: nat) \<and>
   length xs = length ys + length zs"
  by (metis length_append map_append mset_append mset_map size_mset sum_list_append sum_mset_sum_list)

lemma mset_distinct_map:
  "mset xs = mset ys + mset zs \<Longrightarrow> distinct (map f xs) \<longleftrightarrow> distinct (map f (ys @ zs))"
  by (metis mset_append mset_eq_imp_distinct_iff mset_map)

lemma in_cached: "b \<in> set (cached mgr) \<longleftrightarrow> (\<exists>i<length (buckets mgr). b \<in> set (buckets mgr ! i))"
  by (force simp: cached_def in_set_conv_nth)

lemma mset_cancel: "A + B = C + D \<Longrightarrow> B = D + X \<Longrightarrow> C = A + (X :: 'a multiset)"
  by (simp add: ac_simps)

text \<open>Taking a buffer out of its bucket, as eviction and reclaiming both do.\<close>

lemma unlink_inv:
  assumes inv: "cache_inv mgr" and i: "i < length (buckets mgr)" and b: "b \<in> set (buckets mgr ! i)"
  defines "mgr' \<equiv> mgr\<lparr>buckets := (buckets mgr)[i := remove1 b (buckets mgr ! i)],
      num_buffers := num_buffers mgr - 1, cache_size := cache_size mgr - of_nat (buf_size b)\<rparr>"
  shows "cache_inv mgr'" "mset (cached mgr) = mset (cached mgr') + {#b#}" "same_cache_config mgr mgr'"
proof -
  have "mset (cached mgr') + mset (buckets mgr ! i) = mset (cached mgr) + mset (remove1 b (buckets mgr ! i))"
    unfolding cached_def mgr'_def using concat_update_mset[OF i] by simp
  moreover have "mset (buckets mgr ! i) = mset (remove1 b (buckets mgr ! i)) + {#b#}" using b by simp
  ultimately show m: "mset (cached mgr) = mset (cached mgr') + {#b#}" by (rule mset_cancel)
  then have s: "sum_list (map buf_size (cached mgr)) = sum_list (map buf_size (cached mgr')) + buf_size b"
    "length (cached mgr) = length (cached mgr') + 1"
    using mset_sum_length[of "cached mgr" "cached mgr'" "[b]" buf_size] by auto
  have "distinct (map buf (cached mgr'))"
    using inv mset_distinct_map[of "cached mgr" "cached mgr'" "[b]" buf] m by (auto simp: cache_inv_def)
  moreover have "bucket_index x = k \<and> refs x = 0" if "k < length (buckets mgr')" "x \<in> set (buckets mgr' ! k)" for k x
  proof -
    have "x \<in> set (buckets mgr ! k)" using that i set_remove1_subset[of b "buckets mgr ! i"] by (cases "k = i") (auto simp: mgr'_def)
    then show ?thesis using inv that(1) by (simp add: cache_inv_def mgr'_def)
  qed
  moreover have "length (buckets mgr') = cache_num_heaps mgr'" using inv by (simp add: cache_inv_def mgr'_def)
  moreover have "cache_size mgr' = of_nat (sum_list (map buf_size (cached mgr')))"
    "num_buffers mgr' = of_nat (length (cached mgr'))"
  proof -
    have "cache_size mgr' = cache_size mgr - of_nat (buf_size b)" "num_buffers mgr' = num_buffers mgr - 1"
      by (simp_all add: mgr'_def)
    moreover have "cache_size mgr = of_nat (sum_list (map buf_size (cached mgr')) + buf_size b)"
      "num_buffers mgr = of_nat (length (cached mgr') + 1)"
      using inv unfolding cache_inv_def s by blast+
    ultimately show "cache_size mgr' = of_nat (sum_list (map buf_size (cached mgr')))"
      "num_buffers mgr' = of_nat (length (cached mgr'))" by simp_all
  qed
  ultimately show "cache_inv mgr'" unfolding cache_inv_def by blast
  show "same_cache_config mgr mgr'" by (simp add: same_cache_config_def mgr'_def)
qed

lemma destroy_evicts:
  assumes "cache_inv (fst st)" "i < length (buckets (fst st))" "b \<in> set (buckets (fst st) ! i)"
  shows "evicts destroy [b] st (destroy_buffer_locked destroy b st)"
proof -
  have "bucket_index b = i" using assms by (auto simp: cache_inv_def)
  then show ?thesis
    using unlink_inv[OF assms] assms(3) by (cases st) (simp add: evicts_def destroy_buffer_locked_def Let_def)
qed

lemma destroy_bucket:
  assumes "cache_inv (fst st)" "i < length (buckets (fst st))" "b \<in> set (buckets (fst st) ! i)"
  shows "buckets (fst (destroy_buffer_locked destroy b st)) = (buckets (fst st))[i := remove1 b (buckets (fst st) ! i)]"
proof -
  have "bucket_index b = i" using assms by (auto simp: cache_inv_def)
  then show ?thesis using assms(3) by (cases st) (simp add: destroy_buffer_locked_def Let_def)
qed

lemma bucket_distinct: "cache_inv mgr \<Longrightarrow> i < length (buckets mgr) \<Longrightarrow> distinct (buckets mgr ! i)"
  by (metis cache_inv_def cached_def distinct_concat_iff distinct_map nth_mem)

lemma fold_destroy_evicts:
  assumes "cache_inv (fst st)" "i < length (buckets (fst st))" "set es \<subseteq> set (buckets (fst st) ! i)" "distinct es"
  shows "evicts destroy es st (fold (destroy_buffer_locked destroy) es st)"
  using assms
proof (induction es arbitrary: st)
  case (Cons e es)
  let ?st = "destroy_buffer_locked destroy e st"
  have e: "e \<in> set (buckets (fst st) ! i)" using Cons.prems by simp
  note ev = destroy_evicts[OF Cons.prems(1,2) e, of destroy]
  have "set es \<subseteq> set (buckets (fst ?st) ! i)" "i < length (buckets (fst ?st))"
    using Cons.prems destroy_bucket[OF Cons.prems(1,2) e, of destroy] bucket_distinct[OF Cons.prems(1,2)] by auto
  then have "evicts destroy es ?st (fold (destroy_buffer_locked destroy) es ?st)"
    using Cons.prems(4) ev by (intro Cons.IH) (auto simp: evicts_def)
  then show ?case using evicts_trans[OF ev] by simp
qed (simp add: evicts_refl)

lemma release_expired_fold:
  "release_expired_loop destroy now es st =
   fold (destroy_buffer_locked destroy) (takeWhile (\<lambda>e. time_timeout_ms (start_ms e) (msecs (fst st)) now) es) st"
proof (induction es arbitrary: st)
  case (Cons e es)
  have "msecs (fst (destroy_buffer_locked destroy e st)) = msecs (fst st)"
    by (cases st) (simp add: destroy_buffer_locked_def Let_def)
  then show ?case using Cons by simp
qed simp

lemma release_expired_evicts:
  assumes "cache_inv (fst st)" "i < length (buckets (fst st))"
  shows "\<exists>ds. evicts destroy ds st (release_expired_buffers_locked destroy now i st) \<and>
    (\<forall>d\<in>set ds. time_timeout_ms (start_ms d) (msecs (fst st)) now)"
proof -
  let ?ds = "takeWhile (\<lambda>e. time_timeout_ms (start_ms e) (msecs (fst st)) now) (buckets (fst st) ! i)"
  have "evicts destroy ?ds st (fold (destroy_buffer_locked destroy) ?ds st)"
    using assms bucket_distinct[OF assms] by (intro fold_destroy_evicts) (auto dest: set_takeWhileD)
  then show ?thesis
    unfolding release_expired_buffers_locked_def release_expired_fold by (auto dest: set_takeWhileD)
qed

lemma evicts_inv: "evicts destroy ds st st' \<Longrightarrow> cache_inv (fst st')"
  "evicts destroy ds st st' \<Longrightarrow> msecs (fst st') = msecs (fst st)"
  "evicts destroy ds st st' \<Longrightarrow> cache_inv (fst st) \<Longrightarrow> length (buckets (fst st')) = length (buckets (fst st))"
  by (auto simp: evicts_def same_cache_config_def cache_inv_def)

lemma release_expired_all_evicts:
  assumes "cache_inv (fst st)" "set is \<subseteq> {..<length (buckets (fst st))}"
  shows "\<exists>ds. evicts destroy ds st (fold (release_expired_buffers_locked destroy now) is st) \<and>
    (\<forall>d\<in>set ds. time_timeout_ms (start_ms d) (msecs (fst st)) now)"
  using assms
proof (induction "is" arbitrary: st)
  case Nil
  then show ?case using evicts_refl[of st destroy] by auto
next
  case (Cons i "is")
  let ?st = "release_expired_buffers_locked destroy now i st"
  obtain ds where ds: "evicts destroy ds st ?st" "\<forall>d\<in>set ds. time_timeout_ms (start_ms d) (msecs (fst st)) now"
    using release_expired_evicts[of st i destroy now] Cons.prems by auto
  note i = evicts_inv[OF ds(1)]
  obtain es where es: "evicts destroy es ?st (fold (release_expired_buffers_locked destroy now) is ?st)"
      "\<forall>d\<in>set es. time_timeout_ms (start_ms d) (msecs (fst st)) now"
    using Cons.IH[of ?st] i Cons.prems by auto
  then show ?case using evicts_trans[OF ds(1) es(1)] ds(2) by (intro exI[of _ "ds @ es"]) auto
qed

lemma search_expired_evicts:
  assumes cfg: "\<And>m m'. same_cache_config m m' \<Longrightarrow> cmp m' = cmp m"
    and "cache_inv (fst st)" "i < length (buckets (fst st))" "set es \<subseteq> set (buckets (fst st) ! i)" "distinct es"
    and "\<And>b. entry = Some b \<Longrightarrow> b \<in> set (buckets (fst st) ! i) \<and> b \<notin> set es \<and> 0 < cmp (fst st) b"
    and "search_expired cmp destroy now es entry ret st = (entry', ret', rest, st')"
  shows "\<exists>ds. evicts destroy ds st st' \<and> (\<forall>d\<in>set ds. time_timeout_ms (start_ms d) (msecs (fst st)) now) \<and>
      (\<forall>b. entry' = Some b \<longrightarrow> b \<in> set (buckets (fst st') ! i) \<and> 0 < cmp (fst st) b) \<and>
      (entry' = None \<and> ret' \<noteq> -1 \<longrightarrow> set rest \<subseteq> set (buckets (fst st') ! i))"
  using assms(2-)
proof (induction es arbitrary: entry ret st)
  case Nil
  then show ?case using evicts_refl[of st destroy] by (intro exI[of _ "[]"]) auto
next
  case (Cons e es)
  define ret1 where "ret1 = (if entry = None then cmp (fst st) e else ret)"
  let ?st = "destroy_buffer_locked destroy e st"
  have e: "e \<in> set (buckets (fst st) ! i)" using Cons.prems(3) by simp
  note ev = destroy_evicts[OF Cons.prems(1,2) e, of destroy]
  have bk: "set (buckets (fst ?st) ! i) = set (buckets (fst st) ! i) - {e}" "i < length (buckets (fst ?st))"
    using destroy_bucket[OF Cons.prems(1,2) e, of destroy] bucket_distinct[OF Cons.prems(1,2)] Cons.prems(2) by auto
  have cmp': "cmp (fst ?st) = cmp (fst st)" using ev cfg by (auto simp: evicts_def)
  have def': "search_expired cmp destroy now (e # es) entry ret st =
     (if entry = None \<and> 0 < ret1 then search_expired cmp destroy now es (Some e) ret1 st
      else if time_timeout_ms (start_ms e) (msecs (fst st)) now
      then (if ret1 = -1 then (entry, ret1, e # es, ?st)
            else search_expired cmp destroy now es entry ret1 ?st)
      else (entry, ret1, e # es, st))"
    unfolding ret1_def search_expired.simps(2) Let_def ..
  note P = Cons.prems(6)[unfolded def']
  consider (found) "entry = None \<and> 0 < ret1"
    | (busy) "\<not> (entry = None \<and> 0 < ret1)" "time_timeout_ms (start_ms e) (msecs (fst st)) now" "ret1 = -1"
    | (old) "\<not> (entry = None \<and> 0 < ret1)" "time_timeout_ms (start_ms e) (msecs (fst st)) now" "ret1 \<noteq> -1"
    | (hot) "\<not> (entry = None \<and> 0 < ret1)" "\<not> time_timeout_ms (start_ms e) (msecs (fst st)) now"
    by blast
  then show ?case
  proof cases
    case found
    have "search_expired cmp destroy now es (Some e) ret1 st = (entry', ret', rest, st')"
      using P unfolding if_P[OF found] .
    then show ?thesis using Cons.prems e found by (intro Cons.IH) (auto simp: ret1_def)
  next
    case busy
    have r: "(entry, ret1, e # es, ?st) = (entry', ret', rest, st')"
      using P unfolding if_not_P[OF busy(1)] if_P[OF busy(2)] if_P[OF busy(3)] .
    have "\<forall>b. entry' = Some b \<longrightarrow> b \<in> set (buckets (fst ?st) ! i) \<and> 0 < cmp (fst st) b"
      using Cons.prems(5) r bk(1) by auto
    then show ?thesis using ev busy(2,3) r by (intro exI[of _ "[e]"]) auto
  next
    case old
    have r: "search_expired cmp destroy now es entry ret1 ?st = (entry', ret', rest, st')"
      using P unfolding if_not_P[OF old(1)] if_P[OF old(2)] if_not_P[OF old(3)] .
    have "\<exists>ds. evicts destroy ds ?st st' \<and> (\<forall>d\<in>set ds. time_timeout_ms (start_ms d) (msecs (fst ?st)) now) \<and>
      (\<forall>b. entry' = Some b \<longrightarrow> b \<in> set (buckets (fst st') ! i) \<and> 0 < cmp (fst ?st) b) \<and>
      (entry' = None \<and> ret' \<noteq> -1 \<longrightarrow> set rest \<subseteq> set (buckets (fst st') ! i))"
      using Cons.prems bk cmp' ev r by (intro Cons.IH) (auto simp: evicts_def)
    then obtain ds where ds: "evicts destroy ds ?st st'" "\<forall>d\<in>set ds. time_timeout_ms (start_ms d) (msecs (fst st)) now"
      "\<forall>b. entry' = Some b \<longrightarrow> b \<in> set (buckets (fst st') ! i) \<and> 0 < cmp (fst st) b"
      "entry' = None \<and> ret' \<noteq> -1 \<longrightarrow> set rest \<subseteq> set (buckets (fst st') ! i)"
      unfolding evicts_inv(2)[OF ev] cmp' by blast
    then show ?thesis using evicts_trans[OF ev ds(1)] old(2) by (intro exI[of _ "[e] @ ds"]) auto
  next
    case hot
    have "(entry, ret1, e # es, st) = (entry', ret', rest, st')"
      using P unfolding if_not_P[OF hot(1)] if_not_P[OF hot(2)] .
    then show ?thesis using Cons.prems evicts_refl[OF Cons.prems(1)] by (intro exI[of _ "[]"]) auto
  qed
qed

lemma search_hot_Some: "search_hot cmp es = Some b \<Longrightarrow> b \<in> set es \<and> 0 < cmp b"
  by (induction cmp es rule: search_hot.induct) (auto simp: Let_def split: if_splits)

lemma compat_config: "same_cache_config m m' \<Longrightarrow>
    pb_cache_is_buffer_compat oob can sz al use m' = pb_cache_is_buffer_compat oob can sz al use m"
  by (auto simp: same_cache_config_def pb_cache_is_buffer_compat_def size_limit_def fun_eq_iff)

text \<open>What a buffer of the cache has to be to answer a request.\<close>

definition suits :: "(nat \<Rightarrow> 32 word) \<Rightarrow> nat \<Rightarrow> nat \<Rightarrow> 32 word \<Rightarrow> 'a pb_buffer_scheme pb_cache \<Rightarrow> 'a pb_buffer_scheme \<Rightarrow> bool" where
  "suits oob sz alignment use mgr b \<longleftrightarrow>
     sz \<le> buf_size b \<and> buf_size b \<le> size_limit oob mgr sz \<and> (alignment = 0 \<or> alignment dvd 2 ^ alignment_log2 b) \<and>
     use AND usage b = use \<and> use AND bypass_usage mgr = 0"

lemma compat_pos: "0 < pb_cache_is_buffer_compat oob can sz alignment use mgr b \<Longrightarrow>
    suits oob sz alignment use mgr b \<and> can b"
  by (auto simp: pb_cache_is_buffer_compat_def suits_def pb_check_alignment_def pb_check_usage_def
      split: if_splits)

lemma reclaim_evicts:
  assumes inv: "cache_inv mgr" and i: "i < length (buckets mgr)"
    and r: "pb_cache_reclaim_buffer oob can destroy t sz alignment use i (mgr, w) = (r, mgr', w')"
  shows "\<exists>ds. cache_inv mgr' \<and> same_cache_config mgr mgr' \<and> w' = foldl destroy w ds \<and>
    (\<forall>d\<in>set ds. msecs mgr \<le> time_get_ms mgr t - start_ms d) \<and>
    (case r of None \<Rightarrow> mset (cached mgr) = mset (cached mgr') + mset ds
     | Some b \<Rightarrow> \<exists>b0. b = b0\<lparr>refs := 1\<rparr> \<and> mset (cached mgr) = mset (cached mgr') + mset ds + {#b0#} \<and>
         bucket_index b0 = i \<and> can b0 \<and> suits oob sz alignment use mgr b0)"
proof -
  let ?cmp = "pb_cache_is_buffer_compat oob can sz alignment use"
  obtain e0 ret cur m1 w1 where s: "search_expired ?cmp destroy (time_get_ms mgr t) (buckets mgr ! i) None 0 (mgr, w) =
      (e0, ret, cur, m1, w1)" by (metis prod_cases5)
  obtain ds where ds: "evicts destroy ds (mgr, w) (m1, w1)"
      "\<forall>d\<in>set ds. msecs mgr \<le> time_get_ms mgr t - start_ms d"
      "\<And>b. e0 = Some b \<Longrightarrow> b \<in> set (buckets m1 ! i) \<and> 0 < ?cmp mgr b"
      "e0 = None \<and> ret \<noteq> -1 \<Longrightarrow> set cur \<subseteq> set (buckets m1 ! i)"
    using search_expired_evicts[OF compat_config _ _ _ _ _ s, of i] inv i bucket_distinct[OF inv i]
    by (auto simp: timeout_elapsed)
  note m1 = evicts_inv(1)[OF ds(1), simplified] evicts_inv(3)[OF ds(1), simplified, OF inv]
  have c1: "?cmp m1 = ?cmp mgr" "same_cache_config mgr m1"
    using ds(1) compat_config[of mgr m1] by (auto simp: evicts_def)
  define e where "e = (if e0 = None \<and> ret \<noteq> -1 then search_hot (?cmp mgr) cur else e0)"
  have res: "(r, mgr', w') = (case e of None \<Rightarrow> (None, m1, w1) | Some b \<Rightarrow> (Some (b\<lparr>refs := 1\<rparr>),
      m1\<lparr>cache_size := cache_size m1 - of_nat (buf_size b), buckets := (buckets m1)[i := remove1 b (buckets m1 ! i)],
         num_buffers := num_buffers m1 - 1\<rparr>, w1))"
    using r unfolding pb_cache_reclaim_buffer_def Let_def fst_conv s prod.case c1 e_def by (rule sym)
  show ?thesis
  proof (cases e)
    case None
    then show ?thesis using res ds(1,2) by (intro exI[of _ ds]) (auto simp: evicts_def)
  next
    case (Some b)
    have b: "b \<in> set (buckets m1 ! i)" "0 < ?cmp mgr b"
      using Some ds(3,4) search_hot_Some[of "?cmp mgr" cur b] by (auto simp: e_def split: if_splits)
    have m': "mgr' = m1\<lparr>buckets := (buckets m1)[i := remove1 b (buckets m1 ! i)],
        num_buffers := num_buffers m1 - 1, cache_size := cache_size m1 - of_nat (buf_size b)\<rparr>"
      using res Some by simp
    have il: "i < length (buckets m1)" using m1(2) i by simp
    note u = unlink_inv[OF m1(1) il b(1), folded m'] compat_pos[OF b(2)]
    have "bucket_index b = i" using m1 i b(1) by (auto simp: cache_inv_def)
    moreover have "mset (cached mgr) = mset (cached mgr') + mset ds + {#b#}" "same_cache_config mgr mgr'" "cache_inv mgr'"
      using u(1-3) ds(1) by (auto simp: evicts_def same_cache_config_def)
    ultimately show ?thesis using res Some ds(1,2) u(4) by (intro exI[of _ ds]) (auto simp: evicts_def)
  qed
qed

lemma release_all_fold:
  assumes "cache_inv (fst st)" "set is \<subseteq> {..<length (buckets (fst st))}"
  shows "\<exists>ds. evicts destroy ds st (snd (fold (\<lambda>i (n, st). (n + length (buckets (fst st) ! i),
      fold (destroy_buffer_locked destroy) (buckets (fst st) ! i) st)) is (n, st))) \<and>
    fst (fold (\<lambda>i (n, st). (n + length (buckets (fst st) ! i),
      fold (destroy_buffer_locked destroy) (buckets (fst st) ! i) st)) is (n, st)) = n + length ds"
  using assms
proof (induction "is" arbitrary: st n)
  case Nil
  then show ?case using evicts_refl[of st destroy] by (intro exI[of _ "[]"]) simp
next
  case (Cons i "is")
  let ?d = "buckets (fst st) ! i"
  let ?st = "fold (destroy_buffer_locked destroy) ?d st"
  have i: "i < length (buckets (fst st))" using Cons.prems by simp
  have ev: "evicts destroy ?d st ?st"
    using Cons.prems(1) i bucket_distinct by (intro fold_destroy_evicts) auto
  have "cache_inv (fst ?st)" "set is \<subseteq> {..<length (buckets (fst ?st))}"
    using evicts_inv[OF ev] Cons.prems by auto
  from Cons.IH[OF this, of "n + length ?d"] obtain ds where
    "evicts destroy ds ?st (snd (fold (\<lambda>i (n, st). (n + length (buckets (fst st) ! i),
        fold (destroy_buffer_locked destroy) (buckets (fst st) ! i) st)) is (n + length ?d, ?st)))"
    "fst (fold (\<lambda>i (n, st). (n + length (buckets (fst st) ! i),
        fold (destroy_buffer_locked destroy) (buckets (fst st) ! i) st)) is (n + length ?d, ?st)) = n + length ?d + length ds"
    by blast
  then show ?case using evicts_trans[OF ev] by (intro exI[of _ "?d @ ds"]) simp
qed

lemma release_all_bucket_empty:
  assumes "cache_inv (fst st)" "i < length (buckets (fst st))" "set es \<subseteq> set (buckets (fst st) ! i)" "distinct es"
  shows "buckets (fst (fold (destroy_buffer_locked destroy) es st)) =
    (buckets (fst st))[i := filter (\<lambda>b. b \<notin> set es) (buckets (fst st) ! i)]"
  using assms
proof (induction es arbitrary: st)
  case Nil
  then show ?case by simp
next
  case (Cons e es)
  let ?st = "destroy_buffer_locked destroy e st"
  have e: "e \<in> set (buckets (fst st) ! i)" using Cons.prems by simp
  note b = destroy_bucket[OF Cons.prems(1,2) e, of destroy] bucket_distinct[OF Cons.prems(1,2)]
  have "buckets (fst (fold (destroy_buffer_locked destroy) es ?st)) =
      (buckets (fst ?st))[i := filter (\<lambda>b. b \<notin> set es) (buckets (fst ?st) ! i)]"
    using Cons.prems b evicts_inv(1)[OF destroy_evicts[OF Cons.prems(1,2) e, of destroy]]
    by (intro Cons.IH) auto
  moreover have "filter (\<lambda>b. b \<notin> set es) (remove1 e xs) = filter (\<lambda>b. b \<notin> set (e # es)) xs"
    if "distinct xs" for xs using that by (simp add: distinct_remove1_removeAll removeAll_filter_not_eq) (metis (mono_tags))
  ultimately show ?case using b Cons.prems(2) by simp
qed

abbreviation release_bucket ::
    "('w \<Rightarrow> 'a pb_buffer_scheme \<Rightarrow> 'w) \<Rightarrow> nat \<Rightarrow> nat \<times> 'a pb_buffer_scheme pb_cache \<times> 'w \<Rightarrow>
     nat \<times> 'a pb_buffer_scheme pb_cache \<times> 'w" where
  "release_bucket destroy \<equiv> \<lambda>i (n, st).
     (n + length (buckets (fst st) ! i), fold (destroy_buffer_locked destroy) (buckets (fst st) ! i) st)"

lemma release_all_buckets:
  assumes "cache_inv (fst st)" "set is \<subseteq> {..<length (buckets (fst st))}"
  shows "buckets (fst (snd (fold (release_bucket destroy) is (n, st)))) =
    map (\<lambda>i. if i \<in> set is then [] else buckets (fst st) ! i) [0..<length (buckets (fst st))]"
  using assms
proof (induction "is" arbitrary: st n)
  case Nil
  then show ?case by (simp add: map_nth)
next
  case (Cons i "is")
  let ?d = "buckets (fst st) ! i"
  let ?st = "fold (destroy_buffer_locked destroy) ?d st"
  have i: "i < length (buckets (fst st))" using Cons.prems by simp
  note d = bucket_distinct[OF Cons.prems(1) i]
  note ev = evicts_inv[OF fold_destroy_evicts[OF Cons.prems(1) i _ d, of destroy, simplified]]
  have b: "buckets (fst ?st) = (buckets (fst st))[i := []]"
    using release_all_bucket_empty[OF Cons.prems(1) i _ d, of destroy] by simp
  have "set is \<subseteq> {..<length (buckets (fst ?st))}" using Cons.prems b by simp
  from Cons.IH[OF ev(1) this, of "n + length ?d"] show ?case
    using b by (auto intro!: nth_equalityI simp: nth_list_update)
qed

lemma release_all_evicts:
  assumes inv: "cache_inv (fst st)" and r: "pb_cache_release_all_buffers destroy st = (n, st')"
  shows "\<exists>ds. evicts destroy ds st st' \<and> n = length ds" "cached (fst st') = []"
proof -
  have len: "length (buckets (fst st)) = cache_num_heaps (fst st)" using inv by (simp add: cache_inv_def)
  have f: "(n, st') = fold (release_bucket destroy) [0..<cache_num_heaps (fst st)] (0, st)"
    using r by (simp add: pb_cache_release_all_buffers_def)
  have sub: "set [0..<cache_num_heaps (fst st)] \<subseteq> {..<length (buckets (fst st))}" using len by auto
  show "\<exists>ds. evicts destroy ds st st' \<and> n = length ds"
    using release_all_fold[OF inv sub, of destroy 0] unfolding f[symmetric] by simp
  show "cached (fst st') = []"
    using release_all_buckets[OF inv sub, of destroy 0] len unfolding f[symmetric] by (simp add: cached_def)
qed

text \<open>The bytes in the cache stay below the limit; \<open>bounded\<close> says so of the exact sum.\<close>

definition bounded :: "'a pb_buffer_scheme pb_cache \<Rightarrow> bool" where
  "bounded mgr \<longleftrightarrow> sum_list (map buf_size (cached mgr)) \<le> unat (max_cache_size mgr)"

lemma evicts_bounded: "evicts destroy ds st st' \<Longrightarrow> bounded (fst st) \<Longrightarrow> bounded (fst st')"
  using mset_sum_length[of "cached (fst st)" "cached (fst st')" ds buf_size]
  by (auto simp: evicts_def bounded_def same_cache_config_def)

lemma evicts_keys:
  "evicts destroy ds st st' \<Longrightarrow> set (map buf (cached (fst st'))) \<subseteq> set (map buf (cached (fst st)))"
  unfolding evicts_def set_mset_mset[symmetric] mset_map by auto

lemma link_inv:
  assumes inv: "cache_inv mgr" and i: "bucket_index b < cache_num_heaps mgr" and b: "refs b = 0"
    and new: "buf b \<notin> set (map buf (cached mgr))"
  defines "mgr' \<equiv> mgr\<lparr>buckets := (buckets mgr)[bucket_index b := buckets mgr ! bucket_index b @ [b]],
      num_buffers := num_buffers mgr + 1, cache_size := cache_size mgr + of_nat (buf_size b)\<rparr>"
  shows "cache_inv mgr'" "mset (cached mgr') = mset (cached mgr) + {#b#}" "same_cache_config mgr mgr'"
proof -
  let ?i = "bucket_index b"
  have len: "?i < length (buckets mgr)" using inv i by (simp add: cache_inv_def)
  have "mset (cached mgr') + mset (buckets mgr ! ?i) = mset (cached mgr) + mset (buckets mgr ! ?i @ [b])"
    unfolding cached_def mgr'_def using concat_update_mset[OF len] by simp
  then show m: "mset (cached mgr') = mset (cached mgr) + {#b#}" by simp
  then have s: "sum_list (map buf_size (cached mgr')) = sum_list (map buf_size (cached mgr)) + buf_size b"
    "length (cached mgr') = length (cached mgr) + 1"
    using mset_sum_length[of "cached mgr'" "cached mgr" "[b]" buf_size] by auto
  have "distinct (map buf (cached mgr'))"
    using inv new mset_distinct_map[of "cached mgr'" "cached mgr" "[b]" buf] m by (auto simp: cache_inv_def)
  moreover have "bucket_index x = k \<and> refs x = 0" if k: "k < length (buckets mgr')" "x \<in> set (buckets mgr' ! k)" for k x
  proof -
    have "x = b \<and> k = ?i \<or> x \<in> set (buckets mgr ! k)" using k len by (cases "k = ?i") (auto simp: mgr'_def)
    then show ?thesis using inv k(1) b by (auto simp: cache_inv_def mgr'_def)
  qed
  moreover have "length (buckets mgr') = cache_num_heaps mgr'" using inv by (simp add: cache_inv_def mgr'_def)
  moreover have "cache_size mgr' = of_nat (sum_list (map buf_size (cached mgr')))"
    "num_buffers mgr' = of_nat (length (cached mgr'))"
    using inv unfolding s by (simp_all add: mgr'_def cache_inv_def)
  ultimately show "cache_inv mgr'" unfolding cache_inv_def by blast
  show "same_cache_config mgr mgr'" by (simp add: same_cache_config_def mgr'_def)
qed

lemma add_evicts:
  assumes inv: "cache_inv mgr" and i: "bucket_index b < cache_num_heaps mgr" and b: "refs b = 0"
    and new: "buf b \<notin> set (map buf (cached mgr))"
    and r: "pb_cache_add_buffer destroy t1 t2 b (mgr, w) = (mgr', w')"
  shows "\<exists>ds. (\<forall>d\<in>set ds. msecs mgr \<le> time_get_ms mgr t1 - start_ms d) \<and>
    cache_inv mgr' \<and> same_cache_config mgr mgr' \<and>
    (mset (cached mgr) = mset (cached mgr') + mset ds \<and> w' = foldl destroy w (ds @ [b]) \<or>
     mset (cached mgr) + {#b\<lparr>start_ms := time_get_ms mgr t2\<rparr>#} = mset (cached mgr') + mset ds \<and>
     w' = foldl destroy w ds)"
    "bounded mgr \<Longrightarrow> unat (max_cache_size mgr) + buf_size b < 2 ^ 64 \<Longrightarrow> bounded mgr'"
proof -
  let ?now = "time_get_ms mgr t1" and ?b = "b\<lparr>start_ms := time_get_ms mgr t2\<rparr>"
  obtain m1 w1 where f: "fold (release_expired_buffers_locked destroy ?now) [0..<cache_num_heaps mgr] (mgr, w) = (m1, w1)"
    by fastforce
  have "set [0..<cache_num_heaps mgr] \<subseteq> {..<length (buckets mgr)}" using inv by (auto simp: cache_inv_def)
  then obtain ds where ds: "evicts destroy ds (mgr, w) (m1, w1)"
      "\<forall>d\<in>set ds. msecs mgr \<le> ?now - start_ms d"
    using release_expired_all_evicts[of "(mgr, w)" "[0..<cache_num_heaps mgr]" destroy ?now] inv f
    by (auto simp: timeout_elapsed)
  have c: "same_cache_config mgr m1" "cache_inv m1" using ds(1) by (auto simp: evicts_def)
  have tm: "time_get_ms m1 t2 = time_get_ms mgr t2" using c(1) by (simp add: time_get_ms_def same_cache_config_def)
  let ?m2 = "m1\<lparr>buckets := (buckets m1)[bucket_index b := buckets m1 ! bucket_index b @ [?b]],
      num_buffers := num_buffers m1 + 1, cache_size := cache_size m1 + of_nat (buf_size b)\<rparr>"
  have res: "(mgr', w') = (if max_cache_size m1 < cache_size m1 + of_nat (buf_size b) then (m1, destroy w1 b) else (?m2, w1))"
    using r unfolding pb_cache_add_buffer_def Let_def fst_conv f prod.case tm by (rule sym)
  have "buf ?b \<notin> set (map buf (cached m1))" "bucket_index ?b < cache_num_heaps m1" "refs ?b = 0"
    using new evicts_keys[OF ds(1)] i b c(1) by (auto simp: same_cache_config_def)
  note l = link_inv[OF c(2) this(2,3,1), simplified]
  show "\<exists>ds. (\<forall>d\<in>set ds. msecs mgr \<le> ?now - start_ms d) \<and> cache_inv mgr' \<and> same_cache_config mgr mgr' \<and>
    (mset (cached mgr) = mset (cached mgr') + mset ds \<and> w' = foldl destroy w (ds @ [b]) \<or>
     mset (cached mgr) + {#?b#} = mset (cached mgr') + mset ds \<and> w' = foldl destroy w ds)"
  proof (cases "max_cache_size m1 < cache_size m1 + of_nat (buf_size b)")
    case True
    then show ?thesis using res ds by (intro exI[of _ ds]) (auto simp: evicts_def)
  next
    case False
    then have m: "mgr' = ?m2" "w' = w1" using res by auto
    have "same_cache_config mgr mgr'" using c(1) l(3) unfolding m by (auto simp: same_cache_config_def)
    moreover have "mset (cached mgr) + {#?b#} = mset (cached mgr') + mset ds"
      using ds(1) l(2) unfolding m by (simp add: evicts_def)
    moreover have "w' = foldl destroy w ds" using ds(1) m by (simp add: evicts_def)
    ultimately show ?thesis using ds(2) l(1) unfolding m by (intro exI[of _ ds]) blast
  qed
  assume bd: "bounded mgr" "unat (max_cache_size mgr) + buf_size b < 2 ^ 64"
  then have b1: "bounded m1" using evicts_bounded[OF ds(1)] by simp
  show "bounded mgr'"
  proof (cases "max_cache_size m1 < cache_size m1 + of_nat (buf_size b)")
    case True
    then show ?thesis using res b1 by simp
  next
    case False
    have s: "sum_list (map buf_size (cached m1)) + buf_size b < 2 ^ 64"
      using b1 bd(2) c(1) by (simp add: bounded_def same_cache_config_def)
    have "cache_size m1 + of_nat (buf_size b) = of_nat (sum_list (map buf_size (cached m1)) + buf_size b)"
      using c(2) by (simp add: cache_inv_def)
    then have "unat (cache_size m1 + of_nat (buf_size b)) = sum_list (map buf_size (cached m1)) + buf_size b"
      using s by (simp only: unat_of_nat) simp
    then have "sum_list (map buf_size (cached m1)) + buf_size b \<le> unat (max_cache_size m1)"
      using False by (simp add: not_less word_le_nat_alt)
    moreover have "sum_list (map buf_size (cached ?m2)) = sum_list (map buf_size (cached m1)) + buf_size b"
      using mset_sum_length[of "cached ?m2" "cached m1" "[?b]" buf_size] l(2) by simp
    ultimately show ?thesis using res False by (simp add: bounded_def)
  qed
qed

section \<open>Pools of recycled buffers\<close>

text \<open>
  Any interleaving of the clients of a pool of buffers: \<open>users\<close> are the addresses in use, the middle
  argument of the step the buffers it destroys. A new buffer has an address that is neither in use
  nor in the pool.
\<close>

inductive pool_step ::
    "('q \<Rightarrow> 'b \<Rightarrow> 'p \<Rightarrow> 'p \<times> 'b list) \<Rightarrow> ('r \<Rightarrow> 'p \<Rightarrow> 'b option \<times> 'p \<times> 'b list) \<Rightarrow> ('p \<Rightarrow> 'p \<times> 'b list) \<Rightarrow>
     ('p \<Rightarrow> 'b list) \<Rightarrow> ('b \<Rightarrow> nat) \<Rightarrow> ('p \<Rightarrow> 'b \<Rightarrow> bool) \<Rightarrow> ('p \<Rightarrow> 'r \<Rightarrow> bool) \<Rightarrow>
     'p \<times> nat list \<Rightarrow> 'b list \<Rightarrow> 'p \<times> nat list \<Rightarrow> bool"
    for give get flush content key fits asks where
  create: "a \<notin> set users \<union> key ` set (content p) \<Longrightarrow>
     pool_step give get flush content key fits asks (p, users) [] (p, a # users)"
| give: "fits p b \<Longrightarrow> key b \<in> set users \<Longrightarrow> give q b p = (p', ds) \<Longrightarrow>
     pool_step give get flush content key fits asks (p, users) ds (p', remove1 (key b) users)"
| get: "asks p r \<Longrightarrow> get r p = (x, p', ds) \<Longrightarrow>
     pool_step give get flush content key fits asks (p, users) ds
       (p', (case x of None \<Rightarrow> users | Some b \<Rightarrow> key b # users))"
| flush: "flush p = (p', ds) \<Longrightarrow>
     pool_step give get flush content key fits asks (p, users) ds (p', users)"

text \<open>
  What a winsys relies on: a pool takes buffers that are no longer used, gives them out again and
  destroys some. Each operation lists the buffers it destroyed. The laws say that no buffer gets
  lost or doubled; \<open>key\<close> is the address of a buffer.
\<close>

locale buffer_pool =
  fixes give :: "'q \<Rightarrow> 'b \<Rightarrow> 'p \<Rightarrow> 'p \<times> 'b list"
    and get :: "'r \<Rightarrow> 'p \<Rightarrow> 'b option \<times> 'p \<times> 'b list"
    and flush :: "'p \<Rightarrow> 'p \<times> 'b list"
    and content :: "'p \<Rightarrow> 'b list" and key :: "'b \<Rightarrow> nat"
    and pool_ok :: "'p \<Rightarrow> bool" and fits :: "'p \<Rightarrow> 'b \<Rightarrow> bool" and asks :: "'p \<Rightarrow> 'r \<Rightarrow> bool"
  assumes give_law: "pool_ok p \<Longrightarrow> fits p b \<Longrightarrow> key b \<notin> key ` set (content p) \<Longrightarrow> give q b p = (p', ds) \<Longrightarrow>
      pool_ok p' \<and> image_mset key (mset (content p)) + {#key b#} =
        image_mset key (mset (content p')) + image_mset key (mset ds)"
    and get_law: "pool_ok p \<Longrightarrow> asks p r \<Longrightarrow> get r p = (x, p', ds) \<Longrightarrow>
      pool_ok p' \<and> image_mset key (mset (content p)) =
        image_mset key (mset (content p')) + image_mset key (mset ds) +
        (case x of None \<Rightarrow> {#} | Some b \<Rightarrow> {#key b#})"
    and flush_law: "pool_ok p \<Longrightarrow> flush p = (p', ds) \<Longrightarrow>
      pool_ok p' \<and> image_mset key (mset (content p)) =
        image_mset key (mset (content p')) + image_mset key (mset ds)"
begin

definition pool_inv :: "'p \<times> nat list \<Rightarrow> bool" where
  "pool_inv s \<longleftrightarrow> pool_ok (fst s) \<and> distinct (map key (content (fst s)) @ snd s)"

lemma split_distinct:
  assumes "mset xs = mset ys + mset zs + mset us" "distinct (xs @ vs)"
  shows "distinct (ys @ us @ vs)" "set zs \<inter> set (us @ vs) = {}"
proof -
  have "mset (xs @ vs) = mset ((ys @ us @ vs) @ zs)" using assms(1) by simp
  then have "distinct ((ys @ us @ vs) @ zs)" using assms(2) by (metis mset_eq_imp_distinct_iff)
  then show "distinct (ys @ us @ vs)" "set zs \<inter> set (us @ vs) = {}" by auto
qed

lemma pool_step_inv:
  "pool_step give get flush content key fits asks s ds s' \<Longrightarrow> pool_inv s \<Longrightarrow> pool_inv s' \<and> key ` set ds \<inter> set (snd s') = {}"
proof (induction rule: pool_step.induct)
  case (create a users p)
  then show ?case by (auto simp: pool_inv_def)
next
  case (give p b users q p' ds)
  have u: "distinct (map key (content p) @ users)" and ok: "pool_ok p" using give(4) by (auto simp: pool_inv_def)
  then have "key b \<notin> key ` set (content p)" using give(2) by auto
  from give_law[OF ok give(1) this give(3)]
  have l: "pool_ok p'" "mset (key b # map key (content p)) = mset (map key (content p')) + mset (map key ds) + mset []"
    by (auto simp: ac_simps)
  have "distinct ((key b # map key (content p)) @ remove1 (key b) users)" using u give(2) by auto
  from split_distinct[OF l(2) this] show ?case using l(1) by (auto simp: pool_inv_def)
next
  case (get p r x p' ds users)
  have u: "distinct (map key (content p) @ users)" and ok: "pool_ok p" using get(3) by (auto simp: pool_inv_def)
  define us where "us = (case x of None \<Rightarrow> [] | Some b \<Rightarrow> [key b])"
  have l: "pool_ok p'" "mset (map key (content p)) = mset (map key (content p')) + mset (map key ds) + mset us"
    using get_law[OF ok get(1,2)] by (auto simp: us_def split: option.splits)
  from split_distinct[OF l(2) u] show ?case using l(1) by (auto simp: pool_inv_def us_def split: option.splits)
next
  case (flush p p' ds users)
  have u: "distinct (map key (content p) @ users)" and ok: "pool_ok p" using flush(2) by (auto simp: pool_inv_def)
  have l: "pool_ok p'" "mset (map key (content p)) = mset (map key (content p')) + mset (map key ds) + mset []"
    using flush_law[OF ok flush(1)] by auto
  from split_distinct[OF l(2) u] show ?case using l(1) by (auto simp: pool_inv_def)
qed

lemma pool_reachable:
  "(\<lambda>s s'. \<exists>ds. pool_step give get flush content key fits asks s ds s')\<^sup>*\<^sup>* s s' \<Longrightarrow> pool_inv s \<Longrightarrow> pool_inv s'"
  by (induction rule: rtranclp_induct) (auto dest: pool_step_inv)

end

text \<open>The cache as a pool; a destroyed buffer is appended to a list.\<close>

definition log_destroy :: "'b list \<Rightarrow> 'b \<Rightarrow> 'b list" where
  "log_destroy w b = w @ [b]"

record 'b cache_request =
  req_oob :: "nat \<Rightarrow> 32 word"
  req_can :: "'b \<Rightarrow> bool"
  req_time :: int
  req_size :: nat
  req_alignment :: nat
  req_usage :: "32 word"
  req_bucket :: nat

definition cache_get ::
    "'a pb_buffer_scheme cache_request \<Rightarrow> 'a pb_buffer_scheme pb_cache \<Rightarrow>
     'a pb_buffer_scheme option \<times> 'a pb_buffer_scheme pb_cache \<times> 'a pb_buffer_scheme list" where
  "cache_get r mgr = pb_cache_reclaim_buffer (req_oob r) (req_can r) log_destroy (req_time r)
     (req_size r) (req_alignment r) (req_usage r) (req_bucket r) (mgr, [])"

definition cache_give ::
    "int \<times> int \<Rightarrow> 'a pb_buffer_scheme \<Rightarrow> 'a pb_buffer_scheme pb_cache \<Rightarrow>
     'a pb_buffer_scheme pb_cache \<times> 'a pb_buffer_scheme list" where
  "cache_give q b mgr = pb_cache_add_buffer log_destroy (fst q) (snd q) b (mgr, [])"

definition cache_flush ::
    "'a pb_buffer_scheme pb_cache \<Rightarrow> 'a pb_buffer_scheme pb_cache \<times> 'a pb_buffer_scheme list" where
  "cache_flush mgr = snd (pb_cache_release_all_buffers log_destroy (mgr, []))"

lemma foldl_log [simp]: "foldl log_destroy w ds = w @ ds"
  by (induction ds arbitrary: w) (simp_all add: log_destroy_def)

text \<open>The assertions on the arguments of the two operations.\<close>

definition give_asserts :: "'a pb_buffer_scheme pb_cache \<Rightarrow> 'a pb_buffer_scheme \<Rightarrow> bool" where
  "give_asserts mgr b \<longleftrightarrow> bucket_index b < cache_num_heaps mgr \<and> refs b = 0"

definition get_asserts :: "'b pb_cache \<Rightarrow> 'b cache_request \<Rightarrow> bool" where
  "get_asserts mgr r \<longleftrightarrow> req_bucket r < cache_num_heaps mgr"

interpretation cache_pool: buffer_pool cache_give cache_get cache_flush cached buf cache_inv give_asserts get_asserts
proof (unfold_locales, goal_cases)
  case (1 p b q p' ds)
  obtain es where es: "cache_inv p'" "mset (cached p) = mset (cached p') + mset es \<and> ds = es @ [b] \<or>
      mset (cached p) + {#b\<lparr>start_ms := time_get_ms p (snd q)\<rparr>#} = mset (cached p') + mset es \<and> ds = es"
    using add_evicts(1)[OF 1(1) conjunct1[OF 1(2)[unfolded give_asserts_def]] conjunct2[OF 1(2)[unfolded give_asserts_def]] _ 1(4)[unfolded cache_give_def]] 1(3)
    by (auto simp: log_destroy_def)
  from es(2) have "image_mset buf (mset (cached p)) + {#buf b#} =
        image_mset buf (mset (cached p')) + image_mset buf (mset ds)"
  proof
    assume h: "mset (cached p) + {#b\<lparr>start_ms := time_get_ms p (snd q)\<rparr>#} = mset (cached p') + mset es \<and> ds = es"
    then have "image_mset buf (mset (cached p) + {#b\<lparr>start_ms := time_get_ms p (snd q)\<rparr>#}) =
        image_mset buf (mset (cached p') + mset es)" by simp
    then show ?thesis using h by simp
  qed simp
  then show ?case using es(1) by blast
next
  case (2 p r x p' ds)
  have i: "req_bucket r < length (buckets p)" using 2(1,2) by (simp add: cache_inv_def get_asserts_def)
  from reclaim_evicts[OF 2(1) i 2(3)[unfolded cache_get_def]]
  show ?case by (cases x) auto
next
  case (3 p p' ds)
  obtain n where "pb_cache_release_all_buffers log_destroy (p, []) = (n, p', ds)"
    using 3(2) by (cases "pb_cache_release_all_buffers log_destroy (p, [])") (auto simp: cache_flush_def)
  from release_all_evicts(1)[OF _ this] 3(1) show ?case by (auto simp: evicts_def)
qed

abbreviation cache_step where
  "cache_step \<equiv> pool_step cache_give cache_get cache_flush cached buf give_asserts get_asserts"

text \<open>A cache with one buffer in its second bucket, for the concrete instances below.\<close>

definition ex_buf :: pb_buffer where
  "ex_buf = \<lparr>buf = 7, refs = 0, placement = 4, usage = 0, buf_size = 4096, alignment_log2 = 12,
             bucket_index = 1, start_ms = 0\<rparr>"

definition ex_cache :: "pb_buffer pb_cache" where
  "ex_cache = \<lparr>buckets = [[], [ex_buf]], cache_size = 4096, max_cache_size = 100000, cache_num_heaps = 2,
               msecs = 500, msecs_base_time = 0, num_buffers = 1, bypass_usage = 0, size_factor = 3\<rparr>"

lemma ex_cache_inv: "cache_inv ex_cache"
  by (auto simp: cache_inv_def ex_cache_def ex_buf_def cached_def less_Suc_eq)

section \<open>Properties\<close>

text \<open>The timeout test, with its two cases for a wrapped and an unwrapped end time, is exactly the
  comparison of the elapsed time modulo \<open>2^32\<close> with the interval, whatever the clock has done.\<close>

theorem cache_timeout_wraps: "time_timeout_ms start interval cur \<longleftrightarrow> interval \<le> cur - start"
  by (rule timeout_elapsed)

text \<open>\<open>pb_cache_reclaim_buffer\<close> returns only a buffer of the asked bucket that is idle, at least as
  big as asked, within the size limit and aligned; exactly that buffer and the destroyed ones leave
  the cache, only expired buffers are destroyed, each once, and the invariant is kept.\<close>

theorem cache_reclaim_correct:
  assumes "cache_inv mgr" "i < cache_num_heaps mgr"
    and "pb_cache_reclaim_buffer oob can destroy t sz alignment use i (mgr, w) = (r, mgr', w')"
  shows "\<exists>ds. cache_inv mgr' \<and> w' = foldl destroy w ds \<and>
    (\<forall>d\<in>set ds. time_timeout_ms (start_ms d) (msecs mgr) (time_get_ms mgr t)) \<and>
    (case r of None \<Rightarrow> mset (cached mgr) = mset (cached mgr') + mset ds
     | Some b \<Rightarrow> \<exists>b0. b = b0\<lparr>refs := 1\<rparr> \<and> mset (cached mgr) = mset (cached mgr') + mset ds + {#b0#} \<and>
         bucket_index b0 = i \<and> can b0 \<and> suits oob sz alignment use mgr b0)"
proof -
  have "i < length (buckets mgr)" using assms(1,2) by (simp add: cache_inv_def)
  from reclaim_evicts[OF assms(1) this assms(3)] show ?thesis
    unfolding timeout_elapsed by (metis (no_types, lifting))
qed

text \<open>On a concrete cache: a request for 4000 bytes gets the cached buffer of 4096.\<close>

theorem cache_reclaim_correct_witness:
  "\<exists>mgr'. pb_cache_reclaim_buffer (\<lambda>_. 0) (\<lambda>_. True) log_destroy 1000 4000 4096 0 1 (ex_cache, []) =
     (Some (ex_buf\<lparr>refs := 1\<rparr>), mgr', []) \<and> cache_inv mgr' \<and> cached mgr' = [] \<and>
     suits (\<lambda>_. 0) 4000 4096 0 ex_cache ex_buf"
proof -
  have fr: "float_round 4000 = 4000" "float_round 12000 = 12000" by (simp_all add: float_round_small)
  have "\<exists>mgr'. pb_cache_reclaim_buffer (\<lambda>_. 0) (\<lambda>_. True) log_destroy 1000 4000 4096 0 1 (ex_cache, []) =
      (Some (ex_buf\<lparr>refs := 1\<rparr>), mgr', []) \<and> cached mgr' = []"
    by (simp add: pb_cache_reclaim_buffer_def ex_cache_def ex_buf_def Let_def pb_cache_is_buffer_compat_def
        pb_check_usage_def pb_check_alignment_def size_limit_def float_to_unsigned_def fr cached_def)
  then obtain mgr' where r: "pb_cache_reclaim_buffer (\<lambda>_. 0) (\<lambda>_. True) log_destroy 1000 4000 4096 0 1 (ex_cache, []) =
      (Some (ex_buf\<lparr>refs := 1\<rparr>), mgr', [])" "cached mgr' = []" by blast
  from cache_reclaim_correct[OF ex_cache_inv _ r(1)]
  obtain b0 where b0: "cache_inv mgr'" "mset (cached ex_cache) = mset (cached mgr') + {#b0#}"
      "suits (\<lambda>_. 0) 4000 4096 0 ex_cache b0"
    by (auto simp: ex_cache_def)
  then have "b0 = ex_buf" using r(2) by (simp add: cached_def ex_cache_def)
  then show ?thesis using r b0 by blast
qed

text \<open>\<open>pb_cache_add_buffer\<close> keeps the invariant and the byte limit, destroys only expired buffers
  and, when the limit would be passed, the new one; no buffer is lost.\<close>

theorem cache_add_bounded:
  assumes "cache_inv mgr" "give_asserts mgr b" "buf b \<notin> set (map buf (cached mgr))"
    and "bounded mgr" "unat (max_cache_size mgr) + buf_size b < 2 ^ 64"
    and "pb_cache_add_buffer destroy t1 t2 b (mgr, w) = (mgr', w')"
  shows "cache_inv mgr' \<and> bounded mgr' \<and>
    (\<exists>ds. (\<forall>d\<in>set ds. time_timeout_ms (start_ms d) (msecs mgr) (time_get_ms mgr t1)) \<and>
      (mset (cached mgr) = mset (cached mgr') + mset ds \<and> w' = foldl destroy w (ds @ [b]) \<or>
       mset (cached mgr) + {#b\<lparr>start_ms := time_get_ms mgr t2\<rparr>#} = mset (cached mgr') + mset ds \<and>
       w' = foldl destroy w ds))"
proof -
  have b: "bucket_index b < cache_num_heaps mgr" "refs b = 0" using assms(2) by (auto simp: give_asserts_def)
  show ?thesis
    using add_evicts[OF assms(1) b assms(3,6)] assms(4,5) unfolding timeout_elapsed by blast
qed

text \<open>on a concrete cache: a second buffer fits below the limit of 100000 bytes.\<close>

theorem cache_add_bounded_witness:
  "cache_inv (fst (pb_cache_add_buffer log_destroy 0 0 (ex_buf\<lparr>buf := 8\<rparr>) (ex_cache, []))) \<and>
   bounded (fst (pb_cache_add_buffer log_destroy 0 0 (ex_buf\<lparr>buf := 8\<rparr>) (ex_cache, [])))"
proof -
  have "give_asserts ex_cache (ex_buf\<lparr>buf := 8\<rparr>)" by (simp add: give_asserts_def ex_cache_def ex_buf_def)
  moreover have "buf (ex_buf\<lparr>buf := 8\<rparr>) \<notin> set (map buf (cached ex_cache))"
    by (simp add: cached_def ex_cache_def ex_buf_def)
  moreover have "bounded ex_cache" "unat (max_cache_size ex_cache) + buf_size (ex_buf\<lparr>buf := 8\<rparr>) < 2 ^ 64"
    by (simp_all add: bounded_def cached_def ex_cache_def ex_buf_def)
  ultimately have "cache_inv mgr' \<and> bounded mgr'"
    if "pb_cache_add_buffer log_destroy 0 0 (ex_buf\<lparr>buf := 8\<rparr>) (ex_cache, []) = (mgr', w')" for mgr' w'
    using cache_add_bounded[OF ex_cache_inv _ _ _ _ that] by blast
  then show ?thesis by (metis prod.collapse)
qed

text \<open>\<open>pb_cache_release_all_buffers\<close> leaves an empty cache with zero counters, gives every buffer
  to the destroy callback exactly once and returns how many there were.\<close>

theorem cache_release_all_empty:
  assumes "cache_inv mgr" "pb_cache_release_all_buffers destroy (mgr, w) = (n, mgr', w')"
  shows "cached mgr' = [] \<and> cache_size mgr' = 0 \<and> num_buffers mgr' = 0 \<and> n = length (cached mgr) \<and>
    (\<exists>ds. mset ds = mset (cached mgr) \<and> w' = foldl destroy w ds)"
proof -
  note e = release_all_evicts[OF _ assms(2), simplified, OF assms(1)]
  obtain ds where ds: "evicts destroy ds (mgr, w) (mgr', w')" "n = length ds" using e(1) by blast
  have "mset ds = mset (cached mgr)" using ds(1) e(2) by (simp add: evicts_def)
  then show ?thesis using ds e(2) by (auto simp: evicts_def cache_inv_def dest: mset_eq_length)
qed

text \<open>on a concrete cache: one buffer is destroyed.\<close>

theorem cache_release_all_empty_witness:
  "cached (fst (snd (pb_cache_release_all_buffers log_destroy (ex_cache, [])))) = [] \<and>
   fst (pb_cache_release_all_buffers log_destroy (ex_cache, [])) = 1"
proof -
  obtain n mgr' w' where r: "pb_cache_release_all_buffers log_destroy (ex_cache, []) = (n, mgr', w')"
    by (metis prod_cases3)
  from cache_release_all_empty[OF ex_cache_inv r] show ?thesis using r by (simp add: cached_def ex_cache_def)
qed

text \<open>C14: Over any interleaving of creating, releasing and requesting buffers and of emptying the
  cache, no buffer is handed to two users, none is in use while it is cached, and no step destroys a
  buffer that is in use.\<close>

theorem cache_no_double_use:
  assumes "(\<lambda>s s'. \<exists>ds. cache_step s ds s')\<^sup>*\<^sup>* (pb_cache_init heaps usecs factor bypass maximum t, []) (mgr, users)"
  shows "distinct users \<and> set users \<inter> buf ` set (cached mgr) = {} \<and> cache_inv mgr \<and>
    (\<forall>ds mgr' users'. cache_step (mgr, users) ds (mgr', users') \<longrightarrow> buf ` set ds \<inter> set users' = {})"
proof -
  have "cache_pool.pool_inv (pb_cache_init heaps usecs factor bypass maximum t, [])"
    by (simp add: cache_pool.pool_inv_def pb_cache_init_def cache_inv_def cached_def)
  from cache_pool.pool_reachable[OF assms this] have i: "cache_pool.pool_inv (mgr, users)" .
  then have "distinct users" "set users \<inter> buf ` set (cached mgr) = {}" "cache_inv mgr"
    by (auto simp: cache_pool.pool_inv_def)
  moreover have "buf ` set ds \<inter> set users' = {}" if "cache_step (mgr, users) ds (mgr', users')" for ds mgr' users'
    using cache_pool.pool_step_inv[OF that i] by simp
  ultimately show ?thesis by blast
qed

text \<open>C14 on a concrete run: a buffer is created, released and requested again.\<close>

theorem cache_no_double_use_witness:
  "\<exists>mgr. (\<lambda>s s'. \<exists>ds. cache_step s ds s')\<^sup>*\<^sup>* (pb_cache_init 2 500000 3 0 100000 0, []) (mgr, []) \<and>
     cached mgr = [ex_buf] \<and> cache_inv mgr"
proof -
  let ?init = "pb_cache_init 2 500000 3 0 100000 0 :: pb_buffer pb_cache"
  have c: "cache_step (?init, []) [] (?init, [7])"
    by (rule pool_step.create) (simp add: cached_def pb_cache_init_def)
  have u: "[0..<2] = [0, Suc 0]" "replicate 2 [] = [[], []]" by (simp_all add: upt_rec numeral_2_eq_2)
  have d: "(500000 :: 32 word) div 1000 = 500" by (simp add: word_unat_eq_iff unat_div)
  have "cache_give (0, 0) ex_buf ?init = (ex_cache, [])"
    by (simp add: cache_give_def pb_cache_add_buffer_def pb_cache_init_def ex_buf_def ex_cache_def Let_def
        time_get_ms_def release_expired_buffers_locked_def u d word_less_nat_alt)
  then have g: "cache_step (?init, [7]) [] (ex_cache, remove1 (buf ex_buf) [7])"
    by (intro pool_step.give) (auto simp: give_asserts_def pb_cache_init_def ex_buf_def)
  then have g': "cache_step (?init, [7]) [] (ex_cache, [])" by (simp add: ex_buf_def)
  have s: "(\<lambda>s s'. \<exists>ds. cache_step s ds s')\<^sup>*\<^sup>* (?init, []) (ex_cache, [])"
  proof (rule converse_rtranclp_into_rtranclp)
    show "\<exists>ds. cache_step (?init, []) ds (?init, [7])" by (rule exI, rule c)
    show "(\<lambda>s s'. \<exists>ds. cache_step s ds s')\<^sup>*\<^sup>* (?init, [7]) (ex_cache, [])"
      by (rule r_into_rtranclp, rule exI, rule g')
  qed
  have "cached ex_cache = [ex_buf]" by (simp add: cached_def ex_cache_def)
  from cache_no_double_use[OF s] show ?thesis using s \<open>cached ex_cache = [ex_buf]\<close> by blast
qed

text \<open>The size limit is converted to a 32-bit \<open>unsigned\<close>. A request for \<open>2^32\<close> bytes or more therefore
  never finds a compatible buffer, not even one of exactly that size, whatever the machine makes of
  the out-of-range conversion.\<close>

theorem cache_huge_never_reused:
  assumes "2 ^ 32 \<le> sz"
  shows "pb_cache_is_buffer_compat oob can sz alignment use mgr b = 0"
proof -
  have "size_limit oob mgr sz < 2 ^ 32"
    using unsigned_less[of "oob x" for x] by (auto simp: size_limit_def float_to_unsigned_def)
  then show ?thesis using assms by (simp add: pb_cache_is_buffer_compat_def)
qed

text \<open>on a concrete request: an idle buffer of exactly 8 GiB is not reused.\<close>

theorem cache_huge_never_reused_witness:
  "pb_cache_is_buffer_compat (\<lambda>_. 4294967295) (\<lambda>_. True) (2 ^ 33) 4096 0 ex_cache (ex_buf\<lparr>buf_size := 2 ^ 33\<rparr>) = 0"
  by (rule cache_huge_never_reused) simp

end
