(* ===== verification/RadeonHeap.thy ===== *)
theory RadeonHeap
  imports Prelude
begin

text \<open>
  Buffer domains, buffer flags and heap numbers of gallium/include/winsys/radeon_winsys.h. A heap
  number packs the domain and the flags that matter to an allocator into six bits; the slab manager
  and the buffer cache keep their buffers apart by it. Domains and flags are the C bit masks, as
  32-bit words; a heap is a number, and the \<open>-1\<close> of \<open>radeon_get_heap_index\<close> is \<^term>\<open>None\<close>.
\<close>

section \<open>Domains and flags\<close>

definition DOMAIN_GTT :: dword where "DOMAIN_GTT = 2"
definition DOMAIN_VRAM :: dword where "DOMAIN_VRAM = 4"
definition DOMAIN_VRAM_GTT :: dword where "DOMAIN_VRAM_GTT = DOMAIN_VRAM OR DOMAIN_GTT"
definition DOMAIN_GDS :: dword where "DOMAIN_GDS = 8"
definition DOMAIN_OA :: dword where "DOMAIN_OA = 16"
definition DOMAIN_DOORBELL :: dword where "DOMAIN_DOORBELL = 32"

definition FLAG_GTT_WC :: dword where "FLAG_GTT_WC = 0x1"
definition FLAG_NO_CPU_ACCESS :: dword where "FLAG_NO_CPU_ACCESS = 0x2"
definition FLAG_NO_SUBALLOC :: dword where "FLAG_NO_SUBALLOC = 0x4"
definition FLAG_SPARSE :: dword where "FLAG_SPARSE = 0x8"
definition FLAG_NO_INTERPROCESS_SHARING :: dword where "FLAG_NO_INTERPROCESS_SHARING = 0x10"
definition FLAG_32BIT :: dword where "FLAG_32BIT = 0x40"
definition FLAG_ENCRYPTED :: dword where "FLAG_ENCRYPTED = 0x80"
definition FLAG_GL2_BYPASS :: dword where "FLAG_GL2_BYPASS = 0x100"
definition FLAG_DRIVER_INTERNAL :: dword where "FLAG_DRIVER_INTERNAL = 0x200"
definition FLAG_DISCARDABLE :: dword where "FLAG_DISCARDABLE = 0x400"
definition FLAG_WINSYS_SLAB_BACKING :: dword where "FLAG_WINSYS_SLAB_BACKING = 0x800"
definition FLAG_GFX12_ALLOW_DCC :: dword where "FLAG_GFX12_ALLOW_DCC = 0x1000"
definition FLAG_CLEAR_VRAM :: dword where "FLAG_CLEAR_VRAM = 0x2000"
definition FLAG_NO_VMA :: dword where "FLAG_NO_VMA = 0x4000"

named_theorems flag_defs "values of the domains, flags and heap bits"

lemmas domain_defs [flag_defs] =
  DOMAIN_GTT_def DOMAIN_VRAM_def DOMAIN_VRAM_GTT_def DOMAIN_GDS_def DOMAIN_OA_def DOMAIN_DOORBELL_def

lemmas bo_flag_defs [flag_defs] =
  FLAG_GTT_WC_def FLAG_NO_CPU_ACCESS_def FLAG_NO_SUBALLOC_def FLAG_SPARSE_def
  FLAG_NO_INTERPROCESS_SHARING_def FLAG_32BIT_def FLAG_ENCRYPTED_def FLAG_GL2_BYPASS_def
  FLAG_DRIVER_INTERNAL_def FLAG_DISCARDABLE_def FLAG_WINSYS_SLAB_BACKING_def FLAG_GFX12_ALLOW_DCC_def
  FLAG_CLEAR_VRAM_def FLAG_NO_VMA_def

section \<open>Heaps\<close>

definition HEAP_BIT_VRAM :: nat where "HEAP_BIT_VRAM = 1"
definition HEAP_BIT_GL2_BYPASS :: nat where "HEAP_BIT_GL2_BYPASS = 2"
definition HEAP_BIT_32BIT :: nat where "HEAP_BIT_32BIT = 4"
definition HEAP_BIT_ENCRYPTED :: nat where "HEAP_BIT_ENCRYPTED = 8"
definition HEAP_BIT_NO_CPU_ACCESS :: nat where "HEAP_BIT_NO_CPU_ACCESS = 16"
definition HEAP_BIT_GFX12_ALLOW_DCC :: nat where "HEAP_BIT_GFX12_ALLOW_DCC = 32"
definition HEAP_BIT_WC :: nat where "HEAP_BIT_WC = 16"
definition RADEON_NUM_HEAPS :: nat where "RADEON_NUM_HEAPS = 64"

lemmas heap_bit_defs [flag_defs] =
  HEAP_BIT_VRAM_def HEAP_BIT_GL2_BYPASS_def HEAP_BIT_32BIT_def HEAP_BIT_ENCRYPTED_def
  HEAP_BIT_NO_CPU_ACCESS_def HEAP_BIT_GFX12_ALLOW_DCC_def HEAP_BIT_WC_def RADEON_NUM_HEAPS_def

definition radeon_domain_from_heap :: "nat \<Rightarrow> dword" where
  "radeon_domain_from_heap heap =
     (if heap AND HEAP_BIT_VRAM \<noteq> 0 then DOMAIN_VRAM else DOMAIN_GTT)"

definition radeon_flags_from_heap :: "nat \<Rightarrow> dword" where
  "radeon_flags_from_heap heap =
     (let flags = FLAG_NO_INTERPROCESS_SHARING;
          flags = (if heap AND HEAP_BIT_GL2_BYPASS \<noteq> 0 then flags OR FLAG_GL2_BYPASS else flags);
          flags = (if heap AND HEAP_BIT_32BIT \<noteq> 0 then flags OR FLAG_32BIT else flags);
          flags = (if heap AND HEAP_BIT_ENCRYPTED \<noteq> 0 then flags OR FLAG_ENCRYPTED else flags)
      in if heap AND HEAP_BIT_VRAM \<noteq> 0 then
           (let flags = flags OR FLAG_GTT_WC;
                flags = (if heap AND HEAP_BIT_NO_CPU_ACCESS \<noteq> 0 then flags OR FLAG_NO_CPU_ACCESS else flags)
            in if heap AND HEAP_BIT_GFX12_ALLOW_DCC \<noteq> 0 then flags OR FLAG_GFX12_ALLOW_DCC else flags)
         else if heap AND HEAP_BIT_WC \<noteq> 0 then flags OR FLAG_GTT_WC else flags)"

definition radeon_canonicalize_bo_flags :: "dword \<times> dword \<Rightarrow> dword \<times> dword" where
  "radeon_canonicalize_bo_flags = (\<lambda>(domain0, flags0).
     let domain = (if domain0 = DOMAIN_VRAM_GTT then DOMAIN_VRAM else domain0);
         flags =
           (if domain = DOMAIN_VRAM then flags0 OR FLAG_GTT_WC
            else if domain = DOMAIN_GTT then flags0 AND NOT FLAG_NO_CPU_ACCESS AND NOT FLAG_GFX12_ALLOW_DCC
            else if domain = DOMAIN_GDS \<or> domain = DOMAIN_OA
            then (flags0 OR (FLAG_NO_SUBALLOC OR FLAG_NO_CPU_ACCESS)) AND NOT FLAG_SPARSE
            else if domain = DOMAIN_DOORBELL then (flags0 OR FLAG_NO_SUBALLOC) AND NOT FLAG_SPARSE
            else flags0)
     in (domain, if flags AND FLAG_SPARSE \<noteq> 0 then flags OR FLAG_NO_CPU_ACCESS else flags))"

definition radeon_get_heap_index :: "dword \<Rightarrow> dword \<Rightarrow> nat option" where
  "radeon_get_heap_index domain0 flags0 =
     (let (domain, flags) = radeon_canonicalize_bo_flags (domain0, flags0)
      in if flags AND FLAG_NO_INTERPROCESS_SHARING = 0 then None
         else if flags AND (FLAG_NO_SUBALLOC OR FLAG_SPARSE OR FLAG_DISCARDABLE OR FLAG_CLEAR_VRAM) \<noteq> 0 then None
         else
           let heap = 0;
               heap = (if flags AND FLAG_GL2_BYPASS \<noteq> 0 then heap OR HEAP_BIT_GL2_BYPASS else heap);
               heap = (if flags AND FLAG_32BIT \<noteq> 0 then heap OR HEAP_BIT_32BIT else heap);
               heap = (if flags AND FLAG_ENCRYPTED \<noteq> 0 then heap OR HEAP_BIT_ENCRYPTED else heap)
           in if domain = DOMAIN_VRAM then
                (let heap = heap OR HEAP_BIT_VRAM;
                     heap = (if flags AND FLAG_NO_CPU_ACCESS \<noteq> 0 then heap OR HEAP_BIT_NO_CPU_ACCESS else heap)
                 in Some (if flags AND FLAG_GFX12_ALLOW_DCC \<noteq> 0 then heap OR HEAP_BIT_GFX12_ALLOW_DCC else heap))
              else if domain = DOMAIN_GTT then
                Some (if flags AND FLAG_GTT_WC \<noteq> 0 then heap OR HEAP_BIT_WC else heap)
              else None)"

section \<open>Packing and unpacking\<close>

text \<open>A heap number an allocator can meet: a GTT heap never has the bit of DCC.\<close>

definition proper_heap :: "nat \<Rightarrow> bool" where
  "proper_heap heap \<longleftrightarrow> heap < RADEON_NUM_HEAPS \<and>
     (heap AND HEAP_BIT_VRAM \<noteq> 0 \<or> heap AND HEAP_BIT_GFX12_ALLOW_DCC = 0)"

lemmas heap_fn_defs = radeon_get_heap_index_def radeon_canonicalize_bo_flags_def
  radeon_domain_from_heap_def radeon_flags_from_heap_def Let_def flag_defs

lemma all_heaps: "[0..<64] = [0 :: nat, 1, 2, 3, 4, 5, 6, 7, 8, 9, 10, 11, 12, 13, 14, 15, 16, 17, 18, 19, 20, 21, 22, 23, 24, 25, 26, 27, 28, 29, 30, 31, 32, 33, 34, 35, 36, 37, 38, 39, 40, 41, 42, 43, 44, 45, 46, 47, 48, 49, 50, 51, 52, 53, 54, 55, 56, 57, 58, 59, 60, 61, 62, 63]"
  by code_simp

lemma heap_flags_heap_all:
  "list_all (\<lambda>h. proper_heap h \<longrightarrow>
     radeon_get_heap_index (radeon_domain_from_heap h) (radeon_flags_from_heap h) = Some h) [0..<64]"
  unfolding all_heaps list.pred_inject by (simp add: heap_fn_defs proper_heap_def)

lemma heap_flags_heap:
  assumes "proper_heap h"
  shows "radeon_get_heap_index (radeon_domain_from_heap h) (radeon_flags_from_heap h) = Some h"
proof -
  have "h \<in> set [0..<64]" using assms by (simp add: proper_heap_def RADEON_NUM_HEAPS_def)
  then show ?thesis using heap_flags_heap_all assms unfolding list_all_iff by blast
qed

text \<open>The flags a heap number stands for.\<close>

definition heap_flags :: dword where
  "heap_flags = FLAG_GTT_WC OR FLAG_NO_CPU_ACCESS OR FLAG_NO_INTERPROCESS_SHARING OR FLAG_32BIT OR
     FLAG_ENCRYPTED OR FLAG_GL2_BYPASS OR FLAG_GFX12_ALLOW_DCC"

lemma single_bit_and:
  fixes f :: dword
  assumes "x \<in> {1, 2, 0x10, 0x40, 0x80, 0x100, 0x1000}"
  shows "f AND x = (if f AND x \<noteq> 0 then x else 0)"
proof -
  have "f AND push_bit n 1 = (if bit f n then push_bit n 1 else 0)" for n
    by (rule bit_eqI) (auto simp: bit_simps)
  from this[of 0] this[of 1] this[of 4] this[of 6] this[of 7] this[of 8] this[of 12] show ?thesis
    using assms by (auto split: if_splits)
qed

lemma single_bit_flags:
  fixes f :: dword
  shows "f AND FLAG_GTT_WC = (if f AND FLAG_GTT_WC \<noteq> 0 then FLAG_GTT_WC else 0)"
    "f AND FLAG_NO_CPU_ACCESS = (if f AND FLAG_NO_CPU_ACCESS \<noteq> 0 then FLAG_NO_CPU_ACCESS else 0)"
    "f AND FLAG_NO_INTERPROCESS_SHARING = (if f AND FLAG_NO_INTERPROCESS_SHARING \<noteq> 0 then FLAG_NO_INTERPROCESS_SHARING else 0)"
    "f AND FLAG_32BIT = (if f AND FLAG_32BIT \<noteq> 0 then FLAG_32BIT else 0)"
    "f AND FLAG_ENCRYPTED = (if f AND FLAG_ENCRYPTED \<noteq> 0 then FLAG_ENCRYPTED else 0)"
    "f AND FLAG_GL2_BYPASS = (if f AND FLAG_GL2_BYPASS \<noteq> 0 then FLAG_GL2_BYPASS else 0)"
    "f AND FLAG_GFX12_ALLOW_DCC = (if f AND FLAG_GFX12_ALLOW_DCC \<noteq> 0 then FLAG_GFX12_ALLOW_DCC else 0)"
  by (rule single_bit_and, simp add: bo_flag_defs)+

lemma heap_of_bools:
  fixes f :: dword
  defines "a \<equiv> f AND FLAG_GTT_WC \<noteq> 0" and "b \<equiv> f AND FLAG_NO_CPU_ACCESS \<noteq> 0"
    and "c \<equiv> f AND FLAG_32BIT \<noteq> 0" and "d \<equiv> f AND FLAG_ENCRYPTED \<noteq> 0"
    and "e \<equiv> f AND FLAG_GL2_BYPASS \<noteq> 0" and "g \<equiv> f AND FLAG_GFX12_ALLOW_DCC \<noteq> 0"
  assumes "f AND FLAG_NO_INTERPROCESS_SHARING \<noteq> 0"
  shows "f AND heap_flags =
    of_bool a * 1 + of_bool b * 2 + 0x10 + of_bool c * 0x40 + of_bool d * 0x80 + of_bool e * 0x100 + of_bool g * 0x1000"
proof -
  have "f AND heap_flags = (if a then FLAG_GTT_WC else 0) OR (if b then FLAG_NO_CPU_ACCESS else 0) OR
     FLAG_NO_INTERPROCESS_SHARING OR (if c then FLAG_32BIT else 0) OR (if d then FLAG_ENCRYPTED else 0) OR
     (if e then FLAG_GL2_BYPASS else 0) OR (if g then FLAG_GFX12_ALLOW_DCC else 0)"
    unfolding heap_flags_def bit.conj_disj_distrib a_def b_def c_def d_def e_def g_def
    using single_bit_flags[of f] assms(7) by simp
  also have "\<dots> = of_bool a * 1 + of_bool b * 2 + 0x10 + of_bool c * 0x40 + of_bool d * 0x80 + of_bool e * 0x100 + of_bool g * 0x1000"
    by (cases a; cases b; cases c; cases d; cases e; cases g) (simp_all add: bo_flag_defs)
  finally show ?thesis .
qed

lemma canonical_domain:
  "fst (radeon_canonicalize_bo_flags (d, f)) = (if d = DOMAIN_VRAM_GTT then DOMAIN_VRAM else d)"
  by (simp add: radeon_canonicalize_bo_flags_def Let_def)

lemma canonical_wc: "fst (radeon_canonicalize_bo_flags (d, f)) = DOMAIN_VRAM \<Longrightarrow>
    snd (radeon_canonicalize_bo_flags (d, f)) AND FLAG_GTT_WC \<noteq> 0"
proof -
  assume "fst (radeon_canonicalize_bo_flags (d, f)) = DOMAIN_VRAM"
  then have "(if d = DOMAIN_VRAM_GTT then DOMAIN_VRAM else d) = DOMAIN_VRAM" by (simp add: canonical_domain)
  then have "bit (snd (radeon_canonicalize_bo_flags (d, f))) 0"
    unfolding radeon_canonicalize_bo_flags_def Let_def prod.case
    by (auto simp: bit_simps FLAG_GTT_WC_def FLAG_NO_CPU_ACCESS_def)
  then have "bit (snd (radeon_canonicalize_bo_flags (d, f)) AND FLAG_GTT_WC) 0"
    by (simp add: bit_simps FLAG_GTT_WC_def)
  then show ?thesis by (metis bit_0_eq bot_apply bot_bool_def)
qed

lemma canonical_gtt: "fst (radeon_canonicalize_bo_flags (d, f)) = DOMAIN_GTT \<Longrightarrow>
    snd (radeon_canonicalize_bo_flags (d, f)) AND FLAG_SPARSE = 0 \<Longrightarrow>
    snd (radeon_canonicalize_bo_flags (d, f)) AND FLAG_NO_CPU_ACCESS = 0 \<and>
    snd (radeon_canonicalize_bo_flags (d, f)) AND FLAG_GFX12_ALLOW_DCC = 0"
proof -
  assume g: "fst (radeon_canonicalize_bo_flags (d, f)) = DOMAIN_GTT"
    and sp: "snd (radeon_canonicalize_bo_flags (d, f)) AND FLAG_SPARSE = 0"
  have d: "d = DOMAIN_GTT" using g by (auto simp: canonical_domain domain_defs split: if_splits)
  let ?f = "f AND NOT FLAG_NO_CPU_ACCESS AND NOT FLAG_GFX12_ALLOW_DCC"
  have c: "snd (radeon_canonicalize_bo_flags (d, f)) = (if ?f AND FLAG_SPARSE \<noteq> 0 then ?f OR FLAG_NO_CPU_ACCESS else ?f)"
    by (simp add: radeon_canonicalize_bo_flags_def Let_def d domain_defs)
  have "?f AND FLAG_SPARSE = 0"
  proof (rule ccontr)
    assume n: "?f AND FLAG_SPARSE \<noteq> 0"
    have "(?f OR FLAG_NO_CPU_ACCESS) AND FLAG_SPARSE = ?f AND FLAG_SPARSE"
      by (simp add: bit.conj_disj_distrib2 FLAG_NO_CPU_ACCESS_def FLAG_SPARSE_def)
    then show False using sp n unfolding c by simp
  qed
  then have "snd (radeon_canonicalize_bo_flags (d, f)) = ?f" using c by simp
  moreover have "?f AND FLAG_NO_CPU_ACCESS = 0" "?f AND FLAG_GFX12_ALLOW_DCC = 0"
    by (rule bit_eqI; auto simp: bit_simps)+
  ultimately show ?thesis by simp
qed

lemma and_or_zero: "f AND (a OR b) = (0 :: dword) \<longleftrightarrow> f AND a = 0 \<and> f AND b = 0"
  by (auto simp: bit.conj_disj_distrib or_eq_0_iff)

lemma get_heap_index_unpack:
  assumes "radeon_get_heap_index domain flags = Some heap"
  shows "proper_heap heap \<and>
    radeon_domain_from_heap heap = fst (radeon_canonicalize_bo_flags (domain, flags)) \<and>
    radeon_flags_from_heap heap = snd (radeon_canonicalize_bo_flags (domain, flags)) AND heap_flags"
proof -
  obtain d f where df: "radeon_canonicalize_bo_flags (domain, flags) = (d, f)" by fastforce
  have sh: "f AND FLAG_NO_INTERPROCESS_SHARING \<noteq> 0" and sp: "f AND FLAG_SPARSE = 0"
    and dom: "d = DOMAIN_VRAM \<or> d = DOMAIN_GTT"
    using assms by (auto simp: radeon_get_heap_index_def df Let_def and_or_zero split: if_splits)
  have wc: "d = DOMAIN_VRAM \<Longrightarrow> f AND FLAG_GTT_WC \<noteq> 0" using canonical_wc[of domain flags] df by simp
  have gtt: "d = DOMAIN_GTT \<Longrightarrow> f AND FLAG_NO_CPU_ACCESS = 0 \<and> f AND FLAG_GFX12_ALLOW_DCC = 0"
    using canonical_gtt[of domain flags] sp df by simp
  define a b c e g w where "a = (f AND FLAG_32BIT \<noteq> 0)" and "b = (f AND FLAG_ENCRYPTED \<noteq> 0)"
    and "c = (f AND FLAG_GL2_BYPASS \<noteq> 0)" and "e = (f AND FLAG_NO_CPU_ACCESS \<noteq> 0)"
    and "g = (f AND FLAG_GFX12_ALLOW_DCC \<noteq> 0)" and "w = (f AND FLAG_GTT_WC \<noteq> 0)"
  note bs = a_def[symmetric] b_def[symmetric] c_def[symmetric] e_def[symmetric] g_def[symmetric] w_def[symmetric]
  have heap: "Some heap = (if d = DOMAIN_VRAM
      then Some (of_bool c * 2 + of_bool a * 4 + of_bool b * 8 + 1 + of_bool e * 16 + of_bool g * 32)
      else Some (of_bool c * 2 + of_bool a * 4 + of_bool b * 8 + of_bool w * 16))"
    using assms dom unfolding radeon_get_heap_index_def df prod.case Let_def bs heap_bit_defs
    by (cases a; cases b; cases c; cases e; cases g; cases w) (auto split: if_splits)
  have fl: "f AND heap_flags = of_bool w * 1 + of_bool e * 2 + 0x10 + of_bool a * 0x40 + of_bool b * 0x80 +
      of_bool c * 0x100 + of_bool g * 0x1000"
    unfolding bs[symmetric] by (rule heap_of_bools[OF sh])
  from dom show ?thesis
  proof
    assume d: "d = DOMAIN_VRAM"
    then show ?thesis using heap wc unfolding df fst_conv snd_conv fl w_def[symmetric]
      by (cases a; cases b; cases c; cases e; cases g) (simp_all add: heap_fn_defs proper_heap_def)
  next
    assume d: "d = DOMAIN_GTT"
    then have "\<not> e" "\<not> g" "d \<noteq> DOMAIN_VRAM" using gtt by (auto simp: e_def g_def domain_defs)
    then show ?thesis using heap d unfolding df fst_conv snd_conv fl
      by (cases a; cases b; cases c; cases w) (simp_all add: heap_fn_defs proper_heap_def)
  qed
qed

lemma get_heap_index_proper: "radeon_get_heap_index domain flags = Some heap \<Longrightarrow> proper_heap heap"
  using get_heap_index_unpack by blast

section \<open>Properties\<close>

text \<open>Packing and unpacking agree: from the domain and flags of a heap \<open>radeon_get_heap_index\<close> gives
  the heap back.\<close>

theorem heap_roundtrip:
  assumes "proper_heap heap"
  shows "radeon_get_heap_index (radeon_domain_from_heap heap) (radeon_flags_from_heap heap) = Some heap"
  using assms by (rule heap_flags_heap)

text \<open>For heap 21, 32-bit VRAM without CPU access.\<close>

theorem heap_roundtrip_witness:
  "radeon_get_heap_index (radeon_domain_from_heap 21) (radeon_flags_from_heap 21) = Some 21"
  by (rule heap_roundtrip) (simp add: proper_heap_def flag_defs)

text \<open>A request that gets a heap gets one that stands for exactly what it asked for: the heap is in
  range, its domain is the canonical domain of the request, and its flags are the canonical flags of
  the request, up to the flags that do not concern an allocator.\<close>

theorem heap_index_sound:
  assumes "radeon_get_heap_index domain flags = Some heap"
  shows "proper_heap heap \<and>
    radeon_domain_from_heap heap = fst (radeon_canonicalize_bo_flags (domain, flags)) \<and>
    radeon_flags_from_heap heap = snd (radeon_canonicalize_bo_flags (domain, flags)) AND heap_flags"
  using assms by (rule get_heap_index_unpack)

text \<open>for a write-combined GTT request marked as internal to the driver.\<close>

theorem heap_index_sound_witness:
  "radeon_get_heap_index DOMAIN_GTT (FLAG_GTT_WC OR FLAG_NO_INTERPROCESS_SHARING OR FLAG_DRIVER_INTERNAL) = Some 16 \<and>
   radeon_flags_from_heap 16 = FLAG_GTT_WC OR FLAG_NO_INTERPROCESS_SHARING"
proof -
  have h: "radeon_get_heap_index DOMAIN_GTT (FLAG_GTT_WC OR FLAG_NO_INTERPROCESS_SHARING OR FLAG_DRIVER_INTERNAL) = Some 16"
    by (simp add: heap_fn_defs)
  from heap_index_sound[OF h] show ?thesis using h
    by (simp add: heap_fn_defs heap_flags_def)
qed

end
