(* ===== verification/AmdgpuBo.thy ===== *)
theory AmdgpuBo
  imports PbSlab PbCache RadeonHeap
begin

text \<open>
  Buffer objects of the amdgpu winsys (gallium/winsys/amdgpu/drm/amdgpu_bo.c): creating a kernel
  buffer, recycling it through the buffer cache, carving it into slab entries, and the statistics
  that go with it. The theory puts the slab manager (\<open>PbSlab\<close>) and the cache (\<open>PbCache\<close>) together
  the way the winsys does: the slab manager calls \<open>amdgpu_bo_slab_alloc\<close> and \<open>amdgpu_bo_slab_free\<close>,
  which create and release their backing buffer through the cache, and a failed creation calls back
  into both managers.

  The kernel, libdrm and \<open>malloc\<close> are not part of the repository; what they answer is the argument
  \<open>bo_env\<close>, without any assumption on it. The address of a structure is a number from a counter, so
  a structure that \<open>REALLOC\<close> moves gets a new one. The record \<open>aws\<close> keeps of \<open>struct amdgpu_winsys\<close>
  the chip facts the code reads, the counters, the cache and the clock, and of the buffers which real
  ones are in use, which of those back a slab, and the size and placement of the slab entries in use.
  Mapping to the CPU, exported handles and fences are not modelled; \<open>bo_idle\<close> is the answer of
  \<open>amdgpu_bo_can_reclaim\<close>.
\<close>

section \<open>Data\<close>

datatype amdgpu_bo_type =
  AMDGPU_BO_SLAB_ENTRY | AMDGPU_BO_SPARSE | AMDGPU_BO_REAL | AMDGPU_BO_REAL_REUSABLE
  | AMDGPU_BO_REAL_REUSABLE_SLAB

record amdgpu_bo = pb_buffer +
  bo_type :: amdgpu_bo_type
  unique_id :: dword
  va :: "nat option"
  svm :: nat
  bo_vm_flags :: dword
  vm_always_valid :: bool

record bo_request =
  alloc_size :: nat
  phys_alignment :: nat
  preferred_heap :: dword
  request_flags :: "64 word"

record aws =
  vram_size_kb :: nat
  gart_page_size :: nat
  pte_fragment_size :: nat
  has_dedicated_vram :: bool
  has_vm_always_valid :: bool
  drm_minor :: nat
  has_tmz_support :: bool
  is_virtio :: bool
  pci_id :: nat
  check_vm :: bool
  zero_all_vram_allocs :: bool
  slab_min_order :: nat
  slab_num_orders :: nat
  uses_secure_bos :: bool
  next_bo_unique_id :: dword
  allocated_vram :: "64 word"
  allocated_gtt :: "64 word"
  allocated_oa :: dword
  slab_wasted_vram :: "64 word"
  slab_wasted_gtt :: "64 word"
  now :: int
  bo_cache :: "amdgpu_bo pb_cache"
  in_use :: "nat \<rightharpoonup> amdgpu_bo"
  slab_bo :: "nat \<rightharpoonup> amdgpu_bo"
  entry_bo :: "entry \<rightharpoonup> nat \<times> dword"
  next_addr :: nat

record bo_env =
  calloc_ok :: bool
  bo_alloc_ok :: "bo_request \<Rightarrow> bool"
  va_range :: "nat \<Rightarrow> nat \<Rightarrow> bool \<Rightarrow> nat option"
  va_map_ok :: bool
  realloc_ok :: bool
  entries_ok :: bool
  bo_idle :: "amdgpu_bo \<Rightarrow> bool"
  cast_oob :: "nat \<Rightarrow> dword"

section \<open>Arithmetic\<close>

text \<open>\<open>align\<close> and \<open>align64\<close> of util/u_math.h, for an alignment that is a power of two.\<close>

definition align_u32 :: "nat \<Rightarrow> nat \<Rightarrow> nat" where
  "align_u32 v a = u32 (v + a - 1) div a * a"

definition align64 :: "nat \<Rightarrow> nat \<Rightarrow> nat" where
  "align64 v a = u64 (v + a - 1) div a * a"

definition util_next_power_of_two :: "nat \<Rightarrow> nat" where
  "util_next_power_of_two x = (if x \<le> 1 then 1 else 2 ^ (util_logbase2 (x - 1) + 1))"

definition util_is_power_of_two_nonzero :: "nat \<Rightarrow> bool" where
  "util_is_power_of_two_nonzero v \<longleftrightarrow> v \<noteq> 0 \<and> v AND (v - 1) = 0"

section \<open>Creating and destroying a kernel buffer\<close>

definition amdgpu_get_optimal_alignment :: "aws \<Rightarrow> nat \<Rightarrow> nat \<Rightarrow> nat" where
  "amdgpu_get_optimal_alignment aws sz alignment =
     (if pte_fragment_size aws \<le> sz then max alignment (pte_fragment_size aws)
      else if sz \<noteq> 0 then max alignment (2 ^ util_logbase2 sz)
      else alignment)"

definition GEM_DOMAIN_GTT :: dword where "GEM_DOMAIN_GTT = 0x2"
definition GEM_DOMAIN_VRAM :: dword where "GEM_DOMAIN_VRAM = 0x4"
definition GEM_DOMAIN_GDS :: dword where "GEM_DOMAIN_GDS = 0x8"
definition GEM_DOMAIN_OA :: dword where "GEM_DOMAIN_OA = 0x20"
definition GEM_DOMAIN_DOORBELL :: dword where "GEM_DOMAIN_DOORBELL = 0x40"

definition CREATE_NO_CPU_ACCESS :: "64 word" where "CREATE_NO_CPU_ACCESS = 0x2"
definition CREATE_CPU_GTT_USWC :: "64 word" where "CREATE_CPU_GTT_USWC = 0x4"
definition CREATE_VRAM_CLEARED :: "64 word" where "CREATE_VRAM_CLEARED = 0x8"
definition CREATE_VM_ALWAYS_VALID :: "64 word" where "CREATE_VM_ALWAYS_VALID = 0x40"
definition CREATE_ENCRYPTED :: "64 word" where "CREATE_ENCRYPTED = 0x400"
definition CREATE_DISCARDABLE :: "64 word" where "CREATE_DISCARDABLE = 0x1000"
definition CREATE_GFX12_DCC :: "64 word" where "CREATE_GFX12_DCC = 0x10000"
definition CREATE_VIRTIO_SHARED :: "64 word" where "CREATE_VIRTIO_SHARED = 0x80000000"

text \<open>The chip has no VRAM: a VRAM request becomes a write-combined GTT request.\<close>

definition place_without_vram :: "aws \<Rightarrow> dword \<times> dword \<Rightarrow> dword \<times> dword" where
  "place_without_vram aws = (\<lambda>(domain, flags).
     if vram_size_kb aws = 0 \<and> domain AND DOMAIN_VRAM \<noteq> 0
     then ((domain AND NOT DOMAIN_VRAM) OR DOMAIN_GTT, flags OR FLAG_GTT_WC)
     else (domain, flags))"

text \<open>
  The request for \<open>ac_drm_bo_alloc\<close>. \<open>AMDGPU_GEM_CREATE_VIRTIO_SHARED\<close> is a bit of its own for the virtio
  native context (amd/common/sid.h).
\<close>

definition flag_if :: "bool \<Rightarrow> 'a :: len word \<Rightarrow> 'a word" where
  "flag_if b x = (if b then x else 0)"

definition make_request :: "aws \<Rightarrow> nat \<Rightarrow> nat \<Rightarrow> dword \<Rightarrow> dword \<Rightarrow> bo_request" where
  "make_request aws sz alignment domain flags =
     (let heap = flag_if (domain AND DOMAIN_VRAM \<noteq> 0) GEM_DOMAIN_VRAM OR
                 flag_if (domain AND DOMAIN_VRAM \<noteq> 0 \<and> \<not> has_dedicated_vram aws) GEM_DOMAIN_GTT OR
                 flag_if (domain AND DOMAIN_GTT \<noteq> 0) GEM_DOMAIN_GTT OR
                 flag_if (domain AND DOMAIN_GDS \<noteq> 0) GEM_DOMAIN_GDS OR
                 flag_if (domain AND DOMAIN_OA \<noteq> 0) GEM_DOMAIN_OA OR
                 flag_if (domain AND DOMAIN_DOORBELL \<noteq> 0) GEM_DOMAIN_DOORBELL
      in \<lparr>alloc_size = sz, phys_alignment = alignment, preferred_heap = heap,
          request_flags =
            flag_if (flags AND FLAG_NO_CPU_ACCESS \<noteq> 0) CREATE_NO_CPU_ACCESS OR
            flag_if (flags AND FLAG_GTT_WC \<noteq> 0) CREATE_CPU_GTT_USWC OR
            flag_if (has_vm_always_valid aws \<and> domain AND (DOMAIN_VRAM_GTT OR DOMAIN_DOORBELL) \<noteq> 0 \<and>
                     flags AND FLAG_NO_INTERPROCESS_SHARING \<noteq> 0) CREATE_VM_ALWAYS_VALID OR
            flag_if (flags AND FLAG_DISCARDABLE \<noteq> 0 \<and> 47 \<le> drm_minor aws) CREATE_DISCARDABLE OR
            flag_if (flags AND FLAG_CLEAR_VRAM \<noteq> 0 \<or>
                     zero_all_vram_allocs aws \<and> heap AND GEM_DOMAIN_VRAM \<noteq> 0) CREATE_VRAM_CLEARED OR
            flag_if (flags AND FLAG_ENCRYPTED \<noteq> 0 \<and> has_tmz_support aws) CREATE_ENCRYPTED OR
            flag_if (flags AND FLAG_GFX12_ALLOW_DCC \<noteq> 0) CREATE_GFX12_DCC OR
            flag_if (is_virtio aws \<and> domain AND DOMAIN_VRAM_GTT \<noteq> 0 \<and>
                     flags AND (FLAG_DRIVER_INTERNAL OR FLAG_NO_INTERPROCESS_SHARING) = 0) CREATE_VIRTIO_SHARED\<rparr>)"

definition account_alloc :: "dword \<Rightarrow> nat \<Rightarrow> aws \<Rightarrow> aws" where
  "account_alloc domain sz aws =
     (if domain AND DOMAIN_VRAM \<noteq> 0
      then aws\<lparr>allocated_vram := allocated_vram aws + of_nat (align64 sz (gart_page_size aws))\<rparr>
      else if domain AND DOMAIN_GTT \<noteq> 0
      then aws\<lparr>allocated_gtt := allocated_gtt aws + of_nat (align64 sz (gart_page_size aws))\<rparr>
      else if domain AND DOMAIN_OA \<noteq> 0
      then aws\<lparr>allocated_oa := allocated_oa aws + of_nat sz\<rparr>
      else aws)"

definition account_free :: "dword \<Rightarrow> nat \<Rightarrow> aws \<Rightarrow> aws" where
  "account_free domain sz aws =
     (if domain AND DOMAIN_VRAM \<noteq> 0
      then aws\<lparr>allocated_vram := allocated_vram aws - of_nat (align64 sz (gart_page_size aws))\<rparr>
      else if domain AND DOMAIN_GTT \<noteq> 0
      then aws\<lparr>allocated_gtt := allocated_gtt aws - of_nat (align64 sz (gart_page_size aws))\<rparr>
      else if domain AND DOMAIN_OA \<noteq> 0
      then aws\<lparr>allocated_oa := allocated_oa aws - of_nat sz\<rparr>
      else aws)"

text \<open>Whether the buffer gets an address range, and which one the kernel finds.\<close>

definition bo_mapped :: "dword \<Rightarrow> dword \<Rightarrow> bool" where
  "bo_mapped domain flags \<longleftrightarrow> domain AND DOMAIN_VRAM_GTT \<noteq> 0 \<and> flags AND FLAG_NO_VMA = 0"

definition bo_va :: "bo_env \<Rightarrow> aws \<Rightarrow> nat \<Rightarrow> nat \<Rightarrow> dword \<Rightarrow> nat option" where
  "bo_va env aws sz alignment flags =
     (let va_gap_size = (if check_vm aws then max (u32 (4 * alignment)) (64 * 1024) else 0)
      in va_range env (u64 (sz + va_gap_size)) alignment (flags AND FLAG_32BIT \<noteq> 0))"

definition bo_map_flags :: "aws \<Rightarrow> dword \<Rightarrow> dword" where
  "bo_map_flags aws flags =
     (if flags AND FLAG_GL2_BYPASS \<noteq> 0 \<and> pci_id aws \<noteq> 0x73a0 then 0x8E else 0xE)"

text \<open>
  The structure that is filled in: a reusable one, with or without room for a slab, when the buffer
  has a heap and is not shared between processes.
\<close>

definition new_bo_type :: "dword \<Rightarrow> nat option \<Rightarrow> amdgpu_bo_type" where
  "new_bo_type flags heap =
     (if heap \<noteq> None \<and> flags AND FLAG_NO_INTERPROCESS_SHARING \<noteq> 0
      then if flags AND FLAG_WINSYS_SLAB_BACKING \<noteq> 0 then AMDGPU_BO_REAL_REUSABLE_SLAB
           else AMDGPU_BO_REAL_REUSABLE
      else AMDGPU_BO_REAL)"

definition new_bo_bucket :: "dword \<Rightarrow> nat option \<Rightarrow> nat" where
  "new_bo_bucket flags heap =
     (case heap of
        Some h \<Rightarrow> if flags AND FLAG_NO_INTERPROCESS_SHARING \<noteq> 0 then h else 0
      | None \<Rightarrow> 0)"

definition note_secure :: "dword \<Rightarrow> aws \<Rightarrow> aws" where
  "note_secure flags aws =
     aws\<lparr>uses_secure_bos := uses_secure_bos aws \<or>
       (flags AND FLAG_ENCRYPTED \<noteq> 0 \<and> has_tmz_support aws \<and> flags AND FLAG_DRIVER_INTERNAL = 0)\<rparr>"

definition amdgpu_create_bo ::
    "bo_env \<Rightarrow> aws \<Rightarrow> nat \<Rightarrow> nat \<Rightarrow> dword \<Rightarrow> dword \<Rightarrow> nat option \<Rightarrow> amdgpu_bo option \<times> aws" where
  "amdgpu_create_bo env aws sz alignment0 initial_domain flags0 heap =
     (let alignment = amdgpu_get_optimal_alignment aws sz alignment0;
          (domain, flags) = place_without_vram aws (initial_domain, flags0);
          request = make_request aws sz alignment domain flags;
          mapped = bo_mapped domain flags;
          addr = bo_va env aws sz alignment flags;
          aws1 = note_secure flags aws
      in if \<not> calloc_ok env then (None, aws)
         else if \<not> bo_alloc_ok env request then (None, aws1)
         else if mapped \<and> addr = None then (None, aws1)
         else if mapped \<and> \<not> va_map_ok env then (None, aws1)
         else
           (Some \<lparr>buf = next_addr aws, refs = 1, placement = domain, usage = flags, buf_size = sz,
                  alignment_log2 = util_logbase2 alignment, bucket_index = new_bo_bucket flags0 heap,
                  start_ms = 0, bo_type = new_bo_type flags0 heap,
                  unique_id = next_bo_unique_id aws, va = (if mapped then addr else None), svm = 0,
                  bo_vm_flags = (if mapped then bo_map_flags aws flags else 0),
                  vm_always_valid = (request_flags request AND CREATE_VM_ALWAYS_VALID \<noteq> 0)\<rparr>,
            account_alloc domain sz
              (aws1\<lparr>next_bo_unique_id := next_bo_unique_id aws + 1, next_addr := next_addr aws + 1\<rparr>)))"

definition amdgpu_bo_destroy :: "aws \<Rightarrow> amdgpu_bo \<Rightarrow> aws" where
  "amdgpu_bo_destroy aws bo =
     (if refs bo \<noteq> 0 then aws else account_free (placement bo) (buf_size bo) aws)"

definition is_reusable :: "amdgpu_bo \<Rightarrow> bool" where
  "is_reusable bo \<longleftrightarrow>
     bo_type bo = AMDGPU_BO_REAL_REUSABLE \<or> bo_type bo = AMDGPU_BO_REAL_REUSABLE_SLAB"

definition amdgpu_bo_destroy_or_cache :: "aws \<Rightarrow> amdgpu_bo \<Rightarrow> aws" where
  "amdgpu_bo_destroy_or_cache aws bo =
     (if is_reusable bo
      then let (c, w) = pb_cache_add_buffer amdgpu_bo_destroy (now aws) (now aws) bo (bo_cache aws, aws)
           in w\<lparr>bo_cache := c\<rparr>
      else amdgpu_bo_destroy aws bo)"

text \<open>Dropping the only reference of a real buffer.\<close>

definition drop_reference :: "aws \<Rightarrow> amdgpu_bo \<Rightarrow> aws" where
  "drop_reference aws bo = amdgpu_bo_destroy_or_cache aws (bo\<lparr>refs := 0\<rparr>)"

section \<open>Real buffers through the cache\<close>

datatype bo_result = Bo amdgpu_bo | Null | Retry | Assert_failed

definition page_aligned :: "aws \<Rightarrow> dword \<Rightarrow> nat \<Rightarrow> nat \<Rightarrow> nat \<times> nat" where
  "page_aligned aws domain sz alignment =
     (if domain AND DOMAIN_VRAM_GTT \<noteq> 0
      then (align64 sz (gart_page_size aws), align_u32 alignment (gart_page_size aws))
      else (sz, alignment))"

definition use_reusable_pool :: "dword \<Rightarrow> dword \<Rightarrow> bool" where
  "use_reusable_pool domain flags \<longleftrightarrow>
     domain AND DOMAIN_DOORBELL = 0 \<and> flags AND FLAG_NO_INTERPROCESS_SHARING \<noteq> 0 \<and>
     flags AND (FLAG_DISCARDABLE OR FLAG_CLEAR_VRAM) = 0"

definition bo_heap :: "dword \<Rightarrow> dword \<Rightarrow> nat option" where
  "bo_heap domain flags =
     (if use_reusable_pool domain flags then radeon_get_heap_index domain (flags AND NOT FLAG_NO_SUBALLOC)
      else radeon_get_heap_index domain flags)"

text \<open>
  The code after the label \<open>no_slab\<close>, up to the first call of \<open>amdgpu_create_bo\<close>. \<open>Retry\<close> is the result
  when that call fails; the caller then cleans up and runs \<open>bo_create_again\<close>.
\<close>

definition bo_create_again ::
    "bo_env \<Rightarrow> aws \<Rightarrow> nat \<Rightarrow> nat \<Rightarrow> dword \<Rightarrow> dword \<Rightarrow> amdgpu_bo option \<times> aws" where
  "bo_create_again env aws sz0 alignment0 domain flags =
     (let (sz, alignment) = page_aligned aws domain sz0 alignment0
      in amdgpu_create_bo env aws sz alignment domain flags (bo_heap domain flags))"

definition bo_create_first ::
    "bo_env \<Rightarrow> aws \<Rightarrow> nat \<Rightarrow> nat \<Rightarrow> dword \<Rightarrow> dword \<Rightarrow> bo_result \<times> aws" where
  "bo_create_first env aws sz0 alignment0 domain flags =
     (let (sz, alignment) = page_aligned aws domain sz0 alignment0;
          create = (\<lambda>aws. case bo_create_again env aws sz0 alignment0 domain flags of
                      (Some bo, aws1) \<Rightarrow> (Bo bo, aws1) | (None, aws1) \<Rightarrow> (Retry, aws1))
      in if use_reusable_pool domain flags
         then (case bo_heap domain flags of
                 None \<Rightarrow> (Assert_failed, aws)
               | Some heap \<Rightarrow>
                   (case pb_cache_reclaim_buffer (cast_oob env) (bo_idle env) amdgpu_bo_destroy (now aws)
                           sz alignment 0 heap (bo_cache aws, aws) of
                      (None, c, w) \<Rightarrow> create (w\<lparr>bo_cache := c\<rparr>)
                    | (Some bo, c, w) \<Rightarrow>
                        let aws1 = w\<lparr>bo_cache := c\<rparr>
                        in if flags AND FLAG_WINSYS_SLAB_BACKING \<noteq> 0 \<and> bo_type bo = AMDGPU_BO_REAL_REUSABLE
                           then if \<not> realloc_ok env then (Null, drop_reference aws1 bo)
                                else (Bo (bo\<lparr>buf := next_addr aws1, bo_type := AMDGPU_BO_REAL_REUSABLE_SLAB\<rparr>),
                                      aws1\<lparr>next_addr := next_addr aws1 + 1\<rparr>)
                           else (Bo bo, aws1)))
         else create aws)"

section \<open>Slabs\<close>

definition get_slab_pot_entry_size :: "aws \<Rightarrow> nat \<Rightarrow> nat" where
  "get_slab_pot_entry_size aws sz = max (util_next_power_of_two sz) (2 ^ slab_min_order aws)"

definition get_slab_entry_alignment :: "aws \<Rightarrow> nat \<Rightarrow> nat" where
  "get_slab_entry_alignment aws sz =
     (let es = get_slab_pot_entry_size aws sz in if sz \<le> es * 3 div 4 then es div 4 else es)"

definition slab_buffer_size :: "aws \<Rightarrow> nat \<Rightarrow> nat" where
  "slab_buffer_size aws es =
     (let max_entry_size = 2 ^ (slab_min_order aws + slab_num_orders aws - 1);
          slab_size = max_entry_size * 2;
          slab_size1 =
            (if \<not> util_is_power_of_two_nonzero es \<and> slab_size < es * 5
             then util_next_power_of_two (es * 5) else slab_size)
      in max slab_size1 (pte_fragment_size aws))"

definition slab_flags :: "nat \<Rightarrow> dword" where
  "slab_flags heap =
     radeon_flags_from_heap heap OR
     (FLAG_NO_INTERPROCESS_SHARING OR FLAG_NO_SUBALLOC OR FLAG_WINSYS_SLAB_BACKING)"

definition add_slab_wasted :: "dword \<Rightarrow> 64 word \<Rightarrow> aws \<Rightarrow> aws" where
  "add_slab_wasted domain n aws =
     (if domain AND DOMAIN_VRAM \<noteq> 0 then aws\<lparr>slab_wasted_vram := slab_wasted_vram aws + n\<rparr>
      else aws\<lparr>slab_wasted_gtt := slab_wasted_gtt aws + n\<rparr>)"

definition sub_slab_wasted :: "dword \<Rightarrow> 64 word \<Rightarrow> aws \<Rightarrow> aws" where
  "sub_slab_wasted domain n aws =
     (if domain AND DOMAIN_VRAM \<noteq> 0 then aws\<lparr>slab_wasted_vram := slab_wasted_vram aws - n\<rparr>
      else aws\<lparr>slab_wasted_gtt := slab_wasted_gtt aws - n\<rparr>)"

text \<open>The second half of \<open>amdgpu_bo_slab_alloc\<close>: dividing the buffer into entries.\<close>

definition carve_slab :: "bo_env \<Rightarrow> amdgpu_bo \<Rightarrow> nat \<Rightarrow> nat \<Rightarrow> nat \<Rightarrow> aws \<Rightarrow> (nat \<times> pb_slab) option \<times> aws" where
  "carve_slab env bo heap es g aws =
     (let slab_size = buf_size bo; n = slab_size div es
      in if \<not> entries_ok env then (None, drop_reference aws bo)
         else (Some (buf bo, \<lparr>free = [0..<n], num_free = n, num_entries = n, group_index = g, entry_size = es\<rparr>),
               add_slab_wasted (radeon_domain_from_heap heap) (of_nat (slab_size - n * es))
                 (aws\<lparr>slab_bo := (slab_bo aws)(buf bo \<mapsto> bo)\<rparr>)))"

text \<open>
  \<open>amdgpu_bo_slab_alloc\<close> calls \<open>amdgpu_bo_create\<close> with \<open>RADEON_FLAG_NO_SUBALLOC\<close>, which goes to the
  code after \<open>no_slab\<close> (\<open>slab_flags_no_suballoc\<close> below); the domain and flags are canonicalized first.
  Its two attempts are separate steps, because the clean-up between them takes and releases locks.
\<close>

definition slab_request :: "nat \<Rightarrow> dword \<times> dword" where
  "slab_request heap = radeon_canonicalize_bo_flags (radeon_domain_from_heap heap, slab_flags heap)"

datatype attempt = First bo_env | Again bo_env

definition slab_attempt ::
    "attempt \<Rightarrow> aws \<Rightarrow> nat \<Rightarrow> nat \<Rightarrow> nat \<Rightarrow> (nat \<times> pb_slab) option \<times> aws" where
  "slab_attempt x aws heap es g =
     (let (domain, flags) = slab_request heap; sz = slab_buffer_size aws es
      in case x of
           First env \<Rightarrow>
             (case bo_create_first env aws sz sz domain flags of
                (Bo bo, aws1) \<Rightarrow> carve_slab env bo heap es g aws1
              | (_, aws1) \<Rightarrow> (None, aws1))
         | Again env \<Rightarrow>
             (case bo_create_again env aws sz sz domain flags of
                (Some bo, aws1) \<Rightarrow> carve_slab env bo heap es g aws1
              | (None, aws1) \<Rightarrow> (None, aws1)))"

definition amdgpu_bo_slab_free :: "aws \<Rightarrow> nat \<Rightarrow> pb_slab \<Rightarrow> aws" where
  "amdgpu_bo_slab_free aws sid slab =
     (case slab_bo aws sid of
        None \<Rightarrow> aws
      | Some bo \<Rightarrow>
          drop_reference
            (sub_slab_wasted (placement bo) (of_nat (buf_size bo - num_entries slab * entry_size slab))
               (aws\<lparr>slab_bo := (slab_bo aws)(sid := None)\<rparr>)) bo)"

definition amdgpu_clean_up_buffer_managers ::
    "(entry \<Rightarrow> bool) \<Rightarrow> pb_slabs \<times> aws \<Rightarrow> pb_slabs \<times> aws" where
  "amdgpu_clean_up_buffer_managers can st =
     (let (_, slabs, aws) = pb_slabs_reclaim can amdgpu_bo_slab_free st;
          (_, c, w) = pb_cache_release_all_buffers amdgpu_bo_destroy (bo_cache aws, aws)
      in (slabs, w\<lparr>bo_cache := c\<rparr>))"

definition amdgpu_bo_slab_alloc ::
    "bo_env \<Rightarrow> bo_env \<Rightarrow> (entry \<Rightarrow> bool) \<Rightarrow> pb_slabs \<times> aws \<Rightarrow> nat \<Rightarrow> nat \<Rightarrow> nat \<Rightarrow>
     (nat \<times> pb_slab) option \<times> pb_slabs \<times> aws" where
  "amdgpu_bo_slab_alloc env1 env2 can = (\<lambda>(slabs, aws) heap es g.
     let (domain, flags) = slab_request heap; sz = slab_buffer_size aws es
     in case bo_create_first env1 aws sz sz domain flags of
          (Bo bo, aws1) \<Rightarrow> (let (r, aws2) = carve_slab env1 bo heap es g aws1 in (r, slabs, aws2))
        | (Retry, aws1) \<Rightarrow>
            (let (slabs2, aws2) = amdgpu_clean_up_buffer_managers can (slabs, aws1)
             in case bo_create_again env2 aws2 sz sz domain flags of
                  (Some bo, aws3) \<Rightarrow> (let (r, aws4) = carve_slab env2 bo heap es g aws3 in (r, slabs2, aws4))
                | (None, aws3) \<Rightarrow> (None, slabs2, aws3))
        | (_, aws1) \<Rightarrow> (None, slabs, aws1))"

section \<open>Buffers for the driver\<close>

definition get_slab_wasted_size :: "pb_slab \<Rightarrow> nat \<Rightarrow> 64 word" where
  "get_slab_wasted_size slab sz = of_nat (entry_size slab - sz)"

definition get_slab_entry_offset :: "pb_slab \<Rightarrow> entry \<Rightarrow> nat" where
  "get_slab_entry_offset slab e = entry_size slab * snd e"

definition amdgpu_bo_slab_destroy :: "entry \<Rightarrow> pb_slabs \<times> aws \<Rightarrow> pb_slabs \<times> aws" where
  "amdgpu_bo_slab_destroy e = (\<lambda>(slabs, aws).
     case (store slabs (fst e), entry_bo aws e) of
       (Some slab, Some (sz, domain)) \<Rightarrow>
         (pb_slab_free e slabs,
          sub_slab_wasted domain (get_slab_wasted_size slab sz) (aws\<lparr>entry_bo := (entry_bo aws)(e := None)\<rparr>))
     | _ \<Rightarrow> (slabs, aws))"

text \<open>How much of a slab a small buffer takes, or \<^term>\<open>None\<close> when no entry has its alignment.\<close>

definition slab_alloc_size :: "aws \<Rightarrow> nat \<Rightarrow> nat \<Rightarrow> nat option" where
  "slab_alloc_size aws sz alignment =
     (let a = (if sz < alignment \<and> alignment \<le> 4 * 1024 then alignment else sz)
      in if get_slab_entry_alignment aws a < alignment
         then let pot_size = get_slab_pot_entry_size aws a
              in if alignment \<le> pot_size then Some pot_size else None
         else Some a)"

text \<open>What the environment answers during one \<open>amdgpu_bo_create\<close>, call by call.\<close>

record create_env =
  slab_env :: "nat \<Rightarrow> bo_env"
  real_env :: "nat \<Rightarrow> bo_env"
  entry_idle :: "nat \<Rightarrow> entry \<Rightarrow> bool"

datatype new_buffer = Slab_entry entry | Real_bo amdgpu_bo | No_memory | Sparse_bo | Assertion

definition bo_create_slab_entry ::
    "create_env \<Rightarrow> nat \<Rightarrow> dword \<Rightarrow> nat \<Rightarrow> nat \<Rightarrow> pb_slabs \<times> aws \<Rightarrow> new_buffer \<times> pb_slabs \<times> aws" where
  "bo_create_slab_entry env sz domain a heap st =
     (let alloc = (\<lambda>k. pb_slab_alloc (entry_idle env (3 * k))
                     (amdgpu_bo_slab_alloc (slab_env env (2 * k)) (slab_env env (2 * k + 1)) (entry_idle env (3 * k + 1)))
                     amdgpu_bo_slab_free a heap);
          done = (\<lambda>e st. case store (fst st) (fst e) of
                     None \<Rightarrow> (Assertion, st)
                   | Some slab \<Rightarrow>
                       (Slab_entry e, fst st,
                        add_slab_wasted domain (get_slab_wasted_size slab sz)
                          ((snd st)\<lparr>next_bo_unique_id := next_bo_unique_id (snd st) + 1,
                                   entry_bo := (entry_bo (snd st))(e \<mapsto> (sz, radeon_domain_from_heap heap))\<rparr>)))
      in case alloc 0 st of
           None \<Rightarrow> (Assertion, st)
         | Some (Some e, st1) \<Rightarrow> done e st1
         | Some (None, st1) \<Rightarrow>
             (let st2 = amdgpu_clean_up_buffer_managers (entry_idle env 2) st1
              in case alloc 1 st2 of
                   None \<Rightarrow> (Assertion, st2)
                 | Some (Some e, st3) \<Rightarrow> done e st3
                 | Some (None, st3) \<Rightarrow> (No_memory, st3)))"

definition bo_create_real_bo ::
    "create_env \<Rightarrow> nat \<Rightarrow> nat \<Rightarrow> dword \<Rightarrow> dword \<Rightarrow> pb_slabs \<times> aws \<Rightarrow> new_buffer \<times> pb_slabs \<times> aws" where
  "bo_create_real_bo env sz alignment domain flags = (\<lambda>(slabs, aws).
     let got = (\<lambda>bo slabs aws. (Real_bo bo, slabs, aws\<lparr>in_use := (in_use aws)(buf bo \<mapsto> bo)\<rparr>))
     in case bo_create_first (real_env env 0) aws sz alignment domain flags of
          (Bo bo, aws1) \<Rightarrow> got bo slabs aws1
        | (Null, aws1) \<Rightarrow> (No_memory, slabs, aws1)
        | (Assert_failed, aws1) \<Rightarrow> (Assertion, slabs, aws1)
        | (Retry, aws1) \<Rightarrow>
            (let (slabs2, aws2) = amdgpu_clean_up_buffer_managers (entry_idle env 5) (slabs, aws1)
             in case bo_create_again (real_env env 1) aws2 sz alignment domain flags of
                  (Some bo, aws3) \<Rightarrow> got bo slabs2 aws3
                | (None, aws3) \<Rightarrow> (No_memory, slabs2, aws3)))"

definition amdgpu_bo_create ::
    "create_env \<Rightarrow> nat \<Rightarrow> nat \<Rightarrow> dword \<Rightarrow> dword \<Rightarrow> pb_slabs \<times> aws \<Rightarrow> new_buffer \<times> pb_slabs \<times> aws" where
  "amdgpu_bo_create env sz alignment domain0 flags0 st =
     (let (domain, flags) = radeon_canonicalize_bo_flags (domain0, flags0);
          aws = snd st;
          max_slab_entry_size = 2 ^ (slab_min_order aws + slab_num_orders aws - 1);
          real = bo_create_real_bo env sz alignment domain flags st
      in if flags AND FLAG_SPARSE \<noteq> 0 then (Sparse_bo, st)
         else case radeon_get_heap_index domain flags of
                None \<Rightarrow> real
              | Some heap \<Rightarrow>
                  if sz \<le> max_slab_entry_size
                  then (case slab_alloc_size aws sz alignment of
                          None \<Rightarrow> real
                        | Some a \<Rightarrow> bo_create_slab_entry env sz domain a heap st)
                  else real)"

section \<open>Allocation in a virtio guest\<close>

text \<open>
  The request that \<open>amdvgpu_bo_alloc\<close> (amd/common/virtio/amdgpu_virtio_bo.c) sends to the host, and the
  flags of the blob. The macro \<open>AMDGPU_GEM_CREATE_VIRTIO_SHARED\<close> expands to \<open>1u << 31\<close>; \<open>~\<close> binds
  tighter than \<open><<\<close>, and the 32-bit result is extended to the 64 bits of the flags. \<open>host\<close> is
  \<open>alloc_host_blob\<close>: whether the host creates the blob.
\<close>

record blob_request =
  blob_id :: nat
  blob_size :: nat
  blob_alignment :: nat
  blob_heap :: dword
  blob_flags :: "64 word"
  blob_use :: dword

definition virtio_blob_request :: "bo_request \<Rightarrow> blob_request" where
  "virtio_blob_request request =
     (let flags = request_flags request;
          use = (if flags AND CREATE_NO_CPU_ACCESS = 0 then 1 else 0);
          not_shared = (ucast (push_bit 31 (NOT 1 :: dword)) :: 64 word)
      in if flags AND CREATE_VIRTIO_SHARED \<noteq> 0
         then \<lparr>blob_id = 0, blob_size = alloc_size request, blob_alignment = phys_alignment request,
               blob_heap = preferred_heap request, blob_flags = flags AND not_shared, blob_use = use OR 2\<rparr>
         else \<lparr>blob_id = 0, blob_size = alloc_size request, blob_alignment = phys_alignment request,
               blob_heap = preferred_heap request, blob_flags = flags, blob_use = use\<rparr>)"

record amdvgpu_bo =
  vbo_size :: nat
  vbo_refcount :: nat

definition amdvgpu_bo_alloc ::
    "(blob_request \<Rightarrow> bool) \<Rightarrow> nat \<Rightarrow> bo_request \<Rightarrow> amdvgpu_bo option \<times> nat" where
  "amdvgpu_bo_alloc host next_blob_id request =
     (let req = (virtio_blob_request request)\<lparr>blob_id := next_blob_id + 1\<rparr>
      in if host req then (Some \<lparr>vbo_size = alloc_size request, vbo_refcount = 1\<rparr>, next_blob_id + 1)
         else (None, next_blob_id + 1))"

section \<open>The invariant of the winsys\<close>

text \<open>
  No real buffer is in two places: backing a slab, in use otherwise, or in the cache. Addresses come
  from the counter, and buffers that go to the cache have one of its buckets.
\<close>

definition bucket_ok :: "amdgpu_bo \<Rightarrow> bool" where
  "bucket_ok bo \<longleftrightarrow> (is_reusable bo \<longrightarrow> bucket_index bo < RADEON_NUM_HEAPS)"

definition taken :: "aws \<Rightarrow> nat set" where
  "taken aws = dom (slab_bo aws) \<union> dom (in_use aws)"

definition aws_ok :: "aws \<Rightarrow> bool" where
  "aws_ok aws \<longleftrightarrow>
     cache_inv (bo_cache aws) \<and> cache_num_heaps (bo_cache aws) = RADEON_NUM_HEAPS \<and>
     dom (slab_bo aws) \<inter> dom (in_use aws) = {} \<and>
     taken aws \<inter> buf ` set (cached (bo_cache aws)) = {} \<and>
     taken aws \<union> buf ` set (cached (bo_cache aws)) \<subseteq> {..<next_addr aws} \<and>
     (\<forall>a bo. slab_bo aws a = Some bo \<or> in_use aws a = Some bo \<longrightarrow> buf bo = a \<and> bucket_ok bo) \<and>
     slab_min_order aws = 8 \<and> slab_num_orders aws = 13 \<and> 0 < gart_page_size aws \<and>
     gart_page_size aws < 2 ^ 32 \<and> pte_fragment_size aws < 2 ^ 32"

definition fresh_bo :: "aws \<Rightarrow> amdgpu_bo \<Rightarrow> bool" where
  "fresh_bo aws bo \<longleftrightarrow>
     buf bo \<notin> taken aws \<union> buf ` set (cached (bo_cache aws)) \<and> buf bo < next_addr aws \<and> bucket_ok bo"

definition same_chip :: "aws \<Rightarrow> aws \<Rightarrow> bool" where
  "same_chip aws aws' \<longleftrightarrow>
     vram_size_kb aws' = vram_size_kb aws \<and> gart_page_size aws' = gart_page_size aws \<and>
     pte_fragment_size aws' = pte_fragment_size aws \<and> slab_min_order aws' = slab_min_order aws \<and>
     slab_num_orders aws' = slab_num_orders aws"

definition keeps_bos :: "aws \<Rightarrow> aws \<Rightarrow> bool" where
  "keeps_bos aws aws' \<longleftrightarrow>
     slab_bo aws' = slab_bo aws \<and> in_use aws' = in_use aws \<and> next_addr aws \<le> next_addr aws' \<and> same_chip aws aws'"

lemma keeps_bos_refl [simp]: "keeps_bos aws aws"
  by (simp add: keeps_bos_def same_chip_def)

lemma keeps_bos_trans: "keeps_bos a b \<Longrightarrow> keeps_bos b c \<Longrightarrow> keeps_bos a c"
  by (simp add: keeps_bos_def same_chip_def)

lemma aws_okD:
  assumes "aws_ok aws"
  shows "cache_inv (bo_cache aws)" "cache_num_heaps (bo_cache aws) = RADEON_NUM_HEAPS"
    "taken aws \<inter> buf ` set (cached (bo_cache aws)) = {}"
    "taken aws \<union> buf ` set (cached (bo_cache aws)) \<subseteq> {..<next_addr aws}"
    "slab_bo aws a = Some bo \<Longrightarrow> buf bo = a \<and> bucket_ok bo"
    "in_use aws a = Some bo \<Longrightarrow> buf bo = a \<and> bucket_ok bo"
    "dom (slab_bo aws) \<inter> dom (in_use aws) = {}"
    "slab_min_order aws = 8" "slab_num_orders aws = 13" "0 < gart_page_size aws" "gart_page_size aws < 2 ^ 32"
    "pte_fragment_size aws < 2 ^ 32"
  using assms unfolding aws_ok_def by blast+

lemma disjoint_sub: "X \<inter> Y = {} \<Longrightarrow> Z \<subseteq> Y \<union> A \<Longrightarrow> A \<inter> X = {} \<Longrightarrow> X \<inter> Z = {}"
  by blast

lemma union_sub: "X \<union> Y \<subseteq> N \<Longrightarrow> N \<subseteq> N' \<Longrightarrow> Z \<subseteq> Y \<union> A \<Longrightarrow> A \<subseteq> N' \<Longrightarrow> X \<union> Z \<subseteq> N'"
  by blast

lemma aws_ok_cache:
  assumes ok: "aws_ok aws" and k: "keeps_bos aws aws'" and inv: "cache_inv (bo_cache aws')"
    and heaps: "cache_num_heaps (bo_cache aws') = RADEON_NUM_HEAPS"
    and sub: "buf ` set (cached (bo_cache aws')) \<subseteq> buf ` set (cached (bo_cache aws)) \<union> A"
    and new: "A \<inter> taken aws = {}" "A \<subseteq> {..<next_addr aws'}"
  shows "aws_ok aws'"
proof -
  have t: "taken aws' = taken aws" using k by (simp add: keeps_bos_def taken_def)
  have "taken aws' \<inter> buf ` set (cached (bo_cache aws')) = {}"
    unfolding t by (rule disjoint_sub[OF aws_okD(3)[OF ok] sub new(1)])
  moreover have "taken aws' \<union> buf ` set (cached (bo_cache aws')) \<subseteq> {..<next_addr aws'}"
  proof -
    have "{..<next_addr aws} \<subseteq> {..<next_addr aws'}" using k by (auto simp: keeps_bos_def)
    then show ?thesis unfolding t by (rule union_sub[OF aws_okD(4)[OF ok] _ sub new(2)])
  qed
  ultimately show ?thesis using ok k inv heaps unfolding aws_ok_def keeps_bos_def same_chip_def by simp
qed

text \<open>Destroying buffers only changes the counters of allocated bytes.\<close>

lemma destroy_fields [simp]:
  "bo_cache (amdgpu_bo_destroy aws bo) = bo_cache aws"
  "slab_bo (amdgpu_bo_destroy aws bo) = slab_bo aws"
  "in_use (amdgpu_bo_destroy aws bo) = in_use aws"
  "entry_bo (amdgpu_bo_destroy aws bo) = entry_bo aws"
  "next_addr (amdgpu_bo_destroy aws bo) = next_addr aws"
  "now (amdgpu_bo_destroy aws bo) = now aws"
  "slab_wasted_vram (amdgpu_bo_destroy aws bo) = slab_wasted_vram aws"
  "slab_wasted_gtt (amdgpu_bo_destroy aws bo) = slab_wasted_gtt aws"
  "next_bo_unique_id (amdgpu_bo_destroy aws bo) = next_bo_unique_id aws"
  "vram_size_kb (amdgpu_bo_destroy aws bo) = vram_size_kb aws"
  "gart_page_size (amdgpu_bo_destroy aws bo) = gart_page_size aws"
  "pte_fragment_size (amdgpu_bo_destroy aws bo) = pte_fragment_size aws"
  "slab_min_order (amdgpu_bo_destroy aws bo) = slab_min_order aws"
  "slab_num_orders (amdgpu_bo_destroy aws bo) = slab_num_orders aws"
  by (simp_all add: amdgpu_bo_destroy_def account_free_def)

lemma foldl_keeps: "(\<And>a x. f (g a x) = f a) \<Longrightarrow> f (foldl g a xs) = f a"
  by (induction xs arbitrary: a) simp_all

lemma foldl_destroy_fields [simp]:
  "bo_cache (foldl amdgpu_bo_destroy aws ds) = bo_cache aws"
  "slab_bo (foldl amdgpu_bo_destroy aws ds) = slab_bo aws"
  "in_use (foldl amdgpu_bo_destroy aws ds) = in_use aws"
  "entry_bo (foldl amdgpu_bo_destroy aws ds) = entry_bo aws"
  "next_addr (foldl amdgpu_bo_destroy aws ds) = next_addr aws"
  "now (foldl amdgpu_bo_destroy aws ds) = now aws"
  "slab_wasted_vram (foldl amdgpu_bo_destroy aws ds) = slab_wasted_vram aws"
  "slab_wasted_gtt (foldl amdgpu_bo_destroy aws ds) = slab_wasted_gtt aws"
  "next_bo_unique_id (foldl amdgpu_bo_destroy aws ds) = next_bo_unique_id aws"
  "vram_size_kb (foldl amdgpu_bo_destroy aws ds) = vram_size_kb aws"
  "gart_page_size (foldl amdgpu_bo_destroy aws ds) = gart_page_size aws"
  "pte_fragment_size (foldl amdgpu_bo_destroy aws ds) = pte_fragment_size aws"
  "slab_min_order (foldl amdgpu_bo_destroy aws ds) = slab_min_order aws"
  "slab_num_orders (foldl amdgpu_bo_destroy aws ds) = slab_num_orders aws"
  by (rule foldl_keeps, simp)+

lemma keeps_destroy [simp]: "keeps_bos aws (foldl amdgpu_bo_destroy aws ds\<lparr>bo_cache := c\<rparr>)"
  by (simp add: keeps_bos_def same_chip_def)

lemma aws_ok_evict:
  assumes "aws_ok aws" "cache_inv c" "same_cache_config (bo_cache aws) c"
    and "mset (cached (bo_cache aws)) = mset (cached c) + M"
  shows "aws_ok (foldl amdgpu_bo_destroy aws ds\<lparr>bo_cache := c\<rparr>)"
proof (rule aws_ok_cache[OF assms(1), where A = "{}"])
  have "set_mset (mset (cached c)) \<subseteq> set_mset (mset (cached (bo_cache aws)))" unfolding assms(4) by simp
  then show "buf ` set (cached (bo_cache (foldl amdgpu_bo_destroy aws ds\<lparr>bo_cache := c\<rparr>)))
      \<subseteq> buf ` set (cached (bo_cache aws)) \<union> {}" by auto
qed (use assms in \<open>auto simp: same_cache_config_def aws_ok_def\<close>)

lemma drop_reference_ok:
  assumes ok: "aws_ok aws" and f: "fresh_bo aws bo"
  shows "aws_ok (drop_reference aws bo)" "keeps_bos aws (drop_reference aws bo)"
proof -
  let ?b = "bo\<lparr>refs := 0\<rparr>"
  have "aws_ok (drop_reference aws bo) \<and> keeps_bos aws (drop_reference aws bo)"
  proof (cases "is_reusable bo")
    case False
    then have "drop_reference aws bo = foldl amdgpu_bo_destroy aws [?b]\<lparr>bo_cache := bo_cache aws\<rparr>"
      by (simp add: drop_reference_def amdgpu_bo_destroy_or_cache_def is_reusable_def
          amdgpu_bo_destroy_def account_free_def)
    then show ?thesis
      using aws_ok_evict[OF ok, of "bo_cache aws" "{#}" "[?b]"] keeps_destroy[of aws "bo_cache aws" "[?b]"] ok
      by (simp add: same_cache_config_def aws_ok_def)
  next
    case True
    obtain c w where r: "pb_cache_add_buffer amdgpu_bo_destroy (now aws) (now aws) ?b (bo_cache aws, aws) = (c, w)"
      by fastforce
    have d: "drop_reference aws bo = w\<lparr>bo_cache := c\<rparr>"
      using True r by (simp add: drop_reference_def amdgpu_bo_destroy_or_cache_def is_reusable_def)
    have "bucket_index ?b < cache_num_heaps (bo_cache aws)" "refs ?b = 0" "buf ?b \<notin> set (map buf (cached (bo_cache aws)))"
      using ok f True by (auto simp: fresh_bo_def bucket_ok_def aws_ok_def)
    from add_evicts(1)[OF aws_okD(1)[OF ok] this r] obtain ds where
      i: "cache_inv c" "same_cache_config (bo_cache aws) c" and
      "mset (cached (bo_cache aws)) = mset (cached c) + mset ds \<and> w = foldl amdgpu_bo_destroy aws (ds @ [?b]) \<or>
       mset (cached (bo_cache aws)) + {#?b\<lparr>start_ms := time_get_ms (bo_cache aws) (now aws)\<rparr>#} = mset (cached c) + mset ds \<and>
       w = foldl amdgpu_bo_destroy aws ds"
      by blast
    then obtain es M where w: "w = foldl amdgpu_bo_destroy aws es"
      and m: "mset (cached (bo_cache aws)) + M = mset (cached c) + mset ds"
      and M: "set_mset M \<subseteq> {?b\<lparr>start_ms := time_get_ms (bo_cache aws) (now aws)\<rparr>}"
      by (metis (no_types, lifting) add.right_neutral empty_subsetI set_mset_add_mset_insert set_mset_empty subset_refl)
    have k: "keeps_bos aws (drop_reference aws bo)" unfolding d w by (rule keeps_destroy)
    have "set_mset (mset (cached c)) \<subseteq> set_mset (mset (cached (bo_cache aws)) + M)" unfolding m by simp
    then have "buf ` set (cached c) \<subseteq> buf ` set (cached (bo_cache aws)) \<union> buf ` set_mset M" by auto
    moreover have "buf ` set_mset M \<subseteq> {buf bo}" using M by auto
    ultimately have sub: "buf ` set (cached (bo_cache (drop_reference aws bo))) \<subseteq> buf ` set (cached (bo_cache aws)) \<union> {buf bo}"
      unfolding d by auto
    have na: "next_addr (drop_reference aws bo) = next_addr aws" unfolding d w by simp
    have "aws_ok (drop_reference aws bo)"
    proof (intro aws_ok_cache[OF ok k _ _ sub])
      show "cache_inv (bo_cache (drop_reference aws bo))"
        "cache_num_heaps (bo_cache (drop_reference aws bo)) = RADEON_NUM_HEAPS"
        using i aws_okD(2)[OF ok] unfolding d by (simp_all add: same_cache_config_def)
    qed (use f na in \<open>auto simp: fresh_bo_def\<close>)
    then show ?thesis using k by simp
  qed
  then show "aws_ok (drop_reference aws bo)" "keeps_bos aws (drop_reference aws bo)" by blast+
qed

lemma account_alloc_fields [simp]:
  "bo_cache (account_alloc d sz aws) = bo_cache aws"
  "slab_bo (account_alloc d sz aws) = slab_bo aws"
  "in_use (account_alloc d sz aws) = in_use aws"
  "entry_bo (account_alloc d sz aws) = entry_bo aws"
  "next_addr (account_alloc d sz aws) = next_addr aws"
  "now (account_alloc d sz aws) = now aws"
  "slab_wasted_vram (account_alloc d sz aws) = slab_wasted_vram aws"
  "slab_wasted_gtt (account_alloc d sz aws) = slab_wasted_gtt aws"
  "next_bo_unique_id (account_alloc d sz aws) = next_bo_unique_id aws"
  "vram_size_kb (account_alloc d sz aws) = vram_size_kb aws"
  "gart_page_size (account_alloc d sz aws) = gart_page_size aws"
  "pte_fragment_size (account_alloc d sz aws) = pte_fragment_size aws"
  "slab_min_order (account_alloc d sz aws) = slab_min_order aws"
  "slab_num_orders (account_alloc d sz aws) = slab_num_orders aws"
  by (simp_all add: account_alloc_def)

lemma aws_ok_same_cache:
  assumes "aws_ok aws" "keeps_bos aws aws'" "bo_cache aws' = bo_cache aws"
  shows "aws_ok aws'"
  by (rule aws_ok_cache[OF assms(1,2), where A = "{}"]) (use aws_okD(1,2)[OF assms(1)] assms(3) in simp_all)

lemma create_bo_cases:
  assumes "amdgpu_create_bo env aws sz al d f heap = (r, aws')"
  obtains "r = None" "keeps_bos aws aws'" "bo_cache aws' = bo_cache aws"
  | bo where "r = Some bo" "keeps_bos aws aws'" "bo_cache aws' = bo_cache aws" "buf bo = next_addr aws"
    "next_addr aws' = next_addr aws + 1" "buf_size bo = sz" "refs bo = 1"
    "placement bo = fst (place_without_vram aws (d, f))" "usage bo = snd (place_without_vram aws (d, f))"
    "is_reusable bo \<Longrightarrow> heap = Some (bucket_index bo)"
proof -
  obtain d' f' where p: "place_without_vram aws (d, f) = (d', f')" by fastforce
  have n: "keeps_bos aws (note_secure f' aws)" "bo_cache (note_secure f' aws) = bo_cache aws"
    by (simp_all add: note_secure_def keeps_bos_def same_chip_def)
  define bo where "bo = the r"
  let ?aws = "account_alloc d' sz (note_secure f' aws
      \<lparr>next_bo_unique_id := next_bo_unique_id aws + 1, next_addr := next_addr aws + 1\<rparr>)"
  have a: "keeps_bos aws ?aws" "bo_cache ?aws = bo_cache aws" "next_addr ?aws = next_addr aws + 1"
    by (simp_all add: note_secure_def keeps_bos_def same_chip_def)
  have t: "heap = Some (new_bo_bucket f heap)"
    if "new_bo_type f heap \<in> {AMDGPU_BO_REAL_REUSABLE, AMDGPU_BO_REAL_REUSABLE_SLAB}"
    using that by (auto simp: new_bo_type_def new_bo_bucket_def split: if_splits)
  show ?thesis
  proof (cases "r = None")
    case True
    then have "aws' = aws \<or> aws' = note_secure f' aws"
      using assms unfolding amdgpu_create_bo_def Let_def p prod.case by (simp split: if_splits)
    then show ?thesis using that(1)[OF True] n by auto
  next
    case False
    then have "aws' = ?aws \<and> buf bo = next_addr aws \<and> buf_size bo = sz \<and> refs bo = 1 \<and> placement bo = d' \<and>
      usage bo = f' \<and> bucket_index bo = new_bo_bucket f heap \<and> bo_type bo = new_bo_type f heap"
      using assms unfolding amdgpu_create_bo_def Let_def p prod.case bo_def by (auto split: if_splits)
    then show ?thesis using that(2)[of bo] False a p t by (auto simp: bo_def is_reusable_def)
  qed
qed

lemma fresh_next: "aws_ok aws \<Longrightarrow> next_addr aws \<notin> taken aws \<union> buf ` set (cached (bo_cache aws))"
  using aws_okD(4)[of aws] by blast

lemma keeps_taken: "keeps_bos aws aws' \<Longrightarrow> taken aws' = taken aws"
  by (simp add: keeps_bos_def taken_def)

lemma create_bo_ok:
  assumes ok: "aws_ok aws" and h: "\<And>h. heap = Some h \<Longrightarrow> h < RADEON_NUM_HEAPS"
    and c: "amdgpu_create_bo env aws sz al d f heap = (r, aws')"
  shows "aws_ok aws'" "keeps_bos aws aws'" "r = Some bo \<Longrightarrow> fresh_bo aws' bo \<and> buf_size bo = sz"
proof -
  show k: "keeps_bos aws aws'" and "aws_ok aws'"
    using c aws_ok_same_cache[OF ok, of aws'] by (auto elim!: create_bo_cases)
  assume r: "r = Some bo"
  show "fresh_bo aws' bo \<and> buf_size bo = sz"
    using c r fresh_next[OF ok] h keeps_taken[OF k]
    by (elim create_bo_cases) (simp_all add: fresh_bo_def bucket_ok_def)
qed

lemma bo_heap_bound: "bo_heap d f = Some h \<Longrightarrow> h < RADEON_NUM_HEAPS"
  using get_heap_index_proper unfolding proper_heap_def by (auto simp: bo_heap_def proper_heap_def split: if_splits)

lemma align64_ge:
  assumes "0 < a" "v + a \<le> 2 ^ 64" shows "v \<le> align64 v a"
proof -
  have e: "u64 (v + a - 1) = v + a - 1" using assms by simp
  have "(v + a - 1) div a * a + (v + a - 1) mod a = v + a - 1" "(v + a - 1) mod a < a" using assms(1) by simp_all
  then show ?thesis unfolding align64_def e using assms(1) by linarith
qed

lemma page_aligned_ge:
  assumes "aws_ok aws" "sz < 2 ^ 63" "page_aligned aws d sz al = (sz', al')"
  shows "sz \<le> sz'"
  using assms(3) align64_ge[of "gart_page_size aws" sz] aws_okD(10,11)[OF assms(1)] assms(2)
  by (auto simp: page_aligned_def split: if_splits)

lemma page_aligned_same: "keeps_bos aws aws' \<Longrightarrow> page_aligned aws' = page_aligned aws"
  by (simp add: keeps_bos_def same_chip_def page_aligned_def fun_eq_iff)

lemma create_again_ok:
  assumes ok: "aws_ok aws" and c: "bo_create_again env aws sz al d f = (r, aws')"
  shows "aws_ok aws'" "keeps_bos aws aws'" "r = Some bo \<Longrightarrow> fresh_bo aws' bo \<and> (sz < 2 ^ 63 \<longrightarrow> sz \<le> buf_size bo)"
proof -
  obtain sz' al' where p: "page_aligned aws d sz al = (sz', al')" by fastforce
  have c': "amdgpu_create_bo env aws sz' al' d f (bo_heap d f) = (r, aws')"
    using c by (simp add: bo_create_again_def p)
  note o = create_bo_ok[OF ok bo_heap_bound[of d f] c']
  show "aws_ok aws'" by (rule o(1))
  show "keeps_bos aws aws'" by (rule o(2))
  show "r = Some bo \<Longrightarrow> fresh_bo aws' bo \<and> (sz < 2 ^ 63 \<longrightarrow> sz \<le> buf_size bo)"
    using o(3) page_aligned_ge[OF ok _ p] by blast
qed

text \<open>A buffer that comes out of the cache.\<close>

lemma reclaim_ok:
  assumes ok: "aws_ok aws" and h: "heap < RADEON_NUM_HEAPS"
    and r: "pb_cache_reclaim_buffer oob can amdgpu_bo_destroy t sz al 0 heap (bo_cache aws, aws) = (r, c, w)"
  shows "aws_ok (w\<lparr>bo_cache := c\<rparr>)" "keeps_bos aws (w\<lparr>bo_cache := c\<rparr>)"
    "r = Some bo \<Longrightarrow> fresh_bo (w\<lparr>bo_cache := c\<rparr>) bo \<and> sz \<le> buf_size bo \<and> refs bo = 1 \<and>
      (\<exists>b0\<in>set (cached (bo_cache aws)). bo = b0\<lparr>refs := 1\<rparr>)"
proof -
  note inv = aws_okD(1,2)[OF ok]
  have i: "heap < length (buckets (bo_cache aws))" using inv h by (simp add: cache_inv_def)
  obtain ds where ds: "cache_inv c" "same_cache_config (bo_cache aws) c" "w = foldl amdgpu_bo_destroy aws ds"
    and rr: "case r of None \<Rightarrow> mset (cached (bo_cache aws)) = mset (cached c) + mset ds
     | Some b \<Rightarrow> \<exists>b0. b = b0\<lparr>refs := 1\<rparr> \<and> mset (cached (bo_cache aws)) = mset (cached c) + mset ds + {#b0#} \<and>
         bucket_index b0 = heap \<and> can b0 \<and> suits oob sz al 0 (bo_cache aws) b0"
    using reclaim_evicts[OF inv(1) i r] by blast
  obtain M where M: "mset (cached (bo_cache aws)) = mset (cached c) + M"
    using rr by (auto simp: add.assoc split: option.splits)
  show "aws_ok (w\<lparr>bo_cache := c\<rparr>)" unfolding ds(3) by (rule aws_ok_evict[OF ok ds(1,2) M])
  show k: "keeps_bos aws (w\<lparr>bo_cache := c\<rparr>)" unfolding ds(3) by (rule keeps_destroy)
  assume "r = Some bo"
  then obtain b0 where b0: "bo = b0\<lparr>refs := 1\<rparr>" "bucket_index b0 = heap" "sz \<le> buf_size b0"
      "mset (cached (bo_cache aws)) = mset (cached c) + mset ds + {#b0#}"
    using rr by (auto simp: suits_def)
  then have in_c: "b0 \<in> set (cached (bo_cache aws))" by (metis add_mset_add_single set_mset_mset union_single_eq_member)
  have "distinct (map buf (cached c @ ds @ [b0]))"
    using inv(1) b0(4) mset_distinct_map[of "cached (bo_cache aws)" "cached c" "ds @ [b0]" buf]
    by (auto simp: cache_inv_def)
  then have "buf b0 \<notin> buf ` set (cached c)" by auto
  moreover have "buf b0 \<notin> taken aws" "buf b0 < next_addr aws" using aws_okD(3,4)[OF ok] in_c by auto
  ultimately show "fresh_bo (w\<lparr>bo_cache := c\<rparr>) bo \<and> sz \<le> buf_size bo \<and> refs bo = 1 \<and>
      (\<exists>b0\<in>set (cached (bo_cache aws)). bo = b0\<lparr>refs := 1\<rparr>)"
    using b0(1-3) in_c h keeps_taken[OF k] ds(3) by (auto simp: fresh_bo_def bucket_ok_def)
qed

lemma create_first_ok:
  assumes ok: "aws_ok aws" and c: "bo_create_first env aws sz al d f = (r, aws')"
  shows "aws_ok aws' \<and> keeps_bos aws aws' \<and>
    (\<forall>bo. r = Bo bo \<longrightarrow> fresh_bo aws' bo \<and> (sz < 2 ^ 63 \<longrightarrow> sz \<le> buf_size bo))"
proof -
  obtain sz' al' where p: "page_aligned aws d sz al = (sz', al')" by fastforce
  define create where "create = (\<lambda>aws. case bo_create_again env aws sz al d f of
      (Some bo, aws1) \<Rightarrow> (Bo bo, aws1) | (None, aws1) \<Rightarrow> (Retry, aws1))"
  have cr: "aws_ok b \<and> keeps_bos a b \<and> (\<forall>bo. r = Bo bo \<longrightarrow> fresh_bo b bo \<and> (sz < 2 ^ 63 \<longrightarrow> sz \<le> buf_size bo))"
    if "create a = (r, b)" "aws_ok a" for a b r
  proof -
    obtain x b' where x: "bo_create_again env a sz al d f = (x, b')" by fastforce
    note o = create_again_ok[OF that(2) x]
    show ?thesis using that(1) x o by (cases x) (auto simp: create_def)
  qed
  note c' = c[unfolded bo_create_first_def p Let_def prod.case create_def[symmetric]]
  show ?thesis
  proof (cases "use_reusable_pool d f")
    case False
    then show ?thesis using cr[of aws r aws'] c' ok by simp
  next
    case True
    show ?thesis
    proof (cases "bo_heap d f")
      case None
      then show ?thesis using c' True ok by auto
    next
      case (Some h)
      obtain x cc w where x: "pb_cache_reclaim_buffer (cast_oob env) (bo_idle env) amdgpu_bo_destroy (now aws)
          sz' al' 0 h (bo_cache aws, aws) = (x, cc, w)" by (metis prod_cases3)
      let ?a = "w\<lparr>bo_cache := cc\<rparr>"
      note ro = reclaim_ok[OF ok bo_heap_bound[OF Some] x]
      show ?thesis
      proof (cases x)
        case None
        then have "create ?a = (r, aws')" using c' True Some x by simp
        from cr[OF this ro(1)] show ?thesis using keeps_bos_trans[OF ro(2)] by blast
      next
        case (Some bo)
        note b = ro(3)[OF Some]
        have e: "(r, aws') = (if f AND FLAG_WINSYS_SLAB_BACKING \<noteq> 0 \<and> bo_type bo = AMDGPU_BO_REAL_REUSABLE
            then if \<not> realloc_ok env then (Null, drop_reference ?a bo)
                 else (Bo (bo\<lparr>buf := next_addr ?a, bo_type := AMDGPU_BO_REAL_REUSABLE_SLAB\<rparr>), ?a\<lparr>next_addr := next_addr ?a + 1\<rparr>)
            else (Bo bo, ?a))"
          using c' True \<open>bo_heap d f = Some h\<close> x Some by simp
        let ?b = "bo\<lparr>buf := next_addr ?a, bo_type := AMDGPU_BO_REAL_REUSABLE_SLAB\<rparr>"
        let ?a' = "?a\<lparr>next_addr := next_addr ?a + 1\<rparr>"
        have k: "keeps_bos ?a ?a'" by (simp add: keeps_bos_def same_chip_def)
        have a': "aws_ok ?a'" by (rule aws_ok_same_cache[OF ro(1) k]) simp
        have fr: "fresh_bo ?a' ?b" if "bo_type bo = AMDGPU_BO_REAL_REUSABLE"
          using that b fresh_next[OF ro(1)] keeps_taken[OF k] by (auto simp: fresh_bo_def bucket_ok_def is_reusable_def)
        note dr = drop_reference_ok[OF ro(1) conjunct1[OF b]]
        have sz: "sz < 2 ^ 63 \<Longrightarrow> sz \<le> buf_size bo" using b page_aligned_ge[OF ok _ p] by linarith
        show ?thesis using e ro(1,2) b a' fr dr sz keeps_bos_trans[OF ro(2)] k by (auto split: if_splits)
      qed
    qed
  qed
qed

lemma slab_wasted_fields [simp]:
  "bo_cache (add_slab_wasted d n aws) = bo_cache aws"
  "slab_bo (add_slab_wasted d n aws) = slab_bo aws"
  "in_use (add_slab_wasted d n aws) = in_use aws"
  "entry_bo (add_slab_wasted d n aws) = entry_bo aws"
  "next_addr (add_slab_wasted d n aws) = next_addr aws"
  "now (add_slab_wasted d n aws) = now aws"
  "vram_size_kb (add_slab_wasted d n aws) = vram_size_kb aws"
  "gart_page_size (add_slab_wasted d n aws) = gart_page_size aws"
  "pte_fragment_size (add_slab_wasted d n aws) = pte_fragment_size aws"
  "slab_min_order (add_slab_wasted d n aws) = slab_min_order aws"
  "slab_num_orders (add_slab_wasted d n aws) = slab_num_orders aws"
  "bo_cache (sub_slab_wasted d n aws) = bo_cache aws"
  "slab_bo (sub_slab_wasted d n aws) = slab_bo aws"
  "in_use (sub_slab_wasted d n aws) = in_use aws"
  "entry_bo (sub_slab_wasted d n aws) = entry_bo aws"
  "next_addr (sub_slab_wasted d n aws) = next_addr aws"
  "now (sub_slab_wasted d n aws) = now aws"
  "vram_size_kb (sub_slab_wasted d n aws) = vram_size_kb aws"
  "gart_page_size (sub_slab_wasted d n aws) = gart_page_size aws"
  "pte_fragment_size (sub_slab_wasted d n aws) = pte_fragment_size aws"
  "slab_min_order (sub_slab_wasted d n aws) = slab_min_order aws"
  "slab_num_orders (sub_slab_wasted d n aws) = slab_num_orders aws"
  by (simp_all add: add_slab_wasted_def sub_slab_wasted_def)

lemma keeps_wasted [simp]: "keeps_bos aws (add_slab_wasted d n aws)" "keeps_bos aws (sub_slab_wasted d n aws)"
  by (simp_all add: keeps_bos_def same_chip_def)

lemma insert_disjoint: "(X \<union> Y) \<inter> Z = {} \<Longrightarrow> x \<notin> X \<union> Y \<union> Z \<Longrightarrow> X \<inter> Y = {} \<Longrightarrow>
    (insert x X \<union> Y) \<inter> Z = {} \<and> (X \<union> insert x Y) \<inter> Z = {} \<and> insert x X \<inter> Y = {} \<and> X \<inter> insert x Y = {}"
  by blast

lemma take_bo_ok:
  assumes ok: "aws_ok aws" and f: "fresh_bo aws bo"
  shows "aws_ok (aws\<lparr>slab_bo := (slab_bo aws)(buf bo \<mapsto> bo)\<rparr>)" "aws_ok (aws\<lparr>in_use := (in_use aws)(buf bo \<mapsto> bo)\<rparr>)"
proof -
  have n: "buf bo \<notin> dom (slab_bo aws) \<union> dom (in_use aws) \<union> buf ` set (cached (bo_cache aws))" "buf bo < next_addr aws" "bucket_ok bo"
    using f by (auto simp: fresh_bo_def taken_def)
  note d = insert_disjoint[OF aws_okD(3)[OF ok, unfolded taken_def] n(1) aws_okD(7)[OF ok]]
  note s = aws_okD(4)[OF ok, unfolded taken_def]
  show "aws_ok (aws\<lparr>slab_bo := (slab_bo aws)(buf bo \<mapsto> bo)\<rparr>)"
    unfolding aws_ok_def taken_def using aws_okD(1,2,5,6,8-12)[OF ok] d s n(2,3) by simp
  show "aws_ok (aws\<lparr>in_use := (in_use aws)(buf bo \<mapsto> bo)\<rparr>)"
    unfolding aws_ok_def taken_def using aws_okD(1,2,5,6,8-12)[OF ok] d s n(2,3) by simp
qed

lemma untake_bo_ok:
  assumes ok: "aws_ok aws"
  shows "slab_bo aws a = Some bo \<Longrightarrow>
      aws_ok (aws\<lparr>slab_bo := (slab_bo aws)(a := None)\<rparr>) \<and> fresh_bo (aws\<lparr>slab_bo := (slab_bo aws)(a := None)\<rparr>) bo"
    "in_use aws a = Some bo \<Longrightarrow>
      aws_ok (aws\<lparr>in_use := (in_use aws)(a := None)\<rparr>) \<and> fresh_bo (aws\<lparr>in_use := (in_use aws)(a := None)\<rparr>) bo"
proof -
  have gen: "(X - {a} \<union> Y) \<inter> Z = {} \<and> (X \<union> (Y - {a})) \<inter> Z = {} \<and> (X - {a}) \<inter> Y = {} \<and> X \<inter> (Y - {a}) = {} \<and>
      X - {a} \<union> Y \<union> Z \<subseteq> N \<and> X \<union> (Y - {a}) \<union> Z \<subseteq> N"
    if "(X \<union> Y) \<inter> Z = {}" "X \<inter> Y = {}" "X \<union> Y \<union> Z \<subseteq> N" for X Y Z N :: "nat set"
    using that by blast
  note d = gen[OF aws_okD(3)[OF ok, unfolded taken_def] aws_okD(7)[OF ok] aws_okD(4)[OF ok, unfolded taken_def]]
  { assume b: "slab_bo aws a = Some bo"
    then have "a \<in> dom (slab_bo aws)" by blast
    then have "a \<notin> dom (in_use aws)" "a \<notin> buf ` set (cached (bo_cache aws))" "a < next_addr aws"
      using aws_okD(7)[OF ok] aws_okD(3,4)[OF ok, unfolded taken_def] by auto
    moreover have "buf bo = a \<and> bucket_ok bo" using aws_okD(5)[OF ok b] .
    ultimately have "fresh_bo (aws\<lparr>slab_bo := (slab_bo aws)(a := None)\<rparr>) bo" by (simp add: fresh_bo_def taken_def)
    moreover have "aws_ok (aws\<lparr>slab_bo := (slab_bo aws)(a := None)\<rparr>)"
      unfolding aws_ok_def taken_def using aws_okD(1,2,5,6,8-12)[OF ok] d by simp
    ultimately show "aws_ok (aws\<lparr>slab_bo := (slab_bo aws)(a := None)\<rparr>) \<and> fresh_bo (aws\<lparr>slab_bo := (slab_bo aws)(a := None)\<rparr>) bo"
      by blast }
  { assume b: "in_use aws a = Some bo"
    then have "a \<in> dom (in_use aws)" by blast
    then have "a \<notin> dom (slab_bo aws)" "a \<notin> buf ` set (cached (bo_cache aws))" "a < next_addr aws"
      using aws_okD(7)[OF ok] aws_okD(3,4)[OF ok, unfolded taken_def] by auto
    moreover have "buf bo = a \<and> bucket_ok bo" using aws_okD(6)[OF ok b] .
    ultimately have "fresh_bo (aws\<lparr>in_use := (in_use aws)(a := None)\<rparr>) bo" by (simp add: fresh_bo_def taken_def)
    moreover have "aws_ok (aws\<lparr>in_use := (in_use aws)(a := None)\<rparr>)"
      unfolding aws_ok_def taken_def using aws_okD(1,2,5,6,8-12)[OF ok] d by simp
    ultimately show "aws_ok (aws\<lparr>in_use := (in_use aws)(a := None)\<rparr>) \<and> fresh_bo (aws\<lparr>in_use := (in_use aws)(a := None)\<rparr>) bo"
      by blast }
qed

definition slab_live :: "aws \<Rightarrow> nat set" where
  "slab_live aws = dom (slab_bo aws)"

lemma keeps_live: "keeps_bos aws aws' \<Longrightarrow> slab_live aws' = slab_live aws"
  by (simp add: keeps_bos_def slab_live_def)

lemma carve_ok:
  assumes ok: "aws_ok aws" and f: "fresh_bo aws bo" and es: "0 < es" "es \<le> buf_size bo"
    and c: "carve_slab env bo heap es g aws = (r, aws')"
  shows "aws_ok aws'" "r = None \<Longrightarrow> slab_live aws' = slab_live aws"
    "r = Some (sid, slab) \<Longrightarrow> sid \<notin> slab_live aws \<and> slab_live aws' = insert sid (slab_live aws) \<and>
       new_slab g slab \<and> entry_size slab = es"
proof -
  let ?t = "aws\<lparr>slab_bo := (slab_bo aws)(buf bo \<mapsto> bo)\<rparr>"
  let ?w = "add_slab_wasted (radeon_domain_from_heap heap) (of_nat (buf_size bo - buf_size bo div es * es)) ?t"
  note dr = drop_reference_ok[OF ok f]
  have w: "aws_ok ?w" by (rule aws_ok_same_cache[OF take_bo_ok(1)[OF ok f] keeps_wasted(1)]) simp
  have n: "0 < buf_size bo div es" using es by (simp add: div_greater_zero_iff)
  have cc: "(r, aws') = (if \<not> entries_ok env then (None, drop_reference aws bo)
      else (Some (buf bo, \<lparr>free = [0..<buf_size bo div es], num_free = buf_size bo div es,
        num_entries = buf_size bo div es, group_index = g, entry_size = es\<rparr>), ?w))"
    using c by (simp add: carve_slab_def Let_def)
  show "aws_ok aws'" using cc w dr(1) by (auto split: if_splits)
  show "r = None \<Longrightarrow> slab_live aws' = slab_live aws" using cc keeps_live[OF dr(2)] by (auto split: if_splits)
  assume "r = Some (sid, slab)"
  then have s: "sid = buf bo" "slab = \<lparr>free = [0..<buf_size bo div es], num_free = buf_size bo div es,
        num_entries = buf_size bo div es, group_index = g, entry_size = es\<rparr>" "aws' = ?w"
    using cc by (auto split: if_splits)
  have "new_slab g slab" using n s(2) by (auto simp: new_slab_def)
  then show "sid \<notin> slab_live aws \<and> slab_live aws' = insert sid (slab_live aws) \<and>
       new_slab g slab \<and> entry_size slab = es"
    using s f by (simp add: slab_live_def fresh_bo_def taken_def)
qed

lemma slab_buffer_size_bounds:
  assumes ok: "aws_ok aws" and es: "es \<le> 2 ^ 20"
  shows "es \<le> slab_buffer_size aws es" "slab_buffer_size aws es < 2 ^ 63"
proof -
  define p where "p = util_next_power_of_two (es * 5)"
  have pb: "p < 2 ^ 62"
  proof (cases "es * 5 \<le> 1")
    case True
    then show ?thesis by (simp add: p_def util_next_power_of_two_def)
  next
    case False
    have "2 ^ util_logbase2 (es * 5 - 1) \<le> es * 5 - 1" using False es by (intro util_logbase2_bounds(1)) auto
    then have "p \<le> 2 * (es * 5)" using False by (simp add: p_def util_next_power_of_two_def)
    then show ?thesis using es by simp
  qed
  have e: "slab_buffer_size aws es = max (if \<not> util_is_power_of_two_nonzero es \<and> 2 ^ 20 * 2 < es * 5 then p else 2 ^ 20 * 2) (pte_fragment_size aws)"
    using aws_okD(8,9)[OF ok] by (simp add: slab_buffer_size_def Let_def p_def)
  have pl: "es * 5 \<le> p" if "2 ^ 20 * 2 < es * 5"
  proof -
    have "es * 5 - 1 < 2 ^ (util_logbase2 (es * 5 - 1) + 1)" using that es by (intro util_logbase2_bounds(2)) auto
    then show ?thesis using that by (simp add: p_def util_next_power_of_two_def)
  qed
  show "es \<le> slab_buffer_size aws es" unfolding e using es pl by (auto simp: le_max_iff_disj)
  show "slab_buffer_size aws es < 2 ^ 63" unfolding e using pb aws_okD(12)[OF ok] by auto
qed

lemma slab_buffer_size_same: "keeps_bos aws aws' \<Longrightarrow> slab_buffer_size aws' = slab_buffer_size aws"
  by (simp add: keeps_bos_def same_chip_def slab_buffer_size_def fun_eq_iff)

lemma slab_attempt_ok:
  assumes ok: "aws_ok aws" and es: "0 < es" "es \<le> 2 ^ 20" and c: "slab_attempt x aws heap es g = (r, aws')"
  shows "aws_ok aws'" "r = None \<Longrightarrow> slab_live aws' = slab_live aws"
    "r = Some (sid, slab) \<Longrightarrow> sid \<notin> slab_live aws \<and> slab_live aws' = insert sid (slab_live aws) \<and>
       new_slab g slab \<and> entry_size slab = es"
proof -
  obtain d f where df: "slab_request heap = (d, f)" by fastforce
  let ?sz = "slab_buffer_size aws es"
  note b = slab_buffer_size_bounds[OF ok es(2)]
  have "aws_ok aws' \<and> (r = None \<longrightarrow> slab_live aws' = slab_live aws) \<and> (r = Some (sid, slab) \<longrightarrow>
      sid \<notin> slab_live aws \<and> slab_live aws' = insert sid (slab_live aws) \<and> new_slab g slab \<and> entry_size slab = es)"
  proof (cases "\<exists>bo aws1 env. aws_ok aws1 \<and> keeps_bos aws aws1 \<and> fresh_bo aws1 bo \<and> es \<le> buf_size bo \<and>
      carve_slab env bo heap es g aws1 = (r, aws')")
    case True
    then obtain bo aws1 env where h: "aws_ok aws1" "keeps_bos aws aws1" "fresh_bo aws1 bo" "es \<le> buf_size bo"
      "carve_slab env bo heap es g aws1 = (r, aws')" by blast
    show ?thesis using carve_ok[OF h(1,3) es(1) h(4,5)] keeps_live[OF h(2)] by auto
  next
    case no: False
    have "r = None \<and> aws_ok aws' \<and> keeps_bos aws aws'"
    proof (cases x)
      case (First env)
      obtain y aws1 where y: "bo_create_first env aws ?sz ?sz d f = (y, aws1)" by fastforce
      note o = create_first_ok[OF ok y]
      show ?thesis using c no o y b unfolding slab_attempt_def df First Let_def
        by (cases y) (auto dest: order_trans)
    next
      case (Again env)
      obtain y aws1 where y: "bo_create_again env aws ?sz ?sz d f = (y, aws1)" by fastforce
      note o = create_again_ok[OF ok y]
      show ?thesis using c no o y b unfolding slab_attempt_def df Again Let_def
        by (cases y) (auto dest: order_trans)
    qed
    then show ?thesis using keeps_live by auto
  qed
  then show "aws_ok aws'" "r = None \<Longrightarrow> slab_live aws' = slab_live aws"
    "r = Some (sid, slab) \<Longrightarrow> sid \<notin> slab_live aws \<and> slab_live aws' = insert sid (slab_live aws) \<and>
       new_slab g slab \<and> entry_size slab = es" by blast+
qed

lemma slab_free_ok:
  assumes ok: "aws_ok aws" and l: "sid \<in> slab_live aws"
  shows "aws_ok (amdgpu_bo_slab_free aws sid slab) \<and> slab_live (amdgpu_bo_slab_free aws sid slab) = slab_live aws - {sid}"
proof -
  obtain bo where b: "slab_bo aws sid = Some bo" using l by (auto simp: slab_live_def)
  let ?u = "aws\<lparr>slab_bo := (slab_bo aws)(sid := None)\<rparr>"
  let ?w = "sub_slab_wasted (placement bo) (of_nat (buf_size bo - num_entries slab * entry_size slab)) ?u"
  note u = untake_bo_ok(1)[OF ok b]
  have w: "aws_ok ?w" by (rule aws_ok_same_cache[OF conjunct1[OF u] keeps_wasted(2)]) simp
  have f: "fresh_bo ?w bo" using u keeps_taken[OF keeps_wasted(2), of "placement bo" "of_nat (buf_size bo - num_entries slab * entry_size slab)" ?u]
    by (simp add: fresh_bo_def)
  have e: "amdgpu_bo_slab_free aws sid slab = drop_reference ?w bo" by (simp add: amdgpu_bo_slab_free_def b)
  note dr = drop_reference_ok[OF w f]
  show ?thesis unfolding e using dr(1) keeps_live[OF dr(2)] by (auto simp: slab_live_def)
qed

section \<open>The winsys as the backend of the slab manager\<close>

text \<open>What the rest of the winsys does between the steps of the slab manager.\<close>

inductive winsys_step :: "aws \<Rightarrow> aws \<Rightarrow> bool" where
  tick: "winsys_step aws (aws\<lparr>now := t\<rparr>)"
| create_first: "bo_create_first env aws sz al d f = (Bo bo, aws') \<Longrightarrow>
     winsys_step aws (aws'\<lparr>in_use := (in_use aws')(buf bo \<mapsto> bo)\<rparr>)"
| create_first_fails: "bo_create_first env aws sz al d f = (r, aws') \<Longrightarrow> (\<And>bo. r \<noteq> Bo bo) \<Longrightarrow> winsys_step aws aws'"
| create_again: "bo_create_again env aws sz al d f = (Some bo, aws') \<Longrightarrow>
     winsys_step aws (aws'\<lparr>in_use := (in_use aws')(buf bo \<mapsto> bo)\<rparr>)"
| create_again_fails: "bo_create_again env aws sz al d f = (None, aws') \<Longrightarrow> winsys_step aws aws'"
| release: "in_use aws a = Some bo \<Longrightarrow>
     winsys_step aws (drop_reference (aws\<lparr>in_use := (in_use aws)(a := None)\<rparr>) bo)"
| flush: "pb_cache_release_all_buffers amdgpu_bo_destroy (bo_cache aws, aws) = (n, c, w) \<Longrightarrow>
     winsys_step aws (w\<lparr>bo_cache := c\<rparr>)"
| entry: "winsys_step aws (aws\<lparr>entry_bo := m, slab_wasted_vram := x, slab_wasted_gtt := y, next_bo_unique_id := u\<rparr>)"

lemma flush_ok:
  assumes "aws_ok aws" "pb_cache_release_all_buffers amdgpu_bo_destroy (bo_cache aws, aws) = (n, c, w)"
  shows "aws_ok (w\<lparr>bo_cache := c\<rparr>)" "keeps_bos aws (w\<lparr>bo_cache := c\<rparr>)"
proof -
  obtain ds where ds: "evicts amdgpu_bo_destroy ds (bo_cache aws, aws) (c, w)"
    using release_all_evicts(1)[OF _ assms(2)] aws_okD(1)[OF assms(1)] by auto
  then have w: "w = foldl amdgpu_bo_destroy aws ds" "cache_inv c" "same_cache_config (bo_cache aws) c"
    "mset (cached (bo_cache aws)) = mset (cached c) + mset ds" by (auto simp: evicts_def)
  show "aws_ok (w\<lparr>bo_cache := c\<rparr>)" unfolding w(1) by (rule aws_ok_evict[OF assms(1) w(2-4)])
  show "keeps_bos aws (w\<lparr>bo_cache := c\<rparr>)" unfolding w(1) by (rule keeps_destroy)
qed

lemma winsys_step_ok: "winsys_step aws aws' \<Longrightarrow> aws_ok aws \<Longrightarrow> aws_ok aws' \<and> slab_live aws' = slab_live aws"
proof (induction rule: winsys_step.induct)
  case (tick aws t)
  have k: "keeps_bos aws (aws\<lparr>now := t\<rparr>)" by (simp add: keeps_bos_def same_chip_def)
  then show ?case using aws_ok_same_cache[OF tick k] keeps_live[OF k] by simp
next
  case (create_first env aws sz al d f bo aws')
  note o = create_first_ok[OF create_first(2,1)]
  then show ?case using take_bo_ok(2)[of aws' bo] keeps_live[of aws aws'] by (auto simp: slab_live_def)
next
  case (create_first_fails env aws sz al d f r aws')
  then show ?case using create_first_ok[OF create_first_fails(3,1)] keeps_live[of aws aws'] by auto
next
  case (create_again env aws sz al d f bo aws')
  note o = create_again_ok[OF create_again(2,1)]
  then show ?case using take_bo_ok(2)[of aws' bo] keeps_live[of aws aws'] by (auto simp: slab_live_def)
next
  case (create_again_fails env aws sz al d f aws')
  then show ?case using create_again_ok(1,2)[OF create_again_fails(2,1)] keeps_live[of aws aws'] by auto
next
  case (release aws a bo)
  note u = untake_bo_ok(2)[OF release(2,1)]
  note dr = drop_reference_ok[OF conjunct1[OF u] conjunct2[OF u]]
  show ?case using dr(1) keeps_live[OF dr(2)] by (simp add: slab_live_def)
next
  case (flush aws n c w)
  then show ?case using flush_ok[OF flush(2,1)] keeps_live by blast
next
  case (entry aws u y x m)
  let ?a = "aws\<lparr>entry_bo := m, slab_wasted_vram := x, slab_wasted_gtt := y, next_bo_unique_id := u\<rparr>"
  have k: "keeps_bos aws ?a" by (simp add: keeps_bos_def same_chip_def)
  then show ?case using aws_ok_same_cache[OF entry k] keeps_live[OF k] by simp
qed

interpretation amdgpu_slabs: slab_backend slab_attempt amdgpu_bo_slab_free winsys_step slab_live aws_ok 8 13
proof (unfold_locales, goal_cases)
  case (1 x p heap es g sid slab p')
  have "es \<le> 2 ^ 20" using 1(4) by simp
  from slab_attempt_ok[OF 1(2,3) this 1(1)] show ?case by blast
next
  case (2 x p heap es g p')
  have "es \<le> 2 ^ 20" using 2(4) by simp
  from slab_attempt_ok[OF 2(2,3) this 2(1)] show ?case by blast
next
  case (3 p sid slab)
  then show ?case by (rule slab_free_ok)
next
  case (4 p p')
  then show ?case by (rule winsys_step_ok)
qed

end
