(* ===== verification/AmdgpuBoProps.thy ===== *)
theory AmdgpuBoProps
  imports AmdgpuBo
begin

text \<open>
  What the buffer objects of the amdgpu winsys guarantee: no slab entry is handed out twice whatever
  the interleaving, the sequential code is one of these interleavings, an entry is large enough and
  aligned, and the statistics balance. Three theorems show where the code does not do what it means
  to: the statistics of slabs on a chip without VRAM, recycled buffers without an address, and the
  flags of shared buffers under virtio.
\<close>

section \<open>The sequential code as steps\<close>

abbreviation slab_steps where
  "slab_steps \<equiv> (slab_step slab_attempt amdgpu_bo_slab_free winsys_step)\<^sup>*\<^sup>*"

definition initial_sys :: "pb_slabs \<Rightarrow> aws \<Rightarrow> aws slab_sys" where
  "initial_sys slabs0 aws0 = \<lparr>slabs = slabs0, priv = aws0, held = [], pending = []\<rparr>"

lemma initial_inv:
  assumes "pb_slabs_init 8 20 RADEON_NUM_HEAPS True ok = Some slabs0" "aws_ok aws0" "slab_live aws0 = {}"
  shows "amdgpu_slabs.sys_inv (initial_sys slabs0 aws0)"
  using assms
  by (auto simp: amdgpu_slabs.sys_inv_def initial_sys_def pb_slabs_init_def config_ok_def slabs_inv_def
      groups_wf_def split: if_splits)

lemma two_steps:
  "slab_step slab_attempt amdgpu_bo_slab_free winsys_step a b \<Longrightarrow>
   slab_step slab_attempt amdgpu_bo_slab_free winsys_step b c \<Longrightarrow> slab_steps a c"
  by (meson converse_rtranclp_into_rtranclp r_into_rtranclp)

lemma chip_trans: "same_chip a b \<Longrightarrow> same_chip b c \<Longrightarrow> same_chip a c"
  by (simp add: same_chip_def)

lemma slab_free_chip:
  assumes "aws_ok aws" "sid \<in> slab_live aws"
  shows "same_chip aws (amdgpu_bo_slab_free aws sid slab)"
proof -
  obtain bo where b: "slab_bo aws sid = Some bo" using assms(2) by (auto simp: slab_live_def)
  let ?u = "aws\<lparr>slab_bo := (slab_bo aws)(sid := None)\<rparr>"
  let ?w = "sub_slab_wasted (placement bo) (of_nat (buf_size bo - num_entries slab * entry_size slab)) ?u"
  note u = untake_bo_ok(1)[OF assms(1) b]
  have w: "aws_ok ?w" by (rule aws_ok_same_cache[OF conjunct1[OF u] keeps_wasted(2)]) simp
  have f: "fresh_bo ?w bo" using u by (simp add: fresh_bo_def taken_def)
  have "same_chip ?w (drop_reference ?w bo)" using drop_reference_ok(2)[OF w f] by (simp add: keeps_bos_def)
  moreover have "same_chip aws ?w" by (simp add: same_chip_def)
  ultimately show ?thesis using chip_trans by (auto simp: amdgpu_bo_slab_free_def b)
qed

lemma clean_up_steps:
  assumes inv: "amdgpu_slabs.sys_inv s"
    and c: "amdgpu_clean_up_buffer_managers can (slabs s, priv s) = (sl, p)"
  shows "slab_steps s (s\<lparr>slabs := sl, priv := p\<rparr>)" "same_config (slabs s) sl" "same_chip (priv s) p"
proof -
  obtain n sl1 p1 where r: "pb_slabs_reclaim can amdgpu_bo_slab_free (slabs s, priv s) = (n, sl1, p1)"
    by (metis prod_cases3)
  obtain m cc w where f: "pb_cache_release_all_buffers amdgpu_bo_destroy (bo_cache p1, p1) = (m, cc, w)"
    by (metis prod_cases3)
  have e: "sl = sl1" "p = w\<lparr>bo_cache := cc\<rparr>" using c r f by (auto simp: amdgpu_clean_up_buffer_managers_def)
  let ?s1 = "s\<lparr>slabs := sl1, priv := p1\<rparr>"
  have s1: "slab_step slab_attempt amdgpu_bo_slab_free winsys_step s ?s1" using r by (rule slab_step.reclaim)
  have "winsys_step p1 p" unfolding e(2) by (rule winsys_step.flush[OF f])
  then have "slab_step slab_attempt amdgpu_bo_slab_free winsys_step ?s1 (?s1\<lparr>priv := p\<rparr>)"
    by (intro slab_step.other) simp
  then have "slab_steps s (?s1\<lparr>priv := p\<rparr>)" by (rule two_steps[OF s1])
  then show "slab_steps s (s\<lparr>slabs := sl, priv := p\<rparr>)" using e(1) by simp
  have i: "slabs_inv (slabs s) (held s)" "dom (store (slabs s)) \<subseteq> slab_live (priv s)" "aws_ok (priv s)"
    using inv by (auto simp: amdgpu_slabs.sys_inv_def)
  let ?es = "reclaimed can 0 (reclaim (slabs s))"
  have fo: "(sl1, p1) = fold (pb_slab_reclaim amdgpu_bo_slab_free) ?es (slabs s, priv s)"
    using r by (simp add: pb_slabs_reclaim_def pb_slabs_reclaim_locked_def reclaim_loop_fold)
  have step: "aws_ok (amdgpu_bo_slab_free q sid slab) \<and> same_chip (priv s) (amdgpu_bo_slab_free q sid slab)"
      "slab_live (amdgpu_bo_slab_free q sid slab) = slab_live q - {sid}"
    if "aws_ok q \<and> same_chip (priv s) q" "sid \<in> slab_live q" for q sid slab
    using that slab_free_ok[of q sid slab] slab_free_chip[of q sid slab] chip_trans[of "priv s" q] by blast+
  have "same_config (slabs s) sl1 \<and> aws_ok p1 \<and> same_chip (priv s) p1"
    using fold_reclaim_inv[of "(slabs s, priv s)" "held s" ?es "\<lambda>q. aws_ok q \<and> same_chip (priv s) q" slab_live amdgpu_bo_slab_free]
      i reclaimed_sub(1)[of can 0 "reclaim (slabs s)"] reclaimed_sub(2)[OF reclaim_distinct[OF i(1)], of can 0] step
    unfolding fo[symmetric] by (auto simp: released_def same_chip_def)
  then show "same_config (slabs s) sl" "same_chip (priv s) p"
    using e flush_ok(2)[OF _ f] chip_trans[of "priv s" p1] by (auto simp: keeps_bos_def)
qed

text \<open>The slab a thread got and has not linked yet.\<close>

abbreviation pend :: "nat \<Rightarrow> (nat \<times> pb_slab) option \<Rightarrow> aws slab_sys \<Rightarrow> (nat \<times> nat \<times> pb_slab) list" where
  "pend g r s \<equiv> (case r of None \<Rightarrow> pending s | Some (sid, slab) \<Rightarrow> (g, sid, slab) # pending s)"

lemma alloc_config:
  assumes "same_config sl sl'"
  shows "alloc_asserts sl' sz heap = alloc_asserts sl sz heap"
    "alloc_group_index sl' sz heap = alloc_group_index sl sz heap"
    "alloc_entry_size sl' sz = alloc_entry_size sl sz"
  using assms by (simp_all add: same_config_def alloc_asserts_def alloc_group_index_def alloc_entry_size_def
      alloc_order_def alloc_three_fourths_def)

lemma slab_alloc_steps:
  assumes inv: "amdgpu_slabs.sys_inv s" and a: "alloc_asserts (slabs s) sz heap"
    and g: "g = alloc_group_index (slabs s) sz heap"
    and c: "amdgpu_bo_slab_alloc env1 env2 can (slabs s, priv s) heap (alloc_entry_size (slabs s) sz) g = (r, sl, p)"
  shows "slab_steps s (s\<lparr>slabs := sl, priv := p, pending := pend g r s\<rparr>)" "same_config (slabs s) sl"
proof -
  let ?es = "alloc_entry_size (slabs s) sz" and ?sz = "slab_buffer_size (priv s) (alloc_entry_size (slabs s) sz)"
  obtain d f where df: "slab_request heap = (d, f)" by fastforce
  obtain y aws1 where y: "bo_create_first env1 (priv s) ?sz ?sz d f = (y, aws1)" by fastforce
  have first: "slab_step slab_attempt amdgpu_bo_slab_free winsys_step s (s\<lparr>priv := q, pending := pend g r' s\<rparr>)"
    if "slab_attempt (First env1) (priv s) heap ?es g = (r', q)" for r' q
    using a g that by (rule slab_step.new)
  have "slab_steps s (s\<lparr>slabs := sl, priv := p, pending := pend g r s\<rparr>) \<and> same_config (slabs s) sl"
  proof (cases "y = Retry")
    case False
    have "slab_attempt (First env1) (priv s) heap ?es g = (r, p) \<and> sl = slabs s"
      using c y df False by (cases y) (auto simp: slab_attempt_def amdgpu_bo_slab_alloc_def Let_def split: prod.splits)
    then show ?thesis using first[of r p] by (auto simp: same_config_def)
  next
    case True
    let ?s1 = "s\<lparr>priv := aws1\<rparr>"
    have "slab_attempt (First env1) (priv s) heap ?es g = (None, aws1)"
      using y df True by (simp add: slab_attempt_def Let_def)
    from first[OF this] have s1: "slab_step slab_attempt amdgpu_bo_slab_free winsys_step s ?s1" by simp
    have inv1: "amdgpu_slabs.sys_inv ?s1" by (rule amdgpu_slabs.step_inv[OF s1 inv])
    obtain sl2 aws2 where cl: "amdgpu_clean_up_buffer_managers can (slabs s, aws1) = (sl2, aws2)" by fastforce
    let ?s2 = "s\<lparr>slabs := sl2, priv := aws2\<rparr>"
    note cs = clean_up_steps[OF inv1, of can sl2 aws2, simplified, OF cl]
    have "aws_ok (priv s)" using inv by (simp add: amdgpu_slabs.sys_inv_def)
    from create_first_ok[OF this y] have "same_chip (priv s) aws2"
      using cs(3) chip_trans[of "priv s" aws1 aws2] by (simp add: keeps_bos_def)
    then have sz: "slab_buffer_size aws2 ?es = ?sz" by (simp add: same_chip_def slab_buffer_size_def)
    note cf = alloc_config[OF cs(2)]
    obtain z aws3 where z: "bo_create_again env2 aws2 ?sz ?sz d f = (z, aws3)" by fastforce
    have "slab_attempt (Again env2) aws2 heap ?es g = (r, p) \<and> sl = sl2"
      using c y df True cl z sz
      by (cases z) (auto simp: slab_attempt_def amdgpu_bo_slab_alloc_def Let_def split: prod.splits)
    then have at: "slab_attempt (Again env2) (priv ?s2) heap (alloc_entry_size (slabs ?s2) sz) g = (r, p)" "sl = sl2"
      using cf by simp_all
    have "slab_step slab_attempt amdgpu_bo_slab_free winsys_step ?s2 (?s2\<lparr>priv := p, pending := pend g r ?s2\<rparr>)"
      by (rule slab_step.new, use a cf in simp, use g cf in simp, rule at(1))
    then have "slab_steps s (?s2\<lparr>priv := p, pending := pend g r ?s2\<rparr>)"
      using s1 cs(1) by (meson converse_rtranclp_into_rtranclp rtranclp.rtrancl_into_rtrancl)
    moreover have "?s2\<lparr>priv := p, pending := pend g r ?s2\<rparr> = s\<lparr>slabs := sl, priv := p, pending := pend g r s\<rparr>"
      using at(2) by (cases r) auto
    ultimately show ?thesis using cs(2) at(2) by simp
  qed
  then show "slab_steps s (s\<lparr>slabs := sl, priv := p, pending := pend g r s\<rparr>)" "same_config (slabs s) sl" by blast+
qed

lemma pb_slab_alloc_steps:
  assumes inv: "amdgpu_slabs.sys_inv s"
    and c: "pb_slab_alloc can1 (amdgpu_bo_slab_alloc env1 env2 can2) amdgpu_bo_slab_free sz heap (slabs s, priv s) =
      Some (r, sl, p)"
  shows "slab_steps s (s\<lparr>slabs := sl, priv := p, held := (case r of None \<Rightarrow> held s | Some e \<Rightarrow> e # held s)\<rparr>)"
proof -
  define g where "g = alloc_group_index (slabs s) sz heap"
  define es where "es = alloc_entry_size (slabs s) sz"
  have a: "alloc_asserts (slabs s) sz heap"
    using c by (auto simp: pb_slab_alloc_def pb_slab_alloc_reclaimed_def Let_def split: if_splits)
  obtain x sl1 p1 where x: "slab_alloc_lookup can1 amdgpu_bo_slab_free g False (slabs s, priv s) = (x, sl1, p1)"
    by (metis prod_cases3)
  let ?s1 = "s\<lparr>slabs := sl1, priv := p1, held := (case x of None \<Rightarrow> held s | Some e \<Rightarrow> e # held s)\<rparr>"
  have s1: "slab_step slab_attempt amdgpu_bo_slab_free winsys_step s ?s1"
    using x unfolding g_def by (rule slab_step.lookup[OF a])
  have c': "Some (r, sl, p) = (case (x, sl1, p1) of (Some e, st1) \<Rightarrow> Some (Some e, st1)
      | (None, st1) \<Rightarrow> (case amdgpu_bo_slab_alloc env1 env2 can2 st1 heap es g of
           (None, st2) \<Rightarrow> Some (None, st2)
         | (Some (sid, slab), slabs2, p2) \<Rightarrow>
             map_option (\<lambda>(e, slabs3). (Some e, slabs3, p2)) (slab_alloc_take g sid slab slabs2)))"
    using c a x unfolding pb_slab_alloc_def pb_slab_alloc_reclaimed_def Let_def fst_conv g_def[symmetric] es_def[symmetric]
    by simp
  show ?thesis
  proof (cases x)
    case (Some e)
    then show ?thesis using c' s1 by auto
  next
    case None
    let ?t = "s\<lparr>slabs := sl1, priv := p1\<rparr>"
    have s1': "slab_step slab_attempt amdgpu_bo_slab_free winsys_step s ?t" using s1 None by simp
    have inv1: "amdgpu_slabs.sys_inv ?t" by (rule amdgpu_slabs.step_inv[OF s1' inv])
    have i: "slabs_inv (slabs s) (held s)" "dom (store (slabs s)) \<subseteq> slab_live (priv s)" "aws_ok (priv s)" "config_ok 8 13 (slabs s)"
      using inv by (auto simp: amdgpu_slabs.sys_inv_def)
    have "same_config (slabs s) sl1"
      using lookup_inv[OF i(1) config_ok_index[OF i(4) a] amdgpu_slabs.free_live i(2,3) x[unfolded g_def]]
      by (simp add: released_def)
    note cf = alloc_config[OF this, of sz]
    obtain y sl2 p2 where y: "amdgpu_bo_slab_alloc env1 env2 can2 (sl1, p1) heap es g = (y, sl2, p2)"
      by (metis prod_cases3)
    have al: "slab_steps ?t (?t\<lparr>slabs := sl2, priv := p2, pending := pend g y ?t\<rparr>)"
      by (rule slab_alloc_steps(1)[OF inv1, of sz heap g env1 env2 can2 y sl2 p2])
        (use a y in \<open>simp_all add: cf g_def es_def\<close>)
    let ?u = "s\<lparr>slabs := sl2, priv := p2, pending := pend g y s\<rparr>"
    have su: "slab_steps s ?u" 
    proof -
      have "?t\<lparr>slabs := sl2, priv := p2, pending := pend g y ?t\<rparr> = ?u" by (cases y) auto
      then have "slab_steps ?t ?u" using al by simp
      with s1' show ?thesis by (rule converse_rtranclp_into_rtranclp)
    qed
    show ?thesis
    proof (cases y)
      case y0: None
      then show ?thesis using c' None y su by simp
    next
      case (Some sids)
      obtain sid slab where ss: "sids = (sid, slab)" by fastforce
      obtain e where t: "slab_alloc_take g sid slab sl2 = Some (e, sl)" "r = Some e" "p = p2"
        using c' None y Some ss by (cases "slab_alloc_take g sid slab sl2") auto
      have "slab_step slab_attempt amdgpu_bo_slab_free winsys_step ?u
          (?u\<lparr>slabs := sl, held := e # held ?u, pending := remove1 (g, sid, slab) (pending ?u)\<rparr>)"
        using t(1) Some ss by (intro slab_step.take_new) simp_all
      moreover have "?u\<lparr>slabs := sl, held := e # held ?u, pending := remove1 (g, sid, slab) (pending ?u)\<rparr> =
          s\<lparr>slabs := sl, priv := p, held := e # held s\<rparr>" using Some ss t(3) by simp
      ultimately show ?thesis using su t(2) by (simp add: rtranclp.rtrancl_into_rtrancl)
    qed
  qed
qed

section \<open>Size and alignment of slab entries\<close>

lemma next_power_of_two: "util_next_power_of_two x = 2 ^ util_logbase2_ceil x"
  by (simp add: util_next_power_of_two_def util_logbase2_ceil_def)

lemma max_pow2: "max (2 ^ a) (2 ^ b) = (2 :: nat) ^ max a b"
  by (simp add: max_def)

text \<open>The manager of the winsys: orders 8 to 20, with three-fourths sizes.\<close>

definition winsys_slabs :: "aws \<Rightarrow> pb_slabs \<Rightarrow> bool" where
  "winsys_slabs aws sl \<longleftrightarrow> min_order sl = slab_min_order aws \<and> num_orders sl = slab_num_orders aws \<and>
     allow_three_fourths_allocations sl \<and> slab_min_order aws = 8"

lemma pot_entry_size:
  assumes "winsys_slabs aws sl"
  shows "get_slab_pot_entry_size aws a = 2 ^ alloc_order sl a" "8 \<le> alloc_order sl a"
  using assms max_pow2[of "util_logbase2_ceil a" 8]
  by (simp_all add: get_slab_pot_entry_size_def next_power_of_two alloc_order_def winsys_slabs_def max.commute)

lemma pow2_dvd: "(2 :: nat) ^ a \<le> 2 ^ b \<Longrightarrow> 2 ^ a dvd (2 :: nat) ^ b"
  by (simp add: le_imp_power_dvd)

text \<open>Three quarters of a power of two are a multiple of its quarter.\<close>

lemma three_fourths: "2 \<le> o' \<Longrightarrow> (2 :: nat) ^ o' * 3 div 4 = 3 * 2 ^ (o' - 2) \<and> (2 :: nat) ^ o' div 4 = 2 ^ (o' - 2)"
proof -
  assume "2 \<le> o'"
  then obtain k where "o' = k + 2" using le_Suc_ex[of 2 o'] by (auto simp: add.commute)
  then show ?thesis by (simp add: power_add)
qed

lemma logbase2_ceil_pow2: "k < 32 \<Longrightarrow> util_logbase2_ceil (2 ^ k) = k"
proof -
  assume k: "k < 32"
  show ?thesis
  proof (cases "k = 0")
    case False
    then have "2 \<le> (2 :: nat) ^ k" using power_increasing[of 1 k "2 :: nat"] by simp
    then have n: "(0 :: nat) < 2 ^ k - 1" "(2 :: nat) ^ k - 1 < 2 ^ 32" "\<not> (2 :: nat) ^ k \<le> 1"
      using power_strict_increasing[OF k, of "2 :: nat"] by simp_all
    note b = util_logbase2_bounds[OF n(1,2)]
    have "2 ^ util_logbase2 (2 ^ k - 1) < (2 :: nat) ^ k" using b(1) n(1) by linarith
    then have "util_logbase2 (2 ^ k - 1) < k" by simp
    moreover have "(2 :: nat) ^ k \<le> 2 ^ (util_logbase2 (2 ^ k - 1) + 1)" using b(2) by linarith
    then have "k \<le> util_logbase2 (2 ^ k - 1) + 1" by (rule power_le_imp_le_exp[rotated]) simp
    ultimately show ?thesis using n(3) by (simp add: util_logbase2_ceil_def)
  qed (simp add: util_logbase2_ceil_def)
qed

lemma logbase2_ceil_bound: "b \<le> 2 ^ m \<Longrightarrow> m < 32 \<Longrightarrow> util_logbase2_ceil b \<le> m"
proof (cases "b \<le> 1")
  case False
  assume b: "b \<le> 2 ^ m" and m: "m < 32"
  have "b < 2 ^ 32" using b power_strict_increasing[OF m, of "2 :: nat"] by simp
  then have "2 ^ util_logbase2 (b - 1) \<le> b - 1" using False by (intro util_logbase2_bounds(1)) auto
  then have "(2 :: nat) ^ util_logbase2 (b - 1) < 2 ^ m" using b False by linarith
  then have "util_logbase2 (b - 1) < m" by (rule power_less_imp_less_exp[rotated]) simp
  then show ?thesis using False by (simp add: util_logbase2_ceil_def)
qed (simp add: util_logbase2_ceil_def)

lemma slab_alloc_size_bound:
  assumes w: "winsys_slabs aws sl" and sz: "sz \<le> 2 ^ 20" and a: "slab_alloc_size aws sz alignment = Some a"
  shows "a \<le> 2 ^ 20"
proof -
  define b where "b = (if sz < alignment \<and> alignment \<le> 4 * 1024 then alignment else sz)"
  have b: "b \<le> 2 ^ 20" using sz by (simp add: b_def)
  have "alloc_order sl b \<le> 20"
    using logbase2_ceil_bound[OF b] w by (simp add: alloc_order_def winsys_slabs_def)
  then have "(2 :: nat) ^ alloc_order sl b \<le> 2 ^ 20" by (rule power_increasing) simp
  then show ?thesis
    using a b unfolding slab_alloc_size_def Let_def b_def[symmetric] pot_entry_size(1)[OF w] by (auto split: if_splits)
qed

lemma entry_fits_and_aligned:
  assumes w: "winsys_slabs aws sl" and sz: "sz \<le> 2 ^ 20" and k: "alignment = 2 ^ k"
    and a: "slab_alloc_size aws sz alignment = Some a"
  shows "sz \<le> alloc_entry_size sl a" "alignment dvd alloc_entry_size sl a"
proof -
  note bound = slab_alloc_size_bound[OF w sz a]
  define b where "b = (if sz < alignment \<and> alignment \<le> 4 * 1024 then alignment else sz)"
  have b: "sz \<le> b" by (simp add: b_def)
  define o' where "o' = alloc_order sl b"
  note p = pot_entry_size[OF w, of b, folded o'_def]
  note q = three_fourths[of o']
  have o2: "2 \<le> o'" using p(2) by simp
  have align: "get_slab_entry_alignment aws b = (if b \<le> 3 * 2 ^ (o' - 2) then 2 ^ (o' - 2) else 2 ^ o')"
    using q[OF o2] by (simp add: get_slab_entry_alignment_def p(1) Let_def)
  have tf: "allow_three_fourths_allocations sl" using w by (simp add: winsys_slabs_def)
  have es: "alloc_entry_size sl b = (if b \<le> 3 * 2 ^ (o' - 2) then 3 * 2 ^ (o' - 2) else 2 ^ o')"
    using q[OF o2] tf by (simp add: alloc_entry_size_def alloc_three_fourths_def o'_def)
  have cases_a: "a = b \<and> alignment \<le> get_slab_entry_alignment aws b \<or> a = 2 ^ o' \<and> alignment \<le> 2 ^ o'"
    using a unfolding slab_alloc_size_def Let_def b_def[symmetric] p(1) by (auto split: if_splits)
  have "sz \<le> alloc_entry_size sl a \<and> alignment dvd alloc_entry_size sl a"
  proof (cases "a = b \<and> alignment \<le> get_slab_entry_alignment aws b")
    case True
    have "b < 2 ^ 32" using bound True by simp
    then have "sz \<le> alloc_entry_size sl b" using alloc_entry_size_ge[of b sl] b by linarith
    moreover have "alignment dvd alloc_entry_size sl b"
      using True pow2_dvd[of k "o' - 2"] pow2_dvd[of k o'] unfolding es align k by (auto split: if_splits)
    ultimately show ?thesis using True by simp
  next
    case False
    then have A: "a = 2 ^ o'" "alignment \<le> 2 ^ o'" using cases_a by auto
    have "o' < 32"
    proof -
      have "(2 :: nat) ^ o' \<le> 2 ^ 20" using A(1) bound by simp
      then have "o' \<le> 20" by (rule power_le_imp_le_exp[rotated]) simp
      then show ?thesis by simp
    qed
    then have oa: "alloc_order sl a = o'"
      using w p(2) logbase2_ceil_pow2[of o'] A(1) by (simp add: alloc_order_def winsys_slabs_def)
    have "(2 :: nat) ^ o' = 4 * 2 ^ (o' - 2)" 
    proof -
      have "(2 :: nat) ^ o' = 2 ^ (2 + (o' - 2))" by (rule arg_cong[of _ _ "power 2"]) (use o2 in simp)
      then show ?thesis unfolding power_add by simp
    qed
    then have "\<not> 2 ^ o' \<le> (2 :: nat) ^ o' * 3 div 4" using q[OF o2] by simp
    then have e: "alloc_entry_size sl a = 2 ^ o'" using A(1) oa by (simp add: alloc_entry_size_def alloc_three_fourths_def)
    have "b < 2 ^ 32"
    proof -
      have "b \<le> max sz (4 * 1024)" by (simp add: b_def max_def)
      then show ?thesis using sz by simp
    qed
    then have "b \<le> 2 ^ util_logbase2_ceil b" by (rule util_logbase2_ceil_le)
    also have "\<dots> \<le> 2 ^ o'" unfolding o'_def alloc_order_def by (rule power_increasing) simp_all
    finally show ?thesis using e b A(2) pow2_dvd[of k o'] unfolding k by simp
  qed
  then show "sz \<le> alloc_entry_size sl a" "alignment dvd alloc_entry_size sl a" by blast+
qed

section \<open>Statistics\<close>

lemma add_sub_wasted:
  "slab_wasted_vram (sub_slab_wasted d n aws) = slab_wasted_vram aws - (if d AND DOMAIN_VRAM \<noteq> 0 then n else 0)"
  "slab_wasted_gtt (sub_slab_wasted d n aws) = slab_wasted_gtt aws - (if d AND DOMAIN_VRAM \<noteq> 0 then 0 else n)"
  "slab_wasted_vram (add_slab_wasted d n aws) = slab_wasted_vram aws + (if d AND DOMAIN_VRAM \<noteq> 0 then n else 0)"
  "slab_wasted_gtt (add_slab_wasted d n aws) = slab_wasted_gtt aws + (if d AND DOMAIN_VRAM \<noteq> 0 then 0 else n)"
  by (simp_all add: sub_slab_wasted_def add_slab_wasted_def)

lemma drop_reference_wasted:
  assumes "aws_ok aws" "fresh_bo aws bo"
  shows "slab_wasted_vram (drop_reference aws bo) = slab_wasted_vram aws"
    "slab_wasted_gtt (drop_reference aws bo) = slab_wasted_gtt aws"
proof -
  have "\<exists>ds c. drop_reference aws bo = foldl amdgpu_bo_destroy aws ds\<lparr>bo_cache := c\<rparr>"
  proof (cases "is_reusable bo")
    case False
    then have "drop_reference aws bo = foldl amdgpu_bo_destroy aws [bo\<lparr>refs := 0\<rparr>]\<lparr>bo_cache := bo_cache aws\<rparr>"
      by (simp add: drop_reference_def amdgpu_bo_destroy_or_cache_def is_reusable_def
          amdgpu_bo_destroy_def account_free_def)
    then show ?thesis by blast
  next
    case True
    obtain c w where r: "pb_cache_add_buffer amdgpu_bo_destroy (now aws) (now aws) (bo\<lparr>refs := 0\<rparr>) (bo_cache aws, aws) = (c, w)"
      by fastforce
    have "bucket_index (bo\<lparr>refs := 0\<rparr>) < cache_num_heaps (bo_cache aws)" "refs (bo\<lparr>refs := 0\<rparr>) = 0"
      "buf (bo\<lparr>refs := 0\<rparr>) \<notin> set (map buf (cached (bo_cache aws)))"
      using assms True by (auto simp: fresh_bo_def bucket_ok_def aws_ok_def)
    from add_evicts(1)[OF aws_okD(1)[OF assms(1)] this r] obtain ds where "w = foldl amdgpu_bo_destroy aws ds" by blast
    then have "drop_reference aws bo = foldl amdgpu_bo_destroy aws ds\<lparr>bo_cache := c\<rparr>"
      using True r by (simp add: drop_reference_def amdgpu_bo_destroy_or_cache_def is_reusable_def)
    then show ?thesis by blast
  qed
  then show "slab_wasted_vram (drop_reference aws bo) = slab_wasted_vram aws"
    "slab_wasted_gtt (drop_reference aws bo) = slab_wasted_gtt aws" by auto
qed

text \<open>What dividing a slab and giving it back does to the counters.\<close>

lemma carve_free_wasted:
  assumes c: "carve_slab env bo heap es g aws = (Some (sid, slab), aws1)" and ok: "aws_ok aws" and f: "fresh_bo aws bo"
  defines "waste \<equiv> of_nat (buf_size bo - num_entries slab * entry_size slab)"
    and "d \<equiv> radeon_domain_from_heap heap AND DOMAIN_VRAM \<noteq> 0" and "p \<equiv> placement bo AND DOMAIN_VRAM \<noteq> 0"
  shows "slab_wasted_vram (amdgpu_bo_slab_free aws1 sid slab) =
      slab_wasted_vram aws + (if d then waste else 0) - (if p then waste else 0)"
    "slab_wasted_gtt (amdgpu_bo_slab_free aws1 sid slab) =
      slab_wasted_gtt aws + (if d then 0 else waste) - (if p then 0 else waste)"
    "slab_bo aws1 sid = Some bo"
proof -
  let ?t = "aws\<lparr>slab_bo := (slab_bo aws)(buf bo \<mapsto> bo)\<rparr>"
  have s: "sid = buf bo" "aws1 = add_slab_wasted (radeon_domain_from_heap heap) waste ?t"
    using c by (auto simp: carve_slab_def Let_def waste_def split: if_splits)
  show b: "slab_bo aws1 sid = Some bo" using s by simp
  have ok1: "aws_ok aws1" unfolding s(2) by (rule aws_ok_same_cache[OF take_bo_ok(1)[OF ok f] keeps_wasted(1)]) simp
  note u = untake_bo_ok(1)[OF ok1 b]
  let ?u = "aws1\<lparr>slab_bo := (slab_bo aws1)(sid := None)\<rparr>"
  let ?w = "sub_slab_wasted (placement bo) waste ?u"
  have w: "aws_ok ?w" by (rule aws_ok_same_cache[OF conjunct1[OF u] keeps_wasted(2)]) simp
  have fr: "fresh_bo ?w bo" using u by (simp add: fresh_bo_def taken_def)
  have e: "amdgpu_bo_slab_free aws1 sid slab = drop_reference ?w bo"
    by (simp add: amdgpu_bo_slab_free_def b waste_def)
  show "slab_wasted_vram (amdgpu_bo_slab_free aws1 sid slab) =
      slab_wasted_vram aws + (if d then waste else 0) - (if p then waste else 0)"
    "slab_wasted_gtt (amdgpu_bo_slab_free aws1 sid slab) =
      slab_wasted_gtt aws + (if d then 0 else waste) - (if p then 0 else waste)"
    unfolding e drop_reference_wasted[OF w fr] add_sub_wasted by (simp_all add: s(2) add_sub_wasted d_def p_def)
qed

lemma create_again_bo:
  assumes "bo_create_again env aws sz al d f = (Some bo, aws')"
  shows "placement bo = fst (place_without_vram aws (d, f))" "usage bo = snd (place_without_vram aws (d, f))"
    "slab_wasted_vram aws' = slab_wasted_vram aws" "slab_wasted_gtt aws' = slab_wasted_gtt aws"
proof -
  obtain sz' al' where p: "page_aligned aws d sz al = (sz', al')" by fastforce
  have c: "amdgpu_create_bo env aws sz' al' d f (bo_heap d f) = (Some bo, aws')"
    using assms by (simp add: bo_create_again_def p)
  then show "placement bo = fst (place_without_vram aws (d, f))" "usage bo = snd (place_without_vram aws (d, f))"
    by (auto elim: create_bo_cases)
  show "slab_wasted_vram aws' = slab_wasted_vram aws" "slab_wasted_gtt aws' = slab_wasted_gtt aws"
    using c by (auto simp: amdgpu_create_bo_def Let_def note_secure_def split: if_splits prod.splits)
qed

section \<open>Requests to the kernel\<close>

lemma or_and_absorb: "(a OR b) AND b = (b :: 'a :: len word)"
  by (rule bit_eqI) (auto simp: bit_simps)

lemma flag_if_and: "flag_if b x AND y = flag_if b (x AND y)"
  by (simp add: flag_if_def)

lemma flag_if_zero [simp]: "flag_if b 0 = 0" "flag_if False x = 0" "flag_if True x = x"
  by (simp_all add: flag_if_def)

lemmas gem_defs = GEM_DOMAIN_GTT_def GEM_DOMAIN_VRAM_def GEM_DOMAIN_GDS_def GEM_DOMAIN_OA_def GEM_DOMAIN_DOORBELL_def
  CREATE_NO_CPU_ACCESS_def CREATE_CPU_GTT_USWC_def CREATE_VRAM_CLEARED_def CREATE_VM_ALWAYS_VALID_def
  CREATE_ENCRYPTED_def CREATE_DISCARDABLE_def CREATE_GFX12_DCC_def CREATE_VIRTIO_SHARED_def

lemma request_no_vram: "d AND DOMAIN_VRAM = 0 \<Longrightarrow> preferred_heap (make_request aws sz al d f) AND GEM_DOMAIN_VRAM = 0"
  by (simp add: make_request_def Let_def bit.conj_disj_distrib2 flag_if_and gem_defs)

lemma request_gtt: "d AND DOMAIN_GTT \<noteq> 0 \<Longrightarrow> preferred_heap (make_request aws sz al d f) AND GEM_DOMAIN_GTT \<noteq> 0"
  by (simp add: make_request_def Let_def bit.conj_disj_distrib2 flag_if_and gem_defs or_eq_0_iff)

lemma request_wc: "f AND FLAG_GTT_WC \<noteq> 0 \<Longrightarrow> request_flags (make_request aws sz al d f) AND CREATE_CPU_GTT_USWC \<noteq> 0"
  by (simp add: make_request_def Let_def bit.conj_disj_distrib2 flag_if_and gem_defs or_eq_0_iff)

section \<open>A concrete winsys\<close>

text \<open>A chip with \<open>vram\<close> kilobytes of VRAM, an empty cache and an empty slab manager.\<close>

definition ex_aws :: "nat \<Rightarrow> aws" where
  "ex_aws vram =
     \<lparr>vram_size_kb = vram, gart_page_size = 4096, pte_fragment_size = 2097152, has_dedicated_vram = True,
      has_vm_always_valid = True, drm_minor = 50, has_tmz_support = False, is_virtio = False, pci_id = 0x73a0,
      check_vm = False, zero_all_vram_allocs = False, slab_min_order = 8, slab_num_orders = 13,
      uses_secure_bos = False, next_bo_unique_id = 0, allocated_vram = 0, allocated_gtt = 0, allocated_oa = 0,
      slab_wasted_vram = 0, slab_wasted_gtt = 0, now = 0, bo_cache = pb_cache_init 64 500000 3 0 1073741824 0,
      in_use = Map.empty, slab_bo = Map.empty, entry_bo = Map.empty, next_addr = 0\<rparr>"

definition ex_env :: bo_env where
  "ex_env = \<lparr>calloc_ok = True, bo_alloc_ok = (\<lambda>_. True), va_range = (\<lambda>_ _ _. Some 65536), va_map_ok = True,
     realloc_ok = True, entries_ok = True, bo_idle = (\<lambda>_. True), cast_oob = (\<lambda>_. 0)\<rparr>"

definition ex_slabs :: pb_slabs where
  "ex_slabs = \<lparr>min_order = 8, num_orders = 13, num_heaps = 64, allow_three_fourths_allocations = True,
     groups = replicate 1664 [], reclaim = [], store = Map.empty\<rparr>"

lemma ex_slabs_init: "pb_slabs_init 8 20 RADEON_NUM_HEAPS True True = Some ex_slabs"
  by (simp add: pb_slabs_init_def ex_slabs_def RADEON_NUM_HEAPS_def)

lemma ex_aws_ok: "aws_ok (ex_aws v)" "slab_live (ex_aws v) = {}"
  by (simp_all add: aws_ok_def ex_aws_def taken_def slab_live_def pb_cache_init_def cache_inv_def cached_def
      RADEON_NUM_HEAPS_def)

lemma ex_request: "slab_request 5 = (DOMAIN_VRAM, 0x855)"
  by (simp add: slab_request_def radeon_domain_from_heap_def radeon_flags_from_heap_def slab_flags_def
      radeon_canonicalize_bo_flags_def Let_def flag_defs)

lemma ex_heap: "bo_heap DOMAIN_VRAM 0x855 = Some 5" "use_reusable_pool DOMAIN_VRAM 0x855"
  by (simp_all add: bo_heap_def use_reusable_pool_def radeon_get_heap_index_def radeon_canonicalize_bo_flags_def Let_def flag_defs)

lemma ex_page: "page_aligned (ex_aws v) DOMAIN_VRAM 2097152 2097152 = (2097152, 2097152)"
  by (simp add: page_aligned_def ex_aws_def align64_def align_u32_def u64_def u32_def domain_defs)

lemma ex_again:
  "\<exists>bo aws1. bo_create_again ex_env (ex_aws v) 2097152 2097152 DOMAIN_VRAM 0x855 = (Some bo, aws1) \<and>
     buf bo = 0 \<and> buf_size bo = 2097152 \<and> bo_type bo = AMDGPU_BO_REAL_REUSABLE_SLAB"
proof -
  obtain d f where p: "place_without_vram (ex_aws v) (DOMAIN_VRAM, 0x855) = (d, f)" by fastforce
  show ?thesis unfolding bo_create_again_def ex_page prod.case amdgpu_create_bo_def p Let_def ex_heap
    by (simp add: ex_env_def bo_va_def ex_aws_def new_bo_type_def flag_defs)
qed

lemma ex_first:
  "\<exists>bo aws1. bo_create_first ex_env (ex_aws v) 2097152 2097152 DOMAIN_VRAM 0x855 = (Bo bo, aws1) \<and>
     buf bo = 0 \<and> buf_size bo = 2097152"
proof -
  have e: "pb_cache_reclaim_buffer oob can amdgpu_bo_destroy t sz al 0 5 (bo_cache (ex_aws v), ex_aws v) =
      (None, bo_cache (ex_aws v), ex_aws v)" for oob can t sz al
    by (simp add: pb_cache_reclaim_buffer_def ex_aws_def pb_cache_init_def Let_def)
  obtain bo aws1 where "bo_create_again ex_env (ex_aws v) 2097152 2097152 DOMAIN_VRAM 0x855 = (Some bo, aws1)"
     "buf bo = 0" "buf_size bo = 2097152" using ex_again by blast
  then show ?thesis unfolding bo_create_first_def ex_page prod.case ex_heap e Let_def
    using e by (simp add: ex_heap)
qed

lemma ex_size: "alloc_entry_size ex_slabs 100 = 192" "alloc_asserts ex_slabs 100 5"
  "slab_buffer_size (ex_aws v) 192 = 2097152"
proof -
  have "util_logbase2_ceil 100 \<le> 8" 
    by (rule logbase2_ceil_bound) simp_all
  then have "alloc_order ex_slabs 100 = 8" by (simp add: alloc_order_def ex_slabs_def)
  then show "alloc_entry_size ex_slabs 100 = 192" "alloc_asserts ex_slabs 100 5"
    by (simp_all add: alloc_entry_size_def alloc_three_fourths_def alloc_asserts_def ex_slabs_def)
  show "slab_buffer_size (ex_aws v) 192 = 2097152"
    by (simp add: slab_buffer_size_def ex_aws_def Let_def)
qed


lemma ex_attempt:
  "\<exists>slab aws1. slab_attempt x (ex_aws v) 5 192 g = (Some (0, slab), aws1) \<and> free slab \<noteq> []"
  if "x = First ex_env \<or> x = Again ex_env"
proof -
  have c: "entries_ok ex_env" by (simp add: ex_env_def)
  obtain bo aws1 where f: "bo_create_first ex_env (ex_aws v) 2097152 2097152 DOMAIN_VRAM 0x855 = (Bo bo, aws1)"
     "buf bo = 0" "buf_size bo = 2097152" using ex_first by blast
  obtain bo' aws1' where a: "bo_create_again ex_env (ex_aws v) 2097152 2097152 DOMAIN_VRAM 0x855 = (Some bo', aws1')"
     "buf bo' = 0" "buf_size bo' = 2097152" using ex_again by blast
  show ?thesis using that c f a
    by (auto simp: slab_attempt_def ex_request ex_size Let_def carve_slab_def)
qed

text \<open>A first buffer of 100 bytes gets entry 0 of a new slab.\<close>

lemma ex_alloc:
  "\<exists>sl p. pb_slab_alloc (\<lambda>_. True) (amdgpu_bo_slab_alloc ex_env ex_env (\<lambda>_. True)) amdgpu_bo_slab_free 100 5
     (ex_slabs, ex_aws v) = Some (Some (0, 0), sl, p)"
proof -
  define g where "g = alloc_group_index ex_slabs 100 5"
  have "config_ok 8 13 ex_slabs" by (simp add: config_ok_def ex_slabs_def)
  then have g: "g < 1664" unfolding g_def using config_ok_index[OF _ ex_size(2)] by (simp add: ex_slabs_def)
  have l: "slab_alloc_lookup can fr g False (ex_slabs, w) = (None, ex_slabs, w)" for can fr and w :: aws
    using g list_update_id[of "groups ex_slabs" g]
    by (simp add: slab_alloc_lookup_def Let_def ex_slabs_def pb_slabs_reclaim_locked_def)
  obtain bo aws1 where f: "bo_create_first ex_env (ex_aws v) 2097152 2097152 DOMAIN_VRAM 0x855 = (Bo bo, aws1)"
     "buf bo = 0" "buf_size bo = 2097152" using ex_first by blast
  have c: "entries_ok ex_env" by (simp add: ex_env_def)
  let ?slab = "\<lparr>free = [0..<2097152 div 192], num_free = 2097152 div 192, num_entries = 2097152 div 192, group_index = g, entry_size = 192\<rparr>"
  obtain p where p: "carve_slab ex_env bo 5 192 g aws1 = (Some (0, ?slab), p)"
    using f c by (simp add: carve_slab_def Let_def)
  have al: "amdgpu_bo_slab_alloc ex_env ex_env can (ex_slabs, ex_aws v) 5 192 g = (Some (0, ?slab), ex_slabs, p)" for can
    using f p by (simp add: amdgpu_bo_slab_alloc_def ex_request ex_size Let_def)
  have "[0..<2097152 div 192] = 0 # [1..<2097152 div 192]" by (rule upt_conv_Cons[THEN trans]) simp_all
  then obtain sl where "slab_alloc_take g 0 ?slab ex_slabs = Some ((0, 0), sl)"
    by (simp add: slab_alloc_take_def take_entry_def ex_slabs_def)
  then show ?thesis using l al ex_size
    by (simp add: pb_slab_alloc_def pb_slab_alloc_reclaimed_def Let_def g_def[symmetric])
qed

text \<open>A buffer without an address range, released and asked for again.\<close>

lemma release_expired_empty:
  "(\<And>i. i \<in> set is \<Longrightarrow> buckets c ! i = []) \<Longrightarrow>
   fold (release_expired_buffers_locked destroy t) is (c, w) = (c, w)"
  by (induction "is") (simp_all add: release_expired_buffers_locked_def)

lemma logbase2_pow2: "k < 32 \<Longrightarrow> util_logbase2 (2 ^ k) = k"
proof -
  assume k: "k < 32"
  have "(0 :: nat) < 2 ^ k" "(2 :: nat) ^ k < 2 ^ 32" using power_strict_increasing[OF k, of "2 :: nat"] by simp_all
  note b = util_logbase2_bounds[OF this]
  have "util_logbase2 (2 ^ k) \<le> k" using b(1) by simp
  moreover have "k < util_logbase2 (2 ^ k) + 1" using b(2) by (simp only: power_strict_increasing_iff one_less_numeral_iff semiring_norm)
  ultimately show ?thesis by simp
qed

lemma novma_flags:
  "use_reusable_pool DOMAIN_GTT 0x4014" "bo_heap DOMAIN_GTT 0x4014 = Some 0"
  "page_aligned (ex_aws 0) DOMAIN_GTT 4096 4096 = (4096, 4096)"
  "place_without_vram (ex_aws 0) (DOMAIN_GTT, 0x4014) = (DOMAIN_GTT, 0x4014)"
  "(0x4014 :: dword) AND FLAG_WINSYS_SLAB_BACKING = 0" "new_bo_type 0x4014 (Some 0) = AMDGPU_BO_REAL_REUSABLE"
  "new_bo_bucket 0x4014 (Some 0) = 0" "\<not> bo_mapped DOMAIN_GTT 0x4014"
  by (simp_all add: use_reusable_pool_def bo_heap_def radeon_get_heap_index_def radeon_canonicalize_bo_flags_def
      Let_def flag_defs page_aligned_def ex_aws_def align64_def align_u32_def u64_def u32_def place_without_vram_def
      new_bo_type_def new_bo_bucket_def bo_mapped_def)

lemma vma_flags:
  "use_reusable_pool DOMAIN_GTT 0x14" "bo_heap DOMAIN_GTT 0x14 = Some 0"
  "page_aligned (ex_aws 0) DOMAIN_GTT 4096 4096 = (4096, 4096)"
  "place_without_vram (ex_aws 0) (DOMAIN_GTT, 0x14) = (DOMAIN_GTT, 0x14)"
  "(0x14 :: dword) AND FLAG_WINSYS_SLAB_BACKING = 0" "new_bo_type 0x14 (Some 0) = AMDGPU_BO_REAL_REUSABLE"
  "new_bo_bucket 0x14 (Some 0) = 0" "bo_mapped DOMAIN_GTT 0x14"
  by (simp_all add: use_reusable_pool_def bo_heap_def radeon_get_heap_index_def radeon_canonicalize_bo_flags_def
      Let_def flag_defs page_aligned_def ex_aws_def align64_def align_u32_def u64_def u32_def place_without_vram_def
      new_bo_type_def new_bo_bucket_def bo_mapped_def)

lemma ex_alignment: "util_logbase2 (amdgpu_get_optimal_alignment (ex_aws 0) 4096 4096) = 12"
  using logbase2_pow2[of 12] by (simp add: amdgpu_get_optimal_alignment_def ex_aws_def)

lemma novma_created:
  "\<exists>bo aws1. bo_create_first ex_env (ex_aws 0) 4096 4096 DOMAIN_GTT 0x4014 = (Bo bo, aws1) \<and>
     buf bo = 0 \<and> usage bo = 0x4014 \<and> va bo = None \<and> buf_size bo = 4096 \<and> alignment_log2 bo = 12 \<and>
     bucket_index bo = 0 \<and> bo_type bo = AMDGPU_BO_REAL_REUSABLE \<and> bo_cache aws1 = bo_cache (ex_aws 0) \<and>
     now aws1 = 0 \<and> gart_page_size aws1 = 4096"
proof -
  note q = novma_flags
  have e: "pb_cache_reclaim_buffer oob can amdgpu_bo_destroy t sz al 0 0 (bo_cache (ex_aws 0), ex_aws 0) =
      (None, bo_cache (ex_aws 0), ex_aws 0)" for oob can t sz al
    by (simp add: pb_cache_reclaim_buffer_def ex_aws_def pb_cache_init_def Let_def)
  have "\<exists>bo aws1. bo_create_again ex_env (ex_aws 0) 4096 4096 DOMAIN_GTT 0x4014 = (Some bo, aws1) \<and>
     buf bo = 0 \<and> usage bo = 0x4014 \<and> va bo = None \<and> buf_size bo = 4096 \<and> alignment_log2 bo = 12 \<and>
     bucket_index bo = 0 \<and> bo_type bo = AMDGPU_BO_REAL_REUSABLE \<and> bo_cache aws1 = bo_cache (ex_aws 0) \<and>
     now aws1 = 0 \<and> gart_page_size aws1 = 4096"
    unfolding bo_create_again_def q prod.case amdgpu_create_bo_def Let_def
    by (simp add: ex_env_def q ex_alignment note_secure_def) (simp add: ex_aws_def)
  then show ?thesis unfolding bo_create_first_def q prod.case Let_def by (auto simp: q e)
qed

lemma novma_recycled_concrete:
  assumes b: "buf bo = 0" "usage bo = 0x4014" "va bo = None" "buf_size bo = 4096" "alignment_log2 bo = 12"
     "bucket_index bo = 0" "bo_type bo = AMDGPU_BO_REAL_REUSABLE"
    and a: "bo_cache aws1 = bo_cache (ex_aws 0)" "now aws1 = 0" "gart_page_size aws1 = 4096"
  shows "\<exists>bo2 aws3. bo_create_first ex_env (drop_reference aws1 bo) 4096 4096 DOMAIN_GTT 0x14 = (Bo bo2, aws3) \<and>
     buf bo2 = 0 \<and> va bo2 = None \<and> usage bo2 = 0x4014"
proof -
  let ?init = "pb_cache_init 64 500000 3 0 1073741824 0 :: amdgpu_bo pb_cache"
  have c0: "bo_cache aws1 = ?init" using a(1) by (simp add: ex_aws_def)
  let ?b = "bo\<lparr>refs := 0, start_ms := 0\<rparr>"
  let ?c = "?init\<lparr>buckets := (replicate 64 [])[0 := [?b]], num_buffers := 1, cache_size := 4096\<rparr>"
  have add: "pb_cache_add_buffer amdgpu_bo_destroy 0 0 (bo\<lparr>refs := 0\<rparr>) (?init, aws1) = (?c, aws1)"
  proof -
    have "fold (release_expired_buffers_locked amdgpu_bo_destroy t) [0..<64] (?init, aws1) = (?init, aws1)" for t
      by (rule release_expired_empty) (simp add: pb_cache_init_def)
    then show ?thesis using b
      by (simp add: pb_cache_add_buffer_def Let_def pb_cache_init_def time_get_ms_def word_less_nat_alt)
  qed
  have dr: "drop_reference aws1 bo = aws1\<lparr>bo_cache := ?c\<rparr>"
    using add a b by (simp add: drop_reference_def amdgpu_bo_destroy_or_cache_def is_reusable_def c0)
  have fr: "float_round 4096 = 4096" "float_round 12288 = 12288" by (simp_all add: float_round_small)
  have "\<exists>c'. pb_cache_reclaim_buffer (cast_oob ex_env) (bo_idle ex_env) amdgpu_bo_destroy 0 4096 4096 0 0 (?c, w) =
      (Some (?b\<lparr>refs := 1\<rparr>), c', w)" for w
    using b by (simp add: pb_cache_reclaim_buffer_def Let_def pb_cache_is_buffer_compat_def pb_check_usage_def
        pb_check_alignment_def size_limit_def float_to_unsigned_def fr pb_cache_init_def ex_env_def)
  then obtain c' where r: "pb_cache_reclaim_buffer (cast_oob ex_env) (bo_idle ex_env) amdgpu_bo_destroy 0 4096 4096 0 0
      (?c, aws1\<lparr>bo_cache := ?c\<rparr>) = (Some (?b\<lparr>refs := 1\<rparr>), c', aws1\<lparr>bo_cache := ?c\<rparr>)" by blast
  have pg: "page_aligned (aws1\<lparr>bo_cache := ?c\<rparr>) DOMAIN_GTT 4096 4096 = (4096, 4096)"
    using a(3) by (simp add: page_aligned_def align64_def align_u32_def u64_def u32_def domain_defs)
  show ?thesis unfolding dr bo_create_first_def pg prod.case Let_def using r a(2) b
    by (simp add: vma_flags)
qed

section \<open>Properties\<close>

text \<open>C3: Whatever the interleaving of the threads of the winsys, a slab entry that a client holds is
  held by no other client, is neither free nor waiting to be reclaimed, lies within its slab, and
  its slab is backed by a real buffer that is in use.\<close>

theorem amdgpu_slab_no_double_handout:
  assumes "pb_slabs_init 8 20 RADEON_NUM_HEAPS True ok = Some slabs0" "aws_ok aws0" "slab_live aws0 = {}"
    and "slab_steps (initial_sys slabs0 aws0) s"
  shows "distinct (held s) \<and> (\<forall>e\<in>set (held s). e \<notin> set (reclaim (slabs s)) \<and> slab_bo (priv s) (fst e) \<noteq> None \<and>
    (\<exists>slab. store (slabs s) (fst e) = Some slab \<and> snd e \<notin> set (free slab) \<and> snd e < num_entries slab \<and>
       entry_size slab = group_entry_size (slabs s) (group_index slab)))"
proof -
  have inv: "amdgpu_slabs.sys_inv s" using assms(4) initial_inv[OF assms(1-3)] by (rule amdgpu_slabs.reachable_inv)
  then have i: "slabs_inv (slabs s) (held s)" and l: "dom (store (slabs s)) \<subseteq> slab_live (priv s)"
    by (auto simp: amdgpu_slabs.sys_inv_def)
  have "slab_bo (priv s) (fst e) \<noteq> None" if "e \<in> set (held s)" for e
    using slabs_invD(4)[OF i that] l by (auto simp: slab_live_def)
  then show ?thesis using held_distinct[OF i] held_entry(2,3)[OF i] by blast
qed

text \<open>C3 on a concrete run: one thread holds the first entry of a new slab.\<close>

theorem amdgpu_slab_no_double_handout_witness:
  "\<exists>s. slab_steps (initial_sys ex_slabs (ex_aws 0)) s \<and> held s = [(0, 0)] \<and> (0, 0) \<notin> set (reclaim (slabs s)) \<and>
     slab_bo (priv s) 0 \<noteq> None"
proof -
  let ?i = "initial_sys ex_slabs (ex_aws 0)"
  obtain sl p where "pb_slab_alloc (\<lambda>_. True) (amdgpu_bo_slab_alloc ex_env ex_env (\<lambda>_. True)) amdgpu_bo_slab_free 100 5
     (slabs ?i, priv ?i) = Some (Some (0, 0), sl, p)" using ex_alloc[of 0] by (auto simp: initial_sys_def)
  from pb_slab_alloc_steps[OF initial_inv[OF ex_slabs_init ex_aws_ok] this]
  obtain s where s: "slab_steps ?i s" "held s = [(0, 0)]" by (auto simp: initial_sys_def)
  from amdgpu_slab_no_double_handout[OF ex_slabs_init ex_aws_ok s(1)] s show ?thesis by auto
qed

text \<open>C5: The code of one thread is one of these interleavings: \<open>pb_slab_alloc\<close> with the callbacks of the
  winsys, the clean-up and second attempt of \<open>amdgpu_bo_create\<close> included, goes through steps of the
  transition system only and ends with the returned entry among those held.\<close>

theorem slab_alloc_is_interleaving:
  assumes "pb_slabs_init 8 20 RADEON_NUM_HEAPS True ok = Some slabs0" "aws_ok aws0" "slab_live aws0 = {}"
    and "slab_steps (initial_sys slabs0 aws0) s"
    and "pb_slab_alloc can1 (amdgpu_bo_slab_alloc env1 env2 can2) amdgpu_bo_slab_free sz heap (slabs s, priv s) =
      Some (r, sl, p)"
  shows "slab_steps s (s\<lparr>slabs := sl, priv := p, held := (case r of None \<Rightarrow> held s | Some e \<Rightarrow> e # held s)\<rparr>)"
proof -
  have "amdgpu_slabs.sys_inv s" using assms(4) initial_inv[OF assms(1-3)] by (rule amdgpu_slabs.reachable_inv)
  then show ?thesis using assms(5) by (rule pb_slab_alloc_steps)
qed

text \<open>C5 on a concrete request: 100 bytes from the empty manager.\<close>

theorem slab_alloc_is_interleaving_witness:
  "\<exists>sl p. slab_steps (initial_sys ex_slabs (ex_aws 0)) \<lparr>slabs = sl, priv = p, held = [(0, 0)], pending = []\<rparr>"
proof -
  let ?i = "initial_sys ex_slabs (ex_aws 0)"
  obtain sl p where a: "pb_slab_alloc (\<lambda>_. True) (amdgpu_bo_slab_alloc ex_env ex_env (\<lambda>_. True)) amdgpu_bo_slab_free 100 5
     (slabs ?i, priv ?i) = Some (Some (0, 0), sl, p)" using ex_alloc[of 0] by (auto simp: initial_sys_def)
  from slab_alloc_is_interleaving[OF ex_slabs_init ex_aws_ok rtranclp.rtrancl_refl a] show ?thesis
    by (auto simp: initial_sys_def)
qed

text \<open>C12: A small buffer that \<open>amdgpu_bo_create\<close> takes from a slab passes the assertions of the slab
  manager, fits into the entry, and starts at a multiple of the alignment that was asked for,
  whatever the index of the entry, also when the entry has three quarters of a power of two.\<close>

theorem slab_entry_fits_aligned:
  assumes "winsys_slabs aws sl" "num_orders sl = 13" "heap < num_heaps sl" "sz \<le> 2 ^ 20"
    and "slab_alloc_size aws sz (2 ^ k) = Some a" "entry_size slab = alloc_entry_size sl a"
  shows "alloc_asserts sl a heap \<and> sz \<le> entry_size slab \<and> 2 ^ k dvd get_slab_entry_offset slab e"
proof -
  note b = slab_alloc_size_bound[OF assms(1,4,5)]
  have "alloc_order sl a \<le> 20" using logbase2_ceil_bound[OF b] assms(1) by (simp add: alloc_order_def winsys_slabs_def)
  moreover have "min_order sl = 8" using assms(1) by (simp add: winsys_slabs_def)
  ultimately have "alloc_asserts sl a heap" using assms(2,3) by (simp add: alloc_asserts_def)
  then show ?thesis
    using entry_fits_and_aligned[OF assms(1,4) refl assms(5)] assms(6) by (simp add: get_slab_entry_offset_def)
qed

text \<open>C12 on a concrete request: 700 bytes aligned to 256 in an entry of 768 bytes.\<close>

theorem slab_entry_fits_aligned_witness:
  "2 ^ 8 dvd get_slab_entry_offset \<lparr>free = [], num_free = 0, num_entries = 0, group_index = 0, entry_size = 768\<rparr> (0, 5) \<and>
   slab_alloc_size (ex_aws 0) 700 (2 ^ 8) = Some 700"
proof -
  have c: "util_logbase2_ceil 700 \<le> 10" by (rule logbase2_ceil_bound) simp_all
  have "700 \<le> (2 :: nat) ^ util_logbase2_ceil 700" by (rule util_logbase2_ceil_le) simp
  then have "(2 :: nat) ^ 9 < 2 ^ util_logbase2_ceil 700" by simp
  then have "9 < util_logbase2_ceil 700" by (rule power_less_imp_less_exp[rotated]) simp
  then have l: "util_logbase2_ceil 700 = 10" using c by simp
  have a: "slab_alloc_size (ex_aws 0) 700 (2 ^ 8) = Some 700"
    by (simp add: slab_alloc_size_def get_slab_entry_alignment_def get_slab_pot_entry_size_def next_power_of_two l
        Let_def ex_aws_def)
  have w: "winsys_slabs (ex_aws 0) ex_slabs" "num_orders ex_slabs = 13" "0 < num_heaps ex_slabs"
    by (simp_all add: winsys_slabs_def ex_aws_def ex_slabs_def)
  have "alloc_entry_size ex_slabs 700 = 768"
    by (simp add: alloc_entry_size_def alloc_three_fourths_def alloc_order_def l ex_slabs_def)
  then show ?thesis using slab_entry_fits_aligned[OF w _ a, of "\<lparr>free = [], num_free = 0, num_entries = 0,
      group_index = 0, entry_size = 768\<rparr>" "(0, 5)"] a by simp
qed

text \<open>When the real buffer of a slab is placed where its heap says, giving the slab back undoes what
  dividing it added to the counters of wasted bytes.\<close>

theorem slab_wasted_balance:
  assumes "carve_slab env bo heap es g aws = (Some (sid, slab), aws1)" "aws_ok aws" "fresh_bo aws bo"
    and "(placement bo AND DOMAIN_VRAM \<noteq> 0) = (radeon_domain_from_heap heap AND DOMAIN_VRAM \<noteq> 0)"
  shows "slab_wasted_vram (amdgpu_bo_slab_free aws1 sid slab) = slab_wasted_vram aws \<and>
    slab_wasted_gtt (amdgpu_bo_slab_free aws1 sid slab) = slab_wasted_gtt aws"
  using carve_free_wasted[OF assms(1-3)] assms(4) by simp

text \<open>On a chip with VRAM: a slab of a VRAM heap is divided and given back.\<close>

theorem slab_wasted_balance_witness:
  "\<exists>bo aws0 aws1 slab. carve_slab ex_env bo 5 192 7 aws0 = (Some (0, slab), aws1) \<and>
     slab_wasted_vram (amdgpu_bo_slab_free aws1 0 slab) = slab_wasted_vram aws0"
proof -
  obtain bo aws0 where c: "bo_create_again ex_env (ex_aws 1024) 2097152 2097152 DOMAIN_VRAM 0x855 = (Some bo, aws0)"
      "buf bo = 0" using ex_again by blast
  note o = create_again_ok[OF ex_aws_ok(1) c(1)]
  have p: "placement bo = DOMAIN_VRAM"
    using create_again_bo(1)[OF c(1)] by (simp add: place_without_vram_def ex_aws_def)
  obtain slab aws1 where v: "carve_slab ex_env bo 5 192 7 aws0 = (Some (0, slab), aws1)"
    using c(2) by (simp add: carve_slab_def Let_def ex_env_def)
  have "(placement bo AND DOMAIN_VRAM \<noteq> 0) = (radeon_domain_from_heap 5 AND DOMAIN_VRAM \<noteq> 0)"
    using p by (simp add: radeon_domain_from_heap_def flag_defs)
  from slab_wasted_balance[OF v o(1) _ this] o(3) v show ?thesis by blast
qed

text \<open>On a chip without VRAM the real buffer of a VRAM slab is placed in GTT. Dividing it then counts
  its waste as VRAM and giving it back subtracts it from GTT: after each such pair the VRAM counter
  has grown and the GTT counter, an unsigned number, has shrunk by the waste of the slab.\<close>

theorem slab_wasted_drift:
  assumes "vram_size_kb aws = 0" "heap AND HEAP_BIT_VRAM \<noteq> 0" "aws_ok aws" "0 < es" "es \<le> 2 ^ 20"
    and "slab_attempt (Again env) aws heap es g = (Some (sid, slab), aws1)"
  shows "\<exists>bo. slab_bo aws1 sid = Some bo \<and>
    (let waste = of_nat (buf_size bo - num_entries slab * entry_size slab);
         aws2 = amdgpu_bo_slab_free aws1 sid slab
     in slab_wasted_vram aws2 = slab_wasted_vram aws + waste \<and> slab_wasted_gtt aws2 = slab_wasted_gtt aws - waste)"
proof -
  obtain d f where df: "slab_request heap = (d, f)" by fastforce
  have dv: "radeon_domain_from_heap heap = DOMAIN_VRAM" using assms(2) by (simp add: radeon_domain_from_heap_def)
  then have d: "d = DOMAIN_VRAM" using df canonical_domain[of DOMAIN_VRAM "slab_flags heap"]
    by (auto simp: slab_request_def domain_defs)
  let ?sz = "slab_buffer_size aws es"
  obtain bo aws0 where c: "bo_create_again env aws ?sz ?sz d f = (Some bo, aws0)"
      and cv: "carve_slab env bo heap es g aws0 = (Some (sid, slab), aws1)"
    using assms(6) unfolding slab_attempt_def df Let_def by (auto split: option.splits prod.splits)
  note o = create_again_ok[OF assms(3) c]
  note b = create_again_bo[OF c]
  have "placement bo = DOMAIN_GTT" using b(1) assms(1) d by (simp add: place_without_vram_def domain_defs)
  then have "placement bo AND DOMAIN_VRAM = 0" "radeon_domain_from_heap heap AND DOMAIN_VRAM \<noteq> 0"
    using dv by (simp_all add: domain_defs)
  then show ?thesis using carve_free_wasted[OF cv o(1)] o(3) b(3,4) by (simp add: Let_def)
qed

text \<open>on a chip without VRAM: a slab of 192-byte entries wastes 128 bytes each time.\<close>

theorem slab_wasted_drift_witness:
  "\<exists>slab aws1. slab_attempt (Again ex_env) (ex_aws 0) 5 192 7 = (Some (0, slab), aws1) \<and>
     (\<exists>bo. slab_bo aws1 0 = Some bo \<and>
        slab_wasted_vram (amdgpu_bo_slab_free aws1 0 slab) = of_nat (buf_size bo - num_entries slab * entry_size slab))"
proof -
  obtain slab aws1 where a: "slab_attempt (Again ex_env) (ex_aws 0) 5 192 7 = (Some (0, slab), aws1)"
    using ex_attempt[of "Again ex_env"] by blast
  have "vram_size_kb (ex_aws 0) = 0" "5 AND HEAP_BIT_VRAM \<noteq> 0" "slab_wasted_vram (ex_aws 0) = 0"
    by (simp_all add: ex_aws_def flag_defs)
  with slab_wasted_drift[OF _ _ ex_aws_ok(1) _ _ a] a show ?thesis by (auto simp: Let_def)
qed

text \<open>Creating a kernel buffer and destroying it leaves the counters of allocated memory as they were,
  also when the buffer was moved from VRAM to GTT.\<close>

theorem create_destroy_accounting:
  assumes "amdgpu_create_bo env aws sz al domain flags heap = (Some bo, aws1)"
  shows "allocated_vram (amdgpu_bo_destroy aws1 (bo\<lparr>refs := 0\<rparr>)) = allocated_vram aws \<and>
    allocated_gtt (amdgpu_bo_destroy aws1 (bo\<lparr>refs := 0\<rparr>)) = allocated_gtt aws \<and>
    allocated_oa (amdgpu_bo_destroy aws1 (bo\<lparr>refs := 0\<rparr>)) = allocated_oa aws"
proof -
  obtain d f where p: "place_without_vram aws (domain, flags) = (d, f)" by fastforce
  have "placement bo = d \<and> buf_size bo = sz \<and> aws1 = account_alloc d sz
      (note_secure f aws\<lparr>next_bo_unique_id := next_bo_unique_id aws + 1, next_addr := next_addr aws + 1\<rparr>)"
    using assms unfolding amdgpu_create_bo_def Let_def p prod.case by (auto split: if_splits)
  then show ?thesis by (simp add: amdgpu_bo_destroy_def account_alloc_def account_free_def note_secure_def)
qed

text \<open>On a chip without VRAM.\<close>

theorem create_destroy_accounting_witness:
  "\<exists>bo aws1. amdgpu_create_bo ex_env (ex_aws 0) 4096 4096 DOMAIN_VRAM 0x10 None = (Some bo, aws1) \<and>
     allocated_gtt (amdgpu_bo_destroy aws1 (bo\<lparr>refs := 0\<rparr>)) = 0"
proof -
  have "\<exists>bo aws1. amdgpu_create_bo ex_env (ex_aws 0) 4096 4096 DOMAIN_VRAM 0x10 None = (Some bo, aws1)"
    by (simp add: amdgpu_create_bo_def Let_def ex_env_def bo_va_def split: prod.splits)
  then obtain bo aws1 where c: "amdgpu_create_bo ex_env (ex_aws 0) 4096 4096 DOMAIN_VRAM 0x10 None = (Some bo, aws1)"
    by blast
  from create_destroy_accounting[OF c] c show ?thesis by (auto simp: ex_aws_def)
qed

text \<open>C23: On a chip without VRAM no request to the kernel names the VRAM heap; a VRAM request asks for
  write-combined GTT instead, and its buffer is accounted as GTT.\<close>

theorem no_vram_request:
  assumes "vram_size_kb aws = 0" "place_without_vram aws (domain, flags) = (d, f)"
  shows "preferred_heap (make_request aws sz al d f) AND GEM_DOMAIN_VRAM = 0 \<and>
    (domain AND DOMAIN_VRAM \<noteq> 0 \<longrightarrow>
       preferred_heap (make_request aws sz al d f) AND GEM_DOMAIN_GTT \<noteq> 0 \<and>
       request_flags (make_request aws sz al d f) AND CREATE_CPU_GTT_USWC \<noteq> 0 \<and> d AND DOMAIN_GTT \<noteq> 0)"
proof (cases "domain AND DOMAIN_VRAM = 0")
  case True
  then show ?thesis using assms by (simp add: place_without_vram_def request_no_vram)
next
  case False
  then have df: "d = (domain AND NOT DOMAIN_VRAM) OR DOMAIN_GTT" "f = flags OR FLAG_GTT_WC"
    using assms by (auto simp: place_without_vram_def)
  have dv: "d AND DOMAIN_VRAM = 0"
    unfolding df(1) bit.conj_disj_distrib2 and.assoc by (simp add: bit.conj_cancel_left domain_defs)
  have dg: "d AND DOMAIN_GTT \<noteq> 0" unfolding df(1) or_and_absorb by (simp add: domain_defs)
  have "f AND FLAG_GTT_WC \<noteq> 0" unfolding df(2) or_and_absorb by (simp add: bo_flag_defs)
  then show ?thesis using dg request_no_vram[OF dv] request_gtt[OF dg] request_wc by blast
qed

text \<open>C23 for a VRAM request of a page.\<close>

theorem no_vram_request_witness:
  "preferred_heap (make_request (ex_aws 0) 4096 4096 DOMAIN_GTT (0x10 OR FLAG_GTT_WC)) AND GEM_DOMAIN_VRAM = 0"
proof -
  have "vram_size_kb (ex_aws 0) = 0"
    "place_without_vram (ex_aws 0) (DOMAIN_VRAM, 0x10) = (DOMAIN_GTT, 0x10 OR FLAG_GTT_WC)"
    by (simp_all add: place_without_vram_def ex_aws_def domain_defs)
  from no_vram_request[OF this] show ?thesis by blast
qed

text \<open>The heap of a buffer does not tell whether the frontend assigns its address
  (\<open>RADEON_FLAG_NO_VMA\<close>), and the cache does not look at it either. A buffer created with that flag
  and released is handed to the next request for an ordinary buffer, without an address range.\<close>

theorem novma_buffer_recycled:
  "\<exists>bo aws1 bo2 aws2.
     bo_create_first ex_env (ex_aws 0) 4096 4096 DOMAIN_GTT
       (FLAG_NO_INTERPROCESS_SHARING OR FLAG_NO_SUBALLOC OR FLAG_NO_VMA) = (Bo bo, aws1) \<and>
     bo_create_first ex_env (drop_reference aws1 bo) 4096 4096 DOMAIN_GTT
       (FLAG_NO_INTERPROCESS_SHARING OR FLAG_NO_SUBALLOC) = (Bo bo2, aws2) \<and>
     buf bo2 = buf bo \<and> va bo2 = None \<and> usage bo2 AND FLAG_NO_VMA \<noteq> 0"
proof -
  obtain bo aws1 where c: "bo_create_first ex_env (ex_aws 0) 4096 4096 DOMAIN_GTT 0x4014 = (Bo bo, aws1)"
    and b: "buf bo = 0" "usage bo = 0x4014" "va bo = None" "buf_size bo = 4096" "alignment_log2 bo = 12"
     "bucket_index bo = 0" "bo_type bo = AMDGPU_BO_REAL_REUSABLE"
    and a: "bo_cache aws1 = bo_cache (ex_aws 0)" "now aws1 = 0" "gart_page_size aws1 = 4096"
    using novma_created by blast
  have f: "FLAG_NO_INTERPROCESS_SHARING OR FLAG_NO_SUBALLOC OR FLAG_NO_VMA = 0x4014"
    "FLAG_NO_INTERPROCESS_SHARING OR FLAG_NO_SUBALLOC = 0x14" "(0x4014 :: dword) AND FLAG_NO_VMA \<noteq> 0"
    by (simp_all add: bo_flag_defs)
  show ?thesis unfolding f(1,2) using c b novma_recycled_concrete[OF b a] f(3) by fastforce
qed

text \<open>\<open>AMDGPU_GEM_CREATE_VIRTIO_SHARED\<close> is defined as \<open>1u << 31\<close> without parentheses, so that
  \<open>~AMDGPU_GEM_CREATE_VIRTIO_SHARED\<close> is \<open>(~1u) << 31\<close>, which is 0. For a shareable buffer
  \<open>amdvgpu_bo_alloc\<close> therefore clears every flag of the request, not only the virtio bit.\<close>

theorem virtio_shared_clears_flags:
  assumes "request_flags request AND CREATE_VIRTIO_SHARED \<noteq> 0"
  shows "blob_flags (virtio_blob_request request) = 0"
  using assms by (simp add: virtio_blob_request_def)

text \<open>for an encrypted shareable buffer.\<close>

theorem virtio_shared_clears_flags_witness:
  "blob_flags (virtio_blob_request \<lparr>alloc_size = 4096, phys_alignment = 4096, preferred_heap = GEM_DOMAIN_GTT,
     request_flags = CREATE_VIRTIO_SHARED OR CREATE_ENCRYPTED\<rparr>) = 0"
  by (rule virtio_shared_clears_flags) (simp add: gem_defs)

end
