(* ===== verification/SparseBo.thy ===== *)
theory SparseBo
  imports RadeonHeap "HOL-Library.Monad_Syntax"
begin

text \<open>
  Sparse buffers of gallium/winsys/amdgpu/drm/amdgpu_bo.c: a range of GPU addresses whose 64 KB pages
  are backed by memory on demand. Backing memory comes in buffers of its own, each with a sorted
  list of the page ranges that are free; \<open>commitments\<close> says for each page of the address range which
  page of which backing buffer it is mapped to.

  A backing buffer, its \<open>amdgpu_sparse_backing\<close> and its kernel handle are named by one number. What the
  code calls outside is a record of functions on a world \<open>'w\<close>: creating and releasing a buffer,
  allocating memory, and changing the page table of the GPU. \<^term>\<open>None\<close> as the result of an operation
  means that it does not return: an assertion fails or a loop never ends. Fences are not modelled.
\<close>

section \<open>Data\<close>

definition RADEON_SPARSE_PAGE_SIZE :: nat where "RADEON_SPARSE_PAGE_SIZE = 65536"

record sparse_backing =
  backing_bo :: nat
  backing_size :: nat
  chunks :: "(nat \<times> nat) list"
  max_chunks :: nat

record amdgpu_bo_sparse =
  sparse_size :: nat
  sparse_placement :: dword
  sparse_usage :: dword
  sparse_unique_id :: dword
  num_va_pages :: nat
  num_backing_pages :: nat
  backing :: "sparse_backing list"
  commitments :: "(nat \<times> nat) option list"

text \<open>
  Requests to the kernel: reserve a range of addresses, map it without memory, map pages of a buffer
  (first page, buffer, first page of the buffer, count), take the memory away again, and clear.
\<close>

datatype va_op =
  Reserve nat | Map_prt nat | Map_pages nat nat nat nat | Unmap_pages nat nat | Clear nat

record 'w winsys_api =
  api_create :: "nat \<Rightarrow> dword \<Rightarrow> dword \<Rightarrow> 'w \<Rightarrow> (nat \<times> nat) option \<times> 'w"
  api_release :: "nat \<Rightarrow> 'w \<Rightarrow> 'w"
  api_malloc :: "'w \<Rightarrow> bool \<times> 'w"
  api_va :: "va_op \<Rightarrow> 'w \<Rightarrow> bool \<times> 'w"
  api_unique_id :: "'w \<Rightarrow> dword \<times> 'w"

definition backing_pages :: "sparse_backing \<Rightarrow> nat" where
  "backing_pages k = backing_size k div RADEON_SPARSE_PAGE_SIZE"

definition find_backing :: "nat \<Rightarrow> amdgpu_bo_sparse \<Rightarrow> sparse_backing option" where
  "find_backing b bo = find (\<lambda>k. backing_bo k = b) (backing bo)"

definition update_backing :: "sparse_backing \<Rightarrow> amdgpu_bo_sparse \<Rightarrow> amdgpu_bo_sparse" where
  "update_backing k bo = bo\<lparr>backing := map (\<lambda>j. if backing_bo j = backing_bo k then k else j) (backing bo)\<rparr>"

section \<open>Taking backing pages\<close>

text \<open>
  The search: \<open>best\<close> is the chunk chosen so far (buffer and index) with its length.
\<close>

definition chunk_pages :: "nat \<times> nat \<Rightarrow> nat" where
  "chunk_pages c = snd c - fst c"

definition better_chunk :: "nat \<Rightarrow> nat \<Rightarrow> nat \<Rightarrow> bool" where
  "better_chunk want best cur \<longleftrightarrow> best < want \<and> best < cur \<or> want < best \<and> cur < best"

fun scan_chunks ::
    "nat \<Rightarrow> nat \<Rightarrow> nat \<Rightarrow> (nat \<times> nat) list \<Rightarrow> (nat \<times> nat) option \<times> nat \<Rightarrow> (nat \<times> nat) option \<times> nat" where
  "scan_chunks want b idx [] best = best"
| "scan_chunks want b idx (c # cs) best =
     scan_chunks want b (Suc idx) cs
       (if better_chunk want (snd best) (chunk_pages c) then (Some (b, idx), chunk_pages c) else best)"

fun scan_backing ::
    "nat \<Rightarrow> sparse_backing list \<Rightarrow> (nat \<times> nat) option \<times> nat \<Rightarrow> (nat \<times> nat) option \<times> nat" where
  "scan_backing want [] best = best"
| "scan_backing want (k # ks) best =
     scan_backing want ks (scan_chunks want (backing_bo k) 0 (chunks k) best)"

definition take_front :: "nat \<Rightarrow> nat \<Rightarrow> (nat \<times> nat) list \<Rightarrow> (nat \<times> nat) list" where
  "take_front idx n cs =
     (let (b, e) = cs ! idx
      in if e \<le> b + n then take idx cs @ drop (idx + 1) cs else cs[idx := (b + n, e)])"

definition take_pages ::
    "nat \<Rightarrow> nat \<Rightarrow> nat \<Rightarrow> nat \<Rightarrow> amdgpu_bo_sparse \<Rightarrow> (nat \<times> nat \<times> nat) option \<times> amdgpu_bo_sparse" where
  "take_pages want b idx best_num bo =
     (case find_backing b bo of
        None \<Rightarrow> (None, bo)
      | Some k \<Rightarrow>
          let n = min want best_num
          in (Some (b, fst (chunks k ! idx), n),
              update_backing (k\<lparr>chunks := take_front idx n (chunks k)\<rparr>) bo))"

definition new_backing_size :: "amdgpu_bo_sparse \<Rightarrow> nat" where
  "new_backing_size bo =
     max (min (min (sparse_size bo div 16) (8 * 1024 * 1024))
              (sparse_size bo - num_backing_pages bo * RADEON_SPARSE_PAGE_SIZE))
         RADEON_SPARSE_PAGE_SIZE"

text \<open>The flags of a backing buffer: not sparse, shared between processes, not suballocated.\<close>

definition backing_flags :: "dword \<Rightarrow> dword" where
  "backing_flags usage = (usage AND NOT FLAG_SPARSE AND NOT FLAG_NO_INTERPROCESS_SHARING) OR FLAG_NO_SUBALLOC"

definition new_backing ::
    "'w winsys_api \<Rightarrow> amdgpu_bo_sparse \<times> 'w \<Rightarrow> ((nat \<times> nat) option \<times> amdgpu_bo_sparse \<times> 'w) option" where
  "new_backing api = (\<lambda>(bo, w).
     let (ok1, w1) = api_malloc api w
     in if \<not> ok1 then Some (None, bo, w1)
        else let (ok2, w2) = api_malloc api w1
        in if \<not> ok2 then Some (None, bo, w2)
        else if \<not> num_backing_pages bo < div_round_up (sparse_size bo) RADEON_SPARSE_PAGE_SIZE then None
        else (case api_create api (new_backing_size bo) (sparse_placement bo) (backing_flags (sparse_usage bo)) w2 of
                (None, w3) \<Rightarrow> Some (None, bo, w3)
              | (Some (b, sz), w3) \<Rightarrow>
                  let pages = sz div RADEON_SPARSE_PAGE_SIZE
                  in Some (Some (b, pages),
                       bo\<lparr>backing := \<lparr>backing_bo = b, backing_size = sz, chunks = [(0, pages)], max_chunks = 4\<rparr> # backing bo,
                          num_backing_pages := num_backing_pages bo + pages\<rparr>, w3)))"

definition sparse_backing_alloc ::
    "'w winsys_api \<Rightarrow> nat \<Rightarrow> amdgpu_bo_sparse \<times> 'w \<Rightarrow> ((nat \<times> nat \<times> nat) option \<times> amdgpu_bo_sparse \<times> 'w) option" where
  "sparse_backing_alloc api want st =
     (case scan_backing want (backing (fst st)) (None, 0) of
        (Some (b, idx), best_num) \<Rightarrow>
          (let (r, bo) = take_pages want b idx best_num (fst st) in Some (r, bo, snd st))
      | (None, _) \<Rightarrow>
          (case new_backing api st of
             None \<Rightarrow> None
           | Some (None, bo, w) \<Rightarrow> Some (None, bo, w)
           | Some (Some (b, pages), bo, w) \<Rightarrow>
               (let (r, bo1) = take_pages want b 0 pages bo in Some (r, bo1, w))))"

section \<open>Giving backing pages back\<close>

definition sparse_free_backing_buffer ::
    "'w winsys_api \<Rightarrow> sparse_backing \<Rightarrow> amdgpu_bo_sparse \<times> 'w \<Rightarrow> amdgpu_bo_sparse \<times> 'w" where
  "sparse_free_backing_buffer api k = (\<lambda>(bo, w).
     (bo\<lparr>num_backing_pages := num_backing_pages bo - backing_pages k,
         backing := filter (\<lambda>j. backing_bo j \<noteq> backing_bo k) (backing bo)\<rparr>,
      api_release api (backing_bo k) w))"

function first_chunk_from :: "(nat \<times> nat) list \<Rightarrow> nat \<Rightarrow> nat \<Rightarrow> nat \<Rightarrow> nat" where
  "first_chunk_from cs start low high =
     (if low < high
      then let mid = low + (high - low) div 2
           in if start \<le> fst (cs ! mid) then first_chunk_from cs start low mid
              else first_chunk_from cs start (mid + 1) high
      else low)"
  by pat_completeness auto

termination
  by (relation "measure (\<lambda>(cs, start, low, high). high - low)") auto

declare first_chunk_from.simps [simp del]

definition joins_prev :: "(nat \<times> nat) list \<Rightarrow> nat \<Rightarrow> nat \<Rightarrow> bool" where
  "joins_prev cs low start \<longleftrightarrow> 0 < low \<and> snd (cs ! (low - 1)) = start"

definition joins_next :: "(nat \<times> nat) list \<Rightarrow> nat \<Rightarrow> nat \<Rightarrow> bool" where
  "joins_next cs low e \<longleftrightarrow> low < length cs \<and> e = fst (cs ! low)"

definition free_asserts :: "(nat \<times> nat) list \<Rightarrow> nat \<Rightarrow> nat \<Rightarrow> nat \<Rightarrow> bool" where
  "free_asserts cs low start e \<longleftrightarrow>
     (length cs \<le> low \<or> e \<le> fst (cs ! low)) \<and> (low = 0 \<or> snd (cs ! (low - 1)) \<le> start)"

definition free_range :: "(nat \<times> nat) list \<Rightarrow> nat \<Rightarrow> nat \<Rightarrow> nat \<Rightarrow> (nat \<times> nat) list" where
  "free_range cs low start e =
     (if joins_prev cs low start then
        (if joins_next cs low e
         then take (low - 1) cs @ [(fst (cs ! (low - 1)), snd (cs ! low))] @ drop (low + 1) cs
         else cs[low - 1 := (fst (cs ! (low - 1)), e)])
      else if joins_next cs low e then cs[low := (start, snd (cs ! low))]
      else take low cs @ [(start, e)] @ drop low cs)"

definition release_if_unused ::
    "'w winsys_api \<Rightarrow> sparse_backing \<Rightarrow> amdgpu_bo_sparse \<times> 'w \<Rightarrow> amdgpu_bo_sparse \<times> 'w" where
  "release_if_unused api k st =
     (if chunks k = [(0, backing_pages k)] then sparse_free_backing_buffer api k st else st)"

definition sparse_backing_free ::
    "'w winsys_api \<Rightarrow> nat \<Rightarrow> nat \<Rightarrow> nat \<Rightarrow> amdgpu_bo_sparse \<times> 'w \<Rightarrow> (bool \<times> amdgpu_bo_sparse \<times> 'w) option" where
  "sparse_backing_free api b start n = (\<lambda>(bo, w).
     case find_backing b bo of
       None \<Rightarrow> None
     | Some k \<Rightarrow>
         let e = start + n;
             low = first_chunk_from (chunks k) start 0 (length (chunks k));
             grow = \<not> joins_prev (chunks k) low start \<and> \<not> joins_next (chunks k) low e \<and>
                    max_chunks k \<le> length (chunks k);
             (ok, w1) = (if grow then api_malloc api w else (True, w));
             k1 = k\<lparr>chunks := free_range (chunks k) low start e,
                    max_chunks := (if grow then 2 * max_chunks k else max_chunks k)\<rparr>
         in if \<not> free_asserts (chunks k) low start e then None
            else if \<not> ok then Some (False, bo, w1)
            else Some (True, release_if_unused api k1 (update_backing k1 bo, w1)))"

section \<open>Creating and destroying\<close>

definition amdgpu_bo_sparse_create ::
    "'w winsys_api \<Rightarrow> bool \<Rightarrow> nat \<Rightarrow> dword \<Rightarrow> dword \<Rightarrow> 'w \<Rightarrow> amdgpu_bo_sparse option \<times> 'w" where
  "amdgpu_bo_sparse_create api check_vm sz domain flags w =
     (if 2147483647 * RADEON_SPARSE_PAGE_SIZE < sz then (None, w)
      else let (ok1, w1) = api_malloc api w
      in if \<not> ok1 then (None, w1)
      else let (uid, w2) = api_unique_id api w1;
               pages = div_round_up sz RADEON_SPARSE_PAGE_SIZE;
               (ok2, w3) = api_malloc api w2
      in if \<not> ok2 then (None, w3)
      else let map_size = pages * RADEON_SPARSE_PAGE_SIZE;
               va_gap_size = (if check_vm then 4 * RADEON_SPARSE_PAGE_SIZE else 0);
               (ok3, w4) = api_va api (Reserve (map_size + va_gap_size)) w3
      in if \<not> ok3 then (None, w4)
      else let (ok4, w5) = api_va api (Map_prt map_size) w4
      in if \<not> ok4 then (None, w5)
      else (Some \<lparr>sparse_size = sz, sparse_placement = domain, sparse_usage = flags, sparse_unique_id = uid,
                  num_va_pages = pages, num_backing_pages = 0, backing = [],
                  commitments = replicate pages None\<rparr>, w5))"

fun free_all_backing :: "'w winsys_api \<Rightarrow> sparse_backing list \<Rightarrow> amdgpu_bo_sparse \<times> 'w \<Rightarrow> amdgpu_bo_sparse \<times> 'w" where
  "free_all_backing api [] st = st"
| "free_all_backing api (k # ks) st = free_all_backing api ks (sparse_free_backing_buffer api k st)"

definition amdgpu_bo_sparse_destroy :: "'w winsys_api \<Rightarrow> amdgpu_bo_sparse \<times> 'w \<Rightarrow> 'w" where
  "amdgpu_bo_sparse_destroy api = (\<lambda>(bo, w).
     let (_, w1) = api_va api (Clear (num_va_pages bo * RADEON_SPARSE_PAGE_SIZE)) w
     in snd (free_all_backing api (backing bo) (bo, w1)))"

section \<open>Committing and uncommitting\<close>

function span_end :: "(nat \<times> nat) option list \<Rightarrow> nat \<Rightarrow> nat \<Rightarrow> nat" where
  "span_end comm end_va va = (if va < end_va \<and> comm ! va = None then span_end comm end_va (va + 1) else va)"
  by pat_completeness auto

termination
  by (relation "measure (\<lambda>(comm, end_va, va). end_va - va)") auto

declare span_end.simps [simp del]

fun set_comm :: "nat \<Rightarrow> nat \<Rightarrow> nat \<Rightarrow> nat \<Rightarrow> (nat \<times> nat) option list \<Rightarrow> (nat \<times> nat) option list" where
  "set_comm va b start 0 comm = comm"
| "set_comm va b start (Suc n) comm = set_comm (va + 1) b (start + 1) n (comm[va := Some (b, start)])"

text \<open>Filling a span of uncommitted pages; \<open>False\<close> is the jump to \<open>out\<close>.\<close>

partial_function (option) fill_span ::
    "'w winsys_api \<Rightarrow> nat \<Rightarrow> nat \<Rightarrow> amdgpu_bo_sparse \<times> 'w \<Rightarrow> (bool \<times> amdgpu_bo_sparse \<times> 'w) option" where
  "fill_span api va_page span st =
     (if va_page \<le> span then Some (True, st)
      else Option.bind (sparse_backing_alloc api (va_page - span) st) (\<lambda>(r, bo, w).
        case r of
          None \<Rightarrow> Some (False, bo, w)
        | Some (b, start, n) \<Rightarrow>
            let (ok, w1) = api_va api (Map_pages span b start n) w
            in if \<not> ok
               then Option.bind (sparse_backing_free api b start n (bo, w1)) (\<lambda>(ok2, bo2, w2).
                      if \<not> ok2 then None else Some (False, bo2, w2))
               else fill_span api va_page (span + n)
                      (bo\<lparr>commitments := set_comm span b start n (commitments bo)\<rparr>, w1)))"

lemma span_end_gt: "va < end_va \<Longrightarrow> comm ! va = None \<Longrightarrow> va < span_end comm end_va va"
proof -
  have ge: "va \<le> span_end comm end_va va" for va
  proof (induction comm end_va va rule: span_end.induct)
    case (1 comm end_va va)
    show ?case
    proof (cases "va < end_va \<and> comm ! va = None")
      case True
      then show ?thesis using 1[OF True] by (subst span_end.simps) simp
    next
      case False
      then show ?thesis unfolding span_end.simps[of comm end_va va] if_not_P[OF False] by simp
    qed
  qed
  show "va < end_va \<Longrightarrow> comm ! va = None \<Longrightarrow> va < span_end comm end_va va"
    using ge[of "va + 1"] by (subst span_end.simps) simp
qed

function commit_loop ::
    "'w winsys_api \<Rightarrow> nat \<Rightarrow> nat \<Rightarrow> amdgpu_bo_sparse \<times> 'w \<Rightarrow> (bool \<times> amdgpu_bo_sparse \<times> 'w) option" where
  "commit_loop api end_va va st =
     (if \<not> va < end_va then Some (True, st)
      else if commitments (fst st) ! va \<noteq> None then commit_loop api end_va (va + 1) st
      else let va_page = span_end (commitments (fst st)) end_va va
           in case fill_span api va_page va st of
                None \<Rightarrow> None
              | Some (False, st1) \<Rightarrow> Some (False, st1)
              | Some (True, st1) \<Rightarrow> commit_loop api end_va va_page st1)"
  by pat_completeness auto

termination
proof (relation "measure (\<lambda>(api, end_va, va, st). end_va - va)", goal_cases)
  case (3 api end_va va st va_page st1 ok b)
  then have n: "commitments (fst st) ! va = None" "va < end_va" by (blast, simp)
  then show ?case using span_end_gt[OF n(2,1)] 3(3) by (simp add: diff_less_mono2)
qed simp_all

declare commit_loop.simps [simp del]

text \<open>The run of pages that lie next to each other in one backing buffer, taken out of the commitments.\<close>

function clear_run ::
    "nat \<Rightarrow> nat \<Rightarrow> nat \<Rightarrow> nat \<Rightarrow> nat \<Rightarrow> (nat \<times> nat) option list \<Rightarrow> nat \<times> nat \<times> (nat \<times> nat) option list" where
  "clear_run end_va b start va n comm =
     (if va < end_va \<and> comm ! va = Some (b, start + n)
      then clear_run end_va b start (va + 1) (n + 1) (comm[va := None])
      else (va, n, comm))"
  by pat_completeness auto

termination
  by (relation "measure (\<lambda>(end_va, b, start, va, n, comm). end_va - va)") auto

declare clear_run.simps [simp del]

lemma clear_run_ge: "clear_run end_va b start va n comm = (va1, n1, comm1) \<Longrightarrow> va \<le> va1"
proof (induction end_va b start va n comm rule: clear_run.induct)
  case (1 end_va b start va n comm)
  from 1(2) show ?case
    using 1(1) by (subst (asm) clear_run.simps) (auto split: if_splits)
qed

function uncommit_loop ::
    "'w winsys_api \<Rightarrow> nat \<Rightarrow> nat \<Rightarrow> bool \<Rightarrow> amdgpu_bo_sparse \<times> 'w \<Rightarrow> (bool \<times> amdgpu_bo_sparse \<times> 'w) option" where
  "uncommit_loop api end_va va ok st =
     (if \<not> va < end_va then Some (ok, st)
      else case commitments (fst st) ! va of
             None \<Rightarrow> uncommit_loop api end_va (va + 1) ok st
           | Some (b, start) \<Rightarrow>
               (let (va1, n, comm) = clear_run end_va b start (va + 1) 1 ((commitments (fst st))[va := None])
                in case sparse_backing_free api b start n ((fst st)\<lparr>commitments := comm\<rparr>, snd st) of
                     None \<Rightarrow> None
                   | Some (freed, st1) \<Rightarrow> uncommit_loop api end_va va1 (ok \<and> freed) st1))"
  by pat_completeness auto

termination
  by (relation "measure (\<lambda>(api, end_va, va, ok, st). end_va - va)")
    (auto dest!: clear_run_ge[OF sym])

declare uncommit_loop.simps [simp del]

definition commit_asserts :: "amdgpu_bo_sparse \<Rightarrow> nat \<Rightarrow> nat \<Rightarrow> bool" where
  "commit_asserts bo offset sz \<longleftrightarrow>
     offset mod RADEON_SPARSE_PAGE_SIZE = 0 \<and> offset \<le> sparse_size bo \<and> sz \<le> sparse_size bo - offset \<and>
     (sz mod RADEON_SPARSE_PAGE_SIZE = 0 \<or> offset + sz = sparse_size bo)"

definition amdgpu_bo_sparse_commit ::
    "'w winsys_api \<Rightarrow> nat \<Rightarrow> nat \<Rightarrow> bool \<Rightarrow> amdgpu_bo_sparse \<times> 'w \<Rightarrow> (bool \<times> amdgpu_bo_sparse \<times> 'w) option" where
  "amdgpu_bo_sparse_commit api offset sz commit = (\<lambda>(bo, w).
     if \<not> commit_asserts bo offset sz then None
     else
       let va = offset div RADEON_SPARSE_PAGE_SIZE;
           end_va = va + div_round_up sz RADEON_SPARSE_PAGE_SIZE
       in if commit then commit_loop api end_va va (bo, w)
          else let (ok, w1) = api_va api (Unmap_pages va (end_va - va)) w
               in if \<not> ok then Some (False, bo, w1)
                  else uncommit_loop api end_va va True (bo, w1))"

section \<open>Free ranges\<close>

definition free_pages :: "(nat \<times> nat) list \<Rightarrow> nat set" where
  "free_pages cs = (\<Union>c\<in>set cs. {fst c..<snd c})"

text \<open>Sorted, not empty, and apart from each other.\<close>

fun chunks_ok :: "nat \<Rightarrow> nat \<Rightarrow> (nat \<times> nat) list \<Rightarrow> bool" where
  "chunks_ok lo hi [] = True"
| "chunks_ok lo hi (c # cs) = (lo \<le> fst c \<and> fst c < snd c \<and> snd c \<le> hi \<and> chunks_ok (Suc (snd c)) hi cs)"

definition chunks_end :: "nat \<Rightarrow> (nat \<times> nat) list \<Rightarrow> nat" where
  "chunks_end lo cs = (if cs = [] then lo else Suc (snd (last cs)))"

lemma free_pages_simps [simp]:
  "free_pages [] = {}" "free_pages (c # cs) = {fst c..<snd c} \<union> free_pages cs"
  "free_pages (cs @ ds) = free_pages cs \<union> free_pages ds"
  by (auto simp: free_pages_def)

lemma chunks_end_simps [simp]:
  "chunks_end lo [] = lo" "chunks_end lo (c # cs) = chunks_end (Suc (snd c)) cs"
  by (simp_all add: chunks_end_def)

lemma chunks_ok_append [simp]:
  "chunks_ok lo hi (cs @ ds) \<longleftrightarrow> chunks_ok lo hi cs \<and> chunks_ok (chunks_end lo cs) hi ds"
  by (induction cs arbitrary: lo) auto

lemma chunks_end_append [simp]: "chunks_end lo (cs @ ds) = chunks_end (chunks_end lo cs) ds"
  by (induction cs arbitrary: lo) auto

lemma chunks_ok_mono: "chunks_ok lo hi cs \<Longrightarrow> lo' \<le> lo \<Longrightarrow> chunks_ok lo' hi cs"
  by (cases cs) auto

lemma chunks_ok_raise: "chunks_ok lo hi cs \<Longrightarrow> (\<forall>c\<in>set cs. lo' \<le> fst c) \<Longrightarrow> chunks_ok lo' hi cs"
  by (cases cs) auto

lemma free_pages_bounds: "chunks_ok lo hi cs \<Longrightarrow> p \<in> free_pages cs \<Longrightarrow> lo \<le> p \<and> p < hi"
  by (induction cs arbitrary: lo) (auto, fastforce)

lemma free_pages_subset: "chunks_ok lo hi cs \<Longrightarrow> free_pages cs \<subseteq> {..<hi}"
  using free_pages_bounds by auto

lemma chunks_end_ge: "chunks_ok lo hi cs \<Longrightarrow> lo \<le> chunks_end lo cs"
  by (induction cs arbitrary: lo) (auto, fastforce)

lemma free_pages_below: "chunks_ok lo hi cs \<Longrightarrow> p \<in> free_pages cs \<Longrightarrow> p < chunks_end lo cs"
proof (induction cs arbitrary: lo)
  case (Cons c cs)
  have "Suc (snd c) \<le> chunks_end (Suc (snd c)) cs" using Cons.prems(1) chunks_end_ge by auto
  then show ?case using Cons by auto
qed simp

lemma chunks_ok_chunk: "chunks_ok lo hi cs \<Longrightarrow> c \<in> set cs \<Longrightarrow> fst c < snd c \<and> snd c \<le> hi"
  by (induction cs arbitrary: lo) auto

lemma chunks_ok_begin: "chunks_ok lo hi cs \<Longrightarrow> c \<in> set cs \<Longrightarrow> lo \<le> fst c"
  by (induction cs arbitrary: lo) (auto, fastforce)

lemma chunks_ok_sorted: "chunks_ok lo hi cs \<Longrightarrow> sorted (map fst cs)"
proof (induction cs arbitrary: lo)
  case (Cons c cs)
  from Cons.prems have "\<forall>d\<in>set cs. fst c \<le> fst d"
    using chunks_ok_begin[of "Suc (snd c)" hi cs] by fastforce
  with Cons show ?case by auto
qed simp

text \<open>The binary search.\<close>

lemma first_chunk_from_spec:
  assumes "sorted (map fst cs)" "low \<le> high" "high \<le> length cs"
    and "\<forall>i<low. fst (cs ! i) < start" "\<forall>i. high \<le> i \<and> i < length cs \<longrightarrow> start \<le> fst (cs ! i)"
  shows "first_chunk_from cs start low high \<le> length cs \<and>
    (\<forall>i < first_chunk_from cs start low high. fst (cs ! i) < start) \<and>
    (\<forall>i. first_chunk_from cs start low high \<le> i \<and> i < length cs \<longrightarrow> start \<le> fst (cs ! i))"
  using assms
proof (induction cs start low high rule: first_chunk_from.induct)
  case (1 cs start low high)
  have srt: "fst (cs ! i) \<le> fst (cs ! j)" if "i \<le> j" "j < length cs" for i j
    using sorted_nth_mono[OF 1(3) that(1)] that by simp
  define mid where "mid = low + (high - low) div 2"
  show ?case
  proof (cases "low < high")
    case True
    then have mid: "low \<le> mid" "mid < high" by (simp_all add: mid_def less_mult_imp_div_less)
    show ?thesis
    proof (cases "start \<le> fst (cs ! mid)")
      case le: True
      have "first_chunk_from cs start low high = first_chunk_from cs start low mid"
        using True le by (subst first_chunk_from.simps) (simp add: mid_def)
      moreover have "\<forall>i. mid \<le> i \<and> i < length cs \<longrightarrow> start \<le> fst (cs ! i)"
        using le srt by (meson le_trans)
      ultimately show ?thesis
        using 1(1)[OF True mid_def le 1(3) mid(1) _ 1(6)] mid(2) 1(5) by auto
    next
      case gt: False
      have "first_chunk_from cs start low high = first_chunk_from cs start (mid + 1) high"
        using True gt by (subst first_chunk_from.simps) (simp add: mid_def)
      moreover have "\<forall>i<mid + 1. fst (cs ! i) < start"
      proof (intro allI impI)
        fix i assume "i < mid + 1"
        then have "fst (cs ! i) \<le> fst (cs ! mid)" using srt[of i mid] mid(2) 1(5) by simp
        then show "fst (cs ! i) < start" using gt by simp
      qed
      ultimately show ?thesis
        using 1(2)[OF True mid_def gt 1(3) _ 1(5) _ 1(7)] mid(2) by auto
    qed
  next
    case False
    then have "first_chunk_from cs start low high = low" by (subst first_chunk_from.simps) simp
    then show ?thesis using False 1(4-7) by simp
  qed
qed

lemma first_chunk_from_split:
  assumes "chunks_ok 0 hi cs" and low: "low = first_chunk_from cs start 0 (length cs)"
  obtains xs ys where "cs = xs @ ys" "low = length xs" "\<forall>c\<in>set xs. fst c < start" "\<forall>c\<in>set ys. start \<le> fst c"
proof
  note s = first_chunk_from_spec[OF chunks_ok_sorted[OF assms(1)], of 0 "length cs" start]
  show "cs = take low cs @ drop low cs" by simp
  show "low = length (take low cs)" using s low by simp
  show "\<forall>c\<in>set (take low cs). fst c < start"
  proof
    fix c assume "c \<in> set (take low cs)"
    then obtain i where "i < low" "i < length cs" "c = cs ! i" by (auto simp: in_set_conv_nth)
    then show "fst c < start" using s low by simp
  qed
  show "\<forall>c\<in>set (drop low cs). start \<le> fst c"
  proof
    fix c assume "c \<in> set (drop low cs)"
    then obtain i where "i < length cs - low" "c = cs ! (low + i)" by (auto simp: in_set_conv_nth)
    then show "start \<le> fst c" using s low by simp
  qed
qed

text \<open>Giving back a range that is not free.\<close>

lemma free_range_append:
  assumes "low = length xs"
  shows "joins_prev (xs @ ys) low start \<longleftrightarrow> xs \<noteq> [] \<and> snd (last xs) = start"
    and "joins_next (xs @ ys) low e \<longleftrightarrow> ys \<noteq> [] \<and> fst (hd ys) = e"
    and "free_asserts (xs @ ys) low start e \<longleftrightarrow> (ys = [] \<or> e \<le> fst (hd ys)) \<and> (xs = [] \<or> snd (last xs) \<le> start)"
  unfolding assms joins_prev_def joins_next_def free_asserts_def
  by (cases xs rule: rev_cases; cases ys; simp add: nth_append eq_commute)+

lemma free_range_cases:
  assumes "low = length xs"
  shows "free_range (xs @ ys) low start e =
    (if xs \<noteq> [] \<and> snd (last xs) = start then
       if ys \<noteq> [] \<and> fst (hd ys) = e then butlast xs @ (fst (last xs), snd (hd ys)) # tl ys
       else butlast xs @ (fst (last xs), e) # ys
     else if ys \<noteq> [] \<and> fst (hd ys) = e then xs @ (start, snd (hd ys)) # tl ys
     else xs @ (start, e) # ys)"
  unfolding free_range_def free_range_append[OF assms] unfolding assms
  by (cases xs rule: rev_cases; cases ys) (auto simp: list_update_append nth_append)

lemma free_range_ok:
  assumes ok: "chunks_ok 0 hi cs" and r: "start < e" "e \<le> hi" "{start..<e} \<inter> free_pages cs = {}"
    and low: "low = first_chunk_from cs start 0 (length cs)"
  shows "free_asserts cs low start e" "chunks_ok 0 hi (free_range cs low start e)"
    "free_pages (free_range cs low start e) = free_pages cs \<union> {start..<e}"
    "length (free_range cs low start e) \<le>
       (if joins_prev cs low start \<or> joins_next cs low e then length cs else Suc (length cs))"
    "c \<in> set cs \<Longrightarrow> fst c = e \<Longrightarrow> joins_next cs low e"
proof -
  obtain xs ys where s: "cs = xs @ ys" "low = length xs" "\<forall>c\<in>set xs. fst c < start" "\<forall>c\<in>set ys. start \<le> fst c"
    using first_chunk_from_split[OF ok low] by metis
  have sx: "snd c \<le> start" if "c \<in> set xs" for c
  proof (rule ccontr)
    assume "\<not> snd c \<le> start"
    then have "start \<in> {fst c..<snd c}" using s(3) that by auto
    moreover have "{fst c..<snd c} \<subseteq> free_pages cs" using that s(1) by (auto simp: free_pages_def)
    ultimately show False using r by fastforce
  qed
  have sy: "e \<le> fst c" if "c \<in> set ys" for c
  proof (rule ccontr)
    assume "\<not> e \<le> fst c"
    then have "fst c \<in> {start..<e}" using s(4) that by auto
    moreover have "fst c \<in> free_pages cs"
      using that s(1) chunks_ok_chunk[OF ok, of c] by (fastforce simp: free_pages_def)
    ultimately show False using r by auto
  qed
  show a: "free_asserts cs low start e"
    unfolding s(1) free_range_append[OF s(2)] using sx[of "last xs"] sy[of "hd ys"] by (metis last_in_set hd_in_set)
  show "c \<in> set cs \<Longrightarrow> fst c = e \<Longrightarrow> joins_next cs low e"
  proof -
    assume c: "c \<in> set cs" "fst c = e"
    then have "c \<in> set ys" using s(1,3) r(1) by auto
    then obtain d ds where ys: "ys = d # ds" by (cases ys) auto
    have "sorted (map fst ys)" using chunks_ok_sorted[OF ok] s(1) by (simp add: sorted_append)
    then have "fst d \<le> e" using c \<open>c \<in> set ys\<close> ys by auto
    then show ?thesis unfolding s(1) free_range_append[OF s(2)] using sy ys by fastforce
  qed
  have okx: "chunks_ok 0 hi xs" and oky: "chunks_ok (chunks_end 0 xs) hi ys" using ok s(1) by simp_all
  have lx: "xs \<noteq> [] \<Longrightarrow> snd (last xs) \<le> start" and hy: "ys \<noteq> [] \<Longrightarrow> e \<le> fst (hd ys)"
    using sx[of "last xs"] sy[of "hd ys"] by simp_all
  show "chunks_ok 0 hi (free_range cs low start e)"
    unfolding s(1) free_range_cases[OF s(2)]
    using okx oky lx hy r(1,2)
    by (cases xs rule: rev_cases; cases ys) (auto intro: chunks_ok_mono)
  show "free_pages (free_range cs low start e) = free_pages cs \<union> {start..<e}"
    unfolding s(1) free_range_cases[OF s(2)]
    using okx oky sx sy r
    by (cases xs rule: rev_cases; cases ys) auto
  show "length (free_range cs low start e) \<le>
       (if joins_prev cs low start \<or> joins_next cs low e then length cs else Suc (length cs))"
    unfolding s(1) free_range_cases[OF s(2)] free_range_append[OF s(2)]
    by (cases xs rule: rev_cases; cases ys) auto
qed

text \<open>Taking pages from the front of a chunk.\<close>

lemma take_front_split:
  "cs = xs @ (b, e) # ys \<Longrightarrow> take_front (length xs) n cs = xs @ (if e \<le> b + n then [] else [(b + n, e)]) @ ys"
  by (simp add: take_front_def)

lemma take_front_ok:
  assumes ok: "chunks_ok lo hi cs" and i: "idx < length cs" and n: "0 < n" "n \<le> chunk_pages (cs ! idx)"
  defines "b \<equiv> fst (cs ! idx)"
  shows "chunks_ok lo hi (take_front idx n cs)"
    "free_pages (take_front idx n cs) = free_pages cs - {b..<b + n}" "{b..<b + n} \<subseteq> free_pages cs"
    "length (take_front idx n cs) < length cs \<or> length (take_front idx n cs) = length cs \<and> (\<exists>c\<in>set (take_front idx n cs). fst c = b + n)"
    "b + n \<le> hi"
proof -
  obtain xs e ys where s: "cs = xs @ (b, e) # ys" "idx = length xs"
    using id_take_nth_drop[OF i] i by (metis b_def length_take min.absorb4 prod.collapse)
  have c: "b < e" "b + n \<le> e" "e \<le> hi" using ok n unfolding s by (auto simp: chunk_pages_def)
  note t = take_front_split[OF s(1), of n, folded s(2)]
  have okx: "chunks_ok lo hi xs" and b: "chunks_end lo xs \<le> b" and oky: "chunks_ok (Suc e) hi ys" using ok s(1) by simp_all
  have dx: "free_pages xs \<inter> {b..<b + n} = {}" using free_pages_below[OF okx] b by fastforce
  have dy: "free_pages ys \<inter> {b..<b + n} = {}" using free_pages_bounds[OF oky] c by fastforce
  show "chunks_ok lo hi (take_front idx n cs)"
    unfolding t using ok s(1) c by (auto intro: chunks_ok_mono[OF oky])
  show "{b..<b + n} \<subseteq> free_pages cs" unfolding s(1) using c by auto
  show "free_pages (take_front idx n cs) = free_pages cs - {b..<b + n}"
    unfolding t using dx dy c by (auto simp: s(1))
  show "length (take_front idx n cs) < length cs \<or> length (take_front idx n cs) = length cs \<and> (\<exists>c\<in>set (take_front idx n cs). fst c = b + n)"
    unfolding t using s(1) by auto
  show "b + n \<le> hi" using c by simp
qed

section \<open>Where each backing page is\<close>

definition committed :: "amdgpu_bo_sparse \<Rightarrow> (nat \<times> nat) set" where
  "committed bo = {x. Some x \<in> set (commitments bo)}"

definition free_set :: "amdgpu_bo_sparse \<Rightarrow> (nat \<times> nat) set" where
  "free_set bo = (\<Union>k\<in>set (backing bo). {backing_bo k} \<times> free_pages (chunks k))"

definition all_set :: "amdgpu_bo_sparse \<Rightarrow> (nat \<times> nat) set" where
  "all_set bo = (\<Union>k\<in>set (backing bo). {backing_bo k} \<times> {..<backing_pages k})"

definition comm_inj :: "(nat \<times> nat) option list \<Rightarrow> bool" where
  "comm_inj comm \<longleftrightarrow> (\<forall>v w x. v < length comm \<and> w < length comm \<and> comm ! v = Some x \<and> comm ! w = Some x \<longrightarrow> v = w)"

definition backing_wf :: "sparse_backing \<Rightarrow> bool" where
  "backing_wf k \<longleftrightarrow> chunks_ok 0 (backing_pages k) (chunks k) \<and> length (chunks k) \<le> max_chunks k \<and>
     0 < max_chunks k \<and> 0 < backing_pages k"

definition unused :: "sparse_backing \<Rightarrow> bool" where
  "unused k \<longleftrightarrow> chunks k = [(0, backing_pages k)]"

text \<open>
  \<open>X\<close> are the pages on their way between a chunk and the commitments. Every page belongs to at most one
  of the free chunks, the commitments and \<open>X\<close>; with \<open>no_leak\<close> it belongs to one of them.
\<close>

definition sparse_wf :: "amdgpu_bo_sparse \<Rightarrow> (nat \<times> nat) set \<Rightarrow> bool" where
  "sparse_wf bo X \<longleftrightarrow>
     length (commitments bo) = num_va_pages bo \<and>
     num_va_pages bo = div_round_up (sparse_size bo) RADEON_SPARSE_PAGE_SIZE \<and>
     distinct (map backing_bo (backing bo)) \<and> (\<forall>k\<in>set (backing bo). backing_wf k) \<and>
     num_backing_pages bo = sum_list (map backing_pages (backing bo)) \<and> comm_inj (commitments bo) \<and>
     (committed bo \<union> X) \<inter> free_set bo = {} \<and> committed bo \<union> X \<subseteq> all_set bo \<and> committed bo \<inter> X = {}"

definition none_unused :: "amdgpu_bo_sparse \<Rightarrow> bool" where
  "none_unused bo \<longleftrightarrow> (\<forall>k\<in>set (backing bo). \<not> unused k)"

definition no_leak :: "amdgpu_bo_sparse \<Rightarrow> (nat \<times> nat) set \<Rightarrow> bool" where
  "no_leak bo X \<longleftrightarrow> all_set bo \<subseteq> free_set bo \<union> committed bo \<union> X"

definition shape :: "amdgpu_bo_sparse \<Rightarrow> nat \<times> dword \<times> dword \<times> nat" where
  "shape bo = (sparse_size bo, sparse_placement bo, sparse_usage bo, num_va_pages bo)"

definition handles :: "amdgpu_bo_sparse \<Rightarrow> nat set" where
  "handles bo = backing_bo ` set (backing bo)"

lemma sparse_wfD:
  assumes "sparse_wf bo X"
  shows "length (commitments bo) = num_va_pages bo" "distinct (map backing_bo (backing bo))"
    "k \<in> set (backing bo) \<Longrightarrow> backing_wf k" "num_backing_pages bo = sum_list (map backing_pages (backing bo))"
    "comm_inj (commitments bo)" "(committed bo \<union> X) \<inter> free_set bo = {}" "committed bo \<union> X \<subseteq> all_set bo"
    "committed bo \<inter> X = {}" "num_va_pages bo = div_round_up (sparse_size bo) RADEON_SPARSE_PAGE_SIZE"
  using assms unfolding sparse_wf_def by blast+

lemma find_backing_in:
  assumes "distinct (map backing_bo (backing bo))" "k \<in> set (backing bo)"
  shows "find_backing (backing_bo k) bo = Some k"
proof -
  have "find (\<lambda>j. backing_bo j = backing_bo k) ks = Some k" if "distinct (map backing_bo ks)" "k \<in> set ks" for ks
    using that by (induction ks) force+
  then show ?thesis using assms by (simp add: find_backing_def)
qed

lemma find_backing_SomeD: "find_backing b bo = Some k \<Longrightarrow> k \<in> set (backing bo) \<and> backing_bo k = b"
  by (auto simp: find_backing_def find_Some_iff)

lemma same_backing:
  "distinct (map backing_bo ks) \<Longrightarrow> j \<in> set ks \<Longrightarrow> k \<in> set ks \<Longrightarrow> backing_bo j = backing_bo k \<Longrightarrow> j = k"
  by (auto simp: distinct_map inj_on_def)

lemma update_backing_fields [simp]:
  "commitments (update_backing k bo) = commitments bo" "num_va_pages (update_backing k bo) = num_va_pages bo"
  "num_backing_pages (update_backing k bo) = num_backing_pages bo" "sparse_size (update_backing k bo) = sparse_size bo"
  "shape (update_backing k bo) = shape bo" "committed (update_backing k bo) = committed bo"
  by (simp_all add: update_backing_def shape_def committed_def)

lemma update_backing_set:
  assumes d: "distinct (map backing_bo (backing bo))" and k: "k \<in> set (backing bo)"
    and k1: "backing_bo k1 = backing_bo k" "backing_size k1 = backing_size k"
  shows "set (backing (update_backing k1 bo)) = insert k1 (set (backing bo) - {k})"
    "map backing_bo (backing (update_backing k1 bo)) = map backing_bo (backing bo)"
    "map backing_pages (backing (update_backing k1 bo)) = map backing_pages (backing bo)"
proof -
  note s = same_backing[OF d]
  show "set (backing (update_backing k1 bo)) = insert k1 (set (backing bo) - {k})"
    using s k k1 by (auto simp: update_backing_def)
  show "map backing_bo (backing (update_backing k1 bo)) = map backing_bo (backing bo)"
    by (simp add: update_backing_def)
  show "map backing_pages (backing (update_backing k1 bo)) = map backing_pages (backing bo)"
    using s[OF _ k] k1 by (auto simp: update_backing_def backing_pages_def)
qed

lemma union_replace: "R \<inter> A = {} \<Longrightarrow> B \<union> R = (A \<union> R) - A \<union> B"
  by blast

lemma swap_union:
  assumes "k \<in> S" "\<And>j. j \<in> S - {k} \<Longrightarrow> f j \<noteq> f k" "f k1 = f k"
  shows "(\<Union>j\<in>insert k1 (S - {k}). {f j} \<times> F j) = (\<Union>j\<in>S. {f j} \<times> F j) - {f k} \<times> F k \<union> {f k} \<times> F k1"
proof -
  let ?R = "\<Union>j\<in>S - {k}. {f j} \<times> F j"
  have d: "?R \<inter> {f k} \<times> F k = {}" using assms(2) by (auto, metis)
  have a: "(\<Union>j\<in>S. {f j} \<times> F j) = {f k} \<times> F k \<union> ?R" using assms(1) by blast
  have b: "(\<Union>j\<in>insert k1 (S - {k}). {f j} \<times> F j) = {f k} \<times> F k1 \<union> ?R" using assms(3) by auto
  show ?thesis unfolding a b by (rule union_replace[OF d])
qed

lemma times_diff: "{b} \<times> P \<subseteq> F \<Longrightarrow> F - {b} \<times> P \<union> {b} \<times> (P - Q) = F - {b} \<times> (P \<inter> Q)"
  by auto

lemma update_backing_pages:
  assumes d: "distinct (map backing_bo (backing bo))" and k: "k \<in> set (backing bo)"
    and k1: "backing_bo k1 = backing_bo k" "backing_size k1 = backing_size k"
  shows "all_set (update_backing k1 bo) = all_set bo"
    "free_set (update_backing k1 bo) =
       free_set bo - {backing_bo k} \<times> free_pages (chunks k) \<union> {backing_bo k} \<times> free_pages (chunks k1)"
    "handles (update_backing k1 bo) = handles bo"
proof -
  note u = update_backing_set[OF assms]
  have p: "backing_pages k1 = backing_pages k" using k1 by (simp add: backing_pages_def)
  have other: "j \<in> set (backing bo) - {k} \<Longrightarrow> backing_bo j \<noteq> backing_bo k" for j using same_backing[OF d _ k] by blast
  have s: "set (backing bo) = insert k (set (backing bo) - {k})" using k by blast
  show "all_set (update_backing k1 bo) = all_set bo"
    unfolding all_set_def u(1) by (subst (2) s) (auto simp: p k1)
  show "free_set (update_backing k1 bo) =
       free_set bo - {backing_bo k} \<times> free_pages (chunks k) \<union> {backing_bo k} \<times> free_pages (chunks k1)"
    unfolding free_set_def u(1) by (rule swap_union[OF k other k1(1)])
  show "handles (update_backing k1 bo) = handles bo"
    unfolding handles_def using arg_cong[OF u(2), of set] by simp
qed

lemma free_set_subset: "sparse_wf bo X \<Longrightarrow> free_set bo \<subseteq> all_set bo"
  using free_pages_subset unfolding sparse_wf_def free_set_def all_set_def backing_wf_def by fast

lemma free_set_at:
  assumes "distinct (map backing_bo (backing bo))" "k \<in> set (backing bo)"
  shows "(backing_bo k, p) \<in> free_set bo \<longleftrightarrow> p \<in> free_pages (chunks k)"
    "(backing_bo k, p) \<in> all_set bo \<longleftrightarrow> p < backing_pages k"
  using same_backing[OF assms(1) _ assms(2)] assms(2) by (auto simp: free_set_def all_set_def)

lemma update_backing_wf:
  assumes wf: "sparse_wf bo X" and k: "k \<in> set (backing bo)"
    and k1: "backing_bo k1 = backing_bo k" "backing_size k1 = backing_size k" "backing_wf k1"
    and Y: "(committed bo \<union> Y) \<inter> free_set (update_backing k1 bo) = {}" "Y \<subseteq> all_set bo" "committed bo \<inter> Y = {}"
  shows "sparse_wf (update_backing k1 bo) Y"
proof -
  note d = sparse_wfD[OF wf]
  note u = update_backing_set[OF d(2) k k1(1,2)] update_backing_pages[OF d(2) k k1(1,2)]
  have "\<forall>j\<in>set (backing (update_backing k1 bo)). backing_wf j" using d(3) k1(3) u(1) by auto
  then show ?thesis
    using d(1,2,4,5,7,9) Y unfolding sparse_wf_def u(2,3,4) update_backing_fields by blast
qed

subsection \<open>Taking pages\<close>

lemma take_pages_ok:
  assumes wf: "sparse_wf bo {}" and k: "k \<in> set (backing bo)" and u: "\<forall>j\<in>set (backing bo) - {k}. \<not> unused j"
    and i: "idx < length (chunks k)" "m = chunk_pages (chunks k ! idx)" and want: "0 < want"
    and t: "take_pages want (backing_bo k) idx m bo = (r, bo1)"
  obtains start n where "r = Some (backing_bo k, start, n)" "0 < n" "n \<le> want"
    "sparse_wf bo1 ({backing_bo k} \<times> {start..<start + n})" "none_unused bo1"
    "no_leak bo {} \<Longrightarrow> no_leak bo1 ({backing_bo k} \<times> {start..<start + n})"
    "shape bo1 = shape bo" "commitments bo1 = commitments bo" "handles bo1 = handles bo"
    "find_backing (backing_bo k) bo1 \<noteq> None"
    "\<And>j. find_backing (backing_bo k) bo1 = Some j \<Longrightarrow>
       length (chunks j) < max_chunks j \<or> (\<exists>c\<in>set (chunks j). fst c = start + n)"
proof -
  note d = sparse_wfD[OF wf]
  have kwf: "backing_wf k" using d(3) k .
  have kok: "chunks_ok 0 (backing_pages k) (chunks k)" using kwf by (simp add: backing_wf_def)
  define n where "n = min want m"
  define start where "start = fst (chunks k ! idx)"
  define k1 where "k1 = k\<lparr>chunks := take_front idx n (chunks k)\<rparr>"
  have m: "0 < m" using chunks_ok_chunk[OF kok nth_mem[OF i(1)]] i(2) by (simp add: chunk_pages_def)
  have n: "0 < n" "n \<le> chunk_pages (chunks k ! idx)" "n \<le> want" using m want i(2) by (auto simp: n_def)
  note tf = take_front_ok[OF kok i(1) n(1,2), folded start_def]
  have k1s: "backing_bo k1 = backing_bo k" "backing_size k1 = backing_size k" "chunks k1 = take_front idx n (chunks k)"
    "backing_pages k1 = backing_pages k" "max_chunks k1 = max_chunks k"
    by (simp_all add: k1_def backing_pages_def)
  have e: "r = Some (backing_bo k, start, n)" "bo1 = update_backing k1 bo"
    using t find_backing_in[OF d(2) k] by (auto simp: take_pages_def Let_def k1_def n_def start_def)
  have k1wf: "backing_wf k1" using kwf tf(1,4) unfolding backing_wf_def k1s by auto
  note u' = update_backing_set[OF d(2) k k1s(1,2)] update_backing_pages[OF d(2) k k1s(1,2)]
  let ?X = "{backing_bo k} \<times> {start..<start + n}"
  have sub: "?X \<subseteq> free_set bo" using tf(3) free_set_at(1)[OF d(2) k] by auto
  have "{backing_bo k} \<times> free_pages (chunks k) \<subseteq> free_set bo" using free_set_at(1)[OF d(2) k] by auto
  then have fs: "free_set bo1 = free_set bo - ?X"
    unfolding e(2) u'(5) k1s(3) tf(2) using times_diff tf(3) by (metis Int_absorb1)
  have "sparse_wf bo1 ?X"
    unfolding e(2)
  proof (rule update_backing_wf[OF wf k k1s(1,2) k1wf])
    show "(committed bo \<union> ?X) \<inter> free_set (update_backing k1 bo) = {}"
      using d(6) fs unfolding e(2) by blast
    show "?X \<subseteq> all_set bo" using sub free_set_subset[OF wf] by blast
    show "committed bo \<inter> ?X = {}" using sub d(6) by blast
  qed
  moreover have "none_unused bo1"
  proof -
    have "start \<in> {start..<start + n}" using n(1) by simp
    then have "start \<notin> free_pages (chunks k1)" "start < backing_pages k"
      using tf(2,5) n(1) by (auto simp: k1s(3))
    then have "\<not> unused k1" using k1s(4) by (auto simp: unused_def)
    then show ?thesis using u unfolding none_unused_def e(2) u'(1) by blast
  qed
  moreover have "no_leak bo1 ?X" if "no_leak bo {}"
    using that fs u'(4) unfolding no_leak_def e(2) by auto
  moreover have "find_backing (backing_bo k) bo1 = Some k1"
  proof -
    have "k1 \<in> set (backing bo1)" using u'(1) e(2) by simp
    moreover have "distinct (map backing_bo (backing bo1))" using u'(2) d(2) e(2) by simp
    ultimately show ?thesis using find_backing_in k1s(1) by metis
  qed
  moreover have "length (chunks k1) < max_chunks k1 \<or> (\<exists>c\<in>set (chunks k1). fst c = start + n)"
    using tf(4) kwf unfolding k1s backing_wf_def by linarith
  ultimately show thesis using that[OF e(1) n(1,3)] u'(6) unfolding e(2) by simp
qed

subsection \<open>Searching\<close>

definition good_choice :: "sparse_backing list \<Rightarrow> (nat \<times> nat) option \<times> nat \<Rightarrow> bool" where
  "good_choice ks best \<longleftrightarrow>
     (case best of (None, m) \<Rightarrow> m = 0
      | (Some (b, idx), m) \<Rightarrow> 0 < m \<and> (\<exists>k\<in>set ks. backing_bo k = b \<and> idx < length (chunks k) \<and>
          m = chunk_pages (chunks k ! idx)))"

lemma scan_chunks_good:
  assumes "good_choice ks best" "k \<in> set ks" "chunks k = cs0 @ cs" "idx = length cs0" "\<forall>c\<in>set cs. 0 < chunk_pages c" "0 < want"
  shows "good_choice ks (scan_chunks want (backing_bo k) idx cs best) \<and>
    (fst (scan_chunks want (backing_bo k) idx cs best) = None \<longrightarrow> cs = [] \<and> fst best = None)"
  using assms(1,3-5)
proof (induction cs arbitrary: idx best cs0)
  case (Cons c cs)
  define best1 where "best1 = (if better_chunk want (snd best) (chunk_pages c) then (Some (backing_bo k, idx), chunk_pages c) else best)"
  have at: "chunks k ! idx = c" "idx < length (chunks k)" using Cons.prems(2,3) by simp_all
  have g: "good_choice ks best1"
    unfolding best1_def using Cons.prems(1,4) at assms(2) by (auto simp: good_choice_def split: if_splits)
  have "fst best1 \<noteq> None"
  proof (cases "fst best")
    case None
    then have "snd best = 0" using Cons.prems(1) by (cases best) (auto simp: good_choice_def)
    then show ?thesis using Cons.prems(4) assms(6) by (simp add: better_chunk_def best1_def)
  qed (simp add: best1_def)
  moreover have "chunks k = (cs0 @ [c]) @ cs" "Suc idx = length (cs0 @ [c])" "\<forall>c\<in>set cs. 0 < chunk_pages c"
    using Cons.prems(2-4) by simp_all
  ultimately show ?case
    using Cons.IH[OF g, of "cs0 @ [c]" "Suc idx"] unfolding scan_chunks.simps best1_def[symmetric] by fastforce
qed simp

lemma scan_backing_good:
  assumes "good_choice ks0 best" "set ks \<subseteq> set ks0" "\<forall>k\<in>set ks. backing_wf k" "0 < want"
  shows "good_choice ks0 (scan_backing want ks best) \<and>
    (fst (scan_backing want ks best) = None \<longrightarrow> fst best = None \<and> (\<forall>k\<in>set ks. chunks k = []))"
  using assms(1-3)
proof (induction ks arbitrary: best)
  case (Cons k ks)
  have pos: "\<forall>c\<in>set (chunks k). 0 < chunk_pages c"
    using Cons.prems(3) chunks_ok_chunk by (fastforce simp: backing_wf_def chunk_pages_def)
  from scan_chunks_good[OF Cons.prems(1), of k "[]" "chunks k" 0 want] pos assms(4) Cons.prems(2)
  have s: "good_choice ks0 (scan_chunks want (backing_bo k) 0 (chunks k) best)"
    "fst (scan_chunks want (backing_bo k) 0 (chunks k) best) = None \<longrightarrow> chunks k = [] \<and> fst best = None"
    by simp_all
  then show ?case using Cons.IH[OF s(1)] Cons.prems(2,3) by auto
qed simp

subsection \<open>Counting\<close>

lemma card_all_set: "distinct (map backing_bo (backing bo)) \<Longrightarrow> card (all_set bo) = sum_list (map backing_pages (backing bo))"
proof -
  have "card (\<Union>k\<in>set ks. {backing_bo k} \<times> {..<backing_pages k}) = sum_list (map backing_pages ks)"
    if "distinct (map backing_bo ks)" for ks
    using that
  proof (induction ks)
    case (Cons k ks)
    have "({backing_bo k} \<times> {..<backing_pages k}) \<inter> (\<Union>k\<in>set ks. {backing_bo k} \<times> {..<backing_pages k}) = {}"
      using Cons.prems by auto
    then show ?case using Cons by (simp add: card_Un_disjoint card_cartesian_product)
  qed simp
  then show "distinct (map backing_bo (backing bo)) \<Longrightarrow> ?thesis" by (simp add: all_set_def)
qed

lemma card_committed_le: "card (committed bo) + card {v. v < length (commitments bo) \<and> commitments bo ! v = None} \<le> length (commitments bo)"
proof -
  let ?S = "{v. v < length (commitments bo) \<and> commitments bo ! v \<noteq> None}"
  let ?N = "{v. v < length (commitments bo) \<and> commitments bo ! v = None}"
  have "committed bo \<subseteq> (\<lambda>v. the (commitments bo ! v)) ` ?S"
    unfolding committed_def by (auto simp: in_set_conv_nth) (metis (mono_tags, lifting) image_eqI mem_Collect_eq option.distinct(1) option.sel)
  then have "card (committed bo) \<le> card ?S" by (rule surj_card_le[rotated]) simp
  moreover have "card ?S + card ?N = card {..<length (commitments bo)}"
  proof -
    have "{..<length (commitments bo)} = ?S \<union> ?N" by auto
    moreover have "?S \<inter> ?N = {}" by auto
    ultimately show ?thesis by (simp add: card_Un_disjoint)
  qed
  ultimately show ?thesis by simp
qed

lemma backing_below:
  assumes wf: "sparse_wf bo {}" and nl: "no_leak bo {}" and f: "free_set bo = {}"
    and v: "v < num_va_pages bo" "commitments bo ! v = None"
  shows "num_backing_pages bo < num_va_pages bo"
proof -
  note d = sparse_wfD[OF wf]
  have "all_set bo \<subseteq> committed bo" using nl f by (simp add: no_leak_def)
  moreover have fin: "finite (committed bo)"
  proof -
    have "committed bo = (\<Union>c\<in>set (commitments bo). set_option c)" by (auto simp: committed_def elem_set)
    then show ?thesis by simp
  qed
  ultimately have "num_backing_pages bo \<le> card (committed bo)"
    using d(4) card_all_set[OF d(2)] card_mono by metis
  moreover have "0 < card {v. v < length (commitments bo) \<and> commitments bo ! v = None}"
    using v d(1) by (auto simp: card_gt_0_iff)
  ultimately show ?thesis using card_committed_le[of bo] d(1) by simp
qed

subsection \<open>Giving pages back\<close>

lemma sum_list_filter_out:
  "distinct (map f ks) \<Longrightarrow> k \<in> set ks \<Longrightarrow>
   sum_list (map g (filter (\<lambda>j. f j \<noteq> f k) ks)) = sum_list (map g ks) - (g k :: nat)"
proof (induction ks)
  case (Cons j ks)
  show ?case
  proof (cases "j = k")
    case True
    then have "filter (\<lambda>j. f j \<noteq> f k) ks = ks" using Cons.prems(1) by (intro filter_True) (auto, metis image_eqI)
    then show ?thesis using True by simp
  next
    case False
    then have k: "k \<in> set ks" "f j \<noteq> f k" using Cons.prems by auto
    have "g k \<le> sum_list (map g ks)" using k(1) by (simp add: member_le_sum_list)
    then show ?thesis using Cons.IH[OF _ k(1)] Cons.prems(1) k(2) by simp
  qed
qed simp

lemma drop_block:
  "(C \<union> {}) \<inter> F = {} \<Longrightarrow> C \<union> {} \<subseteq> A \<Longrightarrow> F = K \<union> F1 \<Longrightarrow> A = K \<union> A1 \<Longrightarrow> (C \<union> {}) \<inter> F1 = {} \<and> C \<union> {} \<subseteq> A1"
  "A \<subseteq> F \<union> C \<union> {} \<Longrightarrow> F = K \<union> F1 \<Longrightarrow> A = K \<union> A1 \<Longrightarrow> K \<inter> A1 = {} \<Longrightarrow> A1 \<subseteq> F1 \<union> C \<union> {}"
  by blast+

lemma free_backing_ok:
  assumes wf: "sparse_wf bo {}" and k: "k \<in> set (backing bo)" "unused k" and u: "\<forall>j\<in>set (backing bo) - {k}. \<not> unused j"
    and r: "sparse_free_backing_buffer api k (bo, w) = (bo1, w1)"
  shows "sparse_wf bo1 {}" "none_unused bo1" "no_leak bo {} \<Longrightarrow> no_leak bo1 {}" "shape bo1 = shape bo"
    "commitments bo1 = commitments bo" "handles bo1 = handles bo - {backing_bo k}" "w1 = api_release api (backing_bo k) w"
    "num_backing_pages bo1 \<le> num_backing_pages bo"
proof -
  note d = sparse_wfD[OF wf]
  have e: "bo1 = bo\<lparr>num_backing_pages := num_backing_pages bo - backing_pages k,
       backing := filter (\<lambda>j. backing_bo j \<noteq> backing_bo k) (backing bo)\<rparr>"
    and w1: "w1 = api_release api (backing_bo k) w"
    using r by (auto simp: sparse_free_backing_buffer_def)
  show "w1 = api_release api (backing_bo k) w" by (fact w1)
  show "num_backing_pages bo1 \<le> num_backing_pages bo" by (simp add: e)
  have s: "set (backing bo1) = set (backing bo) - {k}"
    using same_backing[OF d(2) _ k(1)] by (auto simp: e)
  have f: "commitments bo1 = commitments bo" "shape bo1 = shape bo" "committed bo1 = committed bo"
    "num_va_pages bo1 = num_va_pages bo" "sparse_size bo1 = sparse_size bo"
    by (simp_all add: e shape_def committed_def)
  show "shape bo1 = shape bo" "commitments bo1 = commitments bo" by (fact f(2), fact f(1))
  show "none_unused bo1" using u s by (simp add: none_unused_def)
  show "handles bo1 = handles bo - {backing_bo k}" using same_backing[OF d(2) _ k(1)] by (auto simp: handles_def e)
  let ?K = "{backing_bo k} \<times> {..<backing_pages k}"
  have fk: "free_pages (chunks k) = {..<backing_pages k}" using k(2) by (auto simp: unused_def)
  have other: "\<And>j. j \<in> set (backing bo) - {k} \<Longrightarrow> backing_bo j \<noteq> backing_bo k"
    using same_backing[OF d(2) _ k(1)] by blast
  have split: "(\<Union>j\<in>set (backing bo). {backing_bo j} \<times> F j) = {backing_bo k} \<times> F k \<union> (\<Union>j\<in>set (backing bo1). {backing_bo j} \<times> F j)"
    for F :: "sparse_backing \<Rightarrow> nat set" using k(1) s by blast
  have a: "all_set bo = ?K \<union> all_set bo1" unfolding all_set_def by (rule split)
  have fr: "free_set bo = ?K \<union> free_set bo1" unfolding free_set_def split fk by (rule refl)
  have dj: "?K \<inter> all_set bo1 = {}" unfolding all_set_def s using other by (auto, metis)
  show "sparse_wf bo1 {}"
    unfolding sparse_wf_def
  proof (intro conjI)
    show "length (commitments bo1) = num_va_pages bo1" using f d(1) by simp
    show "num_va_pages bo1 = div_round_up (sparse_size bo1) RADEON_SPARSE_PAGE_SIZE" using f d(9) by simp
    show "distinct (map backing_bo (backing bo1))" using d(2) by (simp add: e distinct_map_filter)
    show "\<forall>k\<in>set (backing bo1). backing_wf k" using d(3) s by simp
    show "num_backing_pages bo1 = sum_list (map backing_pages (backing bo1))"
      using sum_list_filter_out[OF d(2) k(1), of backing_pages] d(4) by (simp add: e)
    show "comm_inj (commitments bo1)" using d(5) f by simp
    show "(committed bo1 \<union> {}) \<inter> free_set bo1 = {}" "committed bo1 \<union> {} \<subseteq> all_set bo1"
      using drop_block(1)[OF d(6,7) fr a] unfolding f(3) by (rule conjunct1, rule conjunct2)
    show "committed bo1 \<inter> {} = {}" by simp
  qed
  show "no_leak bo {} \<Longrightarrow> no_leak bo1 {}" using drop_block(2)[OF _ fr a dj] unfolding no_leak_def f(3) .
qed

lemma times_union: "F - {b} \<times> P \<union> {b} \<times> (P \<union> Q) = F \<union> {b} \<times> P \<union> {b} \<times> Q"
  by blast

definition has_room :: "nat \<Rightarrow> nat \<Rightarrow> amdgpu_bo_sparse \<Rightarrow> bool" where
  "has_room b e bo \<longleftrightarrow> (\<forall>k. find_backing b bo = Some k \<longrightarrow>
     length (chunks k) < max_chunks k \<or> (\<exists>c\<in>set (chunks k). fst c = e))"

text \<open>The effect on one backing buffer, before it is released when unused.\<close>

lemma free_into_backing:
  assumes wf: "sparse_wf bo ({b} \<times> {start..<start + n})" and nu: "none_unused bo" and n: "0 < n"
  obtains k low k1 where "find_backing b bo = Some k" "k \<in> set (backing bo)" "backing_bo k = b"
    "low = first_chunk_from (chunks k) start 0 (length (chunks k))" "free_asserts (chunks k) low start (start + n)"
    "has_room b (start + n) bo \<Longrightarrow> \<not> (\<not> joins_prev (chunks k) low start \<and> \<not> joins_next (chunks k) low (start + n) \<and> max_chunks k \<le> length (chunks k))"
    "k1 = k\<lparr>chunks := free_range (chunks k) low start (start + n),
            max_chunks := (if \<not> joins_prev (chunks k) low start \<and> \<not> joins_next (chunks k) low (start + n) \<and>
              max_chunks k \<le> length (chunks k) then 2 * max_chunks k else max_chunks k)\<rparr>"
    "sparse_wf (update_backing k1 bo) {}" "k1 \<in> set (backing (update_backing k1 bo))"
    "\<forall>j\<in>set (backing (update_backing k1 bo)) - {k1}. \<not> unused j" "handles (update_backing k1 bo) = handles bo"
    "no_leak bo ({b} \<times> {start..<start + n}) \<Longrightarrow> no_leak (update_backing k1 bo) {}"
proof -
  note d = sparse_wfD[OF wf]
  let ?X = "{b} \<times> {start..<start + n}"
  have "(b, start) \<in> all_set bo" using d(7) n by auto
  then obtain k where k: "k \<in> set (backing bo)" "backing_bo k = b" by (auto simp: all_set_def)
  have fk: "find_backing b bo = Some k" using find_backing_in[OF d(2) k(1)] k(2) by simp
  note at = free_set_at[OF d(2) k(1), unfolded k(2)]
  have kwf: "backing_wf k" using d(3) k(1) .
  then have kok: "chunks_ok 0 (backing_pages k) (chunks k)" by (simp add: backing_wf_def)
  have "(b, start + n - 1) \<in> ?X" using n by simp
  then have "(b, start + n - 1) \<in> all_set bo" using d(7) by blast
  then have hi: "start + n \<le> backing_pages k" using at(2) n by simp
  have dis: "{start..<start + n} \<inter> free_pages (chunks k) = {}" using d(6) at(1) by blast
  define low where "low = first_chunk_from (chunks k) start 0 (length (chunks k))"
  let ?grow = "\<not> joins_prev (chunks k) low start \<and> \<not> joins_next (chunks k) low (start + n) \<and> max_chunks k \<le> length (chunks k)"
  have lt: "start < start + n" using n by simp
  note fr = free_range_ok[OF kok lt hi dis low_def]
  define k1 where "k1 = k\<lparr>chunks := free_range (chunks k) low start (start + n), max_chunks := (if ?grow then 2 * max_chunks k else max_chunks k)\<rparr>"
  have k1s: "backing_bo k1 = b" "backing_size k1 = backing_size k" "chunks k1 = free_range (chunks k) low start (start + n)"
    "backing_pages k1 = backing_pages k" "max_chunks k1 = (if ?grow then 2 * max_chunks k else max_chunks k)"
    by (simp_all add: k1_def k(2) backing_pages_def)
  note k1b = k1s(1)[folded k(2)]
  have room: "length (chunks k1) \<le> max_chunks k1"
    using fr(4) kwf unfolding k1s backing_wf_def by (auto split: if_splits)
  have k1wf: "backing_wf k1" using kwf fr(2) room unfolding backing_wf_def k1s by auto
  note u' = update_backing_set[OF d(2) k(1) k1b k1s(2)] update_backing_pages[OF d(2) k(1) k1b k1s(2)]
  have sub: "{b} \<times> free_pages (chunks k) \<subseteq> free_set bo" using at(1) by auto
  have fs: "free_set (update_backing k1 bo) = free_set bo \<union> ?X"
    using sub unfolding u'(5) k1s(3) fr(3) k(2) times_union by blast
  show thesis
  proof (rule that[OF fk k low_def fr(1) _ k1_def])
    show "has_room b (start + n) bo \<Longrightarrow> \<not> ?grow"
    proof -
      assume "has_room b (start + n) bo"
      then have "length (chunks k) < max_chunks k \<or> (\<exists>c\<in>set (chunks k). fst c = start + n)"
        using fk unfolding has_room_def by blast
      then show "\<not> ?grow" using fr(5) by (meson not_le)
    qed
    show "sparse_wf (update_backing k1 bo) {}"
    proof (rule update_backing_wf[OF wf k(1) k1b k1s(2) k1wf])
      show "(committed bo \<union> {}) \<inter> free_set (update_backing k1 bo) = {}" using d(6,8) unfolding fs by blast
    qed simp_all
    show "k1 \<in> set (backing (update_backing k1 bo))" unfolding u'(1) by simp
    show "\<forall>j\<in>set (backing (update_backing k1 bo)) - {k1}. \<not> unused j"
      using nu unfolding u'(1) none_unused_def by blast
    show "handles (update_backing k1 bo) = handles bo" by (fact u'(6))
    show "no_leak bo ?X \<Longrightarrow> no_leak (update_backing k1 bo) {}"
      unfolding no_leak_def fs u'(4) update_backing_fields by blast
  qed
qed

section \<open>The world of a sparse buffer\<close>

text \<open>
  What the code relies on: a created buffer is new, large enough and not larger than whole pages for
  the requested size; releasing it forgets it; and only successful requests change the page table,
  whose history is \<open>log\<close>.
\<close>

locale sparse_world =
  fixes api :: "'w winsys_api" and live :: "'w \<Rightarrow> nat set" and log :: "'w \<Rightarrow> va_op list"
    and wok :: "'w \<Rightarrow> bool" and request_ok :: "dword \<Rightarrow> dword \<Rightarrow> bool"
  assumes malloc_law: "wok w \<Longrightarrow> api_malloc api w = (ok, w') \<Longrightarrow> wok w' \<and> live w' = live w \<and> log w' = log w"
    and unique_id_law: "wok w \<Longrightarrow> api_unique_id api w = (i, w') \<Longrightarrow> wok w' \<and> live w' = live w \<and> log w' = log w"
    and va_law: "wok w \<Longrightarrow> api_va api op w = (ok, w') \<Longrightarrow>
      wok w' \<and> live w' = live w \<and> log w' = (if ok then log w @ [op] else log w)"
    and create_law: "wok w \<Longrightarrow> request_ok d f \<Longrightarrow> RADEON_SPARSE_PAGE_SIZE \<le> sz \<Longrightarrow> sz \<le> 8 * 1024 * 1024 \<Longrightarrow>
      api_create api sz d f w = (r, w') \<Longrightarrow> wok w' \<and> log w' = log w \<and>
      (case r of None \<Rightarrow> live w' = live w
       | Some (b, s) \<Rightarrow> b \<notin> live w \<and> live w' = insert b (live w) \<and> sz \<le> s \<and>
           s \<le> div_round_up sz RADEON_SPARSE_PAGE_SIZE * RADEON_SPARSE_PAGE_SIZE)"
    and release_law: "wok w \<Longrightarrow> b \<in> live w \<Longrightarrow>
      wok (api_release api b w) \<and> live (api_release api b w) = live w - {b} \<and> log (api_release api b w) = log w"
begin

definition st_inv :: "amdgpu_bo_sparse \<times> 'w \<Rightarrow> (nat \<times> nat) set \<Rightarrow> bool" where
  "st_inv st X \<longleftrightarrow> sparse_wf (fst st) X \<and> none_unused (fst st) \<and> handles (fst st) \<subseteq> live (snd st) \<and> wok (snd st) \<and>
     request_ok (sparse_placement (fst st)) (backing_flags (sparse_usage (fst st))) \<and>
     num_backing_pages (fst st) \<le> num_va_pages (fst st)"

lemma st_invD:
  assumes "st_inv (bo, w) X"
  shows "sparse_wf bo X" "none_unused bo" "handles bo \<subseteq> live w" "wok w"
    "request_ok (sparse_placement bo) (backing_flags (sparse_usage bo))" "num_backing_pages bo \<le> num_va_pages bo"
  using assms by (simp_all add: st_inv_def)

lemma st_invI:
  assumes "st_inv (bo0, w0) Y" "shape bo = shape bo0" "sparse_wf bo X" "none_unused bo" "handles bo \<subseteq> live w" "wok w"
    "num_backing_pages bo \<le> num_va_pages bo"
  shows "st_inv (bo, w) X"
  using assms by (simp add: st_inv_def shape_def)

lemma free_ok:
  assumes inv: "st_inv (bo, w) ({b} \<times> {start..<start + n})" and n: "0 < n"
  obtains ok bo1 w1 where "sparse_backing_free api b start n (bo, w) = Some (ok, bo1, w1)" "st_inv (bo1, w1) {}"
    "commitments bo1 = commitments bo" "shape bo1 = shape bo" "log w1 = log w"
    "ok \<Longrightarrow> no_leak bo ({b} \<times> {start..<start + n}) \<Longrightarrow> no_leak bo1 {}" "has_room b (start + n) bo \<Longrightarrow> ok"
proof -
  note i = st_invD[OF inv]
  obtain k low k1 where f: "find_backing b bo = Some k" "k \<in> set (backing bo)" "backing_bo k = b"
    "low = first_chunk_from (chunks k) start 0 (length (chunks k))" "free_asserts (chunks k) low start (start + n)"
    "has_room b (start + n) bo \<Longrightarrow> \<not> (\<not> joins_prev (chunks k) low start \<and> \<not> joins_next (chunks k) low (start + n) \<and> max_chunks k \<le> length (chunks k))"
    "k1 = k\<lparr>chunks := free_range (chunks k) low start (start + n),
            max_chunks := (if \<not> joins_prev (chunks k) low start \<and> \<not> joins_next (chunks k) low (start + n) \<and>
              max_chunks k \<le> length (chunks k) then 2 * max_chunks k else max_chunks k)\<rparr>"
    "sparse_wf (update_backing k1 bo) {}" "k1 \<in> set (backing (update_backing k1 bo))"
    "\<forall>j\<in>set (backing (update_backing k1 bo)) - {k1}. \<not> unused j" "handles (update_backing k1 bo) = handles bo"
    "no_leak bo ({b} \<times> {start..<start + n}) \<Longrightarrow> no_leak (update_backing k1 bo) {}"
    using free_into_backing[OF i(1,2) n] by metis
  let ?grow = "\<not> joins_prev (chunks k) low start \<and> \<not> joins_next (chunks k) low (start + n) \<and> max_chunks k \<le> length (chunks k)"
  obtain ok w1 where m: "(if ?grow then api_malloc api w else (True, w)) = (ok, w1)" by fastforce
  have w1: "wok w1" "live w1 = live w" "log w1 = log w" using m i(4) malloc_law[of w ok w1] by (auto split: if_splits)
  have run: "sparse_backing_free api b start n (bo, w) =
      (if \<not> ok then Some (False, bo, w1) else Some (True, release_if_unused api k1 (update_backing k1 bo, w1)))"
    unfolding sparse_backing_free_def by (simp add: f(1,5)[unfolded f(4)] Let_def m[unfolded f(4)] f(7)[unfolded f(4)] split: prod.split)
  show thesis
  proof (cases ok)
    case False
    have "sparse_wf bo {}" using i(1) unfolding sparse_wf_def by blast
    then have "st_inv (bo, w1) {}" using i w1 by (simp add: st_inv_def)
    moreover have "\<not> has_room b (start + n) bo" using m f(6) False by (auto split: if_splits)
    ultimately show thesis using that[of False bo w1] run False w1(3) by auto
  next
    case True
    show thesis
    proof (cases "unused k1")
      case u: True
      obtain bo2 w2 where r: "sparse_free_backing_buffer api k1 (update_backing k1 bo, w1) = (bo2, w2)" by fastforce
      note fb = free_backing_ok[OF f(8,9) u f(10) r]
      have "backing_bo k1 = b" using f(3,7) by simp
      moreover have "b \<in> live w1" using f(2,3) i(3) w1(2) by (auto simp: handles_def)
      ultimately have w2: "wok w2" "live w2 = live w - {b}" "log w2 = log w" "handles bo2 = handles bo - {b}"
        using release_law[OF w1(1), of b] w1 fb(6,7) f(11) by auto
      have "st_inv (bo2, w2) {}"
        by (rule st_invI[OF inv _ fb(1,2)]) (use fb(4,8) w2 i(3,6) in \<open>auto simp: shape_def update_backing_def\<close>)
      moreover have "sparse_backing_free api b start n (bo, w) = Some (True, bo2, w2)"
        using run True r u by (simp add: release_if_unused_def unused_def)
      ultimately show thesis using that[of True bo2 w2] fb(3-5) f(12) w2(3) by simp
    next
      case u: False
      have "none_unused (update_backing k1 bo)" using u f(10) by (auto simp: none_unused_def)
      then have "st_inv (update_backing k1 bo, w1) {}"
        by (intro st_invI[OF inv _ f(8)]) (use f(11) w1 i(3,6) in auto)
      moreover have "sparse_backing_free api b start n (bo, w) = Some (True, update_backing k1 bo, w1)"
        using run True u by (simp add: release_if_unused_def unused_def)
      ultimately show thesis using that[of True "update_backing k1 bo" w1] f(12) w1(3) by simp
    qed
  qed
qed

end

section \<open>Commitments and the page table\<close>

text \<open>Two tables that differ in a run of pages: uncommitted in the first, mapped to a run of pages in the second.\<close>

definition run_differs :: "nat \<Rightarrow> nat \<Rightarrow> nat \<Rightarrow> nat \<Rightarrow> (nat \<times> nat) option list \<Rightarrow> (nat \<times> nat) option list \<Rightarrow> bool" where
  "run_differs va b start n comm comm' \<longleftrightarrow> length comm' = length comm \<and> va + n \<le> length comm \<and>
     (\<forall>v<length comm. if va \<le> v \<and> v < va + n then comm ! v = None \<and> comm' ! v = Some (b, start + (v - va))
        else comm' ! v = comm ! v)"

lemma run_differsD:
  assumes "run_differs va b start n comm comm'"
  shows "length comm' = length comm" "va + n \<le> length comm"
    "v < length comm \<Longrightarrow> va \<le> v \<and> v < va + n \<Longrightarrow> comm ! v = None \<and> comm' ! v = Some (b, start + (v - va))"
    "v < length comm \<Longrightarrow> \<not> (va \<le> v \<and> v < va + n) \<Longrightarrow> comm' ! v = comm ! v"
    "start \<le> p \<Longrightarrow> p < start + n \<Longrightarrow> comm' ! (va + (p - start)) = Some (b, p) \<and> va + (p - start) < length comm"
proof -
  show a: "length comm' = length comm" "va + n \<le> length comm"
    "\<And>v. v < length comm \<Longrightarrow> va \<le> v \<and> v < va + n \<Longrightarrow> comm ! v = None \<and> comm' ! v = Some (b, start + (v - va))"
    "\<And>v. v < length comm \<Longrightarrow> \<not> (va \<le> v \<and> v < va + n) \<Longrightarrow> comm' ! v = comm ! v"
    using assms unfolding run_differs_def by metis+
  show "start \<le> p \<Longrightarrow> p < start + n \<Longrightarrow> comm' ! (va + (p - start)) = Some (b, p) \<and> va + (p - start) < length comm"
  proof -
    assume "start \<le> p" "p < start + n"
    then have "va \<le> va + (p - start) \<and> va + (p - start) < va + n" "start + (va + (p - start) - va) = p" by auto
    then show ?thesis using a(2) a(3)[of "va + (p - start)"] by auto
  qed
qed

lemma run_differs_committed:
  assumes "run_differs va b start n comm comm'"
  shows "{x. Some x \<in> set comm'} = {x. Some x \<in> set comm} \<union> {b} \<times> {start..<start + n}"
proof (intro set_eqI iffI)
  fix x assume "x \<in> {x. Some x \<in> set comm'}"
  then obtain v where v: "v < length comm'" "comm' ! v = Some x" by (auto simp: in_set_conv_nth)
  show "x \<in> {x. Some x \<in> set comm} \<union> {b} \<times> {start..<start + n}"
  proof (cases "va \<le> v \<and> v < va + n")
    case True
    then have "x = (b, start + (v - va))" using assms v by (auto simp: run_differs_def)
    then show ?thesis using True by auto
  next
    case False
    then have "comm ! v = Some x" using assms v by (auto simp: run_differs_def)
    then show ?thesis using assms v by (metis (no_types, lifting) UnI1 mem_Collect_eq nth_mem run_differs_def)
  qed
next
  fix x assume x: "x \<in> {x. Some x \<in> set comm} \<union> {b} \<times> {start..<start + n}"
  show "x \<in> {x. Some x \<in> set comm'}"
  proof (cases "Some x \<in> set comm")
    case True
    then obtain v where v: "v < length comm" "comm ! v = Some x" by (auto simp: in_set_conv_nth)
    then have "\<not> (va \<le> v \<and> v < va + n)" using assms by (auto simp: run_differs_def)
    then have "comm' ! v = Some x" "v < length comm'" using assms v by (auto simp: run_differs_def)
    then show ?thesis using nth_mem by fastforce
  next
    case False
    then obtain p where p: "x = (b, p)" "start \<le> p" "p < start + n" using x by auto
    then have "comm' ! (va + (p - start)) = Some x" "va + (p - start) < length comm'"
      using run_differsD(1,5)[OF assms] by auto
    then show ?thesis using nth_mem by fastforce
  qed
qed

lemma run_differs_inj:
  assumes r: "run_differs va b start n comm comm'"
  shows "comm_inj comm' \<longleftrightarrow> comm_inj comm \<and> {x. Some x \<in> set comm} \<inter> ({b} \<times> {start..<start + n}) = {}"
proof
  assume i: "comm_inj comm'"
  have "comm_inj comm"
    unfolding comm_inj_def
  proof (intro allI impI)
    fix v w x assume a: "v < length comm \<and> w < length comm \<and> comm ! v = Some x \<and> comm ! w = Some x"
    then have "comm' ! v = Some x" "comm' ! w = Some x" using run_differsD(3,4)[OF r] by (metis option.distinct(1))+
    then show "v = w" using i a r by (auto simp: comm_inj_def run_differs_def)
  qed
  moreover have "{x. Some x \<in> set comm} \<inter> ({b} \<times> {start..<start + n}) = {}"
  proof (rule ccontr)
    assume "\<not> ?thesis"
    then obtain p where p: "start \<le> p" "p < start + n" "Some (b, p) \<in> set comm" by auto
    then obtain v where v: "v < length comm" "comm ! v = Some (b, p)" by (auto simp: in_set_conv_nth)
    let ?w = "va + (p - start)"
    have out: "\<not> (va \<le> v \<and> v < va + n)" using r v by (auto simp: run_differs_def)
    then have "comm' ! v = Some (b, p)" using r v by (auto simp: run_differs_def)
    moreover have "comm' ! ?w = Some (b, p)" "?w < length comm'" using run_differsD(1,5)[OF r] p by auto
    moreover have "v < length comm'" using r v by (simp add: run_differs_def)
    ultimately have "v = ?w" using i unfolding comm_inj_def by blast
    then have "va \<le> v \<and> v < va + n" using p by auto
    then show False using out by blast
  qed
  ultimately show "comm_inj comm \<and> {x. Some x \<in> set comm} \<inter> ({b} \<times> {start..<start + n}) = {}" ..
next
  assume a: "comm_inj comm \<and> {x. Some x \<in> set comm} \<inter> ({b} \<times> {start..<start + n}) = {}"
  show "comm_inj comm'"
    unfolding comm_inj_def
  proof (intro allI impI)
    fix v w x assume h: "v < length comm' \<and> w < length comm' \<and> comm' ! v = Some x \<and> comm' ! w = Some x"
    have at: "(if va \<le> u \<and> u < va + n then x = (b, start + (u - va)) else comm ! u = Some x)"
      if "u < length comm'" "comm' ! u = Some x" for u
      using r that by (auto simp: run_differs_def)
    have new: "x \<in> {b} \<times> {start..<start + n}" if "va \<le> u \<and> u < va + n" "u < length comm'" "comm' ! u = Some x" for u
      using at[OF that(2,3)] that(1) by auto
    have old: "x \<notin> {b} \<times> {start..<start + n}" if "\<not> (va \<le> u \<and> u < va + n)" "u < length comm'" "comm' ! u = Some x" for u
    proof -
      have "comm ! u = Some x" "u < length comm" using at[OF that(2,3)] that r by (auto simp: run_differs_def)
      then have "Some x \<in> set comm" using nth_mem by fastforce
      then show ?thesis using a by blast
    qed
    have e: "(va \<le> v \<and> v < va + n) = (va \<le> w \<and> w < va + n)" using new old h by metis
    show "v = w"
    proof (cases "va \<le> v \<and> v < va + n")
      case True
      then show ?thesis using e at[of v] at[of w] h by auto
    next
      case False
      then show ?thesis using e at[of v] at[of w] h a r by (auto simp: comm_inj_def run_differs_def)
    qed
  qed
qed

lemma set_comm_nth:
  assumes "va + n \<le> length comm"
  shows "length (set_comm va b start n comm) = length comm \<and>
    (\<forall>v<length comm. set_comm va b start n comm ! v =
       (if va \<le> v \<and> v < va + n then Some (b, start + (v - va)) else comm ! v))"
  using assms
proof (induction n arbitrary: va start comm)
  case (Suc n)
  note ih = Suc.IH[of "va + 1" "comm[va := Some (b, start)]" "start + 1"]
  show ?case
  proof (intro conjI allI impI)
    show "length (set_comm va b start (Suc n) comm) = length comm" using ih Suc.prems by simp
    fix v assume v: "v < length comm"
    show "set_comm va b start (Suc n) comm ! v =
       (if va \<le> v \<and> v < va + Suc n then Some (b, start + (v - va)) else comm ! v)"
    proof (cases "v = va")
      case True
      then show ?thesis using ih Suc.prems v by simp
    next
      case False
      then show ?thesis using ih Suc.prems v by auto
    qed
  qed
qed auto

lemma set_comm_differs:
  assumes "va + n \<le> length comm" "\<forall>v. va \<le> v \<and> v < va + n \<longrightarrow> comm ! v = None"
  shows "run_differs va b start n comm (set_comm va b start n comm)"
  using set_comm_nth[OF assms(1)] assms by (simp add: run_differs_def)

lemma clear_run_spec:
  assumes "clear_run end_va b start va n comm = (va1, n1, comm1)" "end_va \<le> length comm" "va \<le> end_va"
  shows "va \<le> va1 \<and> va1 \<le> end_va \<and> n1 = n + (va1 - va) \<and> length comm1 = length comm \<and>
    (\<forall>v<length comm. if va \<le> v \<and> v < va1 then comm ! v = Some (b, start + n + (v - va)) \<and> comm1 ! v = None
       else comm1 ! v = comm ! v)"
  using assms
proof (induction end_va b start va n comm rule: clear_run.induct)
  case (1 end_va b start va n comm)
  show ?case
  proof (cases "va < end_va \<and> comm ! va = Some (b, start + n)")
    case True
    have r: "clear_run end_va b start (va + 1) (n + 1) (comm[va := None]) = (va1, n1, comm1)"
      using 1(2) True by (subst (asm) clear_run.simps) simp
    have l: "end_va \<le> length (comm[va := None])" "va + 1 \<le> end_va" using 1(3) True by simp_all
    note ih = 1(1)[OF True r l]
    show ?thesis
    proof (intro conjI allI impI)
      show "va \<le> va1" "va1 \<le> end_va" "n1 = n + (va1 - va)" "length comm1 = length comm" using ih by auto
      fix v assume v: "v < length comm"
      show "if va \<le> v \<and> v < va1 then comm ! v = Some (b, start + n + (v - va)) \<and> comm1 ! v = None
            else comm1 ! v = comm ! v"
      proof (cases "v = va")
        case eq: True
        then show ?thesis using ih v True by auto
      next
        case False
        then show ?thesis using ih v by (auto split: if_splits)
      qed
    qed
  next
    case False
    then show ?thesis using 1(2,4) by (subst (asm) clear_run.simps) auto
  qed
qed

lemma clear_run_differs:
  assumes "clear_run end_va b start (va + 1) 1 (comm[va := None]) = (va1, n, comm1)" "end_va \<le> length comm"
    "va < end_va" "comm ! va = Some (b, start)"
  shows "run_differs va b start n comm1 comm \<and> va1 = va + n \<and> 0 < n \<and> va1 \<le> end_va"
proof -
  note s = clear_run_spec[OF assms(1)]
  have s: "va + 1 \<le> va1" "va1 \<le> end_va" "n = 1 + (va1 - (va + 1))" "length comm1 = length comm"
    "\<And>v. v < length comm \<Longrightarrow> if va + 1 \<le> v \<and> v < va1
       then comm[va := None] ! v = Some (b, start + 1 + (v - (va + 1))) \<and> comm1 ! v = None
       else comm1 ! v = comm[va := None] ! v"
    using s assms(2,3) by (simp, simp, simp, simp) (use s assms(2,3) in \<open>auto split: if_splits\<close>)
  have n: "va1 = va + n" "0 < n" using s(1,3) by simp_all
  have "if va \<le> v \<and> v < va + n then comm1 ! v = None \<and> comm ! v = Some (b, start + (v - va)) else comm ! v = comm1 ! v"
    if v: "v < length comm" for v
  proof (cases "v = va")
    case True
    then show ?thesis using s(5)[OF v] n assms(4) v by simp
  next
    case False
    then show ?thesis using s(5)[OF v] n v by (auto split: if_splits)
  qed
  then show ?thesis using n s(2,4) assms(2) by (simp add: run_differs_def)
qed

text \<open>Moving pages between \<open>X\<close> and the commitments.\<close>

lemma commit_run_wf:
  assumes r: "run_differs va b start n (commitments bo) comm'" and wf: "sparse_wf bo ({b} \<times> {start..<start + n})"
  shows "sparse_wf (bo\<lparr>commitments := comm'\<rparr>) {}"
    "no_leak bo ({b} \<times> {start..<start + n}) \<Longrightarrow> no_leak (bo\<lparr>commitments := comm'\<rparr>) {}"
proof -
  note d = sparse_wfD[OF wf]
  have c: "committed (bo\<lparr>commitments := comm'\<rparr>) = committed bo \<union> {b} \<times> {start..<start + n}"
    using run_differs_committed[OF r] by (simp add: committed_def)
  have f: "free_set (bo\<lparr>commitments := comm'\<rparr>) = free_set bo" "all_set (bo\<lparr>commitments := comm'\<rparr>) = all_set bo"
    by (simp_all add: free_set_def all_set_def)
  have "comm_inj comm'" using run_differs_inj[OF r] d(5,8) by (simp add: committed_def)
  moreover have "length comm' = length (commitments bo)" using r by (simp add: run_differs_def)
  ultimately show "sparse_wf (bo\<lparr>commitments := comm'\<rparr>) {}"
    using d(1-4,6,7,9) unfolding sparse_wf_def c f by simp
  show "no_leak bo ({b} \<times> {start..<start + n}) \<Longrightarrow> no_leak (bo\<lparr>commitments := comm'\<rparr>) {}"
    unfolding no_leak_def c f by blast
qed

lemma uncommit_run_wf:
  assumes r: "run_differs va b start n comm' (commitments bo)" and wf: "sparse_wf bo {}"
  shows "sparse_wf (bo\<lparr>commitments := comm'\<rparr>) ({b} \<times> {start..<start + n})"
    "no_leak bo {} \<Longrightarrow> no_leak (bo\<lparr>commitments := comm'\<rparr>) ({b} \<times> {start..<start + n})"
proof -
  note d = sparse_wfD[OF wf]
  have c: "committed bo = committed (bo\<lparr>commitments := comm'\<rparr>) \<union> {b} \<times> {start..<start + n}"
    using run_differs_committed[OF r] by (simp add: committed_def)
  have f: "free_set (bo\<lparr>commitments := comm'\<rparr>) = free_set bo" "all_set (bo\<lparr>commitments := comm'\<rparr>) = all_set bo"
    by (simp_all add: free_set_def all_set_def)
  have "comm_inj comm'" "committed (bo\<lparr>commitments := comm'\<rparr>) \<inter> {b} \<times> {start..<start + n} = {}"
    using run_differs_inj[OF r] d(5) by (simp_all add: committed_def)
  moreover have "length comm' = length (commitments bo)" using r by (simp add: run_differs_def)
  ultimately show "sparse_wf (bo\<lparr>commitments := comm'\<rparr>) ({b} \<times> {start..<start + n})"
    using d(1-4,6,7,9) unfolding sparse_wf_def f c by simp
  show "no_leak bo {} \<Longrightarrow> no_leak (bo\<lparr>commitments := comm'\<rparr>) ({b} \<times> {start..<start + n})"
    unfolding no_leak_def f c by blast
qed

lemma commitments_only [simp]:
  "none_unused (bo\<lparr>commitments := c\<rparr>) = none_unused bo" "handles (bo\<lparr>commitments := c\<rparr>) = handles bo"
  "shape (bo\<lparr>commitments := c\<rparr>) = shape bo"
  by (simp_all add: none_unused_def handles_def shape_def)

text \<open>
  The page table of the GPU, in pages from the start of the buffer, after a history of requests. This
  is what \<open>AMDGPU_VA_OP_REPLACE\<close> does: map the pages, or with \<open>AMDGPU_VM_PAGE_PRT\<close> leave them without
  memory.
\<close>

fun apply_va :: "va_op \<Rightarrow> (nat \<Rightarrow> (nat \<times> nat) option) \<Rightarrow> nat \<Rightarrow> (nat \<times> nat) option" where
  "apply_va (Map_pages va b start n) t = (\<lambda>v. if va \<le> v \<and> v < va + n then Some (b, start + (v - va)) else t v)"
| "apply_va (Unmap_pages va n) t = (\<lambda>v. if va \<le> v \<and> v < va + n then None else t v)"
| "apply_va (Reserve n) t = (\<lambda>_. None)"
| "apply_va (Map_prt n) t = (\<lambda>_. None)"
| "apply_va (Clear n) t = (\<lambda>_. None)"

definition page_table :: "va_op list \<Rightarrow> nat \<Rightarrow> (nat \<times> nat) option" where
  "page_table ops = foldl (\<lambda>t op. apply_va op t) (\<lambda>_. None) ops"

lemma page_table_snoc [simp]: "page_table (ops @ [op]) = apply_va op (page_table ops)"
  by (simp add: page_table_def)

definition comm_map :: "(nat \<times> nat) option list \<Rightarrow> nat \<Rightarrow> (nat \<times> nat) option" where
  "comm_map comm v = (if v < length comm then comm ! v else None)"

lemma comm_map_run:
  "run_differs va b start n comm comm' \<Longrightarrow> comm_map comm' = apply_va (Map_pages va b start n) (comm_map comm)"
  by (auto simp: comm_map_def run_differs_def fun_eq_iff)

section \<open>The operations keep the invariant\<close>

lemma new_backing_size_bounds: "RADEON_SPARSE_PAGE_SIZE \<le> new_backing_size bo \<and> new_backing_size bo \<le> 8 * 1024 * 1024"
  by (auto simp: new_backing_size_def RADEON_SPARSE_PAGE_SIZE_def)

lemma div_round_up_sub: "n * p \<le> a \<Longrightarrow> 0 < p \<Longrightarrow> div_round_up (a - n * p) p + n = div_round_up a p"
proof -
  assume n: "n * p \<le> a" and p: "0 < p"
  obtain c where c: "a = c + n * p" using n le_Suc_ex by (metis add.commute)
  have "div_round_up a p = (c + p - 1 + n * p) div p" unfolding div_round_up_def c using p by (intro arg_cong2[where f = "(div)"]) auto
  also have "\<dots> = (c + p - 1) div p + n" using p by (metis add.commute div_mult_self1 less_numeral_extra(3))
  finally show ?thesis by (simp add: c div_round_up_def)
qed

lemma new_backing_pages_bound:
  assumes s: "s \<le> div_round_up (new_backing_size bo) RADEON_SPARSE_PAGE_SIZE * RADEON_SPARSE_PAGE_SIZE"
    and n: "num_backing_pages bo < div_round_up (sparse_size bo) RADEON_SPARSE_PAGE_SIZE"
  shows "num_backing_pages bo + s div RADEON_SPARSE_PAGE_SIZE \<le> div_round_up (sparse_size bo) RADEON_SPARSE_PAGE_SIZE"
proof -
  let ?P = RADEON_SPARSE_PAGE_SIZE and ?nb = "num_backing_pages bo" and ?sz = "sparse_size bo"
  have p: "0 < ?P" by (simp add: RADEON_SPARSE_PAGE_SIZE_def)
  have "s div ?P \<le> div_round_up (new_backing_size bo) ?P"
    using div_le_mono[OF s, of ?P] p by simp
  moreover have "div_round_up (new_backing_size bo) ?P + ?nb \<le> div_round_up ?sz ?P"
  proof (cases "new_backing_size bo = ?P")
    case True
    then show ?thesis using n p by (simp add: div_round_up_def RADEON_SPARSE_PAGE_SIZE_def)
  next
    case False
    then have le: "new_backing_size bo \<le> ?sz - ?nb * ?P" by (auto simp: new_backing_size_def max_def min_def split: if_splits)
    have "?P \<le> new_backing_size bo" using new_backing_size_bounds by blast
    then have "?nb * ?P \<le> ?sz" using le p by linarith
    then have "div_round_up (?sz - ?nb * ?P) ?P + ?nb = div_round_up ?sz ?P" using p by (rule div_round_up_sub)
    moreover have "div_round_up (new_backing_size bo) ?P \<le> div_round_up (?sz - ?nb * ?P) ?P"
      unfolding div_round_up_def using le by (intro div_le_mono diff_le_mono) simp
    ultimately show ?thesis by simp
  qed
  ultimately show ?thesis by simp
qed

text \<open>Adding an unused backing buffer.\<close>

lemma add_backing_ok:
  assumes wf: "sparse_wf bo {}" and b: "b \<notin> handles bo" and s: "RADEON_SPARSE_PAGE_SIZE \<le> s"
    and k: "k = \<lparr>backing_bo = b, backing_size = s, chunks = [(0, s div RADEON_SPARSE_PAGE_SIZE)], max_chunks = 4\<rparr>"
    and bo1: "bo1 = bo\<lparr>backing := k # backing bo, num_backing_pages := num_backing_pages bo + s div RADEON_SPARSE_PAGE_SIZE\<rparr>"
  shows "sparse_wf bo1 {}" "no_leak bo {} \<Longrightarrow> no_leak bo1 {}" "handles bo1 = insert b (handles bo)" "shape bo1 = shape bo"
    "commitments bo1 = commitments bo"
proof -
  note d = sparse_wfD[OF wf]
  let ?n = "s div RADEON_SPARSE_PAGE_SIZE"
  have n: "0 < ?n" using s by (simp add: RADEON_SPARSE_PAGE_SIZE_def div_greater_zero_iff)
  have kp: "backing_pages k = ?n" "backing_bo k = b" "chunks k = [(0, ?n)]" by (simp_all add: k backing_pages_def)
  have kwf: "backing_wf k" using n by (simp add: backing_wf_def k backing_pages_def)
  have a: "all_set bo1 = {b} \<times> {..<?n} \<union> all_set bo" by (simp add: all_set_def bo1 kp)
  have f: "free_set bo1 = {b} \<times> {..<?n} \<union> free_set bo" by (simp add: free_set_def bo1 kp lessThan_atLeast0)
  have c: "committed bo1 = committed bo" by (simp add: committed_def bo1)
  have "({b} \<times> {..<?n}) \<inter> all_set bo = {}" using b by (auto simp: all_set_def handles_def)
  then have "committed bo \<inter> {b} \<times> {..<?n} = {}" using d(7) by blast
  then show "sparse_wf bo1 {}"
    using d b kwf unfolding sparse_wf_def a f c by (auto simp: bo1 kp handles_def)
  show "no_leak bo {} \<Longrightarrow> no_leak bo1 {}" unfolding no_leak_def a f c by blast
qed (auto simp: bo1 k handles_def shape_def)

context sparse_world
begin

lemma new_backing_ok:
  assumes inv: "st_inv (bo, w) {}" and r: "new_backing api (bo, w) = Some (r, bo1, w1)"
  shows "case r of None \<Rightarrow> bo1 = bo \<and> wok w1 \<and> live w1 = live w \<and> log w1 = log w
    | Some (b, pages) \<Rightarrow> \<exists>k. backing bo1 = k # backing bo \<and> backing_bo k = b \<and> chunks k = [(0, pages)] \<and>
        sparse_wf bo1 {} \<and> (no_leak bo {} \<longrightarrow> no_leak bo1 {}) \<and> handles bo1 \<subseteq> live w1 \<and> wok w1 \<and>
        log w1 = log w \<and> shape bo1 = shape bo \<and> commitments bo1 = commitments bo \<and> num_backing_pages bo1 \<le> num_va_pages bo1"
proof -
  note i = st_invD[OF inv] and d = sparse_wfD[OF st_invD(1)[OF inv]]
  obtain ok1 w2 where m1: "api_malloc api w = (ok1, w2)" by fastforce
  obtain ok2 w3 where m2: "api_malloc api w2 = (ok2, w3)" by fastforce
  have l1: "wok w2" "live w2 = live w" "log w2 = log w" using malloc_law[OF i(4) m1] by auto
  have l2: "wok w3" "live w3 = live w" "log w3 = log w" using malloc_law[OF l1(1) m2] l1 by auto
  obtain c w4 where c: "api_create api (new_backing_size bo) (sparse_placement bo) (backing_flags (sparse_usage bo)) w3 = (c, w4)" by fastforce
  note nb = new_backing_size_bounds[of bo]
  note l = create_law[OF l2(1) i(5) conjunct1[OF nb] conjunct2[OF nb] c]
  show ?thesis
  proof (cases "ok1 \<and> ok2 \<and> c \<noteq> None")
    case False
    consider "\<not> ok1" | "ok1" "\<not> ok2" | "ok1" "ok2" "c = None" using False by blast
    then show ?thesis
    proof cases
      case 3
      then show ?thesis using r m1 m2 c l l2 by (auto simp: new_backing_def Let_def split: if_splits)
    qed (use r m1 m2 l1 l2 in \<open>auto simp: new_backing_def Let_def\<close>)
  next
    case True
    then obtain b s where bs: "c = Some (b, s)" by force
    have n: "num_backing_pages bo < div_round_up (sparse_size bo) RADEON_SPARSE_PAGE_SIZE"
      using r m1 m2 True by (auto simp: new_backing_def Let_def split: if_splits)
    define k where "k = \<lparr>backing_bo = b, backing_size = s, chunks = [(0, s div RADEON_SPARSE_PAGE_SIZE)], max_chunks = 4\<rparr>"
    have e: "r = Some (b, s div RADEON_SPARSE_PAGE_SIZE)" "w1 = w4"
      "bo1 = bo\<lparr>backing := k # backing bo, num_backing_pages := num_backing_pages bo + s div RADEON_SPARSE_PAGE_SIZE\<rparr>"
      using r m1 m2 c bs True n by (auto simp: new_backing_def Let_def k_def split: if_splits)
    have ls: "b \<notin> live w" "live w4 = insert b (live w)" "wok w4" "log w4 = log w" "new_backing_size bo \<le> s"
      "s \<le> div_round_up (new_backing_size bo) RADEON_SPARSE_PAGE_SIZE * RADEON_SPARSE_PAGE_SIZE"
      using l l2 bs by auto
    have "b \<notin> handles bo" using ls(1) i(3) by blast
    note a = add_backing_ok[OF i(1) this _ k_def e(3)]
    have s: "RADEON_SPARSE_PAGE_SIZE \<le> s" using ls(5) nb by linarith
    have "num_backing_pages bo1 \<le> num_va_pages bo1"
      using new_backing_pages_bound[OF ls(6) n] d(9) unfolding e(3) by simp
    then show ?thesis
      using a[OF s] ls i(3) unfolding e(1,2) by (auto simp: e(3) k_def)
  qed
qed

lemma alloc_ok:
  assumes inv: "st_inv (bo, w) {}" and want: "0 < want" and a: "sparse_backing_alloc api want (bo, w) = Some (r, bo1, w1)"
  shows "case r of None \<Rightarrow> bo1 = bo \<and> st_inv (bo1, w1) {}
    | Some (b, start, n) \<Rightarrow> 0 < n \<and> n \<le> want \<and> st_inv (bo1, w1) ({b} \<times> {start..<start + n}) \<and> has_room b (start + n) bo1 \<and>
        (no_leak bo {} \<longrightarrow> no_leak bo1 ({b} \<times> {start..<start + n}))"
    "commitments bo1 = commitments bo" "shape bo1 = shape bo" "log w1 = log w"
proof -
  note i = st_invD[OF inv] and d = sparse_wfD[OF st_invD(1)[OF inv]]
  have g: "good_choice (backing bo) (scan_backing want (backing bo) (None, 0))"
    using scan_backing_good[of "backing bo" "(None, 0)" "backing bo" want] d(3) want by (simp add: good_choice_def)
  have "(case r of None \<Rightarrow> bo1 = bo \<and> st_inv (bo1, w1) {}
    | Some (b, start, n) \<Rightarrow> 0 < n \<and> n \<le> want \<and> st_inv (bo1, w1) ({b} \<times> {start..<start + n}) \<and> has_room b (start + n) bo1 \<and>
        (no_leak bo {} \<longrightarrow> no_leak bo1 ({b} \<times> {start..<start + n}))) \<and>
    commitments bo1 = commitments bo \<and> shape bo1 = shape bo \<and> log w1 = log w"
  proof (cases "scan_backing want (backing bo) (None, 0)")
    case (Pair best m)
    show ?thesis
    proof (cases best)
      case (Some bi)
      obtain b idx where bi: "bi = (b, idx)" by fastforce
      obtain k where k: "k \<in> set (backing bo)" "backing_bo k = b" "idx < length (chunks k)" "m = chunk_pages (chunks k ! idx)"
        using g unfolding Pair Some bi good_choice_def by auto
      have t: "take_pages want (backing_bo k) idx m bo = (r, bo1)" "w1 = w"
        using a unfolding sparse_backing_alloc_def by (auto simp: Pair Some bi k(2) split: prod.splits)
      have "\<forall>j\<in>set (backing bo) - {k}. \<not> unused j" using i(2) by (simp add: none_unused_def)
      from take_pages_ok[OF i(1) k(1) this k(3,4) want t(1)] obtain start n where
        p: "r = Some (backing_bo k, start, n)" "0 < n" "n \<le> want" "sparse_wf bo1 ({backing_bo k} \<times> {start..<start + n})"
        "none_unused bo1" "no_leak bo {} \<Longrightarrow> no_leak bo1 ({backing_bo k} \<times> {start..<start + n})" "shape bo1 = shape bo"
        "commitments bo1 = commitments bo" "handles bo1 = handles bo"
        "\<And>j. find_backing (backing_bo k) bo1 = Some j \<Longrightarrow> length (chunks j) < max_chunks j \<or> (\<exists>c\<in>set (chunks j). fst c = start + n)"
        by metis
      have "num_backing_pages bo1 = num_backing_pages bo"
        using t(1) by (auto simp: take_pages_def Let_def split: option.splits)
      then have "st_inv (bo1, w1) ({backing_bo k} \<times> {start..<start + n})"
        using st_invI[OF inv p(7,4,5), of w1] p(7,9) i(3,4,6) t(2) by (simp add: shape_def)
      then show ?thesis using p t(2) by (simp add: has_room_def)
    next
      case None
      obtain r2 bo2 w2 where nb: "new_backing api (bo, w) = Some (r2, bo2, w2)"
        using a unfolding sparse_backing_alloc_def by (auto simp: Pair None split: option.splits)
      note n = new_backing_ok[OF inv nb]
      show ?thesis
      proof (cases r2)
        case r2: None
        then have "r = None" "bo1 = bo2" "w1 = w2"
          using a nb unfolding sparse_backing_alloc_def by (auto simp: Pair None)
        then show ?thesis using n r2 i by (simp add: st_inv_def)
      next
        case r2: (Some bp)
        obtain b pages where bp: "bp = (b, pages)" by fastforce
        obtain k where k: "backing bo2 = k # backing bo" "backing_bo k = b" "chunks k = [(0, pages)]" "sparse_wf bo2 {}"
          "no_leak bo {} \<longrightarrow> no_leak bo2 {}" "handles bo2 \<subseteq> live w2" "wok w2" "log w2 = log w" "shape bo2 = shape bo"
          "commitments bo2 = commitments bo" "num_backing_pages bo2 \<le> num_va_pages bo2"
          using n unfolding r2 bp by auto
        have t: "take_pages want (backing_bo k) 0 pages bo2 = (r, bo1)" "w1 = w2"
          using a nb unfolding sparse_backing_alloc_def by (auto simp: Pair None r2 bp k(2) split: prod.splits)
        have o: "\<forall>j\<in>set (backing bo2) - {k}. \<not> unused j" "k \<in> set (backing bo2)" "0 < length (chunks k)"
          "pages = chunk_pages (chunks k ! 0)"
          using i(2) k(1,3) by (auto simp: none_unused_def chunk_pages_def)
        from take_pages_ok[OF k(4) o(2,1,3,4) want t(1)] obtain start n where
          p: "r = Some (backing_bo k, start, n)" "0 < n" "n \<le> want" "sparse_wf bo1 ({backing_bo k} \<times> {start..<start + n})"
          "none_unused bo1" "no_leak bo2 {} \<Longrightarrow> no_leak bo1 ({backing_bo k} \<times> {start..<start + n})" "shape bo1 = shape bo2"
          "commitments bo1 = commitments bo2" "handles bo1 = handles bo2"
          "\<And>j. find_backing (backing_bo k) bo1 = Some j \<Longrightarrow> length (chunks j) < max_chunks j \<or> (\<exists>c\<in>set (chunks j). fst c = start + n)"
          by metis
        have "num_backing_pages bo1 = num_backing_pages bo2"
          using t(1) by (auto simp: take_pages_def Let_def split: option.splits)
        then have "num_backing_pages bo1 \<le> num_va_pages bo1" using k(11) p(7) by (simp add: shape_def)
        then have "st_inv (bo1, w1) ({backing_bo k} \<times> {start..<start + n})"
          using st_invI[OF inv _ p(4,5), of w1] p(7,9) k(6,7,9) t(2) by simp
        then show ?thesis using p k t(2) by (simp add: has_room_def)
      qed
    qed
  qed
  then show "case r of None \<Rightarrow> bo1 = bo \<and> st_inv (bo1, w1) {}
    | Some (b, start, n) \<Rightarrow> 0 < n \<and> n \<le> want \<and> st_inv (bo1, w1) ({b} \<times> {start..<start + n}) \<and> has_room b (start + n) bo1 \<and>
        (no_leak bo {} \<longrightarrow> no_leak bo1 ({b} \<times> {start..<start + n}))"
    "commitments bo1 = commitments bo" "shape bo1 = shape bo" "log w1 = log w"
    by blast+
qed

lemma alloc_returns:
  assumes inv: "st_inv (bo, w) {}" and want: "0 < want" and nl: "no_leak bo {}"
    and v: "v < num_va_pages bo" "commitments bo ! v = None"
  shows "sparse_backing_alloc api want (bo, w) \<noteq> None"
proof (cases "fst (scan_backing want (backing bo) (None, 0))")
  case None
  note i = st_invD[OF inv] and d = sparse_wfD[OF st_invD(1)[OF inv]]
  have "\<forall>k\<in>set (backing bo). chunks k = []"
    using scan_backing_good[of "backing bo" "(None, 0)" "backing bo" want] d(3) want None by (simp add: good_choice_def)
  then have "free_set bo = {}" by (simp add: free_set_def)
  from backing_below[OF i(1) nl this v] d(9)
  have "num_backing_pages bo < div_round_up (sparse_size bo) RADEON_SPARSE_PAGE_SIZE" by simp
  then have "new_backing api (bo, w) \<noteq> None"
    by (auto simp: new_backing_def Let_def split: prod.splits option.splits)
  then show ?thesis using None unfolding sparse_backing_alloc_def
    by (cases "scan_backing want (backing bo) (None, 0)") (auto split: option.splits prod.splits)
next
  case (Some x)
  then show ?thesis unfolding sparse_backing_alloc_def
    by (cases "scan_backing want (backing bo) (None, 0)") (auto split: prod.splits)
qed

end

context sparse_world
begin

text \<open>
  What a commitment of the pages from \<open>lo\<close> to \<open>hi\<close> leaves behind: all else as it was, the pages
  committed when it succeeds, and the page table of the GPU in step with the commitments.
\<close>

definition commits :: "nat \<Rightarrow> nat \<Rightarrow> amdgpu_bo_sparse \<times> 'w \<Rightarrow> bool \<Rightarrow> amdgpu_bo_sparse \<times> 'w \<Rightarrow> bool" where
  "commits lo hi st ok st1 \<longleftrightarrow> st_inv st1 {} \<and> shape (fst st1) = shape (fst st) \<and>
     (no_leak (fst st) {} \<longrightarrow> no_leak (fst st1) {}) \<and>
     (\<forall>v<num_va_pages (fst st). commitments (fst st) ! v \<noteq> None \<or> \<not> (lo \<le> v \<and> v < hi) \<longrightarrow>
        commitments (fst st1) ! v = commitments (fst st) ! v) \<and>
     (ok \<longrightarrow> (\<forall>v. lo \<le> v \<and> v < hi \<longrightarrow> commitments (fst st1) ! v \<noteq> None)) \<and>
     (page_table (log (snd st)) = comm_map (commitments (fst st)) \<longrightarrow>
        page_table (log (snd st1)) = comm_map (commitments (fst st1)))"

definition all_commits :: "nat \<Rightarrow> nat \<Rightarrow> amdgpu_bo_sparse \<times> 'w \<Rightarrow> (bool \<times> amdgpu_bo_sparse \<times> 'w) option \<Rightarrow> bool" where
  "all_commits lo hi st r \<longleftrightarrow> (no_leak (fst st) {} \<longrightarrow> r \<noteq> None) \<and> (\<forall>ok st1. r = Some (ok, st1) \<longrightarrow> commits lo hi st ok st1)"

lemma shape_pages: "shape bo = shape bo0 \<Longrightarrow> num_va_pages bo = num_va_pages bo0"
  by (simp add: shape_def)

lemma commits_trans:
  assumes "commits lo mid st True st1" "commits mid hi st1 ok st2" "lo \<le> mid" "mid \<le> hi" "hi \<le> num_va_pages (fst st)"
  shows "commits lo hi st ok st2"
proof -
  note c = assms(1,2)[unfolded commits_def]
  have n: "num_va_pages (fst st1) = num_va_pages (fst st)" using c by (simp add: shape_def)
  have f: "commitments (fst st2) ! v = commitments (fst st) ! v"
    if "v < num_va_pages (fst st)" "commitments (fst st) ! v \<noteq> None \<or> \<not> (lo \<le> v \<and> v < hi)" for v
  proof -
    have "commitments (fst st1) ! v = commitments (fst st) ! v" using c(1) that assms(4) by auto
    moreover have "commitments (fst st2) ! v = commitments (fst st1) ! v"
      using c(2) that calculation n assms(3) by auto
    ultimately show ?thesis by simp
  qed
  have "commitments (fst st2) ! v \<noteq> None" if "ok" "lo \<le> v" "v < hi" for v
  proof (cases "v < mid")
    case True
    then have "commitments (fst st1) ! v \<noteq> None" using c(1) that by blast
    then show ?thesis using c(2) that n assms(5) by (metis less_le_trans)
  next
    case False
    then show ?thesis using c(2) that by auto
  qed
  then show ?thesis using c f unfolding commits_def by auto
qed

lemma commits_refl:
  assumes "st_inv st {}" "\<forall>v. lo \<le> v \<and> v < hi \<longrightarrow> commitments (fst st) ! v \<noteq> None"
  shows "commits lo hi st True st"
  using assms by (simp add: commits_def)

lemma commits_weaken: "commits mid hi st ok st1 \<Longrightarrow> lo \<le> mid \<Longrightarrow> hi \<le> hi' \<Longrightarrow> commits lo hi' st False st1"
  by (auto simp: commits_def)

lemma map_run_ok:
  assumes inv: "st_inv (bo, w) ({b} \<times> {start..<start + n})" and c: "commitments bo = commitments bo0"
    and v: "span + n \<le> num_va_pages bo" "\<forall>v. span \<le> v \<and> v < span + n \<longrightarrow> commitments bo ! v = None"
    and va: "api_va api (Map_pages span b start n) w = (True, w1)" and s: "shape bo = shape bo0"
    and l: "log w = log w0" and nl: "no_leak bo0 {} \<longrightarrow> no_leak bo ({b} \<times> {start..<start + n})"
  shows "commits span (span + n) (bo0, w0) True (bo\<lparr>commitments := set_comm span b start n (commitments bo)\<rparr>, w1)"
proof -
  note i = st_invD[OF inv] and d = sparse_wfD[OF st_invD(1)[OF inv]]
  have r: "run_differs span b start n (commitments bo) (set_comm span b start n (commitments bo))"
    using v d(1) by (intro set_comm_differs) simp_all
  note cw = commit_run_wf[OF r i(1)]
  have vl: "wok w1" "live w1 = live w" "log w1 = log w @ [Map_pages span b start n]" using va_law[OF i(4) va] by simp_all
  have "st_inv (bo\<lparr>commitments := set_comm span b start n (commitments bo)\<rparr>, w1) {}"
    using cw(1) i vl by (simp add: st_inv_def)
  moreover have "set_comm span b start n (commitments bo) ! v = commitments bo ! v"
    if "v < num_va_pages bo" "commitments bo ! v \<noteq> None \<or> \<not> (span \<le> v \<and> v < span + n)" for v
    using run_differsD(3,4)[OF r, of v] that d(1) by metis
  moreover have "set_comm span b start n (commitments bo) ! v \<noteq> None" if "span \<le> v \<and> v < span + n" for v
    using run_differsD(3)[OF r, of v] that d(1) v(1) by auto
  ultimately show ?thesis
    using c cw(2) nl s l shape_pages[OF s] comm_map_run[OF r] vl(3) unfolding commits_def by simp
qed

lemma fill_ok:
  assumes "st_inv (bo, w) {}" "span \<le> va_page" "va_page \<le> num_va_pages bo" "\<forall>v. span \<le> v \<and> v < va_page \<longrightarrow> commitments bo ! v = None"
  shows "all_commits span va_page (bo, w) (fill_span api va_page span (bo, w))"
  using assms
proof (induction "va_page - span" arbitrary: span bo w rule: less_induct)
  case less
  note inv = less.prems(1)
  show ?case
  proof (cases "va_page \<le> span")
    case True
    then have "commits span va_page (bo, w) True (bo, w)" using inv by (intro commits_refl) auto
    then show ?thesis using True by (subst fill_span.simps) (auto simp: all_commits_def)
  next
    case False
    then have want: "0 < va_page - span" by simp
    let ?a = "sparse_backing_alloc api (va_page - span) (bo, w)"
    have v: "span < num_va_pages bo" "commitments bo ! span = None" using False less.prems(3,4) by auto
    have ret: "?a \<noteq> None" if "no_leak bo {}" using alloc_returns[OF inv want that v] .
    show ?thesis
    proof (cases ?a)
      case None
      then show ?thesis using ret False by (subst fill_span.simps) (auto simp: all_commits_def)
    next
      case (Some x)
      obtain r bo1 w1 where a: "?a = Some (r, bo1, w1)" using Some by (cases x) auto
      note al = alloc_ok[OF inv want a]
      show ?thesis
      proof (cases r)
        case None
        then have "commits span va_page (bo, w) False (bo1, w1)"
          using al by (auto simp: commits_def)
        then show ?thesis using False a None by (subst fill_span.simps) (simp add: all_commits_def)
      next
        case r: (Some y)
        obtain b start n where y: "y = (b, start, n)" by (cases y) auto
        have p: "0 < n" "n \<le> va_page - span" "st_inv (bo1, w1) ({b} \<times> {start..<start + n})" "has_room b (start + n) bo1"
          "no_leak bo {} \<longrightarrow> no_leak bo1 ({b} \<times> {start..<start + n})"
          using al(1) unfolding r y by auto
        obtain ok w2 where va: "api_va api (Map_pages span b start n) w1 = (ok, w2)" by fastforce
        note vl = va_law[OF st_invD(4)[OF p(3)] va]
        show ?thesis
        proof (cases ok)
          case nok: False
          have "st_inv (bo1, w2) ({b} \<times> {start..<start + n})" using p(3) vl by (simp add: st_inv_def)
          then obtain ok2 bo2 w3 where f: "sparse_backing_free api b start n (bo1, w2) = Some (ok2, bo2, w3)"
            "st_inv (bo2, w3) {}" "commitments bo2 = commitments bo1" "shape bo2 = shape bo1" "log w3 = log w2"
            "ok2 \<Longrightarrow> no_leak bo1 ({b} \<times> {start..<start + n}) \<Longrightarrow> no_leak bo2 {}" "has_room b (start + n) bo1 \<Longrightarrow> ok2"
            using free_ok[OF _ p(1)] by metis
          have "ok2" using f(7) p(4) .
          moreover have "commits span va_page (bo, w) False (bo2, w3)"
            using f p(5) \<open>ok2\<close> al(2-4) vl nok by (simp add: commits_def)
          ultimately show ?thesis
            using False a r y va nok f(1) by (subst fill_span.simps) (simp add: all_commits_def)
        next
          case yok: True
          let ?bo = "bo1\<lparr>commitments := set_comm span b start n (commitments bo1)\<rparr>"
          have n1: "num_va_pages bo1 = num_va_pages bo" using al(3) by (rule shape_pages)
          have c1: "commits span (span + n) (bo, w) True (?bo, w2)"
            by (rule map_run_ok[OF p(3) al(2) _ _ va[unfolded yok[THEN eqTrueI]] al(3,4) p(5)])
              (use less.prems(3,4) p(2) n1 al(2) False in auto)
          have len: "length (commitments bo1) = num_va_pages bo" using sparse_wfD(1)[OF st_invD(1)[OF p(3)]] n1 by simp
          have rest: "\<forall>v. span + n \<le> v \<and> v < va_page \<longrightarrow> commitments ?bo ! v = None"
          proof (intro allI impI)
            fix v assume v: "span + n \<le> v \<and> v < va_page"
            then have "commitments ?bo ! v = commitments bo ! v"
              using c1 less.prems(3) unfolding commits_def by auto
            then show "commitments ?bo ! v = None" using v less.prems(4) by auto
          qed
          have ih: "all_commits (span + n) va_page (?bo, w2) (fill_span api va_page (span + n) (?bo, w2))"
            using c1 p(1,2) False less.prems(3) n1 rest by (intro less.hyps) (auto simp: commits_def)
          have e: "fill_span api va_page span (bo, w) = fill_span api va_page (span + n) (?bo, w2)"
            using False a r y va yok by (subst fill_span.simps) simp
          have nl: "no_leak bo {} \<longrightarrow> no_leak ?bo {}" using c1 by (simp add: commits_def)
          show ?thesis
            unfolding all_commits_def e
          proof (intro conjI allI impI)
            show "fill_span api va_page (span + n) (?bo, w2) \<noteq> None" if "no_leak (fst (bo, w)) {}"
              using ih nl that by (simp add: all_commits_def)
            fix ok1 st1 assume "fill_span api va_page (span + n) (?bo, w2) = Some (ok1, st1)"
            then have "commits (span + n) va_page (?bo, w2) ok1 st1" using ih unfolding all_commits_def by blast
            then show "commits span va_page (bo, w) ok1 st1"
              by (rule commits_trans[OF c1]) (use p(2) False less.prems(3) in auto)
          qed
        qed
      qed
    qed
  qed
qed

lemma span_end_spec:
  "va \<le> end_va \<Longrightarrow> va \<le> span_end comm end_va va \<and> span_end comm end_va va \<le> end_va \<and>
   (\<forall>v. va \<le> v \<and> v < span_end comm end_va va \<longrightarrow> comm ! v = None)"
proof (induction comm end_va va rule: span_end.induct)
  case (1 comm end_va va)
  show ?case
  proof (cases "va < end_va \<and> comm ! va = None")
    case True
    have e: "span_end comm end_va va = span_end comm end_va (va + 1)" using True by (subst span_end.simps) simp
    note ih = 1(1)[OF True]
    have "comm ! v = None" if "va \<le> v" "v < span_end comm end_va (va + 1)" for v
      using ih True that by (cases "v = va") auto
    then show ?thesis unfolding e using ih True by auto
  next
    case False
    have e: "span_end comm end_va va = va" unfolding span_end.simps[of comm end_va va] if_not_P[OF False] ..
    show ?thesis unfolding e using 1(2) by auto
  qed
qed

lemma commit_loop_ok:
  assumes "st_inv st {}" "va \<le> end_va" "end_va \<le> num_va_pages (fst st)"
  shows "all_commits va end_va st (commit_loop api end_va va st)"
  using assms
proof (induction "end_va - va" arbitrary: va st rule: less_induct)
  case less
  show ?case
  proof (cases "va < end_va")
    case False
    then have "commits va end_va st True st" using less.prems by (intro commits_refl) auto
    then show ?thesis using False by (subst commit_loop.simps) (auto simp: all_commits_def)
  next
    case True
    show ?thesis
    proof (cases "commitments (fst st) ! va")
      case (Some x)
      have e: "commit_loop api end_va va st = commit_loop api end_va (va + 1) st"
        using True Some by (subst commit_loop.simps) simp
      have ih: "all_commits (va + 1) end_va st (commit_loop api end_va (va + 1) st)"
        using True less.prems by (intro less.hyps) auto
      have c: "commits va (va + 1) st True st" using Some less.prems(1) by (intro commits_refl) (auto simp: less_Suc_eq_le)
      show ?thesis
        unfolding all_commits_def e
        using ih commits_trans[OF c] True less.prems(3) unfolding all_commits_def by auto
    next
      case None
      let ?m = "span_end (commitments (fst st)) end_va va"
      have m: "va < ?m" "?m \<le> end_va" "\<forall>v. va \<le> v \<and> v < ?m \<longrightarrow> commitments (fst st) ! v = None"
        using span_end_spec[OF less.prems(2), of "commitments (fst st)"] span_end_gt[OF True None] by auto
      obtain bo w where st: "st = (bo, w)" by fastforce
      have f: "all_commits va ?m st (fill_span api ?m va st)"
        unfolding st using less.prems m unfolding st by (intro fill_ok) auto
      have e: "commit_loop api end_va va st = (case fill_span api ?m va st of
                None \<Rightarrow> None | Some (False, st1) \<Rightarrow> Some (False, st1)
              | Some (True, st1) \<Rightarrow> commit_loop api end_va ?m st1)"
        using True None by (subst commit_loop.simps) (simp add: Let_def)
      show ?thesis
      proof (cases "fill_span api ?m va st")
        case fn: None
        then show ?thesis using f e by (simp add: all_commits_def)
      next
        case (Some r)
        obtain ok st1 where r: "r = (ok, st1)" by (rule prod.exhaust)
        have c: "commits va ?m st ok st1" using f Some r unfolding all_commits_def by blast
        show ?thesis
        proof (cases ok)
          case ok: False
          then have "commits va end_va st False st1" using commits_weaken[OF c _ m(2)] by simp
          then show ?thesis using e Some r ok by (auto simp: all_commits_def)
        next
          case ok: True
          have i1: "st_inv st1 {}" "num_va_pages (fst st1) = num_va_pages (fst st)"
            using c by (auto simp: commits_def shape_def)
          have ih: "all_commits ?m end_va st1 (commit_loop api end_va ?m st1)"
            using m i1 less.prems(3) True by (intro less.hyps) auto
          have "commit_loop api end_va va st = commit_loop api end_va ?m st1" using e Some r ok by simp
          moreover have "no_leak (fst st) {} \<longrightarrow> no_leak (fst st1) {}" using c by (simp add: commits_def)
          ultimately show ?thesis
            using ih commits_trans[OF c[unfolded ok[THEN eqTrueI]]] m less.prems(3) unfolding all_commits_def by auto
        qed
      qed
    qed
  qed
qed

end

section \<open>Runs of commits and uncommits\<close>

text \<open>
  The states after any sequence of calls of \<open>amdgpu_bo_sparse_commit\<close>. The flag says whether an
  uncommit has failed, in which case the code leaks pages.
\<close>

inductive sparse_run ::
    "'w winsys_api \<Rightarrow> amdgpu_bo_sparse \<times> 'w \<Rightarrow> bool \<Rightarrow> amdgpu_bo_sparse \<times> 'w \<Rightarrow> bool"
    for api :: "'w winsys_api" and st0 :: "amdgpu_bo_sparse \<times> 'w" where
  start: "sparse_run api st0 False st0"
| commit: "sparse_run api st0 leak st \<Longrightarrow> amdgpu_bo_sparse_commit api offset sz c st = Some (ok, st1) \<Longrightarrow>
    sparse_run api st0 (leak \<or> \<not> c \<and> \<not> ok) st1"

lemma commit_range:
  assumes "commit_asserts bo offset sz"
  shows "offset div RADEON_SPARSE_PAGE_SIZE + div_round_up sz RADEON_SPARSE_PAGE_SIZE \<le>
    div_round_up (sparse_size bo) RADEON_SPARSE_PAGE_SIZE"
proof -
  let ?P = RADEON_SPARSE_PAGE_SIZE
  have p: "0 < ?P" by (simp add: RADEON_SPARSE_PAGE_SIZE_def)
  have o: "offset div ?P * ?P = offset" "offset \<le> sparse_size bo" "sz \<le> sparse_size bo - offset"
    using assms by (auto simp: commit_asserts_def)
  then have "div_round_up (sparse_size bo - offset) ?P + offset div ?P = div_round_up (sparse_size bo) ?P"
    using div_round_up_sub[of "offset div ?P" ?P "sparse_size bo"] p by simp
  moreover have "div_round_up sz ?P \<le> div_round_up (sparse_size bo - offset) ?P"
    unfolding div_round_up_def using o(3) by (intro div_le_mono diff_le_mono) simp
  ultimately show ?thesis by simp
qed

lemma no_commits_free:
  assumes wf: "sparse_wf bo {}" and nl: "no_leak bo {}" and nu: "none_unused bo"
    and c: "\<forall>v<num_va_pages bo. commitments bo ! v = None"
  shows "backing bo = []"
proof (rule ccontr)
  assume "backing bo \<noteq> []"
  then obtain k where k: "k \<in> set (backing bo)" using last_in_set by blast
  note d = sparse_wfD[OF wf]
  have "committed bo = {}" using c d(1) by (auto simp: committed_def in_set_conv_nth)
  then have sub: "{..<backing_pages k} \<subseteq> free_pages (chunks k)"
    using nl free_set_at[OF d(2) k] unfolding no_leak_def by auto
  have ok: "chunks_ok 0 (backing_pages k) (chunks k)" "0 < backing_pages k" using d(3)[OF k] by (simp_all add: backing_wf_def)
  obtain a e cs where cs: "chunks k = (a, e) # cs" using sub ok(2) by (cases "chunks k") auto
  have "a = 0"
  proof -
    have "0 \<in> free_pages (chunks k)" using sub ok(2) by blast
    moreover have "0 \<notin> free_pages cs" using free_pages_bounds[of "Suc e" "backing_pages k" cs] ok(1) cs by fastforce
    ultimately show ?thesis using cs by auto
  qed
  have "e = backing_pages k"
  proof (rule ccontr)
    assume "e \<noteq> backing_pages k"
    then have "e < backing_pages k" using ok(1) cs by simp
    then have "e \<in> free_pages (chunks k)" using sub by blast
    moreover have "e \<notin> free_pages cs" using free_pages_bounds[of "Suc e" "backing_pages k" cs] ok(1) cs by fastforce
    ultimately show False using cs by auto
  qed
  moreover have "cs = []"
  proof (rule ccontr)
    assume "cs \<noteq> []"
    then show False using ok(1) cs \<open>e = backing_pages k\<close> by (cases cs) auto
  qed
  ultimately have "unused k" using cs \<open>a = 0\<close> by (simp add: unused_def)
  then show False using nu k by (simp add: none_unused_def)
qed

context sparse_world
begin

lemma uncommit_loop_ok:
  assumes "st_inv st {}" "va \<le> end_va" "end_va \<le> num_va_pages (fst st)"
  shows "\<exists>ok1 st1. uncommit_loop api end_va va ok st = Some (ok1, st1) \<and> st_inv st1 {} \<and> shape (fst st1) = shape (fst st) \<and>
    (ok1 \<longrightarrow> no_leak (fst st) {} \<longrightarrow> no_leak (fst st1) {}) \<and> (ok1 \<longrightarrow> ok) \<and> log (snd st1) = log (snd st) \<and>
    (\<forall>v<num_va_pages (fst st). commitments (fst st1) ! v = (if va \<le> v \<and> v < end_va then None else commitments (fst st) ! v))"
  using assms
proof (induction "end_va - va" arbitrary: va st ok rule: less_induct)
  case less
  show ?case
  proof (cases "va < end_va")
    case False
    then show ?thesis using less.prems by (subst uncommit_loop.simps) auto
  next
    case True
    show ?thesis
    proof (cases "commitments (fst st) ! va")
      case None
      have e: "uncommit_loop api end_va va ok st = uncommit_loop api end_va (va + 1) ok st"
        using True None by (subst uncommit_loop.simps) simp
      have at: "(if va \<le> v \<and> v < end_va then None else commitments (fst st) ! v) =
          (if va + 1 \<le> v \<and> v < end_va then None else commitments (fst st) ! v)" for v
        using None by (cases "v = va") auto
      show ?thesis unfolding e at using True less.prems by (intro less.hyps) auto
    next
      case (Some x)
      obtain b start where x: "x = (b, start)" by fastforce
      obtain bo w where st: "st = (bo, w)" by fastforce
      note i = st_invD[OF less.prems(1)[unfolded st]]
      obtain va1 n comm where cr: "clear_run end_va b start (va + 1) 1 ((commitments bo)[va := None]) = (va1, n, comm)"
        by (metis prod_cases3)
      have len: "end_va \<le> length (commitments bo)" using less.prems(3) sparse_wfD(1)[OF i(1)] st by simp
      have cd: "run_differs va b start n comm (commitments bo)" "va1 = va + n" "0 < n" "va1 \<le> end_va"
        using clear_run_differs[OF cr len True] Some x st by auto
      note uw = uncommit_run_wf[OF cd(1) i(1)]
      have "st_inv (bo\<lparr>commitments := comm\<rparr>, w) ({b} \<times> {start..<start + n})" using uw(1) i by (simp add: st_inv_def)
      then obtain freed bo1 w1 where f: "sparse_backing_free api b start n (bo\<lparr>commitments := comm\<rparr>, w) = Some (freed, bo1, w1)"
        "st_inv (bo1, w1) {}" "commitments bo1 = comm" "shape bo1 = shape bo" "log w1 = log w"
        "freed \<Longrightarrow> no_leak (bo\<lparr>commitments := comm\<rparr>) ({b} \<times> {start..<start + n}) \<Longrightarrow> no_leak bo1 {}"
        by (rule free_ok[OF _ cd(3)]) simp
      have n1: "num_va_pages bo1 = num_va_pages bo" using f(4) by (rule shape_pages)
      have "end_va - va1 < end_va - va" "va1 \<le> end_va" "end_va \<le> num_va_pages bo1"
        using cd True less.prems(3) n1 st by auto
      from less.hyps[OF this(1) f(2), of "ok \<and> freed"] this obtain ok2 st2 where
        ih: "uncommit_loop api end_va va1 (ok \<and> freed) (bo1, w1) = Some (ok2, st2)" "st_inv st2 {}" "shape (fst st2) = shape bo1"
        "ok2 \<longrightarrow> no_leak bo1 {} \<longrightarrow> no_leak (fst st2) {}" "ok2 \<longrightarrow> ok \<and> freed" "log (snd st2) = log w1"
        "\<forall>v<num_va_pages bo1. commitments (fst st2) ! v = (if va1 \<le> v \<and> v < end_va then None else commitments bo1 ! v)"
        by auto
      have e: "uncommit_loop api end_va va ok st = Some (ok2, st2)"
        using True Some x st cr f(1) ih(1) by (subst uncommit_loop.simps) simp
      have "commitments (fst st2) ! v = (if va \<le> v \<and> v < end_va then None else commitments bo ! v)"
        if v: "v < num_va_pages bo" for v
      proof -
        have l: "v < length comm" using v run_differsD(1)[OF cd(1)] sparse_wfD(1)[OF i(1)] by simp
        have "commitments (fst st2) ! v = (if va1 \<le> v \<and> v < end_va then None else comm ! v)"
          using ih(7) v n1 f(3) by simp
        then show ?thesis using run_differsD(3,4)[OF cd(1) l] cd(2,4) by auto
      qed
      then show ?thesis using e ih f(4-6) uw(2) st by auto
    qed
  qed
qed

text \<open>One call, on every branch.\<close>

lemma commit_ok:
  assumes inv: "st_inv (bo, w) {}" and a: "commit_asserts bo offset sz"
  defines "lo \<equiv> offset div RADEON_SPARSE_PAGE_SIZE"
  defines "hi \<equiv> lo + div_round_up sz RADEON_SPARSE_PAGE_SIZE"
  shows "all_commits lo hi (bo, w) (amdgpu_bo_sparse_commit api offset sz True (bo, w))"
proof -
  have "hi \<le> num_va_pages bo"
    using commit_range[OF a] sparse_wfD(9)[OF st_invD(1)[OF inv]] by (simp add: hi_def lo_def)
  then show ?thesis
    using commit_loop_ok[OF inv, of lo hi] a by (simp add: amdgpu_bo_sparse_commit_def hi_def lo_def Let_def)
qed

lemma uncommit_ok:
  assumes inv: "st_inv (bo, w) {}" and a: "commit_asserts bo offset sz"
  defines "lo \<equiv> offset div RADEON_SPARSE_PAGE_SIZE"
  defines "hi \<equiv> lo + div_round_up sz RADEON_SPARSE_PAGE_SIZE"
  obtains ok bo1 w1 where "amdgpu_bo_sparse_commit api offset sz False (bo, w) = Some (ok, bo1, w1)" "st_inv (bo1, w1) {}"
    "shape bo1 = shape bo" "ok \<Longrightarrow> no_leak bo {} \<Longrightarrow> no_leak bo1 {}"
    "\<forall>v<num_va_pages bo. (lo \<le> v \<and> v < hi \<longrightarrow> ok \<longrightarrow> commitments bo1 ! v = None) \<and>
       (\<not> (lo \<le> v \<and> v < hi) \<longrightarrow> commitments bo1 ! v = commitments bo ! v)"
    "page_table (log w) = comm_map (commitments bo) \<Longrightarrow> page_table (log w1) = comm_map (commitments bo1)"
proof -
  note i = st_invD[OF inv] and d = sparse_wfD[OF st_invD(1)[OF inv]]
  have hi: "hi \<le> num_va_pages bo" "lo \<le> hi"
    using commit_range[OF a] d(9) by (simp_all add: hi_def lo_def)
  obtain ok w1 where va: "api_va api (Unmap_pages lo (hi - lo)) w = (ok, w1)" by fastforce
  note vl = va_law[OF i(4) va]
  have inv1: "st_inv (bo, w1) {}" using i vl by (simp add: st_inv_def)
  show thesis
  proof (cases ok)
    case False
    then have "amdgpu_bo_sparse_commit api offset sz False (bo, w) = Some (False, bo, w1)"
      using a va by (simp add: amdgpu_bo_sparse_commit_def Let_def hi_def lo_def)
    then show thesis using that[of False bo w1] inv1 vl False by simp
  next
    case True
    obtain ok1 bo2 w2 where u: "uncommit_loop api hi lo True (bo, w1) = Some (ok1, bo2, w2)" "st_inv (bo2, w2) {}"
      "shape bo2 = shape bo" "ok1 \<longrightarrow> no_leak bo {} \<longrightarrow> no_leak bo2 {}" "log w2 = log w1"
      "\<forall>v<num_va_pages bo. commitments bo2 ! v = (if lo \<le> v \<and> v < hi then None else commitments bo ! v)"
      using uncommit_loop_ok[OF inv1 hi(2), of True] hi(1) by auto
    have e: "amdgpu_bo_sparse_commit api offset sz False (bo, w) = Some (ok1, bo2, w2)"
      using a va True u(1) by (simp add: amdgpu_bo_sparse_commit_def Let_def hi_def lo_def)
    have l: "length (commitments bo2) = num_va_pages bo" "length (commitments bo) = num_va_pages bo"
      using sparse_wfD(1)[OF st_invD(1)[OF u(2)]] shape_pages[OF u(3)] d(1) by simp_all
    have "page_table (log w2) = comm_map (commitments bo2)" if "page_table (log w) = comm_map (commitments bo)"
      using that u(5,6) vl True hi l by (auto simp: comm_map_def fun_eq_iff)
    then show thesis using that[OF e u(2,3)] u(4,6) by simp
  qed
qed

lemma create_ok:
  assumes w: "wok w" and r: "request_ok domain (backing_flags flags)"
    and c: "amdgpu_bo_sparse_create api check_vm sz domain flags w = (Some bo, w1)"
  shows "st_inv (bo, w1) {} \<and> no_leak bo {} \<and> page_table (log w1) = comm_map (commitments bo)"
proof -
  obtain ok1 w2 where m1: "api_malloc api w = (ok1, w2)" by fastforce
  obtain uid w3 where m2: "api_unique_id api w2 = (uid, w3)" by fastforce
  obtain ok2 w4 where m3: "api_malloc api w3 = (ok2, w4)" by fastforce
  let ?pages = "div_round_up sz RADEON_SPARSE_PAGE_SIZE"
  let ?gap = "if check_vm then 4 * RADEON_SPARSE_PAGE_SIZE else 0"
  obtain ok3 w5 where m4: "api_va api (Reserve (?pages * RADEON_SPARSE_PAGE_SIZE + ?gap)) w4 = (ok3, w5)" by fastforce
  obtain ok4 w6 where m5: "api_va api (Map_prt (?pages * RADEON_SPARSE_PAGE_SIZE)) w5 = (ok4, w6)" by fastforce
  have "wok w2" using malloc_law[OF w m1] by simp
  then have "wok w3" using unique_id_law[OF _ m2] by simp
  then have "wok w4" using malloc_law[OF _ m3] by simp
  then have l5: "wok w5" using va_law[OF _ m4] by simp
  have ok: "ok4" "w1 = w6" "bo = \<lparr>sparse_size = sz, sparse_placement = domain, sparse_usage = flags, sparse_unique_id = uid,
                  num_va_pages = ?pages, num_backing_pages = 0, backing = [], commitments = replicate ?pages None\<rparr>"
    using c m1 m2 m3 m4 m5 by (auto simp: amdgpu_bo_sparse_create_def Let_def split: if_splits)
  have l6: "wok w1" "log w1 = log w5 @ [Map_prt (?pages * RADEON_SPARSE_PAGE_SIZE)]" using va_law[OF l5 m5] ok by auto
  have "sparse_wf bo {}"
    by (auto simp: sparse_wf_def ok(3) comm_inj_def committed_def)
  then show ?thesis
    using l6 r by (auto simp: st_inv_def ok(3) none_unused_def handles_def no_leak_def all_set_def comm_map_def)
qed

lemma run_inv:
  assumes "sparse_run api (bo0, w0) leak st" "st_inv (bo0, w0) {}" "no_leak bo0 {}" "page_table (log w0) = comm_map (commitments bo0)"
  shows "st_inv st {} \<and> (\<not> leak \<longrightarrow> no_leak (fst st) {}) \<and> page_table (log (snd st)) = comm_map (commitments (fst st))"
  using assms(1)
proof (induction rule: sparse_run.induct)
  case start
  then show ?case using assms(2-4) by simp
next
  case (commit leak st offset sz c ok st1)
  note ih = commit.IH
  obtain bo w where st: "st = (bo, w)" by fastforce
  have inv: "st_inv (bo, w) {}" using ih st by simp
  have a: "commit_asserts bo offset sz"
    using commit.hyps(2) st by (auto simp: amdgpu_bo_sparse_commit_def split: if_splits)
  show ?case
  proof (cases c)
    case True
    have "commits (offset div RADEON_SPARSE_PAGE_SIZE) (offset div RADEON_SPARSE_PAGE_SIZE + div_round_up sz RADEON_SPARSE_PAGE_SIZE) (bo, w) ok st1"
      using commit_ok[OF inv a] commit.hyps(2)[unfolded st True[THEN eqTrueI]] unfolding all_commits_def by blast
    then show ?thesis using ih st True by (auto simp: commits_def)
  next
    case False
    obtain ok1 bo1 w1 where u: "amdgpu_bo_sparse_commit api offset sz False (bo, w) = Some (ok1, bo1, w1)" "st_inv (bo1, w1) {}"
      "ok1 \<Longrightarrow> no_leak bo {} \<Longrightarrow> no_leak bo1 {}"
      "page_table (log w) = comm_map (commitments bo) \<Longrightarrow> page_table (log w1) = comm_map (commitments bo1)"
      using uncommit_ok[OF inv a] by metis
    have "ok1 = ok" "st1 = (bo1, w1)" using u(1) commit.hyps(2) False st by auto
    then show ?thesis using u ih st False by auto
  qed
qed

end

end
