(* ===== verification/SparseBoProps.thy ===== *)
theory SparseBoProps
  imports SparseBo AmdgpuBoProps
begin

text \<open>
  Sparse buffers on the amdgpu winsys: the backing buffers are created by \<open>amdgpu_bo_create\<close> and
  released like any other buffer. The world holds the slab manager and the winsys, the history of
  page table requests, and what the environment answers to each call, numbered by \<open>calls\<close>.
\<close>

section \<open>The winsys as the world of a sparse buffer\<close>

record sparse_winsys =
  sw_slabs :: pb_slabs
  sw_aws :: aws
  sw_log :: "va_op list"
  calls :: nat
  create_answer :: "nat \<Rightarrow> create_env"
  malloc_answer :: "nat \<Rightarrow> bool"
  va_answer :: "nat \<Rightarrow> va_op \<Rightarrow> bool"

definition sw_create :: "nat \<Rightarrow> dword \<Rightarrow> dword \<Rightarrow> sparse_winsys \<Rightarrow> (nat \<times> nat) option \<times> sparse_winsys" where
  "sw_create sz domain flags w =
     (let (r, slabs, aws) = amdgpu_bo_create (create_answer w (calls w)) sz RADEON_SPARSE_PAGE_SIZE domain flags
                              (sw_slabs w, sw_aws w)
      in (case r of Real_bo bo \<Rightarrow> Some (buf bo, buf_size bo) | _ \<Rightarrow> None,
          w\<lparr>sw_slabs := slabs, sw_aws := aws, calls := calls w + 1\<rparr>))"

definition sw_release :: "nat \<Rightarrow> sparse_winsys \<Rightarrow> sparse_winsys" where
  "sw_release b w =
     (case in_use (sw_aws w) b of
        None \<Rightarrow> w
      | Some bo \<Rightarrow> w\<lparr>sw_aws := drop_reference ((sw_aws w)\<lparr>in_use := (in_use (sw_aws w))(b := None)\<rparr>) bo\<rparr>)"

definition sw_malloc :: "sparse_winsys \<Rightarrow> bool \<times> sparse_winsys" where
  "sw_malloc w = (malloc_answer w (calls w), w\<lparr>calls := calls w + 1\<rparr>)"

definition sw_va :: "va_op \<Rightarrow> sparse_winsys \<Rightarrow> bool \<times> sparse_winsys" where
  "sw_va op w =
     (let ok = va_answer w (calls w) op
      in (ok, w\<lparr>calls := calls w + 1, sw_log := (if ok then sw_log w @ [op] else sw_log w)\<rparr>))"

definition sw_unique_id :: "sparse_winsys \<Rightarrow> dword \<times> sparse_winsys" where
  "sw_unique_id w =
     (next_bo_unique_id (sw_aws w), w\<lparr>sw_aws := (sw_aws w)\<lparr>next_bo_unique_id := next_bo_unique_id (sw_aws w) + 1\<rparr>\<rparr>)"

definition amdgpu_api :: "sparse_winsys winsys_api" where
  "amdgpu_api = \<lparr>api_create = sw_create, api_release = sw_release, api_malloc = sw_malloc, api_va = sw_va,
     api_unique_id = sw_unique_id\<rparr>"

definition sw_live :: "sparse_winsys \<Rightarrow> nat set" where
  "sw_live w = dom (in_use (sw_aws w))"

definition slabs_ok :: "pb_slabs \<Rightarrow> aws \<Rightarrow> bool" where
  "slabs_ok sl aws \<longleftrightarrow> aws_ok aws \<and> gart_page_size aws dvd RADEON_SPARSE_PAGE_SIZE \<and>
     dom (store sl) \<subseteq> slab_live aws \<and> (\<exists>held. slabs_inv sl held)"

definition sw_ok :: "sparse_winsys \<Rightarrow> bool" where
  "sw_ok w \<longleftrightarrow> slabs_ok (sw_slabs w) (sw_aws w)"

definition backing_request :: "dword \<Rightarrow> dword \<Rightarrow> bool" where
  "backing_request domain flags \<longleftrightarrow> (domain = DOMAIN_VRAM \<or> domain = DOMAIN_GTT) \<and>
     flags AND FLAG_SPARSE = 0 \<and> flags AND FLAG_NO_INTERPROCESS_SHARING = 0"

lemma flag_bits:
  "(x :: dword) AND FLAG_SPARSE = 0 \<longleftrightarrow> \<not> bit x 3" "x AND FLAG_NO_INTERPROCESS_SHARING = 0 \<longleftrightarrow> \<not> bit x 4"
  using and_exp_eq_0_iff_not_bit[of x 3] and_exp_eq_0_iff_not_bit[of x 4] by (simp_all add: flag_defs)

lemma flag_bit_values:
  "bit FLAG_SPARSE n \<longleftrightarrow> n = 3" "bit FLAG_NO_INTERPROCESS_SHARING n \<longleftrightarrow> n = 4" "bit FLAG_NO_SUBALLOC n \<longleftrightarrow> n = 2"
  "bit FLAG_GTT_WC n \<longleftrightarrow> n = 0" "bit FLAG_NO_CPU_ACCESS n \<longleftrightarrow> n = 1" "bit FLAG_GFX12_ALLOW_DCC n \<longleftrightarrow> n = 12"
proof -
  have p: "FLAG_SPARSE = 2 ^ 3" "FLAG_NO_INTERPROCESS_SHARING = 2 ^ 4" "FLAG_NO_SUBALLOC = 2 ^ 2" "FLAG_GTT_WC = 2 ^ 0"
    "FLAG_NO_CPU_ACCESS = 2 ^ 1" "FLAG_GFX12_ALLOW_DCC = 2 ^ 12"
    by (simp_all add: flag_defs)
  show "bit FLAG_SPARSE n \<longleftrightarrow> n = 3" "bit FLAG_NO_INTERPROCESS_SHARING n \<longleftrightarrow> n = 4" "bit FLAG_NO_SUBALLOC n \<longleftrightarrow> n = 2"
    "bit FLAG_GTT_WC n \<longleftrightarrow> n = 0" "bit FLAG_NO_CPU_ACCESS n \<longleftrightarrow> n = 1" "bit FLAG_GFX12_ALLOW_DCC n \<longleftrightarrow> n = 12"
    unfolding p bit_exp_iff by auto
qed

lemma backing_request_flags: "domain = DOMAIN_VRAM \<or> domain = DOMAIN_GTT \<Longrightarrow> backing_request domain (backing_flags u)"
  by (simp add: backing_request_def flag_bits backing_flags_def bit_simps flag_bit_values)

lemma backing_canonical:
  assumes "backing_request domain flags" "radeon_canonicalize_bo_flags (domain, flags) = (d, f)"
  shows "d = domain" "backing_request d f" "f AND FLAG_SPARSE = 0" "radeon_get_heap_index d f = None" "\<not> use_reusable_pool d f"
    "domain AND DOMAIN_VRAM_GTT \<noteq> 0"
proof -
  have d: "domain = DOMAIN_VRAM \<or> domain = DOMAIN_GTT" and b: "\<not> bit flags 3" "\<not> bit flags 4"
    using assms(1) by (auto simp: backing_request_def flag_bits)
  have c: "radeon_canonicalize_bo_flags (dm, fl) = (dm, if dm = DOMAIN_VRAM then fl OR FLAG_GTT_WC
      else fl AND NOT FLAG_NO_CPU_ACCESS AND NOT FLAG_GFX12_ALLOW_DCC)"
    if "dm = DOMAIN_VRAM \<or> dm = DOMAIN_GTT" "\<not> bit fl 3" for dm fl
    using that by (auto simp: radeon_canonicalize_bo_flags_def Let_def domain_defs flag_bits bit_simps flag_bit_values)
  have f: "f = (if domain = DOMAIN_VRAM then flags OR FLAG_GTT_WC
      else flags AND NOT FLAG_NO_CPU_ACCESS AND NOT FLAG_GFX12_ALLOW_DCC)" and dd: "d = domain"
    using assms(2) c[OF d b(1)] by auto
  have fb: "\<not> bit f 3" "\<not> bit f 4" using b by (auto simp: f bit_simps flag_bit_values)
  have c2: "snd (radeon_canonicalize_bo_flags (d, f)) AND FLAG_NO_INTERPROCESS_SHARING = 0"
    using c[OF d[folded dd] fb(1)] fb by (auto simp: flag_bits bit_simps flag_bit_values)
  show "d = domain" by (fact dd)
  show "backing_request d f" "f AND FLAG_SPARSE = 0" using d dd fb by (simp_all add: backing_request_def flag_bits)
  show "radeon_get_heap_index d f = None" using c2 by (simp add: radeon_get_heap_index_def case_prod_unfold Let_def)
  show "\<not> use_reusable_pool d f" using fb by (simp add: use_reusable_pool_def flag_bits)
  show "domain AND DOMAIN_VRAM_GTT \<noteq> 0" using d by (auto simp: domain_defs)
qed

section \<open>Creating and releasing a backing buffer\<close>

text \<open>Cleaning up when memory is short touches no buffer in use.\<close>

lemma slab_free_in_use:
  assumes "aws_ok aws" "sid \<in> slab_live aws"
  shows "in_use (amdgpu_bo_slab_free aws sid slab) = in_use aws"
proof -
  obtain bo where b: "slab_bo aws sid = Some bo" using assms(2) by (auto simp: slab_live_def)
  let ?u = "aws\<lparr>slab_bo := (slab_bo aws)(sid := None)\<rparr>"
  let ?w = "sub_slab_wasted (placement bo) (of_nat (buf_size bo - num_entries slab * entry_size slab)) ?u"
  note u = untake_bo_ok(1)[OF assms(1) b]
  have w: "aws_ok ?w" by (rule aws_ok_same_cache[OF conjunct1[OF u] keeps_wasted(2)]) simp
  have f: "fresh_bo ?w bo" using u by (simp add: fresh_bo_def taken_def)
  have "in_use (drop_reference ?w bo) = in_use ?w" using drop_reference_ok(2)[OF w f] by (simp add: keeps_bos_def)
  then show ?thesis by (simp add: amdgpu_bo_slab_free_def b)
qed

lemma clean_up_ok:
  assumes ok: "slabs_ok sl aws" and c: "amdgpu_clean_up_buffer_managers can (sl, aws) = (sl1, aws1)"
  shows "slabs_ok sl1 aws1 \<and> in_use aws1 = in_use aws"
proof -
  obtain held where i: "slabs_inv sl held" "dom (store sl) \<subseteq> slab_live aws" "aws_ok aws" "gart_page_size aws dvd RADEON_SPARSE_PAGE_SIZE"
    using ok by (auto simp: slabs_ok_def)
  obtain n sl2 p where r: "pb_slabs_reclaim can amdgpu_bo_slab_free (sl, aws) = (n, sl2, p)" by (metis prod_cases3)
  obtain m cc w where f: "pb_cache_release_all_buffers amdgpu_bo_destroy (bo_cache p, p) = (m, cc, w)" by (metis prod_cases3)
  have e: "sl1 = sl2" "aws1 = w\<lparr>bo_cache := cc\<rparr>" using c r f by (auto simp: amdgpu_clean_up_buffer_managers_def)
  let ?es = "reclaimed can 0 (reclaim sl)"
  define pok where "pok q \<longleftrightarrow> aws_ok q \<and> same_chip aws q \<and> in_use q = in_use aws" for q
  have fo: "(sl2, p) = fold (pb_slab_reclaim amdgpu_bo_slab_free) ?es (sl, aws)"
    using r by (simp add: pb_slabs_reclaim_def pb_slabs_reclaim_locked_def reclaim_loop_fold)
  have step: "pok (amdgpu_bo_slab_free q sid slab) \<and> slab_live (amdgpu_bo_slab_free q sid slab) = slab_live q - {sid}"
    if "pok q" "sid \<in> slab_live q" for q sid slab
    using that slab_free_ok[of q sid slab] slab_free_chip[of q sid slab] slab_free_in_use[of q sid slab] chip_trans[of aws q]
    unfolding pok_def by simp
  have "pok aws" using i by (simp add: pok_def same_chip_def)
  then have "slabs_inv sl2 held \<and> released slab_live (sl, aws) (sl2, p) \<and> pok p"
    using fold_reclaim_inv[of "(sl, aws)" held ?es pok slab_live amdgpu_bo_slab_free]
      i reclaimed_sub(1)[of can 0 "reclaim sl"] reclaimed_sub(2)[OF reclaim_distinct[OF i(1)], of can 0] step
    unfolding fo[symmetric] by simp
  then have p: "slabs_inv sl2 held" "aws_ok p" "same_chip aws p" "in_use p = in_use aws"
    and rl: "slab_live p = slab_live aws - (dom (store sl) - dom (store sl2))" "dom (store sl2) \<subseteq> dom (store sl)"
    by (simp_all add: released_def pok_def)
  have live: "dom (store sl2) \<subseteq> slab_live p" unfolding rl(1) using rl(2) i(2) by blast
  note fl = flush_ok[OF p(2) f]
  have "slab_live aws1 = slab_live p" using keeps_live[OF fl(2)] e(2) by simp
  moreover have "gart_page_size aws1 = gart_page_size aws" "in_use aws1 = in_use aws"
    using fl(2) p(3,4) e(2) by (simp_all add: keeps_bos_def same_chip_def)
  ultimately show ?thesis using i(4) p(1) live fl(1) e unfolding slabs_ok_def by auto
qed

lemma create_again_size:
  assumes ok: "aws_ok aws" and g: "gart_page_size aws dvd RADEON_SPARSE_PAGE_SIZE" and d: "d AND DOMAIN_VRAM_GTT \<noteq> 0"
    and sz: "sz \<le> 8 * 1024 * 1024" and c: "bo_create_again env aws sz al d f = (Some bo, aws1)"
  shows "sz \<le> buf_size bo" "buf_size bo \<le> div_round_up sz RADEON_SPARSE_PAGE_SIZE * RADEON_SPARSE_PAGE_SIZE"
proof -
  let ?g = "gart_page_size aws" and ?P = RADEON_SPARSE_PAGE_SIZE
  have gp: "0 < ?g" "?g < 2 ^ 32" using aws_okD(10,11)[OF ok] by simp_all
  have s: "buf_size bo = align64 sz ?g"
    using c d by (auto simp: bo_create_again_def page_aligned_def elim!: create_bo_cases)
  have small: "sz + ?g - 1 < 2 ^ 64" using sz gp(2) by simp
  have "sz + ?g \<le> 2 ^ 64" using sz gp(2) by simp
  then show "sz \<le> buf_size bo" unfolding s by (rule align64_ge[OF gp(1)])
  have e: "buf_size bo = div_round_up sz ?g * ?g" unfolding s align64_def div_round_up_def using small by simp
  obtain q where q: "?P = ?g * q" using g by auto
  let ?n = "div_round_up sz ?P"
  have "sz \<le> ?n * ?P" by (rule div_round_up_mult_ge) (simp add: RADEON_SPARSE_PAGE_SIZE_def)
  then have "sz \<le> (?n * q) * ?g" by (simp add: q ac_simps)
  then have "sz + ?g - 1 < (?n * q + 1) * ?g" using gp(1) by simp
  then have "div_round_up sz ?g < ?n * q + 1" unfolding div_round_up_def by (simp add: less_mult_imp_div_less)
  then have "div_round_up sz ?g \<le> ?n * q" by simp
  then have "div_round_up sz ?g * ?g \<le> ?n * q * ?g" by (rule mult_le_mono1)
  then show "buf_size bo \<le> ?n * ?P" unfolding e by (simp add: q ac_simps)
qed

lemma sw_create_ok:
  assumes ok: "sw_ok w" and rq: "backing_request domain flags" and sz: "RADEON_SPARSE_PAGE_SIZE \<le> sz" "sz \<le> 8 * 1024 * 1024"
    and c: "sw_create sz domain flags w = (r, w')"
  shows "sw_ok w' \<and> sw_log w' = sw_log w \<and>
      (case r of None \<Rightarrow> sw_live w' = sw_live w
       | Some (b, s) \<Rightarrow> b \<notin> sw_live w \<and> sw_live w' = insert b (sw_live w) \<and> sz \<le> s \<and>
           s \<le> div_round_up sz RADEON_SPARSE_PAGE_SIZE * RADEON_SPARSE_PAGE_SIZE)"
proof -
  let ?P = RADEON_SPARSE_PAGE_SIZE
  obtain d f where df: "radeon_canonicalize_bo_flags (domain, flags) = (d, f)" by fastforce
  note bc = backing_canonical[OF rq df]
  define env where "env = create_answer w (calls w)"
  have real: "amdgpu_bo_create env sz ?P domain flags (sw_slabs w, sw_aws w) = bo_create_real_bo env sz ?P d f (sw_slabs w, sw_aws w)"
    unfolding amdgpu_bo_create_def by (simp add: df bc(3,4) Let_def)
  have first: "bo_create_first (real_env env 0) aws sz ?P d f = (case bo_create_again (real_env env 0) aws sz ?P d f of
                      (Some bo, aws1) \<Rightarrow> (Bo bo, aws1) | (None, aws1) \<Rightarrow> (Retry, aws1))" for aws
    unfolding bo_create_first_def using bc(5) by (simp add: case_prod_unfold Let_def split: option.split)
  have i: "slabs_ok (sw_slabs w) (sw_aws w)" using ok by (simp add: sw_ok_def)
  have dv: "d AND DOMAIN_VRAM_GTT \<noteq> 0" using bc(1,6) by simp
  have keep: "slabs_ok sl a'" if "slabs_ok sl a" "keeps_bos a a'" "aws_ok a'" for sl a a'
    using that keeps_live[OF that(2)] by (auto simp: slabs_ok_def keeps_bos_def same_chip_def)
  have got: "sw_ok w' \<and> sw_log w' = sw_log w \<and> (case r of None \<Rightarrow> sw_live w' = sw_live w
       | Some (b, s) \<Rightarrow> b \<notin> sw_live w \<and> sw_live w' = insert b (sw_live w) \<and> sz \<le> s \<and> s \<le> div_round_up sz ?P * ?P)"
    if a: "slabs_ok sl aws" "in_use aws = in_use (sw_aws w)" and b: "bo_create_again e aws sz ?P d f = (Some bo, aws1)"
      and res: "bo_create_real_bo env sz ?P d f (sw_slabs w, sw_aws w) = (Real_bo bo, sl, aws1\<lparr>in_use := (in_use aws1)(buf bo \<mapsto> bo)\<rparr>)"
    for sl aws e bo aws1
  proof -
    have aok: "aws_ok aws" "gart_page_size aws dvd ?P" using a(1) by (simp_all add: slabs_ok_def)
    note o = create_again_ok[OF aok(1) b] and size = create_again_size[OF aok dv sz(2) b]
    have fresh: "fresh_bo aws1 bo" using o(3) by simp
    have iu: "in_use aws1 = in_use (sw_aws w)" using o(2) a(2) by (simp add: keeps_bos_def)
    have new: "buf bo \<notin> dom (in_use (sw_aws w))" using fresh iu by (auto simp: fresh_bo_def taken_def)
    let ?a = "aws1\<lparr>in_use := (in_use aws1)(buf bo \<mapsto> bo)\<rparr>"
    have k: "slabs_ok sl aws1" by (rule keep[OF a(1) o(2,1)])
    have "slabs_ok sl ?a" using k take_bo_ok(2)[OF o(1) fresh] by (auto simp: slabs_ok_def slab_live_def)
    then show ?thesis
      using c real res size new iu by (auto simp: sw_create_def env_def[symmetric] sw_ok_def sw_live_def)
  qed
  have none: "sw_ok w' \<and> sw_log w' = sw_log w \<and> (case r of None \<Rightarrow> sw_live w' = sw_live w
       | Some (b, s) \<Rightarrow> b \<notin> sw_live w \<and> sw_live w' = insert b (sw_live w) \<and> sz \<le> s \<and> s \<le> div_round_up sz ?P * ?P)"
    if "slabs_ok sl aws" "in_use aws = in_use (sw_aws w)"
      "bo_create_real_bo env sz ?P d f (sw_slabs w, sw_aws w) = (No_memory, sl, aws)" for sl aws
    using that c real by (auto simp: sw_create_def env_def[symmetric] sw_ok_def sw_live_def)
  obtain r1 aws1 where a1: "bo_create_again (real_env env 0) (sw_aws w) sz ?P d f = (r1, aws1)" by fastforce
  have aok: "aws_ok (sw_aws w)" using i by (simp add: slabs_ok_def)
  show ?thesis
  proof (cases r1)
    case (Some bo)
    show ?thesis
      by (rule got[OF i refl a1[unfolded Some]]) (simp add: bo_create_real_bo_def first a1 Some)
  next
    case None
    note o = create_again_ok(1,2)[OF aok a1]
    obtain sl2 aws2 where cu: "amdgpu_clean_up_buffer_managers (entry_idle env 5) (sw_slabs w, aws1) = (sl2, aws2)" by fastforce
    have i2: "slabs_ok sl2 aws2" "in_use aws2 = in_use (sw_aws w)"
      using clean_up_ok[OF keep[OF i o(2,1)] cu] o(2) by (auto simp: keeps_bos_def)
    obtain r3 aws3 where a3: "bo_create_again (real_env env 1) aws2 sz ?P d f = (r3, aws3)" by fastforce
    show ?thesis
    proof (cases r3)
      case r3: (Some bo)
      show ?thesis
        by (rule got[OF i2 a3[unfolded r3]]) (simp add: bo_create_real_bo_def first a1 None cu a3[unfolded One_nat_def] r3)
    next
      case r3: None
      have aok2: "aws_ok aws2" using i2(1) by (simp add: slabs_ok_def)
      note o3 = create_again_ok(1,2)[OF aok2 a3]
      have "in_use aws3 = in_use (sw_aws w)" using o3(2) i2(2) by (simp add: keeps_bos_def)
      then show ?thesis
        by (rule none[OF keep[OF i2(1) o3(2,1)]]) (simp add: bo_create_real_bo_def first a1 None cu a3[unfolded One_nat_def] r3)
    qed
  qed
qed

lemma sw_release_ok:
  assumes ok: "sw_ok w" and b: "b \<in> sw_live w"
  shows "sw_ok (sw_release b w) \<and> sw_live (sw_release b w) = sw_live w - {b} \<and> sw_log (sw_release b w) = sw_log w"
proof -
  obtain bo where bo: "in_use (sw_aws w) b = Some bo" using b by (auto simp: sw_live_def)
  have i: "slabs_ok (sw_slabs w) (sw_aws w)" "aws_ok (sw_aws w)" using ok by (auto simp: sw_ok_def slabs_ok_def)
  let ?a = "(sw_aws w)\<lparr>in_use := (in_use (sw_aws w))(b := None)\<rparr>"
  have a: "aws_ok ?a" "fresh_bo ?a bo" using untake_bo_ok(2)[OF i(2) bo] by simp_all
  note d = drop_reference_ok[OF a]
  have "slab_live (drop_reference ?a bo) = slab_live (sw_aws w)" using keeps_live[OF d(2)] by (simp add: slab_live_def)
  moreover have "in_use (drop_reference ?a bo) = (in_use (sw_aws w))(b := None)"
    "gart_page_size (drop_reference ?a bo) = gart_page_size (sw_aws w)"
    using d(2) by (simp_all add: keeps_bos_def same_chip_def)
  ultimately show ?thesis
    using i(1) d(1) bo by (auto simp: sw_release_def sw_ok_def sw_live_def slabs_ok_def)
qed

interpretation amdgpu_sparse: sparse_world amdgpu_api sw_live sw_log sw_ok backing_request
proof (unfold_locales, goal_cases)
  case (1 w ok w')
  then show ?case by (auto simp: amdgpu_api_def sw_malloc_def sw_ok_def sw_live_def)
next
  case (2 w i w')
  let ?a = "(sw_aws w)\<lparr>next_bo_unique_id := next_bo_unique_id (sw_aws w) + 1\<rparr>"
  have k: "keeps_bos (sw_aws w) ?a" by (simp add: keeps_bos_def same_chip_def)
  have "aws_ok ?a" using aws_ok_same_cache[OF _ k] 2(1) by (simp add: sw_ok_def slabs_ok_def)
  moreover have "w' = w\<lparr>sw_aws := ?a\<rparr>" using 2(2) by (auto simp: amdgpu_api_def sw_unique_id_def)
  ultimately show ?case using 2(1) keeps_live[OF k] by (simp add: sw_ok_def slabs_ok_def sw_live_def)
next
  case (3 w op ok w')
  then show ?case by (auto simp: amdgpu_api_def sw_va_def Let_def sw_ok_def sw_live_def)
next
  case (4 w d f sz r w')
  then show ?case using sw_create_ok[of w d f sz r w'] by (simp add: amdgpu_api_def)
next
  case (5 w b)
  then show ?case using sw_release_ok[of w b] by (simp add: amdgpu_api_def)
qed


section \<open>A small example\<close>

text \<open>A sparse buffer of two pages of which the first gets committed.\<close>

definition ex_world :: sparse_winsys where
  "ex_world = \<lparr>sw_slabs = ex_slabs, sw_aws = ex_aws 0, sw_log = [], calls = 0,
     create_answer = (\<lambda>_. \<lparr>slab_env = (\<lambda>_. ex_env), real_env = (\<lambda>_. ex_env), entry_idle = (\<lambda>_ _. True)\<rparr>),
     malloc_answer = (\<lambda>_. True), va_answer = (\<lambda>_ _. True)\<rparr>"

definition ex_sparse :: amdgpu_bo_sparse where
  "ex_sparse = \<lparr>sparse_size = 131072, sparse_placement = DOMAIN_GTT, sparse_usage = FLAG_SPARSE, sparse_unique_id = 0,
     num_va_pages = 2, num_backing_pages = 0, backing = [], commitments = [None, None]\<rparr>"

definition ex_world1 :: sparse_winsys where
  "ex_world1 = ex_world\<lparr>sw_aws := (ex_aws 0)\<lparr>next_bo_unique_id := 1\<rparr>, sw_log := [Reserve 131072, Map_prt 131072], calls := 4\<rparr>"

lemma ex_world_ok: "sw_ok ex_world"
proof -
  have "amdgpu_slabs.sys_inv (initial_sys ex_slabs (ex_aws 0))" by (rule initial_inv[OF ex_slabs_init ex_aws_ok])
  then have "slabs_inv ex_slabs []" "dom (store ex_slabs) \<subseteq> slab_live (ex_aws 0)"
    by (simp_all add: amdgpu_slabs.sys_inv_def initial_sys_def)
  moreover have "gart_page_size (ex_aws 0) dvd RADEON_SPARSE_PAGE_SIZE" by (simp add: ex_aws_def RADEON_SPARSE_PAGE_SIZE_def)
  ultimately show ?thesis using ex_aws_ok(1)[of 0] unfolding sw_ok_def slabs_ok_def by (auto simp: ex_world_def)
qed

lemma ex_api:
  "api_malloc amdgpu_api w = (malloc_answer w (calls w), w\<lparr>calls := calls w + 1\<rparr>)"
  "api_create amdgpu_api = sw_create" "api_va amdgpu_api = sw_va" "api_unique_id amdgpu_api = sw_unique_id"
  by (simp_all add: amdgpu_api_def sw_malloc_def)

lemma replicate_2: "replicate 2 x = [x, x]"
  by (simp add: numeral_2_eq_2)

lemma ex_pages: "div_round_up 131072 RADEON_SPARSE_PAGE_SIZE = 2" "div_round_up 65536 RADEON_SPARSE_PAGE_SIZE = 1"
  "2 * RADEON_SPARSE_PAGE_SIZE = 131072"
  by (simp_all add: div_round_up_def RADEON_SPARSE_PAGE_SIZE_def)

lemma ex_create: "amdgpu_bo_sparse_create amdgpu_api False 131072 DOMAIN_GTT FLAG_SPARSE ex_world = (Some ex_sparse, ex_world1)"
  unfolding amdgpu_bo_sparse_create_def ex_api ex_pages sw_va_def sw_unique_id_def
  by (simp add: Let_def RADEON_SPARSE_PAGE_SIZE_def ex_world_def ex_world1_def ex_sparse_def replicate_2 ex_aws_def)

lemma ex_again_gtt:
  assumes "gart_page_size aws = 4096" "next_addr aws = 0"
  shows "\<exists>bo aws1. bo_create_again ex_env aws 65536 65536 DOMAIN_GTT f = (Some bo, aws1) \<and> buf bo = 0 \<and> buf_size bo = 65536"
proof -
  obtain d g where p: "place_without_vram aws (DOMAIN_GTT, f) = (d, g)" by fastforce
  have "page_aligned aws DOMAIN_GTT 65536 65536 = (65536, 65536)"
    by (simp add: page_aligned_def assms align64_def align_u32_def u64_def u32_def domain_defs)
  then show ?thesis unfolding bo_create_again_def amdgpu_create_bo_def
    by (simp add: p Let_def ex_env_def bo_va_def assms)
qed

lemma ex_sw_create: "\<exists>w2. sw_create 65536 DOMAIN_GTT (backing_flags FLAG_SPARSE) (ex_world1\<lparr>calls := n\<rparr>) = (Some (0, 65536), w2) \<and> va_answer w2 = (\<lambda>_ _. True)"
proof -
  have rq: "backing_request DOMAIN_GTT (backing_flags FLAG_SPARSE)" by (rule backing_request_flags) simp
  obtain d f where df: "radeon_canonicalize_bo_flags (DOMAIN_GTT, backing_flags FLAG_SPARSE) = (d, f)" by fastforce
  note bc = backing_canonical[OF rq df]
  let ?aws = "(ex_aws 0)\<lparr>next_bo_unique_id := 1\<rparr>"
  let ?env = "\<lparr>slab_env = (\<lambda>_. ex_env), real_env = (\<lambda>_. ex_env), entry_idle = (\<lambda>_ _. True)\<rparr>"
  obtain bo aws1 where a: "bo_create_again ex_env ?aws 65536 65536 DOMAIN_GTT f = (Some bo, aws1)" "buf bo = 0" "buf_size bo = 65536"
    using ex_again_gtt[of ?aws f] by (auto simp: ex_aws_def)
  have "bo_create_first ex_env ?aws 65536 65536 DOMAIN_GTT f = (Bo bo, aws1)"
    unfolding bo_create_first_def using bc(1,5) a(1) by (simp add: case_prod_unfold Let_def)
  then have "amdgpu_bo_create ?env 65536 65536 DOMAIN_GTT (backing_flags FLAG_SPARSE) (ex_slabs, ?aws) =
      (Real_bo bo, ex_slabs, aws1\<lparr>in_use := (in_use aws1)(buf bo \<mapsto> bo)\<rparr>)"
    unfolding amdgpu_bo_create_def using bc(1,3,4) by (simp add: df Let_def bo_create_real_bo_def)
  then show ?thesis
    by (simp add: sw_create_def ex_world1_def ex_world_def a RADEON_SPARSE_PAGE_SIZE_def)
qed

lemma ex_commit:
  "\<exists>bo w. amdgpu_bo_sparse_commit amdgpu_api 0 65536 True (ex_sparse, ex_world1) = Some (True, bo, w) \<and>
     commitments bo = [Some (0, 0), None] \<and> num_va_pages bo = 2"
proof -
  have ma: "malloc_answer ex_world1 n" for n by (simp add: ex_world1_def ex_world_def)
  obtain w2 where c: "sw_create 65536 DOMAIN_GTT (backing_flags FLAG_SPARSE) (ex_world1\<lparr>calls := 6\<rparr>) = (Some (0, 65536), w2)"
    "va_answer w2 = (\<lambda>_ _. True)" using ex_sw_create by blast
  have bs: "backing ex_sparse = []" by (simp add: ex_sparse_def)
  have ca: "calls ex_world1 = 4" by (simp add: ex_world1_def)
  have nb: "new_backing amdgpu_api (ex_sparse, ex_world1) = Some (Some (0, 1),
      ex_sparse\<lparr>backing := [\<lparr>backing_bo = 0, backing_size = 65536, chunks = [(0, 1)], max_chunks = 4\<rparr>], num_backing_pages := 1\<rparr>, w2)"
    using c(1) by (simp add: new_backing_def ex_api ma ca ex_sparse_def new_backing_size_def RADEON_SPARSE_PAGE_SIZE_def
        div_round_up_def)
  have al: "sparse_backing_alloc amdgpu_api 1 (ex_sparse, ex_world1) = Some (Some (0, 0, 1),
      ex_sparse\<lparr>backing := [\<lparr>backing_bo = 0, backing_size = 65536, chunks = [], max_chunks = 4\<rparr>], num_backing_pages := 1\<rparr>, w2)"
    using nb by (simp add: sparse_backing_alloc_def bs take_pages_def find_backing_def update_backing_def take_front_def)
  have se: "span_end [None, None] 1 0 = 1"
    by (subst span_end.simps, simp, subst span_end.simps, simp)
  have "\<exists>bo w. commit_loop amdgpu_api 1 0 (ex_sparse, ex_world1) = Some (True, bo, w) \<and>
     commitments bo = [Some (0, 0), None] \<and> num_va_pages bo = 2"
    using al se c(2)
    by (subst commit_loop.simps, simp add: ex_sparse_def Let_def, subst fill_span.simps, simp add: ex_api sw_va_def Let_def,
        subst fill_span.simps, simp, subst commit_loop.simps, simp)
  then show ?thesis
    unfolding amdgpu_bo_sparse_commit_def
    by (simp add: commit_asserts_def ex_sparse_def ex_pages Let_def RADEON_SPARSE_PAGE_SIZE_def div_round_up_def)
qed

lemma ex_run:
  obtains bo w where "sparse_run amdgpu_api (ex_sparse, ex_world1) False (bo, w)" "commitments bo = [Some (0, 0), None]" "num_va_pages bo = 2"
proof -
  obtain bo w where c: "amdgpu_bo_sparse_commit amdgpu_api 0 65536 True (ex_sparse, ex_world1) = Some (True, bo, w)"
    "commitments bo = [Some (0, 0), None]" "num_va_pages bo = 2" using ex_commit by blast
  show thesis using that[OF _ c(2,3)] sparse_run.commit[OF sparse_run.start c(1)] by simp
qed

lemma ex_gtt: "DOMAIN_GTT = DOMAIN_VRAM \<or> DOMAIN_GTT = DOMAIN_GTT"
  by simp

section \<open>What holds of every sparse buffer\<close>

lemma sparse_reachable:
  assumes "sw_ok w0" "domain = DOMAIN_VRAM \<or> domain = DOMAIN_GTT"
    and "amdgpu_bo_sparse_create amdgpu_api check sz domain flags w0 = (Some bo0, w1)"
    and "sparse_run amdgpu_api (bo0, w1) leak (bo, w)"
  shows "amdgpu_sparse.st_inv (bo, w) {}" "\<not> leak \<Longrightarrow> no_leak bo {}" "page_table (sw_log w) = comm_map (commitments bo)"
proof -
  note c = amdgpu_sparse.create_ok[OF assms(1) backing_request_flags[OF assms(2)] assms(3)]
  then show "amdgpu_sparse.st_inv (bo, w) {}" "\<not> leak \<Longrightarrow> no_leak bo {}" "page_table (sw_log w) = comm_map (commitments bo)"
    using amdgpu_sparse.run_inv[OF assms(4)] by simp_all
qed

text \<open>C7: After any sequence of commits and uncommits of a sparse buffer, also failed ones, a committed page
  is a page of a backing buffer that is in use, not on the list of free pages of that buffer, and no
  other page of the sparse buffer is committed to it.\<close>

theorem sparse_no_aliasing:
  assumes "sw_ok w0" "domain = DOMAIN_VRAM \<or> domain = DOMAIN_GTT"
    and "amdgpu_bo_sparse_create amdgpu_api check sz domain flags w0 = (Some bo0, w1)"
    and "sparse_run amdgpu_api (bo0, w1) leak (bo, w)"
    and "v < num_va_pages bo" "commitments bo ! v = Some (b, p)"
  shows "(\<exists>k\<in>set (backing bo). backing_bo k = b \<and> p < backing_pages k \<and> p \<notin> free_pages (chunks k)) \<and>
    in_use (sw_aws w) b \<noteq> None \<and> (\<forall>u<num_va_pages bo. commitments bo ! u = Some (b, p) \<longrightarrow> u = v)"
proof -
  note i = amdgpu_sparse.st_invD[OF sparse_reachable(1)[OF assms(1-4)]]
  note d = sparse_wfD[OF i(1)]
  have "(b, p) \<in> committed bo" using assms(5,6) d(1) nth_mem[of v "commitments bo"] by (simp add: committed_def)
  then have "(b, p) \<in> all_set bo" "(b, p) \<notin> free_set bo" using d(6,7) by auto
  then obtain k where k: "k \<in> set (backing bo)" "backing_bo k = b" "p < backing_pages k" "p \<notin> free_pages (chunks k)"
    by (auto simp: all_set_def free_set_def)
  moreover have "b \<in> sw_live w" using i(3) k(1,2) by (auto simp: handles_def)
  ultimately show ?thesis
    using d(1,5) assms(5,6) unfolding comm_inj_def by (auto simp: sw_live_def)
qed

text \<open>C7 on the example: the committed page is backed by a buffer in use.\<close>

theorem sparse_no_aliasing_witness:
  "\<exists>bo w. sparse_run amdgpu_api (ex_sparse, ex_world1) False (bo, w) \<and> commitments bo = [Some (0, 0), None] \<and>
     in_use (sw_aws w) 0 \<noteq> None"
proof -
  obtain bo w where r: "sparse_run amdgpu_api (ex_sparse, ex_world1) False (bo, w)" "commitments bo = [Some (0, 0), None]" "num_va_pages bo = 2"
    by (rule ex_run)
  have v: "0 < num_va_pages bo" "commitments bo ! 0 = Some (0, 0)" using r by simp_all
  show ?thesis using sparse_no_aliasing[OF ex_world_ok ex_gtt ex_create r(1) v] r by blast
qed

text \<open>C9: The page table of the GPU, as left by the requests that succeeded, maps exactly the committed
  pages, each to the backing page in the commitments.\<close>

theorem sparse_page_table:
  assumes "sw_ok w0" "domain = DOMAIN_VRAM \<or> domain = DOMAIN_GTT"
    and "amdgpu_bo_sparse_create amdgpu_api check sz domain flags w0 = (Some bo0, w1)"
    and "sparse_run amdgpu_api (bo0, w1) leak (bo, w)"
  shows "page_table (sw_log w) v = (if v < num_va_pages bo then commitments bo ! v else None)"
  using sparse_reachable(3)[OF assms] sparse_wfD(1)[OF amdgpu_sparse.st_invD(1)[OF sparse_reachable(1)[OF assms]]]
  by (simp add: comm_map_def)

text \<open>C9 on the example.\<close>

theorem sparse_page_table_witness:
  "\<exists>bo w. sparse_run amdgpu_api (ex_sparse, ex_world1) False (bo, w) \<and> page_table (sw_log w) 0 = Some (0, 0) \<and>
     page_table (sw_log w) 7 = None"
proof -
  obtain bo w where r: "sparse_run amdgpu_api (ex_sparse, ex_world1) False (bo, w)" "commitments bo = [Some (0, 0), None]" "num_va_pages bo = 2"
    by (rule ex_run)
  show ?thesis
    using r(1) sparse_page_table[OF ex_world_ok ex_gtt ex_create r(1), of 0] sparse_page_table[OF ex_world_ok ex_gtt ex_create r(1), of 7] r(2,3)
    by auto
qed

text \<open>C11: As long as no uncommit has failed, a commit or uncommit of a range within the buffer returns: no
  assertion fails and the loops end. When it reports success the pages of the range are committed, or
  uncommitted; pages outside of the range are as before in any case.\<close>

theorem sparse_commit_returns:
  assumes "sw_ok w0" "domain = DOMAIN_VRAM \<or> domain = DOMAIN_GTT"
    and "amdgpu_bo_sparse_create amdgpu_api check sz domain flags w0 = (Some bo0, w1)"
    and "sparse_run amdgpu_api (bo0, w1) False (bo, w)" and "commit_asserts bo offset n"
  shows "\<exists>ok bo' w'. amdgpu_bo_sparse_commit amdgpu_api offset n c (bo, w) = Some (ok, bo', w') \<and>
    (\<forall>v<num_va_pages bo.
       if offset div RADEON_SPARSE_PAGE_SIZE \<le> v \<and>
          v < offset div RADEON_SPARSE_PAGE_SIZE + div_round_up n RADEON_SPARSE_PAGE_SIZE
       then ok \<longrightarrow> (commitments bo' ! v \<noteq> None) = c else commitments bo' ! v = commitments bo ! v)"
proof -
  note i = sparse_reachable[OF assms(1-4)]
  show ?thesis
  proof (cases c)
    case True
    note a = amdgpu_sparse.commit_ok[OF i(1) assms(5)]
    then obtain ok bo' w' where r: "amdgpu_bo_sparse_commit amdgpu_api offset n True (bo, w) = Some (ok, bo', w')"
      using i(2) unfolding amdgpu_sparse.all_commits_def by fastforce
    then show ?thesis using a True unfolding amdgpu_sparse.all_commits_def amdgpu_sparse.commits_def by auto
  next
    case False
    obtain ok bo' w' where "amdgpu_bo_sparse_commit amdgpu_api offset n False (bo, w) = Some (ok, bo', w')"
      "\<forall>v<num_va_pages bo. (offset div RADEON_SPARSE_PAGE_SIZE \<le> v \<and>
          v < offset div RADEON_SPARSE_PAGE_SIZE + div_round_up n RADEON_SPARSE_PAGE_SIZE \<longrightarrow> ok \<longrightarrow> commitments bo' ! v = None) \<and>
       (\<not> (offset div RADEON_SPARSE_PAGE_SIZE \<le> v \<and>
          v < offset div RADEON_SPARSE_PAGE_SIZE + div_round_up n RADEON_SPARSE_PAGE_SIZE) \<longrightarrow> commitments bo' ! v = commitments bo ! v)"
      by (rule amdgpu_sparse.uncommit_ok[OF i(1) assms(5)])
    then show ?thesis using False by auto
  qed
qed

text \<open>C11 on the example: committing both pages returns.\<close>

theorem sparse_commit_returns_witness:
  "\<exists>ok bo' w'. amdgpu_bo_sparse_commit amdgpu_api 0 131072 True (ex_sparse, ex_world1) = Some (ok, bo', w')"
proof -
  have "commit_asserts ex_sparse 0 131072" by (simp add: commit_asserts_def ex_sparse_def)
  from sparse_commit_returns[OF ex_world_ok ex_gtt ex_create sparse_run.start this, of True] show ?thesis by blast
qed

text \<open>As long as no uncommit has failed, a sparse buffer without committed pages holds no backing
  memory: uncommitting everything gives all of it back.\<close>

theorem sparse_all_released:
  assumes "sw_ok w0" "domain = DOMAIN_VRAM \<or> domain = DOMAIN_GTT"
    and "amdgpu_bo_sparse_create amdgpu_api check sz domain flags w0 = (Some bo0, w1)"
    and "sparse_run amdgpu_api (bo0, w1) False (bo, w)" and "\<forall>v<num_va_pages bo. commitments bo ! v = None"
  shows "backing bo = [] \<and> num_backing_pages bo = 0"
proof -
  note r = sparse_reachable[OF assms(1-4)]
  note i = amdgpu_sparse.st_invD[OF r(1)]
  have "backing bo = []" by (rule no_commits_free[OF i(1) r(2) i(2) assms(5)]) simp
  then show ?thesis using sparse_wfD(4)[OF i(1)] by simp
qed

text \<open>On the example, before the first commit.\<close>

theorem sparse_all_released_witness: "backing ex_sparse = [] \<and> num_backing_pages ex_sparse = 0"
proof -
  have "commitments ex_sparse ! v = None" if "v < num_va_pages ex_sparse" for v
    using that by (cases v) (auto simp: ex_sparse_def less_Suc_eq)
  then show ?thesis using sparse_all_released[OF ex_world_ok ex_gtt ex_create sparse_run.start] by blast
qed

text \<open>C31: A sparse buffer never holds more backing pages than it has pages of addresses, whatever failed before.\<close>

theorem sparse_backing_bound:
  assumes "sw_ok w0" "domain = DOMAIN_VRAM \<or> domain = DOMAIN_GTT"
    and "amdgpu_bo_sparse_create amdgpu_api check sz domain flags w0 = (Some bo0, w1)"
    and "sparse_run amdgpu_api (bo0, w1) leak (bo, w)"
  shows "sum_list (map backing_pages (backing bo)) = num_backing_pages bo \<and> num_backing_pages bo \<le> num_va_pages bo"
  using amdgpu_sparse.st_invD(6)[OF sparse_reachable(1)[OF assms]]
    sparse_wfD(4)[OF amdgpu_sparse.st_invD(1)[OF sparse_reachable(1)[OF assms]]] by simp

text \<open>C31 on the example.\<close>

theorem sparse_backing_bound_witness:
  "\<exists>bo w. sparse_run amdgpu_api (ex_sparse, ex_world1) False (bo, w) \<and> commitments bo \<noteq> [None, None] \<and> num_backing_pages bo \<le> 2"
proof -
  obtain bo w where r: "sparse_run amdgpu_api (ex_sparse, ex_world1) False (bo, w)" "commitments bo = [Some (0, 0), None]" "num_va_pages bo = 2"
    by (rule ex_run)
  show ?thesis using sparse_backing_bound[OF ex_world_ok ex_gtt ex_create r(1)] r by auto
qed

text \<open>A buffer of 160 pages with one backing buffer of 10 pages, of which page 8 is committed.\<close>

definition ex_fragmented :: amdgpu_bo_sparse where
  "ex_fragmented = \<lparr>sparse_size = 10485760, sparse_placement = DOMAIN_GTT, sparse_usage = FLAG_SPARSE, sparse_unique_id = 0,
     num_va_pages = 160, num_backing_pages = 10,
     backing = [\<lparr>backing_bo = 7, backing_size = 655360, chunks = [(0, 8), (9, 10)], max_chunks = 4\<rparr>],
     commitments = Some (7, 8) # replicate 159 None\<rparr>"

lemma ex_fragmented_wf: "sparse_wf ex_fragmented {}"
proof -
  have c: "committed ex_fragmented = {(7, 8)}" by (auto simp: committed_def ex_fragmented_def)
  have f: "free_set ex_fragmented = {7} \<times> ({0..<8} \<union> {9..<10})" by (simp add: free_set_def ex_fragmented_def)
  have a: "all_set ex_fragmented = {7} \<times> {..<10}"
    by (simp add: all_set_def ex_fragmented_def backing_pages_def RADEON_SPARSE_PAGE_SIZE_def)
  have "comm_inj (Some (7, 8) # replicate 159 None)"
    by (auto simp: comm_inj_def nth_Cons split: nat.splits)
  then show ?thesis unfolding sparse_wf_def c f a
    by (simp add: ex_fragmented_def backing_wf_def backing_pages_def RADEON_SPARSE_PAGE_SIZE_def div_round_up_def)
qed

text \<open>The search for backing pages is not a best fit. In a buffer with 8 free pages in a row and one
  free page elsewhere, a request for 4 pages gets the single page: once a chunk that is large enough
  was seen, any smaller chunk replaces it, even one that is too small.\<close>

theorem sparse_best_fit_too_small:
  "sparse_wf ex_fragmented {} \<and> (0, 8) \<in> set (chunks (hd (backing ex_fragmented))) \<and>
   (\<exists>bo. sparse_backing_alloc api 4 (ex_fragmented, w) = Some (Some (7, 9, 1), bo, w))"
proof -
  have s: "scan_backing 4 (backing ex_fragmented) (None, 0) = (Some (7, 1), 1)"
    by (simp add: ex_fragmented_def better_chunk_def chunk_pages_def)
  have "\<exists>bo. sparse_backing_alloc api 4 (ex_fragmented, w) = Some (Some (7, 9, 1), bo, w)"
    unfolding sparse_backing_alloc_def fst_conv s
    by (simp add: take_pages_def find_backing_def ex_fragmented_def)
  then show ?thesis using ex_fragmented_wf by (simp add: ex_fragmented_def)
qed

end
