(* ===== verification/FastUrem.thy ===== *)
theory FastUrem
  imports Prelude
begin

text \<open>
  The remainder without a division of util/fast_urem_by_const.h, in its version for compilers with
  128-bit numbers and in its version without. Both agree, and the result is the remainder.
\<close>

section \<open>Definitions\<close>

definition REMAINDER_MAGIC :: "32 word \<Rightarrow> 64 word" where
  "REMAINDER_MAGIC divisor = (- 1) div ucast divisor + 1"

definition mul32by64_hi :: "32 word \<Rightarrow> 64 word \<Rightarrow> 32 word" where
  "mul32by64_hi a b = ucast (drop_bit 64 ((ucast b :: 128 word) * ucast a))"

definition mul32by64_hi_32bit :: "32 word \<Rightarrow> 64 word \<Rightarrow> 32 word" where
  "mul32by64_hi_32bit a b =
    (let b0 = ucast b :: 32 word;
         b1 = ucast (drop_bit 32 b) :: 32 word
     in ucast (drop_bit 32 (drop_bit 32 ((ucast a :: 64 word) * ucast b0) + ucast a * ucast b1)))"

definition util_fast_urem32 :: "32 word \<Rightarrow> 32 word \<Rightarrow> 64 word \<Rightarrow> 32 word" where
  "util_fast_urem32 n d magic = (let lowbits = magic * ucast n in mul32by64_hi d lowbits)"

section \<open>Correctness\<close>

lemma unat_lt32: "unat (x :: 32 word) < 2 ^ 32"
  using unsigned_less [of x] by simp

lemma unat_lt64: "unat (x :: 64 word) < 2 ^ 64"
  using unsigned_less [of x] by simp

lemma unat_ucast_32_128 [simp]: "unat (ucast (x :: 32 word) :: 128 word) = unat x"
  by (simp add: unsigned_ucast_eq take_bit_nat_eq_self less_trans [OF unat_lt32])

lemma unat_ucast_64_128 [simp]: "unat (ucast (x :: 64 word) :: 128 word) = unat x"
  by (simp add: unsigned_ucast_eq take_bit_nat_eq_self less_trans [OF unat_lt64])

lemma unat_ucast_32_64 [simp]: "unat (ucast (x :: 32 word) :: 64 word) = unat x"
  by (simp add: unsigned_ucast_eq take_bit_nat_eq_self less_trans [OF unat_lt32])

lemma unat_ucast_mult_128: "unat ((ucast (b :: 64 word) :: 128 word) * ucast (a :: 32 word)) = unat b * unat a"
proof -
  have "unat b * unat a < 2 ^ 64 * 2 ^ 32"
    by (rule mult_strict_mono) (use unat_lt64 [of b] unat_lt32 [of a] in auto)
  then show ?thesis by (simp add: unat_word_ariths)
qed

lemma unat_mul32by64_hi: "unat (mul32by64_hi a b) = unat b * unat a div 2 ^ 64"
proof -
  have "unat b * unat a < 2 ^ 64 * 2 ^ 32"
    by (rule mult_strict_mono) (use unat_lt64 [of b] unat_lt32 [of a] in auto)
  then have "unat b * unat a div 2 ^ 64 < 2 ^ 32" by (simp add: less_mult_imp_div_less)
  then show ?thesis unfolding mul32by64_hi_def
    by (simp add: unsigned_ucast_eq unsigned_drop_bit_eq unat_ucast_mult_128 take_bit_nat_eq_self
      del: drop_bit_word_numeral) (simp add: drop_bit_eq_div take_bit_eq_mod)
qed

text \<open>Lemire's argument, on natural numbers.\<close>

lemma fast_urem_nat:
  fixes n d K :: nat
  assumes n: "n < K" and d: "0 < d" "d \<le> K"
  defines "m \<equiv> (K * K - 1) div d + 1"
  shows "(m * n mod (K * K)) * d div (K * K) = n mod d"
proof -
  let ?N = "K * K"
  define e where "e = m * d - ?N"
  have N0: "0 < ?N" using n by simp
  have "(?N - 1) div d * d + (?N - 1) mod d = ?N - 1" by simp
  moreover have "(?N - 1) mod d < d" using d by simp
  moreover have "m * d = (?N - 1) div d * d + d" by (simp add: m_def)
  ultimately have lo: "?N \<le> m * d" and hi: "m * d < ?N + d"
    using N0 by linarith+
  have md: "m * d = ?N + e" and e: "e < d" using lo hi by (simp_all add: e_def)
  have en: "e * n < ?N"
    using n e d(2) by (intro mult_strict_mono) auto
  define q r where "q = n div d" and "r = n mod d"
  have nq: "n = q * d + r" by (simp add: q_def r_def)
  have r: "r < d" using d by (simp add: r_def)
  have "(q * e + m * r) * d = q * e * d + r * (m * d)" by (simp add: algebra_simps)
  also have "\<dots> = r * ?N + e * n" by (simp only: md nq) (simp add: algebra_simps)
  finally have x: "(q * e + m * r) * d = r * ?N + e * n" .
  have "(q * e + m * r) * d < (r + 1) * ?N" using x en by simp
  also have "\<dots> \<le> d * ?N" using r by (intro mult_le_mono1) simp
  finally have small: "q * e + m * r < ?N" using d(1) by (simp add: mult.commute)
  have "m * n = q * (m * d) + m * r" by (simp add: nq algebra_simps)
  also have "\<dots> = (q * e + m * r) + q * ?N" by (simp only: md) (simp add: algebra_simps)
  finally have "m * n mod ?N = q * e + m * r" using small by simp
  then show ?thesis using x en N0 by (simp add: r_def)
qed

lemma unat_REMAINDER_MAGIC:
  assumes "0 < unat d"
  shows "unat (REMAINDER_MAGIC d) = ((2 ^ 64 - 1) div unat d + 1) mod 2 ^ 64"
proof -
  have "unat ((- 1 :: 64 word) div ucast d) = (2 ^ 64 - 1) div unat d"
    by (simp add: unat_div unsigned_minus_1_eq_mask mask_eq_exp_minus_1)
  then show ?thesis unfolding REMAINDER_MAGIC_def by (simp add: unat_word_ariths)
qed

lemma util_fast_urem32_eq:
  assumes d: "d \<noteq> 0"
  shows "util_fast_urem32 n d (REMAINDER_MAGIC d) = n mod d"
proof (rule word_unat_eq_iff [THEN iffD2])
  have d0: "0 < unat d" using d by (simp add: unat_gt_0)
  have "unat (REMAINDER_MAGIC d * ucast n) = ((2 ^ 64 - 1) div unat d + 1) * unat n mod 2 ^ 64"
    by (simp add: unat_word_ariths unat_REMAINDER_MAGIC [OF d0] mod_simps)
  then have "unat (util_fast_urem32 n d (REMAINDER_MAGIC d))
      = ((2 ^ 64 - 1) div unat d + 1) * unat n mod 2 ^ 64 * unat d div 2 ^ 64"
    by (simp add: util_fast_urem32_def unat_mul32by64_hi)
  also have "\<dots> = unat n mod unat d"
    using fast_urem_nat [OF unat_lt32 d0 less_imp_le [OF unat_lt32], of n] by simp
  finally show "unat (util_fast_urem32 n d (REMAINDER_MAGIC d)) = unat (n mod d)"
    by (simp add: unat_mod)
qed


lemma mul32by64_hi_32bit_eq: "mul32by64_hi_32bit a b = mul32by64_hi a b"
proof (rule word_unat_eq_iff [THEN iffD2])
  define b0 b1 where "b0 = unat b mod 2 ^ 32" and "b1 = unat b div 2 ^ 32"
  have b: "unat b = b0 + 2 ^ 32 * b1" by (simp add: b0_def b1_def)
  have a: "unat a < 2 ^ 32" by (rule unat_lt32)
  have b0: "b0 < 2 ^ 32" by (simp add: b0_def)
  have b1: "b1 < 2 ^ 32" using unat_lt64 [of b] by (simp add: b1_def less_mult_imp_div_less)
  have u0: "unat (ucast b :: 32 word) = b0" by (simp add: unsigned_ucast_eq take_bit_eq_mod b0_def)
  have u1: "unat (ucast (drop_bit 32 b) :: 32 word) = b1"
    using b1 by (simp add: unsigned_ucast_eq unsigned_drop_bit_eq take_bit_nat_eq_self)
      (simp add: drop_bit_eq_div take_bit_eq_mod b1_def)
  have p0: "unat a * b0 \<le> (2 ^ 32 - 1) * (2 ^ 32 - 1)" using a b0 by (intro mult_le_mono) simp_all
  have p1: "unat a * b1 \<le> (2 ^ 32 - 1) * (2 ^ 32 - 1)" using a b1 by (intro mult_le_mono) simp_all
  have s: "unat a * b0 div 2 ^ 32 + unat a * b1 < 2 ^ 64"
  proof -
    have "unat a * b0 div 2 ^ 32 < 2 ^ 32" using p0 by (simp add: less_mult_imp_div_less)
    then show ?thesis using p1 by simp
  qed
  define hi where "hi = drop_bit 32 ((ucast a :: 64 word) * ucast (ucast b :: 32 word))
    + ucast a * ucast (ucast (drop_bit 32 b) :: 32 word)"
  have m0: "unat ((ucast a :: 64 word) * ucast (ucast b :: 32 word)) = unat a * b0"
    using p0 by (simp add: unat_word_ariths u0)
  have m1: "unat ((ucast a :: 64 word) * ucast (ucast (drop_bit 32 b) :: 32 word)) = unat a * b1"
    using p1 by (simp add: unat_word_ariths u1)
  have "unat hi = unat a * b0 div 2 ^ 32 + unat a * b1"
    using s p0 unfolding hi_def
    by (simp only: unat_word_ariths(1) m1 unsigned_drop_bit_eq m0)
      (simp add: drop_bit_eq_div take_bit_eq_mod)
  moreover have "(unat a * b0 div 2 ^ 32 + unat a * b1) div 2 ^ 32 < 2 ^ 32"
    using s by (simp add: less_mult_imp_div_less)
  ultimately have "unat (mul32by64_hi_32bit a b) = (unat a * b0 div 2 ^ 32 + unat a * b1) div 2 ^ 32"
    unfolding mul32by64_hi_32bit_def Let_def hi_def [symmetric]
    by (simp add: unsigned_ucast_eq unsigned_drop_bit_eq)
      (simp add: drop_bit_eq_div take_bit_eq_mod)
  also have "\<dots> = (unat a * b0 + unat a * b1 * 2 ^ 32) div 2 ^ 32 div 2 ^ 32" by simp
  also have "unat a * b0 + unat a * b1 * 2 ^ 32 = unat b * unat a"
    by (simp only: b) (simp add: algebra_simps)
  also have "unat b * unat a div 2 ^ 32 div 2 ^ 32 = unat b * unat a div 2 ^ 64"
    by (simp add: div_mult2_eq [symmetric])
  finally show "unat (mul32by64_hi_32bit a b) = unat (mul32by64_hi a b)"
    by (simp add: unat_mul32by64_hi)
qed

end
