(* ===== verification/PrimeSizes.thy ===== *)
theory PrimeSizes
  imports Main
begin

text \<open>
  The sizes in the tables of util/hash_table.c and util/set.c are prime, which is why a probe
  sequence visits every slot. Each is proved by a Lucas certificate: a number \<open>a\<close> whose powers have
  order \<open>n - 1\<close>, with the prime factors of \<open>n - 1\<close>, and an inverse that shows that the power at
  \<open>(n - 1) div q\<close> is not 1 modulo any divisor of \<open>n\<close>.
\<close>

section \<open>Prime sizes\<close>

text \<open>A number all smaller numbers are coprime to.\<close>

definition prime_size :: "nat \<Rightarrow> bool" where
  "prime_size n \<longleftrightarrow> 1 < n \<and> (\<forall>k. 0 < k \<and> k < n \<longrightarrow> coprime k n)"

lemma prime_size_dvd:
  assumes "prime_size q" "d dvd q"
  shows "d = 1 \<or> d = q"
proof (rule ccontr)
  assume n: "\<not> (d = 1 \<or> d = q)"
  have "0 < q" using assms(1) by (simp add: prime_size_def)
  then have "0 < d" "d \<le> q" using assms(2) by (auto simp: dvd_imp_le intro: gr0I)
  then have "coprime d q" using assms(1) n by (simp add: prime_size_def)
  then have "is_unit d" using assms(2) by (meson coprime_common_divisor dvd_refl)
  then show False using n by simp
qed

lemma dvd_prod_list_prime_size:
  assumes "c dvd prod_list qs" "1 < c" "\<forall>q\<in>set qs. prime_size q"
  shows "\<exists>q\<in>set qs. q dvd c"
  using assms
proof (induction qs)
  case (Cons q qs)
  have "gcd c q = 1 \<or> gcd c q = q" using Cons.prems(3) by (intro prime_size_dvd) simp_all
  then show ?case
  proof
    assume "gcd c q = 1"
    then have "c dvd prod_list qs"
      using Cons.prems(1) by (simp add: coprime_dvd_mult_right_iff coprime_iff_gcd_eq_1)
    then show ?thesis using Cons.IH Cons.prems by auto
  next
    assume "gcd c q = q"
    then have "q dvd c" by (metis gcd_dvd1)
    then show ?thesis by auto
  qed
qed simp

definition pow_mod :: "nat \<Rightarrow> nat \<Rightarrow> nat \<Rightarrow> nat" where
  "pow_mod a e n = a ^ e mod n"

lemma pow_mod_simps [simp]:
  "pow_mod a (numeral Num.One) n = a mod n"
  "pow_mod a (numeral (Num.Bit0 e)) n = (pow_mod a (numeral e) n)\<^sup>2 mod n"
  "pow_mod a (numeral (Num.Bit1 e)) n = (pow_mod a (numeral e) n)\<^sup>2 * a mod n"
proof -
  show "pow_mod a (numeral Num.One) n = a mod n" by (simp add: pow_mod_def)
  have "a ^ numeral (Num.Bit0 e) = (a ^ numeral e)\<^sup>2"
    by (simp add: power_numeral_even power2_eq_square)
  then show "pow_mod a (numeral (Num.Bit0 e)) n = (pow_mod a (numeral e) n)\<^sup>2 mod n"
    by (simp add: pow_mod_def power_mod)
  have "a ^ numeral (Num.Bit1 e) = (a ^ numeral e)\<^sup>2 * a"
    by (simp add: power_numeral_odd power2_eq_square Let_def ac_simps del: power_add_numeral power_add_numeral2)
  then show "pow_mod a (numeral (Num.Bit1 e)) n = (pow_mod a (numeral e) n)\<^sup>2 * a mod n"
    unfolding pow_mod_def by (metis mod_mult_left_eq power_mod)
qed

text \<open>The order of \<open>a\<close> modulo a divisor of \<open>n\<close> is below that divisor.\<close>

lemma small_order:
  fixes a g :: nat
  assumes g: "1 < g" and one: "a ^ m mod g = 1" and m: "0 < m"
  shows "\<exists>t. 0 < t \<and> t < g \<and> t dvd m \<and> a ^ t mod g = 1"
proof -
  define t where "t = (LEAST t. 0 < t \<and> a ^ t mod g = 1)"
  have t: "0 < t" "a ^ t mod g = 1"
    using LeastI [of "\<lambda>t. 0 < t \<and> a ^ t mod g = 1" m] one m by (simp_all add: t_def)
  have least: "\<not> (0 < s \<and> a ^ s mod g = 1)" if "s < t" for s
    using not_less_Least that unfolding t_def by blast
  have "a ^ m = (a ^ t) ^ (m div t) * a ^ (m mod t)"
    by (simp add: power_add [symmetric] power_mult [symmetric])
  then have "a ^ m mod g = ((a ^ t mod g) ^ (m div t) mod g) * a ^ (m mod t) mod g"
    by (simp add: power_mod mod_simps)
  then have "a ^ (m mod t) mod g = 1" using one t g by simp
  then have "m mod t = 0" using least [of "m mod t"] t(1) by auto
  then have "t dvd m" by (simp add: mod_eq_0_iff_dvd)
  have undo: "a ^ i mod g * a ^ (t - i) mod g = 1" if "i \<le> t" for i
    using that t(2) by (simp add: mod_simps power_add [symmetric])
  have inj: "False" if ij: "i < j" "j < t" "a ^ i mod g = a ^ j mod g" for i j
  proof -
    have "a ^ i mod g * a ^ (t - j) mod g = 1" using undo [of j] ij by simp
    then have "a ^ (i + (t - j)) mod g = 1" by (simp add: mod_simps power_add)
    moreover have "0 < i + (t - j)" "i + (t - j) < t" using ij by linarith+
    ultimately show False using least by blast
  qed
  have "inj_on (\<lambda>i. a ^ i mod g) {..<t}"
    unfolding inj_on_def by (metis inj lessThan_iff linorder_neqE_nat)
  moreover have "(\<lambda>i. a ^ i mod g) ` {..<t} \<subseteq> {0<..<g}"
  proof
    fix x assume "x \<in> (\<lambda>i. a ^ i mod g) ` {..<t}"
    then obtain i where i: "i < t" "x = a ^ i mod g" by auto
    then have "x * a ^ (t - i) mod g = 1" using undo [of i] by simp
    then have "x \<noteq> 0" by (cases "x = 0") simp_all
    then show "x \<in> {0<..<g}" using i g by simp
  qed
  ultimately have "card {..<t} \<le> card {0<..<g}" by (rule card_inj_on_le) simp
  then have "t < g" using g by simp
  then show ?thesis using t \<open>t dvd m\<close> by blast
qed

lemma lucas:
  assumes n: "1 < n"
    and one: "pow_mod a (n - 1) n = 1"
    and cert: "\<And>c. c dvd n - 1 \<Longrightarrow> 1 < c
      \<Longrightarrow> \<exists>q b. 0 < q \<and> q dvd c \<and> (pow_mod a ((n - 1) div q) n + (n - 1)) * b mod n = 1"
  shows "prime_size n"
  unfolding prime_size_def
proof (intro conjI allI impI)
  fix k assume k: "0 < k \<and> k < n"
  show "coprime k n"
  proof (rule ccontr)
    assume nc: "\<not> coprime k n"
    define g where "g = gcd k n"
    have "g \<noteq> 0" "g \<noteq> 1" using nc k by (simp_all add: g_def coprime_iff_gcd_eq_1)
    then have g: "1 < g" by simp
    have gn: "g dvd n" "g \<le> k" using k by (simp_all add: g_def gcd_le1_nat)
    have "a ^ (n - 1) mod n mod g = a ^ (n - 1) mod g" using gn(1) by (rule mod_mod_cancel)
    then have "a ^ (n - 1) mod g = 1" using one g by (simp add: pow_mod_def)
    from small_order [OF g this] obtain t where t: "0 < t" "t < g" "t dvd n - 1" "a ^ t mod g = 1"
      using n by auto
    then obtain c where c: "n - 1 = t * c" by auto
    have "c \<noteq> 0" "c \<noteq> 1" using c t(2) gn(2) k n by (auto intro: ccontr)
    then have "1 < c" by simp
    moreover have "c dvd n - 1" using c by simp
    ultimately obtain q b where q: "0 < q" "q dvd c"
      and b: "(pow_mod a ((n - 1) div q) n + (n - 1)) * b mod n = 1"
      using cert by blast
    then obtain c' where c': "c = q * c'" by auto
    have e: "(n - 1) div q = t * c'" using c c' q(1) by simp
    let ?x = "pow_mod a ((n - 1) div q) n"
    have "?x mod g = a ^ (t * c') mod g" unfolding pow_mod_def e using gn(1) by (rule mod_mod_cancel)
    also have "\<dots> = (a ^ t mod g) ^ c' mod g" by (simp add: power_mult power_mod)
    finally have x: "?x mod g = 1" using t(4) g by simp
    have "(?x + (n - 1)) mod g = (1 + (n - 1)) mod g" by (metis x g mod_add_left_eq)
    also have "\<dots> = 0" using gn(1) n by simp
    finally have z: "(?x + (n - 1)) mod g = 0" .
    have "(?x + (n - 1)) * b mod n mod g = (?x + (n - 1)) * b mod g" using gn(1) by (rule mod_mod_cancel)
    also have "\<dots> = 0" using z by (metis mod_mult_left_eq mult_zero_left mod_0)
    finally show False using b g by simp
  qed
qed (use n in simp)

lemma pow_mod_1 [simp]: "pow_mod a (Suc 0) n = a mod n" "pow_mod a 1 n = a mod n"
  by (simp_all add: pow_mod_def)

lemma dvd_prod_list_powers:
  assumes "c dvd prod_list (map (\<lambda>(q, k, b). q ^ k) qbs)" "1 < c" "list_all (\<lambda>(q, k, b). prime_size q) qbs"
  shows "\<exists>(q, k, b)\<in>set qbs. q dvd c"
proof -
  have "prod_list (map (\<lambda>(q, k, b). q ^ k) qbs) = prod_list (concat (map (\<lambda>(q, k, b). replicate k q) qbs))"
    by (induction qbs) auto
  then show ?thesis
    using dvd_prod_list_prime_size [of c "concat (map (\<lambda>(q, k, b). replicate k q) qbs)"] assms
    by (fastforce simp: list_all_iff split: prod.splits if_splits)
qed

lemma lucas_cert:
  assumes "n = Suc (prod_list (map (\<lambda>(q, k, b). q ^ k) qbs))" "1 < n" "pow_mod a (n - 1) n = 1"
    and "list_all (\<lambda>(q, k, b). prime_size q \<and> (pow_mod a ((n - 1) div q) n + (n - 1)) * b mod n = 1) qbs"
  shows "prime_size n"
proof (rule lucas [OF assms(2,3)])
  fix c assume c: "c dvd n - 1" "1 < c"
  have "list_all (\<lambda>(q, k, b). prime_size q) qbs" using assms(4) by (auto simp: list_all_iff)
  then obtain q k b where q: "(q, k, b) \<in> set qbs" "q dvd c"
    using dvd_prod_list_powers [of c qbs] c assms(1) by auto
  then show "\<exists>q b. 0 < q \<and> q dvd c \<and> (pow_mod a ((n - 1) div q) n + (n - 1)) * b mod n = 1"
    using assms(4) by (intro exI [of _ q] exI [of _ b]) (auto simp: list_all_iff prime_size_def)
qed

section \<open>Certificates\<close>

lemma prime_size_2: "prime_size 2"
  by (rule lucas_cert [where a = 1 and qbs = "[]"])
    (simp_all)

lemma prime_size_3: "prime_size 3"
  by (rule lucas_cert [where a = 2 and qbs = "[(2, 1, 1)]"])
    (simp_all add: prime_size_2)

lemma prime_size_19: "prime_size 19"
  by (rule lucas_cert [where a = 2 and qbs = "[(2, 1, 9), (3, 2, 16)]"])
    (simp_all add: prime_size_2 prime_size_3)

lemma prime_size_7: "prime_size 7"
  by (rule lucas_cert [where a = 3 and qbs = "[(2, 1, 3), (3, 1, 1)]"])
    (simp_all add: prime_size_2 prime_size_3)

lemma prime_size_43: "prime_size 43"
  by (rule lucas_cert [where a = 3 and qbs = "[(2, 1, 21), (3, 1, 16), (7, 1, 14)]"])
    (simp_all add: prime_size_2 prime_size_3 prime_size_7)

lemma prime_size_73: "prime_size 73"
  by (rule lucas_cert [where a = 5 and qbs = "[(2, 3, 36), (3, 2, 21)]"])
    (simp_all add: prime_size_2 prime_size_3)

lemma prime_size_5: "prime_size 5"
  by (rule lucas_cert [where a = 2 and qbs = "[(2, 2, 2)]"])
    (simp_all add: prime_size_2)

lemma prime_size_151: "prime_size 151"
  by (rule lucas_cert [where a = 6 and qbs = "[(2, 1, 75), (3, 1, 39), (5, 2, 138)]"])
    (simp_all add: prime_size_2 prime_size_3 prime_size_5)

lemma prime_size_11: "prime_size 11"
  by (rule lucas_cert [where a = 2 and qbs = "[(2, 1, 5), (5, 1, 4)]"])
    (simp_all add: prime_size_2 prime_size_5)

lemma prime_size_23: "prime_size 23"
  by (rule lucas_cert [where a = 5 and qbs = "[(2, 1, 11), (11, 1, 1)]"])
    (simp_all add: prime_size_2 prime_size_11)

lemma prime_size_47: "prime_size 47"
  by (rule lucas_cert [where a = 5 and qbs = "[(2, 1, 23), (23, 1, 2)]"])
    (simp_all add: prime_size_2 prime_size_23)

lemma prime_size_283: "prime_size 283"
  by (rule lucas_cert [where a = 3 and qbs = "[(2, 1, 141), (3, 1, 203), (47, 1, 145)]"])
    (simp_all add: prime_size_2 prime_size_3 prime_size_47)

lemma prime_size_571: "prime_size 571"
  by (rule lucas_cert [where a = 3 and qbs = "[(2, 1, 285), (3, 1, 534), (5, 1, 320), (19, 1, 263)]"])
    (simp_all add: prime_size_2 prime_size_3 prime_size_5 prime_size_19)

lemma prime_size_1153: "prime_size 1153"
  by (rule lucas_cert [where a = 5 and qbs = "[(2, 7, 576), (3, 2, 167)]"])
    (simp_all add: prime_size_2 prime_size_3)

lemma prime_size_2269: "prime_size 2269"
  by (rule lucas_cert [where a = 2 and qbs = "[(2, 2, 1134), (3, 4, 27), (7, 1, 665)]"])
    (simp_all add: prime_size_2 prime_size_3 prime_size_7)

lemma prime_size_251: "prime_size 251"
  by (rule lucas_cert [where a = 6 and qbs = "[(2, 1, 125), (5, 3, 38)]"])
    (simp_all add: prime_size_2 prime_size_5)

lemma prime_size_4519: "prime_size 4519"
  by (rule lucas_cert [where a = 3 and qbs = "[(2, 1, 2259), (3, 2, 2660), (251, 1, 2351)]"])
    (simp_all add: prime_size_2 prime_size_3 prime_size_251)

lemma prime_size_751: "prime_size 751"
  by (rule lucas_cert [where a = 3 and qbs = "[(2, 1, 375), (3, 1, 274), (5, 3, 732)]"])
    (simp_all add: prime_size_2 prime_size_3 prime_size_5)

lemma prime_size_9013: "prime_size 9013"
  by (rule lucas_cert [where a = 5 and qbs = "[(2, 2, 4506), (3, 1, 1108), (751, 1, 402)]"])
    (simp_all add: prime_size_2 prime_size_3 prime_size_751)

lemma prime_size_31: "prime_size 31"
  by (rule lucas_cert [where a = 3 and qbs = "[(2, 1, 15), (3, 1, 22), (5, 1, 29)]"])
    (simp_all add: prime_size_2 prime_size_3 prime_size_5)

lemma prime_size_97: "prime_size 97"
  by (rule lucas_cert [where a = 5 and qbs = "[(2, 5, 48), (3, 1, 20)]"])
    (simp_all add: prime_size_2 prime_size_3)

lemma prime_size_18043: "prime_size 18043"
  by (rule lucas_cert [where a = 2 and qbs = "[(2, 1, 9021), (3, 1, 14098), (31, 1, 8385), (97, 1, 860)]"])
    (simp_all add: prime_size_2 prime_size_3 prime_size_31 prime_size_97)

lemma prime_size_17: "prime_size 17"
  by (rule lucas_cert [where a = 3 and qbs = "[(2, 4, 8)]"])
    (simp_all add: prime_size_2)

lemma prime_size_29: "prime_size 29"
  by (rule lucas_cert [where a = 2 and qbs = "[(2, 2, 14), (7, 1, 2)]"])
    (simp_all add: prime_size_2 prime_size_7)

lemma prime_size_59: "prime_size 59"
  by (rule lucas_cert [where a = 2 and qbs = "[(2, 1, 29), (29, 1, 20)]"])
    (simp_all add: prime_size_2 prime_size_29)

lemma prime_size_36109: "prime_size 36109"
  by (rule lucas_cert [where a = 2 and qbs = "[(2, 2, 18054), (3, 2, 17316), (17, 1, 29544), (59, 1, 21615)]"])
    (simp_all add: prime_size_2 prime_size_3 prime_size_17 prime_size_59)

lemma prime_size_89: "prime_size 89"
  by (rule lucas_cert [where a = 3 and qbs = "[(2, 3, 44), (11, 1, 65)]"])
    (simp_all add: prime_size_2 prime_size_11)

lemma prime_size_72091: "prime_size 72091"
  by (rule lucas_cert [where a = 2 and qbs = "[(2, 1, 36045), (3, 4, 27053), (5, 1, 23377), (89, 1, 65760)]"])
    (simp_all add: prime_size_2 prime_size_3 prime_size_5 prime_size_89)

lemma prime_size_13: "prime_size 13"
  by (rule lucas_cert [where a = 2 and qbs = "[(2, 2, 6), (3, 1, 7)]"])
    (simp_all add: prime_size_2 prime_size_3)

lemma prime_size_547: "prime_size 547"
  by (rule lucas_cert [where a = 2 and qbs = "[(2, 1, 273), (3, 1, 533), (7, 1, 253), (13, 1, 532)]"])
    (simp_all add: prime_size_2 prime_size_3 prime_size_7 prime_size_13)

lemma prime_size_144409: "prime_size 144409"
  by (rule lucas_cert [where a = 13 and qbs = "[(2, 3, 72204), (3, 1, 43627), (11, 1, 49825), (547, 1, 136132)]"])
    (simp_all add: prime_size_2 prime_size_3 prime_size_11 prime_size_547)

lemma prime_size_288361: "prime_size 288361"
  by (rule lucas_cert [where a = 7 and qbs = "[(2, 3, 144180), (3, 4, 63142), (5, 1, 269290), (89, 1, 31193)]"])
    (simp_all add: prime_size_2 prime_size_3 prime_size_5 prime_size_89)

lemma prime_size_37: "prime_size 37"
  by (rule lucas_cert [where a = 2 and qbs = "[(2, 2, 18), (3, 2, 3)]"])
    (simp_all add: prime_size_2 prime_size_3)

lemma prime_size_593: "prime_size 593"
  by (rule lucas_cert [where a = 3 and qbs = "[(2, 4, 296), (37, 1, 30)]"])
    (simp_all add: prime_size_2 prime_size_37)

lemma prime_size_1187: "prime_size 1187"
  by (rule lucas_cert [where a = 2 and qbs = "[(2, 1, 593), (593, 1, 396)]"])
    (simp_all add: prime_size_2 prime_size_593)

lemma prime_size_576883: "prime_size 576883"
  by (rule lucas_cert [where a = 2 and qbs = "[(2, 1, 288441), (3, 5, 35023), (1187, 1, 324061)]"])
    (simp_all add: prime_size_2 prime_size_3 prime_size_1187)

lemma prime_size_64081: "prime_size 64081"
  by (rule lucas_cert [where a = 11 and qbs = "[(2, 4, 32040), (3, 2, 34375), (5, 1, 6993), (89, 1, 44574)]"])
    (simp_all add: prime_size_2 prime_size_3 prime_size_5 prime_size_89)

lemma prime_size_1153459: "prime_size 1153459"
  by (rule lucas_cert [where a = 3 and qbs = "[(2, 1, 576729), (3, 2, 69820), (64081, 1, 592672)]"])
    (simp_all add: prime_size_2 prime_size_3 prime_size_64081)

lemma prime_size_2689: "prime_size 2689"
  by (rule lucas_cert [where a = 19 and qbs = "[(2, 7, 1344), (3, 1, 2558), (7, 1, 284)]"])
    (simp_all add: prime_size_2 prime_size_3 prime_size_7)

lemma prime_size_2307163: "prime_size 2307163"
  by (rule lucas_cert [where a = 2 and qbs = "[(2, 1, 1153581), (3, 1, 1762243), (11, 1, 34369), (13, 1, 1778642), (2689, 1, 305094)]"])
    (simp_all add: prime_size_2 prime_size_3 prime_size_11 prime_size_13 prime_size_2689)

lemma prime_size_229: "prime_size 229"
  by (rule lucas_cert [where a = 6 and qbs = "[(2, 2, 114), (3, 1, 31), (19, 1, 155)]"])
    (simp_all add: prime_size_2 prime_size_3 prime_size_19)

lemma prime_size_4613893: "prime_size 4613893"
  by (rule lucas_cert [where a = 5 and qbs = "[(2, 2, 2306946), (3, 1, 4593030), (23, 1, 509175), (73, 1, 1652047), (229, 1, 1927950)]"])
    (simp_all add: prime_size_2 prime_size_3 prime_size_23 prime_size_73 prime_size_229)

lemma prime_size_131: "prime_size 131"
  by (rule lucas_cert [where a = 2 and qbs = "[(2, 1, 65), (5, 1, 63), (13, 1, 110)]"])
    (simp_all add: prime_size_2 prime_size_5 prime_size_13)

lemma prime_size_293: "prime_size 293"
  by (rule lucas_cert [where a = 2 and qbs = "[(2, 2, 146), (73, 1, 254)]"])
    (simp_all add: prime_size_2 prime_size_73)

lemma prime_size_587: "prime_size 587"
  by (rule lucas_cert [where a = 2 and qbs = "[(2, 1, 293), (293, 1, 196)]"])
    (simp_all add: prime_size_2 prime_size_293)

lemma prime_size_9227641: "prime_size 9227641"
  by (rule lucas_cert [where a = 7 and qbs = "[(2, 3, 4613820), (3, 1, 4110678), (5, 1, 295192), (131, 1, 6135157), (587, 1, 6288452)]"])
    (simp_all add: prime_size_2 prime_size_3 prime_size_5 prime_size_131 prime_size_587)

lemma prime_size_647: "prime_size 647"
  by (rule lucas_cert [where a = 5 and qbs = "[(2, 1, 323), (17, 1, 132), (19, 1, 446)]"])
    (simp_all add: prime_size_2 prime_size_17 prime_size_19)

lemma prime_size_2377: "prime_size 2377"
  by (rule lucas_cert [where a = 5 and qbs = "[(2, 3, 1188), (3, 3, 2136), (11, 1, 459)]"])
    (simp_all add: prime_size_2 prime_size_3 prime_size_11)

lemma prime_size_18455029: "prime_size 18455029"
  by (rule lucas_cert [where a = 2 and qbs = "[(2, 2, 9227514), (3, 1, 9675983), (647, 1, 11816764), (2377, 1, 12878156)]"])
    (simp_all add: prime_size_2 prime_size_3 prime_size_647 prime_size_2377)

lemma prime_size_727: "prime_size 727"
  by (rule lucas_cert [where a = 5 and qbs = "[(2, 1, 363), (3, 1, 578), (11, 2, 11)]"])
    (simp_all add: prime_size_2 prime_size_3 prime_size_11)

lemma prime_size_4363: "prime_size 4363"
  by (rule lucas_cert [where a = 2 and qbs = "[(2, 1, 2181), (3, 1, 4225), (727, 1, 4086)]"])
    (simp_all add: prime_size_2 prime_size_3 prime_size_727)

lemma prime_size_1230367: "prime_size 1230367"
  by (rule lucas_cert [where a = 3 and qbs = "[(2, 1, 615183), (3, 1, 138160), (47, 1, 724774), (4363, 1, 982079)]"])
    (simp_all add: prime_size_2 prime_size_3 prime_size_47 prime_size_4363)

lemma prime_size_36911011: "prime_size 36911011"
  by (rule lucas_cert [where a = 3 and qbs = "[(2, 1, 18455505), (3, 1, 4904626), (5, 1, 21544646), (1230367, 1, 13124418)]"])
    (simp_all add: prime_size_2 prime_size_3 prime_size_5 prime_size_1230367)

lemma prime_size_683: "prime_size 683"
  by (rule lucas_cert [where a = 5 and qbs = "[(2, 1, 341), (11, 1, 476), (31, 1, 255)]"])
    (simp_all add: prime_size_2 prime_size_11 prime_size_31)

lemma prime_size_1367: "prime_size 1367"
  by (rule lucas_cert [where a = 5 and qbs = "[(2, 1, 683), (683, 1, 57)]"])
    (simp_all add: prime_size_2 prime_size_683)

lemma prime_size_41011: "prime_size 41011"
  by (rule lucas_cert [where a = 2 and qbs = "[(2, 1, 20505), (3, 1, 9859), (5, 1, 16971), (1367, 1, 20152)]"])
    (simp_all add: prime_size_2 prime_size_3 prime_size_5 prime_size_1367)

lemma prime_size_1230331: "prime_size 1230331"
  by (rule lucas_cert [where a = 2 and qbs = "[(2, 1, 615165), (3, 1, 1219220), (5, 1, 590340), (41011, 1, 396648)]"])
    (simp_all add: prime_size_2 prime_size_3 prime_size_5 prime_size_41011)

lemma prime_size_73819861: "prime_size 73819861"
  by (rule lucas_cert [where a = 7 and qbs = "[(2, 2, 36909930), (3, 1, 19995984), (5, 1, 30482835), (1230331, 1, 47110281)]"])
    (simp_all add: prime_size_2 prime_size_3 prime_size_5 prime_size_1230331)

lemma prime_size_463: "prime_size 463"
  by (rule lucas_cert [where a = 3 and qbs = "[(2, 1, 231), (3, 1, 301), (7, 1, 276), (11, 1, 174)]"])
    (simp_all add: prime_size_2 prime_size_3 prime_size_7 prime_size_11)

lemma prime_size_26573: "prime_size 26573"
  by (rule lucas_cert [where a = 2 and qbs = "[(2, 2, 13286), (7, 1, 24575), (13, 1, 2253), (73, 1, 24789)]"])
    (simp_all add: prime_size_2 prime_size_7 prime_size_13 prime_size_73)

lemma prime_size_147639589: "prime_size 147639589"
  by (rule lucas_cert [where a = 2 and qbs = "[(2, 2, 73819794), (3, 1, 146929595), (463, 1, 24848127), (26573, 1, 28392365)]"])
    (simp_all add: prime_size_2 prime_size_3 prime_size_463 prime_size_26573)

lemma prime_size_41: "prime_size 41"
  by (rule lucas_cert [where a = 6 and qbs = "[(2, 3, 20), (5, 1, 32)]"])
    (simp_all add: prime_size_2 prime_size_5)

lemma prime_size_1230329: "prime_size 1230329"
  by (rule lucas_cert [where a = 3 and qbs = "[(2, 3, 615164), (11, 2, 732163), (31, 1, 275426), (41, 1, 912172)]"])
    (simp_all add: prime_size_2 prime_size_11 prime_size_31 prime_size_41)

lemma prime_size_2460659: "prime_size 2460659"
  by (rule lucas_cert [where a = 2 and qbs = "[(2, 1, 1230329), (1230329, 1, 820220)]"])
    (simp_all add: prime_size_2 prime_size_1230329)

lemma prime_size_295279081: "prime_size 295279081"
  by (rule lucas_cert [where a = 7 and qbs = "[(2, 3, 147639540), (3, 1, 118312977), (5, 1, 156480040), (2460659, 1, 279545401)]"])
    (simp_all add: prime_size_2 prime_size_3 prime_size_5 prime_size_2460659)

lemma prime_size_1381: "prime_size 1381"
  by (rule lucas_cert [where a = 2 and qbs = "[(2, 2, 690), (3, 1, 802), (5, 1, 1091), (23, 1, 114)]"])
    (simp_all add: prime_size_2 prime_size_3 prime_size_5 prime_size_23)

lemma prime_size_590559793: "prime_size 590559793"
  by (rule lucas_cert [where a = 5 and qbs = "[(2, 4, 295279896), (3, 1, 422337279), (59, 1, 67922555), (151, 1, 159039355), (1381, 1, 105745195)]"])
    (simp_all add: prime_size_2 prime_size_3 prime_size_59 prime_size_151 prime_size_1381)

lemma prime_size_139: "prime_size 139"
  by (rule lucas_cert [where a = 2 and qbs = "[(2, 1, 69), (3, 1, 60), (23, 1, 64)]"])
    (simp_all add: prime_size_2 prime_size_3 prime_size_23)

lemma prime_size_557: "prime_size 557"
  by (rule lucas_cert [where a = 2 and qbs = "[(2, 2, 278), (139, 1, 260)]"])
    (simp_all add: prime_size_2 prime_size_139)

lemma prime_size_631: "prime_size 631"
  by (rule lucas_cert [where a = 3 and qbs = "[(2, 1, 315), (3, 2, 14), (5, 1, 487), (7, 1, 445)]"])
    (simp_all add: prime_size_2 prime_size_3 prime_size_5 prime_size_7)

lemma prime_size_6311: "prime_size 6311"
  by (rule lucas_cert [where a = 7 and qbs = "[(2, 1, 3155), (5, 1, 2500), (631, 1, 3495)]"])
    (simp_all add: prime_size_2 prime_size_5 prime_size_631)

lemma prime_size_1181116273: "prime_size 1181116273"
  by (rule lucas_cert [where a = 5 and qbs = "[(2, 4, 590558136), (3, 1, 698012308), (7, 1, 1139269749), (557, 1, 599878738), (6311, 1, 251631199)]"])
    (simp_all add: prime_size_2 prime_size_3 prime_size_7 prime_size_557 prime_size_6311)

end
