(* ===== verification/Probe.thy ===== *)
theory Probe
  imports FastUrem PrimeSizes
begin

text \<open>
  The sizes of the open-addressing tables of util/hash_table.c and the walk through a table that its
  loops share: the first address and the step come from the hash, an address is advanced by the step
  and wraps at the size, and a loop ends when it is back at the first address. A loop is a
  \<open>partial_function\<close>: not returning is \<^term>\<open>None\<close>. For every size but the last, the size is prime and the
  sum of an address and a step fits into 32 bits, so that the walk visits every slot once and the loops
  return.
\<close>

definition u32_pred :: "nat \<Rightarrow> nat" where
  "u32_pred n = u32 (n + (2 ^ 32 - 1))"

lemma u32_pred_pos: "0 < n \<Longrightarrow> n < 2 ^ 32 \<Longrightarrow> u32_pred n = n - 1"
proof -
  assume n: "0 < n" "n < 2 ^ 32"
  have "n + (2 ^ 32 - 1) = (n - 1) + 2 ^ 32" using n by simp
  then have "u32_pred n = ((n - 1) + 2 ^ 32) mod 2 ^ 32" unfolding u32_pred_def u32_def by (rule arg_cong)
  also have "\<dots> = n - 1" using n by (simp only: mod_add_self2) simp
  finally show ?thesis .
qed

section \<open>Sizes\<close>

record hash_size =
  hs_max_entries :: nat
  hs_size :: nat
  hs_rehash :: nat
  hs_size_magic :: "64 word"
  hs_rehash_magic :: "64 word"

definition ENTRY :: "nat \<Rightarrow> nat \<Rightarrow> nat \<Rightarrow> hash_size" where
  "ENTRY m sz r = \<lparr> hs_max_entries = m, hs_size = sz, hs_rehash = r,
     hs_size_magic = REMAINDER_MAGIC (word_of_nat sz), hs_rehash_magic = REMAINDER_MAGIC (word_of_nat r) \<rparr>"

definition hash_sizes :: "hash_size list" where
  "hash_sizes =
   [ENTRY 16 19 17,
    ENTRY 32 43 41,
    ENTRY 64 73 71,
    ENTRY 128 151 149,
    ENTRY 256 283 281,
    ENTRY 512 571 569,
    ENTRY 1024 1153 1151,
    ENTRY 2048 2269 2267,
    ENTRY 4096 4519 4517,
    ENTRY 8192 9013 9011,
    ENTRY 16384 18043 18041,
    ENTRY 32768 36109 36107,
    ENTRY 65536 72091 72089,
    ENTRY 131072 144409 144407,
    ENTRY 262144 288361 288359,
    ENTRY 524288 576883 576881,
    ENTRY 1048576 1153459 1153457,
    ENTRY 2097152 2307163 2307161,
    ENTRY 4194304 4613893 4613891,
    ENTRY 8388608 9227641 9227639,
    ENTRY 16777216 18455029 18455027,
    ENTRY 33554432 36911011 36911009,
    ENTRY 67108864 73819861 73819859,
    ENTRY 134217728 147639589 147639587,
    ENTRY 268435456 295279081 295279079,
    ENTRY 536870912 590559793 590559791,
    ENTRY 1073741824 1181116273 1181116271,
    ENTRY 2147483648 2362232233 2362232231]"

section \<open>Probing\<close>

definition next_address :: "nat \<Rightarrow> nat \<Rightarrow> nat \<Rightarrow> nat" where
  "next_address sz double_hash hash_address =
    (let a = u32 (hash_address + double_hash) in if a \<ge> sz then a - sz else a)"

partial_function (option) do_probe ::
  "('a \<Rightarrow> nat \<Rightarrow> 'a + 'r) \<Rightarrow> ('a \<Rightarrow> 'r) \<Rightarrow> nat \<Rightarrow> nat \<Rightarrow> nat \<Rightarrow> nat \<Rightarrow> 'a \<Rightarrow> 'r option" where
  "do_probe body fin sz double_hash start addr acc =
    (case body acc addr of
       Inr r \<Rightarrow> Some r
     | Inl acc' \<Rightarrow>
         (let addr' = next_address sz double_hash addr
          in if addr' = start then Some (fin acc')
             else do_probe body fin sz double_hash start addr' acc'))"

partial_function (option) probe_forever :: "(nat \<Rightarrow> bool) \<Rightarrow> nat \<Rightarrow> nat \<Rightarrow> nat \<Rightarrow> nat option" where
  "probe_forever stop sz double_hash addr =
    (if stop addr then Some addr
     else probe_forever stop sz double_hash (next_address sz double_hash addr))"

definition start_hash_address :: "nat \<Rightarrow> 64 word \<Rightarrow> 32 word \<Rightarrow> nat" where
  "start_hash_address sz size_magic hash = unat (util_fast_urem32 hash (word_of_nat sz) size_magic)"

definition double_hash :: "nat \<Rightarrow> 64 word \<Rightarrow> 32 word \<Rightarrow> nat" where
  "double_hash rehash rehash_magic hash =
    u32 (1 + unat (util_fast_urem32 hash (word_of_nat rehash) rehash_magic))"

section \<open>What the sizes have in common\<close>

definition good_size :: "hash_size \<Rightarrow> bool" where
  "good_size s \<longleftrightarrow> prime_size (hs_size s) \<and> 19 \<le> hs_size s \<and> hs_size s < 2 ^ 31
     \<and> hs_rehash s + 2 = hs_size s \<and> 0 < hs_max_entries s \<and> hs_max_entries s < hs_size s
     \<and> hs_size_magic s = REMAINDER_MAGIC (word_of_nat (hs_size s))
     \<and> hs_rehash_magic s = REMAINDER_MAGIC (word_of_nat (hs_rehash s))"

lemma good_size_ENTRY:
  "prime_size sz \<Longrightarrow> 19 \<le> sz \<Longrightarrow> sz < 2 ^ 31 \<Longrightarrow> r + 2 = sz \<Longrightarrow> 0 < m \<Longrightarrow> m < sz \<Longrightarrow> good_size (ENTRY m sz r)"
  by (simp add: good_size_def ENTRY_def)

lemmas prime_size_facts =
  prime_size_19 prime_size_43 prime_size_73 prime_size_151 prime_size_283 prime_size_571 prime_size_1153
  prime_size_2269 prime_size_4519 prime_size_9013 prime_size_18043 prime_size_36109 prime_size_72091
  prime_size_144409 prime_size_288361 prime_size_576883 prime_size_1153459 prime_size_2307163
  prime_size_4613893 prime_size_9227641 prime_size_18455029 prime_size_36911011 prime_size_73819861
  prime_size_147639589 prime_size_295279081 prime_size_590559793 prime_size_1181116273

lemma length_hash_sizes [simp]: "length hash_sizes = 28"
  by (simp add: hash_sizes_def)

lemma list_all_nth: "list_all P xs \<Longrightarrow> i < length xs \<Longrightarrow> P (xs ! i)"
  by (simp add: list_all_length)

lemma good_sizes: "i < 27 \<Longrightarrow> good_size (hash_sizes ! i)"
proof -
  assume i: "i < 27"
  have "list_all good_size (take 27 hash_sizes)"
    unfolding hash_sizes_def by (simp add: good_size_ENTRY prime_size_facts)
  then show ?thesis using i list_all_nth [of good_size "take 27 hash_sizes" i] by simp
qed

lemma sizes_double: "i < 26 \<Longrightarrow> hs_max_entries (hash_sizes ! Suc i) = 2 * hs_max_entries (hash_sizes ! i)
    \<and> hs_size (hash_sizes ! i) \<le> hs_max_entries (hash_sizes ! Suc i)"
proof -
  assume i: "i < 26"
  have "list_all (\<lambda>(a, b). hs_max_entries b = 2 * hs_max_entries a \<and> hs_size a \<le> hs_max_entries b)
    (zip (take 26 hash_sizes) (drop 1 hash_sizes))"
    unfolding hash_sizes_def by (simp add: ENTRY_def)
  then show ?thesis
    using i list_all_nth [of _ "zip (take 26 hash_sizes) (drop 1 hash_sizes)" i] by fastforce
qed

lemma first_size: "hash_sizes ! 0 = ENTRY 16 19 17"
  by (simp add: hash_sizes_def)

lemma max_entries_26: "hs_max_entries (hash_sizes ! 26) = 1073741824"
  by (simp add: hash_sizes_def ENTRY_def)

section \<open>The probe sequence visits every slot once\<close>

definition probe_addr :: "nat \<Rightarrow> nat \<Rightarrow> nat \<Rightarrow> nat \<Rightarrow> nat" where
  "probe_addr sz s d j = (s + j * d) mod sz"

definition probe_seq :: "nat \<Rightarrow> nat \<Rightarrow> nat \<Rightarrow> nat list" where
  "probe_seq sz s d = map (probe_addr sz s d) [0..<sz]"

lemma next_address_eq:
  assumes "a < sz" "d < sz" "sz < 2 ^ 31"
  shows "next_address sz d a = (a + d) mod sz"
proof -
  have "a + d < 2 ^ 32" using assms by simp
  moreover have "(a + d) mod sz = (if a + d \<ge> sz then a + d - sz else a + d)"
    using assms by (simp add: mod_if)
  ultimately show ?thesis by (simp add: next_address_def)
qed

lemma probe_addr_0 [simp]: "s < sz \<Longrightarrow> probe_addr sz s d 0 = s"
  by (simp add: probe_addr_def)

lemma probe_addr_less: "0 < sz \<Longrightarrow> probe_addr sz s d j < sz"
  by (simp add: probe_addr_def)

lemma next_probe_addr:
  assumes "d < sz" "sz < 2 ^ 31"
  shows "next_address sz d (probe_addr sz s d j) = probe_addr sz s d (Suc j)"
  using assms by (subst next_address_eq) (simp_all add: probe_addr_def mod_simps algebra_simps)

lemma probe_addr_inj:
  assumes sz: "prime_size sz" and d: "0 < d" "d < sz" and ij: "i < j" "j < i + sz"
  shows "probe_addr sz s d i \<noteq> probe_addr sz s d j"
proof
  assume "probe_addr sz s d i = probe_addr sz s d j"
  then have "sz dvd (s + j * d) - (s + i * d)"
    unfolding probe_addr_def by (metis mod_eq_dvd_iff_nat add_le_mono1 ij(1) le_add2 mult_le_mono1 nat_add_left_cancel_le less_imp_le)
  moreover have "(s + j * d) - (s + i * d) = (j - i) * d" by (simp add: diff_mult_distrib)
  moreover have "coprime sz d" using sz d by (simp add: prime_size_def coprime_commute)
  ultimately have "sz dvd j - i" by (simp add: coprime_dvd_mult_left_iff)
  then show False using ij by (auto dest: dvd_imp_le)
qed

lemma probe_addr_wrap: "s < sz \<Longrightarrow> probe_addr sz s d sz = s"
  by (simp add: probe_addr_def)

lemma distinct_probe_seq:
  assumes "prime_size sz" "0 < d" "d < sz"
  shows "distinct (probe_seq sz s d)"
  unfolding probe_seq_def distinct_map inj_on_def
  using probe_addr_inj [OF assms] by (metis atLeastLessThan_iff distinct_upt linorder_neqE_nat set_upt trans_less_add2)

lemma set_probe_seq:
  assumes "prime_size sz" "0 < d" "d < sz"
  shows "set (probe_seq sz s d) = {..<sz}"
proof (rule card_subset_eq)
  show "set (probe_seq sz s d) \<subseteq> {..<sz}"
    using assms by (auto simp: probe_seq_def probe_addr_less)
  show "card (set (probe_seq sz s d)) = card {..<sz}"
    using distinct_card [OF distinct_probe_seq [OF assms]] by (simp add: probe_seq_def)
qed simp

section \<open>The loops follow the probe sequence\<close>

primrec probe_list :: "('a \<Rightarrow> nat \<Rightarrow> 'a + 'r) \<Rightarrow> ('a \<Rightarrow> 'r) \<Rightarrow> nat list \<Rightarrow> 'a \<Rightarrow> 'r" where
  "probe_list body fin [] acc = fin acc"
| "probe_list body fin (a # as) acc =
    (case body acc a of Inr r \<Rightarrow> r | Inl acc' \<Rightarrow> probe_list body fin as acc')"

lemma do_probe_from:
  assumes sz: "prime_size sz" "sz < 2 ^ 31" and d: "0 < d" "d < sz" and s: "s < sz" and j: "j < sz"
  shows "do_probe body fin sz d s (probe_addr sz s d j) acc
    = Some (probe_list body fin (map (probe_addr sz s d) [j..<sz]) acc)"
  using j
proof (induction "sz - j" arbitrary: j acc rule: less_induct)
  case less
  have u: "[j..<sz] = j # [Suc j..<sz]" using less.prems by (simp add: upt_conv_Cons)
  have n: "next_address sz d (probe_addr sz s d j) = probe_addr sz s d (Suc j)"
    by (rule next_probe_addr) (use d sz in auto)
  show ?case
  proof (cases "Suc j = sz")
    case True
    then have "probe_addr sz s d (Suc j) = s" using probe_addr_wrap [OF s] by simp
    then show ?thesis using True by (subst do_probe.simps) (simp add: u n split: sum.split)
  next
    case False
    then have "probe_addr sz s d (Suc j) \<noteq> s"
      using probe_addr_inj [OF sz(1) d, of 0 "Suc j" s] less.prems s by simp
    then show ?thesis using False less
      by (subst do_probe.simps) (simp add: u n split: sum.split)
  qed
qed

lemma do_probe_eq:
  assumes "prime_size sz" "sz < 2 ^ 31" "0 < d" "d < sz" "s < sz"
  shows "do_probe body fin sz d s s acc = Some (probe_list body fin (probe_seq sz s d) acc)"
  using do_probe_from [OF assms, of 0] assms(5) by (simp add: probe_seq_def)

lemma probe_forever_from:
  assumes "d < sz" "sz < 2 ^ 31" "j \<le> k" "stop (probe_addr sz s d k)"
    and "\<And>i. j \<le> i \<Longrightarrow> i < k \<Longrightarrow> \<not> stop (probe_addr sz s d i)"
  shows "probe_forever stop sz d (probe_addr sz s d j) = Some (probe_addr sz s d k)"
  using assms(3,5)
proof (induction "k - j" arbitrary: j)
  case 0
  then have "j = k" by simp
  then show ?case using assms(4) by (subst probe_forever.simps) simp
next
  case (Suc x)
  have "\<not> stop (probe_addr sz s d j)" using Suc by simp
  moreover have "probe_forever stop sz d (probe_addr sz s d (Suc j)) = Some (probe_addr sz s d k)"
    using Suc by (intro Suc.hyps(1)) simp_all
  ultimately show ?case
    using next_probe_addr [OF assms(1,2), of s j] by (subst probe_forever.simps) simp
qed

text \<open>When any slot stops the endless loop, it ends, at the first such slot of the sequence.\<close>

lemma probe_forever_eq:
  assumes sz: "prime_size sz" "sz < 2 ^ 31" and d: "0 < d" "d < sz" and s: "s < sz"
    and a: "a < sz" "stop a"
  shows "\<exists>k < sz. probe_forever stop sz d s = Some (probe_addr sz s d k) \<and> stop (probe_addr sz s d k)
    \<and> (\<forall>i<k. \<not> stop (probe_addr sz s d i))"
proof -
  have "a \<in> set (probe_seq sz s d)" using set_probe_seq [OF sz(1) d] a by simp
  then obtain m where m: "m < sz" "a = probe_addr sz s d m" by (auto simp: probe_seq_def)
  define k where "k = (LEAST k. stop (probe_addr sz s d k))"
  have k: "stop (probe_addr sz s d k)" "k \<le> m" and low: "\<forall>i<k. \<not> stop (probe_addr sz s d i)"
    unfolding k_def using m a(2)
    by (auto intro: LeastI [of "\<lambda>k. stop (probe_addr sz s d k)" m] Least_le
      dest: not_less_Least)
  have "probe_forever stop sz d s = Some (probe_addr sz s d k)"
    using probe_forever_from [of d sz 0 k stop s] d sz k(1) low s by simp
  then show ?thesis using k low m(1) by (intro exI [of _ k]) simp
qed

lemma start_hash_address_eq:
  assumes "0 < sz" "sz < 2 ^ 32"
  shows "start_hash_address sz (REMAINDER_MAGIC (word_of_nat sz)) h = unat h mod sz"
proof -
  have u: "unat (word_of_nat sz :: 32 word) = sz" using assms by (simp add: unsigned_of_nat take_bit_nat_eq_self)
  then have "(word_of_nat sz :: 32 word) \<noteq> 0" using assms(1) by (metis neq0_conv unat_0)
  then show ?thesis by (simp add: start_hash_address_def util_fast_urem32_eq unat_mod u)
qed

lemma double_hash_eq:
  assumes "0 < r" "r < 2 ^ 32"
  shows "double_hash r (REMAINDER_MAGIC (word_of_nat r)) h = 1 + unat h mod r"
proof -
  have "unat h mod r < r" using assms(1) by simp
  then have "1 + unat h mod r < 2 ^ 32" using assms(2) by simp
  then show ?thesis
    using start_hash_address_eq [OF assms, of h] by (simp add: double_hash_def start_hash_address_def)
qed

section \<open>The last size\<close>

text \<open>In a table of the last size the sum of an address and a step may exceed 32 bits. Then two slots have
  one successor, and a walk need not come back to where it started.\<close>

lemma last_size_collides:
  "hs_size (hash_sizes ! 27) = 2362232233 \<and> hs_rehash (hash_sizes ! 27) = 2362232231
    \<and> next_address 2362232233 2362232231 2362232232 = 429497167
    \<and> next_address 2362232233 2362232231 429497169 = 429497167"
  by (simp add: hash_sizes_def ENTRY_def next_address_def u32_def)

end
