(* ===== verification/Slots.thy ===== *)
theory Slots
  imports Probe
begin

text \<open>
  What an open-addressing table holds, without the layout of its entries: a list of slots that are free,
  deleted or present. A table is well formed when every present slot has the hash of its key, is reached
  from the first address of its hash without crossing a free slot, and no two present slots have equal
  keys. The locale \<open>hash_keys\<close> is the contract of the two callbacks of a table. Inside it, searching
  finds exactly what the slots hold, and filling or deleting a slot changes the map by one key.
\<close>

section \<open>Slots\<close>

datatype ('k, 'd) slot = Free | Deleted | Present (slot_hash: "32 word") (slot_key: 'k) (slot_data: 'd)

definition seq_at :: "hash_size \<Rightarrow> 32 word \<Rightarrow> nat \<Rightarrow> nat" where
  "seq_at s hash = probe_addr (hs_size s) (unat hash mod hs_size s) (1 + unat hash mod hs_rehash s)"

definition reachable_slot :: "hash_size \<Rightarrow> ('k, 'd) slot list \<Rightarrow> 32 word \<Rightarrow> nat \<Rightarrow> bool" where
  "reachable_slot s ts hash i \<longleftrightarrow>
    (\<exists>j < hs_size s. seq_at s hash j = i \<and> (\<forall>m<j. ts ! seq_at s hash m \<noteq> Free))"

definition slots_ok :: "('k \<Rightarrow> 32 word) \<Rightarrow> ('k \<Rightarrow> 'k \<Rightarrow> bool) \<Rightarrow> hash_size \<Rightarrow> ('k, 'd) slot list \<Rightarrow> bool" where
  "slots_ok h eq s ts \<longleftrightarrow> length ts = hs_size s
    \<and> (\<forall>i<length ts. \<forall>hash k d. ts ! i = Present hash k d \<longrightarrow> hash = h k \<and> reachable_slot s ts hash i)
    \<and> (\<forall>i<length ts. \<forall>j<length ts. \<forall>hash k d hash' k' d'.
        ts ! i = Present hash k d \<and> ts ! j = Present hash' k' d' \<and> eq k k' \<longrightarrow> i = j)"

primrec slots_map :: "('k \<Rightarrow> 'k \<Rightarrow> bool) \<Rightarrow> ('k, 'd) slot list \<Rightarrow> 'k \<Rightarrow> 'd option" where
  "slots_map eq [] k = None"
| "slots_map eq (x # xs) k =
    (case x of Present _ k' d \<Rightarrow> if eq k k' then Some d else slots_map eq xs k | _ \<Rightarrow> slots_map eq xs k)"

definition search_step :: "('k \<Rightarrow> 'k \<Rightarrow> bool) \<Rightarrow> 32 word \<Rightarrow> 'k \<Rightarrow> ('k, 'd) slot list \<Rightarrow> unit \<Rightarrow> nat
    \<Rightarrow> unit + nat option" where
  "search_step eq hash k ts acc a =
    (case ts ! a of
       Free \<Rightarrow> Inr None
     | Deleted \<Rightarrow> Inl ()
     | Present hash' k' d \<Rightarrow> if hash' = hash \<and> eq k k' then Inr (Some a) else Inl ())"

definition get_step :: "('k \<Rightarrow> 'k \<Rightarrow> bool) \<Rightarrow> 32 word \<Rightarrow> 'k \<Rightarrow> ('k, 'd) slot list \<Rightarrow> nat option \<Rightarrow> nat
    \<Rightarrow> nat option + (nat + nat option)" where
  "get_step eq hash k ts av a =
    (case ts ! a of
       Free \<Rightarrow> Inr (Inr (if av = None then Some a else av))
     | Deleted \<Rightarrow> Inl (if av = None then Some a else av)
     | Present hash' k' d \<Rightarrow> if hash' = hash \<and> eq k k' then Inr (Inl a) else Inl av)"

section \<open>The probe sequence of a size\<close>

lemma good_sizeD:
  assumes "good_size s"
  shows "prime_size (hs_size s)" "19 \<le> hs_size s" "hs_size s < 2 ^ 31" "hs_rehash s + 2 = hs_size s"
    "0 < hs_max_entries s" "hs_max_entries s < hs_size s" "0 < hs_size s" "0 < hs_rehash s" "hs_rehash s < 2 ^ 31"
    "hs_size_magic s = REMAINDER_MAGIC (word_of_nat (hs_size s))"
    "hs_rehash_magic s = REMAINDER_MAGIC (word_of_nat (hs_rehash s))"
  using assms by (auto simp: good_size_def)

lemma step_bounds:
  fixes hash :: "32 word"
  assumes "good_size s"
  shows "unat hash mod hs_size s < hs_size s" "0 < 1 + unat hash mod hs_rehash s"
    "1 + unat hash mod hs_rehash s < hs_size s"
proof -
  have "unat hash mod hs_rehash s < hs_rehash s" using good_sizeD(8) [OF assms] by simp
  then show "1 + unat hash mod hs_rehash s < hs_size s" using good_sizeD(4) [OF assms] by simp
qed (use good_sizeD(7) [OF assms] in simp_all)

lemma seq_at_less: "good_size s \<Longrightarrow> seq_at s hash j < hs_size s"
  unfolding seq_at_def by (simp add: probe_addr_less good_sizeD)

lemma seq_at_onto:
  assumes "good_size s" "a < hs_size s"
  shows "\<exists>j < hs_size s. seq_at s hash j = a"
proof -
  have "a \<in> set (probe_seq (hs_size s) (unat hash mod hs_size s) (1 + unat hash mod hs_rehash s))"
    using set_probe_seq [OF good_sizeD(1) [OF assms(1)] step_bounds(2,3) [OF assms(1)]] assms(2) by simp
  then show ?thesis unfolding probe_seq_def seq_at_def by auto
qed

lemma start_address_of_size:
  "good_size s \<Longrightarrow> start_hash_address (hs_size s) (hs_size_magic s) hash = unat hash mod hs_size s"
  using good_sizeD [of s] by (simp add: start_hash_address_eq)

lemma double_hash_of_size:
  "good_size s \<Longrightarrow> double_hash (hs_rehash s) (hs_rehash_magic s) hash = 1 + unat hash mod hs_rehash s"
  using good_sizeD [of s] by (simp add: double_hash_eq)

lemma do_probe_of_size:
  assumes "good_size s"
  shows "do_probe body fin (hs_size s) (1 + unat hash mod hs_rehash s) (unat hash mod hs_size s)
      (unat hash mod hs_size s) acc
    = Some (probe_list body fin (map (seq_at s hash) [0..<hs_size s]) acc)"
  using do_probe_eq [OF good_sizeD(1,3) [OF assms] step_bounds(2,3,1) [OF assms]]
  by (simp add: probe_seq_def seq_at_def)

lemma probe_forever_of_size:
  assumes "good_size s" "a < hs_size s" "stop a"
  shows "\<exists>k < hs_size s. probe_forever stop (hs_size s) (1 + unat hash mod hs_rehash s) (unat hash mod hs_size s)
      = Some (seq_at s hash k) \<and> stop (seq_at s hash k) \<and> (\<forall>i<k. \<not> stop (seq_at s hash i))"
  unfolding seq_at_def using good_sizeD(1,3) [OF assms(1)] step_bounds [OF assms(1)] assms(2,3)
  by (intro probe_forever_eq [where a = a])

section \<open>What the loops find\<close>

lemma map_seq_split:
  assumes "map f [0..<n] = xs @ a # ys"
  shows "a = f (length xs) \<and> length xs < n \<and> (\<forall>m<length xs. f m = xs ! m)"
proof -
  have n: "length xs < n" using arg_cong [OF assms, of length] by simp
  have "map f [0..<n] ! length xs = f (length xs)" using n by simp
  moreover have "map f [0..<n] ! length xs = a" by (simp add: assms)
  moreover have "f m = xs ! m" if "m < length xs" for m
  proof -
    have "map f [0..<n] ! m = f m" using that n by simp
    then show ?thesis using that by (simp add: assms nth_append)
  qed
  ultimately show ?thesis using n by simp
qed

lemma search_step_simps:
  "ts ! a = Free \<Longrightarrow> search_step eq hash k ts acc a = Inr None"
  "ts ! a = Deleted \<Longrightarrow> search_step eq hash k ts acc a = Inl ()"
  "ts ! a = Present hash' k' d \<Longrightarrow> search_step eq hash k ts acc a
    = (if hash' = hash \<and> eq k k' then Inr (Some a) else Inl ())"
  by (simp_all add: search_step_def)

lemma get_step_simps:
  "ts ! a = Free \<Longrightarrow> get_step eq hash k ts av a = Inr (Inr (if av = None then Some a else av))"
  "ts ! a = Deleted \<Longrightarrow> get_step eq hash k ts av a = Inl (if av = None then Some a else av)"
  "ts ! a = Present hash' k' d \<Longrightarrow> get_step eq hash k ts av a
    = (if hash' = hash \<and> eq k k' then Inr (Inl a) else Inl av)"
  by (simp_all add: get_step_def)

lemma search_list_Some:
  "probe_list (search_step eq hash k ts) (\<lambda>_. None) as () = Some a
    \<Longrightarrow> a \<in> set as \<and> (\<exists>k' d. ts ! a = Present hash k' d \<and> eq k k')"
proof (induction as)
  case (Cons x as)
  then show ?case by (cases "ts ! x") (auto simp: search_step_simps split: if_splits)
qed simp

lemma search_list_None:
  assumes "probe_list (search_step eq hash k ts) (\<lambda>_. None) as () = None"
    and "as = xs @ a # ys" "ts ! a = Present hash k' d" "eq k k'"
  shows "\<exists>b\<in>set xs. ts ! b = Free"
  using assms
proof (induction xs arbitrary: as)
  case (Cons x xs)
  then show ?case by (cases "ts ! x") (auto simp: search_step_simps split: if_splits)
qed (auto simp: search_step_simps)

lemma get_list_Inl:
  "probe_list (get_step eq hash k ts) Inr as av = Inl a
    \<Longrightarrow> a \<in> set as \<and> (\<exists>k' d. ts ! a = Present hash k' d \<and> eq k k')"
proof (induction as arbitrary: av)
  case (Cons x as)
  then show ?case by (cases "ts ! x") (auto simp: get_step_simps split: if_splits)
qed simp

lemma get_list_no_match:
  assumes "probe_list (get_step eq hash k ts) Inr as av = Inr r"
    and "as = xs @ a # ys" "ts ! a = Present hash k' d" "eq k k'"
  shows "\<exists>b\<in>set xs. ts ! b = Free"
  using assms
proof (induction xs arbitrary: as av)
  case (Cons x xs)
  then show ?case by (cases "ts ! x") (auto simp: get_step_simps split: if_splits)
qed (auto simp: get_step_simps)

lemma get_list_available:
  "probe_list (get_step eq hash k ts) Inr as (Some b) = Inr r \<Longrightarrow> r = Some b"
proof (induction as)
  case (Cons x as)
  then show ?case by (cases "ts ! x") (auto simp: get_step_simps split: if_splits)
qed simp

lemma get_list_first:
  assumes "probe_list (get_step eq hash k ts) Inr as None = Inr r"
  shows "case r of
      None \<Rightarrow> \<forall>b\<in>set as. \<exists>hash k d. ts ! b = Present hash k d
    | Some a \<Rightarrow> \<exists>xs ys. as = xs @ a # ys \<and> (ts ! a = Free \<or> ts ! a = Deleted)
        \<and> (\<forall>b\<in>set xs. \<exists>hash k d. ts ! b = Present hash k d)"
  using assms
proof (induction as)
  case (Cons x as)
  show ?case
  proof (cases "ts ! x")
    case Free
    then have "r = Some x" using Cons.prems by (simp add: get_step_simps)
    then show ?thesis using Free by (auto intro: exI [of _ "[]"])
  next
    case Deleted
    then have "probe_list (get_step eq hash k ts) Inr as (Some x) = Inr r"
      using Cons.prems by (simp add: get_step_simps)
    then have "r = Some x" by (rule get_list_available)
    then show ?thesis using Deleted by (auto intro: exI [of _ "[]"])
  next
    case (Present hash' k' d)
    then have "probe_list (get_step eq hash k ts) Inr as None = Inr r"
      using Cons.prems by (simp add: get_step_simps split: if_splits)
    from Cons.IH [OF this] show ?thesis
    proof (cases r)
      case (Some a)
      with Cons.IH [OF \<open>probe_list _ _ as None = Inr r\<close>] obtain xs ys where
        "as = xs @ a # ys" "ts ! a = Free \<or> ts ! a = Deleted"
        "\<forall>b\<in>set xs. \<exists>hash k d. ts ! b = Present hash k d" by auto
      then have "x # as = (x # xs) @ a # ys \<and> (ts ! a = Free \<or> ts ! a = Deleted)
          \<and> (\<forall>b\<in>set (x # xs). \<exists>hash k d. ts ! b = Present hash k d)" using Present by simp
      then show ?thesis using Some by (simp only: option.case) blast
    qed (use Present in simp)
  qed
qed simp

section \<open>The map that the slots hold\<close>

locale hash_keys =
  fixes h :: "'k \<Rightarrow> 32 word" and eq :: "'k \<Rightarrow> 'k \<Rightarrow> bool"
  assumes eq_refl: "eq a a"
    and eq_sym: "eq a b \<Longrightarrow> eq b a"
    and eq_trans: "eq a b \<Longrightarrow> eq b c \<Longrightarrow> eq a c"
    and eq_hash: "eq a b \<Longrightarrow> h a = h b"
begin

lemma slots_okD:
  assumes "slots_ok h eq s ts"
  shows "length ts = hs_size s"
    and "i < length ts \<Longrightarrow> ts ! i = Present hash k d \<Longrightarrow> hash = h k"
    and "i < length ts \<Longrightarrow> ts ! i = Present hash k d \<Longrightarrow> reachable_slot s ts hash i"
    and "i < length ts \<Longrightarrow> j < length ts \<Longrightarrow> ts ! i = Present hash k d \<Longrightarrow> ts ! j = Present hash' k' d'
      \<Longrightarrow> eq k k' \<Longrightarrow> i = j"
  using assms unfolding slots_ok_def by blast+

lemma slots_map_SomeD:
  "slots_map eq ts k = Some d \<Longrightarrow> \<exists>i<length ts. \<exists>hash k'. ts ! i = Present hash k' d \<and> eq k k'"
proof (induction ts)
  case (Cons x xs)
  show ?case
  proof (cases "\<exists>hash k'. x = Present hash k' d \<and> eq k k'")
    case True then show ?thesis by (intro exI [of _ 0]) simp
  next
    case False
    then have "slots_map eq xs k = Some d" using Cons.prems by (auto split: slot.splits if_splits)
    from Cons.IH [OF this] obtain i where "i < length xs" "\<exists>hash k'. xs ! i = Present hash k' d \<and> eq k k'"
      by blast
    then show ?thesis by (intro exI [of _ "Suc i"]) simp
  qed
qed simp

lemma slots_map_not_None:
  "i < length ts \<Longrightarrow> ts ! i = Present hash k' d \<Longrightarrow> eq k k' \<Longrightarrow> slots_map eq ts k \<noteq> None"
  by (induction ts arbitrary: i) (auto simp: nth_Cons split: nat.splits slot.splits)

lemma slots_map_eq_Some:
  assumes "slots_ok h eq s ts"
  shows "slots_map eq ts k = Some d \<longleftrightarrow> (\<exists>i<length ts. \<exists>hash k'. ts ! i = Present hash k' d \<and> eq k k')"
proof
  assume "\<exists>i<length ts. \<exists>hash k'. ts ! i = Present hash k' d \<and> eq k k'"
  then obtain i hash k' where i: "i < length ts" "ts ! i = Present hash k' d" "eq k k'" by blast
  then obtain d' where d': "slots_map eq ts k = Some d'"
    using slots_map_not_None [OF i] by (cases "slots_map eq ts k") auto
  then obtain j hash'' k'' where j: "j < length ts" "ts ! j = Present hash'' k'' d'" "eq k k''"
    using slots_map_SomeD [OF d'] by blast
  have "eq k' k''" using i(3) j(3) eq_sym eq_trans by blast
  then have "i = j" using slots_okD(4) [OF assms i(1) j(1) i(2) j(2)] by simp
  then show "slots_map eq ts k = Some d" using i(2) j(2) d' by simp
qed (rule slots_map_SomeD)

lemma slots_map_eq_None:
  assumes "slots_ok h eq s ts"
  shows "slots_map eq ts k = None \<longleftrightarrow> (\<forall>i<length ts. \<forall>hash k' d. ts ! i = Present hash k' d \<longrightarrow> \<not> eq k k')"
  using slots_map_eq_Some [OF assms, of k] by (metis not_None_eq)

lemma slots_map_cong_key: "eq k k' \<Longrightarrow> slots_map eq ts k = slots_map eq ts k'"
  by (induction ts) (auto split: slot.splits dest: eq_sym intro: eq_trans)

lemma reachable_update:
  assumes "reachable_slot s ts hash i" "x \<noteq> Free" "good_size s" "length ts = hs_size s"
  shows "reachable_slot s (ts[a := x]) hash i"
  using assms unfolding reachable_slot_def by (metis nth_list_update_eq nth_list_update_neq seq_at_less)

lemma put_ok:
  assumes ok: "slots_ok h eq s ts" and s: "good_size s" and a: "a < length ts"
    and r: "reachable_slot s ts (h k) a"
    and others: "\<And>i hash k' d'. i < length ts \<Longrightarrow> i \<noteq> a \<Longrightarrow> ts ! i = Present hash k' d' \<Longrightarrow> \<not> eq k k'"
  shows "slots_ok h eq s (ts[a := Present (h k) k d])"
  unfolding slots_ok_def
proof (intro conjI allI impI)
  fix i hash k' d' assume i: "i < length (ts[a := Present (h k) k d])"
    and p: "ts[a := Present (h k) k d] ! i = Present hash k' d'"
  show "hash = h k'" using slots_okD(2) [OF ok] i p by (cases "i = a") auto
  have "reachable_slot s ts hash i"
    using r slots_okD(3) [OF ok] i p by (cases "i = a") auto
  then show "reachable_slot s (ts[a := Present (h k) k d]) hash i"
    by (rule reachable_update) (use s slots_okD(1) [OF ok] in auto)
next
  fix i j hash k1 d1 hash' k2 d2
  assume i: "i < length (ts[a := Present (h k) k d])" and j: "j < length (ts[a := Present (h k) k d])"
    and p: "ts[a := Present (h k) k d] ! i = Present hash k1 d1
      \<and> ts[a := Present (h k) k d] ! j = Present hash' k2 d2 \<and> eq k1 k2"
  show "i = j"
  proof (cases "i = a"; cases "j = a")
    assume "i = a" "j \<noteq> a"
    then show ?thesis using others [of j] i j p by auto
  next
    assume "i \<noteq> a" "j = a"
    then show ?thesis using others [of i] i j p by (auto dest: eq_sym)
  next
    assume "i \<noteq> a" "j \<noteq> a"
    then show ?thesis using slots_okD(4) [OF ok, of i j] i j p by auto
  qed simp
qed (use slots_okD(1) [OF ok] in simp)

lemma put_map:
  assumes ok: "slots_ok h eq s ts" and s: "good_size s" and a: "a < length ts"
    and r: "reachable_slot s ts (h k) a"
    and others: "\<And>i hash k' d'. i < length ts \<Longrightarrow> i \<noteq> a \<Longrightarrow> ts ! i = Present hash k' d' \<Longrightarrow> \<not> eq k k'"
    and here: "\<And>hash k' d'. ts ! a = Present hash k' d' \<Longrightarrow> eq k k'"
  shows "slots_map eq (ts[a := Present (h k) k d]) k' = (if eq k k' then Some d else slots_map eq ts k')"
proof -
  have ok': "slots_ok h eq s (ts[a := Present (h k) k d])" by (rule put_ok [OF ok s a r others])
  show ?thesis
  proof (cases "eq k k'")
    case True
    then show ?thesis using a eq_sym
      by (simp add: slots_map_eq_Some [OF ok'])
        (metis length_list_update nth_list_update_eq)
  next
    case False
    have n: "\<not> eq k' k" using False eq_sym by blast
    have "slots_map eq (ts[a := Present (h k) k d]) k' = Some d' \<longleftrightarrow> slots_map eq ts k' = Some d'" for d'
    proof -
      have e: "(ts[a := Present (h k) k d] ! i = Present hash k1 d' \<and> eq k' k1)
          = (ts ! i = Present hash k1 d' \<and> eq k' k1)" if "i < length ts" for i hash k1
      proof (cases "i = a")
        case True
        have "\<not> eq k' k1" if "ts ! a = Present hash k1 d'"
          using here [OF that] n eq_sym eq_trans by blast
        then show ?thesis using True a n by auto
      qed simp
      show ?thesis by (simp add: slots_map_eq_Some [OF ok'] slots_map_eq_Some [OF ok] e cong: conj_cong)
    qed
    then show ?thesis using False by (metis (no_types) not_Some_eq)
  qed
qed

lemma delete_ok:
  assumes ok: "slots_ok h eq s ts" and s: "good_size s"
  shows "slots_ok h eq s (ts[a := Deleted])"
  unfolding slots_ok_def
proof (intro conjI allI impI)
  fix i hash k' d' assume i: "i < length (ts[a := Deleted])" and p: "ts[a := Deleted] ! i = Present hash k' d'"
  have q: "ts ! i = Present hash k' d'" using i p by (cases "i = a") auto
  show "hash = h k'" using slots_okD(2) [OF ok] i q by auto
  have "reachable_slot s ts hash i" using slots_okD(3) [OF ok] i q by auto
  then show "reachable_slot s (ts[a := Deleted]) hash i"
    by (rule reachable_update) (use s slots_okD(1) [OF ok] in auto)
next
  fix i j hash k1 d1 hash' k2 d2
  assume i: "i < length (ts[a := Deleted])" and j: "j < length (ts[a := Deleted])"
    and p: "ts[a := Deleted] ! i = Present hash k1 d1 \<and> ts[a := Deleted] ! j = Present hash' k2 d2 \<and> eq k1 k2"
  show "i = j" using slots_okD(4) [OF ok, of i j] i j p by (cases "i = a"; cases "j = a") auto
qed (use slots_okD(1) [OF ok] in simp)

lemma delete_map:
  assumes ok: "slots_ok h eq s ts" and s: "good_size s" and a: "a < length ts" "ts ! a = Present hash k d"
  shows "slots_map eq (ts[a := Deleted]) k' = (if eq k k' then None else slots_map eq ts k')"
proof -
  have ok': "slots_ok h eq s (ts[a := Deleted])" by (rule delete_ok [OF ok s])
  show ?thesis
  proof (cases "eq k k'")
    case True
    have "\<not> eq k' k1" if "i < length ts" "ts[a := Deleted] ! i = Present hash1 k1 d1" for i hash1 k1 d1
    proof
      assume "eq k' k1"
      then have "eq k k1" using True eq_trans by blast
      moreover have "i \<noteq> a" "ts ! i = Present hash1 k1 d1" using that a by (auto simp: nth_list_update split: if_splits)
      ultimately show False using slots_okD(4) [OF ok a(1) that(1) a(2)] by blast
    qed
    then show ?thesis using True by (simp add: slots_map_eq_None [OF ok'])
  next
    case False
    have "slots_map eq (ts[a := Deleted]) k' = Some d' \<longleftrightarrow> slots_map eq ts k' = Some d'" for d'
    proof -
      have e: "(ts[a := Deleted] ! i = Present hash1 k1 d' \<and> eq k' k1)
          = (ts ! i = Present hash1 k1 d' \<and> eq k' k1)" if "i < length ts" for i hash1 k1
        using False a that by (auto simp: nth_list_update dest: eq_sym)
      show ?thesis by (simp add: slots_map_eq_Some [OF ok'] slots_map_eq_Some [OF ok] e cong: conj_cong)
    qed
    then show ?thesis using False by (metis (no_types) not_Some_eq)
  qed
qed

lemma not_found:
  assumes ok: "slots_ok h eq s ts"
    and miss: "\<And>xs a ys k' d. map (seq_at s (h k)) [0..<hs_size s] = xs @ a # ys
      \<Longrightarrow> ts ! a = Present (h k) k' d \<Longrightarrow> eq k k' \<Longrightarrow> \<exists>b\<in>set xs. ts ! b = Free"
  shows "slots_map eq ts k = None"
proof (rule ccontr)
  assume "slots_map eq ts k \<noteq> None"
  then obtain d where "slots_map eq ts k = Some d" by blast
  then obtain i hash k' where i: "i < length ts" "ts ! i = Present hash k' d" "eq k k'"
    using slots_map_SomeD by meson
  have hash: "hash = h k" using slots_okD(2) [OF ok i(1,2)] eq_hash [OF i(3)] by simp
  obtain j where j: "j < hs_size s" "seq_at s (h k) j = i" "\<forall>m<j. ts ! seq_at s (h k) m \<noteq> Free"
    using slots_okD(3) [OF ok i(1,2)] hash unfolding reachable_slot_def by blast
  have "[0..<hs_size s] = [0..<j] @ j # [Suc j..<hs_size s]"
    using j(1) by (metis less_imp_le_nat upt_add_eq_append upt_conv_Cons le0 le_add_diff_inverse)
  then have "map (seq_at s (h k)) [0..<hs_size s]
      = map (seq_at s (h k)) [0..<j] @ i # map (seq_at s (h k)) [Suc j..<hs_size s]"
    using j(2) by simp
  from miss [OF this] i hash obtain b where "b \<in> set (map (seq_at s (h k)) [0..<j])" "ts ! b = Free"
    by blast
  then show False using j(3) by auto
qed

lemma search_found:
  assumes ok: "slots_ok h eq s ts" and s: "good_size s"
    and r: "probe_list (search_step eq (h k) k ts) (\<lambda>_. None) (map (seq_at s (h k)) [0..<hs_size s]) () = r"
  shows "case r of
      None \<Rightarrow> slots_map eq ts k = None
    | Some a \<Rightarrow> a < length ts \<and> (\<exists>k' d. ts ! a = Present (h k) k' d \<and> eq k k')"
proof (cases r)
  case None
  have "slots_map eq ts k = None"
    by (rule not_found [OF ok]) (rule search_list_None [OF r [unfolded None]])
  then show ?thesis using None by simp
next
  case (Some a)
  then show ?thesis
    using search_list_Some [OF r [unfolded Some]] slots_okD(1) [OF ok] by (auto simp: seq_at_less [OF s])
qed

lemma get_found:
  assumes ok: "slots_ok h eq s ts" and s: "good_size s"
    and r: "probe_list (get_step eq (h k) k ts) Inr (map (seq_at s (h k)) [0..<hs_size s]) None = r"
  shows "case r of
      Inl a \<Rightarrow> a < length ts \<and> (\<exists>k' d. ts ! a = Present (h k) k' d \<and> eq k k')
    | Inr None \<Rightarrow> \<forall>i<length ts. \<exists>hash k' d. ts ! i = Present hash k' d
    | Inr (Some a) \<Rightarrow> a < length ts \<and> slots_map eq ts k = None \<and> (ts ! a = Free \<or> ts ! a = Deleted)
        \<and> reachable_slot s ts (h k) a"
proof (cases r)
  case (Inl a)
  then show ?thesis
    using get_list_Inl [OF r [unfolded Inl]] slots_okD(1) [OF ok] by (auto simp: seq_at_less [OF s])
next
  case (Inr av)
  have none: "slots_map eq ts k = None"
    by (rule not_found [OF ok]) (rule get_list_no_match [OF r [unfolded Inr]])
  show ?thesis
  proof (cases av)
    case None
    have "\<exists>hash k' d. ts ! i = Present hash k' d" if i: "i < length ts" for i
    proof -
      obtain j where "j < hs_size s" "seq_at s (h k) j = i"
        using seq_at_onto [OF s, of i "h k"] i [unfolded slots_okD(1) [OF ok]] by blast
      then have "i \<in> set (map (seq_at s (h k)) [0..<hs_size s])" by auto
      then show ?thesis using get_list_first [OF r [unfolded Inr]] unfolding None option.case by (rule bspec [rotated])
    qed
    then show ?thesis using Inr None by simp
  next
    case (Some a)
    obtain xs ys where x: "map (seq_at s (h k)) [0..<hs_size s] = xs @ a # ys"
      "ts ! a = Free \<or> ts ! a = Deleted" "\<forall>b\<in>set xs. \<exists>hash k d. ts ! b = Present hash k d"
      using get_list_first [OF r [unfolded Inr]] unfolding Some option.case by (elim exE conjE)
    have sp: "a = seq_at s (h k) (length xs)" "length xs < hs_size s"
      "\<forall>m<length xs. seq_at s (h k) m = xs ! m" using map_seq_split [OF x(1)] by auto
    have "\<forall>m<length xs. ts ! seq_at s (h k) m \<noteq> Free" using sp(3) x(3) by (metis nth_mem slot.distinct(3))
    then have "reachable_slot s ts (h k) a" unfolding reachable_slot_def using sp by blast
    then show ?thesis using Inr Some none x(2) sp(1) seq_at_less [OF s] slots_okD(1) [OF ok] by simp
  qed
qed

lemma empty_ok:
  assumes "\<forall>x\<in>set ts. x = Free" "length ts = hs_size s"
  shows "slots_ok h eq s ts" "slots_map eq ts k = None"
proof -
  have "ts ! i \<noteq> Present hash k d" if "i < length ts" for i hash k d
    using assms(1) nth_mem [OF that] by auto
  then show "slots_ok h eq s ts" unfolding slots_ok_def using assms(2) by blast
  show "slots_map eq ts k = None" using assms(1) by (induction ts) auto
qed

lemma slots_map_distinct_keys:
  assumes "slots_ok h eq s ts"
  shows "sorted_wrt (\<lambda>x y. \<not> eq (slot_key x) (slot_key y)) (filter (\<lambda>x. \<not> (x = Free \<or> x = Deleted)) ts)"
proof -
  let ?P = "\<lambda>x y. x = Free \<or> x = Deleted \<or> y = Free \<or> y = Deleted \<or> \<not> eq (slot_key x) (slot_key y)"
  have "?P (ts ! i) (ts ! j)" if "i < j" "j < length ts" for i j
    using slots_okD(4) [OF assms, of i j] that by (cases "ts ! i"; cases "ts ! j") auto
  then have "sorted_wrt ?P ts" by (simp add: sorted_wrt_iff_nth_less)
  then have "sorted_wrt ?P (filter (\<lambda>x. \<not> (x = Free \<or> x = Deleted)) ts)" by (rule sorted_wrt_filter)
  then show ?thesis by (rule sorted_wrt_mono_rel [rotated]) auto
qed

end

text \<open>Counting slots.\<close>

lemma length_filter_update:
  "i < length xs \<Longrightarrow> length (filter P (xs[i := y])) + (if P (xs ! i) then 1 else 0)
    = length (filter P xs) + (if P y then 1 else 0)"
proof (induction xs arbitrary: i)
  case (Cons x xs)
  show ?case
  proof (cases i)
    case (Suc j)
    then show ?thesis using Cons.IH [of j] Cons.prems by simp
  qed simp
qed simp

lemma ex_not_filter:
  "length (filter P xs) < length xs \<Longrightarrow> \<exists>i<length xs. \<not> P (xs ! i)"
  by (metis filter_True in_set_conv_nth nat_neq_iff)

end
