(* ===== verification/HashTable.thy ===== *)
theory HashTable
  imports Slots
begin

text \<open>
  The hash table of util/hash_table.c. An entry and a table are records; a table that is not allocated
  is the empty list, and \<open>ht_inline\<close> says whether the table is the storage inside the structure. Keys and
  data are pointers, and the callbacks are functions on pointers. Whether an allocation succeeds is an
  argument. A result \<^term>\<open>None\<close> of an operation stands for an endless loop or a failed assertion. The
  variant for 32-bit pointers of the tables with 64-bit keys, the hash functions built on xxHash and
  the ralloc destructors are not modelled.
\<close>

section \<open>Definitions\<close>

type_synonym ptr = "64 word"

record hash_entry =
  he_hash :: "32 word"
  he_present :: bool
  he_deleted :: bool
  he_key :: ptr
  he_data :: ptr

record hash_table =
  ht_table :: "hash_entry list"
  key_hash_function :: "(ptr \<Rightarrow> 32 word) option"
  key_equals_function :: "ptr \<Rightarrow> ptr \<Rightarrow> bool"
  ht_size :: nat
  ht_rehash :: nat
  ht_size_magic :: "64 word"
  ht_rehash_magic :: "64 word"
  ht_max_entries :: nat
  ht_size_index :: nat
  ht_entries :: nat
  ht_deleted_entries :: nat
  ht_inline :: bool

definition zero_entry :: hash_entry where
  "zero_entry = \<lparr> he_hash = 0, he_present = False, he_deleted = False, he_key = 0, he_data = 0 \<rparr>"

definition set_size_index :: "nat \<Rightarrow> hash_table \<Rightarrow> hash_table" where
  "set_size_index i ht = ht\<lparr> ht_size_index := i, ht_size := hs_size (hash_sizes ! i),
     ht_rehash := hs_rehash (hash_sizes ! i), ht_size_magic := hs_size_magic (hash_sizes ! i),
     ht_rehash_magic := hs_rehash_magic (hash_sizes ! i),
     ht_max_entries := hs_max_entries (hash_sizes ! i) \<rparr>"

definition mesa_hash_table_init :: "(ptr \<Rightarrow> 32 word) option \<Rightarrow> (ptr \<Rightarrow> ptr \<Rightarrow> bool) \<Rightarrow> hash_table" where
  "mesa_hash_table_init hash_fn equals_fn =
    (let s = hash_sizes ! 0 in
     \<lparr> ht_table = replicate 19 zero_entry, key_hash_function = hash_fn,
       key_equals_function = equals_fn, ht_size = hs_size s, ht_rehash = hs_rehash s,
       ht_size_magic = hs_size_magic s, ht_rehash_magic = hs_rehash_magic s,
       ht_max_entries = hs_max_entries s, ht_size_index = 0, ht_entries = 0, ht_deleted_entries = 0,
       ht_inline = True \<rparr>)"

definition mesa_hash_table_create ::
  "bool \<Rightarrow> (ptr \<Rightarrow> 32 word) option \<Rightarrow> (ptr \<Rightarrow> ptr \<Rightarrow> bool) \<Rightarrow> hash_table option" where
  "mesa_hash_table_create ok hash_fn equals_fn =
    (if ok then Some (mesa_hash_table_init hash_fn equals_fn) else None)"

definition key_u32_hash :: "(32 word \<Rightarrow> 32 word) \<Rightarrow> ptr \<Rightarrow> 32 word" where
  "key_u32_hash hash_uint key = (let u = ucast key :: 32 word in hash_uint u)"

definition key_u32_equals :: "ptr \<Rightarrow> ptr \<Rightarrow> bool" where
  "key_u32_equals a b \<longleftrightarrow> (ucast a :: 32 word) = ucast b"

definition mesa_hash_table_init_u32_keys :: "(32 word \<Rightarrow> 32 word) \<Rightarrow> hash_table" where
  "mesa_hash_table_init_u32_keys hash_uint =
    mesa_hash_table_init (Some (key_u32_hash hash_uint)) key_u32_equals"

definition mesa_hash_table_create_u32_keys :: "bool \<Rightarrow> (32 word \<Rightarrow> 32 word) \<Rightarrow> hash_table option" where
  "mesa_hash_table_create_u32_keys ok hash_uint =
    mesa_hash_table_create ok (Some (key_u32_hash hash_uint)) key_u32_equals"

definition mesa_hash_pointer :: "ptr \<Rightarrow> 32 word" where
  "mesa_hash_pointer num =
    ucast (drop_bit 2 num XOR drop_bit 6 num XOR drop_bit 10 num XOR drop_bit 14 num)"

definition mesa_key_pointer_equal :: "ptr \<Rightarrow> ptr \<Rightarrow> bool" where
  "mesa_key_pointer_equal a b \<longleftrightarrow> a = b"

definition mesa_pointer_hash_table_create :: "bool \<Rightarrow> hash_table option" where
  "mesa_pointer_hash_table_create ok =
    mesa_hash_table_create ok (Some mesa_hash_pointer) mesa_key_pointer_equal"

definition mesa_pointer_hash_table_init :: hash_table where
  "mesa_pointer_hash_table_init = mesa_hash_table_init (Some mesa_hash_pointer) mesa_key_pointer_equal"

text \<open>Iteration. An entry pointer is the index of its slot, and a null pointer is \<^term>\<open>None\<close>.\<close>

definition mesa_hash_table_next_entry :: "hash_table \<Rightarrow> nat option \<Rightarrow> nat option" where
  "mesa_hash_table_next_entry ht entry =
    (let first = (case entry of None \<Rightarrow> 0 | Some i \<Rightarrow> Suc i)
     in find (\<lambda>i. he_present (ht_table ht ! i)) [first..<ht_size ht])"

function hash_table_foreach ::
  "hash_table \<Rightarrow> (hash_entry \<Rightarrow> 's \<Rightarrow> 's option) \<Rightarrow> nat option \<Rightarrow> 's \<Rightarrow> 's option" where
  "hash_table_foreach ht f None st = Some st"
| "hash_table_foreach ht f (Some i) st =
    (case f (ht_table ht ! i) st of
       None \<Rightarrow> None
     | Some st' \<Rightarrow> hash_table_foreach ht f (mesa_hash_table_next_entry ht (Some i)) st')"
  by pat_completeness auto
termination
proof (relation "measure (\<lambda>(ht, f, e, st). case e of None \<Rightarrow> 0 | Some i \<Rightarrow> Suc (ht_size ht - i))", goal_cases)
  case (2 ht f i st st')
  then show ?case by (auto simp: mesa_hash_table_next_entry_def find_Some_iff split: option.split)
qed simp

definition mesa_hash_table_copy :: "hash_table \<Rightarrow> bool \<Rightarrow> bool \<times> hash_table" where
  "mesa_hash_table_copy src ok =
    (if \<not> ht_inline src then if \<not> ok then (False, src\<lparr> ht_table := [] \<rparr>) else (True, src)
     else (True, src))"

definition mesa_hash_table_clone :: "hash_table \<Rightarrow> bool \<Rightarrow> bool \<Rightarrow> hash_table option" where
  "mesa_hash_table_clone src ok_struct ok_table =
    (if \<not> ok_struct then None
     else let (copied, ht) = mesa_hash_table_copy src ok_table in if \<not> copied then None else Some ht)"

text \<open>A delete function is only called: the model returns the entries it is called on, in order.\<close>

definition present_entries :: "hash_table \<Rightarrow> hash_entry list" where
  "present_entries ht = filter he_present (ht_table ht)"

definition mesa_hash_table_fini :: "hash_table \<Rightarrow> bool \<Rightarrow> hash_table \<times> hash_entry list" where
  "mesa_hash_table_fini ht delete_function =
    (let deleted = (if delete_function
                    then the (hash_table_foreach ht (\<lambda>e es. Some (es @ [e]))
                           (mesa_hash_table_next_entry ht None) [])
                    else [])
     in (ht\<lparr> ht_table := [] \<rparr>, deleted))"

definition mesa_hash_table_destroy :: "hash_table option \<Rightarrow> bool \<Rightarrow> hash_entry list" where
  "mesa_hash_table_destroy ht delete_function =
    (case ht of None \<Rightarrow> [] | Some t \<Rightarrow> snd (mesa_hash_table_fini t delete_function))"

definition hash_table_clear_fast :: "hash_table \<Rightarrow> hash_table" where
  "hash_table_clear_fast ht =
    ht\<lparr> ht_table := replicate (hs_size (hash_sizes ! ht_size_index ht)) zero_entry,
        ht_entries := 0, ht_deleted_entries := 0 \<rparr>"

definition clear_table :: "hash_table \<Rightarrow> bool \<Rightarrow> hash_table \<times> hash_entry list" where
  "clear_table ht delete_function =
    (if delete_function then
       (ht\<lparr> ht_table := map (\<lambda>e. e\<lparr> he_present := False, he_deleted := False \<rparr>) (ht_table ht),
            ht_entries := 0, ht_deleted_entries := 0 \<rparr>,
        filter he_present (ht_table ht))
     else (hash_table_clear_fast ht, []))"

definition mesa_hash_table_clear :: "hash_table option \<Rightarrow> bool \<Rightarrow> (hash_table \<times> hash_entry list) option" where
  "mesa_hash_table_clear ht delete_function = map_option (\<lambda>t. clear_table t delete_function) ht"

definition ht_start :: "hash_table \<Rightarrow> 32 word \<Rightarrow> nat" where
  "ht_start ht hash = start_hash_address (ht_size ht) (ht_size_magic ht) hash"

definition ht_double_hash :: "hash_table \<Rightarrow> 32 word \<Rightarrow> nat" where
  "ht_double_hash ht hash = double_hash (ht_rehash ht) (ht_rehash_magic ht) hash"

definition search_body :: "hash_table \<Rightarrow> 32 word \<Rightarrow> ptr \<Rightarrow> unit \<Rightarrow> nat \<Rightarrow> unit + nat option" where
  "search_body ht hash key acc hash_address =
    (let entry = ht_table ht ! hash_address in
     if \<not> he_present entry \<and> \<not> he_deleted entry then Inr None
     else if he_present entry \<and> he_hash entry = hash \<and> key_equals_function ht key (he_key entry)
       then Inr (Some hash_address)
     else Inl ())"

definition hash_table_search :: "hash_table \<Rightarrow> 32 word \<Rightarrow> ptr \<Rightarrow> nat option option" where
  "hash_table_search ht hash key =
    (let start = ht_start ht hash
     in do_probe (search_body ht hash key) (\<lambda>_. None) (ht_size ht) (ht_double_hash ht hash) start start ())"

definition mesa_hash_table_search :: "hash_table \<Rightarrow> ptr \<Rightarrow> nat option option" where
  "mesa_hash_table_search ht key =
    (case key_hash_function ht of None \<Rightarrow> None | Some f \<Rightarrow> hash_table_search ht (f key) key)"

definition pre_hashed_ok :: "hash_table \<Rightarrow> 32 word \<Rightarrow> ptr \<Rightarrow> bool" where
  "pre_hashed_ok ht hash key = (case key_hash_function ht of None \<Rightarrow> True | Some f \<Rightarrow> hash = f key)"

definition mesa_hash_table_search_pre_hashed :: "hash_table \<Rightarrow> 32 word \<Rightarrow> ptr \<Rightarrow> nat option option" where
  "mesa_hash_table_search_pre_hashed ht hash key =
    (if pre_hashed_ok ht hash key then hash_table_search ht hash key else None)"

definition hash_table_insert_rehash :: "32 word \<Rightarrow> ptr \<Rightarrow> ptr \<Rightarrow> hash_table \<Rightarrow> hash_table option" where
  "hash_table_insert_rehash hash key data ht =
    map_option (\<lambda>a. ht\<lparr> ht_table := (ht_table ht)[a := (ht_table ht ! a)
        \<lparr> he_hash := hash, he_key := key, he_data := data, he_present := True \<rparr>] \<rparr>)
      (probe_forever (\<lambda>a. \<not> he_present (ht_table ht ! a)) (ht_size ht) (ht_double_hash ht hash)
        (ht_start ht hash))"

definition mesa_hash_table_rehash :: "hash_table \<Rightarrow> nat \<Rightarrow> bool \<Rightarrow> hash_table option" where
  "mesa_hash_table_rehash ht new_size_index ok =
    (if ht_size_index ht = new_size_index \<and> ht_deleted_entries ht = ht_max_entries ht
       then Some (hash_table_clear_fast ht)
     else if new_size_index \<ge> length hash_sizes then Some ht
     else if \<not> ok then Some ht
     else
       let new = (set_size_index new_size_index ht)
             \<lparr> ht_table := replicate (hs_size (hash_sizes ! new_size_index)) zero_entry,
               ht_inline := False, ht_entries := 0, ht_deleted_entries := 0 \<rparr>
       in map_option (\<lambda>t. t\<lparr> ht_entries := ht_entries ht \<rparr>)
            (hash_table_foreach ht
              (\<lambda>e. hash_table_insert_rehash (he_hash e) (he_key e) (he_data e))
              (mesa_hash_table_next_entry ht None) new))"

definition get_entry_body :: "hash_table \<Rightarrow> 32 word \<Rightarrow> ptr \<Rightarrow> nat option \<Rightarrow> nat
    \<Rightarrow> nat option + (nat + nat option)" where
  "get_entry_body ht hash key available hash_address =
    (let entry = ht_table ht ! hash_address;
         available' = (if \<not> he_present entry \<and> available = None then Some hash_address else available)
     in if \<not> he_present entry \<and> \<not> he_deleted entry then Inr (Inr available')
        else if he_present entry \<and> he_hash entry = hash \<and> key_equals_function ht key (he_key entry)
          then Inr (Inl hash_address)
        else Inl available')"

definition make_room :: "hash_table \<Rightarrow> bool \<Rightarrow> hash_table option" where
  "make_room ht ok =
    (if ht_entries ht \<ge> ht_max_entries ht then mesa_hash_table_rehash ht (ht_size_index ht + 1) ok
     else if u32 (ht_deleted_entries ht + ht_entries ht) \<ge> ht_max_entries ht
       then mesa_hash_table_rehash ht (ht_size_index ht) ok
     else Some ht)"

definition find_entry :: "hash_table \<Rightarrow> 32 word \<Rightarrow> ptr \<Rightarrow> (nat + nat option) option" where
  "find_entry ht hash key =
    (let start = ht_start ht hash
     in do_probe (get_entry_body ht hash key) Inr (ht_size ht) (ht_double_hash ht hash) start start None)"

definition claim_entry :: "hash_table \<Rightarrow> 32 word \<Rightarrow> nat \<Rightarrow> hash_table" where
  "claim_entry ht hash a =
    (let entry = ht_table ht ! a in
     ht\<lparr> ht_deleted_entries := (if he_deleted entry then u32_pred (ht_deleted_entries ht)
                               else ht_deleted_entries ht),
         ht_table := (ht_table ht)[a := entry\<lparr> he_hash := hash \<rparr>],
         ht_entries := u32 (ht_entries ht + 1) \<rparr>)"

definition hash_table_get_entry :: "hash_table \<Rightarrow> 32 word \<Rightarrow> ptr \<Rightarrow> bool \<Rightarrow> (hash_table \<times> nat option) option" where
  "hash_table_get_entry ht hash key ok =
    (case make_room ht ok of
       None \<Rightarrow> None
     | Some ht' \<Rightarrow>
         (case find_entry ht' hash key of
            None \<Rightarrow> None
          | Some (Inl a) \<Rightarrow> Some (ht', Some a)
          | Some (Inr None) \<Rightarrow> Some (ht', None)
          | Some (Inr (Some a)) \<Rightarrow> Some (claim_entry ht' hash a, Some a)))"

definition fill_entry :: "ptr \<Rightarrow> ptr \<Rightarrow> nat \<Rightarrow> hash_table \<Rightarrow> hash_table" where
  "fill_entry key data a ht =
    ht\<lparr> ht_table := (ht_table ht)[a := (ht_table ht ! a)
      \<lparr> he_key := key, he_data := data, he_present := True, he_deleted := False \<rparr>] \<rparr>"

definition hash_table_insert ::
  "hash_table \<Rightarrow> 32 word \<Rightarrow> ptr \<Rightarrow> ptr \<Rightarrow> bool \<Rightarrow> (hash_table \<times> nat option) option" where
  "hash_table_insert ht hash key data ok =
    map_option (\<lambda>(ht', entry). case entry of
        None \<Rightarrow> (ht', None) | Some a \<Rightarrow> (fill_entry key data a ht', Some a))
      (hash_table_get_entry ht hash key ok)"

definition mesa_hash_table_insert ::
  "hash_table \<Rightarrow> ptr \<Rightarrow> ptr \<Rightarrow> bool \<Rightarrow> (hash_table \<times> nat option) option" where
  "mesa_hash_table_insert ht key data ok =
    (case key_hash_function ht of None \<Rightarrow> None | Some f \<Rightarrow> hash_table_insert ht (f key) key data ok)"

definition mesa_hash_table_insert_pre_hashed ::
  "hash_table \<Rightarrow> 32 word \<Rightarrow> ptr \<Rightarrow> ptr \<Rightarrow> bool \<Rightarrow> (hash_table \<times> nat option) option" where
  "mesa_hash_table_insert_pre_hashed ht hash key data ok =
    (if pre_hashed_ok ht hash key then hash_table_insert ht hash key data ok else None)"

definition mesa_hash_table_remove :: "hash_table \<Rightarrow> nat option \<Rightarrow> hash_table" where
  "mesa_hash_table_remove ht entry =
    (case entry of
       None \<Rightarrow> ht
     | Some a \<Rightarrow>
         ht\<lparr> ht_table := (ht_table ht)[a := (ht_table ht ! a)\<lparr> he_present := False, he_deleted := True \<rparr>],
             ht_entries := u32_pred (ht_entries ht),
             ht_deleted_entries := u32 (ht_deleted_entries ht + 1) \<rparr>)"

definition mesa_hash_table_remove_key :: "hash_table \<Rightarrow> ptr \<Rightarrow> hash_table option" where
  "mesa_hash_table_remove_key ht key =
    map_option (mesa_hash_table_remove ht) (mesa_hash_table_search ht key)"

function mesa_hash_table_next_entry_unsafe :: "hash_table \<Rightarrow> nat option \<Rightarrow> nat option option" where
  "mesa_hash_table_next_entry_unsafe ht entry =
    (if ht_deleted_entries ht \<noteq> 0 then None
     else if ht_entries ht = 0 then Some None
     else let i = (case entry of None \<Rightarrow> 0 | Some j \<Rightarrow> Suc j) in
       if i < ht_size ht then
         if he_present (ht_table ht ! i) then Some (Some i)
         else mesa_hash_table_next_entry_unsafe ht (Some i)
       else Some None)"
  by pat_completeness auto
termination
  by (relation "measure (\<lambda>(ht, e). ht_size ht - (case e of None \<Rightarrow> 0 | Some j \<Rightarrow> Suc j))") auto

text \<open>\<open>hash_table_foreach_remove\<close>, with the entries its body is run on.\<close>

function foreach_remove :: "hash_table \<Rightarrow> nat option \<Rightarrow> hash_entry list \<Rightarrow> (hash_table \<times> hash_entry list) option" where
  "foreach_remove ht entry visited =
    (if ht_entries ht = 0 then Some (ht, visited)
     else case entry of
       None \<Rightarrow> None
     | Some i \<Rightarrow>
         (let ht' = ht\<lparr> ht_table := (ht_table ht)[i := (ht_table ht ! i)
                  \<lparr> he_hash := 0, he_present := False, he_deleted := False, he_data := 0 \<rparr>],
                ht_entries := ht_entries ht - 1 \<rparr>
          in case mesa_hash_table_next_entry_unsafe ht' (Some i) of
               None \<Rightarrow> None
             | Some e \<Rightarrow> foreach_remove ht' e (visited @ [ht_table ht ! i])))"
  by pat_completeness auto
termination by (relation "measure (\<lambda>(ht, e, v). ht_entries ht)") auto

definition hash_table_foreach_remove :: "hash_table \<Rightarrow> (hash_table \<times> hash_entry list) option" where
  "hash_table_foreach_remove ht =
    (case mesa_hash_table_next_entry_unsafe ht None of None \<Rightarrow> None | Some e \<Rightarrow> foreach_remove ht e [])"

definition mesa_hash_table_random_entry :: "hash_table \<Rightarrow> nat \<Rightarrow> (hash_entry \<Rightarrow> bool) option \<Rightarrow> nat option" where
  "mesa_hash_table_random_entry ht rand predicate =
    (let i = rand mod ht_size ht;
         wanted = (\<lambda>j. he_present (ht_table ht ! j)
           \<and> (case predicate of None \<Rightarrow> True | Some p \<Rightarrow> p (ht_table ht ! j)))
     in if ht_entries ht = 0 then None
        else case find wanted [i..<ht_size ht] of
            Some j \<Rightarrow> Some j
          | None \<Rightarrow> find wanted [0..<i])"

definition mesa_hash_table_reserve :: "hash_table \<Rightarrow> nat \<Rightarrow> bool \<Rightarrow> (hash_table \<times> bool) option" where
  "mesa_hash_table_reserve ht sz ok =
    (if sz < ht_max_entries ht then Some (ht, True)
     else map_option (\<lambda>t. (t, ht_max_entries t \<ge> sz))
       (case find (\<lambda>i. hs_max_entries (hash_sizes ! i) \<ge> sz) [ht_size_index ht + 1..<length hash_sizes] of
          Some i \<Rightarrow> mesa_hash_table_rehash ht i ok
        | None \<Rightarrow> Some ht))"

text \<open>The assertions, that both tables exist, are distinct and have the same callbacks, are hypotheses of the
  lemma on this operation.\<close>

definition mesa_hash_table_clone_into :: "hash_table \<Rightarrow> hash_table \<Rightarrow> bool \<Rightarrow> (bool \<times> hash_table) option" where
  "mesa_hash_table_clone_into dst src ok =
    (if ht_size dst < ht_size src then Some (mesa_hash_table_copy src ok)
     else if ht_size dst = ht_size src then
       Some (True, dst\<lparr> ht_table := ht_table src, ht_entries := ht_entries src,
                        ht_deleted_entries := ht_deleted_entries src \<rparr>)
     else
       map_option (\<lambda>t. (True, t))
         (hash_table_foreach src
           (\<lambda>e t. map_option fst
             (mesa_hash_table_insert_pre_hashed t (he_hash e) (he_key e) (he_data e) ok))
           (mesa_hash_table_next_entry src None) (fst (clear_table dst False))))"

subsection \<open>Tables with 64-bit keys, where a pointer has 64 bits\<close>

record hash_entry_u64 =
  u64_key :: "64 word"
  u64_data :: ptr
  u64_entry :: "nat option"

definition mesa_hash_table_u64_create :: "bool \<Rightarrow> hash_table option" where
  "mesa_hash_table_u64_create ok =
    (if \<not> ok then None else Some (mesa_hash_table_init (Some mesa_hash_pointer) mesa_key_pointer_equal))"

definition mesa_hash_table_u64_clear :: "hash_table option \<Rightarrow> hash_table option" where
  "mesa_hash_table_u64_clear ht =
    (case ht of None \<Rightarrow> None | Some t \<Rightarrow> map_option fst (mesa_hash_table_clear (Some t) True))"

definition mesa_hash_table_u64_insert :: "hash_table \<Rightarrow> 64 word \<Rightarrow> ptr \<Rightarrow> bool \<Rightarrow> hash_table option" where
  "mesa_hash_table_u64_insert ht key data ok = map_option fst (mesa_hash_table_insert ht key data ok)"

definition hash_table_u64_search :: "hash_table \<Rightarrow> 64 word \<Rightarrow> nat option option" where
  "hash_table_u64_search ht key = mesa_hash_table_search ht key"

definition mesa_hash_table_u64_search :: "hash_table \<Rightarrow> 64 word \<Rightarrow> ptr option" where
  "mesa_hash_table_u64_search ht key =
    map_option (\<lambda>entry. case entry of None \<Rightarrow> 0 | Some a \<Rightarrow> he_data (ht_table ht ! a))
      (hash_table_u64_search ht key)"

definition mesa_hash_table_u64_remove :: "hash_table \<Rightarrow> 64 word \<Rightarrow> hash_table option" where
  "mesa_hash_table_u64_remove ht key =
    map_option (\<lambda>entry. case entry of None \<Rightarrow> ht | Some a \<Rightarrow> mesa_hash_table_remove ht (Some a))
      (hash_table_u64_search ht key)"

definition mesa_hash_table_u64_next_entry :: "hash_table \<Rightarrow> hash_entry_u64 option \<Rightarrow> hash_entry_u64" where
  "mesa_hash_table_u64_next_entry ht ent =
    (case mesa_hash_table_next_entry ht (case ent of None \<Rightarrow> None | Some e \<Rightarrow> u64_entry e) of
       None \<Rightarrow> \<lparr> u64_key = 0, u64_data = 0, u64_entry = None \<rparr>
     | Some a \<Rightarrow> \<lparr> u64_key = he_key (ht_table ht ! a), u64_data = he_data (ht_table ht ! a),
                    u64_entry = Some a \<rparr>)"

definition mesa_hash_table_u64_replace :: "hash_table \<Rightarrow> hash_entry_u64 \<Rightarrow> ptr \<Rightarrow> hash_table" where
  "mesa_hash_table_u64_replace ht ent new_data =
    (case u64_entry ent of
       None \<Rightarrow> ht
     | Some a \<Rightarrow> ht\<lparr> ht_table := (ht_table ht)[a := (ht_table ht ! a)\<lparr> he_data := new_data \<rparr>] \<rparr>)"

section \<open>Well-formed tables\<close>

definition entry_slot :: "hash_entry \<Rightarrow> (ptr, ptr) slot" where
  "entry_slot e =
    (if he_present e then Present (he_hash e) (he_key e) (he_data e) else if he_deleted e then Deleted else Free)"

definition ht_slots :: "hash_table \<Rightarrow> (ptr, ptr) slot list" where
  "ht_slots ht = map entry_slot (ht_table ht)"

definition ht_map :: "hash_table \<Rightarrow> ptr \<Rightarrow> ptr option" where
  "ht_map ht = slots_map (key_equals_function ht) (ht_slots ht)"

definition ht_fields :: "hash_table \<Rightarrow> bool" where
  "ht_fields ht \<longleftrightarrow>
    (let s = hash_sizes ! ht_size_index ht in
     ht_size_index ht < 27 \<and> ht_size ht = hs_size s \<and> ht_rehash ht = hs_rehash s
     \<and> ht_size_magic ht = hs_size_magic s \<and> ht_rehash_magic ht = hs_rehash_magic s
     \<and> ht_max_entries ht = hs_max_entries s \<and> (ht_inline ht \<longrightarrow> ht_size_index ht = 0))"

definition ht_counts :: "hash_table \<Rightarrow> bool" where
  "ht_counts ht \<longleftrightarrow> (\<forall>e\<in>set (ht_table ht). \<not> (he_present e \<and> he_deleted e))
     \<and> ht_entries ht = length (filter he_present (ht_table ht))
     \<and> ht_deleted_entries ht = length (filter he_deleted (ht_table ht))"

definition ht_ok :: "(ptr \<Rightarrow> 32 word) option \<Rightarrow> (ptr \<Rightarrow> 32 word) \<Rightarrow> (ptr \<Rightarrow> ptr \<Rightarrow> bool) \<Rightarrow> hash_table \<Rightarrow> bool" where
  "ht_ok hf h eq ht \<longleftrightarrow> ht_fields ht \<and> ht_counts ht \<and> key_equals_function ht = eq
     \<and> key_hash_function ht = hf
     \<and> slots_ok h eq (hash_sizes ! ht_size_index ht) (ht_slots ht)"

text \<open>As long as allocations succeed, tombstones and entries together stay within the limit.\<close>

definition ht_tight :: "hash_table \<Rightarrow> bool" where
  "ht_tight ht \<longleftrightarrow> ht_entries ht + ht_deleted_entries ht \<le> ht_max_entries ht"

lemma ht_fieldsD:
  assumes "ht_fields ht"
  shows "ht_size_index ht < 27" "ht_size ht = hs_size (hash_sizes ! ht_size_index ht)"
    "ht_rehash ht = hs_rehash (hash_sizes ! ht_size_index ht)"
    "ht_size_magic ht = hs_size_magic (hash_sizes ! ht_size_index ht)"
    "ht_rehash_magic ht = hs_rehash_magic (hash_sizes ! ht_size_index ht)"
    "ht_max_entries ht = hs_max_entries (hash_sizes ! ht_size_index ht)"
    "good_size (hash_sizes ! ht_size_index ht)"
  using assms good_sizes by (auto simp: ht_fields_def Let_def)

lemma ht_okD:
  assumes "ht_ok hf h eq ht"
  shows "ht_fields ht" "ht_counts ht" "key_equals_function ht = eq" "key_hash_function ht = hf"
    "slots_ok h eq (hash_sizes ! ht_size_index ht) (ht_slots ht)"
    "good_size (hash_sizes ! ht_size_index ht)"
    "length (ht_table ht) = hs_size (hash_sizes ! ht_size_index ht)"
    "length (ht_table ht) = ht_size ht"
  using assms ht_fieldsD by (auto simp: ht_ok_def slots_ok_def ht_slots_def)

lemma length_filter_disjoint:
  "\<forall>x\<in>set xs. \<not> (P x \<and> Q x) \<Longrightarrow> length (filter P xs) + length (filter Q xs) \<le> length xs"
  by (induction xs) auto

lemma ht_counts_le:
  assumes "ht_ok hf h eq ht"
  shows "ht_entries ht + ht_deleted_entries ht \<le> ht_size ht" "ht_size ht < 2 ^ 31"
  using length_filter_disjoint [of "ht_table ht" he_present he_deleted] ht_okD [OF assms]
    good_sizeD(3) ht_fieldsD(2)
  by (auto simp: ht_counts_def)

lemma ht_start_eq: "ht_fields ht \<Longrightarrow> ht_start ht hash = unat hash mod hs_size (hash_sizes ! ht_size_index ht)"
  by (simp add: ht_start_def ht_fieldsD start_address_of_size)

lemma ht_double_hash_eq:
  "ht_fields ht \<Longrightarrow> ht_double_hash ht hash = 1 + unat hash mod hs_rehash (hash_sizes ! ht_size_index ht)"
  by (simp add: ht_double_hash_def ht_fieldsD double_hash_of_size)

lemma probe_list_cong:
  "(\<And>a acc. a \<in> set as \<Longrightarrow> body acc a = body' acc a) \<Longrightarrow> probe_list body fin as acc = probe_list body' fin as acc"
proof (induction as arbitrary: acc)
  case (Cons a as)
  then show ?case by (auto split: sum.split)
qed simp

lemma search_body_slot:
  "a < length (ht_table ht)
    \<Longrightarrow> search_body ht hash key acc a = search_step (key_equals_function ht) hash key (ht_slots ht) acc a"
  by (simp add: search_body_def search_step_def ht_slots_def entry_slot_def Let_def)

lemma get_entry_body_slot:
  "a < length (ht_table ht)
    \<Longrightarrow> get_entry_body ht hash key av a = get_step (key_equals_function ht) hash key (ht_slots ht) av a"
  by (simp add: get_entry_body_def get_step_def ht_slots_def entry_slot_def Let_def)

lemma seq_in_range:
  assumes "ht_ok hf h eq ht"
    and "a \<in> set (map (seq_at (hash_sizes ! ht_size_index ht) hash) [0..<hs_size (hash_sizes ! ht_size_index ht)])"
  shows "a < length (ht_table ht)"
  using assms ht_okD(6,7) [OF assms(1)] seq_at_less by auto

lemma search_eq:
  assumes "ht_ok hf h eq ht"
  shows "hash_table_search ht hash key
    = Some (probe_list (search_step eq hash key (ht_slots ht)) (\<lambda>_. None)
        (map (seq_at (hash_sizes ! ht_size_index ht) hash) [0..<hs_size (hash_sizes ! ht_size_index ht)]) ())"
  using ht_okD [OF assms]
  by (simp add: hash_table_search_def ht_start_eq ht_double_hash_eq ht_fieldsD(2) do_probe_of_size del: set_map
      add_Suc add_Suc_right One_nat_def)
    (rule probe_list_cong, use search_body_slot seq_in_range [OF assms] in auto)

lemma find_entry_eq:
  assumes "ht_ok hf h eq ht"
  shows "find_entry ht hash key
    = Some (probe_list (get_step eq hash key (ht_slots ht)) Inr
        (map (seq_at (hash_sizes ! ht_size_index ht) hash) [0..<hs_size (hash_sizes ! ht_size_index ht)]) None)"
  using ht_okD [OF assms]
  by (simp add: find_entry_def ht_start_eq ht_double_hash_eq ht_fieldsD(2) do_probe_of_size del: set_map
      add_Suc add_Suc_right One_nat_def)
    (rule probe_list_cong, use get_entry_body_slot seq_in_range [OF assms] in auto)

section \<open>Iteration\<close>

primrec fold_opt :: "('a \<Rightarrow> 's \<Rightarrow> 's option) \<Rightarrow> 'a list \<Rightarrow> 's \<Rightarrow> 's option" where
  "fold_opt f [] st = Some st"
| "fold_opt f (x # xs) st = (case f x st of None \<Rightarrow> None | Some st' \<Rightarrow> fold_opt f xs st')"

lemma foreach_from:
  assumes "length (ht_table ht) = ht_size ht" "i \<le> ht_size ht"
  shows "hash_table_foreach ht f (find (\<lambda>i. he_present (ht_table ht ! i)) [i..<ht_size ht]) st
    = fold_opt f (filter he_present (drop i (ht_table ht))) st"
  using assms(2)
proof (induction "ht_size ht - i" arbitrary: i st)
  case 0
  then show ?case using assms(1) by simp
next
  case (Suc x)
  then have i: "i < ht_size ht" by simp
  then have u: "[i..<ht_size ht] = i # [Suc i..<ht_size ht]" by (simp add: upt_conv_Cons)
  have d: "drop i (ht_table ht) = (ht_table ht ! i) # drop (Suc i) (ht_table ht)"
    using i assms(1) by (simp add: Cons_nth_drop_Suc)
  have ih: "hash_table_foreach ht f (find (\<lambda>i. he_present (ht_table ht ! i)) [Suc i..<ht_size ht]) st'
      = fold_opt f (filter he_present (drop (Suc i) (ht_table ht))) st'" for st'
    by (rule Suc.hyps(1)) (use Suc.hyps(2) i in auto)
  show ?case
    by (simp add: u d mesa_hash_table_next_entry_def ih cong: option.case_cong)
qed

lemma foreach_eq:
  assumes "length (ht_table ht) = ht_size ht"
  shows "hash_table_foreach ht f (mesa_hash_table_next_entry ht None) st
    = fold_opt f (present_entries ht) st"
  using foreach_from [OF assms, of 0] by (simp add: mesa_hash_table_next_entry_def present_entries_def)

lemma fold_opt_snoc: "fold_opt (\<lambda>e es. Some (es @ [e])) xs acc = Some (acc @ xs)"
  by (induction xs arbitrary: acc) auto

section \<open>Updating one entry\<close>

lemma ht_slots_update: "ht_slots (ht\<lparr> ht_table := (ht_table ht)[a := e] \<rparr>) = (ht_slots ht)[a := entry_slot e]"
  by (simp add: ht_slots_def map_update)

lemma nth_ht_slots: "a < length (ht_table ht) \<Longrightarrow> ht_slots ht ! a = entry_slot (ht_table ht ! a)"
  by (simp add: ht_slots_def)

lemma length_ht_slots [simp]: "length (ht_slots ht) = length (ht_table ht)"
  by (simp add: ht_slots_def)

lemma ht_counts_update:
  assumes "ht_counts ht" "a < length (ht_table ht)" "\<not> (he_present e \<and> he_deleted e)"
    and "ht_table ht' = (ht_table ht)[a := e]"
    and "ht_entries ht' + of_bool (he_present (ht_table ht ! a)) = ht_entries ht + of_bool (he_present e)"
    and "ht_deleted_entries ht' + of_bool (he_deleted (ht_table ht ! a))
      = ht_deleted_entries ht + of_bool (he_deleted e)"
  shows "ht_counts ht'"
proof -
  have "\<forall>x\<in>set (ht_table ht'). \<not> (he_present x \<and> he_deleted x)"
    using assms(1,3) set_update_subset_insert [of "ht_table ht" a e]
    unfolding assms(4) ht_counts_def by blast
  moreover note length_filter_update [OF assms(2), of he_present e] length_filter_update [OF assms(2), of he_deleted e]
  ultimately show ?thesis
    using assms(1,5,6) unfolding ht_counts_def assms(4) by (auto split: if_splits)
qed

lemma ht_count_pos:
  assumes "ht_counts ht" "a < length (ht_table ht)"
  shows "he_present (ht_table ht ! a) \<Longrightarrow> 0 < ht_entries ht"
    and "he_deleted (ht_table ht ! a) \<Longrightarrow> 0 < ht_deleted_entries ht"
  using assms nth_mem [OF assms(2)]
  by (auto simp: ht_counts_def length_greater_0_conv filter_empty_conv simp del: nth_mem)

locale table_keys = hash_keys h eq
  for h :: "ptr \<Rightarrow> 32 word" and eq :: "ptr \<Rightarrow> ptr \<Rightarrow> bool" +
  fixes hf :: "(ptr \<Rightarrow> 32 word) option"
  assumes hash_function: "hf = None \<or> hf = Some h"
begin

lemma ht_map_entry:
  assumes "ht_ok hf h eq ht" "a < length (ht_table ht)" "he_present (ht_table ht ! a)" "eq k (he_key (ht_table ht ! a))"
  shows "ht_map ht k = Some (he_data (ht_table ht ! a))"
  unfolding ht_map_def ht_okD(3) [OF assms(1)] slots_map_eq_Some [OF ht_okD(5) [OF assms(1)]]
  using assms by (intro exI [of _ a]) (simp add: nth_ht_slots entry_slot_def)

lemma entry_hash:
  assumes "ht_ok hf h eq ht" "a < length (ht_table ht)" "he_present (ht_table ht ! a)"
  shows "he_hash (ht_table ht ! a) = h (he_key (ht_table ht ! a))"
  using slots_okD(2) [OF ht_okD(5) [OF assms(1)], of a] assms(2,3) by (simp add: nth_ht_slots entry_slot_def)

lemma present_slotD:
  assumes "a < length (ht_table ht)" "ht_slots ht ! a = Present hash k d"
  shows "he_present (ht_table ht ! a) \<and> he_hash (ht_table ht ! a) = hash \<and> he_key (ht_table ht ! a) = k
    \<and> he_data (ht_table ht ! a) = d"
  using assms by (simp add: nth_ht_slots entry_slot_def split: if_splits)

lemma search_ok:
  assumes ok: "ht_ok hf h eq ht"
  shows "\<exists>r. hash_table_search ht (h k) k = Some r
    \<and> (case r of
         None \<Rightarrow> ht_map ht k = None
       | Some a \<Rightarrow> a < length (ht_table ht) \<and> he_present (ht_table ht ! a) \<and> eq k (he_key (ht_table ht ! a))
           \<and> ht_map ht k = Some (he_data (ht_table ht ! a)))"
proof -
  obtain r where r: "hash_table_search ht (h k) k = Some r"
    and p: "probe_list (search_step eq (h k) k (ht_slots ht)) (\<lambda>_. None)
      (map (seq_at (hash_sizes ! ht_size_index ht) (h k)) [0..<hs_size (hash_sizes ! ht_size_index ht)]) () = r"
    using search_eq [OF ok] by blast
  note f = search_found [OF ht_okD(5,6) [OF ok] p]
  show ?thesis
  proof (cases r)
    case None
    then show ?thesis using r f by (simp add: ht_map_def ht_okD(3) [OF ok])
  next
    case (Some a)
    then obtain k' d where a: "a < length (ht_table ht)" "ht_slots ht ! a = Present (h k) k' d" "eq k k'"
      using f by auto
    then show ?thesis using r Some present_slotD [OF a(1,2)] ht_map_entry [OF ok a(1)] by auto
  qed
qed

lemma remove_ok:
  assumes ok: "ht_ok hf h eq ht" and a: "a < length (ht_table ht)" "he_present (ht_table ht ! a)"
  defines "ht' \<equiv> mesa_hash_table_remove ht (Some a)"
  shows "ht_ok hf h eq ht'"
    and "ht_map ht' k = (if eq (he_key (ht_table ht ! a)) k then None else ht_map ht k)"
    and "ht_entries ht' = ht_entries ht - 1" "ht_deleted_entries ht' = ht_deleted_entries ht + 1"
    and "ht_max_entries ht' = ht_max_entries ht"
proof -
  let ?e = "(ht_table ht ! a)\<lparr> he_present := False, he_deleted := True \<rparr>"
  have pos: "0 < ht_entries ht" using ht_count_pos [OF ht_okD(2) [OF ok] a(1)] a(2) by simp
  have le: "ht_entries ht + ht_deleted_entries ht < 2 ^ 31" using ht_counts_le [OF ok] by simp
  have ent: "ht_entries ht' = ht_entries ht - 1"
    using pos le by (simp add: ht'_def mesa_hash_table_remove_def u32_pred_pos)
  have del: "ht_deleted_entries ht' = ht_deleted_entries ht + 1"
    using le by (simp add: ht'_def mesa_hash_table_remove_def)
  have tab: "ht_table ht' = (ht_table ht)[a := ?e]" by (simp add: ht'_def mesa_hash_table_remove_def)
  then have sl: "ht_slots ht' = (ht_slots ht)[a := Deleted]"
    by (simp add: ht_slots_def map_update entry_slot_def)
  have fields: "ht_fields ht' = ht_fields ht" "ht_size_index ht' = ht_size_index ht"
    "key_equals_function ht' = key_equals_function ht" "key_hash_function ht' = key_hash_function ht"
    "ht_max_entries ht' = ht_max_entries ht"
    by (simp_all add: ht'_def mesa_hash_table_remove_def ht_fields_def)
  have nd: "\<not> he_deleted (ht_table ht ! a)" using ht_okD(2) [OF ok] a by (auto simp: ht_counts_def)
  have "ht_counts ht'"
    by (rule ht_counts_update [OF ht_okD(2) [OF ok] a(1) _ tab]) (use ent del pos a(2) nd in auto)
  then show "ht_ok hf h eq ht'"
    using delete_ok [OF ht_okD(5,6) [OF ok]] ht_okD [OF ok] fields sl by (simp add: ht_ok_def)
  have "ht_slots ht ! a = Present (he_hash (ht_table ht ! a)) (he_key (ht_table ht ! a)) (he_data (ht_table ht ! a))"
    using a by (simp add: nth_ht_slots entry_slot_def)
  from delete_map [OF ht_okD(5,6) [OF ok] _ this]
  show "ht_map ht' k = (if eq (he_key (ht_table ht ! a)) k then None else ht_map ht k)"
    using a(1) by (simp add: ht_map_def sl fields ht_okD(3) [OF ok])
  show "ht_entries ht' = ht_entries ht - 1" by (rule ent)
  show "ht_deleted_entries ht' = ht_deleted_entries ht + 1" by (rule del)
  show "ht_max_entries ht' = ht_max_entries ht" by (rule fields)
qed

end

section \<open>Rehashing\<close>

definition ht_core :: "(ptr \<Rightarrow> 32 word) option \<Rightarrow> (ptr \<Rightarrow> 32 word) \<Rightarrow> (ptr \<Rightarrow> ptr \<Rightarrow> bool) \<Rightarrow> hash_table \<Rightarrow> bool" where
  "ht_core hf h eq ht \<longleftrightarrow> ht_fields ht \<and> key_equals_function ht = eq
     \<and> key_hash_function ht = hf
     \<and> slots_ok h eq (hash_sizes ! ht_size_index ht) (ht_slots ht)"

lemma ht_ok_core: "ht_ok hf h eq ht \<longleftrightarrow> ht_core hf h eq ht \<and> ht_counts ht"
  by (auto simp: ht_ok_def ht_core_def)

lemma ht_coreD:
  assumes "ht_core hf h eq ht"
  shows "ht_fields ht" "key_equals_function ht = eq" "key_hash_function ht = hf"
    "slots_ok h eq (hash_sizes ! ht_size_index ht) (ht_slots ht)"
    "good_size (hash_sizes ! ht_size_index ht)"
    "length (ht_table ht) = hs_size (hash_sizes ! ht_size_index ht)"
    "length (ht_table ht) = ht_size ht"
  using assms ht_fieldsD by (auto simp: ht_core_def slots_ok_def ht_slots_def)

lemma slots_map_entries:
  "slots_map eq (map entry_slot t) k = map_option he_data (find (\<lambda>e. eq k (he_key e)) (filter he_present t))"
  by (induction t) (auto simp: entry_slot_def)

text \<open>What a step of the rehash adds to a table without tombstones.\<close>

definition refilled :: "hash_table \<Rightarrow> hash_table \<Rightarrow> nat \<Rightarrow> bool" where
  "refilled ht ht' n \<longleftrightarrow> (\<exists>t. ht' = ht\<lparr> ht_table := t \<rparr> \<and> (\<forall>e\<in>set t. \<not> he_deleted e)
     \<and> length (filter he_present t) = n)"

lemma refilled_trans: "refilled ht1 ht2 n \<Longrightarrow> refilled ht2 ht3 m \<Longrightarrow> refilled ht1 ht3 m"
  unfolding refilled_def by auto

context table_keys
begin

lemma core_put:
  assumes ok: "ht_core hf h eq ht" and a: "a < length (ht_table ht)"
    and e: "entry_slot e = Present (h k) k d"
    and r: "reachable_slot (hash_sizes ! ht_size_index ht) (ht_slots ht) (h k) a"
    and others: "\<And>i hash k' d'. i < length (ht_table ht) \<Longrightarrow> i \<noteq> a \<Longrightarrow> ht_slots ht ! i = Present hash k' d' \<Longrightarrow> \<not> eq k k'"
    and here: "\<And>hash k' d'. ht_slots ht ! a = Present hash k' d' \<Longrightarrow> eq k k'"
    and ht': "ht_table ht' = (ht_table ht)[a := e]" "ht_fields ht'" "ht_size_index ht' = ht_size_index ht"
      "key_equals_function ht' = key_equals_function ht" "key_hash_function ht' = key_hash_function ht"
  shows "ht_core hf h eq ht'" "ht_map ht' k' = (if eq k k' then Some d else ht_map ht k')"
proof -
  have sl: "ht_slots ht' = (ht_slots ht)[a := Present (h k) k d]"
    using ht'(1) e by (simp add: ht_slots_def map_update)
  note c = ht_coreD [OF ok]
  have "slots_ok h eq (hash_sizes ! ht_size_index ht) (ht_slots ht')"
    unfolding sl by (rule put_ok [OF c(4,5)]) (use a r others in auto)
  then show "ht_core hf h eq ht'" using c ht' by (simp add: ht_core_def)
  show "ht_map ht' k' = (if eq k k' then Some d else ht_map ht k')"
    unfolding ht_map_def ht'(4) c(2) sl by (rule put_map [OF c(4,5)]) (use a r others here in auto)
qed

lemma insert_rehash_ok:
  assumes ok: "ht_core hf h eq ht" and nd: "\<forall>e\<in>set (ht_table ht). \<not> he_deleted e"
    and room: "length (filter he_present (ht_table ht)) < length (ht_table ht)" and new: "ht_map ht k = None"
  shows "\<exists>ht'. hash_table_insert_rehash (h k) k d ht = Some ht' \<and> ht_core hf h eq ht'
    \<and> refilled ht ht' (Suc (length (filter he_present (ht_table ht))))
    \<and> (\<forall>k'. ht_map ht' k' = (if eq k k' then Some d else ht_map ht k'))"
proof -
  note c = ht_coreD [OF ok]
  let ?s = "hash_sizes ! ht_size_index ht"
  obtain b where b: "b < length (ht_table ht)" "\<not> he_present (ht_table ht ! b)"
    using ex_not_filter [OF room] by blast
  obtain j where j: "j < hs_size ?s"
    and p: "probe_forever (\<lambda>a. \<not> he_present (ht_table ht ! a)) (hs_size ?s) (1 + unat (h k) mod hs_rehash ?s)
      (unat (h k) mod hs_size ?s) = Some (seq_at ?s (h k) j)"
    and np: "\<not> he_present (ht_table ht ! seq_at ?s (h k) j)"
    and before: "\<forall>i<j. he_present (ht_table ht ! seq_at ?s (h k) i)"
    using probe_forever_of_size [OF c(5), of b "\<lambda>a. \<not> he_present (ht_table ht ! a)" "h k"] b c(6) by auto
  define a where "a = seq_at ?s (h k) j"
  have a: "a < length (ht_table ht)" using seq_at_less [OF c(5)] c(6) by (simp add: a_def)
  define e where "e = (ht_table ht ! a)\<lparr> he_hash := h k, he_key := k, he_data := d, he_present := True \<rparr>"
  define ht' where "ht' = ht\<lparr> ht_table := (ht_table ht)[a := e] \<rparr>"
  have ins: "hash_table_insert_rehash (h k) k d ht = Some ht'"
    using p c(1) by (simp add: hash_table_insert_rehash_def ht_start_eq ht_double_hash_eq ht_fieldsD(2) a_def
        ht'_def e_def)
  have free: "ht_slots ht ! a = Free" using a np nd nth_mem [OF a] by (simp add: nth_ht_slots entry_slot_def a_def)
  have "ht_slots ht ! seq_at ?s (h k) m \<noteq> Free" if "m < j" for m
    using before that seq_at_less [OF c(5)] c(6) by (simp add: nth_ht_slots entry_slot_def)
  then have r: "reachable_slot ?s (ht_slots ht) (h k) a" using j unfolding reachable_slot_def a_def by blast
  have none: "\<And>i hash k' d'. i < length (ht_table ht) \<Longrightarrow> ht_slots ht ! i = Present hash k' d' \<Longrightarrow> \<not> eq k k'"
    using new slots_map_eq_None [OF c(4), of k] unfolding ht_map_def c(2) by auto
  have put: "ht_core hf h eq ht'" "ht_map ht' k' = (if eq k k' then Some d else ht_map ht k')" for k'
    by (rule core_put [OF ok a _ r, where e = e and d = d];
      use none free c(1) in \<open>auto simp: ht'_def e_def entry_slot_def ht_fields_def\<close>)+
  have cnt: "length (filter he_present (ht_table ht')) = Suc (length (filter he_present (ht_table ht)))"
    using length_filter_update [OF a, of he_present e] np by (simp add: ht'_def e_def a_def)
  have "\<forall>x\<in>set (ht_table ht'). \<not> he_deleted x"
  proof
    fix x assume "x \<in> set (ht_table ht')"
    then have "x = e \<or> x \<in> set (ht_table ht)"
      using set_update_subset_insert [of "ht_table ht" a e] by (auto simp: ht'_def)
    then show "\<not> he_deleted x" using nd nth_mem [OF a] by (auto simp: e_def)
  qed
  then have "refilled ht ht' (Suc (length (filter he_present (ht_table ht))))"
    using cnt unfolding refilled_def by (intro exI [of _ "ht_table ht'"]) (simp add: ht'_def)
  then show ?thesis using ins put by blast
qed

lemma refill_ok:
  assumes "ht_core hf h eq ht" "\<forall>e\<in>set (ht_table ht). \<not> he_deleted e"
    and "length es + length (filter he_present (ht_table ht)) \<le> length (ht_table ht)"
    and "sorted_wrt (\<lambda>x y. \<not> eq (he_key x) (he_key y)) es"
    and "\<forall>e\<in>set es. he_hash e = h (he_key e) \<and> ht_map ht (he_key e) = None"
  shows "\<exists>ht'. fold_opt (\<lambda>e. hash_table_insert_rehash (he_hash e) (he_key e) (he_data e)) es ht = Some ht'
    \<and> ht_core hf h eq ht' \<and> refilled ht ht' (length es + length (filter he_present (ht_table ht)))
    \<and> (\<forall>k. ht_map ht' k = (case find (\<lambda>e. eq k (he_key e)) es of Some e \<Rightarrow> Some (he_data e) | None \<Rightarrow> ht_map ht k))"
  using assms
proof (induction es arbitrary: ht)
  case Nil
  have "refilled ht ht (length (filter he_present (ht_table ht)))"
    unfolding refilled_def using Nil.prems(2) by (intro exI [of _ "ht_table ht"]) simp
  then show ?case using Nil.prems(1) by simp
next
  case (Cons e es)
  have he: "he_hash e = h (he_key e)" using Cons.prems(5) by simp
  obtain ht1 where i: "hash_table_insert_rehash (he_hash e) (he_key e) (he_data e) ht = Some ht1"
    and c1: "ht_core hf h eq ht1" and r1: "refilled ht ht1 (Suc (length (filter he_present (ht_table ht))))"
    and m1: "\<forall>k'. ht_map ht1 k' = (if eq (he_key e) k' then Some (he_data e) else ht_map ht k')"
    using insert_rehash_ok [OF Cons.prems(1,2), of "he_key e" "he_data e"] Cons.prems(3,5) he by auto
  have nd1: "\<forall>e\<in>set (ht_table ht1). \<not> he_deleted e"
    and p1: "length (filter he_present (ht_table ht1)) = Suc (length (filter he_present (ht_table ht)))"
    and s1: "ht_size_index ht1 = ht_size_index ht"
    using r1 unfolding refilled_def by auto
  have len1: "length (ht_table ht1) = length (ht_table ht)"
    using ht_coreD(6) [OF c1] ht_coreD(6) [OF Cons.prems(1)] s1 by simp
  have "\<exists>ht'. fold_opt (\<lambda>e. hash_table_insert_rehash (he_hash e) (he_key e) (he_data e)) es ht1 = Some ht'
    \<and> ht_core hf h eq ht' \<and> refilled ht1 ht' (length es + length (filter he_present (ht_table ht1)))
    \<and> (\<forall>k. ht_map ht' k = (case find (\<lambda>e. eq k (he_key e)) es of Some e \<Rightarrow> Some (he_data e) | None \<Rightarrow> ht_map ht1 k))"
    by (rule Cons.IH [OF c1 nd1]) (use Cons.prems m1 p1 len1 in auto)
  then obtain ht' where f: "fold_opt (\<lambda>e. hash_table_insert_rehash (he_hash e) (he_key e) (he_data e)) es ht1 = Some ht'"
    and c': "ht_core hf h eq ht'" and r': "refilled ht1 ht' (length es + length (filter he_present (ht_table ht1)))"
    and m': "\<forall>k. ht_map ht' k = (case find (\<lambda>e. eq k (he_key e)) es of Some e \<Rightarrow> Some (he_data e) | None \<Rightarrow> ht_map ht1 k)"
    by blast
  have "ht_map ht' k = (case find (\<lambda>e. eq k (he_key e)) (e # es) of Some e \<Rightarrow> Some (he_data e) | None \<Rightarrow> ht_map ht k)" for k
  proof (cases "eq k (he_key e)")
    case True
    have "\<not> eq k (he_key x)" if "x \<in> set es" for x
    proof
      assume "eq k (he_key x)"
      then have "eq (he_key e) (he_key x)" using True eq_sym eq_trans by blast
      then show False using Cons.prems(4) that by simp
    qed
    then have "find (\<lambda>e. eq k (he_key e)) es = None" by (auto simp: find_None_iff)
    then show ?thesis using True m' m1 eq_sym by auto
  next
    case False
    then show ?thesis using m' m1 eq_sym by (auto split: option.split)
  qed
  then show ?case using i f c' refilled_trans [OF r1 r'] p1 by auto
qed

end

lemma set_size_index_sel [simp]:
  "ht_table (set_size_index i ht) = ht_table ht"
  "key_hash_function (set_size_index i ht) = key_hash_function ht"
  "key_equals_function (set_size_index i ht) = key_equals_function ht"
  "ht_size (set_size_index i ht) = hs_size (hash_sizes ! i)"
  "ht_rehash (set_size_index i ht) = hs_rehash (hash_sizes ! i)"
  "ht_size_magic (set_size_index i ht) = hs_size_magic (hash_sizes ! i)"
  "ht_rehash_magic (set_size_index i ht) = hs_rehash_magic (hash_sizes ! i)"
  "ht_max_entries (set_size_index i ht) = hs_max_entries (hash_sizes ! i)"
  "ht_size_index (set_size_index i ht) = i"
  by (simp_all add: set_size_index_def)

lemma zero_entry_simps [simp]: "\<not> he_present zero_entry" "\<not> he_deleted zero_entry" "entry_slot zero_entry = Free"
  by (simp_all add: zero_entry_def entry_slot_def)

context table_keys
begin

lemma empty_table_ok:
  assumes "ht_fields ht" "key_equals_function ht = eq" "key_hash_function ht = hf"
    and "length (ht_table ht) = ht_size ht" "\<forall>e\<in>set (ht_table ht). \<not> he_present e \<and> \<not> he_deleted e"
  shows "ht_core hf h eq ht" "ht_map ht k = None"
proof -
  have "\<forall>x\<in>set (ht_slots ht). x = Free" using assms(5) by (auto simp: ht_slots_def entry_slot_def)
  from empty_ok [OF this] assms(1-4) ht_fieldsD(2) [OF assms(1)]
  show "ht_core hf h eq ht" "ht_map ht k = None" by (simp_all add: ht_core_def ht_map_def)
qed

lemma clear_fast_ok:
  assumes "ht_ok hf h eq ht"
  shows "ht_ok hf h eq (hash_table_clear_fast ht)" "ht_map (hash_table_clear_fast ht) k = None"
    "ht_entries (hash_table_clear_fast ht) = 0" "ht_deleted_entries (hash_table_clear_fast ht) = 0"
    "ht_max_entries (hash_table_clear_fast ht) = ht_max_entries ht"
    "ht_size (hash_table_clear_fast ht) = ht_size ht"
proof -
  let ?c = "hash_table_clear_fast ht"
  note d = ht_okD [OF assms]
  have f: "ht_fields ?c" using d(1) by (simp add: ht_fields_def hash_table_clear_fast_def)
  have "ht_core hf h eq ?c" and m: "ht_map ?c k = None"
    using empty_table_ok [OF f] d ht_fieldsD(2) [OF d(1)] by (auto simp: hash_table_clear_fast_def)
  moreover have "ht_counts ?c" by (simp add: ht_counts_def hash_table_clear_fast_def)
  ultimately show "ht_ok hf h eq ?c" "ht_map ?c k = None" by (simp_all add: ht_ok_core)
qed (simp_all add: hash_table_clear_fast_def)

lemma present_entries_ok:
  assumes ok: "ht_ok hf h eq ht"
  shows "sorted_wrt (\<lambda>x y. \<not> eq (he_key x) (he_key y)) (present_entries ht)"
    and "\<forall>e\<in>set (present_entries ht). he_present e \<and> he_hash e = h (he_key e)"
    and "length (present_entries ht) = ht_entries ht"
    and "ht_map ht k = map_option he_data (find (\<lambda>e. eq k (he_key e)) (present_entries ht))"
proof -
  have "filter (\<lambda>x. \<not> (x = Free \<or> x = Deleted)) (ht_slots ht) = map entry_slot (present_entries ht)"
    unfolding ht_slots_def present_entries_def filter_map
    by (rule arg_cong [where f = "map entry_slot"]) (rule filter_cong, auto simp: entry_slot_def)
  then have s: "sorted_wrt (\<lambda>x y. \<not> eq (slot_key (entry_slot x)) (slot_key (entry_slot y))) (present_entries ht)"
    using slots_map_distinct_keys [OF ht_okD(5) [OF ok]] by (simp add: sorted_wrt_map)
  show "sorted_wrt (\<lambda>x y. \<not> eq (he_key x) (he_key y)) (present_entries ht)"
    by (rule sorted_wrt_mono_rel [OF _ s]) (auto simp: present_entries_def entry_slot_def)
  show "\<forall>e\<in>set (present_entries ht). he_present e \<and> he_hash e = h (he_key e)"
    using entry_hash [OF ok] by (auto simp: present_entries_def in_set_conv_nth)
  show "length (present_entries ht) = ht_entries ht"
    using ht_okD(2) [OF ok] by (simp add: present_entries_def ht_counts_def)
  show "ht_map ht k = map_option he_data (find (\<lambda>e. eq k (he_key e)) (present_entries ht))"
    by (simp add: ht_map_def ht_slots_def slots_map_entries present_entries_def ht_okD(3) [OF ok])
qed

lemma rehash_ok:
  assumes ok: "ht_ok hf h eq ht" and i: "i < 27" "ht_entries ht \<le> hs_size (hash_sizes ! i)"
    and nc: "\<not> (ht_size_index ht = i \<and> ht_deleted_entries ht = ht_max_entries ht)"
  shows "\<exists>ht'. mesa_hash_table_rehash ht i True = Some ht' \<and> ht_ok hf h eq ht' \<and> (\<forall>k. ht_map ht' k = ht_map ht k)
    \<and> ht_entries ht' = ht_entries ht \<and> ht_deleted_entries ht' = 0 \<and> ht_size_index ht' = i"
proof -
  note d = ht_okD [OF ok] and p = present_entries_ok [OF ok]
  define new where "new = (set_size_index i ht)\<lparr> ht_table := replicate (hs_size (hash_sizes ! i)) zero_entry,
    ht_inline := False, ht_entries := 0, ht_deleted_entries := 0 \<rparr>"
  have f: "ht_fields new" using i(1) by (simp add: ht_fields_def new_def)
  have c: "ht_core hf h eq new" and m: "ht_map new k = None" for k
    using empty_table_ok [OF f] d(3,4) by (auto simp: new_def)
  have t: "ht_table new = replicate (hs_size (hash_sizes ! i)) zero_entry" by (simp add: new_def)
  obtain ht1 where f1: "fold_opt (\<lambda>e. hash_table_insert_rehash (he_hash e) (he_key e) (he_data e)) (present_entries ht) new
      = Some ht1" and c1: "ht_core hf h eq ht1" and r1: "refilled new ht1 (ht_entries ht)"
    and m1: "\<forall>k. ht_map ht1 k = (case find (\<lambda>e. eq k (he_key e)) (present_entries ht) of
        Some e \<Rightarrow> Some (he_data e) | None \<Rightarrow> ht_map new k)"
    using refill_ok [OF c, of "present_entries ht"] p(1,2,3) m i(2) by (auto simp: t)
  define ht' where "ht' = ht1\<lparr> ht_entries := ht_entries ht \<rparr>"
  have e: "mesa_hash_table_rehash ht i True = Some ht'"
    using nc i(1) f1 unfolding mesa_hash_table_rehash_def ht'_def new_def Let_def
    by (subst foreach_eq) (use d(8) in auto)
  obtain t1 where t1: "ht1 = new\<lparr> ht_table := t1 \<rparr>" "\<forall>e\<in>set t1. \<not> he_deleted e"
    "length (filter he_present t1) = ht_entries ht" using r1 unfolding refilled_def by blast
  have "filter he_deleted t1 = []" using t1(2) by (auto simp: filter_empty_conv)
  then have "ht_counts ht'" using t1 by (simp add: ht_counts_def ht'_def new_def)
  moreover have "ht_core hf h eq ht'" using c1 by (simp add: ht_core_def ht'_def ht_fields_def ht_slots_def)
  moreover have "ht_map ht' k = ht_map ht k" for k
    using m1 m p(4) [of k] by (simp add: ht'_def ht_map_def ht_slots_def split: option.splits)
  ultimately show ?thesis using e t1 by (auto simp: ht_ok_core ht'_def new_def)
qed

end

section \<open>Inserting\<close>

text \<open>
  The case in which \<open>_mesa_hash_table_rehash\<close> empties a table that is not empty: only after a failed
  allocation can there be as many tombstones as the limit and an entry besides.
\<close>

definition ht_lossy :: "hash_table \<Rightarrow> bool" where
  "ht_lossy ht \<longleftrightarrow> ht_deleted_entries ht = ht_max_entries ht \<and> 0 < ht_entries ht
     \<and> ht_entries ht < ht_max_entries ht"

lemma tight_not_lossy: "ht_tight ht \<Longrightarrow> \<not> ht_lossy ht"
  by (auto simp: ht_tight_def ht_lossy_def)

context table_keys
begin

lemma index_grows:
  assumes "ht_ok hf h eq ht" "ht_entries ht < 2 ^ 30" "ht_max_entries ht \<le> ht_entries ht"
  shows "ht_size_index ht < 26"
proof (rule ccontr)
  assume "\<not> ht_size_index ht < 26"
  then have "ht_size_index ht = 26" using ht_fieldsD(1) [OF ht_okD(1) [OF assms(1)]] by simp
  then show False using assms(2,3) ht_fieldsD(6) [OF ht_okD(1) [OF assms(1)]] max_entries_26 by simp
qed

lemma make_room_ok:
  assumes ok: "ht_ok hf h eq ht" and lim: "ht_entries ht < 2 ^ 30"
  shows "\<exists>ht'. make_room ht alloc = Some ht' \<and> ht_ok hf h eq ht'
    \<and> (\<not> ht_lossy ht \<longrightarrow> (\<forall>k. ht_map ht' k = ht_map ht k)) \<and> ht_entries ht' \<le> ht_entries ht
    \<and> (alloc \<longrightarrow> ht_entries ht' < ht_size ht')
    \<and> (alloc \<and> ht_tight ht \<longrightarrow> ht_entries ht' + ht_deleted_entries ht' < ht_max_entries ht')"
proof -
  note d = ht_okD [OF ok] and le = ht_counts_le [OF ok]
  note f = ht_fieldsD [OF d(1)]
  have ms: "0 < ht_max_entries ht" "ht_max_entries ht < ht_size ht"
    using good_sizeD(5,6) [OF f(7)] f by simp_all
  have u: "u32 (ht_deleted_entries ht + ht_entries ht) = ht_deleted_entries ht + ht_entries ht"
    using le by simp
  show ?thesis
  proof (cases "ht_max_entries ht \<le> ht_entries ht")
    case True
    have i: "ht_size_index ht < 26" by (rule index_grows [OF ok lim True])
    have sz: "ht_max_entries ht < hs_max_entries (hash_sizes ! Suc (ht_size_index ht))"
      "ht_size ht \<le> hs_max_entries (hash_sizes ! Suc (ht_size_index ht))"
      "hs_max_entries (hash_sizes ! Suc (ht_size_index ht)) < hs_size (hash_sizes ! Suc (ht_size_index ht))"
      using sizes_double [OF i] f(2,6) good_sizeD(5) [OF f(7)] good_sizeD(6) [OF good_sizes, of "Suc (ht_size_index ht)"] i
      by simp_all
    have mr: "make_room ht alloc = mesa_hash_table_rehash ht (Suc (ht_size_index ht)) alloc"
      using True by (simp add: make_room_def)
    show ?thesis
    proof (cases alloc)
      case False
      then have "make_room ht alloc = Some ht" unfolding mr using i by (simp add: mesa_hash_table_rehash_def)
      then show ?thesis using ok False by simp
    next
      case al: True
      obtain ht' where "mesa_hash_table_rehash ht (Suc (ht_size_index ht)) True = Some ht'" "ht_ok hf h eq ht'"
        "\<forall>k. ht_map ht' k = ht_map ht k" "ht_entries ht' = ht_entries ht" "ht_deleted_entries ht' = 0"
        "ht_size_index ht' = Suc (ht_size_index ht)"
        using rehash_ok [OF ok, of "Suc (ht_size_index ht)"] i sz le(1) by auto
      then show ?thesis
        using mr al sz le(1) ht_fieldsD(2,6) [OF ht_okD(1) [of hf h eq ht']] by (auto simp: ht_tight_def)
    qed
  next
    case False
    show ?thesis
    proof (cases "ht_max_entries ht \<le> ht_deleted_entries ht + ht_entries ht")
      case full: True
      have mr: "make_room ht alloc = mesa_hash_table_rehash ht (ht_size_index ht) alloc"
        using False full u by (simp add: make_room_def)
      show ?thesis
      proof (cases "ht_deleted_entries ht = ht_max_entries ht")
        case True
        have e: "make_room ht alloc = Some (hash_table_clear_fast ht)"
          using True by (simp add: mr mesa_hash_table_rehash_def)
        have "ht_map ht k = None" if "\<not> ht_lossy ht" for k
        proof -
          have "ht_entries ht = 0" using that True False by (auto simp: ht_lossy_def)
          then show ?thesis using present_entries_ok(3,4) [OF ok] by simp
        qed
        then show ?thesis using e clear_fast_ok [OF ok] ms by simp
      next
        case nc: False
        show ?thesis
        proof (cases alloc)
          case False
          then have "make_room ht alloc = Some ht" unfolding mr using nc f(1) by (simp add: mesa_hash_table_rehash_def)
          then show ?thesis using ok False by simp
        next
          case al: True
          obtain ht' where "mesa_hash_table_rehash ht (ht_size_index ht) True = Some ht'" "ht_ok hf h eq ht'"
            "\<forall>k. ht_map ht' k = ht_map ht k" "ht_entries ht' = ht_entries ht" "ht_deleted_entries ht' = 0"
            "ht_size_index ht' = ht_size_index ht"
            using rehash_ok [OF ok f(1)] nc le(1) f(2) by auto
          then show ?thesis
            using mr al False ms f ht_fieldsD(2,6) [OF ht_okD(1) [of hf h eq ht']] by auto
        qed
      qed
    next
      case room: False
      then have "make_room ht alloc = Some ht" using False u by (simp add: make_room_def)
      then show ?thesis using ok room ms by auto
    qed
  qed
qed

lemma others_no_match:
  assumes "ht_ok hf h eq ht" "a < length (ht_table ht)" "ht_slots ht ! a = Present hash k1 d1" "eq k k1"
    and "i < length (ht_table ht)" "i \<noteq> a" "ht_slots ht ! i = Present hash' k' d'"
  shows "\<not> eq k k'"
proof
  assume "eq k k'"
  then have "eq k1 k'" using assms(4) eq_sym eq_trans by blast
  then have "a = i"
    by (intro slots_okD(4) [OF ht_okD(5) [OF assms(1)] _ _ assms(3,7)]) (use assms in simp_all)
  then show False using assms(6) by simp
qed

lemma replace_ok:
  fixes d :: ptr
  assumes ok: "ht_ok hf h eq ht" and a: "a < length (ht_table ht)" "ht_slots ht ! a = Present (h k) k1 d1" "eq k k1"
  defines "ht' \<equiv> fill_entry k d a ht"
  shows "ht_ok hf h eq ht'" "ht_map ht' k' = (if eq k k' then Some d else ht_map ht k')"
    "ht_entries ht' = ht_entries ht" "ht_deleted_entries ht' = ht_deleted_entries ht"
    "ht_max_entries ht' = ht_max_entries ht"
proof -
  define e where "e = (ht_table ht ! a)\<lparr> he_key := k, he_data := d, he_present := True, he_deleted := False \<rparr>"
  note o = ht_okD [OF ok]
  have core: "ht_core hf h eq ht" using ok by (simp add: ht_ok_core)
  have p: "he_present (ht_table ht ! a)" "he_hash (ht_table ht ! a) = h k"
    using present_slotD [OF a(1,2)] by simp_all
  have nd: "\<not> he_deleted (ht_table ht ! a)" using o(2) a p(1) nth_mem [OF a(1)] by (auto simp: ht_counts_def)
  have tab: "ht_table ht' = (ht_table ht)[a := e]" by (simp add: ht'_def fill_entry_def e_def)
  have fld: "ht_fields ht'" "ht_size_index ht' = ht_size_index ht" "key_equals_function ht' = key_equals_function ht"
    "key_hash_function ht' = key_hash_function ht"
    using o(1) by (simp_all add: ht'_def fill_entry_def ht_fields_def)
  have r: "reachable_slot (hash_sizes ! ht_size_index ht) (ht_slots ht) (h k) a"
    using slots_okD(3) [OF o(5), of a] a by simp
  have es: "entry_slot e = Present (h k) k d" using p by (simp add: e_def entry_slot_def)
  have put: "ht_core hf h eq ht'" "ht_map ht' k' = (if eq k k' then Some d else ht_map ht k')" for k'
    by (rule core_put [OF core a(1) es r _ _ tab fld]; use others_no_match [OF ok a] a in auto)+
  have "ht_counts ht'"
    by (rule ht_counts_update [OF o(2) a(1) _ tab]) (use p nd in \<open>auto simp: e_def ht'_def fill_entry_def\<close>)
  then show "ht_ok hf h eq ht'" "ht_map ht' k' = (if eq k k' then Some d else ht_map ht k')"
    using put by (simp_all add: ht_ok_core)
qed (simp_all add: ht'_def fill_entry_def)

lemma add_ok:
  fixes d :: ptr
  assumes ok: "ht_ok hf h eq ht" and a: "a < length (ht_table ht)" "ht_slots ht ! a = Free \<or> ht_slots ht ! a = Deleted"
    and r: "reachable_slot (hash_sizes ! ht_size_index ht) (ht_slots ht) (h k) a" and new: "ht_map ht k = None"
  defines "ht' \<equiv> fill_entry k d a (claim_entry ht (h k) a)"
  shows "ht_ok hf h eq ht'" "ht_map ht' k' = (if eq k k' then Some d else ht_map ht k')"
    "ht_entries ht' = ht_entries ht + 1" "ht_deleted_entries ht' \<le> ht_deleted_entries ht"
    "ht_max_entries ht' = ht_max_entries ht"
proof -
  define e where "e = (ht_table ht ! a)\<lparr> he_hash := h k, he_key := k, he_data := d, he_present := True,
    he_deleted := False \<rparr>"
  note o = ht_okD [OF ok] and le = ht_counts_le [OF ok]
  have core: "ht_core hf h eq ht" using ok by (simp add: ht_ok_core)
  have np: "\<not> he_present (ht_table ht ! a)"
    using a by (auto simp: nth_ht_slots entry_slot_def split: if_splits)
  have tab: "ht_table ht' = (ht_table ht)[a := e]"
    using a(1) by (simp add: ht'_def fill_entry_def claim_entry_def e_def Let_def)
  have fld: "ht_fields ht'" "ht_size_index ht' = ht_size_index ht" "key_equals_function ht' = key_equals_function ht"
    "key_hash_function ht' = key_hash_function ht"
    using o(1) by (simp_all add: ht'_def fill_entry_def claim_entry_def ht_fields_def Let_def)
  have es: "entry_slot e = Present (h k) k d" by (simp add: e_def entry_slot_def)
  have none: "\<And>i hash k' d'. i < length (ht_table ht) \<Longrightarrow> ht_slots ht ! i = Present hash k' d' \<Longrightarrow> \<not> eq k k'"
    using new slots_map_eq_None [OF o(5), of k] unfolding ht_map_def o(3) by auto
  have put: "ht_core hf h eq ht'" "ht_map ht' k' = (if eq k k' then Some d else ht_map ht k')" for k'
    by (rule core_put [OF core a(1) es r _ _ tab fld]; use none a in auto)+
  have ent: "ht_entries ht' = ht_entries ht + 1"
    using le by (simp add: ht'_def fill_entry_def claim_entry_def Let_def)
  have del: "ht_deleted_entries ht' = ht_deleted_entries ht - of_bool (he_deleted (ht_table ht ! a))"
    using le ht_count_pos(2) [OF o(2) a(1)]
    by (auto simp: ht'_def fill_entry_def claim_entry_def Let_def u32_pred_pos)
  have "ht_counts ht'"
    by (rule ht_counts_update [OF o(2) a(1) _ tab])
      (use np ent del ht_count_pos(2) [OF o(2) a(1)] in \<open>auto simp: e_def\<close>)
  then show "ht_ok hf h eq ht'" "ht_map ht' k' = (if eq k k' then Some d else ht_map ht k')"
    using put by (simp_all add: ht_ok_core)
  show "ht_entries ht' = ht_entries ht + 1" "ht_deleted_entries ht' \<le> ht_deleted_entries ht"
    using ent del by simp_all
  show "ht_max_entries ht' = ht_max_entries ht" by (simp add: ht'_def fill_entry_def claim_entry_def Let_def)
qed

lemma find_entry_ok:
  assumes ok: "ht_ok hf h eq ht"
  shows "\<exists>r. find_entry ht (h k) k = Some r \<and> (case r of
      Inl a \<Rightarrow> a < length (ht_table ht) \<and> (\<exists>k1 d1. ht_slots ht ! a = Present (h k) k1 d1 \<and> eq k k1)
    | Inr None \<Rightarrow> ht_entries ht = ht_size ht
    | Inr (Some a) \<Rightarrow> a < length (ht_table ht) \<and> ht_map ht k = None
        \<and> (ht_slots ht ! a = Free \<or> ht_slots ht ! a = Deleted)
        \<and> reachable_slot (hash_sizes ! ht_size_index ht) (ht_slots ht) (h k) a)"
proof -
  obtain r where r: "find_entry ht (h k) k = Some r"
    and p: "probe_list (get_step eq (h k) k (ht_slots ht)) Inr
      (map (seq_at (hash_sizes ! ht_size_index ht) (h k)) [0..<hs_size (hash_sizes ! ht_size_index ht)]) None = r"
    using find_entry_eq [OF ok] by blast
  note g = get_found [OF ht_okD(5,6) [OF ok] p]
  show ?thesis
  proof (cases "r = Inr None")
    case True
    have "he_present x" if x: "x \<in> set (ht_table ht)" for x
    proof -
      obtain i where "i < length (ht_table ht)" "x = ht_table ht ! i" using x by (auto simp: in_set_conv_nth)
      then show ?thesis using g True by (auto simp: nth_ht_slots entry_slot_def split: if_splits)
    qed
    then have "filter he_present (ht_table ht) = ht_table ht" by simp
    then have "ht_entries ht = ht_size ht" using ht_okD(2,8) [OF ok] by (simp add: ht_counts_def)
    then show ?thesis using r True by simp
  next
    case False
    then show ?thesis using r g by (auto simp: ht_map_def ht_okD(3) [OF ok] split: sum.splits option.splits)
  qed
qed

lemma insert_after_room:
  assumes mr: "make_room ht alloc = Some ht1" and ok1: "ht_ok hf h eq ht1"
  shows "\<exists>ht' r. hash_table_insert ht (h k) k d alloc = Some (ht', r) \<and> ht_ok hf h eq ht'
    \<and> (ht_entries ht1 < ht_size ht1 \<longrightarrow> r \<noteq> None)
    \<and> (\<forall>k'. ht_map ht' k' = (if r \<noteq> None \<and> eq k k' then Some d else ht_map ht1 k'))
    \<and> ht_entries ht' \<le> ht_entries ht1 + 1 \<and> ht_max_entries ht' = ht_max_entries ht1
    \<and> ht_entries ht' + ht_deleted_entries ht' \<le> ht_entries ht1 + ht_deleted_entries ht1 + 1"
proof -
  obtain r where fe: "find_entry ht1 (h k) k = Some r" and c: "case r of
      Inl a \<Rightarrow> a < length (ht_table ht1) \<and> (\<exists>k1 d1. ht_slots ht1 ! a = Present (h k) k1 d1 \<and> eq k k1)
    | Inr None \<Rightarrow> ht_entries ht1 = ht_size ht1
    | Inr (Some a) \<Rightarrow> a < length (ht_table ht1) \<and> ht_map ht1 k = None
        \<and> (ht_slots ht1 ! a = Free \<or> ht_slots ht1 ! a = Deleted)
        \<and> reachable_slot (hash_sizes ! ht_size_index ht1) (ht_slots ht1) (h k) a"
    using find_entry_ok [OF ok1, of k] by blast
  note op = hash_table_insert_def hash_table_get_entry_def mr fe
  consider (hit) a where "r = Inl a" | (full) "r = Inr None" | (free) a where "r = Inr (Some a)"
    by (metis old.sum.exhaust option.exhaust)
  then show ?thesis
  proof cases
    case hit
    then obtain k1 d1 where a: "a < length (ht_table ht1)" "ht_slots ht1 ! a = Present (h k) k1 d1" "eq k k1"
      using c by auto
    then show ?thesis using replace_ok [OF ok1 a, of d] hit
      by (intro exI [of _ "fill_entry k d a ht1"] exI [of _ "Some a"]) (auto simp: op)
  next
    case full
    then show ?thesis using c ok1
      by (intro exI [of _ ht1] exI [of _ None]) (auto simp: op)
  next
    case free
    then have a: "a < length (ht_table ht1)" "ht_slots ht1 ! a = Free \<or> ht_slots ht1 ! a = Deleted"
      "reachable_slot (hash_sizes ! ht_size_index ht1) (ht_slots ht1) (h k) a" "ht_map ht1 k = None"
      using c by auto
    then show ?thesis using add_ok [OF ok1 a, of d] free
      by (intro exI [of _ "fill_entry k d a (claim_entry ht1 (h k) a)"] exI [of _ "Some a"])
        (auto simp: op)
  qed
qed

lemma insert_ok:
  assumes ok: "ht_ok hf h eq ht" and lim: "ht_entries ht < 2 ^ 30"
  shows "\<exists>ht' r. hash_table_insert ht (h k) k d alloc = Some (ht', r) \<and> ht_ok hf h eq ht'
    \<and> (alloc \<longrightarrow> r \<noteq> None)
    \<and> (\<not> ht_lossy ht \<longrightarrow> (\<forall>k'. ht_map ht' k' = (if r \<noteq> None \<and> eq k k' then Some d else ht_map ht k')))
    \<and> ht_entries ht' \<le> ht_entries ht + 1 \<and> (alloc \<and> ht_tight ht \<longrightarrow> ht_tight ht')"
proof -
  obtain ht1 where mr: "make_room ht alloc = Some ht1" and ok1: "ht_ok hf h eq ht1"
    and m1: "\<not> ht_lossy ht \<Longrightarrow> ht_map ht1 k = ht_map ht k" and e1: "ht_entries ht1 \<le> ht_entries ht"
    and s1: "alloc \<Longrightarrow> ht_entries ht1 < ht_size ht1"
    and t1: "alloc \<and> ht_tight ht \<Longrightarrow> ht_entries ht1 + ht_deleted_entries ht1 < ht_max_entries ht1" for k
    using make_room_ok [OF ok lim, of alloc] by blast
  obtain ht' r where i: "hash_table_insert ht (h k) k d alloc = Some (ht', r)" "ht_ok hf h eq ht'"
    "ht_entries ht1 < ht_size ht1 \<longrightarrow> r \<noteq> None"
    "\<forall>k'. ht_map ht' k' = (if r \<noteq> None \<and> eq k k' then Some d else ht_map ht1 k')"
    "ht_entries ht' \<le> ht_entries ht1 + 1" "ht_max_entries ht' = ht_max_entries ht1"
    "ht_entries ht' + ht_deleted_entries ht' \<le> ht_entries ht1 + ht_deleted_entries ht1 + 1"
    using insert_after_room [OF mr ok1, of k d] by blast
  have "ht_tight ht'" if "alloc \<and> ht_tight ht" using t1 [OF that] i(6,7) by (simp add: ht_tight_def)
  then show ?thesis using i e1 m1 s1
    by (intro exI [of _ ht'] exI [of _ r]) (intro conjI, auto)
qed

text \<open>With room left, an insertion never allocates.\<close>

lemma insert_with_room:
  assumes ok: "ht_ok hf h eq ht" and room: "ht_entries ht + ht_deleted_entries ht < ht_max_entries ht"
  shows "\<exists>ht' r. hash_table_insert ht (h k) k d alloc = Some (ht', Some r) \<and> ht_ok hf h eq ht'
    \<and> (\<forall>k'. ht_map ht' k' = (if eq k k' then Some d else ht_map ht k'))
    \<and> ht_max_entries ht' = ht_max_entries ht
    \<and> ht_entries ht' + ht_deleted_entries ht' \<le> ht_entries ht + ht_deleted_entries ht + 1"
proof -
  have "make_room ht alloc = Some ht"
    using room ht_counts_le [OF ok] by (simp add: make_room_def)
  moreover have "ht_entries ht < ht_size ht"
    using room good_sizeD(6) [OF ht_okD(6) [OF ok]] ht_fieldsD(2,6) [OF ht_okD(1) [OF ok]] by simp
  ultimately show ?thesis using insert_after_room [OF _ ok, of ht alloc k d] by auto
qed

end

section \<open>The other operations\<close>

lemma sizes_mono:
  assumes "i < j" "j < 27"
  shows "hs_size (hash_sizes ! i) \<le> hs_max_entries (hash_sizes ! j)"
  using assms
proof (induction j)
  case (Suc j)
  have s: "hs_size (hash_sizes ! j) \<le> hs_max_entries (hash_sizes ! Suc j)" using sizes_double [of j] Suc.prems by simp
  show ?case
  proof (cases "i = j")
    case False
    then have "hs_size (hash_sizes ! i) \<le> hs_max_entries (hash_sizes ! j)" using Suc by simp
    also have "\<dots> \<le> hs_size (hash_sizes ! j)" using good_sizeD(6) [OF good_sizes, of j] Suc.prems by simp
    finally show ?thesis using s by simp
  qed (use s in simp)
qed simp

lemma sizes_inj:
  assumes "hs_size (hash_sizes ! i) \<le> hs_size (hash_sizes ! j)" "i < 27" "j < 27"
  shows "i \<le> j"
  using sizes_mono [of j i] good_sizeD(6) [OF good_sizes, of i] assms by (metis leD le_trans linorder_le_less_linear)

context table_keys
begin

lemma init_ok:
  shows "ht_ok hf h eq (mesa_hash_table_init hf eq)" "ht_map (mesa_hash_table_init hf eq) k = None"
    "ht_tight (mesa_hash_table_init hf eq)" "ht_entries (mesa_hash_table_init hf eq) = 0"
proof -
  let ?t = "mesa_hash_table_init hf eq"
  have "ht_fields ?t" by (simp add: ht_fields_def mesa_hash_table_init_def Let_def)
  from empty_table_ok [OF this]
  have "ht_core hf h eq ?t" "ht_map ?t k = None" 
    by (auto simp: mesa_hash_table_init_def Let_def first_size ENTRY_def)
  moreover have "ht_counts ?t" by (simp add: ht_counts_def mesa_hash_table_init_def Let_def)
  ultimately show "ht_ok hf h eq ?t" "ht_map ?t k = None" by (simp_all add: ht_ok_core)
qed (simp_all add: ht_tight_def mesa_hash_table_init_def Let_def)

lemma clear_ok:
  assumes ok: "ht_ok hf h eq ht"
  shows "ht_ok hf h eq (fst (clear_table ht del))" "ht_map (fst (clear_table ht del)) k = None"
    "ht_entries (fst (clear_table ht del)) = 0" "ht_deleted_entries (fst (clear_table ht del)) = 0"
    "snd (clear_table ht del) = (if del then present_entries ht else [])"
    "ht_max_entries (fst (clear_table ht del)) = ht_max_entries ht"
proof -
  let ?c = "fst (clear_table ht True)"
  note o = ht_okD [OF ok]
  have f: "ht_fields ?c" using o(1) by (simp add: ht_fields_def clear_table_def)
  have c: "ht_core hf h eq ?c" "ht_map ?c k = None"
    by (rule empty_table_ok [OF f]; use o(3,4,8) in \<open>simp add: clear_table_def\<close>)+
  have "ht_counts ?c" by (simp add: ht_counts_def clear_table_def filter_empty_conv)
  then show "ht_ok hf h eq (fst (clear_table ht del))" "ht_map (fst (clear_table ht del)) k = None"
    using c clear_fast_ok [OF ok] by (cases del; simp add: ht_ok_core clear_table_def)+
qed (simp_all add: clear_table_def hash_table_clear_fast_def present_entries_def)

lemma remove_key_ok:
  assumes ok: "ht_ok hf h eq ht" and hf: "hf = Some h"
  shows "\<exists>ht'. mesa_hash_table_remove_key ht k = Some ht' \<and> ht_ok hf h eq ht'
    \<and> (\<forall>k'. ht_map ht' k' = (if eq k k' then None else ht_map ht k'))
    \<and> ht_entries ht' \<le> ht_entries ht \<and> (ht_tight ht \<longrightarrow> ht_tight ht')"
proof -
  obtain r where r: "hash_table_search ht (h k) k = Some r" and c: "case r of
         None \<Rightarrow> ht_map ht k = None
       | Some a \<Rightarrow> a < length (ht_table ht) \<and> he_present (ht_table ht ! a) \<and> eq k (he_key (ht_table ht ! a))
           \<and> ht_map ht k = Some (he_data (ht_table ht ! a))"
    using search_ok [OF ok] by blast
  have e: "mesa_hash_table_remove_key ht k = Some (mesa_hash_table_remove ht r)"
    using r hf ht_okD(4) [OF ok] by (simp add: mesa_hash_table_remove_key_def mesa_hash_table_search_def)
  have same: "ht_map ht k' = ht_map ht k" if "eq k k'" for k'
    unfolding ht_map_def ht_okD(3) [OF ok] using that slots_map_cong_key eq_sym by blast
  show ?thesis
  proof (cases r)
    case None
    then show ?thesis using e c ok same by (auto simp: mesa_hash_table_remove_def)
  next
    case (Some a)
    then have a: "a < length (ht_table ht)" "he_present (ht_table ht ! a)" "eq k (he_key (ht_table ht ! a))"
      using c by simp_all
    have "eq (he_key (ht_table ht ! a)) k' = eq k k'" for k' using a(3) eq_sym eq_trans by blast
    then show ?thesis using e Some remove_ok [OF ok a(1,2)] ht_count_pos(1) [OF ht_okD(2) [OF ok] a(1)] a(2)
      by (auto simp: ht_tight_def)
  qed
qed

lemma reserve_ok:
  assumes ok: "ht_ok hf h eq ht" and n: "n < 2 ^ 30"
  shows "\<exists>ht' b. mesa_hash_table_reserve ht n alloc = Some (ht', b) \<and> ht_ok hf h eq ht'
    \<and> (\<forall>k. ht_map ht' k = ht_map ht k) \<and> ht_entries ht' = ht_entries ht \<and> (ht_tight ht \<longrightarrow> ht_tight ht')
    \<and> (b \<longleftrightarrow> n \<le> ht_max_entries ht') \<and> (alloc \<longrightarrow> b)"
proof (cases "n < ht_max_entries ht")
  case True
  then show ?thesis using ok by (simp add: mesa_hash_table_reserve_def)
next
  case False
  note f = ht_fieldsD [OF ht_okD(1) [OF ok]] and le = ht_counts_le [OF ok]
  let ?P = "\<lambda>i. hs_max_entries (hash_sizes ! i) \<ge> n"
  have idx: "ht_size_index ht < 26"
    using False n f(1,6) max_entries_26 by (cases "ht_size_index ht = 26") auto
  obtain i where fi: "find ?P [ht_size_index ht + 1..<28] = Some i"
  proof (cases "find ?P [ht_size_index ht + 1..<28]")
    case None
    have "26 \<in> set [ht_size_index ht + 1..<28]" using idx by simp
    then have "\<not> ?P 26" using None unfolding find_None_iff by blast
    then show ?thesis using max_entries_26 n by simp
  qed
  have i: "ht_size_index ht < i" "?P i" using fi by (auto simp: find_Some_iff)
  have i27: "i < 27"
  proof (rule ccontr)
    assume "\<not> i < 27"
    moreover have "i < 28" using fi by (auto simp: find_Some_iff)
    ultimately have i27: "i = 27" by simp
    obtain m where m: "m < length [ht_size_index ht + 1..<28]" "i = [ht_size_index ht + 1..<28] ! m"
      "\<forall>l<m. \<not> ?P ([ht_size_index ht + 1..<28] ! l)" using fi by (auto simp: find_Some_iff)
    then have "ht_size_index ht + 1 + m = 27" using i27 by simp
    then have "[ht_size_index ht + 1..<28] ! (m - 1) = 26" "0 < m" using idx m(1) by auto
    then have "\<not> ?P 26" using m(3) [rule_format, of "m - 1"] by simp
    then show False using max_entries_26 n by simp
  qed
  have sz: "ht_size ht \<le> hs_max_entries (hash_sizes ! i)" using sizes_mono [OF i(1) i27] f(2) by simp
  have mx: "hs_max_entries (hash_sizes ! i) < hs_size (hash_sizes ! i)" using good_sizeD(6) [OF good_sizes [OF i27]] .
  have e: "mesa_hash_table_reserve ht n alloc = map_option (\<lambda>t. (t, ht_max_entries t \<ge> n)) (mesa_hash_table_rehash ht i alloc)"
    using False fi by (simp add: mesa_hash_table_reserve_def)
  show ?thesis
  proof (cases alloc)
    case True
    obtain ht' where r: "mesa_hash_table_rehash ht i True = Some ht'" "ht_ok hf h eq ht'"
      "\<forall>k. ht_map ht' k = ht_map ht k" "ht_entries ht' = ht_entries ht" "ht_deleted_entries ht' = 0"
      "ht_size_index ht' = i"
      using rehash_ok [OF ok i27] i(1) sz mx le(1) by auto
    have "ht_max_entries ht' = hs_max_entries (hash_sizes ! i)" using ht_fieldsD(6) [OF ht_okD(1) [OF r(2)]] r(6) by simp
    then show ?thesis using e True r i(2) sz le(1) by (auto simp: ht_tight_def)
  next
    case na: False
    have "mesa_hash_table_rehash ht i alloc = Some ht" using na i i27 by (simp add: mesa_hash_table_rehash_def)
    then show ?thesis using e na ok by auto
  qed
qed

lemma clone_fold:
  assumes "ht_ok hf h eq ht" "ht_entries ht + ht_deleted_entries ht + length es \<le> ht_max_entries ht"
    and "sorted_wrt (\<lambda>x y. \<not> eq (he_key x) (he_key y)) es" "\<forall>e\<in>set es. he_hash e = h (he_key e)"
  shows "\<exists>ht'. fold_opt (\<lambda>e t. map_option fst (mesa_hash_table_insert_pre_hashed t (he_hash e) (he_key e) (he_data e) alloc)) es ht
      = Some ht' \<and> ht_ok hf h eq ht'
    \<and> (\<forall>k. ht_map ht' k = (case find (\<lambda>e. eq k (he_key e)) es of Some e \<Rightarrow> Some (he_data e) | None \<Rightarrow> ht_map ht k))"
  using assms
proof (induction es arbitrary: ht)
  case (Cons e es)
  have he: "he_hash e = h (he_key e)" using Cons.prems(4) by simp
  have pre: "pre_hashed_ok ht (he_hash e) (he_key e)"
    using ht_okD(4) [OF Cons.prems(1)] he hash_function by (auto simp: pre_hashed_ok_def)
  obtain ht1 r where i: "hash_table_insert ht (h (he_key e)) (he_key e) (he_data e) alloc = Some (ht1, Some r)"
    and c1: "ht_ok hf h eq ht1" and m1: "\<forall>k'. ht_map ht1 k' = (if eq (he_key e) k' then Some (he_data e) else ht_map ht k')"
    and x1: "ht_max_entries ht1 = ht_max_entries ht"
    and d1: "ht_entries ht1 + ht_deleted_entries ht1 \<le> ht_entries ht + ht_deleted_entries ht + 1"
    using insert_with_room [OF Cons.prems(1)] Cons.prems(2) by fastforce
  have "ht_entries ht1 + ht_deleted_entries ht1 + length es \<le> ht_max_entries ht1"
    using d1 x1 Cons.prems(2) by simp
  from Cons.IH [OF c1 this] Cons.prems(3,4)
  obtain ht' where f: "fold_opt (\<lambda>e t. map_option fst (mesa_hash_table_insert_pre_hashed t (he_hash e) (he_key e) (he_data e) alloc)) es ht1
      = Some ht'" "ht_ok hf h eq ht'"
    and m': "\<forall>k. ht_map ht' k = (case find (\<lambda>e. eq k (he_key e)) es of Some e \<Rightarrow> Some (he_data e) | None \<Rightarrow> ht_map ht1 k)"
    by auto
  have "ht_map ht' k = (case find (\<lambda>e. eq k (he_key e)) (e # es) of Some e \<Rightarrow> Some (he_data e) | None \<Rightarrow> ht_map ht k)" for k
  proof (cases "eq k (he_key e)")
    case True
    have "\<not> eq k (he_key x)" if "x \<in> set es" for x
    proof
      assume "eq k (he_key x)"
      then have "eq (he_key e) (he_key x)" using True eq_sym eq_trans by blast
      then show False using Cons.prems(3) that by simp
    qed
    then have "find (\<lambda>e. eq k (he_key e)) es = None" by (auto simp: find_None_iff)
    then show ?thesis using True m' m1 eq_sym by auto
  next
    case False
    then show ?thesis using m' m1 eq_sym by (auto split: option.split)
  qed
  moreover have "fold_opt (\<lambda>e t. map_option fst (mesa_hash_table_insert_pre_hashed t (he_hash e) (he_key e) (he_data e) alloc)) (e # es) ht = Some ht'"
    using i f(1) pre he by (simp add: mesa_hash_table_insert_pre_hashed_def)
  ultimately show ?case using f(2) by blast
qed simp

end

end
