(* ===== verification/HashTableProps.thy ===== *)
theory HashTableProps
  imports HashTable
begin

text \<open>
  Properties of the hash table: sequences of operations refine a map, every table stays well formed, and
  what happens after a failed allocation. The locale of the callbacks is interpreted on pointer keys and
  shown for 32-bit keys.
\<close>

section \<open>Sequences of operations\<close>

datatype hash_op = OInsert ptr ptr | OSearch ptr | ORemove ptr | OClear bool | OReserve nat

text \<open>One call, with whether an allocation in it succeeds; a search observes the data it finds.\<close>

fun run_op :: "hash_op \<Rightarrow> bool \<Rightarrow> hash_table \<Rightarrow> (hash_table \<times> ptr option) option" where
  "run_op (OInsert k d) alloc ht = map_option (\<lambda>(ht', r). (ht', None)) (mesa_hash_table_insert ht k d alloc)"
| "run_op (OSearch k) alloc ht =
    map_option (\<lambda>r. (ht, map_option (\<lambda>a. he_data (ht_table ht ! a)) r)) (mesa_hash_table_search ht k)"
| "run_op (ORemove k) alloc ht = map_option (\<lambda>ht'. (ht', None)) (mesa_hash_table_remove_key ht k)"
| "run_op (OClear del) alloc ht = map_option (\<lambda>r. (fst r, None)) (mesa_hash_table_clear (Some ht) del)"
| "run_op (OReserve n) alloc ht = map_option (\<lambda>r. (fst r, None)) (mesa_hash_table_reserve ht n alloc)"

primrec run_ops :: "(hash_op \<times> bool) list \<Rightarrow> hash_table \<Rightarrow> (hash_table \<times> ptr option list) option" where
  "run_ops [] ht = Some (ht, [])"
| "run_ops (x # xs) ht =
    (case run_op (fst x) (snd x) ht of
       None \<Rightarrow> None
     | Some (ht', r) \<Rightarrow> map_option (\<lambda>(ht'', rs). (ht'', r # rs)) (run_ops xs ht'))"

text \<open>The abstract specification: a partial map on keys, up to the equality of keys.\<close>

fun map_op :: "(ptr \<Rightarrow> ptr \<Rightarrow> bool) \<Rightarrow> hash_op \<Rightarrow> (ptr \<Rightarrow> ptr option) \<Rightarrow> (ptr \<Rightarrow> ptr option) \<times> ptr option" where
  "map_op eq (OInsert k d) m = ((\<lambda>k'. if eq k k' then Some d else m k'), None)"
| "map_op eq (OSearch k) m = (m, m k)"
| "map_op eq (ORemove k) m = ((\<lambda>k'. if eq k k' then None else m k'), None)"
| "map_op eq (OClear del) m = ((\<lambda>k. None), None)"
| "map_op eq (OReserve n) m = (m, None)"

primrec map_ops :: "(ptr \<Rightarrow> ptr \<Rightarrow> bool) \<Rightarrow> hash_op list \<Rightarrow> (ptr \<Rightarrow> ptr option) \<Rightarrow> (ptr \<Rightarrow> ptr option) \<times> ptr option list" where
  "map_ops eq [] m = (m, [])"
| "map_ops eq (x # xs) m =
    (let (m', r) = map_op eq x m; (m'', rs) = map_ops eq xs m' in (m'', r # rs))"

text \<open>The tables stay below the last size, whose addresses do not fit into 32 bits.\<close>

fun small_op :: "hash_op \<Rightarrow> bool" where
  "small_op (OReserve n) = (n < 2 ^ 30)"
| "small_op _ = True"

context table_keys
begin

lemma run_op_ok:
  assumes ok: "ht_ok hf h eq ht" and hf: "hf = Some h" and lim: "ht_entries ht < 2 ^ 30"
    and sm: "small_op op"
  shows "\<exists>ht' r. run_op op alloc ht = Some (ht', r) \<and> ht_ok hf h eq ht' \<and> ht_entries ht' \<le> ht_entries ht + 1
    \<and> (alloc \<and> ht_tight ht \<longrightarrow> ht_tight ht' \<and> (ht_map ht', r) = map_op eq op (ht_map ht))"
proof (cases op)
  case (OInsert k d)
  obtain ht' r where i: "hash_table_insert ht (h k) k d alloc = Some (ht', r)" "ht_ok hf h eq ht'" "alloc \<longrightarrow> r \<noteq> None"
    "\<not> ht_lossy ht \<longrightarrow> (\<forall>k'. ht_map ht' k' = (if r \<noteq> None \<and> eq k k' then Some d else ht_map ht k'))"
    "ht_entries ht' \<le> ht_entries ht + 1" "alloc \<and> ht_tight ht \<longrightarrow> ht_tight ht'"
    using insert_ok [OF ok lim, of k d alloc] by blast
  have "(ht_map ht', None) = map_op eq op (ht_map ht)" if "alloc \<and> ht_tight ht"
    using i(3,4) that tight_not_lossy OInsert by (auto simp: fun_eq_iff)
  then show ?thesis using i OInsert hf ht_okD(4) [OF ok] by (simp add: mesa_hash_table_insert_def)
next
  case (OSearch k)
  obtain r where r: "hash_table_search ht (h k) k = Some r" "case r of
         None \<Rightarrow> ht_map ht k = None
       | Some a \<Rightarrow> a < length (ht_table ht) \<and> he_present (ht_table ht ! a) \<and> eq k (he_key (ht_table ht ! a))
           \<and> ht_map ht k = Some (he_data (ht_table ht ! a))"
    using search_ok [OF ok] by blast
  then have "ht_map ht k = map_option (\<lambda>a. he_data (ht_table ht ! a)) r" by (auto split: option.splits)
  then show ?thesis using r(1) ok hf ht_okD(4) [OF ok] OSearch by (simp add: mesa_hash_table_search_def)
next
  case (ORemove k)
  obtain ht' where "mesa_hash_table_remove_key ht k = Some ht'" "ht_ok hf h eq ht'"
    "\<forall>k'. ht_map ht' k' = (if eq k k' then None else ht_map ht k')" "ht_entries ht' \<le> ht_entries ht"
    "ht_tight ht \<longrightarrow> ht_tight ht'"
    using remove_key_ok [OF ok hf, of k] by blast
  then show ?thesis using ORemove by (auto simp: fun_eq_iff)
next
  case (OClear del)
  then show ?thesis using clear_ok [OF ok, of del]
    by (auto simp: mesa_hash_table_clear_def fun_eq_iff ht_tight_def)
next
  case (OReserve n)
  then have n: "n < 2 ^ 30" using sm by simp
  obtain ht' b where "mesa_hash_table_reserve ht n alloc = Some (ht', b)" "ht_ok hf h eq ht'"
    "\<forall>k. ht_map ht' k = ht_map ht k" "ht_entries ht' = ht_entries ht" "ht_tight ht \<longrightarrow> ht_tight ht'"
    using reserve_ok [OF ok n, of alloc] by blast
  then show ?thesis using OReserve by (auto simp: fun_eq_iff)
qed

lemma run_ops_ok:
  assumes "ht_ok hf h eq ht" "hf = Some h" "ht_entries ht + length ops \<le> 2 ^ 30"
    and "list_all (\<lambda>x. small_op (fst x)) ops"
  shows "\<exists>ht' rs. run_ops ops ht = Some (ht', rs) \<and> ht_ok hf h eq ht'"
  using assms
proof (induction ops arbitrary: ht)
  case (Cons x ops)
  obtain ht1 r where 1: "run_op (fst x) (snd x) ht = Some (ht1, r)" "ht_ok hf h eq ht1"
    "ht_entries ht1 \<le> ht_entries ht + 1"
    using run_op_ok [OF Cons.prems(1,2), of "fst x" "snd x"] Cons.prems(3,4) by auto
  obtain ht' rs where "run_ops ops ht1 = Some (ht', rs)" "ht_ok hf h eq ht'"
    using Cons.IH [OF 1(2) Cons.prems(2)] 1(3) Cons.prems(3,4) by auto
  then show ?case using 1 by simp
qed simp

lemma run_ops_refine:
  assumes "ht_ok hf h eq ht" "hf = Some h" "ht_tight ht" "ht_entries ht + length ops \<le> 2 ^ 30"
    and "list_all small_op ops"
  shows "\<exists>ht'. run_ops (map (\<lambda>op. (op, True)) ops) ht = Some (ht', snd (map_ops eq ops (ht_map ht)))
    \<and> ht_ok hf h eq ht' \<and> ht_map ht' = fst (map_ops eq ops (ht_map ht))"
  using assms
proof (induction ops arbitrary: ht)
  case (Cons x ops)
  obtain ht1 r where 1: "run_op x True ht = Some (ht1, r)" "ht_ok hf h eq ht1" "ht_entries ht1 \<le> ht_entries ht + 1"
    "ht_tight ht1" "(ht_map ht1, r) = map_op eq x (ht_map ht)"
    using run_op_ok [OF Cons.prems(1,2), of x True] Cons.prems(3-5) by auto
  obtain ht' where 2: "run_ops (map (\<lambda>op. (op, True)) ops) ht1 = Some (ht', snd (map_ops eq ops (ht_map ht1)))"
    "ht_ok hf h eq ht'" "ht_map ht' = fst (map_ops eq ops (ht_map ht1))"
    using Cons.IH [OF 1(2) Cons.prems(2) 1(4)] 1(3) Cons.prems(4,5) by auto
  then show ?case using 1 by (simp add: 1(5) [symmetric] case_prod_beta)
qed simp

lemma foreach_visits:
  assumes ok: "ht_ok hf h eq ht"
  shows "\<exists>es. hash_table_foreach ht (\<lambda>e es. Some (es @ [e])) (mesa_hash_table_next_entry ht None) [] = Some es
    \<and> length es = ht_entries ht \<and> sorted_wrt (\<lambda>x y. \<not> eq (he_key x) (he_key y)) es
    \<and> (\<forall>k. ht_map ht k = map_option he_data (find (\<lambda>e. eq k (he_key e)) es))"
  using present_entries_ok [OF ok]
  by (intro exI [of _ "present_entries ht"]) (simp add: foreach_eq [OF ht_okD(8) [OF ok]] fold_opt_snoc)

lemma clone_into_ok:
  assumes dst: "ht_ok hf h eq dst" and src: "ht_ok hf h eq src"
    and fail: "alloc \<or> ht_size src \<le> ht_size dst"
  shows "\<exists>ht. mesa_hash_table_clone_into dst src alloc = Some (True, ht) \<and> ht_ok hf h eq ht
    \<and> (\<forall>k. ht_map ht k = ht_map src k)"
proof -
  note d = ht_okD [OF dst] and s = ht_okD [OF src]
  note fd = ht_fieldsD [OF d(1)] and fs = ht_fieldsD [OF s(1)]
  consider (less) "ht_size dst < ht_size src" | (same) "ht_size dst = ht_size src" | (more) "ht_size src < ht_size dst"
    by linarith
  then show ?thesis
  proof cases
    case less
    then show ?thesis using fail src by (auto simp: mesa_hash_table_clone_into_def mesa_hash_table_copy_def)
  next
    case same
    have hs: "hs_size (hash_sizes ! ht_size_index dst) = hs_size (hash_sizes ! ht_size_index src)"
      unfolding fd(2) [symmetric] fs(2) [symmetric] by (rule same)
    have i: "ht_size_index dst = ht_size_index src"
    proof (rule antisym)
      show "ht_size_index dst \<le> ht_size_index src"
        by (rule sizes_inj [OF _ fd(1) fs(1)]) (simp only: hs order_refl)
      show "ht_size_index src \<le> ht_size_index dst"
        by (rule sizes_inj [OF _ fs(1) fd(1)]) (simp only: hs order_refl)
    qed
    define ht where "ht = dst\<lparr> ht_table := ht_table src, ht_entries := ht_entries src,
      ht_deleted_entries := ht_deleted_entries src \<rparr>"
    have "ht_ok hf h eq ht"
      using d(1,3,4) s(2,5) i by (simp add: ht_ok_def ht_def ht_fields_def ht_counts_def ht_slots_def)
    moreover have "ht_map ht k = ht_map src k" for k using d(3) s(3) by (simp add: ht_map_def ht_def ht_slots_def)
    ultimately show ?thesis using same by (auto simp: mesa_hash_table_clone_into_def ht_def)
  next
    case more
    have lt: "ht_size_index src < ht_size_index dst"
    proof (rule ccontr)
      assume "\<not> ht_size_index src < ht_size_index dst"
      then have "ht_size_index dst = ht_size_index src \<or> ht_size_index dst < ht_size_index src" by auto
      then have "ht_size dst \<le> ht_size src"
        using sizes_mono [of "ht_size_index dst" "ht_size_index src"] good_sizeD(6) [OF fs(7)] fd(2) fs(1,2) by auto
      then show False using more by simp
    qed
    let ?c = "fst (clear_table dst False)"
    note c = clear_ok [OF dst, of False] and p = present_entries_ok [OF src]
    have "ht_entries src \<le> ht_max_entries dst"
      using sizes_mono [OF lt fd(1)] ht_counts_le(1) [OF src] fd(6) fs(2) by simp
    then obtain ht' where "fold_opt (\<lambda>e t. map_option fst
        (mesa_hash_table_insert_pre_hashed t (he_hash e) (he_key e) (he_data e) alloc)) (present_entries src) ?c = Some ht'"
      "ht_ok hf h eq ht'" "\<forall>k. ht_map ht' k = (case find (\<lambda>e. eq k (he_key e)) (present_entries src) of
        Some e \<Rightarrow> Some (he_data e) | None \<Rightarrow> ht_map ?c k)"
      using clone_fold [OF c(1) _ p(1), of alloc] c(3,4,6) p(2,3) by auto
    then show ?thesis using more c(2) p(4)
      by (auto simp: mesa_hash_table_clone_into_def foreach_eq [OF s(8)] split: option.splits)
  qed
qed

lemma random_entry_ok:
  assumes ok: "ht_ok hf h eq ht"
  shows "case mesa_hash_table_random_entry ht rand predicate of
      None \<Rightarrow> \<forall>e\<in>set (present_entries ht). \<not> (case predicate of None \<Rightarrow> True | Some p \<Rightarrow> p e)
    | Some j \<Rightarrow> ht_table ht ! j \<in> set (present_entries ht)
        \<and> (case predicate of None \<Rightarrow> True | Some p \<Rightarrow> p (ht_table ht ! j))"
proof -
  define W where "W = (\<lambda>j. he_present (ht_table ht ! j)
    \<and> (case predicate of None \<Rightarrow> True | Some p \<Rightarrow> p (ht_table ht ! j)))"
  define i where "i = rand mod ht_size ht"
  have i: "i < ht_size ht" using good_sizeD(7) [OF ht_okD(6) [OF ok]] ht_okD(7,8) [OF ok] by (simp add: i_def)
  have e: "mesa_hash_table_random_entry ht rand predicate = (if ht_entries ht = 0 then None else
      case find W [i..<ht_size ht] of Some j \<Rightarrow> Some j | None \<Rightarrow> find W [0..<i])"
    unfolding mesa_hash_table_random_entry_def W_def i_def Let_def by (rule refl)
  have mem: "W j \<Longrightarrow> j < ht_size ht \<Longrightarrow> ht_table ht ! j \<in> set (present_entries ht)" for j
    using ht_okD(8) [OF ok] by (auto simp: W_def present_entries_def)
  show ?thesis
  proof (cases "mesa_hash_table_random_entry ht rand predicate")
    case (Some j)
    then have "W j" "j < ht_size ht"
      using i by (auto simp: e find_Some_iff split: if_splits option.splits)
    then show ?thesis using Some mem by (simp add: W_def)
  next
    case None
    show ?thesis
    proof (cases "ht_entries ht = 0")
      case True
      then show ?thesis using None present_entries_ok(3) [OF ok] by simp
    next
      case False
      then have n: "find W [i..<ht_size ht] = None" "find W [0..<i] = None"
        using None by (auto simp: e split: option.splits)
      have "\<not> W j" if "j < ht_size ht" for j
        using n that unfolding find_None_iff by (metis atLeastLessThan_iff atLeastLessThan_upt le0 not_le_imp_less)
      then have "\<not> (case predicate of None \<Rightarrow> True | Some p \<Rightarrow> p x)" if "x \<in> set (present_entries ht)" for x
        using that ht_okD(8) [OF ok] by (auto simp: present_entries_def in_set_conv_nth W_def)
      then show ?thesis using None by simp
    qed
  qed
qed

end

section \<open>Emptying a table while iterating\<close>

declare mesa_hash_table_next_entry_unsafe.simps [simp del] foreach_remove.simps [simp del]

lemma next_entry_unsafe_eq:
  assumes "ht_deleted_entries ht = 0" "ht_entries ht \<noteq> 0"
  shows "mesa_hash_table_next_entry_unsafe ht entry
    = Some (find (\<lambda>i. he_present (ht_table ht ! i)) [case entry of None \<Rightarrow> 0 | Some j \<Rightarrow> Suc j..<ht_size ht])"
  using assms
proof (induction ht entry rule: mesa_hash_table_next_entry_unsafe.induct)
  case (1 ht entry)
  let ?i = "case entry of None \<Rightarrow> 0 | Some j \<Rightarrow> Suc j"
  show ?case
  proof (cases "?i < ht_size ht")
    case True
    then have u: "[?i..<ht_size ht] = ?i # [Suc ?i..<ht_size ht]" by (rule upt_conv_Cons)
    show ?thesis
    proof (cases "he_present (ht_table ht ! ?i)")
      case False
      then have "mesa_hash_table_next_entry_unsafe ht (Some ?i)
          = Some (find (\<lambda>i. he_present (ht_table ht ! i)) [Suc ?i..<ht_size ht])"
        using 1 True by simp
      then show ?thesis using 1 True False
        by (subst mesa_hash_table_next_entry_unsafe.simps) (simp add: u Let_def)
    next
      case p: True
      then show ?thesis using 1 True
        by (subst mesa_hash_table_next_entry_unsafe.simps) (simp add: u Let_def)
    qed
  next
    case False
    then show ?thesis using 1
      by (subst mesa_hash_table_next_entry_unsafe.simps) (simp add: Let_def)
  qed
qed

lemma filter_drop_first:
  assumes "find (\<lambda>i. P (xs ! i)) [i..<length xs] = Some j"
  shows "i \<le> j" "j < length xs" "P (xs ! j)" "filter P (drop i xs) = xs ! j # filter P (drop (Suc j) xs)"
    "i \<le> l \<Longrightarrow> l < j \<Longrightarrow> \<not> P (xs ! l)"
proof -
  from assms have *: "i \<le> j \<and> j < length xs \<and> P (xs ! j) \<and> (\<forall>l. i \<le> l \<and> l < j \<longrightarrow> \<not> P (xs ! l))"
  proof (induction "length xs - i" arbitrary: i)
    case (Suc n)
    then have u: "[i..<length xs] = i # [Suc i..<length xs]" by (simp add: upt_conv_Cons)
    show ?case
    proof (cases "P (xs ! i)")
      case False
      have "Suc i \<le> j \<and> j < length xs \<and> P (xs ! j) \<and> (\<forall>l. Suc i \<le> l \<and> l < j \<longrightarrow> \<not> P (xs ! l))"
        by (rule Suc.hyps(1)) (use Suc.hyps(2) Suc.prems False u in auto)
      then show ?thesis using False by (metis Suc_leD Suc_le_eq le_neq_implies_less)
    qed (use Suc.prems Suc.hyps(2) u in auto)
  qed simp
  then show "i \<le> j" "j < length xs" "P (xs ! j)" "i \<le> l \<Longrightarrow> l < j \<Longrightarrow> \<not> P (xs ! l)" by simp_all
  have "drop i xs = take (j - i) (drop i xs) @ xs ! j # drop (Suc j) xs"
    using * by (metis Cons_nth_drop_Suc append_take_drop_id drop_drop le_add_diff_inverse2)
  moreover have "filter P (take (j - i) (drop i xs)) = []"
    using * by (auto simp: filter_empty_conv in_set_conv_nth)
  ultimately show "filter P (drop i xs) = xs ! j # filter P (drop (Suc j) xs)"
    using * by (metis append_Nil filter.simps(2) filter_append)
qed

lemma foreach_remove_from:
  assumes "ht_deleted_entries ht = 0" "length (ht_table ht) = ht_size ht"
    and "ht_entries ht = length (filter he_present (drop i (ht_table ht)))"
    and "\<forall>l<i. l < ht_size ht \<longrightarrow> \<not> he_present (ht_table ht ! l)"
  shows "\<exists>t. foreach_remove ht (find (\<lambda>i. he_present (ht_table ht ! i)) [i..<ht_size ht]) vis
      = Some (ht\<lparr> ht_table := t, ht_entries := 0 \<rparr>, vis @ filter he_present (drop i (ht_table ht)))
    \<and> length t = ht_size ht \<and> filter he_present t = []
    \<and> (\<forall>l<length t. he_deleted (t ! l) \<longrightarrow> he_deleted (ht_table ht ! l))"
  using assms
proof (induction "ht_entries ht" arbitrary: ht i vis)
  case 0
  have "\<not> he_present e" if "e \<in> set (ht_table ht)" for e
  proof -
    obtain l where "l < ht_size ht" "e = ht_table ht ! l"
      using \<open>e \<in> set (ht_table ht)\<close> 0(3) by (auto simp: in_set_conv_nth)
    moreover have "he_present (ht_table ht ! l) \<Longrightarrow> l < i" if "l < ht_size ht" for l
    proof (rule ccontr)
      assume "he_present (ht_table ht ! l)" "\<not> l < i"
      then have "ht_table ht ! l \<in> set (filter he_present (drop i (ht_table ht)))"
        using that 0(3) by (auto simp: in_set_conv_nth intro!: exI [of _ "l - i"])
      then show False using 0(1,4) by (metis empty_iff length_0_conv list.set(1))
    qed
    ultimately show ?thesis using 0(5) by blast
  qed
  then have "filter he_present (ht_table ht) = []" by (auto simp: filter_empty_conv)
  moreover have "filter he_present (drop i (ht_table ht)) = []" using 0(1,4) by simp
  ultimately show ?case using 0(1,3)
    by (subst foreach_remove.simps) (intro exI [of _ "ht_table ht"], simp)
next
  case (Suc n)
  have ne: "ht_entries ht \<noteq> 0" using Suc.hyps(2) by simp
  have "find (\<lambda>i. he_present (ht_table ht ! i)) [i..<ht_size ht] \<noteq> None"
  proof
    assume "find (\<lambda>i. he_present (ht_table ht ! i)) [i..<ht_size ht] = None"
    then have "filter he_present (drop i (ht_table ht)) = []"
      using Suc.prems(2) by (auto simp: filter_empty_conv find_None_iff in_set_conv_nth)
    then show False using Suc.prems(3) ne by simp
  qed
  then obtain j where f: "find (\<lambda>i. he_present (ht_table ht ! i)) [i..<ht_size ht] = Some j" by blast
  note j = filter_drop_first [OF f [folded Suc.prems(2)]]
  define ht' where "ht' = ht\<lparr> ht_table := (ht_table ht)[j := (ht_table ht ! j)
      \<lparr> he_hash := 0, he_present := False, he_deleted := False, he_data := 0 \<rparr>],
    ht_entries := ht_entries ht - 1 \<rparr>"
  have d: "drop (Suc j) (ht_table ht') = drop (Suc j) (ht_table ht)" by (simp add: ht'_def)
  have e': "ht_entries ht' = n" using Suc.hyps(2) by (simp add: ht'_def)
  have nn: "\<not> he_present (ht_table ht ! l)" if "i \<le> l" "l < j" for l
    using j(5) that .
  have low: "\<forall>l<Suc j. l < ht_size ht' \<longrightarrow> \<not> he_present (ht_table ht' ! l)"
  proof (intro allI impI)
    fix l assume l: "l < Suc j" "l < ht_size ht'"
    have "\<not> he_present (ht_table ht ! l)" if "l \<noteq> j"
      using that Suc.prems(4) nn [of l] l by (cases "l < i") (auto simp: ht'_def)
    then show "\<not> he_present (ht_table ht' ! l)" using j(2) by (cases "l = j") (auto simp: ht'_def)
  qed
  have "\<exists>t. foreach_remove ht' (find (\<lambda>i. he_present (ht_table ht' ! i)) [Suc j..<ht_size ht']) (vis @ [ht_table ht ! j])
      = Some (ht'\<lparr> ht_table := t, ht_entries := 0 \<rparr>,
          (vis @ [ht_table ht ! j]) @ filter he_present (drop (Suc j) (ht_table ht')))
    \<and> length t = ht_size ht' \<and> filter he_present t = []
    \<and> (\<forall>l<length t. he_deleted (t ! l) \<longrightarrow> he_deleted (ht_table ht' ! l))"
    by (rule Suc.hyps(1)) (use Suc.prems Suc.hyps(2) e' j(4) d low in \<open>auto simp: ht'_def\<close>)
  then obtain t where t: "foreach_remove ht' (find (\<lambda>i. he_present (ht_table ht' ! i)) [Suc j..<ht_size ht']) (vis @ [ht_table ht ! j])
      = Some (ht\<lparr> ht_table := t, ht_entries := 0 \<rparr>, vis @ filter he_present (drop i (ht_table ht)))"
    "length t = ht_size ht" "filter he_present t = []"
    "\<forall>l<length t. he_deleted (t ! l) \<longrightarrow> he_deleted (ht_table ht' ! l)"
    unfolding d j(4) by (auto simp: ht'_def)
  have "foreach_remove ht (Some j) vis = (case mesa_hash_table_next_entry_unsafe ht' (Some j) of
      None \<Rightarrow> None | Some e \<Rightarrow> foreach_remove ht' e (vis @ [ht_table ht ! j]))"
    using ne unfolding ht'_def by (subst foreach_remove.simps) (simp add: Let_def del: One_nat_def)
  also have "\<dots> = foreach_remove ht' (find (\<lambda>i. he_present (ht_table ht' ! i)) [Suc j..<ht_size ht']) (vis @ [ht_table ht ! j])"
  proof (cases "n = 0")
    case True
    then have "foreach_remove ht' x v = Some (ht', v)" for x v using e' by (subst foreach_remove.simps) simp
    moreover have "mesa_hash_table_next_entry_unsafe ht' (Some j) = Some None"
      using True e' Suc.prems(1) by (subst mesa_hash_table_next_entry_unsafe.simps) (simp add: ht'_def)
    ultimately show ?thesis by simp
  next
    case False
    then show ?thesis using next_entry_unsafe_eq [of ht' "Some j"] e' Suc.prems(1) by (simp add: ht'_def)
  qed
  finally have r: "foreach_remove ht (Some j) vis
      = Some (ht\<lparr> ht_table := t, ht_entries := 0 \<rparr>, vis @ filter he_present (drop i (ht_table ht)))"
    using t(1) by simp
  have "\<forall>l<length t. he_deleted (t ! l) \<longrightarrow> he_deleted (ht_table ht ! l)"
    using t(2,4) Suc.prems(2) j(2) by (auto simp: ht'_def nth_list_update split: if_splits)
  then show ?case unfolding f using r t(2,3) by blast
qed

context table_keys
begin

lemma foreach_remove_ok:
  assumes ok: "ht_ok hf h eq ht" and nd: "ht_deleted_entries ht = 0"
  shows "\<exists>ht'. hash_table_foreach_remove ht = Some (ht', present_entries ht) \<and> ht_ok hf h eq ht'
    \<and> (\<forall>k. ht_map ht' k = None)"
proof -
  note o = ht_okD [OF ok]
  obtain t where t: "foreach_remove ht (find (\<lambda>i. he_present (ht_table ht ! i)) [0..<ht_size ht]) []
      = Some (ht\<lparr> ht_table := t, ht_entries := 0 \<rparr>, present_entries ht)"
    "length t = ht_size ht" "filter he_present t = []"
    "\<forall>l<length t. he_deleted (t ! l) \<longrightarrow> he_deleted (ht_table ht ! l)"
    using foreach_remove_from [OF nd o(8), of 0 "[]"] o(2) by (auto simp: ht_counts_def present_entries_def)
  let ?e = "ht\<lparr> ht_table := t, ht_entries := 0 \<rparr>"
  have "filter he_deleted (ht_table ht) = []" using nd o(2) by (simp add: ht_counts_def)
  then have "\<forall>e\<in>set t. \<not> he_deleted e" using t(2,4) o(8)
    by (metis filter_empty_conv in_set_conv_nth)
  then have free: "\<forall>e\<in>set t. \<not> he_present e \<and> \<not> he_deleted e" using t(3) by (auto simp: filter_empty_conv)
  then have "ht_counts ?e" using nd by (auto simp: ht_counts_def filter_empty_conv)
  moreover have f: "ht_fields ?e" using o(1) by (simp add: ht_fields_def)
  have c: "ht_core hf h eq ?e" "ht_map ?e k = None" for k
    by (rule empty_table_ok [OF f]; use o(3,4) t(2) free in simp)+
  moreover have "hash_table_foreach_remove ht = Some (?e, present_entries ht)"
  proof (cases "ht_entries ht = 0")
    case True
    then have "foreach_remove ht x v = Some (ht, v)" for x v by (subst foreach_remove.simps) simp
    moreover have "mesa_hash_table_next_entry_unsafe ht None = Some None"
      using True nd by (subst mesa_hash_table_next_entry_unsafe.simps) simp
    ultimately show ?thesis using t(1) by (simp add: hash_table_foreach_remove_def)
  next
    case False
    then show ?thesis using next_entry_unsafe_eq [OF nd] t(1) by (simp add: hash_table_foreach_remove_def)
  qed
  ultimately show ?thesis by (auto simp: ht_ok_core)
qed

end

section \<open>Keys of the source\<close>

interpretation pointer_keys: table_keys mesa_hash_pointer mesa_key_pointer_equal "Some mesa_hash_pointer"
  by unfold_locales (auto simp: mesa_key_pointer_equal_def)

lemma u32_keys: "table_keys (key_u32_hash hash_uint) key_u32_equals (Some (key_u32_hash hash_uint))"
  by unfold_locales (auto simp: key_u32_equals_def key_u32_hash_def)

lemma table_keysI: "hash_keys h eq \<Longrightarrow> table_keys h eq (Some h)"
  by (simp add: table_keys_def table_keys_axioms_def)

section \<open>Properties\<close>

text \<open>C6: With callbacks that agree (equality of keys is an equivalence and equal keys have one hash) and
  with allocations that succeed, any sequence of fewer than 2^30 insertions, searches, removals, clears
  and reservations returns, every search finds what a map would hold, and an iteration over the final
  table visits each entry of the map once.\<close>

theorem hash_table_refines_map:
  assumes "hash_keys h eq" "length ops \<le> 2 ^ 30" "list_all small_op ops"
  shows "\<exists>ht es. run_ops (map (\<lambda>op. (op, True)) ops) (mesa_hash_table_init (Some h) eq)
      = Some (ht, snd (map_ops eq ops (\<lambda>k. None)))
    \<and> hash_table_foreach ht (\<lambda>e es. Some (es @ [e])) (mesa_hash_table_next_entry ht None) [] = Some es
    \<and> length es = ht_entries ht \<and> sorted_wrt (\<lambda>x y. \<not> eq (he_key x) (he_key y)) es
    \<and> (\<forall>k. fst (map_ops eq ops (\<lambda>k. None)) k = map_option he_data (find (\<lambda>e. eq k (he_key e)) es))"
proof -
  note tk = table_keysI [OF assms(1)]
  note init = table_keys.init_ok [OF tk]
  have m: "ht_map (mesa_hash_table_init (Some h) eq) = (\<lambda>k. None)" using init(2) by blast
  obtain ht where r: "run_ops (map (\<lambda>op. (op, True)) ops) (mesa_hash_table_init (Some h) eq)
      = Some (ht, snd (map_ops eq ops (\<lambda>k. None)))" and ok: "ht_ok (Some h) h eq ht"
    and e: "ht_map ht = fst (map_ops eq ops (\<lambda>k. None))"
    using table_keys.run_ops_refine [OF tk init(1) refl init(3)] init(4) assms(2,3) m by auto
  from table_keys.foreach_visits [OF tk ok] r show ?thesis unfolding e [symmetric] by blast
qed

text \<open>C6 applies to tables with pointer keys: inserting a key twice, removing another and searching.\<close>

theorem hash_table_refines_map_witness:
  "hash_keys mesa_hash_pointer mesa_key_pointer_equal
    \<and> (\<exists>ht. run_ops [(OInsert 8 10, True), (OInsert 16 20, True), (OInsert 8 30, True), (ORemove 16, True),
        (OSearch 8, True), (OSearch 16, True)] (mesa_hash_table_init (Some mesa_hash_pointer) mesa_key_pointer_equal)
      = Some (ht, [None, None, None, None, Some 30, None]))"
proof -
  have k: "hash_keys mesa_hash_pointer mesa_key_pointer_equal" by (rule pointer_keys.hash_keys_axioms)
  show ?thesis
    using k hash_table_refines_map [OF k, of "[OInsert 8 10, OInsert 16 20, OInsert 8 30, ORemove 16, OSearch 8, OSearch 16]"]
    by (auto simp: mesa_key_pointer_equal_def)
qed

text \<open>C24: Whether or not allocations succeed, any sequence of fewer than 2^30 operations returns and leaves
  a well-formed table: the fields are those of one of the first 27 sizes, the table has that many slots,
  no slot is both present and deleted, both counters are exact, every entry has the hash of its key and is
  reached from its first address without crossing a free slot, and no two entries have equal keys.\<close>

theorem hash_table_well_formed:
  assumes "hash_keys h eq" "length ops \<le> 2 ^ 30" "list_all (\<lambda>x. small_op (fst x)) ops"
  shows "\<exists>ht rs. run_ops ops (mesa_hash_table_init (Some h) eq) = Some (ht, rs) \<and> ht_ok (Some h) h eq ht"
proof -
  note tk = table_keysI [OF assms(1)]
  note init = table_keys.init_ok [OF tk]
  show ?thesis using table_keys.run_ops_ok [OF tk init(1) refl] init(4) assms(2,3) by auto
qed

text \<open>C24 with an allocation that fails.\<close>

theorem hash_table_well_formed_witness:
  "hash_keys mesa_hash_pointer mesa_key_pointer_equal
    \<and> (\<exists>ht rs. run_ops [(OReserve 100, False), (OInsert 8 10, False), (OReserve 100, True)]
        (mesa_hash_table_init (Some mesa_hash_pointer) mesa_key_pointer_equal) = Some (ht, rs)
      \<and> ht_ok (Some mesa_hash_pointer) mesa_hash_pointer mesa_key_pointer_equal ht)"
proof -
  have k: "hash_keys mesa_hash_pointer mesa_key_pointer_equal" by (rule pointer_keys.hash_keys_axioms)
  show ?thesis
    using k hash_table_well_formed [OF k, of "[(OReserve 100, False), (OInsert 8 10, False), (OReserve 100, True)]"] by simp
qed

text \<open>C25: \<open>util_fast_urem32\<close> with \<open>REMAINDER_MAGIC\<close> is the remainder, for every number and every divisor
  but 0, with either version of the multiplication.\<close>

theorem fast_urem_is_mod:
  assumes "d \<noteq> 0"
  shows "util_fast_urem32 n d (REMAINDER_MAGIC d) = n mod d
    \<and> mul32by64_hi_32bit d (REMAINDER_MAGIC d * ucast n) = n mod d"
  using util_fast_urem32_eq [OF assms, of n] by (simp add: mul32by64_hi_32bit_eq util_fast_urem32_def)

text \<open>C25 at the size of the initial table.\<close>

theorem fast_urem_is_mod_witness:
  "util_fast_urem32 4294967295 19 (REMAINDER_MAGIC 19) = 5"
  using fast_urem_is_mod [of 19 4294967295] by simp

section \<open>Losing entries after a failed allocation\<close>

text \<open>Sixteen keys with a slot each, all inserted and removed again beside one key that stays.\<close>

definition oom_keys :: "(ptr \<times> nat) list" where
  "oom_keys = [(4, 1), (8, 2), (12, 3), (16, 4), (20, 5), (24, 6), (28, 7), (32, 8), (36, 9), (40, 10),
    (44, 11), (48, 12), (52, 13), (56, 14), (60, 15), (64, 17)]"

definition oom_rounds :: "(ptr \<times> nat) list \<Rightarrow> hash_op list" where
  "oom_rounds ps = concat (map (\<lambda>(k, s). [OInsert k 0, ORemove k]) ps)"

definition oom_ops :: "hash_op list" where
  "oom_ops = OInsert 72 7 # oom_rounds oom_keys @ [OInsert 4 0, OSearch 72]"

lemma run_ops_append:
  "run_ops (xs @ ys) ht = (case run_ops xs ht of None \<Rightarrow> None
    | Some (ht', rs) \<Rightarrow> map_option (\<lambda>(ht'', rs'). (ht'', rs @ rs')) (run_ops ys ht'))"
proof (induction xs arbitrary: ht)
  case (Cons x xs)
  show ?case
  proof (cases "run_op (fst x) (snd x) ht")
    case (Some p)
    then show ?thesis
      by (cases p) (simp add: Cons.IH option.map_comp comp_def case_prod_beta' split: option.split)
  qed simp
qed (simp add: option.map_id)

lemma insert_free_slot:
  assumes f: "ht_fields ht" and k: "key_hash_function ht = Some hash" and mr: "make_room ht alloc = Some ht"
    and a: "a = unat (hash k) mod ht_size ht" "\<not> he_present (ht_table ht ! a)" "\<not> he_deleted (ht_table ht ! a)"
  shows "mesa_hash_table_insert ht k d alloc = Some (fill_entry k d a (claim_entry ht (hash k) a), Some a)"
proof -
  have s: "ht_start ht (hash k) = a" using ht_start_eq [OF f] a(1) ht_fieldsD(2) [OF f] by simp
  have "find_entry ht (hash k) k = Some (Inr (Some a))"
    unfolding find_entry_def Let_def s by (subst do_probe.simps) (simp add: get_entry_body_def Let_def a(2,3))
  then show ?thesis
    by (simp add: mesa_hash_table_insert_def k hash_table_insert_def hash_table_get_entry_def mr)
qed

lemma search_first_slot:
  assumes f: "ht_fields ht" and k: "key_hash_function ht = Some hash"
    and a: "a = unat (hash k) mod ht_size ht" "he_present (ht_table ht ! a)" "he_hash (ht_table ht ! a) = hash k"
      "key_equals_function ht k (he_key (ht_table ht ! a))"
  shows "mesa_hash_table_search ht k = Some (Some a)"
proof -
  have s: "ht_start ht (hash k) = a" using ht_start_eq [OF f] a(1) ht_fieldsD(2) [OF f] by simp
  show ?thesis unfolding mesa_hash_table_search_def k option.case hash_table_search_def Let_def s
    by (subst do_probe.simps) (simp add: search_body_def Let_def a(2-4))
qed

definition oom_state :: "nat \<Rightarrow> nat set \<Rightarrow> hash_table \<Rightarrow> bool" where
  "oom_state n F ht \<longleftrightarrow> ht_fields ht \<and> ht_size_index ht = 0 \<and> key_hash_function ht = Some mesa_hash_pointer
    \<and> key_equals_function ht = mesa_key_pointer_equal \<and> ht_entries ht = 1 \<and> ht_deleted_entries ht = n
    \<and> length (ht_table ht) = 19 \<and> (\<forall>s\<in>F. \<not> he_present (ht_table ht ! s) \<and> \<not> he_deleted (ht_table ht ! s))"

lemma oom_stateD:
  assumes "oom_state n F ht"
  shows "ht_fields ht" "ht_size_index ht = 0" "key_hash_function ht = Some mesa_hash_pointer"
    "key_equals_function ht = mesa_key_pointer_equal" "ht_entries ht = 1" "ht_deleted_entries ht = n"
    "length (ht_table ht) = 19" "\<And>s. s \<in> F \<Longrightarrow> \<not> he_present (ht_table ht ! s) \<and> \<not> he_deleted (ht_table ht ! s)"
    "ht_size ht = 19" "ht_max_entries ht = 16"
  using assms ht_fieldsD(2,6) [of ht] by (auto simp: oom_state_def first_size ENTRY_def)

lemma oom_round:
  assumes st: "oom_state n F ht" and n: "n < 16" and s: "unat (mesa_hash_pointer k) mod 19 = s" "s \<in> F" "s < 19"
  shows "\<exists>ht'. run_ops [(OInsert k 0, False), (ORemove k, False)] ht = Some (ht', [None, None])
    \<and> oom_state (Suc n) (F - {s}) ht'"
proof -
  note d = oom_stateD [OF st]
  have mr: "make_room ht False = Some ht"
    using n d(2,5,6,10) by (simp add: make_room_def mesa_hash_table_rehash_def)
  define ht1 where "ht1 = fill_entry k 0 s (claim_entry ht (mesa_hash_pointer k) s)"
  have ins: "mesa_hash_table_insert ht k 0 False = Some (ht1, Some s)"
    unfolding ht1_def by (rule insert_free_slot [OF d(1,3) mr]) (use s d(8,9) in auto)
  have f1: "ht_fields ht1" "ht_size_index ht1 = 0" "key_hash_function ht1 = Some mesa_hash_pointer"
    "key_equals_function ht1 = mesa_key_pointer_equal" "ht_size ht1 = 19" "length (ht_table ht1) = 19"
    using d by (simp_all add: ht1_def fill_entry_def claim_entry_def Let_def ht_fields_def)
  have c1: "ht_entries ht1 = 2" "ht_deleted_entries ht1 = n"
    using d(5,6) d(8) [OF s(2)] by (simp_all add: ht1_def fill_entry_def claim_entry_def Let_def)
  have t1: "he_present (ht_table ht1 ! s)" "he_hash (ht_table ht1 ! s) = mesa_hash_pointer k" "he_key (ht_table ht1 ! s) = k"
    using s(3) d(7) by (simp_all add: ht1_def fill_entry_def claim_entry_def Let_def)
  have o1: "ht_table ht1 ! i = ht_table ht ! i" if "i \<noteq> s" for i
    using that by (simp add: ht1_def fill_entry_def claim_entry_def Let_def)
  have sea: "mesa_hash_table_search ht1 k = Some (Some s)"
    by (rule search_first_slot [OF f1(1,3)]) (use s f1 t1 in \<open>auto simp: mesa_key_pointer_equal_def\<close>)
  define ht2 where "ht2 = mesa_hash_table_remove ht1 (Some s)"
  have "oom_state (Suc n) (F - {s}) ht2"
    using f1 c1 n d(8) o1
    by (simp add: oom_state_def ht2_def mesa_hash_table_remove_def ht_fields_def u32_pred_pos)
  moreover have "run_ops [(OInsert k 0, False), (ORemove k, False)] ht = Some (ht2, [None, None])"
    using ins sea by (simp add: mesa_hash_table_remove_key_def ht2_def)
  ultimately show ?thesis by blast
qed

lemma oom_rounds_run:
  assumes "oom_state n F ht" "n + length ps \<le> 16" "distinct (map snd ps)" "snd ` set ps \<subseteq> F"
    and "list_all (\<lambda>(k, s). unat (mesa_hash_pointer k) mod 19 = s \<and> s < 19) ps"
  shows "\<exists>ht' rs. run_ops (map (\<lambda>op. (op, False)) (oom_rounds ps)) ht = Some (ht', rs)
    \<and> oom_state (n + length ps) (F - snd ` set ps) ht'"
  using assms
proof (induction ps arbitrary: n F ht)
  case Nil
  then show ?case by (simp add: oom_rounds_def)
next
  case (Cons p ps)
  obtain k s where p: "p = (k, s)" by (cases p)
  obtain ht1 where 1: "run_ops [(OInsert k 0, False), (ORemove k, False)] ht = Some (ht1, [None, None])"
    "oom_state (Suc n) (F - {s}) ht1"
    using oom_round [OF Cons.prems(1), of k s] Cons.prems(2-5) p by auto
  obtain ht' rs where 2: "run_ops (map (\<lambda>op. (op, False)) (oom_rounds ps)) ht1 = Some (ht', rs)"
    "oom_state (Suc n + length ps) (F - {s} - snd ` set ps) ht'"
    using Cons.IH [OF 1(2)] Cons.prems(2-5) p by force
  have "map (\<lambda>op. (op, False)) (oom_rounds (p # ps))
      = [(OInsert k 0, False), (ORemove k, False)] @ map (\<lambda>op. (op, False)) (oom_rounds ps)"
    by (simp add: oom_rounds_def p)
  then have "run_ops (map (\<lambda>op. (op, False)) (oom_rounds (p # ps))) ht = Some (ht', [None, None] @ rs)"
    by (simp only: run_ops_append 1 2 option.case prod.case option.map)
  moreover have "oom_state (n + length (p # ps)) (F - snd ` set (p # ps)) ht'"
    using 2(2) p by (simp add: Diff_insert2 [symmetric] insert_Diff_if set_diff_eq)
  ultimately show ?case by blast
qed

lemma oom_keys_hash: "list_all (\<lambda>(k, s). unat (mesa_hash_pointer k) mod 19 = s \<and> s < 19) oom_keys"
  by (simp add: oom_keys_def mesa_hash_pointer_def)

lemma oom_keys_slots: "length oom_keys = 16" "distinct (map snd oom_keys)" "snd ` set oom_keys \<subseteq> {1..<19}"
  by (simp_all add: oom_keys_def)

lemma oom_start:
  "\<exists>ht. run_op (OInsert 72 7) False mesa_pointer_hash_table_init = Some (ht, None) \<and> oom_state 0 {1..<19} ht"
proof -
  let ?t = mesa_pointer_hash_table_init
  have i: "ht_table ?t = replicate 19 zero_entry" "ht_size ?t = 19" "ht_max_entries ?t = 16" "ht_entries ?t = 0"
    "ht_deleted_entries ?t = 0" "key_hash_function ?t = Some mesa_hash_pointer"
    "key_equals_function ?t = mesa_key_pointer_equal" "ht_size_index ?t = 0" "ht_fields ?t"
    by (simp_all add: mesa_pointer_hash_table_init_def mesa_hash_table_init_def Let_def first_size ENTRY_def ht_fields_def)
  have mr: "make_room ?t False = Some ?t" by (simp add: make_room_def i)
  have h: "unat (mesa_hash_pointer 72) mod 19 = 0" by (simp add: mesa_hash_pointer_def)
  define ht where "ht = fill_entry 72 7 0 (claim_entry ?t (mesa_hash_pointer 72) 0)"
  have ins: "mesa_hash_table_insert ?t 72 7 False = Some (ht, Some 0)"
    unfolding ht_def by (rule insert_free_slot [OF i(9,6) mr]) (simp_all add: i h)
  have "ht_fields ht"
    using i(9) by (simp add: ht_def fill_entry_def claim_entry_def Let_def ht_fields_def)
  then have "oom_state 0 {1..<19} ht"
    by (simp add: oom_state_def ht_def fill_entry_def claim_entry_def Let_def i)
  then show ?thesis using ins by simp
qed

lemma oom_result:
  "\<exists>ht rs. run_ops (map (\<lambda>op. (op, False)) oom_ops) mesa_pointer_hash_table_init = Some (ht, rs @ [None])"
proof -
  obtain ht0 where 0: "run_op (OInsert 72 7) False mesa_pointer_hash_table_init = Some (ht0, None)"
    "oom_state 0 {1..<19} ht0" using oom_start by blast
  obtain ht1 rs where 1: "run_ops (map (\<lambda>op. (op, False)) (oom_rounds oom_keys)) ht0 = Some (ht1, rs)"
    and st: "oom_state 16 ({1..<19} - snd ` set oom_keys) ht1"
    using oom_rounds_run [OF 0(2) _ oom_keys_slots(2,3) oom_keys_hash] oom_keys_slots(1) by auto
  have pre: "run_ops (map (\<lambda>op. (op, False)) (OInsert 72 7 # oom_rounds oom_keys)) mesa_pointer_hash_table_init
      = Some (ht1, None # rs)" using 0 1 by (simp del: run_op.simps)
  have ok: "ht_ok (Some mesa_hash_pointer) mesa_hash_pointer mesa_key_pointer_equal ht1"
  proof -
    define xs where "xs = map (\<lambda>op. (op, False)) (OInsert 72 7 # oom_rounds oom_keys)"
    have "list_all (\<lambda>x. small_op (fst x)) xs" "length xs \<le> 2 ^ 30"
      by (simp_all add: xs_def oom_rounds_def oom_keys_def)
    then obtain ht' rs' where "run_ops xs mesa_pointer_hash_table_init = Some (ht', rs')"
      and ok': "ht_ok (Some mesa_hash_pointer) mesa_hash_pointer mesa_key_pointer_equal ht'"
      using pointer_keys.run_ops_ok [OF pointer_keys.init_ok(1) refl, of xs] pointer_keys.init_ok(4)
      unfolding mesa_pointer_hash_table_init_def by auto
    then have "ht' = ht1" using pre unfolding xs_def by simp
    then show ?thesis using ok' by simp
  qed
  note d = oom_stateD [OF st]
  have mr: "make_room ht1 False = Some (hash_table_clear_fast ht1)"
    using d(5,6,10) by (simp add: make_room_def mesa_hash_table_rehash_def)
  obtain ht2 r where 2: "hash_table_insert ht1 (mesa_hash_pointer 4) 4 0 False = Some (ht2, r)"
    and ok2: "ht_ok (Some mesa_hash_pointer) mesa_hash_pointer mesa_key_pointer_equal ht2"
    and m2: "\<forall>k'. ht_map ht2 k' = (if r \<noteq> None \<and> mesa_key_pointer_equal 4 k' then Some 0
      else ht_map (hash_table_clear_fast ht1) k')"
    using pointer_keys.insert_after_room [OF mr pointer_keys.clear_fast_ok(1) [OF ok], of 4 0] by blast
  have none: "ht_map ht2 72 = None"
    using m2 pointer_keys.clear_fast_ok(2) [OF ok] by (simp add: mesa_key_pointer_equal_def)
  have "run_op (OInsert 4 0) False ht1 = Some (ht2, None)"
    using 2 d(3) by (simp add: mesa_hash_table_insert_def)
  moreover have "run_op (OSearch 72) False ht2 = Some (ht2, None)"
    using pointer_keys.search_ok [OF ok2, of 72] none ht_okD(4) [OF ok2]
    by (auto simp: mesa_hash_table_search_def split: option.splits)
  ultimately have last: "run_ops [(OInsert 4 0, False), (OSearch 72, False)] ht1 = Some (ht2, [None, None])"
    by (simp del: run_op.simps)
  have "map (\<lambda>op. (op, False)) oom_ops
      = map (\<lambda>op. (op, False)) (OInsert 72 7 # oom_rounds oom_keys) @ [(OInsert 4 0, False), (OSearch 72, False)]"
    by (simp add: oom_ops_def)
  then have "run_ops (map (\<lambda>op. (op, False)) oom_ops) mesa_pointer_hash_table_init
      = Some (ht2, (None # rs) @ [None, None])"
    by (simp only: run_ops_append pre option.case prod.case last option.map)
  then have "run_ops (map (\<lambda>op. (op, False)) oom_ops) mesa_pointer_hash_table_init
      = Some (ht2, ((None # rs) @ [None]) @ [None])" by simp
  then show ?thesis by blast
qed

text \<open>A table with pointer keys in which allocations fail: one key is inserted, sixteen others are
  inserted and removed, another is inserted, and the search for the first key finds nothing, though it was
  never removed. When tombstones reach the limit, the rehash takes the table for empty.\<close>

theorem hash_table_oom_loses_entry:
  "(\<exists>ht rs. run_ops (map (\<lambda>op. (op, False)) oom_ops) mesa_pointer_hash_table_init = Some (ht, rs @ [None]))
    \<and> last (snd (map_ops mesa_key_pointer_equal oom_ops (\<lambda>k. None))) = Some 7"
proof
  show "last (snd (map_ops mesa_key_pointer_equal oom_ops (\<lambda>k. None))) = Some 7"
    by (simp add: oom_ops_def oom_rounds_def oom_keys_def mesa_key_pointer_equal_def)
qed (rule oom_result)

end
