(* ===== verification/CpPackets.thy ===== *)
theory CpPackets
  imports IbParser
begin

text \<open>
  The command processor packets of amd/common/ac_cmdbuf_cp.c. An emitter is the list of dwords it
  appends to the command buffer, or \<open>None\<close> where the source asserts and the assertion fails. The
  bit fields are those of amd/registers/pkt3.json and amd/packets/cp_pm4_table_data_gfx11.json,
  from which the build generates the \<open>S_\<close> and \<open>G_\<close> macros.

  The laws say that a stream of these commands is a sequence of whole packets: the count field of
  every header is the length of its body, so that the parser of \<open>IbParser\<close> stops at each packet's
  end and reports the packets in order. \<open>ac_emit_cp_gfx11_ge_rings\<close>, \<open>ac_emit_cp_tess_rings\<close>,
  \<open>ac_emit_cp_gfx_scratch\<close> and the performance counter helpers, which only set registers, are not here.
\<close>

section \<open>Opcodes, fields and events\<close>

definition PKT3_ATOMIC_MEM :: nat where "PKT3_ATOMIC_MEM = 0x1E"
definition PKT3_SET_PREDICATION :: nat where "PKT3_SET_PREDICATION = 0x20"
definition PKT3_COND_EXEC :: nat where "PKT3_COND_EXEC = 0x22"
definition PKT3_WRITE_DATA :: nat where "PKT3_WRITE_DATA = 0x37"
definition PKT3_WAIT_REG_MEM :: nat where "PKT3_WAIT_REG_MEM = 0x3C"
definition PKT3_PFP_SYNC_ME :: nat where "PKT3_PFP_SYNC_ME = 0x42"
definition PKT3_EVENT_WRITE :: nat where "PKT3_EVENT_WRITE = 0x46"
definition PKT3_EVENT_WRITE_EOS :: nat where "PKT3_EVENT_WRITE_EOS = 0x48"
definition PKT3_ACQUIRE_MEM :: nat where "PKT3_ACQUIRE_MEM = 0x58"
definition PKT3_LOAD_CONTEXT_REG_INDEX :: nat where "PKT3_LOAD_CONTEXT_REG_INDEX = 0x9F"

lemmas cp_opcode_defs = PKT3_ATOMIC_MEM_def PKT3_SET_PREDICATION_def PKT3_COND_EXEC_def
  PKT3_WRITE_DATA_def PKT3_WAIT_REG_MEM_def PKT3_PFP_SYNC_ME_def PKT3_EVENT_WRITE_def
  PKT3_EVENT_WRITE_EOS_def PKT3_ACQUIRE_MEM_def PKT3_LOAD_CONTEXT_REG_INDEX_def

text \<open>The form of every generated field macro: \<open>((x) & mask) << lo\<close> and \<open>((x) >> lo) & mask\<close>.\<close>

definition set_field :: "nat \<Rightarrow> nat \<Rightarrow> dword \<Rightarrow> dword" where
  "set_field lo w x = push_bit lo (x AND mask w)"

definition get_field :: "nat \<Rightarrow> nat \<Rightarrow> dword \<Rightarrow> dword" where
  "get_field lo w x = drop_bit lo x AND mask w"

datatype amd_ip_type = AMD_IP_GFX | AMD_IP_COMPUTE | AMD_IP_SDMA | AMD_IP_OTHER

definition V_028A90_CACHE_FLUSH_TS :: dword where "V_028A90_CACHE_FLUSH_TS = 4"
definition V_028A90_CACHE_FLUSH_AND_INV_TS_EVENT :: dword where "V_028A90_CACHE_FLUSH_AND_INV_TS_EVENT = 20"
definition V_028A90_ZPASS_DONE :: dword where "V_028A90_ZPASS_DONE = 21"
definition V_028A90_BOTTOM_OF_PIPE_TS :: dword where "V_028A90_BOTTOM_OF_PIPE_TS = 40"
definition V_028A90_FLUSH_AND_INV_DB_DATA_TS :: dword where "V_028A90_FLUSH_AND_INV_DB_DATA_TS = 43"
definition V_028A90_FLUSH_AND_INV_CB_DATA_TS :: dword where "V_028A90_FLUSH_AND_INV_CB_DATA_TS = 45"
definition V_028A90_CS_DONE :: dword where "V_028A90_CS_DONE = 47"
definition V_028A90_PS_DONE :: dword where "V_028A90_PS_DONE = 48"

lemmas event_defs = V_028A90_CACHE_FLUSH_TS_def V_028A90_CACHE_FLUSH_AND_INV_TS_EVENT_def
  V_028A90_ZPASS_DONE_def V_028A90_BOTTOM_OF_PIPE_TS_def V_028A90_FLUSH_AND_INV_DB_DATA_TS_def
  V_028A90_FLUSH_AND_INV_CB_DATA_TS_def V_028A90_CS_DONE_def V_028A90_PS_DONE_def

definition EVENT_TYPE :: "dword \<Rightarrow> dword" where "EVENT_TYPE x = set_field 0 6 x"
definition EVENT_INDEX :: "dword \<Rightarrow> dword" where "EVENT_INDEX x = set_field 8 4 x"
definition EOP_DST_SEL :: "dword \<Rightarrow> dword" where "EOP_DST_SEL x = push_bit 16 x"
definition EOP_INT_SEL :: "dword \<Rightarrow> dword" where "EOP_INT_SEL x = push_bit 24 x"
definition EOP_DATA_SEL :: "dword \<Rightarrow> dword" where "EOP_DATA_SEL x = push_bit 29 x"
definition EOS_DATA_SEL :: "dword \<Rightarrow> dword" where "EOS_DATA_SEL x = push_bit 29 x"
definition EOP_DST_SEL_MEM :: dword where "EOP_DST_SEL_MEM = 0"
definition EOP_DATA_SEL_VALUE_32BIT :: dword where "EOP_DATA_SEL_VALUE_32BIT = 1"
definition EOS_DATA_SEL_VALUE_32BIT :: dword where "EOS_DATA_SEL_VALUE_32BIT = 2"
definition WAIT_REG_MEM_MEM_SPACE :: "dword \<Rightarrow> dword" where "WAIT_REG_MEM_MEM_SPACE x = set_field 4 2 x"
definition PKT3_SHADER_TYPE_S :: "bool \<Rightarrow> dword" where "PKT3_SHADER_TYPE_S b = push_bit 1 (of_bool b)"
definition COPY_DATA_REG :: dword where "COPY_DATA_REG = 0"
definition COPY_DATA_COUNT_SEL :: dword where "COPY_DATA_COUNT_SEL = push_bit 16 1"
definition COPY_DATA_WR_CONFIRM :: dword where "COPY_DATA_WR_CONFIRM = push_bit 20 1"
definition COPY_DATA_ENGINE_PFP :: dword where "COPY_DATA_ENGINE_PFP = push_bit 30 1"
definition V_371_MEM_GRBM :: dword where "V_371_MEM_GRBM = 1"
definition V_371_MEMORY :: dword where "V_371_MEMORY = 5"

section \<open>Emitters\<close>

text \<open>The two dwords of a 64-bit value, \<open>x\<close> and \<open>x >> 32\<close>.\<close>

definition lo32 :: "nat \<Rightarrow> dword" where "lo32 x = word_of_nat x"
definition hi32 :: "nat \<Rightarrow> dword" where "hi32 x = word_of_nat (x div 2 ^ 32)"

definition ac_emit_cp_indirect_buffer :: "nat \<Rightarrow> dword \<Rightarrow> bool \<Rightarrow> bool \<Rightarrow> bool \<Rightarrow> dword list" where
  "ac_emit_cp_indirect_buffer va cdw chain valid predicate =
    (let dword2_flags = (if chain then set_field 20 1 1 else 0) OR (if valid then set_field 23 1 1 else 0)
     in [PKT3 PKT3_INDIRECT_BUFFER 2 predicate, lo32 va, hi32 va, cdw OR dword2_flags])"

definition ac_emit_cp_cond_exec :: "amd_gfx_level \<Rightarrow> nat \<Rightarrow> dword \<Rightarrow> dword list" where
  "ac_emit_cp_cond_exec gfx_level va count =
    (if gfx_level \<ge> GFX7 then [PKT3 PKT3_COND_EXEC 3 False, lo32 va, hi32 va, 0, count]
     else [PKT3 PKT3_COND_EXEC 2 False, lo32 va, hi32 va, count])"

definition ac_emit_cp_write_data_head :: "dword \<Rightarrow> dword \<Rightarrow> nat \<Rightarrow> nat \<Rightarrow> bool \<Rightarrow> dword list" where
  "ac_emit_cp_write_data_head engine_sel dst_sel va sz predicate =
    [PKT3 PKT3_WRITE_DATA (word_of_nat (2 + sz)) predicate,
     set_field 8 4 dst_sel OR set_field 20 1 1 OR set_field 30 2 engine_sel, lo32 va, hi32 va]"

definition ac_emit_cp_write_data ::
  "dword \<Rightarrow> dword \<Rightarrow> nat \<Rightarrow> nat \<Rightarrow> dword list \<Rightarrow> bool \<Rightarrow> dword list" where
  "ac_emit_cp_write_data engine_sel dst_sel va sz data predicate =
    ac_emit_cp_write_data_head engine_sel dst_sel va sz predicate @ take sz data"

definition ac_emit_cp_write_data_imm :: "dword \<Rightarrow> nat \<Rightarrow> dword \<Rightarrow> dword list" where
  "ac_emit_cp_write_data_imm engine_sel va val = ac_emit_cp_write_data engine_sel V_371_MEMORY va 1 [val] False"

definition ac_emit_cp_wait_mem :: "nat \<Rightarrow> dword \<Rightarrow> dword \<Rightarrow> dword \<Rightarrow> dword list" where
  "ac_emit_cp_wait_mem va ref msk flags =
    [PKT3 PKT3_WAIT_REG_MEM 5 False, WAIT_REG_MEM_MEM_SPACE 1 OR flags, lo32 va, hi32 va, ref, msk, 4]"

definition is_ts_event :: "dword \<Rightarrow> bool" where
  "is_ts_event event_type \<longleftrightarrow>
     event_type = V_028A90_CACHE_FLUSH_TS \<or> event_type = V_028A90_CACHE_FLUSH_AND_INV_TS_EVENT
   \<or> event_type = V_028A90_BOTTOM_OF_PIPE_TS \<or> event_type = V_028A90_FLUSH_AND_INV_DB_DATA_TS
   \<or> event_type = V_028A90_FLUSH_AND_INV_CB_DATA_TS"

definition V_581B_PRE_COLOR :: dword where "V_581B_PRE_COLOR = 2"
definition V_581B_CP_PFP :: dword where "V_581B_CP_PFP = 4"
definition V_581B_CP_ME :: dword where "V_581B_CP_ME = 5"

definition ac_emit_cp_acquire_mem_pws ::
  "amd_gfx_level \<Rightarrow> amd_ip_type \<Rightarrow> dword \<Rightarrow> dword \<Rightarrow> dword \<Rightarrow> dword \<Rightarrow> dword list option" where
  "ac_emit_cp_acquire_mem_pws gfx_level ip_type event_type stage_sel count gcr_cntl =
    (let ts = is_ts_event event_type;
         ps_done = (event_type = V_028A90_PS_DONE);
         cs_done = (event_type = V_028A90_CS_DONE);
         counter_sel = (if ts then 0 else if ps_done then 1 else 2)
     in if gfx_level \<ge> GFX11 \<and> ip_type = AMD_IP_GFX
           \<and> of_bool ts + of_bool cs_done + of_bool ps_done = (1 :: nat)
           \<and> (gcr_cntl = 0 \<or> stage_sel = V_581B_CP_PFP \<or> stage_sel = V_581B_CP_ME)
           \<and> stage_sel \<noteq> V_581B_PRE_COLOR
        then Some [PKT3 PKT3_ACQUIRE_MEM 6 False,
               set_field 11 3 stage_sel OR set_field 14 2 counter_sel OR set_field 17 1 1 OR set_field 18 6 count,
               0xffffffff, 0x01ffffff, 0, 0, set_field 31 1 1, gcr_cntl]
        else None)"

definition ac_emit_cp_release_mem_pws ::
  "amd_gfx_level \<Rightarrow> amd_ip_type \<Rightarrow> dword \<Rightarrow> dword \<Rightarrow> dword list option" where
  "ac_emit_cp_release_mem_pws gfx_level ip_type event_type gcr_cntl =
    (let glm_wb = get_field 4 1 gcr_cntl; glm_inv = get_field 5 1 gcr_cntl;
         glk_wb = get_field 6 1 gcr_cntl; glk_inv = get_field 7 1 gcr_cntl;
         glv_inv = get_field 8 1 gcr_cntl; gl1_inv = get_field 9 1 gcr_cntl;
         gl2_inv = get_field 14 1 gcr_cntl; gl2_wb = get_field 15 1 gcr_cntl;
         gcr_seq = get_field 16 2 gcr_cntl; ts = is_ts_event event_type
     in if gfx_level \<ge> GFX11 \<and> ip_type = AMD_IP_GFX
           \<and> (gfx_level \<ge> GFX12 \<or> gcr_cntl = 0
              \<or> event_type \<noteq> V_028A90_PS_DONE \<and> event_type \<noteq> V_028A90_CS_DONE)
           \<and> get_field 0 2 gcr_cntl = 0
           \<and> (gfx_level \<ge> GFX12 \<or> get_field 2 2 gcr_cntl = 0)
           \<and> get_field 10 1 gcr_cntl = 0 \<and> get_field 11 2 gcr_cntl = 0 \<and> get_field 13 1 gcr_cntl = 0
        then Some [PKT3 PKT3_RELEASE_MEM 6 False,
               set_field 0 6 event_type OR set_field 8 4 (if ts then 5 else 6)
               OR (if gfx_level \<ge> GFX12 then 0
                   else set_field 12 1 glm_wb OR set_field 13 1 glm_inv OR set_field 15 1 gl1_inv)
               OR set_field 14 1 glv_inv OR set_field 20 1 gl2_inv OR set_field 21 1 gl2_wb
               OR set_field 22 2 gcr_seq OR set_field 24 1 glk_wb OR set_field 30 1 glk_inv OR set_field 31 1 1,
               0, 0, 0, 0, 0, 0]
        else None)"

definition ac_emit_cp_copy_data ::
  "dword \<Rightarrow> dword \<Rightarrow> nat \<Rightarrow> nat \<Rightarrow> bool \<Rightarrow> bool \<Rightarrow> bool \<Rightarrow> bool \<Rightarrow> dword list option" where
  "ac_emit_cp_copy_data src_sel dst_sel src_va dst_va wr_confirm count_sel engine_pfp predicate =
    (let dword0 = COPY_DATA_SRC_SEL src_sel OR COPY_DATA_DST_SEL dst_sel
           OR (if wr_confirm then COPY_DATA_WR_CONFIRM else 0)
           OR (if count_sel then COPY_DATA_COUNT_SEL else 0)
           OR (if engine_pfp then COPY_DATA_ENGINE_PFP else 0)
     in if engine_pfp \<and> (src_sel = COPY_DATA_REG \<or> dst_sel = COPY_DATA_REG) then None
        else Some [PKT3 PKT3_COPY_DATA 4 predicate, dword0, lo32 src_va, hi32 src_va, lo32 dst_va, hi32 dst_va])"

definition ac_emit_cp_pfp_sync_me :: "bool \<Rightarrow> dword list" where
  "ac_emit_cp_pfp_sync_me predicate = [PKT3 PKT3_PFP_SYNC_ME 0 predicate, 0]"

definition ac_emit_cp_set_predication :: "amd_gfx_level \<Rightarrow> nat \<Rightarrow> dword \<Rightarrow> dword list" where
  "ac_emit_cp_set_predication gfx_level va op =
    (if gfx_level \<ge> GFX9 then [PKT3 PKT3_SET_PREDICATION 2 False, op, lo32 va, hi32 va]
     else [PKT3 PKT3_SET_PREDICATION 1 False, lo32 va, op OR (hi32 va AND 0xFF)])"

definition ac_emit_cp_acquire_mem ::
  "amd_gfx_level \<Rightarrow> amd_ip_type \<Rightarrow> dword \<Rightarrow> dword \<Rightarrow> dword list option" where
  "ac_emit_cp_acquire_mem gfx_level ip_type engine gcr_cntl =
    (let is_mec = (gfx_level \<ge> GFX7 \<and> ip_type = AMD_IP_COMPUTE)
     in if (ip_type = AMD_IP_GFX \<and> engine \<noteq> 0 \<and> engine \<noteq> 1) \<or> gcr_cntl = 0 then None
        else if gfx_level \<ge> GFX10 then
          Some [PKT3 PKT3_ACQUIRE_MEM 6 False, (if ip_type = AMD_IP_GFX then set_field 31 1 engine else 0),
            0xffffffff, (if gfx_level \<ge> GFX11 \<and> ip_type = AMD_IP_GFX then 0xffffff else 0xff),
            0, 0, 0x0000000A, gcr_cntl]
        else if gfx_level = GFX9 \<or> is_mec then
          Some [PKT3 PKT3_ACQUIRE_MEM 5 False OR PKT3_SHADER_TYPE_S is_mec, gcr_cntl,
            0xffffffff, 0x000000ff, 0, 0, 0x0000000A]
        else Some [PKT3 PKT3_SURFACE_SYNC 3 False, gcr_cntl, 0xffffffff, 0, 0x0000000A])"

definition ac_emit_cp_release_mem ::
  "amd_gfx_level \<Rightarrow> amd_ip_type \<Rightarrow> dword \<Rightarrow> dword \<Rightarrow> dword \<Rightarrow> dword \<Rightarrow> dword \<Rightarrow> nat \<Rightarrow> dword \<Rightarrow> nat
    \<Rightarrow> dword list option" where
  "ac_emit_cp_release_mem gfx_level ip_type event0 event_flags dst_sel int_sel data_sel va new_fence eop_bug_va =
    (let is_mec = (gfx_level \<ge> GFX7 \<and> ip_type = AMD_IP_COMPUTE);
         event = (if gfx_level = GFX7 \<and> (event0 = V_028A90_CS_DONE \<or> event0 = V_028A90_PS_DONE)
                  then V_028A90_BOTTOM_OF_PIPE_TS else event0);
         eos = (event = V_028A90_CS_DONE \<or> event = V_028A90_PS_DONE);
         op = EVENT_TYPE event OR EVENT_INDEX (if eos then 6 else 5) OR event_flags;
         sel = EOP_DST_SEL dst_sel OR EOP_INT_SEL int_sel OR EOP_DATA_SEL data_sel
     in if \<not> (gfx_level \<ge> GFX12 \<or> event_flags = 0
               \<or> event0 \<noteq> V_028A90_PS_DONE \<and> event0 \<noteq> V_028A90_CS_DONE) then None
        else if gfx_level \<ge> GFX9 \<or> is_mec then
          Some ((if gfx_level = GFX9 \<and> \<not> is_mec \<and> eop_bug_va \<noteq> 0
                 then [PKT3 PKT3_EVENT_WRITE 2 False, EVENT_TYPE V_028A90_ZPASS_DONE OR EVENT_INDEX 1,
                       lo32 eop_bug_va, hi32 eop_bug_va] else [])
                @ [PKT3 PKT3_RELEASE_MEM (if gfx_level \<ge> GFX9 then 6 else 5) False,
                   op, sel, lo32 va, hi32 va, new_fence, 0]
                @ (if gfx_level \<ge> GFX9 then [0] else []))
        else if eos then
          (if event_flags = 0 \<and> dst_sel = EOP_DST_SEL_MEM \<and> data_sel = EOP_DATA_SEL_VALUE_32BIT
           then Some [PKT3 PKT3_EVENT_WRITE_EOS 3 False, op, lo32 va,
                  (hi32 va AND 0xffff) OR EOS_DATA_SEL EOS_DATA_SEL_VALUE_32BIT, new_fence]
           else None)
        else
          Some ((if gfx_level = GFX7 \<or> gfx_level = GFX8
                 then [PKT3 PKT3_EVENT_WRITE_EOP 4 False, op, lo32 eop_bug_va,
                       (hi32 eop_bug_va AND 0xffff) OR sel, 0, 0] else [])
                @ [PKT3 PKT3_EVENT_WRITE_EOP 4 False, op, lo32 va, (hi32 va AND 0xffff) OR sel, new_fence, 0]))"

definition ac_emit_cp_atomic_mem :: "dword \<Rightarrow> dword \<Rightarrow> nat \<Rightarrow> nat \<Rightarrow> nat \<Rightarrow> dword list" where
  "ac_emit_cp_atomic_mem atomic_op atomic_cmd va data compare_data =
    [PKT3 PKT3_ATOMIC_MEM 7 False, set_field 0 7 atomic_op OR set_field 8 4 atomic_cmd, lo32 va, hi32 va,
     lo32 data, hi32 data, lo32 compare_data, hi32 compare_data, 10]"

definition ac_emit_cp_nop :: "dword \<Rightarrow> dword list" where
  "ac_emit_cp_nop val = [PKT3 PKT3_NOP 0 False, val]"

definition ac_emit_cp_load_context_reg_index :: "nat \<Rightarrow> dword \<Rightarrow> nat \<Rightarrow> bool \<Rightarrow> dword list option" where
  "ac_emit_cp_load_context_reg_index reg reg_count va predicate =
    (if reg_count = 0 then None
     else Some [PKT3 PKT3_LOAD_CONTEXT_REG_INDEX 3 predicate, lo32 va, hi32 va,
            drop_bit 2 (word_of_nat reg - word_of_nat SI_CONTEXT_REG_OFFSET), reg_count])"

section \<open>Whole packets\<close>

definition hdr_count :: "dword \<Rightarrow> nat" where "hdr_count h = unat (PKT_COUNT_G h)"
definition hdr_op :: "dword \<Rightarrow> nat" where "hdr_op h = unat (PKT3_IT_OPCODE_G h)"

function split_packets :: "dword list \<Rightarrow> (dword \<times> dword list) list" where
  "split_packets [] = []"
| "split_packets (h # r) = (h, take (hdr_count h + 1) r) # split_packets (drop (hdr_count h + 1) r)"
  by pat_completeness auto
termination
  by (relation "measure length") auto

definition parses :: "amd_gfx_level \<Rightarrow> (nat \<Rightarrow> nat \<Rightarrow> nat) \<Rightarrow> dword \<times> dword list \<Rightarrow> bool" where
  "parses gfx gen p \<longleftrightarrow> (case p of (h, body) \<Rightarrow>
     PKT_TYPE_G h = 3 \<and> h \<noteq> PKT3_NOP_PAD \<and> length body = hdr_count h + 1
     \<and> set_packet_kind (hdr_op h) = None
     \<and> packet_reads gfx gen (hdr_op h) (hdr_count h) \<le> hdr_count h + 1)"

definition as_event :: "dword \<times> dword list \<Rightarrow> ib_event" where
  "as_event p = Packet (hdr_op (fst p)) (snd p)"

lemma closed_one:
  assumes "parses gfx gen (h, body)"
  shows "closed gfx gen (h # body) [as_event (h, body)]"
proof -
  have "ac_parse_packet3 gfx gen h (body @ rest) = ([as_event (h, body)], rest)" for rest
  proof -
    have r: "packet_reads gfx gen (hdr_op h) (hdr_count h) \<le> length body" "length body = hdr_count h + 1"
      "set_packet_kind (hdr_op h) = None" "h \<noteq> PKT3_NOP_PAD"
      using assms by (simp_all add: parses_def)
    show ?thesis
      using r unfolding ac_parse_packet3_def Let_def hdr_op_def[symmetric] hdr_count_def[symmetric]
      by (auto simp: as_event_def)
  qed
  moreover have "PKT_TYPE_G h = 3" using assms by (simp add: parses_def)
  ultimately show ?thesis by (simp add: closed_def)
qed

lemma closed_packets:
  "list_all (parses gfx gen) (split_packets dws) \<Longrightarrow> closed gfx gen dws (map as_event (split_packets dws))"
proof (induction dws rule: split_packets.induct)
  case (2 h r)
  let ?n = "hdr_count h + 1"
  have "closed gfx gen (h # take ?n r) [as_event (h, take ?n r)]"
    using 2(2) by (intro closed_one) simp
  moreover have "closed gfx gen (drop ?n r) (map as_event (split_packets (drop ?n r)))"
    using 2 by simp
  ultimately have "closed gfx gen ((h # take ?n r) @ drop ?n r)
      ([as_event (h, take ?n r)] @ map as_event (split_packets (drop ?n r)))"
    by (rule closed_append)
  then show ?case by simp
qed simp

lemma hdr_PKT3:
  "PKT_TYPE_G (PKT3 op c p) = 3"
  "hdr_count (PKT3 op c p) = unat (c AND 0x3FFF)"
  "op < 0x100 \<Longrightarrow> hdr_op (PKT3 op c p) = op"
  using PKT_TYPE_G_PKT3[of op c p False] PKT_COUNT_G_PKT3[of op c p False] PKT3_IT_OPCODE_G_PKT3[of op c p False]
  by (simp_all add: hdr_count_def hdr_op_def PKT3_no_cam[symmetric])

lemma hdr_PKT3_shader:
  "PKT_TYPE_G (PKT3 op c p OR PKT3_SHADER_TYPE_S b) = 3"
  "hdr_count (PKT3 op c p OR PKT3_SHADER_TYPE_S b) = hdr_count (PKT3 op c p)"
  "hdr_op (PKT3 op c p OR PKT3_SHADER_TYPE_S b) = hdr_op (PKT3 op c p)"
proof -
  have bit_st: "bit (PKT3_SHADER_TYPE_S b) n \<longleftrightarrow> b \<and> n = 1" for n
    by (simp only: PKT3_SHADER_TYPE_S_def bit_push_bit_iff bit_of_bool_iff) auto
  show "PKT_TYPE_G (PKT3 op c p OR PKT3_SHADER_TYPE_S b) = 3"
    unfolding pkt_field_defs by (rule bit_word_eqI) (auto simp: bit_simps bit_three mask_numerals bit_st)
  have "PKT_COUNT_G (PKT3 op c p OR PKT3_SHADER_TYPE_S b) = PKT_COUNT_G (PKT3 op c p)"
    unfolding pkt_field_defs by (rule bit_word_eqI) (auto simp: bit_simps bit_three mask_numerals bit_st)
  then show "hdr_count (PKT3 op c p OR PKT3_SHADER_TYPE_S b) = hdr_count (PKT3 op c p)"
    by (simp add: hdr_count_def)
  have "PKT3_IT_OPCODE_G (PKT3 op c p OR PKT3_SHADER_TYPE_S b) = PKT3_IT_OPCODE_G (PKT3 op c p)"
    unfolding pkt_field_defs by (rule bit_word_eqI) (auto simp: bit_simps bit_three mask_numerals bit_st)
  then show "hdr_op (PKT3 op c p OR PKT3_SHADER_TYPE_S b) = hdr_op (PKT3 op c p)"
    by (simp add: hdr_op_def)
qed

lemma pad_hdr: "hdr_op PKT3_NOP_PAD = PKT3_NOP" "hdr_count PKT3_NOP_PAD = 0x3FFF"
  by (simp_all add: PKT3_NOP_PAD_def hdr_PKT3 PKT3_NOP_def)

lemma not_padI: "hdr_op h \<noteq> PKT3_NOP \<or> hdr_count h \<noteq> 0x3FFF \<Longrightarrow> h \<noteq> PKT3_NOP_PAD"
  using pad_hdr by auto

section \<open>Commands\<close>

text \<open>
  One constructor per emitter, with the emitter's arguments; \<open>fits_header\<close> is what the 14-bit count
  field needs of the one packet with a body of variable length.
\<close>

datatype cp_command =
    CpIndirectBuffer nat dword bool bool bool
  | CpCondExec nat dword
  | CpWriteData dword dword nat nat "dword list" bool
  | CpWriteDataImm dword nat dword
  | CpWaitMem nat dword dword dword
  | CpAcquireMemPws amd_ip_type dword dword dword dword
  | CpReleaseMemPws amd_ip_type dword dword
  | CpCopyData dword dword nat nat bool bool bool bool
  | CpPfpSyncMe bool
  | CpSetPredication nat dword
  | CpAcquireMem amd_ip_type dword dword
  | CpReleaseMem amd_ip_type dword dword dword dword dword nat dword nat
  | CpAtomicMem dword dword nat nat nat
  | CpNop dword
  | CpLoadContextRegIndex nat dword nat bool

fun emit_command :: "amd_gfx_level \<Rightarrow> cp_command \<Rightarrow> dword list option" where
  "emit_command gfx (CpIndirectBuffer va cdw chain valid p) = Some (ac_emit_cp_indirect_buffer va cdw chain valid p)"
| "emit_command gfx (CpCondExec va count) = Some (ac_emit_cp_cond_exec gfx va count)"
| "emit_command gfx (CpWriteData eng dst va sz data p) = Some (ac_emit_cp_write_data eng dst va sz data p)"
| "emit_command gfx (CpWriteDataImm eng va v) = Some (ac_emit_cp_write_data_imm eng va v)"
| "emit_command gfx (CpWaitMem va ref msk flags) = Some (ac_emit_cp_wait_mem va ref msk flags)"
| "emit_command gfx (CpAcquireMemPws ip ev stage n gcr) = ac_emit_cp_acquire_mem_pws gfx ip ev stage n gcr"
| "emit_command gfx (CpReleaseMemPws ip ev gcr) = ac_emit_cp_release_mem_pws gfx ip ev gcr"
| "emit_command gfx (CpCopyData ss ds sva dva wr cnt pfp p) = ac_emit_cp_copy_data ss ds sva dva wr cnt pfp p"
| "emit_command gfx (CpPfpSyncMe p) = Some (ac_emit_cp_pfp_sync_me p)"
| "emit_command gfx (CpSetPredication va op) = Some (ac_emit_cp_set_predication gfx va op)"
| "emit_command gfx (CpAcquireMem ip eng gcr) = ac_emit_cp_acquire_mem gfx ip eng gcr"
| "emit_command gfx (CpReleaseMem ip ev fl ds is das va fence bug) =
     ac_emit_cp_release_mem gfx ip ev fl ds is das va fence bug"
| "emit_command gfx (CpAtomicMem op cmd va d c) = Some (ac_emit_cp_atomic_mem op cmd va d c)"
| "emit_command gfx (CpNop v) = Some (ac_emit_cp_nop v)"
| "emit_command gfx (CpLoadContextRegIndex reg n va p) = ac_emit_cp_load_context_reg_index reg n va p"

fun fits_header :: "cp_command \<Rightarrow> bool" where
  "fits_header (CpWriteData eng dst va sz data p) \<longleftrightarrow> sz \<le> length data \<and> sz + 2 < 0x4000"
| "fits_header _ \<longleftrightarrow> True"

fun parser_knows :: "amd_gfx_level \<Rightarrow> cp_command \<Rightarrow> bool" where
  "parser_knows gfx (CpReleaseMem ip _ _ _ _ _ _ _ _) \<longleftrightarrow> \<not> ((gfx = GFX7 \<or> gfx = GFX8) \<and> ip = AMD_IP_COMPUTE)"
| "parser_knows gfx _ \<longleftrightarrow> True"

definition reads_within :: "(nat \<Rightarrow> nat \<Rightarrow> nat) \<Rightarrow> bool" where
  "reads_within gen \<longleftrightarrow> (\<forall>op count. gen op count \<le> count + 1)"

lemmas emit_defs = ac_emit_cp_indirect_buffer_def ac_emit_cp_cond_exec_def ac_emit_cp_write_data_def
  ac_emit_cp_write_data_head_def ac_emit_cp_write_data_imm_def ac_emit_cp_wait_mem_def
  ac_emit_cp_acquire_mem_pws_def ac_emit_cp_release_mem_pws_def ac_emit_cp_copy_data_def
  ac_emit_cp_pfp_sync_me_def ac_emit_cp_set_predication_def ac_emit_cp_acquire_mem_def
  ac_emit_cp_release_mem_def ac_emit_cp_atomic_mem_def ac_emit_cp_nop_def
  ac_emit_cp_load_context_reg_index_def

lemma not_a_set_packet:
  "set_packet_kind PKT3_INDIRECT_BUFFER = None" "set_packet_kind PKT3_COND_EXEC = None"
  "set_packet_kind PKT3_WRITE_DATA = None" "set_packet_kind PKT3_WAIT_REG_MEM = None"
  "set_packet_kind PKT3_ACQUIRE_MEM = None" "set_packet_kind PKT3_RELEASE_MEM = None"
  "set_packet_kind PKT3_COPY_DATA = None" "set_packet_kind PKT3_PFP_SYNC_ME = None"
  "set_packet_kind PKT3_SET_PREDICATION = None" "set_packet_kind PKT3_SURFACE_SYNC = None"
  "set_packet_kind PKT3_EVENT_WRITE = None" "set_packet_kind PKT3_EVENT_WRITE_EOS = None"
  "set_packet_kind PKT3_EVENT_WRITE_EOP = None" "set_packet_kind PKT3_ATOMIC_MEM = None"
  "set_packet_kind PKT3_NOP = None" "set_packet_kind PKT3_LOAD_CONTEXT_REG_INDEX = None"
  by (simp_all add: set_packet_kind_def pkt3_set_defs pkt3_other_defs cp_opcode_defs)

lemma small_opcodes:
  "PKT3_INDIRECT_BUFFER < 0x100" "PKT3_COND_EXEC < 0x100" "PKT3_WRITE_DATA < 0x100" "PKT3_WAIT_REG_MEM < 0x100"
  "PKT3_ACQUIRE_MEM < 0x100" "PKT3_RELEASE_MEM < 0x100" "PKT3_COPY_DATA < 0x100" "PKT3_PFP_SYNC_ME < 0x100"
  "PKT3_SET_PREDICATION < 0x100" "PKT3_SURFACE_SYNC < 0x100" "PKT3_EVENT_WRITE < 0x100"
  "PKT3_EVENT_WRITE_EOS < 0x100" "PKT3_EVENT_WRITE_EOP < 0x100" "PKT3_ATOMIC_MEM < 0x100" "PKT3_NOP < 0x100"
  "PKT3_LOAD_CONTEXT_REG_INDEX < 0x100"
  by (simp_all add: pkt3_other_defs cp_opcode_defs)

lemma parsesI:
  assumes "op < 0x100" "set_packet_kind op = None" "unat (c AND 0x3FFF) + 1 = length body"
    and "op \<noteq> PKT3_NOP \<or> length body \<noteq> 0x4000" "packet_reads gfx gen op (length body - 1) \<le> length body"
  shows "parses gfx gen (PKT3 op c p, body)" "parses gfx gen (PKT3 op c p OR PKT3_SHADER_TYPE_S b, body)"
proof -
  have e: "length body - 1 = unat (c AND 0x3FFF)" using assms(3) by simp
  show "parses gfx gen (PKT3 op c p, body)" "parses gfx gen (PKT3 op c p OR PKT3_SHADER_TYPE_S b, body)"
    using assms(1-4) assms(5)[unfolded e] by (auto simp: parses_def hdr_PKT3 hdr_PKT3_shader intro!: not_padI)
qed

lemma split_one:
  assumes "unat (c AND 0x3FFF) + 1 = length body"
  shows "split_packets ((PKT3 op c p) # body @ rest) = (PKT3 op c p, body) # split_packets rest"
    and "split_packets ((PKT3 op c p OR PKT3_SHADER_TYPE_S b) # body @ rest) =
      (PKT3 op c p OR PKT3_SHADER_TYPE_S b, body) # split_packets rest"
  using assms by (simp_all add: hdr_PKT3 hdr_PKT3_shader)

lemma gen_reads: "reads_within gen \<Longrightarrow> n < k \<Longrightarrow> gen op n \<le> k"
proof -
  assume "reads_within gen" "n < k"
  then have "gen op n \<le> n + 1" by (simp add: reads_within_def)
  with \<open>n < k\<close> show ?thesis by linarith
qed

lemma reads_generic:
  "packet_reads gfx gen PKT3_COND_EXEC n = gen PKT3_COND_EXEC n"
  "packet_reads gfx gen PKT3_WRITE_DATA n = gen PKT3_WRITE_DATA n"
  "packet_reads gfx gen PKT3_WAIT_REG_MEM n = gen PKT3_WAIT_REG_MEM n"
  "packet_reads gfx gen PKT3_ACQUIRE_MEM n = gen PKT3_ACQUIRE_MEM n"
  "packet_reads gfx gen PKT3_COPY_DATA n = gen PKT3_COPY_DATA n"
  "packet_reads gfx gen PKT3_PFP_SYNC_ME n = gen PKT3_PFP_SYNC_ME n"
  "packet_reads gfx gen PKT3_SET_PREDICATION n = gen PKT3_SET_PREDICATION n"
  "packet_reads gfx gen PKT3_EVENT_WRITE n = gen PKT3_EVENT_WRITE n"
  "packet_reads gfx gen PKT3_EVENT_WRITE_EOS n = gen PKT3_EVENT_WRITE_EOS n"
  "packet_reads gfx gen PKT3_ATOMIC_MEM n = gen PKT3_ATOMIC_MEM n"
  "packet_reads gfx gen PKT3_LOAD_CONTEXT_REG_INDEX n = gen PKT3_LOAD_CONTEXT_REG_INDEX n"
  by (simp_all add: packet_reads_def pkt3_other_defs cp_opcode_defs)

lemma reads_fixed:
  "packet_reads gfx gen PKT3_INDIRECT_BUFFER n = 3" "packet_reads gfx gen PKT3_SURFACE_SYNC n = 4"
  "packet_reads gfx gen PKT3_EVENT_WRITE_EOP n = 5" "packet_reads gfx gen PKT3_NOP n = 0"
  "packet_reads gfx gen PKT3_RELEASE_MEM n = (if GFX10 \<le> gfx then gen PKT3_RELEASE_MEM n else 7)"
  by (simp_all add: packet_reads_def pkt3_other_defs cp_opcode_defs)

declare split_packets.simps(2) [simp del]

lemma packet_then:
  assumes "op < 0x100" "set_packet_kind op = None" "unat (c AND 0x3FFF) < length xs"
    and "op \<noteq> PKT3_NOP \<or> unat (c AND 0x3FFF) \<noteq> 0x3FFF"
  shows "list_all (parses gfx gen) (split_packets (PKT3 op c p # xs))
      \<longleftrightarrow> packet_reads gfx gen op (unat (c AND 0x3FFF)) \<le> unat (c AND 0x3FFF) + 1
        \<and> list_all (parses gfx gen) (split_packets (drop (unat (c AND 0x3FFF) + 1) xs))"
    and "list_all (parses gfx gen) (split_packets ((PKT3 op c p OR PKT3_SHADER_TYPE_S b) # xs))
      \<longleftrightarrow> packet_reads gfx gen op (unat (c AND 0x3FFF)) \<le> unat (c AND 0x3FFF) + 1
        \<and> list_all (parses gfx gen) (split_packets (drop (unat (c AND 0x3FFF) + 1) xs))"
proof -
  have "PKT3 op c p \<noteq> PKT3_NOP_PAD" "(PKT3 op c p OR PKT3_SHADER_TYPE_S b) \<noteq> PKT3_NOP_PAD"
    using assms(1,4) by (auto simp: hdr_PKT3 hdr_PKT3_shader intro!: not_padI)
  then show "list_all (parses gfx gen) (split_packets (PKT3 op c p # xs))
      \<longleftrightarrow> packet_reads gfx gen op (unat (c AND 0x3FFF)) \<le> unat (c AND 0x3FFF) + 1
        \<and> list_all (parses gfx gen) (split_packets (drop (unat (c AND 0x3FFF) + 1) xs))"
    "list_all (parses gfx gen) (split_packets ((PKT3 op c p OR PKT3_SHADER_TYPE_S b) # xs))
      \<longleftrightarrow> packet_reads gfx gen op (unat (c AND 0x3FFF)) \<le> unat (c AND 0x3FFF) + 1
        \<and> list_all (parses gfx gen) (split_packets (drop (unat (c AND 0x3FFF) + 1) xs))"
    using assms(1-3) by (simp_all add: split_packets.simps parses_def hdr_PKT3 hdr_PKT3_shader)
qed

lemmas packet_facts = small_opcodes not_a_set_packet reads_fixed reads_generic gen_reads packet_then

lemma release_mem_packets:
  assumes gen: "reads_within gen" and "\<not> ((gfx = GFX7 \<or> gfx = GFX8) \<and> ip = AMD_IP_COMPUTE)"
    and emit: "ac_emit_cp_release_mem gfx ip ev fl ds ints das va fence bug = Some dws"
  shows "list_all (parses gfx gen) (split_packets dws)"
proof -
  have "gfx \<ge> GFX9 \<or> \<not> (gfx \<ge> GFX7 \<and> ip = AMD_IP_COMPUTE)" using assms(2) by (cases gfx) auto
  then show ?thesis
    using emit gen unfolding ac_emit_cp_release_mem_def Let_def
    by (auto simp: packet_facts simp del: gfx_level_simps split: if_splits)
qed

lemma emit_command_packets:
  assumes gen: "reads_within gen" and emit: "emit_command gfx cmd = Some dws"
    and "fits_header cmd" "parser_knows gfx cmd"
  shows "list_all (parses gfx gen) (split_packets dws)"
proof (cases cmd)
  case (CpWriteData eng dst va sz data p)
  then have "unat ((2 + word_of_nat sz) AND 0x3FFF :: dword) = sz + 2"
    using unat_count[of "sz + 2"] assms(3) by (simp add: ac_simps)
  moreover have "PKT3_WRITE_DATA \<noteq> PKT3_NOP" by (simp add: PKT3_WRITE_DATA_def PKT3_NOP_def)
  ultimately show ?thesis using CpWriteData emit gen assms(3)
    by (auto simp: emit_defs packet_facts)
next
  case (CpReleaseMem ip ev fl ds ints das va fence bug)
  then show ?thesis using emit assms(4) by (auto intro: release_mem_packets[OF gen])
qed (use emit gen in
    \<open>auto simp: emit_defs packet_facts Let_def split: if_splits\<close>)

fun emit_all :: "amd_gfx_level \<Rightarrow> cp_command list \<Rightarrow> dword list option" where
  "emit_all gfx [] = Some []"
| "emit_all gfx (c # cs) =
     (case emit_command gfx c of None \<Rightarrow> None
      | Some xs \<Rightarrow> (case emit_all gfx cs of None \<Rightarrow> None | Some ys \<Rightarrow> Some (xs @ ys)))"

definition command_events :: "amd_gfx_level \<Rightarrow> cp_command \<Rightarrow> ib_event list" where
  "command_events gfx c =
     (case emit_command gfx c of None \<Rightarrow> [] | Some xs \<Rightarrow> map as_event (split_packets xs))"

lemma closed_commands:
  assumes "reads_within gen"
  shows "emit_all gfx cs = Some dws \<Longrightarrow> list_all fits_header cs \<Longrightarrow> list_all (parser_knows gfx) cs
    \<Longrightarrow> closed gfx gen dws (concat (map (command_events gfx) cs))"
proof (induction cs arbitrary: dws)
  case (Cons c cs)
  then obtain xs ys where xs: "emit_command gfx c = Some xs" "emit_all gfx cs = Some ys" "dws = xs @ ys"
    by (auto split: option.splits)
  have "command_events gfx c = map as_event (split_packets xs)"
    by (simp add: command_events_def xs(1))
  then have "closed gfx gen xs (command_events gfx c)"
    using emit_command_packets[OF assms xs(1)] Cons.prems by (auto intro: closed_packets)
  moreover have "closed gfx gen ys (concat (map (command_events gfx) cs))"
    using Cons xs(2) by simp
  ultimately show ?case by (simp add: xs(3) closed_append)
qed simp

section \<open>Properties\<close>

text \<open>C15: Command streams and the IB parser. Any sequence of command processor commands, each
  emitted without a failed assertion and with a body that its count field can express, is read back
  by the parser as exactly the packets that were emitted, in order: no command makes the parser lose
  its place in the stream. This holds for every chip generation, with the one exception the next
  theorem is about. The generated printers, a parameter, are assumed not to read past a packet.\<close>

theorem command_stream_parses_back:
  assumes "reads_within gen" "emit_all gfx cs = Some dws" "list_all fits_header cs" "list_all (parser_knows gfx) cs"
  shows "parse_gfx_compute_ib gfx gen dws = concat (map (command_events gfx) cs)"
  using closed_commands[OF assms] by (rule closed_parse)

definition sample_commands :: "cp_command list" where
  "sample_commands = [CpWriteData 0 V_371_MEMORY 0x100000000 2 [7, 8] False, CpNop 5,
     CpReleaseMem AMD_IP_GFX V_028A90_BOTTOM_OF_PIPE_TS 0 EOP_DST_SEL_MEM 0 EOP_DATA_SEL_VALUE_32BIT 0x2000 1 0x3000]"

lemma sample_emitted: "\<exists>dws. emit_all GFX9 sample_commands = Some dws"
  by (simp add: sample_commands_def ac_emit_cp_release_mem_def event_defs Let_def)

theorem command_stream_parses_back_witness:
  "\<exists>dws. emit_all GFX9 sample_commands = Some dws
     \<and> parse_gfx_compute_ib GFX9 (\<lambda>op count. count) dws = concat (map (command_events GFX9) sample_commands)"
proof -
  obtain dws where d: "emit_all GFX9 sample_commands = Some dws" using sample_emitted by blast
  have "reads_within (\<lambda>op count. count)" "list_all fits_header sample_commands"
    "list_all (parser_knows GFX9) sample_commands"
    by (simp_all add: reads_within_def sample_commands_def)
  from command_stream_parses_back[OF this(1) d this(2,3)] d show ?thesis by blast
qed

text \<open>C39: On the compute queues of GFX7 and GFX8 the driver emits \<open>RELEASE_MEM\<close> with six dwords after
  the header, but the parser's case for GFX6 to GFX9 reads seven. Whatever follows the packet loses
  its header: the parser swallows it and takes the next dword for a header.\<close>

theorem release_mem_compute_swallows_header:
  assumes "gfx = GFX7 \<or> gfx = GFX8"
    and "ac_emit_cp_release_mem gfx AMD_IP_COMPUTE ev fl ds ints das va fence bug = Some dws"
  shows "parse_gfx_compute_ib gfx gen (dws @ h # rest) =
    Packet PKT3_RELEASE_MEM (tl dws) # parse_gfx_compute_ib gfx gen rest"
proof -
  obtain body where dws: "dws = PKT3 PKT3_RELEASE_MEM 5 False # body" and len: "length body = 6"
    using assms by (auto simp: ac_emit_cp_release_mem_def Let_def split: if_splits)
  have h: "PKT_TYPE_G (PKT3 PKT3_RELEASE_MEM 5 False) = 3" "hdr_count (PKT3 PKT3_RELEASE_MEM 5 False) = 5"
    "hdr_op (PKT3 PKT3_RELEASE_MEM 5 False) = PKT3_RELEASE_MEM"
    by (simp_all add: hdr_PKT3 small_opcodes)
  then have "PKT3 PKT3_RELEASE_MEM 5 False \<noteq> PKT3_NOP_PAD" by (intro not_padI) simp
  moreover have "packet_reads gfx gen PKT3_RELEASE_MEM 5 = 7" using assms(1) by (auto simp: reads_fixed)
  ultimately have "ac_parse_packet3 gfx gen (PKT3 PKT3_RELEASE_MEM 5 False) (body @ h # rest) =
      ([Packet PKT3_RELEASE_MEM body], rest)"
    using len unfolding ac_parse_packet3_def Let_def hdr_op_def[symmetric] hdr_count_def[symmetric] h
    by (simp add: not_a_set_packet)
  then show ?thesis using h(1) by (simp add: dws)
qed

theorem release_mem_compute_swallows_header_witness:
  "\<exists>dws. ac_emit_cp_release_mem GFX8 AMD_IP_COMPUTE V_028A90_BOTTOM_OF_PIPE_TS 0 0 0 1 0x2000 1 0 = Some dws
     \<and> parse_gfx_compute_ib GFX8 (\<lambda>op count. count) (dws @ ac_emit_cp_nop 5) =
       Packet PKT3_RELEASE_MEM (tl dws) # parse_gfx_compute_ib GFX8 (\<lambda>op count. count) [5]"
proof -
  have "\<exists>dws. ac_emit_cp_release_mem GFX8 AMD_IP_COMPUTE V_028A90_BOTTOM_OF_PIPE_TS 0 0 0 1 0x2000 1 0 = Some dws"
    by (simp add: ac_emit_cp_release_mem_def event_defs Let_def)
  then obtain dws where
    "ac_emit_cp_release_mem GFX8 AMD_IP_COMPUTE V_028A90_BOTTOM_OF_PIPE_TS 0 0 0 1 0x2000 1 0 = Some dws" by blast
  with release_mem_compute_swallows_header[of GFX8, OF _ this] show ?thesis
    by (auto simp: ac_emit_cp_nop_def)
qed

end
