(* ===== verification/CpDma.thy ===== *)
theory CpDma
  imports CpPackets "HOL-Library.Monad_Syntax"
begin

text \<open>
  Buffer copies and clears on the command processor's DMA engine,
  gallium/drivers/radeonsi/si_cp_dma.c. The state is the part of \<open>struct si_context\<close> the file reads
  and writes; its command stream \<open>gfx_cs\<close> is the sequence of what the functions append to it: space
  reservations, buffer list entries, barriers, a flush that toggles the secure mode, and packets.
  The \<open>cs\<close> argument of the functions is \<open>&sctx->gfx_cs\<close>, as in every call on the graphics queue. A
  failed assertion is \<open>None\<close>. The flag word of a packet is the set of its flags. The result of
  \<open>si_aligned_buffer_create\<close> is an argument (\<open>None\<close> when the allocation fails).
\<close>

section \<open>State\<close>

record util_range =
  range_start :: nat
  range_end :: nat

record si_resource =
  res_id :: nat
  gpu_address :: nat
  width0 :: nat
  encrypted :: bool
  valid_buffer_range :: util_range

datatype cs_event =
    NeedSpace
  | AddBuffer nat bool
  | EmitBarrier
  | ToggleSecure
  | Emit "dword list"

record si_context =
  gfx_level :: amd_gfx_level
  family :: nat
  is_gfx_queue :: bool
  has_cp_dma :: bool
  cp_dma_use_L2 :: bool
  cp_sdma_ge_use_system_memory_scope :: bool
  uses_secure_bos :: bool
  cs_is_secure :: bool
  inv_L2 :: bool
  scratch_dirty :: bool
  scratch_buffer :: "si_resource option"
  num_cp_dma_calls :: nat
  gfx_cs :: "cs_event list"

definition CHIP_CARRIZO :: nat where "CHIP_CARRIZO = 60"
definition CHIP_STONEY :: nat where "CHIP_STONEY = 62"

definition SI_CPDMA_ALIGNMENT :: nat where "SI_CPDMA_ALIGNMENT = 32"

text \<open>The flags of a packet, by the number of their bit.\<close>

definition CP_DMA_SYNC :: nat where "CP_DMA_SYNC = 0"
definition CP_DMA_RAW_WAIT :: nat where "CP_DMA_RAW_WAIT = 1"
definition CP_DMA_CLEAR :: nat where "CP_DMA_CLEAR = 2"

section \<open>Fields of the packets\<close>

definition S_415_BYTE_COUNT :: "nat \<Rightarrow> dword" where
  "S_415_BYTE_COUNT x = word_of_nat x AND 0x1FFFFF"

definition S_506_BYTE_COUNT :: "nat \<Rightarrow> dword" where
  "S_506_BYTE_COUNT x = word_of_nat x AND 0x3FFFFFF"

definition S_506_RAW_WAIT :: "bool \<Rightarrow> dword" where
  "S_506_RAW_WAIT b = push_bit 30 (of_bool b)"

definition S_501_CP_SYNC :: "bool \<Rightarrow> dword" where
  "S_501_CP_SYNC b = push_bit 31 (of_bool b)"

definition S_501_DST_SEL :: "dword \<Rightarrow> dword" where
  "S_501_DST_SEL x = push_bit 20 (x AND 3)"

definition S_501_SRC_SEL :: "dword \<Rightarrow> dword" where
  "S_501_SRC_SEL x = push_bit 29 (x AND 3)"

definition S_412_SRC_ADDR_HI :: "nat \<Rightarrow> dword" where
  "S_412_SRC_ADDR_HI x = word_of_nat x AND 0xFFFF"

definition V_501_DST_ADDR_USING_L2 :: dword where "V_501_DST_ADDR_USING_L2 = 3"
definition V_501_DATA :: dword where "V_501_DATA = 2"
definition V_501_SRC_ADDR_USING_L2 :: dword where "V_501_SRC_ADDR_USING_L2 = 3"

section \<open>Operations\<close>

definition util_range_add :: "nat \<Rightarrow> nat \<Rightarrow> util_range \<Rightarrow> util_range" where
  "util_range_add s e r =
    (let start = u32 s; last = u32 e in
     if start < range_start r \<or> last > range_end r
       then r\<lparr> range_start := min start (range_start r), range_end := max last (range_end r) \<rparr>
     else r)"

definition cp_dma_max_byte_count :: "amd_gfx_level \<Rightarrow> nat" where
  "cp_dma_max_byte_count level =
    (let m = (if level \<ge> GFX11 then 32767
              else if level \<ge> GFX9 then unat (S_506_BYTE_COUNT (2 ^ 32 - 1))
              else unat (S_415_BYTE_COUNT (2 ^ 32 - 1)))
     in m - m mod SI_CPDMA_ALIGNMENT)"

definition emit_cp_dma_asserts :: "si_context \<Rightarrow> nat \<Rightarrow> nat \<Rightarrow> nat \<Rightarrow> nat set \<Rightarrow> bool" where
  "emit_cp_dma_asserts sctx dst_va src_va sz flags \<longleftrightarrow>
    has_cp_dma sctx
    \<and> sz \<le> cp_dma_max_byte_count (gfx_level sctx)
    \<and> (sz \<noteq> 0 \<longrightarrow> dst_va \<noteq> 0 \<and> (CP_DMA_CLEAR \<notin> flags \<longrightarrow> src_va \<noteq> 0))"

definition cp_dma_packet :: "si_context \<Rightarrow> nat \<Rightarrow> nat \<Rightarrow> nat \<Rightarrow> nat set \<Rightarrow> dword list" where
  "cp_dma_packet sctx dst_va src_va sz flags =
    (let use_L2 = cp_dma_use_L2 sctx \<or> gfx_level sctx = GFX12;
         command = (if gfx_level sctx \<ge> GFX9 then S_506_BYTE_COUNT sz else S_415_BYTE_COUNT sz)
           OR (if CP_DMA_RAW_WAIT \<in> flags then S_506_RAW_WAIT True else 0);
         header = (if CP_DMA_SYNC \<in> flags \<and> is_gfx_queue sctx then S_501_CP_SYNC True else 0)
           OR (if use_L2 then S_501_DST_SEL V_501_DST_ADDR_USING_L2 else 0)
           OR (if CP_DMA_CLEAR \<in> flags then S_501_SRC_SEL V_501_DATA
               else if use_L2 then S_501_SRC_SEL V_501_SRC_ADDR_USING_L2 else 0)
     in if gfx_level sctx \<ge> GFX7 then
          [PKT3 PKT3_DMA_DATA 5 False, header, word_of_nat src_va, word_of_nat (src_va div 2 ^ 32),
           word_of_nat dst_va, word_of_nat (dst_va div 2 ^ 32), command]
        else
          [PKT3 PKT3_CP_DMA 4 False, word_of_nat src_va,
           header OR S_412_SRC_ADDR_HI (src_va div 2 ^ 32),
           word_of_nat dst_va, word_of_nat (dst_va div 2 ^ 32) AND 0xffff, command])"

definition si_emit_cp_dma :: "nat \<Rightarrow> nat \<Rightarrow> nat \<Rightarrow> nat set \<Rightarrow> si_context \<Rightarrow> si_context option" where
  "si_emit_cp_dma dst_va src_va sz flags sctx =
    (if emit_cp_dma_asserts sctx dst_va src_va sz flags
     then Some (sctx\<lparr> gfx_cs := gfx_cs sctx @ [Emit (cp_dma_packet sctx dst_va src_va sz flags)] \<rparr>)
     else None)"

definition si_cp_dma_wait_for_idle :: "si_context \<Rightarrow> si_context option" where
  "si_cp_dma_wait_for_idle sctx = si_emit_cp_dma 0 0 0 {CP_DMA_SYNC} sctx"

definition si_cp_dma_prepare ::
  "nat \<Rightarrow> nat option \<Rightarrow> nat \<Rightarrow> nat \<Rightarrow> bool \<Rightarrow> nat set \<Rightarrow> si_context \<Rightarrow> si_context \<times> nat set" where
  "si_cp_dma_prepare dst src byte_count remaining_size is_first packet_flags sctx =
    (let events = [NeedSpace, AddBuffer dst True]
           @ (case src of None \<Rightarrow> [] | Some s \<Rightarrow> [AddBuffer s False])
           @ (if is_first then [EmitBarrier] else []);
         flags1 = (if is_first \<and> CP_DMA_CLEAR \<notin> packet_flags
                   then insert CP_DMA_RAW_WAIT packet_flags else packet_flags);
         flags2 = (if byte_count = remaining_size then insert CP_DMA_SYNC flags1 else flags1)
     in (sctx\<lparr> gfx_cs := gfx_cs sctx @ events \<rparr>, flags2))"

text \<open>
  One preparation followed by its packet, the pair every transfer of the file consists of.
\<close>

definition prepare_and_emit ::
  "nat \<Rightarrow> nat option \<Rightarrow> nat \<Rightarrow> nat \<Rightarrow> bool \<Rightarrow> nat set \<Rightarrow> nat \<Rightarrow> nat \<Rightarrow> si_context \<Rightarrow> si_context option" where
  "prepare_and_emit dst src byte_count remaining_size is_first packet_flags dst_va src_va sctx =
    (let (sctx1, dma_flags) = si_cp_dma_prepare dst src byte_count remaining_size is_first packet_flags sctx
     in si_emit_cp_dma dst_va src_va byte_count dma_flags sctx1)"

partial_function (option) clear_loop ::
  "nat \<Rightarrow> nat \<Rightarrow> nat \<Rightarrow> nat \<Rightarrow> bool \<Rightarrow> si_context \<Rightarrow> si_context option" where
  "clear_loop dst val va sz is_first sctx =
    (if sz = 0 then Some sctx
     else
       let byte_count = min sz (cp_dma_max_byte_count (gfx_level sctx))
       in if byte_count = 0 then clear_loop dst val va sz is_first sctx
          else Option.bind (prepare_and_emit dst None byte_count sz is_first {CP_DMA_CLEAR} va val sctx)
                 (\<lambda>sctx1. clear_loop dst val (u64 (va + byte_count)) (sz - byte_count) False sctx1))"

definition si_cp_dma_clear_buffer ::
  "si_context \<Rightarrow> si_resource \<Rightarrow> nat \<Rightarrow> nat \<Rightarrow> nat \<Rightarrow> (si_context \<times> si_resource) option" where
  "si_cp_dma_clear_buffer sctx dst offset sz val =
    (let va = u64 (gpu_address dst + offset);
         sctx1 = (if \<not> cp_dma_use_L2 sctx then sctx\<lparr> inv_L2 := True \<rparr> else sctx);
         dst1 = dst\<lparr> valid_buffer_range := util_range_add offset (offset + sz) (valid_buffer_range dst) \<rparr>
     in if cp_sdma_ge_use_system_memory_scope sctx \<or> sz = 0 \<or> sz mod 4 \<noteq> 0 then None
        else map_option (\<lambda>s. (s\<lparr> num_cp_dma_calls := num_cp_dma_calls s + 1 \<rparr>, dst1))
          (clear_loop (res_id dst) val va sz True sctx1))"

definition scratch_for_realign :: "si_resource option \<Rightarrow> si_context \<Rightarrow> si_context" where
  "scratch_for_realign new sctx =
    (let scratch_size = SI_CPDMA_ALIGNMENT * 2 in
     if (case scratch_buffer sctx of None \<Rightarrow> True | Some b \<Rightarrow> width0 b < scratch_size)
       then sctx\<lparr> scratch_buffer := new,
                  scratch_dirty := (scratch_dirty sctx \<or> new \<noteq> None) \<rparr>
     else sctx)"

definition si_cp_dma_realign_engine ::
  "si_resource option \<Rightarrow> nat \<Rightarrow> bool \<Rightarrow> si_context \<Rightarrow> si_context option" where
  "si_cp_dma_realign_engine new sz is_first sctx =
    (if \<not> sz < SI_CPDMA_ALIGNMENT then None
     else
       let sctx1 = scratch_for_realign new sctx in
       case scratch_buffer sctx1 of
         None \<Rightarrow> Some sctx1
       | Some b \<Rightarrow>
           let va = gpu_address b
           in prepare_and_emit (res_id b) (Some (res_id b)) sz sz is_first {} va
                (u64 (va + SI_CPDMA_ALIGNMENT)) sctx1)"

partial_function (option) copy_loop ::
  "nat \<Rightarrow> nat \<Rightarrow> nat \<Rightarrow> nat \<Rightarrow> nat \<Rightarrow> nat \<Rightarrow> bool \<Rightarrow> si_context \<Rightarrow> (si_context \<times> bool) option" where
  "copy_loop dst src extra main_dst main_src sz is_first sctx =
    (if sz = 0 then Some (sctx, is_first)
     else
       let byte_count = min sz (cp_dma_max_byte_count (gfx_level sctx))
       in if byte_count = 0 then copy_loop dst src extra main_dst main_src sz is_first sctx
          else Option.bind (prepare_and_emit dst (Some src) byte_count (u32 (sz + extra)) is_first {}
                              main_dst main_src sctx)
                 (\<lambda>sctx1. copy_loop dst src extra (u64 (main_dst + byte_count))
                   (u64 (main_src + byte_count)) (sz - byte_count) False sctx1))"

definition needs_realign :: "si_context \<Rightarrow> bool" where
  "needs_realign sctx \<longleftrightarrow> family sctx \<le> CHIP_CARRIZO \<or> family sctx = CHIP_STONEY"

definition copy_realign_size :: "si_context \<Rightarrow> nat \<Rightarrow> nat" where
  "copy_realign_size sctx sz =
    (if needs_realign sctx \<and> sz mod SI_CPDMA_ALIGNMENT \<noteq> 0
     then SI_CPDMA_ALIGNMENT - sz mod SI_CPDMA_ALIGNMENT else 0)"

definition copy_skipped_size :: "si_context \<Rightarrow> nat \<Rightarrow> nat \<Rightarrow> nat" where
  "copy_skipped_size sctx src_va sz =
    (if needs_realign sctx \<and> src_va mod SI_CPDMA_ALIGNMENT \<noteq> 0
     then min (SI_CPDMA_ALIGNMENT - src_va mod SI_CPDMA_ALIGNMENT) sz else 0)"

definition tmz_flush :: "si_resource \<Rightarrow> si_context \<Rightarrow> si_context" where
  "tmz_flush src sctx =
    (if uses_secure_bos sctx \<and> encrypted src \<noteq> cs_is_secure sctx
     then sctx\<lparr> gfx_cs := gfx_cs sctx @ [ToggleSecure], cs_is_secure := \<not> cs_is_secure sctx \<rparr> else sctx)"

definition copy_skipped ::
  "si_resource \<Rightarrow> si_resource \<Rightarrow> nat \<Rightarrow> nat \<Rightarrow> nat \<Rightarrow> nat \<Rightarrow> bool \<Rightarrow> si_context
    \<Rightarrow> (si_context \<times> bool) option" where
  "copy_skipped dst src dst_va src_va skipped_size realign_size is_first sctx =
    (if skipped_size \<noteq> 0
     then map_option (\<lambda>s. (s, False))
            (prepare_and_emit (res_id dst) (Some (res_id src)) skipped_size (skipped_size + realign_size)
              is_first {} dst_va src_va sctx)
     else Some (sctx, is_first))"

definition si_cp_dma_copy_buffer ::
  "si_context \<Rightarrow> si_resource \<Rightarrow> si_resource \<Rightarrow> nat \<Rightarrow> nat \<Rightarrow> nat \<Rightarrow> si_resource option
    \<Rightarrow> (si_context \<times> si_resource) option" where
  "si_cp_dma_copy_buffer sctx dst src dst_offset src_offset sz new_scratch =
    (let sctx1 = (if \<not> cp_dma_use_L2 sctx then sctx\<lparr> inv_L2 := True \<rparr> else sctx);
         dst1 = dst\<lparr> valid_buffer_range := util_range_add dst_offset (dst_offset + sz) (valid_buffer_range dst) \<rparr>;
         dst_va = u64 (dst_offset + gpu_address dst);
         src_va = u64 (src_offset + gpu_address src);
         realign_size = copy_realign_size sctx sz;
         skipped_size = copy_skipped_size sctx src_va sz
     in if sz = 0 \<or> uses_secure_bos sctx \<and> encrypted src \<and> \<not> encrypted dst then None
        else
          do {
            (sctx3, is_first3) \<leftarrow> copy_loop (res_id dst) (res_id src) (skipped_size + realign_size)
               (u64 (dst_va + skipped_size)) (u64 (src_va + skipped_size)) (sz - skipped_size) True
               (tmz_flush src sctx1);
            (sctx4, is_first4) \<leftarrow> copy_skipped dst src dst_va src_va skipped_size realign_size is_first3 sctx3;
            sctx5 \<leftarrow> (if realign_size \<noteq> 0
                     then si_cp_dma_realign_engine new_scratch realign_size is_first4 sctx4
                     else Some sctx4);
            Some (sctx5\<lparr> num_cp_dma_calls := num_cp_dma_calls sctx5 + 1 \<rparr>, dst1)
          })"

text \<open>
  \<open>si_cp_write_data\<close>: \<open>data\<close> points to at least \<open>sz\<close> bytes. \<open>si_cp_copy_data\<close>: either buffer may be absent.
\<close>

definition si_cp_write_data ::
  "si_context \<Rightarrow> si_resource \<Rightarrow> nat \<Rightarrow> nat \<Rightarrow> dword \<Rightarrow> dword \<Rightarrow> dword list \<Rightarrow> si_context option" where
  "si_cp_write_data sctx buf offset sz dst_sel engine data =
    (if offset mod 4 \<noteq> 0 \<or> sz mod 4 \<noteq> 0 then None
     else
       let dst_sel1 = (if gfx_level sctx = GFX6 \<and> dst_sel = V_371_MEMORY then V_371_MEM_GRBM else dst_sel);
           va = u64 (gpu_address buf + offset)
       in Some (sctx\<lparr> gfx_cs := gfx_cs sctx @ [AddBuffer (res_id buf) True,
            Emit (ac_emit_cp_write_data engine dst_sel1 va (sz div 4) data False)] \<rparr>))"

definition si_cp_copy_data ::
  "si_context \<Rightarrow> dword \<Rightarrow> si_resource option \<Rightarrow> nat \<Rightarrow> dword \<Rightarrow> si_resource option \<Rightarrow> nat \<Rightarrow> si_context option" where
  "si_cp_copy_data sctx dst_sel dst dst_offset src_sel src src_offset =
    (let events = (case dst of None \<Rightarrow> [] | Some b \<Rightarrow> [AddBuffer (res_id b) True])
           @ (case src of None \<Rightarrow> [] | Some b \<Rightarrow> [AddBuffer (res_id b) False]);
         dst_va = u64 ((case dst of None \<Rightarrow> 0 | Some b \<Rightarrow> gpu_address b) + dst_offset);
         src_va = u64 ((case src of None \<Rightarrow> 0 | Some b \<Rightarrow> gpu_address b) + src_offset)
     in map_option (\<lambda>p. sctx\<lparr> gfx_cs := gfx_cs sctx @ events @ [Emit p] \<rparr>)
          (ac_emit_cp_copy_data src_sel dst_sel src_va dst_va True False False False))"

end
