(* ===== verification/CpDmaProps.thy ===== *)
theory CpDmaProps
  imports CpDma "HOL-Library.Multiset"
begin

text \<open>
  What the packets of \<open>CpDma\<close> do. A packet is read back with the field layout of its command word
  (\<open>decode_dma\<close>, the reads of the DMA cases of \<open>ac_parse_packet3\<close>); the requests a command stream
  holds are then compared with the transfer that was asked for, byte by byte.
\<close>

section \<open>Reading a packet back\<close>

definition G_415_BYTE_COUNT :: "dword \<Rightarrow> nat" where
  "G_415_BYTE_COUNT x = unat (x AND 0x1FFFFF)"

definition G_506_BYTE_COUNT :: "dword \<Rightarrow> nat" where
  "G_506_BYTE_COUNT x = unat (x AND 0x3FFFFFF)"

definition G_501_SRC_SEL :: "dword \<Rightarrow> dword" where
  "G_501_SRC_SEL x = drop_bit 29 x AND 3"

record dma_request =
  rq_dst :: nat
  rq_src :: nat
  rq_count :: nat
  rq_data :: bool
  rq_sync :: bool
  rq_raw :: bool

definition ac_ib_get64 :: "dword \<Rightarrow> dword \<Rightarrow> nat" where
  "ac_ib_get64 lo hi = unat lo + 2 ^ 32 * unat hi"

definition read_dma :: "amd_gfx_level \<Rightarrow> dword \<Rightarrow> nat \<Rightarrow> nat \<Rightarrow> dword \<Rightarrow> dma_request" where
  "read_dma level header src dst command =
    \<lparr> rq_dst = dst, rq_src = src,
      rq_count = (if level \<ge> GFX9 then G_506_BYTE_COUNT command else G_415_BYTE_COUNT command),
      rq_data = (G_501_SRC_SEL header = V_501_DATA), rq_sync = bit header 31, rq_raw = bit command 30 \<rparr>"

fun decode_dma :: "amd_gfx_level \<Rightarrow> dword list \<Rightarrow> dma_request option" where
  "decode_dma level [h, w0, w1, w2, w3, w4, w5] =
    (if h = PKT3 PKT3_DMA_DATA 5 False \<and> level \<ge> GFX7
     then Some (read_dma level w0 (ac_ib_get64 w1 w2) (ac_ib_get64 w3 w4) w5) else None)"
| "decode_dma level [h, w0, w1, w2, w3, w4] =
    (if h = PKT3 PKT3_CP_DMA 4 False \<and> level < GFX7
     then Some (read_dma level w1 (ac_ib_get64 w0 (w1 AND 0xFFFF)) (ac_ib_get64 w2 w3) w4) else None)"
| "decode_dma level _ = None"

definition address_limit :: "amd_gfx_level \<Rightarrow> nat" where
  "address_limit level = (if level \<ge> GFX7 then 2 ^ 64 else 2 ^ 48)"

lemma ac_ib_get64_split:
  assumes "a < 2 ^ 64"
  shows "ac_ib_get64 (word_of_nat a) (word_of_nat (a div 2 ^ 32)) = a"
proof -
  have "a div 2 ^ 32 < 2 ^ 32" using assms by (simp add: less_mult_imp_div_less)
  then have "unat (word_of_nat (a div 2 ^ 32) :: dword) = a div 2 ^ 32"
    by (simp add: unat_of_nat)
  moreover have "unat (word_of_nat a :: dword) = a mod 2 ^ 32" by (simp add: unat_of_nat)
  ultimately show ?thesis
    unfolding ac_ib_get64_def by simp
qed

lemma dma_masks:
  "(0x1FFFFF::dword) = mask 21" "(0x3FFFFFF::dword) = mask 26"
  by (simp_all add: mask_eq_exp_minus_1)

lemma cp_dma_max_byte_count_eq:
  "cp_dma_max_byte_count level = (if level \<ge> GFX11 then 32736 else if level \<ge> GFX9 then 67108832 else 2097120)"
  by (simp add: cp_dma_max_byte_count_def S_506_BYTE_COUNT_def S_415_BYTE_COUNT_def SI_CPDMA_ALIGNMENT_def)

lemma bit_raw_wait: "bit (S_506_RAW_WAIT b) n \<longleftrightarrow> b \<and> n = 30"
  unfolding S_506_RAW_WAIT_def
  by (cases b) (auto simp: bit_push_bit_iff bit_1_iff simp del: push_bit_of_1 push_bit_numeral)

lemma G_506_command:
  "n < 2 ^ 26 \<Longrightarrow> G_506_BYTE_COUNT (S_506_BYTE_COUNT n OR (if r then S_506_RAW_WAIT True else 0)) = n"
proof -
  assume n: "n < 2 ^ 26"
  have "(S_506_BYTE_COUNT n OR (if r then S_506_RAW_WAIT True else 0)) AND 0x3FFFFFF
      = word_of_nat n AND (mask 26 :: dword)"
    unfolding S_506_BYTE_COUNT_def dma_masks
    by (rule bit_word_eqI) (auto simp: bit_simps bit_raw_wait)
  then show ?thesis unfolding G_506_BYTE_COUNT_def by (simp only: unat_and_mask[OF n])
qed

lemma G_415_command:
  "n < 2 ^ 21 \<Longrightarrow> G_415_BYTE_COUNT (S_415_BYTE_COUNT n OR (if r then S_506_RAW_WAIT True else 0)) = n"
proof -
  assume n: "n < 2 ^ 21"
  have "(S_415_BYTE_COUNT n OR (if r then S_506_RAW_WAIT True else 0)) AND 0x1FFFFF
      = word_of_nat n AND (mask 21 :: dword)"
    unfolding S_415_BYTE_COUNT_def dma_masks
    by (rule bit_word_eqI) (auto simp: bit_simps bit_raw_wait)
  then show ?thesis unfolding G_415_BYTE_COUNT_def by (simp only: unat_and_mask[OF n])
qed

lemma raw_wait_bit:
  "bit ((if g then S_506_BYTE_COUNT n else S_415_BYTE_COUNT n) OR (if r then S_506_RAW_WAIT True else 0)) 30 = r"
  unfolding S_506_BYTE_COUNT_def S_415_BYTE_COUNT_def dma_masks
  by (auto simp: bit_simps bit_raw_wait)

definition dma_header :: "bool \<Rightarrow> bool \<Rightarrow> bool \<Rightarrow> dword" where
  "dma_header sync use_L2 clear = (if sync then S_501_CP_SYNC True else 0)
    OR (if use_L2 then S_501_DST_SEL V_501_DST_ADDR_USING_L2 else 0)
    OR (if clear then S_501_SRC_SEL V_501_DATA
        else if use_L2 then S_501_SRC_SEL V_501_SRC_ADDR_USING_L2 else 0)"

lemmas header_defs = dma_header_def S_501_CP_SYNC_def S_501_DST_SEL_def S_501_SRC_SEL_def
  V_501_DST_ADDR_USING_L2_def V_501_DATA_def V_501_SRC_ADDR_USING_L2_def

lemma dma_header_fields:
  "bit (dma_header sync l2 clear) 31 = sync"
  "G_501_SRC_SEL (dma_header sync l2 clear) = V_501_DATA \<longleftrightarrow> clear"
  "dma_header sync l2 clear AND 0xFFFF = 0"
  by (cases sync; cases l2; cases clear; simp add: header_defs G_501_SRC_SEL_def bit_iff_odd)+

lemma with_hi_fields:
  "bit (h OR S_412_SRC_ADDR_HI x) 31 = bit h 31"
  "G_501_SRC_SEL (h OR S_412_SRC_ADDR_HI x) = G_501_SRC_SEL h"
  "h AND 0xFFFF = 0 \<Longrightarrow> (h OR S_412_SRC_ADDR_HI x) AND 0xFFFF = word_of_nat x AND 0xFFFF"
proof -
  show "bit (h OR S_412_SRC_ADDR_HI x) 31 = bit h 31"
    unfolding S_412_SRC_ADDR_HI_def mask_numerals by (simp add: bit_simps)
  show "G_501_SRC_SEL (h OR S_412_SRC_ADDR_HI x) = G_501_SRC_SEL h"
    unfolding S_412_SRC_ADDR_HI_def G_501_SRC_SEL_def mask_numerals
    by (rule bit_word_eqI) (auto simp: bit_simps)
  show "(h OR S_412_SRC_ADDR_HI x) AND 0xFFFF = word_of_nat x AND 0xFFFF" if "h AND 0xFFFF = 0"
    using that unfolding S_412_SRC_ADDR_HI_def by (simp add: bit.conj_disj_distrib2)
qed

lemma cp_dma_packet_eq:
  "cp_dma_packet sctx d s n flags =
    (let h = dma_header (CP_DMA_SYNC \<in> flags \<and> is_gfx_queue sctx)
               (cp_dma_use_L2 sctx \<or> gfx_level sctx = GFX12) (CP_DMA_CLEAR \<in> flags);
         c = (if gfx_level sctx \<ge> GFX9 then S_506_BYTE_COUNT n else S_415_BYTE_COUNT n)
           OR (if CP_DMA_RAW_WAIT \<in> flags then S_506_RAW_WAIT True else 0)
     in if gfx_level sctx \<ge> GFX7 then
          [PKT3 PKT3_DMA_DATA 5 False, h, word_of_nat s, word_of_nat (s div 2 ^ 32),
           word_of_nat d, word_of_nat (d div 2 ^ 32), c]
        else
          [PKT3 PKT3_CP_DMA 4 False, word_of_nat s, h OR S_412_SRC_ADDR_HI (s div 2 ^ 32),
           word_of_nat d, word_of_nat (d div 2 ^ 32) AND 0xffff, c])"
  by (simp only: cp_dma_packet_def dma_header_def Let_def)

lemma max_byte_count_fits:
  "n \<le> cp_dma_max_byte_count level \<Longrightarrow> n < 2 ^ 26 \<and> (\<not> level \<ge> GFX9 \<longrightarrow> n < 2 ^ 21)"
  by (auto simp: cp_dma_max_byte_count_eq split: if_splits)

lemma read_dma_command:
  assumes "n \<le> cp_dma_max_byte_count level"
  shows "read_dma level h s d ((if level \<ge> GFX9 then S_506_BYTE_COUNT n else S_415_BYTE_COUNT n)
           OR (if r then S_506_RAW_WAIT True else 0)) =
    \<lparr> rq_dst = d, rq_src = s, rq_count = n, rq_data = (G_501_SRC_SEL h = V_501_DATA),
      rq_sync = bit h 31, rq_raw = r \<rparr>"
  unfolding read_dma_def raw_wait_bit
  using max_byte_count_fits[OF assms] G_506_command[of n r] G_415_command[of n r]
  by (cases "level \<ge> GFX9") (simp_all del: gfx_level_simps)

lemma low48:
  assumes "a < 2 ^ 48"
  shows "ac_ib_get64 (word_of_nat a) (word_of_nat (a div 2 ^ 32) AND 0xFFFF) = a"
proof -
  have b: "a div 2 ^ 32 < 2 ^ 16" using assms by (simp add: less_mult_imp_div_less)
  then have "(word_of_nat (a div 2 ^ 32) AND 0xFFFF :: dword) = word_of_nat (a div 2 ^ 32)"
    by (intro word_unat_eq_iff [THEN iffD2]) (simp add: unat_of_nat)
  then show ?thesis using ac_ib_get64_split[of a] assms by simp
qed

theorem decode_cp_dma_packet:
  assumes n: "n \<le> cp_dma_max_byte_count (gfx_level sctx)"
    and d: "d < address_limit (gfx_level sctx)" and s: "s < address_limit (gfx_level sctx)"
  shows "decode_dma (gfx_level sctx) (cp_dma_packet sctx d s n flags) =
    Some \<lparr> rq_dst = d, rq_src = s, rq_count = n, rq_data = (CP_DMA_CLEAR \<in> flags),
           rq_sync = (CP_DMA_SYNC \<in> flags \<and> is_gfx_queue sctx), rq_raw = (CP_DMA_RAW_WAIT \<in> flags) \<rparr>"
proof (cases "gfx_level sctx \<ge> GFX7")
  case True
  then have "d < 2 ^ 64" "s < 2 ^ 64" using d s by (simp_all add: address_limit_def)
  then show ?thesis
    using True unfolding cp_dma_packet_eq Let_def
    by (simp del: gfx_level_simps add: read_dma_command[OF n] ac_ib_get64_split[simplified] dma_header_fields)
next
  case False
  then have "d < 2 ^ 48" "s < 2 ^ 48" using d s by (simp_all add: address_limit_def)
  then show ?thesis
    using False False[unfolded not_le] unfolding cp_dma_packet_eq Let_def
    by (simp del: gfx_level_simps not_le add: read_dma_command[OF n] low48[simplified] dma_header_fields
        with_hi_fields)
qed

section \<open>The transfers of an operation\<close>

definition event_request :: "amd_gfx_level \<Rightarrow> cs_event \<Rightarrow> dma_request option" where
  "event_request level e = (case e of Emit p \<Rightarrow> decode_dma level p | _ \<Rightarrow> None)"

definition dma_requests :: "amd_gfx_level \<Rightarrow> cs_event list \<Rightarrow> dma_request list" where
  "dma_requests level evs = List.map_filter (event_request level) evs"

lemma dma_requests_simps [simp]:
  "dma_requests level [] = []"
  "dma_requests level (xs @ ys) = dma_requests level xs @ dma_requests level ys"
  "dma_requests level (e # xs) =
    (case event_request level e of None \<Rightarrow> [] | Some r \<Rightarrow> [r]) @ dma_requests level xs"
  by (induction xs) (simp_all add: dma_requests_def map_filter_simps split: option.split)

lemma event_request_simps [simp]:
  "event_request level NeedSpace = None" "event_request level (AddBuffer b w) = None"
  "event_request level EmitBarrier = None" "event_request level ToggleSecure = None"
  "event_request level (Emit p) = decode_dma level p"
  by (simp_all add: event_request_def)

definition prepare_events :: "nat \<Rightarrow> nat option \<Rightarrow> bool \<Rightarrow> cs_event list" where
  "prepare_events dst src is_first = [NeedSpace, AddBuffer dst True]
     @ (case src of None \<Rightarrow> [] | Some s \<Rightarrow> [AddBuffer s False])
     @ (if is_first then [EmitBarrier] else [])"

lemma dma_requests_prepare [simp]: "dma_requests level (prepare_events dst src is_first) = []"
  by (simp add: prepare_events_def split: option.split)

definition barrier_first :: "amd_gfx_level \<Rightarrow> cs_event list \<Rightarrow> bool" where
  "barrier_first level evs = (EmitBarrier \<in> set (takeWhile (\<lambda>e. event_request level e = None) evs))"

lemma barrier_first_append [simp]: "barrier_first level xs \<Longrightarrow> barrier_first level (xs @ ys)"
  unfolding barrier_first_def by (induction xs) (auto split: if_splits)

lemma barrier_first_prepare: "barrier_first level (prepare_events dst src True @ ys)"
  by (simp add: barrier_first_def prepare_events_def split: option.split)

text \<open>
  What a transfer of \<open>sz\<close> bytes is split into when a packet carries at most \<open>m\<close>: consecutive
  blocks, of which only the first waits for earlier writes and only the last synchronises.
\<close>

function dma_plan :: "nat \<Rightarrow> bool \<Rightarrow> bool \<Rightarrow> bool \<Rightarrow> nat \<Rightarrow> nat \<Rightarrow> nat \<Rightarrow> dma_request list" where
  "dma_plan m data raw sync d s sz =
    (if sz = 0 \<or> m = 0 then []
     else \<lparr> rq_dst = d, rq_src = s, rq_count = min sz m, rq_data = data,
            rq_sync = (sync \<and> sz \<le> m), rq_raw = raw \<rparr>
          # dma_plan m data False sync (d + min sz m) (if data then s else s + min sz m) (sz - min sz m))"
  by pat_completeness auto
termination
  by (relation "measure (\<lambda>(m, data, raw, sync, d, s, sz). sz)") auto

declare dma_plan.simps [simp del]

lemma max_byte_count_pos: "0 < cp_dma_max_byte_count level"
  by (simp add: cp_dma_max_byte_count_eq)

lemma max_byte_count_ge: "32736 \<le> cp_dma_max_byte_count level"
  by (simp add: cp_dma_max_byte_count_eq)

lemma prepare_and_emit_ok:
  assumes "has_cp_dma sctx" "n \<le> cp_dma_max_byte_count (gfx_level sctx)" "d \<noteq> 0"
    and "CP_DMA_CLEAR \<notin> fl \<longrightarrow> s \<noteq> 0"
    and "d < address_limit (gfx_level sctx)" "s < address_limit (gfx_level sctx)"
    and "CP_DMA_SYNC \<notin> fl" "CP_DMA_RAW_WAIT \<notin> fl"
  shows "\<exists>p. prepare_and_emit dst src n rem is_first fl d s sctx =
      Some (sctx\<lparr> gfx_cs := gfx_cs sctx @ prepare_events dst src is_first @ [Emit p] \<rparr>)
    \<and> decode_dma (gfx_level sctx) p =
      Some \<lparr> rq_dst = d, rq_src = s, rq_count = n, rq_data = (CP_DMA_CLEAR \<in> fl),
        rq_sync = (n = rem \<and> is_gfx_queue sctx), rq_raw = (is_first \<and> CP_DMA_CLEAR \<notin> fl) \<rparr>"
proof -
  define fl' where "fl' = snd (si_cp_dma_prepare dst src n rem is_first fl sctx)"
  have fl': "CP_DMA_CLEAR \<in> fl' \<longleftrightarrow> CP_DMA_CLEAR \<in> fl" "CP_DMA_SYNC \<in> fl' \<longleftrightarrow> n = rem"
    "CP_DMA_RAW_WAIT \<in> fl' \<longleftrightarrow> is_first \<and> CP_DMA_CLEAR \<notin> fl"
    using assms(7,8)
    by (auto simp: fl'_def si_cp_dma_prepare_def Let_def CP_DMA_CLEAR_def CP_DMA_SYNC_def CP_DMA_RAW_WAIT_def)
  define sctx1 where "sctx1 = sctx\<lparr> gfx_cs := gfx_cs sctx @ prepare_events dst src is_first \<rparr>"
  have prep: "si_cp_dma_prepare dst src n rem is_first fl sctx = (sctx1, fl')"
    by (simp add: fl'_def sctx1_def si_cp_dma_prepare_def Let_def prepare_events_def)
  have same: "gfx_level sctx1 = gfx_level sctx" "is_gfx_queue sctx1 = is_gfx_queue sctx"
    "has_cp_dma sctx1 = has_cp_dma sctx"
    by (simp_all add: sctx1_def)
  have "prepare_and_emit dst src n rem is_first fl d s sctx =
      Some (sctx1\<lparr> gfx_cs := gfx_cs sctx1 @ [Emit (cp_dma_packet sctx1 d s n fl')] \<rparr>)"
    using assms(1-4) unfolding prepare_and_emit_def prep si_emit_cp_dma_def emit_cp_dma_asserts_def
    by (simp del: gfx_level_simps add: same fl')
  moreover have "decode_dma (gfx_level sctx1) (cp_dma_packet sctx1 d s n fl') =
      Some \<lparr> rq_dst = d, rq_src = s, rq_count = n, rq_data = (CP_DMA_CLEAR \<in> fl),
        rq_sync = (n = rem \<and> is_gfx_queue sctx), rq_raw = (is_first \<and> CP_DMA_CLEAR \<notin> fl) \<rparr>"
    by (subst decode_cp_dma_packet) (use assms in \<open>simp_all add: same fl'\<close>)
  ultimately show ?thesis
    by (intro exI[of _ "cp_dma_packet sctx1 d s n fl'"]) (simp add: sctx1_def)
qed

lemma clear_loop_ok:
  assumes "has_cp_dma sctx" "va \<noteq> 0" "va + sz < address_limit (gfx_level sctx)"
    and "val < address_limit (gfx_level sctx)"
  shows "\<exists>evs. clear_loop dst val va sz is_first sctx = Some (sctx\<lparr> gfx_cs := gfx_cs sctx @ evs \<rparr>)
    \<and> dma_requests (gfx_level sctx) evs =
        dma_plan (cp_dma_max_byte_count (gfx_level sctx)) True False (is_gfx_queue sctx) va val sz
    \<and> (is_first \<and> 0 < sz \<longrightarrow> barrier_first (gfx_level sctx) evs)"
  using assms
proof (induction sz arbitrary: va is_first sctx rule: less_induct)
  case (less sz)
  let ?m = "cp_dma_max_byte_count (gfx_level sctx)"
  let ?n = "min sz ?m"
  show ?case
  proof (cases "sz = 0")
    case True
    then show ?thesis
      by (intro exI[of _ "[]"]) (simp add: clear_loop.simps dma_plan.simps)
  next
    case False
    then have n: "?n \<noteq> 0" "?n \<le> ?m" "?n \<le> sz"
      using max_byte_count_pos[of "gfx_level sctx"] by simp_all
    obtain p where p: "prepare_and_emit dst None ?n sz is_first {CP_DMA_CLEAR} va val sctx =
        Some (sctx\<lparr> gfx_cs := gfx_cs sctx @ prepare_events dst None is_first @ [Emit p] \<rparr>)"
      and dec: "decode_dma (gfx_level sctx) p =
        Some \<lparr> rq_dst = va, rq_src = val, rq_count = ?n, rq_data = True,
          rq_sync = (?n = sz \<and> is_gfx_queue sctx), rq_raw = False \<rparr>"
      using prepare_and_emit_ok[of sctx ?n va "{CP_DMA_CLEAR}" val dst None sz is_first] less.prems False
      by (auto simp: CP_DMA_CLEAR_def CP_DMA_SYNC_def CP_DMA_RAW_WAIT_def simp del: gfx_level_simps)
    define sctx1 where
      "sctx1 = sctx\<lparr> gfx_cs := gfx_cs sctx @ prepare_events dst None is_first @ [Emit p] \<rparr>"
    have same: "gfx_level sctx1 = gfx_level sctx" "is_gfx_queue sctx1 = is_gfx_queue sctx"
      "has_cp_dma sctx1 = has_cp_dma sctx"
      by (simp_all add: sctx1_def)
    have lim: "address_limit (gfx_level sctx) \<le> 2 ^ 64" by (simp add: address_limit_def)
    have step: "clear_loop dst val va sz is_first sctx =
        clear_loop dst val (u64 (va + ?n)) (sz - ?n) False sctx1"
      using False n(1) by (subst clear_loop.simps)
        (simp only: p Let_def if_False bind.bind_lunit sctx1_def[symmetric])
    have u: "u64 (va + ?n) = va + ?n" using less.prems(3) lim n(3)
      by (intro u64_id) linarith
    obtain evs where evs: "clear_loop dst val (va + ?n) (sz - ?n) False sctx1 =
          Some (sctx1\<lparr> gfx_cs := gfx_cs sctx1 @ evs \<rparr>)"
        "dma_requests (gfx_level sctx1) evs =
          dma_plan (cp_dma_max_byte_count (gfx_level sctx1)) True False (is_gfx_queue sctx1) (va + ?n) val (sz - ?n)"
      using less.IH[of "sz - ?n" sctx1 "va + ?n" False] less.prems n False by (auto simp: same)
    show ?thesis
      unfolding step u using evs dec n(1)
      by (intro exI[of _ "prepare_events dst None is_first @ [Emit p] @ evs"])
        (auto simp: dma_plan.simps[of _ _ _ _ _ _ sz] same sctx1_def barrier_first_prepare simp del: gfx_level_simps)
  qed
qed

lemma last_copy_packet:
  assumes "0 < sz" "sz < 2 ^ 32" "extra < 64"
  shows "min sz (cp_dma_max_byte_count level) = u32 (sz + extra)
    \<longleftrightarrow> extra = 0 \<and> sz \<le> cp_dma_max_byte_count level"
proof (cases "sz + extra < 2 ^ 32")
  case True
  then have "u32 (sz + extra) = sz + extra" by (rule u32_id)
  then show ?thesis using assms max_byte_count_pos[of level] by (auto simp: min_def)
next
  case False
  then have "u32 (sz + extra) < 64" unfolding u32_def using assms
    by (subst mod_if) (simp add: le_mod_geq)
  moreover have "cp_dma_max_byte_count level < sz"
    using False assms by (auto simp: cp_dma_max_byte_count_eq)
  ultimately show ?thesis using max_byte_count_ge[of level] by linarith
qed

lemma copy_loop_ok:
  assumes "has_cp_dma sctx" "d \<noteq> 0" "s \<noteq> 0" "sz < 2 ^ 32" "extra < 64"
    and "d + sz < address_limit (gfx_level sctx)" "s + sz < address_limit (gfx_level sctx)"
  shows "\<exists>evs. copy_loop dst src extra d s sz is_first sctx =
        Some (sctx\<lparr> gfx_cs := gfx_cs sctx @ evs \<rparr>, is_first \<and> sz = 0)
    \<and> dma_requests (gfx_level sctx) evs =
        dma_plan (cp_dma_max_byte_count (gfx_level sctx)) False is_first (extra = 0 \<and> is_gfx_queue sctx) d s sz
    \<and> (is_first \<and> 0 < sz \<longrightarrow> barrier_first (gfx_level sctx) evs)"
  using assms
proof (induction sz arbitrary: d s is_first sctx rule: less_induct)
  case (less sz)
  let ?m = "cp_dma_max_byte_count (gfx_level sctx)"
  let ?n = "min sz ?m"
  show ?case
  proof (cases "sz = 0")
    case True
    then show ?thesis
      by (intro exI[of _ "[]"]) (simp add: copy_loop.simps dma_plan.simps)
  next
    case False
    then have n: "?n \<noteq> 0" "?n \<le> ?m" "?n \<le> sz"
      using max_byte_count_pos[of "gfx_level sctx"] by simp_all
    obtain p where p: "prepare_and_emit dst (Some src) ?n (u32 (sz + extra)) is_first {} d s sctx =
        Some (sctx\<lparr> gfx_cs := gfx_cs sctx @ prepare_events dst (Some src) is_first @ [Emit p] \<rparr>)"
      and dec: "decode_dma (gfx_level sctx) p =
        Some \<lparr> rq_dst = d, rq_src = s, rq_count = ?n, rq_data = False,
          rq_sync = (?n = u32 (sz + extra) \<and> is_gfx_queue sctx), rq_raw = is_first \<rparr>"
      using prepare_and_emit_ok[of sctx ?n d "{}" s dst "Some src" "u32 (sz + extra)" is_first] less.prems False
      by (auto simp del: gfx_level_simps)
    define sctx1 where
      "sctx1 = sctx\<lparr> gfx_cs := gfx_cs sctx @ prepare_events dst (Some src) is_first @ [Emit p] \<rparr>"
    have same: "gfx_level sctx1 = gfx_level sctx" "is_gfx_queue sctx1 = is_gfx_queue sctx"
      "has_cp_dma sctx1 = has_cp_dma sctx"
      by (simp_all add: sctx1_def)
    have lim: "address_limit (gfx_level sctx) \<le> 2 ^ 64" by (simp add: address_limit_def)
    have step: "copy_loop dst src extra d s sz is_first sctx =
        copy_loop dst src extra (u64 (d + ?n)) (u64 (s + ?n)) (sz - ?n) False sctx1"
      using False n(1) by (subst copy_loop.simps)
        (simp only: p Let_def if_False bind.bind_lunit sctx1_def[symmetric])
    have u: "u64 (d + ?n) = d + ?n" "u64 (s + ?n) = s + ?n"
      using less.prems(6,7) lim n(3) by (auto intro!: u64_id)
    have sync: "?n = u32 (sz + extra) \<longleftrightarrow> extra = 0 \<and> sz \<le> ?m"
      by (rule last_copy_packet) (use False less.prems in auto)
    obtain evs where evs: "copy_loop dst src extra (d + ?n) (s + ?n) (sz - ?n) False sctx1 =
          Some (sctx1\<lparr> gfx_cs := gfx_cs sctx1 @ evs \<rparr>, False)"
        "dma_requests (gfx_level sctx) evs =
          dma_plan ?m False False (extra = 0 \<and> is_gfx_queue sctx) (d + ?n) (s + ?n) (sz - ?n)"
      using less.IH[of "sz - ?n" sctx1 "d + ?n" "s + ?n" False] less.prems n False
        less_imp_diff_less[OF less.prems(4), of ?n] by (auto simp: same)
    show ?thesis
      unfolding step u using evs dec n(1) False
      by (intro exI[of _ "prepare_events dst (Some src) is_first @ [Emit p] @ evs"])
        (auto simp: dma_plan.simps[of _ _ _ _ _ _ sz] sync sctx1_def barrier_first_prepare
          simp del: gfx_level_simps)
  qed
qed

section \<open>What the transfers move\<close>

definition dma_span :: "bool \<Rightarrow> nat \<Rightarrow> nat \<Rightarrow> nat \<Rightarrow> (nat \<times> nat) list" where
  "dma_span data d s n = map (\<lambda>i. (d + i, if data then s else s + i)) [0..<n]"

definition rq_moves :: "dma_request \<Rightarrow> (nat \<times> nat) list" where
  "rq_moves r = dma_span (rq_data r) (rq_dst r) (rq_src r) (rq_count r)"

definition moves :: "dma_request list \<Rightarrow> (nat \<times> nat) list" where
  "moves rs = concat (map rq_moves rs)"

lemma moves_simps [simp]:
  "moves [] = []" "moves (xs @ ys) = moves xs @ moves ys" "moves (r # rs) = rq_moves r @ moves rs"
  by (simp_all add: moves_def)

lemma dma_span_split:
  "dma_span data d s (a + b) = dma_span data d s a @ dma_span data (d + a) (if data then s else s + a) b"
proof -
  have "[0..<a + b] = [0..<a] @ map (\<lambda>i. a + i) [0..<b]"
    by (intro nth_equalityI) (auto simp: nth_append)
  then show ?thesis by (simp add: dma_span_def ac_simps)
qed

lemma dma_plan_moves:
  "0 < m \<Longrightarrow> moves (dma_plan m data raw sync d s sz) = dma_span data d s sz"
proof (induction m data raw sync d s sz rule: dma_plan.induct)
  case (1 m data raw sync d s sz)
  show ?case
  proof (cases "sz = 0")
    case True
    then show ?thesis by (simp add: dma_plan.simps dma_span_def)
  next
    case False
    with 1 show ?thesis
      using dma_span_split[of data d s "min sz m" "sz - min sz m"]
      by (subst dma_plan.simps) (simp add: rq_moves_def)
  qed
qed

lemma dma_plan_small:
  assumes "0 < n" "n \<le> m"
  shows "dma_plan m data raw sync d s n =
    [\<lparr> rq_dst = d, rq_src = s, rq_count = n, rq_data = data, rq_sync = sync, rq_raw = raw \<rparr>]"
  using assms by (simp add: dma_plan.simps[of _ _ _ _ _ _ n] dma_plan.simps[of _ _ _ _ _ _ 0])

lemma dma_plan_nonempty: "0 < m \<Longrightarrow> 0 < sz \<Longrightarrow> dma_plan m data raw sync d s sz \<noteq> []"
  by (simp add: dma_plan.simps)

lemma dma_plan_data: "r \<in> set (dma_plan m data raw sync d s sz) \<Longrightarrow> rq_data r = data"
proof (induction m data raw sync d s sz rule: dma_plan.induct)
  case (1 m data raw sync d s sz)
  then show ?case
    by (subst (asm) (2) dma_plan.simps) (auto split: if_splits)
qed

definition sync_at_end :: "bool \<Rightarrow> dma_request list \<Rightarrow> bool" where
  "sync_at_end v rs \<longleftrightarrow> rs \<noteq> [] \<and> list_all (\<lambda>r. \<not> rq_sync r) (butlast rs) \<and> rq_sync (last rs) = v"

definition raw_at_start :: "dma_request list \<Rightarrow> bool" where
  "raw_at_start rs \<longleftrightarrow> rs \<noteq> [] \<and> rq_raw (hd rs) \<and> list_all (\<lambda>r. \<not> rq_raw r) (tl rs)"

lemma sync_at_end_append:
  "list_all (\<lambda>r. \<not> rq_sync r) xs \<Longrightarrow> sync_at_end v ys \<Longrightarrow> sync_at_end v (xs @ ys)"
  by (auto simp: sync_at_end_def butlast_append)

lemma raw_at_start_append:
  "raw_at_start xs \<Longrightarrow> list_all (\<lambda>r. \<not> rq_raw r) ys \<Longrightarrow> raw_at_start (xs @ ys)"
  by (auto simp: raw_at_start_def)

lemma sync_at_end_False: "sync_at_end False rs \<Longrightarrow> list_all (\<lambda>r. \<not> rq_sync r) rs"
  by (cases rs rule: rev_cases) (auto simp: sync_at_end_def)

lemma dma_plan_sync:
  "0 < m \<Longrightarrow> 0 < sz \<Longrightarrow> sync_at_end sync (dma_plan m data raw sync d s sz)"
proof (induction m data raw sync d s sz rule: dma_plan.induct)
  case (1 m data raw sync d s sz)
  show ?case
  proof (cases "sz \<le> m")
    case True
    with 1 show ?thesis by (simp add: dma_plan_small sync_at_end_def)
  next
    case False
    then have n: "min sz m = m" by simp
    define rest where "rest = dma_plan m data False sync (d + m) (if data then s else s + m) (sz - m)"
    have "sync_at_end sync rest"
      using 1(1)[unfolded n rest_def[symmetric]] 1(2,3) False by simp
    moreover have "\<exists>r. dma_plan m data raw sync d s sz = [r] @ rest \<and> \<not> rq_sync r"
      using False 1(2,3) unfolding rest_def by (subst dma_plan.simps) (simp add: n)
    then obtain r where "dma_plan m data raw sync d s sz = [r] @ rest" "\<not> rq_sync r" by blast
    ultimately show ?thesis using sync_at_end_append[of "[r]" sync rest] by simp
  qed
qed

lemma dma_plan_no_sync: "0 < m \<Longrightarrow> list_all (\<lambda>r. \<not> rq_sync r) (dma_plan m data raw False d s sz)"
  using sync_at_end_False[OF dma_plan_sync] by (cases "sz = 0") (auto simp: dma_plan.simps[of _ _ _ _ _ _ 0])

lemma dma_plan_no_raw: "list_all (\<lambda>r. \<not> rq_raw r) (dma_plan m data False sync d s sz)"
proof (induction m data "False" sync d s sz rule: dma_plan.induct)
  case (1 m data sync d s sz)
  then show ?case by (subst dma_plan.simps) auto
qed

lemma dma_plan_raw: "0 < m \<Longrightarrow> 0 < sz \<Longrightarrow> raw_at_start (dma_plan m data True sync d s sz)"
  using dma_plan_no_raw[of m data sync "d + min sz m" "if data then s else s + min sz m" "sz - min sz m"]
  by (subst dma_plan.simps) (simp only: raw_at_start_def, simp split del: if_split)

section \<open>Copies\<close>

definition copy_pre :: "si_context \<Rightarrow> si_resource \<Rightarrow> si_resource \<Rightarrow> nat \<Rightarrow> nat \<Rightarrow> nat \<Rightarrow> bool" where
  "copy_pre sctx dst src dst_offset src_offset sz \<longleftrightarrow>
    has_cp_dma sctx \<and> 0 < sz \<and> sz < 2 ^ 32
    \<and> (uses_secure_bos sctx \<and> encrypted src \<longrightarrow> encrypted dst)
    \<and> gpu_address dst \<noteq> 0 \<and> gpu_address src \<noteq> 0
    \<and> gpu_address dst + dst_offset + sz < address_limit (gfx_level sctx)
    \<and> gpu_address src + src_offset + sz < address_limit (gfx_level sctx)"

definition realign_scratch :: "si_resource option \<Rightarrow> si_context \<Rightarrow> si_resource option" where
  "realign_scratch new sctx = scratch_buffer (scratch_for_realign new sctx)"

definition scratch_pre :: "si_resource option \<Rightarrow> si_context \<Rightarrow> bool" where
  "scratch_pre new sctx \<longleftrightarrow> (case realign_scratch new sctx of None \<Rightarrow> True
     | Some b \<Rightarrow> gpu_address b \<noteq> 0
         \<and> gpu_address b + 2 * SI_CPDMA_ALIGNMENT < address_limit (gfx_level sctx))"

definition realign_requests :: "si_resource option \<Rightarrow> si_context \<Rightarrow> nat \<Rightarrow> dma_request list" where
  "realign_requests new sctx n = (case realign_scratch new sctx of None \<Rightarrow> []
     | Some b \<Rightarrow> dma_plan (cp_dma_max_byte_count (gfx_level sctx)) False False (is_gfx_queue sctx)
         (gpu_address b) (gpu_address b + SI_CPDMA_ALIGNMENT) n)"

lemma copy_sizes:
  "copy_realign_size sctx sz < SI_CPDMA_ALIGNMENT"
  "copy_skipped_size sctx src_va sz < SI_CPDMA_ALIGNMENT"
  "copy_skipped_size sctx src_va sz \<le> sz"
  unfolding copy_realign_size_def copy_skipped_size_def SI_CPDMA_ALIGNMENT_def by auto

lemma alignment_le_max: "n < SI_CPDMA_ALIGNMENT \<Longrightarrow> n \<le> cp_dma_max_byte_count level"
  using max_byte_count_ge[of level] by (simp add: SI_CPDMA_ALIGNMENT_def)

lemma copy_skipped_ok:
  assumes "has_cp_dma sctx" "d \<noteq> 0" "s \<noteq> 0" "n < SI_CPDMA_ALIGNMENT"
    and "d + n < address_limit (gfx_level sctx)" "s + n < address_limit (gfx_level sctx)"
  shows "\<exists>evs. copy_skipped dst src d s n realign is_first sctx =
        Some (sctx\<lparr> gfx_cs := gfx_cs sctx @ evs \<rparr>, is_first \<and> n = 0)
    \<and> dma_requests (gfx_level sctx) evs =
        dma_plan (cp_dma_max_byte_count (gfx_level sctx)) False is_first (realign = 0 \<and> is_gfx_queue sctx) d s n
    \<and> (is_first \<and> 0 < n \<longrightarrow> barrier_first (gfx_level sctx) evs)"
proof (cases "n = 0")
  case True
  then show ?thesis
    by (intro exI[of _ "[]"]) (simp add: copy_skipped_def dma_plan.simps)
next
  case False
  have n: "n \<le> cp_dma_max_byte_count (gfx_level sctx)" using assms(4) by (rule alignment_le_max)
  obtain p where "prepare_and_emit (res_id dst) (Some (res_id src)) n (n + realign) is_first {} d s sctx =
      Some (sctx\<lparr> gfx_cs := gfx_cs sctx @ prepare_events (res_id dst) (Some (res_id src)) is_first @ [Emit p] \<rparr>)"
    "decode_dma (gfx_level sctx) p = Some \<lparr> rq_dst = d, rq_src = s, rq_count = n, rq_data = False,
          rq_sync = (n = n + realign \<and> is_gfx_queue sctx), rq_raw = is_first \<rparr>"
    using prepare_and_emit_ok[of sctx n d "{}" s "res_id dst" "Some (res_id src)" "n + realign" is_first] assms n
    by (auto simp del: gfx_level_simps)
  then show ?thesis
    using False n by (intro exI[of _ "prepare_events (res_id dst) (Some (res_id src)) is_first @ [Emit p]"])
      (auto simp: copy_skipped_def dma_plan_small barrier_first_prepare simp del: gfx_level_simps)
qed

lemma realign_engine_ok:
  assumes "has_cp_dma sctx" "scratch_pre new sctx" "0 < n" "n < SI_CPDMA_ALIGNMENT"
  shows "\<exists>evs s'. si_cp_dma_realign_engine new n False sctx = Some s' \<and> gfx_cs s' = gfx_cs sctx @ evs
    \<and> dma_requests (gfx_level sctx) evs = realign_requests new sctx n"
proof (cases "realign_scratch new sctx")
  case None
  then show ?thesis using assms(4)
    by (intro exI[of _ "[]"])
      (auto simp: si_cp_dma_realign_engine_def realign_requests_def realign_scratch_def scratch_for_realign_def
        Let_def split: option.splits if_splits)
next
  case (Some b)
  define sctx1 where "sctx1 = scratch_for_realign new sctx"
  have same: "gfx_level sctx1 = gfx_level sctx" "is_gfx_queue sctx1 = is_gfx_queue sctx"
    "has_cp_dma sctx1 = has_cp_dma sctx" "gfx_cs sctx1 = gfx_cs sctx" "scratch_buffer sctx1 = Some b"
    using Some by (simp_all add: sctx1_def scratch_for_realign_def realign_scratch_def Let_def)
  have b: "gpu_address b \<noteq> 0" "gpu_address b + 2 * SI_CPDMA_ALIGNMENT < address_limit (gfx_level sctx)"
    using assms(2) Some by (simp_all add: scratch_pre_def)
  have "address_limit (gfx_level sctx) \<le> 2 ^ 64" by (simp add: address_limit_def)
  then have u: "u64 (gpu_address b + SI_CPDMA_ALIGNMENT) = gpu_address b + SI_CPDMA_ALIGNMENT"
    using b(2) by (intro u64_id) linarith
  have n: "n \<le> cp_dma_max_byte_count (gfx_level sctx)" using assms(4) by (rule alignment_le_max)
  obtain p where "prepare_and_emit (res_id b) (Some (res_id b)) n n False {} (gpu_address b)
        (gpu_address b + SI_CPDMA_ALIGNMENT) sctx1 =
      Some (sctx1\<lparr> gfx_cs := gfx_cs sctx1 @ prepare_events (res_id b) (Some (res_id b)) False @ [Emit p] \<rparr>)"
    "decode_dma (gfx_level sctx) p = Some \<lparr> rq_dst = gpu_address b, rq_src = gpu_address b + SI_CPDMA_ALIGNMENT,
        rq_count = n, rq_data = False, rq_sync = is_gfx_queue sctx, rq_raw = False \<rparr>"
    using prepare_and_emit_ok[of sctx1 n "gpu_address b" "{}" "gpu_address b + SI_CPDMA_ALIGNMENT" "res_id b"
        "Some (res_id b)" n False] assms(1) n b
    by (auto simp: same simp del: gfx_level_simps)
  then show ?thesis
    using assms(3,4) n Some unfolding si_cp_dma_realign_engine_def sctx1_def[symmetric] Let_def
    by (auto simp: same u realign_requests_def dma_plan_small simp del: gfx_level_simps)
qed

definition copy_plan ::
  "si_context \<Rightarrow> nat \<Rightarrow> nat \<Rightarrow> nat \<Rightarrow> si_resource option \<Rightarrow> dma_request list" where
  "copy_plan sctx d s sz new =
    (let m = cp_dma_max_byte_count (gfx_level sctx); q = is_gfx_queue sctx;
         sk = copy_skipped_size sctx s sz; re = copy_realign_size sctx sz
     in dma_plan m False True (sk + re = 0 \<and> q) (d + sk) (s + sk) (sz - sk)
        @ dma_plan m False (sk = sz) (re = 0 \<and> q) d s sk
        @ (if re = 0 then [] else realign_requests new sctx re))"

definition copy_start :: "si_resource \<Rightarrow> si_context \<Rightarrow> si_context" where
  "copy_start src sctx =
    tmz_flush src (if \<not> cp_dma_use_L2 sctx then sctx\<lparr> inv_L2 := True \<rparr> else sctx)"

lemma copy_start_same:
  "gfx_level (copy_start src sctx) = gfx_level sctx"
  "is_gfx_queue (copy_start src sctx) = is_gfx_queue sctx"
  "has_cp_dma (copy_start src sctx) = has_cp_dma sctx"
  "scratch_buffer (copy_start src sctx) = scratch_buffer sctx"
  "\<exists>evs. gfx_cs (copy_start src sctx) = gfx_cs sctx @ evs \<and> dma_requests level evs = []"
  by (auto simp: copy_start_def tmz_flush_def)

lemma scratch_cong:
  "scratch_buffer s1 = scratch_buffer s2 \<Longrightarrow> realign_scratch new s1 = realign_scratch new s2"
  by (simp add: realign_scratch_def scratch_for_realign_def Let_def split: option.split)

lemma realign_cong:
  assumes "scratch_buffer s1 = scratch_buffer s2" "gfx_level s1 = gfx_level s2" "is_gfx_queue s1 = is_gfx_queue s2"
  shows "realign_requests new s1 n = realign_requests new s2 n" "scratch_pre new s1 = scratch_pre new s2"
  unfolding realign_requests_def scratch_pre_def scratch_cong[OF assms(1), of new] assms(2,3)
  by (rule refl)+

lemma barrier_first_prefix:
  "dma_requests level xs = [] \<Longrightarrow> barrier_first level ys \<Longrightarrow> barrier_first level (xs @ ys)"
  unfolding barrier_first_def by (induction xs) (auto split: option.splits)

lemma copy_body_ok:
  assumes "has_cp_dma sctx" "d \<noteq> 0" "s \<noteq> 0" "0 < sz" "sz < 2 ^ 32" "sk \<le> sz"
    and "sk < SI_CPDMA_ALIGNMENT" "re < SI_CPDMA_ALIGNMENT"
    and "d + sz < address_limit (gfx_level sctx)" "s + sz < address_limit (gfx_level sctx)"
  shows "\<exists>evs. Option.bind (copy_loop (res_id dst) (res_id src) (sk + re) (d + sk) (s + sk) (sz - sk) True sctx)
        (\<lambda>(s3, is_first). copy_skipped dst src d s sk re is_first s3) =
      Some (sctx\<lparr> gfx_cs := gfx_cs sctx @ evs \<rparr>, False)
    \<and> dma_requests (gfx_level sctx) evs =
        dma_plan (cp_dma_max_byte_count (gfx_level sctx)) False True (sk + re = 0 \<and> is_gfx_queue sctx)
          (d + sk) (s + sk) (sz - sk)
        @ dma_plan (cp_dma_max_byte_count (gfx_level sctx)) False (sk = sz) (re = 0 \<and> is_gfx_queue sctx) d s sk
    \<and> barrier_first (gfx_level sctx) evs"
proof -
  let ?l = "gfx_level sctx"
  have ext: "sk + re < 64" using assms(7,8) by (simp add: SI_CPDMA_ALIGNMENT_def)
  obtain ev1 where ev1: "copy_loop (res_id dst) (res_id src) (sk + re) (d + sk) (s + sk) (sz - sk) True sctx =
        Some (sctx\<lparr> gfx_cs := gfx_cs sctx @ ev1 \<rparr>, sz - sk = 0)"
      "dma_requests ?l ev1 = dma_plan (cp_dma_max_byte_count ?l) False True (sk + re = 0 \<and> is_gfx_queue sctx)
        (d + sk) (s + sk) (sz - sk)"
      "0 < sz - sk \<Longrightarrow> barrier_first ?l ev1"
    using copy_loop_ok[of sctx "d + sk" "s + sk" "sz - sk" "sk + re" "res_id dst" "res_id src" True]
      assms ext less_imp_diff_less[OF assms(5), of sk] by auto
  define sctx3 where "sctx3 = sctx\<lparr> gfx_cs := gfx_cs sctx @ ev1 \<rparr>"
  have same3: "gfx_level sctx3 = ?l" "is_gfx_queue sctx3 = is_gfx_queue sctx" "has_cp_dma sctx3"
    using assms(1) by (simp_all add: sctx3_def)
  have nf: "(sz - sk = 0 \<and> sk = 0) = False" using assms(4) by simp
  obtain ev2 where ev2: "copy_skipped dst src d s sk re (sz - sk = 0) sctx3 =
        Some (sctx3\<lparr> gfx_cs := gfx_cs sctx3 @ ev2 \<rparr>, False)"
      "dma_requests ?l ev2 = dma_plan (cp_dma_max_byte_count ?l) False (sz - sk = 0) (re = 0 \<and> is_gfx_queue sctx) d s sk"
      "sz - sk = 0 \<and> 0 < sk \<Longrightarrow> barrier_first ?l ev2"
    using copy_skipped_ok[of sctx3 d s sk dst src re "sz - sk = 0", unfolded nf same3] assms same3 by auto
  have eq: "(sz - sk = 0) = (sk = sz)" using assms(6) by auto
  have barrier: "barrier_first ?l (ev1 @ ev2)"
  proof (cases "sk = sz")
    case True
    then show ?thesis
      using ev1(2) ev2(3) assms(4) by (intro barrier_first_prefix) (simp_all add: dma_plan.simps)
  next
    case False
    then show ?thesis using ev1(3) assms(6) by (intro barrier_first_append) auto
  qed
  show ?thesis
    by (rule exI[of _ "ev1 @ ev2"])
      (use ev1(1,2)[unfolded eq] ev2(1,2)[unfolded eq] barrier in \<open>simp add: sctx3_def\<close>)
qed

lemma copy_buffer_events:
  assumes pre: "copy_pre sctx dst src dst_offset src_offset sz" and scratch: "scratch_pre new sctx"
  shows "\<exists>evs s' d'. si_cp_dma_copy_buffer sctx dst src dst_offset src_offset sz new = Some (s', d')
    \<and> gfx_cs s' = gfx_cs sctx @ evs
    \<and> dma_requests (gfx_level sctx) evs =
        copy_plan sctx (gpu_address dst + dst_offset) (gpu_address src + src_offset) sz new
    \<and> barrier_first (gfx_level sctx) evs"
proof -
  let ?l = "gfx_level sctx"
  define d s where "d = gpu_address dst + dst_offset" and "s = gpu_address src + src_offset"
  define re sk where "re = copy_realign_size sctx sz" and "sk = copy_skipped_size sctx s sz"
  define sctx2 where "sctx2 = copy_start src sctx"
  have same: "gfx_level sctx2 = ?l" "is_gfx_queue sctx2 = is_gfx_queue sctx" "has_cp_dma sctx2"
      "scratch_buffer sctx2 = scratch_buffer sctx"
    using pre by (simp_all add: sctx2_def copy_start_same copy_pre_def)
  obtain ev0 where ev0: "gfx_cs sctx2 = gfx_cs sctx @ ev0" "dma_requests ?l ev0 = []"
    using copy_start_same(5)[of src sctx ?l] unfolding sctx2_def by blast
  have lim: "address_limit ?l \<le> 2 ^ 64" by (simp add: address_limit_def)
  have ds: "d \<noteq> 0" "s \<noteq> 0" "d + sz < address_limit ?l" "s + sz < address_limit ?l" "0 < sz" "sz < 2 ^ 32"
    using pre by (simp_all add: copy_pre_def d_def s_def)
  have sizes: "re < SI_CPDMA_ALIGNMENT" "sk < SI_CPDMA_ALIGNMENT" "sk \<le> sz"
    unfolding re_def sk_def by (rule copy_sizes)+
  have u: "u64 (dst_offset + gpu_address dst) = d" "u64 (src_offset + gpu_address src) = s"
    "u64 (d + sk) = d + sk" "u64 (s + sk) = s + sk"
    using ds lim sizes(3) by (auto intro!: u64_id simp: d_def s_def add.commute)
  obtain ev1 where ev1: "Option.bind (copy_loop (res_id dst) (res_id src) (sk + re) (d + sk) (s + sk) (sz - sk) True sctx2)
        (\<lambda>(s3, is_first). copy_skipped dst src d s sk re is_first s3) =
        Some (sctx2\<lparr> gfx_cs := gfx_cs sctx2 @ ev1 \<rparr>, False)"
      "dma_requests ?l ev1 = dma_plan (cp_dma_max_byte_count ?l) False True (sk + re = 0 \<and> is_gfx_queue sctx)
          (d + sk) (s + sk) (sz - sk)
        @ dma_plan (cp_dma_max_byte_count ?l) False (sk = sz) (re = 0 \<and> is_gfx_queue sctx) d s sk"
      "barrier_first ?l ev1"
    using copy_body_ok[of sctx2 d s sz sk re dst src] ds sizes same by auto
  define sctx4 where "sctx4 = sctx2\<lparr> gfx_cs := gfx_cs sctx2 @ ev1 \<rparr>"
  have same4: "gfx_level sctx4 = ?l" "is_gfx_queue sctx4 = is_gfx_queue sctx" "has_cp_dma sctx4"
      "scratch_buffer sctx4 = scratch_buffer sctx"
    using same by (simp_all add: sctx4_def)
  obtain ev3 s5 where ev3: "(if re \<noteq> 0 then si_cp_dma_realign_engine new re False sctx4 else Some sctx4) = Some s5"
      "gfx_cs s5 = gfx_cs sctx4 @ ev3" "dma_requests ?l ev3 = (if re = 0 then [] else realign_requests new sctx re)"
    using realign_engine_ok[of sctx4 new re] scratch sizes(1) same4 realign_cong[of sctx4 sctx new]
    by (cases "re = 0") auto
  define d1 where
    "d1 = dst\<lparr> valid_buffer_range := util_range_add dst_offset (dst_offset + sz) (valid_buffer_range dst) \<rparr>"
  have asserts: "(sz = 0 \<or> uses_secure_bos sctx \<and> encrypted src \<and> \<not> encrypted dst) = False"
    using pre by (auto simp: copy_pre_def)
  obtain a b where ab: "copy_loop (res_id dst) (res_id src) (sk + re) (d + sk) (s + sk) (sz - sk) True sctx2 = Some (a, b)"
      "copy_skipped dst src d s sk re b a = Some (sctx4, False)"
    using ev1(1) by (auto simp: sctx4_def bind_eq_Some_conv)
  have run: "si_cp_dma_copy_buffer sctx dst src dst_offset src_offset sz new =
      Some (s5\<lparr> num_cp_dma_calls := num_cp_dma_calls s5 + 1 \<rparr>, d1)"
    unfolding si_cp_dma_copy_buffer_def Let_def u d1_def[symmetric] asserts
    unfolding re_def[symmetric] sk_def[symmetric] copy_start_def[symmetric] sctx2_def[symmetric] u
    by (simp only: ab ev3(1) bind.bind_lunit prod.case if_False)
  have "barrier_first ?l (ev0 @ ev1 @ ev3)"
    using ev0(2) ev1(3) by (intro barrier_first_prefix barrier_first_append)
  then show ?thesis
    unfolding run using ev0 ev1(2) ev3(2,3)
    unfolding copy_plan_def Let_def d_def[symmetric] s_def[symmetric] sk_def[symmetric] re_def[symmetric]
    by (auto simp: sctx4_def intro!: exI[of _ "ev0 @ ev1 @ ev3"])
qed

lemma dma_span_mset_split:
  "sk \<le> sz \<Longrightarrow> mset (dma_span False (d + sk) (s + sk) (sz - sk)) + mset (dma_span False d s sk) = mset (dma_span False d s sz)"
  using dma_span_split[of False d s sk "sz - sk"] by simp

lemma realign_moves:
  "moves (realign_requests new sctx n) = (case realign_scratch new sctx of None \<Rightarrow> []
     | Some b \<Rightarrow> dma_span False (gpu_address b) (gpu_address b + SI_CPDMA_ALIGNMENT) n)"
  by (simp add: realign_requests_def dma_plan_moves max_byte_count_pos split: option.split)

lemma dma_span_zero [simp]: "dma_span data d s 0 = []"
  by (simp add: dma_span_def)

lemma copy_plan_moves:
  "mset (moves (copy_plan sctx d s sz new)) = mset (dma_span False d s sz)
    + (case realign_scratch new sctx of None \<Rightarrow> {#}
       | Some b \<Rightarrow> mset (dma_span False (gpu_address b) (gpu_address b + SI_CPDMA_ALIGNMENT) (copy_realign_size sctx sz)))"
  using dma_span_mset_split[OF copy_sizes(3)[of sctx s sz], of d s]
  by (simp add: copy_plan_def Let_def dma_plan_moves max_byte_count_pos realign_moves add.assoc[symmetric]
      split: option.split)

lemma realign_sync:
  assumes "realign_scratch new sctx \<noteq> None" "0 < n"
  shows "sync_at_end (is_gfx_queue sctx) (realign_requests new sctx n)"
  using assms dma_plan_sync[OF max_byte_count_pos] by (auto simp: realign_requests_def)

lemma copy_plan_sync:
  assumes "0 < sz" "copy_realign_size sctx sz \<noteq> 0 \<longrightarrow> realign_scratch new sctx \<noteq> None"
  shows "sync_at_end (is_gfx_queue sctx) (copy_plan sctx d s sz new)"
proof (cases "copy_realign_size sctx sz = 0")
  case True
  show ?thesis
  proof (cases "copy_skipped_size sctx s sz = 0")
    case False
    then show ?thesis using True dma_plan_sync[OF max_byte_count_pos] dma_plan_no_sync[OF max_byte_count_pos]
      by (simp add: copy_plan_def Let_def sync_at_end_append)
  qed (use True assms(1) dma_plan_sync[OF max_byte_count_pos] in
      \<open>simp add: copy_plan_def Let_def dma_plan.simps[of _ _ _ _ _ _ 0]\<close>)
next
  case False
  then show ?thesis using assms realign_sync[of new sctx "copy_realign_size sctx sz"]
      dma_plan_no_sync[OF max_byte_count_pos]
    by (simp add: copy_plan_def Let_def sync_at_end_append)
qed

lemma copy_plan_no_sync:
  assumes "copy_realign_size sctx sz \<noteq> 0" "realign_scratch new sctx = None"
  shows "list_all (\<lambda>r. \<not> rq_sync r) (copy_plan sctx d s sz new)"
  using assms dma_plan_no_sync[OF max_byte_count_pos]
  by (simp add: copy_plan_def Let_def realign_requests_def)

lemma copy_plan_raw:
  assumes "0 < sz"
  shows "raw_at_start (copy_plan sctx d s sz new)"
proof -
  have re: "list_all (\<lambda>r. \<not> rq_raw r) (realign_requests new sctx n)" for n
    by (simp add: realign_requests_def dma_plan_no_raw split: option.split)
  show ?thesis
  proof (cases "copy_skipped_size sctx s sz = sz")
    case True
    then show ?thesis using re dma_plan_raw[OF max_byte_count_pos assms]
      by (simp add: copy_plan_def Let_def dma_plan.simps[of _ _ _ _ _ _ 0] raw_at_start_append)
  next
    case False
    then have "0 < sz - copy_skipped_size sctx s sz" using copy_sizes(3)[of sctx s sz] by simp
    from dma_plan_raw[OF max_byte_count_pos this] show ?thesis using re False
      by (simp add: copy_plan_def Let_def dma_plan_no_raw raw_at_start_append)
  qed
qed

section \<open>Properties\<close>

text \<open>A context and buffers for the witnesses: a GFX7 chip that needs the realignment workaround.\<close>

definition sample_context :: si_context where
  "sample_context = \<lparr> gfx_level = GFX7, family = 55, is_gfx_queue = True, has_cp_dma = True,
     cp_dma_use_L2 = False, cp_sdma_ge_use_system_memory_scope = False, uses_secure_bos = False,
     cs_is_secure = False, inv_L2 = False, scratch_dirty = False, scratch_buffer = None,
     num_cp_dma_calls = 0, gfx_cs = [] \<rparr>"

definition sample_buffer :: "nat \<Rightarrow> nat \<Rightarrow> si_resource" where
  "sample_buffer i va = \<lparr> res_id = i, gpu_address = va, width0 = 4096, encrypted = False,
     valid_buffer_range = \<lparr> range_start = 0, range_end = 0 \<rparr> \<rparr>"

lemmas sample_defs = sample_context_def sample_buffer_def copy_pre_def scratch_pre_def realign_scratch_def
  scratch_for_realign_def address_limit_def SI_CPDMA_ALIGNMENT_def

lemma sample_copy_pre: "copy_pre sample_context (sample_buffer 2 0x20000) (sample_buffer 3 0x30000) 4 12 50"
  by (simp add: sample_defs)

lemma sample_scratch_pre: "scratch_pre (Some (sample_buffer 4 0x40000)) sample_context" "scratch_pre None sample_context"
  by (simp_all add: sample_defs)

text \<open>C8: A buffer copy moves every byte once. A copy of \<open>sz\<close> bytes between two mapped buffers
  returns, and the packets it appends copy exactly the bytes asked for, each of them once, whatever
  the alignment of the source, the chip and the number of packets; the only other transfer is the
  dummy copy inside the scratch buffer that realigns the engine.\<close>

theorem cp_dma_copy_moves_every_byte:
  assumes "copy_pre sctx dst src dst_offset src_offset sz" "scratch_pre new sctx"
  shows "\<exists>evs s' d'. si_cp_dma_copy_buffer sctx dst src dst_offset src_offset sz new = Some (s', d')
    \<and> gfx_cs s' = gfx_cs sctx @ evs
    \<and> mset (moves (dma_requests (gfx_level sctx) evs)) =
        {# (gpu_address dst + dst_offset + i, gpu_address src + src_offset + i). i \<in># mset [0..<sz] #}
        + (case realign_scratch new sctx of None \<Rightarrow> {#}
           | Some b \<Rightarrow> {# (gpu_address b + i, gpu_address b + SI_CPDMA_ALIGNMENT + i).
               i \<in># mset [0..<copy_realign_size sctx sz] #})"
  using copy_buffer_events[OF assms] copy_plan_moves[of sctx _ _ sz new]
  by (fastforce simp: dma_span_def split: option.splits)

theorem cp_dma_copy_moves_every_byte_witness:
  "\<exists>evs s' d'. si_cp_dma_copy_buffer sample_context (sample_buffer 2 0x20000) (sample_buffer 3 0x30000) 4 12 50
      (Some (sample_buffer 4 0x40000)) = Some (s', d')
    \<and> gfx_cs s' = evs
    \<and> mset (moves (dma_requests GFX7 evs)) =
        {# (0x20004 + i, 0x3000C + i). i \<in># mset [0..<50] #} + {# (0x40000 + i, 0x40020 + i). i \<in># mset [0..<14] #}"
  using cp_dma_copy_moves_every_byte[OF sample_copy_pre sample_scratch_pre(1)]
  by (simp add: sample_defs copy_realign_size_def needs_realign_def CHIP_CARRIZO_def)

text \<open>C17: Synchronisation of a copy. When the realigning dummy copy can be emitted or is not needed, a
  copy is ordered: a barrier precedes its first packet, only the first packet waits for earlier DMA
  writes, and the synchronisation flag is on the last packet and no other (on the graphics queue;
  compute queues always synchronise).\<close>

theorem cp_dma_copy_synchronises_last:
  assumes "copy_pre sctx dst src dst_offset src_offset sz" "scratch_pre new sctx"
    and "copy_realign_size sctx sz \<noteq> 0 \<longrightarrow> realign_scratch new sctx \<noteq> None"
  shows "\<exists>evs s' d'. si_cp_dma_copy_buffer sctx dst src dst_offset src_offset sz new = Some (s', d')
    \<and> gfx_cs s' = gfx_cs sctx @ evs
    \<and> barrier_first (gfx_level sctx) evs
    \<and> raw_at_start (dma_requests (gfx_level sctx) evs)
    \<and> sync_at_end (is_gfx_queue sctx) (dma_requests (gfx_level sctx) evs)"
proof -
  have "0 < sz" using assms(1) by (simp add: copy_pre_def)
  then show ?thesis
    using copy_buffer_events[OF assms(1,2)] copy_plan_raw copy_plan_sync[OF _ assms(3)] by metis
qed

theorem cp_dma_copy_synchronises_last_witness:
  "\<exists>evs s' d'. si_cp_dma_copy_buffer sample_context (sample_buffer 2 0x20000) (sample_buffer 3 0x30000) 4 12 50
      (Some (sample_buffer 4 0x40000)) = Some (s', d')
    \<and> gfx_cs s' = evs \<and> barrier_first GFX7 evs \<and> raw_at_start (dma_requests GFX7 evs)
    \<and> sync_at_end True (dma_requests GFX7 evs)"
  using cp_dma_copy_synchronises_last[OF sample_copy_pre sample_scratch_pre(1)]
  by (simp add: sample_defs)

text \<open>A copy without synchronisation. When the size is not a multiple of the engine's alignment on
  a chip with the workaround and the scratch buffer cannot be allocated, the copy still returns and
  its packets are emitted, but none of them carries the synchronisation flag: nothing waits for the
  copied data.\<close>

theorem cp_dma_copy_unsynchronised:
  assumes "copy_pre sctx dst src dst_offset src_offset sz"
    and "needs_realign sctx" "sz mod SI_CPDMA_ALIGNMENT \<noteq> 0" "realign_scratch None sctx = None"
  shows "\<exists>evs s' d'. si_cp_dma_copy_buffer sctx dst src dst_offset src_offset sz None = Some (s', d')
    \<and> gfx_cs s' = gfx_cs sctx @ evs
    \<and> dma_requests (gfx_level sctx) evs \<noteq> []
    \<and> list_all (\<lambda>r. \<not> rq_sync r) (dma_requests (gfx_level sctx) evs)"
proof -
  have "copy_realign_size sctx sz \<noteq> 0"
    using assms(2,3) by (simp add: copy_realign_size_def SI_CPDMA_ALIGNMENT_def)
  moreover have "scratch_pre None sctx" using assms(4) by (simp add: scratch_pre_def)
  moreover have "0 < sz" using assms(1) by (simp add: copy_pre_def)
  moreover from copy_plan_raw[OF this] have "copy_plan sctx d s sz None \<noteq> []" for d s
    by (simp add: raw_at_start_def)
  ultimately show ?thesis
    using copy_buffer_events[OF assms(1), of None] copy_plan_no_sync[OF _ assms(4)] by metis
qed

theorem cp_dma_copy_unsynchronised_witness:
  "\<exists>evs s' d'. si_cp_dma_copy_buffer sample_context (sample_buffer 2 0x20000) (sample_buffer 3 0x30000) 4 12 50
      None = Some (s', d')
    \<and> gfx_cs s' = evs \<and> dma_requests GFX7 evs \<noteq> [] \<and> list_all (\<lambda>r. \<not> rq_sync r) (dma_requests GFX7 evs)"
  using cp_dma_copy_unsynchronised[OF sample_copy_pre]
  by (simp add: sample_defs needs_realign_def CHIP_CARRIZO_def)

text \<open>A buffer clear fills every byte once. A clear of \<open>sz\<close> bytes returns; its packets carry the
  clear value and cover the range byte by byte in ascending order, a barrier precedes them, and
  exactly the last one synchronises.\<close>

theorem cp_dma_clear_fills_every_byte:
  assumes "has_cp_dma sctx" "\<not> cp_sdma_ge_use_system_memory_scope sctx" "0 < sz" "sz mod 4 = 0"
    and "gpu_address dst \<noteq> 0" "gpu_address dst + offset + sz < address_limit (gfx_level sctx)" "val < 2 ^ 32"
  shows "\<exists>evs s' d'. si_cp_dma_clear_buffer sctx dst offset sz val = Some (s', d')
    \<and> gfx_cs s' = gfx_cs sctx @ evs
    \<and> barrier_first (gfx_level sctx) evs
    \<and> list_all rq_data (dma_requests (gfx_level sctx) evs)
    \<and> moves (dma_requests (gfx_level sctx) evs) = map (\<lambda>i. (gpu_address dst + offset + i, val)) [0..<sz]
    \<and> sync_at_end (is_gfx_queue sctx) (dma_requests (gfx_level sctx) evs)"
proof -
  define sctx1 where "sctx1 = (if \<not> cp_dma_use_L2 sctx then sctx\<lparr> inv_L2 := True \<rparr> else sctx)"
  have same: "gfx_level sctx1 = gfx_level sctx" "is_gfx_queue sctx1 = is_gfx_queue sctx"
    "has_cp_dma sctx1" "gfx_cs sctx1 = gfx_cs sctx"
    using assms(1) by (simp_all add: sctx1_def)
  have lim: "address_limit (gfx_level sctx) \<le> 2 ^ 64" "2 ^ 32 \<le> address_limit (gfx_level sctx)"
    by (simp_all add: address_limit_def)
  have va: "u64 (gpu_address dst + offset) = gpu_address dst + offset"
    using assms(6) lim by (intro u64_id) linarith
  let ?plan = "dma_plan (cp_dma_max_byte_count (gfx_level sctx)) True False (is_gfx_queue sctx)
      (gpu_address dst + offset) val sz"
  obtain evs where evs: "clear_loop (res_id dst) val (gpu_address dst + offset) sz True sctx1 =
        Some (sctx1\<lparr> gfx_cs := gfx_cs sctx1 @ evs \<rparr>)"
      "dma_requests (gfx_level sctx) evs = ?plan" "barrier_first (gfx_level sctx) evs"
    using clear_loop_ok[of sctx1 "gpu_address dst + offset" sz val "res_id dst" True] assms lim same by auto
  have "list_all rq_data ?plan" using dma_plan_data by (fastforce simp: list_all_iff)
  moreover have "moves ?plan = map (\<lambda>i. (gpu_address dst + offset + i, val)) [0..<sz]"
    using dma_plan_moves[OF max_byte_count_pos] by (simp add: dma_span_def)
  moreover have "sync_at_end (is_gfx_queue sctx) ?plan"
    by (rule dma_plan_sync[OF max_byte_count_pos assms(3)])
  ultimately show ?thesis
    using assms(2-4) evs same unfolding si_cp_dma_clear_buffer_def Let_def va sctx1_def[symmetric]
    by auto
qed

theorem cp_dma_clear_fills_every_byte_witness:
  "\<exists>evs s' d'. si_cp_dma_clear_buffer sample_context (sample_buffer 2 0x20000) 16 4000 7 = Some (s', d')
    \<and> gfx_cs s' = evs
    \<and> moves (dma_requests GFX7 evs) = map (\<lambda>i. (0x20010 + i, 7)) [0..<4000]"
  using cp_dma_clear_fills_every_byte[of sample_context 4000 "sample_buffer 2 0x20000" 16 7]
  by (auto simp: sample_defs)

end
