(* ===== verification/Sdma.thy ===== *)
theory Sdma
  imports CpPackets PbSlab
begin

text \<open>
  The system DMA engine: the packets of amd/common/ac_cmdbuf_sdma.c up to the linear sub-window
  copy, and the linear texture copy of gallium/drivers/radeonsi/si_sdma_copy_image.c, which repeats
  \<open>ac_emit_sdma_copy_linear\<close> until all bytes are copied. Addresses and sizes are 64-bit unsigned,
  written as \<^typ>\<open>nat\<close> with \<open>u64\<close>. The loop is a \<open>partial_function\<close>: \<open>None\<close> is the loop that never ends.
\<close>

section \<open>Packets\<close>

definition SDMA_VERSION_VALUE :: "nat \<Rightarrow> nat \<Rightarrow> nat" where
  "SDMA_VERSION_VALUE major minor = major * 2 ^ 8 + minor"

definition SDMA_2_0 :: nat where "SDMA_2_0 = SDMA_VERSION_VALUE 2 0"
definition SDMA_2_4 :: nat where "SDMA_2_4 = SDMA_VERSION_VALUE 2 4"
definition SDMA_4_0 :: nat where "SDMA_4_0 = SDMA_VERSION_VALUE 4 0"
definition SDMA_5_2 :: nat where "SDMA_5_2 = SDMA_VERSION_VALUE 5 2"
definition SDMA_6_0 :: nat where "SDMA_6_0 = SDMA_VERSION_VALUE 6 0"
definition SDMA_7_0 :: nat where "SDMA_7_0 = SDMA_VERSION_VALUE 7 0"

lemmas sdma_version_defs = SDMA_VERSION_VALUE_def SDMA_2_0_def SDMA_2_4_def SDMA_4_0_def SDMA_5_2_def
  SDMA_6_0_def SDMA_7_0_def

definition SDMA_PACKET :: "dword \<Rightarrow> dword \<Rightarrow> dword \<Rightarrow> dword" where
  "SDMA_PACKET op sub_op n = push_bit 16 (n AND 0xFFFF) OR push_bit 8 (sub_op AND 0xFF) OR (op AND 0xFF)"

definition SDMA_OPCODE_NOP :: dword where "SDMA_OPCODE_NOP = 0x0"
definition SDMA_OPCODE_COPY :: dword where "SDMA_OPCODE_COPY = 0x1"
definition SDMA_COPY_SUB_OPCODE_LINEAR :: dword where "SDMA_COPY_SUB_OPCODE_LINEAR = 0x0"
definition SDMA_COPY_SUB_OPCODE_LINEAR_SUB_WINDOW :: dword where "SDMA_COPY_SUB_OPCODE_LINEAR_SUB_WINDOW = 0x4"
definition SDMA_OPCODE_WRITE :: dword where "SDMA_OPCODE_WRITE = 0x2"
definition SDMA_OPCODE_FENCE :: dword where "SDMA_OPCODE_FENCE = 0x5"
definition SDMA_FENCE_MTYPE_UC :: dword where "SDMA_FENCE_MTYPE_UC = 0x3"
definition SDMA_OPCODE_POLL_REGMEM :: dword where "SDMA_OPCODE_POLL_REGMEM = 0x8"
definition SDMA_POLL_MEM :: dword where "SDMA_POLL_MEM = push_bit 31 1"
definition SDMA_OPCODE_CONSTANT_FILL :: dword where "SDMA_OPCODE_CONSTANT_FILL = 0xb"
definition SDMA_OPCODE_TIMESTAMP :: dword where "SDMA_OPCODE_TIMESTAMP = 0xd"
definition SDMA_TS_SUB_OPCODE_GET_GLOBAL_TIMESTAMP :: dword where "SDMA_TS_SUB_OPCODE_GET_GLOBAL_TIMESTAMP = 0x2"
definition SDMA_V2_0_COPY_MAX_BYTES :: nat where "SDMA_V2_0_COPY_MAX_BYTES = 0x3fff00"
definition SDMA_V5_2_COPY_MAX_BYTES :: nat where "SDMA_V5_2_COPY_MAX_BYTES = 0x3fffff00"

definition ac_emit_sdma_nop :: "dword list" where
  "ac_emit_sdma_nop = [SDMA_PACKET SDMA_OPCODE_NOP 0 0]"

definition ac_emit_sdma_write_timestamp :: "nat \<Rightarrow> dword list" where
  "ac_emit_sdma_write_timestamp va =
    [SDMA_PACKET SDMA_OPCODE_TIMESTAMP SDMA_TS_SUB_OPCODE_GET_GLOBAL_TIMESTAMP 0, lo32 va, hi32 va]"

definition ac_emit_sdma_fence :: "nat \<Rightarrow> dword \<Rightarrow> dword list" where
  "ac_emit_sdma_fence va fence =
    [SDMA_PACKET SDMA_OPCODE_FENCE 0 SDMA_FENCE_MTYPE_UC, lo32 va, hi32 va, fence]"

definition ac_emit_sdma_wait_mem :: "dword \<Rightarrow> nat \<Rightarrow> dword \<Rightarrow> dword \<Rightarrow> dword list" where
  "ac_emit_sdma_wait_mem op va ref msk =
    [SDMA_PACKET SDMA_OPCODE_POLL_REGMEM 0 0 OR push_bit 28 op OR SDMA_POLL_MEM, lo32 va, hi32 va, ref, msk,
     0xa OR push_bit 16 0xfff]"

definition ac_emit_sdma_write_data_head :: "nat \<Rightarrow> dword \<Rightarrow> dword list" where
  "ac_emit_sdma_write_data_head va count = [SDMA_PACKET SDMA_OPCODE_WRITE 0 0, lo32 va, hi32 va, count - 1]"

definition max_fill_size :: "nat \<Rightarrow> nat" where
  "max_fill_size version = (if version \<ge> SDMA_6_0 then 2 ^ 30 else 2 ^ 22) - 4"

definition ac_emit_sdma_constant_fill :: "nat \<Rightarrow> nat \<Rightarrow> nat \<Rightarrow> dword \<Rightarrow> (dword list \<times> nat) option" where
  "ac_emit_sdma_constant_fill version va sz val =
    (if \<not> version \<ge> SDMA_2_4 then None
     else
       let bytes_written = min sz (max_fill_size version)
       in Some ([SDMA_PACKET SDMA_OPCODE_CONSTANT_FILL 0 0 OR push_bit 30 2, lo32 va, hi32 va, val,
                 word_of_nat bytes_written - 1], bytes_written))"

definition copy_linear_align :: "nat \<Rightarrow> nat \<Rightarrow> nat \<Rightarrow> nat" where
  "copy_linear_align src_va dst_va sz =
    (if src_va mod 4 = 0 \<and> dst_va mod 4 = 0 \<and> sz > 4 \<and> sz mod 4 \<noteq> 0 then 0xFFFFFFFC else 0xFFFFFFFF)"

definition copy_linear_max :: "nat \<Rightarrow> nat" where
  "copy_linear_max version = (if version \<ge> SDMA_5_2 then SDMA_V5_2_COPY_MAX_BYTES else SDMA_V2_0_COPY_MAX_BYTES)"

definition ac_emit_sdma_copy_linear :: "nat \<Rightarrow> nat \<Rightarrow> nat \<Rightarrow> nat \<Rightarrow> bool \<Rightarrow> (dword list \<times> nat) option" where
  "ac_emit_sdma_copy_linear version src_va dst_va sz tmz =
    (if \<not> version \<ge> SDMA_2_0 then None
     else
       let bytes_written = (if sz \<ge> 4 then min (sz AND copy_linear_align src_va dst_va sz) (copy_linear_max version)
                            else sz)
       in Some ([SDMA_PACKET SDMA_OPCODE_COPY SDMA_COPY_SUB_OPCODE_LINEAR (if tmz then 4 else 0),
                 (if version \<ge> SDMA_4_0 then word_of_nat bytes_written - 1 else word_of_nat bytes_written), 0,
                 lo32 src_va, hi32 src_va, lo32 dst_va, hi32 dst_va], bytes_written))"

record ac_sdma_surf =
  va :: nat
  bpp :: nat
  offset_x :: dword
  offset_y :: dword
  offset_z :: dword
  pitch :: nat
  slice_pitch :: nat

definition ac_sdma_check_pitches :: "nat \<Rightarrow> nat \<Rightarrow> nat \<Rightarrow> nat \<Rightarrow> bool \<Rightarrow> bool" where
  "ac_sdma_check_pitches version p sp b uses_depth \<longleftrightarrow>
     p \<noteq> 0 \<and> p \<le> 2 ^ (if version \<ge> SDMA_7_0 then 16 else 14) \<and> p mod max 1 (4 div b) = 0
   \<and> (uses_depth \<longrightarrow> sp \<noteq> 0 \<and> sp \<le> 2 ^ 28 \<and> sp mod 4 = 0)"

definition sub_window_pitch_shift :: "nat \<Rightarrow> nat" where
  "sub_window_pitch_shift version = (if version \<ge> SDMA_7_0 \<or> version < SDMA_4_0 then 16 else 13)"

definition sub_window_surface :: "nat \<Rightarrow> ac_sdma_surf \<Rightarrow> dword list" where
  "sub_window_surface version s =
    [lo32 (va s), hi32 (va s), offset_x s OR push_bit 16 (offset_y s),
     offset_z s OR push_bit (sub_window_pitch_shift version) (word_of_nat (pitch s) - 1),
     word_of_nat (slice_pitch s) - 1]"

definition ac_emit_sdma_copy_linear_sub_window ::
  "nat \<Rightarrow> ac_sdma_surf \<Rightarrow> ac_sdma_surf \<Rightarrow> dword \<Rightarrow> dword \<Rightarrow> dword \<Rightarrow> dword list option" where
  "ac_emit_sdma_copy_linear_sub_window version src dst width height depth =
    (if bpp src = bpp dst \<and> (\<exists>k<32. bpp src = 2 ^ k)
        \<and> ac_sdma_check_pitches version (pitch src) (slice_pitch src) (bpp src) False
        \<and> ac_sdma_check_pitches version (pitch dst) (slice_pitch dst) (bpp dst) False
     then Some ([SDMA_PACKET SDMA_OPCODE_COPY SDMA_COPY_SUB_OPCODE_LINEAR_SUB_WINDOW 0
                 OR push_bit 29 (word_of_nat (util_logbase2 (bpp src)))]
                @ sub_window_surface version src @ sub_window_surface version dst
                @ (if version = SDMA_2_0 then [width OR push_bit 16 height, depth]
                   else [(width - 1) OR push_bit 16 (height - 1), depth - 1]))
     else None)"

section \<open>Copying a linear texture\<close>

record si_texture =
  tex_address :: nat
  surf_offset :: nat
  surf_pitch :: nat
  level_offset :: nat
  tex_width0 :: nat
  tex_height0 :: nat
  blk_w :: nat
  blk_h :: nat
  bpe :: nat
  nr_samples :: nat
  last_level :: nat
  is_linear :: bool
  tex_encrypted :: bool

definition si_prepare_for_sdma_copy :: "si_texture \<Rightarrow> si_texture \<Rightarrow> bool" where
  "si_prepare_for_sdma_copy dst src \<longleftrightarrow>
    \<not> (bpe dst \<noteq> bpe src) \<and> \<not> (nr_samples src > 1 \<or> nr_samples dst > 1)
    \<and> \<not> (last_level dst \<noteq> 0 \<or> last_level src \<noteq> 0)"

definition u_minify :: "nat \<Rightarrow> nat \<Rightarrow> nat" where
  "u_minify v levels = max 1 (v div 2 ^ levels)"

definition minify_as_blocks :: "nat \<Rightarrow> nat \<Rightarrow> nat \<Rightarrow> nat" where
  "minify_as_blocks width level w = div_round_up (u_minify width level) w"

partial_function (option) linear_copy_loop ::
  "nat \<Rightarrow> bool \<Rightarrow> nat \<Rightarrow> nat \<Rightarrow> nat \<Rightarrow> dword list list \<Rightarrow> dword list list option" where
  "linear_copy_loop version tmz src dst bytes cs =
    (if bytes > 0 then
       Option.bind (ac_emit_sdma_copy_linear version src dst bytes tmz)
         (\<lambda>(p, n). linear_copy_loop version tmz (u64 (src + n)) (u64 (dst + n)) (bytes - n) (cs @ [p]))
     else Some cs)"

definition linear_copy_bytes :: "si_texture \<Rightarrow> si_texture \<Rightarrow> nat" where
  "linear_copy_bytes sdst ssrc =
    u64 (surf_pitch ssrc * div_round_up (tex_height0 ssrc) (blk_h ssrc) * bpe sdst)"

definition si_sdma_copy_linear_texture :: "nat \<Rightarrow> si_texture \<Rightarrow> si_texture \<Rightarrow> dword list list option" where
  "si_sdma_copy_linear_texture version sdst ssrc =
    (let dst_address = u64 (u64 (tex_address sdst + surf_offset sdst) + level_offset sdst);
         src_address = u64 (u64 (tex_address ssrc + surf_offset ssrc) + level_offset ssrc);
         tmz = tex_encrypted ssrc
     in if tmz \<and> \<not> tex_encrypted sdst then None
        else linear_copy_loop version tmz src_address dst_address (linear_copy_bytes sdst ssrc) [])"

section \<open>What the packets move\<close>

text \<open>The copy a packet asks for, as (destination, source, bytes); the count field holds the number of
  bytes, less one since version 4.\<close>

fun decode_sdma_copy :: "nat \<Rightarrow> dword list \<Rightarrow> (nat \<times> nat \<times> nat) option" where
  "decode_sdma_copy version [h, c, z, s0, s1, d0, d1] =
    (if h AND 0xFFFF = SDMA_PACKET SDMA_OPCODE_COPY SDMA_COPY_SUB_OPCODE_LINEAR 0
     then Some (unat d0 + 2 ^ 32 * unat d1, unat s0 + 2 ^ 32 * unat s1,
                unat (if version \<ge> SDMA_4_0 then c + 1 else c))
     else None)"
| "decode_sdma_copy version _ = None"

definition sdma_moves :: "nat \<Rightarrow> dword list \<Rightarrow> (nat \<times> nat) list" where
  "sdma_moves version p = (case decode_sdma_copy version p of None \<Rightarrow> []
     | Some (d, s, n) \<Rightarrow> map (\<lambda>i. (d + i, s + i)) [0..<n])"

lemma lo_hi_read: "a < 2 ^ 64 \<Longrightarrow> unat (lo32 a) + 2 ^ 32 * unat (hi32 a) = a"
proof -
  assume a: "a < 2 ^ 64"
  then have "unat (hi32 a) = a div 2 ^ 32"
    by (simp add: hi32_def unat_of_nat less_mult_imp_div_less)
  moreover have "unat (lo32 a) = a mod 2 ^ 32" by (simp add: lo32_def unat_of_nat)
  ultimately show ?thesis by simp
qed

lemma and_align_eq:
  "x AND copy_linear_align s d sz =
    (if copy_linear_align s d sz = 0xFFFFFFFC then 4 * (x mod 2 ^ 32 div 4) else x mod 2 ^ 32)"
proof -
  have m30: "(0xFFFFFFFC :: nat) = push_bit 2 (mask 30)" by (simp add: mask_eq_exp_minus_1 push_bit_eq_mult)
  have "x AND push_bit 2 (mask 30) = push_bit 2 (drop_bit 2 (take_bit 32 x))"
    by (rule bit_eqI) (auto simp: bit_simps le_add_diff_inverse simp flip: add_2_eq_Suc)
  moreover have "x AND 0xFFFFFFFF = take_bit 32 x"
    by (simp add: take_bit_eq_mask mask_eq_exp_minus_1)
  ultimately show ?thesis
    by (auto simp: copy_linear_align_def m30 take_bit_eq_mod push_bit_eq_mult drop_bit_eq_div)
qed

lemma and_align: "x AND copy_linear_align s d sz \<le> x mod 2 ^ 32"
  by (simp add: and_align_eq)

lemma and_align_pos: "4 \<le> sz \<Longrightarrow> sz < 2 ^ 32 \<Longrightarrow> 0 < sz AND copy_linear_align s d sz"
  by (simp add: and_align_eq div_greater_zero_iff)

definition copy_linear_bytes :: "nat \<Rightarrow> nat \<Rightarrow> nat \<Rightarrow> nat \<Rightarrow> nat" where
  "copy_linear_bytes version s d sz =
    (if sz \<ge> 4 then min (sz AND copy_linear_align s d sz) (copy_linear_max version) else sz)"

lemma copy_linear_max_bounds: "0 < copy_linear_max version" "copy_linear_max version < 2 ^ 32"
  by (simp_all add: copy_linear_max_def SDMA_V5_2_COPY_MAX_BYTES_def SDMA_V2_0_COPY_MAX_BYTES_def)

lemma copy_linear_bytes_le: "copy_linear_bytes version s d sz \<le> sz mod 2 ^ 32"
  using and_align[of sz s d sz] by (auto simp: copy_linear_bytes_def)

lemma copy_linear_bytes_pos: "0 < sz \<Longrightarrow> sz < 2 ^ 32 \<Longrightarrow> 0 < copy_linear_bytes version s d sz"
  using and_align_pos[of sz s d] copy_linear_max_bounds(1) by (simp add: copy_linear_bytes_def)

lemma copy_linear_bytes_max: "copy_linear_bytes version s d sz \<le> copy_linear_max version"
  by (simp add: copy_linear_bytes_def copy_linear_max_def SDMA_V5_2_COPY_MAX_BYTES_def SDMA_V2_0_COPY_MAX_BYTES_def)

lemma count_read: "n < 2 ^ 32 \<Longrightarrow> unat (word_of_nat n - 1 + 1 :: dword) = n" "n < 2 ^ 32 \<Longrightarrow> unat (word_of_nat n :: dword) = n"
  by (simp_all add: unat_of_nat)

lemma sdma_copy_header: "SDMA_PACKET SDMA_OPCODE_COPY SDMA_COPY_SUB_OPCODE_LINEAR (if tmz then 4 else 0) AND 0xFFFF =
    SDMA_PACKET SDMA_OPCODE_COPY SDMA_COPY_SUB_OPCODE_LINEAR 0"
  by (simp add: SDMA_PACKET_def SDMA_OPCODE_COPY_def SDMA_COPY_SUB_OPCODE_LINEAR_def)

lemma emit_copy_linear:
  assumes "version \<ge> SDMA_2_0" "s < 2 ^ 64" "d < 2 ^ 64"
  shows "\<exists>p. ac_emit_sdma_copy_linear version s d sz tmz = Some (p, copy_linear_bytes version s d sz)
    \<and> sdma_moves version p = map (\<lambda>i. (d + i, s + i)) [0..<copy_linear_bytes version s d sz]"
proof -
  have n: "copy_linear_bytes version s d sz < 2 ^ 32"
    using copy_linear_bytes_max[of version s d sz] copy_linear_max_bounds(2)[of version] by linarith
  show ?thesis
    using assms(1) lo_hi_read[OF assms(2)] lo_hi_read[OF assms(3)] count_read[OF n]
    unfolding ac_emit_sdma_copy_linear_def Let_def copy_linear_bytes_def[symmetric]
    by (simp add: sdma_moves_def sdma_copy_header)
qed

lemma upt_split: "n \<le> m \<Longrightarrow> [0..<m] = [0..<n] @ map (\<lambda>i. n + i) [0..<m - n]"
  by (intro nth_equalityI) (auto simp: nth_append)

lemma linear_copy_loop_returns:
  assumes "version \<ge> SDMA_2_0" "bytes < 2 ^ 32" "s + bytes < 2 ^ 64" "d + bytes < 2 ^ 64"
  shows "\<exists>ps. linear_copy_loop version tmz s d bytes cs = Some (cs @ ps)
    \<and> concat (map (sdma_moves version) ps) = map (\<lambda>i. (d + i, s + i)) [0..<bytes]"
  using assms(2-4)
proof (induction bytes arbitrary: s d cs rule: less_induct)
  case (less bytes)
  show ?case
  proof (cases "bytes = 0")
    case True
    then show ?thesis by (simp add: linear_copy_loop.simps)
  next
    case False
    define n where "n = copy_linear_bytes version s d bytes"
    have n: "0 < n" "n \<le> bytes"
      using copy_linear_bytes_pos[of bytes version s d] copy_linear_bytes_le[of version s d bytes] False less.prems
      by (simp_all add: n_def)
    obtain p where p: "ac_emit_sdma_copy_linear version s d bytes tmz = Some (p, n)"
        "sdma_moves version p = map (\<lambda>i. (d + i, s + i)) [0..<n]"
      using emit_copy_linear[OF assms(1), of s d bytes tmz] less.prems unfolding n_def by auto
    have u: "u64 (s + n) = s + n" "u64 (d + n) = d + n" using n less.prems by (auto intro!: u64_id)
    obtain ps where ps: "linear_copy_loop version tmz (s + n) (d + n) (bytes - n) (cs @ [p]) = Some ((cs @ [p]) @ ps)"
        "concat (map (sdma_moves version) ps) = map (\<lambda>i. (d + n + i, s + n + i)) [0..<bytes - n]"
      using less.IH[of "bytes - n" "s + n" "d + n" "cs @ [p]"] n less.prems
        less_imp_diff_less[OF less.prems(1), of n] by auto
    have "linear_copy_loop version tmz s d bytes cs = Some (cs @ p # ps)"
      using False p(1) ps(1) by (subst linear_copy_loop.simps) (simp add: u)
    moreover have "concat (map (sdma_moves version) (p # ps)) = map (\<lambda>i. (d + i, s + i)) [0..<bytes]"
      using p(2) ps(2) upt_split[OF n(2)] by (simp add: comp_def add.assoc)
    ultimately show ?thesis by blast
  qed
qed

lemma linear_copy_loop_small:
  assumes "linear_copy_loop version tmz s d bytes cs = Some r"
  shows "bytes < 2 ^ 32"
proof (rule linear_copy_loop.raw_induct[OF _ assms])
  fix f version tmz s d bytes cs r
  assume IH: "\<And>version tmz s d bytes cs r. f version tmz s d bytes cs = Some r \<Longrightarrow> bytes < 2 ^ 32"
    and run: "(if bytes > 0 then Option.bind (ac_emit_sdma_copy_linear version s d bytes tmz)
         (\<lambda>(p, n). f version tmz (u64 (s + n)) (u64 (d + n)) (bytes - n) (cs @ [p])) else Some cs) = Some r"
  show "bytes < 2 ^ 32"
  proof (cases "bytes > 0")
    case True
    then obtain p n where e: "ac_emit_sdma_copy_linear version s d bytes tmz = Some (p, n)"
        "f version tmz (u64 (s + n)) (u64 (d + n)) (bytes - n) (cs @ [p]) = Some r"
      using run by (auto simp: bind_eq_Some_conv)
    from IH[OF e(2)] have "bytes - n < 2 ^ 32" .
    moreover have "n \<le> bytes mod 2 ^ 32"
      using e(1) copy_linear_bytes_le[of version s d bytes]
      by (auto simp: ac_emit_sdma_copy_linear_def Let_def copy_linear_bytes_def split: if_splits)
    moreover have "\<not> bytes - n < 2 ^ 32" if "2 ^ 32 \<le> bytes" "n \<le> bytes mod 2 ^ 32"
    proof -
      have "bytes mod 2 ^ 32 \<le> bytes - 2 ^ 32"
        using that(1) by (metis le_mod_geq mod_less_eq_dividend)
      with that show ?thesis by linarith
    qed
    ultimately show ?thesis by (meson not_le)
  qed simp
qed

section \<open>Properties\<close>

definition tex_base :: "si_texture \<Rightarrow> nat" where
  "tex_base t = tex_address t + surf_offset t + level_offset t"

lemma linear_texture_moves:
  assumes "version \<ge> SDMA_2_0" "\<not> (tex_encrypted ssrc \<and> \<not> tex_encrypted sdst)"
    and "linear_copy_bytes sdst ssrc < 2 ^ 32"
    and "tex_base ssrc + linear_copy_bytes sdst ssrc < 2 ^ 64" "tex_base sdst + linear_copy_bytes sdst ssrc < 2 ^ 64"
  shows "\<exists>ps. si_sdma_copy_linear_texture version sdst ssrc = Some ps
    \<and> concat (map (sdma_moves version) ps) =
        map (\<lambda>i. (tex_base sdst + i, tex_base ssrc + i)) [0..<linear_copy_bytes sdst ssrc]"
proof -
  have u: "u64 (u64 (tex_address t + surf_offset t) + level_offset t) = tex_base t" if "tex_base t < 2 ^ 64" for t
    using that by (simp add: tex_base_def)
  show ?thesis
    using linear_copy_loop_returns[OF assms(1,3-5), of "tex_encrypted ssrc" "[]"] assms(2) u[of sdst] u[of ssrc] assms(4,5)
    unfolding si_sdma_copy_linear_texture_def by (simp add: Let_def)
qed

text \<open>C29: Copying a linear texture on the SDMA engine. Below 4 GiB the packet loop ends and its packets
  copy every byte of the source's rows once, in ascending order, to the same offset of the
  destination, whatever the alignment of the two addresses.\<close>

theorem sdma_linear_copy_moves_every_byte:
  assumes "version \<ge> SDMA_2_0" "\<not> (tex_encrypted ssrc \<and> \<not> tex_encrypted sdst)"
    and "linear_copy_bytes sdst ssrc < 2 ^ 32"
    and "tex_base ssrc + linear_copy_bytes sdst ssrc < 2 ^ 64" "tex_base sdst + linear_copy_bytes sdst ssrc < 2 ^ 64"
  shows "\<exists>ps. si_sdma_copy_linear_texture version sdst ssrc = Some ps
    \<and> concat (map (sdma_moves version) ps) =
        map (\<lambda>i. (tex_base sdst + i, tex_base ssrc + i)) [0..<linear_copy_bytes sdst ssrc]"
  using assms by (rule linear_texture_moves)

definition sample_texture :: "nat \<Rightarrow> nat \<Rightarrow> nat \<Rightarrow> nat \<Rightarrow> si_texture" where
  "sample_texture base p h b = \<lparr> tex_address = base, surf_offset = 0, surf_pitch = p, level_offset = 0,
     tex_width0 = p, tex_height0 = h, blk_w = 1, blk_h = 1, bpe = b, nr_samples = 1, last_level = 0,
     is_linear = True, tex_encrypted = False \<rparr>"

theorem sdma_linear_copy_moves_every_byte_witness:
  "\<exists>ps. si_sdma_copy_linear_texture SDMA_5_2 (sample_texture 0x10000 64 30 4) (sample_texture 0x80000 64 30 4) = Some ps
    \<and> concat (map (sdma_moves SDMA_5_2) ps) = map (\<lambda>i. (0x10000 + i, 0x80000 + i)) [0..<7680]"
  using sdma_linear_copy_moves_every_byte[of SDMA_5_2 "sample_texture 0x80000 64 30 4" "sample_texture 0x10000 64 30 4"]
  by (simp add: sample_texture_def tex_base_def linear_copy_bytes_def div_round_up_def sdma_version_defs)

text \<open>C34: From 4 GiB on the copy never ends. \<open>ac_emit_sdma_copy_linear\<close> masks the 64-bit size with a 32-bit
  constant; once the remaining size is a multiple of 4 GiB it emits a packet for zero bytes and the
  caller's loop makes no progress. A linear 16384 by 16384 texture of 16 bytes per pixel is such a copy.\<close>

theorem sdma_linear_copy_never_ends:
  assumes "version \<ge> SDMA_2_0" "\<not> (tex_encrypted ssrc \<and> \<not> tex_encrypted sdst)"
    and "2 ^ 32 \<le> linear_copy_bytes sdst ssrc"
  shows "si_sdma_copy_linear_texture version sdst ssrc = None"
  using linear_copy_loop_small assms(3) unfolding si_sdma_copy_linear_texture_def Let_def
  by (metis not_le option.exhaust)

theorem sdma_linear_copy_never_ends_witness:
  "si_sdma_copy_linear_texture SDMA_5_2 (sample_texture 0x100000000000 16384 16384 16)
     (sample_texture 0x200000000000 16384 16384 16) = None"
  by (rule sdma_linear_copy_never_ends)
    (simp_all add: sample_texture_def linear_copy_bytes_def div_round_up_def sdma_version_defs)

text \<open>
  The copy uses the source's pitch for both textures: when the pitches differ, the second row of the
  source does not reach the second row of the destination.
\<close>

lemma sdma_linear_copy_wrong_rows:
  assumes "version \<ge> SDMA_2_0" "\<not> (tex_encrypted ssrc \<and> \<not> tex_encrypted sdst)"
    and "linear_copy_bytes sdst ssrc < 2 ^ 32"
    and "tex_base ssrc + linear_copy_bytes sdst ssrc < 2 ^ 64" "tex_base sdst + linear_copy_bytes sdst ssrc < 2 ^ 64"
    and "surf_pitch sdst \<noteq> surf_pitch ssrc" "0 < bpe sdst"
  shows "\<exists>ps. si_sdma_copy_linear_texture version sdst ssrc = Some ps
    \<and> (tex_base sdst + surf_pitch sdst * bpe sdst, tex_base ssrc + surf_pitch ssrc * bpe sdst)
        \<notin> set (concat (map (sdma_moves version) ps))"
  using linear_texture_moves[OF assms(1-5)] assms(6,7) by (auto simp del: set_concat)

end
