(* ===== verification/CmdBuf.thy ===== *)
theory CmdBuf
  imports CpPackets
begin

text \<open>
  The command buffer macros of amd/common/ac_cmdbuf.h: appending dwords, the packets that set
  registers (through the TITAN map where a write becomes a dword offset), the buffered register
  packets of GFX11 and GFX12, and the tracked registers, with which the driver drops a write whose
  value the register already has. A macro between \<open>ac_cmdbuf_begin\<close> and \<open>ac_cmdbuf_end\<close> is a function
  on the command buffer; a failed assertion is \<open>None\<close>. The environment and the map's settings are
  arguments, as in \<open>TitanRegmap\<close>; its diagnostics (hit counter, split-run report) are not state here.
\<close>

section \<open>The command buffer\<close>

record ac_cmdbuf =
  buf :: "dword list"
  max_dw :: nat
  reserved_dw :: nat
  context_roll :: bool

definition ac_cmdbuf_emit_array :: "dword list \<Rightarrow> ac_cmdbuf \<Rightarrow> ac_cmdbuf option" where
  "ac_cmdbuf_emit_array vs cs =
    (if reserved_dw cs \<noteq> 0 \<and> \<not> length (buf cs) + length vs \<le> reserved_dw cs then None
     else Some (cs\<lparr> buf := buf cs @ vs \<rparr>))"

definition ac_cmdbuf_emit :: "dword \<Rightarrow> ac_cmdbuf \<Rightarrow> ac_cmdbuf option" where
  "ac_cmdbuf_emit v cs =
    (if reserved_dw cs \<noteq> 0 \<and> \<not> length (buf cs) < reserved_dw cs then None
     else Some (cs\<lparr> buf := buf cs @ [v] \<rparr>))"

definition ac_cmdbuf_end :: "ac_cmdbuf \<Rightarrow> ac_cmdbuf option" where
  "ac_cmdbuf_end cs = (if length (buf cs) \<le> max_dw cs then Some cs else None)"

section \<open>Setting registers\<close>

definition ac_cmdbuf_set_reg_seq ::
  "c_env \<Rightarrow> titan_cfg \<Rightarrow> nat \<Rightarrow> nat \<Rightarrow> dword \<Rightarrow> nat \<Rightarrow> nat \<Rightarrow> nat \<Rightarrow> bool \<Rightarrow> ac_cmdbuf \<Rightarrow> ac_cmdbuf option" where
  "ac_cmdbuf_set_reg_seq env cfg reg num idx base limit packet cam cs =
    (if base \<le> reg \<and> reg < limit then
       Option.bind (ac_cmdbuf_emit (PKT3 packet (word_of_nat num) False OR PKT3_RESET_FILTER_CAM_S cam) cs)
         (ac_cmdbuf_emit (word_of_nat (fst (ac_titan_remap_dw env cfg base ((reg - base) div 4))) OR push_bit 28 idx))
     else None)"

definition ac_cmdbuf_set_reg ::
  "c_env \<Rightarrow> titan_cfg \<Rightarrow> nat \<Rightarrow> dword \<Rightarrow> dword \<Rightarrow> nat \<Rightarrow> nat \<Rightarrow> nat \<Rightarrow> ac_cmdbuf \<Rightarrow> ac_cmdbuf option" where
  "ac_cmdbuf_set_reg env cfg reg idx val base limit packet cs =
    Option.bind (ac_cmdbuf_set_reg_seq env cfg reg 1 idx base limit packet False cs) (ac_cmdbuf_emit val)"

definition ac_cmdbuf_set_cfg_reg_seq :: "c_env \<Rightarrow> titan_cfg \<Rightarrow> nat \<Rightarrow> nat \<Rightarrow> ac_cmdbuf \<Rightarrow> ac_cmdbuf option" where
  "ac_cmdbuf_set_cfg_reg_seq env cfg reg num =
    ac_cmdbuf_set_reg_seq env cfg reg num 0 SI_CONFIG_REG_OFFSET SI_CONFIG_REG_END PKT3_SET_CONFIG_REG False"

definition ac_cmdbuf_set_cfg_reg :: "c_env \<Rightarrow> titan_cfg \<Rightarrow> nat \<Rightarrow> dword \<Rightarrow> ac_cmdbuf \<Rightarrow> ac_cmdbuf option" where
  "ac_cmdbuf_set_cfg_reg env cfg reg val =
    ac_cmdbuf_set_reg env cfg reg 0 val SI_CONFIG_REG_OFFSET SI_CONFIG_REG_END PKT3_SET_CONFIG_REG"

definition ac_cmdbuf_set_ucfg_reg_seq :: "c_env \<Rightarrow> titan_cfg \<Rightarrow> nat \<Rightarrow> nat \<Rightarrow> ac_cmdbuf \<Rightarrow> ac_cmdbuf option" where
  "ac_cmdbuf_set_ucfg_reg_seq env cfg reg num =
    ac_cmdbuf_set_reg_seq env cfg reg num 0 CIK_UCONFIG_REG_OFFSET CIK_UCONFIG_REG_END PKT3_SET_UCONFIG_REG False"

definition ac_cmdbuf_set_ucfg_reg :: "c_env \<Rightarrow> titan_cfg \<Rightarrow> nat \<Rightarrow> dword \<Rightarrow> ac_cmdbuf \<Rightarrow> ac_cmdbuf option" where
  "ac_cmdbuf_set_ucfg_reg env cfg reg val =
    ac_cmdbuf_set_reg env cfg reg 0 val CIK_UCONFIG_REG_OFFSET CIK_UCONFIG_REG_END PKT3_SET_UCONFIG_REG"

definition ac_cmdbuf_set_ucfg_reg_idx ::
  "c_env \<Rightarrow> titan_cfg \<Rightarrow> amd_gfx_level \<Rightarrow> nat \<Rightarrow> nat \<Rightarrow> dword \<Rightarrow> dword \<Rightarrow> ac_cmdbuf \<Rightarrow> ac_cmdbuf option" where
  "ac_cmdbuf_set_ucfg_reg_idx env cfg gfx_level me_fw_version reg idx val cs =
    (let opcode = (if gfx_level < GFX9 \<or> gfx_level = GFX9 \<and> me_fw_version < 26 then PKT3_SET_UCONFIG_REG
                   else PKT3_SET_UCONFIG_REG_INDEX)
     in if idx = 0 then None
        else ac_cmdbuf_set_reg env cfg reg idx val CIK_UCONFIG_REG_OFFSET CIK_UCONFIG_REG_END opcode cs)"

definition ac_cmdbuf_set_ucfg_perfctr_reg_seq ::
  "c_env \<Rightarrow> titan_cfg \<Rightarrow> amd_gfx_level \<Rightarrow> amd_ip_type \<Rightarrow> nat \<Rightarrow> nat \<Rightarrow> ac_cmdbuf \<Rightarrow> ac_cmdbuf option" where
  "ac_cmdbuf_set_ucfg_perfctr_reg_seq env cfg gfx_level ip_type reg num =
    (let filter_cam_workaround = (gfx_level \<ge> GFX10 \<and> ip_type = AMD_IP_GFX)
     in ac_cmdbuf_set_reg_seq env cfg reg num 0 CIK_UCONFIG_REG_OFFSET CIK_UCONFIG_REG_END
          PKT3_SET_UCONFIG_REG filter_cam_workaround)"

definition ac_cmdbuf_set_ucfg_perfctr_reg ::
  "c_env \<Rightarrow> titan_cfg \<Rightarrow> amd_gfx_level \<Rightarrow> amd_ip_type \<Rightarrow> nat \<Rightarrow> dword \<Rightarrow> ac_cmdbuf \<Rightarrow> ac_cmdbuf option" where
  "ac_cmdbuf_set_ucfg_perfctr_reg env cfg gfx_level ip_type reg val cs =
    Option.bind (ac_cmdbuf_set_ucfg_perfctr_reg_seq env cfg gfx_level ip_type reg 1 cs) (ac_cmdbuf_emit val)"

definition ac_cmdbuf_set_ctx_reg_seq :: "c_env \<Rightarrow> titan_cfg \<Rightarrow> nat \<Rightarrow> nat \<Rightarrow> ac_cmdbuf \<Rightarrow> ac_cmdbuf option" where
  "ac_cmdbuf_set_ctx_reg_seq env cfg reg num =
    ac_cmdbuf_set_reg_seq env cfg reg num 0 SI_CONTEXT_REG_OFFSET SI_CONTEXT_REG_END PKT3_SET_CONTEXT_REG False"

definition ac_cmdbuf_set_ctx_reg :: "c_env \<Rightarrow> titan_cfg \<Rightarrow> nat \<Rightarrow> dword \<Rightarrow> ac_cmdbuf \<Rightarrow> ac_cmdbuf option" where
  "ac_cmdbuf_set_ctx_reg env cfg reg val =
    ac_cmdbuf_set_reg env cfg reg 0 val SI_CONTEXT_REG_OFFSET SI_CONTEXT_REG_END PKT3_SET_CONTEXT_REG"

definition ac_cmdbuf_set_ctx_reg_idx :: "c_env \<Rightarrow> titan_cfg \<Rightarrow> nat \<Rightarrow> dword \<Rightarrow> dword \<Rightarrow> ac_cmdbuf \<Rightarrow> ac_cmdbuf option" where
  "ac_cmdbuf_set_ctx_reg_idx env cfg reg idx val =
    ac_cmdbuf_set_reg env cfg reg idx val SI_CONTEXT_REG_OFFSET SI_CONTEXT_REG_END PKT3_SET_CONTEXT_REG"

definition ac_cmdbuf_set_sh_reg_seq :: "c_env \<Rightarrow> titan_cfg \<Rightarrow> nat \<Rightarrow> nat \<Rightarrow> ac_cmdbuf \<Rightarrow> ac_cmdbuf option" where
  "ac_cmdbuf_set_sh_reg_seq env cfg reg num =
    ac_cmdbuf_set_reg_seq env cfg reg num 0 SI_SH_REG_OFFSET SI_SH_REG_END PKT3_SET_SH_REG False"

definition ac_cmdbuf_set_sh_reg :: "c_env \<Rightarrow> titan_cfg \<Rightarrow> nat \<Rightarrow> dword \<Rightarrow> ac_cmdbuf \<Rightarrow> ac_cmdbuf option" where
  "ac_cmdbuf_set_sh_reg env cfg reg val =
    ac_cmdbuf_set_reg env cfg reg 0 val SI_SH_REG_OFFSET SI_SH_REG_END PKT3_SET_SH_REG"

text \<open>The 32-bit pointer macro: the assertion on the high half, then the low half as a register value.\<close>

definition ac_cmdbuf_emit_32bit_pointer ::
  "c_env \<Rightarrow> titan_cfg \<Rightarrow> nat \<Rightarrow> nat \<Rightarrow> nat \<Rightarrow> ac_cmdbuf \<Rightarrow> ac_cmdbuf option" where
  "ac_cmdbuf_emit_32bit_pointer env cfg address32_hi sh_offset va cs =
    (if va = 0 \<or> va div 2 ^ 32 = address32_hi then ac_cmdbuf_set_sh_reg env cfg sh_offset (lo32 va) cs else None)"

definition ac_cmdbuf_emit_64bit_pointer ::
  "c_env \<Rightarrow> titan_cfg \<Rightarrow> nat \<Rightarrow> nat \<Rightarrow> ac_cmdbuf \<Rightarrow> ac_cmdbuf option" where
  "ac_cmdbuf_emit_64bit_pointer env cfg sh_offset va cs =
    Option.bind (ac_cmdbuf_set_sh_reg_seq env cfg sh_offset 2 cs)
      (\<lambda>cs1. Option.bind (ac_cmdbuf_emit (lo32 va) cs1) (ac_cmdbuf_emit (hi32 va)))"

definition event_index_of :: "dword \<Rightarrow> dword" where
  "event_index_of event_type =
    (if event_type = 15 \<or> event_type = 16 \<or> event_type = 7 then 4 else if event_type = 56 then 1 else 0)"

definition ac_cmdbuf_event_write_predicate :: "dword \<Rightarrow> bool \<Rightarrow> ac_cmdbuf \<Rightarrow> ac_cmdbuf option" where
  "ac_cmdbuf_event_write_predicate event_type predicate cs =
    Option.bind (ac_cmdbuf_emit (PKT3 PKT3_EVENT_WRITE 0 predicate) cs)
      (ac_cmdbuf_emit (EVENT_TYPE event_type OR EVENT_INDEX (event_index_of event_type)))"

definition ac_cmdbuf_set_privileged_cfg_reg :: "nat \<Rightarrow> dword \<Rightarrow> ac_cmdbuf \<Rightarrow> ac_cmdbuf option" where
  "ac_cmdbuf_set_privileged_cfg_reg reg val cs =
    (if reg < CIK_UCONFIG_REG_OFFSET then
       ac_cmdbuf_emit_array [PKT3 PKT3_COPY_DATA 4 False, COPY_DATA_SRC_SEL COPY_DATA_IMM OR COPY_DATA_DST_SEL COPY_DATA_PERF, val, 0,
         word_of_nat (reg div 4), 0] cs
     else None)"

section \<open>Tracked registers\<close>

text \<open>
  The bit set of saved registers and their values, by the number of the \<open>ac_tracked_reg\<close> enumerator. The
  macros for one, two and four registers differ only in the number of values, so they share one
  definition: a run is dropped when all its registers are saved with the values given.
\<close>

record ac_tracked_regs =
  reg_saved_mask :: "nat set"
  reg_value :: "nat \<Rightarrow> dword"

definition tracked_equal :: "ac_tracked_regs \<Rightarrow> nat \<Rightarrow> dword list \<Rightarrow> bool" where
  "tracked_equal t reg_enum vs \<longleftrightarrow>
    list_all (\<lambda>k. reg_enum + k \<in> reg_saved_mask t) [0..<length vs]
    \<and> list_all (\<lambda>k. reg_value t (reg_enum + k) = vs ! k) [0..<length vs]"

definition save_tracked :: "nat \<Rightarrow> dword list \<Rightarrow> ac_tracked_regs \<Rightarrow> ac_tracked_regs" where
  "save_tracked reg_enum vs t =
    t\<lparr> reg_saved_mask := reg_saved_mask t \<union> set (map (\<lambda>k. reg_enum + k) [0..<length vs]),
       reg_value := (\<lambda>e. if reg_enum \<le> e \<and> e < reg_enum + length vs then vs ! (e - reg_enum) else reg_value t e) \<rparr>"

definition opt_set_ctx_run ::
  "c_env \<Rightarrow> titan_cfg \<Rightarrow> nat \<Rightarrow> nat \<Rightarrow> dword list \<Rightarrow> ac_cmdbuf \<times> ac_tracked_regs
    \<Rightarrow> (ac_cmdbuf \<times> ac_tracked_regs) option" where
  "opt_set_ctx_run env cfg reg reg_enum vs st =
    (case st of (cs, t) \<Rightarrow>
       if tracked_equal t reg_enum vs then Some (cs, t)
       else Option.bind (ac_cmdbuf_set_ctx_reg_seq env cfg reg (length vs) cs)
              (\<lambda>cs1. Option.bind (ac_cmdbuf_emit_array vs cs1)
                (\<lambda>cs2. Some (cs2\<lparr> context_roll := True \<rparr>, save_tracked reg_enum vs t))))"

definition ac_cmdbuf_opt_set_ctx_reg ::
  "c_env \<Rightarrow> titan_cfg \<Rightarrow> nat \<Rightarrow> nat \<Rightarrow> dword \<Rightarrow> ac_cmdbuf \<times> ac_tracked_regs \<Rightarrow> (ac_cmdbuf \<times> ac_tracked_regs) option" where
  "ac_cmdbuf_opt_set_ctx_reg env cfg reg reg_enum v = opt_set_ctx_run env cfg reg reg_enum [v]"

definition ac_cmdbuf_opt_set_ctx_reg2 ::
  "c_env \<Rightarrow> titan_cfg \<Rightarrow> nat \<Rightarrow> nat \<Rightarrow> dword \<Rightarrow> dword \<Rightarrow> ac_cmdbuf \<times> ac_tracked_regs
    \<Rightarrow> (ac_cmdbuf \<times> ac_tracked_regs) option" where
  "ac_cmdbuf_opt_set_ctx_reg2 env cfg reg reg_enum v1 v2 = opt_set_ctx_run env cfg reg reg_enum [v1, v2]"

definition ac_cmdbuf_opt_set_ctx_reg4 ::
  "c_env \<Rightarrow> titan_cfg \<Rightarrow> nat \<Rightarrow> nat \<Rightarrow> dword \<Rightarrow> dword \<Rightarrow> dword \<Rightarrow> dword \<Rightarrow> ac_cmdbuf \<times> ac_tracked_regs
    \<Rightarrow> (ac_cmdbuf \<times> ac_tracked_regs) option" where
  "ac_cmdbuf_opt_set_ctx_reg4 env cfg reg reg_enum v1 v2 v3 v4 =
    opt_set_ctx_run env cfg reg reg_enum [v1, v2, v3, v4]"

definition ac_cmdbuf_opt_set_ctx_regn ::
  "c_env \<Rightarrow> titan_cfg \<Rightarrow> nat \<Rightarrow> dword list \<Rightarrow> ac_cmdbuf \<times> dword list \<Rightarrow> (ac_cmdbuf \<times> dword list) option" where
  "ac_cmdbuf_opt_set_ctx_regn env cfg reg vals st =
    (case st of (cs, saved_values) \<Rightarrow>
       if take (length vals) saved_values = vals then Some (cs, saved_values)
       else Option.bind (ac_cmdbuf_set_ctx_reg_seq env cfg reg (length vals) cs)
              (\<lambda>cs1. Option.bind (ac_cmdbuf_emit_array vals cs1)
                (\<lambda>cs2. Some (cs2\<lparr> context_roll := True \<rparr>, vals @ drop (length vals) saved_values))))"

section \<open>Buffered registers\<close>

text \<open>
  GFX11: registers are buffered in an array of 50 pairs and written as one packed packet. The buffer is the list of
  (dword offset, value) pushed so far.
\<close>

definition ac_gfx11_push_reg ::
  "nat \<Rightarrow> dword \<Rightarrow> nat \<Rightarrow> nat \<Rightarrow> nat \<Rightarrow> (nat \<times> dword) list \<Rightarrow> (nat \<times> dword) list option" where
  "ac_gfx11_push_reg reg val base limit cap regs =
    (if base \<le> reg \<and> reg < limit \<and> length regs div 2 < cap
     then Some (regs @ [(((reg - base) div 4) mod 2 ^ 16, val)]) else None)"

definition ac_gfx11_set_ctx_reg :: "nat \<Rightarrow> dword \<Rightarrow> (nat \<times> dword) list \<Rightarrow> (nat \<times> dword) list option" where
  "ac_gfx11_set_ctx_reg reg val = ac_gfx11_push_reg reg val SI_CONTEXT_REG_OFFSET SI_CONTEXT_REG_END 50"

definition pad_ctx_regs :: "(nat \<times> dword) list \<Rightarrow> (nat \<times> dword) list option" where
  "pad_ctx_regs regs =
    (if length regs mod 2 = 1
     then ac_gfx11_set_ctx_reg (SI_CONTEXT_REG_OFFSET + fst (hd regs) * 4) (snd (hd regs)) regs else Some regs)"

definition ac_gfx11_end_packed_ctx_regs :: "(nat \<times> dword) list \<Rightarrow> ac_cmdbuf \<Rightarrow> ac_cmdbuf option" where
  "ac_gfx11_end_packed_ctx_regs regs cs =
    (if length regs \<ge> 2 then
       Option.bind (pad_ctx_regs regs)
         (\<lambda>regs1. ac_cmdbuf_emit_array
            ([PKT3 PKT3_SET_CONTEXT_REG_PAIRS_PACKED (word_of_nat (length regs1 div 2 * 3)) False
                OR PKT3_RESET_FILTER_CAM_S True, word_of_nat (length regs1)] @ pack_body regs1) cs)
     else if length regs = 1 then
       ac_cmdbuf_emit_array [PKT3 PKT3_SET_CONTEXT_REG 1 False, word_of_nat (fst (hd regs)), snd (hd regs)] cs
     else Some cs)"

definition ac_gfx11_opt_push_run ::
  "nat \<Rightarrow> nat \<Rightarrow> dword list \<Rightarrow> nat \<Rightarrow> nat \<Rightarrow> nat \<Rightarrow> (nat \<times> dword) list \<times> ac_tracked_regs
    \<Rightarrow> ((nat \<times> dword) list \<times> ac_tracked_regs) option" where
  "ac_gfx11_opt_push_run reg reg_enum vs base limit cap st =
    (case st of (regs, t) \<Rightarrow>
       if tracked_equal t reg_enum vs then Some (regs, t)
       else map_option (\<lambda>regs1. (regs1, save_tracked reg_enum vs t))
              (fold (\<lambda>k r. Option.bind r (ac_gfx11_push_reg (reg + 4 * k) (vs ! k) base limit cap))
                [0..<length vs] (Some regs)))"

definition ac_gfx11_opt_push_reg ::
  "nat \<Rightarrow> nat \<Rightarrow> dword \<Rightarrow> nat \<Rightarrow> nat \<Rightarrow> nat \<Rightarrow> (nat \<times> dword) list \<times> ac_tracked_regs
    \<Rightarrow> ((nat \<times> dword) list \<times> ac_tracked_regs) option" where
  "ac_gfx11_opt_push_reg reg reg_enum v = ac_gfx11_opt_push_run reg reg_enum [v]"

definition ac_gfx11_opt_push_reg2 ::
  "nat \<Rightarrow> nat \<Rightarrow> dword \<Rightarrow> dword \<Rightarrow> nat \<Rightarrow> nat \<Rightarrow> nat \<Rightarrow> (nat \<times> dword) list \<times> ac_tracked_regs
    \<Rightarrow> ((nat \<times> dword) list \<times> ac_tracked_regs) option" where
  "ac_gfx11_opt_push_reg2 reg reg_enum v1 v2 = ac_gfx11_opt_push_run reg reg_enum [v1, v2]"

definition ac_gfx11_opt_push_reg4 ::
  "nat \<Rightarrow> nat \<Rightarrow> dword \<Rightarrow> dword \<Rightarrow> dword \<Rightarrow> dword \<Rightarrow> nat \<Rightarrow> nat \<Rightarrow> nat \<Rightarrow> (nat \<times> dword) list \<times> ac_tracked_regs
    \<Rightarrow> ((nat \<times> dword) list \<times> ac_tracked_regs) option" where
  "ac_gfx11_opt_push_reg4 reg reg_enum v1 v2 v3 v4 = ac_gfx11_opt_push_run reg reg_enum [v1, v2, v3, v4]"

text \<open>
  GFX12: the header's slot is reserved first and written when the sequence ends, with the number of
  dwords that followed; without registers the slot is given back.
\<close>

definition ac_gfx12_begin_regs :: "ac_cmdbuf \<Rightarrow> nat \<times> ac_cmdbuf" where
  "ac_gfx12_begin_regs cs = (length (buf cs), cs\<lparr> buf := buf cs @ [0] \<rparr>)"

definition ac_gfx12_set_reg :: "nat \<Rightarrow> dword \<Rightarrow> nat \<Rightarrow> ac_cmdbuf \<Rightarrow> ac_cmdbuf option" where
  "ac_gfx12_set_reg reg val base_offset cs =
    Option.bind (ac_cmdbuf_emit (word_of_nat ((reg - base_offset) div 4)) cs) (ac_cmdbuf_emit val)"

definition ac_gfx12_end_regs :: "nat \<Rightarrow> nat \<Rightarrow> ac_cmdbuf \<Rightarrow> ac_cmdbuf" where
  "ac_gfx12_end_regs header packet cs =
    (if header + 1 = length (buf cs) then cs\<lparr> buf := butlast (buf cs) \<rparr>
     else cs\<lparr> buf := (buf cs)[header := PKT3 packet (word_of_nat (length (buf cs) - header - 2)) False
                              OR PKT3_RESET_FILTER_CAM_S True] \<rparr>)"

fun ac_gfx12_set_regs :: "nat \<Rightarrow> dword list \<Rightarrow> nat \<Rightarrow> ac_cmdbuf \<Rightarrow> ac_cmdbuf option" where
  "ac_gfx12_set_regs reg [] base_offset cs = Some cs"
| "ac_gfx12_set_regs reg (v # vs) base_offset cs =
    Option.bind (ac_gfx12_set_reg reg v base_offset cs) (ac_gfx12_set_regs (reg + 4) vs base_offset)"

definition ac_gfx12_opt_set_run ::
  "nat \<Rightarrow> nat \<Rightarrow> dword list \<Rightarrow> nat \<Rightarrow> ac_cmdbuf \<times> ac_tracked_regs \<Rightarrow> (ac_cmdbuf \<times> ac_tracked_regs) option" where
  "ac_gfx12_opt_set_run reg reg_enum vs base_offset st =
    (case st of (cs, t) \<Rightarrow>
       if tracked_equal t reg_enum vs then Some (cs, t)
       else Option.bind (ac_gfx12_set_regs reg vs base_offset cs) (\<lambda>cs1. Some (cs1, save_tracked reg_enum vs t)))"

definition ac_gfx12_opt_set_reg ::
  "nat \<Rightarrow> nat \<Rightarrow> dword \<Rightarrow> nat \<Rightarrow> ac_cmdbuf \<times> ac_tracked_regs \<Rightarrow> (ac_cmdbuf \<times> ac_tracked_regs) option" where
  "ac_gfx12_opt_set_reg reg reg_enum v base_offset = ac_gfx12_opt_set_run reg reg_enum [v] base_offset"

definition ac_gfx12_opt_set_reg2 ::
  "nat \<Rightarrow> nat \<Rightarrow> dword \<Rightarrow> dword \<Rightarrow> nat \<Rightarrow> ac_cmdbuf \<times> ac_tracked_regs \<Rightarrow> (ac_cmdbuf \<times> ac_tracked_regs) option" where
  "ac_gfx12_opt_set_reg2 reg reg_enum v1 v2 base_offset = ac_gfx12_opt_set_run reg reg_enum [v1, v2] base_offset"

definition ac_gfx12_opt_set_reg4 ::
  "nat \<Rightarrow> nat \<Rightarrow> dword \<Rightarrow> dword \<Rightarrow> dword \<Rightarrow> dword \<Rightarrow> nat \<Rightarrow> ac_cmdbuf \<times> ac_tracked_regs
    \<Rightarrow> (ac_cmdbuf \<times> ac_tracked_regs) option" where
  "ac_gfx12_opt_set_reg4 reg reg_enum v1 v2 v3 v4 base_offset =
    ac_gfx12_opt_set_run reg reg_enum [v1, v2, v3, v4] base_offset"

definition ac_gfx12_push_reg :: "nat \<Rightarrow> dword \<Rightarrow> nat \<Rightarrow> (nat \<times> dword) list \<Rightarrow> (nat \<times> dword) list option" where
  "ac_gfx12_push_reg reg val base_offset regs =
    (if length regs < 256 then Some (regs @ [((reg - base_offset) div 4, val)]) else None)"

definition ac_gfx12_push_32bit_pointer ::
  "nat \<Rightarrow> nat \<Rightarrow> nat \<Rightarrow> (nat \<times> dword) list \<Rightarrow> (nat \<times> dword) list option" where
  "ac_gfx12_push_32bit_pointer address32_hi sh_offset va regs =
    (if va = 0 \<or> va div 2 ^ 32 = address32_hi
     then ac_gfx12_push_reg sh_offset (lo32 va) SI_SH_REG_OFFSET regs else None)"

definition ac_gfx12_push_64bit_pointer :: "nat \<Rightarrow> nat \<Rightarrow> (nat \<times> dword) list \<Rightarrow> (nat \<times> dword) list option" where
  "ac_gfx12_push_64bit_pointer sh_offset va regs =
    Option.bind (ac_gfx12_push_reg sh_offset (lo32 va) SI_SH_REG_OFFSET regs)
      (ac_gfx12_push_reg (sh_offset + 4) (hi32 va) SI_SH_REG_OFFSET)"

end
