(* ===== verification/CmdBufProps.thy ===== *)
theory CmdBufProps
  imports CmdBuf
begin

text \<open>
  What the macros of \<open>CmdBuf\<close> do to the registers of the GPU. A command stream is read by the parser
  of \<open>IbParser\<close> and its register writes are applied to a register file; the invariant \<open>tracks\<close> says
  that a saved register has the value the tracker holds.
\<close>

section \<open>The registers a stream leaves\<close>

definition reg_effect :: "ib_event \<Rightarrow> (nat \<Rightarrow> dword) \<Rightarrow> nat \<Rightarrow> dword" where
  "reg_effect e hw = (case e of RegWrite r v \<Rightarrow> hw(r := v) | _ \<Rightarrow> hw)"

definition run_regs :: "ib_event list \<Rightarrow> (nat \<Rightarrow> dword) \<Rightarrow> nat \<Rightarrow> dword" where
  "run_regs es hw = fold reg_effect es hw"

lemma run_regs_simps [simp]:
  "run_regs [] hw = hw" "run_regs (xs @ ys) hw = run_regs ys (run_regs xs hw)"
  "run_regs (RegWrite r v # es) hw = run_regs es (hw(r := v))"
  by (simp_all add: run_regs_def reg_effect_def)

fun write_run :: "(nat \<Rightarrow> nat) \<Rightarrow> nat \<Rightarrow> dword list \<Rightarrow> (nat \<Rightarrow> dword) \<Rightarrow> nat \<Rightarrow> dword" where
  "write_run tgt e [] hw = hw"
| "write_run tgt e (v # vs) hw = write_run tgt (Suc e) vs (hw(tgt e := v))"

lemma seq_events_run:
  "(\<And>k. k < length vs \<Longrightarrow> tgt (e + k) = start + 4 * k) \<Longrightarrow> run_regs (seq_events start vs) hw = write_run tgt e vs hw"
proof (induction vs arbitrary: e start hw)
  case (Cons v vs)
  have "tgt (Suc e + k) = (start + 4) + 4 * k" if "k < length vs" for k
    using Cons.prems[of "Suc k"] that by simp
  moreover have "tgt e = start" using Cons.prems[of 0] by simp
  ultimately show ?case using Cons.IH by simp
qed simp

lemma write_run_other: "(\<And>k. k < length vs \<Longrightarrow> tgt (e + k) \<noteq> r) \<Longrightarrow> write_run tgt e vs hw r = hw r"
proof (induction vs arbitrary: e hw)
  case (Cons v vs)
  have "tgt (Suc e + k) \<noteq> r" if "k < length vs" for k using Cons.prems[of "Suc k"] that by simp
  moreover have "tgt e \<noteq> r" using Cons.prems[of 0] by simp
  ultimately show ?case using Cons.IH by simp
qed simp

lemma write_run_at:
  assumes "inj_on tgt {e..<e + length vs}" "k < length vs"
  shows "write_run tgt e vs hw (tgt (e + k)) = vs ! k"
  using assms
proof (induction vs arbitrary: e k hw)
  case (Cons v vs)
  show ?case
  proof (cases k)
    case 0
    have "tgt (Suc e + j) \<noteq> tgt e" if "j < length vs" for j
      using inj_onD[OF Cons.prems(1), of "Suc e + j" e] that by auto
    then show ?thesis using 0 write_run_other[of vs tgt "Suc e" "tgt e"] by simp
  next
    case (Suc j)
    have "inj_on tgt {Suc e..<Suc e + length vs}" by (rule inj_on_subset[OF Cons.prems(1)]) auto
    then show ?thesis using Cons.IH[of "Suc e" j] Cons.prems(2) Suc by simp
  qed
qed simp

definition tracks :: "(nat \<Rightarrow> nat) \<Rightarrow> ac_tracked_regs \<Rightarrow> (nat \<Rightarrow> dword) \<Rightarrow> bool" where
  "tracks tgt t hw \<longleftrightarrow> (\<forall>e \<in> reg_saved_mask t. hw (tgt e) = reg_value t e)"

lemma skipped_run:
  assumes "tracked_equal t e vs" "tracks tgt t hw"
  shows "write_run tgt e vs hw = hw"
proof -
  have "hw (tgt (e + k)) = vs ! k" if "k < length vs" for k
    using assms that by (auto simp: tracks_def tracked_equal_def list_all_iff)
  then show ?thesis
  proof (induction vs arbitrary: e)
    case (Cons v vs)
    have "hw (tgt (Suc e + k)) = vs ! k" if "k < length vs" for k using Cons.prems[of "Suc k"] that by simp
    moreover have "hw(tgt e := v) = hw" using Cons.prems[of 0] by auto
    ultimately show ?case using Cons.IH by simp
  qed simp
qed

lemma saved_run:
  assumes "tracks tgt t hw" "inj_on tgt E" "reg_saved_mask t \<subseteq> E" "{e..<e + length vs} \<subseteq> E"
  shows "tracks tgt (save_tracked e vs t) (write_run tgt e vs hw)" "reg_saved_mask (save_tracked e vs t) \<subseteq> E"
proof -
  show "reg_saved_mask (save_tracked e vs t) \<subseteq> E" using assms(3,4) by (auto simp: save_tracked_def)
  show "tracks tgt (save_tracked e vs t) (write_run tgt e vs hw)"
    unfolding tracks_def
  proof
    fix x assume x: "x \<in> reg_saved_mask (save_tracked e vs t)"
    show "write_run tgt e vs hw (tgt x) = reg_value (save_tracked e vs t) x"
    proof (cases "e \<le> x \<and> x < e + length vs")
      case True
      then obtain k where "x = e + k" "k < length vs" by (metis le_Suc_ex nat_add_left_cancel_less)
      then show ?thesis using write_run_at[OF inj_on_subset[OF assms(2,4)], of k] by (simp add: save_tracked_def)
    next
      case False
      then have "x \<in> reg_saved_mask t" using x by (auto simp: save_tracked_def)
      moreover have "tgt (e + k) \<noteq> tgt x" if "k < length vs" for k
      proof
        assume eq: "tgt (e + k) = tgt x"
        have "e + k \<in> E" "x \<in> E" using that assms(3,4) \<open>x \<in> reg_saved_mask t\<close> by auto
        from inj_onD[OF assms(2) eq this] show False using False that by simp
      qed
      ultimately show ?thesis
        using write_run_other[of vs tgt e "tgt x"] assms(1) False by (auto simp: tracks_def save_tracked_def)
    qed
  qed
qed

section \<open>Sequences of tracked writes\<close>

text \<open>
  A run is a start register, the enumerator of its first register and the values. \<open>reg_of\<close> says which
  register an enumerator stands for; \<open>run_always\<close> is the reference that writes every run.
\<close>

type_synonym reg_run = "nat \<times> nat \<times> dword list"

fun run_opt :: "c_env \<Rightarrow> titan_cfg \<Rightarrow> reg_run list \<Rightarrow> ac_cmdbuf \<times> ac_tracked_regs \<Rightarrow> (ac_cmdbuf \<times> ac_tracked_regs) option" where
  "run_opt env cfg [] st = Some st"
| "run_opt env cfg ((reg, e, vs) # ops) st = Option.bind (opt_set_ctx_run env cfg reg e vs st) (run_opt env cfg ops)"

fun run_always :: "c_env \<Rightarrow> titan_cfg \<Rightarrow> reg_run list \<Rightarrow> ac_cmdbuf \<Rightarrow> ac_cmdbuf option" where
  "run_always env cfg [] cs = Some cs"
| "run_always env cfg ((reg, e, vs) # ops) cs =
     Option.bind (ac_cmdbuf_set_ctx_reg_seq env cfg reg (length vs) cs)
       (\<lambda>cs1. Option.bind (ac_cmdbuf_emit_array vs cs1) (run_always env cfg ops))"

definition ctx_dw :: "nat \<Rightarrow> nat" where
  "ctx_dw reg = (reg - SI_CONTEXT_REG_OFFSET) div 4"

definition ctx_target :: "c_env \<Rightarrow> titan_cfg \<Rightarrow> nat \<Rightarrow> nat" where
  "ctx_target env cfg reg =
     SI_CONTEXT_REG_OFFSET + 4 * ac_titan_remap_dw_quiet env cfg SI_CONTEXT_REG_OFFSET (ctx_dw reg)"

definition enum_target :: "c_env \<Rightarrow> titan_cfg \<Rightarrow> (nat \<Rightarrow> nat) \<Rightarrow> nat \<Rightarrow> nat" where
  "enum_target env cfg reg_of e = ctx_target env cfg (reg_of e)"

definition run_ok :: "c_env \<Rightarrow> titan_cfg \<Rightarrow> (nat \<Rightarrow> nat) \<Rightarrow> nat set \<Rightarrow> reg_run \<Rightarrow> bool" where
  "run_ok env cfg reg_of E run \<longleftrightarrow> (case run of (reg, e, vs) \<Rightarrow>
     length vs < 0x4000 \<and> SI_CONTEXT_REG_OFFSET \<le> reg \<and> reg < SI_CONTEXT_REG_END
     \<and> {e..<e + length vs} \<subseteq> E \<and> (\<forall>k<length vs. reg_of (e + k) = reg + 4 * k)
     \<and> ac_titan_remap_dw_quiet env cfg SI_CONTEXT_REG_OFFSET (ctx_dw reg) < 0x10000
     \<and> \<not> ac_titan_run_split env cfg SI_CONTEXT_REG_OFFSET (ctx_dw reg) (length vs))"

lemma emit_ctx_run:
  assumes "reserved_dw cs = 0" "SI_CONTEXT_REG_OFFSET \<le> reg" "reg < SI_CONTEXT_REG_END"
  shows "Option.bind (ac_cmdbuf_set_ctx_reg_seq env cfg reg (length vs) cs)
      (\<lambda>cs1. Option.bind (ac_cmdbuf_emit_array vs cs1) f) =
    f (cs\<lparr> buf := buf cs @ enc_seq PKT3_SET_CONTEXT_REG False
        (word_of_nat (ac_titan_remap_dw_quiet env cfg SI_CONTEXT_REG_OFFSET (ctx_dw reg))) vs \<rparr>)"
  using assms
  by (simp add: ac_cmdbuf_set_ctx_reg_seq_def ac_cmdbuf_set_reg_seq_def ac_cmdbuf_emit_def ac_cmdbuf_emit_array_def
      enc_seq_def set_header_def remap_dw_quiet ctx_dw_def)

lemma ctx_run_events:
  assumes "run_ok env cfg reg_of E (reg, e, vs)"
  shows "\<exists>es. closed gfx gen (enc_seq PKT3_SET_CONTEXT_REG False
        (word_of_nat (ac_titan_remap_dw_quiet env cfg SI_CONTEXT_REG_OFFSET (ctx_dw reg))) vs) es
    \<and> (\<forall>hw. run_regs es hw = write_run (enum_target env cfg reg_of) e vs hw)"
proof -
  let ?d = "ac_titan_remap_dw_quiet env cfg SI_CONTEXT_REG_OFFSET (ctx_dw reg)"
  have len: "length vs < 0x4000" and d: "?d < 0x10000" and reg: "SI_CONTEXT_REG_OFFSET \<le> reg"
    using assms by (simp_all add: run_ok_def)
  have kind: "set_packet_kind PKT3_SET_CONTEXT_REG = Some (Sequential, SI_CONTEXT_REG_OFFSET)"
    by (simp add: set_packet_kind_def)
  have tgt: "(enum_target env cfg reg_of) (e + k) = SI_CONTEXT_REG_OFFSET + ?d * 4 + 4 * k" if "k < length vs" for k
  proof -
    have "ctx_dw (reg + 4 * k) = ctx_dw reg + k" using reg by (simp add: ctx_dw_def)
    moreover have "reg_of (e + k) = reg + 4 * k" using assms that by (simp add: run_ok_def)
    moreover have "ac_titan_remap_dw_quiet env cfg SI_CONTEXT_REG_OFFSET (ctx_dw reg + k) = ?d + k"
      using assms that by (auto simp: run_ok_def run_split_iff)
    ultimately show ?thesis by (simp add: enum_target_def ctx_target_def)
  qed
  show ?thesis
    by (rule exI[of _ "seq_events (SI_CONTEXT_REG_OFFSET + ?d * 4) vs"])
      (use closed_enc_seq[OF kind len, of gfx gen False "word_of_nat ?d"] d
          seq_events_run[of vs "enum_target env cfg reg_of" e "SI_CONTEXT_REG_OFFSET + ?d * 4", OF tgt] in
        \<open>simp add: add.commute\<close>)
qed

lemma tracked_runs:
  assumes "list_all (run_ok env cfg reg_of E) ops" "inj_on (enum_target env cfg reg_of) E"
    and "reg_saved_mask t \<subseteq> E" "reserved_dw cs = 0" "reserved_dw ds = 0"
    and "closed gfx gen (buf cs) es" "closed gfx gen (buf ds) fs" "run_regs es hw = run_regs fs hw"
    and "tracks (enum_target env cfg reg_of) t (run_regs es hw)"
  shows "\<exists>cs1 t1 ds1 es1 fs1. run_opt env cfg ops (cs, t) = Some (cs1, t1) \<and> run_always env cfg ops ds = Some ds1
    \<and> closed gfx gen (buf cs1) es1 \<and> closed gfx gen (buf ds1) fs1 \<and> run_regs es1 hw = run_regs fs1 hw
    \<and> tracks (enum_target env cfg reg_of) t1 (run_regs es1 hw)"
  using assms
proof (induction ops arbitrary: cs t ds es fs)
  case Nil
  then show ?case by (simp, blast)
next
  case (Cons op ops)
  let ?tgt = "enum_target env cfg reg_of"
  obtain reg e vs where op: "op = (reg, e, vs)" by (cases op)
  define pkt where "pkt = enc_seq PKT3_SET_CONTEXT_REG False
        (word_of_nat (ac_titan_remap_dw_quiet env cfg SI_CONTEXT_REG_OFFSET (ctx_dw reg))) vs"
  have ok: "run_ok env cfg reg_of E (reg, e, vs)" using Cons.prems(1) op by simp
  then have reg: "SI_CONTEXT_REG_OFFSET \<le> reg" "reg < SI_CONTEXT_REG_END" "{e..<e + length vs} \<subseteq> E"
    by (simp_all add: run_ok_def)
  obtain ps where ps: "closed gfx gen pkt ps" "\<And>hw. run_regs ps hw = write_run ?tgt e vs hw"
    using ctx_run_events[OF ok] unfolding pkt_def by blast
  define ds1 where "ds1 = ds\<lparr> buf := buf ds @ pkt \<rparr>"
  have ds1: "run_always env cfg (op # ops) ds = run_always env cfg ops ds1" "reserved_dw ds1 = 0"
      "closed gfx gen (buf ds1) (fs @ ps)"
    using emit_ctx_run[OF Cons.prems(5) reg(1,2)] closed_append[OF Cons.prems(7) ps(1)] Cons.prems(5)
    by (simp_all add: op ds1_def pkt_def)
  show ?case
  proof (cases "tracked_equal t e vs")
    case True
    have "run_regs (fs @ ps) hw = run_regs es hw"
      using skipped_run[OF True Cons.prems(9)] Cons.prems(8) ps(2) by simp
    then show ?thesis
      using Cons.IH[OF _ Cons.prems(2,3,4) ds1(2) Cons.prems(6) ds1(3) _ Cons.prems(9)] Cons.prems(1) True
      unfolding ds1(1) by (simp add: op opt_set_ctx_run_def)
  next
    case False
    define cs1 where "cs1 = cs\<lparr> buf := buf cs @ pkt, context_roll := True \<rparr>"
    have cs1: "run_opt env cfg (op # ops) (cs, t) = run_opt env cfg ops (cs1, save_tracked e vs t)"
        "reserved_dw cs1 = 0" "closed gfx gen (buf cs1) (es @ ps)"
      using emit_ctx_run[OF Cons.prems(4) reg(1,2)] closed_append[OF Cons.prems(6) ps(1)] Cons.prems(4) False
      by (simp_all add: op cs1_def pkt_def opt_set_ctx_run_def)
    note sv = saved_run[OF Cons.prems(9,2,3) reg(3)]
    show ?thesis
      unfolding ds1(1) cs1(1)
      using Cons.IH[OF _ Cons.prems(2) sv(2) cs1(2) ds1(2) cs1(3) ds1(3)] Cons.prems(1,8) sv(1) ps(2) by simp
  qed
qed

section \<open>The buffered packets\<close>

text \<open>GFX12: what a sequence of writes leaves in the buffer after the reserved header.\<close>

fun pairs_of :: "nat \<Rightarrow> nat \<Rightarrow> dword list \<Rightarrow> (nat \<times> dword) list" where
  "pairs_of base reg [] = []"
| "pairs_of base reg (v # vs) = ((reg - base) div 4, v) # pairs_of base (reg + 4) vs"

lemma length_pairs_of [simp]: "length (pairs_of base reg vs) = length vs"
  by (induction vs arbitrary: reg) auto

lemma gfx12_set_regs_emit:
  "reserved_dw cs = 0 \<Longrightarrow> ac_gfx12_set_regs reg vs base cs = Some (cs\<lparr> buf := buf cs @ pair_body (pairs_of base reg vs) \<rparr>)"
  by (induction vs arbitrary: reg cs) (simp_all add: ac_gfx12_set_reg_def ac_cmdbuf_emit_def)

lemma gfx12_end_regs_eq:
  assumes "buf cs = pre @ h # pair_body ps" "length pre = header"
  shows "buf (ac_gfx12_end_regs header op cs) = pre @ (if ps = [] then [] else enc_pairs op True ps)"
  using assms by (auto simp: ac_gfx12_end_regs_def enc_pairs_def set_header_def butlast_append)

lemma pairs_of_range:
  "base \<le> reg \<Longrightarrow> reg + 4 * length vs \<le> base + 0x40000 \<Longrightarrow> \<forall>(r, v) \<in> set (pairs_of base reg vs). r < 0x10000"
proof (induction vs arbitrary: reg)
  case (Cons v vs)
  have "\<forall>(r, v) \<in> set (pairs_of base (reg + 4) vs). r < 0x10000"
    using Cons.prems by (intro Cons.IH) auto
  moreover have "(reg - base) div 4 < 0x10000" using Cons.prems by simp
  ultimately show ?case by simp
qed simp

lemma pairs_of_run:
  assumes "base mod 4 = 0" "reg mod 4 = 0" "base \<le> reg" "\<And>k. k < length vs \<Longrightarrow> reg_of (e + k) = reg + 4 * k"
  shows "run_regs (reg_events base (pairs_of base reg vs)) hw = write_run reg_of e vs hw"
  using assms(2-4)
proof (induction vs arbitrary: reg e hw)
  case (Cons v vs)
  have "reg_of (Suc e + k) = (reg + 4) + 4 * k" if "k < length vs" for k using Cons.prems(3)[of "Suc k"] that by simp
  then have "run_regs (reg_events base (pairs_of base (reg + 4) vs)) h = write_run reg_of (Suc e) vs h" for h
    using Cons.prems by (intro Cons.IH) presburger+
  moreover have "base + 4 * ((reg - base) div 4) = reg"
    using Cons.prems(1,2) assms(1) by presburger
  moreover have "reg_of e = reg" using Cons.prems(3)[of 0] by simp
  ultimately show ?case by simp
qed simp

fun gfx12_run :: "nat \<Rightarrow> reg_run list \<Rightarrow> ac_cmdbuf \<times> ac_tracked_regs \<Rightarrow> (ac_cmdbuf \<times> ac_tracked_regs) option" where
  "gfx12_run base [] st = Some st"
| "gfx12_run base ((reg, e, vs) # ops) st = Option.bind (ac_gfx12_opt_set_run reg e vs base st) (gfx12_run base ops)"

fun always_run :: "(nat \<Rightarrow> nat) \<Rightarrow> reg_run list \<Rightarrow> (nat \<Rightarrow> dword) \<Rightarrow> nat \<Rightarrow> dword" where
  "always_run reg_of [] hw = hw"
| "always_run reg_of ((reg, e, vs) # ops) hw = always_run reg_of ops (write_run reg_of e vs hw)"

definition gfx12_ok :: "nat \<Rightarrow> (nat \<Rightarrow> nat) \<Rightarrow> nat set \<Rightarrow> reg_run \<Rightarrow> bool" where
  "gfx12_ok base reg_of E run \<longleftrightarrow> (case run of (reg, e, vs) \<Rightarrow>
     base \<le> reg \<and> reg mod 4 = 0 \<and> reg + 4 * length vs \<le> base + 0x40000
     \<and> {e..<e + length vs} \<subseteq> E \<and> (\<forall>k<length vs. reg_of (e + k) = reg + 4 * k))"

lemma gfx12_runs:
  assumes "list_all (gfx12_ok base reg_of E) ops" "base mod 4 = 0" "inj_on reg_of E" "reg_saved_mask t \<subseteq> E"
    and "reserved_dw cs = 0" "tracks reg_of t (run_regs (reg_events base ps) hw)"
    and "buf cs = pre @ pair_body ps" "\<forall>(r, v) \<in> set ps. r < 0x10000"
  shows "\<exists>cs1 t1 qs. gfx12_run base ops (cs, t) = Some (cs1, t1) \<and> buf cs1 = pre @ pair_body qs
    \<and> (\<forall>(r, v) \<in> set qs. r < 0x10000) \<and> length qs \<le> length ps + sum_list (map (\<lambda>(reg, e, vs). length vs) ops)
    \<and> run_regs (reg_events base qs) hw = always_run reg_of ops (run_regs (reg_events base ps) hw)
    \<and> tracks reg_of t1 (run_regs (reg_events base qs) hw)"
  using assms(1,4-8)
proof (induction ops arbitrary: cs t ps)
  case Nil
  then show ?case by auto
next
  case (Cons op ops)
  obtain reg e vs where op: "op = (reg, e, vs)" by (cases op)
  have ok: "base \<le> reg" "reg mod 4 = 0" "reg + 4 * length vs \<le> base + 0x40000" "{e..<e + length vs} \<subseteq> E"
      "\<And>k. k < length vs \<Longrightarrow> reg_of (e + k) = reg + 4 * k"
    using Cons.prems(1) by (simp_all add: op gfx12_ok_def)
  have run: "run_regs (reg_events base (pairs_of base reg vs)) h = write_run reg_of e vs h" for h
    using assms(2) ok(1,2,5) by (intro pairs_of_run) auto
  show ?case
  proof (cases "tracked_equal t e vs")
    case True
    have "write_run reg_of e vs (run_regs (reg_events base ps) hw) = run_regs (reg_events base ps) hw"
      by (rule skipped_run[OF True Cons.prems(4)])
    moreover obtain cs1 t1 qs where "gfx12_run base ops (cs, t) = Some (cs1, t1)" "buf cs1 = pre @ pair_body qs"
        "\<forall>(r, v) \<in> set qs. r < 0x10000" "length qs \<le> length ps + sum_list (map (\<lambda>(reg, e, vs). length vs) ops)"
        "run_regs (reg_events base qs) hw = always_run reg_of ops (run_regs (reg_events base ps) hw)"
        "tracks reg_of t1 (run_regs (reg_events base qs) hw)"
      using Cons.IH[OF _ Cons.prems(2-6)] Cons.prems(1) by auto
    ultimately show ?thesis using True
      by (intro exI[of _ cs1] exI[of _ t1] exI[of _ qs]) (simp add: op ac_gfx12_opt_set_run_def)
  next
    case False
    define ps1 where "ps1 = ps @ pairs_of base reg vs"
    define cs1 where "cs1 = cs\<lparr> buf := buf cs @ pair_body (pairs_of base reg vs) \<rparr>"
    have step: "gfx12_run base (op # ops) (cs, t) = gfx12_run base ops (cs1, save_tracked e vs t)"
      using False gfx12_set_regs_emit[OF Cons.prems(3)] by (simp add: op ac_gfx12_opt_set_run_def cs1_def)
    note sv = saved_run[OF Cons.prems(4) assms(3) Cons.prems(2) ok(4)]
    have "buf cs1 = pre @ pair_body ps1" "reserved_dw cs1 = 0" "\<forall>(r, v) \<in> set ps1. r < 0x10000"
      using Cons.prems(3,5,6) pairs_of_range[OF ok(1,3)] by (auto simp: cs1_def ps1_def)
    then show ?thesis
      unfolding step using Cons.IH[of "save_tracked e vs t" cs1 ps1] Cons.prems(1) sv
      by (simp add: op ps1_def run add.assoc)
  qed
qed

text \<open>GFX11: the padding repeats the first register, which is harmless as long as no register was pushed twice.\<close>

lemma run_reg_events_other:
  "r \<notin> fst ` set es \<Longrightarrow> run_regs (reg_events base es) hw (base + 4 * r) = hw (base + 4 * r)"
  by (induction es arbitrary: hw) auto

lemma padding_harmless:
  assumes "distinct (map fst regs)" "regs \<noteq> []"
  shows "run_regs (reg_events base (regs @ [hd regs])) hw = run_regs (reg_events base regs) hw"
proof -
  obtain r v rs where regs: "regs = (r, v) # rs" using assms(2) by (cases regs) auto
  have "r \<notin> fst ` set rs" using assms(1) by (simp add: regs)
  from run_reg_events_other[OF this, of base "hw(base + 4 * r := v)"]
  have "(run_regs (reg_events base rs) (hw(base + 4 * r := v)))(base + 4 * r := v) =
      run_regs (reg_events base rs) (hw(base + 4 * r := v))" by auto
  then show ?thesis by (simp add: regs)
qed

definition ctx_regs_ok :: "(nat \<times> dword) list \<Rightarrow> bool" where
  "ctx_regs_ok regs \<longleftrightarrow> length regs \<le> 99 \<and> distinct (map fst regs) \<and> list_all (\<lambda>(r, v). r < 0x2000) regs"

lemma pad_ctx_regs_eq:
  assumes "ctx_regs_ok regs" "2 \<le> length regs"
  shows "pad_ctx_regs regs = Some (if odd (length regs) then regs @ [hd regs] else regs)"
proof -
  obtain r v rs where regs: "regs = (r, v) # rs" using assms(2) by (cases regs) auto
  then have "r < 0x2000" using assms(1) by (simp add: ctx_regs_ok_def)
  then show ?thesis using assms(1)
    by (auto simp: pad_ctx_regs_def ac_gfx11_set_ctx_reg_def ac_gfx11_push_reg_def regs ctx_regs_ok_def
        reg_space_defs odd_iff_mod_2_eq_one)
qed

lemma end_packed_events:
  assumes "ctx_regs_ok regs" "reserved_dw cs = 0"
  shows "\<exists>cs1 xs es. ac_gfx11_end_packed_ctx_regs regs cs = Some cs1 \<and> buf cs1 = buf cs @ xs \<and> closed gfx gen xs es
    \<and> (\<forall>hw. run_regs es hw = run_regs (reg_events SI_CONTEXT_REG_OFFSET regs) hw)"
proof -
  consider "regs = []" | r v where "regs = [(r, v)]" | "2 \<le> length regs"
    by (cases regs; cases "tl regs"; auto)
  then show ?thesis
  proof cases
    case 1
    then show ?thesis by (auto simp: ac_gfx11_end_packed_ctx_regs_def intro!: exI[of _ "[]"])
  next
    case 2
    have kind: "set_packet_kind PKT3_SET_CONTEXT_REG = Some (Sequential, SI_CONTEXT_REG_OFFSET)"
      by (simp add: set_packet_kind_def)
    have "r < 0x10000" using assms(1) 2 by (simp add: ctx_regs_ok_def)
    moreover have "[PKT3 PKT3_SET_CONTEXT_REG 1 False, word_of_nat r, v] =
        enc_seq PKT3_SET_CONTEXT_REG False (word_of_nat r) [v]"
      by (simp add: enc_seq_def set_header_def PKT3_RESET_FILTER_CAM_S_def)
    ultimately show ?thesis
      using 2 assms(2) closed_enc_seq[OF kind, of "[v]" gfx gen False "word_of_nat r"]
      by (auto simp: ac_gfx11_end_packed_ctx_regs_def ac_cmdbuf_emit_array_def add.commute mult.commute)
  next
    case 3
    define ps where "ps = (if odd (length regs) then regs @ [hd regs] else regs)"
    have kind: "set_packet_kind PKT3_SET_CONTEXT_REG_PAIRS_PACKED = Some (Packed, SI_CONTEXT_REG_OFFSET)"
      by (simp add: set_packet_kind_def pkt3_set_defs)
    have ne: "regs \<noteq> []" using 3 by auto
    have ev: "even (length ps)" by (simp add: ps_def)
    have len: "length (pack_body ps) = length ps div 2 * 3" "length (pack_body ps) < 0x4000"
      using assms(1) ev by (auto simp: length_pack_body ps_def ctx_regs_ok_def)
    have rng: "\<forall>(r, v) \<in> set ps. r < 0x10000"
    proof -
      have "set ps \<subseteq> set regs" using hd_in_set[OF ne] by (auto simp: ps_def)
      moreover have "r < 0x10000" if "(r, v) \<in> set regs" for r v
      proof -
        have "\<forall>(r, v) \<in> set regs. r < 0x2000" using assms(1) by (simp add: ctx_regs_ok_def list_all_iff)
        with that have "r < 0x2000" by blast
        then show ?thesis by simp
      qed
      ultimately show ?thesis by blast
    qed
    have "ac_gfx11_end_packed_ctx_regs regs cs =
        Some (cs\<lparr> buf := buf cs @ enc_packed PKT3_SET_CONTEXT_REG_PAIRS_PACKED True ps \<rparr>)"
      using 3 assms(2) pad_ctx_regs_eq[OF assms(1) 3] len(1)
      by (simp add: ac_gfx11_end_packed_ctx_regs_def ac_cmdbuf_emit_array_def enc_packed_def set_header_def ps_def[symmetric])
    moreover have "run_regs (reg_events SI_CONTEXT_REG_OFFSET ps) hw = run_regs (reg_events SI_CONTEXT_REG_OFFSET regs) hw" for hw
      using padding_harmless[of regs] assms(1) ne by (simp only: ps_def ctx_regs_ok_def split: if_split) simp
    ultimately show ?thesis using closed_enc_packed[OF kind ev len(2) rng]
      by (intro exI[of _ "cs\<lparr> buf := buf cs @ enc_packed PKT3_SET_CONTEXT_REG_PAIRS_PACKED True ps \<rparr>"]
          exI[of _ "enc_packed PKT3_SET_CONTEXT_REG_PAIRS_PACKED True ps"]
          exI[of _ "reg_events SI_CONTEXT_REG_OFFSET ps"]) simp
  qed
qed

section \<open>Properties\<close>

text \<open>C4: Dropping redundant writes is invisible. Start from a tracker that agrees with the registers
  of the GPU and apply any sequence of tracked context register writes: the command stream, which
  omits every run whose values are all saved, and the stream that writes every run leave the same
  registers, with the TITAN map active or not, and the tracker still agrees with them. Runs must not
  be split by the map and distinct tracked registers must have distinct targets.\<close>

theorem tracked_writes_are_equivalent:
  assumes "list_all (run_ok env cfg reg_of E) ops" "inj_on (enum_target env cfg reg_of) E"
    and "reg_saved_mask t \<subseteq> E" "reserved_dw cs = 0" "buf cs = []"
    and "tracks (enum_target env cfg reg_of) t hw"
  shows "\<exists>cs1 t1 cs2. run_opt env cfg ops (cs, t) = Some (cs1, t1) \<and> run_always env cfg ops cs = Some cs2
    \<and> run_regs (parse_gfx_compute_ib gfx gen (buf cs1)) hw = run_regs (parse_gfx_compute_ib gfx gen (buf cs2)) hw
    \<and> tracks (enum_target env cfg reg_of) t1 (run_regs (parse_gfx_compute_ib gfx gen (buf cs1)) hw)"
  using tracked_runs[OF assms(1-4,4), of gfx gen "[]" "[]" hw] assms(5,6) closed_parse by fastforce

definition sample_cs :: ac_cmdbuf where
  "sample_cs = \<lparr> buf = [], max_dw = 1024, reserved_dw = 0, context_roll = False \<rparr>"

definition sample_cfg :: titan_cfg where
  "sample_cfg = \<lparr> regmap_active = False, regmap_level = 0, regmap_suppress = False, regmap_hits = 0, mapovr = [] \<rparr>"

definition no_saved :: ac_tracked_regs where
  "no_saved = \<lparr> reg_saved_mask = {}, reg_value = (\<lambda>_. 0) \<rparr>"

lemma sample_runs_ok:
  "list_all (run_ok (\<lambda>_. None) sample_cfg (\<lambda>e. 0x28000 + 4 * e) {..<16}) [(0x28010, 4, [1, 2]), (0x28014, 5, [2])]"
  by (auto simp: run_ok_def sample_cfg_def reg_space_defs ctx_dw_def ac_titan_remap_dw_quiet_def ac_titan_run_split_def)

lemma sample_inj: "inj_on (enum_target (\<lambda>_. None) sample_cfg (\<lambda>e. 0x28000 + 4 * e)) {..<16}"
  by (rule inj_onI)
    (simp add: enum_target_def ctx_target_def ctx_dw_def sample_cfg_def reg_space_defs ac_titan_remap_dw_quiet_def)

theorem tracked_writes_are_equivalent_witness:
  "\<exists>cs1 t1 cs2. run_opt (\<lambda>_. None) sample_cfg [(0x28010, 4, [1, 2]), (0x28014, 5, [2])] (sample_cs, no_saved) = Some (cs1, t1)
    \<and> run_always (\<lambda>_. None) sample_cfg [(0x28010, 4, [1, 2]), (0x28014, 5, [2])] sample_cs = Some cs2
    \<and> run_regs (parse_gfx_compute_ib GFX10_3 (\<lambda>_ _. 0) (buf cs1)) (\<lambda>_. 9) =
        run_regs (parse_gfx_compute_ib GFX10_3 (\<lambda>_ _. 0) (buf cs2)) (\<lambda>_. 9)"
  using tracked_writes_are_equivalent[OF sample_runs_ok sample_inj, of no_saved sample_cs "\<lambda>_. 9" GFX10_3 "\<lambda>_ _. 0"]
  by (auto simp: sample_cs_def no_saved_def tracks_def)

text \<open>C20: GFX12 register sequences. Between \<open>ac_gfx12_begin_regs\<close> and \<open>ac_gfx12_end_regs\<close>, any sequence of
  tracked writes with at most 8192 registers, in a buffer without reserved dwords and with a tracker that
  agrees with the registers, appends to the stream one \<open>SET_CONTEXT_REG_PAIRS\<close> packet of
  the pairs \<open>qs\<close> (nothing at all when every write was dropped), and the registers it sets are those
  of the unconditional writes.\<close>

theorem gfx12_sequence_sets_registers:
  assumes "list_all (gfx12_ok SI_CONTEXT_REG_OFFSET reg_of E) ops" "inj_on reg_of E" "reg_saved_mask t \<subseteq> E"
    and "reserved_dw cs = 0" "tracks reg_of t hw" "sum_list (map (\<lambda>(reg, e, vs). length vs) ops) \<le> 0x2000"
    and "closed gfx gen (buf cs) es" "run_regs es hw0 = hw"
  shows "\<exists>cs1 t1 qs. gfx12_run SI_CONTEXT_REG_OFFSET ops (snd (ac_gfx12_begin_regs cs), t) = Some (cs1, t1)
    \<and> buf (ac_gfx12_end_regs (fst (ac_gfx12_begin_regs cs)) PKT3_SET_CONTEXT_REG_PAIRS cs1) =
        buf cs @ (if qs = [] then [] else enc_pairs PKT3_SET_CONTEXT_REG_PAIRS True qs)
    \<and> run_regs (parse_gfx_compute_ib gfx gen
         (buf (ac_gfx12_end_regs (fst (ac_gfx12_begin_regs cs)) PKT3_SET_CONTEXT_REG_PAIRS cs1))) hw0 =
       always_run reg_of ops hw
    \<and> tracks reg_of t1 (always_run reg_of ops hw)"
proof -
  have b4: "SI_CONTEXT_REG_OFFSET mod 4 = 0" by (simp add: reg_space_defs)
  obtain cs1 t1 qs where q: "gfx12_run SI_CONTEXT_REG_OFFSET ops (snd (ac_gfx12_begin_regs cs), t) = Some (cs1, t1)"
      "buf cs1 = buf cs @ [0] @ pair_body qs" "\<forall>(r, v) \<in> set qs. r < 0x10000"
      "length qs \<le> sum_list (map (\<lambda>(reg, e, vs). length vs) ops)"
      "run_regs (reg_events SI_CONTEXT_REG_OFFSET qs) hw = always_run reg_of ops hw"
      "tracks reg_of t1 (run_regs (reg_events SI_CONTEXT_REG_OFFSET qs) hw)"
    using gfx12_runs[OF assms(1) b4 assms(2,3), of "snd (ac_gfx12_begin_regs cs)" "[]" hw "buf cs @ [0]"] assms(4,5)
    by (auto simp: ac_gfx12_begin_regs_def)
  have kind: "set_packet_kind PKT3_SET_CONTEXT_REG_PAIRS = Some (Pairs, SI_CONTEXT_REG_OFFSET)"
    by (simp add: set_packet_kind_def pkt3_set_defs)
  define out where "out = (if qs = [] then [] else enc_pairs PKT3_SET_CONTEXT_REG_PAIRS True qs)"
  have out: "closed gfx gen out (reg_events SI_CONTEXT_REG_OFFSET qs)"
    using closed_enc_pairs[OF kind _ _ q(3), of gfx gen True] q(4) assms(6) by (auto simp: out_def)
  have "buf (ac_gfx12_end_regs (length (buf cs)) PKT3_SET_CONTEXT_REG_PAIRS cs1) = buf cs @ out"
    using gfx12_end_regs_eq[of cs1 "buf cs" 0 qs] q(2) by (simp add: out_def)
  then show ?thesis
    using q(1,5,6) closed_parse[OF closed_append[OF assms(7) out]] assms(8)
    by (intro exI[of _ cs1] exI[of _ t1] exI[of _ qs]) (simp add: ac_gfx12_begin_regs_def out_def)
qed

lemma sample_gfx12_ok:
  "list_all (gfx12_ok SI_CONTEXT_REG_OFFSET (\<lambda>e. 0x28000 + 4 * e) {..<16}) [(0x28010, 4, [3, 2]), (0x28014, 5, [2])]"
  by (auto simp: gfx12_ok_def reg_space_defs)

theorem gfx12_sequence_sets_registers_witness:
  "\<exists>cs1 t1. gfx12_run SI_CONTEXT_REG_OFFSET [(0x28010, 4, [3, 2]), (0x28014, 5, [2])]
      (snd (ac_gfx12_begin_regs sample_cs), no_saved) = Some (cs1, t1)
    \<and> run_regs (parse_gfx_compute_ib GFX12 (\<lambda>_ _. 0)
         (buf (ac_gfx12_end_regs 0 PKT3_SET_CONTEXT_REG_PAIRS cs1))) (\<lambda>_. 9) =
       always_run (\<lambda>e. 0x28000 + 4 * e) [(0x28010, 4, [3, 2]), (0x28014, 5, [2])] (\<lambda>_. 9)"
proof -
  have "inj_on (\<lambda>e. 0x28000 + 4 * e :: nat) {..<16}" by (rule inj_onI) simp
  from gfx12_sequence_sets_registers[OF sample_gfx12_ok this, of no_saved sample_cs "\<lambda>_. 9" GFX12 "\<lambda>_ _. 0" "[]" "\<lambda>_. 9"]
  show ?thesis by (auto simp: sample_cs_def no_saved_def tracks_def ac_gfx12_begin_regs_def)
qed

text \<open>GFX11 packed context registers. A batch of at most 99 distinct registers becomes a whole packet
  whose writes have the effect of the batch: padding an odd batch by repeating its first register
  changes nothing.\<close>

theorem gfx11_packed_sets_registers:
  assumes "ctx_regs_ok regs" "reserved_dw cs = 0" "closed gfx gen (buf cs) es"
  shows "\<exists>cs1. ac_gfx11_end_packed_ctx_regs regs cs = Some cs1
    \<and> run_regs (parse_gfx_compute_ib gfx gen (buf cs1)) hw =
        run_regs (reg_events SI_CONTEXT_REG_OFFSET regs) (run_regs es hw)"
proof -
  obtain cs1 xs fs where e: "ac_gfx11_end_packed_ctx_regs regs cs = Some cs1" "buf cs1 = buf cs @ xs"
      "closed gfx gen xs fs" "\<And>hw. run_regs fs hw = run_regs (reg_events SI_CONTEXT_REG_OFFSET regs) hw"
    using end_packed_events[OF assms(1,2), of gfx gen] by blast
  then show ?thesis using closed_parse[OF closed_append[OF assms(3) e(3)]] by simp
qed

theorem gfx11_packed_sets_registers_witness:
  "\<exists>cs1. ac_gfx11_end_packed_ctx_regs [(16, 5), (17, 6), (40, 7)] sample_cs = Some cs1
    \<and> run_regs (parse_gfx_compute_ib GFX11 (\<lambda>_ _. 0) (buf cs1)) (\<lambda>_. 9) =
        run_regs (reg_events SI_CONTEXT_REG_OFFSET [(16, 5), (17, 6), (40, 7)]) (\<lambda>_. 9)"
  using gfx11_packed_sets_registers[of "[(16, 5), (17, 6), (40, 7)]" sample_cs GFX11 "\<lambda>_ _. 0" "[]" "\<lambda>_. 9"]
  by (simp add: ctx_regs_ok_def sample_cs_def)

text \<open>
  A register pushed twice in an odd batch does not keep its last value: the padding writes the first
  value again.
\<close>

lemma gfx11_packed_repeats_stale_value:
  "\<exists>cs1. ac_gfx11_end_packed_ctx_regs [(16, 5), (17, 6), (16, 7)] sample_cs = Some cs1
    \<and> run_regs (parse_gfx_compute_ib GFX11 (\<lambda>_ _. 0) (buf cs1)) hw (SI_CONTEXT_REG_OFFSET + 64) = 5"
proof -
  have pad: "pad_ctx_regs [(16, 5), (17, 6), (16, 7)] = Some [(16, 5), (17, 6), (16, 7), (16, 5)]"
    by (simp add: pad_ctx_regs_def ac_gfx11_set_ctx_reg_def ac_gfx11_push_reg_def reg_space_defs)
  have kind: "set_packet_kind PKT3_SET_CONTEXT_REG_PAIRS_PACKED = Some (Packed, SI_CONTEXT_REG_OFFSET)"
    by (simp add: set_packet_kind_def pkt3_set_defs)
  have "ac_gfx11_end_packed_ctx_regs [(16, 5), (17, 6), (16, 7)] sample_cs = Some (sample_cs\<lparr> buf :=
      enc_packed PKT3_SET_CONTEXT_REG_PAIRS_PACKED True [(16, 5), (17, 6), (16, 7), (16, 5)] \<rparr>)"
    by (simp add: ac_gfx11_end_packed_ctx_regs_def pad ac_cmdbuf_emit_array_def sample_cs_def enc_packed_def set_header_def)
  then show ?thesis
    using closed_parse[OF closed_enc_packed[OF kind, of "[(16, 5), (17, 6), (16, 7), (16, 5)]" GFX11 "\<lambda>_ _. 0" True]]
    by simp
qed

end
