(* ===== verification/FenceRing.thy ===== *)
theory FenceRing
  imports AmdgpuBo CpPackets
begin

text \<open>
  Fences of the amdgpu winsys: the ring of the most recent fences of each queue
  (gallium/winsys/amdgpu/drm/amdgpu_winsys.h), the sequence numbers by which a buffer remembers its
  last use on each queue (amdgpu_bo.h), and waiting (amdgpu_cs.cpp, amdgpu_bo.c).

  A fence is a number, its structure is \<open>fence_of\<close>, and reference counts are left out. The mask of
  valid sequence numbers is a predicate on queue numbers. What the processor can see of the GPU is
  the argument \<open>gpu_view\<close>: the user fences in memory and the answer of the ioctl that waits for a
  syncobj. The critical sections of \<open>bo_fence_lock\<close> are functions; where the code drops the lock to
  wait, there are two of them.
\<close>

section \<open>Data\<close>

type_synonym uint_seq_no = "32 word"

definition AMDGPU_FENCE_RING_SIZE :: nat where "AMDGPU_FENCE_RING_SIZE = 32"

definition AMDGPU_QUEUE_GFX :: nat where "AMDGPU_QUEUE_GFX = 0"
definition AMDGPU_QUEUE_GFX_HIGH_PRIO :: nat where "AMDGPU_QUEUE_GFX_HIGH_PRIO = 1"
definition AMDGPU_QUEUE_COMPUTE :: nat where "AMDGPU_QUEUE_COMPUTE = 2"
definition AMDGPU_QUEUE_SDMA :: nat where "AMDGPU_QUEUE_SDMA = 3"
definition AMDGPU_MAX_QUEUES :: nat where "AMDGPU_MAX_QUEUES = 4"

record amdgpu_seq_no_fences =
  seq_no :: "nat \<Rightarrow> uint_seq_no"
  valid_fence_mask :: "nat \<Rightarrow> bool"

record amdgpu_fence =
  fence_ip_type :: amd_ip_type
  user_fence :: "nat option"
  kernel_seq_no :: nat
  submitted :: bool
  signalled :: bool
  imported :: bool
  fence_queue :: nat
  queue_seq_no :: uint_seq_no

record amdgpu_queue =
  ring :: "nat \<Rightarrow> nat option"
  latest_seq_no :: uint_seq_no
  last_ctx :: "nat option"

text \<open>\<open>struct amdgpu_winsys_bo\<close> with what the submission reads of the real and the sparse buffers.\<close>

record cs_bo =
  cs_bo_type :: amdgpu_bo_type
  cs_unique_id :: dword
  fences :: amdgpu_seq_no_fences
  alt_fence :: "nat option"
  num_active_ioctls :: int
  is_shared :: bool
  slab_has_busy_alt_fences :: bool
  cs_vm_always_valid :: bool
  resident_off_list :: bool
  kms_handle :: nat
  vm_timeline_point :: nat
  slab_entry_real_bo :: nat
  sparse_backing_bos :: "nat list"

record fence_winsys =
  queues :: "nat \<Rightarrow> amdgpu_queue"
  fence_of :: "nat \<Rightarrow> amdgpu_fence"
  bo_of :: "nat \<Rightarrow> cs_bo"
  num_hw_queues :: "amd_ip_type \<Rightarrow> nat"
  gfx_bo_list_counter :: nat

record gpu_view =
  user_fence_memory :: "nat \<Rightarrow> nat"
  syncobj_idle :: "nat \<Rightarrow> bool"

section \<open>Sequence numbers\<close>

definition foreach_bit :: "(nat \<Rightarrow> bool) \<Rightarrow> nat list" where
  "foreach_bit msk = filter msk [0..<AMDGPU_MAX_QUEUES]"

text \<open>The slot of the ring that holds the fence of a sequence number, if there is one. The second result
  is the changed record of the sequence numbers.\<close>

definition get_fence_from_ring ::
  "(nat \<Rightarrow> amdgpu_queue) \<Rightarrow> amdgpu_seq_no_fences \<Rightarrow> nat \<Rightarrow> nat option \<times> amdgpu_seq_no_fences" where
  "get_fence_from_ring qs fs q =
    (let buffer_seq_no = seq_no fs q;
         fence_present = (latest_seq_no (qs q) - buffer_seq_no < word_of_nat AMDGPU_FENCE_RING_SIZE);
         slot = unat buffer_seq_no mod AMDGPU_FENCE_RING_SIZE
     in if fence_present \<and> ring (qs q) slot \<noteq> None then (Some slot, fs)
        else (None, fs\<lparr>valid_fence_mask := (valid_fence_mask fs)(q := False)\<rparr>))"

definition pick_latest_seq_no :: "(nat \<Rightarrow> amdgpu_queue) \<Rightarrow> nat \<Rightarrow> uint_seq_no \<Rightarrow> uint_seq_no \<Rightarrow> uint_seq_no" where
  "pick_latest_seq_no qs q n1 n2 =
    (let latest = latest_seq_no (qs q); s1 = n1 - latest - 1; s2 = n2 - latest - 1
     in if s1 \<ge> s2 then n1 else n2)"

definition add_seq_no_to_list ::
  "(nat \<Rightarrow> amdgpu_queue) \<Rightarrow> nat \<Rightarrow> uint_seq_no \<Rightarrow> amdgpu_seq_no_fences \<Rightarrow> amdgpu_seq_no_fences" where
  "add_seq_no_to_list qs q n fs =
    (if valid_fence_mask fs q
     then fs\<lparr>seq_no := (seq_no fs)(q := pick_latest_seq_no qs q n (seq_no fs q))\<rparr>
     else fs\<lparr>seq_no := (seq_no fs)(q := n), valid_fence_mask := (valid_fence_mask fs)(q := True)\<rparr>)"

definition set_seq_no :: "nat \<Rightarrow> uint_seq_no \<Rightarrow> amdgpu_seq_no_fences \<Rightarrow> amdgpu_seq_no_fences" where
  "set_seq_no q n fs =
    fs\<lparr>seq_no := (seq_no fs)(q := n), valid_fence_mask := (valid_fence_mask fs)(q := True)\<rparr>"

definition update_bo :: "nat \<Rightarrow> (cs_bo \<Rightarrow> cs_bo) \<Rightarrow> fence_winsys \<Rightarrow> fence_winsys" where
  "update_bo b f aws = aws\<lparr>bo_of := (bo_of aws)(b := f (bo_of aws b))\<rparr>"

definition amdgpu_set_bo_seq_no :: "nat \<Rightarrow> uint_seq_no \<Rightarrow> nat \<Rightarrow> fence_winsys \<Rightarrow> fence_winsys" where
  "amdgpu_set_bo_seq_no q n b = update_bo b (fences_update (set_seq_no q n))"

text \<open>The fences of a sparse buffer go to its backing buffer before that one is released.\<close>

definition merge_bo_fences :: "nat \<Rightarrow> nat \<Rightarrow> fence_winsys \<Rightarrow> fence_winsys" where
  "merge_bo_fences b bk aws =
    update_bo bk (fences_update (\<lambda>fs. fold (\<lambda>q. add_seq_no_to_list (queues aws) q (seq_no (fences (bo_of aws b)) q))
      (foreach_bit (valid_fence_mask (fences (bo_of aws b)))) fs)) aws"

definition amdgpu_bo_remove_fences :: "nat \<Rightarrow> fence_winsys \<Rightarrow> fence_winsys" where
  "amdgpu_bo_remove_fences b =
    update_bo b (\<lambda>x. x\<lparr>fences := (fences x)\<lparr>valid_fence_mask := (\<lambda>_. False)\<rparr>, alt_fence := None\<rparr>)"

section \<open>Waiting for a fence\<close>

definition update_fence :: "nat \<Rightarrow> (amdgpu_fence \<Rightarrow> amdgpu_fence) \<Rightarrow> fence_winsys \<Rightarrow> fence_winsys" where
  "update_fence f g aws = aws\<lparr>fence_of := (fence_of aws)(f := g (fence_of aws f))\<rparr>"

definition amdgpu_fence_submitted :: "nat \<Rightarrow> nat \<Rightarrow> nat option \<Rightarrow> fence_winsys \<Rightarrow> fence_winsys" where
  "amdgpu_fence_submitted f n uf =
    update_fence f (\<lambda>x. x\<lparr>kernel_seq_no := n, user_fence := uf, submitted := True\<rparr>)"

definition amdgpu_fence_signalled :: "nat \<Rightarrow> fence_winsys \<Rightarrow> fence_winsys" where
  "amdgpu_fence_signalled f = update_fence f (\<lambda>x. x\<lparr>signalled := True, submitted := True\<rparr>)"

text \<open>\<open>query\<close> is a relative timeout of zero. The view is the one at the end of the wait.\<close>

definition amdgpu_fence_wait :: "gpu_view \<Rightarrow> bool \<Rightarrow> nat \<Rightarrow> fence_winsys \<Rightarrow> bool \<times> fence_winsys" where
  "amdgpu_fence_wait g query f aws =
    (let x = fence_of aws f;
         yes = (True, update_fence f (\<lambda>x. x\<lparr>signalled := True\<rparr>) aws);
         ask = (if syncobj_idle g f then yes else (False, aws))
     in if signalled x then (True, aws)
        else if \<not> submitted x then (False, aws)
        else case user_fence x of
            None \<Rightarrow> ask
          | Some a \<Rightarrow> if user_fence_memory g a \<ge> kernel_seq_no x then yes
                      else if query then (False, aws) else ask)"

section \<open>Waiting for a buffer\<close>

datatype fence_ptr = RingSlot nat nat | AltFence nat

fun read_ptr :: "fence_ptr \<Rightarrow> fence_winsys \<Rightarrow> nat option" where
  "read_ptr (RingSlot q i) aws = ring (queues aws q) i"
| "read_ptr (AltFence b) aws = alt_fence (bo_of aws b)"

fun clear_ptr :: "fence_ptr \<Rightarrow> fence_winsys \<Rightarrow> fence_winsys" where
  "clear_ptr (RingSlot q i) aws =
    aws\<lparr>queues := (queues aws)(q := (queues aws q)\<lparr>ring := (ring (queues aws q))(i := None)\<rparr>)\<rparr>"
| "clear_ptr (AltFence b) aws = update_bo b (alt_fence_update (\<lambda>_. None)) aws"

text \<open>\<open>amdgpu_bo_fence_wait\<close> with a timeout of zero, and its part after the lock is taken again: \<open>tmp\<close> is the
  fence that was waited for.\<close>

definition amdgpu_bo_fence_query :: "gpu_view \<Rightarrow> fence_ptr \<Rightarrow> fence_winsys \<Rightarrow> bool \<times> fence_winsys" where
  "amdgpu_bo_fence_query g p aws =
    (case read_ptr p aws of None \<Rightarrow> (True, aws)
     | Some f \<Rightarrow> (let (idle, aws1) = amdgpu_fence_wait g True f aws
                  in if idle then (True, clear_ptr p aws1) else (False, aws1)))"

definition bo_fence_wait_relock :: "nat \<Rightarrow> fence_ptr \<Rightarrow> fence_winsys \<Rightarrow> fence_winsys" where
  "bo_fence_wait_relock tmp p aws = (if read_ptr p aws = Some tmp then clear_ptr p aws else aws)"

definition drop_bo_queue :: "nat \<Rightarrow> nat \<Rightarrow> fence_winsys \<Rightarrow> fence_winsys" where
  "drop_bo_queue b q =
    update_bo b (fences_update (\<lambda>fs. fs\<lparr>valid_fence_mask := (valid_fence_mask fs)(q := False)\<rparr>))"

text \<open>One turn of the loop over the queues in \<open>amdgpu_bo_wait\<close>, with a timeout of zero.\<close>

definition bo_wait_queue :: "gpu_view \<Rightarrow> nat \<Rightarrow> nat \<Rightarrow> fence_winsys \<Rightarrow> bool \<times> fence_winsys" where
  "bo_wait_queue g b q aws =
    (case get_fence_from_ring (queues aws) (fences (bo_of aws b)) q of
       (None, fs) \<Rightarrow> (True, drop_bo_queue b q (update_bo b (fences_update (\<lambda>_. fs)) aws))
     | (Some slot, _) \<Rightarrow>
         (let (ok, aws1) = amdgpu_bo_fence_query g (RingSlot q slot) aws
          in if ok then (True, drop_bo_queue b q aws1) else (False, aws1)))"

fun bo_wait_queues :: "gpu_view \<Rightarrow> nat \<Rightarrow> nat list \<Rightarrow> fence_winsys \<Rightarrow> bool \<times> fence_winsys" where
  "bo_wait_queues g b [] aws = (True, aws)"
| "bo_wait_queues g b (q # qs) aws =
    (let (ok, aws1) = bo_wait_queue g b q aws in if ok then bo_wait_queues g b qs aws1 else (False, aws1))"

text \<open>The whole function with a timeout of zero. \<open>kernel_idle\<close> is the answer of \<open>ac_drm_bo_wait_for_idle\<close>,
  \<open>disallow_slow\<close> the flag \<open>RADEON_USAGE_DISALLOW_SLOW_REPLY\<close>.\<close>

definition amdgpu_bo_wait :: "gpu_view \<Rightarrow> bool \<Rightarrow> bool \<Rightarrow> nat \<Rightarrow> fence_winsys \<Rightarrow> bool \<times> fence_winsys" where
  "amdgpu_bo_wait g kernel_idle disallow_slow b aws =
    (let bo = bo_of aws b
     in if num_active_ioctls bo \<noteq> 0 then (False, aws)
        else if cs_bo_type bo \<notin> {AMDGPU_BO_SLAB_ENTRY, AMDGPU_BO_SPARSE} \<and>
                (is_shared bo \<or> slab_has_busy_alt_fences bo)
        then if disallow_slow then (False, aws)
             else if kernel_idle
             then (True, update_bo b (slab_has_busy_alt_fences_update (\<lambda>_. False)) aws)
             else (False, aws)
        else (let (ok, aws1) = bo_wait_queues g b (foreach_bit (valid_fence_mask (fences bo))) aws
              in if \<not> ok then (False, aws1)
                 else if alt_fence (bo_of aws1 b) \<noteq> None
                 then amdgpu_bo_fence_query g (AltFence b) aws1
                 else (True, aws1)))"

text \<open>The fences a page table update has to wait for.\<close>

fun get_syncobjs_queues :: "gpu_view \<Rightarrow> nat \<Rightarrow> nat list \<Rightarrow> nat list \<Rightarrow> fence_winsys \<Rightarrow> nat list \<times> fence_winsys" where
  "get_syncobjs_queues g b [] out aws = (out, aws)"
| "get_syncobjs_queues g b (q # qs) out aws =
    (case get_fence_from_ring (queues aws) (fences (bo_of aws b)) q of
       (None, fs) \<Rightarrow> get_syncobjs_queues g b qs out (update_bo b (fences_update (\<lambda>_. fs)) aws)
     | (Some slot, _) \<Rightarrow>
         (case ring (queues aws q) slot of
            None \<Rightarrow> get_syncobjs_queues g b qs out aws
          | Some f \<Rightarrow>
              (let (idle, aws1) = amdgpu_fence_wait g True f aws
               in if idle then get_syncobjs_queues g b qs out (drop_bo_queue b q (clear_ptr (RingSlot q slot) aws1))
                  else get_syncobjs_queues g b qs (out @ [f]) aws1)))"

definition amdgpu_bo_get_syncobjs :: "gpu_view \<Rightarrow> nat \<Rightarrow> fence_winsys \<Rightarrow> nat list \<times> fence_winsys" where
  "amdgpu_bo_get_syncobjs g b aws =
    (let (out, aws1) = get_syncobjs_queues g b (foreach_bit (valid_fence_mask (fences (bo_of aws b)))) [] aws
     in case alt_fence (bo_of aws1 b) of
          None \<Rightarrow> (out, aws1)
        | Some f \<Rightarrow>
            (let (idle, aws2) = amdgpu_fence_wait g True f aws1
             in if idle then (out, clear_ptr (AltFence b) aws2) else (out @ [f], aws2)))"

section \<open>Ages\<close>

text \<open>How many jobs of the queue came after the one with a sequence number, as the wrapping arithmetic sees it:
  \<open>n\<close> is the number of jobs of the queue.\<close>

definition age :: "nat \<Rightarrow> uint_seq_no \<Rightarrow> nat" where
  "age n w = unat (word_of_nat n - w)"

lemma age_less: "age n w < 2 ^ 32"
  using unsigned_less[of "word_of_nat n - w"] by (simp add: age_def)

lemma age_Suc: "age (Suc n) w \<le> Suc (age n w)"
proof -
  have "word_of_nat (Suc n) - w = (word_of_nat n - w) + 1" by simp
  then have "age (Suc n) w = unat (word_of_nat n - w + 1)" by (simp only: age_def)
  also have "\<dots> \<le> Suc (unat (word_of_nat n - w))"
    using unat_plus_if'[of "word_of_nat n - w" "1 :: uint_seq_no"] by (simp split: if_splits)
  finally show ?thesis by (simp add: age_def)
qed

lemma age_own [simp]: "age n (word_of_nat n) = 0"
  by (simp add: age_def)

lemma seq_of_age: "age n w \<le> n \<Longrightarrow> w = word_of_nat (n - age n w)"
proof -
  assume a: "age n w \<le> n"
  have "word_of_nat (age n w) = word_of_nat n - w" by (simp add: age_def)
  then show ?thesis using a by (simp add: of_nat_diff)
qed

lemma unat_mod_ring: "unat (word_of_nat m :: uint_seq_no) mod 32 = m mod 32"
  by (simp add: unsigned_of_nat take_bit_eq_mod mod_mod_cancel)

lemma pick_latest_age:
  assumes "latest_seq_no (qs q) = word_of_nat n"
  shows "age n (pick_latest_seq_no qs q n1 n2) = min (age n n1) (age n n2)"
proof -
  have s: "m - word_of_nat n - 1 = - 1 - (word_of_nat n - m)" for m :: uint_seq_no
    by simp
  have u: "unat (- 1 - x) = unat (- 1 :: uint_seq_no) - unat x" for x :: uint_seq_no
    by (rule unat_sub) simp
  have le: "unat x \<le> unat (- 1 :: uint_seq_no)" for x :: uint_seq_no
    using word_order.extremum[of x] by (simp only: word_le_nat_alt)
  have "(- 1 - x \<ge> - 1 - y) = (unat x \<le> unat y)" for x y :: uint_seq_no
    unfolding word_le_nat_alt u using le[of x] le[of y] by linarith
  then show ?thesis using assms
    by (auto simp: pick_latest_seq_no_def Let_def s age_def simp del: minus_diff_eq min_def)
qed

section \<open>The ring\<close>

text \<open>The ring of a queue whose jobs have had the fences \<open>Q\<close>, in order, when the jobs in \<open>dn\<close> are done: a recent
  fence is in its slot, or the slot is empty and the job done; an older one has left the ring and its job
  is done.\<close>

definition ring_ok :: "nat set \<Rightarrow> nat list \<Rightarrow> amdgpu_queue \<Rightarrow> bool" where
  "ring_ok dn Q x \<longleftrightarrow> latest_seq_no x = word_of_nat (length Q)
    \<and> (\<forall>i<length Q. length Q - i \<le> 32 \<longrightarrow>
         ring x (Suc i mod 32) = Some (Q ! i) \<or> ring x (Suc i mod 32) = None \<and> Q ! i \<in> dn)
    \<and> (\<forall>i<length Q. 32 < length Q - i \<longrightarrow> Q ! i \<in> dn)
    \<and> (\<forall>r f. ring x r = Some f \<longrightarrow> (\<exists>i<length Q. length Q - i \<le> 32 \<and> r = Suc i mod 32 \<and> f = Q ! i))"

lemma ring_okD:
  assumes "ring_ok dn Q x"
  shows "latest_seq_no x = word_of_nat (length Q)"
    and "i < length Q \<Longrightarrow> length Q - i \<le> 32 \<Longrightarrow>
      ring x (Suc i mod 32) = Some (Q ! i) \<or> ring x (Suc i mod 32) = None \<and> Q ! i \<in> dn"
    and "i < length Q \<Longrightarrow> 32 < length Q - i \<Longrightarrow> Q ! i \<in> dn"
    and "ring x r = Some f \<Longrightarrow> \<exists>i<length Q. length Q - i \<le> 32 \<and> r = Suc i mod 32 \<and> f = Q ! i"
  using assms unfolding ring_ok_def by blast+

lemma ring_ok_mono: "ring_ok dn Q x \<Longrightarrow> dn \<subseteq> dn' \<Longrightarrow> ring_ok dn' Q x"
  unfolding ring_ok_def by (intro conjI) blast+

lemma ring_ok_empty: "latest_seq_no x = 0 \<Longrightarrow> ring x = (\<lambda>_. None) \<Longrightarrow> ring_ok dn [] x"
  by (simp add: ring_ok_def)

lemma ring_index_less: "i < j \<Longrightarrow> j < i + 32 \<Longrightarrow> Suc i mod 32 \<noteq> Suc j mod 32" for i :: nat
  using mod_eq_dvd_iff_nat[of "Suc i" "Suc j" 32] nat_dvd_not_less[of "j - i" 32] by auto

lemma ring_index_inj:
  "i < n \<Longrightarrow> j < n \<Longrightarrow> n - i \<le> 32 \<Longrightarrow> n - j \<le> 32 \<Longrightarrow> Suc i mod 32 = Suc j mod 32 \<Longrightarrow> i = j" for n :: nat
  using ring_index_less[of i j] ring_index_less[of j i] by (cases i j rule: linorder_cases) linarith+

text \<open>Removing a fence whose job is done.\<close>

lemma ring_ok_clear:
  assumes "ring_ok dn Q x" "ring x r = Some f" "f \<in> dn"
  shows "ring_ok dn Q (x\<lparr>ring := (ring x)(r := None)\<rparr>)"
proof -
  obtain j where j: "j < length Q" "length Q - j \<le> 32" "r = Suc j mod 32" "f = Q ! j"
    using ring_okD(4)[OF assms(1,2)] by blast
  have "i = j" if "i < length Q" "length Q - i \<le> 32" "Suc i mod 32 = r" for i
    using that j ring_index_inj[of i "length Q" j] by simp
  then show ?thesis
    using assms(1,3) j(4) unfolding ring_ok_def by (auto simp: fun_upd_def)
qed

text \<open>A new job, once the slot of its fence is empty.\<close>

lemma ring_ok_snoc:
  assumes "ring_ok dn Q x" "ring x (Suc (length Q) mod 32) = None"
  shows "ring_ok dn (Q @ [f]) (x\<lparr>ring := (ring x)(Suc (length Q) mod 32 := Some f), latest_seq_no := latest_seq_no x + 1\<rparr>)"
proof -
  let ?n = "length Q"
  have old: "Q ! i \<in> dn" if "i < ?n" "Suc ?n - i = 33" for i
  proof -
    have "Suc ?n = Suc i + 32" using that by arith
    then have "?n - i \<le> 32" "Suc i mod 32 = Suc ?n mod 32" using that by (simp_all only: mod_add_self2)
    then show ?thesis using ring_okD(2)[OF assms(1) that(1)] assms(2) by simp
  qed
  have new: "Suc i mod 32 \<noteq> Suc ?n mod 32" if "i < ?n" "Suc ?n - i \<le> 32" for i
    using that ring_index_less[of i ?n] by simp
  show ?thesis unfolding ring_ok_def
  proof (intro conjI allI impI)
    fix i assume "i < length (Q @ [f])" "length (Q @ [f]) - i \<le> 32"
    then show "ring (x\<lparr>ring := (ring x)(Suc ?n mod 32 := Some f), latest_seq_no := latest_seq_no x + 1\<rparr>) (Suc i mod 32) = Some ((Q @ [f]) ! i)
      \<or> ring (x\<lparr>ring := (ring x)(Suc ?n mod 32 := Some f), latest_seq_no := latest_seq_no x + 1\<rparr>) (Suc i mod 32) = None \<and> (Q @ [f]) ! i \<in> dn"
      using ring_okD(2)[OF assms(1), of i] new[of i] by (cases "i = ?n") (auto simp: nth_append)
  next
    fix i assume "i < length (Q @ [f])" "32 < length (Q @ [f]) - i"
    then show "(Q @ [f]) ! i \<in> dn"
      using old[of i] ring_okD(3)[OF assms(1), of i] by (cases "Suc ?n - i = 33") (auto simp: nth_append)
  next
    fix r g assume "ring (x\<lparr>ring := (ring x)(Suc ?n mod 32 := Some f), latest_seq_no := latest_seq_no x + 1\<rparr>) r = Some g"
    then consider "r = Suc ?n mod 32" "g = f" | "r \<noteq> Suc ?n mod 32" "ring x r = Some g"
      by (auto split: if_splits)
    then show "\<exists>i<length (Q @ [f]). length (Q @ [f]) - i \<le> 32 \<and> r = Suc i mod 32 \<and> g = (Q @ [f]) ! i"
    proof cases
      case 1
      then show ?thesis by (intro exI[of _ ?n]) simp
    next
      case 2
      then obtain i where i: "i < ?n" "?n - i \<le> 32" "r = Suc i mod 32" "g = Q ! i"
        using ring_okD(4)[OF assms(1)] by blast
      have "Suc ?n - i \<noteq> 33"
      proof
        assume "Suc ?n - i = 33"
        then have "Suc ?n = Suc i + 32" using i by arith
        then show False using i(3) 2(1) by (simp only: mod_add_self2)
      qed
      then show ?thesis using i by (intro exI[of _ i]) (auto simp: nth_append)
    qed
  qed (use ring_okD(1)[OF assms(1)] in simp)
qed

text \<open>Looking a sequence number up: the fence of the job it stands for, or that job is done.\<close>

lemma get_fence_ring:
  assumes ok: "ring_ok dn Q (qs q)" and a: "age (length Q) (seq_no fs q) < length Q"
  defines "f \<equiv> Q ! (length Q - 1 - age (length Q) (seq_no fs q))"
  shows "(\<exists>slot. get_fence_from_ring qs fs q = (Some slot, fs) \<and> ring (qs q) slot = Some f)
    \<or> (get_fence_from_ring qs fs q = (None, fs\<lparr>valid_fence_mask := (valid_fence_mask fs)(q := False)\<rparr>) \<and> f \<in> dn)"
proof -
  let ?n = "length Q" and ?a = "age (length Q) (seq_no fs q)"
  let ?i = "?n - 1 - ?a"
  have i: "?i < ?n" "?n - ?i = Suc ?a" using a by simp_all
  have present: "(latest_seq_no (qs q) - seq_no fs q < word_of_nat AMDGPU_FENCE_RING_SIZE) = (?a < 32)"
    using ring_okD(1)[OF ok] by (simp add: age_def AMDGPU_FENCE_RING_SIZE_def word_less_nat_alt)
  have slot: "unat (seq_no fs q) mod 32 = Suc ?i mod 32"
    using seq_of_age[of ?n "seq_no fs q"] a unat_mod_ring[of "?n - ?a"] i(1)
    by (metis Suc_diff_Suc diff_Suc_eq_diff_pred less_imp_le plus_1_eq_Suc diff_diff_left)
  show ?thesis
  proof (cases "?a < 32")
    case True
    then have r: "ring (qs q) (Suc ?i mod 32) = Some f \<or> ring (qs q) (Suc ?i mod 32) = None \<and> f \<in> dn"
      using ring_okD(2)[OF ok i(1)] i(2) by (simp add: f_def)
    have g: "get_fence_from_ring qs fs q = (if ring (qs q) (Suc ?i mod 32) \<noteq> None then (Some (Suc ?i mod 32), fs)
        else (None, fs\<lparr>valid_fence_mask := (valid_fence_mask fs)(q := False)\<rparr>))"
      unfolding get_fence_from_ring_def Let_def present
      using True by (simp only: AMDGPU_FENCE_RING_SIZE_def slot simp_thms)
    show ?thesis using r unfolding g by auto
  next
    case False
    then have "f \<in> dn" using ring_okD(3)[OF ok i(1)] i(2) by (simp add: f_def)
    then show ?thesis using False by (simp add: get_fence_from_ring_def Let_def present)
  qed
qed

lemma get_fence_other: "valid_fence_mask (snd (get_fence_from_ring qs fs q)) p \<Longrightarrow> valid_fence_mask fs p"
  "seq_no (snd (get_fence_from_ring qs fs q)) = seq_no fs"
  by (auto simp: get_fence_from_ring_def Let_def split: if_splits)

end
