(* ===== verification/CsBuffers.thy ===== *)
theory CsBuffers
  imports FenceRing
begin

text \<open>
  The buffer lists of a command submission (gallium/winsys/amdgpu/drm/amdgpu_cs.cpp,
  \<open>struct amdgpu_cs_context\<close>). A buffer is in one of three lists, by its type. A table of 32768 hints,
  shared by the lists, gives the index under which a buffer with some hash was last seen. It is only
  a hint, but a negative entry is taken for the proof that the buffer is in no list.

  The answer of \<open>REALLOC\<close> is the argument \<open>alloc_ok\<close>. The factor 1.3 by which a list grows is a
  division, which gives the same numbers as the floating-point product below \<open>2 ^ 32\<close>. References to
  buffers are not counted.
\<close>

section \<open>Data\<close>

definition RADEON_USAGE_READ :: dword where "RADEON_USAGE_READ = push_bit 27 1"
definition RADEON_USAGE_WRITE :: dword where "RADEON_USAGE_WRITE = push_bit 28 1"
definition RADEON_USAGE_SYNCHRONIZED :: dword where "RADEON_USAGE_SYNCHRONIZED = push_bit 29 1"
definition RADEON_ALL_PRIORITIES :: dword where "RADEON_ALL_PRIORITIES = mask 24"

definition BUFFER_HASHLIST_SIZE :: nat where "BUFFER_HASHLIST_SIZE = 32768"

record amdgpu_cs_buffer =
  cs_bo :: nat
  usage :: dword

record amdgpu_buffer_list =
  max_buffers :: nat
  buffers :: "amdgpu_cs_buffer list"

record amdgpu_cs_context =
  buffer_lists :: "nat \<Rightarrow> amdgpu_buffer_list"
  buffer_indices_hashlist :: "nat \<Rightarrow> int"
  last_added_bo :: "nat option"
  last_added_bo_usage :: dword
  seq_no_dependencies :: amdgpu_seq_no_fences
  syncobj_dependencies :: "(nat \<times> nat) list"
  syncobj_to_signal :: "(nat \<times> nat) list"
  csc_fence :: "nat option"
  error_code :: int
  secure :: bool

definition LIST_SLAB_ENTRY :: nat where "LIST_SLAB_ENTRY = 0"
definition LIST_SPARSE :: nat where "LIST_SPARSE = 1"
definition LIST_REAL :: nat where "LIST_REAL = 2"

fun get_buf_list_idx :: "amdgpu_bo_type \<Rightarrow> nat" where
  "get_buf_list_idx AMDGPU_BO_SLAB_ENTRY = LIST_SLAB_ENTRY"
| "get_buf_list_idx AMDGPU_BO_SPARSE = LIST_SPARSE"
| "get_buf_list_idx AMDGPU_BO_REAL = LIST_REAL"
| "get_buf_list_idx AMDGPU_BO_REAL_REUSABLE = LIST_REAL"
| "get_buf_list_idx AMDGPU_BO_REAL_REUSABLE_SLAB = LIST_REAL"

section \<open>Operations\<close>

definition bo_hash :: "(nat \<Rightarrow> cs_bo) \<Rightarrow> nat \<Rightarrow> nat" where
  "bo_hash bos b = unat (cs_unique_id (bos b) AND word_of_nat (BUFFER_HASHLIST_SIZE - 1))"

definition set_hint :: "nat \<Rightarrow> nat \<Rightarrow> amdgpu_cs_context \<Rightarrow> amdgpu_cs_context" where
  "set_hint h i csc =
    csc\<lparr>buffer_indices_hashlist := (buffer_indices_hashlist csc)(h := int (i mod 0x8000))\<rparr>"

definition amdgpu_lookup_buffer ::
  "(nat \<Rightarrow> cs_bo) \<Rightarrow> nat \<Rightarrow> nat \<Rightarrow> amdgpu_cs_context \<Rightarrow> nat option \<times> amdgpu_cs_context" where
  "amdgpu_lookup_buffer bos b l csc =
    (let bs = buffers (buffer_lists csc l); h = bo_hash bos b; i = buffer_indices_hashlist csc h
     in if i < 0 then (None, csc)
        else if i < int (length bs) \<and> cs_bo (bs ! nat i) = b then (Some (nat i), csc)
        else case find (\<lambda>j. cs_bo (bs ! j) = b) (rev [0..<length bs]) of
            Some j \<Rightarrow> (Some j, set_hint h j csc)
          | None \<Rightarrow> (None, csc))"

definition amdgpu_lookup_buffer_any_type ::
  "(nat \<Rightarrow> cs_bo) \<Rightarrow> nat \<Rightarrow> amdgpu_cs_context \<Rightarrow> nat option \<times> amdgpu_cs_context" where
  "amdgpu_lookup_buffer_any_type bos b = amdgpu_lookup_buffer bos b (get_buf_list_idx (cs_bo_type (bos b)))"

definition update_list :: "nat \<Rightarrow> (amdgpu_buffer_list \<Rightarrow> amdgpu_buffer_list) \<Rightarrow> amdgpu_cs_context \<Rightarrow> amdgpu_cs_context" where
  "update_list l f csc = csc\<lparr>buffer_lists := (buffer_lists csc)(l := f (buffer_lists csc l))\<rparr>"

definition amdgpu_do_add_buffer ::
  "(nat \<Rightarrow> cs_bo) \<Rightarrow> bool \<Rightarrow> nat \<Rightarrow> nat \<Rightarrow> amdgpu_cs_context \<Rightarrow> nat option \<times> amdgpu_cs_context" where
  "amdgpu_do_add_buffer bos alloc_ok b l csc =
    (let x = buffer_lists csc l; n = length (buffers x)
     in if n \<ge> max_buffers x \<and> \<not> alloc_ok then (None, csc)
        else let m = (if n \<ge> max_buffers x then max (max_buffers x + 16) (max_buffers x * 13 div 10) else max_buffers x)
             in (Some n, set_hint (bo_hash bos b) n
                  (update_list l (\<lambda>x. x\<lparr>max_buffers := m, buffers := buffers x @ [\<lparr>cs_bo = b, usage = 0\<rparr>]\<rparr>) csc)))"

definition amdgpu_lookup_or_add_buffer ::
  "(nat \<Rightarrow> cs_bo) \<Rightarrow> bool \<Rightarrow> nat \<Rightarrow> nat \<Rightarrow> amdgpu_cs_context \<Rightarrow> nat option \<times> amdgpu_cs_context" where
  "amdgpu_lookup_or_add_buffer bos alloc_ok b l csc =
    (case amdgpu_lookup_buffer bos b l csc of
       (Some i, csc1) \<Rightarrow> (Some i, csc1)
     | (None, csc1) \<Rightarrow> amdgpu_do_add_buffer bos alloc_ok b l csc1)"

definition add_usage :: "nat \<Rightarrow> nat \<Rightarrow> dword \<Rightarrow> amdgpu_cs_context \<Rightarrow> amdgpu_cs_context" where
  "add_usage l i u =
    update_list l (\<lambda>x. x\<lparr>buffers := (buffers x)[i := (buffers x ! i)\<lparr>usage := usage (buffers x ! i) OR u\<rparr>]\<rparr>)"

definition amdgpu_cs_add_buffer ::
  "(nat \<Rightarrow> cs_bo) \<Rightarrow> bool \<Rightarrow> nat \<Rightarrow> dword \<Rightarrow> amdgpu_cs_context \<Rightarrow> amdgpu_cs_context" where
  "amdgpu_cs_add_buffer bos alloc_ok b u csc =
    (let l = get_buf_list_idx (cs_bo_type (bos b))
     in if last_added_bo csc = Some b \<and> u AND last_added_bo_usage csc = u then csc
        else case amdgpu_lookup_or_add_buffer bos alloc_ok b l csc of
            (None, csc1) \<Rightarrow> csc1
          | (Some i, csc1) \<Rightarrow>
              (let csc2 = add_usage l i u csc1
               in csc2\<lparr>last_added_bo_usage := usage (buffers (buffer_lists csc2 l) ! i), last_added_bo := Some b\<rparr>))"

text \<open>The backing buffers of the slab entries, for \<open>amdgpu_cs_get_buffer_list\<close>. A failed allocation makes the
  function write through a null pointer, which is \<open>None\<close>.\<close>

fun add_slab_backing ::
  "(nat \<Rightarrow> cs_bo) \<Rightarrow> (nat \<Rightarrow> bool) \<Rightarrow> amdgpu_cs_buffer list \<Rightarrow> amdgpu_cs_context \<Rightarrow> amdgpu_cs_context option" where
  "add_slab_backing bos alloc_ok [] csc = Some csc"
| "add_slab_backing bos alloc_ok (x # xs) csc =
    (case amdgpu_lookup_or_add_buffer bos (alloc_ok (cs_bo x)) (slab_entry_real_bo (bos (cs_bo x))) LIST_REAL csc of
       (None, _) \<Rightarrow> None
     | (Some i, csc1) \<Rightarrow>
         add_slab_backing bos alloc_ok xs (add_usage LIST_REAL i (usage x AND NOT RADEON_USAGE_SYNCHRONIZED) csc1))"

definition amdgpu_add_slab_backing_buffers ::
  "(nat \<Rightarrow> cs_bo) \<Rightarrow> (nat \<Rightarrow> bool) \<Rightarrow> amdgpu_cs_context \<Rightarrow> amdgpu_cs_context option" where
  "amdgpu_add_slab_backing_buffers bos alloc_ok csc =
    add_slab_backing bos alloc_ok (buffers (buffer_lists csc LIST_SLAB_ENTRY)) csc"

definition add_fence_to_list :: "nat \<Rightarrow> nat \<Rightarrow> (nat \<times> nat) list \<Rightarrow> (nat \<times> nat) list" where
  "add_fence_to_list f point xs = xs @ [(f, point)]"

definition amdgpu_cs_add_syncobj_signal :: "nat \<Rightarrow> nat \<Rightarrow> amdgpu_cs_context \<Rightarrow> amdgpu_cs_context" where
  "amdgpu_cs_add_syncobj_signal f point csc =
    csc\<lparr>syncobj_to_signal := add_fence_to_list f point (syncobj_to_signal csc)\<rparr>"

definition amdgpu_cs_context_cleanup :: "amdgpu_cs_context \<Rightarrow> amdgpu_cs_context" where
  "amdgpu_cs_context_cleanup csc =
    csc\<lparr>seq_no_dependencies := (seq_no_dependencies csc)\<lparr>valid_fence_mask := (\<lambda>_. False)\<rparr>,
        syncobj_dependencies := [], syncobj_to_signal := [], csc_fence := None, last_added_bo := None\<rparr>"

definition amdgpu_cs_context_cleanup_buffers :: "amdgpu_cs_context \<Rightarrow> amdgpu_cs_context" where
  "amdgpu_cs_context_cleanup_buffers csc =
    csc\<lparr>buffer_lists := (\<lambda>l. (buffer_lists csc l)\<lparr>buffers := []\<rparr>)\<rparr>"

definition reset_hashlist :: "amdgpu_cs_context \<Rightarrow> amdgpu_cs_context" where
  "reset_hashlist csc = csc\<lparr>buffer_indices_hashlist := (\<lambda>_. - 1)\<rparr>"

definition amdgpu_bo_is_referenced_by_cs_with_usage ::
  "(nat \<Rightarrow> cs_bo) \<Rightarrow> nat \<Rightarrow> dword \<Rightarrow> amdgpu_cs_context \<Rightarrow> bool" where
  "amdgpu_bo_is_referenced_by_cs_with_usage bos b u csc =
    (case fst (amdgpu_lookup_buffer_any_type bos b csc) of
       None \<Rightarrow> False
     | Some i \<Rightarrow> usage (buffers (buffer_lists csc (get_buf_list_idx (cs_bo_type (bos b)))) ! i) AND u \<noteq> 0)"

section \<open>What the lists mean\<close>

text \<open>The usage a list gives a buffer, by a plain search.\<close>

definition usage_in :: "amdgpu_cs_buffer list \<Rightarrow> nat \<Rightarrow> dword option" where
  "usage_in bs = map_of (map (\<lambda>x. (cs_bo x, usage x)) bs)"

definition cs_usage :: "(nat \<Rightarrow> cs_bo) \<Rightarrow> amdgpu_cs_context \<Rightarrow> nat \<Rightarrow> dword option" where
  "cs_usage bos csc b = usage_in (buffers (buffer_lists csc (get_buf_list_idx (cs_bo_type (bos b))))) b"

definition csc_ok :: "(nat \<Rightarrow> cs_bo) \<Rightarrow> amdgpu_cs_context \<Rightarrow> bool" where
  "csc_ok bos csc \<longleftrightarrow>
    (\<forall>l. distinct (map cs_bo (buffers (buffer_lists csc l))))
    \<and> (\<forall>l. \<forall>b\<in>cs_bo ` set (buffers (buffer_lists csc l)). 0 \<le> buffer_indices_hashlist csc (bo_hash bos b))
    \<and> (\<forall>b. last_added_bo csc = Some b \<longrightarrow>
         (\<exists>u. cs_usage bos csc b = Some u \<and> last_added_bo_usage csc AND u = last_added_bo_usage csc))"

section \<open>Lists as maps\<close>

lemma usage_in_simps [simp]:
  "usage_in [] b = None"
  "usage_in (x # xs) b = (if cs_bo x = b then Some (usage x) else usage_in xs b)"
  "usage_in (xs @ ys) b = (case usage_in xs b of None \<Rightarrow> usage_in ys b | Some u \<Rightarrow> Some u)"
  by (auto simp: usage_in_def map_of_append map_add_def split: option.splits)

lemma usage_in_None: "usage_in xs b = None \<longleftrightarrow> b \<notin> cs_bo ` set xs"
  by (induction xs) auto

lemma usage_in_nth: "distinct (map cs_bo xs) \<Longrightarrow> i < length xs \<Longrightarrow> usage_in xs (cs_bo (xs ! i)) = Some (usage (xs ! i))"
proof (induction xs arbitrary: i)
  case (Cons x xs)
  then show ?case by (cases i) (force simp: in_set_conv_nth)+
qed simp

lemma usage_in_update:
  "distinct (map cs_bo xs) \<Longrightarrow> i < length xs \<Longrightarrow>
   usage_in (xs[i := (xs ! i)\<lparr>usage := u\<rparr>]) = (usage_in xs)(cs_bo (xs ! i) := Some u)"
proof (induction xs arbitrary: i)
  case (Cons x xs)
  show ?case
  proof (cases i)
    case 0
    then show ?thesis by (auto simp: fun_eq_iff)
  next
    case (Suc j)
    then have "cs_bo (xs ! j) \<in> cs_bo ` set xs" using Cons.prems by simp
    then have "cs_bo x \<noteq> cs_bo (xs ! j)" using Cons.prems by auto
    then show ?thesis using Suc Cons by (auto simp: fun_eq_iff)
  qed
qed simp

lemma map_bo_update [simp]: "i < length xs \<Longrightarrow> map cs_bo (xs[i := (xs ! i)\<lparr>usage := u\<rparr>]) = map cs_bo xs"
  by (simp add: map_update list_update_same_conv)

section \<open>Looking a buffer up\<close>

lemma set_hint_simps [simp]:
  "buffer_lists (set_hint h i csc) = buffer_lists csc"
  "last_added_bo (set_hint h i csc) = last_added_bo csc"
  "last_added_bo_usage (set_hint h i csc) = last_added_bo_usage csc"
  "cs_usage bos (set_hint h i csc) = cs_usage bos csc"
  by (simp_all add: set_hint_def cs_usage_def fun_eq_iff)

lemma set_hint_ok: "csc_ok bos csc \<Longrightarrow> csc_ok bos (set_hint h i csc)"
  by (simp add: csc_ok_def) (simp add: set_hint_def)

lemma find_rev_upt:
  "find P (rev [0..<n]) = Some j \<Longrightarrow> j < n \<and> P j"
  "find P (rev [0..<n]) = None \<Longrightarrow> i < n \<Longrightarrow> \<not> P i"
  by (auto simp: find_Some_iff find_None_iff rev_nth)

text \<open>The hints never change the answer.\<close>

lemma lookup_spec:
  assumes "csc_ok bos csc" and r: "amdgpu_lookup_buffer bos b l csc = (r, csc')"
  shows "csc_ok bos csc'" "buffer_lists csc' = buffer_lists csc" "cs_usage bos csc' = cs_usage bos csc"
    "last_added_bo csc' = last_added_bo csc"
    and "r = None \<longleftrightarrow> b \<notin> cs_bo ` set (buffers (buffer_lists csc l))"
    and "r = Some i \<Longrightarrow> i < length (buffers (buffer_lists csc l)) \<and> cs_bo (buffers (buffer_lists csc l) ! i) = b"
proof -
  let ?bs = "buffers (buffer_lists csc l)" and ?i = "buffer_indices_hashlist csc (bo_hash bos b)"
  have hint: "0 \<le> ?i" if "b \<in> cs_bo ` set ?bs" using assms(1) that unfolding csc_ok_def by blast
  have found: "find (\<lambda>j. cs_bo (?bs ! j) = b) (rev [0..<length ?bs]) = None \<longleftrightarrow> b \<notin> cs_bo ` set ?bs"
    by (auto simp: find_None_iff in_set_conv_nth image_iff dest: nth_mem)
  consider (no) "?i < 0" "r = None" "csc' = csc"
    | (hit) "0 \<le> ?i" "?i < int (length ?bs)" "cs_bo (?bs ! nat ?i) = b" "r = Some (nat ?i)" "csc' = csc"
    | (scan) j where "find (\<lambda>j. cs_bo (?bs ! j) = b) (rev [0..<length ?bs]) = Some j" "r = Some j"
        "csc' = set_hint (bo_hash bos b) j csc"
    | (miss) "find (\<lambda>j. cs_bo (?bs ! j) = b) (rev [0..<length ?bs]) = None" "r = None" "csc' = csc"
  proof (cases "?i < 0")
    case True
    then have "amdgpu_lookup_buffer bos b l csc = (None, csc)" by (simp add: amdgpu_lookup_buffer_def Let_def)
    then have "r = None" "csc' = csc" using r by simp_all
    then show thesis using True no by blast
  next
    case ge: False
    show thesis
    proof (cases "?i < int (length ?bs) \<and> cs_bo (?bs ! nat ?i) = b")
      case True
      then have "amdgpu_lookup_buffer bos b l csc = (Some (nat ?i), csc)"
        using ge by (simp add: amdgpu_lookup_buffer_def Let_def)
      then have "r = Some (nat ?i)" "csc' = csc" using r by simp_all
      then show thesis using True ge hit by (meson not_less)
    next
      case out: False
      show thesis
      proof (cases "find (\<lambda>j. cs_bo (?bs ! j) = b) (rev [0..<length ?bs])")
        case None
        then have "amdgpu_lookup_buffer bos b l csc = (None, csc)"
          using ge out by (auto simp: amdgpu_lookup_buffer_def Let_def)
        then have "r = None" "csc' = csc" using r by simp_all
        then show thesis using None miss by blast
      next
        case (Some j)
        then have "amdgpu_lookup_buffer bos b l csc = (Some j, set_hint (bo_hash bos b) j csc)"
          using ge out by (auto simp: amdgpu_lookup_buffer_def Let_def)
        then have "r = Some j" "csc' = set_hint (bo_hash bos b) j csc" using r by simp_all
        then show thesis using Some scan by blast
      qed
    qed
  qed
  note c = this
  have "csc' = csc \<or> (\<exists>h j. csc' = set_hint h j csc)" using c by cases blast+
  then show "csc_ok bos csc'" "buffer_lists csc' = buffer_lists csc" "cs_usage bos csc' = cs_usage bos csc"
    "last_added_bo csc' = last_added_bo csc"
    using assms(1) by (auto simp del: fun_upd_apply intro: set_hint_ok)
  show "r = None \<longleftrightarrow> b \<notin> cs_bo ` set ?bs"
    using c
  proof cases
    case no
    then show ?thesis using hint by auto
  next
    case hit
    then have "?bs ! nat ?i \<in> set ?bs" by (simp add: nat_less_iff)
    then have "b \<in> cs_bo ` set ?bs" using imageI[of _ "set ?bs" cs_bo] hit(3) by metis
    then show ?thesis using hit(4) by simp
  next
    case scan
    then show ?thesis using found by (metis option.distinct(1))
  next
    case miss
    then show ?thesis using found by simp
  qed
  show "r = Some i \<Longrightarrow> i < length ?bs \<and> cs_bo (?bs ! i) = b"
    using c by cases (auto dest: find_rev_upt(1) simp: nat_less_iff)
qed

section \<open>Adding buffers\<close>

lemma update_list_simps [simp]:
  "buffer_lists (update_list l f csc) = (buffer_lists csc)(l := f (buffer_lists csc l))"
  "buffer_indices_hashlist (update_list l f csc) = buffer_indices_hashlist csc"
  "last_added_bo (update_list l f csc) = last_added_bo csc"
  "last_added_bo_usage (update_list l f csc) = last_added_bo_usage csc"
  by (simp_all add: update_list_def)

text \<open>The part of the invariant that does not mention the last added buffer.\<close>

definition lists_ok :: "(nat \<Rightarrow> cs_bo) \<Rightarrow> amdgpu_cs_context \<Rightarrow> bool" where
  "lists_ok bos csc \<longleftrightarrow>
    (\<forall>l. distinct (map cs_bo (buffers (buffer_lists csc l))))
    \<and> (\<forall>l. \<forall>b\<in>cs_bo ` set (buffers (buffer_lists csc l)). 0 \<le> buffer_indices_hashlist csc (bo_hash bos b))"

lemma csc_ok_lists: "csc_ok bos csc \<Longrightarrow> lists_ok bos csc"
  by (simp add: csc_ok_def lists_ok_def)

lemma add_usage_spec:
  assumes "lists_ok bos csc" "i < length (buffers (buffer_lists csc l))" "cs_bo (buffers (buffer_lists csc l) ! i) = b"
  shows "lists_ok bos (add_usage l i u csc)"
    and "usage_in (buffers (buffer_lists (add_usage l i u csc) l)) =
      (usage_in (buffers (buffer_lists csc l)))(b := Some (usage (buffers (buffer_lists csc l) ! i) OR u))"
    and "l' \<noteq> l \<Longrightarrow> buffer_lists (add_usage l i u csc) l' = buffer_lists csc l'"
    and "usage (buffers (buffer_lists (add_usage l i u csc) l) ! i) = usage (buffers (buffer_lists csc l) ! i) OR u"
proof -
  let ?bs = "buffers (buffer_lists csc l)"
  let ?x = "(?bs ! i)\<lparr>usage := usage (?bs ! i) OR u\<rparr>"
  have m: "map cs_bo (?bs[i := ?x]) = map cs_bo ?bs" using assms(2) by simp
  then have "cs_bo ` set (?bs[i := ?x]) = cs_bo ` set ?bs" by (metis list.set_map)
  then show "lists_ok bos (add_usage l i u csc)"
    using assms(1) m unfolding lists_ok_def add_usage_def by (simp del: map_bo_update ball_simps(9))
qed (use assms usage_in_update[of "buffers (buffer_lists csc l)" i] in \<open>simp_all add: add_usage_def lists_ok_def\<close>)

lemma do_add_spec:
  assumes "lists_ok bos csc" "b \<notin> cs_bo ` set (buffers (buffer_lists csc l))"
    and r: "amdgpu_do_add_buffer bos True b l csc = (r, csc')"
  shows "\<exists>i. r = Some i \<and> i < length (buffers (buffer_lists csc' l)) \<and> cs_bo (buffers (buffer_lists csc' l) ! i) = b
      \<and> usage (buffers (buffer_lists csc' l) ! i) = 0"
    and "lists_ok bos csc'"
    and "usage_in (buffers (buffer_lists csc' l)) = (usage_in (buffers (buffer_lists csc l)))(b := Some 0)"
    and "l' \<noteq> l \<Longrightarrow> buffer_lists csc' l' = buffer_lists csc l'"
    and "last_added_bo csc' = last_added_bo csc"
proof -
  have n: "usage_in (buffers (buffer_lists csc l)) b = None" using assms(2) by (simp add: usage_in_None)
  show "\<exists>i. r = Some i \<and> i < length (buffers (buffer_lists csc' l)) \<and> cs_bo (buffers (buffer_lists csc' l) ! i) = b
      \<and> usage (buffers (buffer_lists csc' l) ! i) = 0"
    using r by (auto simp: amdgpu_do_add_buffer_def Let_def)
  show "lists_ok bos csc'"
    using r assms(1,2) by (auto simp: amdgpu_do_add_buffer_def Let_def lists_ok_def set_hint_def split: if_splits)
  show "usage_in (buffers (buffer_lists csc' l)) = (usage_in (buffers (buffer_lists csc l)))(b := Some 0)"
    using r n by (auto simp: amdgpu_do_add_buffer_def Let_def fun_eq_iff split: option.splits)
  show "l' \<noteq> l \<Longrightarrow> buffer_lists csc' l' = buffer_lists csc l'" "last_added_bo csc' = last_added_bo csc"
    using r by (auto simp: amdgpu_do_add_buffer_def Let_def)
qed

definition add_request :: "nat \<Rightarrow> dword \<Rightarrow> (nat \<Rightarrow> dword option) \<Rightarrow> nat \<Rightarrow> dword option" where
  "add_request b u m = m(b := Some (case m b of None \<Rightarrow> u | Some v \<Rightarrow> v OR u))"

lemma lookup_or_add_spec:
  assumes ok: "csc_ok bos csc" and r: "amdgpu_lookup_or_add_buffer bos True b l csc = (r, csc1)"
  shows "\<exists>i. r = Some i \<and> i < length (buffers (buffer_lists csc1 l)) \<and> cs_bo (buffers (buffer_lists csc1 l) ! i) = b
      \<and> usage (buffers (buffer_lists csc1 l) ! i) = (case usage_in (buffers (buffer_lists csc l)) b of None \<Rightarrow> 0 | Some v \<Rightarrow> v)"
    and "lists_ok bos csc1"
    and "usage_in (buffers (buffer_lists csc1 l)) = add_request b 0 (usage_in (buffers (buffer_lists csc l)))"
    and "l' \<noteq> l \<Longrightarrow> buffer_lists csc1 l' = buffer_lists csc l'"
    and "last_added_bo csc1 = last_added_bo csc"
proof -
  let ?bs = "buffers (buffer_lists csc l)"
  obtain r0 csc0 where l: "amdgpu_lookup_buffer bos b l csc = (r0, csc0)" by fastforce
  note s = lookup_spec[OF ok l]
  have d: "distinct (map cs_bo ?bs)" using ok by (simp add: csc_ok_def)
  have main: "(\<exists>i. r = Some i \<and> i < length (buffers (buffer_lists csc1 l)) \<and> cs_bo (buffers (buffer_lists csc1 l) ! i) = b
      \<and> usage (buffers (buffer_lists csc1 l) ! i) = (case usage_in ?bs b of None \<Rightarrow> 0 | Some v \<Rightarrow> v))
    \<and> lists_ok bos csc1 \<and> usage_in (buffers (buffer_lists csc1 l)) = add_request b 0 (usage_in ?bs)
    \<and> (\<forall>l'. l' \<noteq> l \<longrightarrow> buffer_lists csc1 l' = buffer_lists csc l') \<and> last_added_bo csc1 = last_added_bo csc"
  proof (cases r0)
    case (Some i)
    then have i: "i < length ?bs" "cs_bo (?bs ! i) = b" using s(6) by simp_all
    then have "usage_in ?bs b = Some (usage (?bs ! i))" using usage_in_nth[OF d] by metis
    then show ?thesis
      using r l Some i s csc_ok_lists[OF s(1)]
      by (auto simp: amdgpu_lookup_or_add_buffer_def add_request_def fun_eq_iff)
  next
    case None
    then have n: "b \<notin> cs_bo ` set ?bs" using s(5) by simp
    then have "usage_in ?bs b = None" by (simp add: usage_in_None)
    moreover have "amdgpu_do_add_buffer bos True b l csc0 = (r, csc1)"
      using r l None by (simp add: amdgpu_lookup_or_add_buffer_def)
    note do_add_spec[OF csc_ok_lists[OF s(1)] _ this]
    ultimately show ?thesis using n s(2,4) by (simp add: add_request_def)
  qed
  then show "\<exists>i. r = Some i \<and> i < length (buffers (buffer_lists csc1 l)) \<and> cs_bo (buffers (buffer_lists csc1 l) ! i) = b
      \<and> usage (buffers (buffer_lists csc1 l) ! i) = (case usage_in ?bs b of None \<Rightarrow> 0 | Some v \<Rightarrow> v)"
    and "lists_ok bos csc1" and "usage_in (buffers (buffer_lists csc1 l)) = add_request b 0 (usage_in ?bs)"
    and "l' \<noteq> l \<Longrightarrow> buffer_lists csc1 l' = buffer_lists csc l'" and "last_added_bo csc1 = last_added_bo csc"
    by auto
qed

lemma cs_usage_list: "get_buf_list_idx (cs_bo_type (bos b)) = l \<Longrightarrow> cs_usage bos csc b = usage_in (buffers (buffer_lists csc l)) b"
  by (simp add: cs_usage_def)

text \<open>One call: the usage of the buffer grows by the requested bits, and nothing else changes.\<close>

lemma cs_add_buffer_spec:
  assumes ok: "csc_ok bos csc"
  shows "csc_ok bos (amdgpu_cs_add_buffer bos True b u csc)
    \<and> cs_usage bos (amdgpu_cs_add_buffer bos True b u csc) = add_request b u (cs_usage bos csc)"
proof (cases "last_added_bo csc = Some b \<and> u AND last_added_bo_usage csc = u")
  case True
  then obtain v where v: "cs_usage bos csc b = Some v" "last_added_bo_usage csc AND v = last_added_bo_usage csc"
    using ok unfolding csc_ok_def by blast
  have "u AND v = u" using True v(2) by (metis and.assoc)
  then have "v OR u = v" by (metis and.commute or.commute word_bw_comms(2) word_ao_absorbs(2))
  then show ?thesis using True ok v(1) by (auto simp: amdgpu_cs_add_buffer_def add_request_def)
next
  case False
  define l where "l = get_buf_list_idx (cs_bo_type (bos b))"
  obtain r csc1 where r: "amdgpu_lookup_or_add_buffer bos True b l csc = (r, csc1)" by fastforce
  note s = lookup_or_add_spec[OF ok r]
  obtain i where i: "r = Some i" "i < length (buffers (buffer_lists csc1 l))" "cs_bo (buffers (buffer_lists csc1 l) ! i) = b"
      "usage (buffers (buffer_lists csc1 l) ! i) = (case usage_in (buffers (buffer_lists csc l)) b of None \<Rightarrow> 0 | Some v \<Rightarrow> v)"
    using s(1) by blast
  define csc2 where "csc2 = add_usage l i u csc1"
  define csc3 where "csc3 = csc2\<lparr>last_added_bo_usage := usage (buffers (buffer_lists csc2 l) ! i), last_added_bo := Some b\<rparr>"
  note t = add_usage_spec[OF s(2) i(2,3), where u = u]
  have e: "amdgpu_cs_add_buffer bos True b u csc = csc3"
    using False r i(1) by (auto simp: amdgpu_cs_add_buffer_def Let_def l_def csc3_def csc2_def)
  have l3: "buffer_lists csc3 = buffer_lists csc2" "buffer_indices_hashlist csc3 = buffer_indices_hashlist csc2"
    by (simp_all add: csc3_def)
  have at: "usage_in (buffers (buffer_lists csc3 l)) = add_request b u (usage_in (buffers (buffer_lists csc l)))"
    using t(2) s(3) i(4) by (auto simp: l3 csc2_def add_request_def split: option.splits)
  have others: "buffer_lists csc3 l' = buffer_lists csc l'" if "l' \<noteq> l" for l'
    using t(3)[OF that] s(4)[OF that] by (simp add: l3 csc2_def)
  have use: "cs_usage bos csc3 = add_request b u (cs_usage bos csc)"
  proof
    fix c show "cs_usage bos csc3 c = add_request b u (cs_usage bos csc) c"
      using at others[of "get_buf_list_idx (cs_bo_type (bos c))"]
      by (cases "get_buf_list_idx (cs_bo_type (bos c)) = l")
        (auto simp: cs_usage_def add_request_def l_def)
  qed
  have "cs_usage bos csc3 b = Some (last_added_bo_usage csc3)"
    using at i(4) t(4) by (simp add: cs_usage_def l_def[symmetric] add_request_def csc3_def csc2_def split: option.splits)
  moreover have "lists_ok bos csc3" using t(1) by (simp add: lists_ok_def l3 csc2_def)
  ultimately show ?thesis using e use by (simp add: csc_ok_def lists_ok_def csc3_def)
qed

lemma fold_add_buffer:
  "csc_ok bos csc \<Longrightarrow> csc_ok bos (fold (\<lambda>(b, u). amdgpu_cs_add_buffer bos True b u) rs csc)
    \<and> cs_usage bos (fold (\<lambda>(b, u). amdgpu_cs_add_buffer bos True b u) rs csc) =
        fold (\<lambda>(b, u). add_request b u) rs (cs_usage bos csc)"
proof (induction rs arbitrary: csc)
  case (Cons x rs)
  obtain b u where "x = (b, u)" by fastforce
  then show ?case using Cons.IH[of "amdgpu_cs_add_buffer bos True b u csc"] cs_add_buffer_spec[OF Cons.prems, of b u] by simp
qed simp

lemma referenced_usage:
  assumes ok: "csc_ok bos csc"
  shows "amdgpu_bo_is_referenced_by_cs_with_usage bos b u csc \<longleftrightarrow> (\<exists>v. cs_usage bos csc b = Some v \<and> v AND u \<noteq> 0)"
proof -
  define l where "l = get_buf_list_idx (cs_bo_type (bos b))"
  obtain r csc1 where r: "amdgpu_lookup_buffer bos b l csc = (r, csc1)" by fastforce
  have d: "distinct (map cs_bo (buffers (buffer_lists csc l)))" using ok by (simp add: csc_ok_def)
  show ?thesis
  proof (cases r)
    case None
    then have "usage_in (buffers (buffer_lists csc l)) b = None" using lookup_spec(5)[OF ok r] by (simp add: usage_in_None)
    then show ?thesis using r None
      by (simp add: amdgpu_bo_is_referenced_by_cs_with_usage_def amdgpu_lookup_buffer_any_type_def cs_usage_def flip: l_def)
  next
    case (Some i)
    then have "i < length (buffers (buffer_lists csc l))" "cs_bo (buffers (buffer_lists csc l) ! i) = b"
      using lookup_spec(6)[OF ok r] by simp_all
    then have "usage_in (buffers (buffer_lists csc l)) b = Some (usage (buffers (buffer_lists csc l) ! i))"
      using usage_in_nth[OF d] by metis
    then show ?thesis using r Some
      by (simp add: amdgpu_bo_is_referenced_by_cs_with_usage_def amdgpu_lookup_buffer_any_type_def cs_usage_def flip: l_def)
  qed
qed

text \<open>A new context has empty lists and no hints.\<close>

definition new_csc :: amdgpu_cs_context where
  "new_csc = \<lparr>buffer_lists = (\<lambda>_. \<lparr>max_buffers = 0, buffers = []\<rparr>), buffer_indices_hashlist = (\<lambda>_. - 1),
    last_added_bo = None, last_added_bo_usage = 0,
    seq_no_dependencies = \<lparr>seq_no = (\<lambda>_. 0), valid_fence_mask = (\<lambda>_. False)\<rparr>,
    syncobj_dependencies = [], syncobj_to_signal = [], csc_fence = None, error_code = 0, secure = False\<rparr>"

lemma new_csc_ok: "csc_ok bos new_csc" "cs_usage bos new_csc = (\<lambda>_. None)"
  by (simp_all add: csc_ok_def new_csc_def cs_usage_def fun_eq_iff)

lemma cleaned_csc_ok: "csc_ok bos (reset_hashlist (amdgpu_cs_context_cleanup (amdgpu_cs_context_cleanup_buffers csc)))"
  by (simp add: csc_ok_def reset_hashlist_def amdgpu_cs_context_cleanup_def amdgpu_cs_context_cleanup_buffers_def)

section \<open>Properties\<close>

text \<open>C13: The buffer lists are a map from buffers to usages. Whatever buffers are added in whatever order, also
  when their hashes collide or the lists outgrow the 15 bits of a hint, each buffer is listed once, with the
  union of the usages it was added with, and the question whether the submission references a buffer for
  some usage is answered by that union.\<close>

theorem cs_buffer_lists_are_usage_map:
  fixes rs :: "(nat \<times> dword) list"
  assumes "csc_ok bos csc"
  defines "csc' \<equiv> fold (\<lambda>(b, u). amdgpu_cs_add_buffer bos True b u) rs csc"
  shows "csc_ok bos csc'
    \<and> cs_usage bos csc' = fold (\<lambda>(b, u). add_request b u) rs (cs_usage bos csc)
    \<and> (amdgpu_bo_is_referenced_by_cs_with_usage bos b u csc' \<longleftrightarrow> (\<exists>v. cs_usage bos csc' b = Some v \<and> v AND u \<noteq> 0))"
proof -
  note f = fold_add_buffer[OF assms(1), of rs]
  then show ?thesis unfolding csc'_def using referenced_usage by blast
qed

definition sample_bo :: "dword \<Rightarrow> cs_bo" where
  "sample_bo uid = \<lparr>cs_bo_type = AMDGPU_BO_REAL, cs_unique_id = uid,
    fences = \<lparr>seq_no = (\<lambda>_. 0), valid_fence_mask = (\<lambda>_. False)\<rparr>, alt_fence = None, num_active_ioctls = 0,
    is_shared = False, slab_has_busy_alt_fences = False, cs_vm_always_valid = False, resident_off_list = False,
    kms_handle = 0, vm_timeline_point = 0, slab_entry_real_bo = 0, sparse_backing_bos = []\<rparr>"

text \<open>C13 for two buffers with the same hash.\<close>

theorem cs_buffer_lists_are_usage_map_witness:
  "bo_hash (\<lambda>b. sample_bo (word_of_nat b * 0x8000)) 2 = bo_hash (\<lambda>b. sample_bo (word_of_nat b * 0x8000)) 3
   \<and> cs_usage (\<lambda>b. sample_bo (word_of_nat b * 0x8000))
      (fold (\<lambda>(b, u). amdgpu_cs_add_buffer (\<lambda>b. sample_bo (word_of_nat b * 0x8000)) True b u) [(2, 4), (3, 8), (2, 2)] new_csc) 2 = Some 6"
proof -
  have "cs_usage bos (fold (\<lambda>(b, u). amdgpu_cs_add_buffer bos True b u) [(2, 4), (3, 8), (2, 2)] new_csc) 2 = Some 6" for bos
    using cs_buffer_lists_are_usage_map[OF new_csc_ok(1)[of bos], of "[(2, 4), (3, 8), (2, 2)]" 2 2]
    by (simp add: new_csc_ok(2) add_request_def)
  moreover have "bo_hash (\<lambda>b. sample_bo (word_of_nat b * 0x8000)) 2 = bo_hash (\<lambda>b. sample_bo (word_of_nat b * 0x8000)) 3"
    by (simp add: bo_hash_def sample_bo_def BUFFER_HASHLIST_SIZE_def)
  ultimately show ?thesis by blast
qed

end
