(* ===== verification/CsSubmit.thy ===== *)
theory CsSubmit
  imports CsBuffers
begin

text \<open>
  Submitting a command buffer, \<open>amdgpu_cs_submit_ib\<close> of gallium/winsys/amdgpu/drm/amdgpu_cs.cpp. The
  function runs in the submission thread. It waits until the oldest fence of the ring may go, collects
  the sequence numbers of the buffers it uses, turns them into fences the kernel has to wait for, puts
  its own number into the buffers and its fence into the ring, and calls the kernel. It is written
  here as three parts: up to the wait (\<open>submit_wait_oldest\<close>), the rest of the critical section
  (\<open>submit_locked\<close>) and what follows the lock (\<open>submit_finish\<close>). The template parameter is an argument.
  A write through a null pointer is \<open>None\<close>. The answers of the kernel and of \<open>REALLOC\<close> are in the
  record \<open>submit_args\<close>.
\<close>

section \<open>Arguments and results\<close>

datatype queue_type = KERNELQ | KERNELQ_ALT_FENCE | USERQ

record submit_args =
  sa_type :: queue_type
  sa_queue :: nat
  sa_ip_type :: amd_ip_type
  sa_ctx :: nat
  sa_noop :: bool
  sa_ctx_lost :: bool
  sa_alloc_ok :: "nat \<Rightarrow> bool"
  sa_kernel_result :: int
  sa_kernel_seq_no :: nat
  sa_user_fence :: "nat option"

record submit_request =
  rq_bo_list :: "(nat \<times> dword) list"
  rq_shared_write :: "nat list"
  rq_shared_read :: "nat list"
  rq_vm_timeline_point :: nat
  rq_dependencies :: "(nat \<times> nat) list"

type_synonym submit_state = "fence_winsys \<times> amdgpu_cs_context \<times> amdgpu_seq_no_fences"

definition ECANCELED :: int where "ECANCELED = 125"

section \<open>Waiting for the oldest fence\<close>

text \<open>\<open>g\<close> is the view at the first question, \<open>g'\<close> the one after the wait without a timeout, whose answer is
  the result; the code ignores it.\<close>

definition submit_wait_oldest :: "gpu_view \<Rightarrow> gpu_view \<Rightarrow> nat \<Rightarrow> fence_winsys \<Rightarrow> bool \<times> fence_winsys" where
  "submit_wait_oldest g g' q aws =
    (let next_seq_no = latest_seq_no (queues aws q) + 1; slot = unat next_seq_no mod AMDGPU_FENCE_RING_SIZE
     in case ring (queues aws q) slot of
          None \<Rightarrow> (True, aws)
        | Some f \<Rightarrow>
            (let (idle, aws1) = amdgpu_fence_wait g True f aws
             in if idle then (True, clear_ptr (RingSlot q slot) aws1)
                else let (ok, aws2) = amdgpu_fence_wait g' False f aws1
                     in (ok, clear_ptr (RingSlot q slot) aws2)))"

section \<open>Dependencies of the buffers\<close>

definition own_queue :: "submit_args \<Rightarrow> nat option" where
  "own_queue A = (if sa_type A = KERNELQ_ALT_FENCE then None else Some (sa_queue A))"

definition amdgpu_add_fences_to_dependencies ::
  "(nat \<Rightarrow> amdgpu_queue) \<Rightarrow> nat option \<Rightarrow> cs_bo \<Rightarrow> dword \<Rightarrow> amdgpu_seq_no_fences \<times> (nat \<times> nat) list
    \<Rightarrow> amdgpu_seq_no_fences \<times> (nat \<times> nat) list" where
  "amdgpu_add_fences_to_dependencies qs own bo u ds =
    (if u AND RADEON_USAGE_SYNCHRONIZED \<noteq> 0
     then (fold (\<lambda>q. add_seq_no_to_list qs q (seq_no (fences bo) q))
             (foreach_bit (\<lambda>q. valid_fence_mask (fences bo) q \<and> own \<noteq> Some q)) (fst ds),
           case alt_fence bo of None \<Rightarrow> snd ds | Some f \<Rightarrow> add_fence_to_list f 0 (snd ds))
     else ds)"

definition mark_bo :: "submit_args \<Rightarrow> uint_seq_no \<Rightarrow> nat \<Rightarrow> cs_bo \<Rightarrow> cs_bo" where
  "mark_bo A next_seq_no f =
    (if sa_type A = KERNELQ_ALT_FENCE then alt_fence_update (\<lambda>_. Some f)
     else fences_update (set_seq_no (sa_queue A) next_seq_no))"

text \<open>What the three loops do with a buffer: collect its fences, then put the new one in.\<close>

definition submit_bo :: "submit_args \<Rightarrow> uint_seq_no \<Rightarrow> nat \<Rightarrow> amdgpu_cs_buffer \<Rightarrow> submit_state \<Rightarrow> submit_state" where
  "submit_bo A next_seq_no f x st =
    (case st of (aws, csc, ds) \<Rightarrow>
      let (ds', sync) = amdgpu_add_fences_to_dependencies (queues aws) (own_queue A) (bo_of aws (cs_bo x)) (usage x)
            (ds, syncobj_dependencies csc)
      in (update_bo (cs_bo x) (mark_bo A next_seq_no f) aws, csc\<lparr>syncobj_dependencies := sync\<rparr>, ds'))"

fun submit_slab_entries ::
  "submit_args \<Rightarrow> uint_seq_no \<Rightarrow> nat \<Rightarrow> amdgpu_cs_buffer list \<Rightarrow> submit_state \<Rightarrow> submit_state option" where
  "submit_slab_entries A n f [] st = Some st"
| "submit_slab_entries A n f (x # xs) st =
    (case submit_bo A n f x st of (aws, csc, ds) \<Rightarrow>
      (case amdgpu_lookup_or_add_buffer (bo_of aws) (sa_alloc_ok A (cs_bo x)) (slab_entry_real_bo (bo_of aws (cs_bo x))) LIST_REAL csc of
         (None, _) \<Rightarrow> None
       | (Some i, csc1) \<Rightarrow> submit_slab_entries A n f xs (aws, add_usage LIST_REAL i (usage x) csc1, ds)))"

definition set_usage :: "nat \<Rightarrow> nat \<Rightarrow> dword \<Rightarrow> amdgpu_cs_context \<Rightarrow> amdgpu_cs_context" where
  "set_usage l i u = update_list l (\<lambda>x. x\<lparr>buffers := (buffers x)[i := (buffers x ! i)\<lparr>usage := u\<rparr>]\<rparr>)"

fun add_sparse_backing ::
  "(nat \<Rightarrow> cs_bo) \<Rightarrow> (nat \<Rightarrow> bool) \<Rightarrow> dword \<Rightarrow> nat list \<Rightarrow> amdgpu_cs_context \<Rightarrow> amdgpu_cs_context option" where
  "add_sparse_backing bos alloc_ok u [] csc = Some csc"
| "add_sparse_backing bos alloc_ok u (b # bs) csc =
    (case amdgpu_do_add_buffer bos (alloc_ok b) b LIST_REAL csc of
       (None, _) \<Rightarrow> None
     | (Some i, csc1) \<Rightarrow> add_sparse_backing bos alloc_ok u bs (set_usage LIST_REAL i u csc1))"

fun submit_sparse ::
  "submit_args \<Rightarrow> uint_seq_no \<Rightarrow> nat \<Rightarrow> amdgpu_cs_buffer list \<Rightarrow> submit_state \<Rightarrow> submit_state option" where
  "submit_sparse A n f [] st = Some st"
| "submit_sparse A n f (x # xs) st =
    (case submit_bo A n f x st of (aws, csc, ds) \<Rightarrow>
      (case add_sparse_backing (bo_of aws) (sa_alloc_ok A) (usage x) (sparse_backing_bos (bo_of aws (cs_bo x))) csc of
         None \<Rightarrow> None
       | Some csc1 \<Rightarrow> submit_sparse A n f xs (aws, csc1, ds)))"

definition mark_slab_backing :: "submit_args \<Rightarrow> uint_seq_no \<Rightarrow> amdgpu_cs_buffer \<Rightarrow> fence_winsys \<Rightarrow> fence_winsys" where
  "mark_slab_backing A next_seq_no x =
    (if sa_type A = KERNELQ_ALT_FENCE
     then update_bo (cs_bo x) (slab_has_busy_alt_fences_update (\<lambda>_. True))
     else amdgpu_set_bo_seq_no (sa_queue A) next_seq_no (cs_bo x))"

section \<open>What the kernel is given\<close>

definition util_last_bit :: "dword \<Rightarrow> nat" where
  "util_last_bit u = (case find (bit u) (rev [0..<32]) of None \<Rightarrow> 0 | Some i \<Rightarrow> Suc i)"

definition amdgpu_add_to_kernel_bo_list :: "cs_bo \<Rightarrow> dword \<Rightarrow> nat \<times> dword" where
  "amdgpu_add_to_kernel_bo_list bo u =
    (kms_handle bo, drop_bit 1 (word_of_nat (util_last_bit (u AND RADEON_ALL_PRIORITIES)) - 1))"

definition kernel_bo_list :: "(nat \<Rightarrow> cs_bo) \<Rightarrow> amdgpu_cs_buffer list \<Rightarrow> (nat \<times> dword) list" where
  "kernel_bo_list bos xs =
    map (\<lambda>x. amdgpu_add_to_kernel_bo_list (bos (cs_bo x)) (usage x))
      (filter (\<lambda>x. \<not> cs_vm_always_valid (bos (cs_bo x)) \<and> \<not> resident_off_list (bos (cs_bo x))) xs)"

text \<open>The handles of the shared buffers: those that are written from the front of the array, the others from its
  end.\<close>

definition shared_handles :: "(nat \<Rightarrow> cs_bo) \<Rightarrow> amdgpu_cs_buffer list \<Rightarrow> nat list \<times> nat list" where
  "shared_handles bos xs =
    (let sh = filter (\<lambda>x. is_shared (bos (cs_bo x))) xs; w = (\<lambda>x. usage x AND RADEON_USAGE_WRITE \<noteq> 0)
     in (map (\<lambda>x. kms_handle (bos (cs_bo x))) (filter w sh),
         rev (map (\<lambda>x. kms_handle (bos (cs_bo x))) (filter (Not \<circ> w) sh))))"

section \<open>Dependencies as fences\<close>

fun convert_dependencies :: "gpu_view \<Rightarrow> nat list \<Rightarrow> submit_state \<Rightarrow> submit_state" where
  "convert_dependencies g [] st = st"
| "convert_dependencies g (q # qs) (aws, csc, ds) =
    (case get_fence_from_ring (queues aws) ds q of
       (None, ds1) \<Rightarrow> convert_dependencies g qs (aws, csc, ds1)
     | (Some slot, ds1) \<Rightarrow>
         (case ring (queues aws q) slot of
            None \<Rightarrow> convert_dependencies g qs (aws, csc, ds1)
          | Some f \<Rightarrow>
              (let (idle, aws1) = amdgpu_fence_wait g True f aws
               in if idle then convert_dependencies g qs (clear_ptr (RingSlot q slot) aws1, csc, ds1)
                  else convert_dependencies g qs
                    (aws1, csc\<lparr>syncobj_dependencies := add_fence_to_list f 0 (syncobj_dependencies csc)\<rparr>, ds1))))"

text \<open>The dependency on the previous job of the queue.\<close>

definition add_prev_dependency :: "submit_args \<Rightarrow> fence_winsys \<Rightarrow> amdgpu_seq_no_fences \<Rightarrow> amdgpu_seq_no_fences" where
  "add_prev_dependency A aws ds =
    (let queue = queues aws (sa_queue A); prev_seq_no = latest_seq_no queue
     in if sa_type A = KERNELQ \<and> ring queue (unat prev_seq_no mod AMDGPU_FENCE_RING_SIZE) \<noteq> None \<and>
           (last_ctx queue \<noteq> Some (sa_ctx A) \<or> num_hw_queues aws (sa_ip_type A) \<noteq> 1)
        then add_seq_no_to_list (queues aws) (sa_queue A) prev_seq_no ds else ds)"

definition push_fence :: "submit_args \<Rightarrow> nat \<Rightarrow> fence_winsys \<Rightarrow> fence_winsys" where
  "push_fence A f aws =
    (if sa_type A = KERNELQ_ALT_FENCE then aws
     else let q = sa_queue A; queue = queues aws q; next_seq_no = latest_seq_no queue + 1;
              slot = unat next_seq_no mod AMDGPU_FENCE_RING_SIZE
          in update_fence f (queue_seq_no_update (\<lambda>_. next_seq_no))
               (aws\<lparr>queues := (queues aws)(q := queue\<lparr>ring := (ring queue)(slot := Some f),
                    latest_seq_no := next_seq_no, last_ctx := Some (sa_ctx A)\<rparr>)\<rparr>))"

definition submit_locked ::
  "submit_args \<Rightarrow> gpu_view \<Rightarrow> nat \<Rightarrow> amdgpu_cs_context \<Rightarrow> fence_winsys
    \<Rightarrow> (fence_winsys \<times> amdgpu_cs_context \<times> submit_request) option" where
  "submit_locked A g f csc aws =
    (let next_seq_no = latest_seq_no (queues aws (sa_queue A)) + 1;
         ds0 = add_prev_dependency A aws (seq_no_dependencies csc);
         initial_num_real = length (buffers (buffer_lists csc LIST_REAL))
     in case submit_slab_entries A next_seq_no f (buffers (buffer_lists csc LIST_SLAB_ENTRY)) (aws, csc, ds0) of
          None \<Rightarrow> None
        | Some (aws1, csc1, ds1) \<Rightarrow>
            (let num_except_sparse = length (buffers (buffer_lists csc1 LIST_REAL))
             in case submit_sparse A next_seq_no f (buffers (buffer_lists csc1 LIST_SPARSE)) (aws1, csc1, ds1) of
                  None \<Rightarrow> None
                | Some (aws2, csc2, ds2) \<Rightarrow>
                    (let real = buffers (buffer_lists csc2 LIST_REAL);
                         (aws3, csc3, ds3) = fold (submit_bo A next_seq_no f) (take initial_num_real real) (aws2, csc2, ds2);
                         aws4 = fold (mark_slab_backing A next_seq_no) (drop initial_num_real (take num_except_sparse real)) aws3;
                         (aws5, csc5, ds5) = convert_dependencies g (foreach_bit (valid_fence_mask ds3)) (aws4, csc3, ds3);
                         points = map (\<lambda>x. vm_timeline_point (bo_of aws (cs_bo x)))
                           (buffers (buffer_lists csc1 LIST_SPARSE) @ take num_except_sparse real)
                     in Some (push_fence A f aws5, csc5,
                          \<lparr>rq_bo_list = (if sa_type A = USERQ then [] else kernel_bo_list (bo_of aws5) real),
                           rq_shared_write = (if sa_type A = USERQ then fst (shared_handles (bo_of aws5) real) else []),
                           rq_shared_read = (if sa_type A = USERQ then snd (shared_handles (bo_of aws5) real) else []),
                           rq_vm_timeline_point = (if sa_type A = USERQ then fold max points 0 else 0),
                           rq_dependencies = syncobj_dependencies csc5\<rparr>))))"

section \<open>After the lock\<close>

definition submit_result :: "submit_args \<Rightarrow> int" where
  "submit_result A =
    (if sa_ctx_lost A then - ECANCELED
     else if sa_noop A \<and> sa_ip_type A \<noteq> AMD_IP_GFX then 0
     else sa_kernel_result A)"

definition reaches_kernel :: "submit_args \<Rightarrow> bool" where
  "reaches_kernel A \<longleftrightarrow> \<not> sa_ctx_lost A \<and> \<not> (sa_noop A \<and> sa_ip_type A \<noteq> AMD_IP_GFX)"

definition dec_ioctls :: "amdgpu_cs_buffer list \<Rightarrow> fence_winsys \<Rightarrow> fence_winsys" where
  "dec_ioctls = fold (\<lambda>x. update_bo (cs_bo x) (num_active_ioctls_update (\<lambda>n. n - 1)))"

definition submit_finish ::
  "submit_args \<Rightarrow> nat \<Rightarrow> amdgpu_cs_context \<Rightarrow> submit_request \<Rightarrow> fence_winsys \<times> amdgpu_cs_context \<Rightarrow> fence_winsys \<times> amdgpu_cs_context" where
  "submit_finish A f csc0 rq st =
    (case st of (aws, csc) \<Rightarrow>
      let aws1 = (if sa_ip_type A = AMD_IP_GFX \<and> sa_type A \<noteq> USERQ
                  then aws\<lparr>gfx_bo_list_counter := gfx_bo_list_counter aws + length (rq_bo_list rq)\<rparr> else aws);
          r = submit_result A;
          aws2 = (if reaches_kernel A \<and> r = 0 then amdgpu_fence_submitted f (sa_kernel_seq_no A) (sa_user_fence A) aws1 else aws1);
          aws3 = (if r \<noteq> 0 \<or> (sa_noop A \<and> sa_ip_type A \<noteq> AMD_IP_GFX) then amdgpu_fence_signalled f aws2 else aws2);
          aws4 = dec_ioctls (buffers (buffer_lists csc0 LIST_SLAB_ENTRY) @ buffers (buffer_lists csc0 LIST_SPARSE)
                   @ buffers (buffer_lists csc0 LIST_REAL)) aws3
      in (aws4, amdgpu_cs_context_cleanup (amdgpu_cs_context_cleanup_buffers (csc\<lparr>error_code := r\<rparr>))))"

definition amdgpu_cs_submit_ib ::
  "submit_args \<Rightarrow> gpu_view \<Rightarrow> amdgpu_cs_context \<Rightarrow> fence_winsys
    \<Rightarrow> (fence_winsys \<times> amdgpu_cs_context \<times> submit_request) option" where
  "amdgpu_cs_submit_ib A g csc aws =
    (case csc_fence csc of
       None \<Rightarrow> None
     | Some f \<Rightarrow>
         (case submit_locked A g f csc aws of
            None \<Rightarrow> None
          | Some (aws1, csc1, rq) \<Rightarrow>
              (let (aws2, csc2) = submit_finish A f csc rq (aws1, csc1) in Some (aws2, csc2, rq))))"

text \<open>Fences the application asks to wait for, and the counter that keeps a buffer busy while its submission is
  on the way.\<close>

definition amdgpu_cs_add_fence_dependency ::
  "gpu_view \<Rightarrow> bool \<Rightarrow> amd_ip_type \<Rightarrow> nat \<Rightarrow> nat \<Rightarrow> amdgpu_cs_context \<times> fence_winsys \<Rightarrow> amdgpu_cs_context \<times> fence_winsys" where
  "amdgpu_cs_add_fence_dependency g is_userq ip_type f point st =
    (case st of (csc, aws) \<Rightarrow>
      if \<not> imported (fence_of aws f)
      then if \<not> is_userq \<or> fence_ip_type (fence_of aws f) \<noteq> ip_type
           then let (idle, aws1) = amdgpu_fence_wait g True f aws
                in if idle then (csc, aws1)
                   else (csc\<lparr>seq_no_dependencies := add_seq_no_to_list (queues aws1) (fence_queue (fence_of aws1 f))
                          (queue_seq_no (fence_of aws1 f)) (seq_no_dependencies csc)\<rparr>, aws1)
           else (csc, aws)
      else (csc\<lparr>syncobj_dependencies := add_fence_to_list f point (syncobj_dependencies csc)\<rparr>, aws))"

definition inc_ioctls :: "amdgpu_cs_context \<Rightarrow> fence_winsys \<Rightarrow> fence_winsys" where
  "inc_ioctls csc =
    fold (\<lambda>x. update_bo (cs_bo x) (num_active_ioctls_update (\<lambda>n. n + 1)))
      (buffers (buffer_lists csc LIST_SLAB_ENTRY) @ buffers (buffer_lists csc LIST_SPARSE) @ buffers (buffer_lists csc LIST_REAL))"

end
