(* ===== verification/CsSubmitProps.thy ===== *)
theory CsSubmitProps
  imports CsSubmit
begin

text \<open>
  Correctness of one submission: \<open>amdgpu_cs_submit_ib\<close> is followed through its loops, to what the
  collected sequence numbers cover and what becomes of the ring and the buffers (\<open>submit_locked_spec\<close> under the lock, \<open>submit_ib_spec\<close> for the
  whole function). \<open>submit_finish_frame\<close> says what the unlocked tail leaves alone whatever the kernel answers,
  \<open>locked_dependencies_from\<close> from which buffers a dependency can come.
  The submissions of many jobs, with the GPU and other threads between them, are in CsSystem.
\<close>

section \<open>The GPU as the processor sees it\<close>

text \<open>What the winsys relies on: a user fence in memory reaches a number, and the wait for a syncobj succeeds,
  only when the job of the fence is done. \<open>dn\<close> are the jobs that are.\<close>

definition view_ok :: "nat set \<Rightarrow> fence_winsys \<Rightarrow> gpu_view \<Rightarrow> bool" where
  "view_ok dn aws g \<longleftrightarrow>
    (\<forall>f. submitted (fence_of aws f) \<longrightarrow>
      (syncobj_idle g f \<longrightarrow> f \<in> dn) \<and>
      (\<forall>a. user_fence (fence_of aws f) = Some a \<longrightarrow> kernel_seq_no (fence_of aws f) \<le> user_fence_memory g a \<longrightarrow> f \<in> dn))"

definition sig_ok :: "nat set \<Rightarrow> fence_winsys \<Rightarrow> bool" where
  "sig_ok dn aws \<longleftrightarrow> (\<forall>f. signalled (fence_of aws f) \<longrightarrow> f \<in> dn)"

lemma update_fence_simps [simp]:
  "queues (update_fence f h aws) = queues aws"
  "bo_of (update_fence f h aws) = bo_of aws"
  "num_hw_queues (update_fence f h aws) = num_hw_queues aws"
  "fence_of (update_fence f h aws) = (fence_of aws)(f := h (fence_of aws f))"
  by (simp_all add: update_fence_def)

lemma update_bo_simps [simp]:
  "queues (update_bo b h aws) = queues aws"
  "fence_of (update_bo b h aws) = fence_of aws"
  "num_hw_queues (update_bo b h aws) = num_hw_queues aws"
  "bo_of (update_bo b h aws) = (bo_of aws)(b := h (bo_of aws b))"
  by (simp_all add: update_bo_def)

lemma view_ok_cong: "fence_of aws' = fence_of aws \<Longrightarrow> view_ok dn aws' g = view_ok dn aws g"
  "fence_of aws' = fence_of aws \<Longrightarrow> sig_ok dn aws' = sig_ok dn aws"
  by (simp_all add: view_ok_def sig_ok_def)

lemma fence_wait_spec:
  assumes "sig_ok dn aws" "view_ok dn aws g" and r: "amdgpu_fence_wait g query f aws = (r, aws')"
  shows "r \<Longrightarrow> f \<in> dn" "sig_ok dn aws'" "view_ok dn aws' g'  = view_ok dn aws g'"
    "queues aws' = queues aws" "bo_of aws' = bo_of aws" "num_hw_queues aws' = num_hw_queues aws"
proof -
  have c: "(\<not> r \<and> aws' = aws) \<or> (r \<and> f \<in> dn \<and> (aws' = aws \<or> aws' = update_fence f (\<lambda>x. x\<lparr>signalled := True\<rparr>) aws))"
    using r assms(1,2) unfolding amdgpu_fence_wait_def Let_def sig_ok_def view_ok_def
    by (auto split: if_splits option.splits)
  then show "r \<Longrightarrow> f \<in> dn" by blast
  show "sig_ok dn aws'" using c assms(1) by (auto simp: sig_ok_def split: if_splits)
  show "view_ok dn aws' g' = view_ok dn aws g'" proof -
    have "submitted (fence_of aws' h) = submitted (fence_of aws h) \<and> user_fence (fence_of aws' h) = user_fence (fence_of aws h)
        \<and> kernel_seq_no (fence_of aws' h) = kernel_seq_no (fence_of aws h)" for h
      using c by (cases "h = f") auto
    then show ?thesis by (simp add: view_ok_def)
  qed
  show "queues aws' = queues aws" "bo_of aws' = bo_of aws" "num_hw_queues aws' = num_hw_queues aws" using c by auto
qed

section \<open>What a record of sequence numbers covers\<close>

text \<open>\<open>n q\<close> is the number of jobs of queue \<open>q\<close>.\<close>

definition counts :: "(nat \<Rightarrow> nat) \<Rightarrow> (nat \<Rightarrow> amdgpu_queue) \<Rightarrow> bool" where
  "counts n qs \<longleftrightarrow> (\<forall>q. latest_seq_no (qs q) = word_of_nat (n q))"

definition ds_ok :: "(nat \<Rightarrow> nat) \<Rightarrow> amdgpu_seq_no_fences \<Rightarrow> bool" where
  "ds_ok n ds \<longleftrightarrow> (\<forall>q. valid_fence_mask ds q \<longrightarrow> q < AMDGPU_MAX_QUEUES \<and> age (n q) (seq_no ds q) < n q)"

text \<open>\<open>ds'\<close> names on queue \<open>q\<close> a job at least as recent as \<open>ds\<close>.\<close>

definition covers :: "(nat \<Rightarrow> nat) \<Rightarrow> amdgpu_seq_no_fences \<Rightarrow> amdgpu_seq_no_fences \<Rightarrow> nat \<Rightarrow> bool" where
  "covers n ds' ds q \<longleftrightarrow>
    (valid_fence_mask ds q \<longrightarrow> valid_fence_mask ds' q \<and> age (n q) (seq_no ds' q) \<le> age (n q) (seq_no ds q))"

lemma covers_refl [simp]: "covers n ds ds q"
  by (simp add: covers_def)

lemma covers_trans: "covers n a b q \<Longrightarrow> covers n b c q \<Longrightarrow> covers n a c q"
  by (auto simp: covers_def)

lemma add_seq_no_spec:
  assumes "counts n qs"
  shows "covers n (add_seq_no_to_list qs q m ds) ds p"
    and "valid_fence_mask (add_seq_no_to_list qs q m ds) q"
    and "age (n q) (seq_no (add_seq_no_to_list qs q m ds) q) \<le> age (n q) m"
    and "ds_ok n ds \<Longrightarrow> q < AMDGPU_MAX_QUEUES \<Longrightarrow> age (n q) m < n q \<Longrightarrow> ds_ok n (add_seq_no_to_list qs q m ds)"
  using pick_latest_age[of qs q "n q" m "seq_no ds q"] assms
  by (auto simp: add_seq_no_to_list_def covers_def ds_ok_def counts_def)

lemma fold_add_seq_no:
  assumes "counts n qs"
  shows "(\<forall>p. covers n (fold (\<lambda>q. add_seq_no_to_list qs q (s q)) ps ds) ds p)
    \<and> (\<forall>q\<in>set ps. valid_fence_mask (fold (\<lambda>q. add_seq_no_to_list qs q (s q)) ps ds) q
         \<and> age (n q) (seq_no (fold (\<lambda>q. add_seq_no_to_list qs q (s q)) ps ds) q) \<le> age (n q) (s q))
    \<and> (ds_ok n ds \<longrightarrow> (\<forall>q\<in>set ps. q < AMDGPU_MAX_QUEUES \<and> age (n q) (s q) < n q) \<longrightarrow>
         ds_ok n (fold (\<lambda>q. add_seq_no_to_list qs q (s q)) ps ds))"
proof (induction ps arbitrary: ds)
  case (Cons q ps)
  note a = add_seq_no_spec[OF assms, where q = q and m = "s q" and ds = ds]
  note i = Cons.IH[of "add_seq_no_to_list qs q (s q) ds"]
  have "valid_fence_mask (fold (\<lambda>q. add_seq_no_to_list qs q (s q)) (q # ps) ds) q
      \<and> age (n q) (seq_no (fold (\<lambda>q. add_seq_no_to_list qs q (s q)) (q # ps) ds) q) \<le> age (n q) (s q)"
    using i a(2,3) unfolding covers_def by (auto intro: order_trans)
  then show ?case using i a(4) covers_trans[OF _ a(1)] by auto
qed (auto simp: covers_def)

lemma set_foreach_bit [simp]: "set (foreach_bit P) = {q. q < AMDGPU_MAX_QUEUES \<and> P q}" "distinct (foreach_bit P)"
  by (auto simp: foreach_bit_def)

lemma merge_fences_spec:
  assumes "counts n (queues aws)" "ds_ok n (fences (bo_of aws b))" "ds_ok n (fences (bo_of aws bk))"
  shows "ds_ok n (fences (bo_of (merge_bo_fences b bk aws) bk))"
    and "covers n (fences (bo_of (merge_bo_fences b bk aws) bk)) (fences (bo_of aws bk)) q"
    and "covers n (fences (bo_of (merge_bo_fences b bk aws) bk)) (fences (bo_of aws b)) q"
  using fold_add_seq_no[OF assms(1), of "seq_no (fences (bo_of aws b))" "foreach_bit (valid_fence_mask (fences (bo_of aws b)))"
      "fences (bo_of aws bk)"] assms(2,3)
  by (auto simp: merge_bo_fences_def ds_ok_def covers_def)

section \<open>One buffer of the submission\<close>

definition synchronised :: "amdgpu_cs_buffer \<Rightarrow> bool" where
  "synchronised x \<longleftrightarrow> usage x AND RADEON_USAGE_SYNCHRONIZED \<noteq> 0"

definition marked :: "submit_args \<Rightarrow> uint_seq_no \<Rightarrow> nat \<Rightarrow> nat set \<Rightarrow> fence_winsys \<Rightarrow> fence_winsys" where
  "marked A m f M aws = aws\<lparr>bo_of := (\<lambda>b. if b \<in> M then mark_bo A m f (bo_of aws b) else bo_of aws b)\<rparr>"

lemma marked_simps [simp]:
  "queues (marked A m f M aws) = queues aws"
  "fence_of (marked A m f M aws) = fence_of aws"
  "num_hw_queues (marked A m f M aws) = num_hw_queues aws"
  "bo_of (marked A m f M aws) b = (if b \<in> M then mark_bo A m f (bo_of aws b) else bo_of aws b)"
  "marked A m f {} aws = aws"
  by (simp_all add: marked_def)

lemma mark_bo_idem: "mark_bo A m f (mark_bo A m f bo) = mark_bo A m f bo"
  by (simp add: mark_bo_def set_seq_no_def)

lemma marked_insert: "update_bo b (mark_bo A m f) (marked A m f M aws) = marked A m f (insert b M) aws"
  by (auto simp: update_bo_def marked_def fun_eq_iff mark_bo_idem)

text \<open>What the loops have achieved after the buffers \<open>X\<close>, from the state \<open>aws0\<close> with the dependencies \<open>S0\<close> and
  \<open>ds0\<close>.\<close>

definition acc ::
  "submit_args \<Rightarrow> uint_seq_no \<Rightarrow> nat \<Rightarrow> (nat \<Rightarrow> nat) \<Rightarrow> fence_winsys \<Rightarrow> (nat \<times> nat) set \<Rightarrow> amdgpu_seq_no_fences
    \<Rightarrow> amdgpu_cs_buffer list \<Rightarrow> submit_state \<Rightarrow> bool" where
  "acc A m f n aws0 S0 ds0 X st \<longleftrightarrow>
    (case st of (aws, csc, ds) \<Rightarrow>
      aws = marked A m f (cs_bo ` set X) aws0 \<and> ds_ok n ds \<and> (\<forall>q. covers n ds ds0 q)
      \<and> S0 \<subseteq> set (syncobj_dependencies csc)
      \<and> (\<forall>x\<in>set X. synchronised x \<longrightarrow>
           (\<forall>q. own_queue A \<noteq> Some q \<longrightarrow> covers n ds (fences (bo_of aws0 (cs_bo x))) q)
           \<and> (\<forall>a. alt_fence (bo_of aws0 (cs_bo x)) = Some a \<longrightarrow> (a, 0) \<in> set (syncobj_dependencies csc))))"

lemma submit_bo_acc:
  assumes "acc A m f n aws0 S0 ds0 X st" "counts n (queues aws0)" "ds_ok n (fences (bo_of aws0 (cs_bo x)))"
    and fresh: "cs_bo x \<notin> cs_bo ` set X"
  shows "acc A m f n aws0 S0 ds0 (X @ [x]) (submit_bo A m f x st)"
    and "buffer_lists (fst (snd (submit_bo A m f x st))) = buffer_lists (fst (snd st))"
proof -
  obtain aws csc ds where st: "st = (aws, csc, ds)" by (cases st)
  let ?bo = "bo_of aws0 (cs_bo x)"
  have aws: "aws = marked A m f (cs_bo ` set X) aws0" and bo: "bo_of aws (cs_bo x) = ?bo"
    using assms(1) fresh st by (auto simp: acc_def)
  obtain ds' sync where d: "amdgpu_add_fences_to_dependencies (queues aws) (own_queue A) ?bo (usage x) (ds, syncobj_dependencies csc) = (ds', sync)"
    by fastforce
  have e: "submit_bo A m f x st = (marked A m f (cs_bo ` set (X @ [x])) aws0, csc\<lparr>syncobj_dependencies := sync\<rparr>, ds')"
    using d bo by (simp add: submit_bo_def st aws marked_insert)
  note g = fold_add_seq_no[of n "queues aws0" "seq_no (fences ?bo)"
      "foreach_bit (\<lambda>q. valid_fence_mask (fences ?bo) q \<and> own_queue A \<noteq> Some q)" ds, OF assms(2)]
  have dok: "ds_ok n ds" using assms(1) st by (simp add: acc_def)
  have r: "ds_ok n ds' \<and> (\<forall>q. covers n ds' ds q) \<and> set (syncobj_dependencies csc) \<subseteq> set sync
      \<and> (synchronised x \<longrightarrow> (\<forall>q. own_queue A \<noteq> Some q \<longrightarrow> covers n ds' (fences ?bo) q)
           \<and> (\<forall>a. alt_fence ?bo = Some a \<longrightarrow> (a, 0) \<in> set sync))"
  proof (cases "synchronised x")
    case False
    then have "ds' = ds" "sync = syncobj_dependencies csc"
      using d by (simp_all add: amdgpu_add_fences_to_dependencies_def synchronised_def)
    then show ?thesis using False dok by simp
  next
    case True
    then have ds': "ds' = fold (\<lambda>q. add_seq_no_to_list (queues aws0) q (seq_no (fences ?bo) q))
        (foreach_bit (\<lambda>q. valid_fence_mask (fences ?bo) q \<and> own_queue A \<noteq> Some q)) ds"
      and sync: "sync = (case alt_fence ?bo of None \<Rightarrow> syncobj_dependencies csc | Some a \<Rightarrow> syncobj_dependencies csc @ [(a, 0)])"
      using d by (auto simp: amdgpu_add_fences_to_dependencies_def synchronised_def aws add_fence_to_list_def split: option.splits)
    have src: "q < AMDGPU_MAX_QUEUES \<and> age (n q) (seq_no (fences ?bo) q) < n q" if "valid_fence_mask (fences ?bo) q" for q
      using assms(3) that by (simp add: ds_ok_def)
    have "ds_ok n ds'" using g dok src unfolding ds' by simp
    moreover have "\<forall>q. covers n ds' ds q" using g unfolding ds' by blast
    moreover have "covers n ds' (fences ?bo) q" if "own_queue A \<noteq> Some q" for q
      using g src that unfolding ds' covers_def[of n _ "fences ?bo"] by simp
    ultimately show ?thesis unfolding sync by (auto split: option.splits)
  qed
  have old: "\<forall>q. covers n ds ds0 q" "S0 \<subseteq> set (syncobj_dependencies csc)"
    "\<forall>y\<in>set X. synchronised y \<longrightarrow>
           (\<forall>q. own_queue A \<noteq> Some q \<longrightarrow> covers n ds (fences (bo_of aws0 (cs_bo y))) q)
           \<and> (\<forall>a. alt_fence (bo_of aws0 (cs_bo y)) = Some a \<longrightarrow> (a, 0) \<in> set (syncobj_dependencies csc))"
    using assms(1) st by (simp_all add: acc_def)
  have tr: "covers n ds' c q" if "covers n ds c q" for c q using r covers_trans that by blast
  show "acc A m f n aws0 S0 ds0 (X @ [x]) (submit_bo A m f x st)"
    unfolding e acc_def prod.case
  proof (intro conjI)
    show "\<forall>y\<in>set (X @ [x]). synchronised y \<longrightarrow>
        (\<forall>q. own_queue A \<noteq> Some q \<longrightarrow> covers n ds' (fences (bo_of aws0 (cs_bo y))) q)
        \<and> (\<forall>a. alt_fence (bo_of aws0 (cs_bo y)) = Some a \<longrightarrow> (a, 0) \<in> set (syncobj_dependencies (csc\<lparr>syncobj_dependencies := sync\<rparr>)))"
      using r old(3) tr by auto
  qed (use r old tr in auto)
  show "buffer_lists (fst (snd (submit_bo A m f x st))) = buffer_lists (fst (snd st))" unfolding e by (simp add: st)
qed

section \<open>The three loops\<close>

definition real_list :: "amdgpu_cs_context \<Rightarrow> amdgpu_cs_buffer list" where
  "real_list csc = buffers (buffer_lists csc LIST_REAL)"

text \<open>A list of buffers only gets longer, and a buffer that is synchronised stays so.\<close>

definition grows :: "amdgpu_cs_buffer list \<Rightarrow> amdgpu_cs_buffer list \<Rightarrow> bool" where
  "grows L L' \<longleftrightarrow> length L \<le> length L'
    \<and> (\<forall>i<length L. cs_bo (L' ! i) = cs_bo (L ! i) \<and> (synchronised (L ! i) \<longrightarrow> synchronised (L' ! i)))"

definition real_grows :: "amdgpu_cs_context \<Rightarrow> amdgpu_cs_context \<Rightarrow> bool" where
  "real_grows csc csc' \<longleftrightarrow> grows (real_list csc) (real_list csc')
    \<and> (\<forall>l. l \<noteq> LIST_REAL \<longrightarrow> buffer_lists csc' l = buffer_lists csc l)
    \<and> syncobj_dependencies csc' = syncobj_dependencies csc"

lemma grows_refl [simp]: "grows L L"
  by (simp add: grows_def)

lemma grows_trans: "grows K L \<Longrightarrow> grows L M \<Longrightarrow> grows K M"
  by (auto simp: grows_def)

lemma grows_take: "grows L L' \<Longrightarrow> map cs_bo (take (length L) L') = map cs_bo L"
  by (rule nth_equalityI) (auto simp: grows_def)

lemma grows_bos: "grows L L' \<Longrightarrow> cs_bo ` set L \<subseteq> cs_bo ` set L'"
  using grows_take[of L L'] set_take_subset[of "length L" L'] by (metis image_mono list.set_map)

lemma grows_sync:
  assumes "grows L L'" "x \<in> set L" "synchronised x"
  shows "\<exists>y\<in>set (take (length L) L'). cs_bo y = cs_bo x \<and> synchronised y"
proof -
  obtain i where i: "i < length L" "x = L ! i" using assms(2) by (auto simp: in_set_conv_nth)
  then have "i < length (take (length L) L')" "take (length L) L' ! i = L' ! i"
    using assms(1) by (simp_all add: grows_def)
  then have "L' ! i \<in> set (take (length L) L')" by (metis nth_mem)
  then show ?thesis using i assms(1,3) by (auto simp: grows_def)
qed

lemma grows_append: "grows L (L @ M)"
  by (simp add: grows_def nth_append)

lemma synchronised_or: "synchronised x \<Longrightarrow> synchronised (x\<lparr>usage := usage x OR u\<rparr>)"
proof -
  assume "synchronised x"
  then obtain k where "bit (usage x AND RADEON_USAGE_SYNCHRONIZED) k"
    unfolding synchronised_def by (auto simp: bit_eq_iff)
  then have "bit ((usage x OR u) AND RADEON_USAGE_SYNCHRONIZED) k" by (simp add: bit_or_iff bit_and_iff)
  then have "(usage x OR u) AND RADEON_USAGE_SYNCHRONIZED \<noteq> 0" by (metis bit_0_eq bot_apply bot_bool_def)
  then show ?thesis by (simp add: synchronised_def)
qed

lemma grows_usage: "i < length L \<Longrightarrow> grows L (L[i := (L ! i)\<lparr>usage := usage (L ! i) OR u\<rparr>])"
  by (auto simp: grows_def nth_list_update intro: synchronised_or)

lemma real_grows_refl [simp]: "real_grows csc csc"
  by (simp add: real_grows_def)

lemma real_grows_trans: "real_grows a b \<Longrightarrow> real_grows b c \<Longrightarrow> real_grows a c"
  by (auto simp: real_grows_def intro: grows_trans)

lemma syncobj_simps [simp]:
  "syncobj_dependencies (set_hint h i csc) = syncobj_dependencies csc"
  "syncobj_dependencies (update_list l g csc) = syncobj_dependencies csc"
  by (simp_all add: set_hint_def update_list_def)

lemma lookup_or_add_grows:
  assumes "amdgpu_lookup_or_add_buffer bos ok b LIST_REAL csc = (Some i, csc')"
  shows "real_grows csc csc' \<and> i < length (real_list csc') \<and> cs_bo (real_list csc' ! i) = b"
  using assms unfolding amdgpu_lookup_or_add_buffer_def amdgpu_lookup_buffer_def amdgpu_do_add_buffer_def Let_def
  by (auto simp: real_grows_def real_list_def grows_append nat_less_iff split: if_splits option.splits prod.splits
      dest: find_rev_upt(1))

lemma add_usage_grows: "i < length (real_list csc) \<Longrightarrow> real_grows csc (add_usage LIST_REAL i u csc)"
  by (simp add: real_grows_def real_list_def add_usage_def grows_usage)

lemma add_usage_bos: "i < length (real_list csc) \<Longrightarrow> cs_bo ` set (real_list (add_usage LIST_REAL i u csc)) = cs_bo ` set (real_list csc)"
proof -
  assume "i < length (real_list csc)"
  then have "map cs_bo (real_list (add_usage LIST_REAL i u csc)) = map cs_bo (real_list csc)"
    by (simp add: real_list_def add_usage_def)
  then show ?thesis by (metis list.set_map)
qed

lemma acc_csc: "acc A m f n aws0 S0 ds0 X (aws, csc, ds) \<Longrightarrow> syncobj_dependencies csc' = syncobj_dependencies csc
  \<Longrightarrow> acc A m f n aws0 S0 ds0 X (aws, csc', ds)"
  unfolding acc_def by auto

lemma mark_bo_simps [simp]:
  "slab_entry_real_bo (mark_bo A m f bo) = slab_entry_real_bo bo"
  "sparse_backing_bos (mark_bo A m f bo) = sparse_backing_bos bo"
  by (simp_all add: mark_bo_def)

lemma submit_slab_spec:
  assumes "submit_slab_entries A m f xs (aws, csc, ds) = Some (aws', csc', ds')"
    and "acc A m f n aws0 S0 ds0 X (aws, csc, ds)" "counts n (queues aws0)"
    and "\<forall>x\<in>set xs. ds_ok n (fences (bo_of aws0 (cs_bo x)))" "distinct (map cs_bo (X @ xs))"
  shows "acc A m f n aws0 S0 ds0 (X @ xs) (aws', csc', ds')
    \<and> grows (real_list csc) (real_list csc') \<and> (\<forall>l. l \<noteq> LIST_REAL \<longrightarrow> buffer_lists csc' l = buffer_lists csc l)
    \<and> (\<forall>x\<in>set xs. slab_entry_real_bo (bo_of aws0 (cs_bo x)) \<in> cs_bo ` set (real_list csc'))"
  using assms
proof (induction xs arbitrary: X aws csc ds)
  case (Cons x xs)
  obtain aws1 csc1 ds1 where b: "submit_bo A m f x (aws, csc, ds) = (aws1, csc1, ds1)" by (metis prod_cases3)
  have a1: "acc A m f n aws0 S0 ds0 (X @ [x]) (aws1, csc1, ds1)" "buffer_lists csc1 = buffer_lists csc"
    using submit_bo_acc[OF Cons.prems(2,3), of x] Cons.prems(4,5) b by auto
  have "aws1 = marked A m f (cs_bo ` set (X @ [x])) aws0" using a1(1) by (simp add: acc_def)
  then have sr: "slab_entry_real_bo (bo_of aws1 (cs_bo x)) = slab_entry_real_bo (bo_of aws0 (cs_bo x))" by simp
  obtain i csc2 where l: "amdgpu_lookup_or_add_buffer (bo_of aws1) (sa_alloc_ok A (cs_bo x)) (slab_entry_real_bo (bo_of aws1 (cs_bo x))) LIST_REAL csc1 = (Some i, csc2)"
    and rest: "submit_slab_entries A m f xs (aws1, add_usage LIST_REAL i (usage x) csc2, ds1) = Some (aws', csc', ds')"
    using Cons.prems(1) b by (auto split: prod.splits option.splits)
  let ?csc3 = "add_usage LIST_REAL i (usage x) csc2"
  note g = lookup_or_add_grows[OF l]
  have g3: "real_grows csc1 ?csc3" using g real_grows_trans add_usage_grows by blast
  have "acc A m f n aws0 S0 ds0 (X @ [x]) (aws1, ?csc3, ds1)"
    using acc_csc[OF a1(1)] g3 by (simp add: real_grows_def)
  note ih = Cons.IH[OF rest this Cons.prems(3)]
  have h: "acc A m f n aws0 S0 ds0 ((X @ [x]) @ xs) (aws', csc', ds')
    \<and> grows (real_list ?csc3) (real_list csc') \<and> (\<forall>l. l \<noteq> LIST_REAL \<longrightarrow> buffer_lists csc' l = buffer_lists ?csc3 l)
    \<and> (\<forall>x\<in>set xs. slab_entry_real_bo (bo_of aws0 (cs_bo x)) \<in> cs_bo ` set (real_list csc'))"
    by (rule ih) (use Cons.prems(4,5) in auto)
  have "slab_entry_real_bo (bo_of aws0 (cs_bo x)) \<in> cs_bo ` set (real_list csc2)"
    using g sr by (metis image_eqI nth_mem)
  then have "slab_entry_real_bo (bo_of aws0 (cs_bo x)) \<in> cs_bo ` set (real_list csc')"
    using g add_usage_bos[of i csc2 "usage x"] h grows_bos by blast
  moreover have "grows (real_list csc) (real_list csc')"
    using g3 h a1(2) grows_trans unfolding real_grows_def real_list_def by metis
  moreover have "\<forall>l. l \<noteq> LIST_REAL \<longrightarrow> buffer_lists csc' l = buffer_lists csc l"
    using g3 h a1(2) by (simp add: real_grows_def)
  ultimately show ?case using h by simp
qed auto

lemma add_sparse_backing_grows:
  "add_sparse_backing bos ok u bs csc = Some csc' \<Longrightarrow>
    real_grows csc csc' \<and> take (length (real_list csc)) (real_list csc') = real_list csc"
proof (induction bs arbitrary: csc)
  case (Cons b bs)
  then obtain i csc1 where d: "amdgpu_do_add_buffer bos (ok b) b LIST_REAL csc = (Some i, csc1)"
    and rest: "add_sparse_backing bos ok u bs (set_usage LIST_REAL i u csc1) = Some csc'"
    by (auto split: prod.splits option.splits)
  have r: "real_list (set_usage LIST_REAL i u csc1) = real_list csc @ [\<lparr>cs_bo = b, usage = u\<rparr>]"
    and l: "\<forall>l. l \<noteq> LIST_REAL \<longrightarrow> buffer_lists (set_usage LIST_REAL i u csc1) l = buffer_lists csc l"
    "syncobj_dependencies (set_usage LIST_REAL i u csc1) = syncobj_dependencies csc"
    using d by (auto simp: amdgpu_do_add_buffer_def Let_def set_usage_def real_list_def split: if_splits)
  note ih = Cons.IH[OF rest]
  have "real_grows csc (set_usage LIST_REAL i u csc1)" using r l by (simp add: real_grows_def grows_append)
  moreover have "take (length (real_list csc)) (real_list csc') = real_list csc"
    using ih unfolding r by (metis append_eq_conv_conj append_take_drop_id append.assoc)
  ultimately show ?case using ih real_grows_trans by blast
qed simp

lemma submit_sparse_spec:
  assumes "submit_sparse A m f xs (aws, csc, ds) = Some (aws', csc', ds')"
    and "acc A m f n aws0 S0 ds0 X (aws, csc, ds)" "counts n (queues aws0)"
    and "\<forall>x\<in>set xs. ds_ok n (fences (bo_of aws0 (cs_bo x)))" "distinct (map cs_bo (X @ xs))"
  shows "acc A m f n aws0 S0 ds0 (X @ xs) (aws', csc', ds')
    \<and> take (length (real_list csc)) (real_list csc') = real_list csc
    \<and> (\<forall>l. l \<noteq> LIST_REAL \<longrightarrow> buffer_lists csc' l = buffer_lists csc l)"
  using assms
proof (induction xs arbitrary: X aws csc ds)
  case (Cons x xs)
  obtain aws1 csc1 ds1 where b: "submit_bo A m f x (aws, csc, ds) = (aws1, csc1, ds1)" by (metis prod_cases3)
  have a1: "acc A m f n aws0 S0 ds0 (X @ [x]) (aws1, csc1, ds1)" "buffer_lists csc1 = buffer_lists csc"
    using submit_bo_acc[OF Cons.prems(2,3), of x] Cons.prems(4,5) b by auto
  obtain csc2 where l: "add_sparse_backing (bo_of aws1) (sa_alloc_ok A) (usage x) (sparse_backing_bos (bo_of aws1 (cs_bo x))) csc1 = Some csc2"
    and rest: "submit_sparse A m f xs (aws1, csc2, ds1) = Some (aws', csc', ds')"
    using Cons.prems(1) b by (auto split: option.splits)
  note g = add_sparse_backing_grows[OF l]
  have "acc A m f n aws0 S0 ds0 (X @ [x]) (aws1, csc2, ds1)" using acc_csc[OF a1(1)] g by (simp add: real_grows_def)
  note ih = Cons.IH[OF rest this Cons.prems(3)]
  have h: "acc A m f n aws0 S0 ds0 ((X @ [x]) @ xs) (aws', csc', ds')
    \<and> take (length (real_list csc2)) (real_list csc') = real_list csc2
    \<and> (\<forall>l. l \<noteq> LIST_REAL \<longrightarrow> buffer_lists csc' l = buffer_lists csc2 l)"
    by (rule ih) (use Cons.prems(4,5) in auto)
  have e: "real_list csc1 = real_list csc" using a1(2) by (simp add: real_list_def)
  have len: "length (real_list csc) \<le> length (real_list csc2)" using g e by (simp add: real_grows_def grows_def)
  have "take (length (real_list csc)) (real_list csc') = real_list csc"
    using h g e len by (metis min.absorb1 take_take)
  then show ?case using h g a1(2) by (simp add: real_grows_def)
qed auto

lemma submit_real_spec:
  assumes "acc A m f n aws0 S0 ds0 X st" "counts n (queues aws0)"
    and "\<forall>x\<in>set xs. ds_ok n (fences (bo_of aws0 (cs_bo x)))" "distinct (map cs_bo (X @ xs))"
  shows "acc A m f n aws0 S0 ds0 (X @ xs) (fold (submit_bo A m f) xs st)"
  using assms
proof (induction xs arbitrary: X st)
  case (Cons x xs)
  have "acc A m f n aws0 S0 ds0 (X @ [x]) (submit_bo A m f x st)"
    using submit_bo_acc(1)[OF Cons.prems(1,2), of x] Cons.prems(3,4) by auto
  from Cons.IH[OF this Cons.prems(2)] show ?case using Cons.prems(3,4) by auto
qed simp

section \<open>Dependencies become fences\<close>

definition rings_ok :: "nat set \<Rightarrow> (nat \<Rightarrow> nat list) \<Rightarrow> (nat \<Rightarrow> amdgpu_queue) \<Rightarrow> bool" where
  "rings_ok dn Q qs \<longleftrightarrow> (\<forall>q. ring_ok dn (Q q) (qs q))"

abbreviation jobs_of :: "(nat \<Rightarrow> nat list) \<Rightarrow> nat \<Rightarrow> nat" where
  "jobs_of Q \<equiv> \<lambda>q. length (Q q)"

text \<open>The job that a record of sequence numbers stands for on a queue.\<close>

definition named_job :: "(nat \<Rightarrow> nat list) \<Rightarrow> amdgpu_seq_no_fences \<Rightarrow> nat \<Rightarrow> nat" where
  "named_job Q ds q = Q q ! (length (Q q) - 1 - age (length (Q q)) (seq_no ds q))"

lemma rings_ok_counts: "rings_ok dn Q qs \<Longrightarrow> counts (jobs_of Q) qs"
  unfolding rings_ok_def counts_def using ring_okD(1) by blast

lemma clear_ring_simps [simp]:
  "fence_of (clear_ptr (RingSlot q i) aws) = fence_of aws"
  "bo_of (clear_ptr (RingSlot q i) aws) = bo_of aws"
  "num_hw_queues (clear_ptr (RingSlot q i) aws) = num_hw_queues aws"
  "queues (clear_ptr (RingSlot q i) aws) = (queues aws)(q := (queues aws q)\<lparr>ring := (ring (queues aws q))(i := None)\<rparr>)"
  by simp_all

declare clear_ptr.simps(1) [simp del]

lemma clear_ring_view [simp]:
  "view_ok dn (clear_ptr (RingSlot q i) aws) g = view_ok dn aws g"
  "sig_ok dn (clear_ptr (RingSlot q i) aws) = sig_ok dn aws"
  by (simp_all add: view_ok_def sig_ok_def)

lemma rings_ok_clear:
  "rings_ok dn Q (queues aws) \<Longrightarrow> ring (queues aws q) i = Some f \<Longrightarrow> f \<in> dn \<Longrightarrow>
   rings_ok dn Q (queues (clear_ptr (RingSlot q i) aws))"
  by (simp add: rings_ok_def ring_ok_clear)

text \<open>What all operations of the submission leave alone: no slot of a ring is filled, no job gets another
  number, no context takes a queue over.\<close>

definition rings_shrink :: "(nat \<Rightarrow> amdgpu_queue) \<Rightarrow> (nat \<Rightarrow> amdgpu_queue) \<Rightarrow> bool" where
  "rings_shrink qs qs' \<longleftrightarrow>
    (\<forall>q. latest_seq_no (qs' q) = latest_seq_no (qs q) \<and> last_ctx (qs' q) = last_ctx (qs q)
      \<and> (\<forall>i. ring (qs q) i = None \<longrightarrow> ring (qs' q) i = None))"

lemma rings_shrink_refl [simp]: "rings_shrink qs qs"
  by (simp add: rings_shrink_def)

lemma rings_shrink_trans: "rings_shrink a b \<Longrightarrow> rings_shrink b c \<Longrightarrow> rings_shrink a c"
  by (simp add: rings_shrink_def)

lemma rings_shrink_clear: "rings_shrink (queues aws) (queues (clear_ptr (RingSlot q i) aws))"
  by (simp add: rings_shrink_def)

lemma convert_spec:
  assumes "rings_ok dn Q (queues aws)" "sig_ok dn aws" "view_ok dn aws g"
    and "\<forall>q\<in>set qs. age (length (Q q)) (seq_no ds q) < length (Q q)"
    and "convert_dependencies g qs (aws, csc, ds) = (aws', csc', ds')"
  shows "rings_ok dn Q (queues aws') \<and> sig_ok dn aws' \<and> bo_of aws' = bo_of aws \<and> rings_shrink (queues aws) (queues aws')
    \<and> set (syncobj_dependencies csc) \<subseteq> set (syncobj_dependencies csc')
    \<and> (\<forall>q\<in>set qs. named_job Q ds q \<in> dn \<or> (named_job Q ds q, 0) \<in> set (syncobj_dependencies csc'))"
  using assms
proof (induction qs arbitrary: aws csc ds)
  case (Cons q qs)
  have rq: "ring_ok dn (Q q) (queues aws q)" using Cons.prems(1) by (simp add: rings_ok_def)
  let ?f = "named_job Q ds q"
  have same: "named_job Q (ds\<lparr>valid_fence_mask := v\<rparr>) p = named_job Q ds p" for v p by (simp add: named_job_def)
  consider (gone) "get_fence_from_ring (queues aws) ds q = (None, ds\<lparr>valid_fence_mask := (valid_fence_mask ds)(q := False)\<rparr>)" "?f \<in> dn"
    | (there) slot where "get_fence_from_ring (queues aws) ds q = (Some slot, ds)" "ring (queues aws q) slot = Some ?f"
    using get_fence_ring[of dn "Q q" "queues aws" q ds, OF rq] Cons.prems(4) unfolding named_job_def by fastforce
  then show ?case
  proof cases
    case gone
    let ?ds = "ds\<lparr>valid_fence_mask := (valid_fence_mask ds)(q := False)\<rparr>"
    have "convert_dependencies g qs (aws, csc, ?ds) = (aws', csc', ds')" using Cons.prems(5) gone by simp
    from Cons.IH[OF Cons.prems(1-3) _ this] show ?thesis using Cons.prems(4) gone(2) by (simp add: same)
  next
    case there
    obtain idle aws1 where w: "amdgpu_fence_wait g True ?f aws = (idle, aws1)" by fastforce
    note s = fence_wait_spec[OF Cons.prems(2,3) w]
    have r1: "rings_ok dn Q (queues aws1)" using Cons.prems(1) s(4) by simp
    have v1: "view_ok dn aws1 g" using s(3) Cons.prems(3) by simp
    show ?thesis
    proof (cases idle)
      case True
      then have c: "convert_dependencies g qs (clear_ptr (RingSlot q slot) aws1, csc, ds) = (aws', csc', ds')"
        using Cons.prems(5) there w by simp
      have "rings_ok dn Q (queues (clear_ptr (RingSlot q slot) aws1))"
        using rings_ok_clear[OF r1, of q slot ?f] there(2) s(1,4) True by simp
      then have h: "rings_ok dn Q (queues aws') \<and> sig_ok dn aws' \<and> bo_of aws' = bo_of (clear_ptr (RingSlot q slot) aws1)
          \<and> rings_shrink (queues (clear_ptr (RingSlot q slot) aws1)) (queues aws')
          \<and> set (syncobj_dependencies csc) \<subseteq> set (syncobj_dependencies csc')
          \<and> (\<forall>p\<in>set qs. named_job Q ds p \<in> dn \<or> (named_job Q ds p, 0) \<in> set (syncobj_dependencies csc'))"
        using s(2) v1 Cons.prems(4) by (intro Cons.IH[OF _ _ _ _ c]) (simp_all del: clear_ring_simps(4))
      have "rings_shrink (queues aws) (queues aws')"
        using rings_shrink_trans[OF rings_shrink_clear] h s(4) by metis
      then show ?thesis using h s(1,5) True by simp
    next
      case False
      then have c: "convert_dependencies g qs (aws1, csc\<lparr>syncobj_dependencies := syncobj_dependencies csc @ [(?f, 0)]\<rparr>, ds) = (aws', csc', ds')"
        using Cons.prems(5) there w by (simp add: add_fence_to_list_def)
      from Cons.IH[OF r1 s(2) v1 _ c] show ?thesis using Cons.prems(4) s(4,5) by auto
    qed
  qed
qed simp

section \<open>Fences of the buffers and the queues afterwards\<close>

lemma set_seq_no_idem: "set_seq_no q m (set_seq_no q m fs) = set_seq_no q m fs"
  by (simp add: set_seq_no_def)

abbreviation is_alt :: "submit_args \<Rightarrow> bool" where
  "is_alt A \<equiv> sa_type A = KERNELQ_ALT_FENCE"

lemma marked_fences:
  "fences (bo_of (marked A m f M aws) b) =
    (if b \<in> M \<and> \<not> is_alt A then set_seq_no (sa_queue A) m (fences (bo_of aws b)) else fences (bo_of aws b))"
  "alt_fence (bo_of (marked A m f M aws) b) = (if b \<in> M \<and> is_alt A then Some f else alt_fence (bo_of aws b))"
  by (simp_all add: mark_bo_def)

lemma mark_backing_spec:
  "queues (fold (mark_slab_backing A m) xs aws) = queues aws
   \<and> fence_of (fold (mark_slab_backing A m) xs aws) = fence_of aws
   \<and> fences (bo_of (fold (mark_slab_backing A m) xs aws) b) =
      (if b \<in> cs_bo ` set xs \<and> \<not> is_alt A then set_seq_no (sa_queue A) m (fences (bo_of aws b)) else fences (bo_of aws b))
   \<and> alt_fence (bo_of (fold (mark_slab_backing A m) xs aws) b) = alt_fence (bo_of aws b)"
proof (induction xs arbitrary: aws)
  case (Cons x xs)
  have "queues (mark_slab_backing A m x aws) = queues aws \<and> fence_of (mark_slab_backing A m x aws) = fence_of aws
    \<and> fences (bo_of (mark_slab_backing A m x aws) b) =
        (if b = cs_bo x \<and> \<not> is_alt A then set_seq_no (sa_queue A) m (fences (bo_of aws b)) else fences (bo_of aws b))
    \<and> alt_fence (bo_of (mark_slab_backing A m x aws) b) = alt_fence (bo_of aws b)"
    by (simp add: mark_slab_backing_def amdgpu_set_bo_seq_no_def)
  then show ?case using Cons.IH[of "mark_slab_backing A m x aws"] by (auto simp: set_seq_no_idem)
qed simp

lemma push_fence_spec:
  "bo_of (push_fence A f aws) = bo_of aws"
  "signalled (fence_of (push_fence A f aws) h) = signalled (fence_of aws h)"
  by (simp_all add: push_fence_def Let_def)

lemma push_fence_rings:
  assumes "rings_ok dn Q (queues aws)"
    and "\<not> is_alt A \<Longrightarrow> ring (queues aws (sa_queue A)) (Suc (length (Q (sa_queue A))) mod 32) = None"
  shows "rings_ok dn (if is_alt A then Q else Q(sa_queue A := Q (sa_queue A) @ [f])) (queues (push_fence A f aws))"
proof (cases "is_alt A")
  case True
  then show ?thesis using assms(1) by (simp add: push_fence_def)
next
  case False
  let ?q = "sa_queue A"
  let ?x = "queues aws ?q"
  have ok: "ring_ok dn (Q ?q) ?x" using assms(1) by (simp add: rings_ok_def)
  have slot: "unat (latest_seq_no ?x + 1) mod AMDGPU_FENCE_RING_SIZE = Suc (length (Q ?q)) mod 32"
    using ring_okD(1)[OF ok] unat_mod_ring[of "Suc (length (Q ?q))"]
    by (simp add: AMDGPU_FENCE_RING_SIZE_def add.commute)
  have "ring_ok dn (Q ?q @ [f]) (?x\<lparr>ring := (ring ?x)(Suc (length (Q ?q)) mod 32 := Some f), latest_seq_no := latest_seq_no ?x + 1, last_ctx := c\<rparr>)" for c
    using ring_ok_snoc[OF ok] assms(2)[OF False] unfolding ring_ok_def by simp
  then show ?thesis using False assms(1) by (simp add: push_fence_def Let_def rings_ok_def slot)
qed

lemma dec_ioctls_spec:
  "queues (dec_ioctls xs aws) = queues aws \<and> fence_of (dec_ioctls xs aws) = fence_of aws
   \<and> fences (bo_of (dec_ioctls xs aws) b) = fences (bo_of aws b) \<and> alt_fence (bo_of (dec_ioctls xs aws) b) = alt_fence (bo_of aws b)"
  unfolding dec_ioctls_def by (induction xs arbitrary: aws) auto

definition accepted :: "submit_args \<Rightarrow> bool" where
  "accepted A \<longleftrightarrow> reaches_kernel A \<and> sa_kernel_result A = 0"

lemma submit_finish_frame:
  assumes "submit_finish A f csc0 rq (aws, csc) = (aws', csc')"
  shows "queues aws' = queues aws" "fences (bo_of aws' b) = fences (bo_of aws b)" "alt_fence (bo_of aws' b) = alt_fence (bo_of aws b)"
    "submit_result A \<noteq> 0 \<Longrightarrow> signalled (fence_of aws' f)"
  using assms
  by (auto simp: submit_finish_def Let_def dec_ioctls_spec amdgpu_fence_submitted_def amdgpu_fence_signalled_def split: if_splits)

lemma submit_finish_spec:
  assumes "accepted A" "submit_finish A f csc0 rq (aws, csc) = (aws', csc')"
  shows "queues aws' = queues aws \<and> (\<forall>h. signalled (fence_of aws' h) = signalled (fence_of aws h))
    \<and> (\<forall>b. fences (bo_of aws' b) = fences (bo_of aws b) \<and> alt_fence (bo_of aws' b) = alt_fence (bo_of aws b))"
  using assms
  by (auto simp: submit_finish_def Let_def accepted_def reaches_kernel_def submit_result_def dec_ioctls_spec
      amdgpu_fence_submitted_def fun_upd_def split: if_splits)

section \<open>A whole submission\<close>

definition all_bufs :: "amdgpu_cs_context \<Rightarrow> amdgpu_cs_buffer list" where
  "all_bufs csc = buffers (buffer_lists csc LIST_SLAB_ENTRY) @ buffers (buffer_lists csc LIST_SPARSE) @ real_list csc"

definition slab_reals :: "fence_winsys \<Rightarrow> amdgpu_cs_context \<Rightarrow> nat set" where
  "slab_reals aws csc = (\<lambda>x. slab_entry_real_bo (bo_of aws (cs_bo x))) ` set (buffers (buffer_lists csc LIST_SLAB_ENTRY))"

text \<open>What holds before the critical section: no buffer is listed twice, the sequence numbers are those of jobs,
  and the slot of the new fence is empty.\<close>

definition submit_pre :: "(nat \<Rightarrow> nat list) \<Rightarrow> submit_args \<Rightarrow> amdgpu_cs_context \<Rightarrow> fence_winsys \<Rightarrow> bool" where
  "submit_pre Q A csc aws \<longleftrightarrow>
    distinct (map cs_bo (all_bufs csc)) \<and> ds_ok (jobs_of Q) (seq_no_dependencies csc)
    \<and> (\<forall>b. ds_ok (jobs_of Q) (fences (bo_of aws b)))
    \<and> (\<not> is_alt A \<longrightarrow> sa_queue A < AMDGPU_MAX_QUEUES
         \<and> ring (queues aws (sa_queue A)) (Suc (length (Q (sa_queue A))) mod 32) = None)"

text \<open>The previous job of the queue is done, a dependency, or ordered before the new one by the hardware queue.\<close>

lemma prev_dependency:
  assumes "rings_ok dn Q (queues aws)" "ds_ok (jobs_of Q) ds" "sa_type A = KERNELQ" "sa_queue A < AMDGPU_MAX_QUEUES"
  defines "q \<equiv> sa_queue A" and "ds' \<equiv> add_prev_dependency A aws ds"
  shows "ds_ok (jobs_of Q) ds'" "covers (jobs_of Q) ds' ds p"
    and "Q q \<noteq> [] \<Longrightarrow> last (Q q) \<in> dn
      \<or> (last_ctx (queues aws q) = Some (sa_ctx A) \<and> num_hw_queues aws (sa_ip_type A) = 1)
      \<or> (valid_fence_mask ds' q \<and> age (length (Q q)) (seq_no ds' q) = 0)"
proof -
  let ?n = "length (Q q)" and ?x = "queues aws q"
  have ok: "ring_ok dn (Q q) ?x" using assms(1) by (simp add: rings_ok_def)
  have cnt: "counts (jobs_of Q) (queues aws)" using assms(1) by (rule rings_ok_counts)
  have slot: "unat (latest_seq_no ?x) mod AMDGPU_FENCE_RING_SIZE = ?n mod 32"
    using ring_okD(1)[OF ok] unat_mod_ring[of ?n] by (simp add: AMDGPU_FENCE_RING_SIZE_def)
  have empty: "ring ?x (?n mod 32) = None" if "Q q = []"
    using ring_okD(4)[OF ok] that by (cases "ring ?x (?n mod 32)") auto
  note a = add_seq_no_spec[OF cnt, where q = q and m = "latest_seq_no ?x" and ds = ds]
  have 0: "age ?n (latest_seq_no ?x) = 0" using ring_okD(1)[OF ok] by simp
  have e: "ds' = (if ring ?x (?n mod 32) \<noteq> None \<and> (last_ctx ?x \<noteq> Some (sa_ctx A) \<or> num_hw_queues aws (sa_ip_type A) \<noteq> 1)
      then add_seq_no_to_list (queues aws) q (latest_seq_no ?x) ds else ds)"
    unfolding ds'_def add_prev_dependency_def Let_def q_def[symmetric] slot using assms(3) by simp
  show "ds_ok (jobs_of Q) ds'"
  proof (cases "Q q = []")
    case True
    then show ?thesis using empty e assms(2) by simp
  next
    case False
    then show ?thesis using a(4) assms(2,4) 0 e by (simp add: q_def)
  qed
  show "covers (jobs_of Q) ds' ds p" using a(1) e by simp
  assume ne: "Q q \<noteq> []"
  then have "ring ?x (?n mod 32) = Some (last (Q q)) \<or> last (Q q) \<in> dn"
    using ring_okD(2)[OF ok, of "?n - 1"] by (auto simp: last_conv_nth)
  then show "last (Q q) \<in> dn \<or> (last_ctx ?x = Some (sa_ctx A) \<and> num_hw_queues aws (sa_ip_type A) = 1)
      \<or> (valid_fence_mask ds' q \<and> age ?n (seq_no ds' q) = 0)"
    using a(2,3) 0 e by auto
qed

lemma submit_locked_spec:
  assumes rings: "rings_ok dn Q (queues aws)" and sig: "sig_ok dn aws" and view: "view_ok dn aws g"
    and pre: "submit_pre Q A csc aws" and run: "submit_locked A g f csc aws = Some (aws', csc', rq)"
  defines "D \<equiv> fst ` set (rq_dependencies rq)"
  shows "rings_ok dn (if is_alt A then Q else Q(sa_queue A := Q (sa_queue A) @ [f])) (queues aws')" "sig_ok dn aws'"
    and "\<exists>M. cs_bo ` set (all_bufs csc) \<union> slab_reals aws csc \<subseteq> M \<and>
      (\<forall>b. fences (bo_of aws' b) = (if b \<in> M \<and> \<not> is_alt A
          then set_seq_no (sa_queue A) (word_of_nat (Suc (length (Q (sa_queue A))))) (fences (bo_of aws b)) else fences (bo_of aws b)))"
    and "\<forall>b. alt_fence (bo_of aws' b) = (if b \<in> cs_bo ` set (all_bufs csc) \<and> is_alt A then Some f else alt_fence (bo_of aws b))"
    and "\<forall>x\<in>set (all_bufs csc). synchronised x \<longrightarrow>
      (\<forall>q. own_queue A \<noteq> Some q \<longrightarrow> valid_fence_mask (fences (bo_of aws (cs_bo x))) q \<longrightarrow>
        (\<exists>ds. valid_fence_mask ds q \<and> ds_ok (jobs_of Q) ds \<and> covers (jobs_of Q) ds (fences (bo_of aws (cs_bo x))) q
          \<and> (named_job Q ds q \<in> dn \<or> named_job Q ds q \<in> D)))
      \<and> (\<forall>a. alt_fence (bo_of aws (cs_bo x)) = Some a \<longrightarrow> a \<in> D)"
    and "sa_type A = KERNELQ \<Longrightarrow> Q (sa_queue A) \<noteq> [] \<Longrightarrow> last (Q (sa_queue A)) \<in> dn \<or> last (Q (sa_queue A)) \<in> D
      \<or> (last_ctx (queues aws (sa_queue A)) = Some (sa_ctx A) \<and> num_hw_queues aws (sa_ip_type A) = 1)"
    and "fst ` set (syncobj_dependencies csc) \<subseteq> D"
proof -
  let ?n = "jobs_of Q" and ?q = "sa_queue A"
  define m where "m = latest_seq_no (queues aws ?q) + 1"
  define ds0 where "ds0 = add_prev_dependency A aws (seq_no_dependencies csc)"
  define S0 where "S0 = set (syncobj_dependencies csc)"
  let ?slab = "buffers (buffer_lists csc LIST_SLAB_ENTRY)" and ?sp = "buffers (buffer_lists csc LIST_SPARSE)"
  have cnt: "counts ?n (queues aws)" using rings by (rule rings_ok_counts)
  have mn: "m = word_of_nat (Suc (length (Q ?q)))" using cnt by (simp add: m_def counts_def add.commute)
  have bds: "ds_ok ?n (fences (bo_of aws b))" for b using pre by (simp add: submit_pre_def)
  have dis: "distinct (map cs_bo ?slab @ map cs_bo ?sp @ map cs_bo (real_list csc))"
    using pre by (simp add: submit_pre_def all_bufs_def)
  have d0: "ds_ok ?n ds0"
  proof (cases "sa_type A = KERNELQ")
    case True
    then show ?thesis using prev_dependency(1)[OF rings _ True] pre by (simp add: ds0_def submit_pre_def)
  next
    case False
    then show ?thesis using pre by (simp add: ds0_def submit_pre_def add_prev_dependency_def)
  qed
  have ne: "LIST_SPARSE \<noteq> LIST_REAL" by (simp add: LIST_SPARSE_def LIST_REAL_def)
  obtain aws1 csc1 ds1 where s1: "submit_slab_entries A m f ?slab (aws, csc, ds0) = Some (aws1, csc1, ds1)"
    and "submit_sparse A m f (buffers (buffer_lists csc1 LIST_SPARSE)) (aws1, csc1, ds1) \<noteq> None"
    using run unfolding submit_locked_def Let_def m_def[symmetric] ds0_def[symmetric]
    by (auto split: option.splits prod.splits)
  then obtain aws2 csc2 ds2 where s2: "submit_sparse A m f (buffers (buffer_lists csc1 LIST_SPARSE)) (aws1, csc1, ds1) = Some (aws2, csc2, ds2)"
    by (metis not_Some_eq prod_cases3)
  define init where "init = length (real_list csc)"
  obtain aws3 csc3 ds3 where s3: "fold (submit_bo A m f) (take init (real_list csc2)) (aws2, csc2, ds2) = (aws3, csc3, ds3)"
    by (metis prod_cases3)
  define B where "B = drop init (take (length (real_list csc1)) (real_list csc2))"
  define aws4 where "aws4 = fold (mark_slab_backing A m) B aws3"
  obtain aws5 csc5 ds5 where s5: "convert_dependencies g (foreach_bit (valid_fence_mask ds3)) (aws4, csc3, ds3) = (aws5, csc5, ds5)"
    by (metis prod_cases3)
  have out: "aws' = push_fence A f aws5" "rq_dependencies rq = syncobj_dependencies csc5"
    using run s1 s2 s3 s5 unfolding submit_locked_def Let_def m_def[symmetric] ds0_def[symmetric] aws4_def B_def init_def real_list_def
    by auto
  have a0: "acc A m f ?n aws S0 ds0 [] (aws, csc, ds0)" using d0 by (auto simp: acc_def S0_def covers_def)
  have h1: "acc A m f ?n aws S0 ds0 ([] @ ?slab) (aws1, csc1, ds1) \<and> grows (real_list csc) (real_list csc1)
    \<and> (\<forall>l. l \<noteq> LIST_REAL \<longrightarrow> buffer_lists csc1 l = buffer_lists csc l)
    \<and> (\<forall>x\<in>set ?slab. slab_entry_real_bo (bo_of aws (cs_bo x)) \<in> cs_bo ` set (real_list csc1))"
    by (rule submit_slab_spec[OF s1 a0 cnt]) (use bds dis in auto)
  then have sp: "buffers (buffer_lists csc1 LIST_SPARSE) = ?sp" using ne by simp
  have h2: "acc A m f ?n aws S0 ds0 (([] @ ?slab) @ ?sp) (aws2, csc2, ds2)
    \<and> take (length (real_list csc1)) (real_list csc2) = real_list csc1
    \<and> (\<forall>l. l \<noteq> LIST_REAL \<longrightarrow> buffer_lists csc2 l = buffer_lists csc1 l)"
    by (rule submit_sparse_spec[OF s2[unfolded sp] _ cnt]) (use h1 bds dis in auto)
  have len: "init \<le> length (real_list csc1)" using h1 by (simp add: init_def grows_def)
  have t: "take init (real_list csc2) = take init (real_list csc1)" using h2 len by (metis min.absorb1 take_take)
  have tb: "map cs_bo (take init (real_list csc2)) = map cs_bo (real_list csc)"
    using h1 grows_take[of "real_list csc" "real_list csc1"] by (simp add: t[unfolded init_def] init_def)
  define X where "X = ?slab @ ?sp @ take init (real_list csc2)"
  have h3: "acc A m f ?n aws S0 ds0 X (aws3, csc3, ds3)"
    unfolding X_def s3[symmetric] append.assoc[symmetric]
    by (rule submit_real_spec) (use h2 cnt bds dis tb in auto)
  have Xbos: "cs_bo ` set X = cs_bo ` set (all_bufs csc)"
    using arg_cong[OF tb, of set] by (auto simp: X_def all_bufs_def)
  have Xsync: "\<exists>y\<in>set X. cs_bo y = cs_bo x \<and> synchronised y" if "x \<in> set (all_bufs csc)" "synchronised x" for x
  proof -
    have "\<exists>y\<in>set (take init (real_list csc1)). cs_bo y = cs_bo x \<and> synchronised y" if "x \<in> set (real_list csc)"
      using grows_sync[of "real_list csc" "real_list csc1" x] h1 that \<open>synchronised x\<close> by (simp add: init_def)
    then show ?thesis using that by (auto simp: X_def all_bufs_def t)
  qed
  have aws3: "aws3 = marked A m f (cs_bo ` set (all_bufs csc)) aws" and ds3: "ds_ok ?n ds3"
    and c3: "covers ?n ds3 ds0 p" and S3: "S0 \<subseteq> set (syncobj_dependencies csc3)" for p
    using h3 by (auto simp: acc_def Xbos)
  have b4: "queues aws4 = queues aws \<and> fence_of aws4 = fence_of aws"
    "fences (bo_of aws4 b) = (if b \<in> cs_bo ` set B \<and> \<not> is_alt A then set_seq_no ?q m (fences (bo_of aws3 b)) else fences (bo_of aws3 b))"
    "alt_fence (bo_of aws4 b) = alt_fence (bo_of aws3 b)" for b
    using mark_backing_spec[of A m B aws3 b] by (simp_all add: aws4_def aws3)
  have r4: "rings_ok dn Q (queues aws4)" "sig_ok dn aws4" "view_ok dn aws4 g"
    using rings sig view b4(1) by (simp_all add: sig_ok_def view_ok_def)
  have h5: "rings_ok dn Q (queues aws5) \<and> sig_ok dn aws5 \<and> bo_of aws5 = bo_of aws4 \<and> rings_shrink (queues aws4) (queues aws5)
    \<and> set (syncobj_dependencies csc3) \<subseteq> set (syncobj_dependencies csc5)
    \<and> (\<forall>q\<in>set (foreach_bit (valid_fence_mask ds3)). named_job Q ds3 q \<in> dn \<or> (named_job Q ds3 q, 0) \<in> set (syncobj_dependencies csc5))"
    by (rule convert_spec[OF r4 _ s5]) (use ds3 in \<open>simp add: ds_ok_def\<close>)
  have D: "D = fst ` set (syncobj_dependencies csc5)" by (simp add: D_def out(2))
  have named: "named_job Q ds3 q \<in> dn \<or> named_job Q ds3 q \<in> D" if "valid_fence_mask ds3 q" for q
    using h5 ds3 that unfolding D ds_ok_def by force
  have "ring (queues aws5 ?q) (Suc (length (Q ?q)) mod 32) = None" if "\<not> is_alt A"
    using pre h5 b4(1) that by (simp add: submit_pre_def rings_shrink_def)
  then show "rings_ok dn (if is_alt A then Q else Q(?q := Q ?q @ [f])) (queues aws')"
    unfolding out using h5 by (intro push_fence_rings) auto
  show "sig_ok dn aws'" using h5 unfolding out by (simp add: sig_ok_def push_fence_spec)
  have bos': "bo_of aws' = bo_of aws4" using h5 unfolding out by (simp add: push_fence_spec)
  have "slab_reals aws csc \<subseteq> cs_bo ` set (all_bufs csc) \<union> cs_bo ` set B"
  proof -
    have "set (real_list csc1) = set (take init (real_list csc1)) \<union> set B"
      using h2 by (metis B_def set_append append_take_drop_id)
    then have "cs_bo ` set (real_list csc1) \<subseteq> cs_bo ` set X \<union> cs_bo ` set B"
      unfolding X_def t by auto
    then show ?thesis using h1 unfolding slab_reals_def Xbos by blast
  qed
  moreover have "fences (bo_of aws' b) = (if b \<in> cs_bo ` set (all_bufs csc) \<union> cs_bo ` set B \<and> \<not> is_alt A
      then set_seq_no ?q (word_of_nat (Suc (length (Q ?q)))) (fences (bo_of aws b)) else fences (bo_of aws b))" for b
    unfolding bos' b4(2) aws3 marked_fences mn by (auto simp: set_seq_no_idem)
  ultimately show "\<exists>M. cs_bo ` set (all_bufs csc) \<union> slab_reals aws csc \<subseteq> M \<and>
      (\<forall>b. fences (bo_of aws' b) = (if b \<in> M \<and> \<not> is_alt A
          then set_seq_no ?q (word_of_nat (Suc (length (Q ?q)))) (fences (bo_of aws b)) else fences (bo_of aws b)))"
    by (intro exI[of _ "cs_bo ` set (all_bufs csc) \<union> cs_bo ` set B"]) simp
  show "\<forall>b. alt_fence (bo_of aws' b) = (if b \<in> cs_bo ` set (all_bufs csc) \<and> is_alt A then Some f else alt_fence (bo_of aws b))"
    unfolding bos' b4(3) aws3 marked_fences by simp
  show "\<forall>x\<in>set (all_bufs csc). synchronised x \<longrightarrow>
      (\<forall>q. own_queue A \<noteq> Some q \<longrightarrow> valid_fence_mask (fences (bo_of aws (cs_bo x))) q \<longrightarrow>
        (\<exists>ds. valid_fence_mask ds q \<and> ds_ok (jobs_of Q) ds \<and> covers (jobs_of Q) ds (fences (bo_of aws (cs_bo x))) q
          \<and> (named_job Q ds q \<in> dn \<or> named_job Q ds q \<in> D)))
      \<and> (\<forall>a. alt_fence (bo_of aws (cs_bo x)) = Some a \<longrightarrow> a \<in> D)"
  proof (intro ballI impI)
    fix x assume "x \<in> set (all_bufs csc)" "synchronised x"
    then obtain y where y: "y \<in> set X" "cs_bo y = cs_bo x" "synchronised y" using Xsync by blast
    then have cov: "own_queue A \<noteq> Some q \<Longrightarrow> covers ?n ds3 (fences (bo_of aws (cs_bo x))) q"
      and alt: "alt_fence (bo_of aws (cs_bo x)) = Some a \<Longrightarrow> (a, 0) \<in> set (syncobj_dependencies csc3)" for q a
      using h3 unfolding acc_def by fastforce+
    have "alt_fence (bo_of aws (cs_bo x)) = Some a \<Longrightarrow> a \<in> D" for a
      using alt h5 unfolding D by force
    moreover have "valid_fence_mask ds3 q" if "own_queue A \<noteq> Some q" "valid_fence_mask (fences (bo_of aws (cs_bo x))) q" for q
      using cov[OF that(1)] that(2) by (simp add: covers_def)
    ultimately show "(\<forall>q. own_queue A \<noteq> Some q \<longrightarrow> valid_fence_mask (fences (bo_of aws (cs_bo x))) q \<longrightarrow>
        (\<exists>ds. valid_fence_mask ds q \<and> ds_ok (jobs_of Q) ds \<and> covers (jobs_of Q) ds (fences (bo_of aws (cs_bo x))) q
          \<and> (named_job Q ds q \<in> dn \<or> named_job Q ds q \<in> D)))
      \<and> (\<forall>a. alt_fence (bo_of aws (cs_bo x)) = Some a \<longrightarrow> a \<in> D)"
      using cov ds3 named by blast
  qed
  show "last (Q ?q) \<in> dn \<or> last (Q ?q) \<in> D \<or> (last_ctx (queues aws ?q) = Some (sa_ctx A) \<and> num_hw_queues aws (sa_ip_type A) = 1)"
    if k: "sa_type A = KERNELQ" and nonempty: "Q ?q \<noteq> []"
  proof -
    have p: "last (Q ?q) \<in> dn \<or> (last_ctx (queues aws ?q) = Some (sa_ctx A) \<and> num_hw_queues aws (sa_ip_type A) = 1)
        \<or> (valid_fence_mask ds0 ?q \<and> age (length (Q ?q)) (seq_no ds0 ?q) = 0)"
      using prev_dependency(3)[OF rings _ k] pre nonempty k by (simp add: ds0_def submit_pre_def)
    have "named_job Q ds3 ?q = last (Q ?q)" "valid_fence_mask ds3 ?q" if "valid_fence_mask ds0 ?q" "age (length (Q ?q)) (seq_no ds0 ?q) = 0"
      using c3[of ?q] that nonempty by (simp_all add: covers_def named_job_def last_conv_nth)
    then show ?thesis using p named by metis
  qed
  show "fst ` set (syncobj_dependencies csc) \<subseteq> D" using S3 h5 unfolding D S0_def by auto
qed

lemma submit_ib_parts:
  assumes "amdgpu_cs_submit_ib A g csc aws = Some (aws', csc', rq)" "csc_fence csc = Some f"
  obtains aws1 csc1 where "submit_locked A g f csc aws = Some (aws1, csc1, rq)" "submit_finish A f csc rq (aws1, csc1) = (aws', csc')"
  using assms unfolding amdgpu_cs_submit_ib_def by (auto split: option.splits prod.splits)

lemma submit_ib_spec:
  assumes rings: "rings_ok dn Q (queues aws)" and sig: "sig_ok dn aws" and view: "view_ok dn aws g"
    and pre: "submit_pre Q A csc aws" and acc: "accepted A" and f: "csc_fence csc = Some f"
    and run: "amdgpu_cs_submit_ib A g csc aws = Some (aws', csc', rq)"
  defines "D \<equiv> fst ` set (rq_dependencies rq)"
  shows "rings_ok dn (if is_alt A then Q else Q(sa_queue A := Q (sa_queue A) @ [f])) (queues aws')" "sig_ok dn aws'"
    and "\<exists>M. cs_bo ` set (all_bufs csc) \<union> slab_reals aws csc \<subseteq> M \<and>
      (\<forall>b. fences (bo_of aws' b) = (if b \<in> M \<and> \<not> is_alt A
          then set_seq_no (sa_queue A) (word_of_nat (Suc (length (Q (sa_queue A))))) (fences (bo_of aws b)) else fences (bo_of aws b)))"
    and "\<forall>b. alt_fence (bo_of aws' b) = (if b \<in> cs_bo ` set (all_bufs csc) \<and> is_alt A then Some f else alt_fence (bo_of aws b))"
    and "\<forall>x\<in>set (all_bufs csc). synchronised x \<longrightarrow>
      (\<forall>q. own_queue A \<noteq> Some q \<longrightarrow> valid_fence_mask (fences (bo_of aws (cs_bo x))) q \<longrightarrow>
        (\<exists>ds. valid_fence_mask ds q \<and> ds_ok (jobs_of Q) ds \<and> covers (jobs_of Q) ds (fences (bo_of aws (cs_bo x))) q
          \<and> (named_job Q ds q \<in> dn \<or> named_job Q ds q \<in> D)))
      \<and> (\<forall>a. alt_fence (bo_of aws (cs_bo x)) = Some a \<longrightarrow> a \<in> D)"
    and "sa_type A = KERNELQ \<Longrightarrow> Q (sa_queue A) \<noteq> [] \<Longrightarrow> last (Q (sa_queue A)) \<in> dn \<or> last (Q (sa_queue A)) \<in> D
      \<or> (last_ctx (queues aws (sa_queue A)) = Some (sa_ctx A) \<and> num_hw_queues aws (sa_ip_type A) = 1)"
proof -
  obtain aws1 csc1 where l: "submit_locked A g f csc aws = Some (aws1, csc1, rq)"
    and fin: "submit_finish A f csc rq (aws1, csc1) = (aws', csc')"
    by (rule submit_ib_parts[OF run f])
  note s = submit_locked_spec[OF rings sig view pre l] and t = submit_finish_spec[OF acc fin]
  show "rings_ok dn (if is_alt A then Q else Q(sa_queue A := Q (sa_queue A) @ [f])) (queues aws')" "sig_ok dn aws'"
    using s(1,2) t by (simp_all add: sig_ok_def)
  show "\<exists>M. cs_bo ` set (all_bufs csc) \<union> slab_reals aws csc \<subseteq> M \<and>
      (\<forall>b. fences (bo_of aws' b) = (if b \<in> M \<and> \<not> is_alt A
          then set_seq_no (sa_queue A) (word_of_nat (Suc (length (Q (sa_queue A))))) (fences (bo_of aws b)) else fences (bo_of aws b)))"
    using s(3) t by metis
  show "\<forall>b. alt_fence (bo_of aws' b) = (if b \<in> cs_bo ` set (all_bufs csc) \<and> is_alt A then Some f else alt_fence (bo_of aws b))"
    using s(4) t by simp
qed (use submit_locked_spec[OF rings sig view pre] run f in
      \<open>auto simp: amdgpu_cs_submit_ib_def D_def split: option.splits prod.splits\<close>)

section \<open>Where dependencies come from\<close>

text \<open>What the loops over the buffers \<open>B\<close> collect at most, from the state \<open>aws0\<close>: fences of these buffers. The fences change only
  at the own queue.\<close>

definition from_bos ::
  "submit_args \<Rightarrow> nat \<Rightarrow> nat set \<Rightarrow> fence_winsys \<Rightarrow> nat set \<Rightarrow> amdgpu_seq_no_fences \<Rightarrow> submit_state \<Rightarrow> bool" where
  "from_bos A f B aws0 S0 ds0 st \<longleftrightarrow>
    (case st of (aws, csc, ds) \<Rightarrow>
      queues aws = queues aws0 \<and> fence_of aws = fence_of aws0
      \<and> (\<forall>b p. own_queue A \<noteq> Some p \<longrightarrow> valid_fence_mask (fences (bo_of aws b)) p = valid_fence_mask (fences (bo_of aws0 b)) p
           \<and> seq_no (fences (bo_of aws b)) p = seq_no (fences (bo_of aws0 b)) p)
      \<and> (\<forall>b a. alt_fence (bo_of aws b) = Some a \<longrightarrow> alt_fence (bo_of aws0 b) = Some a \<or> a = f)
      \<and> fst ` set (syncobj_dependencies csc) \<subseteq> insert f S0 \<union> {a. \<exists>b\<in>B. alt_fence (bo_of aws0 b) = Some a}
      \<and> (\<forall>p. own_queue A \<noteq> Some p \<longrightarrow> valid_fence_mask ds p \<longrightarrow>
           (valid_fence_mask ds0 p \<or> (\<exists>b\<in>B. valid_fence_mask (fences (bo_of aws0 b)) p))
           \<and> (\<forall>n. (valid_fence_mask ds0 p \<longrightarrow> seq_no ds0 p = n)
                \<and> (\<forall>b\<in>B. valid_fence_mask (fences (bo_of aws0 b)) p \<longrightarrow> seq_no (fences (bo_of aws0 b)) p = n) \<longrightarrow> seq_no ds p = n)))"

lemma fold_add_seq_no_from:
  defines "r \<equiv> \<lambda>qs s ps ds. fold (\<lambda>q. add_seq_no_to_list qs q (s q)) ps ds"
  assumes "valid_fence_mask (r qs s ps ds) p"
  shows "valid_fence_mask ds p \<or> p \<in> set ps"
    and "(valid_fence_mask ds p \<Longrightarrow> seq_no ds p = n) \<Longrightarrow> (p \<in> set ps \<Longrightarrow> s p = n) \<Longrightarrow> seq_no (r qs s ps ds) p = n"
proof -
  have "(valid_fence_mask ds p \<or> p \<in> set ps) \<and>
      ((valid_fence_mask ds p \<longrightarrow> seq_no ds p = n) \<longrightarrow> (p \<in> set ps \<longrightarrow> s p = n) \<longrightarrow> seq_no (r qs s ps ds) p = n)"
    using assms(2) unfolding r_def
  proof (induction ps arbitrary: ds)
    case (Cons q ps)
    have "valid_fence_mask (fold (\<lambda>q. add_seq_no_to_list qs q (s q)) ps (add_seq_no_to_list qs q (s q) ds)) p" using Cons.prems by simp
    from Cons.IH[OF this] show ?case
      by (cases "p = q") (auto simp: add_seq_no_to_list_def pick_latest_seq_no_def Let_def split: if_splits)
  qed simp
  then show "valid_fence_mask ds p \<or> p \<in> set ps"
    and "(valid_fence_mask ds p \<Longrightarrow> seq_no ds p = n) \<Longrightarrow> (p \<in> set ps \<Longrightarrow> s p = n) \<Longrightarrow> seq_no (r qs s ps ds) p = n" by blast+
qed

lemma submit_bo_from:
  assumes "from_bos A f B aws0 S0 ds0 st" "cs_bo x \<in> B"
  shows "from_bos A f B aws0 S0 ds0 (submit_bo A m f x st)"
proof -
  obtain aws csc ds where st: "st = (aws, csc, ds)" by (cases st)
  let ?bo = "bo_of aws (cs_bo x)" and ?old = "bo_of aws0 (cs_bo x)"
  obtain ds' sync where d: "amdgpu_add_fences_to_dependencies (queues aws) (own_queue A) ?bo (usage x) (ds, syncobj_dependencies csc) = (ds', sync)"
    by fastforce
  have e: "submit_bo A m f x st = (update_bo (cs_bo x) (mark_bo A m f) aws, csc\<lparr>syncobj_dependencies := sync\<rparr>, ds')"
    using d by (simp add: submit_bo_def st)
  have o: "queues aws = queues aws0" "fence_of aws = fence_of aws0"
    "\<And>b p. own_queue A \<noteq> Some p \<Longrightarrow> valid_fence_mask (fences (bo_of aws b)) p = valid_fence_mask (fences (bo_of aws0 b)) p
        \<and> seq_no (fences (bo_of aws b)) p = seq_no (fences (bo_of aws0 b)) p"
    "\<And>b a. alt_fence (bo_of aws b) = Some a \<Longrightarrow> alt_fence (bo_of aws0 b) = Some a \<or> a = f"
    "fst ` set (syncobj_dependencies csc) \<subseteq> insert f S0 \<union> {a. \<exists>b\<in>B. alt_fence (bo_of aws0 b) = Some a}"
    "\<And>p. own_queue A \<noteq> Some p \<Longrightarrow> valid_fence_mask ds p \<Longrightarrow> valid_fence_mask ds0 p \<or> (\<exists>b\<in>B. valid_fence_mask (fences (bo_of aws0 b)) p)"
    "\<And>p n. own_queue A \<noteq> Some p \<Longrightarrow> valid_fence_mask ds p \<Longrightarrow> (valid_fence_mask ds0 p \<longrightarrow> seq_no ds0 p = n)
        \<Longrightarrow> (\<forall>b\<in>B. valid_fence_mask (fences (bo_of aws0 b)) p \<longrightarrow> seq_no (fences (bo_of aws0 b)) p = n) \<Longrightarrow> seq_no ds p = n"
    using assms(1) unfolding from_bos_def st prod.case by blast+
  let ?ps = "foreach_bit (\<lambda>q. valid_fence_mask (fences ?bo) q \<and> own_queue A \<noteq> Some q)"
  have ds': "ds' = ds \<or> ds' = fold (\<lambda>q. add_seq_no_to_list (queues aws) q (seq_no (fences ?bo) q)) ?ps ds"
    and sync: "fst ` set sync \<subseteq> fst ` set (syncobj_dependencies csc) \<union> set_option (alt_fence ?bo)"
    using d by (auto simp: amdgpu_add_fences_to_dependencies_def add_fence_to_list_def split: if_splits option.splits)
  have v: "valid_fence_mask ds' p \<Longrightarrow> own_queue A \<noteq> Some p \<Longrightarrow> valid_fence_mask ds p \<or> valid_fence_mask (fences ?old) p" for p
    using ds' fold_add_seq_no_from(1)[of "queues aws" "seq_no (fences ?bo)" ?ps ds p] o(3)[of p "cs_bo x"] by auto
  have n: "seq_no ds' p = n" if "valid_fence_mask ds' p" "own_queue A \<noteq> Some p" "valid_fence_mask ds p \<Longrightarrow> seq_no ds p = n"
      "valid_fence_mask (fences ?old) p \<Longrightarrow> seq_no (fences ?old) p = n" for p n
    using ds' fold_add_seq_no_from(2)[of "queues aws" "seq_no (fences ?bo)" ?ps ds p n] o(3)[of p "cs_bo x"] that by auto
  show ?thesis unfolding e from_bos_def prod.case
  proof (intro conjI)
    show "fst ` set (syncobj_dependencies (csc\<lparr>syncobj_dependencies := sync\<rparr>)) \<subseteq> insert f S0 \<union> {a. \<exists>b\<in>B. alt_fence (bo_of aws0 b) = Some a}"
      using sync o(4)[of "cs_bo x"] o(5) assms(2) by (cases "alt_fence ?bo") auto
    show "\<forall>b p. own_queue A \<noteq> Some p \<longrightarrow>
        valid_fence_mask (fences (bo_of (update_bo (cs_bo x) (mark_bo A m f) aws) b)) p = valid_fence_mask (fences (bo_of aws0 b)) p
        \<and> seq_no (fences (bo_of (update_bo (cs_bo x) (mark_bo A m f) aws) b)) p = seq_no (fences (bo_of aws0 b)) p"
      using o(3) by (auto simp: mark_bo_def set_seq_no_def own_queue_def)
    show "\<forall>b a. alt_fence (bo_of (update_bo (cs_bo x) (mark_bo A m f) aws) b) = Some a \<longrightarrow> alt_fence (bo_of aws0 b) = Some a \<or> a = f"
      using o(4) by (auto simp: mark_bo_def)
    show "\<forall>p. own_queue A \<noteq> Some p \<longrightarrow> valid_fence_mask ds' p \<longrightarrow>
        (valid_fence_mask ds0 p \<or> (\<exists>b\<in>B. valid_fence_mask (fences (bo_of aws0 b)) p))
        \<and> (\<forall>n. (valid_fence_mask ds0 p \<longrightarrow> seq_no ds0 p = n)
             \<and> (\<forall>b\<in>B. valid_fence_mask (fences (bo_of aws0 b)) p \<longrightarrow> seq_no (fences (bo_of aws0 b)) p = n) \<longrightarrow> seq_no ds' p = n)"
      using v n o(6,7) assms(2) by blast
  qed (use o(1,2) in simp_all)
qed

lemma from_bosD:
  assumes "from_bos A f B aws0 S0 ds0 (aws, csc, ds)" "own_queue A \<noteq> Some p" "valid_fence_mask ds p"
  shows "valid_fence_mask ds0 p \<or> (\<exists>b\<in>B. valid_fence_mask (fences (bo_of aws0 b)) p)"
    and "(valid_fence_mask ds0 p \<longrightarrow> seq_no ds0 p = n)
      \<and> (\<forall>b\<in>B. valid_fence_mask (fences (bo_of aws0 b)) p \<longrightarrow> seq_no (fences (bo_of aws0 b)) p = n) \<Longrightarrow> seq_no ds p = n"
  using assms unfolding from_bos_def prod.case by blast+

lemma from_bos_csc: "from_bos A f B aws0 S0 ds0 (aws, csc, ds) \<Longrightarrow> syncobj_dependencies csc' = syncobj_dependencies csc
  \<Longrightarrow> from_bos A f B aws0 S0 ds0 (aws, csc', ds)"
  unfolding from_bos_def by simp

lemma submit_bo_lists: "buffer_lists (fst (snd (submit_bo A m f x st))) = buffer_lists (fst (snd st))"
  by (simp add: submit_bo_def Let_def split: prod.splits)

lemma submit_slab_from:
  assumes "submit_slab_entries A m f xs st = Some st'" "from_bos A f B aws0 S0 ds0 st" "cs_bo ` set xs \<subseteq> B"
  shows "from_bos A f B aws0 S0 ds0 st' \<and> grows (real_list (fst (snd st))) (real_list (fst (snd st')))
    \<and> (\<forall>l. l \<noteq> LIST_REAL \<longrightarrow> buffer_lists (fst (snd st')) l = buffer_lists (fst (snd st)) l)"
  using assms
proof (induction xs arbitrary: st)
  case (Cons x xs)
  obtain aws1 csc1 ds1 where b: "submit_bo A m f x st = (aws1, csc1, ds1)" by (metis prod_cases3)
  obtain i csc2 where l: "amdgpu_lookup_or_add_buffer (bo_of aws1) (sa_alloc_ok A (cs_bo x)) (slab_entry_real_bo (bo_of aws1 (cs_bo x))) LIST_REAL csc1 = (Some i, csc2)"
    and rest: "submit_slab_entries A m f xs (aws1, add_usage LIST_REAL i (usage x) csc2, ds1) = Some st'"
    using Cons.prems(1) b by (auto split: prod.splits option.splits)
  let ?csc3 = "add_usage LIST_REAL i (usage x) csc2"
  have g: "real_grows csc1 ?csc3" using lookup_or_add_grows[OF l] real_grows_trans add_usage_grows by blast
  have "from_bos A f B aws0 S0 ds0 (aws1, csc1, ds1)" unfolding b[symmetric]
    by (rule submit_bo_from[OF Cons.prems(2)]) (use Cons.prems(3) in simp)
  then have "from_bos A f B aws0 S0 ds0 (aws1, ?csc3, ds1)" by (rule from_bos_csc) (use g in \<open>simp add: real_grows_def\<close>)
  note h = Cons.IH[OF rest this]
  have "buffer_lists csc1 = buffer_lists (fst (snd st))" using submit_bo_lists[of A m f x st] b by simp
  then show ?case using h Cons.prems(3) g grows_trans unfolding real_grows_def real_list_def by auto
qed simp

lemma submit_sparse_from:
  assumes "submit_sparse A m f xs st = Some st'" "from_bos A f B aws0 S0 ds0 st" "cs_bo ` set xs \<subseteq> B"
  shows "from_bos A f B aws0 S0 ds0 st' \<and> grows (real_list (fst (snd st))) (real_list (fst (snd st')))"
  using assms
proof (induction xs arbitrary: st)
  case (Cons x xs)
  obtain aws1 csc1 ds1 where b: "submit_bo A m f x st = (aws1, csc1, ds1)" by (metis prod_cases3)
  obtain csc2 where l: "add_sparse_backing (bo_of aws1) (sa_alloc_ok A) (usage x) (sparse_backing_bos (bo_of aws1 (cs_bo x))) csc1 = Some csc2"
    and rest: "submit_sparse A m f xs (aws1, csc2, ds1) = Some st'"
    using Cons.prems(1) b by (auto split: option.splits)
  note g = conjunct1[OF add_sparse_backing_grows[OF l]]
  have "from_bos A f B aws0 S0 ds0 (aws1, csc1, ds1)" unfolding b[symmetric]
    by (rule submit_bo_from[OF Cons.prems(2)]) (use Cons.prems(3) in simp)
  then have "from_bos A f B aws0 S0 ds0 (aws1, csc2, ds1)" by (rule from_bos_csc) (use g in \<open>simp add: real_grows_def\<close>)
  note h = Cons.IH[OF rest this]
  have "buffer_lists csc1 = buffer_lists (fst (snd st))" using submit_bo_lists[of A m f x st] b by simp
  then show ?case using h Cons.prems(3) g grows_trans unfolding real_grows_def real_list_def by auto
qed simp

lemma submit_real_from:
  "from_bos A f B aws0 S0 ds0 st \<Longrightarrow> cs_bo ` set xs \<subseteq> B \<Longrightarrow> from_bos A f B aws0 S0 ds0 (fold (submit_bo A m f) xs st)"
  by (induction xs arbitrary: st) (simp_all add: submit_bo_from)

text \<open>Only fences that are in a ring at the number collected, and not signalled, are added.\<close>

lemma fence_wait_frame:
  assumes "amdgpu_fence_wait g query f aws = (r, aws')"
  shows "queues aws' = queues aws" "bo_of aws' = bo_of aws" "signalled (fence_of aws h) \<Longrightarrow> signalled (fence_of aws' h)"
    "\<not> r \<Longrightarrow> \<not> signalled (fence_of aws f)"
  using assms by (auto simp: amdgpu_fence_wait_def Let_def split: if_splits option.splits)

lemma convert_from:
  assumes "convert_dependencies g qs (aws, csc, ds) = (aws', csc', ds')" "h \<in> fst ` set (syncobj_dependencies csc')"
  shows "h \<in> fst ` set (syncobj_dependencies csc)
    \<or> (\<exists>q\<in>set qs. ring (queues aws q) (unat (seq_no ds q) mod AMDGPU_FENCE_RING_SIZE) = Some h \<and> \<not> signalled (fence_of aws h))"
  using assms
proof (induction qs arbitrary: aws csc ds)
  case (Cons q qs)
  obtain o1 ds1 where gf: "get_fence_from_ring (queues aws) ds q = (o1, ds1)" by fastforce
  have n: "seq_no ds1 = seq_no ds" and slot: "\<And>i. o1 = Some i \<Longrightarrow> i = unat (seq_no ds q) mod AMDGPU_FENCE_RING_SIZE"
    using gf by (auto simp: get_fence_from_ring_def Let_def split: if_splits)
  consider (skip) "convert_dependencies g qs (aws, csc, ds1) = (aws', csc', ds')"
    | (wait) i f where "o1 = Some i" "ring (queues aws q) i = Some f"
    using Cons.prems(1) gf by (cases o1; cases "ring (queues aws q) (the o1)") auto
  then show ?case
  proof cases
    case skip
    from Cons.IH[OF skip Cons.prems(2)] show ?thesis by (auto simp: n)
  next
    case (wait i f)
    obtain idle aws1 where w: "amdgpu_fence_wait g True f aws = (idle, aws1)" by fastforce
    note s = fence_wait_frame[OF w]
    show ?thesis
    proof (cases idle)
      case True
      then have "convert_dependencies g qs (clear_ptr (RingSlot q i) aws1, csc, ds1) = (aws', csc', ds')"
        using Cons.prems(1) gf wait w by simp
      from Cons.IH[OF this Cons.prems(2)] show ?thesis using s(1,3) by (auto simp: n split: if_splits)
    next
      case False
      then have "convert_dependencies g qs (aws1, csc\<lparr>syncobj_dependencies := syncobj_dependencies csc @ [(f, 0)]\<rparr>, ds1) = (aws', csc', ds')"
        using Cons.prems(1) gf wait w by (simp add: add_fence_to_list_def)
      from Cons.IH[OF this Cons.prems(2)] show ?thesis using s(1,3) s(4)[OF False] slot[OF wait(1)] wait(2) by (auto simp: n)
    qed
  qed
qed simp

lemma locked_dependencies_from:
  assumes run: "submit_locked A g f csc aws = Some (aws', csc', rq)" and h: "h \<in> fst ` set (rq_dependencies rq)"
  defines "B \<equiv> cs_bo ` set (all_bufs csc)" and "ds0 \<equiv> seq_no_dependencies csc"
  shows "h \<in> insert f (fst ` set (syncobj_dependencies csc)) \<or> (\<exists>b\<in>B. alt_fence (bo_of aws b) = Some h)
    \<or> (\<exists>p i. ring (queues aws p) i = Some h \<and> (own_queue A \<noteq> Some p \<longrightarrow>
         (valid_fence_mask ds0 p \<or> (\<exists>b\<in>B. valid_fence_mask (fences (bo_of aws b)) p))
         \<and> (\<forall>n. (valid_fence_mask ds0 p \<longrightarrow> seq_no ds0 p = n)
              \<and> (\<forall>b\<in>B. valid_fence_mask (fences (bo_of aws b)) p \<longrightarrow> seq_no (fences (bo_of aws b)) p = n)
            \<longrightarrow> i = unat n mod AMDGPU_FENCE_RING_SIZE)))"
proof -
  define m where "m = latest_seq_no (queues aws (sa_queue A)) + 1"
  define ds1 where "ds1 = add_prev_dependency A aws ds0"
  let ?S = "fst ` set (syncobj_dependencies csc)"
  obtain st1 where s1: "submit_slab_entries A m f (buffers (buffer_lists csc LIST_SLAB_ENTRY)) (aws, csc, ds1) = Some st1"
    using run unfolding submit_locked_def Let_def m_def[symmetric] ds1_def[unfolded ds0_def, symmetric] by (auto split: option.splits)
  obtain a1 c1 d1 where st1: "st1 = (a1, c1, d1)" by (cases st1)
  obtain st2 where s2: "submit_sparse A m f (buffers (buffer_lists c1 LIST_SPARSE)) st1 = Some st2"
    using run s1 unfolding submit_locked_def Let_def m_def[symmetric] ds1_def[unfolded ds0_def, symmetric]
    by (auto simp: st1 split: option.splits)
  obtain a2 c2 d2 where st2: "st2 = (a2, c2, d2)" by (cases st2)
  let ?init = "length (real_list csc)"
  obtain a3 c3 d3 where s3: "fold (submit_bo A m f) (take ?init (real_list c2)) st2 = (a3, c3, d3)" by (metis prod_cases3)
  define a4 where "a4 = fold (mark_slab_backing A m) (drop ?init (take (length (real_list c1)) (real_list c2))) a3"
  obtain a5 c5 d5 where s5: "convert_dependencies g (foreach_bit (valid_fence_mask d3)) (a4, c3, d3) = (a5, c5, d5)" by (metis prod_cases3)
  have out: "rq_dependencies rq = syncobj_dependencies c5"
    using run s1 s2 s3 s5 unfolding submit_locked_def Let_def m_def[symmetric] ds1_def[unfolded ds0_def, symmetric] a4_def real_list_def st1 st2
    by auto
  have f0: "from_bos A f B aws ?S ds1 (aws, csc, ds1)" unfolding from_bos_def by auto
  have h1: "from_bos A f B aws ?S ds1 st1 \<and> grows (real_list csc) (real_list c1)
      \<and> (\<forall>l. l \<noteq> LIST_REAL \<longrightarrow> buffer_lists c1 l = buffer_lists csc l)"
    using submit_slab_from[OF s1 f0] by (auto simp: st1 B_def all_bufs_def)
  have "buffers (buffer_lists c1 LIST_SPARSE) = buffers (buffer_lists csc LIST_SPARSE)"
    using h1 by (simp add: LIST_SPARSE_def LIST_REAL_def)
  then have h2: "from_bos A f B aws ?S ds1 st2 \<and> grows (real_list c1) (real_list c2)"
    using submit_sparse_from[OF s2 conjunct1[OF h1]] by (auto simp: st1 st2 B_def all_bufs_def)
  have "map cs_bo (take ?init (real_list c2)) = map cs_bo (real_list csc)" using h1 h2 grows_trans grows_take by blast
  then have "cs_bo ` set (take ?init (real_list c2)) = cs_bo ` set (real_list csc)" by (metis list.set_map)
  then have "cs_bo ` set (take ?init (real_list c2)) \<subseteq> B" by (auto simp: B_def all_bufs_def)
  then have h3: "from_bos A f B aws ?S ds1 (a3, c3, d3)" unfolding s3[symmetric] by (rule submit_real_from[OF conjunct1[OF h2]])
  have q4: "queues a4 = queues aws" using mark_backing_spec[of A m _ a3] h3 by (simp add: a4_def from_bos_def)
  have prev: "valid_fence_mask ds1 p = valid_fence_mask ds0 p" "seq_no ds1 p = seq_no ds0 p" if "own_queue A \<noteq> Some p" for p
    using that by (auto simp: ds1_def add_prev_dependency_def add_seq_no_to_list_def own_queue_def Let_def)
  from convert_from[OF s5 h[unfolded out]] show ?thesis
  proof (elim disjE)
    assume "h \<in> fst ` set (syncobj_dependencies c3)"
    then show ?thesis using h3 by (auto simp: from_bos_def)
  next
    assume "\<exists>q\<in>set (foreach_bit (valid_fence_mask d3)). ring (queues a4 q) (unat (seq_no d3 q) mod AMDGPU_FENCE_RING_SIZE) = Some h
      \<and> \<not> signalled (fence_of a4 h)"
    then obtain p where p: "valid_fence_mask d3 p" "ring (queues aws p) (unat (seq_no d3 p) mod AMDGPU_FENCE_RING_SIZE) = Some h"
      using q4 by auto
    show ?thesis
    proof (rule disjI2, rule disjI2, rule exI[of _ p], rule exI[of _ "unat (seq_no d3 p) mod AMDGPU_FENCE_RING_SIZE"], intro conjI impI allI)
      assume own: "own_queue A \<noteq> Some p"
      show "valid_fence_mask ds0 p \<or> (\<exists>b\<in>B. valid_fence_mask (fences (bo_of aws b)) p)"
        using from_bosD(1)[OF h3 own p(1)] unfolding prev[OF own] .
      show "unat (seq_no d3 p) mod AMDGPU_FENCE_RING_SIZE = unat n mod AMDGPU_FENCE_RING_SIZE"
        if "(valid_fence_mask ds0 p \<longrightarrow> seq_no ds0 p = n)
          \<and> (\<forall>b\<in>B. valid_fence_mask (fences (bo_of aws b)) p \<longrightarrow> seq_no (fences (bo_of aws b)) p = n)" for n
        using from_bosD(2)[OF h3 own p(1), of n, unfolded prev[OF own], OF that] by simp
    qed (rule p(2))
  qed
qed

text \<open>A fence that only one queue has, whose number no buffer of the submission remembers, is not waited for.\<close>

lemma not_a_dependency:
  assumes rings: "rings_ok dn Q (queues aws)" and run: "amdgpu_cs_submit_ib A g csc aws = Some (aws', csc', rq)" "csc_fence csc = Some f"
    and h: "h \<noteq> f" "h \<notin> fst ` set (syncobj_dependencies csc)" "\<forall>x\<in>set (all_bufs csc). alt_fence (bo_of aws (cs_bo x)) \<noteq> Some h"
    and q: "own_queue A \<noteq> Some q" "\<And>p. p \<noteq> q \<Longrightarrow> h \<notin> set (Q p)" "\<not> valid_fence_mask (seq_no_dependencies csc) q"
    and hidden: "(\<forall>x\<in>set (all_bufs csc). \<not> valid_fence_mask (fences (bo_of aws (cs_bo x))) q)
      \<or> (\<forall>x\<in>set (all_bufs csc). seq_no (fences (bo_of aws (cs_bo x))) q = n) \<and> ring (queues aws q) (unat n mod AMDGPU_FENCE_RING_SIZE) \<noteq> Some h"
  shows "h \<notin> fst ` set (rq_dependencies rq)"
proof
  assume d: "h \<in> fst ` set (rq_dependencies rq)"
  obtain aws1 csc1 where l: "submit_locked A g f csc aws = Some (aws1, csc1, rq)" by (rule submit_ib_parts[OF run])
  let ?B = "cs_bo ` set (all_bufs csc)" and ?ds = "seq_no_dependencies csc"
  obtain p i where p: "ring (queues aws p) i = Some h" and src: "own_queue A \<noteq> Some p \<longrightarrow>
       (valid_fence_mask ?ds p \<or> (\<exists>b\<in>?B. valid_fence_mask (fences (bo_of aws b)) p))
       \<and> (\<forall>n. (valid_fence_mask ?ds p \<longrightarrow> seq_no ?ds p = n)
            \<and> (\<forall>b\<in>?B. valid_fence_mask (fences (bo_of aws b)) p \<longrightarrow> seq_no (fences (bo_of aws b)) p = n)
          \<longrightarrow> i = unat n mod AMDGPU_FENCE_RING_SIZE)"
    using locked_dependencies_from[OF l d] h by blast
  have "h \<in> set (Q p)" using ring_okD(4)[of dn "Q p" "queues aws p", OF _ p] rings by (auto simp: rings_ok_def)
  then have "p = q" using q(2) by blast
  then have v: "\<exists>b\<in>?B. valid_fence_mask (fences (bo_of aws b)) q"
    and n: "(\<forall>b\<in>?B. seq_no (fences (bo_of aws b)) q = n) \<Longrightarrow> i = unat n mod AMDGPU_FENCE_RING_SIZE"
    using src q(1,3) by auto
  show False using hidden v n p \<open>p = q\<close> by auto
qed

text \<open>A submission with real buffers only does not run into a null pointer.\<close>

lemma real_buffers_submit:
  assumes "buffers (buffer_lists csc LIST_SLAB_ENTRY) = []" "buffers (buffer_lists csc LIST_SPARSE) = []" "csc_fence csc = Some f"
  obtains aws' csc' rq where "amdgpu_cs_submit_ib A g csc aws = Some (aws', csc', rq)"
proof -
  have "submit_locked A g f csc aws \<noteq> None" using assms(1,2) by (simp add: submit_locked_def Let_def split: prod.splits)
  then have "amdgpu_cs_submit_ib A g csc aws \<noteq> None" using assms(3) by (auto simp: amdgpu_cs_submit_ib_def split: prod.splits)
  then show thesis using that by auto
qed

end
