(* ===== verification/CsSystem.thy ===== *)
theory CsSystem
  imports CsSubmitProps
begin

text \<open>
  Submissions, the GPU and other threads together. The submission thread (the winsys has one) runs
  \<open>amdgpu_cs_submit_ib\<close> in three steps, cut where it takes or drops the lock: the wait for the oldest fence,
  the critical section, and the tail with the call of the kernel. Between them other threads ask whether a
  buffer is idle, wait for it, collect the fences for a page table update, or hand the fences of a sparse
  buffer to its backing; the GPU finishes jobs. The log \<open>jobs\<close> and the set \<open>finished\<close> are not part of the
  winsys: they record what happened. \<open>tail\<close> is the submission between its critical section and its end.

  Three kinds of runs are left out. The kernel accepts every submission: a rejected one, or one that is
  dropped because the context is lost or does nothing, ends its run before the tail. No submission to a
  queue uses a buffer for whose fence on that queue a thread is waiting without the lock. A job on a queue
  without sequence numbers synchronises with all its buffers. The theorems \<open>rejected_submission_hides_job\<close>
  and \<open>bo_wait_forgets_new_job\<close> show that the first two are needed.

  A job finishes only after the fences it was submitted with and, where the kernel runs it in the same
  hardware queue and context as the job before it, after that one. This and \<open>view_ok\<close> are what the
  driver relies on of the kernel.
\<close>

section \<open>The system\<close>

record cs_job =
  job_fence :: nat
  job_queue :: "nat option"
  job_bos :: "nat set"
  job_sync :: "nat set"
  job_deps :: "nat set"
  job_prev :: "nat option"

record cs_sys =
  ws :: fence_winsys
  jobs :: "cs_job list"
  finished :: "nat set"
  waits :: "(nat \<times> nat \<times> nat \<times> nat) set"
  tail :: "(submit_args \<times> nat \<times> amdgpu_cs_context \<times> amdgpu_cs_context \<times> submit_request) option"

text \<open>What a job waits for.\<close>

definition job_waits :: "cs_job \<Rightarrow> nat set" where
  "job_waits J = job_deps J \<union> set_option (job_prev J)"

definition qjobs :: "cs_job list \<Rightarrow> nat \<Rightarrow> cs_job list" where
  "qjobs js q = filter (\<lambda>J. job_queue J = Some q) js"

definition qfences :: "cs_job list \<Rightarrow> nat \<Rightarrow> nat list" where
  "qfences js q = map job_fence (qjobs js q)"

text \<open>The kernel runs the job after the previous one of the queue.\<close>

definition in_order :: "submit_args \<Rightarrow> fence_winsys \<Rightarrow> bool" where
  "in_order A aws \<longleftrightarrow> sa_type A = USERQ \<or>
    sa_type A = KERNELQ \<and> last_ctx (queues aws (sa_queue A)) = Some (sa_ctx A) \<and> num_hw_queues aws (sa_ip_type A) = 1"

definition new_job :: "submit_args \<Rightarrow> amdgpu_cs_context \<Rightarrow> submit_request \<Rightarrow> nat \<Rightarrow> fence_winsys \<Rightarrow> cs_job list \<Rightarrow> cs_job" where
  "new_job A csc rq f aws js =
    \<lparr>job_fence = f, job_queue = own_queue A,
     job_bos = cs_bo ` set (all_bufs csc) \<union> (if is_alt A then {} else slab_reals aws csc),
     job_sync = cs_bo ` {x \<in> set (all_bufs csc). synchronised x},
     job_deps = fst ` set (rq_dependencies rq),
     job_prev = (if in_order A aws \<and> qfences js (sa_queue A) \<noteq> [] then Some (last (qfences js (sa_queue A))) else None)\<rparr>"

definition submit_ready :: "cs_sys \<Rightarrow> submit_args \<Rightarrow> amdgpu_cs_context \<Rightarrow> bool" where
  "submit_ready s A csc \<longleftrightarrow>
    distinct (map cs_bo (all_bufs csc)) \<and> ds_ok (jobs_of (qfences (jobs s))) (seq_no_dependencies csc)
    \<and> (\<not> is_alt A \<longrightarrow> sa_queue A < AMDGPU_MAX_QUEUES
         \<and> ring (queues (ws s) (sa_queue A))
             (unat (latest_seq_no (queues (ws s) (sa_queue A)) + 1) mod AMDGPU_FENCE_RING_SIZE) = None)"

definition submit_guard :: "cs_sys \<Rightarrow> submit_args \<Rightarrow> amdgpu_cs_context \<Rightarrow> bool" where
  "submit_guard s A csc \<longleftrightarrow> submit_ready s A csc
    \<and> (if is_alt A then \<forall>x\<in>set (all_bufs csc). synchronised x
       else \<forall>(b, q, slot, h)\<in>waits s. q = sa_queue A \<longrightarrow> b \<notin> cs_bo ` set (all_bufs csc) \<union> slab_reals (ws s) csc)"

inductive cs_step :: "cs_sys \<Rightarrow> cs_sys \<Rightarrow> bool" where
  oldest: "tail s = None \<Longrightarrow> submit_wait_oldest g g' q (ws s) = (True, w) \<Longrightarrow> view_ok (finished s) (ws s) g \<Longrightarrow> view_ok (finished s) (ws s) g'
    \<Longrightarrow> cs_step s (s\<lparr>ws := w\<rparr>)"
| submit: "tail s = None \<Longrightarrow> csc_fence csc = Some f \<Longrightarrow> f \<notin> job_fence ` set (jobs s) \<Longrightarrow> f \<notin> finished s \<Longrightarrow> view_ok (finished s) (ws s) g
    \<Longrightarrow> submit_guard s A csc \<Longrightarrow> submit_locked A g f csc (ws s) = Some (w, csc', rq)
    \<Longrightarrow> cs_step s (s\<lparr>ws := w, jobs := jobs s @ [new_job A csc rq f (ws s) (jobs s)], tail := Some (A, f, csc, csc', rq)\<rparr>)"
| tail: "tail s = Some (A, f, csc, csc', rq) \<Longrightarrow> accepted A \<Longrightarrow> submit_finish A f csc rq (ws s, csc') = (w, csc'')
    \<Longrightarrow> cs_step s (s\<lparr>ws := w, tail := None\<rparr>)"
| finish: "\<forall>J\<in>set (jobs s). job_fence J = f \<longrightarrow> job_waits J \<subseteq> finished s
    \<Longrightarrow> cs_step s (s\<lparr>finished := insert f (finished s)\<rparr>)"
| ask: "amdgpu_bo_wait g k d b (ws s) = (r, w) \<Longrightarrow> view_ok (finished s) (ws s) g \<Longrightarrow> cs_step s (s\<lparr>ws := w\<rparr>)"
| wait_begin: "valid_fence_mask (fences (bo_of (ws s) b)) q
    \<Longrightarrow> get_fence_from_ring (queues (ws s)) (fences (bo_of (ws s) b)) q = (Some slot, fs)
    \<Longrightarrow> ring (queues (ws s) q) slot = Some f \<Longrightarrow> cs_step s (s\<lparr>waits := insert (b, q, slot, f) (waits s)\<rparr>)"
| wait_end: "(b, q, slot, f) \<in> waits s \<Longrightarrow> amdgpu_fence_wait g False f (ws s) = (True, w) \<Longrightarrow> view_ok (finished s) (ws s) g
    \<Longrightarrow> cs_step s (s\<lparr>ws := drop_bo_queue b q (bo_fence_wait_relock f (RingSlot q slot) w), waits := waits s - {(b, q, slot, f)}\<rparr>)"
| wait_fence: "amdgpu_fence_wait g query f (ws s) = (r, w) \<Longrightarrow> view_ok (finished s) (ws s) g \<Longrightarrow> cs_step s (s\<lparr>ws := w\<rparr>)"
| wait_alt: "amdgpu_fence_wait g False f (ws s) = (True, w) \<Longrightarrow> view_ok (finished s) (ws s) g
    \<Longrightarrow> cs_step s (s\<lparr>ws := bo_fence_wait_relock f (AltFence b) w\<rparr>)"
| flush: "cs_step s (s\<lparr>ws := inc_ioctls csc (ws s)\<rparr>)"
| syncobjs: "amdgpu_bo_get_syncobjs g b (ws s) = (out, w) \<Longrightarrow> view_ok (finished s) (ws s) g \<Longrightarrow> cs_step s (s\<lparr>ws := w\<rparr>)"
| merge: "cs_step s (s\<lparr>ws := merge_bo_fences b bk (ws s)\<rparr>)"

definition cs_init :: "cs_sys \<Rightarrow> bool" where
  "cs_init s \<longleftrightarrow> jobs s = [] \<and> waits s = {} \<and> tail s = None \<and> sig_ok (finished s) (ws s)
    \<and> (\<forall>q. latest_seq_no (queues (ws s) q) = 0 \<and> ring (queues (ws s) q) = (\<lambda>_. None))
    \<and> (\<forall>b q. \<not> valid_fence_mask (fences (bo_of (ws s) b)) q) \<and> (\<forall>b. alt_fence (bo_of (ws s) b) = None)"

definition cs_reachable :: "cs_sys \<Rightarrow> bool" where
  "cs_reachable s \<longleftrightarrow> (\<exists>s0. cs_init s0 \<and> cs_step\<^sup>*\<^sup>* s0 s)"

section \<open>What the winsys knows of the jobs\<close>

text \<open>\<open>U q i b\<close>: job \<open>i\<close> of queue \<open>q\<close> uses buffer \<open>b\<close>. \<open>V f b\<close>: the job with fence \<open>f\<close>, on a queue without
  sequence numbers, uses \<open>b\<close>. \<open>R\<close> is the order of the jobs.\<close>

definition tracked :: "nat set \<Rightarrow> (nat \<Rightarrow> nat list) \<Rightarrow> amdgpu_seq_no_fences \<Rightarrow> nat \<Rightarrow> nat \<Rightarrow> bool" where
  "tracked dn Q fs q i \<longleftrightarrow>
    Q q ! i \<in> dn \<or> valid_fence_mask fs q \<and> i + age (length (Q q)) (seq_no fs q) < length (Q q)"

definition core ::
  "nat set \<Rightarrow> (nat \<Rightarrow> nat list) \<Rightarrow> (nat \<Rightarrow> nat \<Rightarrow> nat \<Rightarrow> bool) \<Rightarrow> (nat \<Rightarrow> nat \<Rightarrow> bool) \<Rightarrow> (nat \<times> nat) set \<Rightarrow> fence_winsys \<Rightarrow> bool" where
  "core dn Q U V R aws \<longleftrightarrow> rings_ok dn Q (queues aws) \<and> sig_ok dn aws
    \<and> (\<forall>b. ds_ok (jobs_of Q) (fences (bo_of aws b)))
    \<and> (\<forall>q i b. i < length (Q q) \<longrightarrow> U q i b \<longrightarrow> tracked dn Q (fences (bo_of aws b)) q i)
    \<and> (\<forall>f b. V f b \<longrightarrow> f \<in> dn \<or> (\<exists>a. alt_fence (bo_of aws b) = Some a \<and> (f, a) \<in> R))"

text \<open>Finished jobs leave no unfinished one before them.\<close>

definition down_closed :: "nat set \<Rightarrow> (nat \<Rightarrow> nat list) \<Rightarrow> (nat \<times> nat) set \<Rightarrow> bool" where
  "down_closed dn Q R \<longleftrightarrow>
    (\<forall>q i j. i \<le> j \<longrightarrow> j < length (Q q) \<longrightarrow> Q q ! j \<in> dn \<longrightarrow> Q q ! i \<in> dn) \<and> (\<forall>x y. (x, y) \<in> R \<longrightarrow> y \<in> dn \<longrightarrow> x \<in> dn)"

lemma coreD:
  assumes "core dn Q U V R aws"
  shows "rings_ok dn Q (queues aws)" "sig_ok dn aws" "ds_ok (jobs_of Q) (fences (bo_of aws b))"
    and "i < length (Q q) \<Longrightarrow> U q i b \<Longrightarrow> tracked dn Q (fences (bo_of aws b)) q i"
    and "V f b \<Longrightarrow> f \<in> dn \<or> (\<exists>a. alt_fence (bo_of aws b) = Some a \<and> (f, a) \<in> R)"
  using assms unfolding core_def by blast+

lemma core_same: "core dn Q U V R aws \<Longrightarrow> rings_ok dn Q (queues aws') \<Longrightarrow> sig_ok dn aws'
  \<Longrightarrow> (\<And>b. fences (bo_of aws' b) = fences (bo_of aws b)) \<Longrightarrow> (\<And>b. alt_fence (bo_of aws' b) = alt_fence (bo_of aws b))
  \<Longrightarrow> core dn Q U V R aws'"
  by (simp add: core_def)

lemma core_fence_wait:
  assumes "core dn Q U V R aws" "view_ok dn aws g" "amdgpu_fence_wait g query f aws = (r, aws')"
  shows "core dn Q U V R aws'" "r \<Longrightarrow> f \<in> dn" "view_ok dn aws' g" "queues aws' = queues aws" "bo_of aws' = bo_of aws"
proof -
  note s = fence_wait_spec[OF coreD(2)[OF assms(1)] assms(2,3)]
  show "core dn Q U V R aws'" using core_same[OF assms(1), of aws'] coreD(1)[OF assms(1)] s(2,4,5) by simp
qed (use fence_wait_spec[OF coreD(2)[OF assms(1)] assms(2,3)] assms(2) in simp_all)

lemma core_clear_ring:
  assumes "core dn Q U V R aws" "ring (queues aws q) i = Some f" "f \<in> dn"
  shows "core dn Q U V R (clear_ptr (RingSlot q i) aws)"
  using core_same[OF assms(1), of "clear_ptr (RingSlot q i) aws"] rings_ok_clear[OF coreD(1)[OF assms(1)] assms(2,3)]
    coreD(2)[OF assms(1)] by simp

text \<open>A buffer forgets a queue: nothing is lost when its jobs there are finished.\<close>

lemma drop_bo_queue_simps [simp]:
  "queues (drop_bo_queue b q aws) = queues aws" "fence_of (drop_bo_queue b q aws) = fence_of aws"
  "alt_fence (bo_of (drop_bo_queue b q aws) c) = alt_fence (bo_of aws c)"
  "fences (bo_of (drop_bo_queue b q aws) c) =
    (if c = b then (fences (bo_of aws b))\<lparr>valid_fence_mask := (valid_fence_mask (fences (bo_of aws b)))(q := False)\<rparr>
     else fences (bo_of aws c))"
  by (simp_all add: drop_bo_queue_def)

lemma update_fences_drop:
  "update_bo b (fences_update (\<lambda>_. (fences (bo_of aws b))\<lparr>valid_fence_mask := (valid_fence_mask (fences (bo_of aws b)))(q := False)\<rparr>)) aws
    = drop_bo_queue b q aws"
  "drop_bo_queue b q (drop_bo_queue b q aws) = drop_bo_queue b q aws"
  by (cases "bo_of aws b", simp add: drop_bo_queue_def update_bo_def)+

lemma core_drop:
  assumes "core dn Q U V R aws" "\<And>i. i < length (Q q) \<Longrightarrow> U q i b \<Longrightarrow> Q q ! i \<in> dn"
  shows "core dn Q U V R (drop_bo_queue b q aws)"
  unfolding core_def
proof (intro conjI allI impI)
  fix p i c assume "i < length (Q p)" "U p i c"
  then show "tracked dn Q (fences (bo_of (drop_bo_queue b q aws) c)) p i"
    using coreD(4)[OF assms(1)] assms(2) by (fastforce simp: tracked_def)
qed (use coreD[OF assms(1)] in \<open>auto simp: ds_ok_def sig_ok_def\<close>)

lemma core_clear_alt:
  assumes "core dn Q U V R aws" "down_closed dn Q R" "alt_fence (bo_of aws b) = Some f" "f \<in> dn"
  shows "core dn Q U V R (clear_ptr (AltFence b) aws)"
  unfolding core_def
proof (intro conjI allI impI)
  fix h c assume "V h c"
  then have "h \<in> dn \<or> (\<exists>a. alt_fence (bo_of aws c) = Some a \<and> (h, a) \<in> R)" by (rule coreD(5)[OF assms(1)])
  moreover have "(h, f) \<in> R \<Longrightarrow> h \<in> dn" using assms(2,4) unfolding down_closed_def by blast
  ultimately show "h \<in> dn \<or> (\<exists>a. alt_fence (bo_of (clear_ptr (AltFence b) aws) c) = Some a \<and> (h, a) \<in> R)"
    using assms(3) by (cases "c = b") auto
next
  fix q i c assume "i < length (Q q)" "U q i c"
  then have "tracked dn Q (fences (bo_of aws c)) q i" by (rule coreD(4)[OF assms(1)])
  then show "tracked dn Q (fences (bo_of (clear_ptr (AltFence b) aws) c)) q i" by (auto simp: tracked_def)
qed (use coreD(1-3)[OF assms(1)] in \<open>auto simp: ds_ok_def sig_ok_def\<close>)

text \<open>The users of a buffer on a queue are done when the job its sequence number names is.\<close>

abbreviation users_done ::
  "nat set \<Rightarrow> (nat \<Rightarrow> nat list) \<Rightarrow> (nat \<Rightarrow> nat \<Rightarrow> nat \<Rightarrow> bool) \<Rightarrow> nat \<Rightarrow> nat \<Rightarrow> bool" where
  "users_done dn Q U q b \<equiv> \<forall>i<length (Q q). U q i b \<longrightarrow> Q q ! i \<in> dn"

lemma users_done_named:
  assumes "core dn Q U V R aws" "down_closed dn Q R" "named_job Q (fences (bo_of aws b)) q \<in> dn"
  shows "users_done dn Q U q b"
proof (intro allI impI)
  fix i assume "i < length (Q q)" "U q i b"
  then have "tracked dn Q (fences (bo_of aws b)) q i" by (rule coreD(4)[OF assms(1)])
  then have "Q q ! i \<in> dn \<or> i \<le> length (Q q) - 1 - age (length (Q q)) (seq_no (fences (bo_of aws b)) q)"
    by (auto simp: tracked_def)
  moreover have "length (Q q) - 1 - age (length (Q q)) (seq_no (fences (bo_of aws b)) q) < length (Q q)"
    using \<open>i < length (Q q)\<close> by simp
  ultimately show "Q q ! i \<in> dn"
    using assms(2,3) unfolding down_closed_def named_job_def by metis
qed

lemma users_done_invalid:
  assumes "core dn Q U V R aws" "\<not> valid_fence_mask (fences (bo_of aws b)) q"
  shows "users_done dn Q U q b"
  using coreD(4)[OF assms(1)] assms(2) by (auto simp: tracked_def)

lemma ring_lookup:
  assumes "core dn Q U V R aws" "down_closed dn Q R" "valid_fence_mask (fences (bo_of aws b)) q"
  obtains (fence) slot f where "get_fence_from_ring (queues aws) (fences (bo_of aws b)) q = (Some slot, fences (bo_of aws b))"
      "ring (queues aws q) slot = Some f" "f \<in> dn \<longrightarrow> users_done dn Q U q b" "f = named_job Q (fences (bo_of aws b)) q"
  | (gone) "get_fence_from_ring (queues aws) (fences (bo_of aws b)) q
        = (None, (fences (bo_of aws b))\<lparr>valid_fence_mask := (valid_fence_mask (fences (bo_of aws b)))(q := False)\<rparr>)"
      "users_done dn Q U q b"
proof -
  have r: "ring_ok dn (Q q) (queues aws q)" using coreD(1)[OF assms(1)] by (simp add: rings_ok_def)
  have a: "age (length (Q q)) (seq_no (fences (bo_of aws b)) q) < length (Q q)"
    using coreD(3)[OF assms(1), of b] assms(3) by (simp add: ds_ok_def)
  show thesis
    using get_fence_ring[of dn "Q q" "queues aws" q "fences (bo_of aws b)", OF r a] users_done_named[OF assms(1,2), of b q] fence gone
    unfolding named_job_def by blast
qed

lemma bo_wait_queue_spec:
  assumes c: "core dn Q U V R aws" and d: "down_closed dn Q R" and v: "view_ok dn aws g"
    and m: "valid_fence_mask (fences (bo_of aws b)) q" and r: "bo_wait_queue g b q aws = (ok, aws')"
  shows "core dn Q U V R aws'" "view_ok dn aws' g" "ok \<Longrightarrow> users_done dn Q U q b"
    "p \<noteq> q \<Longrightarrow> valid_fence_mask (fences (bo_of aws' b)) p = valid_fence_mask (fences (bo_of aws b)) p"
proof -
  have "core dn Q U V R aws' \<and> view_ok dn aws' g \<and> (ok \<longrightarrow> users_done dn Q U q b)
    \<and> (\<forall>p. p \<noteq> q \<longrightarrow> valid_fence_mask (fences (bo_of aws' b)) p = valid_fence_mask (fences (bo_of aws b)) p)"
    using c d m
  proof (cases rule: ring_lookup)
    case (fence slot f)
    obtain idle aws1 where w: "amdgpu_fence_wait g True f aws = (idle, aws1)" by fastforce
    note s = core_fence_wait[OF c v w]
    have q: "amdgpu_bo_fence_query g (RingSlot q slot) aws = (if idle then (True, clear_ptr (RingSlot q slot) aws1) else (False, aws1))"
      using fence(2) w by (simp add: amdgpu_bo_fence_query_def)
    show ?thesis
    proof (cases idle)
      case True
      then have "f \<in> dn" by (rule s(2))
      then have "core dn Q U V R (drop_bo_queue b q (clear_ptr (RingSlot q slot) aws1))"
        using core_drop[OF core_clear_ring[OF s(1)]] fence(2,3) s(4) by simp
      then show ?thesis using r True fence(1,3) q \<open>f \<in> dn\<close> s(3,5)
        by (auto simp: bo_wait_queue_def view_ok_def)
    next
      case False
      then show ?thesis using r fence(1) q s by (auto simp: bo_wait_queue_def)
    qed
  next
    case gone
    have "ok" "aws' = drop_bo_queue b q aws" using r gone(1) by (auto simp: bo_wait_queue_def update_fences_drop)
    then show ?thesis using core_drop[OF c, of q b] gone(2) v by (auto simp: view_ok_def)
  qed
  then show "core dn Q U V R aws'" "view_ok dn aws' g" "ok \<Longrightarrow> users_done dn Q U q b"
    "p \<noteq> q \<Longrightarrow> valid_fence_mask (fences (bo_of aws' b)) p = valid_fence_mask (fences (bo_of aws b)) p" by auto
qed

lemma bo_wait_queues_spec:
  assumes "core dn Q U V R aws" "down_closed dn Q R" "view_ok dn aws g" "distinct ps"
    and "\<forall>q\<in>set ps. valid_fence_mask (fences (bo_of aws b)) q" "bo_wait_queues g b ps aws = (ok, aws')"
  shows "core dn Q U V R aws' \<and> view_ok dn aws' g \<and> (ok \<longrightarrow> (\<forall>q\<in>set ps. users_done dn Q U q b))"
  using assms
proof (induction ps arbitrary: aws)
  case (Cons q ps)
  obtain ok1 aws1 where r: "bo_wait_queue g b q aws = (ok1, aws1)" by fastforce
  note s = bo_wait_queue_spec[OF Cons.prems(1-3) _ r]
  have q: "valid_fence_mask (fences (bo_of aws b)) q" using Cons.prems by simp
  show ?case
  proof (cases ok1)
    case True
    then have w: "bo_wait_queues g b ps aws1 = (ok, aws')" using Cons.prems r by simp
    have "\<forall>p\<in>set ps. valid_fence_mask (fences (bo_of aws1 b)) p"
      using s(4)[OF q] Cons.prems by (metis distinct.simps(2) list.set_intros(2))
    then have "core dn Q U V R aws' \<and> view_ok dn aws' g \<and> (ok \<longrightarrow> (\<forall>q\<in>set ps. users_done dn Q U q b))"
      using Cons.IH[OF s(1)[OF q] Cons.prems(2) s(2)[OF q] _ _ w] Cons.prems(4) by simp
    then show ?thesis using s(3)[OF q True] by simp
  next
    case False
    then show ?thesis using s(1,2)[OF q] Cons.prems r by simp
  qed
qed simp

text \<open>A successful wait on the fences: all users of the buffer are done.\<close>

definition on_fences :: "cs_bo \<Rightarrow> bool" where
  "on_fences bo \<longleftrightarrow> cs_bo_type bo \<in> {AMDGPU_BO_SLAB_ENTRY, AMDGPU_BO_SPARSE} \<or> \<not> is_shared bo \<and> \<not> slab_has_busy_alt_fences bo"

lemma query_alt_spec:
  assumes "core dn Q U V R aws" "down_closed dn Q R" "view_ok dn aws g" "alt_fence (bo_of aws b) = Some f"
    and "amdgpu_bo_fence_query g (AltFence b) aws = (ok, aws')"
  shows "core dn Q U V R aws'" "ok \<Longrightarrow> f \<in> dn"
proof -
  obtain idle aws1 where w: "amdgpu_fence_wait g True f aws = (idle, aws1)" by fastforce
  note s = core_fence_wait[OF assms(1,3) w]
  have e: "(ok, aws') = (if idle then (True, clear_ptr (AltFence b) aws1) else (False, aws1))"
    using assms(4,5) w by (simp add: amdgpu_bo_fence_query_def)
  show "core dn Q U V R aws'" using e s(1) core_clear_alt[OF s(1) assms(2), of b f] assms(4) s(2,5) by (cases idle) auto
  show "ok \<Longrightarrow> f \<in> dn" using e s(2) by (cases idle) auto
qed

lemma core_bo_wait:
  assumes c: "core dn Q U V R aws" and d: "down_closed dn Q R" and v: "view_ok dn aws g"
    and r: "amdgpu_bo_wait g k ds b aws = (ok, aws')"
  shows "core dn Q U V R aws'"
    and "ok \<Longrightarrow> on_fences (bo_of aws b) \<Longrightarrow> users_done dn Q U q b \<and> (\<forall>f. V f b \<longrightarrow> f \<in> dn)"
proof -
  let ?bo = "bo_of aws b"
  obtain ok1 aws1 where w: "bo_wait_queues g b (foreach_bit (valid_fence_mask (fences ?bo))) aws = (ok1, aws1)" by fastforce
  have s: "core dn Q U V R aws1 \<and> view_ok dn aws1 g \<and> (ok1 \<longrightarrow> (\<forall>q\<in>set (foreach_bit (valid_fence_mask (fences ?bo))). users_done dn Q U q b))"
    by (rule bo_wait_queues_spec[OF c d v _ _ w]) simp_all
  have u: "users_done dn Q U q b" if ok1 for q
    using s that users_done_invalid[OF c, of b q] coreD(3)[OF c, of b] by (auto simp: ds_ok_def)
  have v1: "V f b \<Longrightarrow> f \<in> dn \<or> (\<exists>a. alt_fence (bo_of aws1 b) = Some a \<and> (f, a) \<in> R)" for f
    using coreD(5)[of dn Q U V R aws1] s by blast
  consider (busy) "\<not> ok" "aws' = aws"
    | (kernel) "aws' = update_bo b (slab_has_busy_alt_fences_update (\<lambda>_. False)) aws" "\<not> on_fences ?bo"
    | (queue) "\<not> ok1" "\<not> ok" "aws' = aws1"
    | (alt) f where "ok1" "alt_fence (bo_of aws1 b) = Some f" "amdgpu_bo_fence_query g (AltFence b) aws1 = (ok, aws')"
    | (none) "ok1" "alt_fence (bo_of aws1 b) = None" "aws' = aws1"
  proof (cases "num_active_ioctls ?bo = 0 \<and> on_fences ?bo")
    case True
    then have "(ok, aws') = (if \<not> ok1 then (False, aws1) else if alt_fence (bo_of aws1 b) \<noteq> None
        then amdgpu_bo_fence_query g (AltFence b) aws1 else (True, aws1))"
      using r w by (auto simp: amdgpu_bo_wait_def on_fences_def Let_def)
    then show thesis using queue alt none by (cases ok1; cases "alt_fence (bo_of aws1 b)") auto
  next
    case False
    then have "amdgpu_bo_wait g k ds b aws = (if num_active_ioctls ?bo = 0 \<and> \<not> ds \<and> k
        then (True, update_bo b (slab_has_busy_alt_fences_update (\<lambda>_. False)) aws) else (False, aws))"
      by (auto simp: amdgpu_bo_wait_def on_fences_def Let_def)
    then show thesis using r busy kernel False by (cases "num_active_ioctls ?bo = 0 \<and> \<not> ds \<and> k") auto
  qed
  then have "core dn Q U V R aws' \<and> (ok \<longrightarrow> on_fences ?bo \<longrightarrow> users_done dn Q U q b \<and> (\<forall>f. V f b \<longrightarrow> f \<in> dn))"
  proof cases
    case kernel
    then show ?thesis using core_same[OF c, of aws'] coreD(1,2)[OF c] by (simp add: sig_ok_def)
  next
    case (alt f)
    note t = query_alt_spec[OF conjunct1[OF s] d conjunct1[OF conjunct2[OF s]] alt(2,3)]
    have "(h, f) \<in> R \<Longrightarrow> f \<in> dn \<Longrightarrow> h \<in> dn" for h using d unfolding down_closed_def by blast
    then show ?thesis using t u[OF alt(1)] v1 alt(2) by auto
  next
    case none
    then show ?thesis using s u v1 by auto
  qed (use c s in auto)
  then show "core dn Q U V R aws'"
    and "ok \<Longrightarrow> on_fences (bo_of aws b) \<Longrightarrow> users_done dn Q U q b \<and> (\<forall>f. V f b \<longrightarrow> f \<in> dn)" by auto
qed

text \<open>The other critical sections.\<close>

lemma get_syncobjs_queues_core:
  assumes "core dn Q U V R aws" "down_closed dn Q R" "view_ok dn aws g" "distinct ps"
    and "\<forall>q\<in>set ps. valid_fence_mask (fences (bo_of aws b)) q" "get_syncobjs_queues g b ps out aws = (out', aws')"
  shows "core dn Q U V R aws' \<and> view_ok dn aws' g"
  using assms
proof (induction ps arbitrary: aws out)
  case (Cons q ps)
  note c = Cons.prems(1) and d = Cons.prems(2) and v = Cons.prems(3)
  have q: "valid_fence_mask (fences (bo_of aws b)) q" and ps: "distinct ps" "q \<notin> set ps" using Cons.prems by auto
  have dropped: "\<forall>p\<in>set ps. valid_fence_mask (fences (bo_of (drop_bo_queue b q x) b)) p" if "bo_of x = bo_of aws" for x
    using Cons.prems(5) ps that by auto
  show ?case using c d q
  proof (cases rule: ring_lookup)
    case (fence slot f)
    obtain idle aws1 where w: "amdgpu_fence_wait g True f aws = (idle, aws1)" by fastforce
    note s = core_fence_wait[OF c v w]
    show ?thesis
    proof (cases idle)
      case True
      let ?x = "clear_ptr (RingSlot q slot) aws1"
      have "core dn Q U V R (drop_bo_queue b q ?x)"
        using core_drop[OF core_clear_ring[OF s(1)]] fence(2,3) s(2,4) True by simp
      moreover have "view_ok dn (drop_bo_queue b q ?x) g" using s(3) by (simp add: view_ok_def)
      moreover have "get_syncobjs_queues g b ps out (drop_bo_queue b q ?x) = (out', aws')"
        using Cons.prems(6) fence(1,2) w True by simp
      ultimately show ?thesis using Cons.IH[OF _ d] ps(1) dropped[of ?x] s(5) by simp
    next
      case False
      then have "get_syncobjs_queues g b ps (out @ [f]) aws1 = (out', aws')" using Cons.prems(6) fence(1,2) w by simp
      then show ?thesis using Cons.IH[OF s(1) d s(3) ps(1)] Cons.prems(5) s(5) by simp
    qed
  next
    case gone
    have "core dn Q U V R (drop_bo_queue b q aws)" using core_drop[OF c] gone(2) by blast
    moreover have "get_syncobjs_queues g b ps out (drop_bo_queue b q aws) = (out', aws')"
      using Cons.prems(6) gone(1) by (simp add: update_fences_drop)
    moreover have "view_ok dn (drop_bo_queue b q aws) g" using v by (simp add: view_ok_def)
    ultimately show ?thesis using Cons.IH[OF _ d _ ps(1) dropped[OF refl]] by blast
  qed
qed simp

lemma core_get_syncobjs:
  assumes c: "core dn Q U V R aws" and d: "down_closed dn Q R" and v: "view_ok dn aws g"
    and r: "amdgpu_bo_get_syncobjs g b aws = (out, aws')"
  shows "core dn Q U V R aws'"
proof -
  obtain out1 aws1 where w: "get_syncobjs_queues g b (foreach_bit (valid_fence_mask (fences (bo_of aws b)))) [] aws = (out1, aws1)"
    by fastforce
  have s: "core dn Q U V R aws1 \<and> view_ok dn aws1 g"
    by (rule get_syncobjs_queues_core[OF c d v _ _ w]) simp_all
  show ?thesis
  proof (cases "alt_fence (bo_of aws1 b)")
    case None
    then show ?thesis using r w s by (simp add: amdgpu_bo_get_syncobjs_def)
  next
    case (Some f)
    obtain idle aws2 where w2: "amdgpu_fence_wait g True f aws1 = (idle, aws2)" by fastforce
    note t = core_fence_wait[OF conjunct1[OF s] conjunct2[OF s] w2]
    have "aws' = (if idle then clear_ptr (AltFence b) aws2 else aws2)"
      using r w Some w2 by (auto simp: amdgpu_bo_get_syncobjs_def)
    then show ?thesis using t core_clear_alt[OF t(1) d, of b f] Some by (cases idle) auto
  qed
qed

lemma core_relock_alt:
  assumes "core dn Q U V R aws" "down_closed dn Q R" "f \<in> dn"
  shows "core dn Q U V R (bo_fence_wait_relock f (AltFence b) aws)"
  using assms core_clear_alt[OF assms(1,2), of b f] by (simp add: bo_fence_wait_relock_def)

lemma core_relock_ring:
  assumes "core dn Q U V R aws" "f \<in> dn"
  shows "core dn Q U V R (bo_fence_wait_relock f (RingSlot q i) aws)"
  using assms core_clear_ring[OF assms(1), of q i f] by (simp add: bo_fence_wait_relock_def)

lemma core_wait_oldest:
  assumes c: "core dn Q U V R aws" and v: "view_ok dn aws g" "view_ok dn aws g'"
    and r: "submit_wait_oldest g g' q aws = (True, aws')"
  shows "core dn Q U V R aws'"
proof (cases "ring (queues aws q) (unat (latest_seq_no (queues aws q) + 1) mod AMDGPU_FENCE_RING_SIZE)")
  case None
  then show ?thesis using r c by (simp add: submit_wait_oldest_def Let_def)
next
  case (Some f)
  let ?p = "RingSlot q (unat (latest_seq_no (queues aws q) + 1) mod AMDGPU_FENCE_RING_SIZE)"
  obtain idle aws1 where w: "amdgpu_fence_wait g True f aws = (idle, aws1)" by fastforce
  obtain ok aws2 where w2: "amdgpu_fence_wait g' False f aws1 = (ok, aws2)" by fastforce
  note s = core_fence_wait[OF c v(1) w]
  have v1: "view_ok dn aws1 g'" using fence_wait_spec(3)[OF coreD(2)[OF c] v(1) w] v(2) by simp
  note t = core_fence_wait[OF s(1) v1 w2]
  have "idle \<and> aws' = clear_ptr ?p aws1 \<or> ok \<and> aws' = clear_ptr ?p aws2"
    using r Some w w2 by (simp add: submit_wait_oldest_def Let_def split: if_splits)
  then show ?thesis
    using core_clear_ring[OF s(1), of q _ f] core_clear_ring[OF t(1), of q _ f] Some s(2,4) t(2,4) by metis
qed

text \<open>After it the slot of the new fence is free, as \<open>submit_guard\<close> asks.\<close>

lemma fence_wait_queues: "amdgpu_fence_wait g query f aws = (r, aws') \<Longrightarrow> queues aws' = queues aws"
  by (auto simp: amdgpu_fence_wait_def Let_def split: if_splits option.splits)

lemma wait_oldest_slot:
  assumes "submit_wait_oldest g g' q aws = (r, aws')"
  shows "ring (queues aws' q) (unat (latest_seq_no (queues aws' q) + 1) mod AMDGPU_FENCE_RING_SIZE) = None"
  using assms fence_wait_queues
  by (fastforce simp: submit_wait_oldest_def Let_def split: option.splits prod.splits if_splits)

text \<open>The lists have no buffer twice, as \<open>submit_guard\<close> asks, when each buffer is in the list of its type.\<close>

lemma all_bufs_distinct:
  assumes "csc_ok bos csc" "\<And>l x. x \<in> set (buffers (buffer_lists csc l)) \<Longrightarrow> get_buf_list_idx (cs_bo_type (bos (cs_bo x))) = l"
  shows "distinct (map cs_bo (all_bufs csc))"
proof -
  have "cs_bo ` set (buffers (buffer_lists csc l)) \<inter> cs_bo ` set (buffers (buffer_lists csc k)) = {}" if "l \<noteq> k" for l k
  proof -
    have "get_buf_list_idx (cs_bo_type (bos b)) = l" if "b \<in> cs_bo ` set (buffers (buffer_lists csc l))" for b l
      using that assms(2) by blast
    then show ?thesis using that by blast
  qed
  moreover have "LIST_SLAB_ENTRY \<noteq> LIST_SPARSE" "LIST_SLAB_ENTRY \<noteq> LIST_REAL" "LIST_SPARSE \<noteq> LIST_REAL"
    by (simp_all add: LIST_SLAB_ENTRY_def LIST_SPARSE_def LIST_REAL_def)
  ultimately show ?thesis
    using assms(1) unfolding csc_ok_def all_bufs_def real_list_def by (simp add: Int_Un_distrib)
qed

lemma tracked_covers:
  "tracked dn Q fs q i \<Longrightarrow> covers (jobs_of Q) fs' fs q \<Longrightarrow> tracked dn Q fs' q i"
  by (auto simp: tracked_def covers_def)

lemma core_merge:
  assumes c: "core dn Q U V R aws"
  shows "core dn Q U V R (merge_bo_fences b bk aws)"
proof -
  have cnt: "counts (jobs_of Q) (queues aws)" using coreD(1)[OF c] by (rule rings_ok_counts)
  note s = merge_fences_spec[OF cnt coreD(3)[OF c, of b] coreD(3)[OF c, of bk]]
  have o: "fences (bo_of (merge_bo_fences b bk aws) x) = fences (bo_of aws x)" if "x \<noteq> bk" for x
    using that by (simp add: merge_bo_fences_def)
  have a: "alt_fence (bo_of (merge_bo_fences b bk aws) x) = alt_fence (bo_of aws x)" for x
    by (simp add: merge_bo_fences_def)
  have "ds_ok (jobs_of Q) (fences (bo_of (merge_bo_fences b bk aws) x))
      \<and> covers (jobs_of Q) (fences (bo_of (merge_bo_fences b bk aws) x)) (fences (bo_of aws x)) q" for x q
    using s(1,2) o[of x] coreD(3)[OF c, of x] by (cases "x = bk") simp_all
  moreover have "rings_ok dn Q (queues (merge_bo_fences b bk aws))" "sig_ok dn (merge_bo_fences b bk aws)"
    using coreD(1,2)[OF c] by (simp_all add: merge_bo_fences_def sig_ok_def)
  ultimately show ?thesis using coreD(4,5)[OF c] tracked_covers unfolding core_def a by blast
qed

lemma fold_ioctls:
  fixes xs :: "amdgpu_cs_buffer list" and aws :: fence_winsys and h :: "int \<Rightarrow> int"
  defines "r \<equiv> fold (\<lambda>x. update_bo (cs_bo x) (num_active_ioctls_update h)) xs aws"
  shows "queues r = queues aws" "fence_of r = fence_of aws"
    "fences (bo_of r b) = fences (bo_of aws b)" "alt_fence (bo_of r b) = alt_fence (bo_of aws b)"
  unfolding r_def by (induction xs arbitrary: aws) auto

lemma inc_ioctls_simps [simp]: "queues (inc_ioctls csc aws) = queues aws" "fence_of (inc_ioctls csc aws) = fence_of aws"
  unfolding inc_ioctls_def fold_ioctls by simp_all

lemma core_inc_ioctls: "core dn Q U V R aws \<Longrightarrow> core dn Q U V R (inc_ioctls csc aws)"
  unfolding core_def inc_ioctls_def sig_ok_def fold_ioctls by simp

lemma core_submit_finish:
  assumes "core dn Q U V R aws" "accepted A" "submit_finish A f csc rq (aws, csc') = (aws', csc'')"
  shows "core dn Q U V R aws'"
  using core_same[OF assms(1), of aws'] submit_finish_spec[OF assms(2,3)] coreD(1,2)[OF assms(1)] by (simp add: sig_ok_def)

lemma core_mono: "core dn Q U V R aws \<Longrightarrow> dn \<subseteq> dn' \<Longrightarrow> core dn' Q U V R aws"
  unfolding core_def rings_ok_def sig_ok_def tracked_def using ring_ok_mono by blast

end
