(* ===== verification/CsSystemProps.thy ===== *)
theory CsSystemProps
  imports CsSystem
begin

text \<open>
  The invariant of the submission system and what follows from it: a job that may run has all earlier
  users of the buffers it synchronises with behind it, on any queue, and a buffer reported idle has no
  unfinished user. The last theorems start from any reachable state and say what happens in the runs that the
  guards of \<open>cs_step\<close> exclude.
\<close>

section \<open>The order of the jobs\<close>

definition ordered :: "cs_job list \<Rightarrow> (nat \<times> nat) set" where
  "ordered js = {(x, y). \<exists>J\<in>set js. y = job_fence J \<and> x \<in> job_waits J}"

abbreviation before :: "cs_job list \<Rightarrow> (nat \<times> nat) set" where
  "before js \<equiv> (ordered js)\<^sup>*"

definition uses :: "cs_job list \<Rightarrow> nat \<Rightarrow> nat \<Rightarrow> nat \<Rightarrow> bool" where
  "uses js q i b \<longleftrightarrow> i < length (qjobs js q) \<and> b \<in> job_bos (qjobs js q ! i)"

definition alt_uses :: "cs_job list \<Rightarrow> nat \<Rightarrow> nat \<Rightarrow> bool" where
  "alt_uses js f b \<longleftrightarrow> (\<exists>J\<in>set js. job_queue J = None \<and> job_fence J = f \<and> b \<in> job_bos J)"

text \<open>Consecutive jobs of a queue are ordered, unless the earlier was done when the later came.\<close>

definition chained :: "nat set \<Rightarrow> cs_job list \<Rightarrow> bool" where
  "chained dn js \<longleftrightarrow> (\<forall>q i. Suc i < length (qfences js q) \<longrightarrow>
    qfences js q ! i \<in> dn \<or> (qfences js q ! i, qfences js q ! Suc i) \<in> ordered js)"

definition closed_jobs :: "nat set \<Rightarrow> cs_job list \<Rightarrow> bool" where
  "closed_jobs dn js \<longleftrightarrow> (\<forall>x y. (x, y) \<in> ordered js \<longrightarrow> y \<in> dn \<longrightarrow> x \<in> dn)"

definition synced :: "nat set \<Rightarrow> cs_job list \<Rightarrow> bool" where
  "synced dn js \<longleftrightarrow> (\<forall>i j b. i < j \<longrightarrow> j < length js \<longrightarrow> b \<in> job_bos (js ! i) \<longrightarrow> b \<in> job_sync (js ! j) \<longrightarrow>
    job_fence (js ! i) \<in> dn \<or> (\<exists>d\<in>job_waits (js ! j). (job_fence (js ! i), d) \<in> before js))"

definition waits_ok :: "nat set \<Rightarrow> cs_job list \<Rightarrow> (nat \<times> nat \<times> nat \<times> nat) set \<Rightarrow> bool" where
  "waits_ok dn js W \<longleftrightarrow> (\<forall>b q slot f. (b, q, slot, f) \<in> W \<longrightarrow> (\<exists>j<length (qfences js q). qfences js q ! j = f
    \<and> (\<forall>i<length (qfences js q). uses js q i b \<longrightarrow> qfences js q ! i \<in> dn \<or> i \<le> j)))"

definition cs_inv :: "cs_sys \<Rightarrow> bool" where
  "cs_inv s \<longleftrightarrow> core (finished s) (qfences (jobs s)) (uses (jobs s)) (alt_uses (jobs s)) (before (jobs s)) (ws s)
    \<and> chained (finished s) (jobs s) \<and> closed_jobs (finished s) (jobs s) \<and> synced (finished s) (jobs s)
    \<and> waits_ok (finished s) (jobs s) (waits s)"

lemma before_done:
  assumes "closed_jobs dn js" "(x, y) \<in> before js" "y \<in> dn"
  shows "x \<in> dn"
  using assms(2,3) by (induction rule: converse_rtrancl_induct) (use assms(1) in \<open>auto simp: closed_jobs_def\<close>)

lemma queue_before:
  assumes "chained dn js" "closed_jobs dn js" "i \<le> j" "j < length (qfences js q)"
  shows "qfences js q ! i \<in> dn \<or> (qfences js q ! i, qfences js q ! j) \<in> before js"
  using assms(3,4)
proof (induction j rule: dec_induct)
  case (step j)
  let ?Q = "qfences js q"
  have o: "?Q ! j \<in> dn \<or> (?Q ! j, ?Q ! Suc j) \<in> ordered js" using assms(1) step.prems unfolding chained_def by blast
  have "?Q ! i \<in> dn \<or> (?Q ! i, ?Q ! j) \<in> before js" using step by simp
  then show ?case using o before_done[OF assms(2), of "?Q ! i" "?Q ! j"] by (auto intro: rtrancl_into_rtrancl)
qed simp

lemma down_closedI:
  assumes "chained dn js" "closed_jobs dn js"
  shows "down_closed dn (qfences js) (before js)"
  unfolding down_closed_def using queue_before[OF assms] before_done[OF assms(2)] by blast

text \<open>A new job.\<close>

lemma ordered_snoc: "ordered (js @ [J]) = ordered js \<union> {(x, job_fence J) | x. x \<in> job_waits J}"
  by (auto simp: ordered_def)

lemma before_snoc: "x \<in> before js \<Longrightarrow> x \<in> before (js @ [J])"
  using rtrancl_mono[of "ordered js" "ordered (js @ [J])"] by (auto simp: ordered_snoc)

lemma qjobs_snoc: "qjobs (js @ [J]) q = qjobs js q @ (if job_queue J = Some q then [J] else [])"
  by (simp add: qjobs_def)

lemma qfences_snoc: "qfences (js @ [J]) q = qfences js q @ (if job_queue J = Some q then [job_fence J] else [])"
  by (simp add: qfences_def qjobs_snoc)

lemma length_qfences [simp]: "length (qfences js q) = length (qjobs js q)"
  by (simp add: qfences_def)

lemma chained_snoc:
  assumes "chained dn js"
    and "\<And>q. job_queue J = Some q \<Longrightarrow> qfences js q \<noteq> [] \<Longrightarrow> last (qfences js q) \<in> dn \<or> last (qfences js q) \<in> job_waits J"
  shows "chained dn (js @ [J])"
  unfolding chained_def
proof (intro allI impI)
  fix q i assume i: "Suc i < length (qfences (js @ [J]) q)"
  show "qfences (js @ [J]) q ! i \<in> dn \<or> (qfences (js @ [J]) q ! i, qfences (js @ [J]) q ! Suc i) \<in> ordered (js @ [J])"
  proof (cases "Suc i < length (qfences js q)")
    case True
    then show ?thesis using assms(1) by (auto simp: chained_def qfences_snoc nth_append ordered_snoc)
  next
    case False
    then have q: "job_queue J = Some q" "Suc i = length (qfences js q)"
      using i by (auto simp: qfences_snoc split: if_splits)
    then have "qfences js q \<noteq> []" "last (qfences js q) = qfences js q ! i"
      by (auto simp: last_conv_nth simp del: length_qfences) (metis diff_Suc_1 last_conv_nth length_greater_0_conv zero_less_Suc)
    then show ?thesis using assms(2)[OF q(1)] q by (auto simp: qfences_snoc nth_append ordered_snoc)
  qed
qed

lemma closed_jobs_snoc: "closed_jobs dn js \<Longrightarrow> job_fence J \<notin> dn \<Longrightarrow> closed_jobs dn (js @ [J])"
  by (auto simp: closed_jobs_def ordered_snoc)

lemma synced_snoc:
  assumes "synced dn js" "\<And>I b. I \<in> set js \<Longrightarrow> b \<in> job_bos I \<Longrightarrow> b \<in> job_sync J
    \<Longrightarrow> job_fence I \<in> dn \<or> (\<exists>d\<in>job_waits J. (job_fence I, d) \<in> before js)"
  shows "synced dn (js @ [J])"
  unfolding synced_def
proof (intro allI impI)
  fix i j b assume a: "i < j" "j < length (js @ [J])" "b \<in> job_bos ((js @ [J]) ! i)" "b \<in> job_sync ((js @ [J]) ! j)"
  have i: "i < length js" "(js @ [J]) ! i = js ! i" using a by (auto simp: nth_append)
  have "job_fence (js ! i) \<in> dn \<or> (\<exists>d\<in>job_waits ((js @ [J]) ! j). (job_fence (js ! i), d) \<in> before js)"
  proof (cases "j < length js")
    case True
    then show ?thesis using assms(1) a i unfolding synced_def by (simp add: nth_append)
  next
    case False
    then have "j = length js" using a by simp
    then show ?thesis using assms(2)[of "js ! i" b] a i by simp
  qed
  then show "job_fence ((js @ [J]) ! i) \<in> dn \<or> (\<exists>d\<in>job_waits ((js @ [J]) ! j). (job_fence ((js @ [J]) ! i), d) \<in> before (js @ [J]))"
    unfolding i(2) using before_snoc by blast
qed

section \<open>A submission keeps what is known\<close>

lemma age_grows: "age n w < n \<Longrightarrow> age (Suc n) w < Suc n" "i + age n w < n \<Longrightarrow> i + age (Suc n) w < Suc n"
  using age_Suc[of n w] by linarith+

text \<open>What a longer queue keeps: \<open>Q'\<close> has one job more on queue \<open>p\<close>, and buffers either keep their sequence
  numbers or get the one of the new job.\<close>

lemma ds_ok_snoc:
  assumes "ds_ok (jobs_of Q) fs"
  shows "ds_ok (jobs_of (Q(p := Q p @ [f]))) fs"
    and "p < AMDGPU_MAX_QUEUES \<Longrightarrow> ds_ok (jobs_of (Q(p := Q p @ [f]))) (set_seq_no p (word_of_nat (Suc (length (Q p)))) fs)"
  using assms age_grows(1) age_own[of "Suc (length (Q p))"] by (auto simp: ds_ok_def set_seq_no_def simp del: age_own of_nat_Suc)

lemma tracked_snoc:
  assumes "tracked dn Q fs q i" "i < length (Q q)"
  shows "tracked dn (Q(p := Q p @ [f])) fs q i"
    "tracked dn (Q(p := Q p @ [f])) (set_seq_no p (word_of_nat (Suc (length (Q p)))) fs) q i"
  using assms age_grows(2)[of i "length (Q p)" "seq_no fs p"] age_own[of "Suc (length (Q p))"]
  by (auto simp: tracked_def set_seq_no_def nth_append simp del: age_own of_nat_Suc)

lemma tracked_own: "tracked dn (Q(p := Q p @ [f])) (set_seq_no p (word_of_nat (Suc (length (Q p)))) fs) p (length (Q p))"
  using age_own[of "Suc (length (Q p))"] by (simp add: tracked_def set_seq_no_def del: age_own of_nat_Suc)

lemma submit_preI:
  assumes "cs_inv s" "submit_ready s A csc"
  shows "submit_pre (qfences (jobs s)) A csc (ws s)"
proof -
  have c: "core (finished s) (qfences (jobs s)) (uses (jobs s)) (alt_uses (jobs s)) (before (jobs s)) (ws s)"
    using assms(1) by (simp add: cs_inv_def)
  have "latest_seq_no (queues (ws s) (sa_queue A)) + 1 = word_of_nat (Suc (length (qfences (jobs s) (sa_queue A))))"
    using rings_ok_counts[OF coreD(1)[OF c]] by (simp add: counts_def add.commute)
  then have "unat (latest_seq_no (queues (ws s) (sa_queue A)) + 1) mod AMDGPU_FENCE_RING_SIZE
      = Suc (length (qfences (jobs s) (sa_queue A))) mod 32"
    using unat_mod_ring[of "Suc (length (qfences (jobs s) (sa_queue A)))"] by (simp only: AMDGPU_FENCE_RING_SIZE_def)
  then show ?thesis using assms(2) coreD(3)[OF c] by (auto simp: submit_pre_def submit_ready_def)
qed

lemma core_submit:
  assumes c: "core dn Q U V R aws" and v: "view_ok dn aws g" and pre: "submit_pre Q A csc aws"
    and run: "submit_locked A g f csc aws = Some (aws', csc', rq)"
    and alt: "is_alt A \<Longrightarrow> \<forall>x\<in>set (all_bufs csc). synchronised x"
    and U: "\<And>q i b. U' q i b \<Longrightarrow> i < length (Q q) \<and> U q i b
      \<or> \<not> is_alt A \<and> q = sa_queue A \<and> i = length (Q q) \<and> b \<in> cs_bo ` set (all_bufs csc) \<union> slab_reals aws csc"
    and V: "\<And>h b. V' h b \<Longrightarrow> V h b \<or> is_alt A \<and> h = f \<and> b \<in> cs_bo ` set (all_bufs csc)"
    and R: "R \<subseteq> R'" "trans R'" "(f, f) \<in> R'" "\<And>d. d \<in> fst ` set (rq_dependencies rq) \<Longrightarrow> (d, f) \<in> R'"
  shows "core dn (if is_alt A then Q else Q(sa_queue A := Q (sa_queue A) @ [f])) U' V' R' aws'"
proof -
  note s = submit_locked_spec[OF coreD(1,2)[OF c] v pre run]
  let ?p = "sa_queue A" and ?Q = "if is_alt A then Q else Q(sa_queue A := Q (sa_queue A) @ [f])"
  let ?m = "word_of_nat (Suc (length (Q ?p))) :: uint_seq_no"
  obtain M where M: "cs_bo ` set (all_bufs csc) \<union> slab_reals aws csc \<subseteq> M"
    and fs: "\<And>b. fences (bo_of aws' b) = (if b \<in> M \<and> \<not> is_alt A then set_seq_no ?p ?m (fences (bo_of aws b)) else fences (bo_of aws b))"
    using s(3) by blast
  have p: "\<not> is_alt A \<Longrightarrow> ?p < AMDGPU_MAX_QUEUES" using pre by (simp add: submit_pre_def)
  have ds: "ds_ok (jobs_of ?Q) (fences (bo_of aws' b))" for b
    using coreD(3)[OF c, of b] ds_ok_snoc[of Q "fences (bo_of aws b)" ?p f] p unfolding fs by (cases "is_alt A") auto
  have tr: "tracked dn ?Q (fences (bo_of aws' b)) q i" if "U' q i b" for q i b
    using U[OF that]
  proof (elim disjE conjE)
    assume "i < length (Q q)" "U q i b"
    then have "tracked dn Q (fences (bo_of aws b)) q i" by (rule coreD(4)[OF c])
    then show ?thesis
      using tracked_snoc[of dn Q "fences (bo_of aws b)" q i ?p f] \<open>i < length (Q q)\<close> unfolding fs by (cases "is_alt A") auto
  next
    assume "\<not> is_alt A" "q = ?p" "i = length (Q q)" "b \<in> cs_bo ` set (all_bufs csc) \<union> slab_reals aws csc"
    then show ?thesis using M tracked_own[of dn Q ?p f "fences (bo_of aws b)"] unfolding fs by auto
  qed
  have va: "h \<in> dn \<or> (\<exists>a. alt_fence (bo_of aws' b) = Some a \<and> (h, a) \<in> R')" if "V' h b" for h b
  proof (cases "is_alt A \<and> b \<in> cs_bo ` set (all_bufs csc)")
    case True
    then have e: "alt_fence (bo_of aws' b) = Some f" using s(4) by simp
    have "h \<in> dn \<or> (h, f) \<in> R'" if "V h b"
    proof -
      obtain x where x: "x \<in> set (all_bufs csc)" "cs_bo x = b" "synchronised x" using True alt by auto
      then have "(a, f) \<in> R'" if "alt_fence (bo_of aws b) = Some a" for a using s(5) R(4) that by blast
      then show ?thesis using coreD(5)[OF c that] R(1,2) by (meson subsetD transD)
    qed
    then show ?thesis using V[OF that] R(3) e by auto
  next
    case False
    then have "V h b" "alt_fence (bo_of aws' b) = alt_fence (bo_of aws b)" using V[OF that] s(4) by auto
    then show ?thesis using coreD(5)[OF c, of h b] R(1) by auto
  qed
  show ?thesis unfolding core_def using s(1,2) ds tr va by blast
qed

text \<open>The new job waits for every earlier user of a buffer it synchronises with.\<close>

lemma queue_user_waited:
  assumes c: "core dn (qfences js) (uses js) (alt_uses js) (before js) aws" and ch: "chained dn js" "closed_jobs dn js"
    and u: "uses js q i b" and d: "valid_fence_mask ds q" "ds_ok (jobs_of (qfences js)) ds"
    and cov: "covers (jobs_of (qfences js)) ds (fences (bo_of aws b)) q"
  shows "qfences js q ! i \<in> dn \<or> (qfences js q ! i, named_job (qfences js) ds q) \<in> before js"
proof (cases "qfences js q ! i \<in> dn")
  case False
  let ?n = "length (qfences js q)"
  have "i < ?n" using u by (simp add: uses_def)
  then have "tracked dn (qfences js) (fences (bo_of aws b)) q i" using coreD(4)[OF c] u by blast
  then have "i + age ?n (seq_no ds q) < ?n" using False cov by (auto simp: tracked_def covers_def)
  then show ?thesis
    using queue_before[OF ch, of i "?n - 1 - age ?n (seq_no ds q)" q] unfolding named_job_def by simp
qed simp

lemma new_job_prev:
  assumes inv: "cs_inv s" and v: "view_ok (finished s) (ws s) g" and gd: "submit_guard s A csc"
    and run: "submit_locked A g f csc (ws s) = Some (w, csc', rq)"
    and q: "own_queue A = Some q" "qfences (jobs s) q \<noteq> []"
  shows "last (qfences (jobs s) q) \<in> finished s \<or> last (qfences (jobs s) q) \<in> job_waits (new_job A csc rq f (ws s) (jobs s))"
proof (cases "in_order A (ws s)")
  case True
  then show ?thesis using q by (auto simp: new_job_def job_waits_def own_queue_def split: if_splits)
next
  case False
  have c: "core (finished s) (qfences (jobs s)) (uses (jobs s)) (alt_uses (jobs s)) (before (jobs s)) (ws s)"
    and ready: "submit_ready s A csc" using inv gd by (simp_all add: cs_inv_def submit_guard_def)
  note s = submit_locked_spec[OF coreD(1,2)[OF c] v submit_preI[OF inv ready] run]
  have "sa_type A = KERNELQ" "q = sa_queue A"
    using False q(1) by (cases "sa_type A"; auto simp: in_order_def own_queue_def)+
  then show ?thesis using s(6) q(2) False by (auto simp: in_order_def new_job_def job_waits_def)
qed

lemma same_queue_user_waited:
  assumes "chained dn js" "closed_jobs dn js" "i < length (qfences js q)"
    and "last (qfences js q) \<in> dn \<or> last (qfences js q) \<in> W"
  shows "qfences js q ! i \<in> dn \<or> (\<exists>d\<in>W. (qfences js q ! i, d) \<in> before js)"
proof -
  have ne: "qfences js q \<noteq> []" using assms(3) by (auto simp del: length_qfences)
  have "qfences js q ! i \<in> dn \<or> (qfences js q ! i, last (qfences js q)) \<in> before js"
    using queue_before[OF assms(1,2), of i "length (qfences js q) - 1" q] assms(3) unfolding last_conv_nth[OF ne] by simp
  then show ?thesis using assms(4) before_done[OF assms(2)] by blast
qed

lemma new_job_waits:
  assumes inv: "cs_inv s" and v: "view_ok (finished s) (ws s) g" and gd: "submit_guard s A csc"
    and run: "submit_locked A g f csc (ws s) = Some (w, csc', rq)"
  defines "J \<equiv> new_job A csc rq f (ws s) (jobs s)"
  assumes I: "I \<in> set (jobs s)" "b \<in> job_bos I" "b \<in> job_sync J"
  shows "job_fence I \<in> finished s \<or> (\<exists>d\<in>job_waits J. (job_fence I, d) \<in> before (jobs s))"
proof -
  let ?dn = "finished s" and ?js = "jobs s"
  have c: "core ?dn (qfences ?js) (uses ?js) (alt_uses ?js) (before ?js) (ws s)"
    and ch: "chained ?dn ?js" "closed_jobs ?dn ?js" and ready: "submit_ready s A csc"
    using inv gd by (simp_all add: cs_inv_def submit_guard_def)
  note s = submit_locked_spec[OF coreD(1,2)[OF c] v submit_preI[OF inv ready] run]
  have D: "fst ` set (rq_dependencies rq) \<subseteq> job_waits J" by (auto simp: J_def new_job_def job_waits_def)
  obtain x where x: "x \<in> set (all_bufs csc)" "cs_bo x = b" "synchronised x" using I(3) by (auto simp: J_def new_job_def)
  show ?thesis
  proof (cases "job_queue I")
    case None
    then have "alt_uses ?js (job_fence I) b" using I by (auto simp: alt_uses_def)
    then show ?thesis using coreD(5)[OF c] s(5) x D by blast
  next
    case (Some q)
    then have "I \<in> set (qjobs ?js q)" using I(1) by (simp add: qjobs_def)
    then obtain i where i: "i < length (qjobs ?js q)" "qjobs ?js q ! i = I" by (auto simp: in_set_conv_nth)
    then have u: "uses ?js q i b" and fi: "qfences ?js q ! i = job_fence I" using I(2) by (simp_all add: uses_def qfences_def)
    consider (same) "own_queue A = Some q" | (valid) "own_queue A \<noteq> Some q" "valid_fence_mask (fences (bo_of (ws s) b)) q"
      | (invalid) "\<not> valid_fence_mask (fences (bo_of (ws s) b)) q" by blast
    then show ?thesis
    proof cases
      case same
      have "qfences ?js q \<noteq> []" using i by (auto simp: qfences_def)
      then show ?thesis
        using same_queue_user_waited[OF ch, of i q] new_job_prev[OF inv v gd run same] i(1) unfolding fi J_def by simp
    next
      case valid
      then obtain ds where ds: "valid_fence_mask ds q" "ds_ok (jobs_of (qfences ?js)) ds"
        "covers (jobs_of (qfences ?js)) ds (fences (bo_of (ws s) b)) q"
        "named_job (qfences ?js) ds q \<in> ?dn \<or> named_job (qfences ?js) ds q \<in> fst ` set (rq_dependencies rq)"
        using s(5) x by blast
      show ?thesis using queue_user_waited[OF c ch u ds(1-3)] ds(4) D before_done[OF ch(2)] unfolding fi by blast
    next
      case invalid
      then show ?thesis using users_done_invalid[OF c invalid] u i(1) fi by auto
    qed
  qed
qed

section \<open>The invariant\<close>

lemma cs_invD:
  assumes "cs_inv s"
  shows "core (finished s) (qfences (jobs s)) (uses (jobs s)) (alt_uses (jobs s)) (before (jobs s)) (ws s)"
    "down_closed (finished s) (qfences (jobs s)) (before (jobs s))"
  using assms down_closedI by (auto simp: cs_inv_def)

lemma cs_inv_ws:
  "cs_inv s \<Longrightarrow> core (finished s) (qfences (jobs s)) (uses (jobs s)) (alt_uses (jobs s)) (before (jobs s)) w \<Longrightarrow> cs_inv (s\<lparr>ws := w\<rparr>)"
  by (simp add: cs_inv_def)

lemma uses_new_job:
  "uses (js @ [J]) q i b \<longleftrightarrow> uses js q i b \<or> job_queue J = Some q \<and> i = length (qjobs js q) \<and> b \<in> job_bos J"
  by (auto simp: uses_def qjobs_snoc nth_append)

lemma alt_uses_new_job: "alt_uses (js @ [J]) h b \<longleftrightarrow> alt_uses js h b \<or> job_queue J = None \<and> h = job_fence J \<and> b \<in> job_bos J"
  by (auto simp: alt_uses_def)

lemma waits_ok_snoc:
  assumes "waits_ok dn js W" "\<And>b q slot h. (b, q, slot, h) \<in> W \<Longrightarrow> job_queue J = Some q \<Longrightarrow> b \<notin> job_bos J"
  shows "waits_ok dn (js @ [J]) W"
  unfolding waits_ok_def
proof (intro allI impI)
  fix b q slot f assume w: "(b, q, slot, f) \<in> W"
  then obtain j where j: "j < length (qfences js q)" "qfences js q ! j = f"
    "\<forall>i<length (qfences js q). uses js q i b \<longrightarrow> qfences js q ! i \<in> dn \<or> i \<le> j"
    using assms(1) unfolding waits_ok_def by blast
  show "\<exists>j<length (qfences (js @ [J]) q). qfences (js @ [J]) q ! j = f
    \<and> (\<forall>i<length (qfences (js @ [J]) q). uses (js @ [J]) q i b \<longrightarrow> qfences (js @ [J]) q ! i \<in> dn \<or> i \<le> j)"
  proof (intro exI[of _ j] conjI allI impI)
    fix i assume "uses (js @ [J]) q i b"
    then have "uses js q i b" using assms(2)[OF w] by (auto simp: uses_new_job)
    then show "qfences (js @ [J]) q ! i \<in> dn \<or> i \<le> j" using j(3) by (auto simp: uses_def qfences_snoc nth_append)
  qed (use j in \<open>auto simp: qfences_snoc nth_append\<close>)
qed

lemma cs_inv_submit:
  assumes inv: "cs_inv s" and f: "f \<notin> finished s" and v: "view_ok (finished s) (ws s) g"
    and gd: "submit_guard s A csc" and run: "submit_locked A g f csc (ws s) = Some (w, csc', rq)"
  shows "cs_inv (s\<lparr>ws := w, jobs := jobs s @ [new_job A csc rq f (ws s) (jobs s)], tail := T\<rparr>)"
proof -
  define J where "J = new_job A csc rq f (ws s) (jobs s)"
  let ?js = "jobs s"
  have J: "job_fence J = f" "job_queue J = own_queue A" "fst ` set (rq_dependencies rq) \<subseteq> job_waits J"
    "job_bos J = cs_bo ` set (all_bufs csc) \<union> (if is_alt A then {} else slab_reals (ws s) csc)"
    by (auto simp: J_def new_job_def job_waits_def)
  have Q: "qfences (?js @ [J]) = (if is_alt A then qfences ?js else (qfences ?js)(sa_queue A := qfences ?js (sa_queue A) @ [f]))"
    by (auto simp: fun_eq_iff qfences_snoc J own_queue_def)
  have ready: "submit_ready s A csc" and g: "is_alt A \<Longrightarrow> \<forall>x\<in>set (all_bufs csc). synchronised x" using gd by (auto simp: submit_guard_def)
  have "core (finished s) (qfences (?js @ [J])) (uses (?js @ [J])) (alt_uses (?js @ [J])) (before (?js @ [J])) w"
    unfolding Q
  proof (rule core_submit[OF cs_invD(1)[OF inv] v submit_preI[OF inv ready] run g])
    show "i < length (qfences ?js q) \<and> uses ?js q i b \<or> \<not> is_alt A \<and> q = sa_queue A \<and> i = length (qfences ?js q)
        \<and> b \<in> cs_bo ` set (all_bufs csc) \<union> slab_reals (ws s) csc" if "uses (?js @ [J]) q i b" for q i b
      using that unfolding uses_new_job J(2,4) by (auto simp: uses_def own_queue_def split: if_splits)
    show "alt_uses ?js h b \<or> is_alt A \<and> h = f \<and> b \<in> cs_bo ` set (all_bufs csc)" if "alt_uses (?js @ [J]) h b" for h b
      using that unfolding alt_uses_new_job J by (auto simp: own_queue_def split: if_splits)
    show "before ?js \<subseteq> before (?js @ [J])" using before_snoc by blast
    show "(d, f) \<in> before (?js @ [J])" if "d \<in> fst ` set (rq_dependencies rq)" for d
      using that J(1,3) by (auto simp: ordered_snoc)
  qed (simp_all add: trans_rtrancl)
  moreover have "chained (finished s) (?js @ [J])"
    using inv new_job_prev[OF inv v gd run] J(2) by (intro chained_snoc) (simp_all add: cs_inv_def J_def)
  moreover have "closed_jobs (finished s) (?js @ [J])"
    using inv f by (simp add: cs_inv_def closed_jobs_snoc J(1))
  moreover have "synced (finished s) (?js @ [J])"
    using inv synced_snoc[of "finished s" ?js J] new_job_waits[OF inv v gd run] unfolding J_def cs_inv_def by blast
  moreover have "waits_ok (finished s) (?js @ [J]) (waits s)"
    using inv gd by (intro waits_ok_snoc) (auto simp: cs_inv_def J submit_guard_def own_queue_def split: if_splits)
  ultimately show ?thesis by (simp add: cs_inv_def J_def)
qed

lemma cs_inv_finish:
  assumes inv: "cs_inv s" and f: "\<forall>J\<in>set (jobs s). job_fence J = f \<longrightarrow> job_waits J \<subseteq> finished s"
  shows "cs_inv (s\<lparr>finished := insert f (finished s)\<rparr>)"
proof -
  have "core (insert f (finished s)) (qfences (jobs s)) (uses (jobs s)) (alt_uses (jobs s)) (before (jobs s)) (ws s)"
    by (rule core_mono[OF cs_invD(1)[OF inv]]) blast
  moreover have "closed_jobs (insert f (finished s)) (jobs s)"
    using inv f unfolding cs_inv_def closed_jobs_def ordered_def by blast
  moreover have "chained (insert f (finished s)) (jobs s)" using inv unfolding cs_inv_def chained_def by blast
  moreover have "synced (insert f (finished s)) (jobs s)" using inv unfolding cs_inv_def synced_def by blast
  moreover have "waits_ok (insert f (finished s)) (jobs s) (waits s)"
    using inv unfolding cs_inv_def waits_ok_def by (metis insertCI)
  ultimately show ?thesis by (simp add: cs_inv_def)
qed

lemma cs_inv_wait_begin:
  assumes inv: "cs_inv s" and m: "valid_fence_mask (fences (bo_of (ws s) b)) q"
    and g: "get_fence_from_ring (queues (ws s)) (fences (bo_of (ws s) b)) q = (Some slot, fs)" "ring (queues (ws s) q) slot = Some f"
  shows "cs_inv (s\<lparr>waits := insert (b, q, slot, f) (waits s)\<rparr>)"
proof -
  let ?Q = "qfences (jobs s)"
  let ?a = "age (length (?Q q)) (seq_no (fences (bo_of (ws s) b)) q)"
  note c = cs_invD[OF inv]
  have a: "?a < length (?Q q)" using coreD(3)[OF c(1), of b] m by (simp add: ds_ok_def)
  have f: "f = named_job ?Q (fences (bo_of (ws s) b)) q"
    using c m by (cases rule: ring_lookup) (use g in auto)
  have u: "?Q q ! i \<in> finished s \<or> i \<le> length (?Q q) - 1 - ?a" if "uses (jobs s) q i b" "i < length (?Q q)" for i
    using coreD(4)[OF c(1) that(2,1)] by (auto simp: tracked_def)
  have "\<exists>j<length (?Q q). ?Q q ! j = f \<and> (\<forall>i<length (?Q q). uses (jobs s) q i b \<longrightarrow> ?Q q ! i \<in> finished s \<or> i \<le> j)"
    by (rule exI[of _ "length (?Q q) - 1 - ?a"]) (use a f u in \<open>auto simp: named_job_def simp del: length_qfences\<close>)
  then have "waits_ok (finished s) (jobs s) (insert (b, q, slot, f) (waits s))"
    using inv unfolding cs_inv_def waits_ok_def by blast
  then show ?thesis using inv by (simp add: cs_inv_def)
qed

lemma cs_inv_wait_end:
  assumes inv: "cs_inv s" and w: "(b, q, slot, f) \<in> waits s" and r: "amdgpu_fence_wait g False f (ws s) = (True, w)"
    and v: "view_ok (finished s) (ws s) g"
  shows "cs_inv (s\<lparr>ws := drop_bo_queue b q (bo_fence_wait_relock f (RingSlot q slot) w), waits := waits s - {(b, q, slot, f)}\<rparr>)"
proof -
  let ?Q = "qfences (jobs s)"
  note c = cs_invD[OF inv] and t = core_fence_wait[OF cs_invD(1)[OF inv] v r]
  have f: "f \<in> finished s" using t(2) by simp
  obtain j where j: "j < length (?Q q)" "?Q q ! j = f"
    "\<forall>i<length (?Q q). uses (jobs s) q i b \<longrightarrow> ?Q q ! i \<in> finished s \<or> i \<le> j"
    using inv w unfolding cs_inv_def waits_ok_def by blast
  have "users_done (finished s) ?Q (uses (jobs s)) q b"
    using j f c(2) unfolding down_closed_def by blast
  then have "core (finished s) ?Q (uses (jobs s)) (alt_uses (jobs s)) (before (jobs s)) (drop_bo_queue b q (bo_fence_wait_relock f (RingSlot q slot) w))"
    using core_drop[OF core_relock_ring[OF t(1) f]] by blast
  moreover have "waits_ok (finished s) (jobs s) (waits s - {(b, q, slot, f)})"
    using inv unfolding cs_inv_def waits_ok_def by blast
  ultimately show ?thesis using inv by (simp add: cs_inv_def)
qed

lemma cs_inv_step: "cs_step s s' \<Longrightarrow> cs_inv s \<Longrightarrow> cs_inv s'"
proof (induction rule: cs_step.induct)
  case (oldest s g g' q w)
  then show ?case using cs_inv_ws core_wait_oldest[OF cs_invD(1)] by blast
next
  case (submit s csc f g A w csc' rq)
  then show ?case by (intro cs_inv_submit)
next
  case (tail s A f csc csc' rq w csc'')
  then show ?case using core_submit_finish[OF cs_invD(1)] by (simp add: cs_inv_def)
next
  case (finish s f)
  then show ?case by (intro cs_inv_finish)
next
  case (ask g k d b s r w)
  then show ?case using cs_inv_ws core_bo_wait(1)[OF cs_invD] by blast
next
  case (wait_begin s b q slot fs f)
  then show ?case by (intro cs_inv_wait_begin)
next
  case (wait_end b q slot f s g w)
  then show ?case by (intro cs_inv_wait_end)
next
  case (wait_fence g query f s r w)
  then show ?case using cs_inv_ws core_fence_wait(1)[OF cs_invD(1)] by blast
next
  case (wait_alt g f s w b)
  note t = core_fence_wait[OF cs_invD(1)[OF wait_alt.prems] wait_alt.hyps(2,1)]
  show ?case using cs_inv_ws[OF wait_alt.prems core_relock_alt[OF t(1) cs_invD(2)[OF wait_alt.prems]]] t(2) by simp
next
  case (flush s csc)
  then show ?case using cs_inv_ws core_inc_ioctls[OF cs_invD(1)] by blast
next
  case (syncobjs g b s out w)
  then show ?case using cs_inv_ws core_get_syncobjs[OF cs_invD] by blast
next
  case (merge s b bk)
  then show ?case using cs_inv_ws core_merge[OF cs_invD(1)] by blast
qed

lemma cs_inv_init: "cs_init s \<Longrightarrow> cs_inv s"
  by (auto simp: cs_init_def cs_inv_def core_def rings_ok_def qfences_def qjobs_def ring_ok_empty ds_ok_def uses_def alt_uses_def
      chained_def closed_jobs_def ordered_def synced_def waits_ok_def)

lemma reachable_sys_inv: "cs_reachable s \<Longrightarrow> cs_inv s"
proof -
  have "cs_step\<^sup>*\<^sup>* s0 s \<Longrightarrow> cs_inv s0 \<Longrightarrow> cs_inv s" for s0
    by (induction rule: rtranclp_induct) (auto intro: cs_inv_step)
  then show "cs_reachable s \<Longrightarrow> cs_inv s" using cs_inv_init by (auto simp: cs_reachable_def)
qed

section \<open>Properties\<close>

text \<open>C2: In any state reached by submissions that the kernel accepts, other threads' waits and GPU progress, as long as no
  submission to a queue uses a buffer for whose fence on that queue a thread waits without the lock and
  jobs on queues without sequence numbers synchronise with all their buffers, after any number of
  submissions (also beyond the wrap-around of the 32-bit sequence numbers and of the ring of 32 fences), a
  job that may run, because the fences it was submitted with and the job its hardware queue runs before
  it are done, finds every earlier job done that uses a buffer it synchronises with, on whatever
  queue that job ran.\<close>

theorem submit_waits_for_earlier_users:
  assumes "cs_reachable s" "i < j" "j < length (jobs s)"
    and "b \<in> job_bos (jobs s ! i)" "b \<in> job_sync (jobs s ! j)" "job_waits (jobs s ! j) \<subseteq> finished s"
  shows "job_fence (jobs s ! i) \<in> finished s"
  using reachable_sys_inv[OF assms(1)] assms(2-) before_done unfolding cs_inv_def synced_def by blast

text \<open>C10: In any state reached by those steps (submissions that the kernel accepts, none to a queue with a buffer for whose fence on it a
  thread waits without the lock), also between the critical section of a submission and its call of the
  kernel, when \<open>amdgpu_bo_wait\<close> answers from the fences that a buffer is idle, every
  job submitted with the buffer is done.\<close>

theorem bo_wait_means_idle:
  assumes "cs_reachable s" "view_ok (finished s) (ws s) g" "amdgpu_bo_wait g k d b (ws s) = (True, w)"
    and "on_fences (bo_of (ws s) b)" "J \<in> set (jobs s)" "b \<in> job_bos J"
  shows "job_fence J \<in> finished s"
proof -
  note c = cs_invD[OF reachable_sys_inv[OF assms(1)]]
  have d: "users_done (finished s) (qfences (jobs s)) (uses (jobs s)) q b \<and> (\<forall>f. alt_uses (jobs s) f b \<longrightarrow> f \<in> finished s)" for q
    using core_bo_wait(2)[OF c assms(2,3) _ assms(4)] by simp
  show ?thesis
  proof (cases "job_queue J")
    case None
    then show ?thesis using d assms(5,6) by (auto simp: alt_uses_def)
  next
    case (Some q)
    then have "J \<in> set (qjobs (jobs s) q)" using assms(5) by (simp add: qjobs_def)
    then obtain i where "i < length (qjobs (jobs s) q)" "qjobs (jobs s) q ! i = J" by (auto simp: in_set_conv_nth)
    then show ?thesis using d[of q] assms(6) by (auto simp: uses_def qfences_def)
  qed
qed

text \<open>The fence of a job is the fence of no other one, and it is in the ring of its own queue only.\<close>

lemma reachable_distinct: "cs_reachable s \<Longrightarrow> distinct (map job_fence (jobs s))"
proof -
  have step: "cs_step s s' \<Longrightarrow> distinct (map job_fence (jobs s)) \<Longrightarrow> distinct (map job_fence (jobs s'))" for s s'
    by (induction rule: cs_step.induct) (simp_all add: new_job_def)
  have "cs_step\<^sup>*\<^sup>* s0 s \<Longrightarrow> distinct (map job_fence (jobs s0)) \<Longrightarrow> distinct (map job_fence (jobs s))" for s0
    by (induction rule: rtranclp_induct) (auto intro: step)
  then show "cs_reachable s \<Longrightarrow> distinct (map job_fence (jobs s))" by (auto simp: cs_reachable_def cs_init_def)
qed

lemma set_qfences: "set (qfences js q) = job_fence ` {J \<in> set js. job_queue J = Some q}"
  by (auto simp: qfences_def qjobs_def)

lemma other_queue_fence:
  assumes "cs_reachable s" "J \<in> set (jobs s)" "job_queue J = Some q" "p \<noteq> q"
  shows "job_fence J \<notin> set (qfences (jobs s) p)"
  using inj_onD[of job_fence "set (jobs s)"] reachable_distinct[OF assms(1)] assms(2-4)
  unfolding set_qfences distinct_map by fastforce

text \<open>What a submission to queue \<open>q\<close> with fence \<open>f\<close> leaves in a reachable state, whether or not the kernel accepts it.\<close>

lemma submitted_to:
  assumes "cs_reachable s" "view_ok (finished s) (ws s) g" "submit_ready s A csc" and q: "own_queue A = Some q" and f: "csc_fence csc = Some f"
    and run: "amdgpu_cs_submit_ib A g csc (ws s) = Some (w, csc', rq)"
  shows "rings_ok (finished s) ((qfences (jobs s))(q := qfences (jobs s) q @ [f])) (queues w)"
    "b \<in> cs_bo ` set (all_bufs csc) \<Longrightarrow> valid_fence_mask (fences (bo_of w b)) q
       \<and> seq_no (fences (bo_of w b)) q = word_of_nat (Suc (length (qfences (jobs s) q)))"
    "alt_fence (bo_of w b) = alt_fence (bo_of (ws s) b)" "submit_result A \<noteq> 0 \<Longrightarrow> signalled (fence_of w f)"
proof -
  have inv: "cs_inv s" using reachable_sys_inv[OF assms(1)] .
  obtain w1 csc1 where l: "submit_locked A g f csc (ws s) = Some (w1, csc1, rq)" and fin: "submit_finish A f csc rq (w1, csc1) = (w, csc')"
    by (rule submit_ib_parts[OF run f])
  have k: "\<not> is_alt A" "sa_queue A = q" using q by (auto simp: own_queue_def split: if_splits)
  note x = submit_locked_spec[OF coreD(1,2)[OF cs_invD(1)[OF inv]] assms(2) submit_preI[OF inv assms(3)] l] and y = submit_finish_frame[OF fin]
  show "rings_ok (finished s) ((qfences (jobs s))(q := qfences (jobs s) q @ [f])) (queues w)" using x(1) k y(1) by simp
  show "valid_fence_mask (fences (bo_of w b)) q \<and> seq_no (fences (bo_of w b)) q = word_of_nat (Suc (length (qfences (jobs s) q)))"
    if b: "b \<in> cs_bo ` set (all_bufs csc)"
  proof -
    obtain M where "cs_bo ` set (all_bufs csc) \<union> slab_reals (ws s) csc \<subseteq> M" "\<forall>b. fences (bo_of w1 b) = (if b \<in> M \<and> \<not> is_alt A
        then set_seq_no (sa_queue A) (word_of_nat (Suc (length (qfences (jobs s) (sa_queue A))))) (fences (bo_of (ws s) b)) else fences (bo_of (ws s) b))"
      using x(3) by blast
    then show ?thesis using b k y(2)[of b] by (auto simp: set_seq_no_def)
  qed
  show "alt_fence (bo_of w b) = alt_fence (bo_of (ws s) b)" using x(4) k y(3)[of b] by simp
  show "submit_result A \<noteq> 0 \<Longrightarrow> signalled (fence_of w f)" by (rule y(4))
qed

lemma ring_slot_of:
  assumes "rings_ok dn (Q(q := Q q @ [f])) qs"
  shows "ring (qs q) (unat (word_of_nat (Suc (length (Q q))) :: uint_seq_no) mod AMDGPU_FENCE_RING_SIZE) = Some f
    \<or> ring (qs q) (unat (word_of_nat (Suc (length (Q q))) :: uint_seq_no) mod AMDGPU_FENCE_RING_SIZE) = None \<and> f \<in> dn"
proof -
  have "ring_ok dn (Q q @ [f]) (qs q)" using assms by (auto simp: rings_ok_def dest: spec[of _ q])
  from ring_okD(2)[OF this, of "length (Q q)"] show ?thesis
    using unat_mod_ring[of "Suc (length (Q q))"] by (auto simp: AMDGPU_FENCE_RING_SIZE_def simp del: of_nat_Suc)
qed

text \<open>C33: A thread that waits for the fence of a buffer on a queue without holding the lock clears the buffer's bit of the queue when
  it is back, whatever happened in between. If a job that uses the buffer was submitted to that queue
  meanwhile, then before that the buffer names the new job, whose fence stays in the ring; afterwards no
  submission to another queue that uses the buffer, and no other buffer that remembers the queue, waits
  for the new job, although it still runs.\<close>

theorem bo_wait_forgets_new_job:
  assumes "cs_reachable s" "(b, q, slot, f) \<in> waits s"
    and new: "own_queue A = Some q" "csc_fence csc = Some jf" "jf \<notin> job_fence ` set (jobs s)" "jf \<notin> finished s"
      "\<forall>c. alt_fence (bo_of (ws s) c) \<noteq> Some jf" "view_ok (finished s) (ws s) g" "submit_ready s A csc" "b \<in> cs_bo ` set (all_bufs csc)"
      "amdgpu_cs_submit_ib A g csc (ws s) = Some (w1, csc1, rq1)"
    and woken: "amdgpu_fence_wait g1 False f w1 = (True, w2)" "w3 = drop_bo_queue b q (bo_fence_wait_relock f (RingSlot q slot) w2)"
    and later: "own_queue A' \<noteq> Some q" "csc_fence csc' = Some f'" "f' \<noteq> jf" "\<not> valid_fence_mask (seq_no_dependencies csc') q"
      "jf \<notin> fst ` set (syncobj_dependencies csc')" "\<forall>x\<in>set (all_bufs csc'). cs_bo x = b \<or> \<not> valid_fence_mask (fences (bo_of w3 (cs_bo x))) q"
      "amdgpu_cs_submit_ib A' g' csc' w3 = Some (w4, csc4, rq4)"
  shows "valid_fence_mask (fences (bo_of w2 b)) q
    \<and> ring (queues w3 q) (unat (seq_no (fences (bo_of w2 b)) q) mod AMDGPU_FENCE_RING_SIZE) = Some jf
    \<and> jf \<notin> fst ` set (rq_dependencies rq4)"
proof -
  note x = submitted_to[OF assms(1) new(6,7,1,2,9)] and fr = fence_wait_frame[OF woken(1)]
  let ?Q = "(qfences (jobs s))(q := qfences (jobs s) q @ [jf])"
  let ?slot = "unat (seq_no (fences (bo_of w2 b)) q) mod AMDGPU_FENCE_RING_SIZE"
  have "f \<in> set (qfences (jobs s) q)"
    using reachable_sys_inv[OF assms(1)] assms(2) unfolding cs_inv_def waits_ok_def by (metis nth_mem)
  then have "f \<noteq> jf" using new(3) by (auto simp: set_qfences)
  have b: "valid_fence_mask (fences (bo_of w2 b)) q" "ring (queues w2 q) ?slot = Some jf"
    using x(2)[OF new(8)] ring_slot_of[OF x(1)] new(4) fr(1,2) by simp_all
  then have ring: "ring (queues w3 q) ?slot = Some jf"
    using \<open>f \<noteq> jf\<close> by (auto simp: woken(2) bo_fence_wait_relock_def)
  have only: "jf \<notin> set (?Q p)" if "p \<noteq> q" for p using that new(3) by (auto simp: set_qfences)
  have rings: "rings_ok UNIV ?Q (queues w3)"
  proof -
    have w2: "rings_ok UNIV ?Q (queues w2)" using x(1) ring_ok_mono[of "finished s" _ _ UNIV] fr(1) by (simp add: rings_ok_def)
    then show ?thesis using rings_ok_clear[OF w2, of q slot f] by (simp add: woken(2) bo_fence_wait_relock_def)
  qed
  have alt: "alt_fence (bo_of w3 c) = alt_fence (bo_of (ws s) c)" for c
    using x(3)[of c] fr(2) by (simp add: woken(2) bo_fence_wait_relock_def)
  have "jf \<notin> fst ` set (rq_dependencies rq4)"
  proof (rule not_a_dependency[OF rings later(7,2) _ later(5) _ later(1) only later(4)])
    show "(\<forall>x\<in>set (all_bufs csc'). \<not> valid_fence_mask (fences (bo_of w3 (cs_bo x))) q)
        \<or> (\<forall>x\<in>set (all_bufs csc'). seq_no (fences (bo_of w3 (cs_bo x))) q = 0) \<and> ring (queues w3 q) (unat 0 mod AMDGPU_FENCE_RING_SIZE) \<noteq> Some jf"
      using later(6) by (intro disjI1) (auto simp: woken(2))
  qed (use later(3) alt new(5) in simp_all)
  then show ?thesis using b(1) ring by blast
qed

text \<open>C35: The fence of a submission the kernel rejects is signalled at once, though it carries the number of the next job of its queue and
  the buffers of the submission name it. A later submission to another queue that uses only such buffers
  waits for no job that was submitted to the first queue before, whether it is done or not.\<close>

theorem rejected_submission_hides_job:
  assumes "cs_reachable s" "J \<in> set (jobs s)" "job_queue J = Some q"
    and rejected: "own_queue A = Some q" "submit_result A \<noteq> 0" "csc_fence csc = Some rf" "rf \<notin> job_fence ` set (jobs s)"
      "view_ok (finished s) (ws s) g" "submit_ready s A csc" "amdgpu_cs_submit_ib A g csc (ws s) = Some (w1, csc1, rq1)"
    and later: "own_queue A' \<noteq> Some q" "csc_fence csc' = Some f'" "f' \<noteq> job_fence J" "\<not> valid_fence_mask (seq_no_dependencies csc') q"
      "job_fence J \<notin> fst ` set (syncobj_dependencies csc')"
      "\<forall>x\<in>set (all_bufs csc'). cs_bo x \<in> cs_bo ` set (all_bufs csc) \<and> alt_fence (bo_of (ws s) (cs_bo x)) \<noteq> Some (job_fence J)"
      "amdgpu_cs_submit_ib A' g' csc' w1 = Some (w2, csc2, rq2)"
  shows "signalled (fence_of w1 rf) \<and> job_fence J \<notin> fst ` set (rq_dependencies rq2)"
proof
  note x = submitted_to[OF assms(1) rejected(5,6,1,3,7)]
  let ?Q = "(qfences (jobs s))(q := qfences (jobs s) q @ [rf])" and ?n = "word_of_nat (Suc (length (qfences (jobs s) q))) :: uint_seq_no"
  show "signalled (fence_of w1 rf)" by (rule x(4)[OF rejected(2)])
  have "job_fence J \<noteq> rf" using rejected(4) assms(2) by auto
  have only: "job_fence J \<notin> set (?Q p)" if "p \<noteq> q" for p using other_queue_fence[OF assms(1-3) that] that by simp
  show "job_fence J \<notin> fst ` set (rq_dependencies rq2)"
  proof (rule not_a_dependency[OF x(1) later(7,2) _ later(5) _ later(1) only later(4)])
    show "(\<forall>x\<in>set (all_bufs csc'). \<not> valid_fence_mask (fences (bo_of w1 (cs_bo x))) q)
        \<or> (\<forall>x\<in>set (all_bufs csc'). seq_no (fences (bo_of w1 (cs_bo x))) q = ?n)
          \<and> ring (queues w1 q) (unat ?n mod AMDGPU_FENCE_RING_SIZE) \<noteq> Some (job_fence J)"
      using x(2) later(6) ring_slot_of[OF x(1)] \<open>job_fence J \<noteq> rf\<close> by (intro disjI2) (auto split: if_splits)
  qed (use later(3,6) x(3) in auto)
qed

section \<open>Runs\<close>

text \<open>Jobs that write buffer 5. Queue 0 is the graphics queue, queue 3 the one of the copy engine. \<open>r\<close> is the answer of the
  kernel, \<open>F\<close> the fences the GPU has signalled.\<close>

definition demo_ws :: fence_winsys where
  "demo_ws = \<lparr>queues = (\<lambda>_. \<lparr>ring = (\<lambda>_. None), latest_seq_no = 0, last_ctx = None\<rparr>),
    fence_of = (\<lambda>_. \<lparr>fence_ip_type = AMD_IP_GFX, user_fence = None, kernel_seq_no = 0, submitted = False, signalled = False,
      imported = False, fence_queue = 0, queue_seq_no = 0\<rparr>),
    bo_of = (\<lambda>b. sample_bo (word_of_nat b)), num_hw_queues = (\<lambda>_. 1), gfx_bo_list_counter = 0\<rparr>"

definition demo_args :: "nat \<Rightarrow> int \<Rightarrow> submit_args" where
  "demo_args q r = \<lparr>sa_type = KERNELQ, sa_queue = q, sa_ip_type = AMD_IP_GFX, sa_ctx = 0, sa_noop = False, sa_ctx_lost = False,
    sa_alloc_ok = (\<lambda>_. True), sa_kernel_result = r, sa_kernel_seq_no = 1, sa_user_fence = None\<rparr>"

definition idle_view :: "nat set \<Rightarrow> gpu_view" where
  "idle_view F = \<lparr>user_fence_memory = (\<lambda>_. 0), syncobj_idle = (\<lambda>f. f \<in> F)\<rparr>"

definition demo_csc :: "nat \<Rightarrow> amdgpu_cs_context" where
  "demo_csc f = new_csc\<lparr>buffer_lists := (buffer_lists new_csc)(LIST_REAL := \<lparr>max_buffers = 16,
     buffers = [\<lparr>cs_bo = 5, usage = RADEON_USAGE_WRITE OR RADEON_USAGE_SYNCHRONIZED\<rparr>]\<rparr>), csc_fence := Some f\<rparr>"

definition demo_submit :: "nat \<Rightarrow> int \<Rightarrow> nat set \<Rightarrow> nat \<Rightarrow> fence_winsys \<Rightarrow> fence_winsys \<times> amdgpu_cs_context \<times> submit_request" where
  "demo_submit q r F f aws = the (amdgpu_cs_submit_ib (demo_args q r) (idle_view F) (demo_csc f) (inc_ioctls (demo_csc f) aws))"

definition demo_queue :: "nat list \<Rightarrow> amdgpu_queue" where
  "demo_queue fs = \<lparr>ring = (\<lambda>i. if 0 < i \<and> i \<le> length fs then Some (fs ! (i - 1)) else None),
     latest_seq_no = word_of_nat (length fs), last_ctx = (if fs = [] then None else Some 0)\<rparr>"

definition demo_fence :: "uint_seq_no \<Rightarrow> bool \<Rightarrow> amdgpu_fence" where
  "demo_fence n b = \<lparr>fence_ip_type = AMD_IP_GFX, user_fence = None, kernel_seq_no = of_bool (\<not> b), submitted = True, signalled = b,
      imported = False, fence_queue = 0, queue_seq_no = n\<rparr>"

definition demo_state :: "nat list \<Rightarrow> (nat \<Rightarrow> amdgpu_fence) \<Rightarrow> fence_winsys" where
  "demo_state fs F = demo_ws\<lparr>queues := (queues demo_ws)(0 := demo_queue fs), fence_of := F,
     bo_of := (bo_of demo_ws)(5 := (bo_of demo_ws 5)\<lparr>fences :=
       \<lparr>seq_no = (\<lambda>_. 0)(0 := word_of_nat (length fs)), valid_fence_mask = (\<lambda>_. False)(0 := True)\<rparr>\<rparr>),
     gfx_bo_list_counter := length fs\<rparr>"

abbreviation one_job :: fence_winsys where
  "one_job \<equiv> demo_state [0] ((fence_of demo_ws)(0 := demo_fence 1 False))"

abbreviation two_jobs :: fence_winsys where
  "two_jobs \<equiv> demo_state [0, 1] ((fence_of demo_ws)(0 := demo_fence 1 False, 1 := demo_fence 2 False))"

lemmas demo_defs = demo_ws_def demo_args_def idle_view_def demo_csc_def new_csc_def sample_bo_def
  LIST_SPARSE_def LIST_SLAB_ENTRY_def LIST_REAL_def RADEON_USAGE_WRITE_def RADEON_USAGE_SYNCHRONIZED_def

lemmas submit_defs = amdgpu_cs_submit_ib_def submit_locked_def Let_def submit_finish_def submit_result_def reaches_kernel_def
  dec_ioctls_def inc_ioctls_def amdgpu_fence_submitted_def amdgpu_fence_signalled_def amdgpu_cs_context_cleanup_def
  amdgpu_cs_context_cleanup_buffers_def push_fence_def add_prev_dependency_def kernel_bo_list_def submit_bo_def
  amdgpu_add_fences_to_dependencies_def mark_bo_def own_queue_def AMDGPU_FENCE_RING_SIZE_def set_seq_no_def add_seq_no_to_list_def
  foreach_bit_def AMDGPU_MAX_QUEUES_def upt_rec get_fence_from_ring_def add_fence_to_list_def amdgpu_fence_wait_def
  update_bo_def update_fence_def ECANCELED_def

lemma demo_queue_simps:
  "demo_queue [] = \<lparr>ring = (\<lambda>_. None), latest_seq_no = 0, last_ctx = None\<rparr>"
  "demo_queue [f] = \<lparr>ring = (\<lambda>_. None)(1 := Some f), latest_seq_no = 1, last_ctx = Some 0\<rparr>"
  "demo_queue [f, h] = \<lparr>ring = (\<lambda>_. None)(1 := Some f, 2 := Some h), latest_seq_no = 2, last_ctx = Some 0\<rparr>"
  by (auto simp: demo_queue_def fun_eq_iff nth_Cons')

lemmas run_defs = demo_submit_def submit_defs demo_defs demo_state_def demo_queue_simps demo_fence_def

lemma demo_first: "fst (demo_submit 0 0 {} 0 demo_ws) = one_job"
  by (simp add: run_defs)

lemma demo_second: "fst (demo_submit 0 0 {} 1 one_job) = two_jobs"
  by (simp add: run_defs)

lemma demo_dependency: "rq_dependencies (snd (snd (demo_submit 3 0 {} f one_job))) = [(0, 0)]"
  by (simp add: run_defs)

section \<open>A reachable state\<close>

text \<open>Jobs 0 and 1 are not done, all other fences are.\<close>

definition demo_sys :: cs_sys where
  "demo_sys = \<lparr>ws = demo_ws, jobs = [], finished = UNIV - {0, 1}, waits = {}, tail = None\<rparr>"

definition demo_next :: "nat \<Rightarrow> nat \<Rightarrow> cs_sys \<Rightarrow> cs_sys" where
  "demo_next q f s = (case demo_submit q 0 {} f (ws s) of (w, _, rq) \<Rightarrow>
    s\<lparr>ws := w, jobs := jobs s @ [new_job (demo_args q 0) (demo_csc f) rq f (inc_ioctls (demo_csc f) (ws s)) (jobs s)]\<rparr>)"

lemma submit_ib_steps:
  assumes "tail s = None" "csc_fence csc = Some f" "f \<notin> job_fence ` set (jobs s)" "f \<notin> finished s" "view_ok (finished s) (ws s) g"
    and "submit_guard s A csc" "accepted A" and run: "amdgpu_cs_submit_ib A g csc (ws s) = Some (w, csc', rq)"
  shows "cs_step\<^sup>*\<^sup>* s (s\<lparr>ws := w, jobs := jobs s @ [new_job A csc rq f (ws s) (jobs s)]\<rparr>)"
proof -
  obtain w1 csc1 where l: "submit_locked A g f csc (ws s) = Some (w1, csc1, rq)" and fin: "submit_finish A f csc rq (w1, csc1) = (w, csc')"
    by (rule submit_ib_parts[OF run assms(2)])
  let ?t = "s\<lparr>ws := w1, jobs := jobs s @ [new_job A csc rq f (ws s) (jobs s)], tail := Some (A, f, csc, csc1, rq)\<rparr>"
  have t: "cs_step s ?t" using cs_step.submit[OF assms(1-6) l] .
  have u: "cs_step ?t (?t\<lparr>ws := w, tail := None\<rparr>)" by (rule cs_step.tail[OF _ assms(7)]) (use fin in simp_all)
  have e: "?t\<lparr>ws := w, tail := None\<rparr> = s\<lparr>ws := w, jobs := jobs s @ [new_job A csc rq f (ws s) (jobs s)]\<rparr>"
    using assms(1) by (cases s) simp
  show ?thesis unfolding e[symmetric] using t u by (rule converse_rtranclp_into_rtranclp[OF _ r_into_rtranclp])
qed

lemma demo_next_steps:
  assumes "amdgpu_cs_submit_ib (demo_args q 0) (idle_view {}) (demo_csc f) (inc_ioctls (demo_csc f) (ws s)) \<noteq> None"
    and "f \<notin> job_fence ` set (jobs s)" "f \<notin> finished s"
    and "\<forall>h. h \<notin> finished s \<longrightarrow> user_fence (fence_of (ws s) h) = None"
    and "q < 4" "ring (queues (ws s) q) (unat (latest_seq_no (queues (ws s) q) + 1) mod 32) = None" "waits s = {}" "tail s = None"
  shows "cs_step\<^sup>*\<^sup>* s (demo_next q f s)"
proof -
  let ?s = "s\<lparr>ws := inc_ioctls (demo_csc f) (ws s)\<rparr>"
  obtain w c rq where r: "amdgpu_cs_submit_ib (demo_args q 0) (idle_view {}) (demo_csc f) (inc_ioctls (demo_csc f) (ws s)) = Some (w, c, rq)"
    using assms(1) by auto
  have "cs_step s ?s" by (rule cs_step.flush)
  moreover have "cs_step\<^sup>*\<^sup>* ?s (?s\<lparr>ws := w, jobs := jobs ?s @ [new_job (demo_args q 0) (demo_csc f) rq f (ws ?s) (jobs ?s)]\<rparr>)"
  proof (rule submit_ib_steps)
    show "accepted (demo_args q 0)" by (simp add: accepted_def reaches_kernel_def demo_args_def)
    show "csc_fence (demo_csc f) = Some f" by (simp add: demo_csc_def)
    show "view_ok (finished ?s) (ws ?s) (idle_view {})" using assms(4) by (auto simp: view_ok_def idle_view_def)
    show "submit_guard ?s (demo_args q 0) (demo_csc f)"
      using assms(5-7) by (simp add: submit_guard_def submit_ready_def demo_defs ds_ok_def all_bufs_def real_list_def
        AMDGPU_MAX_QUEUES_def AMDGPU_FENCE_RING_SIZE_def)
  qed (use assms(2,3,8) r in simp_all)
  moreover have "?s\<lparr>ws := w, jobs := jobs ?s @ [new_job (demo_args q 0) (demo_csc f) rq f (ws ?s) (jobs ?s)]\<rparr> = demo_next q f s"
    by (simp add: demo_next_def demo_submit_def r)
  ultimately show ?thesis by (metis converse_rtranclp_into_rtranclp)
qed

lemma demo_next_simps:
  "finished (demo_next q f s) = finished s" "waits (demo_next q f s) = waits s"
  "ws (demo_next q f s) = fst (demo_submit q 0 {} f (ws s))"
  "jobs (demo_next q f s) = jobs s @ [new_job (demo_args q 0) (demo_csc f) (snd (snd (demo_submit q 0 {} f (ws s)))) f
    (inc_ioctls (demo_csc f) (ws s)) (jobs s)]"
  "tail (demo_next q f s) = tail s"
  by (simp_all add: demo_next_def split: prod.splits)

lemma demo_job:
  fixes q f rq w js
  defines "J \<equiv> new_job (demo_args q 0) (demo_csc f) rq f w js"
  shows "job_fence J = f" "5 \<in> job_bos J" "5 \<in> job_sync J"
    "job_waits J = fst ` set (rq_dependencies rq) \<union> (if last_ctx (queues w q) = Some 0 \<and> num_hw_queues w AMD_IP_GFX = 1
       \<and> qfences js q \<noteq> [] then {last (qfences js q)} else {})"
  by (auto simp: J_def new_job_def demo_defs all_bufs_def real_list_def synchronised_def job_waits_def in_order_def)

lemma demo_sys_first:
  "ws (demo_next 0 0 demo_sys) = one_job" "finished (demo_next 0 0 demo_sys) = UNIV - {0, 1}" "waits (demo_next 0 0 demo_sys) = {}"
  "tail (demo_next 0 0 demo_sys) = None"
  "jobs (demo_next 0 0 demo_sys)
    = [new_job (demo_args 0 0) (demo_csc 0) (snd (snd (demo_submit 0 0 {} 0 demo_ws))) 0 (inc_ioctls (demo_csc 0) demo_ws) []]"
  by (simp_all add: demo_next_simps demo_first demo_sys_def)

lemma demo_steps_first: "cs_step\<^sup>*\<^sup>* demo_sys (demo_next 0 0 demo_sys)"
proof (rule demo_next_steps)
  show "amdgpu_cs_submit_ib (demo_args 0 0) (idle_view {}) (demo_csc 0) (inc_ioctls (demo_csc 0) (ws demo_sys)) \<noteq> None"
    by (simp add: demo_sys_def run_defs)
qed (simp_all add: demo_sys_def demo_ws_def)

lemma demo_steps_second: "cs_step\<^sup>*\<^sup>* demo_sys (demo_next 3 1 (demo_next 0 0 demo_sys))"
proof (rule rtranclp_trans[OF demo_steps_first], rule demo_next_steps)
  show "amdgpu_cs_submit_ib (demo_args 3 0) (idle_view {}) (demo_csc 1) (inc_ioctls (demo_csc 1) (ws (demo_next 0 0 demo_sys))) \<noteq> None"
    by (simp add: demo_sys_first run_defs)
qed (simp_all add: demo_sys_first demo_job demo_state_def demo_queue_simps demo_fence_def demo_ws_def)

lemma demo_reachable:
  assumes "cs_step\<^sup>*\<^sup>* demo_sys s" "\<forall>J\<in>set (jobs s). job_fence J = f \<longrightarrow> job_waits J \<subseteq> finished s"
  shows "cs_reachable (s\<lparr>finished := insert f (finished s)\<rparr>)"
proof -
  have "cs_init demo_sys" by (simp add: cs_init_def demo_sys_def demo_ws_def sample_bo_def sig_ok_def)
  then show ?thesis using rtranclp.rtrancl_into_rtrancl[OF assms(1) cs_step.finish[OF assms(2)]] unfolding cs_reachable_def by blast
qed

lemma demo_first_waits: "job_waits (jobs (demo_next 0 0 demo_sys) ! 0) = {}"
proof -
  have "rq_dependencies (snd (snd (demo_submit 0 0 {} 0 demo_ws))) = []" by (simp add: run_defs)
  then show ?thesis by (simp add: demo_sys_first demo_job qfences_def qjobs_def)
qed

text \<open>C2 for a job of the graphics queue, which is done, and one of the copy engine, which waits for it.\<close>

theorem submit_waits_for_earlier_users_witness:
  "\<exists>s. cs_reachable s \<and> length (jobs s) = 2 \<and> job_fence (jobs s ! 1) \<notin> finished s \<and> job_waits (jobs s ! 1) = {0}
    \<and> job_fence (jobs s ! 0) = 0 \<and> job_fence (jobs s ! 0) \<in> finished s"
proof -
  let ?t = "demo_next 3 1 (demo_next 0 0 demo_sys)"
  define s where "s = ?t\<lparr>finished := insert 0 (finished ?t)\<rparr>"
  have j: "length (jobs s) = 2" "job_fence (jobs s ! 0) = 0" "job_fence (jobs s ! 1) = 1" "5 \<in> job_bos (jobs s ! 0)" "5 \<in> job_sync (jobs s ! 1)"
    "job_waits (jobs s ! 1) = {0}" "finished s = UNIV - {1}"
    using demo_dependency[of 1]
    by (auto simp: s_def demo_next_simps(1,4)[of 3] demo_sys_first demo_job demo_state_def demo_ws_def)
  have "cs_reachable s"
    unfolding s_def by (rule demo_reachable[OF demo_steps_second])
      (use demo_first_waits in \<open>auto simp: demo_next_simps(4)[of 3] demo_sys_first demo_job\<close>)
  moreover have "job_fence (jobs s ! 0) \<in> finished s"
    by (rule submit_waits_for_earlier_users[OF \<open>cs_reachable s\<close>, of 0 1 5]) (use j in simp_all)
  ultimately show ?thesis using j by (intro exI[of _ s]) simp
qed

text \<open>C10 after the only job is done.\<close>

theorem bo_wait_means_idle_witness:
  "\<exists>s w. cs_reachable s \<and> amdgpu_bo_wait (idle_view {0}) False False 5 (ws s) = (True, w) \<and> length (jobs s) = 1
    \<and> job_fence (jobs s ! 0) \<in> finished s"
proof -
  let ?t = "demo_next 0 0 demo_sys"
  define s where "s = ?t\<lparr>finished := insert 0 (finished ?t)\<rparr>"
  have j: "length (jobs s) = 1" "jobs s ! 0 \<in> set (jobs s)" "5 \<in> job_bos (jobs s ! 0)" "ws s = one_job" "finished s = UNIV - {1}"
    by (auto simp: s_def demo_sys_first demo_job)
  have r: "cs_reachable s"
    unfolding s_def by (rule demo_reachable[OF demo_steps_first]) (use demo_first_waits in \<open>simp add: demo_sys_first\<close>)
  have v: "view_ok (finished s) (ws s) (idle_view {0})" "on_fences (bo_of (ws s) 5)"
    by (simp_all add: j view_ok_def idle_view_def demo_state_def demo_fence_def demo_ws_def on_fences_def sample_bo_def)
  have "fst (amdgpu_bo_wait (idle_view {0}) False False 5 one_job)"
    by (simp add: amdgpu_bo_wait_def bo_wait_queue_def amdgpu_bo_fence_query_def drop_bo_queue_def run_defs)
  then obtain w where w: "amdgpu_bo_wait (idle_view {0}) False False 5 (ws s) = (True, w)" unfolding j(4) by (metis prod.collapse)
  then show ?thesis using bo_wait_means_idle[OF r v(1) w v(2) j(2,3)] r j(1) by blast
qed

text \<open>A job of the graphics queue is submitted, the next one is on the way.\<close>

definition demo_busy :: cs_sys where
  "demo_busy = (demo_next 0 0 demo_sys)\<lparr>ws := inc_ioctls (demo_csc 1) one_job\<rparr>"

lemma demo_busy_simps:
  "ws demo_busy = inc_ioctls (demo_csc 1) one_job" "finished demo_busy = UNIV - {0, 1}" "waits demo_busy = {}" "job_fence ` set (jobs demo_busy) = {0}"
  "fences (bo_of (ws demo_busy) b) = fences (bo_of one_job b)" "alt_fence (bo_of (ws demo_busy) b) = alt_fence (bo_of one_job b)"
  "queues (ws demo_busy) = queues one_job" "fence_of (ws demo_busy) = fence_of one_job"
  by (simp_all add: demo_busy_def demo_sys_first demo_job inc_ioctls_def fold_ioctls)

lemma demo_busy_steps: "cs_step\<^sup>*\<^sup>* demo_sys demo_busy"
  using rtranclp.rtrancl_into_rtrancl[OF demo_steps_first cs_step.flush[of _ "demo_csc 1"]] by (simp add: demo_busy_def demo_sys_first)

lemma demo_init: "cs_init demo_sys"
  by (simp add: cs_init_def demo_sys_def demo_ws_def sample_bo_def sig_ok_def)

lemma demo_busy_ready:
  "view_ok (finished s) (ws demo_busy) (idle_view {})" "jobs s = jobs demo_busy \<Longrightarrow> ws s = ws demo_busy \<Longrightarrow> submit_ready s (demo_args 0 r) (demo_csc 1)"
  "all_bufs (demo_csc f) = [\<lparr>cs_bo = 5, usage = RADEON_USAGE_WRITE OR RADEON_USAGE_SYNCHRONIZED\<rparr>]"
  by (simp_all add: view_ok_def submit_ready_def demo_busy_simps(2-) demo_defs ds_ok_def all_bufs_def real_list_def AMDGPU_MAX_QUEUES_def AMDGPU_FENCE_RING_SIZE_def
      demo_state_def demo_queue_simps demo_fence_def)

lemma demo_csc_simps: "csc_fence (demo_csc f) = Some f" "seq_no_dependencies (demo_csc f) = seq_no_dependencies new_csc" "syncobj_dependencies (demo_csc f) = []"
  "\<not> valid_fence_mask (seq_no_dependencies new_csc) q" "own_queue (demo_args q r) = Some q" "buffers (buffer_lists (demo_csc f) LIST_SLAB_ENTRY) = []"
  "buffers (buffer_lists (demo_csc f) LIST_SPARSE) = []"
  by (simp_all add: demo_defs own_queue_def)

text \<open>C33: a thread waits for job 0 of the graphics queue, meanwhile job 1 is submitted to it; job 2, on the copy engine, does not wait for it.\<close>

theorem bo_wait_forgets_new_job_witness:
  "\<exists>s w1 c1 rq1 w2 w3 w4 c4 rq4. cs_reachable s \<and> (5, 0, 1, 0) \<in> waits s
    \<and> amdgpu_cs_submit_ib (demo_args 0 0) (idle_view {}) (demo_csc 1) (ws s) = Some (w1, c1, rq1)
    \<and> amdgpu_fence_wait (idle_view {0}) False 0 w1 = (True, w2) \<and> w3 = drop_bo_queue 5 0 (bo_fence_wait_relock 0 (RingSlot 0 1) w2)
    \<and> amdgpu_cs_submit_ib (demo_args 3 0) (idle_view {0}) (demo_csc 2) w3 = Some (w4, c4, rq4)
    \<and> valid_fence_mask (fences (bo_of w2 5)) 0 \<and> 1 \<notin> fst ` set (rq_dependencies rq4)"
proof -
  let ?s = "demo_busy\<lparr>waits := insert (5, 0, 1, 0) (waits demo_busy)\<rparr>"
  have "cs_step demo_busy ?s"
    by (rule cs_step.wait_begin[where fs = "fences (bo_of one_job 5)"])
      (simp_all add: demo_busy_simps(2-) get_fence_from_ring_def demo_state_def demo_ws_def demo_queue_simps AMDGPU_FENCE_RING_SIZE_def)
  then have s: "cs_reachable ?s" unfolding cs_reachable_def using demo_busy_steps demo_init by (meson rtranclp.rtrancl_into_rtrancl)
  obtain w1 c1 rq1 where r1: "amdgpu_cs_submit_ib (demo_args 0 0) (idle_view {}) (demo_csc 1) (ws ?s) = Some (w1, c1, rq1)"
    by (rule real_buffers_submit[OF demo_csc_simps(6,7,1)])
  have "w1 = two_jobs" using demo_second r1 by (simp add: demo_submit_def demo_busy_simps)
  then obtain w2 where w2: "amdgpu_fence_wait (idle_view {0}) False 0 w1 = (True, w2)"
    by (simp add: amdgpu_fence_wait_def demo_state_def demo_fence_def idle_view_def)
  define w3 where "w3 = drop_bo_queue 5 0 (bo_fence_wait_relock 0 (RingSlot 0 1) w2)"
  obtain w4 c4 rq4 where r4: "amdgpu_cs_submit_ib (demo_args 3 0) (idle_view {0}) (demo_csc 2) w3 = Some (w4, c4, rq4)"
    by (rule real_buffers_submit[OF demo_csc_simps(6,7,1)])
  have a: "\<forall>c. alt_fence (bo_of (ws ?s) c) \<noteq> Some 1" by (simp add: demo_busy_simps(2-) demo_state_def demo_ws_def sample_bo_def)
  have v: "view_ok (finished ?s) (ws ?s) (idle_view {})" "submit_ready ?s (demo_args 0 0) (demo_csc 1)" using demo_busy_ready by simp_all
  have "valid_fence_mask (fences (bo_of w2 5)) 0 \<and> 1 \<notin> fst ` set (rq_dependencies rq4)"
    using bo_wait_forgets_new_job[OF s _ _ _ _ _ a v _ r1 w2 w3_def _ _ _ _ _ _ r4] by (simp add: demo_csc_simps demo_busy_ready(3) demo_busy_simps(2-))
  moreover have "(5, 0, 1, 0) \<in> waits ?s" by simp
  ultimately show ?thesis using s r1 w2 w3_def r4 by blast
qed

text \<open>C35: job 0 of the graphics queue runs, the next submission to it is rejected; job 2, on the copy engine, does not wait for job 0.\<close>

theorem rejected_submission_hides_job_witness:
  "\<exists>w1 c1 rq1 w2 c2 rq2. cs_reachable demo_busy \<and> 0 \<notin> finished demo_busy \<and> job_fence (jobs demo_busy ! 0) = 0
    \<and> amdgpu_cs_submit_ib (demo_args 0 (- 22)) (idle_view {}) (demo_csc 1) (ws demo_busy) = Some (w1, c1, rq1)
    \<and> amdgpu_cs_submit_ib (demo_args 3 0) (idle_view {}) (demo_csc 2) w1 = Some (w2, c2, rq2)
    \<and> signalled (fence_of w1 1) \<and> 0 \<notin> fst ` set (rq_dependencies rq2)"
proof -
  have s: "cs_reachable demo_busy" unfolding cs_reachable_def using demo_busy_steps demo_init by blast
  have J: "jobs demo_busy ! 0 \<in> set (jobs demo_busy)" "job_queue (jobs demo_busy ! 0) = Some 0" "job_fence (jobs demo_busy ! 0) = 0"
    by (simp_all add: demo_busy_def demo_sys_first demo_job new_job_def demo_csc_simps)
  obtain w1 c1 rq1 where r1: "amdgpu_cs_submit_ib (demo_args 0 (- 22)) (idle_view {}) (demo_csc 1) (ws demo_busy) = Some (w1, c1, rq1)"
    by (rule real_buffers_submit[OF demo_csc_simps(6,7,1)])
  obtain w2 c2 rq2 where r2: "amdgpu_cs_submit_ib (demo_args 3 0) (idle_view {}) (demo_csc 2) w1 = Some (w2, c2, rq2)"
    by (rule real_buffers_submit[OF demo_csc_simps(6,7,1)])
  have "alt_fence (bo_of (ws demo_busy) 5) = None" by (simp add: demo_busy_simps(2-) demo_state_def demo_ws_def sample_bo_def)
  moreover have "submit_result (demo_args 0 (- 22)) \<noteq> 0" by (simp add: submit_result_def demo_args_def ECANCELED_def)
  ultimately have "signalled (fence_of w1 1) \<and> 0 \<notin> fst ` set (rq_dependencies rq2)"
    using rejected_submission_hides_job[OF s J(1,2) _ _ _ _ demo_busy_ready(1) demo_busy_ready(2) r1 _ _ _ _ _ _ r2] J(3)
    by (simp add: demo_csc_simps demo_busy_ready(3) demo_busy_simps(2-))
  then show ?thesis using s r1 r2 J(3) demo_busy_simps(2) by blast
qed

end
