(* ===== verification/Upload.thy ===== *)
theory Upload
  imports AmdgpuBo
begin

text \<open>
  The suballocators of gallium: \<open>u_suballocator\<close> (gallium/auxiliary/util/u_suballoc.c) and \<open>u_upload_mgr\<close>
  (u_upload_mgr.c). Both cut ranges off the current buffer and take a new one when it is full. What
  they ask of the driver is recorded as events; whether the driver can create or map a buffer is an
  argument, and the buffers it creates are numbered. Both are interpretations of the locale
  \<open>bump_allocator\<close>, which shows that no two ranges overlap.
\<close>

section \<open>What the driver is asked\<close>

datatype pipe_event =
    Created nat nat
  | Cleared nat nat nat
  | Mapped nat nat nat dword
  | Flushed nat int nat
  | Unmapped nat
  | Released nat

record pipe_log =
  next_resource :: nat
  events :: "pipe_event list"

definition emit :: "pipe_event \<Rightarrow> 'a pipe_log_scheme \<Rightarrow> 'a pipe_log_scheme" where
  "emit e s = s\<lparr>events := events s @ [e]\<rparr>"

definition pipe_resource_release :: "nat option \<Rightarrow> 'a pipe_log_scheme \<Rightarrow> 'a pipe_log_scheme" where
  "pipe_resource_release r s = (case r of None \<Rightarrow> s | Some b \<Rightarrow> emit (Released b) s)"

section \<open>The suballocator\<close>

record u_suballocator = pipe_log +
  sub_size :: nat
  zero_buffer_memory :: bool
  sub_buffer :: "nat option"
  sub_offset :: nat

definition u_suballocator_init :: "nat \<Rightarrow> bool \<Rightarrow> u_suballocator" where
  "u_suballocator_init sz zero =
    \<lparr>next_resource = 0, events = [], sub_size = sz, zero_buffer_memory = zero, sub_buffer = None, sub_offset = 0\<rparr>"

definition u_suballocator_destroy :: "u_suballocator \<Rightarrow> u_suballocator" where
  "u_suballocator_destroy s = (pipe_resource_release (sub_buffer s) s)\<lparr>sub_buffer := None\<rparr>"

text \<open>The buffer and the offset, or nothing.\<close>

definition sub_new_buffer :: "u_suballocator \<Rightarrow> u_suballocator" where
  "sub_new_buffer s =
    (let b = next_resource s; s1 = emit (Created b (sub_size s)) (s\<lparr>next_resource := Suc b, sub_buffer := Some b\<rparr>)
     in if zero_buffer_memory s then emit (Cleared b 0 (sub_size s)) s1 else s1)"

definition u_suballocator_alloc :: "bool \<Rightarrow> nat \<Rightarrow> nat \<Rightarrow> u_suballocator \<Rightarrow> (nat \<times> nat) option \<times> u_suballocator" where
  "u_suballocator_alloc create_ok sz alignment s =
    (let s1 = s\<lparr>sub_offset := align_u32 (sub_offset s) alignment\<rparr>
     in if sz > sub_size s then (None, s1)
        else let need = (sub_buffer s1 = None \<or> u32 (sub_offset s1 + sz) > sub_size s);
                 s2 = (if need then (pipe_resource_release (sub_buffer s1) s1)\<lparr>sub_buffer := None, sub_offset := 0\<rparr> else s1);
                 s3 = (if need \<and> create_ok then sub_new_buffer s2 else s2)
             in case sub_buffer s3 of
                  None \<Rightarrow> (None, s3)
                | Some b \<Rightarrow> (Some (b, sub_offset s3), s3\<lparr>sub_offset := u32 (sub_offset s3 + sz)\<rparr>))"

section \<open>The upload manager\<close>

definition PIPE_MAP_WRITE :: dword where "PIPE_MAP_WRITE = push_bit 1 1"
definition PIPE_MAP_UNSYNCHRONIZED :: dword where "PIPE_MAP_UNSYNCHRONIZED = push_bit 5 1"
definition PIPE_MAP_FLUSH_EXPLICIT :: dword where "PIPE_MAP_FLUSH_EXPLICIT = push_bit 6 1"
definition PIPE_MAP_PERSISTENT :: dword where "PIPE_MAP_PERSISTENT = push_bit 8 1"
definition PIPE_MAP_COHERENT :: dword where "PIPE_MAP_COHERENT = push_bit 9 1"

text \<open>\<open>transfer\<close> holds the buffer and \<open>box.x\<close>, \<open>map\<close> the buffer whose first byte the pointer stands for.\<close>

record u_upload_mgr = pipe_log +
  default_size :: nat
  map_flags :: dword
  map_persistent :: bool
  up_buffer :: "nat option"
  transfer :: "(nat \<times> int) option"
  up_map :: "nat option"
  buffer_size :: nat
  up_offset :: nat

definition s32 :: "nat \<Rightarrow> int" where
  "s32 n = (if n < 2 ^ 31 then int n else int n - 2 ^ 32)"

definition u_upload_create :: "bool \<Rightarrow> nat \<Rightarrow> u_upload_mgr" where
  "u_upload_create persistent_coherent sz =
    \<lparr>next_resource = 0, events = [], default_size = sz,
     map_flags = (if persistent_coherent
       then PIPE_MAP_WRITE OR PIPE_MAP_UNSYNCHRONIZED OR PIPE_MAP_PERSISTENT OR PIPE_MAP_COHERENT
       else PIPE_MAP_WRITE OR PIPE_MAP_UNSYNCHRONIZED OR PIPE_MAP_FLUSH_EXPLICIT),
     map_persistent = persistent_coherent, up_buffer = None, transfer = None, up_map = None, buffer_size = 0, up_offset = 0\<rparr>"

definition u_upload_create_default :: "bool \<Rightarrow> u_upload_mgr" where
  "u_upload_create_default persistent_coherent = u_upload_create persistent_coherent (1024 * 1024)"

definition u_upload_disable_persistent :: "u_upload_mgr \<Rightarrow> u_upload_mgr" where
  "u_upload_disable_persistent u =
    u\<lparr>map_persistent := False,
      map_flags := (map_flags u AND NOT (PIPE_MAP_COHERENT OR PIPE_MAP_PERSISTENT)) OR PIPE_MAP_FLUSH_EXPLICIT\<rparr>"

definition u_upload_clone :: "bool \<Rightarrow> u_upload_mgr \<Rightarrow> u_upload_mgr" where
  "u_upload_clone persistent_coherent u =
    (let r = u_upload_create persistent_coherent (default_size u)
     in if \<not> map_persistent u \<and> map_persistent r then u_upload_disable_persistent r else r)"

definition upload_unmap_internal :: "bool \<Rightarrow> u_upload_mgr \<Rightarrow> u_upload_mgr" where
  "upload_unmap_internal destroying u =
    (case transfer u of
       None \<Rightarrow> u
     | Some (b, x) \<Rightarrow>
         if \<not> destroying \<and> map_persistent u then u
         else let u1 = (if \<not> map_persistent u \<and> s32 (up_offset u) > x
                        then emit (Flushed b x (nat ((int (up_offset u) - x) mod 2 ^ 32))) u else u)
              in (emit (Unmapped b) u1)\<lparr>transfer := None, up_map := None\<rparr>)"

definition u_upload_unmap :: "u_upload_mgr \<Rightarrow> u_upload_mgr" where
  "u_upload_unmap = upload_unmap_internal False"

definition u_upload_release_buffer :: "u_upload_mgr \<Rightarrow> u_upload_mgr" where
  "u_upload_release_buffer u = (upload_unmap_internal True u)\<lparr>buffer_size := 0\<rparr>"


definition map_range :: "nat \<Rightarrow> nat \<Rightarrow> nat \<Rightarrow> u_upload_mgr \<Rightarrow> u_upload_mgr" where
  "map_range b x n u = (emit (Mapped b x n (map_flags u)) u)\<lparr>up_map := Some b, transfer := Some (b, s32 x)\<rparr>"

text \<open>The size of the new buffer or 0, and the old buffer, which the caller has to release. When the buffer cannot
  be mapped, it is released but stays in \<open>up_buffer\<close>.\<close>

definition u_upload_alloc_buffer :: "bool \<Rightarrow> bool \<Rightarrow> nat \<Rightarrow> u_upload_mgr \<Rightarrow> nat \<times> nat option \<times> u_upload_mgr" where
  "u_upload_alloc_buffer create_ok map_ok min_size u =
    (let u1 = u_upload_release_buffer u; releasebuf = up_buffer u1; u2 = u1\<lparr>up_buffer := None\<rparr>;
         sz = align_u32 (max (default_size u) min_size) 4096; b = next_resource u2
     in if \<not> create_ok then (0, releasebuf, u2)
        else let u3 = emit (Created b sz) (u2\<lparr>next_resource := Suc b, up_buffer := Some b\<rparr>)
             in if \<not> map_ok then (0, releasebuf, pipe_resource_release (up_buffer u3) (u_upload_release_buffer (u3\<lparr>up_map := None\<rparr>)))
                else (sz, releasebuf, (map_range b 0 sz u3)\<lparr>buffer_size := sz, up_offset := 0\<rparr>))"

record upload_request =
  min_out_offset :: nat
  up_size :: nat
  up_alignment :: nat
  force_reallocate :: bool
  create_ok :: bool
  map_ok :: bool

text \<open>The results are the buffer and offset, if \<open>ptr\<close> is not null, and \<open>releasebuf\<close>.\<close>

definition upload_finish :: "nat \<Rightarrow> nat option \<Rightarrow> upload_request \<Rightarrow> nat \<Rightarrow> u_upload_mgr
    \<Rightarrow> (nat \<times> nat) option \<times> nat option \<times> u_upload_mgr" where
  "upload_finish ofs releasebuf r bsize u =
    (case up_buffer u of
       None \<Rightarrow> (None, None, u)
     | Some b \<Rightarrow>
         if up_map u = None \<and> \<not> map_ok r then (None, None, u\<lparr>transfer := None\<rparr>)
         else let u1 = (if up_map u = None then map_range b ofs (u32 (bsize + 2 ^ 32 - ofs)) u else u)
              in (Some (b, ofs), releasebuf, u1\<lparr>up_offset := u32 (ofs + up_size r)\<rparr>))"

definition u_upload_alloc :: "upload_request \<Rightarrow> u_upload_mgr \<Rightarrow> (nat \<times> nat) option \<times> nat option \<times> u_upload_mgr" where
  "u_upload_alloc r u =
    (let ofs = align_u32 (max (min_out_offset r) (up_offset u)) (up_alignment r)
     in if force_reallocate r \<or> u32 (ofs + up_size r) > buffer_size u
        then let ofs = align_u32 (min_out_offset r) (up_alignment r);
                 (bsize, releasebuf, u1) = u_upload_alloc_buffer (create_ok r) (map_ok r) (u32 (ofs + up_size r)) u
             in if bsize = 0 then (None, None, u1) else upload_finish ofs releasebuf r bsize u1
        else upload_finish ofs None r (buffer_size u) u)"

text \<open>The variant that takes a reference for the caller releases the old buffer itself.\<close>

definition u_upload_alloc_ref :: "upload_request \<Rightarrow> u_upload_mgr \<Rightarrow> (nat \<times> nat) option \<times> u_upload_mgr" where
  "u_upload_alloc_ref r u =
    (case u_upload_alloc r u of (res, releasebuf, u1) \<Rightarrow> (res, pipe_resource_release releasebuf u1))"

section \<open>Bump allocators\<close>

text \<open>The ranges (buffer, offset, size) that a sequence of requests is given.\<close>

fun bump_run ::
  "('r \<Rightarrow> 's \<Rightarrow> (nat \<times> nat) option \<times> 's) \<Rightarrow> ('r \<Rightarrow> nat) \<Rightarrow> 'r list \<Rightarrow> 's \<Rightarrow> (nat \<times> nat \<times> nat) list \<times> 's" where
  "bump_run alloc sz [] s = ([], s)"
| "bump_run alloc sz (r # rs) s =
    (case alloc r s of (x, s1) \<Rightarrow> case bump_run alloc sz rs s1 of (hs, s2) \<Rightarrow>
      ((case x of None \<Rightarrow> hs | Some (b, ofs) \<Rightarrow> (b, ofs, sz r) # hs), s2))"

definition apart :: "nat \<times> nat \<times> nat \<Rightarrow> nat \<times> nat \<times> nat \<Rightarrow> bool" where
  "apart h k = (case (h, k) of ((b, x, n), (c, y, m)) \<Rightarrow> b \<noteq> c \<or> x + n \<le> y)"

text \<open>\<open>mark s b\<close> is the first byte of buffer \<open>b\<close> that was never handed out.\<close>

locale bump_allocator =
  fixes ok :: "'s \<Rightarrow> bool" and good :: "'r \<Rightarrow> bool" and size_of :: "'r \<Rightarrow> nat"
    and alloc :: "'r \<Rightarrow> 's \<Rightarrow> (nat \<times> nat) option \<times> 's" and mark :: "'s \<Rightarrow> nat \<Rightarrow> nat"
  assumes alloc_ok: "ok s \<Longrightarrow> good r \<Longrightarrow> ok (snd (alloc r s))"
    and mark_mono: "ok s \<Longrightarrow> good r \<Longrightarrow> mark s b \<le> mark (snd (alloc r s)) b"
    and alloc_range: "ok s \<Longrightarrow> good r \<Longrightarrow> fst (alloc r s) = Some (b, x)
      \<Longrightarrow> mark s b \<le> x \<and> x + size_of r \<le> mark (snd (alloc r s)) b"
begin

lemma run_apart:
  assumes "ok s" "list_all good rs"
  shows "sorted_wrt apart (fst (bump_run alloc size_of rs s)) \<and> ok (snd (bump_run alloc size_of rs s))
    \<and> (\<forall>(b, x, n)\<in>set (fst (bump_run alloc size_of rs s)). mark s b \<le> x)"
  using assms
proof (induction rs arbitrary: s)
  case (Cons r rs)
  obtain x s1 where a: "alloc r s = (x, s1)" by fastforce
  obtain hs s2 where r: "bump_run alloc size_of rs s1 = (hs, s2)" by fastforce
  have g: "good r" using Cons.prems by simp
  have "ok s1" using alloc_ok[OF Cons.prems(1) g] a by simp
  then have i: "sorted_wrt apart hs" "ok s2" "\<forall>(b, x, n)\<in>set hs. mark s1 b \<le> x"
    using Cons.IH[of s1] Cons.prems r by auto
  have mono: "mark s b \<le> mark s1 b" for b using mark_mono[OF Cons.prems(1) g] a by (metis snd_conv)
  then have low: "\<forall>(b, x, n)\<in>set hs. mark s b \<le> x" using i(3) by (fastforce intro: order_trans)
  show ?case
  proof (cases x)
    case None
    then show ?thesis using a r i low by simp
  next
    case (Some y)
    then obtain b ofs where y: "x = Some (b, ofs)" by (cases y) auto
    then have h: "mark s b \<le> ofs" "ofs + size_of r \<le> mark s1 b"
      using alloc_range[OF Cons.prems(1) g, of b ofs] a by simp_all
    then have "\<forall>k\<in>set hs. apart (b, ofs, size_of r) k" using i(3) by (fastforce simp: apart_def)
    then show ?thesis using a r i low h y by simp
  qed
qed simp

end

section \<open>Arithmetic of the bounds\<close>

lemma align_u32_bounds:
  assumes "0 < a" "v + a \<le> 2 ^ 32"
  shows "v \<le> align_u32 v a" "align_u32 v a < v + a" "a dvd align_u32 v a"
proof -
  have e: "u32 (v + a - 1) = v + a - 1" using assms by simp
  have "(v + a - 1) div a * a + (v + a - 1) mod a = v + a - 1" "(v + a - 1) mod a < a" using assms(1) by simp_all
  then show "v \<le> align_u32 v a" "align_u32 v a < v + a" "a dvd align_u32 v a"
    unfolding align_u32_def e using assms(1) by (linarith, linarith, simp)
qed

text \<open>An aligned number does not pass a multiple of the alignment.\<close>

lemma align_u32_cap:
  assumes "0 < a" "a dvd c" "v \<le> c" "v + a \<le> 2 ^ 32"
  shows "align_u32 v a \<le> c"
proof -
  obtain i j where i: "align_u32 v a = a * i" and j: "c = a * j"
    using align_u32_bounds(3)[OF assms(1,4)] assms(2) by (auto elim!: dvdE)
  have "a * i < a * Suc j" using align_u32_bounds(2)[OF assms(1,4)] assms(3) i j by simp
  then have "i \<le> j" using assms(1) by (metis less_Suc_eq_le nat_mult_less_cancel1)
  then show ?thesis using i j by simp
qed

definition small_pot :: "nat \<Rightarrow> nat \<Rightarrow> bool" where
  "small_pot m a \<longleftrightarrow> a \<in> (\<lambda>k. 2 ^ k) ` {..m}"

lemma small_potD: "small_pot m a \<Longrightarrow> 0 < a" "small_pot m a \<Longrightarrow> a dvd 2 ^ m" "small_pot m a \<Longrightarrow> a \<le> 2 ^ m"
  by (auto simp: small_pot_def le_imp_power_dvd)

lemma align_small:
  assumes "small_pot m a" "v \<le> 2 ^ n" "m \<le> n" "n \<le> 30"
  shows "v \<le> align_u32 v a" "align_u32 v a \<le> 2 ^ n" "a dvd align_u32 v a"
proof -
  have p: "(2::nat) ^ n \<le> 2 ^ 30" "(2::nat) ^ m \<le> 2 ^ n" using assms(3,4) by (intro power_increasing; simp)+
  have "a \<le> 2 ^ 30" "v \<le> 2 ^ 30" using small_potD(3)[OF assms(1)] assms(2) p by linarith+
  then have b: "v + a \<le> 2 ^ 32" by simp
  have d: "a dvd 2 ^ n" using small_potD(2)[OF assms(1)] assms(3) by (meson dvd_trans le_imp_power_dvd)
  show "v \<le> align_u32 v a" "align_u32 v a \<le> 2 ^ n" "a dvd align_u32 v a"
    using align_u32_bounds[OF small_potD(1)[OF assms(1)] b] align_u32_cap[OF small_potD(1)[OF assms(1)] d assms(2) b] by auto
qed

section \<open>The suballocator is a bump allocator\<close>

definition sub_ok :: "u_suballocator \<Rightarrow> bool" where
  "sub_ok s \<longleftrightarrow> sub_size s \<le> 2 ^ 30 \<and> sub_offset s \<le> 2 ^ 30 \<and> (\<forall>b. sub_buffer s = Some b \<longrightarrow> b < next_resource s)
    \<and> (zero_buffer_memory s \<longrightarrow> (\<forall>b<next_resource s. Cleared b 0 (sub_size s) \<in> set (events s)))"

definition sub_mark :: "u_suballocator \<Rightarrow> nat \<Rightarrow> nat" where
  "sub_mark s b = (if next_resource s \<le> b then 0 else if sub_buffer s = Some b then sub_offset s else 2 ^ 32)"

text \<open>A request: whether a new buffer can be had, the size and the alignment.\<close>

definition sub_step :: "bool \<times> nat \<times> nat \<Rightarrow> u_suballocator \<Rightarrow> (nat \<times> nat) option \<times> u_suballocator" where
  "sub_step r = (case r of (c, n, a) \<Rightarrow> u_suballocator_alloc c n a)"

definition sub_good :: "bool \<times> nat \<times> nat \<Rightarrow> bool" where
  "sub_good r \<longleftrightarrow> (case r of (c, n, a) \<Rightarrow> 0 < n \<and> small_pot 30 a)"

lemma emit_simps [simp]:
  "next_resource (emit e s) = next_resource s" "events (emit e s) = events s @ [e]"
  "sub_size (emit e t) = sub_size t" "sub_buffer (emit e t) = sub_buffer t" "sub_offset (emit e t) = sub_offset t"
  "next_resource (pipe_resource_release b s) = next_resource s"
  "sub_size (pipe_resource_release b t) = sub_size t" "sub_offset (pipe_resource_release b t) = sub_offset t"
  by (simp_all add: emit_def pipe_resource_release_def split: option.splits)

lemma emit_zero_simps [simp]:
  "zero_buffer_memory (emit e t) = zero_buffer_memory t" "zero_buffer_memory (pipe_resource_release b t) = zero_buffer_memory t"
  by (simp_all add: emit_def pipe_resource_release_def split: option.splits)

lemma release_events: "set (events s) \<subseteq> set (events (pipe_resource_release b s))"
  by (auto simp: pipe_resource_release_def split: option.splits)

lemma sub_new_buffer_events:
  "zero_buffer_memory (sub_new_buffer s) = zero_buffer_memory s" "set (events s) \<subseteq> set (events (sub_new_buffer s))"
  "zero_buffer_memory s \<Longrightarrow> Cleared (next_resource s) 0 (sub_size s) \<in> set (events (sub_new_buffer s))"
  by (auto simp: sub_new_buffer_def Let_def)

lemma sub_new_buffer_simps [simp]:
  "sub_buffer (sub_new_buffer s) = Some (next_resource s)" "next_resource (sub_new_buffer s) = Suc (next_resource s)"
  "sub_size (sub_new_buffer s) = sub_size s" "sub_offset (sub_new_buffer s) = sub_offset s"
  by (simp_all add: sub_new_buffer_def Let_def)

definition sub_grows :: "u_suballocator \<Rightarrow> u_suballocator \<Rightarrow> bool" where
  "sub_grows s s' \<longleftrightarrow> zero_buffer_memory s' = zero_buffer_memory s \<and> set (events s) \<subseteq> set (events s')"

lemma sub_alloc_cases:
  assumes "sub_ok s" "sub_good (c, n, a)" "u_suballocator_alloc c n a s = (res, s')"
  obtains (fail) "sub_grows s s'" "res = None" "next_resource s' = next_resource s" "sub_size s' = sub_size s"
      "sub_buffer s' = sub_buffer s \<and> sub_offset s \<le> sub_offset s' \<and> sub_offset s' \<le> 2 ^ 30 \<or> sub_buffer s' = None \<and> sub_offset s' = 0"
  | (same) b x where "sub_grows s s'" "res = Some (b, x)" "sub_buffer s = Some b" "sub_buffer s' = Some b" "sub_offset s \<le> x" "a dvd x"
      "sub_offset s' = x + n" "x + n \<le> sub_size s" "sub_size s' = sub_size s" "next_resource s' = next_resource s"
  | (new) "sub_grows s s'" "zero_buffer_memory s \<longrightarrow> Cleared (next_resource s) 0 (sub_size s) \<in> set (events s')" "res = Some (next_resource s, 0)" "sub_buffer s' = Some (next_resource s)" "sub_offset s' = n" "n \<le> sub_size s"
      "sub_size s' = sub_size s" "next_resource s' = Suc (next_resource s)"
proof -
  let ?x = "align_u32 (sub_offset s) a"
  have x: "sub_offset s \<le> ?x" "?x \<le> 2 ^ 30" "a dvd ?x"
    using align_small[of 30 a "sub_offset s" 30] assms(1,2) by (simp_all add: sub_ok_def sub_good_def)
  have u: "n \<le> sub_size s \<Longrightarrow> u32 (?x + n) = ?x + n" "n \<le> sub_size s \<Longrightarrow> u32 n = n" using x assms(1) by (simp_all add: sub_ok_def)
  consider (big) "sub_size s < n" | (need) "n \<le> sub_size s" "sub_buffer s = None \<or> sub_size s < ?x + n"
    | (fits) b where "n \<le> sub_size s" "sub_buffer s = Some b" "?x + n \<le> sub_size s" by fastforce
  then show thesis
  proof cases
    case big
    then have "res = None" "s' = s\<lparr>sub_offset := ?x\<rparr>" using assms(3) by (simp_all add: u_suballocator_alloc_def Let_def)
    then show ?thesis using x by (intro fail) (simp_all add: sub_grows_def)
  next
    case need
    let ?s = "(pipe_resource_release (sub_buffer s) (s\<lparr>sub_offset := ?x\<rparr>))\<lparr>sub_buffer := None, sub_offset := 0\<rparr>"
    have e: "u_suballocator_alloc c n a s = (if c then (Some (next_resource s, 0), (sub_new_buffer ?s)\<lparr>sub_offset := n\<rparr>) else (None, ?s))"
      using need u by (simp add: u_suballocator_alloc_def Let_def)
    have ev: "zero_buffer_memory ?s = zero_buffer_memory s" "set (events s) \<subseteq> set (events ?s)" "next_resource ?s = next_resource s" "sub_size ?s = sub_size s"
      using release_events[of "s\<lparr>sub_offset := ?x\<rparr>" "sub_buffer s"] by simp_all
    show ?thesis
    proof (cases c)
      case True
      then show ?thesis using e assms(3) need(1) ev sub_new_buffer_events[of ?s] by (intro new) (auto simp: sub_grows_def)
    next
      case False
      then show ?thesis using e assms(3) ev by (intro fail) (auto simp: sub_grows_def)
    qed
  next
    case (fits b)
    then have "res = Some (b, ?x)" "s' = s\<lparr>sub_offset := ?x + n\<rparr>"
      using assms(3) u(1) by (auto simp: u_suballocator_alloc_def Let_def)
    then show ?thesis using x fits by (intro same[of b ?x]) (simp_all add: sub_grows_def)
  qed
qed

interpretation sub_bump: bump_allocator sub_ok sub_good "\<lambda>(c, n, a). n" sub_step sub_mark
proof
  fix s r b assume s: "sub_ok s" "sub_good r"
  obtain c n a where r: "r = (c, n, a)" by (cases r)
  obtain res s' where e: "u_suballocator_alloc c n a s = (res, s')" by fastforce
  have st: "sub_step r s = (res, s')" using e by (simp add: sub_step_def r)
  have "sub_ok s' \<and> sub_mark s b \<le> sub_mark s' b
    \<and> (\<forall>x. res = Some (b, x) \<longrightarrow> sub_mark s b \<le> x \<and> x + n \<le> sub_mark s' b)" for b
    using s(1) s(2)[unfolded r] e
    by (cases rule: sub_alloc_cases) (use s(1) in \<open>auto simp: sub_ok_def sub_mark_def sub_grows_def less_Suc_eq\<close>)
  then show "sub_ok (snd (sub_step r s))" "sub_mark s b \<le> sub_mark (snd (sub_step r s)) b"
    "fst (sub_step r s) = Some (b, x) \<Longrightarrow> sub_mark s b \<le> x \<and> x + (case r of (c, n, a) \<Rightarrow> n) \<le> sub_mark (snd (sub_step r s)) b" for x
    unfolding st by (auto simp: r)
qed

lemma sub_run_inside:
  assumes "sub_ok s" "list_all sub_good rs"
  defines "R \<equiv> bump_run sub_step (\<lambda>(c, n, a). n) rs s"
  shows "(\<forall>(b, x, n)\<in>set (fst R). b < next_resource (snd R) \<and> x + n \<le> sub_size s)
    \<and> next_resource s \<le> next_resource (snd R) \<and> sub_size (snd R) = sub_size s \<and> zero_buffer_memory (snd R) = zero_buffer_memory s"
  unfolding R_def using assms(1,2)
proof (induction rs arbitrary: s)
  case (Cons r rs)
  obtain c n a where r: "r = (c, n, a)" by (cases r)
  obtain res s1 where e: "u_suballocator_alloc c n a s = (res, s1)" by fastforce
  obtain hs s2 where t: "bump_run sub_step (\<lambda>(c, n, a). n) rs s1 = (hs, s2)" by fastforce
  have g: "sub_good (c, n, a)" and st: "sub_step r s = (res, s1)" using Cons.prems e r by (simp_all add: sub_step_def)
  have "sub_ok s1" using sub_bump.alloc_ok[OF Cons.prems(1), of r] g r st by simp
  then have i: "\<forall>(b, x, n)\<in>set hs. b < next_resource s2 \<and> x + n \<le> sub_size s1" "next_resource s1 \<le> next_resource s2"
    "sub_size s2 = sub_size s1" "zero_buffer_memory s2 = zero_buffer_memory s1"
    using Cons.IH[of s1] Cons.prems t by auto
  have "sub_size s1 = sub_size s \<and> next_resource s \<le> next_resource s1 \<and> zero_buffer_memory s1 = zero_buffer_memory s
    \<and> (\<forall>b x. res = Some (b, x) \<longrightarrow> b < next_resource s1 \<and> x + n \<le> sub_size s)"
    using Cons.prems(1) g e by (cases rule: sub_alloc_cases) (use Cons.prems(1) in \<open>auto simp: sub_grows_def sub_ok_def\<close>)
  then show ?case using i st t r by (cases res) (auto simp: less_le_trans)
qed simp

section \<open>The upload manager is a bump allocator\<close>

definition up_ok :: "u_upload_mgr \<Rightarrow> bool" where
  "up_ok u \<longleftrightarrow> default_size u \<le> 2 ^ 29 \<and> buffer_size u \<le> 2 ^ 30 \<and> up_offset u \<le> 2 ^ 30
    \<and> (0 < buffer_size u \<longrightarrow> up_offset u \<le> buffer_size u \<and> up_buffer u \<noteq> None)
    \<and> (\<forall>b. up_buffer u = Some b \<longrightarrow> b < next_resource u) \<and> (transfer u = None \<longleftrightarrow> up_map u = None)
    \<and> (\<forall>b x. transfer u = Some (b, x) \<longrightarrow> up_buffer u = Some b \<and> 0 < buffer_size u \<and> 0 \<le> x \<and> x \<le> int (up_offset u))"

definition up_mark :: "u_upload_mgr \<Rightarrow> nat \<Rightarrow> nat" where
  "up_mark u b = (if next_resource u \<le> b then 0 else if up_buffer u = Some b \<and> 0 < buffer_size u then up_offset u else 2 ^ 32)"

datatype upload_op = UploadAlloc upload_request | UploadUnmap

fun upload_step :: "upload_op \<Rightarrow> u_upload_mgr \<Rightarrow> (nat \<times> nat) option \<times> u_upload_mgr" where
  "upload_step (UploadAlloc r) u = u_upload_alloc_ref r u"
| "upload_step UploadUnmap u = (None, u_upload_unmap u)"

fun upload_op_size :: "upload_op \<Rightarrow> nat" where
  "upload_op_size (UploadAlloc r) = up_size r"
| "upload_op_size UploadUnmap = 0"

definition request_ok :: "upload_request \<Rightarrow> bool" where
  "request_ok r \<longleftrightarrow> min_out_offset r \<le> 2 ^ 29 \<and> 0 < up_size r \<and> up_size r \<le> 2 ^ 29 \<and> small_pot 29 (up_alignment r)"

fun upload_good :: "upload_op \<Rightarrow> bool" where
  "upload_good (UploadAlloc r) = request_ok r"
| "upload_good UploadUnmap = True"

text \<open>Bytes that are flushed, or mapped and below the offset.\<close>

definition covered :: "u_upload_mgr \<Rightarrow> nat \<Rightarrow> nat \<Rightarrow> nat \<Rightarrow> bool" where
  "covered u b x n \<longleftrightarrow> (\<exists>y m. Flushed b y m \<in> set (events u) \<and> y \<le> int x \<and> int (x + n) \<le> y + int m)
    \<or> (\<exists>y. transfer u = Some (b, y) \<and> y \<le> int x \<and> x + n \<le> up_offset u)"

lemma emit_upload_simps [simp]:
  fixes u :: u_upload_mgr
  shows "default_size (emit e u) = default_size u" "map_flags (emit e u) = map_flags u" "map_persistent (emit e u) = map_persistent u"
  "up_buffer (emit e u) = up_buffer u" "transfer (emit e u) = transfer u" "up_map (emit e u) = up_map u"
  "buffer_size (emit e u) = buffer_size u" "up_offset (emit e u) = up_offset u"
  by (simp_all add: emit_def)

lemma release_upload_simps [simp]:
  fixes u :: u_upload_mgr
  shows "default_size (pipe_resource_release b u) = default_size u" "map_persistent (pipe_resource_release b u) = map_persistent u"
  "up_buffer (pipe_resource_release b u) = up_buffer u" "transfer (pipe_resource_release b u) = transfer u"
  "up_map (pipe_resource_release b u) = up_map u" "buffer_size (pipe_resource_release b u) = buffer_size u"
  "up_offset (pipe_resource_release b u) = up_offset u" "set (events u) \<subseteq> set (events (pipe_resource_release b u))"
  by (auto simp: pipe_resource_release_def split: option.splits)

lemma covered_mono:
  "covered u b x n \<Longrightarrow> set (events u) \<subseteq> set (events v) \<Longrightarrow> transfer v = transfer u \<Longrightarrow> up_offset u \<le> up_offset v \<Longrightarrow> covered v b x n"
  unfolding covered_def by (elim disjE) (blast, metis order_trans)

lemma s32_small: "n \<le> 2 ^ 30 \<Longrightarrow> s32 n = int n"
  by (simp add: s32_def)

lemma unmap_internal_spec:
  fixes d :: bool and u :: u_upload_mgr
  assumes "up_ok u"
  defines "v \<equiv> upload_unmap_internal d u"
  shows "next_resource v = next_resource u" "default_size v = default_size u" "map_persistent v = map_persistent u"
    "up_buffer v = up_buffer u" "buffer_size v = buffer_size u" "up_offset v = up_offset u"
    "d \<or> \<not> map_persistent u \<Longrightarrow> transfer v = None \<and> up_map v = None" "up_ok v"
    "\<not> map_persistent u \<Longrightarrow> 0 < n \<Longrightarrow> covered u b x n \<Longrightarrow> covered v b x n"
proof -
  have s: "next_resource v = next_resource u \<and> default_size v = default_size u \<and> map_persistent v = map_persistent u
    \<and> up_buffer v = up_buffer u \<and> buffer_size v = buffer_size u \<and> up_offset v = up_offset u
    \<and> (transfer v = None \<and> up_map v = None \<or> \<not> d \<and> map_persistent u \<and> v = u)"
    using assms(1) unfolding v_def by (auto simp: upload_unmap_internal_def Let_def up_ok_def split: option.splits)
  then show "next_resource v = next_resource u" "default_size v = default_size u" "map_persistent v = map_persistent u"
    "up_buffer v = up_buffer u" "buffer_size v = buffer_size u" "up_offset v = up_offset u"
    "d \<or> \<not> map_persistent u \<Longrightarrow> transfer v = None \<and> up_map v = None" by auto
  show "up_ok v" using s assms(1) by (auto simp: up_ok_def)
  assume p: "\<not> map_persistent u" "0 < n" and c: "covered u b x n"
  show "covered v b x n"
  proof (cases "transfer u")
    case None
    then show ?thesis using c by (simp add: v_def upload_unmap_internal_def)
  next
    case (Some t)
    then obtain a y where t: "transfer u = Some (a, y)" by (cases t) auto
    have b: "0 \<le> y" "y \<le> int (up_offset u)" "up_offset u \<le> 2 ^ 30" using assms(1) t by (auto simp: up_ok_def)
    have m: "(int (up_offset u) - y) mod 4294967296 = int (up_offset u) - y" using b by (intro mod_pos_pos_trivial) auto
    have "set (events u) \<subseteq> set (events v)"
      and fl: "y < int (up_offset u) \<Longrightarrow> Flushed a y (nat (int (up_offset u) - y)) \<in> set (events v)"
      using t p(1) s32_small[OF b(3)] m unfolding v_def by (auto simp: upload_unmap_internal_def Let_def)
    moreover have "y < int (up_offset u)" if "y \<le> int x" "x + n \<le> up_offset u" using that p(2) by linarith
    ultimately show ?thesis using c b t unfolding covered_def by fastforce
  qed
qed

lemma covered_events: "Flushed b y m \<in> set (events u) \<Longrightarrow> y \<le> int x \<Longrightarrow> int (x + n) \<le> y + int m \<Longrightarrow> covered u b x n"
  unfolding covered_def by blast

lemma covered_flushed:
  assumes "covered u b x n" "transfer u = None" "set (events u) \<subseteq> set (events v)"
  shows "covered v b x n"
  using assms unfolding covered_def by auto

lemma alloc_buffer_spec:
  assumes "up_ok u" "m \<le> 2 ^ 30" "0 < m" and r: "u_upload_alloc_buffer c k m u = (bs, rel, v)"
  shows "up_ok v" "rel = up_buffer u" "map_persistent v = map_persistent u"
    and "\<not> map_persistent u \<Longrightarrow> 0 < n \<Longrightarrow> covered u b x n \<Longrightarrow> covered v b x n"
    and "bs = 0 \<and> buffer_size v = 0 \<and> next_resource u \<le> next_resource v \<or>
      m \<le> bs \<and> buffer_size v = bs \<and> up_offset v = 0 \<and> up_buffer v = Some (next_resource u)
      \<and> next_resource v = Suc (next_resource u) \<and> up_map v = Some (next_resource u) \<and> transfer v = Some (next_resource u, 0)"
proof -
  note s = unmap_internal_spec[OF assms(1), where d = True]
  let ?w = "upload_unmap_internal True u" and ?sz = "align_u32 (max (default_size u) m) 4096" and ?b = "next_resource u"
  have p: "small_pot 30 4096" unfolding small_pot_def by (rule image_eqI[of _ _ 12]) auto
  have "max (default_size u) m \<le> 2 ^ 30" using assms(1,2) by (auto simp: up_ok_def)
  then have z: "m \<le> ?sz" "?sz \<le> 2 ^ 30" using align_small[OF p, of "max (default_size u) m" 30] by auto
  consider (nobuf) "bs = 0" "v = ?w\<lparr>buffer_size := 0, up_buffer := None\<rparr>"
    | (nomap) "bs = 0" "up_ok v" "up_buffer v = Some ?b" "buffer_size v = 0" "next_resource v = Suc ?b" "set (events ?w) \<subseteq> set (events v)"
        "map_persistent v = map_persistent u"
    | (new) "bs = ?sz" "v = (map_range ?b 0 ?sz (emit (Created ?b ?sz) (?w\<lparr>buffer_size := 0, next_resource := Suc ?b, up_buffer := Some ?b\<rparr>)))\<lparr>buffer_size := ?sz, up_offset := 0\<rparr>"
  proof (cases c)
    case False
    then show thesis using r nobuf by (simp add: u_upload_alloc_buffer_def Let_def u_upload_release_buffer_def)
  next
    case True
    show thesis
    proof (cases k)
      case True
      then show thesis using r \<open>c\<close> s(1) by (intro new) (auto simp: u_upload_alloc_buffer_def Let_def u_upload_release_buffer_def)
    next
      case False
      have e: "upload_unmap_internal True (emit (Created ?b ?sz) (?w\<lparr>buffer_size := 0, next_resource := Suc ?b, up_buffer := Some ?b, up_map := None\<rparr>))
        = emit (Created ?b ?sz) (?w\<lparr>buffer_size := 0, next_resource := Suc ?b, up_buffer := Some ?b, up_map := None\<rparr>)"
        using s(7) by (simp add: upload_unmap_internal_def)
      have em: "(emit e w)\<lparr>up_map := None\<rparr> = emit e (w\<lparr>up_map := None\<rparr>)" for e and w :: u_upload_mgr by (simp add: emit_def)
      have v: "bs = 0" "v = emit (Released ?b) ((emit (Created ?b ?sz) (?w\<lparr>buffer_size := 0, next_resource := Suc ?b, up_buffer := Some ?b, up_map := None\<rparr>))\<lparr>buffer_size := 0\<rparr>)"
        using r \<open>c\<close> False s(1) e by (simp_all add: u_upload_alloc_buffer_def Let_def u_upload_release_buffer_def em pipe_resource_release_def)
      show thesis
        by (rule nomap) (use v s assms(1) in \<open>auto simp: up_ok_def\<close>)
    qed
  qed
  then have "up_ok v \<and> map_persistent v = map_persistent u
    \<and> (bs = 0 \<and> buffer_size v = 0 \<and> next_resource u \<le> next_resource v \<or>
      m \<le> bs \<and> buffer_size v = bs \<and> up_offset v = 0 \<and> up_buffer v = Some (next_resource u)
      \<and> next_resource v = Suc (next_resource u) \<and> up_map v = Some (next_resource u) \<and> transfer v = Some (next_resource u, 0))
    \<and> set (events ?w) \<subseteq> set (events v)"
    using s assms(1,3) z by cases (auto simp: up_ok_def map_range_def s32_def)
  then show "up_ok v" "map_persistent v = map_persistent u" "\<not> map_persistent u \<Longrightarrow> 0 < n \<Longrightarrow> covered u b x n \<Longrightarrow> covered v b x n"
    "bs = 0 \<and> buffer_size v = 0 \<and> next_resource u \<le> next_resource v \<or>
      m \<le> bs \<and> buffer_size v = bs \<and> up_offset v = 0 \<and> up_buffer v = Some (next_resource u)
      \<and> next_resource v = Suc (next_resource u) \<and> up_map v = Some (next_resource u) \<and> transfer v = Some (next_resource u, 0)"
    using s(7,9) covered_flushed[of ?w b x n v] by auto
  show "rel = up_buffer u" using r s(4)
    by (auto simp: u_upload_alloc_buffer_def Let_def u_upload_release_buffer_def split: if_splits)
qed

text \<open>The end of an allocation, once the range is known to fit.\<close>

lemma upload_finish_spec:
  assumes "up_ok u" "up_buffer u = Some b" "0 < buffer_size u" "up_offset u \<le> x" "x + up_size r \<le> buffer_size u" "0 < up_size r"
    and r: "upload_finish x rel r (buffer_size u) u = (res, rel', v)"
  shows "up_ok v" "next_resource v = next_resource u" "up_buffer v = Some b" "buffer_size v = buffer_size u" "map_persistent v = map_persistent u"
    and "res = None \<and> rel' = None \<and> up_offset v = up_offset u \<or> res = Some (b, x) \<and> rel' = rel \<and> up_offset v = x + up_size r"
    and "covered u c y n \<Longrightarrow> covered v c y n" "res = Some (c, y) \<Longrightarrow> covered v c y (up_size r)"
proof -
  have bnd: "buffer_size u \<le> 2 ^ 30" using assms(1) by (simp add: up_ok_def)
  then have e: "u32 (x + up_size r) = x + up_size r" "s32 x = int x" using assms(5) by (simp_all add: s32_def)
  let ?u = "if up_map u = None then map_range b x (u32 (buffer_size u + 2 ^ 32 - x)) u else u"
  have tr: "transfer u = None \<longleftrightarrow> up_map u = None" "\<And>b y. transfer u = Some (b, y) \<Longrightarrow> up_buffer u = Some b \<and> y \<le> int (up_offset u)"
    using assms(1) by (auto simp: up_ok_def)
  have "(up_map u = None \<and> res = None \<and> rel' = None \<and> v = u\<lparr>transfer := None\<rparr>)
    \<or> (res = Some (b, x) \<and> rel' = rel \<and> v = ?u\<lparr>up_offset := x + up_size r\<rparr>)"
    using r assms(2) e(1) unfolding upload_finish_def Let_def by (auto split: if_splits)
  then have "up_ok v \<and> next_resource v = next_resource u \<and> up_buffer v = Some b \<and> buffer_size v = buffer_size u
    \<and> map_persistent v = map_persistent u \<and> set (events u) \<subseteq> set (events v) \<and> up_offset u \<le> up_offset v
    \<and> (res = None \<and> rel' = None \<and> up_offset v = up_offset u \<and> transfer v = transfer u
       \<or> res = Some (b, x) \<and> rel' = rel \<and> up_offset v = x + up_size r
         \<and> (transfer v = transfer u \<and> (\<exists>y\<le>int x. transfer v = Some (b, y)) \<or> transfer u = None \<and> transfer v = Some (b, int x)))"
  proof (elim disjE conjE)
    assume v: "up_map u = None" "res = None" "rel' = None" "v = u\<lparr>transfer := None\<rparr>"
    then show ?thesis using assms(1,2) tr(1) by (auto simp: up_ok_def)
  next
    assume v: "res = Some (b, x)" "rel' = rel" "v = ?u\<lparr>up_offset := x + up_size r\<rparr>"
    show ?thesis
    proof (cases "up_map u")
      case None
      then show ?thesis using v assms e tr(1) bnd by (auto simp: up_ok_def map_range_def)
    next
      case (Some c)
      then obtain y where "transfer u = Some (b, y)" "y \<le> int (up_offset u)"
        using tr assms(2) by (cases "transfer u") auto
      then show ?thesis using v Some assms bnd by (auto simp: up_ok_def)
    qed
  qed
  then show "up_ok v" "next_resource v = next_resource u" "up_buffer v = Some b" "buffer_size v = buffer_size u" "map_persistent v = map_persistent u"
    "res = None \<and> rel' = None \<and> up_offset v = up_offset u \<or> res = Some (b, x) \<and> rel' = rel \<and> up_offset v = x + up_size r"
    "covered u c y n \<Longrightarrow> covered v c y n" "res = Some (c, y) \<Longrightarrow> covered v c y (up_size r)"
    using covered_mono[of u c y n v] covered_flushed[of u c y n v] unfolding covered_def[of v c y "up_size r"] by auto
qed

text \<open>What an operation promises: the invariant, the marks, the range, and that nothing handed out before is lost
  to the flushes.\<close>

definition upload_promise :: "upload_request \<Rightarrow> u_upload_mgr \<Rightarrow> (nat \<times> nat) option \<Rightarrow> u_upload_mgr \<Rightarrow> bool" where
  "upload_promise r u res v \<longleftrightarrow> up_ok v \<and> map_persistent v = map_persistent u \<and> (\<forall>b. up_mark u b \<le> up_mark v b)
    \<and> (\<forall>b x. res = Some (b, x) \<longrightarrow> up_mark u b \<le> x \<and> x + up_size r \<le> up_mark v b \<and> up_alignment r dvd x
         \<and> min_out_offset r \<le> x \<and> x + up_size r \<le> buffer_size v \<and> covered v b x (up_size r))
    \<and> (\<not> map_persistent u \<longrightarrow> (\<forall>b x n. 0 < n \<longrightarrow> covered u b x n \<longrightarrow> covered v b x n))"

lemma mark_trivial: "up_ok u \<Longrightarrow> up_mark u b \<le> 2 ^ 32" "next_resource u \<le> b \<Longrightarrow> up_mark u b = 0"
  by (auto simp: up_mark_def up_ok_def)

lemma upload_in_place:
  assumes ok: "up_ok u" "request_ok r" and fit: "x + up_size r \<le> buffer_size u" "up_offset u \<le> x" "min_out_offset r \<le> x" "up_alignment r dvd x"
    and run: "upload_finish x rel r (buffer_size u) u = (res, rel', v)"
  shows "upload_promise r u res v"
proof -
  have n: "0 < up_size r" using ok(2) by (simp add: request_ok_def)
  then obtain b where b: "up_buffer u = Some b" "b < next_resource u" "0 < buffer_size u"
    using ok(1) fit(1) by (auto simp: up_ok_def)
  note s = upload_finish_spec[OF ok(1) b(1,3) fit(2,1) n run]
  have "up_offset u \<le> up_offset v" using s(6) fit(2) by auto
  then have "up_mark u c \<le> up_mark v c" for c using s(2-4) b by (auto simp: up_mark_def)
  moreover have "c = b \<and> y = x \<and> up_offset v = x + up_size r" if "res = Some (c, y)" for c y using s(6) that by auto
  ultimately show ?thesis
    unfolding upload_promise_def using s(1-5,7,8) fit b by (auto simp: up_mark_def)
qed

lemma upload_replace:
  assumes ok: "up_ok u" "request_ok r" and x: "x \<le> 2 ^ 29" "min_out_offset r \<le> x" "up_alignment r dvd x"
    and run: "u_upload_alloc_buffer c k (x + up_size r) u = (bs, rel, w)"
      "(res, rel', v) = (if bs = 0 then (None, None, w) else upload_finish x rel r bs w)"
  shows "upload_promise r u res v"
proof -
  have n: "0 < up_size r" "up_size r \<le> 2 ^ 29" using ok(2) by (simp_all add: request_ok_def)
  then have m: "x + up_size r \<le> 2 ^ 30" "0 < x + up_size r" using x(1) by simp_all
  note s = alloc_buffer_spec[OF ok(1) m run(1)]
  have old: "up_buffer u = Some b \<Longrightarrow> b < next_resource u" for b using ok(1) by (auto simp: up_ok_def)
  show ?thesis
  proof (cases "bs = 0")
    case True
    then have "res = None" "v = w" "buffer_size w = 0" "next_resource u \<le> next_resource w" using run(2) s(5) m(2) by auto
    moreover have "up_mark u b \<le> up_mark w b" for b
      using mark_trivial(1)[OF ok(1), of b] mark_trivial(2)[of u b] \<open>buffer_size w = 0\<close> \<open>next_resource u \<le> next_resource w\<close>
      by (cases "next_resource u \<le> b") (auto simp: up_mark_def)
    ultimately show ?thesis using s(1,3,4) by (simp add: upload_promise_def)
  next
    case False
    then have w: "x + up_size r \<le> bs" "buffer_size w = bs" "up_offset w = 0" "up_buffer w = Some (next_resource u)"
      "next_resource w = Suc (next_resource u)" using s(5) by auto
    have p: "upload_promise r w res v"
      using False run(2) w x ok(2) s(1) by (intro upload_in_place[of w r x rel res rel' v]) auto
    have lower: "up_mark u b \<le> up_mark w b" for b
      using mark_trivial(1)[OF ok(1), of b] w old False by (cases "b < next_resource u") (auto simp: up_mark_def)
    show ?thesis unfolding upload_promise_def
    proof (intro conjI allI impI)
      show "up_mark u b \<le> up_mark v b" for b using p lower[of b] unfolding upload_promise_def by (meson order_trans)
      show "up_mark u b \<le> y" if "res = Some (b, y)" for b y
        by (rule order_trans[OF lower]) (use p that in \<open>simp add: upload_promise_def\<close>)
      show "covered v b y n'" if "\<not> map_persistent u" "0 < n'" "covered u b y n'" for b y n'
        using p s(3) s(4)[OF that] that unfolding upload_promise_def by simp
    qed (use p s(3) in \<open>simp_all add: upload_promise_def\<close>)
  qed
qed

lemma upload_alloc_spec:
  assumes ok: "up_ok u" and g: "request_ok r" and run: "u_upload_alloc r u = (res, rel, v)"
  shows "upload_promise r u res v"
proof -
  let ?a = "up_alignment r" and ?n = "up_size r"
  have a: "small_pot 29 ?a" "0 < ?n" "?n \<le> 2 ^ 29" "min_out_offset r \<le> 2 ^ 29" using g by (simp_all add: request_ok_def)
  let ?o = "align_u32 (max (min_out_offset r) (up_offset u)) ?a" and ?m = "align_u32 (min_out_offset r) ?a"
  have o: "max (min_out_offset r) (up_offset u) \<le> ?o" "?o \<le> 2 ^ 30" "?a dvd ?o"
    using align_small[OF a(1), of "max (min_out_offset r) (up_offset u)" 30] a(4) ok by (auto simp: up_ok_def)
  have m: "min_out_offset r \<le> ?m" "?m \<le> 2 ^ 29" "?a dvd ?m" using align_small[OF a(1) a(4)] by auto
  have u: "u32 (?o + ?n) = ?o + ?n" "u32 (?m + ?n) = ?m + ?n" using o(2) m(2) a(3) by simp_all
  show ?thesis
  proof (cases "force_reallocate r \<or> ?o + ?n > buffer_size u")
    case True
    obtain bs rel' w where b: "u_upload_alloc_buffer (create_ok r) (map_ok r) (?m + ?n) u = (bs, rel', w)" by (metis prod_cases3)
    have "(res, rel, v) = (if bs = 0 then (None, None, w) else upload_finish ?m rel' r bs w)"
      using run True b u by (simp add: u_upload_alloc_def Let_def)
    then show ?thesis by (rule upload_replace[OF ok g m(2,1,3) b])
  next
    case False
    then have "upload_finish ?o None r (buffer_size u) u = (res, rel, v)" using run u(1) by (simp add: u_upload_alloc_def Let_def)
    then show ?thesis using False o by (intro upload_in_place[OF ok g, of ?o]) auto
  qed
qed

lemma upload_step_promise:
  assumes "up_ok u" "upload_good op"
  shows "up_ok (snd (upload_step op u))" "up_mark u b \<le> up_mark (snd (upload_step op u)) b"
    and "fst (upload_step op u) = Some (b, x) \<Longrightarrow> up_mark u b \<le> x \<and> x + upload_op_size op \<le> up_mark (snd (upload_step op u)) b
      \<and> covered (snd (upload_step op u)) b x (upload_op_size op)"
    and "\<not> map_persistent u \<Longrightarrow> \<not> map_persistent (snd (upload_step op u))
      \<and> (0 < n \<longrightarrow> covered u c y n \<longrightarrow> covered (snd (upload_step op u)) c y n)"
proof -
  have "up_ok (snd (upload_step op u)) \<and> up_mark u b \<le> up_mark (snd (upload_step op u)) b
    \<and> (fst (upload_step op u) = Some (b, x) \<longrightarrow> up_mark u b \<le> x \<and> x + upload_op_size op \<le> up_mark (snd (upload_step op u)) b
      \<and> covered (snd (upload_step op u)) b x (upload_op_size op))
    \<and> (\<not> map_persistent u \<longrightarrow> \<not> map_persistent (snd (upload_step op u))
      \<and> (0 < n \<longrightarrow> covered u c y n \<longrightarrow> covered (snd (upload_step op u)) c y n))"
  proof (cases op)
    case (UploadAlloc r)
    obtain res rel v where run: "u_upload_alloc r u = (res, rel, v)" by (metis prod_cases3)
    have p: "upload_promise r u res v" using upload_alloc_spec[OF assms(1) _ run] assms(2) UploadAlloc by simp
    let ?v = "pipe_resource_release rel v"
    have "up_ok v \<Longrightarrow> up_ok ?v" "up_mark ?v b = up_mark v b" "covered v b' x' n' \<Longrightarrow> covered ?v b' x' n'" for b' x' n'
      by (simp_all add: up_ok_def up_mark_def covered_mono[of v _ _ _ ?v])
    then show ?thesis using p UploadAlloc run by (simp add: upload_promise_def u_upload_alloc_ref_def)
  next
    case UploadUnmap
    then show ?thesis
      using unmap_internal_spec(1-8)[OF assms(1), where d = False]
        unmap_internal_spec(9)[OF assms(1), where d = False and b = c and x = y and n = n] by (simp add: u_upload_unmap_def up_mark_def)
  qed
  then show "up_ok (snd (upload_step op u))" "up_mark u b \<le> up_mark (snd (upload_step op u)) b"
    "fst (upload_step op u) = Some (b, x) \<Longrightarrow> up_mark u b \<le> x \<and> x + upload_op_size op \<le> up_mark (snd (upload_step op u)) b
      \<and> covered (snd (upload_step op u)) b x (upload_op_size op)"
    "\<not> map_persistent u \<Longrightarrow> \<not> map_persistent (snd (upload_step op u))
      \<and> (0 < n \<longrightarrow> covered u c y n \<longrightarrow> covered (snd (upload_step op u)) c y n)" by auto
qed

interpretation upload_bump: bump_allocator up_ok upload_good upload_op_size upload_step up_mark
  by unfold_locales (use upload_step_promise in blast)+

lemma upload_create_ok: "sz \<le> 2 ^ 29 \<Longrightarrow> up_ok (u_upload_create p sz)"
  by (simp add: up_ok_def u_upload_create_def)

lemma run_covered:
  assumes "up_ok u" "list_all upload_good ops" "\<not> map_persistent u"
  defines "R \<equiv> bump_run upload_step upload_op_size ops u"
  shows "\<not> map_persistent (snd R) \<and> (\<forall>(b, x, n)\<in>set (fst R). 0 < n \<and> covered (snd R) b x n)
    \<and> (\<forall>b x n. 0 < n \<longrightarrow> covered u b x n \<longrightarrow> covered (snd R) b x n)"
  unfolding R_def using assms(1-3)
proof (induction ops arbitrary: u)
  case (Cons op ops)
  obtain res v where a: "upload_step op u = (res, v)" by fastforce
  obtain hs w where r: "bump_run upload_step upload_op_size ops v = (hs, w)" by fastforce
  have g: "upload_good op" using Cons.prems by simp
  note s = upload_step_promise[OF Cons.prems(1) g, unfolded a, simplified]
  have i: "\<not> map_persistent w" "\<forall>(b, x, n)\<in>set hs. 0 < n \<and> covered w b x n" "\<And>b x n. 0 < n \<Longrightarrow> covered v b x n \<Longrightarrow> covered w b x n"
    using Cons.IH[of v] s(1,4) Cons.prems r by auto
  have "0 < upload_op_size op \<and> covered w b x (upload_op_size op)" if "res = Some (b, x)" for b x
  proof -
    have "0 < upload_op_size op" using g that a by (cases op) (auto simp: request_ok_def)
    then show ?thesis using i(3) s(3)[of b x] that by simp
  qed
  then show ?case using a r i s(4) Cons.prems(3) by (cases res) auto
qed simp

section \<open>Properties\<close>

text \<open>C26: Over any sequence of requests and unmaps of an upload manager, also when buffers cannot be created or mapped,
  no two ranges that it hands out overlap. A range it hands out starts at a multiple of the alignment
  and not below the smallest offset asked for, lies in the buffer and behind all ranges of that
  buffer. Sizes, offsets and alignments are at most \<open>2 ^ 29\<close>.\<close>

theorem upload_ranges_disjoint:
  assumes "sz \<le> 2 ^ 29" "list_all upload_good ops" "request_ok r"
    and "bump_run upload_step upload_op_size ops (u_upload_create p sz) = (hs, u)"
    and "u_upload_alloc_ref r u = (Some (b, x), v)"
  shows "sorted_wrt apart (hs @ [(b, x, up_size r)])
    \<and> up_alignment r dvd x \<and> min_out_offset r \<le> x \<and> x + up_size r \<le> buffer_size v"
proof -
  have ok: "up_ok (u_upload_create p sz)" using assms(1) by (rule upload_create_ok)
  have "bump_run upload_step upload_op_size (ops @ [UploadAlloc r]) s = (ks @ [(b, x, up_size r)], v)"
    if "bump_run upload_step upload_op_size ops s = (ks, u)" for ks s
    using that assms(5) by (induction ops arbitrary: s ks) (auto split: prod.splits option.splits)
  then have "bump_run upload_step upload_op_size (ops @ [UploadAlloc r]) (u_upload_create p sz) = (hs @ [(b, x, up_size r)], v)"
    using assms(4) .
  then have ap: "sorted_wrt apart (hs @ [(b, x, up_size r)])"
    using upload_bump.run_apart[OF ok, of "ops @ [UploadAlloc r]"] assms(2,3) by simp
  have u: "up_ok u" using upload_bump.run_apart[OF ok assms(2)] assms(4) by simp
  obtain res rel w where a: "u_upload_alloc r u = (res, rel, w)" by (metis prod_cases3)
  have e: "res = Some (b, x)" "buffer_size v = buffer_size w" using assms(5) a by (auto simp: u_upload_alloc_ref_def)
  have "upload_promise r u (Some (b, x)) w" using upload_alloc_spec[OF u assms(3) a] unfolding e(1) .
  then show ?thesis unfolding upload_promise_def e(2) using ap by blast
qed

definition demo_request :: "nat \<Rightarrow> nat \<Rightarrow> upload_request" where
  "demo_request n a = \<lparr>min_out_offset = 0, up_size = n, up_alignment = a, force_reallocate = False, create_ok = True, map_ok = True\<rparr>"

text \<open>C26 after a request of 100 bytes, an unmap, and a request that does not fit.\<close>

theorem upload_ranges_disjoint_witness:
  "bump_run upload_step upload_op_size [UploadAlloc (demo_request 100 4), UploadUnmap] (u_upload_create False 4096)
     = ([(0, 0, 100)], snd (bump_run upload_step upload_op_size [UploadAlloc (demo_request 100 4), UploadUnmap] (u_upload_create False 4096)))
   \<and> sorted_wrt apart [(0, 0, 100), (0, 256, 16)]"
proof -
  let ?ops = "[UploadAlloc (demo_request 100 4), UploadUnmap]" and ?u = "u_upload_create False 4096"
  note defs = u_upload_create_def u_upload_alloc_ref_def u_upload_alloc_def u_upload_alloc_buffer_def u_upload_release_buffer_def
    upload_unmap_internal_def u_upload_unmap_def upload_finish_def map_range_def emit_def pipe_resource_release_def demo_request_def
    align_u32_def s32_def Let_def
  define u where "u = snd (bump_run upload_step upload_op_size ?ops ?u)"
  have r: "bump_run upload_step upload_op_size ?ops ?u = ([(0, 0, 100)], u)" unfolding u_def by (simp add: defs)
  have p: "small_pot 29 4" "small_pot 29 256"
    unfolding small_pot_def by (rule image_eqI[of _ _ 2], simp, simp) (rule image_eqI[of _ _ 8], simp, simp)
  have g: "list_all upload_good ?ops" "request_ok (demo_request 16 256)" using p by (simp_all add: request_ok_def demo_request_def)
  have "fst (u_upload_alloc_ref (demo_request 16 256) u) = Some (0, 256)" unfolding u_def by (simp add: defs)
  then obtain v where v: "u_upload_alloc_ref (demo_request 16 256) u = (Some (0, 256), v)" by (metis prod.collapse)
  show ?thesis using upload_ranges_disjoint[OF _ g r v] r by (simp add: demo_request_def)
qed

text \<open>C27: Without persistent mappings, after any sequence of requests and unmaps the next unmap leaves every range handed
  out inside a range that was flushed to the GPU.\<close>

theorem upload_unmap_flushes_everything:
  assumes "sz \<le> 2 ^ 29" "list_all upload_good ops"
    and "bump_run upload_step upload_op_size ops (u_upload_create False sz) = (hs, u)" "(b, x, n) \<in> set hs"
  shows "\<exists>y m. Flushed b y m \<in> set (events (u_upload_unmap u)) \<and> y \<le> int x \<and> int (x + n) \<le> y + int m"
proof -
  have ok: "up_ok (u_upload_create False sz)" using assms(1) by (rule upload_create_ok)
  have "\<not> map_persistent (u_upload_create False sz)" by (simp add: u_upload_create_def)
  note c = run_covered[OF ok assms(2) this]
  have "up_ok u" using upload_bump.run_apart[OF ok assms(2)] assms(3) by simp
  note s = unmap_internal_spec(7,9)[OF this, where d = False]
  have "\<not> map_persistent u" "0 < n" "covered u b x n" using c assms(3,4) by auto
  then show ?thesis using s unfolding u_upload_unmap_def covered_def[of "upload_unmap_internal False u"] by auto
qed

text \<open>C27 after one request.\<close>

theorem upload_unmap_flushes_everything_witness:
  "\<exists>y m. Flushed 0 y m \<in> set (events (u_upload_unmap (snd (bump_run upload_step upload_op_size [UploadAlloc (demo_request 100 4)]
     (u_upload_create False 4096))))) \<and> y \<le> 0 \<and> 100 \<le> y + int m"
proof -
  let ?ops = "[UploadAlloc (demo_request 100 4)]" and ?u = "u_upload_create False 4096"
  obtain hs u where r: "bump_run upload_step upload_op_size ?ops ?u = (hs, u)" by fastforce
  then have h: "(0, 0, 100) \<in> set hs"
    by (auto simp: u_upload_create_def u_upload_alloc_ref_def u_upload_alloc_def u_upload_alloc_buffer_def u_upload_release_buffer_def
      upload_unmap_internal_def upload_finish_def map_range_def emit_def pipe_resource_release_def demo_request_def align_u32_def s32_def Let_def)
  have "small_pot 29 4" unfolding small_pot_def by (rule image_eqI[of _ _ 2]) simp_all
  then have g: "list_all upload_good ?ops" by (simp add: request_ok_def demo_request_def)
  show ?thesis using upload_unmap_flushes_everything[OF _ g r h] r by simp
qed














text \<open>Over any sequence of requests to a suballocator, also when buffers cannot be created, no two ranges that it hands
  out overlap and all lie in a buffer of its size. If it is to zero its memory, each of the buffers
  was cleared whole, so that a range holds zeros when it is handed out.\<close>

theorem suballocator_ranges_disjoint:
  assumes "sz \<le> 2 ^ 30" "list_all sub_good rs"
    and "bump_run sub_step (\<lambda>(c, n, a). n) rs (u_suballocator_init sz zero) = (hs, s)"
  shows "sorted_wrt apart hs \<and> (\<forall>(b, x, n)\<in>set hs. x + n \<le> sz \<and> (zero \<longrightarrow> Cleared b 0 sz \<in> set (events s)))"
proof -
  have ok: "sub_ok (u_suballocator_init sz zero)" using assms(1) by (simp add: sub_ok_def u_suballocator_init_def)
  have ap: "sorted_wrt apart hs" and s: "sub_ok s" using sub_bump.run_apart[OF ok assms(2)] assms(3) by simp_all
  have "(\<forall>(b, x, n)\<in>set hs. b < next_resource s \<and> x + n \<le> sz) \<and> sub_size s = sz \<and> zero_buffer_memory s = zero"
    using sub_run_inside[OF ok assms(2)] assms(3) by (simp add: u_suballocator_init_def)
  then show ?thesis using s ap by (fastforce simp: sub_ok_def)
qed

text \<open>Two requests, as an example.\<close>

theorem suballocator_ranges_disjoint_witness:
  "\<exists>s. bump_run sub_step (\<lambda>(c, n, a). n) [(True, 100, 4), (True, 16, 64)] (u_suballocator_init 4096 True)
       = ([(0, 0, 100), (0, 128, 16)], s) \<and> sorted_wrt apart [(0, 0, 100), (0, 128, 16)] \<and> Cleared 0 0 4096 \<in> set (events s)"
proof -
  let ?rs = "[(True, 100, 4), (True, 16, 64)]" and ?s = "u_suballocator_init 4096 True"
  obtain hs s where r: "bump_run sub_step (\<lambda>(c, n, a). n) ?rs ?s = (hs, s)" by fastforce
  then have h: "hs = [(0, 0, 100), (0, 128, 16)]"
    by (auto simp: sub_step_def u_suballocator_alloc_def u_suballocator_init_def sub_new_buffer_def emit_def pipe_resource_release_def
      align_u32_def Let_def)
  have "small_pot 30 4" "small_pot 30 64"
    unfolding small_pot_def by (rule image_eqI[of _ _ 2], simp, simp) (rule image_eqI[of _ _ 6], simp, simp)
  then have g: "list_all sub_good ?rs" by (simp add: sub_good_def)
  have t: "(4096::nat) \<le> 2 ^ 30" by simp
  show ?thesis using suballocator_ranges_disjoint[OF t g r] r h by (intro exI[of _ s]) simp
qed

end
