(* ===== verification/SlabPool.thy ===== *)
theory SlabPool
  imports Prelude "HOL-Library.Multiset"
begin

text \<open>
  The allocator of small objects of equal size, util/slab.c. A child pool belongs to one thread; it
  takes memory in pages and keeps the free elements of its pages. An element freed with another pool
  goes to the list \<open>migrated\<close> of its own pool, under the mutex of the parent. When a child pool is
  destroyed, its pages are orphaned and each is freed with its last element.

  An element is a pair of page and index, pools and pages are numbers. Whether \<open>malloc\<close> succeeds is an
  argument, a page is a number that was not used before. The functions are cut where the code takes
  or drops the mutex; the transition system \<open>pool_step\<close> interleaves these parts for any number of
  pools and threads. The contents of the elements and the magic numbers of debug builds are not
  modelled.

  \<open>slab_free\<close> takes the mutex only when the pool it is called with has a parent, which a destroyed
  pool has not. Without the mutex it still frees elements of orphaned pages correctly, and
  \<open>pool_step\<close> has that case. But when the pool of the element is alive, its list \<open>migrated\<close> is then changed
  without the mutex: \<open>unlocked_push_race\<close> shows that an element can be handed out twice. \<open>pool_step\<close> leaves these
  frees out, its runs are those in which an element of a live pool is freed with a pool that is not
  destroyed.
\<close>

section \<open>Data\<close>

type_synonym slab_elt = "nat \<times> nat"

datatype slab_owner = ChildOwner nat | PageOwner nat

record slab_parent_pool =
  element_size :: nat
  num_elements :: nat
  item_size :: nat

record slab_child_pool =
  has_parent :: bool
  pages :: "nat list"
  free_list :: "slab_elt list"
  migrated :: "slab_elt list"

record slab_heap =
  parent :: slab_parent_pool
  elt_owner :: "slab_elt \<Rightarrow> slab_owner"
  num_remaining :: "nat \<Rightarrow> nat"
  freed_pages :: "nat list"
  next_page :: nat
  children :: "nat \<Rightarrow> slab_child_pool"

abbreviation elements :: "slab_heap \<Rightarrow> nat" where
  "elements h \<equiv> num_elements (parent h)"

definition update_child :: "nat \<Rightarrow> (slab_child_pool \<Rightarrow> slab_child_pool) \<Rightarrow> slab_heap \<Rightarrow> slab_heap" where
  "update_child p f h = h\<lparr>children := (children h)(p := f (children h p))\<rparr>"

section \<open>Operations\<close>

text \<open>Sizes of a 64-bit build without assertions: 16 bytes for the header of an element, 8 for that of a page.\<close>

definition slab_create_parent :: "nat \<Rightarrow> nat \<Rightarrow> slab_parent_pool" where
  "slab_create_parent item num =
    \<lparr>element_size = u32 ((16 + item + 8 - 1) div 8 * 8), num_elements = num, item_size = item\<rparr>"

definition slab_get_element :: "slab_parent_pool \<Rightarrow> nat \<Rightarrow> nat \<Rightarrow> nat" where
  "slab_get_element par page index = page + 8 + u32 (element_size par * index)"

definition slab_page_size :: "slab_parent_pool \<Rightarrow> nat" where
  "slab_page_size par = 8 + u32 (num_elements par * element_size par)"

text \<open>The assertion that the element is orphaned is \<open>None\<close>.\<close>

definition slab_free_orphaned :: "slab_elt \<Rightarrow> slab_heap \<Rightarrow> slab_heap option" where
  "slab_free_orphaned e h =
    (case elt_owner h e of
       ChildOwner _ \<Rightarrow> None
     | PageOwner pg \<Rightarrow>
         (let n = u32 (num_remaining h pg + 2 ^ 32 - 1); h1 = h\<lparr>num_remaining := (num_remaining h)(pg := n)\<rparr>
          in Some (if n = 0 then h1\<lparr>freed_pages := freed_pages h1 @ [pg]\<rparr> else h1)))"

fun free_orphans :: "slab_elt list \<Rightarrow> slab_heap \<Rightarrow> slab_heap option" where
  "free_orphans [] h = Some h"
| "free_orphans (e # es) h = (case slab_free_orphaned e h of None \<Rightarrow> None | Some h1 \<Rightarrow> free_orphans es h1)"

definition slab_create_child :: "nat \<Rightarrow> slab_heap \<Rightarrow> slab_heap" where
  "slab_create_child p = update_child p (\<lambda>_. \<lparr>has_parent = True, pages = [], free_list = [], migrated = []\<rparr>)"

definition orphan_page :: "nat \<Rightarrow> slab_heap \<Rightarrow> slab_heap" where
  "orphan_page pg h =
    h\<lparr>num_remaining := (num_remaining h)(pg := elements h),
      elt_owner := (\<lambda>e. if fst e = pg \<and> snd e < elements h then PageOwner pg else elt_owner h e)\<rparr>"

text \<open>The part of \<open>slab_destroy_child\<close> under the mutex, and the whole function.\<close>

definition slab_destroy_locked :: "nat \<Rightarrow> slab_heap \<Rightarrow> slab_heap option" where
  "slab_destroy_locked p h =
    (let c = children h p; h1 = fold orphan_page (pages c) h
     in free_orphans (migrated c) (update_child p (\<lambda>c. c\<lparr>pages := [], migrated := []\<rparr>) h1))"

definition slab_destroy_child :: "nat \<Rightarrow> slab_heap \<Rightarrow> slab_heap option" where
  "slab_destroy_child p h =
    (if \<not> has_parent (children h p) then Some h
     else case slab_destroy_locked p h of
            None \<Rightarrow> None
          | Some h1 \<Rightarrow> map_option (update_child p (has_parent_update (\<lambda>_. False)))
              (free_orphans (free_list (children h1 p)) (update_child p (free_list_update (\<lambda>_. [])) h1)))"

definition slab_add_new_page :: "bool \<Rightarrow> nat \<Rightarrow> slab_heap \<Rightarrow> bool \<times> slab_heap" where
  "slab_add_new_page malloc_ok p h =
    (if \<not> malloc_ok then (False, h)
     else let pg = next_page h
          in (True, update_child p (\<lambda>c. c\<lparr>free_list := fold (\<lambda>i l. (pg, i) # l) [0..<elements h] (free_list c), pages := pg # pages c\<rparr>)
               (h\<lparr>next_page := Suc pg,
                  elt_owner := (\<lambda>e. if fst e = pg \<and> snd e < elements h then ChildOwner p else elt_owner h e)\<rparr>)))"

definition slab_collect :: "nat \<Rightarrow> slab_heap \<Rightarrow> slab_heap" where
  "slab_collect p = update_child p (\<lambda>c. c\<lparr>free_list := migrated c, migrated := []\<rparr>)"

definition slab_take :: "nat \<Rightarrow> slab_heap \<Rightarrow> slab_elt option \<times> slab_heap" where
  "slab_take p h =
    (case free_list (children h p) of
       [] \<Rightarrow> (None, h)
     | e # es \<Rightarrow> (Some e, update_child p (free_list_update (\<lambda>_. es)) h))"

definition slab_alloc :: "bool \<Rightarrow> nat \<Rightarrow> slab_heap \<Rightarrow> slab_elt option \<times> slab_heap" where
  "slab_alloc malloc_ok p h =
    (if free_list (children h p) \<noteq> [] then slab_take p h
     else let h1 = slab_collect p h
          in if free_list (children h1 p) \<noteq> [] then slab_take p h1
             else case slab_add_new_page malloc_ok p h1 of
                    (False, h2) \<Rightarrow> (None, h2)
                  | (True, h2) \<Rightarrow> slab_take p h2)"

text \<open>The part of \<open>slab_free\<close> under the mutex: whether the element is orphaned, and the heap.\<close>

definition slab_free_fast :: "nat \<Rightarrow> slab_elt \<Rightarrow> slab_heap \<Rightarrow> slab_heap" where
  "slab_free_fast p e = update_child p (free_list_update ((#) e))"

definition slab_free_locked :: "slab_elt \<Rightarrow> slab_heap \<Rightarrow> bool \<times> slab_heap" where
  "slab_free_locked e h =
    (case elt_owner h e of
       ChildOwner q \<Rightarrow> (False, update_child q (migrated_update ((#) e)) h)
     | PageOwner _ \<Rightarrow> (True, h))"

text \<open>The same part without the mutex, for a pool that is destroyed. The list of the owner is read and written
  in two accesses, between which other threads may run.\<close>

definition slab_push_read :: "nat \<Rightarrow> slab_heap \<Rightarrow> slab_elt list" where
  "slab_push_read q h = migrated (children h q)"

definition slab_push_write :: "nat \<Rightarrow> slab_elt \<Rightarrow> slab_elt list \<Rightarrow> slab_heap \<Rightarrow> slab_heap" where
  "slab_push_write q e old = update_child q (migrated_update (\<lambda>_. e # old))"

definition slab_free_unlocked :: "slab_elt \<Rightarrow> slab_heap \<Rightarrow> bool \<times> slab_heap" where
  "slab_free_unlocked e h =
    (case elt_owner h e of
       ChildOwner q \<Rightarrow> (False, slab_push_write q e (slab_push_read q h) h)
     | PageOwner _ \<Rightarrow> (True, h))"

definition slab_free :: "nat \<Rightarrow> slab_elt \<Rightarrow> slab_heap \<Rightarrow> slab_heap option" where
  "slab_free p e h =
    (if elt_owner h e = ChildOwner p then Some (slab_free_fast p e h)
     else case (if has_parent (children h p) then slab_free_locked e h else slab_free_unlocked e h) of
            (True, h1) \<Rightarrow> slab_free_orphaned e h1
          | (False, h1) \<Rightarrow> Some h1)"

text \<open>The allocator for one thread has its parent and its only child, 0, in one structure.\<close>

definition slab_create :: "nat \<Rightarrow> nat \<Rightarrow> slab_heap \<Rightarrow> slab_heap" where
  "slab_create item num h = slab_create_child 0 (h\<lparr>parent := slab_create_parent item num\<rparr>)"

definition slab_alloc_st :: "bool \<Rightarrow> slab_heap \<Rightarrow> slab_elt option \<times> slab_heap" where
  "slab_alloc_st malloc_ok = slab_alloc malloc_ok 0"

definition slab_free_st :: "slab_elt \<Rightarrow> slab_heap \<Rightarrow> slab_heap option" where
  "slab_free_st = slab_free 0"

definition slab_destroy :: "slab_heap \<Rightarrow> slab_heap option" where
  "slab_destroy = slab_destroy_child 0"

text \<open>The elements of a page have room for their header and the item, do not overlap and lie inside the page.\<close>

lemma slab_elements_disjoint:
  assumes par: "par = slab_create_parent item num" and wrap: "item + 24 \<le> 2 ^ 32" "num * element_size par < 2 ^ 32" and j: "j < num"
  shows "i < j \<Longrightarrow> slab_get_element par page i + 16 + item \<le> slab_get_element par page j"
    and "slab_get_element par page j + 16 + item \<le> page + slab_page_size par"
    and "8 dvd page \<Longrightarrow> 8 dvd slab_get_element par page j"
proof -
  let ?n = "element_size par"
  have n: "?n = (item + 23) div 8 * 8" using wrap(1) by (simp add: par slab_create_parent_def add.commute)
  have room: "16 + item \<le> ?n" unfolding n by presburger
  have le: "?n * Suc k \<le> num * ?n" if "k < num" for k using mult_le_mono2[of "Suc k" num ?n] that by (simp add: mult.commute)
  have at: "slab_get_element par page k = page + 8 + ?n * k" if "k < num" for k
    using le[OF that] wrap(2) by (simp add: slab_get_element_def)
  have "slab_page_size par = 8 + num * ?n" using wrap(2) by (simp add: slab_page_size_def par slab_create_parent_def)
  then show "slab_get_element par page j + 16 + item \<le> page + slab_page_size par" using at[OF j] le[OF j] room by simp
  show "slab_get_element par page i + 16 + item \<le> slab_get_element par page j" if "i < j"
  proof -
    have "?n * Suc i \<le> ?n * j" using that by (intro mult_le_mono2) simp
    then show ?thesis using at[of i] at[of j] room that j by simp
  qed
  show "8 dvd slab_get_element par page j" if "8 dvd page" using that at[OF j] n by simp
qed

section \<open>Threads\<close>

text \<open>\<open>held\<close> are the elements of the clients, \<open>pending\<close> those on the way to the mutex in \<open>slab_free\<close>, \<open>orphans\<close> those past
  it. \<open>dying\<close> are the pools between the two halves of their destruction. \<open>home\<close> records which pool made
  a page.\<close>

record pool_sys =
  heap :: slab_heap
  held :: "slab_elt multiset"
  pending :: "slab_elt multiset"
  orphans :: "slab_elt multiset"
  dying :: "nat set"
  home :: "nat \<Rightarrow> nat"

abbreviation child :: "pool_sys \<Rightarrow> nat \<Rightarrow> slab_child_pool" where
  "child s \<equiv> children (heap s)"

inductive pool_step :: "pool_sys \<Rightarrow> pool_sys \<Rightarrow> bool" where
  create: "\<not> has_parent (child s p) \<Longrightarrow> pool_step s (s\<lparr>heap := slab_create_child p (heap s)\<rparr>)"
| collect: "has_parent (child s p) \<Longrightarrow> p \<notin> dying s \<Longrightarrow> free_list (child s p) = []
    \<Longrightarrow> pool_step s (s\<lparr>heap := slab_collect p (heap s)\<rparr>)"
| add_page: "has_parent (child s p) \<Longrightarrow> p \<notin> dying s \<Longrightarrow> free_list (child s p) = []
    \<Longrightarrow> slab_add_new_page True p (heap s) = (True, h) \<Longrightarrow> pool_step s (s\<lparr>heap := h, home := (home s)(next_page (heap s) := p)\<rparr>)"
| take: "has_parent (child s p) \<Longrightarrow> p \<notin> dying s \<Longrightarrow> slab_take p (heap s) = (Some e, h)
    \<Longrightarrow> pool_step s (s\<lparr>heap := h, held := add_mset e (held s)\<rparr>)"
| free_fast: "e \<in># held s \<Longrightarrow> elt_owner (heap s) e = ChildOwner p
    \<Longrightarrow> pool_step s (s\<lparr>heap := slab_free_fast p e (heap s), held := held s - {#e#}\<rparr>)"
| free_begin: "e \<in># held s \<Longrightarrow> elt_owner (heap s) e \<noteq> ChildOwner p \<Longrightarrow> has_parent (child s p)
    \<Longrightarrow> pool_step s (s\<lparr>held := held s - {#e#}, pending := add_mset e (pending s)\<rparr>)"
| free_locked: "e \<in># pending s \<Longrightarrow> slab_free_locked e (heap s) = (orphaned, h)
    \<Longrightarrow> pool_step s (s\<lparr>heap := h, pending := pending s - {#e#}, orphans := (if orphaned then add_mset e (orphans s) else orphans s)\<rparr>)"
| free_unlocked: "e \<in># held s \<Longrightarrow> \<not> has_parent (child s p) \<Longrightarrow> slab_free_unlocked e (heap s) = (True, h)
    \<Longrightarrow> pool_step s (s\<lparr>heap := h, held := held s - {#e#}, orphans := add_mset e (orphans s)\<rparr>)"
| free_orphan: "e \<in># orphans s \<Longrightarrow> slab_free_orphaned e (heap s) = Some h
    \<Longrightarrow> pool_step s (s\<lparr>heap := h, orphans := orphans s - {#e#}\<rparr>)"
| destroy_locked: "has_parent (child s p) \<Longrightarrow> p \<notin> dying s \<Longrightarrow> slab_destroy_locked p (heap s) = Some h
    \<Longrightarrow> pool_step s (s\<lparr>heap := h, dying := insert p (dying s)\<rparr>)"
| destroy_free: "p \<in> dying s \<Longrightarrow> free_list (child s p) = e # es
    \<Longrightarrow> slab_free_orphaned e (update_child p (free_list_update (\<lambda>_. es)) (heap s)) = Some h \<Longrightarrow> pool_step s (s\<lparr>heap := h\<rparr>)"
| destroy_end: "p \<in> dying s \<Longrightarrow> free_list (child s p) = []
    \<Longrightarrow> pool_step s (s\<lparr>heap := update_child p (has_parent_update (\<lambda>_. False)) (heap s), dying := dying s - {p}\<rparr>)"

definition pool_init :: "pool_sys \<Rightarrow> bool" where
  "pool_init s \<longleftrightarrow> held s = {#} \<and> pending s = {#} \<and> orphans s = {#} \<and> dying s = {} \<and> next_page (heap s) = 0 \<and> freed_pages (heap s) = []
    \<and> 0 < elements (heap s) \<and> elements (heap s) < 2 ^ 32
    \<and> (\<forall>p. child s p = \<lparr>has_parent = False, pages = [], free_list = [], migrated = []\<rparr>)"

definition pool_reachable :: "pool_sys \<Rightarrow> bool" where
  "pool_reachable s \<longleftrightarrow> (\<exists>s0. pool_init s0 \<and> pool_step\<^sup>*\<^sup>* s0 s)"

section \<open>Where the elements are\<close>

definition places :: "pool_sys \<Rightarrow> slab_elt \<Rightarrow> nat" where
  "places s e = count (held s) e + count (pending s) e + count (orphans s) e
    + count_list (free_list (child s (home s (fst e)))) e + count_list (migrated (child s (home s (fst e)))) e"

definition page_live :: "pool_sys \<Rightarrow> nat \<Rightarrow> bool" where
  "page_live s pg \<longleftrightarrow> pg \<in> set (pages (child s (home s pg)))"

text \<open>A page of a pool: each element is in one place. An orphaned page counts the elements that are still somewhere.\<close>

definition live_ok :: "slab_heap \<Rightarrow> (nat \<Rightarrow> nat) \<Rightarrow> (slab_elt \<Rightarrow> nat) \<Rightarrow> nat \<Rightarrow> bool" where
  "live_ok h hm T pg \<longleftrightarrow> (\<forall>i<elements h. elt_owner h (pg, i) = ChildOwner (hm pg) \<and> T (pg, i) = 1) \<and> pg \<notin> set (freed_pages h)"

definition orphan_ok :: "slab_heap \<Rightarrow> (slab_elt \<Rightarrow> nat) \<Rightarrow> nat \<Rightarrow> bool" where
  "orphan_ok h T pg \<longleftrightarrow> (\<forall>i<elements h. elt_owner h (pg, i) = PageOwner pg \<and> T (pg, i) \<le> 1)
    \<and> num_remaining h pg = (\<Sum>i<elements h. T (pg, i)) \<and> (pg \<in> set (freed_pages h) \<longleftrightarrow> num_remaining h pg = 0)"

definition pool_lists_ok :: "pool_sys \<Rightarrow> bool" where
  "pool_lists_ok s \<longleftrightarrow> (\<forall>e. 0 < places s e \<longrightarrow> fst e < next_page (heap s) \<and> snd e < elements (heap s))
    \<and> (\<forall>p. \<forall>e\<in>set (free_list (child s p)) \<union> set (migrated (child s p)). home s (fst e) = p \<and> fst e < next_page (heap s))
    \<and> (\<forall>p. distinct (pages (child s p)) \<and> (\<forall>pg\<in>set (pages (child s p)). pg < next_page (heap s) \<and> home s pg = p))
    \<and> (\<forall>p\<in>dying s. has_parent (child s p) \<and> pages (child s p) = [] \<and> migrated (child s p) = [])
    \<and> (\<forall>p. \<not> has_parent (child s p) \<longrightarrow> pages (child s p) = [] \<and> free_list (child s p) = [] \<and> migrated (child s p) = [])
    \<and> (\<forall>pg i. (pg, i) \<in># orphans s \<longrightarrow> \<not> page_live s pg)
    \<and> (\<forall>p pg i. (pg, i) \<in> set (migrated (child s p)) \<longrightarrow> page_live s pg)"

definition pool_inv :: "pool_sys \<Rightarrow> bool" where
  "pool_inv s \<longleftrightarrow> 0 < elements (heap s) \<and> elements (heap s) < 2 ^ 32 \<and> pool_lists_ok s
    \<and> distinct (freed_pages (heap s)) \<and> set (freed_pages (heap s)) \<subseteq> {..<next_page (heap s)}
    \<and> (\<forall>pg<next_page (heap s). if page_live s pg then live_ok (heap s) (home s) (places s) pg else orphan_ok (heap s) (places s) pg)"

lemma pool_invD:
  assumes "pool_inv s"
  shows "0 < elements (heap s)" "elements (heap s) < 2 ^ 32" "pool_lists_ok s" "distinct (freed_pages (heap s))"
    and "pg < next_page (heap s) \<Longrightarrow> page_live s pg \<Longrightarrow> live_ok (heap s) (home s) (places s) pg"
    and "pg < next_page (heap s) \<Longrightarrow> \<not> page_live s pg \<Longrightarrow> orphan_ok (heap s) (places s) pg"
    and "pg \<in> set (freed_pages (heap s)) \<Longrightarrow> pg < next_page (heap s)"
  using assms unfolding pool_inv_def by auto

lemma pool_invI:
  assumes "0 < elements (heap s)" "elements (heap s) < 2 ^ 32" "pool_lists_ok s" "distinct (freed_pages (heap s))"
    and "\<And>pg. pg < next_page (heap s) \<Longrightarrow> page_live s pg \<Longrightarrow> live_ok (heap s) (home s) (places s) pg"
    and "\<And>pg. pg < next_page (heap s) \<Longrightarrow> \<not> page_live s pg \<Longrightarrow> orphan_ok (heap s) (places s) pg"
    and "\<And>pg. pg \<in> set (freed_pages (heap s)) \<Longrightarrow> pg < next_page (heap s)"
  shows "pool_inv s"
  using assms unfolding pool_inv_def by auto

lemma pool_lists_okD:
  assumes "pool_lists_ok s"
  shows "0 < places s e \<Longrightarrow> fst e < next_page (heap s) \<and> snd e < elements (heap s)"
    and "e \<in> set (free_list (child s p)) \<Longrightarrow> home s (fst e) = p \<and> fst e < next_page (heap s)"
    and "e \<in> set (migrated (child s p)) \<Longrightarrow> home s (fst e) = p \<and> fst e < next_page (heap s)"
    and "pg \<in> set (pages (child s p)) \<Longrightarrow> pg < next_page (heap s) \<and> home s pg = p" "distinct (pages (child s p))"
    and "p \<in> dying s \<Longrightarrow> has_parent (child s p) \<and> pages (child s p) = [] \<and> migrated (child s p) = []"
    and "\<not> has_parent (child s p) \<Longrightarrow> pages (child s p) = [] \<and> free_list (child s p) = [] \<and> migrated (child s p) = []"
    and "(pg, i) \<in># orphans s \<Longrightarrow> \<not> page_live s pg" "(pg, i) \<in> set (migrated (child s p)) \<Longrightarrow> page_live s pg"
  using assms unfolding pool_lists_ok_def by blast+

lemma listed:
  assumes l: "pool_lists_ok s" and e: "e \<in> set (free_list (child s p)) \<union> set (migrated (child s p))"
  shows "home s (fst e) = p \<and> fst e < next_page (heap s) \<and> has_parent (child s p)"
proof -
  have "has_parent (child s p)" using pool_lists_okD(7)[OF l, of p] e by (cases "has_parent (child s p)") auto
  then show ?thesis using pool_lists_okD(2,3)[OF l] e by blast
qed

lemma listed_migrated: "pool_lists_ok s \<Longrightarrow> e \<in> set (migrated (child s p)) \<Longrightarrow> page_live s (fst e) \<and> p \<notin> dying s"
  using pool_lists_okD(6)[of s p] pool_lists_okD(9)[of s "fst e" "snd e" p] by (cases e) auto

lemma listed_orphan: "pool_lists_ok s \<Longrightarrow> e \<in># orphans s \<Longrightarrow> \<not> page_live s (fst e)"
  using pool_lists_okD(8)[of s "fst e" "snd e"] by simp

text \<open>Moving elements between the lists.\<close>

lemma pool_inv_move:
  assumes inv: "pool_inv s" and same: "places t = places s" "home t = home s" "dying t = dying s" "parent (heap t) = parent (heap s)"
    "elt_owner (heap t) = elt_owner (heap s)" "num_remaining (heap t) = num_remaining (heap s)" "freed_pages (heap t) = freed_pages (heap s)"
    "next_page (heap t) = next_page (heap s)" "\<And>p. pages (child t p) = pages (child s p)" "\<And>p. has_parent (child t p) = has_parent (child s p)"
    and new: "\<And>p e. e \<in> set (free_list (child t p)) \<union> set (migrated (child t p)) \<Longrightarrow>
      home s (fst e) = p \<and> fst e < next_page (heap s) \<and> has_parent (child s p)"
    "\<And>p e. e \<in> set (migrated (child t p)) \<Longrightarrow> page_live s (fst e) \<and> p \<notin> dying s" "\<And>e. e \<in># orphans t \<Longrightarrow> \<not> page_live s (fst e)"
  shows "pool_inv t"
proof -
  have l: "live_ok (heap t) = live_ok (heap s)" "orphan_ok (heap t) = orphan_ok (heap s)" "page_live t = page_live s"
    using same by (auto simp: fun_eq_iff live_ok_def orphan_ok_def page_live_def)
  note d = pool_lists_okD[OF pool_invD(3)[OF inv]]
  have empty: "free_list (child t p) = [] \<and> migrated (child t p) = []" if "\<not> has_parent (child s p)" for p
    using new(1)[of "hd (free_list (child t p))" p] new(1)[of "hd (migrated (child t p))" p] that
    by (cases "free_list (child t p)"; cases "migrated (child t p)") auto
  have dead: "migrated (child t p) = []" if "p \<in> dying s" for p
    using new(2)[of "hd (migrated (child t p))" p] that by (cases "migrated (child t p)") auto
  have "pool_lists_ok t" unfolding pool_lists_ok_def same l
  proof (intro conjI)
    show "\<forall>pg i. (pg, i) \<in># orphans t \<longrightarrow> \<not> page_live s pg" using new(3) by fastforce
    show "\<forall>p pg i. (pg, i) \<in> set (migrated (child t p)) \<longrightarrow> page_live s pg" using new(2) by fastforce
  qed (use d(1,4-7) new(1) empty dead in blast)+
  then show ?thesis using inv l same unfolding pool_inv_def by simp
qed

lemma update_child_simps [simp]:
  "parent (update_child p f h) = parent h" "elt_owner (update_child p f h) = elt_owner h" "num_remaining (update_child p f h) = num_remaining h"
  "freed_pages (update_child p f h) = freed_pages h" "next_page (update_child p f h) = next_page h"
  "children (update_child p f h) = (children h)(p := f (children h p))"
  by (simp_all add: update_child_def)

lemma inv_collect:
  assumes inv: "pool_inv s" and p: "free_list (child s p) = []"
  shows "pool_inv (s\<lparr>heap := slab_collect p (heap s)\<rparr>)" (is "pool_inv ?t")
proof (rule pool_inv_move[OF inv])
  note l = pool_invD(3)[OF inv]
  show "places ?t = places s" using p by (auto simp: places_def slab_collect_def fun_eq_iff)
  show "home s (fst e) = q \<and> fst e < next_page (heap s) \<and> has_parent (child s q)"
    if "e \<in> set (free_list (child ?t q)) \<union> set (migrated (child ?t q))" for q e
    by (rule listed[OF l]) (use that in \<open>auto simp: slab_collect_def split: if_splits\<close>)
  show "page_live s (fst e) \<and> q \<notin> dying s" if "e \<in> set (migrated (child ?t q))" for q e
    by (rule listed_migrated[OF l]) (use that in \<open>auto simp: slab_collect_def split: if_splits\<close>)
  show "\<not> page_live s (fst e)" if "e \<in># orphans ?t" for e using that listed_orphan[OF l] by simp
qed (auto simp: slab_collect_def)

lemma inv_take:
  assumes inv: "pool_inv s" and p: "free_list (child s p) = e # es"
  shows "pool_inv (s\<lparr>heap := update_child p (free_list_update (\<lambda>_. es)) (heap s), held := add_mset e (held s)\<rparr>)" (is "pool_inv ?t")
proof (rule pool_inv_move[OF inv])
  note l = pool_invD(3)[OF inv]
  have "home s (fst e) = p" using listed[OF l, of e p] p by simp
  then show "places ?t = places s" using p by (auto simp: places_def fun_eq_iff)
  show "home s (fst x) = q \<and> fst x < next_page (heap s) \<and> has_parent (child s q)"
    if "x \<in> set (free_list (child ?t q)) \<union> set (migrated (child ?t q))" for q x
    by (rule listed[OF l]) (use that p in \<open>auto split: if_splits\<close>)
  show "page_live s (fst x) \<and> q \<notin> dying s" if "x \<in> set (migrated (child ?t q))" for q x
    by (rule listed_migrated[OF l]) (use that in \<open>auto split: if_splits\<close>)
  show "\<not> page_live s (fst x)" if "x \<in># orphans ?t" for x using that listed_orphan[OF l] by simp
qed auto

text \<open>An element in the hands of a client or of \<open>slab_free\<close>: what its owner field says.\<close>

lemma owner_cases:
  assumes inv: "pool_inv s" and e: "0 < places s e"
  obtains (live) "page_live s (fst e)" "elt_owner (heap s) e = ChildOwner (home s (fst e))" "has_parent (child s (home s (fst e)))"
      "home s (fst e) \<notin> dying s" "fst e < next_page (heap s)" "places s e = 1" "fst e \<notin> set (freed_pages (heap s))"
  | (orphan) "\<not> page_live s (fst e)" "elt_owner (heap s) e = PageOwner (fst e)" "fst e < next_page (heap s)" "snd e < elements (heap s)"
      "places s e = 1" "orphan_ok (heap s) (places s) (fst e)"
proof -
  note l = pool_lists_okD[OF pool_invD(3)[OF inv]]
  obtain pg i where ei: "e = (pg, i)" by (cases e)
  have b: "pg < next_page (heap s)" "i < elements (heap s)" using l(1)[OF e] ei by auto
  show thesis
  proof (cases "page_live s pg")
    case True
    have "elt_owner (heap s) e = ChildOwner (home s pg)" "places s e = 1" "pg \<notin> set (freed_pages (heap s))"
      using pool_invD(5)[OF inv b(1) True] b(2) unfolding live_ok_def ei by auto
    moreover have "has_parent (child s (home s pg)) \<and> home s pg \<notin> dying s"
      using True l(6,7)[of "home s pg"] unfolding page_live_def by (metis empty_iff empty_set)
    ultimately show thesis using True b ei by (intro live) auto
  next
    case False
    have ok: "orphan_ok (heap s) (places s) pg" using pool_invD(6)[OF inv b(1) False] .
    then have "elt_owner (heap s) e = PageOwner pg" "places s e \<le> 1" using b(2) unfolding orphan_ok_def ei by auto
    then show thesis using False b ok ei e by (intro orphan) auto
  qed
qed

lemma inv_free_fast:
  assumes inv: "pool_inv s" and e: "e \<in># held s" "elt_owner (heap s) e = ChildOwner p"
  shows "pool_inv (s\<lparr>heap := slab_free_fast p e (heap s), held := held s - {#e#}\<rparr>)" (is "pool_inv ?t")
proof -
  note l = pool_invD(3)[OF inv]
  have pos: "0 < places s e" using e(1) by (simp add: places_def)
  have h: "home s (fst e) = p \<and> has_parent (child s p) \<and> fst e < next_page (heap s)"
    by (rule owner_cases[OF inv pos]) (use e(2) in auto)
  show ?thesis
  proof (rule pool_inv_move[OF inv])
    have "places ?t x = places s x" for x
    proof (cases "x = e")
      case True
      then show ?thesis using count_greater_zero_iff[of "held s" e] e(1) h by (simp add: places_def slab_free_fast_def)
    next
      case False
      then show ?thesis by (simp add: places_def slab_free_fast_def)
    qed
    then show "places ?t = places s" ..
    show "home s (fst x) = q \<and> fst x < next_page (heap s) \<and> has_parent (child s q)"
      if "x \<in> set (free_list (child ?t q)) \<union> set (migrated (child ?t q))" for q x
      using that listed[OF l, of x q] h by (auto simp: slab_free_fast_def split: if_splits)
    show "page_live s (fst x) \<and> q \<notin> dying s" if "x \<in> set (migrated (child ?t q))" for q x
      by (rule listed_migrated[OF l]) (use that in \<open>auto simp: slab_free_fast_def split: if_splits\<close>)
    show "\<not> page_live s (fst x)" if "x \<in># orphans ?t" for x using that listed_orphan[OF l] by simp
  qed (auto simp: slab_free_fast_def)
qed

lemma inv_free_begin:
  assumes inv: "pool_inv s" and e: "e \<in># held s"
  shows "pool_inv (s\<lparr>held := held s - {#e#}, pending := add_mset e (pending s)\<rparr>)" (is "pool_inv ?t")
proof (rule pool_inv_move[OF inv])
  note l = pool_invD(3)[OF inv]
  show "places ?t = places s" using e by (auto simp: places_def fun_eq_iff)
  show "home s (fst x) = q \<and> fst x < next_page (heap s) \<and> has_parent (child s q)"
    if "x \<in> set (free_list (child ?t q)) \<union> set (migrated (child ?t q))" for q x
    using that listed[OF l, of x q] by auto
  show "page_live s (fst x) \<and> q \<notin> dying s" if "x \<in> set (migrated (child ?t q))" for q x
    using that listed_migrated[OF l, of x q] by auto
  show "\<not> page_live s (fst x)" if "x \<in># orphans ?t" for x using that listed_orphan[OF l] by simp
qed auto

lemma inv_free_migrate:
  assumes inv: "pool_inv s" and e: "e \<in># pending s" and q: "elt_owner (heap s) e = ChildOwner p"
  shows "pool_inv (s\<lparr>heap := update_child p (migrated_update ((#) e)) (heap s), pending := pending s - {#e#}\<rparr>)" (is "pool_inv ?t")
proof -
  note l = pool_invD(3)[OF inv]
  have pos: "0 < places s e" using e by (simp add: places_def)
  have h: "home s (fst e) = p \<and> has_parent (child s p) \<and> fst e < next_page (heap s) \<and> page_live s (fst e) \<and> p \<notin> dying s"
    by (rule owner_cases[OF inv pos]) (use q in auto)
  show ?thesis
  proof (rule pool_inv_move[OF inv])
    have "places ?t x = places s x" for x
    proof (cases "x = e")
      case True
      then show ?thesis using count_greater_zero_iff[of "pending s" e] e h by (simp add: places_def)
    next
      case False
      then show ?thesis by (simp add: places_def)
    qed
    then show "places ?t = places s" ..
    show "home s (fst x) = q \<and> fst x < next_page (heap s) \<and> has_parent (child s q)"
      if "x \<in> set (free_list (child ?t q)) \<union> set (migrated (child ?t q))" for q x
      using that listed[OF l, of x q] h by (auto split: if_splits)
    show "page_live s (fst x) \<and> q \<notin> dying s" if "x \<in> set (migrated (child ?t q))" for q x
      using that listed_migrated[OF l, of x q] h by (auto split: if_splits)
    show "\<not> page_live s (fst x)" if "x \<in># orphans ?t" for x using that listed_orphan[OF l] by simp
  qed auto
qed

lemma inv_free_stray:
  assumes inv: "pool_inv s" and e: "e \<in># pending s" and q: "elt_owner (heap s) e = PageOwner pg"
  shows "pool_inv (s\<lparr>pending := pending s - {#e#}, orphans := add_mset e (orphans s)\<rparr>)" (is "pool_inv ?t")
proof -
  note l = pool_invD(3)[OF inv]
  have pos: "0 < places s e" using e by (simp add: places_def)
  have h: "\<not> page_live s (fst e)"
    by (rule owner_cases[OF inv pos]) (use q in auto)
  show ?thesis
  proof (rule pool_inv_move[OF inv])
    show "places ?t = places s" using e by (auto simp: places_def fun_eq_iff)
    show "home s (fst x) = q \<and> fst x < next_page (heap s) \<and> has_parent (child s q)"
      if "x \<in> set (free_list (child ?t q)) \<union> set (migrated (child ?t q))" for q x
      using that listed[OF l, of x q] by auto
    show "page_live s (fst x) \<and> q \<notin> dying s" if "x \<in> set (migrated (child ?t q))" for q x
      using that listed_migrated[OF l, of x q] by auto
    show "\<not> page_live s (fst x)" if "x \<in># orphans ?t" for x using that listed_orphan[OF l, of x] h by auto
  qed auto
qed

lemma inv_free_locked:
  assumes inv: "pool_inv s" and e: "e \<in># pending s" and r: "slab_free_locked e (heap s) = (orphaned, h)"
  shows "pool_inv (s\<lparr>heap := h, pending := pending s - {#e#}, orphans := (if orphaned then add_mset e (orphans s) else orphans s)\<rparr>)"
proof (cases "elt_owner (heap s) e")
  case (ChildOwner p)
  then show ?thesis using inv_free_migrate[OF inv e ChildOwner] r by (auto simp: slab_free_locked_def)
next
  case (PageOwner pg)
  then show ?thesis using inv_free_stray[OF inv e PageOwner] r by (auto simp: slab_free_locked_def)
qed

text \<open>The last reference to an element of an orphaned page.\<close>

lemma free_orphaned_spec:
  assumes inv: "pool_inv s" and e: "e \<in># orphans s"
  obtains h where "slab_free_orphaned e (heap s) = Some h" "parent h = parent (heap s)" "elt_owner h = elt_owner (heap s)"
    "next_page h = next_page (heap s)" "children h = children (heap s)" "0 < num_remaining (heap s) (fst e)"
    "num_remaining h = (num_remaining (heap s))(fst e := num_remaining (heap s) (fst e) - 1)"
    "freed_pages h = (if num_remaining (heap s) (fst e) = 1 then freed_pages (heap s) @ [fst e] else freed_pages (heap s))"
proof -
  have "0 < places s e" using e by (simp add: places_def)
  with inv show thesis
  proof (cases rule: owner_cases)
    case live
    then show thesis using listed_orphan[OF pool_invD(3)[OF inv] e] by simp
  next
    case orphan
    obtain pg i where ei: "e = (pg, i)" by (cases e)
    have sum: "num_remaining (heap s) pg = (\<Sum>j<elements (heap s). places s (pg, j))" and T: "\<forall>j<elements (heap s). places s (pg, j) \<le> 1"
      using orphan(6) ei unfolding orphan_ok_def by auto
    have "(\<Sum>j<elements (heap s). places s (pg, j)) \<le> (\<Sum>j<elements (heap s). 1)" by (rule sum_mono) (use T in auto)
    then have le: "num_remaining (heap s) pg < 2 ^ 32" using sum pool_invD(2)[OF inv] by simp
    have "places s (pg, i) \<le> num_remaining (heap s) pg" unfolding sum by (rule member_le_sum) (use orphan(4) ei in auto)
    then have pos: "0 < num_remaining (heap s) pg" using orphan(5) ei by simp
    have "u32 (num_remaining (heap s) pg + 2 ^ 32 - 1) = num_remaining (heap s) pg - 1"
      using pos le by (simp add: u32_def mod_if)
    then have "slab_free_orphaned e (heap s) = Some ((heap s)\<lparr>num_remaining := (num_remaining (heap s))(pg := num_remaining (heap s) pg - 1),
        freed_pages := (if num_remaining (heap s) pg = 1 then freed_pages (heap s) @ [pg] else freed_pages (heap s))\<rparr>)"
      using orphan(2) ei pos by (auto simp: slab_free_orphaned_def Let_def)
    then show thesis by (rule that) (use ei pos in auto)
  qed
qed

lemma sum_drop_one:
  fixes f g :: "nat \<Rightarrow> nat"
  assumes "i < n" "\<And>j. j \<noteq> i \<Longrightarrow> f j = g j" "g i = Suc (f i)"
  shows "(\<Sum>j<n. g j) = Suc (\<Sum>j<n. f j)"
proof -
  have "(\<Sum>j\<in>{..<n} - {i}. g j) = (\<Sum>j\<in>{..<n} - {i}. f j)" by (rule sum.cong) (use assms(2) in auto)
  then show ?thesis using sum.remove[of "{..<n}" i g] sum.remove[of "{..<n}" i f] assms(1,3) by simp
qed

lemma inv_free_orphan:
  assumes inv: "pool_inv s" and e: "e \<in># orphans s" and r: "slab_free_orphaned e (heap s) = Some h"
  shows "pool_inv (s\<lparr>heap := h, orphans := orphans s - {#e#}\<rparr>)" (is "pool_inv ?t")
proof -
  note l = pool_invD(3)[OF inv]
  obtain pg i where ei: "e = (pg, i)" by (cases e)
  have dead: "\<not> page_live s pg" using listed_orphan[OF l e] ei by simp
  have at: "0 < places s e" using e by (simp add: places_def)
  have bnd: "pg < next_page (heap s)" "i < elements (heap s)" using pool_lists_okD(1)[OF l at] ei by auto
  have h: "parent h = parent (heap s)" "elt_owner h = elt_owner (heap s)" "next_page h = next_page (heap s)" "children h = children (heap s)"
    "0 < num_remaining (heap s) pg" "num_remaining h = (num_remaining (heap s))(pg := num_remaining (heap s) pg - 1)"
    "freed_pages h = (if num_remaining (heap s) pg = 1 then freed_pages (heap s) @ [pg] else freed_pages (heap s))"
    using free_orphaned_spec[OF inv e] r ei by (metis fst_conv option.inject)+
  have pl: "page_live ?t = page_live s" using h by (simp add: page_live_def fun_eq_iff)
  obtain n where n: "count (orphans s) e = Suc n" using e by (metis count_greater_zero_iff gr0_implies_Suc)
  have T: "places ?t x = (if x = e then places s x - 1 else places s x)" for x by (simp add: places_def h n)
  have T_le: "places ?t x \<le> places s x" for x by (simp add: T)
  have "pool_lists_ok ?t" unfolding pool_lists_ok_def pl
  proof (intro conjI)
    show "\<forall>x. 0 < places ?t x \<longrightarrow> fst x < next_page (heap ?t) \<and> snd x < elements (heap ?t)"
      using pool_lists_okD(1)[OF l less_le_trans[OF _ T_le]] by (simp add: h)
    show "\<forall>q j. (q, j) \<in># orphans ?t \<longrightarrow> \<not> page_live s q" using pool_lists_okD(8)[OF l] by (auto dest: in_diffD)
  qed (use l in \<open>simp_all add: h pool_lists_ok_def\<close>)
  note lists = this
  have o: "orphan_ok (heap s) (places s) pg" using pool_invD(6)[OF inv bnd(1) dead] .
  have "(\<Sum>j<elements (heap s). places s (pg, j)) = Suc (\<Sum>j<elements (heap s). places ?t (pg, j))"
    by (rule sum_drop_one[of i]) (use at bnd ei T in auto)
  then have opg: "orphan_ok h (places ?t) pg" using o h T by (auto simp: orphan_ok_def le_diff_conv)
  have other: "orphan_ok h (places ?t) q = orphan_ok (heap s) (places s) q" "live_ok h (home s) (places ?t) q = live_ok (heap s) (home s) (places s) q"
    if "q \<noteq> pg" for q
  proof -
    have Tq: "places ?t (q, j) = places s (q, j)" for j using T[of "(q, j)"] ei that by simp
    show "orphan_ok h (places ?t) q = orphan_ok (heap s) (places s) q" "live_ok h (home s) (places ?t) q = live_ok (heap s) (home s) (places s) q"
      using that by (simp_all add: orphan_ok_def live_ok_def h Tq)
  qed
  show ?thesis
  proof (rule pool_invI)
    show "distinct (freed_pages (heap ?t))" using pool_invD(4)[OF inv] o h(5,7) by (simp add: orphan_ok_def)
    show "live_ok (heap ?t) (home ?t) (places ?t) q" if "q < next_page (heap ?t)" "page_live ?t q" for q
      using that pool_invD(5)[OF inv, of q] pl dead other(2)[of q] by (cases "q = pg") (simp_all add: h)
    show "orphan_ok (heap ?t) (places ?t) q" if "q < next_page (heap ?t)" "\<not> page_live ?t q" for q
      using that pool_invD(6)[OF inv, of q] pl opg other(1)[of q] by (cases "q = pg") (simp_all add: h)
    show "q < next_page (heap ?t)" if "q \<in> set (freed_pages (heap ?t))" for q
      using that pool_invD(7)[OF inv, of q] bnd by (simp add: h split: if_splits) auto
  qed (use pool_invD(1,2)[OF inv] lists in \<open>simp_all add: h\<close>)
qed

lemma free_orphans_ok:
  assumes "pool_inv s" "mset es \<subseteq># orphans s"
  shows "\<exists>h. free_orphans es (heap s) = Some h \<and> pool_inv (s\<lparr>heap := h, orphans := orphans s - mset es\<rparr>) \<and> children h = children (heap s)"
  using assms
proof (induction es arbitrary: s)
  case (Cons e es)
  have e: "e \<in># orphans s" using Cons.prems(2) by (auto simp: insert_subset_eq_iff)
  obtain h where h: "slab_free_orphaned e (heap s) = Some h" "children h = children (heap s)"
    using free_orphaned_spec[OF Cons.prems(1) e] by metis
  let ?s = "s\<lparr>heap := h, orphans := orphans s - {#e#}\<rparr>"
  have "pool_inv ?s" using inv_free_orphan[OF Cons.prems(1) e h(1)] .
  moreover have "mset es \<subseteq># orphans ?s" using Cons.prems(2) by (simp add: insert_subset_eq_iff)
  ultimately obtain k where k: "free_orphans es h = Some k" "pool_inv (?s\<lparr>heap := k, orphans := orphans ?s - mset es\<rparr>)" "children k = children h"
    using Cons.IH[of ?s] by auto
  then show ?case using h by auto
qed auto

text \<open>Destroying a pool. First its pages are orphaned, its migrated elements are then as if already in \<open>slab_free_orphaned\<close>.\<close>

lemma fold_orphan_page:
  "fold orphan_page ps h = h\<lparr>num_remaining := (\<lambda>pg. if pg \<in> set ps then elements h else num_remaining h pg),
     elt_owner := (\<lambda>e. if fst e \<in> set ps \<and> snd e < elements h then PageOwner (fst e) else elt_owner h e)\<rparr>"
  by (induction ps arbitrary: h) (auto simp: orphan_page_def fun_eq_iff)

definition orphaned :: "nat \<Rightarrow> pool_sys \<Rightarrow> pool_sys" where
  "orphaned p s = s\<lparr>heap := update_child p (\<lambda>c. c\<lparr>pages := [], migrated := []\<rparr>) (fold orphan_page (pages (child s p)) (heap s)),
     orphans := orphans s + mset (migrated (child s p)), dying := insert p (dying s)\<rparr>"

lemma orphaned_simps [simp]:
  "parent (heap (orphaned p s)) = parent (heap s)" "freed_pages (heap (orphaned p s)) = freed_pages (heap s)"
  "next_page (heap (orphaned p s)) = next_page (heap s)" "home (orphaned p s) = home s" "dying (orphaned p s) = insert p (dying s)"
  "child (orphaned p s) = (child s)(p := child s p\<lparr>pages := [], migrated := []\<rparr>)"
  "orphans (orphaned p s) = orphans s + mset (migrated (child s p))" "held (orphaned p s) = held s" "pending (orphaned p s) = pending s"
  by (simp_all add: orphaned_def fold_orphan_page)

lemma inv_orphaned:
  assumes inv: "pool_inv s" and p: "has_parent (child s p)" "p \<notin> dying s"
  shows "pool_inv (orphaned p s)" (is "pool_inv ?t")
proof -
  note l = pool_invD(3)[OF inv]
  have T: "places ?t e = places s e" for e
    using pool_lists_okD(3)[OF l, of e p] by (cases "e \<in> set (migrated (child s p))") (auto simp: places_def count_list_0_iff count_mset)
  have pl: "page_live ?t pg \<longleftrightarrow> page_live s pg \<and> home s pg \<noteq> p" for pg by (auto simp: page_live_def)
  have own: "pg \<in> set (pages (child s p)) \<longleftrightarrow> page_live s pg \<and> home s pg = p" for pg
    using pool_lists_okD(4)[OF l, of pg p] by (auto simp: page_live_def)
  have "pool_lists_ok ?t" unfolding pool_lists_ok_def T pl
  proof (intro conjI)
    show "\<forall>pg i. (pg, i) \<in># orphans ?t \<longrightarrow> \<not> (page_live s pg \<and> home s pg \<noteq> p)"
      using pool_lists_okD(3)[OF l, of _ p] pool_lists_okD(8)[OF l] by fastforce
    show "\<forall>q pg i. (pg, i) \<in> set (migrated (child ?t q)) \<longrightarrow> page_live s pg \<and> home s pg \<noteq> p"
    proof (intro allI impI)
      fix q pg i assume "(pg, i) \<in> set (migrated (child ?t q))"
      then have "q \<noteq> p" "(pg, i) \<in> set (migrated (child s q))" by (auto split: if_splits)
      then show "page_live s pg \<and> home s pg \<noteq> p" using pool_lists_okD(3)[OF l, of "(pg, i)" q] pool_lists_okD(9)[OF l, of pg i q] by simp
    qed
  qed (use l p in \<open>auto simp: pool_lists_ok_def\<close>)
  note lists = this
  have gone: "orphan_ok (heap ?t) (places ?t) pg" if "pg < next_page (heap s)" "page_live s pg" "home s pg = p" for pg
    using pool_invD(5)[OF inv that(1,2)] that own pool_invD(1)[OF inv] T by (auto simp: orphan_ok_def live_ok_def orphaned_def fold_orphan_page)
  have other: "live_ok (heap ?t) (home ?t) (places ?t) pg = live_ok (heap s) (home s) (places s) pg" "orphan_ok (heap ?t) (places ?t) pg = orphan_ok (heap s) (places s) pg"
    if "pg \<notin> set (pages (child s p))" for pg
    using that T by (auto simp: orphan_ok_def live_ok_def orphaned_def fold_orphan_page)
  show ?thesis
  proof (rule pool_invI)
    show "live_ok (heap ?t) (home ?t) (places ?t) pg" if "pg < next_page (heap ?t)" "page_live ?t pg" for pg
      using that pool_invD(5)[OF inv, of pg] other(1)[of pg] pl own by simp
    show "orphan_ok (heap ?t) (places ?t) pg" if "pg < next_page (heap ?t)" "\<not> page_live ?t pg" for pg
      using that pool_invD(6)[OF inv, of pg] other(2)[of pg] gone[of pg] pl own by (cases "page_live s pg") simp_all
  qed (use pool_invD(1,2,4,7)[OF inv] lists in simp_all)
qed

lemma destroy_locked_ok:
  assumes inv: "pool_inv s" and p: "has_parent (child s p)" "p \<notin> dying s"
  obtains h where "slab_destroy_locked p (heap s) = Some h" "pool_inv (s\<lparr>heap := h, dying := insert p (dying s)\<rparr>)"
    "children h = (child s)(p := child s p\<lparr>pages := [], migrated := []\<rparr>)"
proof -
  obtain h where h: "free_orphans (migrated (child s p)) (heap (orphaned p s)) = Some h"
      "pool_inv ((orphaned p s)\<lparr>heap := h, orphans := orphans (orphaned p s) - mset (migrated (child s p))\<rparr>)"
      "children h = child (orphaned p s)"
    using free_orphans_ok[OF inv_orphaned[OF inv p], of "migrated (child s p)"] by auto
  have eq: "(orphaned p s)\<lparr>heap := h, orphans := orphans (orphaned p s) - mset (migrated (child s p))\<rparr> = s\<lparr>heap := h, dying := insert p (dying s)\<rparr>"
    by (rule pool_sys.equality) (simp_all add: orphaned_def)
  have "slab_destroy_locked p (heap s) = Some h" using h(1) by (simp add: slab_destroy_locked_def Let_def orphaned_def)
  then show thesis using h(2)[unfolded eq] h(3) by (intro that[of h]) simp_all
qed

lemma destroy_free_ok:
  assumes inv: "pool_inv s" and p: "p \<in> dying s" "free_list (child s p) = e # es"
  obtains h where "slab_free_orphaned e (update_child p (free_list_update (\<lambda>_. es)) (heap s)) = Some h" "pool_inv (s\<lparr>heap := h\<rparr>)"
    "children h = (child s)(p := child s p\<lparr>free_list := es\<rparr>)"
proof -
  note l = pool_invD(3)[OF inv]
  let ?t = "s\<lparr>heap := update_child p (free_list_update (\<lambda>_. es)) (heap s), orphans := add_mset e (orphans s)\<rparr>"
  have home: "home s (fst e) = p" using listed[OF l, of e p] p by simp
  have dead: "\<not> page_live s (fst e)" using pool_lists_okD(6)[OF l p(1)] home by (simp add: page_live_def)
  have inv_t: "pool_inv ?t"
  proof (rule pool_inv_move[OF inv])
    show "places ?t = places s" using p home by (auto simp: places_def fun_eq_iff)
    show "home s (fst x) = q \<and> fst x < next_page (heap s) \<and> has_parent (child s q)"
      if "x \<in> set (free_list (child ?t q)) \<union> set (migrated (child ?t q))" for q x
      by (rule listed[OF l]) (use that p in \<open>auto split: if_splits\<close>)
    show "page_live s (fst x) \<and> q \<notin> dying s" if "x \<in> set (migrated (child ?t q))" for q x
      by (rule listed_migrated[OF l]) (use that in \<open>auto split: if_splits\<close>)
    show "\<not> page_live s (fst x)" if "x \<in># orphans ?t" for x using that listed_orphan[OF l, of x] dead by auto
  qed auto
  have e: "e \<in># orphans ?t" by simp
  obtain h where "slab_free_orphaned e (heap ?t) = Some h" "children h = children (heap ?t)"
    using free_orphaned_spec[OF inv_t e] by metis
  then show thesis using inv_free_orphan[OF inv_t e, of h] by (intro that[of h]) simp_all
qed

text \<open>Changes that touch no element: creating a pool, and the end of its destruction.\<close>

lemma inv_empty_pool:
  assumes inv: "pool_inv s" and p: "pages (child s p) = []" "free_list (child s p) = []" "migrated (child s p) = []"
    and c: "pages c = []" "free_list c = []" "migrated c = []" and D: "D \<subseteq> dying s" "p \<notin> D"
  shows "pool_inv (s\<lparr>heap := update_child p (\<lambda>_. c) (heap s), dying := D\<rparr>)" (is "pool_inv ?t")
proof (rule pool_invI)
  note l = pool_invD(3)[OF inv]
  have T: "places ?t = places s" using p c by (auto simp: places_def fun_eq_iff)
  have pl: "page_live ?t = page_live s" using p c by (auto simp: page_live_def fun_eq_iff)
  show "pool_lists_ok ?t" unfolding pool_lists_ok_def T pl
  proof (intro conjI)
    show "\<forall>q\<in>dying ?t. has_parent (child ?t q) \<and> pages (child ?t q) = [] \<and> migrated (child ?t q) = []"
      using pool_lists_okD(6)[OF l] D by auto
  qed (use l c in \<open>auto simp: pool_lists_ok_def\<close>)
  show "live_ok (heap ?t) (home ?t) (places ?t) q" if "q < next_page (heap ?t)" "page_live ?t q" for q
    using that pool_invD(5)[OF inv, of q] by (simp add: T pl live_ok_def)
  show "orphan_ok (heap ?t) (places ?t) q" if "q < next_page (heap ?t)" "\<not> page_live ?t q" for q
    using that pool_invD(6)[OF inv, of q] by (simp add: T pl orphan_ok_def)
qed (use pool_invD(1,2,4,7)[OF inv] in simp_all)

text \<open>A new page.\<close>

lemma fold_page_elements: "fold (\<lambda>i l. (pg, i) # l) [0..<n] l = rev (map (Pair pg) [0..<n]) @ l"
  by (induction n) simp_all

lemma count_page_elements: "count_list (map (Pair pg) [0..<n]) e = (if fst e = pg \<and> snd e < n then 1 else 0)"
  by (cases e; induction n) auto

lemma inv_add_page:
  assumes inv: "pool_inv s" and p: "has_parent (child s p)" "p \<notin> dying s" and r: "slab_add_new_page True p (heap s) = (True, h)"
  shows "pool_inv (s\<lparr>heap := h, home := (home s)(next_page (heap s) := p)\<rparr>)" (is "pool_inv ?t")
proof -
  note l = pool_invD(3)[OF inv]
  let ?n = "elements (heap s)" and ?pg = "next_page (heap s)"
  have h: "parent h = parent (heap s)" "num_remaining h = num_remaining (heap s)" "freed_pages h = freed_pages (heap s)" "next_page h = Suc ?pg"
    "elt_owner h = (\<lambda>e. if fst e = ?pg \<and> snd e < ?n then ChildOwner p else elt_owner (heap s) e)"
    "children h = (child s)(p := child s p\<lparr>free_list := rev (map (Pair ?pg) [0..<?n]) @ free_list (child s p), pages := ?pg # pages (child s p)\<rparr>)"
    using r by (auto simp: slab_add_new_page_def Let_def fold_page_elements)
  have none: "count_list (free_list (child s q)) e = 0" "count_list (migrated (child s q)) e = 0" if "fst e = ?pg" for q e
    using listed[OF l, of e q] that by (auto simp: count_list_0_iff)
  have T: "places ?t e = (if fst e = ?pg then (if snd e < ?n then 1 else 0) else places s e)" for e
  proof (cases "fst e = ?pg")
    case True
    then have "places s e = 0" using pool_lists_okD(1)[OF l, of e] by (cases "0 < places s e") auto
    then show ?thesis using none[of e] True by (simp add: places_def h count_page_elements)
  qed (simp add: places_def h count_page_elements)
  have pl: "page_live ?t q \<longleftrightarrow> q = ?pg \<or> page_live s q" for q using p by (auto simp: page_live_def h)
  have "\<not> page_live s ?pg" using pool_lists_okD(4)[OF l, of ?pg "home s ?pg"] by (auto simp: page_live_def)
  have in_page: "fst e < Suc ?pg \<and> snd e < ?n" if "0 < places ?t e" for e
    using that pool_lists_okD(1)[OF l, of e] by (cases "fst e = ?pg") (auto simp: T split: if_splits)
  have "pool_lists_ok ?t" unfolding pool_lists_ok_def pl
  proof (intro conjI)
    show "\<forall>e. 0 < places ?t e \<longrightarrow> fst e < next_page (heap ?t) \<and> snd e < elements (heap ?t)" using in_page by (simp add: h)
    show "\<forall>pg i. (pg, i) \<in># orphans ?t \<longrightarrow> \<not> (pg = ?pg \<or> page_live s pg)"
      using pool_lists_okD(8)[OF l] pool_lists_okD(1)[OF l] by (fastforce simp: places_def)
    show "\<forall>q. \<forall>e\<in>set (free_list (child ?t q)) \<union> set (migrated (child ?t q)). home ?t (fst e) = q \<and> fst e < next_page (heap ?t)"
    proof (intro allI ballI)
      fix q e assume "e \<in> set (free_list (child ?t q)) \<union> set (migrated (child ?t q))"
      then have "fst e = ?pg \<and> q = p \<or> e \<in> set (free_list (child s q)) \<union> set (migrated (child s q))" by (auto simp: h split: if_splits)
      then show "home ?t (fst e) = q \<and> fst e < next_page (heap ?t)" using listed[OF l, of e q] by (auto simp: h)
    qed
    show "\<forall>q. distinct (pages (child ?t q)) \<and> (\<forall>pg\<in>set (pages (child ?t q)). pg < next_page (heap ?t) \<and> home ?t pg = q)"
    proof
      fix q
      have "?pg \<notin> set (pages (child s q))" using pool_lists_okD(4)[OF l, of ?pg q] by auto
      then show "distinct (pages (child ?t q)) \<and> (\<forall>pg\<in>set (pages (child ?t q)). pg < next_page (heap ?t) \<and> home ?t pg = q)"
        using pool_lists_okD(4)[OF l, of _ q] pool_lists_okD(5)[OF l, of q] by (auto simp: h less_SucI split: if_splits)
    qed
    show "\<forall>q pg i. (pg, i) \<in> set (migrated (child ?t q)) \<longrightarrow> pg = ?pg \<or> page_live s pg"
      using pool_lists_okD(9)[OF l] by (auto simp: h split: if_splits)
  qed (use pool_lists_okD(6,7)[OF l] p in \<open>auto simp: h\<close>)
  note lists = this
  show ?thesis
  proof (rule pool_invI)
    show "live_ok (heap ?t) (home ?t) (places ?t) q" if "q < next_page (heap ?t)" "page_live ?t q" for q
      using that pool_invD(5)[OF inv, of q] pool_invD(7)[OF inv, of q] pl by (cases "q = ?pg") (auto simp: T live_ok_def h)
    show "orphan_ok (heap ?t) (places ?t) q" if "q < next_page (heap ?t)" "\<not> page_live ?t q" for q
      using that pool_invD(6)[OF inv, of q] pl by (cases "q = ?pg") (auto simp: T orphan_ok_def h)
  qed (use pool_invD(1,2,4,7)[OF inv] lists in \<open>auto simp: h less_SucI\<close>)
qed

section \<open>Reachable states\<close>

lemma pool_init_inv: "pool_init s \<Longrightarrow> pool_inv s"
  by (rule pool_invI) (auto simp: pool_init_def pool_lists_ok_def places_def page_live_def)

lemma pool_step_keeps_inv:
  assumes "pool_step s t" "pool_inv s"
  shows "pool_inv t"
  using assms
proof (induction rule: pool_step.induct)
  case (create s p)
  then have "pages (child s p) = [] \<and> free_list (child s p) = [] \<and> migrated (child s p) = []" and "p \<notin> dying s"
    using pool_lists_okD(6,7)[OF pool_invD(3), of s p] by auto
  then show ?case using inv_empty_pool[of s p _ "dying s"] create.prems by (simp add: slab_create_child_def)
next
  case (collect s p)
  then show ?case by (simp add: inv_collect)
next
  case (add_page s p h)
  then show ?case by (simp add: inv_add_page)
next
  case (take s p e h)
  then show ?case using inv_take[of s p e] by (auto simp: slab_take_def split: list.splits)
next
  case (destroy_locked s p h)
  then show ?case using destroy_locked_ok[of s p] by (metis option.inject)
next
  case (destroy_free p s e es h)
  then show ?case using destroy_free_ok[of s p e es] by (metis option.inject)
next
  case (destroy_end p s)
  then have "pages (child s p) = [] \<and> free_list (child s p) = [] \<and> migrated (child s p) = []"
    using pool_lists_okD(6)[OF pool_invD(3), of s p] by auto
  then show ?case using inv_empty_pool[of s p "child s p\<lparr>has_parent := False\<rparr>" "dying s - {p}"] destroy_end.prems
    by (simp add: update_child_def)
next
  case (free_unlocked e s p h)
  then have own: "h = heap s" "\<exists>pg. elt_owner (heap s) e = PageOwner pg" by (auto simp: slab_free_unlocked_def split: slab_owner.splits)
  then show ?case using inv_free_stray[OF inv_free_begin[OF free_unlocked.prems free_unlocked.hyps(1)], of e] by auto
qed (simp_all add: inv_free_fast inv_free_begin inv_free_locked inv_free_orphan)

lemma pool_steps_keep_inv: "pool_step\<^sup>*\<^sup>* s t \<Longrightarrow> pool_inv s \<Longrightarrow> pool_inv t"
  by (induction rule: rtranclp_induct) (auto intro: pool_step_keeps_inv)

lemma pool_reachable_inv: "pool_reachable s \<Longrightarrow> pool_inv s"
  using pool_steps_keep_inv pool_init_inv unfolding pool_reachable_def by blast

text \<open>The functions run to their end alone are sequences of steps.\<close>

lemma pool_alloc_steps:
  assumes p: "has_parent (child s p)" "p \<notin> dying s" and r: "slab_alloc ok p (heap s) = (r, h)"
  obtains t where "pool_step\<^sup>*\<^sup>* s t" "heap t = h" "held t = held s + (case r of None \<Rightarrow> {#} | Some e \<Rightarrow> {#e#})" "pending t = pending s"
    "orphans t = orphans s" "dying t = dying s"
proof -
  note ret = that
  have take: thesis if u: "pool_step\<^sup>*\<^sup>* s u" "held u = held s" "pending u = pending s" "orphans u = orphans s" "dying u = dying s"
      "has_parent (child u p)" "free_list (child u p) \<noteq> []" "slab_take p (heap u) = (r, h)" for u
  proof -
    obtain e where e: "r = Some e" using u(7,8) by (auto simp: slab_take_def split: list.splits)
    then have "pool_step u (u\<lparr>heap := h, held := add_mset e (held u)\<rparr>)" using u p by (intro pool_step.take) auto
    then have "pool_step\<^sup>*\<^sup>* s (u\<lparr>heap := h, held := add_mset e (held u)\<rparr>)" using u(1) by simp
    then show thesis by (rule ret) (use u e in simp_all)
  qed
  show thesis
  proof (cases "free_list (child s p)")
    case (Cons e es)
    then show thesis using take[of s] r p by (simp add: slab_alloc_def)
  next
    case Nil
    let ?u = "s\<lparr>heap := slab_collect p (heap s)\<rparr>"
    have u: "pool_step s ?u" using p Nil by (intro pool_step.collect) auto
    have su: "pool_step\<^sup>*\<^sup>* s ?u" using u by (rule r_into_rtranclp)
    have up: "has_parent (child ?u p)" using p by (simp add: slab_collect_def)
    show thesis
    proof (cases "free_list (child ?u p)")
      case (Cons e es)
      then show thesis using take[of ?u] r su up Nil by (simp add: slab_alloc_def)
    next
      case none: Nil
      show thesis
      proof (cases ok)
        case False
        then have "r = None" "h = heap ?u" using r Nil none by (auto simp: slab_alloc_def slab_add_new_page_def)
        then show thesis using su ret[of ?u] by simp
      next
        case True
        obtain k where k: "slab_add_new_page True p (heap ?u) = (True, k)" by (auto simp: slab_add_new_page_def Let_def)
        let ?v = "?u\<lparr>heap := k, home := (home ?u)(next_page (heap ?u) := p)\<rparr>"
        have v: "pool_step\<^sup>*\<^sup>* s ?v" using su pool_step.add_page[of ?u p k] up p none k by (auto intro: rtranclp.rtrancl_into_rtrancl)
        have t: "slab_take p k = (r, h)" using r Nil none True k by (simp add: slab_alloc_def)
        show thesis
        proof (cases "free_list (children k p)")
          case Nil
          then show thesis using ret[of ?v] v t by (simp add: slab_take_def)
        next
          case (Cons e es)
          have "has_parent (child ?v p)" using k up by (auto simp: slab_add_new_page_def Let_def)
          then show thesis using take[of ?v] v t Cons by simp
        qed
      qed
    qed
  qed
qed

lemma free_unlocked_alone: "slab_free_unlocked e h = slab_free_locked e h"
proof -
  have "c\<lparr>migrated := e # migrated c\<rparr> = migrated_update ((#) e) c" for c :: slab_child_pool by (cases c) simp
  then have "update_child q (migrated_update (\<lambda>_. e # migrated (children h q))) h = update_child q (migrated_update ((#) e)) h" for q
    by (simp only: update_child_def)
  then show ?thesis
    by (simp add: slab_free_unlocked_def slab_free_locked_def slab_push_write_def slab_push_read_def split: slab_owner.split)
qed

lemma slab_free_alone:
  "slab_free p e h = (if elt_owner h e = ChildOwner p then Some (slab_free_fast p e h)
     else case slab_free_locked e h of (True, h1) \<Rightarrow> slab_free_orphaned e h1 | (False, h1) \<Rightarrow> Some h1)"
  by (simp add: slab_free_def free_unlocked_alone)

text \<open>\<open>slab_free\<close> for an element of the clients: with the mutex, or for an element that is already orphaned.\<close>

lemma pool_free_orphan_end:
  assumes sv: "pool_step\<^sup>*\<^sup>* s v" and inv: "pool_inv s" and e: "e \<in># orphans v"
  obtains h where "slab_free_orphaned e (heap v) = Some h" "pool_step\<^sup>*\<^sup>* s (v\<lparr>heap := h, orphans := orphans v - {#e#}\<rparr>)"
proof -
  obtain h where h: "slab_free_orphaned e (heap v) = Some h" using free_orphaned_spec[OF pool_steps_keep_inv[OF sv inv] e] by metis
  then show thesis using that rtranclp.rtrancl_into_rtrancl[OF sv pool_step.free_orphan[OF e h]] by blast
qed

lemma pool_free_locked_steps:
  assumes inv: "pool_inv s" and e: "e \<in># held s" and p: "elt_owner (heap s) e \<noteq> ChildOwner p" "has_parent (child s p)"
  obtains h t where "slab_free p e (heap s) = Some h" "pool_step\<^sup>*\<^sup>* s t" "heap t = h" "held t = held s - {#e#}"
    "pending t = pending s" "orphans t = orphans s" "dying t = dying s"
proof -
  let ?u = "s\<lparr>held := held s - {#e#}, pending := add_mset e (pending s)\<rparr>"
  obtain b k where k: "slab_free_locked e (heap ?u) = (b, k)" by (cases "slab_free_locked e (heap ?u)")
  let ?v = "?u\<lparr>heap := k, pending := pending ?u - {#e#}, orphans := (if b then add_mset e (orphans ?u) else orphans ?u)\<rparr>"
  have u: "pool_step s ?u" using pool_step.free_begin[OF e p] .
  have v: "pool_step ?u ?v" by (rule pool_step.free_locked[OF _ k]) simp
  have sv: "pool_step\<^sup>*\<^sup>* s ?v" using u v by (meson rtranclp.rtrancl_into_rtrancl r_into_rtranclp)
  show thesis
  proof (cases b)
    case True
    then have ev: "e \<in># orphans ?v" by simp
    obtain h where h: "slab_free_orphaned e (heap ?v) = Some h" "pool_step\<^sup>*\<^sup>* s (?v\<lparr>heap := h, orphans := orphans ?v - {#e#}\<rparr>)"
      by (rule pool_free_orphan_end[OF sv inv ev])
    show thesis by (rule that[OF _ h(2)]) (use True p(1) k h(1) in \<open>simp_all add: slab_free_alone\<close>)
  next
    case False
    then show thesis using that[of k ?v] sv p(1) k by (simp add: slab_free_alone)
  qed
qed

lemma pool_free_steps:
  assumes inv: "pool_inv s" and e: "e \<in># held s" and p: "has_parent (child s p) \<or> elt_owner (heap s) e = PageOwner pg"
  obtains h t where "slab_free p e (heap s) = Some h" "pool_step\<^sup>*\<^sup>* s t" "heap t = h" "held t = held s - {#e#}"
    "pending t = pending s" "orphans t = orphans s" "dying t = dying s"
proof (cases "elt_owner (heap s) e = ChildOwner p")
  case True
  then show thesis using that[of _ "s\<lparr>heap := slab_free_fast p e (heap s), held := held s - {#e#}\<rparr>"] pool_step.free_fast[OF e True]
    by (auto simp: slab_free_def)
next
  case other: False
  show thesis
  proof (cases "has_parent (child s p)")
    case True
    show thesis by (rule pool_free_locked_steps[OF inv e other True]) (rule that)
  next
    case False
    then have own: "elt_owner (heap s) e = PageOwner pg" using p by simp
    let ?v = "s\<lparr>heap := heap s, held := held s - {#e#}, orphans := add_mset e (orphans s)\<rparr>"
    have v: "pool_step\<^sup>*\<^sup>* s ?v" by (rule r_into_rtranclp, rule pool_step.free_unlocked[OF e False]) (simp add: slab_free_unlocked_def own)
    have ev: "e \<in># orphans ?v" by simp
    obtain h where h: "slab_free_orphaned e (heap ?v) = Some h" "pool_step\<^sup>*\<^sup>* s (?v\<lparr>heap := h, orphans := orphans ?v - {#e#}\<rparr>)"
      by (rule pool_free_orphan_end[OF v inv ev])
    show thesis by (rule that[OF _ h(2)]) (use own h(1) in \<open>simp_all add: slab_free_alone slab_free_locked_def\<close>)
  qed
qed

text \<open>\<open>slab_free\<close> that no other thread interrupts returns with any pool.\<close>

lemma slab_free_returns:
  assumes inv: "pool_inv s" and e: "e \<in># held s"
  shows "\<exists>h. slab_free p e (heap s) = Some h"
proof (cases "elt_owner (heap s) e")
  case (ChildOwner q)
  then show ?thesis by (simp add: slab_free_alone slab_free_locked_def)
next
  case (PageOwner pg)
  then show ?thesis using pool_free_steps[OF inv e, of p pg] by metis
qed

lemma slab_free_orphaned_update: "slab_free_orphaned e (update_child p f h) = map_option (update_child p f) (slab_free_orphaned e h)"
  by (simp add: slab_free_orphaned_def update_child_def Let_def split: slab_owner.split)

lemma free_orphans_update: "free_orphans es (update_child p f h) = map_option (update_child p f) (free_orphans es h)"
  by (induction es arbitrary: h) (simp_all add: slab_free_orphaned_update split: option.split)

lemma update_child_twice: "update_child p f (update_child p g h) = update_child p (f \<circ> g) h"
  by (simp add: update_child_def)

lemma destroy_loop:
  assumes "pool_inv s" "p \<in> dying s" "free_list (child s p) = es"
  shows "\<exists>h. free_orphans es (heap s) = Some h \<and> pool_step\<^sup>*\<^sup>* s (s\<lparr>heap := update_child p (free_list_update (\<lambda>_. [])) h\<rparr>)"
  using assms
proof (induction es arbitrary: s)
  case Nil
  then have "child s p\<lparr>free_list := []\<rparr> = child s p" by (cases "child s p") simp
  then have "update_child p (free_list_update (\<lambda>_. [])) (heap s) = heap s" by (cases "heap s") (simp add: update_child_def)
  then show ?case by simp
next
  case (Cons e es)
  obtain h where h: "slab_free_orphaned e (update_child p (free_list_update (\<lambda>_. es)) (heap s)) = Some h" "pool_inv (s\<lparr>heap := h\<rparr>)"
      "children h = (child s)(p := child s p\<lparr>free_list := es\<rparr>)"
    using destroy_free_ok[OF Cons.prems] by metis
  obtain k where k: "slab_free_orphaned e (heap s) = Some k" "h = update_child p (free_list_update (\<lambda>_. es)) k"
    using h(1) by (auto simp: slab_free_orphaned_update)
  have step: "pool_step s (s\<lparr>heap := h\<rparr>)" using pool_step.destroy_free[OF Cons.prems(2,3) h(1)] .
  obtain x where x: "free_orphans es h = Some x" "pool_step\<^sup>*\<^sup>* (s\<lparr>heap := h\<rparr>) (s\<lparr>heap := update_child p (free_list_update (\<lambda>_. [])) x\<rparr>)"
    using Cons.IH[of "s\<lparr>heap := h\<rparr>"] h Cons.prems by auto
  obtain y where y: "free_orphans es k = Some y" "x = update_child p (free_list_update (\<lambda>_. es)) y"
    using x(1) by (auto simp: k free_orphans_update)
  have "pool_step\<^sup>*\<^sup>* s (s\<lparr>heap := update_child p (free_list_update (\<lambda>_. [])) y\<rparr>)"
    using converse_rtranclp_into_rtranclp[OF step x(2)] by (simp add: y update_child_twice comp_def)
  then show ?case using k y by simp
qed

lemma pool_destroy_steps:
  assumes inv: "pool_inv s" and p: "has_parent (child s p)" "p \<notin> dying s"
  obtains h where "slab_destroy_child p (heap s) = Some h" "pool_step\<^sup>*\<^sup>* s (s\<lparr>heap := h\<rparr>)" "\<not> has_parent (children h p)"
proof -
  obtain h1 where h1: "slab_destroy_locked p (heap s) = Some h1" "pool_inv (s\<lparr>heap := h1, dying := insert p (dying s)\<rparr>)"
    using destroy_locked_ok[OF inv p] by metis
  let ?u = "s\<lparr>heap := h1, dying := insert p (dying s)\<rparr>"
  obtain h2 where h2: "free_orphans (free_list (children h1 p)) h1 = Some h2"
      "pool_step\<^sup>*\<^sup>* ?u (?u\<lparr>heap := update_child p (free_list_update (\<lambda>_. [])) h2\<rparr>)"
    using destroy_loop[OF h1(2), of p] by auto
  let ?v = "?u\<lparr>heap := update_child p (free_list_update (\<lambda>_. [])) h2\<rparr>"
  let ?h = "update_child p (has_parent_update (\<lambda>_. False)) (heap ?v)"
  have "pool_step ?v (?v\<lparr>heap := ?h, dying := dying ?v - {p}\<rparr>)" by (rule pool_step.destroy_end) simp_all
  moreover have "?v\<lparr>heap := ?h, dying := dying ?v - {p}\<rparr> = s\<lparr>heap := ?h\<rparr>" using p(2) by (intro pool_sys.equality) auto
  ultimately have "pool_step\<^sup>*\<^sup>* s (s\<lparr>heap := ?h\<rparr>)"
    using pool_step.destroy_locked[OF p h1(1)] h2(2) by (metis (no_types, lifting) converse_rtranclp_into_rtranclp rtranclp.rtrancl_into_rtrancl)
  then show thesis by (rule that[rotated]) (use p h1(1) h2(1) in \<open>simp_all add: slab_destroy_child_def free_orphans_update\<close>)
qed

lemma pool_reachable_steps: "pool_reachable s \<Longrightarrow> pool_step\<^sup>*\<^sup>* s t \<Longrightarrow> pool_reachable t"
  unfolding pool_reachable_def by (meson rtranclp_trans)

section \<open>What the allocator promises\<close>

lemma places_parts:
  assumes "pool_inv s" "e \<in># held s"
  shows "count (held s) e = 1" "e \<notin># pending s" "e \<notin># orphans s" "e \<notin> set (free_list (child s p))" "e \<notin> set (migrated (child s p))"
    "fst e < next_page (heap s)" "snd e < elements (heap s)" "fst e \<notin> set (freed_pages (heap s))"
proof -
  have pos: "0 < places s e" using assms(2) by (simp add: places_def)
  have one: "places s e = 1" and free: "fst e \<notin> set (freed_pages (heap s))"
  proof -
    show "places s e = 1" by (rule owner_cases[OF assms(1) pos])
    show "fst e \<notin> set (freed_pages (heap s))"
    proof (rule owner_cases[OF assms(1) pos])
      assume "orphan_ok (heap s) (places s) (fst e)" "snd e < elements (heap s)"
      then show ?thesis using member_le_sum[of "snd e" "{..<elements (heap s)}" "\<lambda>j. places s (fst e, j)"] pos
        by (auto simp: orphan_ok_def intro!: bexI[of _ "snd e"])
    qed
  qed
  have c: "0 < count (held s) e" using assms(2) by simp
  show "count (held s) e = 1" "e \<notin># pending s" "e \<notin># orphans s"
    using one c unfolding places_def count_greater_zero_iff[symmetric] by linarith+
  have z: "count_list (free_list (child s (home s (fst e)))) e = 0" "count_list (migrated (child s (home s (fst e)))) e = 0"
    using one c unfolding places_def by linarith+
  show "e \<notin> set (free_list (child s p))" "e \<notin> set (migrated (child s p))"
    using z listed[OF pool_invD(3)[OF assms(1)], of e p] by (auto simp: count_list_0_iff)
  show "fst e < next_page (heap s)" "snd e < elements (heap s)" using pool_lists_okD(1)[OF pool_invD(3)[OF assms(1)] pos] by auto
  show "fst e \<notin> set (freed_pages (heap s))" by (rule free)
qed

text \<open>A run for the examples: one pool with two elements per page.\<close>

definition sample_start :: pool_sys where
  "sample_start =
    \<lparr>heap = \<lparr>parent = slab_create_parent 24 2, elt_owner = (\<lambda>_. PageOwner 0), num_remaining = (\<lambda>_. 0), freed_pages = [], next_page = 0,
       children = (\<lambda>_. \<lparr>has_parent = False, pages = [], free_list = [], migrated = []\<rparr>)\<rparr>,
     held = {#}, pending = {#}, orphans = {#}, dying = {}, home = (\<lambda>_. 0)\<rparr>"

definition sample_pool :: pool_sys where
  "sample_pool = sample_start\<lparr>heap := slab_create_child 0 (heap sample_start)\<rparr>"

definition sample_heap :: slab_heap where
  "sample_heap = snd (slab_alloc True 0 (heap sample_pool))"

lemma sample_reachable: "pool_reachable sample_pool" "has_parent (child sample_pool 0)" "0 \<notin> dying sample_pool" "held sample_pool = {#}"
  "pending sample_pool = {#}" "orphans sample_pool = {#}"
proof -
  have "pool_init sample_start" by (simp add: pool_init_def sample_start_def slab_create_parent_def)
  moreover have "pool_step sample_start sample_pool" unfolding sample_pool_def by (rule pool_step.create) (simp add: sample_start_def)
  ultimately show "pool_reachable sample_pool" unfolding pool_reachable_def by blast
qed (simp_all add: sample_pool_def sample_start_def slab_create_child_def)

lemma sample_alloc: "slab_alloc True 0 (heap sample_pool) = (Some (0, 1), sample_heap)"
  by (simp add: sample_heap_def sample_pool_def sample_start_def slab_create_parent_def slab_create_child_def slab_alloc_def slab_collect_def
      slab_take_def slab_add_new_page_def upt_rec Let_def)

lemma sample_held:
  obtains t where "pool_reachable t" "heap t = sample_heap" "held t = {#(0, 1)#}" "pending t = {#}" "orphans t = {#}" "dying t = {}"
proof -
  obtain t where t: "pool_step\<^sup>*\<^sup>* sample_pool t" "heap t = sample_heap" "held t = held sample_pool + {#(0, 1)#}"
      "pending t = pending sample_pool" "orphans t = orphans sample_pool" "dying t = dying sample_pool"
    using pool_alloc_steps[OF sample_reachable(2,3) sample_alloc] by (metis option.case(2))
  have "pool_reachable t" using pool_reachable_steps[OF sample_reachable(1) t(1)] .
  then show thesis by (rule that) (use t sample_reachable(4-6) in \<open>simp_all add: sample_pool_def sample_start_def\<close>)
qed

lemma sample_heap_eq:
  "has_parent (children sample_heap 0)" "elt_owner sample_heap (0, 1) = ChildOwner 0" "slab_destroy_child 0 sample_heap = Some h \<Longrightarrow> elt_owner h (0, 1) = PageOwner 0"
  "slab_destroy_child 0 sample_heap = Some h \<Longrightarrow> slab_free 1 (0, 1) h = Some k
    \<Longrightarrow> next_page k = 1 \<and> (\<forall>p. \<not> has_parent (children k p))"
  by (auto simp: sample_heap_def sample_pool_def sample_start_def slab_create_parent_def slab_create_child_def slab_alloc_def slab_collect_def
      slab_take_def slab_add_new_page_def upt_rec slab_destroy_child_def slab_destroy_locked_def orphan_page_def
      slab_free_orphaned_def slab_free_alone slab_free_locked_def u32_def Let_def update_child_def)

text \<open>C18: whatever the interleaving of threads, pools and destructions, as long as an element of a live pool is freed with a pool
  that is not destroyed, the element that \<open>slab_alloc\<close> returns is held by nobody
  else and not on the way back, it is on no list of any pool any more, and it lies in a page that is not freed.\<close>

theorem slab_alloc_exclusive:
  assumes "pool_reachable s" "has_parent (child s p)" "p \<notin> dying s" and r: "slab_alloc malloc_ok p (heap s) = (Some e, h)"
  shows "e \<notin># held s \<and> e \<notin># pending s \<and> e \<notin># orphans s
    \<and> (\<forall>q. e \<notin> set (free_list (children h q)) \<and> e \<notin> set (migrated (children h q)))
    \<and> fst e < next_page h \<and> snd e < elements h \<and> fst e \<notin> set (freed_pages h)"
proof -
  obtain t where t: "pool_step\<^sup>*\<^sup>* s t" "heap t = h" "held t = held s + {#e#}" "pending t = pending s" "orphans t = orphans s"
    using pool_alloc_steps[OF assms(2-4)] by auto
  have inv: "pool_inv t" using t(1) assms(1) pool_reachable_inv pool_reachable_steps by blast
  have e: "e \<in># held t" using t(3) by simp
  note x = places_parts[OF inv e]
  have "e \<notin># held s" using x(1) t(3) by (simp add: count_eq_zero_iff)
  then show ?thesis using x t by simp
qed

text \<open>C18 at the first allocation of a pool.\<close>

theorem slab_alloc_exclusive_witness:
  "pool_reachable sample_pool \<and> slab_alloc True 0 (heap sample_pool) = (Some (0, 1), sample_heap) \<and> (0, 1) \<notin># held sample_pool
    \<and> (0, 1) \<notin> set (free_list (children sample_heap 0)) \<and> 0 \<notin> set (freed_pages sample_heap)"
  using slab_alloc_exclusive[OF sample_reachable(1-3) sample_alloc] sample_reachable(1) sample_alloc by auto

text \<open>C19: when all pools are destroyed and every element has been returned, in any order in which an element of a live pool is
  freed with a pool that is not destroyed, every page that was allocated has been freed, exactly once.\<close>

theorem slab_no_leak:
  assumes "pool_reachable s" "\<forall>p. \<not> has_parent (child s p)" "held s = {#}" "pending s = {#}" "orphans s = {#}"
  shows "distinct (freed_pages (heap s)) \<and> set (freed_pages (heap s)) = {..<next_page (heap s)}"
proof -
  have inv: "pool_inv s" using pool_reachable_inv[OF assms(1)] .
  note l = pool_lists_okD(7)[OF pool_invD(3)[OF inv]]
  have "pg \<in> set (freed_pages (heap s))" if "pg < next_page (heap s)" for pg
  proof -
    have "\<not> page_live s pg" using l assms(2) by (simp add: page_live_def)
    moreover have "places s e = 0" for e using l assms by (simp add: places_def)
    ultimately show ?thesis using pool_invD(6)[OF inv that] by (simp add: orphan_ok_def)
  qed
  then show ?thesis using pool_invD(4,7)[OF inv] by auto
qed

text \<open>C19 when a pool is destroyed while an element is held, which is freed with another pool later.\<close>

theorem slab_no_leak_witness:
  "\<exists>s. pool_reachable s \<and> (\<forall>p. \<not> has_parent (child s p)) \<and> held s = {#} \<and> pending s = {#} \<and> orphans s = {#} \<and> next_page (heap s) = 1
    \<and> distinct (freed_pages (heap s)) \<and> set (freed_pages (heap s)) = {0}"
proof -
  obtain t where t: "pool_reachable t" "heap t = sample_heap" "held t = {#(0, 1)#}" "pending t = {#}" "orphans t = {#}" "dying t = {}"
    by (rule sample_held)
  obtain h where h: "slab_destroy_child 0 sample_heap = Some h" "pool_reachable (t\<lparr>heap := h\<rparr>)"
    using pool_destroy_steps[OF pool_reachable_inv[OF t(1)], of 0] pool_reachable_steps[OF t(1)] t(2,6) sample_heap_eq(1) by (metis empty_iff)
  obtain u where u: "pool_reachable u" "slab_free 1 (0, 1) h = Some (heap u)" "held u = {#}" "pending u = {#}" "orphans u = {#}"
  proof -
    have e: "(0, 1) \<in># held (t\<lparr>heap := h\<rparr>)" using t(3) by simp
    obtain k u where "slab_free 1 (0, 1) (heap (t\<lparr>heap := h\<rparr>)) = Some k" "pool_step\<^sup>*\<^sup>* (t\<lparr>heap := h\<rparr>) u" "heap u = k"
        "held u = held (t\<lparr>heap := h\<rparr>) - {#(0, 1)#}" "pending u = pending (t\<lparr>heap := h\<rparr>)" "orphans u = orphans (t\<lparr>heap := h\<rparr>)"
      by (rule pool_free_steps[OF pool_reachable_inv[OF h(2)] e disjI2, of 0 1]) (use sample_heap_eq(3)[OF h(1)] in simp)
    then show thesis using pool_reachable_steps[OF h(2), of u] t(3-5) by (intro that[of u]) simp_all
  qed
  have k: "next_page (heap u) = 1 \<and> (\<forall>p. \<not> has_parent (child u p))" using sample_heap_eq(4)[OF h(1) u(2)] .
  then show ?thesis using slab_no_leak[OF u(1) _ u(3-5)] u by (intro exI[of _ u]) (auto simp: lessThan_Suc)
qed

text \<open>C28: in every reachable state \<open>slab_free\<close> of a held element returns with any pool, and \<open>slab_destroy_child\<close> of a pool that
  is not destroyed yet returns; no assertion fails in them. The state after them is reachable, for \<open>slab_free\<close> when the
  mutex is taken or the element is already orphaned.\<close>

theorem slab_free_and_destroy_return:
  assumes "pool_reachable s"
  shows "(e \<in># held s \<longrightarrow> (\<exists>h. slab_free q e (heap s) = Some h))
    \<and> (e \<in># held s \<and> (has_parent (child s q) \<or> elt_owner (heap s) e = PageOwner pg) \<longrightarrow>
        (\<exists>t. slab_free q e (heap s) = Some (heap t) \<and> pool_reachable t \<and> held t = held s - {#e#} \<and> pending t = pending s \<and> orphans t = orphans s))
    \<and> (has_parent (child s p) \<and> p \<notin> dying s \<longrightarrow>
        (\<exists>h. slab_destroy_child p (heap s) = Some h \<and> pool_reachable (s\<lparr>heap := h\<rparr>) \<and> \<not> has_parent (children h p)))"
proof (intro conjI impI)
  have inv: "pool_inv s" using pool_reachable_inv[OF assms] .
  show "\<exists>h. slab_free q e (heap s) = Some h" if "e \<in># held s" using slab_free_returns[OF inv that] .
  show "\<exists>t. slab_free q e (heap s) = Some (heap t) \<and> pool_reachable t \<and> held t = held s - {#e#} \<and> pending t = pending s \<and> orphans t = orphans s"
    if "e \<in># held s \<and> (has_parent (child s q) \<or> elt_owner (heap s) e = PageOwner pg)"
    using pool_free_steps[OF inv conjunct1[OF that] conjunct2[OF that]] pool_reachable_steps[OF assms] by metis
  show "\<exists>h. slab_destroy_child p (heap s) = Some h \<and> pool_reachable (s\<lparr>heap := h\<rparr>) \<and> \<not> has_parent (children h p)"
    if "has_parent (child s p) \<and> p \<notin> dying s"
    using pool_destroy_steps[OF inv conjunct1[OF that] conjunct2[OF that]] pool_reachable_steps[OF assms] by metis
qed

text \<open>C28 after an allocation: the element is freed with its pool or another one, its pool is destroyed, and the element is freed
  when no pool is left.\<close>

theorem slab_free_and_destroy_return_witness:
  "\<exists>s h. pool_reachable s \<and> (0, 1) \<in># held s \<and> (\<exists>t. slab_free 0 (0, 1) (heap s) = Some (heap t) \<and> pool_reachable t)
    \<and> (\<exists>k. slab_free 1 (0, 1) (heap s) = Some k) \<and> slab_destroy_child 0 (heap s) = Some h
    \<and> (\<exists>t. slab_free 0 (0, 1) h = Some (heap t) \<and> pool_reachable t \<and> held t = {#})"
proof -
  obtain t where t: "pool_reachable t" "heap t = sample_heap" "held t = {#(0, 1)#}" "dying t = {}" by (rule sample_held)
  have s: "has_parent (child t 0)" "(0, 1) \<in># held t" "0 \<notin> dying t" using sample_heap_eq(1) t by simp_all
  obtain h where h: "slab_destroy_child 0 (heap t) = Some h" "pool_reachable (t\<lparr>heap := h\<rparr>)"
    using slab_free_and_destroy_return[OF t(1), of "(0, 1)" 0 0 0] s by blast
  have own: "elt_owner h (0, 1) = PageOwner 0" using sample_heap_eq(3)[of h] h(1) t(2) by simp
  have "\<exists>u. slab_free 0 (0, 1) h = Some (heap u) \<and> pool_reachable u \<and> held u = {#}"
    using slab_free_and_destroy_return[OF h(2), where e = "(0, 1)" and q = 0 and pg = 0] own t(3) by auto
  moreover have "\<exists>u. slab_free 0 (0, 1) (heap t) = Some (heap u) \<and> pool_reachable u"
    using slab_free_and_destroy_return[OF t(1), where e = "(0, 1)" and q = 0] s by auto
  moreover have "\<exists>k. slab_free 1 (0, 1) (heap t) = Some k"
    using slab_free_and_destroy_return[OF t(1), where e = "(0, 1)" and q = 1] s by auto
  ultimately show ?thesis using t(1) s(2) h(1) by blast
qed

text \<open>The push without the mutex. When \<open>slab_alloc\<close> of the owner collects its migrated elements between the two accesses,
  the elements it took are put back on the list, and the one it returned is returned again.\<close>

theorem unlocked_push_race:
  assumes "free_list (children h q) = []" "migrated (children h q) = x # xs" "slab_alloc ok q h = (r, h1)"
    and k: "k = slab_push_write q e (slab_push_read q h) h1"
  shows "r = Some x" "free_list (children k q) = xs" "migrated (children k q) = e # x # xs"
    and "xs = [] \<Longrightarrow> slab_alloc ok q k = (Some e, k1) \<Longrightarrow> fst (slab_alloc ok q k1) = Some x"
proof -
  have "r = Some x \<and> h1 = update_child q (\<lambda>c. c\<lparr>migrated := [], free_list := xs\<rparr>) h"
    using assms(1-3) by (auto simp: slab_alloc_def slab_collect_def slab_take_def update_child_def)
  then have "r = Some x" and c: "children k q = children h q\<lparr>free_list := xs, migrated := e # x # xs\<rparr>"
    using assms(2) by (simp_all add: k slab_push_write_def slab_push_read_def)
  then show "r = Some x" "free_list (children k q) = xs" "migrated (children k q) = e # x # xs" by simp_all
  show "fst (slab_alloc ok q k1) = Some x" if "xs = []" "slab_alloc ok q k = (Some e, k1)"
    using that c by (auto simp: slab_alloc_def slab_collect_def slab_take_def)
qed

end
